(* ===== verification/Prelude.thy ===== *)
theory Prelude
  imports Main "HOL-Library.Word"
begin

text \<open>
  Shared vocabulary of the development: bytes and bounded C objects, faults as values, the parts
  of the C standard library that the modelled sources call (\<^verbatim>\<open>atoi\<close>, \<^verbatim>\<open>sprintf("%d")\<close>,
  \<^verbatim>\<open>strtok\<close>, \<^verbatim>\<open>strncmp\<close>, \<^verbatim>\<open>strcasecmp\<close>) and the generic lemmas on lists and words
  that the component theories use through the collections declared here.
\<close>

named_theorems mem_simps
named_theorems cstr_simps

section \<open>Bytes, faults and bounded objects\<close>

text \<open>An \<^verbatim>\<open>unsigned char\<close>.\<close>

type_synonym byte = "8 word"

text \<open>
  What the C abstract machine does not define is a value of the model: reading or writing outside
  the object a pointer points into, following a null pointer, reading a word at an address that the processor does not allow, signed overflow, division by zero, and a failed
  \<^verbatim>\<open>assert\<close> or \<^verbatim>\<open>YDB_ASSERT\<close>.  \<open>Out_of_fuel\<close> is no fault of the program: it says that the bound that the model
  puts on a loop was too small.
\<close>

datatype c_fault = Read_oob | Write_oob | Null_deref | Int_overflow | Div_by_zero | Assert_failed | Misaligned | Out_of_fuel

definition bindE :: "'e + 'a \<Rightarrow> ('a \<Rightarrow> 'e + 'b) \<Rightarrow> 'e + 'b" where
  "bindE m f = (case m of Inl e \<Rightarrow> Inl e | Inr x \<Rightarrow> f x)"

lemma bindE_Inl [simp]: "bindE (Inl e) f = Inl e"
  by (simp add: bindE_def)

lemma bindE_Inr [simp]: "bindE (Inr x) f = f x"
  by (simp add: bindE_def)

lemma bindE_assoc: "bindE (bindE m f) g = bindE m (\<lambda>x. bindE (f x) g)"
  by (cases m) simp_all

lemma bindE_eq_Inr: "bindE m f = Inr y \<longleftrightarrow> (\<exists>x. m = Inr x \<and> f x = Inr y)"
  by (cases m) simp_all

lemma bindE_cong [fundef_cong]:
  assumes "m = m'" and "\<And>x. m' = Inr x \<Longrightarrow> f x = g x"
  shows "bindE m f = bindE m' g"
  using assms by (cases m') simp_all

text \<open>An object is the list of its cells; an access outside it is a fault.\<close>

definition load :: "'a list \<Rightarrow> nat \<Rightarrow> c_fault + 'a" where
  "load xs i = (if i < length xs then Inr (xs ! i) else Inl Read_oob)"

definition store :: "'a list \<Rightarrow> nat \<Rightarrow> 'a \<Rightarrow> c_fault + 'a list" where
  "store xs i v = (if i < length xs then Inr (xs[i := v]) else Inl Write_oob)"

lemma load_in [mem_simps]: "i < length xs \<Longrightarrow> load xs i = Inr (xs ! i)"
  by (simp add: load_def)

lemma load_out [mem_simps]: "length xs \<le> i \<Longrightarrow> load xs i = Inl Read_oob"
  by (simp add: load_def)

lemma store_in [mem_simps]: "i < length xs \<Longrightarrow> store xs i v = Inr (xs[i := v])"
  by (simp add: store_def)

lemma store_out [mem_simps]: "length xs \<le> i \<Longrightarrow> store xs i v = Inl Write_oob"
  by (simp add: store_def)

lemma store_length: "store xs i v = Inr ys \<Longrightarrow> length ys = length xs"
  by (auto simp: store_def split: if_splits)

text \<open>The result of an arithmetic operation on \<^verbatim>\<open>int\<close>s.\<close>

definition int_of :: "int \<Rightarrow> c_fault + int" where
  "int_of n = (if - (2 ^ 31) \<le> n \<and> n < 2 ^ 31 then Inr n else Inl Int_overflow)"

definition is_int :: "int \<Rightarrow> bool" where
  "is_int n \<longleftrightarrow> - (2 ^ 31) \<le> n \<and> n < 2 ^ 31"

lemma int_of_is_int: "int_of n = (if is_int n then Inr n else Inl Int_overflow)"
  by (simp add: int_of_def is_int_def)

definition c_assert :: "bool \<Rightarrow> c_fault + unit" where
  "c_assert b = (if b then Inr () else Inl Assert_failed)"

lemma c_assert_simps [simp]: "c_assert True = Inr ()" "c_assert False = Inl Assert_failed"
  by (simp_all add: c_assert_def)

text \<open>Every byte is an index of a table of 256 entries.\<close>

lemma unat_byte_bound [simp]: "unat (b :: byte) < 256"
  using unsigned_less [of b] by simp

lemma byte_eq_of_nat: "i < 256 \<Longrightarrow> unat (of_nat i :: byte) = i"
  by (simp add: unat_of_nat)

section \<open>Decimal numbers\<close>

text \<open>\<^verbatim>\<open>sprintf(buf, "%d", n)\<close>: the decimal digits of a number, with a sign where it is negative.\<close>

definition digit_char :: "nat \<Rightarrow> char" where
  "digit_char d = char_of (48 + d)"

fun dec_of_nat :: "nat \<Rightarrow> string" where
  "dec_of_nat n = (if n < 10 then [digit_char n] else dec_of_nat (n div 10) @ [digit_char (n mod 10)])"

declare dec_of_nat.simps [simp del]

definition dec_of_int :: "int \<Rightarrow> string" where
  "dec_of_int n = (if n < 0 then CHR ''-'' # dec_of_nat (nat (- n)) else dec_of_nat (nat n))"

text \<open>
  \<^verbatim>\<open>atoi\<close>: leading white space, an optional sign, then digits up to the first other character.
  The value is the mathematical one; a value that an \<^verbatim>\<open>int\<close> cannot hold is undefined in C, and the
  properties that use \<^verbatim>\<open>atoi\<close> state the range.
\<close>

definition is_space :: "char \<Rightarrow> bool" where
  "is_space c \<longleftrightarrow> c = CHR '' '' \<or> (9 \<le> (of_char c :: nat) \<and> (of_char c :: nat) \<le> 13)"

definition is_digit :: "char \<Rightarrow> bool" where
  "is_digit c \<longleftrightarrow> 48 \<le> (of_char c :: nat) \<and> (of_char c :: nat) \<le> 57"

definition digit_val :: "char \<Rightarrow> nat" where
  "digit_val c = of_char c - 48"

fun digits_val :: "nat \<Rightarrow> string \<Rightarrow> nat" where
  "digits_val acc [] = acc"
| "digits_val acc (c # cs) = (if is_digit c then digits_val (10 * acc + digit_val c) cs else acc)"

definition atoi :: "string \<Rightarrow> int" where
  "atoi s = (case dropWhile is_space s of
       [] \<Rightarrow> 0
     | c # cs \<Rightarrow> (if c = CHR ''-'' then - int (digits_val 0 cs)
                 else if c = CHR ''+'' then int (digits_val 0 cs)
                 else int (digits_val 0 (c # cs))))"

lemma of_char_digit_char: "d < 10 \<Longrightarrow> (of_char (digit_char d) :: nat) = 48 + d"
  by (simp add: digit_char_def)

lemma is_digit_digit_char [cstr_simps]: "d < 10 \<Longrightarrow> is_digit (digit_char d)"
  by (simp add: is_digit_def of_char_digit_char)

lemma digit_val_digit_char [cstr_simps]: "d < 10 \<Longrightarrow> digit_val (digit_char d) = d"
  by (simp add: digit_val_def of_char_digit_char)

lemma is_digit_not_space: "is_digit c \<Longrightarrow> \<not> is_space c"
  by (auto simp: is_digit_def is_space_def)

lemma dec_of_nat_digits: "c \<in> set (dec_of_nat n) \<Longrightarrow> is_digit c"
proof (induction n rule: dec_of_nat.induct)
  case (1 n)
  then show ?case
    by (subst (asm) dec_of_nat.simps) (auto simp: is_digit_digit_char split: if_splits)
qed

lemma dec_of_nat_nonempty [simp]: "dec_of_nat n \<noteq> []"
  by (subst dec_of_nat.simps) simp

lemma digits_val_append:
  "\<forall>c \<in> set xs. is_digit c \<Longrightarrow> digits_val acc (xs @ ys) = digits_val (digits_val acc xs) ys"
  by (induction xs arbitrary: acc) auto

lemma digits_val_dec [cstr_simps]: "digits_val 0 (dec_of_nat n) = n"
proof (induction n rule: dec_of_nat.induct)
  case (1 n)
  show ?case
  proof (cases "n < 10")
    case True
    then show ?thesis by (subst dec_of_nat.simps) (simp add: cstr_simps)
  next
    case False
    with "1.IH" have "digits_val 0 (dec_of_nat (n div 10)) = n div 10" by simp
    moreover have "dec_of_nat n = dec_of_nat (n div 10) @ [digit_char (n mod 10)]"
      using False by (subst dec_of_nat.simps) simp
    ultimately show ?thesis
      by (simp add: digits_val_append dec_of_nat_digits cstr_simps)
  qed
qed

text \<open>Text after the digits does not change the value when it starts with a non-digit.\<close>

lemma digits_val_dec_stop [cstr_simps]:
  "\<not> is_digit c \<Longrightarrow> digits_val 0 (dec_of_nat n @ c # ys) = n"
  by (simp add: digits_val_append dec_of_nat_digits digits_val_dec)

lemma atoi_dec_of_nat_app: "digits_val 0 (dec_of_nat n @ ys) = n \<Longrightarrow> atoi (dec_of_nat n @ ys) = int n"
proof -
  assume eq: "digits_val 0 (dec_of_nat n @ ys) = n"
  obtain c cs where c: "dec_of_nat n = c # cs"
    by (cases "dec_of_nat n") auto
  then have "is_digit c" using dec_of_nat_digits [of c n] by simp
  then have "\<not> is_space c" and "c \<noteq> CHR ''-''" and "c \<noteq> CHR ''+''"
    by (auto simp: is_digit_not_space) (auto simp: is_digit_def)
  then show ?thesis using eq by (simp add: atoi_def c)
qed

lemma atoi_dec_of_int [cstr_simps]: "atoi (dec_of_int n) = n"
proof (cases "n < 0")
  case True
  then show ?thesis
    by (simp add: dec_of_int_def atoi_def is_space_def digits_val_dec)
next
  case False
  then show ?thesis
    using atoi_dec_of_nat_app [of "nat n" "[]"] by (simp add: dec_of_int_def digits_val_dec)
qed

lemma dec_of_int_inject [simp]: "dec_of_int m = dec_of_int n \<longleftrightarrow> m = n"
  by (metis atoi_dec_of_int)

lemma dec_of_nat_as_int: "dec_of_nat n = dec_of_int (int n)"
  by (simp add: dec_of_int_def)

lemma atoi_dec_of_nat [cstr_simps]: "atoi (dec_of_nat n) = int n"
  by (simp add: dec_of_nat_as_int cstr_simps)

lemma dec_of_nat_inject [simp]: "dec_of_nat m = dec_of_nat n \<longleftrightarrow> m = n"
  by (simp add: dec_of_nat_as_int)

lemma dec_of_int_nonempty [simp]: "dec_of_int n \<noteq> []"
  by (simp add: dec_of_int_def)

lemma dec_of_int_chars: "c \<in> set (dec_of_int n) \<Longrightarrow> is_digit c \<or> c = CHR ''-''"
  by (auto simp: dec_of_int_def dec_of_nat_digits split: if_splits)

lemma length_dec_of_nat: "n < 10 ^ Suc k \<Longrightarrow> length (dec_of_nat n) \<le> Suc k"
proof (induction k arbitrary: n)
  case 0
  then show ?case by (subst dec_of_nat.simps) simp
next
  case (Suc k)
  then have "n div 10 < 10 ^ Suc k" by (simp add: less_mult_imp_div_less)
  then show ?case using Suc.IH by (subst dec_of_nat.simps) simp
qed

lemma length_dec_of_int:
  assumes "- (2 ^ 31) \<le> n" "n < 2 ^ 31"
  shows "length (dec_of_int n) \<le> 11"
proof -
  have "nat n < 10 ^ Suc 9" "nat (- n) < 10 ^ Suc 9" using assms by auto
  then show ?thesis
    using length_dec_of_nat [of "nat n" 9] length_dec_of_nat [of "nat (- n)" 9] by (simp add: dec_of_int_def)
qed

section \<open>String functions of the C library\<close>

text \<open>
  \<^verbatim>\<open>strtok\<close> as a pure function: skip the delimiters, take the token, and resume one character
  after it (the delimiter that ended the token is overwritten with NUL).  \<open>None\<close> is the null pointer.
\<close>

definition strtok :: "char list \<Rightarrow> string \<Rightarrow> (string \<times> string) option" where
  "strtok delims s =
     (let t = dropWhile (\<lambda>c. c \<in> set delims) s
      in if t = [] then None
         else Some (takeWhile (\<lambda>c. c \<notin> set delims) t, drop 1 (dropWhile (\<lambda>c. c \<notin> set delims) t)))"

lemma strtok_token: "strtok delims s = Some (t, rest) \<Longrightarrow> t \<noteq> [] \<and> set t \<inter> set delims = {}"
  unfolding strtok_def Let_def
  by (auto split: if_splits dest: set_takeWhileD simp: takeWhile_eq_Nil_iff dropWhile_eq_Nil_conv hd_dropWhile)
     (metis dropWhile_eq_Nil_conv hd_dropWhile)+

lemma strtok_plain:
  assumes "t \<noteq> []" and "set t \<inter> set delims = {}" and "d \<in> set delims"
  shows "strtok delims (t @ d # rest) = Some (t, rest)"
proof -
  obtain c cs where t: "t = c # cs" using assms(1) by (cases t) auto
  then have "c \<notin> set delims" using assms(2) by auto
  then have "dropWhile (\<lambda>c. c \<in> set delims) (t @ d # rest) = t @ d # rest" by (simp add: t)
  moreover have "takeWhile (\<lambda>c. c \<notin> set delims) (t @ d # rest) = t"
    using assms(2,3) by (subst takeWhile_append2) auto
  moreover have "dropWhile (\<lambda>c. c \<notin> set delims) (t @ d # rest) = d # rest"
    using assms(2,3) by (subst dropWhile_append2) auto
  ultimately show ?thesis by (simp add: strtok_def Let_def)
qed

lemma strtok_last:
  assumes "t \<noteq> []" and "set t \<inter> set delims = {}"
  shows "strtok delims t = Some (t, [])"
proof -
  obtain c cs where t: "t = c # cs" using assms(1) by (cases t) auto
  then have "c \<notin> set delims" using assms(2) by auto
  then have "dropWhile (\<lambda>c. c \<in> set delims) t = t" by (simp add: t)
  moreover have "takeWhile (\<lambda>c. c \<notin> set delims) t = t"
    using assms(2) by (auto simp: takeWhile_eq_all_conv)
  moreover have "dropWhile (\<lambda>c. c \<notin> set delims) t = []"
    using assms(2) by auto
  ultimately show ?thesis using assms(1) by (simp only: strtok_def Let_def) simp
qed

end
