(* ===== verification/Collation_Core.thy ===== *)
theory Collation_Core
  imports Prelude
begin

text \<open>
  The alternative collation interface: the descriptors a collation library is called with, the
  table-driven transformation loops that the libraries of \<^verbatim>\<open>com/\<close>, \<^verbatim>\<open>collation/\<close>,
  \<^verbatim>\<open>merge/\<close> and \<^verbatim>\<open>longstr/\<close> share, their abstract contract as the locales
  \<open>collation\<close> and \<open>checked_collation\<close>, and what a caller may conclude from that contract.
  The libraries themselves are in the theories that import this one.
\<close>

section \<open>Descriptors and out-parameters\<close>

text \<open>
  \<open>len\<close> is the length the caller states and \<open>val\<close> the object that the pointer points to, so that
  a read or a write past the object is a fault even where \<open>len\<close> allows it.  A transformation
  returns its status, the bytes of the destination object and the value of \<^verbatim>\<open>*dstlen\<close>; the
  source and the destination are different objects.
\<close>

record gtm_descriptor =
  len :: int
  val :: "byte list"

type_synonym xlate_result = "c_fault + int \<times> byte list \<times> int"

definition SUBC2LONG :: int where
  "SUBC2LONG = 12345678"

section \<open>The table-driven transformation\<close>

text \<open>\<^verbatim>\<open>while ( n-- > 0 ) *cpout++ = table[*cp++];\<close> with \<open>i\<close> the offset of both pointers.\<close>

function xlate_loop :: "byte list \<Rightarrow> int \<Rightarrow> nat \<Rightarrow> byte list \<Rightarrow> byte list \<Rightarrow> c_fault + nat \<times> byte list" where
  "xlate_loop table n i cp cpout =
     (if n > 0
      then bindE (load cp i) (\<lambda>b.
           bindE (load table (unat b)) (\<lambda>t.
           bindE (store cpout i t) (\<lambda>cpout'.
           xlate_loop table (n - 1) (i + 1) cp cpout')))
      else Inr (i, cpout))"
  by pat_completeness auto
termination
  by (relation "measure (\<lambda>(table, n, i, cp, cpout). nat n)") auto

declare xlate_loop.simps [simp del]

text \<open>The transformation of the libraries that do not terminate their output.\<close>

definition table_xlate :: "byte list \<Rightarrow> gtm_descriptor \<Rightarrow> gtm_descriptor \<Rightarrow> int \<Rightarrow> xlate_result" where
  "table_xlate table src dst dstlen =
     (let n = len src
      in if n > len dst then Inr (SUBC2LONG, val dst, dstlen)
         else bindE (xlate_loop table n 0 (val src) (val dst)) (\<lambda>(i, out).
              Inr (0, out, len src)))"

text \<open>The transformation of the Polish libraries: the loop, then \<^verbatim>\<open>*cpout = '\0'\<close>.\<close>

definition table_xlate_nul :: "byte list \<Rightarrow> gtm_descriptor \<Rightarrow> gtm_descriptor \<Rightarrow> int \<Rightarrow> xlate_result" where
  "table_xlate_nul table src dst dstlen =
     (let n = len src
      in if n > len dst then Inr (SUBC2LONG, val dst, dstlen)
         else bindE (xlate_loop table n 0 (val src) (val dst)) (\<lambda>(i, out).
              bindE (store out i 0) (\<lambda>out'.
              Inr (0, out', len src))))"

text \<open>
  The same transformation on the wide descriptors (\<^verbatim>\<open>gtm32_descriptor\<close>), whose \<^verbatim>\<open>len\<close> is
  an \<^verbatim>\<open>unsigned int\<close>: \<open>n\<close> is an \<^verbatim>\<open>int\<close>, the comparison with \<^verbatim>\<open>dst->len\<close> is
  unsigned and \<^verbatim>\<open>*dstlen\<close> is an \<^verbatim>\<open>int\<close> again.
\<close>

definition c_int :: "int \<Rightarrow> int" where
  "c_int x = sint (word_of_int x :: 32 word)"

definition c_uint :: "int \<Rightarrow> int" where
  "c_uint x = uint (word_of_int x :: 32 word)"

definition table_xlate32 :: "byte list \<Rightarrow> gtm_descriptor \<Rightarrow> gtm_descriptor \<Rightarrow> int \<Rightarrow> xlate_result" where
  "table_xlate32 table src dst dstlen =
     (let n = c_int (len src)
      in if c_uint n > len dst then Inr (SUBC2LONG, val dst, dstlen)
         else bindE (xlate_loop table n 0 (val src) (val dst)) (\<lambda>(i, out).
              Inr (0, out, c_int (len src))))"

text \<open>
  \<^verbatim>\<open>gtm_ac_xutil\<close> of the table-driven libraries: the collation value of a character, or of the
  code point before or after it.
\<close>

definition table_xutil ::
  "byte list \<Rightarrow> gtm_descriptor \<Rightarrow> gtm_descriptor \<Rightarrow> int \<Rightarrow> int \<Rightarrow> xlate_result" where
  "table_xutil table inp out outlen opn =
     bindE (load (val inp) 0) (\<lambda>charindx.
       if opn = 0
       then bindE (load table (unat charindx)) (\<lambda>t.
            bindE (store (val out) 0 t) (\<lambda>v. Inr (0, v, 1)))
       else if opn = 1
       then (if 1 \<le> charindx
             then bindE (load table (unat charindx - 1)) (\<lambda>t.
                  bindE (store (val out) 0 t) (\<lambda>v. Inr (0, v, 1)))
             else Inr (0, val out, 0))
       else if opn = 2
       then (if charindx \<le> 254
             then bindE (load table (unat charindx + 1)) (\<lambda>t.
                  bindE (store (val out) 0 t) (\<lambda>v. Inr (0, v, 1)))
             else Inr (0, val out, 0))
       else Inr (-1, val out, outlen))"

text \<open>
  A library is what its shared object exports: the narrow transformations \<^verbatim>\<open>gtm_ac_xform\<close> and
  \<^verbatim>\<open>gtm_ac_xback\<close>, the wide ones with the suffix \<^verbatim>\<open>_1\<close>, the version and its check.
\<close>

record col_library =
  sym_xform :: "(gtm_descriptor \<Rightarrow> gtm_descriptor \<Rightarrow> int \<Rightarrow> xlate_result) option"
  sym_xback :: "(gtm_descriptor \<Rightarrow> gtm_descriptor \<Rightarrow> int \<Rightarrow> xlate_result) option"
  sym_xform_1 :: "(gtm_descriptor \<Rightarrow> gtm_descriptor \<Rightarrow> int \<Rightarrow> xlate_result) option"
  sym_xback_1 :: "(gtm_descriptor \<Rightarrow> gtm_descriptor \<Rightarrow> int \<Rightarrow> xlate_result) option"
  sym_version :: int
  sym_verify :: "byte \<Rightarrow> byte \<Rightarrow> int"

section \<open>Specification vocabulary\<close>

text \<open>The text a descriptor denotes, and whether its object holds that many bytes.\<close>

definition text_of :: "gtm_descriptor \<Rightarrow> byte list" where
  "text_of s = take (nat (len s)) (val s)"

definition readable :: "gtm_descriptor \<Rightarrow> bool" where
  "readable s \<longleftrightarrow> 0 \<le> len s \<and> nat (len s) \<le> length (val s)"

text \<open>The destination takes the text and \<open>pad\<close> bytes more.\<close>

definition has_room :: "nat \<Rightarrow> gtm_descriptor \<Rightarrow> gtm_descriptor \<Rightarrow> bool" where
  "has_room pad s d \<longleftrightarrow> len s \<le> len d \<and> nat (len s) + pad \<le> length (val d)"

definition put :: "nat \<Rightarrow> byte list \<Rightarrow> byte list \<Rightarrow> byte list" where
  "put pad ys out = ys @ replicate pad 0 @ drop (length ys + pad) out"

definition tbl_key :: "byte list \<Rightarrow> byte \<Rightarrow> byte" where
  "tbl_key table b = table ! unat b"

text \<open>Two tables of 256 entries, the second undoing the first.\<close>

definition inverse_tables :: "byte list \<Rightarrow> byte list \<Rightarrow> bool" where
  "inverse_tables t u \<longleftrightarrow> length t = 256 \<and> length u = 256 \<and>
     map (\<lambda>b. u ! unat b) t = map of_nat [0..<256]"

text \<open>The byte-wise order in which the database keeps transformed subscripts.\<close>

fun bytes_less :: "byte list \<Rightarrow> byte list \<Rightarrow> bool" where
  "bytes_less xs [] = False"
| "bytes_less [] (y # ys) = True"
| "bytes_less (x # xs) (y # ys) = (x < y \<or> (x = y \<and> bytes_less xs ys))"

text \<open>The order of the original strings that a key function on characters stands for.\<close>

fun collates_before :: "(byte \<Rightarrow> byte) \<Rightarrow> byte list \<Rightarrow> byte list \<Rightarrow> bool" where
  "collates_before key xs [] = False"
| "collates_before key [] (y # ys) = True"
| "collates_before key (x # xs) (y # ys) = (key x < key y \<or> (x = y \<and> collates_before key xs ys))"

lemma length_text_of [simp]: "readable s \<Longrightarrow> length (text_of s) = nat (len s)"
  by (simp add: text_of_def readable_def)

lemma length_put: "length ys + pad \<le> length out \<Longrightarrow> length (put pad ys out) = length out"
  by (simp add: put_def)

lemma take_put [simp]: "take (length ys) (put pad ys out) = ys"
  by (simp add: put_def)

lemma inverse_tables_key:
  assumes "inverse_tables t u"
  shows "tbl_key u (tbl_key t b) = b"
proof -
  have "map (\<lambda>b. u ! unat b) t ! unat b = (map of_nat [0..<256] ! unat b :: byte)"
    using assms by (simp add: inverse_tables_def)
  moreover have "length t = 256" using assms by (simp add: inverse_tables_def)
  ultimately show ?thesis by (simp add: tbl_key_def)
qed

lemma inverse_tables_length:
  assumes "inverse_tables t u"
  shows "length t = 256" and "length u = 256"
  using assms by (simp_all add: inverse_tables_def)

section \<open>What the loops compute\<close>

lemma xlate_loop_ok:
  assumes "length table = 256" "0 \<le> n" "i + nat n \<le> length cp" "i + nat n \<le> length out"
  shows "xlate_loop table n i cp out =
           Inr (i + nat n, take i out @ map (tbl_key table) (take (nat n) (drop i cp)) @ drop (i + nat n) out)"
  using assms
proof (induction table n i cp out rule: xlate_loop.induct)
  case (1 table n i cp out)
  show ?case
  proof (cases "n > 0")
    case False
    with "1.prems" show ?thesis by (simp add: xlate_loop.simps)
  next
    case True
    let ?v = "tbl_key table (cp ! i)"
    let ?out = "out[i := ?v]"
    have i: "i < length cp" "i < length out" using True "1.prems" by auto
    have Sn: "nat n = Suc (nat (n - 1))" using True by simp
    have ld: "load cp i = Inr (cp ! i)" "load table (unat (cp ! i)) = Inr ?v" "store out i ?v = Inr ?out"
      using i "1.prems"(1) by (simp_all add: mem_simps tbl_key_def)
    have "xlate_loop table n i cp out = xlate_loop table (n - 1) (i + 1) cp ?out"
      using True by (simp add: xlate_loop.simps [of table n] ld)
    also have "\<dots> = Inr (i + 1 + nat (n - 1), take (i + 1) ?out @
        map (tbl_key table) (take (nat (n - 1)) (drop (i + 1) cp)) @ drop (i + 1 + nat (n - 1)) ?out)"
      using "1.IH" [OF True ld] "1.prems" True by simp
    also have "\<dots> = Inr (i + nat n, take i out @ map (tbl_key table) (take (nat n) (drop i cp)) @ drop (i + nat n) out)"
      using i Sn by (simp add: take_Suc_conv_app_nth Cons_nth_drop_Suc [symmetric])
    finally show ?thesis .
  qed
qed

lemma xlate_loop_all:
  assumes "length table = 256" "readable s" "nat (len s) \<le> length out"
  shows "xlate_loop table (len s) 0 (val s) out =
           Inr (nat (len s), map (tbl_key table) (text_of s) @ drop (nat (len s)) out)"
  using assms by (simp add: xlate_loop_ok readable_def text_of_def)

text \<open>The three outcomes of a transformation: too long, done, or a write past the destination.\<close>

lemma table_xlate_long: "len d < len s \<Longrightarrow> table_xlate table s d n = Inr (SUBC2LONG, val d, n)"
  by (simp add: table_xlate_def)

lemma table_xlate_ok:
  assumes "length table = 256" "readable s" "has_room 0 s d"
  shows "table_xlate table s d n = Inr (0, put 0 (map (tbl_key table) (text_of s)) (val d), len s)"
  using assms by (simp add: table_xlate_def has_room_def xlate_loop_all put_def Let_def)

lemma table_xlate_nul_long: "len d < len s \<Longrightarrow> table_xlate_nul table s d n = Inr (SUBC2LONG, val d, n)"
  by (simp add: table_xlate_nul_def)

lemma table_xlate_nul_ok:
  assumes "length table = 256" "readable s" "has_room 1 s d"
  shows "table_xlate_nul table s d n = Inr (0, put 1 (map (tbl_key table) (text_of s)) (val d), len s)"
proof -
  let ?k = "map (tbl_key table) (text_of s)"
  let ?m = "nat (len s)"
  have room: "?m < length (val d)" "\<not> len s > len d" using assms(3) by (auto simp: has_room_def)
  have "store (?k @ drop ?m (val d)) ?m 0 = Inr (?k @ 0 # drop (Suc ?m) (val d))"
    using room assms(2) by (simp add: mem_simps list_update_append Cons_nth_drop_Suc [symmetric])
  then show ?thesis
    using assms room by (simp add: table_xlate_nul_def xlate_loop_all put_def Let_def)
qed

lemma table_xlate_nul_overflow:
  assumes "length table = 256" "readable s" "len s \<le> len d" "length (val d) = nat (len s)"
  shows "table_xlate_nul table s d n = Inl Write_oob"
  using assms by (simp add: table_xlate_nul_def xlate_loop_all mem_simps)

text \<open>Below two gigabytes the wide transformation is the narrow one.\<close>

lemma c_int_id: "- (2 ^ 31) \<le> x \<Longrightarrow> x < 2 ^ 31 \<Longrightarrow> c_int x = x"
  by (simp add: c_int_def sint_sbintrunc' signed_take_bit_int_eq_self)

lemma c_uint_id: "0 \<le> x \<Longrightarrow> x < 2 ^ 32 \<Longrightarrow> c_uint x = x"
  by (simp add: c_uint_def uint_word_of_int_eq take_bit_int_eq_self)

lemma table_xlate32_narrow:
  assumes "0 \<le> len s" "len s < 2 ^ 31"
  shows "table_xlate32 table s d n = table_xlate table s d n"
proof -
  have "c_int (len s) = len s" using assms by (intro c_int_id) auto
  moreover have "c_uint (len s) = len s" using assms by (intro c_uint_id) auto
  ultimately show ?thesis by (simp add: table_xlate32_def table_xlate_def Let_def)
qed

section \<open>The contract of a collation library\<close>

text \<open>
  A library transforms subscripts with \<open>xform\<close> and recovers them with \<open>xback\<close>.  What it promises:
  a text that it \<open>accepts\<close> and that fits is mapped character by character through \<open>key\<close>, the
  mapping can be undone, and after the text the library writes \<open>pad\<close> zero bytes.
\<close>

locale collation =
  fixes xform :: "gtm_descriptor \<Rightarrow> gtm_descriptor \<Rightarrow> int \<Rightarrow> xlate_result"
    and xback :: "gtm_descriptor \<Rightarrow> gtm_descriptor \<Rightarrow> int \<Rightarrow> xlate_result"
    and key :: "byte \<Rightarrow> byte"
    and unkey :: "byte \<Rightarrow> byte"
    and pad :: nat
    and accepts :: "byte list \<Rightarrow> bool"
  assumes unkey_key: "unkey (key b) = b"
    and xform_ok: "readable s \<Longrightarrow> has_room pad s d \<Longrightarrow> accepts (val s) \<Longrightarrow>
          xform s d n = Inr (0, put pad (map key (text_of s)) (val d), len s)"
    and xback_ok: "readable s \<Longrightarrow> has_room pad s d \<Longrightarrow>
          xback s d n = Inr (0, put pad (map unkey (text_of s)) (val d), len s)"
begin

lemma key_inject: "key a = key b \<longleftrightarrow> a = b"
  by (metis unkey_key)

lemma map_unkey_key: "map unkey (map key xs) = xs"
  by (induction xs) (simp_all add: unkey_key)

lemma order_preserved: "bytes_less (map key xs) (map key ys) \<longleftrightarrow> collates_before key xs ys"
  by (induction xs ys rule: list_induct2') (auto simp: key_inject)

lemma xform_text:
  assumes "readable s" "has_room pad s d" "accepts (val s)" "xform s d n = Inr (rc, out, m)"
  shows "rc = 0" and "m = len s" and "take (nat m) out = map key (text_of s)" and "length out = length (val d)"
proof -
  have eq: "rc = 0" "m = len s" "out = put pad (map key (text_of s)) (val d)"
    using assms(4) xform_ok [OF assms(1,2,3)] by simp_all
  show "rc = 0" "m = len s" by (simp_all add: eq)
  show "take (nat m) out = map key (text_of s)"
    using assms(1) take_put [of "map key (text_of s)"] by (simp add: eq)
  show "length out = length (val d)"
    using assms(1,2) by (simp add: eq has_room_def length_put)
qed

lemma round_trip:
  assumes "readable s" "has_room pad s d" "accepts (val s)" "xform s d n = Inr (rc, out, m)"
    and has_room_e: "has_room pad (d\<lparr>len := m, val := out\<rparr>) e"
  shows "\<exists>orig. xback (d\<lparr>len := m, val := out\<rparr>) e k = Inr (0, orig, len s) \<and>
           take (nat (len s)) orig = text_of s"
proof -
  note t = xform_text [OF assms(1-4)]
  let ?d = "d\<lparr>len := m, val := out\<rparr>"
  have "readable ?d" using assms(1,2) t by (auto simp: readable_def has_room_def)
  moreover have tx: "text_of ?d = map key (text_of s)" using t by (simp add: text_of_def)
  ultimately have "xback ?d e k = Inr (0, put pad (text_of s) (val e), len s)"
    using xback_ok [OF _ has_room_e, of k] t(2) by (simp add: map_unkey_key [unfolded map_map] unkey_key comp_def)
  then show ?thesis using take_put [of "text_of s"] assms(1) by simp
qed

lemma xform_inject:
  assumes "readable s" "has_room pad s d" "accepts (val s)" "xform s d n = Inr (rc, out, m)"
    and "readable s'" "has_room pad s' d'" "accepts (val s')" "xform s' d' n' = Inr (rc', out', m')"
    and "take (nat m) out = take (nat m') out'"
  shows "text_of s = text_of s'"
proof -
  have "map key (text_of s) = map key (text_of s')"
    using xform_text(3) [OF assms(1-4)] xform_text(3) [OF assms(5-8)] assms(9) by simp
  then show ?thesis by (metis map_unkey_key)
qed

lemma xform_order:
  assumes "readable s" "has_room pad s d" "accepts (val s)" "xform s d n = Inr (rc, out, m)"
    and "readable s'" "has_room pad s' d'" "accepts (val s')" "xform s' d' n' = Inr (rc', out', m')"
  shows "bytes_less (take (nat m) out) (take (nat m') out') \<longleftrightarrow> collates_before key (text_of s) (text_of s')"
  using xform_text(3) [OF assms(1-4)] xform_text(3) [OF assms(5-8)] by (simp add: order_preserved)

end

text \<open>Most libraries check the room the caller states and refuse, touching nothing, without it.\<close>

locale checked_collation = collation +
  assumes xform_long: "len d < len s \<Longrightarrow> xform s d n = Inr (SUBC2LONG, val d, n)"
    and xback_long: "len d < len s \<Longrightarrow> xback s d n = Inr (SUBC2LONG, val d, n)"
begin

text \<open>
  On a destination whose object has room for the stated length and the padding, such a library
  never faults.
\<close>

lemma total:
  assumes "readable s" "accepts (val s)" "nat (len d) + pad \<le> length (val d)" "0 \<le> len d"
  shows "\<exists>rc out m. xform s d n = Inr (rc, out, m) \<and> length out = length (val d) \<and>
           (rc = 0 \<longleftrightarrow> len s \<le> len d)"
proof (cases "len s \<le> len d")
  case True
  then have "has_room pad s d" using assms(3) by (simp add: has_room_def)
  then show ?thesis using assms True xform_ok [of s d n]
    by (simp add: length_put has_room_def)
next
  case False
  then show ?thesis using xform_long [of d s n] by (simp add: SUBC2LONG_def)
qed

end

text \<open>A table and its inverse make such a library, with either transformation.\<close>

lemma table_collation:
  assumes "inverse_tables t u"
  shows "checked_collation (table_xlate t) (table_xlate u) (tbl_key t) (tbl_key u) 0 (\<lambda>_. True)"
  using inverse_tables_length [OF assms]
  by unfold_locales
     (simp_all add: inverse_tables_key [OF assms] table_xlate_ok table_xlate_long)

lemma table_collation_nul:
  assumes "inverse_tables t u"
  shows "checked_collation (table_xlate_nul t) (table_xlate_nul u) (tbl_key t) (tbl_key u) 1 (\<lambda>_. True)"
  using inverse_tables_length [OF assms]
  by unfold_locales
     (simp_all add: inverse_tables_key [OF assms] table_xlate_nul_ok [simplified] table_xlate_nul_long)

end
