(* ===== verification/Col_Byte_Order.thy ===== *)
theory Col_Byte_Order
  imports Collation_Core
begin

text \<open>
  The libraries that keep or reverse the byte order: \<^verbatim>\<open>com/col_straight.c\<close>,
  \<^verbatim>\<open>com/col_reverse.c\<close>, the \<^verbatim>\<open>longstr/inref/col_reverse*.c\<close> variants (the narrow and the
  wide interface, and the incomplete libraries without an inverse or without any transformation) and
  \<^verbatim>\<open>v62000/inref/col_reverse.c\<close>, which overflows its destination on purpose.
\<close>

section \<open>com/col\_straight.c\<close>

definition straight_xform_table :: "byte list" where
  "straight_xform_table =
     [0, 1, 2, 3, 4, 5, 6, 7, 8, 9, 10, 11, 12, 13, 14, 15,
      16, 17, 18, 19, 20, 21, 22, 23, 24, 25, 26, 27, 28, 29, 30, 31,
      32, 33, 34, 35, 36, 37, 38, 39, 40, 41, 42, 43, 44, 45, 46, 47,
      48, 49, 50, 51, 52, 53, 54, 55, 56, 57, 58, 59, 60, 61, 62, 63,
      64, 65, 66, 67, 68, 69, 70, 71, 72, 73, 74, 75, 76, 77, 78, 79,
      80, 81, 82, 83, 84, 85, 86, 87, 88, 89, 90, 91, 92, 93, 94, 95,
      96, 97, 98, 99, 100, 101, 102, 103, 104, 105, 106, 107, 108, 109, 110, 111,
      112, 113, 114, 115, 116, 117, 118, 119, 120, 121, 122, 123, 124, 125, 126, 127,
      128, 129, 130, 131, 132, 133, 134, 135, 136, 137, 138, 139, 140, 141, 142, 143,
      144, 145, 146, 147, 148, 149, 150, 151, 152, 153, 154, 155, 156, 157, 158, 159,
      160, 161, 162, 163, 164, 165, 166, 167, 168, 169, 170, 171, 172, 173, 174, 175,
      176, 177, 178, 179, 180, 181, 182, 183, 184, 185, 186, 187, 188, 189, 190, 191,
      192, 193, 194, 195, 196, 197, 198, 199, 200, 201, 202, 203, 204, 205, 206, 207,
      208, 209, 210, 211, 212, 213, 214, 215, 216, 217, 218, 219, 220, 221, 222, 223,
      224, 225, 226, 227, 228, 229, 230, 231, 232, 233, 234, 235, 236, 237, 238, 239,
      240, 241, 242, 243, 244, 245, 246, 247, 248, 249, 250, 251, 252, 253, 254, 255]"

definition straight_inverse_table :: "byte list" where
  "straight_inverse_table =
     [0, 1, 2, 3, 4, 5, 6, 7, 8, 9, 10, 11, 12, 13, 14, 15,
      16, 17, 18, 19, 20, 21, 22, 23, 24, 25, 26, 27, 28, 29, 30, 31,
      32, 33, 34, 35, 36, 37, 38, 39, 40, 41, 42, 43, 44, 45, 46, 47,
      48, 49, 50, 51, 52, 53, 54, 55, 56, 57, 58, 59, 60, 61, 62, 63,
      64, 65, 66, 67, 68, 69, 70, 71, 72, 73, 74, 75, 76, 77, 78, 79,
      80, 81, 82, 83, 84, 85, 86, 87, 88, 89, 90, 91, 92, 93, 94, 95,
      96, 97, 98, 99, 100, 101, 102, 103, 104, 105, 106, 107, 108, 109, 110, 111,
      112, 113, 114, 115, 116, 117, 118, 119, 120, 121, 122, 123, 124, 125, 126, 127,
      128, 129, 130, 131, 132, 133, 134, 135, 136, 137, 138, 139, 140, 141, 142, 143,
      144, 145, 146, 147, 148, 149, 150, 151, 152, 153, 154, 155, 156, 157, 158, 159,
      160, 161, 162, 163, 164, 165, 166, 167, 168, 169, 170, 171, 172, 173, 174, 175,
      176, 177, 178, 179, 180, 181, 182, 183, 184, 185, 186, 187, 188, 189, 190, 191,
      192, 193, 194, 195, 196, 197, 198, 199, 200, 201, 202, 203, 204, 205, 206, 207,
      208, 209, 210, 211, 212, 213, 214, 215, 216, 217, 218, 219, 220, 221, 222, 223,
      224, 225, 226, 227, 228, 229, 230, 231, 232, 233, 234, 235, 236, 237, 238, 239,
      240, 241, 242, 243, 244, 245, 246, 247, 248, 249, 250, 251, 252, 253, 254, 255]"

definition straight_gtm_ac_xform :: "gtm_descriptor \<Rightarrow> gtm_descriptor \<Rightarrow> int \<Rightarrow> xlate_result" where
  "straight_gtm_ac_xform = table_xlate straight_xform_table"

definition straight_gtm_ac_xback :: "gtm_descriptor \<Rightarrow> gtm_descriptor \<Rightarrow> int \<Rightarrow> xlate_result" where
  "straight_gtm_ac_xback = table_xlate straight_inverse_table"

definition straight_gtm_ac_xutil ::
  "gtm_descriptor \<Rightarrow> gtm_descriptor \<Rightarrow> int \<Rightarrow> int \<Rightarrow> xlate_result" where
  "straight_gtm_ac_xutil = table_xutil straight_xform_table"

text \<open>The version comes from an environment variable; \<open>env\<close> is the process environment.\<close>

definition straight_gtm_ac_version :: "(string \<Rightarrow> string option) \<Rightarrow> int" where
  "straight_gtm_ac_version env =
     (case env ''gtm_test_col_return_version'' of None \<Rightarrow> 0 | Some ver_ptr \<Rightarrow> atoi ver_ptr)"

definition straight_gtm_ac_verify :: "(string \<Rightarrow> string option) \<Rightarrow> byte \<Rightarrow> byte \<Rightarrow> int" where
  "straight_gtm_ac_verify env typ ver = (if uint ver = straight_gtm_ac_version env then 0 else 1)"

section \<open>com/col\_reverse.c\<close>

definition reverse_xform_table :: "byte list" where
  "reverse_xform_table =
     [255, 254, 253, 252, 251, 250, 249, 248, 247, 246, 245, 244, 243, 242, 241, 240,
      239, 238, 237, 236, 235, 234, 233, 232, 231, 230, 229, 228, 227, 226, 225, 224,
      223, 222, 221, 220, 219, 218, 217, 216, 215, 214, 213, 212, 211, 210, 209, 208,
      207, 206, 205, 204, 203, 202, 201, 200, 199, 198, 197, 196, 195, 194, 193, 192,
      191, 190, 189, 188, 187, 186, 185, 184, 183, 182, 181, 180, 179, 178, 177, 176,
      175, 174, 173, 172, 171, 170, 169, 168, 167, 166, 165, 164, 163, 162, 161, 160,
      159, 158, 157, 156, 155, 154, 153, 152, 151, 150, 149, 148, 147, 146, 145, 144,
      143, 142, 141, 140, 139, 138, 137, 136, 135, 134, 133, 132, 131, 130, 129, 128,
      127, 126, 125, 124, 123, 122, 121, 120, 119, 118, 117, 116, 115, 114, 113, 112,
      111, 110, 109, 108, 107, 106, 105, 104, 103, 102, 101, 100, 99, 98, 97, 96,
      95, 94, 93, 92, 91, 90, 89, 88, 87, 86, 85, 84, 83, 82, 81, 80,
      79, 78, 77, 76, 75, 74, 73, 72, 71, 70, 69, 68, 67, 66, 65, 64,
      63, 62, 61, 60, 59, 58, 57, 56, 55, 54, 53, 52, 51, 50, 49, 48,
      47, 46, 45, 44, 43, 42, 41, 40, 39, 38, 37, 36, 35, 34, 33, 32,
      31, 30, 29, 28, 27, 26, 25, 24, 23, 22, 21, 20, 19, 18, 17, 16,
      15, 14, 13, 12, 11, 10, 9, 8, 7, 6, 5, 4, 3, 2, 1, 0]"

definition reverse_inverse_table :: "byte list" where
  "reverse_inverse_table =
     [255, 254, 253, 252, 251, 250, 249, 248, 247, 246, 245, 244, 243, 242, 241, 240,
      239, 238, 237, 236, 235, 234, 233, 232, 231, 230, 229, 228, 227, 226, 225, 224,
      223, 222, 221, 220, 219, 218, 217, 216, 215, 214, 213, 212, 211, 210, 209, 208,
      207, 206, 205, 204, 203, 202, 201, 200, 199, 198, 197, 196, 195, 194, 193, 192,
      191, 190, 189, 188, 187, 186, 185, 184, 183, 182, 181, 180, 179, 178, 177, 176,
      175, 174, 173, 172, 171, 170, 169, 168, 167, 166, 165, 164, 163, 162, 161, 160,
      159, 158, 157, 156, 155, 154, 153, 152, 151, 150, 149, 148, 147, 146, 145, 144,
      143, 142, 141, 140, 139, 138, 137, 136, 135, 134, 133, 132, 131, 130, 129, 128,
      127, 126, 125, 124, 123, 122, 121, 120, 119, 118, 117, 116, 115, 114, 113, 112,
      111, 110, 109, 108, 107, 106, 105, 104, 103, 102, 101, 100, 99, 98, 97, 96,
      95, 94, 93, 92, 91, 90, 89, 88, 87, 86, 85, 84, 83, 82, 81, 80,
      79, 78, 77, 76, 75, 74, 73, 72, 71, 70, 69, 68, 67, 66, 65, 64,
      63, 62, 61, 60, 59, 58, 57, 56, 55, 54, 53, 52, 51, 50, 49, 48,
      47, 46, 45, 44, 43, 42, 41, 40, 39, 38, 37, 36, 35, 34, 33, 32,
      31, 30, 29, 28, 27, 26, 25, 24, 23, 22, 21, 20, 19, 18, 17, 16,
      15, 14, 13, 12, 11, 10, 9, 8, 7, 6, 5, 4, 3, 2, 1, 0]"

definition reverse_gtm_ac_xform :: "gtm_descriptor \<Rightarrow> gtm_descriptor \<Rightarrow> int \<Rightarrow> xlate_result" where
  "reverse_gtm_ac_xform = table_xlate reverse_xform_table"

definition reverse_gtm_ac_xback :: "gtm_descriptor \<Rightarrow> gtm_descriptor \<Rightarrow> int \<Rightarrow> xlate_result" where
  "reverse_gtm_ac_xback = table_xlate reverse_inverse_table"

definition reverse_gtm_ac_xutil ::
  "gtm_descriptor \<Rightarrow> gtm_descriptor \<Rightarrow> int \<Rightarrow> int \<Rightarrow> xlate_result" where
  "reverse_gtm_ac_xutil = table_xutil reverse_xform_table"

definition reverse_gtm_ac_version :: "(string \<Rightarrow> string option) \<Rightarrow> int" where
  "reverse_gtm_ac_version env =
     (case env ''gtm_test_col_return_version'' of None \<Rightarrow> 0 | Some ver_ptr \<Rightarrow> atoi ver_ptr)"

text \<open>Unlike the straight library, this one accepts every version up to its own.\<close>

definition reverse_gtm_ac_verify :: "(string \<Rightarrow> string option) \<Rightarrow> byte \<Rightarrow> byte \<Rightarrow> int" where
  "reverse_gtm_ac_verify env typ ver = (if uint ver \<le> reverse_gtm_ac_version env then 0 else 1)"

section \<open>The tables\<close>

lemma straight_table_eq: "straight_xform_table = map of_nat [0..<256]"
  by code_simp

lemma straight_inverse_eq: "straight_inverse_table = map of_nat [0..<256]"
  by code_simp

lemma reverse_table_eq: "reverse_xform_table = map (\<lambda>i. of_nat (255 - i)) [0..<256]"
  by code_simp

lemma reverse_inverse_eq: "reverse_inverse_table = map (\<lambda>i. of_nat (255 - i)) [0..<256]"
  by code_simp

lemma straight_tables: "inverse_tables straight_xform_table straight_inverse_table"
  by (simp add: inverse_tables_def straight_table_eq straight_inverse_eq unat_of_nat)

lemma reverse_tables: "inverse_tables reverse_xform_table reverse_inverse_table"
proof -
  have "unat (of_nat (255 - i) :: byte) = 255 - i" for i by (rule byte_eq_of_nat) simp
  then have "map (\<lambda>b. reverse_inverse_table ! unat b) reverse_xform_table = map of_nat [0..<256]"
    by (simp add: reverse_table_eq reverse_inverse_eq del: of_nat_diff)
  then show ?thesis by (simp add: inverse_tables_def reverse_table_eq reverse_inverse_eq)
qed

lemma straight_key: "tbl_key straight_xform_table b = b"
  by (simp add: tbl_key_def straight_table_eq)

lemma reverse_key: "tbl_key reverse_xform_table b = 255 - b"
proof -
  have "tbl_key reverse_xform_table b = of_nat (255 - unat b)"
    by (simp add: tbl_key_def reverse_table_eq)
  also have "\<dots> = of_nat 255 - of_nat (unat b)"
    by (rule of_nat_diff) (use unat_byte_bound [of b] in linarith)
  finally show ?thesis by simp
qed

section \<open>Interpretations of the contract\<close>

interpretation straight: checked_collation
  straight_gtm_ac_xform straight_gtm_ac_xback "tbl_key straight_xform_table" "tbl_key straight_inverse_table"
  0 "\<lambda>_. True"
  unfolding straight_gtm_ac_xform_def straight_gtm_ac_xback_def
  by (rule table_collation [OF straight_tables])

interpretation reverse: checked_collation
  reverse_gtm_ac_xform reverse_gtm_ac_xback "tbl_key reverse_xform_table" "tbl_key reverse_inverse_table"
  0 "\<lambda>_. True"
  unfolding reverse_gtm_ac_xform_def reverse_gtm_ac_xback_def
  by (rule table_collation [OF reverse_tables])


section \<open>longstr/inref/col\_reverse*.c\<close>

text \<open>
  The five files hold, entry for entry, the two tables of \<^verbatim>\<open>com/col_reverse.c\<close>; they differ in
  the functions they define.
\<close>

definition longstr_tables :: "byte list \<times> byte list" where
  "longstr_tables = (reverse_xform_table, reverse_inverse_table)"

definition longstr_tables_1 :: "byte list \<times> byte list" where
  "longstr_tables_1 = (reverse_xform_table, reverse_inverse_table)"

definition longstr_tables_2 :: "byte list \<times> byte list" where
  "longstr_tables_2 = (reverse_xform_table, reverse_inverse_table)"

definition longstr_tables_3 :: "byte list \<times> byte list" where
  "longstr_tables_3 = (reverse_xform_table, reverse_inverse_table)"

definition longstr_tables_32 :: "byte list \<times> byte list" where
  "longstr_tables_32 = (reverse_xform_table, reverse_inverse_table)"

definition longstr_col_reverse :: col_library where
  "longstr_col_reverse =
     \<lparr>sym_xform = Some (table_xlate (fst longstr_tables)), sym_xback = Some (table_xlate (snd longstr_tables)),
      sym_xform_1 = None, sym_xback_1 = None, sym_version = 0, sym_verify = (\<lambda>typ ver. 0)\<rparr>"

definition longstr_col_reverse_1 :: col_library where
  "longstr_col_reverse_1 =
     \<lparr>sym_xform = None, sym_xback = None, sym_xform_1 = Some (table_xlate32 (fst longstr_tables_1)),
      sym_xback_1 = None, sym_version = 0, sym_verify = (\<lambda>typ ver. 0)\<rparr>"

definition longstr_col_reverse_2 :: col_library where
  "longstr_col_reverse_2 =
     \<lparr>sym_xform = Some (table_xlate (fst longstr_tables_2)), sym_xback = None,
      sym_xform_1 = None, sym_xback_1 = None, sym_version = 0, sym_verify = (\<lambda>typ ver. 0)\<rparr>"

definition longstr_col_reverse_3 :: col_library where
  "longstr_col_reverse_3 =
     \<lparr>sym_xform = None, sym_xback = None, sym_xform_1 = None, sym_xback_1 = None,
      sym_version = 0, sym_verify = (\<lambda>typ ver. 0)\<rparr>"

definition longstr_col_reverse_32 :: col_library where
  "longstr_col_reverse_32 =
     \<lparr>sym_xform = None, sym_xback = None, sym_xform_1 = Some (table_xlate32 (fst longstr_tables_32)),
      sym_xback_1 = Some (table_xlate32 (snd longstr_tables_32)),
      sym_version = 0, sym_verify = (\<lambda>typ ver. 0)\<rparr>"

section \<open>v62000/inref/col\_reverse.c\<close>

text \<open>
  Its \<^verbatim>\<open>xback\<close> does not advance the source pointer, clears a page behind the text that it wrote
  (the simulated overflow) and asserts that it does not survive that.
\<close>

definition v62000_xtransform :: "byte list" where
  "v62000_xtransform = reverse_xform_table"

definition v62000_gtm_ac_xform :: "gtm_descriptor \<Rightarrow> gtm_descriptor \<Rightarrow> int \<Rightarrow> xlate_result" where
  "v62000_gtm_ac_xform = table_xlate v62000_xtransform"

function v62000_back_loop :: "int \<Rightarrow> nat \<Rightarrow> byte list \<Rightarrow> byte list \<Rightarrow> c_fault + nat \<times> byte list" where
  "v62000_back_loop n i cp cpout =
     (if n > 0
      then bindE (load cp 0) (\<lambda>b.
           bindE (load v62000_xtransform (unat b)) (\<lambda>t.
           bindE (store cpout i t) (\<lambda>cpout'.
           v62000_back_loop (n - 1) (i + 1) cp cpout')))
      else Inr (i, cpout))"
  by pat_completeness auto
termination
  by (relation "measure (\<lambda>(n, i, cp, cpout). nat n)") auto

declare v62000_back_loop.simps [simp del]

text \<open>\<^verbatim>\<open>memset(cpout, 0, k)\<close> at offset \<open>i\<close>.\<close>

fun memset0 :: "byte list \<Rightarrow> nat \<Rightarrow> nat \<Rightarrow> c_fault + byte list" where
  "memset0 out i 0 = Inr out"
| "memset0 out i (Suc k) = bindE (store out i 0) (\<lambda>out'. memset0 out' (i + 1) k)"

definition v62000_gtm_ac_xback :: "nat \<Rightarrow> gtm_descriptor \<Rightarrow> gtm_descriptor \<Rightarrow> int \<Rightarrow> xlate_result" where
  "v62000_gtm_ac_xback pagesize src dst dstlen =
     (if pagesize = 0 then Inl Assert_failed
      else let n = len src
           in if n > len dst then Inr (SUBC2LONG, val dst, dstlen)
              else bindE (v62000_back_loop n 0 (val src) (val dst)) (\<lambda>(i, out).
                   bindE (memset0 out i pagesize) (\<lambda>out'. Inl Assert_failed)))"

section \<open>Properties of the libraries\<close>

lemma longstr_complete_tables:
  "table_xlate (fst longstr_tables) = reverse_gtm_ac_xform"
  "table_xlate (snd longstr_tables) = reverse_gtm_ac_xback"
  by (simp_all add: longstr_tables_def reverse_gtm_ac_xform_def reverse_gtm_ac_xback_def)

lemma reversed_collates_before:
  "length xs = length ys \<Longrightarrow> collates_before (tbl_key reverse_xform_table) xs ys \<longleftrightarrow> bytes_less ys xs"
proof (induction xs ys rule: list_induct2)
  case (Cons x xs y ys)
  have "(255 - x < 255 - y) = (y < (x :: byte))"
    by (simp add: word_less_nat_alt unat_sub_if_size word_size)
       (use unat_byte_bound [of x] unat_byte_bound [of y] in linarith)
  with Cons show ?case by (auto simp: reverse_key)
qed simp

text \<open>In \<^verbatim>\<open>com/col_reverse.c\<close> the byte order of the transformed subscripts is exactly the
  reverse of the byte order of the subscripts, for subscripts of one length.\<close>

theorem reverse_reverses_order:
  assumes "readable s" "has_room 0 s d" "readable s'" "has_room 0 s' d'" "len s = len s'"
  shows "\<exists>out out'. reverse_gtm_ac_xform s d n = Inr (0, out, len s) \<and>
           reverse_gtm_ac_xform s' d' n' = Inr (0, out', len s') \<and>
           (bytes_less (take (nat (len s)) out) (take (nat (len s')) out') \<longleftrightarrow>
            bytes_less (text_of s') (text_of s))"
proof -
  obtain out out' where o: "reverse_gtm_ac_xform s d n = Inr (0, out, len s)"
      "reverse_gtm_ac_xform s' d' n' = Inr (0, out', len s')"
    using reverse.xform_ok [OF assms(1,2)] reverse.xform_ok [OF assms(3,4)] by simp
  have "length (text_of s) = length (text_of s')" using assms by simp
  then show ?thesis
    using o reverse.xform_order [OF assms(1,2) _ o(1) assms(3,4) _ o(2)]
    by (simp add: reversed_collates_before)
qed

theorem reverse_reverses_order_witness:
  "\<exists>out out'. reverse_gtm_ac_xform \<lparr>len = 2, val = [65, 66]\<rparr> \<lparr>len = 2, val = [0, 0]\<rparr> 0 = Inr (0, out, 2) \<and>
     reverse_gtm_ac_xform \<lparr>len = 2, val = [65, 67]\<rparr> \<lparr>len = 2, val = [0, 0]\<rparr> 0 = Inr (0, out', 2) \<and>
     bytes_less (take 2 out') (take 2 out)"
  using reverse_reverses_order [of "\<lparr>len = 2, val = [65, 67]\<rparr>" "\<lparr>len = 2, val = [0, 0]\<rparr>"
          "\<lparr>len = 2, val = [65, 66]\<rparr>" "\<lparr>len = 2, val = [0, 0]\<rparr>" 0 0]
  by (auto simp: readable_def has_room_def text_of_def)


text \<open>The wide library \<^verbatim>\<open>longstr/inref/col_reverse_32.c\<close>: a subscript of less than two
  gigabytes that fits both destinations is recovered by \<^verbatim>\<open>gtm_ac_xback_1\<close> from what
  \<^verbatim>\<open>gtm_ac_xform_1\<close> stored.\<close>

theorem longstr_32_round_trip:
  assumes "sym_xform_1 longstr_col_reverse_32 = Some xform" "sym_xback_1 longstr_col_reverse_32 = Some xback"
    and "readable s" "has_room 0 s d" "has_room 0 s e" "len s < 2 ^ 31"
  shows "\<exists>out orig. xform s d n = Inr (0, out, len s) \<and>
           xback (d\<lparr>len := len s, val := out\<rparr>) e k = Inr (0, orig, len s) \<and>
           take (nat (len s)) orig = text_of s"
proof -
  have nn: "0 \<le> len s" using assms(3) by (simp add: readable_def)
  have f: "xform s d n = reverse_gtm_ac_xform s d n"
    using assms(1,6) nn
    by (auto simp: longstr_col_reverse_32_def longstr_tables_32_def reverse_gtm_ac_xform_def table_xlate32_narrow)
  have b: "xback (d\<lparr>len := len s, val := out\<rparr>) e k = reverse_gtm_ac_xback (d\<lparr>len := len s, val := out\<rparr>) e k" for out
    using assms(2,6) nn
    by (auto simp: longstr_col_reverse_32_def longstr_tables_32_def reverse_gtm_ac_xback_def table_xlate32_narrow)
  obtain out where out: "reverse_gtm_ac_xform s d n = Inr (0, out, len s)"
    using reverse.xform_ok [OF assms(3,4)] by simp
  have "has_room 0 (d\<lparr>len := len s, val := out\<rparr>) e" using assms(5) by (simp add: has_room_def)
  from reverse.round_trip [OF assms(3,4) TrueI out this, of k] show ?thesis
    using out by (auto simp: f b)
qed

theorem longstr_32_round_trip_witness:
  "\<exists>out orig. table_xlate32 reverse_xform_table \<lparr>len = 3, val = [97, 0, 255]\<rparr> \<lparr>len = 4, val = [9, 9, 9, 9]\<rparr> 7 =
       Inr (0, out, 3) \<and>
     table_xlate32 reverse_inverse_table \<lparr>len = 3, val = out\<rparr> \<lparr>len = 3, val = [1, 2, 3]\<rparr> 7 = Inr (0, orig, 3) \<and>
     take 3 orig = [97, 0, 255]"
  using longstr_32_round_trip [of "table_xlate32 reverse_xform_table" "table_xlate32 reverse_inverse_table"
      "\<lparr>len = 3, val = [97, 0, 255]\<rparr>" "\<lparr>len = 4, val = [9, 9, 9, 9]\<rparr>" "\<lparr>len = 3, val = [1, 2, 3]\<rparr>" 7 7]
  by (simp add: longstr_col_reverse_32_def longstr_tables_32_def readable_def has_room_def text_of_def)

text \<open>\<^verbatim>\<open>gtm_ac_xutil\<close> of the straight library: operation 1 gives the character that collates
  directly before the given one and operation 2 the one directly after it, with an empty result at the
  ends of the code page; any other operation is refused.\<close>

theorem straight_xutil_neighbours:
  assumes "val inp = c # cs" "val out = x # xs"
  shows "straight_gtm_ac_xutil inp out m opn =
           (if opn = 0 then Inr (0, c # xs, 1)
            else if opn = 1 then (if c = 0 then Inr (0, val out, 0) else Inr (0, (c - 1) # xs, 1))
            else if opn = 2 then (if c = 255 then Inr (0, val out, 0) else Inr (0, (c + 1) # xs, 1))
            else Inr (- 1, val out, m))"
proof -
  note defs = straight_gtm_ac_xutil_def table_xutil_def straight_table_eq
  have b: "unat c < 256" by simp
  have c1: "1 \<le> c \<longleftrightarrow> c \<noteq> 0" by (simp add: word_le_nat_alt unat_gt_0 Suc_le_eq)
  have c254: "c \<le> 254 \<longleftrightarrow> c \<noteq> 255"
    by (simp add: word_le_nat_alt word_unat_eq_iff) (use b in arith)
  consider "opn = 0" | "opn = 1" | "opn = 2" | "opn \<notin> {0, 1, 2}" by auto
  then show ?thesis
  proof cases
    case 2
    have "of_nat (unat c - 1) = c - 1" if "c \<noteq> 0"
      using that by (subst of_nat_diff) (simp_all add: unat_gt_0 Suc_le_eq)
    moreover have "unat c - 1 < 256" using b by linarith
    ultimately show ?thesis using 2 assms c1 by (simp add: defs mem_simps)
  next
    case 3
    have "unat c + 1 < 256" if "c \<noteq> 255" using that b by (simp add: word_unat_eq_iff del: unat_byte_bound)
    then show ?thesis using 3 assms c254 by (simp add: defs mem_simps del: upt_Suc)
  qed (use assms in \<open>simp_all add: defs mem_simps\<close>)
qed

theorem straight_xutil_neighbours_witness:
  "straight_gtm_ac_xutil \<lparr>len = 1, val = [65]\<rparr> \<lparr>len = 1, val = [0]\<rparr> 9 2 = Inr (0, [66], 1)"
  using straight_xutil_neighbours [of "\<lparr>len = 1, val = [65]\<rparr>" 65 "[]" "\<lparr>len = 1, val = [0]\<rparr>" 0 "[]" 9 2] by simp

lemma memset0_spec: "memset0 out i k = (if i + k \<le> length out \<or> k = 0
    then Inr (take i out @ replicate k 0 @ drop (i + k) out) else Inl Write_oob)"
proof (induction k arbitrary: out i)
  case (Suc k)
  show ?case
  proof (cases "i < length out")
    case True
    then show ?thesis
      by (auto simp: Suc.IH mem_simps take_Suc_conv_app_nth)
  qed (simp add: mem_simps)
qed simp

lemma v62000_back_loop_ok:
  assumes "0 \<le> n" "cp \<noteq> []" "i + nat n \<le> length out"
  shows "\<exists>out'. v62000_back_loop n i cp out = Inr (i + nat n, out') \<and> length out' = length out"
  using assms
proof (induction n i cp out rule: v62000_back_loop.induct)
  case (1 n i cp out)
  show ?case
  proof (cases "n > 0")
    case True
    let ?t = "v62000_xtransform ! unat (cp ! 0)"
    have ld: "load cp 0 = Inr (cp ! 0)" "load v62000_xtransform (unat (cp ! 0)) = Inr ?t"
        "store out i ?t = Inr (out[i := ?t])"
      using "1.prems" True
      by (simp_all add: mem_simps v62000_xtransform_def inverse_tables_length [OF reverse_tables])
    have "\<exists>out'. v62000_back_loop (n - 1) (i + 1) cp (out[i := ?t]) = Inr (i + 1 + nat (n - 1), out') \<and>
        length out' = length (out[i := ?t])"
      using "1.IH" [OF True ld] "1.prems" True by simp
    moreover have "v62000_back_loop n i cp out = v62000_back_loop (n - 1) (i + 1) cp (out[i := ?t])"
      using True by (simp add: v62000_back_loop.simps [of n] ld)
    moreover have "i + 1 + nat (n - 1) = i + nat n" using True by simp
    ultimately show ?thesis by (metis length_list_update)
  next
    case False
    with "1.prems" show ?thesis by (simp add: v62000_back_loop.simps)
  qed
qed

text \<open>\<^verbatim>\<open>gtm_ac_xback\<close> of \<^verbatim>\<open>v62000/inref/col_reverse.c\<close> never returns a transformed
  subscript: it refuses one that is too long, and otherwise clears a page past the text, which is a write
  outside the destination unless that has a page to spare, and then the assertion fails.\<close>

theorem v62000_xback_never_returns:
  assumes "readable s" "val s \<noteq> []" "0 < pagesize" "nat (len d) \<le> length (val d)"
  shows "v62000_gtm_ac_xback pagesize s d n =
           (if len d < len s then Inr (SUBC2LONG, val d, n)
            else if nat (len s) + pagesize \<le> length (val d) then Inl Assert_failed
            else Inl Write_oob)"
proof (cases "len d < len s")
  case False
  then obtain out where "v62000_back_loop (len s) 0 (val s) (val d) = Inr (nat (len s), out)"
      "length out = length (val d)"
    using v62000_back_loop_ok [of "len s" "val s" 0 "val d"] assms le_trans [of "nat (len s)" "nat (len d)"]
    by (auto simp: readable_def nat_mono)
  then show ?thesis
    using False assms(3) by (simp add: v62000_gtm_ac_xback_def Let_def memset0_spec)
qed (use assms(3) in \<open>simp add: v62000_gtm_ac_xback_def\<close>)

theorem v62000_xback_never_returns_witness:
  "v62000_gtm_ac_xback 4 \<lparr>len = 1, val = [65]\<rparr> \<lparr>len = 4, val = [0, 0, 0, 0]\<rparr> 0 = Inl Write_oob"
  using v62000_xback_never_returns [of "\<lparr>len = 1, val = [65]\<rparr>" 4 "\<lparr>len = 4, val = [0, 0, 0, 0]\<rparr>" 0]
  by (simp add: readable_def)

end
