(* ===== verification/Col_Polish.thy ===== *)
theory Col_Polish
  imports Collation_Core
begin

text \<open>
  The Polish collation (ISO 8859-2) and its inverse: \<^verbatim>\<open>com/col_polish.c\<close>,
  \<^verbatim>\<open>com/col_polish_rev.c\<close>, \<^verbatim>\<open>com/polish.c\<close> and the copies under \<^verbatim>\<open>collation/u_inref\<close>
  and \<^verbatim>\<open>merge/u_inref\<close>.  All of them terminate their output with a NUL.  The \<^verbatim>\<open>DEBUG\<close>
  output of the sources is not modelled.
\<close>

section \<open>com/col\_polish.c\<close>

definition polish_xform_table :: "byte list" where
  "polish_xform_table =
     [0, 1, 2, 3, 4, 5, 6, 7, 8, 9, 10, 11, 12, 13, 14, 15,
      16, 17, 18, 19, 20, 21, 22, 23, 24, 25, 26, 27, 28, 29, 30, 31,
      32, 33, 34, 35, 36, 37, 38, 39, 40, 41, 42, 43, 44, 45, 46, 47,
      48, 49, 50, 51, 52, 53, 54, 55, 56, 57, 58, 59, 60, 61, 62, 63,
      64, 70, 78, 82, 90, 97, 104, 106, 108, 112, 116, 118, 122, 128, 131, 139,
      146, 148, 152, 158, 166, 174, 180, 182, 184, 187, 191, 197, 198, 199, 200, 201,
      202, 65, 77, 79, 87, 93, 103, 105, 107, 109, 115, 117, 119, 127, 129, 135,
      145, 147, 149, 155, 163, 169, 179, 181, 183, 185, 189, 203, 204, 205, 206, 220,
      221, 222, 223, 224, 225, 226, 227, 228, 229, 230, 231, 232, 233, 234, 235, 236,
      237, 238, 239, 240, 241, 242, 243, 244, 245, 246, 247, 248, 249, 250, 251, 252,
      253, 76, 207, 126, 208, 123, 162, 209, 210, 159, 160, 167, 194, 211, 192, 196,
      212, 75, 213, 125, 214, 120, 161, 215, 216, 156, 157, 164, 193, 217, 190, 195,
      153, 71, 72, 73, 74, 124, 86, 83, 84, 98, 102, 99, 100, 113, 114, 91,
      92, 134, 132, 144, 140, 141, 142, 218, 154, 175, 176, 177, 178, 188, 168, 254,
      150, 66, 67, 68, 69, 121, 85, 80, 81, 94, 101, 95, 96, 110, 111, 88,
      89, 133, 130, 143, 136, 137, 138, 219, 151, 170, 171, 172, 173, 186, 165, 255]"

definition polish_inverse_table :: "byte list" where
  "polish_inverse_table =
     [0, 1, 2, 3, 4, 5, 6, 7, 8, 9, 10, 11, 12, 13, 14, 15,
      16, 17, 18, 19, 20, 21, 22, 23, 24, 25, 26, 27, 28, 29, 30, 31,
      32, 33, 34, 35, 36, 37, 38, 39, 40, 41, 42, 43, 44, 45, 46, 47,
      48, 49, 50, 51, 52, 53, 54, 55, 56, 57, 58, 59, 60, 61, 62, 63,
      64, 97, 225, 226, 227, 228, 65, 193, 194, 195, 196, 177, 161, 98, 66, 99,
      231, 232, 67, 199, 200, 230, 198, 100, 239, 240, 68, 207, 208, 101, 233, 235,
      236, 69, 201, 203, 204, 234, 202, 102, 70, 103, 71, 104, 72, 105, 237, 238,
      73, 205, 206, 106, 74, 107, 75, 108, 181, 229, 76, 165, 197, 179, 163, 109,
      77, 110, 242, 78, 210, 241, 209, 111, 244, 245, 246, 79, 212, 213, 214, 243,
      211, 112, 80, 113, 81, 114, 224, 248, 82, 192, 216, 115, 185, 186, 83, 169,
      170, 182, 166, 116, 187, 254, 84, 171, 222, 117, 249, 250, 251, 252, 85, 217,
      218, 219, 220, 118, 86, 119, 87, 120, 88, 121, 253, 89, 221, 122, 190, 90,
      174, 188, 172, 191, 175, 91, 92, 93, 94, 95, 96, 123, 124, 125, 126, 162,
      164, 167, 168, 173, 176, 178, 180, 183, 184, 189, 215, 247, 127, 128, 129, 130,
      131, 132, 133, 134, 135, 136, 137, 138, 139, 140, 141, 142, 143, 144, 145, 146,
      147, 148, 149, 150, 151, 152, 153, 154, 155, 156, 157, 158, 159, 160, 223, 255]"

definition polish_gtm_ac_xform :: "gtm_descriptor \<Rightarrow> gtm_descriptor \<Rightarrow> int \<Rightarrow> xlate_result" where
  "polish_gtm_ac_xform = table_xlate_nul polish_xform_table"

definition polish_gtm_ac_xback :: "gtm_descriptor \<Rightarrow> gtm_descriptor \<Rightarrow> int \<Rightarrow> xlate_result" where
  "polish_gtm_ac_xback = table_xlate_nul polish_inverse_table"

definition polish_gtm_ac_xutil ::
  "gtm_descriptor \<Rightarrow> gtm_descriptor \<Rightarrow> int \<Rightarrow> int \<Rightarrow> xlate_result" where
  "polish_gtm_ac_xutil = table_xutil polish_xform_table"

definition polish_VERSION :: int where
  "polish_VERSION = 3"

definition polish_gtm_ac_version :: int where
  "polish_gtm_ac_version = polish_VERSION"

definition polish_gtm_ac_verify :: "byte \<Rightarrow> byte \<Rightarrow> int" where
  "polish_gtm_ac_verify typ ver = (if uint ver = polish_VERSION then 0 else 1)"

section \<open>com/col\_polish\_rev.c\<close>

text \<open>The same two tables with their roles exchanged.\<close>

definition polish_rev_tables :: "byte list \<times> byte list" where
  "polish_rev_tables = (polish_inverse_table, polish_xform_table)"

definition polish_rev_gtm_ac_xform :: "gtm_descriptor \<Rightarrow> gtm_descriptor \<Rightarrow> int \<Rightarrow> xlate_result" where
  "polish_rev_gtm_ac_xform = table_xlate_nul (fst polish_rev_tables)"

definition polish_rev_gtm_ac_xback :: "gtm_descriptor \<Rightarrow> gtm_descriptor \<Rightarrow> int \<Rightarrow> xlate_result" where
  "polish_rev_gtm_ac_xback = table_xlate_nul (snd polish_rev_tables)"

definition polish_rev_gtm_ac_xutil ::
  "gtm_descriptor \<Rightarrow> gtm_descriptor \<Rightarrow> int \<Rightarrow> int \<Rightarrow> xlate_result" where
  "polish_rev_gtm_ac_xutil = table_xutil (fst polish_rev_tables)"

definition polish_rev_gtm_ac_verify :: "byte \<Rightarrow> byte \<Rightarrow> int" where
  "polish_rev_gtm_ac_verify typ ver = (if uint ver = polish_VERSION then 0 else 1)"

section \<open>The copies\<close>

text \<open>
  The remaining files hold the tables of \<^verbatim>\<open>com/col_polish.c\<close>, entry for entry, as they are or
  exchanged; \<^verbatim>\<open>com/polish.c\<close> has version 0 and accepts every version.
\<close>

definition com_polish_tables :: "byte list \<times> byte list" where
  "com_polish_tables = (polish_xform_table, polish_inverse_table)"

definition com_polish :: col_library where
  "com_polish =
     \<lparr>sym_xform = Some (table_xlate_nul (fst com_polish_tables)),
      sym_xback = Some (table_xlate_nul (snd com_polish_tables)),
      sym_xform_1 = None, sym_xback_1 = None, sym_version = 0, sym_verify = (\<lambda>typ ver. 0)\<rparr>"

definition collation_polish_tables :: "byte list \<times> byte list" where
  "collation_polish_tables = (polish_xform_table, polish_inverse_table)"

definition collation_polish :: col_library where
  "collation_polish =
     \<lparr>sym_xform = Some (table_xlate_nul (fst collation_polish_tables)),
      sym_xback = Some (table_xlate_nul (snd collation_polish_tables)),
      sym_xform_1 = None, sym_xback_1 = None, sym_version = polish_VERSION,
      sym_verify = (\<lambda>typ ver. if uint ver = polish_VERSION then 0 else 1)\<rparr>"

definition collation_polish_rev_tables :: "byte list \<times> byte list" where
  "collation_polish_rev_tables = (polish_inverse_table, polish_xform_table)"

definition collation_polish_rev :: col_library where
  "collation_polish_rev =
     \<lparr>sym_xform = Some (table_xlate_nul (fst collation_polish_rev_tables)),
      sym_xback = Some (table_xlate_nul (snd collation_polish_rev_tables)),
      sym_xform_1 = None, sym_xback_1 = None, sym_version = polish_VERSION,
      sym_verify = (\<lambda>typ ver. if uint ver = polish_VERSION then 0 else 1)\<rparr>"

definition merge_polish_tables :: "byte list \<times> byte list" where
  "merge_polish_tables = (polish_xform_table, polish_inverse_table)"

definition merge_polish :: col_library where
  "merge_polish =
     \<lparr>sym_xform = Some (table_xlate_nul (fst merge_polish_tables)),
      sym_xback = Some (table_xlate_nul (snd merge_polish_tables)),
      sym_xform_1 = None, sym_xback_1 = None, sym_version = polish_VERSION,
      sym_verify = (\<lambda>typ ver. if uint ver = polish_VERSION then 0 else 1)\<rparr>"

definition merge_polish_rev_tables :: "byte list \<times> byte list" where
  "merge_polish_rev_tables = (polish_inverse_table, polish_xform_table)"

definition merge_polish_rev :: col_library where
  "merge_polish_rev =
     \<lparr>sym_xform = Some (table_xlate_nul (fst merge_polish_rev_tables)),
      sym_xback = Some (table_xlate_nul (snd merge_polish_rev_tables)),
      sym_xform_1 = None, sym_xback_1 = None, sym_version = polish_VERSION,
      sym_verify = (\<lambda>typ ver. if uint ver = polish_VERSION then 0 else 1)\<rparr>"

section \<open>The tables are permutations, each the inverse of the other\<close>

lemma polish_tables: "inverse_tables polish_xform_table polish_inverse_table"
  by code_simp

lemma polish_tables_rev: "inverse_tables polish_inverse_table polish_xform_table"
  by code_simp

interpretation polish: checked_collation
  polish_gtm_ac_xform polish_gtm_ac_xback "tbl_key polish_xform_table" "tbl_key polish_inverse_table"
  1 "\<lambda>_. True"
  unfolding polish_gtm_ac_xform_def polish_gtm_ac_xback_def
  by (rule table_collation_nul [OF polish_tables])

interpretation polish_rev: checked_collation
  polish_rev_gtm_ac_xform polish_rev_gtm_ac_xback "tbl_key polish_inverse_table" "tbl_key polish_xform_table"
  1 "\<lambda>_. True"
  unfolding polish_rev_gtm_ac_xform_def polish_rev_gtm_ac_xback_def polish_rev_tables_def fst_conv snd_conv
  by (rule table_collation_nul [OF polish_tables_rev])

section \<open>Properties\<close>

text \<open>
  The letters of the Polish alphabet in ISO 8859-2, in alphabetical order, each lower-case letter
  followed by its capital.
\<close>

definition polish_alphabet :: "byte list" where
  "polish_alphabet =
     [97, 65, 177, 161, 98, 66, 99, 67, 230, 198, 100, 68, 101, 69, 234, 202, 102, 70, 103, 71,
      104, 72, 105, 73, 106, 74, 107, 75, 108, 76, 179, 163, 109, 77, 110, 78, 241, 209, 111, 79,
      243, 211, 112, 80, 113, 81, 114, 82, 115, 83, 182, 166, 116, 84, 117, 85, 118, 86, 119, 87,
      120, 88, 121, 89, 122, 90, 188, 172, 191, 175]"

text \<open>The table of \<^verbatim>\<open>com/col_polish.c\<close> collates the Polish alphabet: its letters have
  increasing collation values in alphabetical order, and everything below the letter A (digits,
  punctuation, control characters) keeps its value, before all letters.\<close>

theorem polish_alphabetical:
  "sorted_wrt (<) (map (tbl_key polish_xform_table) polish_alphabet) \<and>
   take 65 polish_xform_table = map of_nat [0..<65]"
  by code_simp

text \<open>C35. What \<^verbatim>\<open>gtm_ac_xform\<close> of \<^verbatim>\<open>com/col_polish.c\<close> writes is recovered by its
  \<^verbatim>\<open>gtm_ac_xback\<close>, whenever both destinations have a byte more than the subscript.\<close>

theorem polish_round_trip:
  assumes "readable s" "has_room 1 s d" "has_room 1 s e"
  shows "\<exists>out orig. polish_gtm_ac_xform s d n = Inr (0, out, len s) \<and> out ! nat (len s) = 0 \<and>
           polish_gtm_ac_xback (d\<lparr>len := len s, val := out\<rparr>) e k = Inr (0, orig, len s) \<and>
           take (nat (len s)) orig = text_of s"
proof -
  obtain out where out: "polish_gtm_ac_xform s d n = Inr (0, out, len s)"
      "out = put 1 (map (tbl_key polish_xform_table) (text_of s)) (val d)"
    using polish.xform_ok [OF assms(1,2)] by simp
  have "out ! nat (len s) = 0"
    using assms(1) by (simp add: out(2) put_def nth_append)
  moreover have "has_room 1 (d\<lparr>len := len s, val := out\<rparr>) e"
    using assms(3) by (simp add: has_room_def)
  ultimately show ?thesis
    using polish.round_trip [OF assms(1,2) TrueI out(1), of e k] out(1) by auto
qed

theorem polish_round_trip_witness:
  "\<exists>out orig. polish_gtm_ac_xform \<lparr>len = 2, val = [177, 90]\<rparr> \<lparr>len = 2, val = [7, 7, 7]\<rparr> 0 = Inr (0, out, 2) \<and>
     out ! 2 = 0 \<and>
     polish_gtm_ac_xback \<lparr>len = 2, val = out\<rparr> \<lparr>len = 5, val = [1, 2, 3, 4, 5]\<rparr> 0 = Inr (0, orig, 2) \<and>
     take 2 orig = [177, 90]"
  using polish_round_trip [of "\<lparr>len = 2, val = [177, 90]\<rparr>" "\<lparr>len = 2, val = [7, 7, 7]\<rparr>"
          "\<lparr>len = 5, val = [1, 2, 3, 4, 5]\<rparr>" 0 0]
  by (simp add: readable_def has_room_def text_of_def numeral_2_eq_2)

text \<open>The length check of the Polish libraries does not leave room for the terminating NUL: with a
  destination object of exactly the stated length, the transformation writes past it if and only if the
  subscript fills it completely.\<close>

theorem polish_nul_overflow:
  assumes "readable s" "0 \<le> len d" "length (val d) = nat (len d)"
  shows "polish_gtm_ac_xform s d n = Inl Write_oob \<longleftrightarrow> len s = len d"
proof -
  consider "len d < len s" | "len s = len d" | "len s < len d" by linarith
  then show ?thesis
  proof cases
    case 1
    then show ?thesis using polish.xform_long [OF 1, of n] by simp
  next
    case 2
    then show ?thesis
      using table_xlate_nul_overflow [OF inverse_tables_length(1) [OF polish_tables] assms(1), of d n] assms(3)
      by (simp add: polish_gtm_ac_xform_def)
  next
    case 3
    then have "has_room 1 s d" using assms by (auto simp: has_room_def readable_def Suc_le_eq)
    then show ?thesis using polish.xform_ok [OF assms(1), of d n] 3 by simp
  qed
qed

theorem polish_nul_overflow_witness:
  "polish_gtm_ac_xform \<lparr>len = 3, val = [97, 98, 99]\<rparr> \<lparr>len = 3, val = [0, 0, 0]\<rparr> 0 = Inl Write_oob"
  using polish_nul_overflow [of "\<lparr>len = 3, val = [97, 98, 99]\<rparr>" "\<lparr>len = 3, val = [0, 0, 0]\<rparr>" 0]
  by (simp add: readable_def)

end
