(* ===== verification/Col_Complex.thy ===== *)
theory Col_Complex
  imports Collation_Core
begin

text \<open>
  The error-testing collation \<^verbatim>\<open>com/col_complex.c\<close>, which exchanges the letters a and b and
  returns an error for two magic subscripts, and the Hindi digit collation
  \<^verbatim>\<open>com/col_unicode_numeric.c\<close>.
\<close>

section \<open>String functions on byte objects\<close>

text \<open>
  Whether \<^verbatim>\<open>strncmp(obj, lit, n)\<close> is 0, for a literal with its terminating NUL; only bytes up to
  the first difference or NUL are read.
\<close>

fun strncmp_eq :: "byte list \<Rightarrow> byte list \<Rightarrow> nat \<Rightarrow> nat \<Rightarrow> c_fault + bool" where
  "strncmp_eq obj lit i 0 = Inr True"
| "strncmp_eq obj lit i (Suc n) =
     bindE (load obj i) (\<lambda>a. bindE (load lit i) (\<lambda>b.
       if a \<noteq> b then Inr False else if a = 0 then Inr True else strncmp_eq obj lit (i + 1) n))"

definition c_literal :: "string \<Rightarrow> byte list" where
  "c_literal s = map of_char s @ [0]"

text \<open>The \<open>n\<close> bytes that \<^verbatim>\<open>strncpy\<close> stores when it copies from offset \<open>i\<close> of an object.\<close>

fun strncpy_bytes :: "byte list \<Rightarrow> nat \<Rightarrow> nat \<Rightarrow> c_fault + byte list" where
  "strncpy_bytes obj i 0 = Inr []"
| "strncpy_bytes obj i (Suc n) =
     bindE (load obj i) (\<lambda>a. if a = 0 then Inr (replicate (Suc n) 0)
       else bindE (strncpy_bytes obj (i + 1) n) (\<lambda>as. Inr (a # as)))"

lemma strncpy_bytes_plain:
  "i + n \<le> length obj \<Longrightarrow> 0 \<notin> set (take n (drop i obj)) \<Longrightarrow> strncpy_bytes obj i n = Inr (take n (drop i obj))"
proof (induction n arbitrary: i)
  case (Suc n)
  then have i: "i < length obj" by simp
  then have d: "take (Suc n) (drop i obj) = obj ! i # take n (drop (i + 1) obj)"
    by (simp add: Cons_nth_drop_Suc [symmetric])
  with Suc.prems have "obj ! i \<noteq> 0" "0 \<notin> set (take n (drop (i + 1) obj))" by auto
  with Suc i d show ?case by (simp add: mem_simps)
qed simp

section \<open>com/col\_complex.c\<close>

definition ERR_BADCHAR :: int where
  "ERR_BADCHAR = 0x87658765"

definition ERR_SUB2LONG :: int where
  "ERR_SUB2LONG = 150375154"

definition complex_VERSION :: int where
  "complex_VERSION = 3"

text \<open>One character of the copying loops.\<close>

definition complex_swap :: "byte \<Rightarrow> byte" where
  "complex_swap ch = (if ch = 97 then 98 else if ch = 98 then 97 else ch)"

function complex_loop :: "int \<Rightarrow> nat \<Rightarrow> byte list \<Rightarrow> byte list \<Rightarrow> c_fault + byte list" where
  "complex_loop srclen ii inbuf outbuf =
     (if int ii < srclen
      then bindE (load inbuf ii) (\<lambda>ch.
           bindE (store outbuf ii (complex_swap ch)) (\<lambda>outbuf'.
           complex_loop srclen (ii + 1) inbuf outbuf'))
      else Inr outbuf)"
  by pat_completeness auto
termination
  by (relation "measure (\<lambda>(srclen, ii, inbuf, outbuf). nat (srclen - int ii))") auto

declare complex_loop.simps [simp del]

definition complex_gtm_ac_xform :: "gtm_descriptor \<Rightarrow> gtm_descriptor \<Rightarrow> int \<Rightarrow> xlate_result" where
  "complex_gtm_ac_xform src dst dstlen =
     bindE (strncmp_eq (val src) (c_literal ''please return BADCHAR'') 0 21) (\<lambda>badchar.
       if badchar then Inr (ERR_BADCHAR, val dst, dstlen)
       else bindE (strncmp_eq (val src) (c_literal ''please return SUB2LONG'') 0 22) (\<lambda>sub2long.
         if sub2long then Inr (ERR_SUB2LONG, val dst, dstlen)
         else bindE (complex_loop (len src) 0 (val src) (val dst)) (\<lambda>out. Inr (0, out, len src))))"

definition complex_gtm_ac_xback :: "gtm_descriptor \<Rightarrow> gtm_descriptor \<Rightarrow> int \<Rightarrow> xlate_result" where
  "complex_gtm_ac_xback src dst dstlen =
     bindE (complex_loop (len src) 0 (val src) (val dst)) (\<lambda>out. Inr (0, out, len src))"

text \<open>The predecessor and successor computed by \<^verbatim>\<open>gtm_ac_xutil\<close>.\<close>

definition complex_before :: "byte \<Rightarrow> byte" where
  "complex_before charindx =
     (if charindx = 97 then charindx + 1
      else if charindx = 98 \<or> charindx = 99 then charindx - 2
      else charindx - 1)"

definition complex_after :: "byte \<Rightarrow> byte" where
  "complex_after charindx =
     (if charindx = 97 - 1 \<or> charindx = 97 then charindx + 2
      else if charindx = 98 then charindx - 1
      else charindx + 1)"

definition complex_gtm_ac_xutil ::
  "gtm_descriptor \<Rightarrow> gtm_descriptor \<Rightarrow> int \<Rightarrow> int \<Rightarrow> xlate_result" where
  "complex_gtm_ac_xutil inp out outlen opn =
     bindE (load (val inp) 0) (\<lambda>charindx.
       if opn = 0 then bindE (store (val out) 0 charindx) (\<lambda>v. Inr (0, v, 1))
       else if opn = 1
       then (if 1 \<le> charindx
             then bindE (store (val out) 0 (complex_before charindx)) (\<lambda>v. Inr (0, v, 1))
             else Inr (0, val out, 0))
       else if opn = 2
       then (if charindx \<le> 254
             then bindE (store (val out) 0 (complex_after charindx)) (\<lambda>v. Inr (0, v, 1))
             else Inr (0, val out, 0))
       else Inr (-1, val out, outlen))"

definition complex_gtm_ac_verify :: "byte \<Rightarrow> byte \<Rightarrow> int" where
  "complex_gtm_ac_verify typ ver = (if uint ver = complex_VERSION then 0 else 1)"

text \<open>The source objects that are not compared equal to a magic subscript.\<close>

definition complex_accepts :: "byte list \<Rightarrow> bool" where
  "complex_accepts obj \<longleftrightarrow>
     strncmp_eq obj (c_literal ''please return BADCHAR'') 0 21 = Inr False \<and>
     strncmp_eq obj (c_literal ''please return SUB2LONG'') 0 22 = Inr False"

lemma complex_swap_swap: "complex_swap (complex_swap b) = b"
  by (simp add: complex_swap_def)

lemma complex_loop_ok:
  assumes "nat srclen \<le> length inb" "nat srclen \<le> length out"
  shows "complex_loop srclen ii inb out =
           Inr (take ii out @ map complex_swap (take (nat srclen - ii) (drop ii inb)) @
                drop (max ii (nat srclen)) out)"
  using assms
proof (induction srclen ii inb out rule: complex_loop.induct)
  case (1 srclen ii inb out)
  show ?case
  proof (cases "int ii < srclen")
    case True
    let ?v = "complex_swap (inb ! ii)"
    have i: "ii < length inb" "ii < length out" "ii < nat srclen" using True "1.prems" by auto
    then have ld: "load inb ii = Inr (inb ! ii)" "store out ii ?v = Inr (out[ii := ?v])"
      by (simp_all add: mem_simps)
    have m: "max (ii + 1) (nat srclen) = nat srclen" "max ii (nat srclen) = nat srclen"
        "nat srclen - ii = Suc (nat srclen - (ii + 1))"
      using i by auto
    have "complex_loop srclen ii inb out = complex_loop srclen (ii + 1) inb (out[ii := ?v])"
      using True by (simp add: complex_loop.simps [of srclen ii] ld)
    also have "\<dots> = Inr (take (ii + 1) (out[ii := ?v]) @
        map complex_swap (take (nat srclen - (ii + 1)) (drop (ii + 1) inb)) @
        drop (max (ii + 1) (nat srclen)) (out[ii := ?v]))"
      using "1.IH" [OF True ld] "1.prems" by simp
    also have "\<dots> = Inr (take ii out @ map complex_swap (take (nat srclen - ii) (drop ii inb)) @
        drop (max ii (nat srclen)) out)"
      using i m by (simp add: take_Suc_conv_app_nth Cons_nth_drop_Suc [symmetric])
    finally show ?thesis .
  next
    case False
    then have "nat srclen \<le> ii" by simp
    with False show ?thesis by (simp add: complex_loop.simps max_absorb1)
  qed
qed

lemma complex_loop_all:
  assumes "readable s" "nat (len s) \<le> length out"
  shows "complex_loop (len s) 0 (val s) out = Inr (put 0 (map complex_swap (text_of s)) out)"
  using assms complex_loop_ok [of "len s" "val s" out 0] by (simp add: readable_def text_of_def put_def)

interpretation complex: collation
  complex_gtm_ac_xform complex_gtm_ac_xback complex_swap complex_swap 0 complex_accepts
  by unfold_locales
     (auto simp: complex_swap_swap complex_gtm_ac_xform_def complex_gtm_ac_xback_def complex_accepts_def
                 complex_loop_all has_room_def)

lemma complex_loop_overflow:
  assumes "nat srclen \<le> length inb" "length out < nat srclen" "ii \<le> length out"
  shows "complex_loop srclen ii inb out = Inl Write_oob"
  using assms
proof (induction srclen ii inb out rule: complex_loop.induct)
  case (1 srclen ii inb out)
  then have True: "int ii < srclen" and i: "ii < length inb" by auto
  show ?case
  proof (cases "ii < length out")
    case True': True
    have ld: "load inb ii = Inr (inb ! ii)"
        "store out ii (complex_swap (inb ! ii)) = Inr (out[ii := complex_swap (inb ! ii)])"
      using i True' by (simp_all add: mem_simps)
    then show ?thesis
      using "1.IH" [OF True ld] "1.prems" True' True by (simp add: complex_loop.simps [of srclen ii] ld)
  next
    case False
    then show ?thesis using i True by (simp add: complex_loop.simps [of srclen ii] mem_simps)
  qed
qed

section \<open>Properties of com/col\_complex.c\<close>

text \<open>\<^verbatim>\<open>gtm_ac_xutil\<close> of \<^verbatim>\<open>com/col_complex.c\<close> walks the exchanged order: operation 1
  gives the character whose collation value (its image under the transformation) is one less, operation 2
  the one whose collation value is one more, and the result is empty only at the two ends.\<close>

theorem complex_xutil_neighbours:
  assumes "val inp = c # cs" "val out = x # xs"
  shows "complex_gtm_ac_xutil inp out m 1 =
           (if c = 0 then Inr (0, val out, 0) else Inr (0, complex_before c # xs, 1)) \<and>
         complex_gtm_ac_xutil inp out m 2 =
           (if c = 255 then Inr (0, val out, 0) else Inr (0, complex_after c # xs, 1)) \<and>
         complex_swap (complex_before c) = complex_swap c - 1 \<and>
         complex_swap (complex_after c) = complex_swap c + 1"
proof -
  have b: "unat c < 256" by simp
  have "1 \<le> c \<longleftrightarrow> c \<noteq> 0" by (simp add: word_le_nat_alt unat_gt_0 Suc_le_eq)
  moreover have "c \<le> 254 \<longleftrightarrow> c \<noteq> 255"
    by (simp add: word_le_nat_alt word_unat_eq_iff) (use b in arith)
  moreover have "c - 1 = k \<longleftrightarrow> c = k + 1" "c + 1 = k \<longleftrightarrow> c = k - 1" for k
    by (auto simp: algebra_simps)
  ultimately show ?thesis
    using assms
    by (auto simp: complex_gtm_ac_xutil_def mem_simps complex_swap_def complex_before_def complex_after_def)
qed

theorem complex_xutil_neighbours_witness:
  "complex_gtm_ac_xutil \<lparr>len = 1, val = [98]\<rparr> \<lparr>len = 1, val = [0]\<rparr> 5 2 = Inr (0, [97], 1)"
  using complex_xutil_neighbours [of "\<lparr>len = 1, val = [98]\<rparr>" 98 "[]" "\<lparr>len = 1, val = [0]\<rparr>" 0 "[]" 5]
  by (simp add: complex_after_def)

text \<open>\<^verbatim>\<open>gtm_ac_xform\<close> of \<^verbatim>\<open>com/col_complex.c\<close> never looks at the length of its
  destination: a subscript longer than the destination object overflows it, whatever length the caller
  states.\<close>

theorem complex_unchecked_overflow:
  assumes "readable s" "complex_accepts (val s)" "length (val d) < nat (len s)"
  shows "complex_gtm_ac_xform s d n = Inl Write_oob"
  using assms
  by (simp add: complex_gtm_ac_xform_def complex_accepts_def readable_def complex_loop_overflow)

theorem complex_unchecked_overflow_witness:
  "complex_gtm_ac_xform \<lparr>len = 2, val = [97, 98]\<rparr> \<lparr>len = 1, val = [0]\<rparr> 0 = Inl Write_oob"
proof -
  have "complex_accepts [97, 98]" by code_simp
  then show ?thesis
    using complex_unchecked_overflow [of "\<lparr>len = 2, val = [97, 98]\<rparr>" "\<lparr>len = 1, val = [0]\<rparr>" 0]
    by (simp add: readable_def)
qed

text \<open>The collation value that operation 0 should give is the image under the transformation; the code
  returns the character itself, which differs for the two exchanged letters.\<close>

lemma complex_xutil_op0_unswapped:
  "complex_gtm_ac_xutil \<lparr>len = 1, val = [97]\<rparr> \<lparr>len = 1, val = [0]\<rparr> 0 0 = Inr (0, [97], 1) \<and>
   complex_gtm_ac_xform \<lparr>len = 1, val = [97]\<rparr> \<lparr>len = 1, val = [0]\<rparr> 0 = Inr (0, [98], 1)"
proof -
  have "complex_accepts [97]" by code_simp
  then show ?thesis
    using complex.xform_ok [of "\<lparr>len = 1, val = [97]\<rparr>" "\<lparr>len = 1, val = [0]\<rparr>" 0]
    by (simp add: complex_gtm_ac_xutil_def mem_simps readable_def has_room_def put_def text_of_def complex_swap_def)
qed

end
