(* ===== verification/Col_Unicode.thy ===== *)
theory Col_Unicode
  imports Col_Complex
begin

text \<open>
  The collations of multi-byte characters: \<^verbatim>\<open>com/col_unicode_numeric.c\<close>, which reverses the Hindi
  digits in place, and \<^verbatim>\<open>com/col_chinese.c\<close>, which converts between UTF-8 and GB18030 with
  \<^verbatim>\<open>iconv\<close>.  The conversion itself is a parameter.
\<close>

section \<open>com/col\_unicode\_numeric.c\<close>

definition unicode_VERSION :: int where
  "unicode_VERSION = 3"

text \<open>
  The loop over the copied text in steps of three bytes.  \<open>||\<close> evaluates its right operand only where
  the left one is false, so the second byte is read only after a first byte of 224.
\<close>

function hindi_loop :: "int \<Rightarrow> nat \<Rightarrow> byte list \<Rightarrow> c_fault + byte list" where
  "hindi_loop srclength i outbuf =
     (if int i < srclength
      then bindE (load outbuf i) (\<lambda>a.
           if 224 \<noteq> a then hindi_loop srclength (i + 3) outbuf
           else bindE (load outbuf (i + 1)) (\<lambda>b.
                if 165 \<noteq> b then hindi_loop srclength (i + 3) outbuf
                else bindE (load outbuf (i + 2)) (\<lambda>c.
                     bindE (store outbuf (i + 2) (word_of_int (341 - uint c))) (\<lambda>outbuf'.
                     hindi_loop srclength (i + 3) outbuf'))))
      else Inr outbuf)"
  by pat_completeness auto
termination
  by (relation "measure (\<lambda>(srclength, i, outbuf). nat (srclength - int i))") auto

declare hindi_loop.simps [simp del]

text \<open>
  Both descriptors may be null.  The result is the status, the destination descriptor (whose \<open>len\<close> the
  function overwrites) and \<^verbatim>\<open>*dstlen\<close>.
\<close>

definition hindinumreverse ::
  "gtm_descriptor option \<Rightarrow> gtm_descriptor option \<Rightarrow> int \<Rightarrow> c_fault + int \<times> gtm_descriptor option \<times> int" where
  "hindinumreverse src dst dstlen =
     (case dst of
        None \<Rightarrow> Inr (SUBC2LONG, None, dstlen)
      | Some d \<Rightarrow>
          if length (val d) < nat (len d) then Inl Write_oob
          else let zeroed = replicate (nat (len d)) 0 @ drop (nat (len d)) (val d)
          in (case src of
                None \<Rightarrow> Inr (0, Some (d\<lparr>len := 0, val := zeroed\<rparr>), 0)
              | Some s \<Rightarrow>
                  if len s = 0 then Inr (0, Some (d\<lparr>len := 0, val := zeroed\<rparr>), 0)
                  else if len s > len d then Inr (SUBC2LONG, Some (d\<lparr>val := zeroed\<rparr>), dstlen)
                  else bindE (strncpy_bytes (val s) 0 (nat (len s))) (\<lambda>srcbuf.
                       bindE (strncpy_bytes (srcbuf @ [0]) 0 (nat (len s))) (\<lambda>copied.
                       bindE (hindi_loop (len s) 0 (copied @ drop (nat (len s)) zeroed)) (\<lambda>outbuf.
                       Inr (0, Some (d\<lparr>len := len s, val := outbuf\<rparr>), len s))))))"

definition unicode_gtm_ac_xform ::
  "gtm_descriptor option \<Rightarrow> gtm_descriptor option \<Rightarrow> int \<Rightarrow> c_fault + int \<times> gtm_descriptor option \<times> int" where
  "unicode_gtm_ac_xform src dst dstlen = hindinumreverse src dst dstlen"

definition unicode_gtm_ac_xback ::
  "gtm_descriptor option \<Rightarrow> gtm_descriptor option \<Rightarrow> int \<Rightarrow> c_fault + int \<times> gtm_descriptor option \<times> int" where
  "unicode_gtm_ac_xback src dst dstlen = hindinumreverse src dst dstlen"

definition unicode_gtm_ac_verify :: "byte \<Rightarrow> byte \<Rightarrow> int" where
  "unicode_gtm_ac_verify typ ver = (if uint ver = unicode_VERSION then 0 else 1)"

subsection \<open>The function it computes\<close>

fun hindi_map :: "byte list \<Rightarrow> byte list" where
  "hindi_map (a # b # c # xs) = (if a = 224 \<and> b = 165 then a # b # (85 - c) # hindi_map xs else a # b # c # hindi_map xs)"
| "hindi_map xs = xs"

lemma byte_341: "341 - c = (85 :: byte) - c"
proof -
  have "(341 :: byte) = 85" by simp
  then show ?thesis by (rule arg_cong)
qed

lemma length_hindi_map [simp]: "length (hindi_map xs) = length xs"
  by (induction xs rule: hindi_map.induct) auto

lemma hindi_map_hindi_map: "hindi_map (hindi_map xs) = xs"
  by (induction xs rule: hindi_map.induct) auto

lemma hindi_loop_ok:
  assumes "length mid mod 3 = 0" "srclength = int (length pre + length mid)"
  shows "hindi_loop srclength (length pre) (pre @ mid @ post) = Inr (pre @ hindi_map mid @ post)"
  using assms
proof (induction mid arbitrary: pre rule: hindi_map.induct)
  case (1 a b c xs)
  have i: "int (length pre) < srclength" using "1.prems"(2) by simp
  have m: "length xs mod 3 = 0" using "1.prems"(1) by (simp add: mod_Suc split: if_splits)
  have ld: "load (pre @ a # b # c # xs @ post) (length pre) = Inr a"
      "load (pre @ a # b # c # xs @ post) (length pre + 1) = Inr b"
      "load (pre @ a # b # c # xs @ post) (length pre + 2) = Inr c"
      "store (pre @ a # b # c # xs @ post) (length pre + 2) v = Inr (pre @ a # b # v # xs @ post)" for v
    by (simp_all add: mem_simps nth_append list_update_append numeral_2_eq_2)
  have tail: "hindi_loop srclength (length pre + 3) (pre @ a # b # v # xs @ post) =
      Inr (pre @ a # b # v # hindi_map xs @ post)"
    if "\<And>pre. length xs mod 3 = 0 \<Longrightarrow> srclength = int (length pre + length xs) \<Longrightarrow>
          hindi_loop srclength (length pre) (pre @ xs @ post) = Inr (pre @ hindi_map xs @ post)" for v
  proof -
    have "length (pre @ [a, b, v]) = length pre + 3" by simp
    moreover have "srclength = int (length (pre @ [a, b, v]) + length xs)" using "1.prems"(2) by simp
    moreover note that [OF m, of "pre @ [a, b, v]"]
    ultimately show ?thesis by (simp only: append.simps append_assoc)
  qed
  show ?case
  proof (cases "a = 224 \<and> b = 165")
    case True
    have "hindi_loop srclength (length pre) (pre @ a # b # c # xs @ post) =
        hindi_loop srclength (length pre + 3) (pre @ a # b # (85 - c) # xs @ post)"
      using i ld True by (simp only: hindi_loop.simps [of srclength "length pre"]) (simp add: byte_341)
    also have "\<dots> = Inr (pre @ a # b # (85 - c) # hindi_map xs @ post)"
      using True by (intro tail "1.IH") simp_all
    finally show ?thesis using True by simp
  next
    case False
    have "hindi_loop srclength (length pre) (pre @ a # b # c # xs @ post) =
        hindi_loop srclength (length pre + 3) (pre @ a # b # c # xs @ post)"
      using i ld False by (simp only: hindi_loop.simps [of srclength "length pre"]) auto
    also have "\<dots> = Inr (pre @ a # b # c # hindi_map xs @ post)"
      using False by (intro tail "1.IH") simp_all
    finally show ?thesis using False by auto
  qed
qed (simp_all add: hindi_loop.simps)

lemma strncpy_bytes_snoc0:
  "0 \<notin> set xs \<Longrightarrow> strncpy_bytes (xs @ [0]) 0 (length xs) = Inr xs"
  using strncpy_bytes_plain [of 0 "length xs" "xs @ [0]"] by simp

lemma hindinumreverse_ok:
  assumes "readable s" "len s \<le> len d" "readable d" "0 < len s"
    and "0 \<notin> set (text_of s)" "nat (len s) mod 3 = 0"
  shows "hindinumreverse (Some s) (Some d) n =
           Inr (0, Some (d\<lparr>len := len s, val := hindi_map (text_of s) @ drop (nat (len s))
                    (replicate (nat (len d)) 0 @ drop (nat (len d)) (val d))\<rparr>), len s)"
proof -
  let ?t = "text_of s"
  have lt: "length ?t = nat (len s)" using assms(1) by simp
  have c1: "strncpy_bytes (val s) 0 (nat (len s)) = Inr ?t"
    using assms(1,5) strncpy_bytes_plain [of 0 "nat (len s)" "val s"] by (simp add: text_of_def readable_def)
  have c2: "strncpy_bytes (?t @ [0]) 0 (nat (len s)) = Inr ?t"
    using strncpy_bytes_snoc0 [OF assms(5)] by (simp only: lt)
  have c3: "hindi_loop (len s) 0 (?t @ rest) = Inr (hindi_map ?t @ rest)" for rest
  proof -
    have "length ?t mod 3 = 0" "len s = int (length [] + length ?t)"
      using lt assms(4,6) by (simp_all only: list.size add_0 nat_0_le less_imp_le)
    then show ?thesis using hindi_loop_ok [of ?t "len s" "[]" rest] by (simp only: list.size append.simps)
  qed
  have "\<not> length (val d) < nat (len d)" "\<not> len s > len d" "len s \<noteq> 0"
    using assms by (auto simp: readable_def)
  then show ?thesis
    by (simp only: hindinumreverse_def option.case if_False Let_def c1 c2 c3 bindE_Inr)
qed

subsection \<open>Properties\<close>

text \<open>The Hindi digits in UTF-8.\<close>

definition hindi_digits :: "nat list \<Rightarrow> byte list" where
  "hindi_digits ds = concat (map (\<lambda>d. [224, 165, 166 + of_nat d]) ds)"

lemma hindi_map_digits: "\<forall>d \<in> set ds. d \<le> 9 \<Longrightarrow> hindi_map (hindi_digits ds) = hindi_digits (map (\<lambda>d. 9 - d) ds)"
  by (induction ds) (auto simp: hindi_digits_def of_nat_diff)

lemma hindi_digit_nz: "d \<le> 9 \<Longrightarrow> 166 + of_nat d \<noteq> (0 :: byte)"
proof -
  assume "d \<le> 9"
  then have "d \<in> {0, 1, 2, 3, 4, 5, 6, 7, 8, 9}" by auto
  then show ?thesis by auto
qed

lemma hindi_digits_nz: "\<forall>d \<in> set ds. d \<le> 9 \<Longrightarrow> 0 \<notin> set (hindi_digits ds)"
  by (induction ds) (auto simp: hindi_digits_def hindi_digit_nz dest: sym)

lemma length_hindi_digits: "length (hindi_digits ds) = 3 * length ds"
  by (induction ds) (simp_all add: hindi_digits_def)

text \<open>The order in which the database keeps texts: byte by byte, and a text before what it begins.\<close>

fun bytes_less :: "byte list \<Rightarrow> byte list \<Rightarrow> bool" where
  "bytes_less [] ys \<longleftrightarrow> ys \<noteq> []"
| "bytes_less (x # xs) [] \<longleftrightarrow> False"
| "bytes_less (x # xs) (y # ys) \<longleftrightarrow> x < y \<or> (x = y \<and> bytes_less xs ys)"

fun begins :: "'a list \<Rightarrow> 'a list \<Rightarrow> bool" where
  "begins [] ys \<longleftrightarrow> True"
| "begins (x # xs) [] \<longleftrightarrow> False"
| "begins (x # xs) (y # ys) \<longleftrightarrow> x = y \<and> begins xs ys"

definition complements :: "nat list \<Rightarrow> nat list" where
  "complements ds = map (\<lambda>d. 9 - d) ds"

lemma digit_byte_less: "d \<le> 9 \<Longrightarrow> e \<le> 9 \<Longrightarrow> (166 + of_nat d < (166 + of_nat e :: byte)) \<longleftrightarrow> d < e"
proof -
  assume "d \<le> 9" "e \<le> 9"
  then have "unat (166 + of_nat d :: byte) = 166 + d" "unat (166 + of_nat e :: byte) = 166 + e"
    by (simp_all add: unat_add_lem [THEN iffD1] unat_of_nat unat_word_ariths)
  then show ?thesis by (simp add: word_less_nat_alt)
qed

lemma digit_byte_eq: "d \<le> 9 \<Longrightarrow> e \<le> 9 \<Longrightarrow> (166 + of_nat d = (166 + of_nat e :: byte)) \<longleftrightarrow> d = e"
  using digit_byte_less [of d e] digit_byte_less [of e d] by (cases d e rule: linorder_cases) auto

lemma hindi_digits_Cons: "hindi_digits (d # ds) = 224 # 165 # (166 + of_nat d) # hindi_digits ds"
  by (simp add: hindi_digits_def)

lemma hindi_digits_Nil: "hindi_digits [] = []"
  by (simp add: hindi_digits_def)

lemma complements_order:
  assumes "\<forall>d \<in> set ds. d \<le> 9" "\<forall>e \<in> set es. e \<le> 9"
  shows "bytes_less (hindi_digits (complements ds)) (hindi_digits (complements es)) \<longleftrightarrow>
           (if begins ds es then ds \<noteq> es else \<not> begins es ds \<and> bytes_less (hindi_digits es) (hindi_digits ds))"
  using assms
proof (induction ds es rule: begins.induct)
  case (1 ys)
  then show ?case by (cases ys) (simp_all add: complements_def hindi_digits_Nil hindi_digits_Cons)
next
  case (2 x xs)
  then show ?case by (simp add: complements_def hindi_digits_Nil hindi_digits_Cons)
next
  case (3 x xs y ys)
  then have d: "x \<le> 9" "y \<le> 9" by auto
  have less: "(166 + of_nat (9 - x) < (166 + of_nat (9 - y) :: byte)) \<longleftrightarrow> y < x"
    using d digit_byte_less [of "9 - x" "9 - y"] by auto
  have eq: "(166 + of_nat (9 - x) = (166 + of_nat (9 - y) :: byte)) \<longleftrightarrow> x = y"
    using d digit_byte_eq [of "9 - x" "9 - y"] by auto
  have c: "hindi_digits (complements (d # ds)) = 224 # 165 # (166 + of_nat (9 - d)) # hindi_digits (complements ds)" for d ds
    by (simp add: complements_def hindi_digits_Cons)
  show ?case
    using 3 digit_byte_less [OF d(2,1)] digit_byte_eq [OF d(2,1)]
    by (cases "x = y") (simp_all only: c hindi_digits_Cons bytes_less.simps less eq begins.simps, auto)
qed

lemma xform_digits:
  assumes "ds \<noteq> []" "\<forall>d \<in> set ds. d \<le> 9"
    and "length obj = nat m" "int (3 * length ds) \<le> m"
  shows "\<exists>out. unicode_gtm_ac_xform (Some \<lparr>len = int (3 * length ds), val = hindi_digits ds\<rparr>)
                 (Some \<lparr>len = m, val = obj\<rparr>) n = Inr (0, Some out, int (3 * length ds)) \<and>
               text_of out = hindi_digits (complements ds)"
proof -
  let ?s = "\<lparr>len = int (3 * length ds), val = hindi_digits ds\<rparr>"
  let ?d = "\<lparr>len = m, val = obj\<rparr>"
  have t: "text_of ?s = hindi_digits ds" by (simp add: text_of_def length_hindi_digits)
  have "unicode_gtm_ac_xform (Some ?s) (Some ?d) n = Inr (0, Some (?d\<lparr>len := int (3 * length ds),
      val := hindi_map (hindi_digits ds) @ drop (nat (len ?s)) (replicate (nat (len ?d)) 0 @ drop (nat (len ?d)) (val ?d))\<rparr>),
      int (3 * length ds))"
    unfolding unicode_gtm_ac_xform_def
    using hindinumreverse_ok [of ?s ?d n] assms hindi_digits_nz [OF assms(2)] t
    by (simp add: readable_def length_hindi_digits nat_mult_distrib)
  then show ?thesis
    by (simp add: text_of_def hindi_map_digits [OF assms(2)] complements_def length_hindi_digits)
qed

text \<open>C37. \<^verbatim>\<open>com/col_unicode_numeric.c\<close> stores a text of Hindi digits as the text of their
  nines' complements.  So of two such texts neither of which begins the other the stored ones have the
  reverse order; where one begins the other it stays the first, because the order of the database puts a text
  before what it begins.\<close>

theorem hindi_digits_complemented:
  assumes "ds \<noteq> []" "\<forall>d \<in> set ds. d \<le> 9" "es \<noteq> []" "\<forall>e \<in> set es. e \<le> 9"
    and "length obj = nat m" "int (3 * length ds) \<le> m" "length obj' = nat m'" "int (3 * length es) \<le> m'"
  shows "\<exists>x y. unicode_gtm_ac_xform (Some \<lparr>len = int (3 * length ds), val = hindi_digits ds\<rparr>)
                 (Some \<lparr>len = m, val = obj\<rparr>) n = Inr (0, Some x, int (3 * length ds)) \<and>
               unicode_gtm_ac_xform (Some \<lparr>len = int (3 * length es), val = hindi_digits es\<rparr>)
                 (Some \<lparr>len = m', val = obj'\<rparr>) n' = Inr (0, Some y, int (3 * length es)) \<and>
               text_of x = hindi_digits (complements ds) \<and> text_of y = hindi_digits (complements es) \<and>
               (bytes_less (text_of x) (text_of y) \<longleftrightarrow>
                  (if begins ds es then ds \<noteq> es
                   else \<not> begins es ds \<and> bytes_less (hindi_digits es) (hindi_digits ds)))"
  using xform_digits [OF assms(1,2,5,6), of n] xform_digits [OF assms(3,4,7,8), of n'] complements_order [OF assms(2,4)]
  by metis

theorem hindi_digits_complemented_witness:
  "\<exists>x y. unicode_gtm_ac_xform (Some \<lparr>len = 6, val = [224, 165, 166, 224, 165, 168]\<rparr>)
       (Some \<lparr>len = 7, val = [1, 1, 1, 1, 1, 1, 1]\<rparr>) 0 = Inr (0, Some x, 6) \<and>
     unicode_gtm_ac_xform (Some \<lparr>len = 3, val = [224, 165, 169]\<rparr>)
       (Some \<lparr>len = 3, val = [1, 1, 1]\<rparr>) 0 = Inr (0, Some y, 3) \<and>
     text_of x = [224, 165, 175, 224, 165, 173] \<and> text_of y = [224, 165, 172] \<and> \<not> bytes_less (text_of x) (text_of y)"
  using hindi_digits_complemented [of "[0, 2]" "[3]" "[1, 1, 1, 1, 1, 1, 1]" 7 "[1, 1, 1]" 3 0 0]
  by (simp add: hindi_digits_def complements_def)

text \<open>\<^verbatim>\<open>com/col_unicode_numeric.c\<close> is its own inverse on every text without NUL bytes whose length
  is a multiple of three, digits or not.\<close>

theorem hindi_involution:
  assumes "readable s" "0 < len s" "0 \<notin> set (text_of s)" "nat (len s) mod 3 = 0"
    and "readable d" "len s \<le> len d" "readable e" "len s \<le> len e" "0 \<notin> set (hindi_map (text_of s))"
  shows "\<exists>out orig. unicode_gtm_ac_xform (Some s) (Some d) n = Inr (0, Some out, len s) \<and>
           unicode_gtm_ac_xback (Some out) (Some e) k = Inr (0, Some orig, len s) \<and> text_of orig = text_of s"
proof -
  let ?rest = "drop (nat (len s)) (replicate (nat (len d)) 0 @ drop (nat (len d)) (val d))"
  let ?out = "d\<lparr>len := len s, val := hindi_map (text_of s) @ ?rest\<rparr>"
  have x: "unicode_gtm_ac_xform (Some s) (Some d) n = Inr (0, Some ?out, len s)"
    unfolding unicode_gtm_ac_xform_def using assms by (intro hindinumreverse_ok) auto
  have t: "text_of ?out = hindi_map (text_of s)" using assms(1) by (simp add: text_of_def readable_def)
  have r: "readable ?out" using assms(1,2) by (simp add: readable_def)
  have "unicode_gtm_ac_xback (Some ?out) (Some e) k =
      Inr (0, Some (e\<lparr>len := len ?out, val := hindi_map (text_of ?out) @ drop (nat (len ?out))
        (replicate (nat (len e)) 0 @ drop (nat (len e)) (val e))\<rparr>), len ?out)"
    unfolding unicode_gtm_ac_xback_def using assms r t by (intro hindinumreverse_ok) auto
  then have "unicode_gtm_ac_xback (Some ?out) (Some e) k =
      Inr (0, Some (e\<lparr>len := len s, val := text_of s @ drop (nat (len s))
        (replicate (nat (len e)) 0 @ drop (nat (len e)) (val e))\<rparr>), len s)" (is "_ = Inr (0, Some ?orig, _)")
    using t by (simp add: hindi_map_hindi_map)
  moreover have "text_of ?orig = text_of s" using assms(1) by (simp add: text_of_def readable_def)
  ultimately show ?thesis using x by blast
qed

theorem hindi_involution_witness:
  "\<exists>out orig. unicode_gtm_ac_xform (Some \<lparr>len = 3, val = [224, 165, 170]\<rparr>) (Some \<lparr>len = 3, val = [0, 0, 0]\<rparr>) 0 =
       Inr (0, Some out, 3) \<and>
     unicode_gtm_ac_xback (Some out) (Some \<lparr>len = 3, val = [0, 0, 0]\<rparr>) 0 = Inr (0, Some orig, 3) \<and>
     text_of orig = [224, 165, 170]"
  using hindi_involution [of "\<lparr>len = 3, val = [224, 165, 170]\<rparr>" "\<lparr>len = 3, val = [0, 0, 0]\<rparr>"
          "\<lparr>len = 3, val = [0, 0, 0]\<rparr>" 0 0]
  by (simp add: readable_def text_of_def numeral_3_eq_3)

text \<open>A truncated character at the end of the text makes the loop read past a destination that the text fills.\<close>

lemma hindi_truncated_read:
  "unicode_gtm_ac_xform (Some \<lparr>len = 1, val = [224]\<rparr>) (Some \<lparr>len = 1, val = [0]\<rparr>) 0 = Inl Read_oob"
  by (simp add: unicode_gtm_ac_xform_def hindinumreverse_def mem_simps hindi_loop.simps)

text \<open>A NUL byte ends the copy, so what follows it is lost.\<close>

lemma hindi_nul_truncates:
  "\<exists>out. unicode_gtm_ac_xform (Some \<lparr>len = 3, val = [65, 0, 66]\<rparr>) (Some \<lparr>len = 3, val = [9, 9, 9]\<rparr>) 0 =
     Inr (0, Some out, 3) \<and> text_of out = [65, 0, 0]"
  by (simp add: unicode_gtm_ac_xform_def hindinumreverse_def mem_simps hindi_loop.simps text_of_def numeral_3_eq_3)


section \<open>com/col\_chinese.c\<close>

text \<open>
  \<^verbatim>\<open>iconv\<close> is a library the source only calls.  Opening a converter gives an \<^verbatim>\<open>errno\<close> or a handle;
  a conversion of the first \<^verbatim>\<open>inbytesleft\<close> bytes into \<^verbatim>\<open>outbytesleft\<close> bytes of room gives the bytes
  it wrote and, where it fails, the \<^verbatim>\<open>errno\<close>.  The diagnostics on \<^verbatim>\<open>stderr\<close> and
  \<^verbatim>\<open>iconv_close\<close> are taken not to change \<^verbatim>\<open>errno\<close>.
\<close>

record 'cd iconv_lib =
  iconv_open :: "string \<Rightarrow> string \<Rightarrow> int + 'cd"
  iconv_conv :: "'cd \<Rightarrow> byte list \<Rightarrow> nat \<Rightarrow> int option \<times> byte list"

definition chinese_VERSION :: int where
  "chinese_VERSION = 3"

text \<open>
  \<^verbatim>\<open>gtm_ac_xform\<close> on Linux: the names of the character sets depend on \<^verbatim>\<open>gtm_test_linux_distrib\<close>,
  whose value (\<open>None\<close> where it is not set) is an argument.
\<close>

definition chinese_gtm_ac_xform ::
  "'cd iconv_lib \<Rightarrow> string option \<Rightarrow> gtm_descriptor \<Rightarrow> gtm_descriptor \<Rightarrow> int \<Rightarrow> xlate_result" where
  "chinese_gtm_ac_xform lib distro src dst dstlen =
     (let (conv_from_chset, conv_to_chset) =
            (if distro = Some ''alpine'' then (''gb18030'', ''utf8'') else (''GB18030'', ''UTF-8''))
      in case iconv_open lib conv_from_chset conv_to_chset of
           Inl errno \<Rightarrow> Inr (errno, val dst, dstlen)
         | Inr cd \<Rightarrow>
             if length (val src) < nat (len src) then Inl Read_oob
             else case iconv_conv lib cd (text_of src) (nat (len dst)) of (failed, out) \<Rightarrow>
               if length (val dst) < length out then Inl Write_oob
               else let written = out @ drop (length out) (val dst)
               in case failed of
                    Some errno \<Rightarrow> Inr (errno, written, dstlen)
                  | None \<Rightarrow> bindE (store written (length out) 0) (\<lambda>v.
                      Inr (0, v, len dst - (len dst - int (length out)))))"

definition chinese_gtm_ac_xback ::
  "'cd iconv_lib \<Rightarrow> gtm_descriptor \<Rightarrow> gtm_descriptor \<Rightarrow> int \<Rightarrow> xlate_result" where
  "chinese_gtm_ac_xback lib src dst dstlen =
     (case iconv_open lib ''UTF-8'' ''GB18030'' of
        Inl errno \<Rightarrow> Inr (errno, val dst, dstlen)
      | Inr cd \<Rightarrow>
          if length (val src) < nat (len src) then Inl Read_oob
          else case iconv_conv lib cd (text_of src) (nat (len dst)) of (failed, out) \<Rightarrow>
            if length (val dst) < length out then Inl Write_oob
            else let written = out @ drop (length out) (val dst)
            in case failed of
                 Some errno \<Rightarrow> Inr (errno, written, dstlen)
               | None \<Rightarrow> bindE (store written (length out) 0) (\<lambda>v.
                   Inr (0, v, len dst - (len dst - int (length out)))))"

definition chinese_gtm_ac_xutil :: "gtm_descriptor \<Rightarrow> gtm_descriptor \<Rightarrow> int \<Rightarrow> int \<Rightarrow> xlate_result" where
  "chinese_gtm_ac_xutil inp out outlen opn = Inr (0, val out, 0)"

definition chinese_gtm_ac_verify :: "byte \<Rightarrow> byte \<Rightarrow> int" where
  "chinese_gtm_ac_verify typ ver = (if uint ver = chinese_VERSION then 0 else 1)"

text \<open>
  A text makes the round trip through a converter pair where the converter takes it to \<open>u\<close> in any room
  that \<open>u\<close> fits into and the converter back takes \<open>u\<close> to it.
\<close>

definition makes_round_trip :: "'cd iconv_lib \<Rightarrow> byte list \<Rightarrow> byte list \<Rightarrow> bool" where
  "makes_round_trip lib t u \<longleftrightarrow> (\<exists>cd cd'. iconv_open lib ''GB18030'' ''UTF-8'' = Inr cd \<and>
     iconv_open lib ''UTF-8'' ''GB18030'' = Inr cd' \<and>
     (\<forall>room. length u \<le> room \<longrightarrow> iconv_conv lib cd t room = (None, u)) \<and>
     (\<forall>room. length t \<le> room \<longrightarrow> iconv_conv lib cd' u room = (None, t)))"

lemma store_after: "length out < length obj \<Longrightarrow>
    store (out @ drop (length out) obj) (length out) b = Inr (out @ b # drop (Suc (length out)) obj)"
  by (simp add: store_def list_update_append Cons_nth_drop_Suc [symmetric])

text \<open>C38. \<^verbatim>\<open>com/col_chinese.c\<close> adds no loss of its own: a text that the converter takes to GB18030 and
  back is what \<^verbatim>\<open>gtm_ac_xback\<close> gives back after \<^verbatim>\<open>gtm_ac_xform\<close>, with the exact lengths, where the
  destinations have room for the converted text and one byte more.\<close>

theorem chinese_round_trip:
  assumes "makes_round_trip lib (text_of s) u" "readable s" "distro \<noteq> Some ''alpine''"
    and "int (length u) \<le> len d" "length u < length (val d)"
    and "len s \<le> len e" "nat (len s) < length (val e)"
  shows "\<exists>out orig. chinese_gtm_ac_xform lib distro s d n = Inr (0, out, int (length u)) \<and>
           chinese_gtm_ac_xback lib \<lparr>len = int (length u), val = out\<rparr> e k = Inr (0, orig, len s) \<and>
           take (nat (len s)) orig = text_of s"
proof -
  from assms(1) obtain cd cd' where cd:
      "iconv_open lib ''GB18030'' ''UTF-8'' = Inr cd" "iconv_open lib ''UTF-8'' ''GB18030'' = Inr cd'"
      "\<And>room. length u \<le> room \<Longrightarrow> iconv_conv lib cd (text_of s) room = (None, u)"
      "\<And>room. length (text_of s) \<le> room \<Longrightarrow> iconv_conv lib cd' u room = (None, text_of s)"
    unfolding makes_round_trip_def by blast
  let ?out = "u @ 0 # drop (Suc (length u)) (val d)"
  have lt: "length (text_of s) = nat (len s)" "0 \<le> len s" using assms(2) by (simp_all add: readable_def)
  have "chinese_gtm_ac_xform lib distro s d n = Inr (0, ?out, int (length u))"
    using assms(2-5) cd(1,3) store_after [OF assms(5), of 0]
    by (simp add: chinese_gtm_ac_xform_def readable_def)
  moreover have "text_of \<lparr>len = int (length u), val = ?out\<rparr> = u" by (simp add: text_of_def)
  then have "chinese_gtm_ac_xback lib \<lparr>len = int (length u), val = ?out\<rparr> e k =
      Inr (0, text_of s @ 0 # drop (Suc (length (text_of s))) (val e), len s)"
    using assms(6,7) cd(2,4) store_after [of "text_of s" "val e" 0] lt
    by (simp add: chinese_gtm_ac_xback_def)
  ultimately show ?thesis using lt by simp
qed

text \<open>A converter between two one-character sets that knows the names the source gives it.\<close>

definition shift_iconv :: "byte iconv_lib" where
  "shift_iconv = \<lparr>iconv_open = (\<lambda>t f. if t = ''GB18030'' \<and> f = ''UTF-8'' then Inr 1
                    else if t = ''UTF-8'' \<and> f = ''GB18030'' then Inr (- 1) else Inl 22),
     iconv_conv = (\<lambda>cd bs room. if length bs \<le> room then (None, map (\<lambda>b. b + cd) bs) else (Some 7, []))\<rparr>"

theorem chinese_round_trip_witness:
  "\<exists>out orig. chinese_gtm_ac_xform shift_iconv None \<lparr>len = 2, val = [65, 66]\<rparr> \<lparr>len = 2, val = [0, 0, 0]\<rparr> 0 =
       Inr (0, out, 2) \<and>
     chinese_gtm_ac_xback shift_iconv \<lparr>len = 2, val = out\<rparr> \<lparr>len = 2, val = [0, 0, 0]\<rparr> 0 = Inr (0, orig, 2) \<and>
     take 2 orig = [65, 66]"
proof -
  have "makes_round_trip shift_iconv (text_of \<lparr>len = 2, val = [65, 66]\<rparr>) [66, 67]"
    unfolding makes_round_trip_def by (simp add: shift_iconv_def text_of_def)
  from chinese_round_trip [OF this, of None "\<lparr>len = 2, val = [0, 0, 0]\<rparr>" "\<lparr>len = 2, val = [0, 0, 0]\<rparr>" 0 0]
  show ?thesis by (simp add: readable_def text_of_def)
qed

text \<open>A conversion that exactly fills the destination makes the terminating NUL land one byte after it.\<close>

lemma chinese_nul_overflow:
  assumes "iconv_open lib ''UTF-8'' ''GB18030'' = Inr cd" "readable s" "length (val d) = nat (len d)"
    and "iconv_conv lib cd (text_of s) (nat (len d)) = (None, u)" "length u = nat (len d)"
  shows "chinese_gtm_ac_xback lib s d n = Inl Write_oob"
  using assms by (simp add: chinese_gtm_ac_xback_def readable_def store_def)

text \<open>
  On Alpine only one direction uses the names that the platform knows: with a converter that knows the
  lower-case names alone, \<^verbatim>\<open>gtm_ac_xback\<close> always fails.
\<close>

lemma chinese_alpine_one_way:
  assumes "iconv_open lib ''UTF-8'' ''GB18030'' = Inl errno"
  shows "chinese_gtm_ac_xback lib s d n = Inr (errno, val d, n)"
  using assms by (simp add: chinese_gtm_ac_xback_def)

end
