(* ===== verification/Linked_Tree.thy ===== *)
theory Linked_Tree
  imports Prelude "HOL-Library.Tree"
begin

text \<open>
  Search trees in a heap.  The C code keeps nodes with a left and a right pointer and walks them by
  recursion; a node is an address, the heap the list of nodes allocated so far, and a null pointer
  \<open>None\<close>.  A walk over a heap with a cycle does not return, so the walks of the model are partial:
  \<open>None\<close> means that the call never returns, \<open>Some (Inl e)\<close> that it faults.  The locale
  \<open>linked_tree\<close> states what the two trees of \<^verbatim>\<open>gtm_env_xlate_sq.c\<close> (hosts and directories) have in
  common; what it concludes about searching and inserting is proved once.
\<close>

section \<open>Runs that may not return\<close>

type_synonym addr = nat
type_synonym 'a run = "(c_fault + 'a) option"

definition ret :: "'a \<Rightarrow> 'a run" where
  "ret x = Some (Inr x)"

definition fault :: "c_fault \<Rightarrow> 'a run" where
  "fault e = Some (Inl e)"

definition bindR :: "'a run \<Rightarrow> ('a \<Rightarrow> 'b run) \<Rightarrow> 'b run" where
  "bindR m f = Option.bind m (\<lambda>r. case r of Inl e \<Rightarrow> Some (Inl e) | Inr x \<Rightarrow> f x)"

definition liftR :: "c_fault + 'a \<Rightarrow> 'a run" where
  "liftR m = Some m"

lemma bindR_ret [simp]: "bindR (ret x) f = f x"
  by (simp add: bindR_def ret_def)

lemma bindR_fault [simp]: "bindR (fault e) f = fault e"
  by (simp add: bindR_def fault_def)

lemma liftR_simps [simp]: "liftR (Inr x) = ret x" "liftR (Inl e) = fault e"
  by (simp_all add: liftR_def ret_def fault_def)

lemma ret_inject [simp]: "ret x = ret y \<longleftrightarrow> x = y"
  by (simp add: ret_def)

lemma ret_not_fault [simp]: "ret x \<noteq> fault e" "fault e \<noteq> ret x"
  by (simp_all add: ret_def fault_def)

lemma bindR_eq_ret: "bindR m f = ret y \<longleftrightarrow> (\<exists>x. m = ret x \<and> f x = ret y)"
proof (cases m)
  case None
  then show ?thesis by (simp add: bindR_def ret_def)
next
  case (Some r)
  then show ?thesis by (cases r) (simp_all add: bindR_def ret_def)
qed

lemma bindR_assoc: "bindR (bindR m f) g = bindR m (\<lambda>x. bindR (f x) g)"
proof (cases m)
  case (Some r)
  then show ?thesis by (cases r) (simp_all add: bindR_def)
qed (simp add: bindR_def)

text \<open>A run that returns, whatever it returns.\<close>

definition returns :: "'a run \<Rightarrow> bool" where
  "returns m \<longleftrightarrow> (\<exists>x. m = ret x)"

section \<open>The shape of a tree in a heap\<close>

fun tree_at :: "('n \<Rightarrow> addr option) \<Rightarrow> ('n \<Rightarrow> addr option) \<Rightarrow> 'n list \<Rightarrow> addr option \<Rightarrow> addr tree \<Rightarrow> bool" where
  "tree_at lft rgt h p Leaf \<longleftrightarrow> p = None"
| "tree_at lft rgt h p (Node l a r) \<longleftrightarrow>
     p = Some a \<and> a < length h \<and> tree_at lft rgt h (lft (h ! a)) l \<and> tree_at lft rgt h (rgt (h ! a)) r"

lemma tree_at_det: "tree_at lft rgt h p t \<Longrightarrow> tree_at lft rgt h p u \<Longrightarrow> t = u"
proof (induction t arbitrary: p u)
  case Leaf
  then show ?case by (cases u) auto
next
  case (Node l a r)
  then show ?case by (cases u) auto
qed

lemma tree_at_None [simp]: "tree_at lft rgt h None t \<longleftrightarrow> t = Leaf"
  by (cases t) auto

lemma tree_at_bound: "tree_at lft rgt h p t \<Longrightarrow> x \<in> set_tree t \<Longrightarrow> x < length h"
  by (induction t arbitrary: p) auto

lemma tree_at_root: "tree_at lft rgt h (Some a) t \<Longrightarrow> a \<in> set_tree t"
  by (cases t) auto

text \<open>The shape depends on the nodes of the tree only.\<close>

lemma tree_at_cong:
  assumes "tree_at lft rgt h p t" "length h \<le> length h'"
    and "\<And>x. x \<in> set_tree t \<Longrightarrow> lft (h' ! x) = lft (h ! x) \<and> rgt (h' ! x) = rgt (h ! x)"
  shows "tree_at lft rgt h' p t"
  using assms by (induction t arbitrary: p) auto

lemma tree_at_snoc: "tree_at lft rgt h p t \<Longrightarrow> tree_at lft rgt (h @ [n]) p t"
  by (induction t arbitrary: p) (auto simp: nth_append)

lemma tree_at_update: "tree_at lft rgt h p t \<Longrightarrow> b \<notin> set_tree t \<Longrightarrow> tree_at lft rgt (h[b := n]) p t"
  by (erule tree_at_cong) (auto, (metis nth_list_update_neq)+)

text \<open>
  Search order: the code goes left where the node compares below the key, so the larger keys are on
  the left.
\<close>

fun ordered :: "('n \<Rightarrow> 'r :: linorder) \<Rightarrow> 'n list \<Rightarrow> addr tree \<Rightarrow> bool" where
  "ordered rank h Leaf \<longleftrightarrow> True"
| "ordered rank h (Node l a r) \<longleftrightarrow> (\<forall>x \<in> set_tree l. rank (h ! a) < rank (h ! x)) \<and>
     (\<forall>x \<in> set_tree r. rank (h ! x) < rank (h ! a)) \<and> ordered rank h l \<and> ordered rank h r"

lemma ordered_cong:
  "ordered rank h t \<Longrightarrow> (\<And>x. x \<in> set_tree t \<Longrightarrow> rank (h' ! x) = rank (h ! x)) \<Longrightarrow> ordered rank h' t"
  by (induction t) auto

text \<open>No two nodes of a search tree have the same rank.\<close>

lemma ordered_rank_inj:
  "ordered rank h t \<Longrightarrow> x \<in> set_tree t \<Longrightarrow> y \<in> set_tree t \<Longrightarrow> rank (h ! x) = rank (h ! y) \<Longrightarrow> x = y"
  by (induction t) force+

section \<open>Searching and inserting\<close>

text \<open>
  What a tree offers: the two links of a node, what a key comparison reads of it (\<open>rank\<close>), the rest
  (\<open>pay\<close>), a search and an insertion.  The laws are the recursion equations of the C functions on a
  valid address, one per branch, and what storing a link changes.
\<close>

locale linked_tree =
  fixes lft rgt :: "'n \<Rightarrow> addr option"
    and set_left set_right :: "addr \<Rightarrow> 'n \<Rightarrow> 'n"
    and rank :: "'n \<Rightarrow> 'r :: linorder"
    and pay :: "'n \<Rightarrow> 'p"
    and search :: "'n list \<Rightarrow> 'k \<Rightarrow> addr option \<Rightarrow> addr option run"
    and krank :: "'k \<Rightarrow> 'r"
    and insert_at :: "'n list \<Rightarrow> addr \<Rightarrow> addr \<Rightarrow> ('n list \<times> bool) run"
    and same :: "'n \<Rightarrow> 'n \<Rightarrow> bool"
  assumes set_left_laws: "lft (set_left a n) = Some a" "rgt (set_left a n) = rgt n"
      "rank (set_left a n) = rank n" "pay (set_left a n) = pay n"
    and set_right_laws: "rgt (set_right a n) = Some a" "lft (set_right a n) = lft n"
      "rank (set_right a n) = rank n" "pay (set_right a n) = pay n"
    and search_null: "search h k None = ret None"
    and search_below: "a < length h \<Longrightarrow> rank (h ! a) < krank k \<Longrightarrow> search h k (Some a) = search h k (lft (h ! a))"
    and search_above: "a < length h \<Longrightarrow> krank k < rank (h ! a) \<Longrightarrow> search h k (Some a) = search h k (rgt (h ! a))"
    and search_hit: "a < length h \<Longrightarrow> rank (h ! a) = krank k \<Longrightarrow> search h k (Some a) = ret (Some a)"
    and insert_below: "a < length h \<Longrightarrow> e < length h \<Longrightarrow> rank (h ! a) < rank (h ! e) \<Longrightarrow>
      insert_at h a e = (case lft (h ! a) of None \<Rightarrow> ret (h[a := set_left e (h ! a)], True) | Some b \<Rightarrow> insert_at h b e)"
    and insert_above: "a < length h \<Longrightarrow> e < length h \<Longrightarrow> rank (h ! e) < rank (h ! a) \<Longrightarrow>
      insert_at h a e = (case rgt (h ! a) of None \<Rightarrow> ret (h[a := set_right e (h ! a)], True) | Some b \<Rightarrow> insert_at h b e)"
    and insert_hit: "a < length h \<Longrightarrow> e < length h \<Longrightarrow> rank (h ! a) = rank (h ! e) \<Longrightarrow>
      insert_at h a e = ret (h, same (h ! a) (h ! e))"
begin

abbreviation at :: "'n list \<Rightarrow> addr option \<Rightarrow> addr tree \<Rightarrow> bool" where
  "at \<equiv> tree_at lft rgt"

text \<open>The search returns, and it returns the node of that key where there is one.\<close>

lemma search_finds:
  assumes "at h p t" "ordered rank h t" "a \<in> set_tree t" "rank (h ! a) = krank k"
  shows "search h k p = ret (Some a)"
  using assms
proof (induction t arbitrary: p)
  case (Node l b r)
  then have b: "b < length h" "p = Some b" by auto
  consider "rank (h ! b) < krank k" | "krank k < rank (h ! b)" | "rank (h ! b) = krank k"
    by (metis linorder_cases)
  then show ?case
  proof cases
    case 1
    then have "a \<in> set_tree l" using Node.prems by fastforce
    with 1 Node b show ?thesis by (simp add: search_below)
  next
    case 2
    then have "a \<in> set_tree r" using Node.prems by fastforce
    with 2 Node b show ?thesis by (simp add: search_above)
  next
    case 3
    then have "a = b" using ordered_rank_inj [OF Node.prems(2), of a b] Node.prems(3,4) by simp
    with 3 b show ?thesis by (simp add: search_hit)
  qed
qed simp

lemma search_misses:
  assumes "at h p t" "ordered rank h t" "\<And>a. a \<in> set_tree t \<Longrightarrow> rank (h ! a) \<noteq> krank k"
  shows "search h k p = ret None"
  using assms
proof (induction t arbitrary: p)
  case (Node l b r)
  then have b: "b < length h" "p = Some b" "rank (h ! b) \<noteq> krank k" by auto
  then consider "rank (h ! b) < krank k" | "krank k < rank (h ! b)" by fastforce
  then show ?case by cases (use Node b in \<open>auto simp: search_below search_above\<close>)
qed (simp add: search_null)

lemma search_total:
  assumes "at h p t" "ordered rank h t"
  obtains "search h k p = ret None" "\<And>a. a \<in> set_tree t \<Longrightarrow> rank (h ! a) \<noteq> krank k"
  | a where "search h k p = ret (Some a)" "a \<in> set_tree t" "rank (h ! a) = krank k"
  using search_finds [OF assms] search_misses [OF assms] by blast

text \<open>Inserting a key that is there changes nothing.\<close>

lemma insert_present:
  assumes "at h (Some b) t" "ordered rank h t" "a \<in> set_tree t" "rank (h ! a) = rank (h ! e)" "e < length h"
  shows "insert_at h b e = ret (h, same (h ! a) (h ! e))"
  using assms(1-4)
proof (induction t arbitrary: b)
  case (Node l c r)
  then have b: "b < length h" "c = b" by auto
  consider "rank (h ! b) < rank (h ! e)" | "rank (h ! e) < rank (h ! b)" | "rank (h ! b) = rank (h ! e)"
    by (metis linorder_cases)
  then show ?case
  proof cases
    case 1
    then have l: "a \<in> set_tree l" using Node.prems b by fastforce
    then obtain d where d: "lft (h ! b) = Some d" using Node.prems(1) b by (cases "lft (h ! b)") auto
    with 1 l Node b assms(5) show ?thesis by (simp add: insert_below)
  next
    case 2
    then have r: "a \<in> set_tree r" using Node.prems b by fastforce
    then obtain d where d: "rgt (h ! b) = Some d" using Node.prems(1) b by (cases "rgt (h ! b)") auto
    with 2 r Node b assms(5) show ?thesis by (simp add: insert_above)
  next
    case 3
    then have "a = b" using ordered_rank_inj [OF Node.prems(2), of a b] Node.prems(3,4) b by simp
    with 3 b assms(5) show ?thesis by (simp add: insert_hit)
  qed
qed simp

text \<open>
  Inserting a new key links the new leaf below the tree: the tree has it, is still a search tree, and
  nothing outside the tree and nothing but links inside it changes.
\<close>

definition grown :: "'n list \<Rightarrow> addr tree \<Rightarrow> addr \<Rightarrow> addr \<Rightarrow> 'n list \<Rightarrow> addr tree \<Rightarrow> bool" where
  "grown h t b e h' t' \<longleftrightarrow> insert_at h b e = ret (h', True) \<and> at h' (Some b) t' \<and> ordered rank h' t' \<and>
     set_tree t' = insert e (set_tree t) \<and> length h' = length h \<and>
     (\<forall>x. x \<notin> set_tree t \<longrightarrow> h' ! x = h ! x) \<and> (\<forall>x. rank (h' ! x) = rank (h ! x) \<and> pay (h' ! x) = pay (h ! x))"

lemma at_other:
  assumes "at h p t" "\<forall>x. x \<notin> S \<longrightarrow> h' ! x = h ! x" "length h' = length h" "set_tree t \<inter> S = {}"
  shows "at h' p t"
  using assms by (intro tree_at_cong [OF assms(1)]) auto

lemma ordered_other:
  assumes "ordered rank h t" "\<forall>x. rank (h' ! x) = rank (h ! x) \<and> Q x"
  shows "ordered rank h' t"
  using assms by (intro ordered_cong [OF assms(1)]) auto

text \<open>The four ways a tree grows: a leaf below a node without that link, or a subtree that grew.\<close>

lemma grown_leaf_left:
  assumes "at h (Some b) (Node l b r)" "ordered rank h (Node l b r)" "b \<notin> set_tree r" "e < length h" "e \<noteq> b"
    and "e \<notin> set_tree r" "lft (h ! e) = None" "rgt (h ! e) = None" "lft (h ! b) = None"
    and "rank (h ! b) < rank (h ! e)"
  shows "grown h (Node l b r) b e (h[b := set_left e (h ! b)]) (Node (Node Leaf e Leaf) b r)"
proof -
  let ?h = "h[b := set_left e (h ! b)]"
  have b: "b < length h" "l = Leaf" "at ?h (rgt (h ! b)) r" using assms(1,3,9) by (auto intro: tree_at_update)
  have rk: "rank (?h ! x) = rank (h ! x) \<and> pay (?h ! x) = pay (h ! x)" for x
    using b(1) by (cases "x = b") (simp_all add: set_left_laws)
  have "ordered rank ?h r" using assms(2) rk by (auto intro: ordered_cong)
  moreover have "insert_at h b e = ret (?h, True)" using assms b by (simp add: insert_below)
  ultimately show ?thesis
    unfolding grown_def using assms b rk by (auto simp: set_left_laws)
qed

lemma grown_leaf_right:
  assumes "at h (Some b) (Node l b r)" "ordered rank h (Node l b r)" "b \<notin> set_tree l" "e < length h" "e \<noteq> b"
    and "e \<notin> set_tree l" "lft (h ! e) = None" "rgt (h ! e) = None" "rgt (h ! b) = None"
    and "rank (h ! e) < rank (h ! b)"
  shows "grown h (Node l b r) b e (h[b := set_right e (h ! b)]) (Node l b (Node Leaf e Leaf))"
proof -
  let ?h = "h[b := set_right e (h ! b)]"
  have b: "b < length h" "r = Leaf" "at ?h (lft (h ! b)) l" using assms(1,3,9) by (auto intro: tree_at_update)
  have rk: "rank (?h ! x) = rank (h ! x) \<and> pay (?h ! x) = pay (h ! x)" for x
    using b(1) by (cases "x = b") (simp_all add: set_right_laws)
  have "ordered rank ?h l" using assms(2) rk by (auto intro: ordered_cong)
  moreover have "insert_at h b e = ret (?h, True)" using assms b by (simp add: insert_above)
  ultimately show ?thesis
    unfolding grown_def using assms b rk by (auto simp: set_right_laws)
qed

lemma grown_left:
  assumes "at h (Some b) (Node l b r)" "ordered rank h (Node l b r)" "e < length h"
    and "b \<notin> set_tree l" "set_tree r \<inter> set_tree l = {}"
    and "rank (h ! b) < rank (h ! e)" "lft (h ! b) = Some d" "grown h l d e h' l'"
  shows "grown h (Node l b r) b e h' (Node l' b r)"
proof -
  from assms(8) have g: "insert_at h d e = ret (h', True)" "at h' (Some d) l'" "ordered rank h' l'"
      "set_tree l' = insert e (set_tree l)" "length h' = length h"
      "\<forall>x. x \<notin> set_tree l \<longrightarrow> h' ! x = h ! x"
      "\<forall>x. rank (h' ! x) = rank (h ! x) \<and> pay (h' ! x) = pay (h ! x)"
    unfolding grown_def by blast+
  have "at h' (rgt (h ! b)) r" using assms(1) by (intro at_other [OF _ g(6,5) assms(5)]) simp
  moreover have "ordered rank h' r" using assms(2) by (intro ordered_other [OF _ g(7)]) simp
  moreover have "insert_at h b e = ret (h', True)"
    using insert_below [OF tree_at_bound [OF assms(1)] assms(3,6)] assms(7) g(1) by simp
  moreover have "h' ! b = h ! b" using g(6) assms(4) by blast
  ultimately show ?thesis
    unfolding grown_def using assms(1,2,4,6,7) g by simp blast
qed

lemma grown_right:
  assumes "at h (Some b) (Node l b r)" "ordered rank h (Node l b r)" "e < length h"
    and "b \<notin> set_tree r" "set_tree l \<inter> set_tree r = {}"
    and "rank (h ! e) < rank (h ! b)" "rgt (h ! b) = Some d" "grown h r d e h' r'"
  shows "grown h (Node l b r) b e h' (Node l b r')"
proof -
  from assms(8) have g: "insert_at h d e = ret (h', True)" "at h' (Some d) r'" "ordered rank h' r'"
      "set_tree r' = insert e (set_tree r)" "length h' = length h"
      "\<forall>x. x \<notin> set_tree r \<longrightarrow> h' ! x = h ! x"
      "\<forall>x. rank (h' ! x) = rank (h ! x) \<and> pay (h' ! x) = pay (h ! x)"
    unfolding grown_def by blast+
  have "at h' (lft (h ! b)) l" using assms(1) by (intro at_other [OF _ g(6,5) assms(5)]) simp
  moreover have "ordered rank h' l" using assms(2) by (intro ordered_other [OF _ g(7)]) simp
  moreover have "insert_at h b e = ret (h', True)"
    using insert_above [OF tree_at_bound [OF assms(1)] assms(3,6)] assms(7) g(1) by simp
  moreover have "h' ! b = h ! b" using g(6) assms(4) by blast
  ultimately show ?thesis
    unfolding grown_def using assms(1,2,4,6,7) g by simp
qed

lemma insert_new:
  assumes "at h (Some b) t" "ordered rank h t" "e < length h" "e \<notin> set_tree t"
    and "lft (h ! e) = None" "rgt (h ! e) = None"
    and "\<And>a. a \<in> set_tree t \<Longrightarrow> rank (h ! a) \<noteq> rank (h ! e)"
  shows "\<exists>h' t'. grown h t b e h' t'"
  using assms(1,2,4,7)
proof (induction t arbitrary: b)
  case (Node l c r)
  then have b: "b < length h" "c = b" "rank (h ! b) \<noteq> rank (h ! e)" by auto
  have disj: "b \<notin> set_tree l" "b \<notin> set_tree r" "set_tree l \<inter> set_tree r = {}" "set_tree r \<inter> set_tree l = {}"
      "e \<noteq> b" "e \<notin> set_tree l" "e \<notin> set_tree r"
    using Node.prems b by force+
  have N: "at h (Some b) (Node l b r)" "ordered rank h (Node l b r)" using Node.prems b by auto
  have IH: "\<exists>h' t'. grown h l d e h' t'" if "lft (h ! b) = Some d" for d
    using that Node b by simp
  have IH': "\<exists>h' t'. grown h r d e h' t'" if "rgt (h ! b) = Some d" for d
    using that Node b by simp
  from b(3) consider "rank (h ! b) < rank (h ! e)" | "rank (h ! e) < rank (h ! b)" by fastforce
  then show ?case
  proof cases
    case 1
    then show ?thesis
      using grown_leaf_left [OF N disj(2) assms(3) disj(5,7) assms(5,6)]
        grown_left [OF N assms(3) disj(1,4) 1] IH b(2) by (cases "lft (h ! b)") blast+
  next
    case 2
    then show ?thesis
      using grown_leaf_right [OF N disj(1) assms(3) disj(5,6) assms(5,6)]
        grown_right [OF N assms(3) disj(2,3) 2] IH' b(2) by (cases "rgt (h ! b)") blast+
  qed
qed simp

end

end
