(* ===== verification/Env_Xlate.thy ===== *)
theory Env_Xlate
  imports Linked_Tree "HOL-Library.List_Lexorder" "HOL-Library.Product_Lexorder"
begin

text \<open>
  The environment translation of \<^verbatim>\<open>env_xlate/inref/gtm_env_xlate_sq.c\<close>: a table file of directories,
  hosts and global directories is read on the first call into a search tree of hosts, each with a search
  tree of directories, and a directory and a host are translated to a global directory.  The host nodes
  and the table nodes are two heaps, since several hosts may point to one directory tree.
\<close>

section \<open>The data\<close>

record tblent =
  t_left :: "addr option"
  t_right :: "addr option"
  directory :: string
  gbldir :: string

record hosts =
  h_left :: "addr option"
  h_right :: "addr option"
  hostname :: string
  ipaddr :: "32 word"
  dirtable :: "addr option"

text \<open>The static variables and the two heaps; \<open>mallocs\<close> counts the allocations so far.\<close>

record xlate =
  tbl_heap :: "tblent list"
  host_heap :: "hosts list"
  host_tree :: "addr option"
  our_host :: "addr option"
  broken_flag :: bool
  mallocs :: nat

text \<open>
  What the process sees of its system: the environment variables \<^verbatim>\<open>GTM_CALLIN_START\<close> and
  \<^verbatim>\<open>gtm_gblxlate\<close>, \<^verbatim>\<open>gethostname\<close> and \<^verbatim>\<open>fopen\<close> (an \<^verbatim>\<open>errno\<close> where they fail), the
  four bytes of \<^verbatim>\<open>h_addr\<close>, the contents of the file and whether reading it ended with an end of
  file, \<^verbatim>\<open>getcwd\<close>, the directory bit of \<^verbatim>\<open>stat\<close>, and which allocations the allocator of the runtime
  system grants.
\<close>

record xlate_env =
  env_callin :: "string option"
  env_gblxlate :: "string option"
  env_gethostname :: "int + string"
  env_gethostbyname :: "string \<Rightarrow> (byte \<times> byte \<times> byte \<times> byte) option"
  env_fopen :: "string \<Rightarrow> int + string \<times> bool"
  env_getcwd :: "string option"
  env_stat_dir :: "string \<Rightarrow> bool option"
  env_strerror :: "int \<Rightarrow> string"
  env_malloc :: "nat \<Rightarrow> bool"

definition NUL :: char where
  "NUL = CHR 0x00"

definition MSGBUFSIZE :: nat where
  "MSGBUFSIZE = 4096"

definition BUFSIZ :: nat where
  "BUFSIZ = 8192"

definition MAXPATHLEN :: nat where
  "MAXPATHLEN = 4096"

section \<open>Comparing and copying strings\<close>

definition c_tolower :: "char \<Rightarrow> char" where
  "c_tolower c = (if 65 \<le> (of_char c :: nat) \<and> (of_char c :: nat) \<le> 90 then char_of (of_char c + 32 :: nat) else c)"

text \<open>\<^verbatim>\<open>strncmp\<close> and \<^verbatim>\<open>strncasecmp\<close> over two texts of the length that is passed: a NUL in both ends the comparison.\<close>

fun strncmp_same :: "string \<Rightarrow> string \<Rightarrow> int" where
  "strncmp_same (a # as) (b # bs) =
     (if a \<noteq> b then int (of_char a) - int (of_char b) else if a = NUL then 0 else strncmp_same as bs)"
| "strncmp_same as bs = 0"

fun strncasecmp_same :: "string \<Rightarrow> string \<Rightarrow> int" where
  "strncasecmp_same (a # as) (b # bs) =
     (if c_tolower a \<noteq> c_tolower b then int (of_char (c_tolower a)) - int (of_char (c_tolower b))
      else if a = NUL then 0 else strncasecmp_same as bs)"
| "strncasecmp_same as bs = 0"

definition stringcmp :: "string \<Rightarrow> string \<Rightarrow> int" where
  "stringcmp s1 s2 = (if length s1 = length s2 then strncmp_same s1 s2 else int (length s1) - int (length s2))"

definition stringcasecmp :: "string \<Rightarrow> string \<Rightarrow> int" where
  "stringcasecmp s1 s2 = (if length s1 = length s2 then strncasecmp_same s1 s2 else int (length s1) - int (length s2))"

text \<open>\<^verbatim>\<open>STRCASECMP(a, b) == EQUAL\<close> on terminated strings.\<close>

definition strcasecmp_eq :: "string \<Rightarrow> string \<Rightarrow> bool" where
  "strcasecmp_eq a b \<longleftrightarrow> map c_tolower a = map c_tolower b"

text \<open>\<^verbatim>\<open>stringcpy\<close> into the output buffer: \<^verbatim>\<open>strncpy\<close> copies up to a NUL and pads with NULs.\<close>

definition stringcpy :: "string \<Rightarrow> string" where
  "stringcpy src =
     (let n = min (length src) MSGBUFSIZE;
          c = takeWhile (\<lambda>x. x \<noteq> NUL) (take n src)
      in c @ replicate (n - length c) NUL)"

text \<open>\<^verbatim>\<open>msg\<close> writes the routine name and the message into a buffer of \<^verbatim>\<open>MSGBUFSIZE + 1\<close> bytes.\<close>

definition msg :: "string \<Rightarrow> string run" where
  "msg s = (let t = ''gtm_env_xlate:  '' @ s in if length t \<le> MSGBUFSIZE then ret t else fault Write_oob)"

section \<open>The trees\<close>

lemma bindR_mono [partial_function_mono]:
  assumes "mono_option B" and "\<And>y. mono_option (\<lambda>f. C y f)"
  shows "mono_option (\<lambda>f. bindR (B f) (\<lambda>y. C y f))"
proof -
  have "mono_option (\<lambda>f. case r of Inl e \<Rightarrow> Some (Inl e) | Inr x \<Rightarrow> C x f)" for r
    using assms(2) by (cases r) (auto intro: monotoneI simp: flat_ord_def)
  then show ?thesis unfolding bindR_def using assms(1) by (intro bind_mono)
qed

text \<open>\<^verbatim>\<open>root->left\<close> and the like read the node of an address; the walks recurse as the C functions do.\<close>

partial_function (option) host_tree_insert :: "hosts list \<Rightarrow> addr \<Rightarrow> addr \<Rightarrow> (hosts list \<times> bool) run" where
  [code]: "host_tree_insert h root entry =
     bindR (liftR (load h root)) (\<lambda>r.
     bindR (liftR (load h entry)) (\<lambda>e.
     let direction = stringcasecmp (hostname r) (hostname e) in
     if direction < 0
     then (case h_left r of
             None \<Rightarrow> ret (h[root := r\<lparr>h_left := Some entry\<rparr>], True)
           | Some l \<Rightarrow> host_tree_insert h l entry)
     else if direction > 0
     then (case h_right r of
             None \<Rightarrow> ret (h[root := r\<lparr>h_right := Some entry\<rparr>], True)
           | Some l \<Rightarrow> host_tree_insert h l entry)
     else ret (h, False)))"

partial_function (option) dir_tree_insert :: "tblent list \<Rightarrow> addr \<Rightarrow> addr \<Rightarrow> (tblent list \<times> bool) run" where
  [code]: "dir_tree_insert h root entry =
     bindR (liftR (load h root)) (\<lambda>r.
     bindR (liftR (load h entry)) (\<lambda>e.
     let direction = stringcmp (directory r) (directory e) in
     if direction < 0
     then (case t_left r of
             None \<Rightarrow> ret (h[root := r\<lparr>t_left := Some entry\<rparr>], True)
           | Some l \<Rightarrow> dir_tree_insert h l entry)
     else if direction > 0
     then (case t_right r of
             None \<Rightarrow> ret (h[root := r\<lparr>t_right := Some entry\<rparr>], True)
           | Some l \<Rightarrow> dir_tree_insert h l entry)
     else ret (h, stringcmp (gbldir r) (gbldir e) = 0)))"

partial_function (option) lookup_host_xc :: "hosts list \<Rightarrow> string \<Rightarrow> addr option \<Rightarrow> addr option run" where
  [code]: "lookup_host_xc h name root =
     (case root of
        None \<Rightarrow> ret None
      | Some a \<Rightarrow> bindR (liftR (load h a)) (\<lambda>r.
          let direction = stringcasecmp (hostname r) name in
          if direction < 0 then lookup_host_xc h name (h_left r)
          else if direction > 0 then lookup_host_xc h name (h_right r)
          else ret (Some a)))"

text \<open>\<^verbatim>\<open>lookup_host\<close> wraps a terminated string, which the model has anyway.\<close>

definition lookup_host :: "hosts list \<Rightarrow> string \<Rightarrow> addr option \<Rightarrow> addr option run" where
  "lookup_host h name root = lookup_host_xc h name root"

partial_function (option) find_host_by_ip :: "hosts list \<Rightarrow> 32 word \<Rightarrow> addr option \<Rightarrow> addr option run" where
  [code]: "find_host_by_ip h ip root =
     (case root of
        None \<Rightarrow> ret None
      | Some a \<Rightarrow> bindR (liftR (load h a)) (\<lambda>r.
          if ipaddr r = ip then ret (Some a)
          else bindR (find_host_by_ip h ip (h_left r)) (\<lambda>node.
               if node \<noteq> None then ret node else find_host_by_ip h ip (h_right r))))"

partial_function (option) dir_tree_search :: "tblent list \<Rightarrow> string \<Rightarrow> addr option \<Rightarrow> addr option run" where
  [code]: "dir_tree_search h dir root =
     (case root of
        None \<Rightarrow> ret None
      | Some a \<Rightarrow> bindR (liftR (load h a)) (\<lambda>r.
          let direction = stringcmp (directory r) dir in
          if direction < 0 then dir_tree_search h dir (t_left r)
          else if direction > 0 then dir_tree_search h dir (t_right r)
          else ret (Some a)))"

section \<open>Building the database\<close>

text \<open>
  An operation returns the state and either a message (the C function returned false or null after
  \<^verbatim>\<open>msg\<close>) or its value.
\<close>

type_synonym 'a outcome = "(xlate \<times> (string + 'a)) run"

definition fail :: "xlate \<Rightarrow> string \<Rightarrow> 'a outcome" where
  "fail st s = bindR (msg s) (\<lambda>t. ret (st, Inl t))"

definition done_with :: "xlate \<Rightarrow> 'a \<Rightarrow> 'a outcome" where
  "done_with st x = ret (st, Inr x)"

definition bindO :: "'a outcome \<Rightarrow> (xlate \<Rightarrow> 'a \<Rightarrow> 'b outcome) \<Rightarrow> 'b outcome" where
  "bindO m f = bindR m (\<lambda>(st, r). case r of Inl t \<Rightarrow> ret (st, Inl t) | Inr x \<Rightarrow> f st x)"

definition GTM_MALLOC :: "xlate_env \<Rightarrow> xlate \<Rightarrow> bool \<times> xlate" where
  "GTM_MALLOC env st = (env_malloc env (mallocs st), st\<lparr>mallocs := mallocs st + 1\<rparr>)"

text \<open>A host node takes 48 bytes, as does a table entry.\<close>

definition save_host :: "xlate_env \<Rightarrow> xlate \<Rightarrow> string \<Rightarrow> 32 word \<Rightarrow> addr option \<Rightarrow> addr outcome" where
  "save_host env st0 name ip tbl =
     (let (ok, st) = GTM_MALLOC env st0 in
      if \<not> ok then fail st ''Failed to allocate 48 bytes for host node''
      else let (ok, st) = GTM_MALLOC env st in
      if \<not> ok then fail st (''Failed to allocate '' @ dec_of_nat (length name + 1) @ '' bytes for host name '' @ name)
      else let host = length (host_heap st);
               heap = host_heap st @ [\<lparr>h_left = None, h_right = None, hostname = name, ipaddr = ip, dirtable = tbl\<rparr>]
      in case host_tree st of
           None \<Rightarrow> done_with (st\<lparr>host_heap := heap, host_tree := Some host\<rparr>) host
         | Some root \<Rightarrow> bindR (host_tree_insert heap root host) (\<lambda>(heap', ok).
             if ok then done_with (st\<lparr>host_heap := heap'\<rparr>) host
             else fail (st\<lparr>host_heap := heap'\<rparr>) (''Impossible duplicate host '' @ name @ '' in host tree'')))"

definition strip_slash :: "string \<Rightarrow> string" where
  "strip_slash dir = (if length dir > 1 \<and> last dir = CHR ''/'' then butlast dir else dir)"

text \<open>The part of \<^verbatim>\<open>save_table_entry\<close> that finds or adds the host.\<close>

definition entry_host :: "xlate_env \<Rightarrow> xlate \<Rightarrow> string \<Rightarrow> 32 word \<Rightarrow> addr outcome" where
  "entry_host env st name ip =
     bindR (lookup_host (host_heap st) name (host_tree st)) (\<lambda>host.
       case host of
         Some a \<Rightarrow> done_with st a
       | None \<Rightarrow> bindR (find_host_by_ip (host_heap st) ip (host_tree st)) (\<lambda>althost.
           bindR (case althost of
                    None \<Rightarrow> ret None
                  | Some b \<Rightarrow> bindR (liftR (load (host_heap st) b)) (\<lambda>n. ret (dirtable n))) (\<lambda>tbl.
           save_host env st name ip tbl)))"

text \<open>The part that allocates the entry and adds it to the directory tree of the host.\<close>

definition add_entry :: "xlate_env \<Rightarrow> xlate \<Rightarrow> string \<Rightarrow> addr \<Rightarrow> string \<Rightarrow> string \<Rightarrow> string \<Rightarrow> unit outcome" where
  "add_entry env st0 name host dir gblpath recbuf =
     (let (ok, st) = GTM_MALLOC env st0 in
      if \<not> ok then fail st ''Failed to allocate 48 bytes for table memory''
      else let dir = strip_slash dir; (ok, st) = GTM_MALLOC env st in
      if \<not> ok then fail st (''Failed to allocate '' @ dec_of_nat (length dir + 1) @ '' bytes for directory from '' @ recbuf)
      else let (ok, st) = GTM_MALLOC env st in
      if \<not> ok then fail st (''Failed to allocate '' @ dec_of_nat (length gblpath + 1) @ '' bytes for filename from '' @ recbuf)
      else let direntry = length (tbl_heap st);
               heap = tbl_heap st @ [\<lparr>t_left = None, t_right = None, directory = dir, gbldir = gblpath\<rparr>]
      in bindR (liftR (load (host_heap st) host)) (\<lambda>h.
           case dirtable h of
             None \<Rightarrow> done_with (st\<lparr>tbl_heap := heap,
                       host_heap := (host_heap st)[host := h\<lparr>dirtable := Some direntry\<rparr>]\<rparr>) ()
           | Some root \<Rightarrow> bindR (dir_tree_insert heap root direntry) (\<lambda>(heap', ok).
               if ok then done_with (st\<lparr>tbl_heap := heap'\<rparr>) ()
               else fail (st\<lparr>tbl_heap := heap'\<rparr>)
                      (''Conflicting entry '' @ name @ '':'' @ dir @ '' in translation file''))))"

definition save_table_entry ::
  "xlate_env \<Rightarrow> xlate \<Rightarrow> string \<Rightarrow> 32 word \<Rightarrow> string \<Rightarrow> string \<Rightarrow> string \<Rightarrow> unit outcome" where
  "save_table_entry env st name ip dir gblpath recbuf =
     bindR (if strcasecmp_eq name ''localhost''
            then (case our_host st of
                    None \<Rightarrow> fault Null_deref
                  | Some o' \<Rightarrow> bindR (liftR (load (host_heap st) o')) (\<lambda>n. ret (hostname n)))
            else ret name) (\<lambda>name.
     bindO (entry_host env st name ip) (\<lambda>st host.
     if strcasecmp_eq dir ''dummy'' then done_with st ()
     else add_entry env st name host dir gblpath recbuf))"

section \<open>Reading the table file\<close>

definition get_ip_addr :: "xlate_env \<Rightarrow> string \<Rightarrow> 32 word" where
  "get_ip_addr env name =
     (case env_gethostbyname env name of
        None \<Rightarrow> 0
      | Some (a, b, c, d) \<Rightarrow>
          push_bit 24 (ucast a) + push_bit 16 (ucast b) + push_bit 8 (ucast c) + ucast d)"

text \<open>\<^verbatim>\<open>fgets\<close>: up to \<open>n - 1\<close> bytes, through the first newline.\<close>

definition fgets :: "nat \<Rightarrow> string \<Rightarrow> (string \<times> string) option" where
  "fgets n s =
     (if s = [] then None
      else let w = take (n - 1) s;
               l = length (takeWhile (\<lambda>c. c \<noteq> CHR ''\<newline>'') w);
               k = (if l < length w then l + 1 else l)
           in Some (take k s, drop k s))"

definition ws_n :: string where
  "ws_n = [CHR '' '', CHR 0x09, CHR ''\<newline>'']"

definition ws :: string where
  "ws = [CHR '' '', CHR 0x09]"

text \<open>The text of the buffer after the first \<^verbatim>\<open>strtok\<close> on it: the delimiters before the token, and the token.\<close>

definition strtok_buffer :: "string \<Rightarrow> string \<Rightarrow> string" where
  "strtok_buffer delims s =
     (case strtok delims s of
        None \<Rightarrow> s
      | Some (t, rest) \<Rightarrow> takeWhile (\<lambda>c. c \<in> set delims) s @ t)"

text \<open>One turn of the loop of \<^verbatim>\<open>read_dir_table\<close>; \<open>line\<close> is what \<^verbatim>\<open>fgets\<close> left in \<^verbatim>\<open>tblbuf\<close>.\<close>

definition read_record :: "xlate_env \<Rightarrow> xlate \<Rightarrow> string \<Rightarrow> unit outcome" where
  "read_record env st line =
     (let tblbuf = takeWhile (\<lambda>c. c \<noteq> NUL) line in
      if tblbuf \<noteq> [] \<and> hd tblbuf = CHR ''#'' then done_with st ()
      else case strtok ws_n tblbuf of
        None \<Rightarrow> done_with st ()
      | Some (dirptr, rest) \<Rightarrow>
          let recbuf = strtok_buffer ws_n tblbuf in
          (case strtok ws rest of
             None \<Rightarrow> fail st (''No host in translation table record '' @ recbuf)
           | Some (host, rest) \<Rightarrow>
               let ip_addr = get_ip_addr env host in
               if ip_addr = 0 then fail st (''Can't get IP address for host in '' @ recbuf)
               else (case strtok ws_n rest of
                       None \<Rightarrow> fail st (''No global directory file in translation table record '' @ recbuf)
                     | Some (gblptr, rest) \<Rightarrow> save_table_entry env st host ip_addr dirptr gblptr recbuf)))"

lemma fgets_shrinks: "fgets n s = Some (l, r) \<Longrightarrow> 1 < n \<Longrightarrow> length r < length s"
proof -
  assume f: "fgets n s = Some (l, r)" and n: "1 < n"
  then obtain c cs where s: "s = c # cs" by (cases s) (auto simp: fgets_def)
  obtain m where "n - 1 = Suc m" using n by (cases "n - 1") auto
  with f s show ?thesis by (auto simp: fgets_def Let_def split: if_splits)
qed

function read_records :: "xlate_env \<Rightarrow> xlate \<Rightarrow> string \<Rightarrow> unit outcome" where
  "read_records env st contents =
     (case fgets BUFSIZ contents of
        None \<Rightarrow> done_with st ()
      | Some (line, rest) \<Rightarrow> bindO (read_record env st line) (\<lambda>st u. read_records env st rest))"
  by pat_completeness auto
termination
  by (relation "measure (\<lambda>(env, st, contents). length contents)")
    (auto intro: fgets_shrinks simp: BUFSIZ_def)

declare read_records.simps [simp del]

definition read_dir_table :: "xlate_env \<Rightarrow> xlate \<Rightarrow> unit outcome" where
  "read_dir_table env st =
     (case env_gblxlate env of
        None \<Rightarrow> fail st ''Cannot translate environment variable gtm_gblxlate''
      | Some pathptr \<Rightarrow>
          (case env_fopen env pathptr of
             Inl errno \<Rightarrow> fail st (''Cannot open translation file '' @ pathptr @ '' ('' @ dec_of_int errno @ '') - '' @
                            env_strerror env errno)
           | Inr (contents, eof) \<Rightarrow>
               bindO (read_records env st contents) (\<lambda>st u.
               if eof then done_with st () else fail st (''Error reading translation file '' @ pathptr))))"

section \<open>Initialisation\<close>

definition init_functable :: "xlate_env \<Rightarrow> xlate \<Rightarrow> unit outcome" where
  "init_functable env st =
     (case env_callin env of
        None \<Rightarrow> fail st ''gtm_env_xlate:  Failed to get environment variable GTM_CALLIN_START''
      | Some pcAddress \<Rightarrow>
          if atoi pcAddress = 0
          then fail st (''gtm_env_xlate:  Failed to convert '' @ pcAddress @ '' to a valid address'')
          else done_with st ())"

text \<open>Every failure of \<^verbatim>\<open>initialize\<close> sets \<^verbatim>\<open>broken_flag\<close>.\<close>

definition or_broken :: "'a outcome \<Rightarrow> 'a outcome" where
  "or_broken m = bindR m (\<lambda>(st, r). case r of Inl t \<Rightarrow> ret (st\<lparr>broken_flag := True\<rparr>, Inl t) | Inr x \<Rightarrow> ret (st, Inr x))"

definition initialize :: "xlate_env \<Rightarrow> xlate \<Rightarrow> unit outcome" where
  "initialize env st =
     or_broken (
       bindO (init_functable env st) (\<lambda>st u.
       case env_gethostname env of
         Inl errno \<Rightarrow> fail st (''Failed to get our host name ('' @ dec_of_int errno @ '') - '' @ env_strerror env errno)
       | Inr name \<Rightarrow>
           let host_ipaddr = get_ip_addr env name in
           if host_ipaddr = 0 then fail st (''Failed to get our IP address for our host name '' @ name)
           else bindO (save_host env st (strtok_buffer ''.'' name) host_ipaddr None) (\<lambda>st a.
                read_dir_table env (st\<lparr>our_host := Some a\<rparr>))))"

section \<open>Translating\<close>

definition is_file :: "xlate_env \<Rightarrow> string \<Rightarrow> bool run" where
  "is_file env path =
     (if length path > MAXPATHLEN then fault Write_oob
      else ret (env_stat_dir env (takeWhile (\<lambda>c. c \<noteq> NUL) path) = Some False))"

text \<open>
  The arguments are \<open>None\<close> where the pointer is null.  The result is the return code, the text in the
  output buffer and the first argument, which loses its trailing slash in place.
\<close>

type_synonym env_result = "(xlate \<times> int \<times> string \<times> string option) run"

definition deref :: "'a list \<Rightarrow> addr option \<Rightarrow> 'a run" where
  "deref h p = (case p of None \<Rightarrow> fault Null_deref | Some a \<Rightarrow> liftR (load h a))"

definition answer :: "xlate \<Rightarrow> string option \<Rightarrow> string \<Rightarrow> env_result" where
  "answer st darg s = bindR (msg s) (\<lambda>t. ret (st, -1, t, darg))"

text \<open>The end of \<^verbatim>\<open>gtm_env_xlate\<close>, once the host node \<open>a\<close> is known; \<open>us\<close> is the node of our own host.\<close>

definition xlate_at_host ::
  "xlate_env \<Rightarrow> xlate \<Rightarrow> string option \<Rightarrow> string \<Rightarrow> hosts \<Rightarrow> addr \<Rightarrow> bool \<Rightarrow> env_result" where
  "xlate_at_host env st darg dir us a our_host_flag =
     bindR (if our_host_flag then is_file env dir else ret False) (\<lambda>file.
     if file then ret (st, 0, stringcpy dir, darg)
     else if our_host_flag \<and> dirtable us = None then answer st darg ''No local host translation available''
     else bindR (liftR (load (host_heap st) a)) (\<lambda>h.
          bindR (dir_tree_search (tbl_heap st) dir (dirtable h)) (\<lambda>node.
          case node of
            None \<Rightarrow> answer st darg ''No translation available''
          | Some n \<Rightarrow> bindR (liftR (load (tbl_heap st) n)) (\<lambda>e. ret (st, 0, stringcpy (gbldir e), darg)))))"

text \<open>The lookup after the arguments are normalised.\<close>

definition xlate_lookup :: "xlate_env \<Rightarrow> xlate \<Rightarrow> string option \<Rightarrow> string \<Rightarrow> string option \<Rightarrow> env_result" where
  "xlate_lookup env st darg dir host =
     bindR (deref (host_heap st) (our_host st)) (\<lambda>us.
     if host = None \<or> host = Some [] then xlate_at_host env st darg dir us (the (our_host st)) True
     else let name = (if stringcasecmp (the host) ''localhost'' = 0 then hostname us else the host)
     in bindR (lookup_host_xc (host_heap st) name (host_tree st)) (\<lambda>hoststr.
          case hoststr of
            None \<Rightarrow> answer st darg ''No translation available''
          | Some a \<Rightarrow> bindR (liftR (load (host_heap st) a)) (\<lambda>h.
              xlate_at_host env st darg dir us a (ipaddr h = ipaddr us))))"

text \<open>An empty or null directory means the current directory; a trailing slash is dropped.\<close>

definition xlate_dir :: "xlate_env \<Rightarrow> xlate \<Rightarrow> string option \<Rightarrow> string option \<Rightarrow> env_result" where
  "xlate_dir env st dir host =
     (if dir = None \<or> dir = Some []
      then (case env_getcwd env of
              None \<Rightarrow> answer st dir ''Failed to get current working directory''
            | Some cwd \<Rightarrow> xlate_lookup env st dir (strip_slash cwd) host)
      else let d = strip_slash (the dir) in xlate_lookup env st (Some d) d host)"

definition gtm_env_xlate :: "xlate_env \<Rightarrow> xlate \<Rightarrow> string option \<Rightarrow> string option \<Rightarrow> env_result" where
  "gtm_env_xlate env st dir host =
     (if broken_flag st then answer st dir ''Environment translation service is broken''
      else bindR (if our_host st = None then initialize env st else done_with st ()) (\<lambda>(st, r).
        case r of
          Inl t \<Rightarrow> ret (st, -1, t, dir)
        | Inr u \<Rightarrow> xlate_dir env st dir host))"

text \<open>The static initialisers.\<close>

definition xlate_start :: xlate where
  "xlate_start = \<lparr>tbl_heap = [], host_heap = [], host_tree = None, our_host = None, broken_flag = False, mallocs = 0\<rparr>"

end
