(* ===== verification/Env_Xlate_Correct.thy ===== *)
theory Env_Xlate_Correct
  imports Env_Xlate
begin

text \<open>
  What the environment translation guarantees.  The two trees are instances of \<open>linked_tree\<close>; the
  invariant \<open>db\<close> relates the heaps to a tree of hosts and a tree of directories per host, where two hosts
  have the same directory tree or disjoint ones; every operation returns and keeps it; what the file says
  is what a translation answers.
\<close>

section \<open>The order of names\<close>

definition srank :: "string \<Rightarrow> nat \<times> nat list" where
  "srank s = (length s, map of_char (takeWhile (\<lambda>c. c \<noteq> NUL) s))"

definition crank :: "string \<Rightarrow> nat \<times> nat list" where
  "crank s = (length s, map (\<lambda>c. of_char (c_tolower c)) (takeWhile (\<lambda>c. c \<noteq> NUL) s))"

lemma of_char_tolower: "(of_char (c_tolower c) :: nat) =
    (if 65 \<le> (of_char c :: nat) \<and> (of_char c :: nat) \<le> 90 then of_char c + 32 else of_char c)"
  by (simp add: c_tolower_def)

lemma is_NUL: "c = NUL \<longleftrightarrow> (of_char c :: nat) = 0"
proof -
  have "(of_char NUL :: nat) = 0" by (simp add: NUL_def)
  then show ?thesis by (metis of_char_eq_iff)
qed

lemma c_tolower_NUL: "c_tolower c = NUL \<longleftrightarrow> c = NUL"
  by (simp add: is_NUL of_char_tolower)

lemma less_nat_list: "x # xs < y # ys \<longleftrightarrow> x < y \<or> x = y \<and> xs < (ys :: nat list)"
  by simp

lemma strncmp_same_sign:
  "length a = length b \<Longrightarrow> (strncmp_same a b < 0 \<longleftrightarrow> srank a < srank b) \<and> (strncmp_same a b > 0 \<longleftrightarrow> srank b < srank a)"
proof (induction a b rule: strncmp_same.induct)
  case (1 a as b bs)
  show ?case
  proof (cases "a = b")
    case True
    then show ?thesis using 1 by (cases "a = NUL") (auto simp: srank_def)
  next
    case False
    then have "(of_char a :: nat) \<noteq> of_char b" by simp
    then show ?thesis using False "1.prems" by (auto simp: srank_def is_NUL)
  qed
qed (auto simp: srank_def)

lemma strncasecmp_same_sign:
  "length a = length b \<Longrightarrow>
     (strncasecmp_same a b < 0 \<longleftrightarrow> crank a < crank b) \<and> (strncasecmp_same a b > 0 \<longleftrightarrow> crank b < crank a)"
proof (induction a b rule: strncasecmp_same.induct)
  case (1 a as b bs)
  show ?case
  proof (cases "c_tolower a = c_tolower b")
    case True
    then have "a = NUL \<longleftrightarrow> b = NUL" using c_tolower_NUL by metis
    then show ?thesis using 1 True by (cases "a = NUL") (auto simp: crank_def)
  next
    case False
    define x y where xy: "x = (of_char (c_tolower a) :: nat)" "y = (of_char (c_tolower b) :: nat)"
    have ne: "x \<noteq> y" using False by (simp add: xy)
    have z: "a = NUL \<longleftrightarrow> x = 0" "b = NUL \<longleftrightarrow> y = 0"
      using c_tolower_NUL [of a] c_tolower_NUL [of b] by (simp_all only: xy is_NUL)
    have "crank (a # as) = (Suc (length as), if x = 0 then [] else x # snd (crank as))"
      "crank (b # bs) = (Suc (length bs), if y = 0 then [] else y # snd (crank bs))"
      using z by (simp_all add: crank_def xy)
    moreover have "strncasecmp_same (a # as) (b # bs) = int x - int y" using False by (simp add: xy)
    ultimately show ?thesis using ne "1.prems" by auto
  qed
qed (auto simp: crank_def)

lemma stringcmp_less: "stringcmp a b < 0 \<longleftrightarrow> srank a < srank b"
  using strncmp_same_sign [of a b] by (auto simp: stringcmp_def srank_def)

lemma stringcmp_greater: "stringcmp a b > 0 \<longleftrightarrow> srank b < srank a"
  using strncmp_same_sign [of a b] by (auto simp: stringcmp_def srank_def)

lemma stringcasecmp_less: "stringcasecmp a b < 0 \<longleftrightarrow> crank a < crank b"
  using strncasecmp_same_sign [of a b] by (auto simp: stringcasecmp_def crank_def)

lemma stringcasecmp_greater: "stringcasecmp a b > 0 \<longleftrightarrow> crank b < crank a"
  using strncasecmp_same_sign [of a b] by (auto simp: stringcasecmp_def crank_def)

lemma stringcmp_equal: "stringcmp a b = 0 \<longleftrightarrow> srank a = srank b"
  using stringcmp_less [of a b] stringcmp_greater [of a b] by (auto simp: not_less_iff_gr_or_eq)

lemma stringcasecmp_equal: "stringcasecmp a b = 0 \<longleftrightarrow> crank a = crank b"
  using stringcasecmp_less [of a b] stringcasecmp_greater [of a b] by (auto simp: not_less_iff_gr_or_eq)

lemmas cmp_ranks = stringcmp_less stringcmp_greater stringcmp_equal
  stringcasecmp_less stringcasecmp_greater stringcasecmp_equal

text \<open>On names without NUL bytes the order identifies equal names only.\<close>

lemma srank_inject: "NUL \<notin> set b \<Longrightarrow> srank a = srank b \<Longrightarrow> a = b"
proof -
  assume b: "NUL \<notin> set b" and eq: "srank a = srank b"
  have tb: "takeWhile (\<lambda>c. c \<noteq> NUL) b = b" using b by (auto simp: takeWhile_eq_all_conv)
  have "inj (of_char :: char \<Rightarrow> nat)" by (simp add: inj_def)
  with eq have ta: "takeWhile (\<lambda>c. c \<noteq> NUL) a = b" "length a = length b"
    by (auto simp: srank_def tb inj_map_eq_map)
  then show "a = b" by (metis takeWhile_dropWhile_id append_eq_append_conv append_Nil2)
qed

section \<open>The trees are linked trees\<close>

abbreviation hrank :: "hosts \<Rightarrow> nat \<times> nat list" where
  "hrank n \<equiv> crank (hostname n)"

abbreviation trank :: "tblent \<Rightarrow> nat \<times> nat list" where
  "trank n \<equiv> srank (directory n)"

lemma host_tree_insert_at:
  assumes "a < length h" "e < length h"
  shows "host_tree_insert h a e =
    (if hrank (h ! a) < hrank (h ! e)
     then (case h_left (h ! a) of None \<Rightarrow> ret (h[a := (h ! a)\<lparr>h_left := Some e\<rparr>], True) | Some l \<Rightarrow> host_tree_insert h l e)
     else if hrank (h ! e) < hrank (h ! a)
     then (case h_right (h ! a) of None \<Rightarrow> ret (h[a := (h ! a)\<lparr>h_right := Some e\<rparr>], True) | Some l \<Rightarrow> host_tree_insert h l e)
     else ret (h, False))"
  using assms by (subst host_tree_insert.simps) (simp add: mem_simps Let_def cmp_ranks)

lemma lookup_host_xc_at:
  "lookup_host_xc h name None = ret None"
  "a < length h \<Longrightarrow> lookup_host_xc h name (Some a) =
    (if hrank (h ! a) < crank name then lookup_host_xc h name (h_left (h ! a))
     else if crank name < hrank (h ! a) then lookup_host_xc h name (h_right (h ! a))
     else ret (Some a))"
  by (subst lookup_host_xc.simps, simp add: mem_simps Let_def cmp_ranks)+

lemma dir_tree_insert_at:
  assumes "a < length h" "e < length h"
  shows "dir_tree_insert h a e =
    (if trank (h ! a) < trank (h ! e)
     then (case t_left (h ! a) of None \<Rightarrow> ret (h[a := (h ! a)\<lparr>t_left := Some e\<rparr>], True) | Some l \<Rightarrow> dir_tree_insert h l e)
     else if trank (h ! e) < trank (h ! a)
     then (case t_right (h ! a) of None \<Rightarrow> ret (h[a := (h ! a)\<lparr>t_right := Some e\<rparr>], True) | Some l \<Rightarrow> dir_tree_insert h l e)
     else ret (h, stringcmp (gbldir (h ! a)) (gbldir (h ! e)) = 0))"
  using assms by (subst dir_tree_insert.simps) (simp add: mem_simps Let_def cmp_ranks)

lemma dir_tree_search_at:
  "dir_tree_search h d None = ret None"
  "a < length h \<Longrightarrow> dir_tree_search h d (Some a) =
    (if trank (h ! a) < srank d then dir_tree_search h d (t_left (h ! a))
     else if srank d < trank (h ! a) then dir_tree_search h d (t_right (h ! a))
     else ret (Some a))"
  by (subst dir_tree_search.simps, simp add: mem_simps Let_def cmp_ranks)+

interpretation host: linked_tree h_left h_right "\<lambda>a n. n\<lparr>h_left := Some a\<rparr>" "\<lambda>a n. n\<lparr>h_right := Some a\<rparr>"
  hrank "\<lambda>n. (hostname n, ipaddr n, dirtable n)" lookup_host_xc crank host_tree_insert "\<lambda>n m. False"
  by unfold_locales (simp; fail | subst lookup_host_xc_at host_tree_insert_at; auto dest: less_asym split: option.split; fail)+

interpretation dir: linked_tree t_left t_right "\<lambda>a n. n\<lparr>t_left := Some a\<rparr>" "\<lambda>a n. n\<lparr>t_right := Some a\<rparr>"
  trank "\<lambda>n. (directory n, gbldir n)" dir_tree_search srank dir_tree_insert
  "\<lambda>n m. stringcmp (gbldir n) (gbldir m) = 0"
  by unfold_locales (simp; fail | subst dir_tree_search_at dir_tree_insert_at; auto dest: less_asym split: option.split; fail)+

section \<open>Runs that return\<close>

text \<open>
  \<open>wpR m P\<close>: the run returns, and where it does not fault its result satisfies \<open>P\<close>.
\<close>

definition wpR :: "'a run \<Rightarrow> ('a \<Rightarrow> bool) \<Rightarrow> bool" where
  "wpR m P \<longleftrightarrow> (\<exists>r. m = Some r \<and> (\<forall>x. r = Inr x \<longrightarrow> P x))"

named_theorems wp_intros

lemma wpR_ret [simp]: "wpR (ret x) P \<longleftrightarrow> P x"
  by (simp add: wpR_def ret_def)

lemma wpR_fault [simp]: "wpR (fault e) P"
  by (simp add: wpR_def fault_def)

lemma wpR_bind [wp_intros]: "wpR m (\<lambda>x. wpR (f x) P) \<Longrightarrow> wpR (bindR m f) P"
proof -
  assume "wpR m (\<lambda>x. wpR (f x) P)"
  then obtain r where "m = Some r" "\<forall>x. r = Inr x \<longrightarrow> wpR (f x) P" by (auto simp: wpR_def)
  then show ?thesis by (cases r) (auto simp: bindR_def wpR_def)
qed

lemma wpR_mono: "wpR m P \<Longrightarrow> (\<And>x. P x \<Longrightarrow> Q x) \<Longrightarrow> wpR m Q"
  by (auto simp: wpR_def)

lemma wpR_load [wp_intros]: "(a < length h \<Longrightarrow> P (h ! a)) \<Longrightarrow> wpR (liftR (load h a)) P"
  by (simp add: load_def)

lemma wpR_msg [wp_intros]: "(\<And>t. P t) \<Longrightarrow> wpR (msg s) P"
  by (simp add: msg_def Let_def)

lemma wpR_fail [wp_intros]: "(\<And>t. P (st, Inl t)) \<Longrightarrow> wpR (fail st s) P"
  by (simp add: fail_def wpR_bind wpR_msg)

lemma wpR_done [simp]: "wpR (done_with st x) P \<longleftrightarrow> P (st, Inr x)"
  by (simp add: done_with_def)

lemma wpR_bindO [wp_intros]:
  "wpR m (\<lambda>(st, r). case r of Inl t \<Rightarrow> P (st, Inl t) | Inr x \<Rightarrow> wpR (f st x) P) \<Longrightarrow> wpR (bindO m f) P"
  unfolding bindO_def by (rule wpR_bind, erule wpR_mono) (auto split: sum.splits)

lemma wpR_returned: "wpR m P \<Longrightarrow> m = ret x \<Longrightarrow> P x"
  by simp

section \<open>The invariant\<close>

definition db ::
  "hosts list \<Rightarrow> addr option \<Rightarrow> tblent list \<Rightarrow> addr tree \<Rightarrow> (addr \<Rightarrow> addr tree) \<Rightarrow> bool" where
  "db hh root th ht T \<longleftrightarrow> host.at hh root ht \<and> ordered hrank hh ht \<and>
     (\<forall>a \<in> set_tree ht. dir.at th (dirtable (hh ! a)) (T a) \<and> ordered trank th (T a)) \<and>
     (\<forall>a \<in> set_tree ht. \<forall>b \<in> set_tree ht. dirtable (hh ! a) = dirtable (hh ! b) \<or> set_tree (T a) \<inter> set_tree (T b) = {}) \<and>
     (\<forall>n \<in> set th. NUL \<notin> set (gbldir n))"

text \<open>The later database has every host and every entry of the earlier one.\<close>

definition extends ::
  "hosts list \<Rightarrow> tblent list \<Rightarrow> addr tree \<Rightarrow> (addr \<Rightarrow> addr tree) \<Rightarrow>
   hosts list \<Rightarrow> tblent list \<Rightarrow> addr tree \<Rightarrow> (addr \<Rightarrow> addr tree) \<Rightarrow> bool" where
  "extends hh th ht T hh' th' ht' T' \<longleftrightarrow> set_tree ht \<subseteq> set_tree ht' \<and>
     (\<forall>a \<in> set_tree ht. hostname (hh' ! a) = hostname (hh ! a) \<and> ipaddr (hh' ! a) = ipaddr (hh ! a) \<and>
        set_tree (T a) \<subseteq> set_tree (T' a) \<and>
        (\<forall>n \<in> set_tree (T a). directory (th' ! n) = directory (th ! n) \<and> gbldir (th' ! n) = gbldir (th ! n)))"

lemma extends_refl [simp]: "extends hh th ht T hh th ht T"
  by (simp add: extends_def)

lemma extends_trans:
  assumes "extends hh th ht T hh1 th1 ht1 T1" "extends hh1 th1 ht1 T1 hh2 th2 ht2 T2"
  shows "extends hh th ht T hh2 th2 ht2 T2"
  unfolding extends_def
proof (intro conjI ballI)
  show "set_tree ht \<subseteq> set_tree ht2" using assms by (auto simp: extends_def)
  fix a assume a: "a \<in> set_tree ht"
  then have 1: "hostname (hh1 ! a) = hostname (hh ! a)" "ipaddr (hh1 ! a) = ipaddr (hh ! a)"
      "set_tree (T a) \<subseteq> set_tree (T1 a)" "a \<in> set_tree ht1"
      "\<And>n. n \<in> set_tree (T a) \<Longrightarrow> directory (th1 ! n) = directory (th ! n) \<and> gbldir (th1 ! n) = gbldir (th ! n)"
    using assms(1) by (auto simp: extends_def)
  then have 2: "hostname (hh2 ! a) = hostname (hh1 ! a)" "ipaddr (hh2 ! a) = ipaddr (hh1 ! a)"
      "set_tree (T1 a) \<subseteq> set_tree (T2 a)"
      "\<And>n. n \<in> set_tree (T1 a) \<Longrightarrow> directory (th2 ! n) = directory (th1 ! n) \<and> gbldir (th2 ! n) = gbldir (th1 ! n)"
    using assms(2) by (auto simp: extends_def)
  show "hostname (hh2 ! a) = hostname (hh ! a)" "ipaddr (hh2 ! a) = ipaddr (hh ! a)"
      "set_tree (T a) \<subseteq> set_tree (T2 a)" using 1 2 by auto
  show "directory (th2 ! n) = directory (th ! n)" "gbldir (th2 ! n) = gbldir (th ! n)" if "n \<in> set_tree (T a)" for n
    using 1(3,5) 2(4) that by auto
qed

lemma ordered_snoc: "ordered rank h t \<Longrightarrow> (\<And>x. x \<in> set_tree t \<Longrightarrow> x < length h) \<Longrightarrow> ordered rank (h @ [n]) t"
  by (erule ordered_cong) (simp add: nth_append)

section \<open>Finding a host\<close>

lemma find_host_by_ip_returns:
  assumes "host.at hh p t"
  shows "\<exists>q. find_host_by_ip hh ip p = ret q \<and> (case q of Some a \<Rightarrow> a \<in> set_tree t \<and> ipaddr (hh ! a) = ip
           | None \<Rightarrow> (\<forall>a \<in> set_tree t. ipaddr (hh ! a) \<noteq> ip))"
  using assms
proof (induction t arbitrary: p)
  case Leaf
  then show ?case by (subst find_host_by_ip.simps) simp
next
  case (Node l a r)
  then obtain q q' where q: "find_host_by_ip hh ip (h_left (hh ! a)) = ret q"
      "case q of Some a \<Rightarrow> a \<in> set_tree l \<and> ipaddr (hh ! a) = ip | None \<Rightarrow> (\<forall>a \<in> set_tree l. ipaddr (hh ! a) \<noteq> ip)"
      "find_host_by_ip hh ip (h_right (hh ! a)) = ret q'"
      "case q' of Some a \<Rightarrow> a \<in> set_tree r \<and> ipaddr (hh ! a) = ip | None \<Rightarrow> (\<forall>a \<in> set_tree r. ipaddr (hh ! a) \<noteq> ip)"
    by (meson tree_at.simps(2))
  have a: "p = Some a" "a < length hh" using Node.prems by auto
  show ?case
    using a q(2,4) by (subst find_host_by_ip.simps) (auto simp: mem_simps q(1,3) split: option.splits)
qed

lemma db_snoc_tbl:
  assumes "db hh root th ht T" "NUL \<notin> set (gbldir n)"
  shows "db hh root (th @ [n]) ht T"
  using assms by (auto simp: db_def intro: tree_at_snoc ordered_snoc tree_at_bound)

text \<open>A new host below the tree, with an empty directory tree or that of an existing host.\<close>

lemma db_host_added:
  assumes "db hh root th ht T" "host.at hh' root' ht'" "ordered hrank hh' ht'"
    and "set_tree ht' = insert e (set_tree ht)" "e \<notin> set_tree ht"
    and "\<forall>x \<in> set_tree ht. hostname (hh' ! x) = hostname (hh ! x) \<and> ipaddr (hh' ! x) = ipaddr (hh ! x) \<and>
          dirtable (hh' ! x) = dirtable (hh ! x)"
    and "dirtable (hh' ! e) = None \<or> (\<exists>b \<in> set_tree ht. dirtable (hh' ! e) = dirtable (hh ! b))"
  shows "\<exists>T'. db hh' root' th ht' T' \<and> extends hh th ht T hh' th ht' T'"
proof -
  have T: "\<forall>a \<in> set_tree ht. e \<noteq> a" using assms(5) by auto
  obtain t where t: "dir.at th (dirtable (hh' ! e)) t" "ordered trank th t"
      "\<And>a. a \<in> set_tree ht \<Longrightarrow> dirtable (hh ! a) = dirtable (hh' ! e) \<or> set_tree (T a) \<inter> set_tree t = {}"
  proof (cases "dirtable (hh' ! e)")
    case None
    show thesis by (rule that [of Leaf]) (use None in auto)
  next
    case (Some p)
    then obtain b where b: "b \<in> set_tree ht" "dirtable (hh' ! e) = dirtable (hh ! b)" using assms(7) by auto
    show thesis by (rule that [of "T b"]) (use assms(1) b in \<open>auto simp: db_def\<close>)
  qed
  have D: "dirtable (hh ! a) = dirtable (hh ! b) \<or> set_tree (T a) \<inter> set_tree (T b) = {}"
    if "a \<in> set_tree ht" "b \<in> set_tree ht" for a b
    using assms(1) that by (simp add: db_def)
  have "db hh' root' th ht' (T(e := t))"
    unfolding db_def
  proof (intro conjI ballI)
    fix a b assume "a \<in> set_tree ht'" "b \<in> set_tree ht'"
    then show "dirtable (hh' ! a) = dirtable (hh' ! b) \<or> set_tree ((T(e := t)) a) \<inter> set_tree ((T(e := t)) b) = {}"
      using D [of a b] assms(4,6) T t(3) [of a] t(3) [of b] by auto
  qed (use assms T t in \<open>auto simp: db_def\<close>)
  moreover have "extends hh th ht T hh' th ht' (T(e := t))"
    using assms(4,6) T by (auto simp: extends_def)
  ultimately show ?thesis by blast
qed

text \<open>What adding a host may leave behind.\<close>

definition host_saved ::
  "xlate \<Rightarrow> addr tree \<Rightarrow> (addr \<Rightarrow> addr tree) \<Rightarrow> string \<Rightarrow> xlate \<times> (string + addr) \<Rightarrow> bool" where
  "host_saved st ht T name = (\<lambda>(st', r). our_host st' = our_host st \<and> broken_flag st' = broken_flag st \<and>
     tbl_heap st' = tbl_heap st \<and>
     (\<exists>ht' T'. db (host_heap st') (host_tree st') (tbl_heap st') ht' T' \<and>
        extends (host_heap st) (tbl_heap st) ht T (host_heap st') (tbl_heap st') ht' T' \<and>
        (case r of Inl t \<Rightarrow> True
         | Inr a \<Rightarrow> a \<in> set_tree ht' \<and> crank (hostname (host_heap st' ! a)) = crank name)))"

lemma save_host_tree:
  assumes "db hh root th ht T" "\<forall>a \<in> set_tree ht. hrank (hh ! a) \<noteq> crank name"
    and "tbl = None \<or> (\<exists>b \<in> set_tree ht. tbl = dirtable (hh ! b))"
    and "n = \<lparr>h_left = None, h_right = None, hostname = name, ipaddr = ip, dirtable = tbl\<rparr>"
  shows "(case root of
       None \<Rightarrow> \<exists>ht' T'. db (hh @ [n]) (Some (length hh)) th ht' T' \<and> extends hh th ht T (hh @ [n]) th ht' T' \<and>
                 length hh \<in> set_tree ht'
     | Some r \<Rightarrow> \<exists>hh' ht' T'. host_tree_insert (hh @ [n]) r (length hh) = ret (hh', True) \<and>
                 db hh' root th ht' T' \<and> extends hh th ht T hh' th ht' T' \<and>
                 length hh \<in> set_tree ht' \<and> hostname (hh' ! length hh) = name)"
proof -
  let ?e = "length hh"
  have at: "host.at hh root ht" "ordered hrank hh ht" using assms(1) by (auto simp: db_def)
  have e: "?e \<notin> set_tree ht" and lt: "\<And>x. x \<in> set_tree ht \<Longrightarrow> x < ?e"
    using tree_at_bound [OF at(1)] by auto
  have at': "host.at (hh @ [n]) root ht" "ordered hrank (hh @ [n]) ht"
    using at lt by (auto intro: tree_at_snoc ordered_snoc)
  show ?thesis
  proof (cases root)
    case None
    then have "ht = Leaf" using at by simp
    then show ?thesis
      using db_host_added [OF assms(1), of "hh @ [n]" "Some ?e" "Node Leaf ?e Leaf" ?e] assms(3,4) None
      by (auto intro!: exI [of _ "Node Leaf ?e Leaf"])
  next
    case (Some r)
    have "\<exists>hh' ht'. host.grown (hh @ [n]) ht r ?e hh' ht'"
      using at' e assms(2,4) lt Some by (intro host.insert_new) (auto simp: nth_append)
    then obtain hh' ht' where g: "host_tree_insert (hh @ [n]) r ?e = ret (hh', True)" "host.at hh' (Some r) ht'"
        "ordered hrank hh' ht'" "set_tree ht' = insert ?e (set_tree ht)"
        "\<And>x. hostname (hh' ! x) = hostname ((hh @ [n]) ! x) \<and> ipaddr (hh' ! x) = ipaddr ((hh @ [n]) ! x) \<and>
          dirtable (hh' ! x) = dirtable ((hh @ [n]) ! x)"
      by (auto simp: host.grown_def)
    have "\<forall>x \<in> set_tree ht. hostname (hh' ! x) = hostname (hh ! x) \<and> ipaddr (hh' ! x) = ipaddr (hh ! x) \<and>
          dirtable (hh' ! x) = dirtable (hh ! x)"
      using g(5) lt by (simp add: nth_append)
    moreover have "dirtable (hh' ! ?e) = None \<or> (\<exists>b \<in> set_tree ht. dirtable (hh' ! ?e) = dirtable (hh ! b))"
      using g(5) [of ?e] assms(3,4) by simp
    ultimately obtain T' where "db hh' (Some r) th ht' T'" "extends hh th ht T hh' th ht' T'"
      using db_host_added [OF assms(1) g(2,3,4) e] by blast
    then show ?thesis using Some g(1,4) g(5) [of ?e] assms(4) by auto
  qed
qed

lemma GTM_MALLOC_simp: "GTM_MALLOC env st = (env_malloc env (mallocs st), st\<lparr>mallocs := mallocs st + 1\<rparr>)"
  by (simp add: GTM_MALLOC_def)

lemma save_host_ok:
  assumes "db (host_heap st) (host_tree st) (tbl_heap st) ht T"
    and "\<forall>a \<in> set_tree ht. hrank (host_heap st ! a) \<noteq> crank name"
    and "tbl = None \<or> (\<exists>b \<in> set_tree ht. tbl = dirtable (host_heap st ! b))"
  shows "wpR (save_host env st name ip tbl) (host_saved st ht T name)"
proof -
  have fl: "wpR (fail (st\<lparr>mallocs := k\<rparr>) s) (host_saved st ht T name)" for k s
    using assms(1) by (intro wpR_fail) (auto simp: host_saved_def intro!: exI [of _ ht] exI [of _ T])
  note ins = save_host_tree [OF assms refl, of ip]
  let ?heap = "host_heap st @ [\<lparr>h_left = None, h_right = None, hostname = name, ipaddr = ip, dirtable = tbl\<rparr>]"
  let ?e = "length (host_heap st)"
  show ?thesis
  proof (cases "host_tree st")
    case None
    with ins have "host_saved st ht T name (st\<lparr>mallocs := k, host_heap := ?heap, host_tree := Some ?e\<rparr>, Inr ?e)" for k
      by (auto simp: host_saved_def)
    with None fl show ?thesis by (simp add: save_host_def GTM_MALLOC_simp Let_def)
  next
    case (Some r)
    with ins obtain hh' ht' T' where i: "host_tree_insert ?heap r ?e = ret (hh', True)"
        "db hh' (Some r) (tbl_heap st) ht' T'" "extends (host_heap st) (tbl_heap st) ht T hh' (tbl_heap st) ht' T'"
        "?e \<in> set_tree ht'" "hostname (hh' ! ?e) = name" by auto
    then have "host_saved st ht T name (st\<lparr>mallocs := k, host_heap := hh'\<rparr>, Inr ?e)" for k
      using Some by (auto simp: host_saved_def intro!: exI [of _ ht'] exI [of _ T'])
    with Some fl i(1) show ?thesis by (simp add: save_host_def GTM_MALLOC_simp Let_def)
  qed
qed

lemma entry_host_ok:
  assumes "db (host_heap st) (host_tree st) (tbl_heap st) ht T"
  shows "wpR (entry_host env st name ip) (host_saved st ht T name)"
proof -
  have at: "host.at (host_heap st) (host_tree st) ht" "ordered hrank (host_heap st) ht"
    using assms by (auto simp: db_def)
  show ?thesis
  proof (rule host.search_total [OF at, of name])
    fix a assume "lookup_host_xc (host_heap st) name (host_tree st) = ret (Some a)" "a \<in> set_tree ht"
      "hrank (host_heap st ! a) = crank name"
    then show ?thesis
      using assms by (auto simp: entry_host_def lookup_host_def host_saved_def intro!: exI [of _ ht] exI [of _ T])
  next
    assume miss: "lookup_host_xc (host_heap st) name (host_tree st) = ret None"
      "\<And>a. a \<in> set_tree ht \<Longrightarrow> hrank (host_heap st ! a) \<noteq> crank name"
    obtain q where q: "find_host_by_ip (host_heap st) ip (host_tree st) = ret q"
        "case q of Some a \<Rightarrow> a \<in> set_tree ht \<and> ipaddr (host_heap st ! a) = ip
          | None \<Rightarrow> (\<forall>a \<in> set_tree ht. ipaddr (host_heap st ! a) \<noteq> ip)"
      using find_host_by_ip_returns [OF at(1)] by blast
    show ?thesis
    proof (cases q)
      case None
      then show ?thesis
        using save_host_ok [OF assms, of name None] miss q by (simp add: entry_host_def lookup_host_def)
    next
      case (Some b)
      then have "b < length (host_heap st)" "b \<in> set_tree ht" using q(2) tree_at_bound [OF at(1)] by auto
      then show ?thesis
        using save_host_ok [OF assms, of name "dirtable (host_heap st ! b)"] miss q(1) Some
        by (auto simp: entry_host_def lookup_host_def mem_simps)
    qed
  qed
qed

section \<open>Adding an entry\<close>

lemma db_first_entry:
  assumes "db hh root th ht T" "a \<in> set_tree ht" "dirtable (hh ! a) = None" "NUL \<notin> set (gbldir n)"
    and "t_left n = None" "t_right n = None" "e = length th" "hh' = hh[a := (hh ! a)\<lparr>dirtable := Some e\<rparr>]"
  shows "db hh' root (th @ [n]) ht (T(a := Node Leaf e Leaf)) \<and>
         extends hh th ht T hh' (th @ [n]) ht (T(a := Node Leaf e Leaf))"
proof -
  have at: "host.at hh root ht" "ordered hrank hh ht" using assms(1) by (auto simp: db_def)
  have al: "a < length hh" using tree_at_bound [OF at(1) assms(2)] .
  have fld: "h_left (hh' ! x) = h_left (hh ! x)" "h_right (hh' ! x) = h_right (hh ! x)"
      "hostname (hh' ! x) = hostname (hh ! x)" "ipaddr (hh' ! x) = ipaddr (hh ! x)"
      "dirtable (hh' ! x) = (if x = a then Some e else dirtable (hh ! x))" for x
    using al by (cases "x = a"; simp add: assms(8))+
  have Ta: "T a = Leaf" using assms(1,2,3) by (auto simp: db_def)
  have D: "dir.at th (dirtable (hh ! b)) (T b)" "ordered trank th (T b)"
      "set_tree (T b) \<subseteq> {x. x < length th}" if "b \<in> set_tree ht" for b
    using assms(1) that tree_at_bound by (fastforce simp: db_def)+
  have DD: "dirtable (hh ! b) = dirtable (hh ! c) \<or> set_tree (T b) \<inter> set_tree (T c) = {}"
    if "b \<in> set_tree ht" "c \<in> set_tree ht" for b c
    using assms(1) that by (simp add: db_def)
  have "db hh' root (th @ [n]) ht (T(a := Node Leaf e Leaf))"
    unfolding db_def
  proof (intro conjI ballI)
    show "host.at hh' root ht" by (rule tree_at_cong [OF at(1)]) (simp add: assms(8), simp add: fld)
    show "ordered hrank hh' ht" by (rule ordered_cong [OF at(2)]) (simp add: fld)
  next
    fix b assume b: "b \<in> set_tree ht"
    show "dir.at (th @ [n]) (dirtable (hh' ! b)) ((T(a := Node Leaf e Leaf)) b)"
      using D(1) [OF b] assms(5-7) by (auto simp: fld intro: tree_at_snoc)
    show "ordered trank (th @ [n]) ((T(a := Node Leaf e Leaf)) b)"
      using D(2,3) [OF b] by (auto intro: ordered_snoc)
    fix c assume c: "c \<in> set_tree ht"
    show "dirtable (hh' ! b) = dirtable (hh' ! c) \<or>
        set_tree ((T(a := Node Leaf e Leaf)) b) \<inter> set_tree ((T(a := Node Leaf e Leaf)) c) = {}"
      using DD [OF b c] D(3) [OF b] D(3) [OF c] assms(7) by (auto simp: fld)
  next
    fix m assume "m \<in> set (th @ [n])"
    then show "NUL \<notin> set (gbldir m)" using assms(1,4) by (auto simp: db_def)
  qed
  moreover have "extends hh th ht T hh' (th @ [n]) ht (T(a := Node Leaf e Leaf))"
    using D(3) by (auto simp: extends_def fld Ta nth_append)
  ultimately show ?thesis by blast
qed

lemma db_next_entry:
  assumes "db hh root th ht T" "a \<in> set_tree ht" "dirtable (hh ! a) = Some r" "NUL \<notin> set (gbldir n)"
    and "t_left n = None" "t_right n = None" "e = length th"
    and "\<forall>x \<in> set_tree (T a). trank (th ! x) \<noteq> trank n"
  shows "\<exists>th' T'. dir_tree_insert (th @ [n]) r e = ret (th', True) \<and> db hh root th' ht T' \<and>
           extends hh th ht T hh th' ht T' \<and> e \<in> set_tree (T' a) \<and>
           directory (th' ! e) = directory n \<and> gbldir (th' ! e) = gbldir n"
proof -
  have D: "dir.at (th @ [n]) (dirtable (hh ! b)) (T b)" "ordered trank (th @ [n]) (T b)"
      "set_tree (T b) \<subseteq> {x. x < length th}" if "b \<in> set_tree ht" for b
    using assms(1) that tree_at_bound by (fastforce simp: db_def intro: tree_at_snoc ordered_snoc)+
  have DD: "dirtable (hh ! b) = dirtable (hh ! c) \<or> set_tree (T b) \<inter> set_tree (T c) = {}"
    if "b \<in> set_tree ht" "c \<in> set_tree ht" for b c
    using assms(1) that by (simp add: db_def)
  have same: "T b = T a" if "b \<in> set_tree ht" "dirtable (hh ! b) = Some r" for b
    using tree_at_det D(1) [OF that(1)] D(1) [OF assms(2)] that(2) assms(3) by metis
  have "\<exists>th' t'. dir.grown (th @ [n]) (T a) r e th' t'"
    using D [OF assms(2)] assms(3,5-8) by (intro dir.insert_new) (auto simp: nth_append)
  then obtain th' t' where g: "dir_tree_insert (th @ [n]) r e = ret (th', True)" "dir.at th' (Some r) t'"
      "ordered trank th' t'" "set_tree t' = insert e (set_tree (T a))" "length th' = length th + 1"
      "\<forall>x. x \<notin> set_tree (T a) \<longrightarrow> th' ! x = (th @ [n]) ! x"
      "\<forall>x. trank (th' ! x) = trank ((th @ [n]) ! x) \<and> (directory (th' ! x), gbldir (th' ! x)) =
        (directory ((th @ [n]) ! x), gbldir ((th @ [n]) ! x))"
    unfolding dir.grown_def by auto
  let ?T = "\<lambda>b. if dirtable (hh ! b) = Some r then t' else T b"
  have other: "set_tree (T b) \<inter> set_tree t' = {}" if "b \<in> set_tree ht" "dirtable (hh ! b) \<noteq> Some r" for b
    using DD [OF that(1) assms(2)] D(3) [OF that(1)] g(4) that assms(3,7) by auto
  have "db hh root th' ht ?T"
    unfolding db_def
  proof (intro conjI ballI)
    show "host.at hh root ht" "ordered hrank hh ht" using assms(1) by (auto simp: db_def)
  next
    fix b assume b: "b \<in> set_tree ht"
    have "dir.at th' (dirtable (hh ! b)) (T b)" if "dirtable (hh ! b) \<noteq> Some r"
      using dir.at_other [OF D(1) [OF b] g(6)] g(4,5) other [OF b that] by auto
    then show "dir.at th' (dirtable (hh ! b)) (?T b)" using g(2) by simp
    show "ordered trank th' (?T b)" using g(3) dir.ordered_other [OF D(2) [OF b] g(7)] by simp
    fix c assume c: "c \<in> set_tree ht"
    show "dirtable (hh ! b) = dirtable (hh ! c) \<or> set_tree (?T b) \<inter> set_tree (?T c) = {}"
      using DD [OF b c] other [OF b] other [OF c] by auto
  next
    fix m assume "m \<in> set th'"
    then obtain i where i: "i < length (th @ [n])" "m = th' ! i" using g(5) by (auto simp: in_set_conv_nth)
    then have "(th @ [n]) ! i \<in> set (th @ [n])" by (meson nth_mem)
    then show "NUL \<notin> set (gbldir m)" using assms(1,4) g(7) i(2) by (auto simp: db_def)
  qed
  moreover have "extends hh th ht T hh th' ht ?T"
    using D(3) g(4,7) same by (fastforce simp: extends_def nth_append)
  ultimately show ?thesis using g(1,4,7) assms(3,7) by (intro exI [of _ th'] exI [of _ ?T]) auto
qed

definition entry_added ::
  "xlate \<Rightarrow> addr tree \<Rightarrow> (addr \<Rightarrow> addr tree) \<Rightarrow> addr \<Rightarrow> string \<Rightarrow> string \<Rightarrow> xlate \<times> (string + unit) \<Rightarrow> bool" where
  "entry_added st ht T a dir gbl = (\<lambda>(st', r). our_host st' = our_host st \<and> broken_flag st' = broken_flag st \<and>
     (\<exists>T'. db (host_heap st') (host_tree st') (tbl_heap st') ht T' \<and>
        extends (host_heap st) (tbl_heap st) ht T (host_heap st') (tbl_heap st') ht T' \<and>
        (r = Inr () \<longrightarrow> (\<exists>n \<in> set_tree (T' a). trank (tbl_heap st' ! n) = srank dir \<and> gbldir (tbl_heap st' ! n) = gbl))))"

lemma add_entry_ok:
  assumes "db (host_heap st) (host_tree st) (tbl_heap st) ht T" "a \<in> set_tree ht" "NUL \<notin> set gbl"
  shows "wpR (add_entry env st name a dir gbl recbuf) (entry_added st ht T a (strip_slash dir) gbl)"
proof -
  let ?P = "entry_added st ht T a (strip_slash dir) gbl"
  let ?n = "\<lparr>t_left = None, t_right = None, directory = strip_slash dir, gbldir = gbl\<rparr>"
  let ?th = "tbl_heap st @ [?n]" and ?e = "length (tbl_heap st)"
  have fl: "wpR (fail (st\<lparr>mallocs := k\<rparr>) s) ?P" for k s
    using assms(1) by (intro wpR_fail) (auto simp: entry_added_def)
  have al: "a < length (host_heap st)" using assms(1,2) tree_at_bound by (fastforce simp: db_def)
  show ?thesis
  proof (cases "dirtable (host_heap st ! a)")
    case None
    from db_first_entry [OF assms(1,2) None, of ?n ?e] assms(3)
    have "?P (st\<lparr>mallocs := k, tbl_heap := ?th, host_heap := (host_heap st)[a := (host_heap st ! a)\<lparr>dirtable := Some ?e\<rparr>]\<rparr>, Inr ())" for k
      by (auto simp: entry_added_def intro!: exI [of _ "T(a := Node Leaf ?e Leaf)"])
    with None fl al show ?thesis by (simp add: add_entry_def GTM_MALLOC_simp mem_simps Let_def)
  next
    case (Some r)
    have "wpR (dir_tree_insert ?th r ?e) (\<lambda>(heap', ok). \<forall>k. (if ok then ?P (st\<lparr>mallocs := k, tbl_heap := heap'\<rparr>, Inr ())
        else \<forall>t. ?P (st\<lparr>mallocs := k, tbl_heap := heap'\<rparr>, Inl t)))"
    proof (cases "\<exists>x \<in> set_tree (T a). trank (tbl_heap st ! x) = srank (strip_slash dir)")
      case True
      then obtain x where x: "x \<in> set_tree (T a)" "trank (tbl_heap st ! x) = srank (strip_slash dir)" by blast
      have D: "dir.at ?th (Some r) (T a)" "ordered trank ?th (T a)" "x < ?e"
        using assms(1,2) Some x tree_at_bound by (fastforce simp: db_def intro: tree_at_snoc ordered_snoc)+
      have "dir_tree_insert ?th r ?e = ret (?th, stringcmp (gbldir (tbl_heap st ! x)) gbl = 0)"
        using dir.insert_present [OF D(1,2) x(1), of ?e] D(3) x(2) by (simp add: nth_append)
      moreover have "db (host_heap st) (host_tree st) ?th ht T" using assms(1,3) by (simp add: db_snoc_tbl)
      moreover have "extends (host_heap st) (tbl_heap st) ht T (host_heap st) ?th ht T"
        using assms(1) tree_at_bound by (fastforce simp: extends_def db_def nth_append)
      moreover have "gbldir (tbl_heap st ! x) = gbl" if "stringcmp (gbldir (tbl_heap st ! x)) gbl = 0"
        using that srank_inject [OF assms(3)] by (simp add: cmp_ranks)
      ultimately show ?thesis using x D(3) by (auto simp: entry_added_def nth_append intro!: exI [of _ T])
    next
      case False
      then obtain th' T' where i: "dir_tree_insert ?th r ?e = ret (th', True)" "db (host_heap st) (host_tree st) th' ht T'"
          "extends (host_heap st) (tbl_heap st) ht T (host_heap st) th' ht T'" "?e \<in> set_tree (T' a)"
          "directory (th' ! ?e) = strip_slash dir" "gbldir (th' ! ?e) = gbl"
        using db_next_entry [OF assms(1,2) Some, of ?n ?e] assms(3) by auto
      then show ?thesis by (auto simp: entry_added_def intro!: exI [of _ T'] bexI [of _ ?e])
    qed
    then have "wpR (bindR (dir_tree_insert ?th r ?e) (\<lambda>(heap', ok).
        if ok then done_with (st\<lparr>mallocs := k, tbl_heap := heap'\<rparr>) () else fail (st\<lparr>mallocs := k, tbl_heap := heap'\<rparr>) s)) ?P" for k s
      by (intro wpR_bind, elim wpR_mono) (auto intro!: wpR_fail split: if_splits)
    with Some fl al show ?thesis by (simp add: add_entry_def GTM_MALLOC_simp mem_simps Let_def)
  qed
qed

section \<open>Entries\<close>

text \<open>The database answers \<open>g\<close> for a host name and a directory.\<close>

definition has_entry :: "xlate \<Rightarrow> string \<Rightarrow> string \<Rightarrow> string \<Rightarrow> bool" where
  "has_entry st name d g \<longleftrightarrow> (\<exists>a n. lookup_host_xc (host_heap st) name (host_tree st) = ret (Some a) \<and>
     dir_tree_search (tbl_heap st) d (dirtable (host_heap st ! a)) = ret (Some n) \<and> gbldir (tbl_heap st ! n) = g)"

definition xlate_wf :: "xlate \<Rightarrow> bool" where
  "xlate_wf st \<longleftrightarrow> (\<exists>ht T. db (host_heap st) (host_tree st) (tbl_heap st) ht T \<and>
     (\<forall>a. our_host st = Some a \<longrightarrow> a \<in> set_tree ht))"

lemma lookup_host_xc_iff:
  assumes "host.at hh p ht" "ordered hrank hh ht"
  shows "lookup_host_xc hh name p = ret (Some a) \<longleftrightarrow> a \<in> set_tree ht \<and> hrank (hh ! a) = crank name"
  by (rule host.search_total [OF assms, of name]) (auto dest: ordered_rank_inj [OF assms(2)])

lemma dir_tree_search_iff:
  assumes "dir.at th p t" "ordered trank th t"
  shows "dir_tree_search th d p = ret (Some n) \<longleftrightarrow> n \<in> set_tree t \<and> trank (th ! n) = srank d"
  by (rule dir.search_total [OF assms, of d]) (auto dest: ordered_rank_inj [OF assms(2)])

lemma has_entry_iff:
  assumes "db (host_heap st) (host_tree st) (tbl_heap st) ht T"
  shows "has_entry st name d g \<longleftrightarrow> (\<exists>a \<in> set_tree ht. hrank (host_heap st ! a) = crank name \<and>
           (\<exists>n \<in> set_tree (T a). trank (tbl_heap st ! n) = srank d \<and> gbldir (tbl_heap st ! n) = g))"
proof -
  have h: "lookup_host_xc (host_heap st) name (host_tree st) = ret (Some a) \<longleftrightarrow>
      a \<in> set_tree ht \<and> hrank (host_heap st ! a) = crank name" for a
    using assms by (intro lookup_host_xc_iff) (simp_all add: db_def)
  have "dir_tree_search (tbl_heap st) d (dirtable (host_heap st ! a)) = ret (Some n) \<longleftrightarrow>
      n \<in> set_tree (T a) \<and> trank (tbl_heap st ! n) = srank d" if "a \<in> set_tree ht" for a n
    using assms that by (intro dir_tree_search_iff) (simp_all add: db_def)
  with h show ?thesis unfolding has_entry_def by blast
qed

lemma has_entry_extends:
  assumes "db (host_heap st) (host_tree st) (tbl_heap st) ht T"
    and "db (host_heap st') (host_tree st') (tbl_heap st') ht' T'"
    and "extends (host_heap st) (tbl_heap st) ht T (host_heap st') (tbl_heap st') ht' T'"
    and "has_entry st name d g"
  shows "has_entry st' name d g"
proof -
  from assms(4) obtain a n where a: "a \<in> set_tree ht" "hrank (host_heap st ! a) = crank name"
      and n: "n \<in> set_tree (T a)" "trank (tbl_heap st ! n) = srank d" "gbldir (tbl_heap st ! n) = g"
    unfolding has_entry_iff [OF assms(1)] by blast
  have "a \<in> set_tree ht'" "hrank (host_heap st' ! a) = crank name" "n \<in> set_tree (T' a)"
      "trank (tbl_heap st' ! n) = srank d" "gbldir (tbl_heap st' ! n) = g"
    using assms(3) a n by (auto simp: extends_def)
  then show ?thesis unfolding has_entry_iff [OF assms(2)] by blast
qed

text \<open>What every operation on the database keeps.\<close>

definition evolves :: "xlate \<Rightarrow> xlate \<Rightarrow> bool" where
  "evolves st st' \<longleftrightarrow> xlate_wf st' \<and> our_host st' = our_host st \<and> broken_flag st' = broken_flag st \<and>
     (\<forall>name d g. has_entry st name d g \<longrightarrow> has_entry st' name d g) \<and>
     (\<forall>a. our_host st = Some a \<longrightarrow> hostname (host_heap st' ! a) = hostname (host_heap st ! a) \<and>
        ipaddr (host_heap st' ! a) = ipaddr (host_heap st ! a)) \<and>
     (\<forall>name a. lookup_host_xc (host_heap st) name (host_tree st) = ret (Some a) \<longrightarrow>
        lookup_host_xc (host_heap st') name (host_tree st') = ret (Some a) \<and>
        ipaddr (host_heap st' ! a) = ipaddr (host_heap st ! a))"

lemma evolves_refl: "xlate_wf st \<Longrightarrow> evolves st st"
  by (simp add: evolves_def)

lemma evolves_trans: "evolves st st1 \<Longrightarrow> evolves st1 st2 \<Longrightarrow> evolves st st2"
  unfolding evolves_def by (intro conjI) (blast | metis)+

lemma evolves_wf: "evolves st st' \<Longrightarrow> xlate_wf st'"
  by (simp add: evolves_def)

lemma evolvesI:
  assumes "db (host_heap st) (host_tree st) (tbl_heap st) ht T" "\<forall>a. our_host st = Some a \<longrightarrow> a \<in> set_tree ht"
    and "db (host_heap st') (host_tree st') (tbl_heap st') ht' T'"
    and "extends (host_heap st) (tbl_heap st) ht T (host_heap st') (tbl_heap st') ht' T'"
    and "our_host st' = our_host st" "broken_flag st' = broken_flag st"
  shows "evolves st st'"
proof -
  have "xlate_wf st'" using assms(2-5) by (auto simp: xlate_wf_def extends_def)
  moreover have "lookup_host_xc (host_heap st') name (host_tree st') = ret (Some a) \<and>
      ipaddr (host_heap st' ! a) = ipaddr (host_heap st ! a)"
    if "lookup_host_xc (host_heap st) name (host_tree st) = ret (Some a)" for name a
  proof -
    have "a \<in> set_tree ht" "hrank (host_heap st ! a) = crank name"
      using that assms(1) by (simp_all add: lookup_host_xc_iff [of _ _ ht] db_def)
    then show ?thesis using assms(3,4) lookup_host_xc_iff [of "host_heap st'" "host_tree st'" ht' name a]
      by (auto simp: db_def extends_def)
  qed
  ultimately show ?thesis
    using assms has_entry_extends [OF assms(1,3,4)] by (auto simp: evolves_def extends_def)
qed

text \<open>The name under which \<^verbatim>\<open>save_table_entry\<close> saves an entry.\<close>

definition entry_name :: "xlate \<Rightarrow> string \<Rightarrow> string" where
  "entry_name st name = (if strcasecmp_eq name ''localhost'' then hostname (host_heap st ! the (our_host st)) else name)"

definition entry_saved :: "xlate \<Rightarrow> string \<Rightarrow> string \<Rightarrow> string \<Rightarrow> xlate \<times> (string + unit) \<Rightarrow> bool" where
  "entry_saved st name dir gbl = (\<lambda>(st', r). evolves st st' \<and>
     (r = Inr () \<longrightarrow> (\<exists>a. lookup_host_xc (host_heap st') (entry_name st name) (host_tree st') = ret (Some a)) \<and>
        (\<not> strcasecmp_eq dir ''dummy'' \<longrightarrow> has_entry st' (entry_name st name) (strip_slash dir) gbl)))"

lemma save_table_entry_ok:
  assumes "xlate_wf st" "our_host st \<noteq> None" "NUL \<notin> set gbl"
  shows "wpR (save_table_entry env st name ip dir gbl recbuf) (entry_saved st name dir gbl)"
proof -
  from assms obtain ht T where db: "db (host_heap st) (host_tree st) (tbl_heap st) ht T"
    and ours: "\<forall>a. our_host st = Some a \<longrightarrow> a \<in> set_tree ht" by (auto simp: xlate_wf_def)
  let ?name = "entry_name st name"
  have name: "bindR (if strcasecmp_eq name ''localhost''
            then (case our_host st of
                    None \<Rightarrow> fault Null_deref
                  | Some o' \<Rightarrow> bindR (liftR (load (host_heap st) o')) (\<lambda>n. ret (hostname n)))
            else ret name) f = f ?name" for f :: "string \<Rightarrow> unit outcome"
    using assms(2) ours db tree_at_bound by (fastforce simp: entry_name_def mem_simps db_def)
  have "wpR (if strcasecmp_eq dir ''dummy'' then done_with st1 ()
             else add_entry env st1 ?name a dir gbl recbuf) (entry_saved st name dir gbl)"
    if saved: "host_saved st ht T ?name (st1, Inr a)" for st1 a
  proof -
    from saved obtain ht1 T1 where db1: "db (host_heap st1) (host_tree st1) (tbl_heap st1) ht1 T1"
      and ex: "extends (host_heap st) (tbl_heap st) ht T (host_heap st1) (tbl_heap st1) ht1 T1"
      and a: "a \<in> set_tree ht1" "hrank (host_heap st1 ! a) = crank ?name"
      and fr: "our_host st1 = our_host st" "broken_flag st1 = broken_flag st"
      by (auto simp: host_saved_def)
    have ev: "evolves st st1" using evolvesI [OF db ours db1 ex fr] .
    have ours1: "\<forall>a. our_host st1 = Some a \<longrightarrow> a \<in> set_tree ht1" using ours ex fr by (auto simp: extends_def)
    have lk: "lookup_host_xc (host_heap st1) ?name (host_tree st1) = ret (Some a)"
      using db1 a by (simp add: lookup_host_xc_iff [of _ _ ht1] db_def)
    have "wpR (add_entry env st1 ?name a dir gbl recbuf) (entry_saved st name dir gbl)" if "\<not> strcasecmp_eq dir ''dummy''"
    proof (rule wpR_mono [OF add_entry_ok [OF db1 a(1) assms(3)]], clarify)
      fix st2 r assume "entry_added st1 ht1 T1 a (strip_slash dir) gbl (st2, r)"
      then obtain T2 where db2: "db (host_heap st2) (host_tree st2) (tbl_heap st2) ht1 T2"
        and ex2: "extends (host_heap st1) (tbl_heap st1) ht1 T1 (host_heap st2) (tbl_heap st2) ht1 T2"
        and fr2: "our_host st2 = our_host st1" "broken_flag st2 = broken_flag st1"
        and n: "r = Inr () \<Longrightarrow> \<exists>n \<in> set_tree (T2 a). trank (tbl_heap st2 ! n) = srank (strip_slash dir) \<and> gbldir (tbl_heap st2 ! n) = gbl"
        by (auto simp: entry_added_def)
      have ev2: "evolves st1 st2" using evolvesI [OF db1 ours1 db2 ex2 fr2] .
      have "hrank (host_heap st2 ! a) = crank ?name" using ex2 a by (auto simp: extends_def)
      then have "r = Inr () \<Longrightarrow> has_entry st2 ?name (strip_slash dir) gbl"
        using n a(1) by (auto simp: has_entry_iff [OF db2])
      then show "entry_saved st name dir gbl (st2, r)"
        using evolves_trans [OF ev ev2] ev2 lk by (auto simp: entry_saved_def evolves_def)
    qed
    then show ?thesis using ev lk by (auto simp: entry_saved_def)
  qed
  moreover have "entry_saved st name dir gbl (st1, Inl t)" if "host_saved st ht T ?name (st1, Inl t)" for st1 t
    using that evolvesI [OF db ours] by (auto simp: host_saved_def entry_saved_def)
  ultimately have "wpR (bindO (entry_host env st ?name ip) (\<lambda>st1 host. if strcasecmp_eq dir ''dummy'' then done_with st1 ()
      else add_entry env st1 ?name host dir gbl recbuf)) (entry_saved st name dir gbl)"
    by (intro wpR_bindO wpR_mono [OF entry_host_ok [OF db]]) (auto split: sum.split)
  then show ?thesis unfolding save_table_entry_def name .
qed

section \<open>Reading records\<close>

lemma strtok_set: "strtok delims s = Some (t, rest) \<Longrightarrow> set t \<subseteq> set s \<and> set rest \<subseteq> set s"
  unfolding strtok_def Let_def
  by (auto split: if_splits dest!: set_takeWhileD in_set_dropD set_dropWhileD)

lemma strtok_skip:
  assumes "set pre \<subseteq> set delims"
  shows "strtok delims (pre @ s) = strtok delims s"
proof -
  have "dropWhile (\<lambda>c. c \<in> set delims) (pre @ s) = dropWhile (\<lambda>c. c \<in> set delims) s"
    using assms by (subst dropWhile_append2) auto
  then show ?thesis by (simp only: strtok_def)
qed

definition kept :: "xlate \<Rightarrow> xlate \<times> (string + unit) \<Rightarrow> bool" where
  "kept st = (\<lambda>(st', r). evolves st st')"

lemma kept_refl: "xlate_wf st \<Longrightarrow> kept st (st, r)"
  by (simp add: kept_def evolves_refl)

lemma read_record_ok:
  assumes "xlate_wf st" "our_host st \<noteq> None"
  shows "wpR (read_record env st line) (kept st)"
proof -
  let ?b = "takeWhile (\<lambda>c. c \<noteq> NUL) line"
  have nul: "NUL \<notin> set ?b" by (auto dest: set_takeWhileD)
  have "wpR (save_table_entry env st host ip dir gbl recbuf) (kept st)"
    if "strtok ws_n ?b = Some (dir, r1)" "strtok ws r1 = Some (host, r2)" "strtok ws_n r2 = Some (gbl, r3)"
    for dir r1 host r2 gbl r3 ip recbuf
  proof -
    have "NUL \<notin> set gbl" using nul strtok_set [OF that(1)] strtok_set [OF that(2)] strtok_set [OF that(3)] by auto
    then show ?thesis
      by (intro wpR_mono [OF save_table_entry_ok [OF assms]]) (auto simp: entry_saved_def kept_def)
  qed
  then show ?thesis
    using assms(1) by (auto simp: read_record_def Let_def kept_refl intro!: wpR_fail split: option.split)
qed

lemma evolves_our_host: "evolves st st' \<Longrightarrow> our_host st' = our_host st"
  by (simp add: evolves_def)

lemma read_records_ok:
  assumes "xlate_wf st" "our_host st \<noteq> None"
  shows "wpR (read_records env st contents) (kept st)"
  using assms
proof (induction contents arbitrary: st rule: length_induct)
  case (1 contents)
  show ?case
  proof (cases "fgets BUFSIZ contents")
    case None
    then show ?thesis using "1.prems" by (subst read_records.simps) (simp add: kept_refl)
  next
    case (Some lr)
    then obtain line rest where f: "fgets BUFSIZ contents = Some (line, rest)" by (cases lr) auto
    then have sh: "length rest < length contents" by (auto intro: fgets_shrinks simp: BUFSIZ_def)
    have "wpR (read_records env st1 rest) (kept st)" if "kept st (st1, Inr ())" for st1
    proof -
      have ev: "evolves st st1" using that by (simp add: kept_def)
      have "wpR (read_records env st1 rest) (kept st1)"
        using "1.IH" sh ev "1.prems"(2) by (simp add: evolves_wf evolves_our_host)
      then show ?thesis by (rule wpR_mono) (use ev in \<open>auto simp: kept_def intro: evolves_trans\<close>)
    qed
    then have "wpR (bindO (read_record env st line) (\<lambda>st u. read_records env st rest)) (kept st)"
      by (intro wpR_bindO wpR_mono [OF read_record_ok [OF "1.prems"]]) (auto split: sum.split)
    then show ?thesis by (subst read_records.simps) (simp add: f)
  qed
qed

text \<open>A record as the file format describes it.\<close>

record tbl_record =
  r_dir :: string
  r_sep1 :: string
  r_host :: string
  r_sep2 :: string
  r_gbl :: string

definition render :: "tbl_record \<Rightarrow> string" where
  "render e = r_dir e @ r_sep1 e @ r_host e @ r_sep2 e @ r_gbl e @ [CHR ''\<newline>'']"

definition plain :: "string \<Rightarrow> bool" where
  "plain s \<longleftrightarrow> s \<noteq> [] \<and> set s \<inter> set ws_n = {} \<and> NUL \<notin> set s"

definition good_record :: "tbl_record \<Rightarrow> bool" where
  "good_record e \<longleftrightarrow> plain (r_dir e) \<and> hd (r_dir e) \<noteq> CHR ''#'' \<and> plain (r_host e) \<and> plain (r_gbl e) \<and>
     r_sep1 e \<noteq> [] \<and> set (r_sep1 e) \<subseteq> set ws \<and> r_sep2 e \<noteq> [] \<and> set (r_sep2 e) \<subseteq> set ws \<and> length (render e) < BUFSIZ"

lemma strtok_field:
  assumes "plain t" "sep \<noteq> []" "set sep \<subseteq> set ws" "ws' = ws \<or> ws' = ws_n" "set pre \<subseteq> set ws"
  shows "strtok ws' (pre @ t @ sep @ rest) = Some (t, tl sep @ rest)"
proof -
  obtain d ds where s: "sep = d # ds" using assms(2) by (cases sep) auto
  have "set ws \<subseteq> set ws'" "set t \<inter> set ws' = {}" using assms(1,4) by (auto simp: ws_def ws_n_def plain_def)
  then show ?thesis
    using strtok_skip [of pre ws' "t @ sep @ rest"] strtok_plain [of t ws' d "ds @ rest"] assms s
    by (auto simp: plain_def)
qed

lemma read_record_render:
  assumes "good_record e"
  shows "read_record env st (render e) =
    (if get_ip_addr env (r_host e) = 0 then fail st (''Can't get IP address for host in '' @ r_dir e)
     else save_table_entry env st (r_host e) (get_ip_addr env (r_host e)) (r_dir e) (r_gbl e) (r_dir e))"
proof -
  have g: "plain (r_dir e)" "plain (r_host e)" "plain (r_gbl e)" "hd (r_dir e) \<noteq> CHR ''#''"
      "r_sep1 e \<noteq> []" "r_sep2 e \<noteq> []" "set (r_sep1 e) \<subseteq> set ws" "set (r_sep2 e) \<subseteq> set ws"
    using assms by (auto simp: good_record_def)
  have nul: "NUL \<notin> set (render e)" using g by (auto simp: render_def plain_def ws_def NUL_def)
  have buf: "takeWhile (\<lambda>c. c \<noteq> NUL) (render e) = render e" using nul by (auto simp: takeWhile_eq_all_conv)
  let ?r2 = "tl (r_sep2 e) @ r_gbl e @ [CHR ''\<newline>'']"
  let ?r1 = "tl (r_sep1 e) @ r_host e @ r_sep2 e @ r_gbl e @ [CHR ''\<newline>'']"
  have tl: "set (tl (r_sep1 e)) \<subseteq> set ws" "set (tl (r_sep2 e)) \<subseteq> set ws_n"
    using g(5-8) by (auto simp: ws_def ws_n_def dest!: list.set_sel(2))
  have t1: "strtok ws_n (render e) = Some (r_dir e, ?r1)"
    using strtok_field [OF g(1,5,7), of ws_n "[]"] by (simp add: render_def)
  have t2: "strtok ws ?r1 = Some (r_host e, ?r2)"
    using strtok_field [OF g(2,6,8) _ tl(1), of ws] by simp
  have t3: "strtok ws_n ?r2 = Some (r_gbl e, [])"
    using strtok_skip [OF tl(2)] strtok_plain [of "r_gbl e" ws_n "CHR ''\<newline>''" "[]"] g(3)
    by (simp add: plain_def ws_n_def)
  have hd: "render e \<noteq> []" "hd (render e) \<noteq> CHR ''#''" "hd (render e) \<notin> set ws_n"
    using g(1,4) by (cases "r_dir e"; auto simp: render_def plain_def)+
  have rec: "strtok_buffer ws_n (render e) = r_dir e"
  proof -
    have "takeWhile (\<lambda>c. c \<in> set ws_n) (render e) = []" using hd by (cases "render e") auto
    then show ?thesis by (simp add: strtok_buffer_def t1)
  qed
  show ?thesis unfolding read_record_def by (simp add: buf hd t1 t2 t3 rec Let_def)
qed

lemma fgets_line:
  assumes "CHR ''\<newline>'' \<notin> set l" "length l + 1 < BUFSIZ"
  shows "fgets BUFSIZ ((l @ [CHR ''\<newline>'']) @ rest) = Some (l @ [CHR ''\<newline>''], rest)"
proof -
  let ?nl = "CHR ''\<newline>''"
  have "take (BUFSIZ - 1) (l @ ?nl # rest) = l @ ?nl # take (BUFSIZ - 2 - length l) rest"
    using assms(2) by (simp add: take_Cons' numeral_2_eq_2 diff_commute)
  moreover have "takeWhile (\<lambda>c. c \<noteq> ?nl) (l @ ?nl # xs) = l" for xs
    using assms(1) by (subst takeWhile_append2) auto
  ultimately show ?thesis by (simp add: fgets_def Let_def)
qed

lemma fgets_render:
  assumes "good_record e"
  shows "fgets BUFSIZ (render e @ rest) = Some (render e, rest)"
proof -
  let ?l = "r_dir e @ r_sep1 e @ r_host e @ r_sep2 e @ r_gbl e"
  have "CHR ''\<newline>'' \<notin> set ?l" using assms by (auto simp: good_record_def plain_def ws_n_def ws_def)
  moreover have "length ?l + 1 < BUFSIZ" using assms by (simp add: good_record_def render_def)
  ultimately show ?thesis using fgets_line [of ?l rest] by (simp add: render_def)
qed

text \<open>A line of the file: a record, a comment, or nothing but blanks and tabs.\<close>

datatype tbl_line = Record tbl_record | Comment string | Blank string

fun line_text :: "tbl_line \<Rightarrow> string" where
  "line_text (Record e) = render e"
| "line_text (Comment s) = CHR ''#'' # s @ [CHR ''\<newline>'']"
| "line_text (Blank s) = s @ [CHR ''\<newline>'']"

fun good_line :: "tbl_line \<Rightarrow> bool" where
  "good_line (Record e) \<longleftrightarrow> good_record e"
| "good_line (Comment s) \<longleftrightarrow> CHR ''\<newline>'' \<notin> set s \<and> length s + 2 < BUFSIZ"
| "good_line (Blank s) \<longleftrightarrow> set s \<subseteq> set ws \<and> length s + 1 < BUFSIZ"

fun records :: "tbl_line list \<Rightarrow> tbl_record list" where
  "records [] = []"
| "records (Record e # ls) = e # records ls"
| "records (l # ls) = records ls"

lemma records_iff: "e \<in> set (records ls) \<longleftrightarrow> Record e \<in> set ls"
  by (induction ls rule: records.induct) auto

lemma fgets_line_text:
  assumes "good_line l"
  shows "fgets BUFSIZ (line_text l @ rest) = Some (line_text l, rest)"
proof (cases l)
  case (Record e)
  then show ?thesis using assms fgets_render by simp
next
  case (Comment s)
  then show ?thesis using assms fgets_line [of "CHR ''#'' # s" rest] by simp
next
  case (Blank s)
  then have "CHR ''\<newline>'' \<notin> set s" using assms by (auto simp: ws_def)
  then show ?thesis using Blank assms fgets_line [of s rest] by simp
qed

lemma read_record_skips:
  "read_record env st (line_text (Comment s)) = done_with st ()"
  "set s \<subseteq> set ws \<Longrightarrow> read_record env st (line_text (Blank s)) = done_with st ()"
proof -
  show "read_record env st (line_text (Comment s)) = done_with st ()"
    by (simp add: read_record_def NUL_def)
  assume s: "set s \<subseteq> set ws"
  then have "NUL \<notin> set (s @ [CHR ''\<newline>''])" by (auto simp: ws_def NUL_def)
  then have "takeWhile (\<lambda>c. c \<noteq> NUL) (s @ [CHR ''\<newline>'']) = s @ [CHR ''\<newline>'']" by (auto simp: takeWhile_eq_all_conv)
  moreover have "hd (s @ [CHR ''\<newline>'']) \<noteq> CHR ''#''" using s by (cases s) (auto simp: ws_def)
  moreover have "\<forall>c \<in> set (s @ [CHR ''\<newline>'']). c \<in> set ws_n" using s by (auto simp: ws_def ws_n_def)
  then have "dropWhile (\<lambda>c. c \<in> set ws_n) (s @ [CHR ''\<newline>'']) = []" by (simp only: dropWhile_eq_Nil_conv)
  then have "strtok ws_n (s @ [CHR ''\<newline>'']) = None" by (simp add: strtok_def del: dropWhile_eq_Nil_conv)
  ultimately show "read_record env st (line_text (Blank s)) = done_with st ()"
    by (simp add: read_record_def Let_def)
qed

definition entry_found :: "xlate \<Rightarrow> tbl_record \<Rightarrow> bool" where
  "entry_found st e \<longleftrightarrow> (if strcasecmp_eq (r_dir e) ''dummy''
     then \<exists>a. lookup_host_xc (host_heap st) (entry_name st (r_host e)) (host_tree st) = ret (Some a)
     else has_entry st (entry_name st (r_host e)) (strip_slash (r_dir e)) (r_gbl e))"

lemma entry_found_evolves:
  assumes "entry_found st e" "evolves st st'" "our_host st \<noteq> None"
  shows "entry_found st' e"
proof -
  have "entry_name st' n = entry_name st n" for n using assms(2,3) by (auto simp: entry_name_def evolves_def)
  then show ?thesis using assms(1,2) by (auto simp: entry_found_def evolves_def)
qed

definition all_found :: "tbl_record list \<Rightarrow> xlate \<Rightarrow> xlate \<times> (string + unit) \<Rightarrow> bool" where
  "all_found es st = (\<lambda>(st', r). evolves st st' \<and> (r = Inr () \<longrightarrow> (\<forall>e \<in> set es. entry_found st' e)))"

lemma read_render_found:
  assumes "xlate_wf st" "our_host st \<noteq> None" "good_record e"
  shows "wpR (read_record env st (render e)) (all_found [e] st)"
proof -
  have "NUL \<notin> set (r_gbl e)" using assms(3) by (simp add: good_record_def plain_def)
  from save_table_entry_ok [OF assms(1,2) this]
  have "wpR (save_table_entry env st (r_host e) ip (r_dir e) (r_gbl e) recbuf) (all_found [e] st)" for ip recbuf
  proof (rule wpR_mono, clarify)
    fix st' r assume s: "entry_saved st (r_host e) (r_dir e) (r_gbl e) (st', r)"
    then have "entry_name st' n = entry_name st n" for n
      using assms(2) by (auto simp: entry_saved_def entry_name_def evolves_def)
    with s show "all_found [e] st (st', r)" by (auto simp: entry_saved_def all_found_def entry_found_def)
  qed
  then show ?thesis
    using assms(1) by (auto simp: read_record_render [OF assms(3)] all_found_def evolves_refl intro!: wpR_fail)
qed

lemma read_records_found:
  assumes "xlate_wf st" "our_host st \<noteq> None" "\<forall>e \<in> set es. good_record e"
  shows "wpR (read_records env st (concat (map render es))) (all_found es st)"
  using assms
proof (induction es arbitrary: st)
  case Nil
  then show ?case by (subst read_records.simps) (simp add: fgets_def all_found_def evolves_refl)
next
  case (Cons e es)
  have "wpR (read_records env st1 (concat (map render es))) (all_found (e # es) st)"
    if "all_found [e] st (st1, Inr ())" for st1
  proof -
    have ev: "evolves st st1" and fnd: "entry_found st1 e" using that by (auto simp: all_found_def)
    have o': "our_host st1 \<noteq> None" "xlate_wf st1" using ev Cons.prems(2) by (auto simp: evolves_def)
    have "wpR (read_records env st1 (concat (map render es))) (all_found es st1)"
      using Cons.IH o' Cons.prems(3) by simp
    then show ?thesis
      by (rule wpR_mono) (use ev fnd o' entry_found_evolves in \<open>auto simp: all_found_def intro: evolves_trans\<close>)
  qed
  moreover have "all_found (e # es) st (st1, Inl t)" if "all_found [e] st (st1, Inl t)" for st1 t
    using that by (simp add: all_found_def)
  ultimately have "wpR (bindO (read_record env st (render e)) (\<lambda>st u. read_records env st (concat (map render es)))) (all_found (e # es) st)"
    using Cons.prems
    by (intro wpR_bindO wpR_mono [OF read_render_found]) (auto split: sum.split)
  moreover have "fgets BUFSIZ (concat (map render (e # es))) = Some (render e, concat (map render es))"
    using fgets_render [of e] Cons.prems(3) by simp
  ultimately show ?case by (subst read_records.simps) (simp only: option.case prod.case)
qed

end
