(* ===== verification/Env_Xlate_Service.thy ===== *)
theory Env_Xlate_Service
  imports Env_Xlate_Correct
begin

text \<open>
  The translation service as its callers see it: the first call initialises the database or breaks the
  service for good, every call returns, and what a call answers is what the table file says.
\<close>

section \<open>Initialisation\<close>

text \<open>
  The specification of reading a table: its records saved in their order, without any text.
\<close>

fun save_all :: "xlate_env \<Rightarrow> xlate \<Rightarrow> tbl_record list \<Rightarrow> unit outcome" where
  "save_all env st [] = done_with st ()"
| "save_all env st (e # es) =
     bindO (if get_ip_addr env (r_host e) = 0 then fail st (''Can't get IP address for host in '' @ r_dir e)
            else save_table_entry env st (r_host e) (get_ip_addr env (r_host e)) (r_dir e) (r_gbl e) (r_dir e))
       (\<lambda>st u. save_all env st es)"

definition file_text :: "tbl_line list \<Rightarrow> string" where
  "file_text ls = concat (map line_text ls)"

text \<open>The table file holds the records \<open>es\<close>, between any comments and blank lines.\<close>

definition table_file :: "xlate_env \<Rightarrow> tbl_record list \<Rightarrow> bool" where
  "table_file env es \<longleftrightarrow> (\<exists>p ls. env_gblxlate env = Some p \<and> env_fopen env p = Inr (file_text ls, True) \<and>
     records ls = es \<and> (\<forall>l \<in> set ls. good_line l))"

lemma bindO_done_with [simp]: "bindO (done_with st x) f = f st x"
  by (simp add: bindO_def done_with_def)

lemma bindO_done: "bindO m done_with = m"
proof (cases m)
  case (Some r)
  then show ?thesis by (cases r) (auto simp: bindO_def bindR_def done_with_def ret_def split: sum.split)
qed (simp add: bindO_def bindR_def)

lemma read_records_save_all:
  "\<forall>l \<in> set ls. good_line l \<Longrightarrow> read_records env st (file_text ls) = save_all env st (records ls)"
proof (induction ls arbitrary: st)
  case Nil
  then show ?case by (subst read_records.simps) (simp add: fgets_def file_text_def)
next
  case (Cons l ls)
  have "fgets BUFSIZ (file_text (l # ls)) = Some (line_text l, file_text ls)"
    using fgets_line_text [of l] Cons.prems by (simp add: file_text_def)
  then have "read_records env st (file_text (l # ls)) =
      bindO (read_record env st (line_text l)) (\<lambda>st u. read_records env st (file_text ls))"
    by (subst read_records.simps) (simp only: option.case prod.case)
  then show ?case
    using Cons by (cases l) (simp_all add: read_record_render read_record_skips del: line_text.simps(2,3))
qed

lemma records_alone: "records (map Record es) = es" "file_text (map Record es) = concat (map render es)"
  by (induction es) (simp_all add: file_text_def)

lemma read_records_alone:
  assumes "\<forall>l \<in> set ls. good_line l"
  shows "read_records env st (file_text ls) = read_records env st (concat (map render (records ls)))"
proof -
  have "\<forall>l \<in> set (map Record (records ls)). good_line l" using assms by (fastforce simp: records_iff)
  then show ?thesis
    using assms read_records_save_all [of ls] read_records_save_all [of "map Record (records ls)"]
    by (simp add: records_alone)
qed

lemma read_dir_table_save_all: "table_file env es \<Longrightarrow> read_dir_table env st = save_all env st es"
  by (auto simp: table_file_def read_dir_table_def read_records_save_all bindO_done)

lemma table_file_good: "table_file env es \<Longrightarrow> e \<in> set es \<Longrightarrow> good_record e"
  by (fastforce simp: table_file_def records_iff)

lemma read_dir_table_ok:
  assumes "xlate_wf st" "our_host st \<noteq> None"
  shows "wpR (read_dir_table env st) (kept st)"
proof -
  have "wpR (bindO (read_records env st contents) (\<lambda>st u. if eof then done_with st () else fail st s)) (kept st)" for contents eof s
    by (intro wpR_bindO wpR_mono [OF read_records_ok [OF assms]]) (auto simp: kept_def intro!: wpR_fail split: sum.split)
  then show ?thesis
    using assms(1) by (auto simp: read_dir_table_def kept_refl intro!: wpR_fail split: option.split sum.split)
qed

lemma read_dir_table_found:
  assumes "xlate_wf st" "our_host st \<noteq> None" "table_file env es"
  shows "wpR (read_dir_table env st) (all_found es st)"
proof -
  obtain p ls where p: "env_gblxlate env = Some p" "env_fopen env p = Inr (file_text ls, True)"
    and ls: "records ls = es" "\<forall>l \<in> set ls. good_line l" using assms(3) by (auto simp: table_file_def)
  have "\<forall>e \<in> set es. good_record e" using table_file_good [OF assms(3)] by blast
  then have "wpR (bindO (read_records env st (file_text ls)) (\<lambda>st u. if True then done_with st () else fail st s))
      (all_found es st)" for s
    unfolding read_records_alone [OF ls(2)] ls(1)
    by (intro wpR_bindO wpR_mono [OF read_records_found [OF assms(1,2)]]) (auto split: sum.split)
  then show ?thesis by (simp add: read_dir_table_def p)
qed

definition broken_post :: "(xlate \<times> (string + 'a) \<Rightarrow> bool) \<Rightarrow> xlate \<times> (string + 'a) \<Rightarrow> bool" where
  "broken_post P = (\<lambda>(st, r). P (if isl r then st\<lparr>broken_flag := True\<rparr> else st, r))"

lemma wpR_or_broken: "wpR m (broken_post P) \<Longrightarrow> wpR (or_broken m) P"
  unfolding or_broken_def by (rule wpR_bind, erule wpR_mono) (auto simp: broken_post_def split: sum.splits)

lemma xlate_wf_broken [simp]: "xlate_wf (st\<lparr>broken_flag := b\<rparr>) \<longleftrightarrow> xlate_wf st"
  by (simp add: xlate_wf_def)

lemma start_db: "db (host_heap xlate_start) (host_tree xlate_start) (tbl_heap xlate_start) Leaf T"
  by (simp add: xlate_start_def db_def)

lemma start_wf: "xlate_wf xlate_start"
  using start_db by (auto simp: xlate_wf_def xlate_start_def)

definition initialized :: "xlate \<times> (string + unit) \<Rightarrow> bool" where
  "initialized = (\<lambda>(st, r). xlate_wf st \<and>
     (case r of Inl t \<Rightarrow> broken_flag st | Inr u \<Rightarrow> \<not> broken_flag st \<and> our_host st \<noteq> None))"

text \<open>What holds of the table after reading it holds after initialisation.\<close>

lemma initialize_table:
  assumes "\<And>st. xlate_wf st \<Longrightarrow> our_host st \<noteq> None \<Longrightarrow> \<not> broken_flag st \<Longrightarrow> wpR (read_dir_table env st) (Q st)"
    and "\<And>st st' r. Q st (st', r) \<Longrightarrow> our_host st \<noteq> None \<Longrightarrow> \<not> broken_flag st \<Longrightarrow> broken_post P (st', r)"
    and "\<And>st t. xlate_wf st \<Longrightarrow> broken_post P (st, Inl t)"
  shows "wpR (initialize env xlate_start) P"
proof -
  have fl: "wpR (fail xlate_start s) (broken_post P)" for s
    using assms(3) start_wf by (auto intro!: wpR_fail)
  have save: "wpR (bindO (save_host env xlate_start name ip None) (\<lambda>st a. read_dir_table env (st\<lparr>our_host := Some a\<rparr>)))
      (broken_post P)" for name ip
  proof (intro wpR_bindO wpR_mono [OF save_host_ok [OF start_db]])
    fix x assume s: "host_saved xlate_start Leaf (\<lambda>_. Leaf) name x"
    obtain st r where x: "x = (st, r)" by (cases x)
    from s x obtain ht T where db: "db (host_heap st) (host_tree st) (tbl_heap st) ht T"
        "case r of Inl t \<Rightarrow> True | Inr a \<Rightarrow> a \<in> set_tree ht" "our_host st = None" "\<not> broken_flag st"
      by (cases r) (auto simp: host_saved_def xlate_start_def)
    show "case x of (st, r) \<Rightarrow> (case r of Inl t \<Rightarrow> broken_post P (st, Inl t)
        | Inr a \<Rightarrow> wpR (read_dir_table env (st\<lparr>our_host := Some a\<rparr>)) (broken_post P))"
    proof (cases r)
      case (Inl t)
      have "xlate_wf st" using db(1,3) by (auto simp: xlate_wf_def)
      then show ?thesis using x Inl assms(3) by simp
    next
      case (Inr a)
      then have "xlate_wf (st\<lparr>our_host := Some a\<rparr>)" using db by (auto simp: xlate_wf_def)
      then have "wpR (read_dir_table env (st\<lparr>our_host := Some a\<rparr>)) (Q (st\<lparr>our_host := Some a\<rparr>))"
        using assms(1) db(4) by simp
      then have "wpR (read_dir_table env (st\<lparr>our_host := Some a\<rparr>)) (broken_post P)"
        by (rule wpR_mono) (use assms(2) [of "st\<lparr>our_host := Some a\<rparr>"] db(4) in auto)
      then show ?thesis using x Inr by simp
    qed
  qed (simp_all add: xlate_start_def)
  have "wpR (init_functable env xlate_start) (\<lambda>(st, r). if isl r then broken_post P (st, r) else st = xlate_start)"
    using assms(3) start_wf by (auto simp: init_functable_def intro!: wpR_fail split: option.split)
  then show ?thesis
    unfolding initialize_def using fl save
    by (intro wpR_or_broken wpR_bindO, elim wpR_mono) (auto simp: Let_def split: sum.splits)
qed

lemma initialize_ok: "wpR (initialize env xlate_start) initialized"
  by (rule initialize_table [OF read_dir_table_ok])
    (auto simp: initialized_def broken_post_def kept_def evolves_def split: sum.splits)

definition loaded :: "tbl_record list \<Rightarrow> xlate \<times> (string + unit) \<Rightarrow> bool" where
  "loaded es = (\<lambda>(st, r). r = Inr () \<longrightarrow> (\<forall>e \<in> set es. entry_found st e))"

lemma initialize_loaded:
  assumes "table_file env es"
  shows "wpR (initialize env xlate_start) (loaded es)"
  by (rule initialize_table [OF read_dir_table_found [OF _ _ assms]])
    (auto simp: loaded_def broken_post_def all_found_def split: sum.splits)

lemma initialize_save_all:
  assumes "table_file env es"
  shows "initialize env st =
     or_broken (
       bindO (init_functable env st) (\<lambda>st u.
       case env_gethostname env of
         Inl errno \<Rightarrow> fail st (''Failed to get our host name ('' @ dec_of_int errno @ '') - '' @ env_strerror env errno)
       | Inr name \<Rightarrow>
           let host_ipaddr = get_ip_addr env name in
           if host_ipaddr = 0 then fail st (''Failed to get our IP address for our host name '' @ name)
           else bindO (save_host env st (strtok_buffer ''.'' name) host_ipaddr None) (\<lambda>st a.
                save_all env (st\<lparr>our_host := Some a\<rparr>) es)))"
  unfolding initialize_def read_dir_table_save_all [OF assms] ..

section \<open>Translation\<close>

text \<open>Looking up does not change the state and always returns.\<close>

lemma wpR_answer: "(\<And>t. P (st, -1, t, d)) \<Longrightarrow> wpR (answer st d s) P"
  unfolding answer_def by (intro wpR_bind wpR_msg) simp

lemma xlate_lookup_returns:
  assumes "xlate_wf st" "our_host st \<noteq> None"
  shows "wpR (xlate_lookup env st darg d host) (\<lambda>(st', x). st' = st)"
proof -
  let ?P = "\<lambda>(st', x). st' = st"
  from assms obtain ht T o' where db: "db (host_heap st) (host_tree st) (tbl_heap st) ht T"
    and o': "our_host st = Some o'" "o' \<in> set_tree ht" by (auto simp: xlate_wf_def)
  have at: "host.at (host_heap st) (host_tree st) ht" "ordered hrank (host_heap st) ht"
    using db by (auto simp: db_def)
  have ol: "o' < length (host_heap st)" using tree_at_bound [OF at(1) o'(2)] .
  have fin: "wpR (xlate_at_host env st darg d us a flag) ?P" if a: "a \<in> set_tree ht" for us a flag
  proof -
    have t: "dir.at (tbl_heap st) (dirtable (host_heap st ! a)) (T a)" "ordered trank (tbl_heap st) (T a)"
      using db a by (auto simp: db_def)
    show ?thesis
      by (rule dir.search_total [OF t, of d])
        (use tree_at_bound [OF at(1) a] tree_at_bound [OF t(1)] in
          \<open>auto simp: xlate_at_host_def is_file_def mem_simps intro!: wpR_answer\<close>)
  qed
  have ours: "deref (host_heap st) (our_host st) = ret (host_heap st ! o')"
    using o' ol by (simp add: deref_def mem_simps)
  show ?thesis
  proof (cases "host = None \<or> host = Some []")
    case True
    then show ?thesis using fin [OF o'(2)] o'(1) ours by (auto simp: xlate_lookup_def)
  next
    case False
    let ?n = "if stringcasecmp (the host) ''localhost'' = 0 then hostname (host_heap st ! o') else the host"
    have eq: "xlate_lookup env st darg d host = bindR (lookup_host_xc (host_heap st) ?n (host_tree st)) (\<lambda>hoststr.
        case hoststr of None \<Rightarrow> answer st darg ''No translation available''
        | Some a \<Rightarrow> bindR (liftR (load (host_heap st) a)) (\<lambda>h.
            xlate_at_host env st darg d (host_heap st ! o') a (ipaddr h = ipaddr (host_heap st ! o'))))"
      using False ours by (auto simp: xlate_lookup_def Let_def)
    show ?thesis
      unfolding eq by (rule host.search_total [OF at, of ?n])
        (use fin tree_at_bound [OF at(1)] in \<open>auto simp: mem_simps intro!: wpR_answer\<close>)
  qed
qed

text \<open>The states that calls reach, each in an environment of its own.\<close>

inductive xlate_reach :: "xlate \<Rightarrow> bool" where
  start: "xlate_reach xlate_start"
| call: "xlate_reach st \<Longrightarrow> gtm_env_xlate env st d h = ret (st', rc, out, d') \<Longrightarrow> xlate_reach st'"

definition xlate_inv :: "xlate \<Rightarrow> bool" where
  "xlate_inv st \<longleftrightarrow> xlate_wf st \<and> (\<not> broken_flag st \<longrightarrow> our_host st = None \<longrightarrow> st = xlate_start)"

lemma gtm_env_xlate_inv:
  assumes "xlate_inv st"
  shows "wpR (gtm_env_xlate env st d h) (\<lambda>(st', x). xlate_inv st')"
proof (cases "broken_flag st")
  case True
  then show ?thesis using assms by (auto simp: gtm_env_xlate_def intro!: wpR_answer)
next
  case False
  have look: "wpR (xlate_lookup env st1 darg d1 h) (\<lambda>(st', x). xlate_inv st')"
    if "initialized (st1, Inr ())" for st1 darg d1
    by (rule wpR_mono [OF xlate_lookup_returns]) (use that in \<open>auto simp: initialized_def xlate_inv_def\<close>)
  have rest: "wpR (case r of Inl t \<Rightarrow> ret (st1, -1, t, d) | Inr u \<Rightarrow> xlate_dir env st1 d h) (\<lambda>(st', x). xlate_inv st')"
    if "initialized (st1, r)" for st1 r
    using that look [of st1] by (cases r)
      (auto simp: initialized_def xlate_inv_def xlate_dir_def Let_def intro!: wpR_answer split: option.split)
  have "wpR (if our_host st = None then initialize env st else done_with st ()) initialized"
    using initialize_ok [of env] assms False by (auto simp: xlate_inv_def initialized_def)
  then show ?thesis
    using False rest unfolding gtm_env_xlate_def
    by (simp only: if_False) (rule wpR_bind, erule wpR_mono, auto)
qed

lemma xlate_reach_inv: "xlate_reach st \<Longrightarrow> xlate_inv st"
proof (induction rule: xlate_reach.induct)
  case start
  then show ?case by (simp add: xlate_inv_def start_wf)
next
  case (call st env d h st' rc out d')
  then show ?case using wpR_returned [OF gtm_env_xlate_inv call.hyps(2)] by simp
qed

section \<open>Properties\<close>

text \<open>C2. Every call of the translation service returns, whatever the table file, the environment and the
  arguments are and whatever calls went before: the recursive walks over the host tree and the directory
  trees end, because no operation ever links a cycle.\<close>

theorem xlate_always_returns:
  assumes "xlate_reach st"
  shows "gtm_env_xlate env st d h \<noteq> None"
  using gtm_env_xlate_inv [OF xlate_reach_inv [OF assms], of env d h] by (auto simp: wpR_def)

theorem xlate_always_returns_witness:
  "gtm_env_xlate \<lparr>env_callin = None, env_gblxlate = None, env_gethostname = Inl 0, env_gethostbyname = Map.empty,
     env_fopen = (\<lambda>p. Inl 2), env_getcwd = None, env_stat_dir = Map.empty, env_strerror = (\<lambda>e. []),
     env_malloc = (\<lambda>n. True)\<rparr> xlate_start None None \<noteq> None"
  by (rule xlate_always_returns [OF xlate_reach.start])

text \<open>
  A system for the concrete inputs below: our host is \<open>me\<close>, \<open>remote\<close> is another host, \<open>alias\<close> has
  our address, and the table file has the given contents.
\<close>

definition demo_env :: "string \<Rightarrow> xlate_env" where
  "demo_env contents = \<lparr>env_callin = Some ''4096'', env_gblxlate = Some ''/t'', env_gethostname = Inr ''me'',
     env_gethostbyname = (\<lambda>n. if n = ''me'' \<or> n = ''alias'' then Some (10, 0, 0, 1)
                             else if n = ''remote'' then Some (10, 0, 0, 2) else None),
     env_fopen = (\<lambda>p. Inr (contents, True)), env_getcwd = Some ''/'', env_stat_dir = (\<lambda>p. None),
     env_strerror = (\<lambda>e. []), env_malloc = (\<lambda>n. True)\<rparr>"

lemma xlate_lookup_entry:
  assumes "xlate_wf st" "our_host st = Some o'" "name \<noteq> []"
    and "lookup_host_xc (host_heap st) name' (host_tree st) = ret (Some a)"
    and "name' = (if stringcasecmp name ''localhost'' = 0 then hostname (host_heap st ! o') else name)"
    and "has_entry st name' d g"
    and "ipaddr (host_heap st ! a) \<noteq> ipaddr (host_heap st ! o') \<or>
         a = o' \<and> length d \<le> MAXPATHLEN \<and> env_stat_dir env (takeWhile (\<lambda>c. c \<noteq> NUL) d) \<noteq> Some False"
  shows "xlate_lookup env st darg d (Some name) = ret (st, 0, stringcpy g, darg)"
proof -
  from assms(1,2) obtain ht T where db: "db (host_heap st) (host_tree st) (tbl_heap st) ht T"
    and o': "o' \<in> set_tree ht" by (auto simp: xlate_wf_def)
  have at: "host.at (host_heap st) (host_tree st) ht" "ordered hrank (host_heap st) ht"
    using db by (auto simp: db_def)
  have a: "a \<in> set_tree ht" using assms(4) lookup_host_xc_iff [OF at] by simp
  then have t: "dir.at (tbl_heap st) (dirtable (host_heap st ! a)) (T a)" using db by (auto simp: db_def)
  obtain n where n: "dir_tree_search (tbl_heap st) d (dirtable (host_heap st ! a)) = ret (Some n)"
      "gbldir (tbl_heap st ! n) = g"
    using assms(4,6) by (auto simp: has_entry_def)
  then have nt: "n \<in> set_tree (T a)" using db a dir_tree_search_iff [OF t] by (auto simp: db_def)
  have len: "o' < length (host_heap st)" "a < length (host_heap st)" "n < length (tbl_heap st)"
    using tree_at_bound [OF at(1)] o' a tree_at_bound [OF t nt] by auto
  have tbl: "dirtable (host_heap st ! a) \<noteq> None" using t nt by (cases "T a") auto
  have "xlate_at_host env st darg d (host_heap st ! o') a (ipaddr (host_heap st ! a) = ipaddr (host_heap st ! o')) =
      ret (st, 0, stringcpy g, darg)"
    using assms(7) tbl n len by (auto simp: xlate_at_host_def is_file_def mem_simps)
  then show ?thesis
    using assms(2-5) len by (auto simp: xlate_lookup_def deref_def mem_simps Let_def)
qed

lemma stringcpy_plain: "plain g \<Longrightarrow> length g \<le> MSGBUFSIZE \<Longrightarrow> stringcpy g = g"
proof -
  assume "plain g" "length g \<le> MSGBUFSIZE"
  then have t: "takeWhile (\<lambda>x. x \<noteq> NUL) g = g" and m: "min (length g) MSGBUFSIZE = length g"
    by (auto simp: plain_def takeWhile_eq_all_conv)
  show ?thesis
    by (simp only: stringcpy_def Let_def m take_all order_refl t diff_self_eq_0 replicate_0 append_Nil2)
qed

lemma crank_plain:
  assumes "NUL \<notin> set a"
  shows "crank a = (length a, map of_char (map c_tolower a))"
proof -
  have t: "takeWhile (\<lambda>x. x \<noteq> NUL) a = a" using assms by (auto simp: takeWhile_eq_all_conv)
  show ?thesis by (simp only: crank_def t map_map comp_def)
qed

lemma crank_eq_iff:
  assumes "NUL \<notin> set a" "NUL \<notin> set b"
  shows "crank a = crank b \<longleftrightarrow> strcasecmp_eq a b"
proof -
  have "inj (of_char :: char \<Rightarrow> nat)" by (simp add: inj_def)
  then have "map of_char (map c_tolower a) = (map of_char (map c_tolower b) :: nat list) \<longleftrightarrow> map c_tolower a = map c_tolower b"
    by (rule inj_map_eq_map)
  moreover have "map c_tolower a = map c_tolower b \<Longrightarrow> length a = length b" by (rule map_eq_imp_length_eq)
  ultimately show ?thesis unfolding crank_plain [OF assms(1)] crank_plain [OF assms(2)] strcasecmp_eq_def by blast
qed

lemma crank_localhost:
  assumes "plain name"
  shows "stringcasecmp name ''localhost'' = 0 \<longleftrightarrow> strcasecmp_eq name ''localhost''"
  using crank_eq_iff [of name "''localhost''"] assms by (simp add: cmp_ranks plain_def NUL_def)

text \<open>C1. What the table file says is what the service answers: after a successful initialisation from a
  file of well-formed records, every record \<open>directory host global-directory\<close> of a host other than ours
  translates, under that host name and directory, to that global directory.\<close>

theorem xlate_file_translates:
  assumes "table_file env es" "initialize env xlate_start = ret (st, Inr ())" "e \<in> set es"
    and "\<not> strcasecmp_eq (r_dir e) ''dummy''" "length (r_gbl e) \<le> MSGBUFSIZE"
    and "lookup_host_xc (host_heap st) (r_host e) (host_tree st) = ret (Some a)"
    and "ipaddr (host_heap st ! a) \<noteq> ipaddr (host_heap st ! the (our_host st))"
    and "\<not> strcasecmp_eq (r_host e) ''localhost''"
  shows "gtm_env_xlate env' st (Some (r_dir e)) (Some (r_host e)) = ret (st, 0, r_gbl e, Some (strip_slash (r_dir e)))"
proof -
  have init: "xlate_wf st" "\<not> broken_flag st" "our_host st \<noteq> None"
    using wpR_returned [OF initialize_ok assms(2)] by (auto simp: initialized_def)
  then obtain o' where o': "our_host st = Some o'" by auto
  have fnd: "entry_found st e" using wpR_returned [OF initialize_loaded [OF assms(1)] assms(2)] assms(3) by (simp add: loaded_def)
  have good: "plain (r_dir e)" "plain (r_host e)" "plain (r_gbl e)"
    using table_file_good [OF assms(1,3)] by (auto simp: good_record_def)
  have nl: "stringcasecmp (r_host e) ''localhost'' \<noteq> 0" using crank_localhost [OF good(2)] assms(8) by simp
  have "has_entry st (r_host e) (strip_slash (r_dir e)) (r_gbl e)"
    using fnd assms(4,8) by (simp add: entry_found_def entry_name_def)
  moreover have "r_host e \<noteq> []" "r_dir e \<noteq> []" using good by (auto simp: plain_def)
  ultimately have "xlate_lookup env' st (Some (strip_slash (r_dir e))) (strip_slash (r_dir e)) (Some (r_host e)) =
      ret (st, 0, stringcpy (r_gbl e), Some (strip_slash (r_dir e)))"
    using init(1) o' nl assms(6,7) by (intro xlate_lookup_entry) auto
  with init o' \<open>r_dir e \<noteq> []\<close> stringcpy_plain [OF good(3) assms(5)] show ?thesis
    by (simp add: gtm_env_xlate_def done_with_def xlate_dir_def Let_def)
qed

definition demo_table :: "tbl_record list" where
  "demo_table = [\<lparr>r_dir = ''/d1/'', r_sep1 = '' '', r_host = ''remote'', r_sep2 = ''  '', r_gbl = ''/g1''\<rparr>,
                 \<lparr>r_dir = ''/d2'', r_sep1 = '' '', r_host = ''me'', r_sep2 = '' '', r_gbl = ''/g2''\<rparr>]"

definition demo_state :: xlate where
  "demo_state = \<lparr>tbl_heap = [\<lparr>t_left = None, t_right = None, directory = ''/d1'', gbldir = ''/g1''\<rparr>,
                            \<lparr>t_left = None, t_right = None, directory = ''/d2'', gbldir = ''/g2''\<rparr>],
     host_heap = [\<lparr>h_left = Some 1, h_right = None, hostname = ''me'', ipaddr = 167772161, dirtable = Some 1\<rparr>,
                  \<lparr>h_left = None, h_right = None, hostname = ''remote'', ipaddr = 167772162, dirtable = Some 0\<rparr>],
     host_tree = Some 0, our_host = Some 0, broken_flag = False, mallocs = 10\<rparr>"

definition demo_lines :: "tbl_line list" where
  "demo_lines = [Comment '' directory host file'', Record (demo_table ! 0), Blank ''  '', Record (demo_table ! 1)]"

lemma demo_good: "\<forall>l \<in> set demo_lines. good_line l"
  by (simp add: demo_lines_def demo_table_def good_record_def render_def plain_def ws_def ws_n_def NUL_def BUFSIZ_def)

lemma demo_records: "records demo_lines = demo_table"
  by (simp add: demo_lines_def demo_table_def)

lemma demo_file: "table_file (demo_env (file_text demo_lines)) demo_table"
  using demo_good demo_records by (auto simp: table_file_def demo_env_def)

lemma demo_initialize: "initialize (demo_env (file_text demo_lines)) xlate_start = ret (demo_state, Inr ())"
  unfolding initialize_save_all [OF demo_file] by code_simp

theorem xlate_file_translates_witness:
  "gtm_env_xlate (demo_env []) demo_state (Some ''/d1/'') (Some ''remote'') = ret (demo_state, 0, ''/g1'', Some ''/d1'')"
proof -
  let ?e = "\<lparr>r_dir = ''/d1/'', r_sep1 = '' '', r_host = ''remote'', r_sep2 = ''  '', r_gbl = ''/g1''\<rparr>"
  have "?e \<in> set demo_table" by (simp add: demo_table_def)
  moreover have "lookup_host_xc (host_heap demo_state) ''remote'' (host_tree demo_state) = ret (Some 1)"
    by code_simp
  ultimately show ?thesis
    using xlate_file_translates [OF demo_file demo_initialize, of ?e 1 "demo_env []"]
    by (simp add: demo_state_def strcasecmp_eq_def c_tolower_def MSGBUFSIZE_def strip_slash_def)
qed

text \<open>C16. Reading refines saving: on a file of well-formed records, however many blanks and tabs separate
  the columns and whatever comments and blank lines stand between them, \<^verbatim>\<open>read_dir_table\<close> does exactly what saving the records one after the other does, and an
  error in one of them ends it with the error of that record.\<close>

theorem read_dir_table_refines:
  assumes "table_file env es"
  shows "read_dir_table env st = save_all env st es"
  by (rule read_dir_table_save_all [OF assms])

theorem read_dir_table_refines_witness:
  "read_dir_table (demo_env (file_text demo_lines)) xlate_start =
     save_all (demo_env (file_text demo_lines)) xlate_start demo_table"
  by (rule read_dir_table_refines [OF demo_file])

lemma demo_wf: "xlate_wf demo_state"
  using wpR_returned [OF initialize_ok demo_initialize] by (simp add: initialized_def)

lemma demo_entry: "has_entry demo_state ''me'' ''/d2'' ''/g2''"
proof -
  have "lookup_host_xc (host_heap demo_state) ''me'' (host_tree demo_state) = ret (Some 0)" by code_simp
  moreover have "dir_tree_search (tbl_heap demo_state) ''/d2'' (dirtable (host_heap demo_state ! 0)) = ret (Some 1)"
    by code_simp
  moreover have "gbldir (tbl_heap demo_state ! 1) = ''/g2''" by code_simp
  ultimately show ?thesis unfolding has_entry_def by blast
qed

text \<open>C15. A record that contradicts the database is an error and not an update: where the host already
  translates the directory to another global directory, saving the record fails with a message that names
  both, and every translation stays as it was.\<close>

theorem conflicting_entry_refused:
  assumes "xlate_wf st" "\<forall>n. env_malloc env n" "\<not> strcasecmp_eq name ''localhost''" "\<not> strcasecmp_eq d ''dummy''"
    and "has_entry st name (strip_slash d) g" "g \<noteq> gbl" "NUL \<notin> set gbl" "length name + length d \<le> 4000"
  shows "\<exists>st'. save_table_entry env st name ip d gbl recbuf =
           ret (st', Inl (''gtm_env_xlate:  Conflicting entry '' @ name @ '':'' @ strip_slash d @ '' in translation file'')) \<and>
         (\<forall>n d' g'. has_entry st' n d' g' \<longleftrightarrow> has_entry st n d' g')"
proof -
  from assms(1) obtain ht T where db: "db (host_heap st) (host_tree st) (tbl_heap st) ht T"
    by (auto simp: xlate_wf_def)
  have at: "host.at (host_heap st) (host_tree st) ht" "ordered hrank (host_heap st) ht"
    using db by (auto simp: db_def)
  from assms(5) obtain a x where a: "a \<in> set_tree ht" "hrank (host_heap st ! a) = crank name"
    and x: "x \<in> set_tree (T a)" "trank (tbl_heap st ! x) = srank (strip_slash d)" "gbldir (tbl_heap st ! x) = g"
    unfolding has_entry_iff [OF db] by blast
  have lk: "lookup_host_xc (host_heap st) name (host_tree st) = ret (Some a)"
    using a by (simp add: lookup_host_xc_iff [OF at])
  have t: "dir.at (tbl_heap st) (dirtable (host_heap st ! a)) (T a)" "ordered trank (tbl_heap st) (T a)"
    using db a by (auto simp: db_def)
  then obtain r where r: "dirtable (host_heap st ! a) = Some r" using x(1) by (cases "dirtable (host_heap st ! a)") auto
  let ?n = "\<lparr>t_left = None, t_right = None, directory = strip_slash d, gbldir = gbl\<rparr>"
  let ?th = "tbl_heap st @ [?n]" and ?e = "length (tbl_heap st)"
  have b: "\<And>y. y \<in> set_tree (T a) \<Longrightarrow> y < ?e" "a < length (host_heap st)"
    using tree_at_bound [OF t(1)] tree_at_bound [OF at(1) a(1)] by auto
  have D: "dir.at ?th (Some r) (T a)" "ordered trank ?th (T a)"
    using t r b(1) by (auto intro: tree_at_snoc ordered_snoc)
  have "stringcmp g gbl \<noteq> 0" using srank_inject [OF assms(7)] assms(6) by (auto simp: cmp_ranks)
  then have ins: "dir_tree_insert ?th r ?e = ret (?th, False)"
    using dir.insert_present [OF D x(1), of ?e] x b(1) [OF x(1)] by (simp add: nth_append)
  let ?st = "st\<lparr>mallocs := mallocs st + 3, tbl_heap := ?th\<rparr>"
  let ?m = "''Conflicting entry '' @ name @ '':'' @ strip_slash d @ '' in translation file''"
  have "length (strip_slash d) \<le> length d" by (simp add: strip_slash_def)
  then have "msg ?m = ret (''gtm_env_xlate:  '' @ ?m)" using assms(8) by (simp add: msg_def Let_def MSGBUFSIZE_def)
  then have "save_table_entry env st name ip d gbl recbuf = ret (?st, Inl (''gtm_env_xlate:  '' @ ?m))"
    using assms(2-4) lk r ins b(2)
    by (simp add: save_table_entry_def entry_host_def lookup_host_def bindO_def done_with_def add_entry_def
        GTM_MALLOC_simp mem_simps fail_def Let_def numeral_3_eq_3)
  moreover have db': "db (host_heap ?st) (host_tree ?st) (tbl_heap ?st) ht T"
    using db_snoc_tbl [OF db, of ?n] assms(7) by simp
  moreover have "has_entry ?st n d' g' \<longleftrightarrow> has_entry st n d' g'" for n d' g'
  proof -
    have "?th ! y = tbl_heap st ! y" if "y \<in> set_tree (T c)" "c \<in> set_tree ht" for y c
      using db that tree_at_bound by (fastforce simp: db_def nth_append)
    then show ?thesis unfolding has_entry_iff [OF db] has_entry_iff [OF db'] by auto
  qed
  ultimately show ?thesis by auto
qed

theorem conflicting_entry_refused_witness:
  "\<exists>st'. save_table_entry (demo_env []) demo_state ''me'' 5 ''/d2/'' ''/x'' [] =
       ret (st', Inl ''gtm_env_xlate:  Conflicting entry me:/d2 in translation file'') \<and>
     (\<forall>n d' g'. has_entry st' n d' g' \<longleftrightarrow> has_entry demo_state n d' g')"
  using conflicting_entry_refused [OF demo_wf, of "demo_env []" "''me''" "''/d2/''" "''/g2''" "''/x''" 5 "[]"] demo_entry
  by (simp add: demo_env_def strcasecmp_eq_def strip_slash_def NUL_def)

text \<open>C17. A failed initialisation breaks the service for good: the first call returns the message of the
  failure, and every later call, in whatever environment, answers that the service is broken.\<close>

theorem broken_for_good:
  assumes "initialize env xlate_start = ret (st, Inl t)"
  shows "gtm_env_xlate env xlate_start d h = ret (st, -1, t, d) \<and>
         gtm_env_xlate env' st d' h' = ret (st, -1, ''gtm_env_xlate:  Environment translation service is broken'', d')"
proof -
  have "broken_flag st" using wpR_returned [OF initialize_ok assms] by (simp add: initialized_def)
  moreover have "\<not> broken_flag xlate_start" "our_host xlate_start = None" by (simp_all add: xlate_start_def)
  ultimately show ?thesis
    using assms by (simp add: gtm_env_xlate_def answer_def msg_def MSGBUFSIZE_def)
qed

theorem broken_for_good_witness:
  "\<exists>st. gtm_env_xlate ((demo_env [])\<lparr>env_callin := None\<rparr>) xlate_start None None = ret (st, -1,
       ''gtm_env_xlate:  gtm_env_xlate:  Failed to get environment variable GTM_CALLIN_START'', None) \<and>
     gtm_env_xlate (demo_env []) st None None =
       ret (st, -1, ''gtm_env_xlate:  Environment translation service is broken'', None)"
proof -
  have "initialize ((demo_env [])\<lparr>env_callin := None\<rparr>) xlate_start = ret (xlate_start\<lparr>broken_flag := True\<rparr>,
      Inl ''gtm_env_xlate:  gtm_env_xlate:  Failed to get environment variable GTM_CALLIN_START'')"
    by (simp add: initialize_def init_functable_def or_broken_def bindO_def fail_def msg_def MSGBUFSIZE_def)
  from broken_for_good [OF this] show ?thesis by blast
qed

text \<open>On our own host a file is its own translation: with no host, an empty one or \<open>localhost\<close>, a path
  that names an existing file comes back unchanged whatever the table says.\<close>

theorem local_file_unchanged:
  assumes "xlate_wf st" "our_host st = Some a" "\<not> broken_flag st"
    and "h = None \<or> h = Some [] \<or> h = Some ''localhost''"
    and "plain d" "strip_slash d = d" "length d \<le> MSGBUFSIZE" "env_stat_dir env d = Some False"
  shows "gtm_env_xlate env st (Some d) h = ret (st, 0, d, Some d)"
proof -
  from assms(1,2) obtain ht T where db: "db (host_heap st) (host_tree st) (tbl_heap st) ht T"
    and a: "a \<in> set_tree ht" by (auto simp: xlate_wf_def)
  have at: "host.at (host_heap st) (host_tree st) ht" "ordered hrank (host_heap st) ht"
    using db by (auto simp: db_def)
  have al: "a < length (host_heap st)" using tree_at_bound [OF at(1) a] .
  have lk: "lookup_host_xc (host_heap st) (hostname (host_heap st ! a)) (host_tree st) = ret (Some a)"
    using a by (simp add: lookup_host_xc_iff [OF at])
  have nul: "takeWhile (\<lambda>c. c \<noteq> NUL) d = d" using assms(5) by (auto simp: plain_def takeWhile_eq_all_conv)
  have "is_file env d = ret True"
    unfolding is_file_def nul using assms(7,8) by (simp add: MSGBUFSIZE_def MAXPATHLEN_def)
  then have "xlate_at_host env st (Some d) d us a True = ret (st, 0, d, Some d)" for us
    using stringcpy_plain [OF assms(5,7)] by (simp add: xlate_at_host_def)
  moreover have "stringcasecmp ''localhost'' ''localhost'' = 0" by (simp add: cmp_ranks)
  ultimately show ?thesis
    using assms(2-6) al lk
    by (auto simp: gtm_env_xlate_def done_with_def xlate_dir_def plain_def xlate_lookup_def deref_def mem_simps Let_def)
qed

theorem local_file_unchanged_witness:
  "gtm_env_xlate ((demo_env [])\<lparr>env_stat_dir := (\<lambda>p. if p = ''/m.gld'' then Some False else None)\<rparr>) demo_state
     (Some ''/m.gld'') (Some ''localhost'') = ret (demo_state, 0, ''/m.gld'', Some ''/m.gld'')"
  by (rule local_file_unchanged [OF demo_wf])
    (simp_all add: demo_state_def plain_def ws_n_def NUL_def strip_slash_def MSGBUFSIZE_def)

definition alias_table :: "tbl_record list" where
  "alias_table = [\<lparr>r_dir = ''/d'', r_sep1 = '' '', r_host = ''alias'', r_sep2 = '' '', r_gbl = ''/g''\<rparr>]"

lemma alias_file: "table_file (demo_env (file_text (map Record alias_table))) alias_table"
proof -
  have "\<forall>e \<in> set alias_table. good_record e"
    by (simp add: alias_table_def good_record_def render_def plain_def ws_def ws_n_def NUL_def BUFSIZ_def)
  then have "\<forall>l \<in> set (map Record alias_table). good_line l" by auto
  then show ?thesis using records_alone(1) [of alias_table] unfolding table_file_def by (intro exI [of _ "map Record alias_table"] exI conjI) (auto simp: demo_env_def)
qed

definition alias_state :: xlate where
  "alias_state = \<lparr>tbl_heap = [\<lparr>t_left = None, t_right = None, directory = ''/d'', gbldir = ''/g''\<rparr>],
     host_heap = [\<lparr>h_left = Some 1, h_right = None, hostname = ''me'', ipaddr = 167772161, dirtable = None\<rparr>,
                  \<lparr>h_left = None, h_right = None, hostname = ''alias'', ipaddr = 167772161, dirtable = Some 0\<rparr>],
     host_tree = Some 0, our_host = Some 0, broken_flag = False, mallocs = 7\<rparr>"

lemma alias_initialize: "initialize (demo_env (file_text (map Record alias_table))) xlate_start = ret (alias_state, Inr ())"
  unfolding initialize_save_all [OF alias_file] by code_simp

text \<open>A host name with our own address does not always share the table of our host: where its record
  comes before any record under our own name, the record is saved, but a request for exactly that host and
  that directory fails, because the directory table of our host node is still empty.\<close>

theorem alias_record_unreachable:
  "gtm_env_xlate (demo_env (file_text (map Record alias_table))) xlate_start (Some ''/d'') (Some ''alias'') =
     ret (alias_state, -1, ''gtm_env_xlate:  No local host translation available'', Some ''/d'')"
proof -
  have "lookup_host_xc (host_heap alias_state) ''alias'' (host_tree alias_state) = ret (Some 1)" by code_simp
  moreover have "stringcasecmp ''alias'' ''localhost'' \<noteq> 0" by code_simp
  moreover have "\<not> broken_flag xlate_start" "our_host xlate_start = None" by (simp_all add: xlate_start_def)
  moreover have "xlate_at_host (demo_env c) alias_state darg ''/d'' (host_heap alias_state ! 0) 1 True =
      ret (alias_state, -1, ''gtm_env_xlate:  No local host translation available'', darg)" for c darg
    by (simp add: xlate_at_host_def is_file_def demo_env_def alias_state_def answer_def msg_def MSGBUFSIZE_def MAXPATHLEN_def)
  ultimately show ?thesis
    by (simp add: gtm_env_xlate_def alias_initialize xlate_dir_def strip_slash_def xlate_lookup_def)
      (simp add: alias_state_def deref_def mem_simps Let_def)
qed

text \<open>The message buffer is smaller than a record: a record of one column that is longer than 4044
  bytes and has no host makes \<^verbatim>\<open>msg\<close> write past the end of \<^verbatim>\<open>msgbuf\<close>.\<close>

theorem long_record_overflows:
  assumes "plain d" "hd d \<noteq> CHR ''#''" "4044 < length d"
  shows "read_record env st (d @ [CHR ''\<newline>'']) = fault Write_oob"
proof -
  have "takeWhile (\<lambda>c. c \<noteq> NUL) (d @ [CHR ''\<newline>'']) = d @ [CHR ''\<newline>'']"
    using assms(1) by (auto simp: plain_def NUL_def takeWhile_eq_all_conv)
  moreover have "strtok ws_n (d @ [CHR ''\<newline>'']) = Some (d, [])"
    using strtok_plain [of d ws_n "CHR ''\<newline>''" "[]"] assms(1) by (auto simp: plain_def ws_n_def)
  moreover have "takeWhile (\<lambda>c. c \<in> set ws_n) (d @ [CHR ''\<newline>'']) = []"
    using assms(1) by (cases d) (auto simp: plain_def)
  moreover have "strtok ws [] = None" by (simp add: strtok_def)
  moreover have "hd (d @ [CHR ''\<newline>'']) = hd d" using assms(1) by (simp add: plain_def)
  ultimately show ?thesis
    using assms(2,3) by (simp add: read_record_def strtok_buffer_def Let_def fail_def msg_def MSGBUFSIZE_def)
qed

theorem long_record_overflows_witness:
  "read_record (demo_env []) xlate_start (replicate 5000 (CHR ''a'') @ [CHR ''\<newline>'']) = fault Write_oob"
  by (rule long_record_overflows) (simp_all add: plain_def ws_n_def NUL_def)

end
