(* ===== verification/Ydb_Api.thy ===== *)
theory Ydb_Api
  imports Prelude
begin

text \<open>
  The database functions that the workload programs call.  \<^verbatim>\<open>libyottadb\<close> is not part of the
  repository: its functions and status codes are a parameter of every definition that uses them, and what
  the programs rely on is stated as the predicate \<open>api_laws\<close> over a function \<open>view\<close> that reads the contents
  of the database off a database state.  \<open>store_api\<close> is a store that satisfies it.
\<close>

type_synonym node = "string \<times> string list"
type_synonym contents = "node \<rightharpoonup> string"

record 'db ydb_api =
  ydb_ok :: int
  ydb_tp_restart :: int
  ydb_set_s :: "string \<Rightarrow> string list \<Rightarrow> string \<Rightarrow> 'db \<Rightarrow> int \<times> 'db"
  ydb_get_s :: "string \<Rightarrow> string list \<Rightarrow> nat \<Rightarrow> 'db \<Rightarrow> int \<times> string"
  ydb_tp_s :: "('db \<Rightarrow> c_fault + int \<times> 'db) \<Rightarrow> 'db \<Rightarrow> c_fault + int \<times> 'db"

text \<open>
  What the documentation promises: the status of success is 0; a successful \<^verbatim>\<open>ydb_set_s\<close> stores the value, a successful
  \<^verbatim>\<open>ydb_get_s\<close> reads it, where the value fits the buffer; inside a transaction either may ask for a
  restart instead.  \<^verbatim>\<open>ydb_tp_s\<close> runs its function again where it asks for a restart; the effect of a
  committed transaction is that of one run on the contents at the time, and a function that succeeds on
  these contents is committed.
\<close>

definition api_laws :: "'db ydb_api \<Rightarrow> ('db \<Rightarrow> contents) \<Rightarrow> bool" where
  "api_laws api view \<longleftrightarrow> ydb_ok api = 0 \<and> ydb_tp_restart api \<noteq> 0 \<and>
     (\<forall>g ss v db. fst (ydb_set_s api g ss v db) \<in> {ydb_ok api, ydb_tp_restart api}) \<and>
     (\<forall>g ss v db db'. ydb_set_s api g ss v db = (ydb_ok api, db') \<longrightarrow> view db' = (view db)((g, ss) \<mapsto> v)) \<and>
     (\<forall>g ss n v db. view db (g, ss) = Some v \<longrightarrow> length v \<le> n \<longrightarrow>
        ydb_get_s api g ss n db = (ydb_ok api, v) \<or> fst (ydb_get_s api g ss n db) = ydb_tp_restart api) \<and>
     (\<forall>f db db'. ydb_tp_s api f db = Inr (ydb_ok api, db') \<longrightarrow>
        (\<exists>db0 db1. view db0 = view db \<and> f db0 = Inr (ydb_ok api, db1) \<and> view db' = view db1)) \<and>
     (\<forall>f db. (\<forall>db0. view db0 = view db \<longrightarrow> (\<exists>db1. f db0 = Inr (ydb_ok api, db1))) \<longrightarrow>
        (\<exists>db'. ydb_tp_s api f db = Inr (ydb_ok api, db')))"

lemma api_laws_ok: "api_laws api view \<Longrightarrow> ydb_ok api = 0 \<and> ydb_tp_restart api \<noteq> 0"
  by (simp add: api_laws_def)

lemma api_laws_set:
  assumes "api_laws api view"
  obtains db' where "ydb_set_s api g ss v db = (ydb_ok api, db')" "view db' = (view db)((g, ss) \<mapsto> v)"
  | db' where "ydb_set_s api g ss v db = (ydb_tp_restart api, db')"
proof -
  have "\<forall>g ss v db. fst (ydb_set_s api g ss v db) \<in> {ydb_ok api, ydb_tp_restart api}"
      "\<forall>g ss v db db'. ydb_set_s api g ss v db = (ydb_ok api, db') \<longrightarrow> view db' = (view db)((g, ss) \<mapsto> v)"
    using assms unfolding api_laws_def by - (elim conjE, assumption)+
  then show thesis using that by (metis insertE prod.collapse singletonD)
qed

lemma api_laws_get:
  assumes "api_laws api view" "view db (g, ss) = Some v" "length v \<le> n"
  obtains "ydb_get_s api g ss n db = (ydb_ok api, v)"
  | w where "ydb_get_s api g ss n db = (ydb_tp_restart api, w)"
proof -
  have "\<forall>g ss n v db. view db (g, ss) = Some v \<longrightarrow> length v \<le> n \<longrightarrow>
      ydb_get_s api g ss n db = (ydb_ok api, v) \<or> fst (ydb_get_s api g ss n db) = ydb_tp_restart api"
    using assms(1) unfolding api_laws_def by (elim conjE)
  then show thesis using that assms(2,3) by (metis prod.collapse)
qed

lemma api_laws_tp:
  assumes "api_laws api view" "ydb_tp_s api f db = Inr (ydb_ok api, db')"
  obtains db0 db1 where "view db0 = view db" "f db0 = Inr (ydb_ok api, db1)" "view db' = view db1"
proof -
  have "\<forall>f db db'. ydb_tp_s api f db = Inr (ydb_ok api, db') \<longrightarrow>
      (\<exists>db0 db1. view db0 = view db \<and> f db0 = Inr (ydb_ok api, db1) \<and> view db' = view db1)"
    using assms(1) unfolding api_laws_def by (elim conjE)
  then show thesis using assms(2) that by blast
qed

lemma api_laws_commit:
  assumes "api_laws api view" "\<And>db0. view db0 = view db \<Longrightarrow> \<exists>db1. f db0 = Inr (ydb_ok api, db1)"
  obtains db' where "ydb_tp_s api f db = Inr (ydb_ok api, db')"
proof -
  have "\<forall>f db. (\<forall>db0. view db0 = view db \<longrightarrow> (\<exists>db1. f db0 = Inr (ydb_ok api, db1))) \<longrightarrow>
      (\<exists>db'. ydb_tp_s api f db = Inr (ydb_ok api, db'))"
    using assms(1) unfolding api_laws_def by (elim conjE)
  then show thesis using assms(2) that by blast
qed

text \<open>
  A run inside a transaction asks for a restart or succeeds with contents that satisfy \<open>P\<close>; in
  particular no assertion fails on the way.
\<close>

definition commits :: "'db ydb_api \<Rightarrow> ('db \<Rightarrow> contents) \<Rightarrow> c_fault + int \<times> 'db \<Rightarrow> (contents \<Rightarrow> bool) \<Rightarrow> bool" where
  "commits api view m P \<longleftrightarrow> (\<exists>db'. m = Inr (ydb_tp_restart api, db')) \<or> (\<exists>db'. m = Inr (ydb_ok api, db') \<and> P (view db'))"

lemma commits_mono: "commits api view m P \<Longrightarrow> (\<And>c. P c \<Longrightarrow> Q c) \<Longrightarrow> commits api view m Q"
  by (auto simp: commits_def)

section \<open>A store\<close>

text \<open>
  The contents themselves as the database, used by one process at a time; a transaction that asks for a
  restart is not run again.
\<close>

definition store_api :: "contents ydb_api" where
  "store_api = \<lparr>ydb_ok = 0, ydb_tp_restart = 1,
     ydb_set_s = (\<lambda>g ss v db. (0, db((g, ss) \<mapsto> v))),
     ydb_get_s = (\<lambda>g ss n db. case db (g, ss) of Some v \<Rightarrow> (if length v \<le> n then (0, v) else (2, [])) | None \<Rightarrow> (3, [])),
     ydb_tp_s = (\<lambda>f db. f db)\<rparr>"

lemma store_api_laws: "api_laws store_api id"
  by (auto simp: api_laws_def store_api_def)

end
