(* ===== verification/Pseudo_Bank.thy ===== *)
theory Pseudo_Bank
  imports Ydb_Api
begin

text \<open>
  The bank of \<^verbatim>\<open>simpleapi/inref/pseudoBank.c\<close> and \<^verbatim>\<open>simplethreadapi/inref/pseudoBank.c\<close>: a thousand
  accounts in a global, transfers of one unit between two random accounts as transactions, a history per
  account and a transaction log.  The main result is that no transfer changes the sum of the balances.
\<close>

section \<open>The data\<close>

definition TRAN_AMT :: int where "TRAN_AMT = 1"
definition START_CID :: int where "START_CID = 100001"
definition ACC_NEEDED :: int where "ACC_NEEDED = 1000"
definition ACC_GLOBAL :: string where "ACC_GLOBAL = ''^ZACN''"
definition HIST_GLOBAL :: string where "HIST_GLOBAL = ''^ZHIST''"
definition TRN_GLOBAL :: string where "TRN_GLOBAL = ''^ZTRNLOG''"
definition NUM_THREADS :: int where "NUM_THREADS = 10"

record threadArgs =
  ta_guid :: int
  ta_user :: int
  numRuns :: int

record tpArgs =
  ref :: int
  from_cid :: int
  to_cid :: int
  amt :: int
  user :: int

record Account =
  a_cid :: int
  bal :: int
  histSeq :: int

record HistRecord =
  h_cid :: int
  h_histSeq :: int
  h_comment :: string
  h_amt :: int
  h_endBal :: int
  h_user :: int

record TrnLog =
  t_guid :: int
  t_tSeq :: int
  t_comment :: string
  t_tDateTime :: int
  t_cid :: int
  t_amt :: int
  t_endBal :: int
  t_user :: int

section \<open>Accounts, histories and the log\<close>

text \<open>
  The keys: \<^verbatim>\<open>sprintf("%d")\<close> of the numbers, which fit the buffers of 64 bytes.  The text of an account
  is read back with \<^verbatim>\<open>strtok\<close> and \<^verbatim>\<open>atoi\<close>; a missing part makes \<^verbatim>\<open>atoi\<close> follow a null pointer.
\<close>

definition Account_SetAccountKey :: "int \<Rightarrow> string \<times> string list" where
  "Account_SetAccountKey cid = (ACC_GLOBAL, [dec_of_int cid])"

definition Hist_SetHistKey :: "int \<Rightarrow> int \<Rightarrow> string \<times> string list" where
  "Hist_SetHistKey cid hseq = (HIST_GLOBAL, [dec_of_int cid, dec_of_int hseq])"

definition Trn_SetTrnLogKey :: "int \<Rightarrow> int \<Rightarrow> string \<times> string list" where
  "Trn_SetTrnLogKey guid tseq = (TRN_GLOBAL, [dec_of_int guid, dec_of_int tseq])"

definition account_parse :: "string \<Rightarrow> c_fault + int \<times> int" where
  "account_parse buf =
     (case strtok ''|'' buf of
        None \<Rightarrow> Inl Null_deref
      | Some (value1, rest) \<Rightarrow>
          (case strtok ''|'' rest of
             None \<Rightarrow> Inl Null_deref
           | Some (value2, rest') \<Rightarrow> Inr (atoi value1, atoi value2)))"

text \<open>
  A status other than success or restart fails the assertion.  The value is terminated in a buffer of 64
  bytes before it is parsed.
\<close>

definition Account_Load :: "'db ydb_api \<Rightarrow> int \<Rightarrow> 'db \<Rightarrow> c_fault + int \<times> Account option" where
  "Account_Load api cid db =
     (let (g, ss) = Account_SetAccountKey cid; (status, data) = ydb_get_s api g ss 64 db in
      if status = ydb_tp_restart api then Inr (status, None)
      else bindE (c_assert (status = ydb_ok api)) (\<lambda>_.
           if length data \<ge> 64 then Inl Write_oob
           else bindE (account_parse (takeWhile (\<lambda>c. c \<noteq> CHR 0x00) data)) (\<lambda>(h, b).
                Inr (ydb_ok api, Some \<lparr>a_cid = cid, bal = b, histSeq = h\<rparr>))))"

definition account_text :: "Account \<Rightarrow> string" where
  "account_text a = dec_of_int (histSeq a) @ ''|'' @ dec_of_int (bal a)"

definition save_node :: "'db ydb_api \<Rightarrow> string \<times> string list \<Rightarrow> string \<Rightarrow> 'db \<Rightarrow> c_fault + int \<times> 'db" where
  "save_node api key v db =
     (let (status, db') = ydb_set_s api (fst key) (snd key) v db in
      if status = ydb_tp_restart api then Inr (status, db')
      else bindE (c_assert (status = ydb_ok api)) (\<lambda>_. Inr (ydb_ok api, db')))"

definition Account_Save :: "'db ydb_api \<Rightarrow> Account \<Rightarrow> 'db \<Rightarrow> c_fault + int \<times> 'db" where
  "Account_Save api a db = save_node api (Account_SetAccountKey (a_cid a)) (account_text a) db"

definition Hist_Save :: "'db ydb_api \<Rightarrow> HistRecord \<Rightarrow> 'db \<Rightarrow> c_fault + int \<times> 'db" where
  "Hist_Save api h db = save_node api (Hist_SetHistKey (h_cid h) (h_histSeq h))
     (h_comment h @ ''|'' @ dec_of_int (h_amt h) @ ''|'' @ dec_of_int (h_endBal h) @ ''|'' @ dec_of_int (h_user h)) db"

text \<open>\<^verbatim>\<open>Trn_Save\<close> writes the time of the call, not \<^verbatim>\<open>tDateTime\<close>; \<open>now\<close> is what \<^verbatim>\<open>time(NULL)\<close> gives.\<close>

definition Trn_Save :: "'db ydb_api \<Rightarrow> int \<Rightarrow> TrnLog \<Rightarrow> 'db \<Rightarrow> c_fault + int \<times> 'db" where
  "Trn_Save api now t db = save_node api (Trn_SetTrnLogKey (t_guid t) (t_tSeq t))
     (dec_of_int (t_guid t) @ ''|'' @ dec_of_int now @ ''|'' @ dec_of_int (t_cid t) @ ''|'' @ dec_of_int (t_amt t) @
      ''|'' @ dec_of_int (t_endBal t) @ ''|'' @ dec_of_int (t_user t)) db"

section \<open>A transfer\<close>

text \<open>\<^verbatim>\<open>if (status == YDB_TP_RESTART) return status;\<close> after a call that changes the database.\<close>

definition then_save :: "'db ydb_api \<Rightarrow> c_fault + int \<times> 'db \<Rightarrow> ('db \<Rightarrow> c_fault + int \<times> 'db) \<Rightarrow> c_fault + int \<times> 'db" where
  "then_save api m f = bindE m (\<lambda>(status, db). if status = ydb_tp_restart api then Inr (status, db) else f db)"

definition transfer_saves :: "'db ydb_api \<Rightarrow> int \<Rightarrow> tpArgs \<Rightarrow> Account \<Rightarrow> Account \<Rightarrow> 'db \<Rightarrow> c_fault + int \<times> 'db" where
  "transfer_saves api now args accountFrom accountTo db =
     then_save api (Account_Save api accountFrom db) (\<lambda>db.
     then_save api (Account_Save api accountTo db) (\<lambda>db.
     then_save api (Hist_Save api
       \<lparr>h_cid = from_cid args, h_histSeq = histSeq accountFrom, h_comment = ''Transfer to '' @ dec_of_int (to_cid args),
        h_amt = - amt args, h_endBal = bal accountFrom, h_user = ref args\<rparr> db) (\<lambda>db.
     then_save api (Hist_Save api
       \<lparr>h_cid = to_cid args, h_histSeq = histSeq accountTo, h_comment = ''Transfer from '' @ dec_of_int (from_cid args),
        h_amt = amt args, h_endBal = bal accountTo, h_user = ref args\<rparr> db) (\<lambda>db.
     then_save api (Trn_Save api now
       \<lparr>t_guid = ref args, t_tSeq = 1, t_comment = ''Transfer to '' @ dec_of_int (to_cid args), t_tDateTime = now,
        t_cid = from_cid args, t_amt = - amt args, t_endBal = bal accountFrom, t_user = user args\<rparr> db) (\<lambda>db.
     then_save api (Trn_Save api now
       \<lparr>t_guid = ref args, t_tSeq = 2, t_comment = ''Transfer from '' @ dec_of_int (from_cid args), t_tDateTime = now,
        t_cid = from_cid args, t_amt = amt args, t_endBal = bal accountFrom, t_user = user args\<rparr> db) (\<lambda>db.
     Inr (0, db)))))))"

definition postTransfer :: "'db ydb_api \<Rightarrow> int \<Rightarrow> tpArgs \<Rightarrow> 'db \<Rightarrow> c_fault + int \<times> 'db" where
  "postTransfer api now args db =
     bindE (Account_Load api (from_cid args) db) (\<lambda>(status, accountFrom).
     case accountFrom of
       None \<Rightarrow> Inr (status, db)
     | Some accountFrom \<Rightarrow>
         bindE (Account_Load api (to_cid args) db) (\<lambda>(status, accountTo).
         case accountTo of
           None \<Rightarrow> Inr (status, db)
         | Some accountTo \<Rightarrow>
             bindE (int_of (histSeq accountFrom + 1)) (\<lambda>hf.
             bindE (int_of (bal accountFrom - amt args)) (\<lambda>bf.
             bindE (int_of (histSeq accountTo + 1)) (\<lambda>ht.
             bindE (int_of (bal accountTo + amt args)) (\<lambda>bt.
             transfer_saves api now args (accountFrom\<lparr>histSeq := hf, bal := bf\<rparr>)
               (accountTo\<lparr>histSeq := ht, bal := bt\<rparr>) db))))))"

section \<open>The processes\<close>

definition RAND_INT :: "int \<Rightarrow> int \<Rightarrow> int \<Rightarrow> int" where
  "RAND_INT r a b = r mod (b - a) + a"

text \<open>
  \<^verbatim>\<open>idShift\<close> is \<^verbatim>\<open>ceil(log10(NUM_THREADS))\<close>, which is 1.  The two values of \<^verbatim>\<open>rand()\<close>, which are not
  negative, are arguments.  \<^verbatim>\<open>toPass.user\<close> is never assigned: \<open>junk\<close> stands for what the stack holds.
\<close>

definition idShift :: nat where
  "idShift = 1"

definition transfer_args :: "threadArgs \<Rightarrow> int \<Rightarrow> int \<Rightarrow> int \<Rightarrow> c_fault + tpArgs" where
  "transfer_args args r1 r2 junk =
     bindE (int_of (ta_guid args + numRuns args * 10 ^ idShift)) (\<lambda>rf.
     let from = START_CID + RAND_INT r1 0 ACC_NEEDED;
         to = START_CID + RAND_INT r2 0 (ACC_NEEDED - 1)
     in Inr \<lparr>ref = rf, from_cid = from, to_cid = (if from = to then to + 1 else to), amt = TRAN_AMT, user = junk\<rparr>)"

definition childThread ::
  "'db ydb_api \<Rightarrow> threadArgs \<Rightarrow> int \<Rightarrow> int \<Rightarrow> int \<Rightarrow> int \<Rightarrow> 'db \<Rightarrow> c_fault + threadArgs \<times> 'db" where
  "childThread api args r1 r2 junk now db =
     bindE (transfer_args args r1 r2 junk) (\<lambda>toPass.
     bindE (ydb_tp_s api (postTransfer api now toPass) db) (\<lambda>(status, db).
     bindE (c_assert (status = ydb_ok api)) (\<lambda>_.
     Inr (args\<lparr>numRuns := numRuns args + 1\<rparr>, db))))"

text \<open>\<^verbatim>\<open>initData\<close>: the loop over \<open>i\<close>, outside any transaction.\<close>

function initData_loop :: "'db ydb_api \<Rightarrow> int \<Rightarrow> 'db \<Rightarrow> c_fault + 'db" where
  "initData_loop api i db =
     (if i < ACC_NEEDED
      then (let (status, db) = ydb_set_s api ACC_GLOBAL [dec_of_int (START_CID + i)] ''1|10000000'' db in
            bindE (c_assert (status = ydb_ok api)) (\<lambda>_.
            let (status, db) = ydb_set_s api HIST_GLOBAL [dec_of_int (START_CID + i), ''1''] ''Account Create||10000000'' db in
            bindE (c_assert (status = ydb_ok api)) (\<lambda>_.
            initData_loop api (i + 1) db)))
      else Inr db)"
  by pat_completeness auto
termination
  by (relation "measure (\<lambda>(api, i, db). nat (ACC_NEEDED - i))") auto

declare initData_loop.simps [simp del]

definition initData :: "'db ydb_api \<Rightarrow> 'db \<Rightarrow> c_fault + 'db" where
  "initData api db = initData_loop api 0 db"

section \<open>The threaded program\<close>

text \<open>
  \<^verbatim>\<open>simplethreadapi/inref/pseudoBank.c\<close> has the same functions over the threaded entry points; the
  parameter then stands for those at the token of the transaction.  Its transfer differs: the status of the
  two loads and of the two account saves is dropped, so that after a load that asks for a restart the
  account structures hold what the stack held, \<open>junkF\<close> and \<open>junkT\<close>.
\<close>

definition st_Account_Load :: "'db ydb_api \<Rightarrow> int \<Rightarrow> 'db \<Rightarrow> c_fault + int \<times> Account option" where
  "st_Account_Load = Account_Load"

definition st_Account_Save :: "'db ydb_api \<Rightarrow> Account \<Rightarrow> 'db \<Rightarrow> c_fault + int \<times> 'db" where
  "st_Account_Save = Account_Save"

definition st_Hist_Save :: "'db ydb_api \<Rightarrow> HistRecord \<Rightarrow> 'db \<Rightarrow> c_fault + int \<times> 'db" where
  "st_Hist_Save = Hist_Save"

definition st_Trn_Save :: "'db ydb_api \<Rightarrow> int \<Rightarrow> TrnLog \<Rightarrow> 'db \<Rightarrow> c_fault + int \<times> 'db" where
  "st_Trn_Save = Trn_Save"

definition st_initData :: "'db ydb_api \<Rightarrow> 'db \<Rightarrow> c_fault + 'db" where
  "st_initData = initData"

definition st_transfer_saves :: "'db ydb_api \<Rightarrow> int \<Rightarrow> tpArgs \<Rightarrow> Account \<Rightarrow> Account \<Rightarrow> 'db \<Rightarrow> c_fault + int \<times> 'db" where
  "st_transfer_saves api now args accountFrom accountTo db =
     bindE (st_Account_Save api accountFrom db) (\<lambda>(status, db).
     bindE (st_Account_Save api accountTo db) (\<lambda>(status, db).
     then_save api (st_Hist_Save api
       \<lparr>h_cid = from_cid args, h_histSeq = histSeq accountFrom, h_comment = ''Transfer to '' @ dec_of_int (to_cid args),
        h_amt = - amt args, h_endBal = bal accountFrom, h_user = ref args\<rparr> db) (\<lambda>db.
     then_save api (st_Hist_Save api
       \<lparr>h_cid = to_cid args, h_histSeq = histSeq accountTo, h_comment = ''Transfer from '' @ dec_of_int (from_cid args),
        h_amt = amt args, h_endBal = bal accountTo, h_user = ref args\<rparr> db) (\<lambda>db.
     then_save api (st_Trn_Save api now
       \<lparr>t_guid = ref args, t_tSeq = 1, t_comment = ''Transfer to '' @ dec_of_int (to_cid args), t_tDateTime = now,
        t_cid = from_cid args, t_amt = - amt args, t_endBal = bal accountFrom, t_user = user args\<rparr> db) (\<lambda>db.
     then_save api (st_Trn_Save api now
       \<lparr>t_guid = ref args, t_tSeq = 2, t_comment = ''Transfer from '' @ dec_of_int (from_cid args), t_tDateTime = now,
        t_cid = from_cid args, t_amt = amt args, t_endBal = bal accountFrom, t_user = user args\<rparr> db) (\<lambda>db.
     Inr (0, db)))))))"

definition st_postTransfer :: "'db ydb_api \<Rightarrow> int \<Rightarrow> Account \<Rightarrow> Account \<Rightarrow> tpArgs \<Rightarrow> 'db \<Rightarrow> c_fault + int \<times> 'db" where
  "st_postTransfer api now junkF junkT args db =
     bindE (st_Account_Load api (from_cid args) db) (\<lambda>(status, loadedF).
     bindE (st_Account_Load api (to_cid args) db) (\<lambda>(status, loadedT).
     let accountFrom = (case loadedF of Some a \<Rightarrow> a | None \<Rightarrow> junkF);
         accountTo = (case loadedT of Some a \<Rightarrow> a | None \<Rightarrow> junkT)
     in bindE (int_of (histSeq accountFrom + 1)) (\<lambda>hf.
        bindE (int_of (bal accountFrom - amt args)) (\<lambda>bf.
        bindE (int_of (histSeq accountTo + 1)) (\<lambda>ht.
        bindE (int_of (bal accountTo + amt args)) (\<lambda>bt.
        st_transfer_saves api now args (accountFrom\<lparr>histSeq := hf, bal := bf\<rparr>)
          (accountTo\<lparr>histSeq := ht, bal := bt\<rparr>) db))))))"

text \<open>
  One turn of the loop of \<^verbatim>\<open>childThread\<close>, with \<open>i\<close> its counter and \<open>user\<close> set from the thread's arguments.
\<close>

definition st_childThread_turn ::
  "'db ydb_api \<Rightarrow> threadArgs \<Rightarrow> int \<Rightarrow> int \<Rightarrow> int \<Rightarrow> Account \<Rightarrow> Account \<Rightarrow> int \<Rightarrow> 'db \<Rightarrow> c_fault + int \<times> 'db" where
  "st_childThread_turn api info i r1 r2 junkF junkT now db =
     bindE (transfer_args (info\<lparr>numRuns := i\<rparr>) r1 r2 (ta_user info)) (\<lambda>toPass.
     bindE (ydb_tp_s api (st_postTransfer api now junkF junkT toPass) db) (\<lambda>(status, db).
     bindE (c_assert (status = ydb_ok api)) (\<lambda>_.
     Inr (i + 1, db))))"

section \<open>What the database holds\<close>

definition cids :: "int set" where
  "cids = {START_CID ..< START_CID + ACC_NEEDED}"

text \<open>The accounts of the contents have the balances \<open>b\<close>.\<close>

definition bank :: "contents \<Rightarrow> (int \<Rightarrow> int) \<Rightarrow> bool" where
  "bank c b \<longleftrightarrow> (\<forall>cid \<in> cids. \<exists>h. is_int h \<and> is_int (b cid) \<and>
     c (Account_SetAccountKey cid) = Some (account_text \<lparr>a_cid = cid, bal = b cid, histSeq = h\<rparr>))"

lemma dec_of_int_no_bar: "CHR ''|'' \<notin> set (dec_of_int n)" "CHR 0x00 \<notin> set (dec_of_int n)"
  using dec_of_int_chars [of "CHR ''|''" n] dec_of_int_chars [of "CHR 0x00" n] by (auto simp: is_digit_def)

lemma account_text_parse: "account_parse (account_text a) = Inr (histSeq a, bal a)"
proof -
  have "strtok ''|'' (account_text a) = Some (dec_of_int (histSeq a), dec_of_int (bal a))"
    using strtok_plain [of "dec_of_int (histSeq a)" "''|''" "CHR ''|''" "dec_of_int (bal a)"]
    by (simp add: account_text_def dec_of_int_no_bar)
  moreover have "strtok ''|'' (dec_of_int (bal a)) = Some (dec_of_int (bal a), [])"
    using strtok_last [of "dec_of_int (bal a)" "''|''"] by (simp add: dec_of_int_no_bar)
  ultimately show ?thesis by (simp add: account_parse_def atoi_dec_of_int)
qed

lemma account_text_short: "is_int (histSeq a) \<Longrightarrow> is_int (bal a) \<Longrightarrow> length (account_text a) < 64"
  using length_dec_of_int [of "histSeq a"] length_dec_of_int [of "bal a"] by (simp add: account_text_def is_int_def)

lemma account_text_nul: "takeWhile (\<lambda>c. c \<noteq> CHR 0x00) (account_text a) = account_text a"
  using dec_of_int_no_bar(2) by (auto simp: account_text_def takeWhile_eq_all_conv)

lemma Account_Load_cases:
  assumes "api_laws api view" "view db (Account_SetAccountKey cid) = Some (account_text a)" "a_cid a = cid"
    and "is_int (histSeq a)" "is_int (bal a)"
  obtains "Account_Load api cid db = Inr (ydb_ok api, Some a)" | "Account_Load api cid db = Inr (ydb_tp_restart api, None)"
proof -
  have short: "length (account_text a) < 64" using account_text_short [OF assms(4,5)] .
  have key: "view db (ACC_GLOBAL, [dec_of_int cid]) = Some (account_text a)"
    using assms(2) by (simp add: Account_SetAccountKey_def)
  show thesis
  proof (rule api_laws_get [OF assms(1) key, of 64])
    assume "ydb_get_s api ACC_GLOBAL [dec_of_int cid] 64 db = (ydb_ok api, account_text a)"
    then have "Account_Load api cid db = Inr (ydb_ok api, Some a)"
      using short assms(3) api_laws_ok [OF assms(1)]
      by (auto simp: Account_Load_def Account_SetAccountKey_def account_text_nul account_text_parse)
    then show thesis by (rule that(1))
  next
    fix w assume "ydb_get_s api ACC_GLOBAL [dec_of_int cid] 64 db = (ydb_tp_restart api, w)"
    then have "Account_Load api cid db = Inr (ydb_tp_restart api, None)"
      by (simp add: Account_Load_def Account_SetAccountKey_def)
    then show thesis by (rule that(2))
  qed (use short in simp)
qed

lemma save_node_commits:
  assumes "api_laws api view"
  shows "commits api view (save_node api key v db) (\<lambda>c. c = (view db)(key \<mapsto> v))"
  by (rule api_laws_set [OF assms, of "fst key" "snd key" v db])
    (use api_laws_ok [OF assms] in \<open>auto simp: save_node_def commits_def\<close>)

lemma then_save_commits:
  assumes "api_laws api view" "commits api view m (\<lambda>c. c = c1)" "\<And>db. view db = c1 \<Longrightarrow> commits api view (f db) P"
  shows "commits api view (then_save api m f) P"
proof -
  from assms(2) consider db' where "m = Inr (ydb_tp_restart api, db')" | db' where "m = Inr (ydb_ok api, db')" "view db' = c1"
    by (auto simp: commits_def)
  then show ?thesis
  proof cases
    case 1
    then show ?thesis by (simp add: then_save_def commits_def)
  next
    case 2
    then show ?thesis using assms(3) [of db'] api_laws_ok [OF assms(1)] by (simp add: then_save_def)
  qed
qed

section \<open>Transfers and the balances\<close>

lemma account_key_inject [simp]: "Account_SetAccountKey a = Account_SetAccountKey b \<longleftrightarrow> a = b"
  by (simp add: Account_SetAccountKey_def)

lemma other_keys [simp]:
  "Account_SetAccountKey a \<noteq> Hist_SetHistKey b n" "Account_SetAccountKey a \<noteq> Trn_SetTrnLogKey m n"
  by (simp_all add: Account_SetAccountKey_def Hist_SetHistKey_def Trn_SetTrnLogKey_def ACC_GLOBAL_def HIST_GLOBAL_def TRN_GLOBAL_def)

text \<open>What a transfer writes into the accounts.\<close>

definition moved :: "contents \<Rightarrow> Account \<Rightarrow> Account \<Rightarrow> contents \<Rightarrow> bool" where
  "moved c0 aF aT c \<longleftrightarrow> (\<forall>cid. c (Account_SetAccountKey cid) =
     (if cid = a_cid aT then Some (account_text aT) else if cid = a_cid aF then Some (account_text aF)
      else c0 (Account_SetAccountKey cid)))"

lemma transfer_saves_commits:
  assumes "api_laws api view"
  shows "commits api view (transfer_saves api now args aF aT db) (moved (view db) aF aT)"
  unfolding transfer_saves_def Account_Save_def Hist_Save_def Trn_Save_def
  by (rule then_save_commits [OF assms save_node_commits [OF assms]])+
     (use api_laws_ok [OF assms] in \<open>auto simp: commits_def moved_def\<close>)

lemma postTransfer_outcomes_aux:
  assumes "api_laws api view" "bank (view db) b" "from_cid args \<in> cids" "to_cid args \<in> cids" "from_cid args \<noteq> to_cid args"
  shows "postTransfer api now args db = Inl Int_overflow \<or>
    commits api view (postTransfer api now args db)
      (\<lambda>c. bank c (b(from_cid args := b (from_cid args) - amt args, to_cid args := b (to_cid args) + amt args)))"
proof -
  let ?f = "from_cid args" and ?t = "to_cid args"
  obtain hf ht where f: "is_int hf" "is_int (b ?f)"
      "view db (Account_SetAccountKey ?f) = Some (account_text \<lparr>a_cid = ?f, bal = b ?f, histSeq = hf\<rparr>)"
    and t: "is_int ht" "is_int (b ?t)"
      "view db (Account_SetAccountKey ?t) = Some (account_text \<lparr>a_cid = ?t, bal = b ?t, histSeq = ht\<rparr>)"
    using assms(2-4) unfolding bank_def by blast
  let ?aF = "\<lparr>a_cid = ?f, bal = b ?f - amt args, histSeq = hf + 1\<rparr>"
  let ?aT = "\<lparr>a_cid = ?t, bal = b ?t + amt args, histSeq = ht + 1\<rparr>"
  show ?thesis
  proof (rule Account_Load_cases [OF assms(1) f(3)], goal_cases)
    case 4
    note lf = this
    show ?thesis
    proof (rule Account_Load_cases [OF assms(1) t(3)], goal_cases)
      case 4
      show ?thesis
      proof (cases "is_int (hf + 1) \<and> is_int (b ?f - amt args) \<and> is_int (ht + 1) \<and> is_int (b ?t + amt args)")
        case True
        have "postTransfer api now args db = transfer_saves api now args ?aF ?aT db"
          using lf 4 True by (simp add: postTransfer_def int_of_is_int)
        moreover have "bank c (b(?f := b ?f - amt args, ?t := b ?t + amt args))" if "moved (view db) ?aF ?aT c" for c
          unfolding bank_def
        proof
          fix cid assume cid: "cid \<in> cids"
          obtain h where "is_int h" "is_int (b cid)"
              "view db (Account_SetAccountKey cid) = Some (account_text \<lparr>a_cid = cid, bal = b cid, histSeq = h\<rparr>)"
            using assms(2) cid unfolding bank_def by blast
          then show "\<exists>h. is_int h \<and> is_int ((b(?f := b ?f - amt args, ?t := b ?t + amt args)) cid) \<and>
              c (Account_SetAccountKey cid) = Some (account_text
                \<lparr>a_cid = cid, bal = (b(?f := b ?f - amt args, ?t := b ?t + amt args)) cid, histSeq = h\<rparr>)"
            using that True assms(5) unfolding moved_def by (cases "cid = ?t"; cases "cid = ?f") auto
        qed
        ultimately show ?thesis
          using commits_mono [OF transfer_saves_commits [OF assms(1), of now args ?aF ?aT db]] by simp
      next
        case False
        then have "postTransfer api now args db = Inl Int_overflow"
          using lf 4 by (auto simp: postTransfer_def int_of_is_int)
        then show ?thesis ..
      qed
    next
      case 5
      then show ?thesis using lf by (simp add: postTransfer_def commits_def)
    qed (use t in simp_all)
  next
    case 5
    then show ?thesis by (simp add: postTransfer_def commits_def)
  qed (use f in simp_all)
qed

lemma transfer_args_cids:
  assumes "transfer_args args r1 r2 junk = Inr toPass"
  shows "from_cid toPass \<in> cids" "to_cid toPass \<in> cids" "from_cid toPass \<noteq> to_cid toPass" "amt toPass = TRAN_AMT"
proof -
  have m: "0 \<le> r1 mod 1000" "r1 mod 1000 < 1000" "0 \<le> r2 mod 999" "r2 mod 999 < 999" by simp_all
  obtain rf where "toPass = \<lparr>ref = rf, from_cid = START_CID + r1 mod 1000, to_cid = (if r1 mod 1000 = r2 mod 999
      then START_CID + r2 mod 999 + 1 else START_CID + r2 mod 999), amt = TRAN_AMT, user = junk\<rparr>"
    using assms by (auto simp: transfer_args_def bindE_eq_Inr RAND_INT_def ACC_NEEDED_def Let_def)
  with m show "from_cid toPass \<in> cids" "to_cid toPass \<in> cids" "from_cid toPass \<noteq> to_cid toPass" "amt toPass = TRAN_AMT"
    by (auto simp: cids_def ACC_NEEDED_def)
qed

lemma sum_moved:
  fixes b :: "int \<Rightarrow> int"
  assumes "finite S" "f \<in> S" "t \<in> S" "f \<noteq> t"
  shows "(\<Sum>x \<in> S. (b(f := b f - a, t := b t + a)) x) = (\<Sum>x \<in> S. b x)"
proof -
  have S: "S = insert f (insert t (S - {f, t}))" using assms by auto
  have "(\<Sum>x \<in> S - {f, t}. (b(f := b f - a, t := b t + a)) x) = (\<Sum>x \<in> S - {f, t}. b x)"
    by (intro sum.cong) auto
  then show ?thesis using assms by (subst (1 2) S) (simp add: sum.insert)
qed

lemma childThread_moves:
  assumes "api_laws api view" "bank (view db) b" "childThread api args r1 r2 junk now db = Inr (args', db')"
  shows "\<exists>f t. f \<in> cids \<and> t \<in> cids \<and> f \<noteq> t \<and> bank (view db') (b(f := b f - TRAN_AMT, t := b t + TRAN_AMT))"
proof -
  from assms(3) obtain toPass where tp: "transfer_args args r1 r2 junk = Inr toPass"
      "ydb_tp_s api (postTransfer api now toPass) db = Inr (ydb_ok api, db')"
    by (auto simp: childThread_def bindE_eq_Inr c_assert_def split: if_splits)
  obtain db0 db1 where d: "view db0 = view db" "postTransfer api now toPass db0 = Inr (ydb_ok api, db1)" "view db' = view db1"
    using api_laws_tp [OF assms(1) tp(2)] .
  have "bank (view db0) b" using assms(2) d(1) by simp
  from postTransfer_outcomes_aux [OF assms(1) this transfer_args_cids(1-3) [OF tp(1)], of now]
  have "bank (view db1) (b(from_cid toPass := b (from_cid toPass) - amt toPass, to_cid toPass := b (to_cid toPass) + amt toPass))"
    using d(2) api_laws_ok [OF assms(1)] by (auto simp: commits_def)
  then show ?thesis using transfer_args_cids [OF tp(1)] d(3) by auto
qed

section \<open>The bank as a whole\<close>

lemma initData_loop_step:
  assumes "api_laws api view" "initData_loop api i db = Inr db'" "i < ACC_NEEDED"
  obtains db1 where "initData_loop api (i + 1) db1 = Inr db'"
    "view db1 = (view db)((ACC_GLOBAL, [dec_of_int (START_CID + i)]) \<mapsto> ''1|10000000'',
      (HIST_GLOBAL, [dec_of_int (START_CID + i), ''1'']) \<mapsto> ''Account Create||10000000'')"
proof -
  note ok = api_laws_ok [OF assms(1)]
  note unf = assms(2) [unfolded initData_loop.simps [of api i db]]
  show thesis
  proof (rule api_laws_set [OF assms(1), of ACC_GLOBAL "[dec_of_int (START_CID + i)]" "''1|10000000''" db])
    fix d assume d: "ydb_set_s api ACC_GLOBAL [dec_of_int (START_CID + i)] ''1|10000000'' db = (ydb_ok api, d)"
      "view d = (view db)((ACC_GLOBAL, [dec_of_int (START_CID + i)]) \<mapsto> ''1|10000000'')"
    show thesis
      by (rule api_laws_set [OF assms(1), of HIST_GLOBAL "[dec_of_int (START_CID + i), ''1'']" "''Account Create||10000000''" d])
        (use unf d assms(3) that ok in auto)
  next
    fix d assume "ydb_set_s api ACC_GLOBAL [dec_of_int (START_CID + i)] ''1|10000000'' db = (ydb_tp_restart api, d)"
    then show thesis using unf assms(3) ok by simp
  qed
qed

lemma initData_loop_fills:
  assumes "api_laws api view" "initData_loop api i db = Inr db'" "n = nat (ACC_NEEDED - i)"
  shows "view db' (Account_SetAccountKey cid) =
    (if START_CID + i \<le> cid \<and> cid < START_CID + ACC_NEEDED then Some ''1|10000000'' else view db (Account_SetAccountKey cid))"
  using assms(2,3)
proof (induction n arbitrary: i db)
  case 0
  then show ?case by (auto simp: initData_loop.simps [of _ i])
next
  case (Suc n)
  then have i: "i < ACC_NEEDED" by linarith
  obtain db1 where d: "initData_loop api (i + 1) db1 = Inr db'"
    "view db1 = (view db)((ACC_GLOBAL, [dec_of_int (START_CID + i)]) \<mapsto> ''1|10000000'',
      (HIST_GLOBAL, [dec_of_int (START_CID + i), ''1'']) \<mapsto> ''Account Create||10000000'')"
    using initData_loop_step [OF assms(1) Suc.prems(1) i] .
  have "view db1 (Account_SetAccountKey cid) =
      (if cid = START_CID + i then Some ''1|10000000'' else view db (Account_SetAccountKey cid))"
    by (auto simp: d(2) Account_SetAccountKey_def ACC_GLOBAL_def HIST_GLOBAL_def)
  moreover have "n = nat (ACC_NEEDED - (i + 1))" using Suc.prems(2) by simp
  ultimately show ?case using Suc.IH [OF d(1)] i by auto
qed

lemma initial_text: "''1|10000000'' = account_text \<lparr>a_cid = cid, bal = 10000000, histSeq = 1\<rparr>"
proof -
  have "dec_of_int 1 = ''1''" "dec_of_int 10000000 = ''10000000''"
    by (simp_all add: dec_of_int_def dec_of_nat.simps digit_char_def char_of_def bit_0)
  then show ?thesis by (simp add: account_text_def)
qed

lemma initial_bank:
  assumes "\<And>cid. cid \<in> cids \<Longrightarrow> c (Account_SetAccountKey cid) = Some ''1|10000000''"
  shows "bank c (\<lambda>_. 10000000)"
  unfolding bank_def
proof
  fix cid assume "cid \<in> cids"
  then have "c (Account_SetAccountKey cid) = Some (account_text \<lparr>a_cid = cid, bal = 10000000, histSeq = 1\<rparr>)"
    using assms initial_text [of cid] by simp
  then show "\<exists>h. is_int h \<and> is_int (10000000 :: int) \<and>
      c (Account_SetAccountKey cid) = Some (account_text \<lparr>a_cid = cid, bal = 10000000, histSeq = h\<rparr>)"
    by (intro exI [of _ 1]) (simp add: is_int_def)
qed

text \<open>
  The database states that the processes reach: \<^verbatim>\<open>initData\<close>, then transfers of any processes in any order.
  Concurrent transactions have the effect of some sequence of them.
\<close>

inductive bank_reach :: "'db ydb_api \<Rightarrow> 'db \<Rightarrow> bool" for api where
  init: "initData api db = Inr db' \<Longrightarrow> bank_reach api db'"
| transfer: "bank_reach api db \<Longrightarrow> childThread api args r1 r2 junk now db = Inr (args', db') \<Longrightarrow> bank_reach api db'"

lemma bank_reach_total:
  assumes "api_laws api view" "bank_reach api db"
  shows "\<exists>b. bank (view db) b \<and> (\<Sum>cid \<in> cids. b cid) = ACC_NEEDED * 10000000"
  using assms(2)
proof (induction rule: bank_reach.induct)
  case (init db db')
  then have "bank (view db') (\<lambda>_. 10000000)"
    using initData_loop_fills [OF assms(1), of 0 db db'] by (intro initial_bank) (auto simp: initData_def cids_def)
  moreover have "(\<Sum>cid \<in> cids. 10000000 :: int) = ACC_NEEDED * 10000000"
    by (simp add: cids_def ACC_NEEDED_def)
  ultimately show ?case by blast
next
  case (transfer db args r1 r2 junk now args' db')
  then obtain b where b: "bank (view db) b" "(\<Sum>cid \<in> cids. b cid) = ACC_NEEDED * 10000000" by blast
  obtain f t where ft: "f \<in> cids" "t \<in> cids" "f \<noteq> t" "bank (view db') (b(f := b f - TRAN_AMT, t := b t + TRAN_AMT))"
    using childThread_moves [OF assms(1) b(1) transfer.hyps(2)] by blast
  have "finite cids" by (simp add: cids_def)
  then have "(\<Sum>cid \<in> cids. (b(f := b f - TRAN_AMT, t := b t + TRAN_AMT)) cid) = ACC_NEEDED * 10000000"
    using sum_moved [of cids f t b TRAN_AMT] ft b(2) by simp
  then show ?case using ft(4) by blast
qed

section \<open>Properties\<close>

text \<open>C3. No money is made or lost: in every database that the initialisation and any sequence of committed
  transfers of any processes reach, the thousand balances sum to a thousand times ten million.\<close>

theorem bank_total_constant:
  assumes "api_laws api view" "bank_reach api db"
  shows "\<exists>b. bank (view db) b \<and> (\<Sum>cid \<in> cids. b cid) = ACC_NEEDED * 10000000"
  by (rule bank_reach_total [OF assms])

lemma store_fills:
  assumes "n = nat (ACC_NEEDED - i)"
  shows "\<exists>db'. initData_loop store_api i db = Inr db'"
  using assms
proof (induction n arbitrary: i db)
  case 0
  then show ?case by (simp add: initData_loop.simps [of _ i])
next
  case (Suc n)
  then have "n = nat (ACC_NEEDED - (i + 1))" by simp
  from Suc.IH [OF this] show ?case
    by (subst initData_loop.simps) (simp add: store_api_def)
qed

theorem bank_total_constant_witness:
  "\<exists>db b. bank_reach store_api db \<and> bank (id db) b \<and> (\<Sum>cid \<in> cids. b cid) = 10000000000"
proof -
  obtain db where "initData store_api Map.empty = Inr db"
    using store_fills [of _ 0] by (auto simp: initData_def)
  then have "bank_reach store_api db" by (rule bank_reach.init)
  with bank_total_constant [OF store_api_laws this] show ?thesis by (auto simp: ACC_NEEDED_def)
qed

text \<open>C4. A transfer between two different accounts asks for a restart, succeeds with exactly the amount
  moved, or stops because a number no longer fits an \<^verbatim>\<open>int\<close>: no assertion fails, no record is misread and
  no pointer is null.\<close>

theorem transfer_outcomes:
  assumes "api_laws api view" "bank (view db) b" "from_cid args \<in> cids" "to_cid args \<in> cids" "from_cid args \<noteq> to_cid args"
  shows "postTransfer api now args db = Inl Int_overflow \<or>
    commits api view (postTransfer api now args db)
      (\<lambda>c. bank c (b(from_cid args := b (from_cid args) - amt args, to_cid args := b (to_cid args) + amt args)))"
  by (rule postTransfer_outcomes_aux [OF assms])

definition opened :: contents where
  "opened = (\<lambda>(g, ss). if g = ACC_GLOBAL \<and> (\<exists>cid \<in> cids. ss = [dec_of_int cid]) then Some ''1|10000000'' else None)"

lemma opened_bank: "bank (id opened) (\<lambda>_. 10000000)"
  by (rule initial_bank) (auto simp: opened_def Account_SetAccountKey_def)

theorem transfer_outcomes_witness:
  "postTransfer store_api 7 \<lparr>ref = 3, from_cid = 100001, to_cid = 100002, amt = 1, user = 5\<rparr> opened = Inl Int_overflow \<or>
    commits store_api id (postTransfer store_api 7 \<lparr>ref = 3, from_cid = 100001, to_cid = 100002, amt = 1, user = 5\<rparr> opened)
      (\<lambda>c. bank c ((\<lambda>_. 10000000)(100001 := 9999999, 100002 := 10000001)))"
  using transfer_outcomes [of store_api id opened "\<lambda>_. 10000000"
      "\<lparr>ref = 3, from_cid = 100001, to_cid = 100002, amt = 1, user = 5\<rparr>" 7, OF store_api_laws opened_bank]
  by (simp add: cids_def START_CID_def ACC_NEEDED_def)

text \<open>Transfers have different references: two transfers of the ten processes have the same reference
  only where the same process made them in the same run, so no two of them write the same log records.\<close>

theorem transfer_refs_distinct:
  assumes "transfer_args args r1 r2 junk = Inr p" "transfer_args args' r1' r2' junk' = Inr p'" "ref p = ref p'"
    and "0 \<le> ta_guid args" "ta_guid args < NUM_THREADS" "0 \<le> ta_guid args'" "ta_guid args' < NUM_THREADS"
  shows "ta_guid args = ta_guid args' \<and> numRuns args = numRuns args'"
proof -
  have "ta_guid args + numRuns args * 10 = ta_guid args' + numRuns args' * 10"
    using assms(1-3) by (auto simp: transfer_args_def bindE_eq_Inr int_of_is_int idShift_def Let_def split: if_splits)
  then show ?thesis using assms(4-7) unfolding NUM_THREADS_def by presburger
qed

theorem transfer_refs_distinct_witness:
  "\<exists>p p'. transfer_args \<lparr>ta_guid = 3, ta_user = 0, numRuns = 2\<rparr> 17 17 0 = Inr p \<and>
     transfer_args \<lparr>ta_guid = 4, ta_user = 0, numRuns = 2\<rparr> 5 6 0 = Inr p' \<and> ref p \<noteq> ref p'"
proof -
  let ?a = "\<lparr>ta_guid = 3, ta_user = 0, numRuns = 2\<rparr>" and ?b = "\<lparr>ta_guid = 4, ta_user = 0, numRuns = 2\<rparr>"
  obtain p p' where e: "transfer_args ?a 17 17 0 = Inr p" "transfer_args ?b 5 6 0 = Inr p'"
    by (simp add: transfer_args_def int_of_def idShift_def Let_def)
  have "ref p \<noteq> ref p'"
    using transfer_refs_distinct [OF e] by (auto simp: NUM_THREADS_def)
  with e show ?thesis by blast
qed

text \<open>The log does not say where the money went: the second log record of a committed transfer names
  the debited account and its balance again, with the amount as a credit.\<close>

theorem second_log_record:
  assumes "api_laws api view" "bank (view db) b" "from_cid args \<in> cids" "to_cid args \<in> cids" "from_cid args \<noteq> to_cid args"
  shows "postTransfer api now args db = Inl Int_overflow \<or>
    commits api view (postTransfer api now args db) (\<lambda>c. c (Trn_SetTrnLogKey (ref args) 2) =
      Some (dec_of_int (ref args) @ ''|'' @ dec_of_int now @ ''|'' @ dec_of_int (from_cid args) @ ''|'' @ dec_of_int (amt args) @
        ''|'' @ dec_of_int (b (from_cid args) - amt args) @ ''|'' @ dec_of_int (user args)))"
proof -
  let ?f = "from_cid args" and ?t = "to_cid args"
  let ?P = "\<lambda>c. c (Trn_SetTrnLogKey (ref args) 2) =
      Some (dec_of_int (ref args) @ ''|'' @ dec_of_int now @ ''|'' @ dec_of_int ?f @ ''|'' @ dec_of_int (amt args) @
        ''|'' @ dec_of_int (b ?f - amt args) @ ''|'' @ dec_of_int (user args))"
  obtain hf ht where f: "is_int hf" "is_int (b ?f)"
      "view db (Account_SetAccountKey ?f) = Some (account_text \<lparr>a_cid = ?f, bal = b ?f, histSeq = hf\<rparr>)"
    and t: "is_int ht" "is_int (b ?t)"
      "view db (Account_SetAccountKey ?t) = Some (account_text \<lparr>a_cid = ?t, bal = b ?t, histSeq = ht\<rparr>)"
    using assms(2-4) unfolding bank_def by blast
  have saves: "commits api view (transfer_saves api now args (aF\<lparr>bal := b ?f - amt args\<rparr>) aT d) ?P" for aF aT d
    unfolding transfer_saves_def Account_Save_def Hist_Save_def Trn_Save_def
    by (rule then_save_commits [OF assms(1) save_node_commits [OF assms(1)]])+
       (use api_laws_ok [OF assms(1)] in \<open>auto simp: commits_def\<close>)
  show ?thesis
    by (rule Account_Load_cases [OF assms(1) f(3)]; rule Account_Load_cases [OF assms(1) t(3)])
      (use f t saves [of "\<lparr>a_cid = ?f, bal = 0, histSeq = hf + 1\<rparr>"] in
        \<open>auto simp: postTransfer_def int_of_is_int commits_def\<close>)
qed

theorem second_log_record_witness:
  "postTransfer store_api 7 \<lparr>ref = 3, from_cid = 100001, to_cid = 100002, amt = 1, user = 5\<rparr> opened = Inl Int_overflow \<or>
    commits store_api id (postTransfer store_api 7 \<lparr>ref = 3, from_cid = 100001, to_cid = 100002, amt = 1, user = 5\<rparr> opened)
      (\<lambda>c. c (Trn_SetTrnLogKey 3 2) = Some (dec_of_int 3 @ ''|'' @ dec_of_int 7 @ ''|'' @ dec_of_int 100001 @ ''|'' @
        dec_of_int 1 @ ''|'' @ dec_of_int 9999999 @ ''|'' @ dec_of_int 5))"
  using second_log_record [of store_api id opened "\<lambda>_. 10000000"
      "\<lparr>ref = 3, from_cid = 100001, to_cid = 100002, amt = 1, user = 5\<rparr>" 7, OF store_api_laws opened_bank]
  by (simp add: cids_def START_CID_def ACC_NEEDED_def)

text \<open>C39. The threaded transfer is the transfer of the other program wherever no call asks for a restart.\<close>

theorem threaded_transfer:
  assumes "\<And>g ss n db. fst (ydb_get_s api g ss n db) \<noteq> ydb_tp_restart api"
    and "\<And>g ss v db. fst (ydb_set_s api g ss v db) \<noteq> ydb_tp_restart api"
  shows "st_postTransfer api now junkF junkT args db = postTransfer api now args db"
proof -
  have load: "\<exists>a. r = (st, Some a)" if "Account_Load api cid db = Inr r" "fst r = st" for cid db r st
    using that assms(1) by (auto simp: Account_Load_def Account_SetAccountKey_def bindE_eq_Inr split: prod.splits if_splits)
      (metis fst_conv)+
  have save: "fst r \<noteq> ydb_tp_restart api" if "save_node api key v db = Inr r" for key v db r
    using that assms(2) [of "fst key" "snd key" v db]
    by (cases "ydb_set_s api (fst key) (snd key) v db") (auto simp: save_node_def bindE_eq_Inr split: if_splits)
  have "then_save api (save_node api key v db) f = bindE (save_node api key v db) (\<lambda>(status, db). f db)" for key v db f
    using save [of key v db] by (cases "save_node api key v db") (auto simp: then_save_def)
  then have saves: "st_transfer_saves api now args aF aT db = transfer_saves api now args aF aT db" for aF aT
    unfolding st_transfer_saves_def transfer_saves_def st_Account_Save_def st_Hist_Save_def st_Trn_Save_def
      Account_Save_def Hist_Save_def Trn_Save_def by simp
  show ?thesis
  proof (cases "Account_Load api (from_cid args) db")
    case (Inl e)
    then show ?thesis by (simp add: st_postTransfer_def postTransfer_def st_Account_Load_def)
  next
    case (Inr r)
    then obtain aF where F: "Account_Load api (from_cid args) db = Inr (fst r, Some aF)" using load [OF Inr refl] by auto
    show ?thesis
    proof (cases "Account_Load api (to_cid args) db")
      case (Inl e)
      with F show ?thesis by (simp add: st_postTransfer_def postTransfer_def st_Account_Load_def)
    next
      case (Inr r')
      then obtain aT where "Account_Load api (to_cid args) db = Inr (fst r', Some aT)" using load [OF Inr refl] by auto
      with F show ?thesis by (simp add: st_postTransfer_def postTransfer_def st_Account_Load_def saves)
    qed
  qed
qed

theorem threaded_transfer_witness:
  "st_postTransfer store_api 7 \<lparr>a_cid = 0, bal = 0, histSeq = 0\<rparr> \<lparr>a_cid = 0, bal = 0, histSeq = 0\<rparr>
      \<lparr>ref = 3, from_cid = 100001, to_cid = 100002, amt = 1, user = 5\<rparr> opened =
   postTransfer store_api 7 \<lparr>ref = 3, from_cid = 100001, to_cid = 100002, amt = 1, user = 5\<rparr> opened"
  by (rule threaded_transfer) (simp_all add: store_api_def split: option.split)

text \<open>A database that asks for a restart on every load, and stores.\<close>

definition restart_api :: "contents ydb_api" where
  "restart_api = store_api\<lparr>ydb_get_s := (\<lambda>g ss n db. (1, []))\<rparr>"

lemma restart_api_laws: "api_laws restart_api id"
  by (auto simp: api_laws_def restart_api_def store_api_def)

text \<open>The threaded transfer does not stop at a restart: where a load asks for one, the transfer of the other
  program hands it on with the database untouched, and the threaded one saves the account structures as the
  stack held them and reports success.\<close>

theorem threaded_restart_ignored:
  "postTransfer restart_api 7 \<lparr>ref = 3, from_cid = 100001, to_cid = 100002, amt = 1, user = 5\<rparr> opened = Inr (1, opened) \<and>
   (\<exists>db'. st_postTransfer restart_api 7 \<lparr>a_cid = 100001, bal = 40, histSeq = 9\<rparr> \<lparr>a_cid = 77, bal = 0, histSeq = 0\<rparr>
        \<lparr>ref = 3, from_cid = 100001, to_cid = 100002, amt = 1, user = 5\<rparr> opened = Inr (0, db') \<and>
      db' (Account_SetAccountKey 100001) = Some (account_text \<lparr>a_cid = 100001, bal = 39, histSeq = 10\<rparr>) \<and>
      db' (Account_SetAccountKey 100002) = opened (Account_SetAccountKey 100002))"
proof -
  have load: "Account_Load restart_api cid db = Inr (1, None)" for cid db
    by (simp add: Account_Load_def restart_api_def store_api_def Account_SetAccountKey_def)
  have save: "save_node restart_api key v db = Inr (0, db(key \<mapsto> v))" for key v db
    by (simp add: save_node_def restart_api_def store_api_def)
  have restart: "ydb_tp_restart restart_api = 1" by (simp add: restart_api_def store_api_def)
  show ?thesis
    by (simp add: postTransfer_def st_postTransfer_def st_Account_Load_def load int_of_def st_transfer_saves_def
        st_Account_Save_def Account_Save_def st_Hist_Save_def Hist_Save_def st_Trn_Save_def Trn_Save_def save then_save_def restart)
qed

end
