(* ===== verification/Crc_Table.thy ===== *)
theory Crc_Table
  imports Prelude
begin

text \<open>
  The generator of \<^verbatim>\<open>v55000/inref/comp_tab.c\<close>: it computes the four tables of a CRC by the
  slicing-by-four method, swaps their bytes on a big-endian machine and compares them with the tables that
  the database is built with, which are a parameter.
\<close>

unbundle bit_operations_syntax

section \<open>The program\<close>

type_synonym uint4 = "32 word"

definition Poly :: uint4 where
  "Poly = 0x1EDC6F41"

definition SLICE_BY :: nat where
  "SLICE_BY = 4"

definition TABLE_SIZE :: nat where
  "TABLE_SIZE = 256"

text \<open>\<^verbatim>\<open>reflect\<close>: the loop over \<open>i\<close>, with \<open>tmp\<close> the input shifted right \<open>i\<close> times.\<close>

function reflect_loop :: "nat \<Rightarrow> nat \<Rightarrow> uint4 \<Rightarrow> uint4 \<Rightarrow> uint4" where
  "reflect_loop len i num tmp =
     (if i < len
      then reflect_loop len (i + 1)
             (if tmp AND 1 \<noteq> 0 then num OR push_bit (len - 1 - i) 1 else num AND NOT (push_bit (len - 1 - i) 1))
             (drop_bit 1 tmp)
      else num)"
  by pat_completeness auto
termination
  by (relation "measure (\<lambda>(len, i, num, tmp). len - i)") auto

declare reflect_loop.simps [simp del]

definition reflect :: "uint4 \<Rightarrow> nat \<Rightarrow> uint4" where
  "reflect num len = reflect_loop len 0 num num"

definition crc_step :: "uint4 \<Rightarrow> uint4" where
  "crc_step checksum =
     (if checksum AND push_bit 31 1 \<noteq> 0 then push_bit 1 checksum XOR Poly else push_bit 1 checksum)"

definition gentab_entry :: "nat \<Rightarrow> uint4" where
  "gentab_entry i = reflect ((crc_step ^^ 8) (reflect (of_nat i) 32)) 32"

definition slice_next :: "uint4 list \<Rightarrow> uint4 \<Rightarrow> uint4" where
  "slice_next t0 c = drop_bit 8 c XOR t0 ! unat (c AND 0xFF)"

text \<open>
  \<^verbatim>\<open>gentab\<close> writes every entry of the static array but the first of the first table.
\<close>

definition gentab :: "uint4 list list \<Rightarrow> uint4 list list" where
  "gentab tab =
     (let t0 = (tab ! 0 ! 0) # map gentab_entry [1..<TABLE_SIZE];
          t1 = map (slice_next t0) t0;
          t2 = map (slice_next t0) t1;
          t3 = map (slice_next t0) t2
      in [t0, t1, t2, t3])"

definition swap_bytes :: "uint4 \<Rightarrow> uint4" where
  "swap_bytes w = (push_bit 24 w AND 0xFF000000) OR (push_bit 8 w AND 0x00FF0000) OR
                  (drop_bit 8 w AND 0x0000FF00) OR (drop_bit 24 w AND 0x000000FF)"

definition table_swap :: "uint4 list list \<Rightarrow> uint4 list list" where
  "table_swap tab = map (map swap_bytes) tab"

text \<open>The bytes of a number in memory; \<open>big\<close> is what \<^verbatim>\<open>endianness\<close> returns.\<close>

definition mem_bytes :: "bool \<Rightarrow> uint4 \<Rightarrow> byte list" where
  "mem_bytes big w = (let little = map (\<lambda>k. ucast (drop_bit (8 * k) w)) [0, 1, 2, 3] in if big then rev little else little)"

definition memory :: "bool \<Rightarrow> uint4 list list \<Rightarrow> byte list" where
  "memory big tab = concat (map (mem_bytes big) (concat tab))"

definition zeroed :: "uint4 list list" where
  "zeroed = replicate SLICE_BY (replicate TABLE_SIZE 0)"

text \<open>\<^verbatim>\<open>main\<close>: true where it prints \<^verbatim>\<open>TABLE-MATCH\<close>.\<close>

definition comp_tab_main :: "bool \<Rightarrow> uint4 list list \<Rightarrow> bool" where
  "comp_tab_main big csum_table =
     (let tab = gentab zeroed;
          tab = (if big then table_swap tab else tab)
      in take (SLICE_BY * TABLE_SIZE) (memory big tab) = take (SLICE_BY * TABLE_SIZE) (memory big csum_table))"

section \<open>Reflection\<close>

lemma and_1_bit: "(w :: uint4) AND 1 \<noteq> 0 \<longleftrightarrow> bit w 0"
  by (simp add: and_one_eq bit_0 odd_iff_mod_2_eq_one)

lemma reflect_loop_bit:
  assumes "i \<le> len" "len \<le> 32" "k < 32"
  shows "bit (reflect_loop len i num tmp) k =
           (if k < len - i then bit tmp (len - 1 - i - k) else bit num k)"
  using assms
proof (induction "len - i" arbitrary: i num tmp)
  case 0
  then show ?case by (subst reflect_loop.simps) simp
next
  case (Suc d)
  let ?n = "if tmp AND 1 \<noteq> 0 then num OR push_bit (len - 1 - i) 1 else num AND NOT (push_bit (len - 1 - i) 1)"
  have i: "i < len" using Suc.hyps(2) by simp
  then have "reflect_loop len i num tmp = reflect_loop len (i + 1) ?n (drop_bit 1 tmp)"
    by (subst reflect_loop.simps) simp
  moreover have "bit (reflect_loop len (i + 1) ?n (drop_bit 1 tmp)) k =
      (if k < len - (i + 1) then bit (drop_bit 1 tmp) (len - 1 - (i + 1) - k) else bit ?n k)"
    using Suc.hyps(1) [of "i + 1"] Suc.hyps(2) Suc.prems i by simp
  moreover have "bit ?n k = (if k = len - 1 - i then bit tmp 0 else bit num k)"
    using Suc.prems(2,3) i by (auto simp: and_1_bit bit_simps)
  moreover have "bit (drop_bit 1 tmp) (len - 1 - (i + 1) - k) = bit tmp (len - 1 - i - k)" if "k < len - (i + 1)"
  proof -
    have "1 + (len - 1 - (i + 1) - k) = len - 1 - i - k" using that by linarith
    then show ?thesis by (simp only: bit_drop_bit_eq o_def)
  qed
  ultimately show ?case using i by (cases "k < len - (i + 1)") auto
qed

lemma bit_reflect: "len \<le> 32 \<Longrightarrow> k < 32 \<Longrightarrow> bit (reflect num len) k = (if k < len then bit num (len - 1 - k) else bit num k)"
  using reflect_loop_bit [of 0 len k num num] by (simp add: reflect_def)

lemma bit_reflect32: "bit (reflect w 32) k \<longleftrightarrow> k < 32 \<and> bit w (31 - k)"
  using bit_reflect [of 32 k w] by (cases "k < 32") (auto dest: bit_imp_le_length)

lemma reflect_reflect: "reflect (reflect w 32) 32 = w"
  by (rule bit_word_eqI) (auto simp: bit_reflect32)

lemma reflect_xor: "reflect (a XOR b) 32 = reflect a 32 XOR reflect b 32"
  by (rule bit_word_eqI) (simp add: bit_reflect32 bit_simps)

lemma reflect_shift: "reflect (push_bit 1 w) 32 = drop_bit 1 (reflect w 32)"
  by (rule bit_word_eqI) (auto simp: bit_reflect32 bit_drop_bit_eq bit_push_bit_iff simp del: One_nat_def push_bit_Suc)

section \<open>The tables\<close>

text \<open>
  The reference: one bit of the reflected CRC shifts right and adds the reflected polynomial, and a byte
  of zeros behind a remainder is eight such bits.
\<close>

definition rstep :: "uint4 \<Rightarrow> uint4" where
  "rstep c = (if bit c 0 then drop_bit 1 c XOR 0x82F63B78 else drop_bit 1 c)"

lemma reflect_Poly: "reflect Poly 32 = 0x82F63B78"
  by code_simp

lemma top_bit: "(c :: uint4) AND push_bit 31 1 \<noteq> 0 \<longleftrightarrow> bit c 31"
proof -
  have "c AND push_bit 31 1 = (if bit c 31 then push_bit 31 1 else 0)"
  proof (rule bit_word_eqI)
    fix n assume "n < LENGTH(32)"
    then have p: "bit (push_bit 31 1 :: uint4) n \<longleftrightarrow> n = 31" unfolding bit_push_bit_iff bit_1_iff by auto
    show "bit (c AND push_bit 31 1) n = bit (if bit c 31 then push_bit 31 1 else 0 :: uint4) n"
      unfolding bit_and_iff p by (cases "bit c 31") (simp_all only: if_True if_False p, auto)
  qed
  then show ?thesis by (simp split: if_splits)
qed

lemma reflect_crc_step: "reflect (crc_step c) 32 = rstep (reflect c 32)"
proof -
  have "bit (reflect c 32) 0 \<longleftrightarrow> bit c 31" by (simp add: bit_reflect32)
  then show ?thesis
    unfolding crc_step_def rstep_def top_bit
    by (simp add: reflect_xor reflect_shift reflect_Poly del: One_nat_def push_bit_Suc)
qed

lemma reflect_crc_steps: "reflect ((crc_step ^^ n) c) 32 = (rstep ^^ n) (reflect c 32)"
  by (induction n) (simp_all add: reflect_crc_step)

lemma gentab_entry_eq: "gentab_entry i = (rstep ^^ 8) (of_nat i)"
  by (simp add: gentab_entry_def reflect_crc_steps reflect_reflect del: funpow.simps)

lemma rstep_xor: "rstep (a XOR b) = rstep a XOR rstep b"
proof (rule bit_word_eqI)
  fix n assume "n < LENGTH(32)"
  show "bit (rstep (a XOR b)) n = bit (rstep a XOR rstep b) n"
    by (auto simp: rstep_def bit_xor_iff bit_drop_bit_eq simp del: One_nat_def)
qed

lemma rsteps_xor: "(rstep ^^ n) (a XOR b) = (rstep ^^ n) a XOR (rstep ^^ n) b"
  by (induction n) (simp_all add: rstep_xor)

lemma rsteps_0: "(rstep ^^ n) 0 = 0"
  by (induction n) (simp_all add: rstep_def)

text \<open>As long as zeros come out on the right, a step is a shift.\<close>

lemma rsteps_shift:
  assumes "\<And>k. k < n \<Longrightarrow> \<not> bit c k"
  shows "(rstep ^^ n) c = drop_bit n c"
  using assms
proof (induction n arbitrary: c)
  case (Suc n)
  have "(rstep ^^ Suc n) c = (rstep ^^ n) (rstep c)" by (simp only: funpow_Suc_right o_def)
  also have "rstep c = drop_bit 1 c" using Suc.prems [of 0] by (simp add: rstep_def)
  also have "(rstep ^^ n) (drop_bit 1 c) = drop_bit n (drop_bit 1 c)"
    using Suc.prems by (intro Suc.IH) (simp add: bit_drop_bit_eq)
  finally show ?case by (simp add: drop_bit_drop_bit add.commute)
qed simp

lemma low_byte: "bit ((c :: uint4) AND 0xFF) k \<longleftrightarrow> bit c k \<and> k < 8"
proof -
  have m: "(0xFF :: uint4) = mask 8" by (simp add: mask_eq_exp_minus_1)
  show ?thesis unfolding m by (auto simp only: bit_and_iff bit_mask_iff dest: bit_imp_le_length) simp_all
qed

lemma unat_low_byte: "unat ((c :: uint4) AND 0xFF) < 256"
proof -
  have "c AND 0xFF \<le> 0xFF" by (rule word_and_le1)
  then show ?thesis by (simp add: word_le_nat_alt)
qed

text \<open>A byte: shift it out and look its remainder up.\<close>

lemma rsteps_byte: "(rstep ^^ 8) c = drop_bit 8 c XOR (rstep ^^ 8) (c AND 0xFF)"
proof -
  have "c = push_bit 8 (drop_bit 8 c) XOR (c AND 0xFF)"
    by (rule bit_word_eqI) (auto simp: bit_xor_iff low_byte bit_push_bit_iff bit_drop_bit_eq)
  moreover have "(rstep ^^ 8) (push_bit 8 (drop_bit 8 c)) = drop_bit 8 (push_bit 8 (drop_bit 8 c))"
    by (rule rsteps_shift) (simp add: bit_push_bit_iff)
  moreover have "drop_bit 8 (push_bit 8 (drop_bit 8 c)) = drop_bit 8 c"
    by (rule bit_word_eqI) (auto simp: bit_push_bit_iff bit_drop_bit_eq dest: bit_imp_le_length)
  ultimately show ?thesis by (metis rsteps_xor)
qed

definition first_table :: "uint4 list" where
  "first_table = map (\<lambda>i. (rstep ^^ 8) (of_nat i)) [0..<256]"

lemma first_table_nth: "i < 256 \<Longrightarrow> first_table ! i = (rstep ^^ 8) (of_nat i)"
  by (simp add: first_table_def)

lemma slice_next_first: "slice_next first_table c = (rstep ^^ 8) c"
  using unat_low_byte [of c] by (simp add: slice_next_def first_table_nth rsteps_byte [of c] del: funpow.simps)

lemma gentab_first: "(0 :: uint4) # map gentab_entry [1..<TABLE_SIZE] = first_table"
proof -
  have u: "[0..<256 :: nat] = 0 # [1..<256]" by (simp add: upt_conv_Cons)
  have "map gentab_entry xs = map (\<lambda>i. (rstep ^^ 8) (of_nat i)) xs" for xs
    by (rule map_cong [OF refl gentab_entry_eq])
  moreover have "(rstep ^^ 8) (of_nat 0) = 0" by (simp only: semiring_1_class.of_nat_0 rsteps_0)
  ultimately show ?thesis unfolding first_table_def TABLE_SIZE_def u list.map by (simp only:)
qed

lemma gentab_zeroed:
  "gentab zeroed = [map (\<lambda>i. (rstep ^^ 8) (of_nat i)) [0..<256], map (\<lambda>i. (rstep ^^ 16) (of_nat i)) [0..<256],
     map (\<lambda>i. (rstep ^^ 24) (of_nat i)) [0..<256], map (\<lambda>i. (rstep ^^ 32) (of_nat i)) [0..<256]]"
proof -
  have z: "zeroed ! 0 ! 0 = 0" by (simp add: zeroed_def SLICE_BY_def TABLE_SIZE_def)
  have add: "(rstep ^^ 8) ((rstep ^^ n) x) = (rstep ^^ (8 + n)) x" for n x by (simp only: funpow_add o_def)
  have nx: "map (slice_next first_table) (map (\<lambda>i. (rstep ^^ n) (of_nat i)) [0..<256]) =
      map (\<lambda>i. (rstep ^^ (8 + n)) (of_nat i)) [0..<256]" for n
    by (simp only: list.map_comp o_def slice_next_first add)
  have "map (slice_next first_table) first_table = map (\<lambda>i. (rstep ^^ (8 + 8)) (of_nat i)) [0..<256]"
    using nx [of 8] by (simp only: first_table_def)
  then show ?thesis
    using nx [of 16] nx [of 24]
    by (simp only: gentab_def z gentab_first Let_def) (simp add: first_table_def del: funpow.simps upt_rec_numeral)
qed

lemma gentab_nth:
  "i < 256 \<Longrightarrow> gentab zeroed ! 0 ! i = (rstep ^^ 8) (of_nat i)"
  "i < 256 \<Longrightarrow> gentab zeroed ! 1 ! i = (rstep ^^ 16) (of_nat i)"
  "i < 256 \<Longrightarrow> gentab zeroed ! 2 ! i = (rstep ^^ 24) (of_nat i)"
  "i < 256 \<Longrightarrow> gentab zeroed ! 3 ! i = (rstep ^^ 32) (of_nat i)"
  unfolding gentab_zeroed by (simp_all del: funpow.simps upt_rec_numeral add: nth_Cons')

lemma gentab_first_table: "gentab zeroed ! 0 = first_table"
  unfolding gentab_zeroed first_table_def by simp

text \<open>The bytes of a word, each shifted to where it is.\<close>

lemma word_bytes:
  "w = (w AND 0xFF) XOR push_bit 8 (drop_bit 8 w AND 0xFF) XOR push_bit 16 (drop_bit 16 w AND 0xFF) XOR
       push_bit 24 (drop_bit 24 w AND (0xFF :: uint4))"
proof (rule bit_word_eqI)
  fix n assume "n < LENGTH(32)"
  then consider "n < 8" | "8 \<le> n" "n < 16" | "16 \<le> n" "n < 24" | "24 \<le> n" "n < 32" by fastforce
  then show "bit w n = bit ((w AND 0xFF) XOR push_bit 8 (drop_bit 8 w AND 0xFF) XOR push_bit 16 (drop_bit 16 w AND 0xFF) XOR
       push_bit 24 (drop_bit 24 w AND (0xFF :: uint4))) n"
    by cases (simp_all only: bit_xor_iff bit_push_bit_iff low_byte bit_drop_bit_eq o_def, auto)
qed

lemma rsteps_push:
  assumes "k \<le> 24"
  shows "(rstep ^^ 32) (push_bit k ((c :: uint4) AND 0xFF)) = (rstep ^^ (32 - k)) (c AND 0xFF)"
proof -
  let ?b = "c AND 0xFF"
  have "drop_bit k (push_bit k ?b) = ?b"
    by (rule bit_word_eqI) (use assms in \<open>auto simp only: bit_drop_bit_eq bit_push_bit_iff low_byte o_def\<close>, auto)
  moreover have "(rstep ^^ k) (push_bit k ?b) = drop_bit k (push_bit k ?b)"
    by (rule rsteps_shift) (simp only: bit_push_bit_iff, simp)
  moreover have "(rstep ^^ 32) x = (rstep ^^ (32 - k)) ((rstep ^^ k) x)" for x
  proof -
    have "32 = (32 - k) + k" using assms by simp
    then show ?thesis by (metis funpow_add o_apply)
  qed
  ultimately show ?thesis by simp
qed

section \<open>The remainders\<close>

text \<open>
  Polynomials over the field of two elements as numbers, bit \<open>k\<close> the coefficient of the \<open>k\<close>-th power: the product,
  and the remainder of a division by the polynomial of CRC-32C, which is unique.
\<close>

function clmul :: "nat \<Rightarrow> nat \<Rightarrow> nat" where
  "clmul q p = (if q = 0 then 0 else (if odd q then p else 0) XOR clmul (q div 2) (2 * p))"
  by pat_completeness auto
termination by (relation "measure fst") auto

declare clmul.simps [simp del]

lemma double_xor: "2 * (a XOR b) = (2 * a) XOR (2 * b :: nat)"
  using push_bit_xor [of 1 a b] by (simp add: push_bit_eq_mult mult.commute)

lemma xor_back [simp]: "a XOR (a XOR b) = (b :: nat)"
  by (simp add: xor.assoc [symmetric])

lemma clmul_double: "clmul q (2 * p) = 2 * clmul q p"
proof (induction q p rule: clmul.induct)
  case (1 q p)
  show ?case
  proof (cases "q = 0")
    case False
    then show ?thesis
      using 1 [OF False] clmul.simps [of q p] clmul.simps [of q "2 * p"] by (auto simp: double_xor)
  qed (simp add: clmul.simps)
qed

lemma clmul_step: "clmul (2 * q + (if b then 1 else 0)) p = 2 * clmul q p XOR (if b then p else 0)"
  by (subst clmul.simps) (auto simp: clmul_double xor.commute clmul.simps [of 0])

text \<open>The polynomial of CRC-32C, by its exponents.\<close>

definition castagnoli :: nat where
  "castagnoli = 2 ^ 32 + 2 ^ 28 + 2 ^ 27 + 2 ^ 26 + 2 ^ 25 + 2 ^ 23 + 2 ^ 22 + 2 ^ 20 + 2 ^ 19 + 2 ^ 18 + 2 ^ 14 +
     2 ^ 13 + 2 ^ 11 + 2 ^ 10 + 2 ^ 9 + 2 ^ 8 + 2 ^ 6 + 1"

definition crc_remainder :: "nat \<Rightarrow> nat \<Rightarrow> bool" where
  "crc_remainder a r \<longleftrightarrow> (\<exists>q. a = clmul q castagnoli XOR r) \<and> r < 2 ^ 32"

lemma xor_top:
  assumes "2 ^ m \<le> x" "x < 2 ^ (m + 1)" "y < (2 :: nat) ^ m"
  shows "2 ^ m \<le> y XOR x \<and> y XOR x < 2 ^ (m + 1)"
proof -
  have "drop_bit m (y XOR x) = drop_bit m y XOR drop_bit m x" by simp
  moreover have "drop_bit m y = 0" using assms(3) by (simp add: drop_bit_eq_div)
  moreover have "drop_bit m x = 1" using assms(1,2) by (simp add: drop_bit_eq_div div_nat_eqI)
  ultimately have "(y XOR x) div 2 ^ m = 1" by (simp add: drop_bit_eq_div)
  then show ?thesis
    by (metis (no_types, lifting) add.commute add_0 div_less_iff_less_mult less_2_cases_iff mult.commute nat_1_add_1
        plus_1_eq_Suc power_add power_one_right div_greater_zero_iff zero_less_one zero_less_numeral zero_less_power)
qed

lemma clmul_top:
  assumes "2 ^ e \<le> q" "q < 2 ^ (e + 1)" "2 ^ d \<le> p" "p < 2 ^ (d + 1)"
  shows "2 ^ (d + e) \<le> clmul q p \<and> clmul q p < 2 ^ (d + e + 1)"
  using assms
proof (induction e arbitrary: q d p)
  case 0
  then have "q = 1" by simp
  then show ?case using 0 by (simp add: clmul.simps)
next
  case (Suc e)
  have q: "q \<noteq> 0" using Suc.prems(1) by (metis not_one_le_zero one_le_power one_le_numeral order_trans)
  have "2 ^ (Suc d + e) \<le> clmul (q div 2) (2 * p) \<and> clmul (q div 2) (2 * p) < 2 ^ (Suc d + e + 1)"
    using Suc.prems by (intro Suc.IH) auto
  moreover have "(if odd q then p else 0) < 2 ^ (Suc d + e)"
  proof -
    have "p < 2 ^ (d + 1)" by (fact Suc.prems(4))
    also have "(2 :: nat) ^ (d + 1) \<le> 2 ^ (Suc d + e)" by (rule power_increasing) simp_all
    finally show ?thesis by auto
  qed
  ultimately show ?case
    using xor_top [of "Suc d + e" "clmul (q div 2) (2 * p)" "if odd q then p else 0"] q
    by (subst (1 2) clmul.simps) simp
qed

lemma clmul_xor: "clmul a p XOR clmul b p = clmul (a XOR b) p"
proof (induction a p arbitrary: b rule: clmul.induct)
  case (1 a p)
  show ?case
  proof (cases "a = 0")
    case True
    then show ?thesis by (simp add: clmul.simps [of 0])
  next
    case False
    have step: "clmul q p = (if odd q then p else 0) XOR clmul (q div 2) (2 * p)" for q
      by (subst clmul.simps) (simp add: clmul.simps [of 0])
    have d: "(a XOR b) div 2 = (a div 2) XOR (b div 2)"
      using drop_bit_xor [of 1 a b] by (simp add: drop_bit_eq_div)
    have o: "odd (a XOR b) \<longleftrightarrow> odd a \<noteq> odd b" by (simp add: even_xor_iff)
    show ?thesis
      unfolding step [of a] step [of b] step [of "a XOR b"] d o
      using 1 [OF False, of "b div 2", symmetric]
      by (auto simp: xor.assoc xor.left_commute [of "clmul x y" p for x y])
  qed
qed

lemma crc_remainder_unique:
  assumes "crc_remainder a r" "crc_remainder a r'"
  shows "r = r'"
proof -
  obtain q q' where q: "a = clmul q castagnoli XOR r" "a = clmul q' castagnoli XOR r'" and r: "r < 2 ^ 32" "r' < 2 ^ 32"
    using assms unfolding crc_remainder_def by blast
  have "clmul (q XOR q') castagnoli = r XOR r'"
    using q by (metis clmul_xor xor.assoc xor.commute xor_self_eq xor.left_neutral)
  moreover have "r XOR r' < 2 ^ 32"
  proof -
    have "take_bit 32 (r XOR r') = r XOR r'" using r by (simp add: take_bit_nat_eq_self)
    then show ?thesis by (metis take_bit_nat_less_exp)
  qed
  moreover have "2 ^ 32 \<le> clmul k castagnoli" if "k \<noteq> 0" for k
  proof -
    obtain e where "2 ^ e \<le> k" "k < 2 ^ (e + 1)" using ex_power_ivl1 [of 2 k] \<open>k \<noteq> 0\<close> by auto
    then have "2 ^ (32 + e) \<le> clmul k castagnoli" using clmul_top [of e k 32 castagnoli] by (simp add: castagnoli_def)
    moreover have "(2 :: nat) ^ 32 \<le> 2 ^ (32 + e)" by (rule power_increasing) simp_all
    ultimately show ?thesis by (rule order_trans [rotated])
  qed
  ultimately have "q XOR q' = 0" by (metis not_le)
  then have "clmul q castagnoli = clmul q' castagnoli" by (metis xor.assoc xor.right_neutral xor_self_eq xor.left_neutral)
  then show ?thesis using q by (metis xor.assoc xor_self_eq xor.left_neutral)
qed
text \<open>A word as a polynomial in the reflected order of the CRC: the lowest bit belongs to the highest power.\<close>

definition poly_of :: "nat \<Rightarrow> uint4 \<Rightarrow> nat" where
  "poly_of n w = (\<Sum>k<n. if bit w k then 2 ^ (n - 1 - k) else 0)"

lemma bit_split: "x = push_bit n (drop_bit n x) XOR take_bit n (x :: nat)"
  by (rule bit_eqI) (auto simp: bit_xor_iff bit_push_bit_iff bit_drop_bit_eq bit_take_bit_iff)

lemma unat_less_32: "unat (c :: uint4) < 2 ^ 32"
proof -
  have "unat c < 2 ^ LENGTH(32)" by (rule unsigned_less)
  then show ?thesis by simp
qed

lemma unat_crc_step: "2 * unat c = (if bit c 31 then castagnoli else 0) XOR unat (crc_step c)"
proof -
  have less: "unat c < 2 ^ 32" using unat_less_32 [of c] by simp
  have b: "bit c 31 \<longleftrightarrow> drop_bit 32 (2 * unat c) = 1"
  proof -
    have "bit c 31 \<longleftrightarrow> bit (unat c) 31" by (simp add: bit_unsigned_iff)
    then have "bit c 31 \<longleftrightarrow> odd (unat c div 2 ^ 31)" by (simp only: bit_iff_odd)
    moreover have "unat c div 2 ^ 31 < 2" using less by (simp add: div_less_iff_less_mult)
    moreover have "drop_bit 32 (2 * unat c) = unat c div 2 ^ 31" by (simp add: drop_bit_eq_div)
    ultimately show ?thesis by (auto elim: oddE)
  qed
  have z: "drop_bit 32 (2 * unat c) = 0" if "\<not> bit c 31"
  proof -
    have "drop_bit 32 (2 * unat c) < 2" using less by (simp add: drop_bit_eq_div div_less_iff_less_mult)
    then show ?thesis using that b by auto
  qed
  have p: "unat (push_bit 1 c) = take_bit 32 (2 * unat c)"
    by (simp only: unsigned_push_bit_eq) (simp add: push_bit_eq_mult mult.commute)
  have g: "castagnoli = push_bit 32 1 XOR unat Poly"
    by (simp add: castagnoli_def Poly_def push_bit_eq_mult)
  show ?thesis
  proof (cases "bit c 31")
    case True
    then have d: "drop_bit 32 (2 * unat c) = 1" using b by simp
    have "2 * unat c = push_bit 32 1 XOR take_bit 32 (2 * unat c)"
      using bit_split [of "2 * unat c" 32] by (simp only: d)
    then show ?thesis using True
      by (simp only: crc_step_def top_bit if_True unsigned_xor_eq p g) (simp add: xor.assoc xor.left_commute xor.commute)
  next
    case False
    then have "2 * unat c = take_bit 32 (2 * unat c)"
      using bit_split [of "2 * unat c" 32] by (simp add: z)
    then show ?thesis using False
      by (simp only: crc_step_def top_bit if_False p) simp
  qed
qed

lemma crc_steps_remainder: "crc_remainder (2 ^ n * unat c) (unat ((crc_step ^^ n) c))"
proof -
  have "\<exists>q. 2 ^ n * unat c = clmul q castagnoli XOR unat ((crc_step ^^ n) c)"
  proof (induction n)
    case 0
    show ?case by (rule exI [of _ 0]) (simp add: clmul.simps)
  next
    case (Suc n)
    let ?r = "(crc_step ^^ n) c"
    obtain q where "2 ^ n * unat c = clmul q castagnoli XOR unat ?r" using Suc.IH by blast
    then have "2 ^ Suc n * unat c = 2 * clmul q castagnoli XOR 2 * unat ?r" by (simp add: double_xor [symmetric])
    also have "\<dots> = clmul (2 * q + (if bit ?r 31 then 1 else 0)) castagnoli XOR unat (crc_step ?r)"
      unfolding clmul_step unat_crc_step by (simp add: xor.assoc)
    finally show ?case by auto
  qed
  moreover have "unat ((crc_step ^^ n) c) < 2 ^ 32" using unat_less_32 [of "(crc_step ^^ n) c"] by simp
  ultimately show ?thesis by (simp only: crc_remainder_def)
qed

lemma unat_bits: "unat (w :: uint4) = (\<Sum>k<32. if bit w k then 2 ^ k else 0)"
proof -
  have "unat w = take_bit 32 (unat w)" using unat_less_32 [of w] by (simp add: take_bit_nat_eq_self)
  also have "\<dots> = (\<Sum>k = 0..<32. push_bit k (of_bool (bit (unat w) k)))" by (rule take_bit_sum)
  also have "\<dots> = (\<Sum>k<32. if bit w k then 2 ^ k else 0)"
    by (rule sum.cong) (auto simp: bit_unsigned_iff push_bit_eq_mult)
  finally show ?thesis .
qed

lemma poly_of_reflect: "poly_of 32 (reflect w 32) = unat w"
proof -
  have "poly_of 32 (reflect w 32) = (\<Sum>k<32. if bit w (31 - k) then 2 ^ (31 - k) else 0)"
    unfolding poly_of_def by (rule sum.cong) (auto simp: bit_reflect32)
  also have "\<dots> = (\<Sum>k<32. if bit w k then 2 ^ k else 0)"
    by (rule sum.reindex_bij_witness [of _ "\<lambda>k. 31 - k" "\<lambda>k. 31 - k"]) auto
  finally show ?thesis by (simp only: unat_bits)
qed

lemma poly_of_byte: "i < 256 \<Longrightarrow> poly_of 32 (of_nat i) = 2 ^ 24 * poly_of 8 (of_nat i)"
proof -
  assume i: "i < 256"
  then have hi: "\<not> bit (of_nat i :: uint4) k" if "8 \<le> k" for k
  proof -
    have "take_bit 8 i = i" using i by (simp add: take_bit_nat_eq_self)
    then have "\<not> bit i k" using that by (metis bit_take_bit_iff not_le)
    then show ?thesis by (simp add: bit_of_nat_iff)
  qed
  have "poly_of 32 (of_nat i) = (\<Sum>k<8. if bit (of_nat i :: uint4) k then 2 ^ (31 - k) else 0)"
    unfolding poly_of_def by (intro sum.mono_neutral_cong_right) (use hi in auto)
  also have "\<dots> = (\<Sum>k<8. 2 ^ 24 * (if bit (of_nat i :: uint4) k then 2 ^ (8 - 1 - k) else 0))"
  proof (rule sum.cong [OF refl])
    fix k :: nat assume "k \<in> {..<8}"
    then have "(2 :: nat) ^ (31 - k) = 2 ^ (24 + (7 - k))" by (intro arg_cong [where f = "power 2"]) auto
    then show "(if bit (of_nat i :: uint4) k then 2 ^ (31 - k) else 0) =
        2 ^ 24 * (if bit (of_nat i :: uint4) k then 2 ^ (8 - 1 - k) else (0 :: nat))" by (simp only: power_add) simp
  qed
  finally show ?thesis by (simp only: poly_of_def sum_distrib_left)
qed

lemma gentab_remainder:
  assumes "i < 256" "j < 4"
  shows "crc_remainder (2 ^ (32 + 8 * j) * poly_of 8 (of_nat i)) (poly_of 32 (gentab zeroed ! j ! i))"
proof -
  have r: "(rstep ^^ n) (of_nat i) = reflect ((crc_step ^^ n) (reflect (of_nat i) 32)) 32" for n
    by (simp add: reflect_crc_steps reflect_reflect)
  have "unat (reflect (of_nat i) 32) = poly_of 32 (of_nat i)"
    using poly_of_reflect [of "reflect (of_nat i) 32"] by (simp add: reflect_reflect)
  then have u: "unat (reflect (of_nat i) 32) = 2 ^ 24 * poly_of 8 (of_nat i)"
    using poly_of_byte [OF assms(1)] by simp
  have "gentab zeroed ! j ! i = (rstep ^^ (8 + 8 * j)) (of_nat i)"
  proof -
    consider "j = 0" | "j = 1" | "j = 2" | "j = 3" using assms(2) by linarith
    then show ?thesis by cases (simp_all add: gentab_nth [OF assms(1)] del: funpow.simps One_nat_def)
  qed
  then have "poly_of 32 (gentab zeroed ! j ! i) = unat ((crc_step ^^ (8 + 8 * j)) (reflect (of_nat i) 32))"
    by (simp only: r poly_of_reflect)
  moreover have "2 ^ (32 + 8 * j) * poly_of 8 (of_nat i) = 2 ^ (8 + 8 * j) * unat (reflect (of_nat i) 32)"
    unfolding u by (simp add: power_add)
  ultimately show ?thesis by (simp only: crc_steps_remainder)
qed

section \<open>Properties\<close>

text \<open>Adding the entries of the tables for the four bytes of a word gives what four single steps through the first table give.\<close>

lemma four_steps:
  "slice_next (gentab zeroed ! 0) (slice_next (gentab zeroed ! 0) (slice_next (gentab zeroed ! 0)
     (slice_next (gentab zeroed ! 0) w))) =
   gentab zeroed ! 3 ! unat (w AND 0xFF) XOR gentab zeroed ! 2 ! unat (drop_bit 8 w AND 0xFF) XOR
   gentab zeroed ! 1 ! unat (drop_bit 16 w AND 0xFF) XOR gentab zeroed ! 0 ! unat (drop_bit 24 w AND 0xFF)"
proof -
  have "(rstep ^^ 8) ((rstep ^^ 8) ((rstep ^^ 8) ((rstep ^^ 8) w))) = (rstep ^^ (8 + (8 + (8 + 8)))) w"
    by (simp only: funpow_add o_def)
  also have "\<dots> = (rstep ^^ 32) w" by (simp del: funpow.simps)
  also have "\<dots> = (rstep ^^ 32) (w AND 0xFF) XOR (rstep ^^ 32) (push_bit 8 (drop_bit 8 w AND 0xFF)) XOR
      (rstep ^^ 32) (push_bit 16 (drop_bit 16 w AND 0xFF)) XOR (rstep ^^ 32) (push_bit 24 (drop_bit 24 w AND 0xFF))"
    by (subst word_bytes) (simp only: rsteps_xor)
  also have "\<dots> = (rstep ^^ 32) (w AND 0xFF) XOR (rstep ^^ 24) (drop_bit 8 w AND 0xFF) XOR
      (rstep ^^ 16) (drop_bit 16 w AND 0xFF) XOR (rstep ^^ 8) (drop_bit 24 w AND 0xFF)"
    using rsteps_push [of 8 "drop_bit 8 w"] rsteps_push [of 16 "drop_bit 16 w"] rsteps_push [of 24 "drop_bit 24 w"]
    by (simp del: funpow.simps)
  finally show ?thesis
    using unat_low_byte
    by (simp only: gentab_first_table slice_next_first)
       (simp add: gentab_nth gentab_first_table [symmetric] del: funpow.simps One_nat_def)
qed

text \<open>C36. Entry \<open>i\<close> of table \<open>j\<close> is the remainder of the polynomial of \<open>i\<close>, times the power \<open>32 + 8 * j\<close>, under the
  polynomial of CRC-32C, in the reflected order of bits.  So the four tables do four bytes at a time: adding their entries for the
  four bytes of a remainder gives what four single steps through the first table give.\<close>

theorem slicing_by_four:
  assumes "i < 256" "j < 4"
  shows "crc_remainder (2 ^ (32 + 8 * j) * poly_of 8 (of_nat i)) (poly_of 32 (gentab zeroed ! j ! i)) \<and>
    slice_next (gentab zeroed ! 0) (slice_next (gentab zeroed ! 0) (slice_next (gentab zeroed ! 0)
      (slice_next (gentab zeroed ! 0) w))) =
    gentab zeroed ! 3 ! unat (w AND 0xFF) XOR gentab zeroed ! 2 ! unat (drop_bit 8 w AND 0xFF) XOR
    gentab zeroed ! 1 ! unat (drop_bit 16 w AND 0xFF) XOR gentab zeroed ! 0 ! unat (drop_bit 24 w AND 0xFF)"
  using gentab_remainder [OF assms] four_steps [of w] by (rule conjI)

theorem slicing_by_four_witness:
  "crc_remainder (2 ^ (32 + 8 * 2) * poly_of 8 (of_nat 53)) (poly_of 32 (gentab zeroed ! 2 ! 53)) \<and>
    slice_next (gentab zeroed ! 0) (slice_next (gentab zeroed ! 0) (slice_next (gentab zeroed ! 0)
      (slice_next (gentab zeroed ! 0) 0xE3069283))) =
    gentab zeroed ! 3 ! unat (0xE3069283 AND 0xFF :: uint4) XOR gentab zeroed ! 2 ! unat (drop_bit 8 0xE3069283 AND 0xFF :: uint4) XOR
    gentab zeroed ! 1 ! unat (drop_bit 16 0xE3069283 AND 0xFF :: uint4) XOR gentab zeroed ! 0 ! unat (drop_bit 24 0xE3069283 AND 0xFF :: uint4)"
  by (rule slicing_by_four) simp_all

text \<open>Entries of the table of CRC-32C as it is published.\<close>

lemma eight_times: "(f ^^ 8) x = f (f (f (f (f (f (f (f x)))))))"
  by (simp add: numeral_eq_Suc)

lemma published_entries: "gentab_entry 1 = 0xF26B8303" "gentab_entry 128 = 0x82F63B78" "gentab_entry 255 = 0xAD7D5351"
  unfolding gentab_entry_eq eight_times by (simp_all add: rstep_def bit_0)

text \<open>The first table is that of CRC-32C: each entry is the remainder of its index under eight steps of the
  reflected algorithm with the polynomial \<open>0x82F63B78\<close>, which the program computes by reflecting, stepping
  from the left and reflecting back.\<close>

theorem first_table_reflected: "gentab zeroed ! 0 = map (\<lambda>i. (rstep ^^ 8) (of_nat i)) [0..<256]"
  unfolding gentab_zeroed by simp

text \<open>\<^verbatim>\<open>reflect\<close> reverses the lowest \<open>len\<close> bits and keeps the others, and reflecting a whole word twice
  gives it back.\<close>

theorem reflect_reverses:
  assumes "len \<le> 32" "k < 32"
  shows "bit (reflect num len) k = (if k < len then bit num (len - 1 - k) else bit num k) \<and>
         reflect (reflect num 32) 32 = num"
  using bit_reflect [OF assms] reflect_reflect by simp

theorem reflect_reverses_witness:
  "bit (reflect 6 4) 1 = bit (6 :: uint4) 2 \<and> reflect (reflect 6 32) 32 = 6"
  using reflect_reverses [of 4 1 6] by simp

lemma bit_swap_bytes:
  "bit (swap_bytes w) n \<longleftrightarrow> (if n < 8 then bit w (n + 24) else if n < 16 then bit w (n + 8)
     else if n < 24 then bit w (n - 8) else n < 32 \<and> bit w (n - 24))"
proof -
  have m: "(0xFF000000 :: uint4) = push_bit 24 (mask 8)" "(0x00FF0000 :: uint4) = push_bit 16 (mask 8)"
      "(0x0000FF00 :: uint4) = push_bit 8 (mask 8)" "(0x000000FF :: uint4) = mask 8"
    by (simp_all add: mask_eq_exp_minus_1 push_bit_eq_mult)
  have out: "\<not> bit w k" if "32 \<le> k" for k using that bit_imp_le_length [of w k] by auto
  consider "n < 8" | "8 \<le> n" "n < 16" | "16 \<le> n" "n < 24" | "24 \<le> n" "n < 32" | "32 \<le> n" by linarith
  then show ?thesis
    unfolding swap_bytes_def m bit_or_iff bit_and_iff bit_push_bit_iff bit_mask_iff bit_drop_bit_eq o_def
    by cases (use out in \<open>auto simp: add.commute\<close>)
qed

lemma swap_swap: "swap_bytes (swap_bytes w) = w"
  by (rule bit_word_eqI) (auto simp: bit_swap_bytes)

lemma mem_bytes_swap: "mem_bytes True (swap_bytes w) = mem_bytes False w"
proof -
  have "ucast (drop_bit 24 (swap_bytes w)) = (ucast w :: byte)"
    "ucast (drop_bit 16 (swap_bytes w)) = (ucast (drop_bit 8 w) :: byte)"
    "ucast (drop_bit 8 (swap_bytes w)) = (ucast (drop_bit 16 w) :: byte)"
    "ucast (swap_bytes w) = (ucast (drop_bit 24 w) :: byte)"
    by (rule bit_word_eqI; simp add: bit_ucast_iff bit_drop_bit_eq bit_swap_bytes add.commute)+
  then show ?thesis by (simp add: mem_bytes_def)
qed

text \<open>The byte swap is what a big-endian machine needs: swapping twice changes nothing, and the swapped
  tables lie in the memory of a big-endian machine as the tables lie in that of a little-endian one.\<close>

theorem table_swap_memory: "table_swap (table_swap tab) = tab \<and> memory True (table_swap tab) = memory False tab"
  by (simp add: table_swap_def memory_def swap_swap mem_bytes_swap map_concat [symmetric] o_def)

lemma length_mem_bytes: "length (mem_bytes big w) = 4"
  by (simp add: mem_bytes_def Let_def)

lemma take_memory_first:
  assumes "length t = 256"
  shows "take (SLICE_BY * TABLE_SIZE) (memory big (t # rest)) = concat (map (mem_bytes big) t)"
proof -
  have "length (concat (map (mem_bytes big) t)) = 4 * length t"
    by (induction t) (simp_all add: length_mem_bytes)
  then show ?thesis using assms by (simp add: memory_def SLICE_BY_def TABLE_SIZE_def)
qed

text \<open>The comparison covers a quarter of the tables: the program reports a match for every table of the
  database whose first part is the generated one, whatever the other three parts hold, because it passes the
  number of entries to \<^verbatim>\<open>memcmp\<close>, which takes a number of bytes.\<close>

theorem match_ignores_three_tables:
  "comp_tab_main big ((if big then table_swap (gentab zeroed) else gentab zeroed) ! 0 # rest)"
proof -
  let ?t = "if big then table_swap (gentab zeroed) else gentab zeroed"
  have len: "length (?t ! 0) = 256" and cons: "?t = ?t ! 0 # tl ?t"
    unfolding gentab_zeroed table_swap_def by simp_all
  show ?thesis
    unfolding comp_tab_main_def Let_def
    by (subst cons) (simp only: take_memory_first [OF len])
qed

end
