(* ===== verification/Prog.thy ===== *)
theory Prog
  imports Ydb_Api
begin

text \<open>
  Programs that run in a world they share with the database.  A run faults, leaves its function with a
  status (\<^verbatim>\<open>return\<close> before the end), or goes on with a value.  \<open>wpP\<close> is the weakest precondition of total
  correctness: no fault, and one postcondition for each way to end.
\<close>

section \<open>Runs\<close>

type_synonym ('w, 'a) prog = "'w \<Rightarrow> c_fault + (int + 'a) \<times> 'w"

definition retP :: "'a \<Rightarrow> ('w, 'a) prog" where
  "retP x w = Inr (Inr x, w)"

definition leave :: "int \<Rightarrow> ('w, 'a) prog" where
  "leave s w = Inr (Inl s, w)"

definition liftP :: "c_fault + 'a \<Rightarrow> ('w, 'a) prog" where
  "liftP m w = (case m of Inl e \<Rightarrow> Inl e | Inr x \<Rightarrow> Inr (Inr x, w))"

definition bindP :: "('w, 'a) prog \<Rightarrow> ('a \<Rightarrow> ('w, 'b) prog) \<Rightarrow> ('w, 'b) prog" where
  "bindP m f w = (case m w of Inl e \<Rightarrow> Inl e | Inr (r, w') \<Rightarrow> (case r of Inl s \<Rightarrow> Inr (Inl s, w') | Inr x \<Rightarrow> f x w'))"

definition thenP :: "('w, 'a) prog \<Rightarrow> ('w, 'b) prog \<Rightarrow> ('w, 'b) prog" where
  "thenP m n = bindP m (\<lambda>_. n)"

definition assertP :: "bool \<Rightarrow> ('w, unit) prog" where
  "assertP b = liftP (c_assert b)"

text \<open>A call that changes the world, one that only looks at it, and one that may fault.\<close>

definition callP :: "('w \<Rightarrow> 'a \<times> 'w) \<Rightarrow> ('w, 'a) prog" where
  "callP f w = Inr (Inr (fst (f w)), snd (f w))"

definition askP :: "('w \<Rightarrow> 'a) \<Rightarrow> ('w, 'a) prog" where
  "askP f w = Inr (Inr (f w), w)"

definition callE :: "('w \<Rightarrow> c_fault + 'a \<times> 'w) \<Rightarrow> ('w, 'a) prog" where
  "callE f w = (case f w of Inl e \<Rightarrow> Inl e | Inr (x, w') \<Rightarrow> Inr (Inr x, w'))"

text \<open>A function of the program as its caller sees it; \<open>ok\<close> is what it returns at its end.\<close>

definition runP :: "int \<Rightarrow> ('w, 'a) prog \<Rightarrow> 'w \<Rightarrow> c_fault + int \<times> 'w" where
  "runP ok m w = (case m w of Inl e \<Rightarrow> Inl e | Inr (r, w') \<Rightarrow> Inr (case r of Inl s \<Rightarrow> s | Inr x \<Rightarrow> ok, w'))"

primrec seqP :: "('w, unit) prog list \<Rightarrow> ('w, unit) prog" where
  "seqP [] = retP ()"
| "seqP (m # ms) = thenP m (seqP ms)"

section \<open>Weakest preconditions\<close>

definition wpP :: "('w, 'a) prog \<Rightarrow> ('a \<Rightarrow> 'w \<Rightarrow> bool) \<Rightarrow> (int \<Rightarrow> 'w \<Rightarrow> bool) \<Rightarrow> 'w \<Rightarrow> bool" where
  "wpP m Q R w \<longleftrightarrow> (case m w of Inl e \<Rightarrow> False | Inr (r, w') \<Rightarrow> (case r of Inl s \<Rightarrow> R s w' | Inr x \<Rightarrow> Q x w'))"

named_theorems wp_simps

lemma wpP_ret [wp_simps]: "wpP (retP x) Q R = Q x"
  by (simp add: wpP_def retP_def fun_eq_iff)

lemma wpP_leave [wp_simps]: "wpP (leave s) Q R = R s"
  by (simp add: wpP_def leave_def fun_eq_iff)

lemma wpP_bind [wp_simps]: "wpP (bindP m f) Q R = wpP m (\<lambda>x. wpP (f x) Q R) R"
  by (auto simp: wpP_def bindP_def fun_eq_iff split: sum.split)

lemma wpP_then [wp_simps]: "wpP (thenP m n) Q R = wpP m (\<lambda>_. wpP n Q R) R"
  by (simp add: thenP_def wpP_bind)

lemma wpP_lift [wp_simps]: "wpP (liftP m) Q R = (\<lambda>w. \<exists>x. m = Inr x \<and> Q x w)"
  by (auto simp: wpP_def liftP_def fun_eq_iff split: sum.split)

lemma wpP_assert [wp_simps]: "wpP (assertP b) Q R = (\<lambda>w. b \<and> Q () w)"
  by (simp add: assertP_def wpP_lift c_assert_def fun_eq_iff)

lemma wpP_call: "wpP (callP f) Q R w \<longleftrightarrow> Q (fst (f w)) (snd (f w))"
  by (simp add: wpP_def callP_def)

lemma wpP_ask: "wpP (askP f) Q R w \<longleftrightarrow> Q (f w) w"
  by (simp add: wpP_def askP_def)

lemma wpP_callE: "wpP (callE f) Q R w \<longleftrightarrow> (\<exists>x w'. f w = Inr (x, w') \<and> Q x w')"
  by (auto simp: wpP_def callE_def split: sum.split)

lemma wpP_if [wp_simps]: "wpP (if b then m else n) Q R = (\<lambda>w. if b then wpP m Q R w else wpP n Q R w)"
  by auto

lemma wpP_let [wp_simps]: "wpP (let x = t in f x) Q R = wpP (f t) Q R"
  by simp

lemma wpP_mono: "wpP m Q R w \<Longrightarrow> (\<And>x w. Q x w \<Longrightarrow> Q' x w) \<Longrightarrow> (\<And>s w. R s w \<Longrightarrow> R' s w) \<Longrightarrow> wpP m Q' R' w"
  by (auto simp: wpP_def split: sum.splits)

lemma wpP_run: "wpP m Q R w \<Longrightarrow> \<exists>s w'. runP ok m w = Inr (s, w') \<and> ((s = ok \<and> (\<exists>x. Q x w')) \<or> R s w')"
  by (auto simp: wpP_def runP_def split: sum.splits)

lemma wpP_total:
  assumes "wpP m Q (\<lambda>_ _. False) w"
  obtains x w' where "m w = Inr (Inr x, w')" "Q x w'"
proof (cases "m w")
  case (Inr b)
  then show thesis using assms that by (cases b; cases "fst b") (auto simp: wpP_def)
qed (use assms in \<open>simp add: wpP_def\<close>)

text \<open>A program run to its end.\<close>

lemma bindP_run: "m w = Inr (Inr x, w') \<Longrightarrow> bindP m f w = f x w'"
  by (simp add: bindP_def)

lemma bindP_lift: "bindP (liftP (Inr x)) f w = f x w"
  by (simp add: bindP_def liftP_def)

lemma bindP_fault: "bindP (liftP (Inl e)) f w = Inl e"
  by (simp add: bindP_def liftP_def)

lemma wpP_returned: "m w = Inr (Inr x, w') \<Longrightarrow> wpP m Q R w \<Longrightarrow> Q x w'"
  by (simp add: wpP_def)

end
