(* ===== verification/Imptp_Index.thy ===== *)
theory Imptp_Index
  imports Prelude "HOL-Library.Signed_Division"
begin

text \<open>
  The index arithmetic of the workload \<^verbatim>\<open>com/simpleapi_imptp.c\<close>: every job walks through the powers of a
  primitive root modulo a prime, so that the jobs together visit every index once, in an order that looks
  random.  The walk is in \<^verbatim>\<open>int\<close>s and \<^verbatim>\<open>unsigned long long\<close>s, which the model keeps at their widths.
\<close>

section \<open>The code\<close>

definition MAXCHILDREN :: int where
  "MAXCHILDREN = 32"

text \<open>Division and remainder of \<^verbatim>\<open>int\<close>s, which truncate towards zero.\<close>

definition c_div :: "int \<Rightarrow> int \<Rightarrow> c_fault + int" where
  "c_div a b = (if b = 0 then Inl Div_by_zero else int_of (a sdiv b))"

definition c_rem :: "int \<Rightarrow> int \<Rightarrow> c_fault + int" where
  "c_rem a b = bindE (c_div a b) (\<lambda>q. Inr (a smod b))"

text \<open>\<^verbatim>\<open>for (nroot = 1, i = 1; i <= jobcnt; i++) nroot = (nroot * root) % prime;\<close> with the turns that are left.\<close>

fun nroot_loop :: "int \<Rightarrow> int \<Rightarrow> nat \<Rightarrow> int \<Rightarrow> c_fault + int" where
  "nroot_loop root prime 0 nroot = Inr nroot"
| "nroot_loop root prime (Suc n) nroot =
     bindE (int_of (nroot * root)) (\<lambda>x. bindE (c_rem x prime) (\<lambda>nroot. nroot_loop root prime n nroot))"

definition calc_nroot :: "int \<Rightarrow> int \<Rightarrow> int \<Rightarrow> c_fault + int" where
  "calc_nroot root prime jobcnt = nroot_loop root prime (nat jobcnt) 1"

text \<open>\<^verbatim>\<open>I = ((unsigned long long)I * r) % prime;\<close> converts all three operands, and the result back to \<^verbatim>\<open>int\<close>.\<close>

definition index_step :: "int \<Rightarrow> int \<Rightarrow> int \<Rightarrow> c_fault + int" where
  "index_step prime r I =
     (if (word_of_int prime :: 64 word) = 0 then Inl Div_by_zero
      else Inr (sint (ucast ((word_of_int I * word_of_int r :: 64 word) mod word_of_int prime) :: 32 word)))"

fun index_loop :: "int \<Rightarrow> int \<Rightarrow> nat \<Rightarrow> int \<Rightarrow> c_fault + int" where
  "index_loop prime r 0 I = Inr I"
| "index_loop prime r (Suc n) I = bindE (index_step prime r I) (\<lambda>I. index_loop prime r n I)"

definition start_index :: "int \<Rightarrow> int \<Rightarrow> int \<Rightarrow> int \<Rightarrow> int \<Rightarrow> c_fault + int" where
  "start_index root prime nroot jobno lasti =
     bindE (index_loop prime root (nat (jobno - 1)) 1) (\<lambda>I. index_loop prime nroot (nat lasti) I)"

section \<open>The walk\<close>

text \<open>The index of a job in a turn of its loop, as a power of the root.\<close>

definition job_index :: "int \<Rightarrow> int \<Rightarrow> int \<Rightarrow> int \<Rightarrow> int \<Rightarrow> int" where
  "job_index root prime jobcnt jobno loop = root ^ nat (jobcnt * (loop - 1) + (jobno - 1)) mod prime"

lemma c_rem_pos:
  assumes "0 \<le> a" "a < 2 ^ 31" "0 < b"
  shows "c_rem a b = Inr (a mod b)"
proof -
  have "a sdiv b = a div b" "a smod b = a mod b"
    using assms by (simp_all add: signed_divide_int_def signed_modulo_int_def sgn_if)
  moreover have "0 \<le> a div b" using assms by (simp add: pos_imp_zdiv_nonneg_iff)
  moreover have "a div b \<le> a" using zdiv_mono2 [of a 1 b] assms by simp
  ultimately show ?thesis using assms by (simp add: c_rem_def c_div_def int_of_def)
qed

lemma nroot_loop_power:
  assumes "1 < prime" "0 \<le> root" "prime * root \<le> 2 ^ 31" "0 \<le> x" "x < prime"
  shows "nroot_loop root prime n x = Inr (x * root ^ n mod prime)"
  using assms(4,5)
proof (induction n arbitrary: x)
  case (Suc n)
  have "x * root \<le> (prime - 1) * root" using Suc.prems assms(2) by (simp add: mult_right_mono)
  then have "root \<noteq> 0 \<Longrightarrow> x * root < 2 ^ 31" using assms(2,3) by (simp add: left_diff_distrib)
  then have lt: "x * root < 2 ^ 31" by (cases "root = 0") simp_all
  have "0 \<le> x * root" using Suc.prems assms(2) by simp
  then have "nroot_loop root prime (Suc n) x = nroot_loop root prime n (x * root mod prime)"
    using c_rem_pos [of "x * root" prime] lt assms(1) by (simp add: int_of_def)
  also have "\<dots> = Inr (x * root mod prime * root ^ n mod prime)" using Suc.IH assms(1) by simp
  finally show ?case by (simp add: mod_mult_left_eq mult.assoc)
qed simp

lemma index_step_mod:
  assumes "0 \<le> I" "I < 2 ^ 31" "0 \<le> r" "r < 2 ^ 31" "0 < prime" "prime < 2 ^ 31"
  shows "index_step prime r I = Inr (I * r mod prime)"
proof -
  have "I * r < 2 ^ 31 * 2 ^ 31" using assms by (intro mult_strict_mono') auto
  then have uir: "uint (word_of_int I * word_of_int r :: 64 word) = I * r"
    using assms by (simp add: uint_word_ariths uint_word_of_int mod_mult_eq take_bit_eq_mod)
  have up: "uint (word_of_int prime :: 64 word) = prime" using assms by (simp add: uint_word_of_int)
  let ?m = "(word_of_int I * word_of_int r :: 64 word) mod word_of_int prime"
  have um: "uint ?m = I * r mod prime" using uir up by (simp add: uint_mod)
  have b: "0 \<le> I * r mod prime" "I * r mod prime < 2 ^ 31"
    using assms pos_mod_bound [of prime "I * r"] by (auto simp del: pos_mod_bound)
  have "uint (ucast ?m :: 32 word) = I * r mod prime"
    using b by (simp add: unsigned_ucast_eq take_bit_eq_mod um)
  then have "sint (ucast ?m :: 32 word) = I * r mod prime"
    using b by (simp add: sint_uint signed_take_bit_int_eq_self)
  moreover have "(word_of_int prime :: 64 word) \<noteq> 0" using up assms(5) by auto
  ultimately show ?thesis by (simp add: index_step_def)
qed

lemma index_loop_power:
  assumes "0 < prime" "prime < 2 ^ 31" "0 \<le> r" "r < 2 ^ 31" "0 \<le> x" "x < prime"
  shows "index_loop prime r n x = Inr (x * r ^ n mod prime)"
  using assms(5,6)
proof (induction n arbitrary: x)
  case (Suc n)
  have "index_loop prime r (Suc n) x = index_loop prime r n (x * r mod prime)"
    using index_step_mod [of x r prime] Suc.prems assms by simp
  also have "\<dots> = Inr (x * r mod prime * r ^ n mod prime)" using Suc.IH assms(1) by simp
  finally show ?case by (simp add: mod_mult_left_eq mult.assoc)
qed simp

lemma job_index_start:
  assumes "1 < prime" "prime < 2 ^ 31" "0 \<le> root" "prime * root \<le> 2 ^ 31" "0 \<le> jobcnt" "1 \<le> jobno" "0 \<le> lasti"
  shows "start_index root prime (root ^ nat jobcnt mod prime) jobno lasti = Inr (job_index root prime jobcnt jobno (lasti + 1))"
proof -
  let ?r = "root ^ nat jobcnt mod prime"
  have "2 * root \<le> prime * root" using assms(1,3) by (intro mult_right_mono) auto
  then have root: "root < 2 ^ 31" using assms(4) by simp
  have r: "0 \<le> ?r" "?r < 2 ^ 31"
    using assms(1,2) pos_mod_bound [of prime "root ^ nat jobcnt"] by (auto simp del: pos_mod_bound)
  let ?x = "root ^ nat (jobno - 1) mod prime"
  have x: "0 \<le> ?x" "?x < prime" using assms(1) by simp_all
  have "nat (jobcnt * lasti + (jobno - 1)) = nat (jobno - 1) + nat jobcnt * nat lasti"
    using assms(5-7) by (simp add: nat_add_distrib nat_mult_distrib)
  then have "?x * ?r ^ nat lasti mod prime = job_index root prime jobcnt jobno (lasti + 1)"
    by (simp add: job_index_def power_add power_mult) (simp add: mod_mult_left_eq mod_mult_right_eq power_mod
        flip: mod_mult_right_eq [of _ "(_ mod _) ^ _"])
  then show ?thesis
    using index_loop_power [of prime root 1 "nat (jobno - 1)"] index_loop_power [of prime ?r ?x "nat lasti"] assms root r x
    by (simp add: start_index_def)
qed

lemma job_index_step:
  assumes "1 < prime" "prime < 2 ^ 31" "0 \<le> jobcnt" "1 \<le> jobno" "1 \<le> loop"
  shows "index_step prime (root ^ nat jobcnt mod prime) (job_index root prime jobcnt jobno loop) =
         Inr (job_index root prime jobcnt jobno (loop + 1))"
proof -
  have b: "0 \<le> y mod prime \<and> y mod prime < 2 ^ 31" for y
    using assms(1,2) pos_mod_bound [of prime y] by (auto simp del: pos_mod_bound)
  have "jobcnt * loop + (jobno - 1) = (jobcnt * (loop - 1) + (jobno - 1)) + jobcnt" by (simp add: algebra_simps)
  then have "nat (jobcnt * loop + (jobno - 1)) = nat (jobcnt * (loop - 1) + (jobno - 1)) + nat jobcnt"
    using assms(3-5) by (metis add_nonneg_nonneg diff_ge_0_iff_ge mult_nonneg_nonneg nat_add_distrib)
  then show ?thesis
    using assms b by (simp add: index_step_mod job_index_def power_add mod_mult_eq)
qed

section \<open>The order of the root\<close>

text \<open>
  An element whose power with exponent \<open>N\<close> is 1 and whose powers with exponents \<open>N div q\<close>, for every prime
  factor \<open>q\<close> of \<open>N\<close>, are not, has order \<open>N\<close>: its first \<open>N\<close> powers are different.
\<close>

lemma power_gcd_one:
  fixes p :: int
  assumes "1 < p" "w ^ a mod p = 1" "w ^ b mod p = 1"
  shows "w ^ gcd a b mod p = 1"
  using assms(2,3)
proof (induction a b rule: gcd_nat_induct)
  case (step m n)
  have "w ^ m = (w ^ n) ^ (m div n) * w ^ (m mod n)" by (simp flip: power_mult power_add)
  then have "w ^ m mod p = (w ^ n mod p) ^ (m div n) * w ^ (m mod n) mod p"
    by (simp add: mod_mult_left_eq power_mod flip: mod_mult_left_eq [of "(_ mod _) ^ _"])
  then have "w ^ (m mod n) mod p = 1" using step.prems assms(1) by simp
  then show ?case using step by (simp add: gcd_non_0_nat)
qed (use assms(1) in simp)

lemma order_full:
  fixes p :: int
  assumes "1 < p" "w ^ N mod p = 1" "\<forall>q \<in> Q. w ^ (N div q) mod p \<noteq> 1"
    and "\<And>m. m dvd N \<Longrightarrow> m \<noteq> 1 \<Longrightarrow> \<exists>q \<in> Q. q dvd m" "0 < k" "k < N"
  shows "w ^ k mod p \<noteq> 1"
proof
  assume "w ^ k mod p = 1"
  then have g: "w ^ gcd k N mod p = 1" using power_gcd_one assms(1,2) by blast
  obtain m where m: "N = gcd k N * m" by (meson dvdE gcd_dvd2)
  have "gcd k N \<le> k" using assms(5) by (simp add: gcd_le1_nat)
  then have "m \<noteq> 1" using m assms(6) by auto
  moreover have "m dvd N" using m by (metis dvd_triv_right)
  ultimately obtain q where q: "q \<in> Q" "q dvd m" using assms(4) by blast
  then obtain m' where m': "m = q * m'" by (elim dvdE)
  have "q \<noteq> 0" using m m' assms(6) by (cases q) auto
  then have "N div q = gcd k N * m'" using m m' by (metis mult.left_commute nonzero_mult_div_cancel_left)
  then have "w ^ (N div q) mod p = (w ^ gcd k N mod p) ^ m' mod p" by (simp add: power_mult power_mod)
  then show False using g assms(1,3) q(1) by simp
qed

lemma powers_distinct:
  fixes p :: int
  assumes "1 < p" "w ^ N mod p = 1" "\<And>k. 0 < k \<Longrightarrow> k < N \<Longrightarrow> w ^ k mod p \<noteq> 1" "w ^ a mod p = w ^ b mod p" "a < N" "b < N"
  shows "a = b"
proof -
  have "False" if "w ^ a mod p = w ^ b mod p" "a < b" "b < N" for a b
  proof -
    have "w ^ (b - a) * w ^ N mod p = w ^ b * w ^ (N - a) mod p"
      using that by (simp flip: power_add add: add.commute)
    also have "\<dots> = w ^ a * w ^ (N - a) mod p" using that(1) by (metis mod_mult_left_eq)
    also have "\<dots> = 1" using that assms(2) by (simp flip: power_add)
    finally have "w ^ (b - a) mod p = 1" using assms(2) by (metis mod_mult_right_eq mult.right_neutral)
    then show False using assms(3) [of "b - a"] that by simp
  qed
  then show ?thesis using assms(4-6) by (metis nat_neq_iff)
qed

lemma coprime_by_trial:
  fixes q :: nat
  assumes "1 < q" "\<forall>k \<in> set [2..int q - 1]. int q mod k \<noteq> 0" "\<not> q dvd m"
  shows "coprime m q"
proof (rule ccontr)
  assume "\<not> coprime m q"
  then have g: "gcd m q \<noteq> 1" by (simp add: coprime_iff_gcd_eq_1)
  have "gcd m q dvd q" by simp
  moreover have "gcd m q \<noteq> q" using assms(3) by (metis gcd_dvd1)
  moreover have "gcd m q \<noteq> 0" using assms(1) by simp
  moreover have "gcd m q \<le> q" using assms(1) by (intro gcd_le2_nat) simp
  ultimately have "2 \<le> gcd m q" "gcd m q < q" using g by linarith+
  then have "int (gcd m q) \<in> set [2..int q - 1]" unfolding set_upto by simp
  with assms(2) have "int q mod int (gcd m q) \<noteq> 0" by (rule bspec)
  then show False using \<open>gcd m q dvd q\<close> by (metis mod_eq_0_iff_dvd of_nat_dvd_iff)
qed

definition small_factors :: "nat set" where
  "small_factors = {2, 3, 11, 281, 337}"

lemma trial_division:
  "\<forall>k \<in> set [2..int 2 - 1]. int 2 mod k \<noteq> 0" "\<forall>k \<in> set [2..int 3 - 1]. int 3 mod k \<noteq> 0"
  "\<forall>k \<in> set [2..int 11 - 1]. int 11 mod k \<noteq> 0" "\<forall>k \<in> set [2..int 281 - 1]. int 281 mod k \<noteq> 0"
  "\<forall>k \<in> set [2..int 337 - 1]. int 337 mod k \<noteq> 0"
  unfolding of_nat_numeral by code_simp+

lemma factor_of_order:
  assumes "m dvd (50000016 :: nat)" "m \<noteq> 1"
  shows "\<exists>q \<in> small_factors. q dvd m"
proof (rule ccontr)
  assume "\<not> ?thesis"
  then have no: "\<not> 2 dvd m" "\<not> 3 dvd m" "\<not> 11 dvd m" "\<not> 281 dvd m" "\<not> 337 dvd m" by (simp_all add: small_factors_def)
  have "coprime m 2" "coprime m 3" "coprime m 11" "coprime m 281" "coprime m 337"
    by (rule coprime_by_trial [OF _ trial_division(1) no(1)] coprime_by_trial [OF _ trial_division(2) no(2)]
        coprime_by_trial [OF _ trial_division(3) no(3)] coprime_by_trial [OF _ trial_division(4) no(4)]
        coprime_by_trial [OF _ trial_division(5) no(5)], simp)+
  then have "coprime m (2 ^ 4 * 3 * 11 * 281 * 337)"
    by (simp only: coprime_mult_right_iff coprime_power_right_iff) simp
  moreover have "(2 :: nat) ^ 4 * 3 * 11 * 281 * 337 = 50000016" by simp
  ultimately show False using assms coprime_common_divisor [of m 50000016 m] by simp
qed

text \<open>Powers by repeated squaring; the exponent is the list of its binary digits, the lowest first.\<close>

primrec of_bits :: "bool list \<Rightarrow> nat" where
  "of_bits [] = 0"
| "of_bits (b # bs) = (if b then 1 else 0) + 2 * of_bits bs"

primrec pow_bits :: "int \<Rightarrow> bool list \<Rightarrow> int \<Rightarrow> int" where
  "pow_bits p [] w = 1 mod p"
| "pow_bits p (b # bs) w = (if b then w else 1) * pow_bits p bs (w * w mod p) mod p"

lemma pow_bits_power: "pow_bits p bs w = w ^ of_bits bs mod p"
proof (induction bs arbitrary: w)
  case (Cons b bs)
  have "(w * w mod p) ^ of_bits bs mod p = w ^ (2 * of_bits bs) mod p"
    by (simp add: power_mod power_mult power2_eq_square)
  then have "pow_bits p (b # bs) w = (if b then w else 1) * w ^ (2 * of_bits bs) mod p"
    by (simp add: Cons mod_mult_right_eq)
  then show ?case by (simp add: power_add)
qed simp

lemma power_mod_bits: "of_bits bs = n \<Longrightarrow> w ^ n mod p = pow_bits p bs w"
  by (simp add: pow_bits_power)

lemma order_power: "(5 :: int) ^ 50000016 mod 50000017 = 1"
  by (subst power_mod_bits [of "[False, False, False, False, True, False, False, True, False, False, False, False, True, True, True, True, False, True, False, True, True, True, True, True, False, True]"]) simp_all

lemma factor_power_25000008: "(5 :: int) ^ 25000008 mod 50000017 \<noteq> 1"
  by (subst power_mod_bits [of "[False, False, False, True, False, False, True, False, False, False, False, True, True, True, True, False, True, False, True, True, True, True, True, False, True]"]) simp_all

lemma factor_power_16666672: "(5 :: int) ^ 16666672 mod 50000017 \<noteq> 1"
  by (subst power_mod_bits [of "[False, False, False, False, True, True, False, False, False, False, False, False, True, False, True, False, False, True, True, True, True, True, True, True]"]) simp_all

lemma factor_power_4545456: "(5 :: int) ^ 4545456 mod 50000017 \<noteq> 1"
  by (subst power_mod_bits [of "[False, False, False, False, True, True, False, True, True, True, False, True, True, False, True, False, True, False, True, False, False, False, True]"]) simp_all

lemma factor_power_177936: "(5 :: int) ^ 177936 mod 50000017 \<noteq> 1"
  by (subst power_mod_bits [of "[False, False, False, False, True, False, False, False, True, True, True, False, True, True, False, True, False, True]"]) simp_all

lemma factor_power_148368: "(5 :: int) ^ 148368 mod 50000017 \<noteq> 1"
  by (subst power_mod_bits [of "[False, False, False, False, True, False, False, True, True, True, False, False, False, False, True, False, False, True]"]) simp_all

lemmas factor_powers = factor_power_25000008 factor_power_16666672 factor_power_4545456 factor_power_177936 factor_power_148368

lemma root_order: "0 < k \<Longrightarrow> k < 50000016 \<Longrightarrow> (5 :: int) ^ k mod 50000017 \<noteq> 1"
proof (rule order_full [of _ _ 50000016 small_factors])
  show "\<forall>q \<in> small_factors. (5 :: int) ^ (50000016 div q) mod 50000017 \<noteq> 1"
  proof
    fix q assume "q \<in> small_factors"
    then have "50000016 div q \<in> {25000008, 16666672, 4545456, 177936, 148368}" by (auto simp: small_factors_def)
    then show "(5 :: int) ^ (50000016 div q) mod 50000017 \<noteq> 1"
      by (elim insertE emptyE) (simp_all only: factor_powers not_False_eq_True)
  qed
qed (rule order_power | erule (1) factor_of_order | assumption | simp)+

text \<open>The exponents of all turns are below the order, because no number of jobs divides the prime.\<close>

lemma jobs_not_divisor:
  assumes "2 \<le> jobcnt" "jobcnt \<le> MAXCHILDREN"
  shows "(50000017 :: int) mod jobcnt \<noteq> 0"
proof -
  have "\<forall>k \<in> set [2..32]. (50000017 :: int) mod k \<noteq> 0" by code_simp
  moreover have "jobcnt \<in> set [2..32]" using assms unfolding set_upto atLeastAtMost_iff MAXCHILDREN_def by simp
  ultimately show ?thesis by (rule bspec)
qed

lemma job_exponent:
  assumes "2 \<le> jobcnt" "jobcnt \<le> MAXCHILDREN" "1 \<le> jobno" "jobno \<le> jobcnt" "1 \<le> loop" "loop \<le> 50000017 div jobcnt"
  shows "0 \<le> jobcnt * (loop - 1) + (jobno - 1)" "nat (jobcnt * (loop - 1) + (jobno - 1)) < 50000016"
proof -
  have "jobcnt * loop \<le> jobcnt * (50000017 div jobcnt)" using assms(1,6) by (intro mult_left_mono) auto
  also have "\<dots> < 50000017"
    using jobs_not_divisor [OF assms(1,2)] assms(1) pos_mod_sign [of jobcnt 50000017]
      mult_div_mod_eq [of jobcnt 50000017] by linarith
  finally have "jobcnt * loop < 50000017" .
  then show "nat (jobcnt * (loop - 1) + (jobno - 1)) < 50000016" using assms(3,4) by (simp add: algebra_simps)
  show "0 \<le> jobcnt * (loop - 1) + (jobno - 1)" using assms(1,3,5) by simp
qed

lemma exponent_inject:
  fixes jobcnt :: int
  assumes "1 \<le> jobno" "jobno \<le> jobcnt" "1 \<le> jobno'" "jobno' \<le> jobcnt"
    and "jobcnt * (loop - 1) + (jobno - 1) = jobcnt * (loop' - 1) + (jobno' - 1)"
  shows "jobno = jobno' \<and> loop = loop'"
proof -
  have dm: "(jobcnt * (l - 1) + (j - 1)) div jobcnt = l - 1 \<and> (jobcnt * (l - 1) + (j - 1)) mod jobcnt = j - 1"
    if "1 \<le> j" "j \<le> jobcnt" for j l
  proof -
    have "(j - 1 + jobcnt * (l - 1)) div jobcnt = l - 1 + (j - 1) div jobcnt" using that by (intro div_mult_self2) simp
    moreover have "(j - 1 + jobcnt * (l - 1)) mod jobcnt = (j - 1) mod jobcnt" by (rule mod_mult_self2)
    moreover have "(j - 1) div jobcnt = 0" "(j - 1) mod jobcnt = j - 1" using that by (simp_all add: div_pos_pos_trivial mod_pos_pos_trivial)
    ultimately show ?thesis by (metis add.commute add.right_neutral)
  qed
  have "loop - 1 = loop' - 1" "jobno - 1 = jobno' - 1"
    using dm [OF assms(1,2), of loop] dm [OF assms(3,4), of loop'] unfolding assms(5) by (metis, metis)
  then show ?thesis by simp
qed

lemma root_power_positive:
  assumes "k < 50000016"
  shows "0 < (5 :: int) ^ k mod 50000017"
proof (rule ccontr)
  assume "\<not> ?thesis"
  moreover have "0 \<le> (5 :: int) ^ k mod 50000017" by simp
  ultimately have "(5 :: int) ^ k mod 50000017 = 0" by linarith
  then have "5 ^ k * 5 ^ (50000016 - k) mod (50000017 :: int) = 0" by (metis mod_mult_left_eq mod_0 mult_zero_left)
  moreover have "(5 :: int) ^ k * 5 ^ (50000016 - k) = 5 ^ (k + (50000016 - k))" by (rule power_add [symmetric])
  moreover have "k + (50000016 - k) = 50000016" using assms by simp
  ultimately show False using order_power by (metis zero_neq_one)
qed

section \<open>Properties\<close>

text \<open>A job continues where it stopped: the index that a job computes for its first turn, from the number of
  turns it did before, is the index that the turns themselves lead to, and every turn leads to the next.  The
  products stay within \<^verbatim>\<open>int\<close> and \<^verbatim>\<open>unsigned long long\<close>.\<close>

theorem imptp_resumes:
  assumes "1 < prime" "prime < 2 ^ 31" "0 \<le> root" "prime * root \<le> 2 ^ 31" "0 \<le> jobcnt" "1 \<le> jobno" "0 \<le> lasti"
  shows "\<exists>nroot. calc_nroot root prime jobcnt = Inr nroot \<and>
           start_index root prime nroot jobno lasti = Inr (job_index root prime jobcnt jobno (lasti + 1)) \<and>
           index_step prime nroot (job_index root prime jobcnt jobno (lasti + 1)) = start_index root prime nroot jobno (lasti + 1)"
proof -
  have "calc_nroot root prime jobcnt = Inr (root ^ nat jobcnt mod prime)"
    using nroot_loop_power [of prime root 1] assms by (simp add: calc_nroot_def)
  moreover note job_index_start [OF assms] job_index_start [OF assms(1-6), of "lasti + 1"]
    job_index_step [OF assms(1,2,5,6), of "lasti + 1" root]
  ultimately show ?thesis using assms(7) by (simp add: add.commute add.left_commute)
qed

theorem imptp_resumes_witness:
  "\<exists>nroot. calc_nroot 5 50000017 5 = Inr nroot \<and>
     start_index 5 50000017 nroot 2 1000 = Inr (job_index 5 50000017 5 2 1001) \<and>
     index_step 50000017 nroot (job_index 5 50000017 5 2 1001) = start_index 5 50000017 nroot 2 1001"
  using imptp_resumes [of 50000017 5 5 2 1000] by simp

lemma job_index_distinct:
  assumes "2 \<le> jobcnt" "jobcnt \<le> MAXCHILDREN"
    and "1 \<le> jobno" "jobno \<le> jobcnt" "1 \<le> loop" "loop \<le> 50000017 div jobcnt"
    and "1 \<le> jobno'" "jobno' \<le> jobcnt" "1 \<le> loop'" "loop' \<le> 50000017 div jobcnt"
    and "(jobno, loop) \<noteq> (jobno', loop')"
  shows "job_index 5 50000017 jobcnt jobno loop \<noteq> job_index 5 50000017 jobcnt jobno' loop'"
proof
  assume same: "job_index 5 50000017 jobcnt jobno loop = job_index 5 50000017 jobcnt jobno' loop'"
  let ?e = "jobcnt * (loop - 1) + (jobno - 1)" and ?e' = "jobcnt * (loop' - 1) + (jobno' - 1)"
  note e = job_exponent [OF assms(1-6)] and e' = job_exponent [OF assms(1,2,7-10)]
  have "nat ?e = nat ?e'"
  proof (rule powers_distinct [OF _ order_power _ same [unfolded job_index_def] e(2) e'(2)])
    show "(1 :: int) < 50000017" by simp
  qed (rule root_order)
  then have "?e = ?e'" using e(1) e'(1) by simp
  then have "jobno = jobno' \<and> loop = loop'" by (rule exponent_inject [OF assms(3,4,7,8)])
  with assms(11) show False by simp
qed

lemma job_index_bounds:
  assumes "2 \<le> jobcnt" "jobcnt \<le> MAXCHILDREN" "1 \<le> jobno" "jobno \<le> jobcnt" "1 \<le> loop" "loop \<le> 50000017 div jobcnt"
  shows "0 < job_index 5 50000017 jobcnt jobno loop \<and> job_index 5 50000017 jobcnt jobno loop < 50000017"
  unfolding job_index_def using root_power_positive [OF job_exponent(2) [OF assms]] by (intro conjI) simp_all

lemma imptp_start:
  assumes "0 \<le> jobcnt" "1 \<le> jobno" "1 \<le> loop" "calc_nroot 5 50000017 jobcnt = Inr nroot"
  shows "start_index 5 50000017 nroot jobno (loop - 1) = Inr (job_index 5 50000017 jobcnt jobno loop)"
proof -
  have "nroot = 5 ^ nat jobcnt mod 50000017"
    using assms(4) nroot_loop_power [of 50000017 5 1 "nat jobcnt"] by (simp add: calc_nroot_def)
  then show ?thesis using job_index_start [of 50000017 5 jobcnt jobno "loop - 1"] assms by simp
qed

text \<open>C34. The jobs do not get into each other's way: with the prime and the root that the workload sets and two
  or more jobs, as many as the table of children holds, all turns of all jobs up to the last have different indices, between 1 and the prime.\<close>

theorem imptp_indices_distinct:
  assumes "2 \<le> jobcnt" "jobcnt \<le> MAXCHILDREN" "calc_nroot 5 50000017 jobcnt = Inr nroot"
    and "1 \<le> jobno" "jobno \<le> jobcnt" "1 \<le> loop" "loop \<le> 50000017 div jobcnt"
    and "1 \<le> jobno'" "jobno' \<le> jobcnt" "1 \<le> loop'" "loop' \<le> 50000017 div jobcnt"
    and "(jobno, loop) \<noteq> (jobno', loop')"
  shows "\<exists>I I'. start_index 5 50000017 nroot jobno (loop - 1) = Inr I \<and>
           start_index 5 50000017 nroot jobno' (loop' - 1) = Inr I' \<and> I \<noteq> I' \<and> 0 < I \<and> I < 50000017"
  using imptp_start [of jobcnt jobno loop nroot] imptp_start [of jobcnt jobno' loop' nroot] assms
    job_index_distinct [OF assms(1,2,4-12)] job_index_bounds [OF assms(1,2,4-7)]
  by simp

theorem imptp_indices_distinct_witness:
  "\<exists>I I'. start_index 5 50000017 3125 3 9 = Inr I \<and> start_index 5 50000017 3125 2 10 = Inr I' \<and> I \<noteq> I' \<and> 0 < I \<and> I < 50000017"
proof -
  have "calc_nroot 5 50000017 5 = Inr 3125"
    using nroot_loop_power [of 50000017 5 1 5] by (simp add: calc_nroot_def)
  from imptp_indices_distinct [OF _ _ this, of 3 10 2 11] show ?thesis by (simp add: MAXCHILDREN_def)
qed

text \<open>One job alone does not stop in time: with one job the number of turns is the prime itself, one more
  than there are indices, and the last turn has the index of the first again.\<close>

theorem imptp_single_job_repeats:
  "calc_nroot 5 50000017 1 = Inr 5 \<and> c_div 50000017 1 = Inr 50000017 \<and>
   start_index 5 50000017 5 1 (50000017 - 1) = start_index 5 50000017 5 1 (1 - 1)"
proof -
  have root: "calc_nroot 5 50000017 1 = Inr 5"
    using nroot_loop_power [of 50000017 5 1 1] by (simp add: calc_nroot_def)
  have "nat (1 * (50000017 - 1) + (1 - 1)) = 50000016" by simp
  then have "job_index 5 50000017 1 1 50000017 = 1" by (simp only: job_index_def order_power)
  moreover have "job_index 5 50000017 1 1 1 = 1" by (simp add: job_index_def)
  moreover have "c_div 50000017 1 = Inr 50000017" by (simp add: c_div_def int_of_def signed_divide_int_def)
  moreover note imptp_start [OF _ _ _ root, of 1 50000017] imptp_start [OF _ _ _ root, of 1 1]
  ultimately show ?thesis using root by (simp only: order.refl zero_le_one one_le_numeral conj_imp_eq_imp_imp simp_thms)
qed

end
