(* ===== verification/Imptp.thy ===== *)
theory Imptp
  imports Prog Imptp_Index
begin

text \<open>
  The database workload \<^verbatim>\<open>com/simpleapi_imptp.c\<close> and its twin \<^verbatim>\<open>com/simplethreadapi_imptp.c\<close>: a parent that
  writes the parameters of a run into the database and starts the jobs, and the jobs, each of which reads
  the parameters and fills globals under the indices of \<open>Imptp_Index\<close>, in transactions or outside.

  The two files are the same but for the entry points of the database and for one status: the threaded
  program also looks for \<^verbatim>\<open>YDB_ERR_CALLINAFTERXIT\<close>, on which it leaves.  The definitions take this
  difference as the argument \<open>th\<close>.  Files, output and waiting are left out.
\<close>

section \<open>The environment\<close>

text \<open>
  What the program calls: the database, call-ins to the M routines of \<^verbatim>\<open>com/imptpxc.m\<close>, random numbers
  (\<open>im_drand48 env n\<close> is \<^verbatim>\<open>(int)(n * drand48())\<close>), the environment variables, \<^verbatim>\<open>fork\<close>,
  \<^verbatim>\<open>sleep(1)\<close>, during which the other processes run.
  \<open>ydb_get_isv\<close> is \<^verbatim>\<open>ydb_get_s\<close> at the name of an intrinsic special variable, which is not a node.
\<close>

record 'w imptp_env =
  im_api :: "'w ydb_api"
  err_gvundef :: int
  err_callinafterxit :: int
  err_jnlextend :: int
  err_jnlswitchfail :: int
  ydb_ci :: "string \<Rightarrow> 'w \<Rightarrow> int \<times> 'w"
  ydb_cip :: "string \<Rightarrow> 'w \<Rightarrow> int \<times> 'w"
  ydb_get_isv :: "string \<Rightarrow> nat \<Rightarrow> 'w \<Rightarrow> int \<times> string"
  ydb_data_s :: "string \<Rightarrow> string list \<Rightarrow> 'w \<Rightarrow> int \<times> int"
  ydb_incr_s :: "string \<Rightarrow> string list \<Rightarrow> 'w \<Rightarrow> int \<times> 'w"
  ydb_lock_incr_s :: "string \<Rightarrow> string list \<Rightarrow> 'w \<Rightarrow> int \<times> 'w"
  ydb_lock_decr_s :: "string \<Rightarrow> string list \<Rightarrow> 'w \<Rightarrow> int \<times> 'w"
  ydb_child_init :: "'w \<Rightarrow> int \<times> 'w"
  im_drand48 :: "int \<Rightarrow> 'w \<Rightarrow> int \<times> 'w"
  im_fork :: "'w \<Rightarrow> int \<times> 'w"
  im_sleep :: "'w \<Rightarrow> int \<times> 'w"
  im_getenv :: "string \<Rightarrow> string option"

definition MAXVALUELEN :: nat where
  "MAXVALUELEN = 256"

definition BIGMAXVALUELEN :: nat where
  "BIGMAXVALUELEN = MAXVALUELEN * 6"

abbreviation im_ok :: "'w imptp_env \<Rightarrow> int" where
  "im_ok env \<equiv> ydb_ok (im_api env)"

abbreviation im_restart :: "'w imptp_env \<Rightarrow> int" where
  "im_restart env \<equiv> ydb_tp_restart (im_api env)"

definition getenv_int :: "'w imptp_env \<Rightarrow> string \<Rightarrow> int" where
  "getenv_int env name = (case im_getenv env name of None \<Rightarrow> 0 | Some s \<Rightarrow> atoi s)"

text \<open>\<^verbatim>\<open>value.buf_addr[value.len_used] = 0; atoi(value.buf_addr)\<close>, with the buffer of \<^verbatim>\<open>BIGMAXVALUELEN\<close> bytes.\<close>

definition int_of_value :: "string \<Rightarrow> c_fault + int" where
  "int_of_value v = (if length v < BIGMAXVALUELEN then Inr (atoi (takeWhile (\<lambda>c. c \<noteq> CHR 0x00) v)) else Inl Write_oob)"

text \<open>\<^verbatim>\<open>YDB_COPY_BUFF_TO_BUFF\<close> into a buffer of \<open>n\<close> bytes.\<close>

definition copy_buff :: "nat \<Rightarrow> string \<Rightarrow> ('w, unit) prog" where
  "copy_buff n s = assertP (length s \<le> n)"

section \<open>Calls and their statuses\<close>

text \<open>In the parent every status but success fails the assertion.\<close>

definition checkA :: "'w imptp_env \<Rightarrow> int \<Rightarrow> ('w, unit) prog" where
  "checkA env s = assertP (s = im_ok env)"

text \<open>In a job the threaded program first looks for the end of the process.\<close>

definition checkJ :: "bool \<Rightarrow> 'w imptp_env \<Rightarrow> int \<Rightarrow> ('w, unit) prog" where
  "checkJ th env s = (if th \<and> s = err_callinafterxit env then leave (im_ok env) else assertP (s = im_ok env))"

text \<open>In a transaction a restart is passed on; in the threaded program so is the end of the process.\<close>

definition checkT :: "bool \<Rightarrow> 'w imptp_env \<Rightarrow> int \<Rightarrow> ('w, unit) prog" where
  "checkT th env s = (if s = im_restart env \<or> th \<and> s = err_callinafterxit env then leave s else assertP (s = im_ok env))"

definition setA :: "'w imptp_env \<Rightarrow> string \<Rightarrow> string list \<Rightarrow> string \<Rightarrow> ('w, unit) prog" where
  "setA env g ss v = bindP (callP (ydb_set_s (im_api env) g ss v)) (checkA env)"

definition setJ :: "bool \<Rightarrow> 'w imptp_env \<Rightarrow> string \<Rightarrow> string list \<Rightarrow> string \<Rightarrow> ('w, unit) prog" where
  "setJ th env g ss v = bindP (callP (ydb_set_s (im_api env) g ss v)) (checkJ th env)"

definition setT :: "bool \<Rightarrow> 'w imptp_env \<Rightarrow> string \<Rightarrow> string list \<Rightarrow> string \<Rightarrow> ('w, unit) prog" where
  "setT th env g ss v = bindP (callP (ydb_set_s (im_api env) g ss v)) (checkT th env)"

definition cipA :: "'w imptp_env \<Rightarrow> string \<Rightarrow> ('w, unit) prog" where
  "cipA env name = bindP (callP (ydb_cip env name)) (checkA env)"

definition cipJ :: "bool \<Rightarrow> 'w imptp_env \<Rightarrow> string \<Rightarrow> ('w, unit) prog" where
  "cipJ th env name = bindP (callP (ydb_cip env name)) (checkJ th env)"

text \<open>In a transaction neither program looks for the end of the process after a call-in.\<close>

definition cipT :: "'w imptp_env \<Rightarrow> string \<Rightarrow> ('w, unit) prog" where
  "cipT env name = bindP (callP (ydb_cip env name)) (checkT False env)"

definition getA :: "'w imptp_env \<Rightarrow> string \<Rightarrow> string list \<Rightarrow> ('w, string) prog" where
  "getA env g ss = bindP (askP (ydb_get_s (im_api env) g ss BIGMAXVALUELEN)) (\<lambda>(s, v). thenP (checkA env s) (retP v))"

definition get_isv :: "'w imptp_env \<Rightarrow> (int \<Rightarrow> ('w, unit) prog) \<Rightarrow> string \<Rightarrow> ('w, string) prog" where
  "get_isv env check name = bindP (askP (ydb_get_isv env name BIGMAXVALUELEN)) (\<lambda>(s, v). thenP (check s) (retP v))"

definition getJ :: "bool \<Rightarrow> 'w imptp_env \<Rightarrow> string \<Rightarrow> string list \<Rightarrow> ('w, string) prog" where
  "getJ th env g ss = bindP (askP (ydb_get_s (im_api env) g ss BIGMAXVALUELEN)) (\<lambda>(s, v). thenP (checkJ th env s) (retP v))"

definition getI :: "bool \<Rightarrow> 'w imptp_env \<Rightarrow> string \<Rightarrow> string list \<Rightarrow> ('w, int) prog" where
  "getI th env g ss = bindP (getJ th env g ss) (\<lambda>v. liftP (int_of_value v))"

text \<open>An undefined node reads as 0.\<close>

definition getI0 :: "bool \<Rightarrow> 'w imptp_env \<Rightarrow> string \<Rightarrow> string list \<Rightarrow> ('w, int) prog" where
  "getI0 th env g ss = bindP (askP (ydb_get_s (im_api env) g ss BIGMAXVALUELEN)) (\<lambda>(s, v).
     if s = err_gvundef env then retP 0 else thenP (checkJ th env s) (liftP (int_of_value v)))"

section \<open>The parameters\<close>

record job =
  j_jobno :: int
  j_fillid :: int
  j_jobcnt :: int
  j_prime :: int
  j_root :: int
  j_top :: int
  j_istp :: int
  j_tptype :: string
  j_tpnoiso :: int
  j_dupset :: int
  j_skipreg :: int
  j_crash :: int
  j_gtcm :: int
  j_keysize :: int
  j_recsize :: int
  j_span :: int
  j_trigger :: int
  j_ztr :: bool
  j_dztrig :: bool
  j_lfence :: int

definition pct :: "int \<Rightarrow> string \<Rightarrow> string \<times> string list" where
  "pct fillid name = (''^%imptp'', [dec_of_int fillid, name])"

definition param :: "bool \<Rightarrow> 'w imptp_env \<Rightarrow> int \<Rightarrow> string \<Rightarrow> ('w, int) prog" where
  "param th env fillid name = getI th env (fst (pct fillid name)) (snd (pct fillid name))"

text \<open>Reading the number of the job, the parameters of the walk and the number of turns.\<close>

definition impjob_ids :: "bool \<Rightarrow> 'w imptp_env \<Rightarrow> int \<Rightarrow> ('w, int \<times> int \<times> int \<times> int \<times> int) prog" where
  "impjob_ids th env childnum =
     thenP (setJ th env ''jobno'' [] (dec_of_int childnum))
     (bindP (getI th env ''^%imptp'' [''fillid'', dec_of_int (getenv_int env ''gtm_test_jobid'')]) (\<lambda>fillid.
      bindP (param th env fillid ''totaljob'') (\<lambda>jobcnt.
      bindP (param th env fillid ''prime'') (\<lambda>prime.
      bindP (param th env fillid ''root'') (\<lambda>root.
      bindP (getI0 th env (fst (pct fillid ''top'')) (snd (pct fillid ''top''))) (\<lambda>top0.
      bindP (if top0 = 0 then liftP (c_div prime jobcnt) else retP top0) (\<lambda>top.
      retP (fillid, jobcnt, prime, root, top))))))))"

definition impjob_tptype :: "bool \<Rightarrow> 'w imptp_env \<Rightarrow> int \<Rightarrow> ('w, string) prog" where
  "impjob_tptype th env fillid =
     bindP (getJ th env (fst (pct fillid ''tptype'')) (snd (pct fillid ''tptype''))) (\<lambda>v.
     thenP (setJ th env ''tptype'' [] v)
     (thenP (copy_buff MAXVALUELEN v)
     (if length v < MAXVALUELEN then retP v else liftP (Inl Write_oob))))"

text \<open>A parameter that is copied into an M variable.\<close>

definition param_var :: "bool \<Rightarrow> 'w imptp_env \<Rightarrow> int \<Rightarrow> string \<Rightarrow> string \<Rightarrow> ('w, int) prog" where
  "param_var th env fillid name var =
     bindP (param th env fillid name) (\<lambda>x. thenP (setJ th env var [] (dec_of_int x)) (retP x))"

text \<open>The M variables of the trigger tests.\<close>

definition trigger_vars :: "bool \<Rightarrow> 'w imptp_env \<Rightarrow> int \<Rightarrow> ('w, bool \<times> bool) prog" where
  "trigger_vars th env trigger =
     thenP (setJ th env ''ztrcmd'' [] ''ztrigger ^lasti(fillid,jobno,loop)'')
     (thenP (if trigger \<noteq> 0
             then thenP (setJ th env ''trigname'' [] ''triggernameforinsertsanddels'')
                    (setJ th env ''fulltrig'' [] (''^unusedbyothersdummytrigger -commands=S -xecute='' @ [CHR 0x22] @ ''do ^nothing'' @
                       [CHR 0x22] @ '' -name=triggernameforinsertsanddels''))
             else retP ())
     (let ztr = (trigger \<noteq> 0 \<and> trigger smod 10 > 1); dztrig = (trigger \<noteq> 0 \<and> trigger > 10)
      in thenP (setJ th env ''dztrig'' [] (dec_of_int (if dztrig then 1 else 0))) (retP (ztr, dztrig))))"

text \<open>Counting the job as ready, under a lock that the increment would not need.\<close>

definition impjob_sync :: "bool \<Rightarrow> 'w imptp_env \<Rightarrow> int \<Rightarrow> ('w, unit) prog" where
  "impjob_sync th env fillid =
     (let (g, ss) = pct fillid ''jsyncnt'' in
      thenP (bindP (callP (ydb_lock_incr_s env g ss)) (checkJ th env))
      (thenP (callP (im_drand48 env 2))
      (thenP (bindP (callP (ydb_incr_s env g ss)) (checkJ th env))
      (bindP (callP (ydb_lock_decr_s env g ss)) (checkJ th env)))))"

definition calc_lfence :: "int \<Rightarrow> int \<Rightarrow> int \<Rightarrow> int" where
  "calc_lfence istp crash gtcm = (if gtcm \<noteq> 0 then 0 else if istp = 0 \<and> crash \<noteq> 0 then 1 else istp)"

definition impjob_params :: "bool \<Rightarrow> 'w imptp_env \<Rightarrow> int \<Rightarrow> ('w, job) prog" where
  "impjob_params th env childnum =
     bindP (impjob_ids th env childnum) (\<lambda>(fillid, jobcnt, prime, root, top).
     bindP (param th env fillid ''istp'') (\<lambda>istp.
     bindP (impjob_tptype th env fillid) (\<lambda>tptype.
     bindP (param th env fillid ''tpnoiso'') (\<lambda>tpnoiso.
     bindP (param th env fillid ''dupset'') (\<lambda>dupset.
     bindP (param th env fillid ''skipreg'') (\<lambda>skipreg.
     bindP (param_var th env fillid ''crash'' ''crash'') (\<lambda>crash.
     bindP (param th env fillid ''gtcm'') (\<lambda>gtcm.
     thenP (setJ th env ''orlbkintp'' [] ''0'')
     (bindP (param_var th env fillid ''key_size'' ''keysize'') (\<lambda>keysize.
     bindP (param_var th env fillid ''record_size'' ''recsize'') (\<lambda>recsize.
     bindP (param_var th env fillid ''gtm_test_spannode'' ''span'') (\<lambda>span.
     bindP (param_var th env fillid ''trigger'' ''trigger'') (\<lambda>trigger.
     bindP (trigger_vars th env trigger) (\<lambda>(ztr, dztrig).
     thenP (impjob_sync th env fillid)
     (thenP (setJ th env ''lfence'' [] (dec_of_int (calc_lfence istp crash gtcm)))
     (thenP (if tpnoiso \<noteq> 0 then cipJ th env ''tpnoiso'' else retP ())
     (thenP (if dupset \<noteq> 0 then cipJ th env ''dupsetnoop'' else retP ())
     (retP \<lparr>j_jobno = childnum, j_fillid = fillid, j_jobcnt = jobcnt, j_prime = prime, j_root = root, j_top = top,
            j_istp = istp, j_tptype = tptype, j_tpnoiso = tpnoiso, j_dupset = dupset, j_skipreg = skipreg, j_crash = crash,
            j_gtcm = gtcm, j_keysize = keysize, j_recsize = recsize, j_span = span, j_trigger = trigger,
            j_ztr = ztr, j_dztrig = dztrig, j_lfence = calc_lfence istp crash gtcm\<rparr>))))))))))))))))))"

section \<open>A turn of a job\<close>

text \<open>The keys and values of a turn, as \<^verbatim>\<open>helper1^imptpxc\<close> computes them.\<close>

record turn =
  v_subsMAX :: string
  v_val :: string
  v_valALT :: string
  v_valMAX :: string
  v_subs :: string
  v_I :: string

definition get_var :: "bool \<Rightarrow> 'w imptp_env \<Rightarrow> string \<Rightarrow> nat \<Rightarrow> ('w, string) prog" where
  "get_var th env name n = bindP (getJ th env name []) (\<lambda>v. thenP (copy_buff n v) (retP v))"

definition impjob_values :: "bool \<Rightarrow> 'w imptp_env \<Rightarrow> int \<Rightarrow> int \<Rightarrow> ('w, turn) prog" where
  "impjob_values th env loop I =
     thenP (setJ th env ''I'' [] (dec_of_int I))
     (thenP (setJ th env ''loop'' [] (dec_of_int loop))
     (thenP (cipJ th env ''helper1'')
     (bindP (get_var th env ''subsMAX'' BIGMAXVALUELEN) (\<lambda>subsMAX.
     bindP (get_var th env ''val'' MAXVALUELEN) (\<lambda>val.
     bindP (get_var th env ''valALT'' MAXVALUELEN) (\<lambda>valALT.
     bindP (get_var th env ''valMAX'' BIGMAXVALUELEN) (\<lambda>valMAX.
     bindP (get_var th env ''subs'' MAXVALUELEN) (\<lambda>subs.
     bindP (get_var th env ''I'' MAXVALUELEN) (\<lambda>Itext.
     retP \<lparr>v_subsMAX = subsMAX, v_val = val, v_valALT = valALT, v_valMAX = valMAX, v_subs = subs, v_I = Itext\<rparr>)))))))))"

text \<open>
  Holding the critical section for long after several restarts; \<^verbatim>\<open>istp & crash\<close> is the bitwise conjunction.  The
  status of reading \<^verbatim>\<open>$trestart\<close> is asserted at once.
\<close>

definition hold_crit :: "bool \<Rightarrow> 'w imptp_env \<Rightarrow> job \<Rightarrow> ('w, unit) prog" where
  "hold_crit th env j =
     (if and (j_istp j) (j_crash j) \<noteq> 0
      then bindP (callP (im_drand48 env 10)) (\<lambda>rndm.
           bindP (get_isv env (checkA env) ''$trestart'') (\<lambda>t.
           bindP (liftP (int_of_value t)) (\<lambda>dollar_trestart.
           thenP (if 2 < dollar_trestart
                  then thenP (if rndm = 1 then cipT env ''noop'' else retP ())
                         (if rndm = 2 then thenP (callP (im_drand48 env 10)) (retP ()) else retP ())
                  else retP ())
           (if dollar_trestart \<noteq> 0 then setT th env ''^zdummy'' [t] (dec_of_int (j_jobno j)) else retP ()))))
      else retP ())"

definition setsT :: "bool \<Rightarrow> 'w imptp_env \<Rightarrow> (string \<times> string list \<times> string) list \<Rightarrow> ('w, unit) prog" where
  "setsT th env ns = seqP (map (\<lambda>(g, ss, v). setT th env g ss v) ns)"

definition unless_trigger :: "job \<Rightarrow> 'a list \<Rightarrow> 'a list" where
  "unless_trigger j ns = (if j_trigger j = 0 then ns else [])"

text \<open>The nodes that stage 1 writes before and after the place where triggers need \<^verbatim>\<open>$ztwormhole\<close>.\<close>

definition stage1_first :: "job \<Rightarrow> turn \<Rightarrow> (string \<times> string list \<times> string) list" where
  "stage1_first j v =
     (let f = dec_of_int (j_fillid j) in
      [(''^brandomv'', [f, v_subsMAX v], v_valALT v)] @
      unless_trigger j [(''^crandomva'', [f, v_subsMAX v], v_valALT v)] @
      [(''^drandomvariable'', [f, v_subs v], v_valALT v)] @
      unless_trigger j [(''^erandomvariableimptp'', [f, v_subs v], v_valALT v),
                        (''^frandomvariableinimptp'', [f, v_subs v], v_valALT v)] @
      [(''^grandomvariableinimptpfill'', [f, v_subs v], v_val v)] @
      unless_trigger j [(''^hrandomvariableinimptpfilling'', [f, v_subs v], v_val v),
                        (''^irandomvariableinimptpfillprgrm'', [f, v_subs v], v_val v)])"

definition stage1_second :: "job \<Rightarrow> turn \<Rightarrow> (string \<times> string list \<times> string) list" where
  "stage1_second j v =
     (let f = dec_of_int (j_fillid j) in
      [(''^jrandomvariableinimptpfillprogr'', [f, v_I v], v_val v)] @
      unless_trigger j [(''^jrandomvariableinimptpfillprogr'', [f, v_I v, v_I v], v_val v),
                        (''^jrandomvariableinimptpfillprogr'', [f, v_I v, v_I v, v_subs v], v_val v)])"

definition lasti_node :: "job \<Rightarrow> string \<times> string list" where
  "lasti_node j = (''^lasti'', [dec_of_int (j_fillid j), dec_of_int (j_jobno j)])"

text \<open>In a transaction the turn is counted with the nodes it wrote.\<close>

definition stage1_lasti :: "bool \<Rightarrow> 'w imptp_env \<Rightarrow> job \<Rightarrow> int \<Rightarrow> ('w, unit) prog" where
  "stage1_lasti th env j loop =
     (if j_istp j \<noteq> 0
      then thenP (if j_ztr j then cipT env ''ztrcmd'' else retP ())
             (setT th env (fst (lasti_node j)) (snd (lasti_node j)) (dec_of_int loop))
      else retP ())"

definition stage1 :: "bool \<Rightarrow> 'w imptp_env \<Rightarrow> job \<Rightarrow> turn \<Rightarrow> int \<Rightarrow> ('w, unit) prog" where
  "stage1 th env j v loop =
     thenP (setT th env ''^arandom'' [dec_of_int (j_fillid j), v_subsMAX v] (v_val v))
     (thenP (hold_crit th env j)
     (thenP (setsT th env (stage1_first j v))
     (thenP (if j_trigger j \<noteq> 0 then cipT env ''ztwormstr'' else retP ())
     (thenP (setsT th env (stage1_second j v))
     (stage1_lasti th env j loop)))))"

definition tpfn_stage1 :: "bool \<Rightarrow> 'w imptp_env \<Rightarrow> job \<Rightarrow> turn \<Rightarrow> int \<Rightarrow> 'w \<Rightarrow> c_fault + int \<times> 'w" where
  "tpfn_stage1 th env j v loop = runP (im_ok env) (stage1 th env j v loop)"

text \<open>With triggers, stage 3 removes the suffix that a trigger appended to the node.\<close>

definition drop_suffix :: "bool \<Rightarrow> 'w imptp_env \<Rightarrow> job \<Rightarrow> turn \<Rightarrow> ('w, unit) prog" where
  "drop_suffix th env j v =
     (let ss = [dec_of_int (j_fillid j), v_subs v] in
      bindP (askP (ydb_get_s (im_api env) ''^fntp'' ss BIGMAXVALUELEN)) (\<lambda>(s, x).
      thenP (checkT th env s)
      (if 6 \<le> length x then setT th env ''^fntp'' ss (take (length x - 6) x)
       else thenP (assertP (j_istp j \<noteq> 0)) (leave (im_restart env)))))"

text \<open>The last two sets of stage 3 are not asserted: any status but a restart goes on.\<close>

definition setU :: "bool \<Rightarrow> 'w imptp_env \<Rightarrow> string \<Rightarrow> string list \<Rightarrow> string \<Rightarrow> ('w, unit) prog" where
  "setU th env g ss v = bindP (callP (ydb_set_s (im_api env) g ss v)) (\<lambda>s.
     if s = im_restart env \<or> th \<and> s = err_callinafterxit env then leave s else retP ())"

definition stage3 :: "bool \<Rightarrow> 'w imptp_env \<Rightarrow> job \<Rightarrow> turn \<Rightarrow> ('w, unit) prog" where
  "stage3 th env j v =
     (let f = dec_of_int (j_fillid j) in
      thenP (if j_dztrig j then cipT env ''imptpdztrig'' else retP ())
      (thenP (setT th env ''^entp'' [f, v_subs v] (v_val v))
      (thenP (if j_trigger j = 0 then setT th env ''^fntp'' [f, v_subs v] (v_val v) else drop_suffix th env j v)
      (thenP (setT th env ''^gntp'' [f, v_subsMAX v] (v_valMAX v))
      (if j_trigger j = 0
       then thenP (setT th env ''^hntp'' [f, v_subsMAX v] (v_valMAX v))
            (thenP (setU th env ''^intp'' [f, v_subsMAX v] (v_valMAX v))
                   (setU th env ''^bntp'' [f, v_subsMAX v] (v_valMAX v)))
       else retP ())))))"

definition tpfn_stage3 :: "bool \<Rightarrow> 'w imptp_env \<Rightarrow> job \<Rightarrow> turn \<Rightarrow> 'w \<Rightarrow> c_fault + int \<times> 'w" where
  "tpfn_stage3 th env j v = runP (im_ok env) (stage3 th env j v)"

definition run_stage :: "bool \<Rightarrow> 'w imptp_env \<Rightarrow> job \<Rightarrow> ('w \<Rightarrow> c_fault + int \<times> 'w) \<Rightarrow> ('w, unit) prog" where
  "run_stage th env j f =
     bindP (callE (if j_istp j \<noteq> 0 then ydb_tp_s (im_api env) f else f)) (checkJ th env)"

definition stage2 :: "bool \<Rightarrow> 'w imptp_env \<Rightarrow> job \<Rightarrow> turn \<Rightarrow> ('w, unit) prog" where
  "stage2 th env j v =
     (let ss = [dec_of_int (j_fillid j), v_subs v] in
      thenP (cipJ th env ''helper2'')
      (thenP (setJ th env ''^antp'' ss (v_val v))
      (thenP (if j_trigger j = 0
              then thenP (setJ th env ''^bntp'' ss (v_val v)) (setJ th env ''^cntp'' ss (v_val v))
              else retP ())
      (setJ th env ''^dntp'' ss (v_valALT v)))))"

definition impjob_turn :: "bool \<Rightarrow> 'w imptp_env \<Rightarrow> job \<Rightarrow> int \<Rightarrow> int \<Rightarrow> ('w, unit) prog" where
  "impjob_turn th env j loop I =
     bindP (impjob_values th env loop I) (\<lambda>v.
     thenP (run_stage th env j (tpfn_stage1 th env j v loop))
     (thenP (stage2 th env j v)
     (thenP (run_stage th env j (tpfn_stage3 th env j v))
     (cipJ th env ''helper3''))))"

text \<open>
  The loop of a job from the turn \<open>loop\<close> on; the result is the value of \<^verbatim>\<open>loop\<close> after it, which a break by
  \<^verbatim>\<open>^endloop\<close> does not increment.
\<close>

function impjob_loop :: "bool \<Rightarrow> 'w imptp_env \<Rightarrow> job \<Rightarrow> int \<Rightarrow> int \<Rightarrow> int \<Rightarrow> ('w, int) prog" where
  "impjob_loop th env j nroot loop I =
     (if loop \<le> j_top j
      then thenP (impjob_turn th env j loop I)
           (bindP (liftP (index_step (j_prime j) nroot I)) (\<lambda>I'.
            bindP (getI0 th env ''^endloop'' [dec_of_int (j_fillid j)]) (\<lambda>stop.
            if stop \<noteq> 0 then retP loop
            else thenP (liftP (int_of (loop + 1))) (impjob_loop th env j nroot (loop + 1) I'))))
      else retP loop)"
  by pat_completeness auto
termination
  by (relation "measure (\<lambda>(th, env, j, nroot, loop, I). nat (j_top j + 1 - loop))") auto

declare impjob_loop.simps [simp del]

text \<open>The job after its parameters are read, from the last turn that \<^verbatim>\<open>^lasti\<close> counts.\<close>

definition impjob_run :: "bool \<Rightarrow> 'w imptp_env \<Rightarrow> job \<Rightarrow> ('w, int) prog" where
  "impjob_run th env j =
     bindP (liftP (calc_nroot (j_root j) (j_prime j) (j_jobcnt j))) (\<lambda>nroot.
     bindP (getI0 th env (fst (lasti_node j)) (snd (lasti_node j))) (\<lambda>lasti.
     bindP (liftP (start_index (j_root j) (j_prime j) nroot (j_jobno j) lasti)) (\<lambda>I.
     thenP (liftP (int_of (lasti + 1))) (impjob_loop th env j nroot (lasti + 1) I))))"

text \<open>
  A job: one in twenty, and every job of one subtest, runs the M program instead.  The assertion on its
  status has the precedence of the source: \<^verbatim>\<open>&&\<close> binds the subtest to the first status only.
\<close>

definition impjob :: "bool \<Rightarrow> 'w imptp_env \<Rightarrow> int \<Rightarrow> ('w, unit) prog" where
  "impjob th env childnum =
     thenP (setJ th env ''jobindex'' [] (dec_of_int childnum))
     (bindP (callP (im_drand48 env 20)) (\<lambda>rand.
      case im_getenv env ''test_subtest_name'' of
        None \<Rightarrow> liftP (Inl Null_deref)
      | Some name \<Rightarrow>
          let is_gtm8086_subtest = (name = ''gtm8086'') in
          if is_gtm8086_subtest \<or> rand = 0
          then bindP (callP (ydb_ci env ''impjob'')) (\<lambda>s.
               thenP (assertP (s = im_ok env \<or> is_gtm8086_subtest \<and> s = err_jnlextend env \<or> s = err_jnlswitchfail env))
               (leave (im_ok env)))
          else bindP (get_isv env (checkJ th env) ''$zroutines'') (\<lambda>z.
               thenP (liftP (int_of_value z))
               (bindP (impjob_params th env childnum) (\<lambda>j.
                thenP (impjob_run th env j) (leave (im_ok env)))))))"

end
