(* ===== verification/Imptp_Parent.thy ===== *)
theory Imptp_Parent
  imports Imptp
begin

text \<open>
  The parent of \<^verbatim>\<open>com/simpleapi_imptp.c\<close>: \<^verbatim>\<open>main\<close>, which writes the parameters, starts the jobs and waits
  until each has done its first turn and is ready.  It uses the database from one thread in both programs.
\<close>

section \<open>The parameters from the environment\<close>

definition imptp_jobcnt :: "'w imptp_env \<Rightarrow> int" where
  "imptp_jobcnt env = (let jobcnt = getenv_int env ''gtm_test_jobcnt'' in if jobcnt = 0 then 5 else jobcnt)"

text \<open>The third mode, which the M program has, stops the C program.\<close>

definition imptp_istp :: "'w imptp_env \<Rightarrow> c_fault + int" where
  "imptp_istp env =
     (if im_getenv env ''gtm_test_tp'' = Some ''NON_TP'' then Inr 0
      else if im_getenv env ''gtm_test_dbfill'' = Some ''IMPZTP'' then Inl Assert_failed
      else Inr 1)"

definition imptp_tptype :: "'w imptp_env \<Rightarrow> string" where
  "imptp_tptype env = (if im_getenv env ''gtm_test_tptype'' = Some ''ONLINE'' then ''ONLINE'' else ''BATCH'')"

definition setsA :: "'w imptp_env \<Rightarrow> (string \<times> string list \<times> string) list \<Rightarrow> ('w, unit) prog" where
  "setsA env ns = seqP (map (\<lambda>(g, ss, v). setA env g ss v) ns)"

text \<open>A parameter and its node.\<close>

definition pset :: "int \<Rightarrow> string \<Rightarrow> string \<Rightarrow> string \<times> string list \<times> string" where
  "pset fillid name v = (fst (pct fillid name), snd (pct fillid name), v)"

text \<open>A node that is written only where it and its descendants are undefined.\<close>

definition unless_data :: "'w imptp_env \<Rightarrow> string \<times> string list \<Rightarrow> ('w, string) prog \<Rightarrow> ('w, unit) prog" where
  "unless_data env k m =
     bindP (askP (ydb_data_s env (fst k) (snd k))) (\<lambda>(s, d).
     thenP (checkA env s) (if d = 0 then bindP m (\<lambda>v. setA env (fst k) (snd k) v) else retP ()))"

definition choose_tpnoiso :: "'w imptp_env \<Rightarrow> int \<Rightarrow> ('w, string) prog" where
  "choose_tpnoiso env istp =
     (if istp = 1
      then if im_getenv env ''gtm_test_noisolation'' = Some ''TPNOISO'' then retP ''1''
           else bindP (callP (im_drand48 env 2)) (\<lambda>r. retP (if r \<noteq> 0 then ''1'' else ''0''))
      else retP ''0'')"

definition choose_dupset :: "'w imptp_env \<Rightarrow> ('w, string) prog" where
  "choose_dupset env = bindP (callP (im_drand48 env 2)) (\<lambda>r. retP (dec_of_int r))"

text \<open>A run over a database that an earlier run filled must have the same number of jobs.\<close>

definition check_totaljob :: "'w imptp_env \<Rightarrow> int \<Rightarrow> int \<Rightarrow> ('w, unit) prog" where
  "check_totaljob env fillid jobcnt =
     (let (g, ss) = pct fillid ''totaljob'' in
      bindP (askP (ydb_data_s env g ss)) (\<lambda>(s, d).
      thenP (checkA env s)
      (if d = 0 then setA env g ss (dec_of_int jobcnt)
       else bindP (getA env g ss) (\<lambda>v.
            bindP (liftP (int_of_value v)) (\<lambda>n.
            if n \<noteq> jobcnt then leave (- 1) else retP ())))))"

section \<open>Writing the parameters\<close>

definition setup_modes :: "'w imptp_env \<Rightarrow> int \<Rightarrow> ('w, unit) prog" where
  "setup_modes env fillid =
     bindP (liftP (imptp_istp env)) (\<lambda>istp.
     thenP (setsA env [(''istp'', [], dec_of_int istp), pset fillid ''istp'' (dec_of_int istp),
                       pset fillid ''tptype'' (imptp_tptype env)])
     (thenP (unless_data env (pct fillid ''tpnoiso'') (choose_tpnoiso env istp))
     (thenP (unless_data env (pct fillid ''dupset'') (choose_dupset env))
     (setsA env [pset fillid ''crash'' (dec_of_int (getenv_int env ''gtm_test_crash'')),
                 pset fillid ''gtcm'' (dec_of_int (getenv_int env ''gtm_test_is_gtcm'')),
                 pset fillid ''skipreg'' (dec_of_int (getenv_int env ''gtm_test_repl_norepl''))]))))"

definition setup_ids :: "'w imptp_env \<Rightarrow> int \<Rightarrow> ('w, unit) prog" where
  "setup_ids env fillid =
     (let jobid = dec_of_int (getenv_int env ''gtm_test_jobid'') in
      thenP (setsA env [(''jobid'', [], jobid), (''^%imptp'', [''fillid'', jobid], dec_of_int fillid)])
      (thenP (cipA env ''getdatinfo'')
      (setsA env [pset fillid ''gtm_test_spannode'' (dec_of_int (getenv_int env ''gtm_test_spannode'')),
                  pset fillid ''trigger'' ''0''])))"

definition setup_walk :: "'w imptp_env \<Rightarrow> int \<Rightarrow> ('w, unit) prog" where
  "setup_walk env fillid =
     (let f = dec_of_int fillid in
      thenP (setsA env [pset fillid ''prime'' (dec_of_int 50000017), pset fillid ''root'' (dec_of_int 5),
                        (''^endloop'', [f], ''0'')])
      (thenP (unless_data env (''^cntloop'', [f]) (retP ''0''))
      (thenP (unless_data env (''^cntseq'', [f]) (retP ''0''))
      (setsA env [pset fillid ''jsyncnt'' ''0'']))))"

text \<open>The index globals that are excluded from the random mapping, and the table that the caller waits on.\<close>

definition setup_tables :: "'w imptp_env \<Rightarrow> int \<Rightarrow> ('w, unit) prog" where
  "setup_tables env jobcnt =
     (let jobid = dec_of_int (getenv_int env ''gtm_test_jobid'') in
      thenP (setsA env (map (\<lambda>c. (''^%sprgdeExcludeGbllist'', [c # ''ndxarr''], '''')) ''abcdefgh''))
      (setsA env (map (\<lambda>(name, v). (''^%jobwait'', [jobid, name], v))
        [(''njobs'', dec_of_int jobcnt), (''jmaxwait'', ''7200''), (''jdefwait'', ''7200''), (''jprint'', ''0''),
         (''jroutine'', ''impjob_imptp''), (''jmjoname'', ''impjob_imptp''), (''jnoerrchk'', ''0'')])))"

definition imptp_setup :: "'w imptp_env \<Rightarrow> ('w, unit) prog" where
  "imptp_setup env =
     (let jobcnt = imptp_jobcnt env; fillid = getenv_int env ''gtm_test_dbfillid'' in
      thenP (setA env ''jobcnt'' [] (dec_of_int jobcnt))
      (bindP (get_isv env (checkA env) ''$zroutines'') (\<lambda>z.
       thenP (liftP (int_of_value z))
       (thenP (setA env ''fillid'' [] (dec_of_int fillid))
       (thenP (setup_modes env fillid)
       (thenP (setup_ids env fillid)
       (thenP (check_totaljob env fillid jobcnt)
       (thenP (setup_walk env fillid)
       (setup_tables env jobcnt)))))))))"

section \<open>Starting the jobs\<close>

definition maybe_child_init :: "'w imptp_env \<Rightarrow> ('w, unit) prog" where
  "maybe_child_init env =
     bindP (callP (im_drand48 env 2)) (\<lambda>r.
     if r \<noteq> 0 then bindP (callP (ydb_child_init env)) (checkA env) else retP ())"

text \<open>
  \<^verbatim>\<open>child_pid\<close> has \<^verbatim>\<open>MAXCHILDREN + 1\<close> cells and its index runs to the number of jobs, which is not bounded.  In
  the child, where \<^verbatim>\<open>fork\<close> returns 0, the program runs the job and returns.
\<close>

function start_jobs :: "bool \<Rightarrow> 'w imptp_env \<Rightarrow> int \<Rightarrow> int \<Rightarrow> ('w, unit) prog" where
  "start_jobs th env jobcnt child =
     (if child \<le> jobcnt
      then bindP (callP (im_fork env)) (\<lambda>pid.
           if child > MAXCHILDREN then liftP (Inl Write_oob)
           else thenP (assertP (0 \<le> pid))
             (if pid = 0
              then thenP (maybe_child_init env) (thenP (maybe_child_init env)
                   (thenP (callE (runP (im_ok env) (impjob th env child))) (leave (im_ok env))))
              else thenP (setsA env [(''^%jobwait'', [dec_of_int (getenv_int env ''gtm_test_jobid''), dec_of_int child], dec_of_int pid),
                                     (''jobindex'', [dec_of_int child], dec_of_int pid)])
                   (start_jobs th env jobcnt (child + 1))))
      else retP ())"
  by pat_completeness auto
termination
  by (relation "measure (\<lambda>(th, env, jobcnt, child). nat (jobcnt + 1 - child))") auto

declare start_jobs.simps [simp del]

section \<open>Waiting for the jobs\<close>

text \<open>
  The two loops that wait have no limit in the source; here \<open>n\<close> bounds their turns, and the result says whether the
  loop ended within them.
\<close>

primrec wait_until :: "nat \<Rightarrow> 'w imptp_env \<Rightarrow> ('w, bool) prog \<Rightarrow> ('w, bool) prog" where
  "wait_until 0 env m = retP False"
| "wait_until (Suc n) env m =
     bindP m (\<lambda>b. if b then retP True else thenP (callP (im_sleep env)) (wait_until n env m))"

definition first_update :: "'w imptp_env \<Rightarrow> int \<Rightarrow> ('w, bool) prog" where
  "first_update env fillid =
     bindP (getA env ''^cntloop'' [dec_of_int fillid]) (\<lambda>v. bindP (liftP (int_of_value v)) (\<lambda>n. retP (n \<noteq> 0)))"

text \<open>The number of jobs is read into the smaller buffer \<^verbatim>\<open>tmpvalue\<close>.\<close>

definition get_totaljob :: "'w imptp_env \<Rightarrow> int \<Rightarrow> ('w, int) prog" where
  "get_totaljob env fillid =
     (let (g, ss) = pct fillid ''totaljob'' in
      bindP (askP (ydb_get_s (im_api env) g ss MAXVALUELEN)) (\<lambda>(s, v).
      thenP (checkA env s) (if length v < MAXVALUELEN then liftP (int_of_value v) else liftP (Inl Write_oob))))"

definition all_synced :: "'w imptp_env \<Rightarrow> int \<Rightarrow> ('w, bool) prog" where
  "all_synced env fillid =
     bindP (getA env (fst (pct fillid ''jsyncnt'')) (snd (pct fillid ''jsyncnt''))) (\<lambda>v.
     bindP (liftP (int_of_value v)) (\<lambda>x. bindP (get_totaljob env fillid) (\<lambda>y. retP (x = y))))"

definition imptp_wait :: "nat \<Rightarrow> 'w imptp_env \<Rightarrow> int \<Rightarrow> ('w, bool) prog" where
  "imptp_wait n env fillid =
     bindP (wait_until n env (first_update env fillid)) (\<lambda>b.
     if b then wait_until n env (all_synced env fillid) else retP False)"

text \<open>The parent; the result says whether it reached its end within \<open>n\<close> turns of each loop.\<close>

definition imptp_main :: "nat \<Rightarrow> bool \<Rightarrow> 'w imptp_env \<Rightarrow> ('w, bool) prog" where
  "imptp_main n th env =
     thenP (imptp_setup env)
     (thenP (maybe_child_init env)
     (thenP (start_jobs th env (imptp_jobcnt env) 1)
     (thenP (maybe_child_init env)
     (thenP (cipA env ''writecrashfileifneeded'')
     (thenP (cipA env ''writejobinfofileifneeded'')
     (bindP (imptp_wait n env (getenv_int env ''gtm_test_dbfillid'')) (\<lambda>b.
      if b then thenP (assertP (im_getenv env ''gtm_test_onlinerollback'' \<noteq> Some ''TRUE'')) (retP True)
      else retP False)))))))"

end
