(* ===== verification/Imptp_Correct.thy ===== *)
theory Imptp_Correct
  imports Imptp_Parent
begin

text \<open>
  What the workload does to the database.  The database and the M routines are parameters; \<open>im_laws\<close> says what the
  program relies on, for a program that is alone with its database and for one that is not.
\<close>

section \<open>What the program relies on\<close>

text \<open>
  Nodes that a call-in leaves as they are, read off \<^verbatim>\<open>com/imptpxc.m\<close>, \<^verbatim>\<open>com/imptp.m\<close> and \<^verbatim>\<open>com/datinfo.m\<close>, for a job whose
  turns are transactions: outside of them \<^verbatim>\<open>helper3\<close> counts the turn in \<^verbatim>\<open>^lasti\<close> itself.
\<close>

definition datinfo_names :: "string set" where
  "datinfo_names = {''block_size'', ''max_record_size'', ''max_key_size'', ''record_size'', ''key_size''}"

definition kept_by :: "string \<Rightarrow> node set" where
  "kept_by name =
     (if name = ''getdatinfo'' then {k. \<forall>f n. k = (''^%imptp'', [f, n]) \<longrightarrow> n \<notin> datinfo_names}
      else if name = ''noop'' then {k. take 1 (fst k) = ''^'' \<and> fst k \<noteq> ''^dummynoop''}
      else {k. fst k \<in> {''I'', ''^%imptp'', ''^endloop'', ''^lasti''}})"

text \<open>The statuses are different; \<open>r\<close> says whether a call may ask for a restart.\<close>

definition status_laws :: "'w imptp_env \<Rightarrow> bool" where
  "status_laws env \<longleftrightarrow> distinct [im_ok env, im_restart env, err_gvundef env, err_callinafterxit env]"

definition read_laws :: "bool \<Rightarrow> 'w imptp_env \<Rightarrow> ('w \<Rightarrow> contents) \<Rightarrow> bool" where
  "read_laws r env view \<longleftrightarrow>
     (r \<or> (\<forall>g ss v w. fst (ydb_set_s (im_api env) g ss v w) = im_ok env) \<and>
           (\<forall>g ss n w. fst (ydb_get_s (im_api env) g ss n w) \<noteq> im_restart env)) \<and>
     (\<forall>g ss n w. view w (g, ss) = None \<longrightarrow>
        fst (ydb_get_s (im_api env) g ss n w) = err_gvundef env \<or> r \<and> fst (ydb_get_s (im_api env) g ss n w) = im_restart env) \<and>
     (\<forall>w. \<exists>m\<le>4. ydb_get_isv env ''$trestart'' BIGMAXVALUELEN w = (im_ok env, dec_of_nat m)) \<and>
     (\<forall>w. \<exists>z. length z < BIGMAXVALUELEN \<and> ydb_get_isv env ''$zroutines'' BIGMAXVALUELEN w = (im_ok env, z)) \<and>
     (\<forall>g ss w. fst (ydb_data_s env g ss w) = im_ok env \<and>
        (snd (ydb_data_s env g ss w) = 0 \<longleftrightarrow> (\<forall>ss'. view w (g, ss @ ss') = None)))"

definition call_laws :: "bool \<Rightarrow> 'w imptp_env \<Rightarrow> ('w \<Rightarrow> contents) \<Rightarrow> bool" where
  "call_laws r env view \<longleftrightarrow>
     (\<forall>name w. (fst (ydb_cip env name w) = im_ok env \<or> r \<and> fst (ydb_cip env name w) = im_restart env) \<and>
        (\<forall>k \<in> kept_by name. view (snd (ydb_cip env name w)) k = view w k)) \<and>
     (\<forall>n w. 0 < n \<longrightarrow> view (snd (im_drand48 env n w)) = view w \<and> 0 \<le> fst (im_drand48 env n w) \<and> fst (im_drand48 env n w) < n) \<and>
     (\<forall>g ss w. fst (ydb_lock_incr_s env g ss w) = im_ok env \<and> view (snd (ydb_lock_incr_s env g ss w)) = view w) \<and>
     (\<forall>g ss w. fst (ydb_lock_decr_s env g ss w) = im_ok env \<and> view (snd (ydb_lock_decr_s env g ss w)) = view w) \<and>
     (\<forall>g ss w k. fst (ydb_incr_s env g ss w) = im_ok env \<and>
        (k \<noteq> (g, ss) \<longrightarrow> view (snd (ydb_incr_s env g ss w)) k = view w k))"

text \<open>\<^verbatim>\<open>helper1\<close> leaves the keys and values of the turn in variables that fit the buffers.\<close>

definition helper1_laws :: "'w imptp_env \<Rightarrow> ('w \<Rightarrow> contents) \<Rightarrow> bool" where
  "helper1_laws env view \<longleftrightarrow>
     (\<forall>w. \<forall>(name, n) \<in> {(''subsMAX'', BIGMAXVALUELEN), (''val'', MAXVALUELEN), (''valALT'', MAXVALUELEN),
                           (''valMAX'', BIGMAXVALUELEN), (''subs'', MAXVALUELEN)}.
        \<exists>x. view (snd (ydb_cip env ''helper1'' w)) (name, []) = Some x \<and> length x \<le> n)"

definition im_laws :: "bool \<Rightarrow> 'w imptp_env \<Rightarrow> ('w \<Rightarrow> contents) \<Rightarrow> bool" where
  "im_laws r env view \<longleftrightarrow> api_laws (im_api env) view \<and> status_laws env \<and> read_laws r env view \<and> call_laws r env view"

lemma im_laws_statuses:
  assumes "im_laws r env view"
  shows "im_ok env \<noteq> im_restart env" "im_ok env \<noteq> err_gvundef env" "im_ok env \<noteq> err_callinafterxit env"
    "im_restart env \<noteq> err_callinafterxit env" "err_gvundef env \<noteq> err_callinafterxit env" "im_restart env \<noteq> err_gvundef env"
  using assms by (auto simp: im_laws_def status_laws_def)

lemma im_laws_set:
  assumes "im_laws r env view"
  obtains w' where "ydb_set_s (im_api env) g ss v w = (im_ok env, w')" "view w' = (view w)((g, ss) \<mapsto> v)"
  | w' where "r" "ydb_set_s (im_api env) g ss v w = (im_restart env, w')"
proof (rule api_laws_set [of "im_api env" view g ss v w])
  show "api_laws (im_api env) view" using assms by (simp add: im_laws_def)
  fix w' assume s: "ydb_set_s (im_api env) g ss v w = (im_restart env, w')"
  have "r \<or> (\<forall>g ss v w. fst (ydb_set_s (im_api env) g ss v w) = im_ok env)"
    using assms by (auto simp: im_laws_def read_laws_def)
  then have "r" using s im_laws_statuses(1) [OF assms] by (metis fst_conv)
  then show thesis using s that(2) by blast
qed (use that(1) in blast)

lemma im_laws_get:
  assumes "im_laws False env view" "view w (g, ss) = Some v" "length v \<le> n"
  shows "ydb_get_s (im_api env) g ss n w = (im_ok env, v)"
proof (rule api_laws_get [of "im_api env" view w g ss v n])
  show "api_laws (im_api env) view" using assms(1) by (simp add: im_laws_def)
  fix x assume "ydb_get_s (im_api env) g ss n w = (im_restart env, x)"
  moreover have "\<forall>g ss n w. fst (ydb_get_s (im_api env) g ss n w) \<noteq> im_restart env"
    using assms(1) by (simp add: im_laws_def read_laws_def)
  ultimately show ?thesis by (metis fst_conv)
qed (use assms in simp_all)

lemma im_laws_undef:
  assumes "im_laws False env view" "view w (g, ss) = None"
  shows "fst (ydb_get_s (im_api env) g ss n w) = err_gvundef env"
  using assms by (auto simp: im_laws_def read_laws_def)

lemma im_laws_cip:
  assumes "im_laws r env view"
  obtains w' where "ydb_cip env name w = (im_ok env, w')" "\<And>k. k \<in> kept_by name \<Longrightarrow> view w' k = view w k"
  | w' where "r" "ydb_cip env name w = (im_restart env, w')"
proof -
  have "\<forall>name w. (fst (ydb_cip env name w) = im_ok env \<or> r \<and> fst (ydb_cip env name w) = im_restart env) \<and>
        (\<forall>k \<in> kept_by name. view (snd (ydb_cip env name w)) k = view w k)"
    using assms unfolding im_laws_def call_laws_def by (elim conjE)
  from this [rule_format, of name w]
  show thesis using that by (cases "ydb_cip env name w") auto
qed

lemma im_laws_drand48:
  assumes "im_laws r env view" "0 < n"
  shows "view (snd (im_drand48 env n w)) = view w" "0 \<le> fst (im_drand48 env n w)" "fst (im_drand48 env n w) < n"
  using assms by (auto simp: im_laws_def call_laws_def)

lemma im_laws_isv:
  assumes "im_laws r env view"
  shows "\<exists>m\<le>4. ydb_get_isv env ''$trestart'' BIGMAXVALUELEN w = (im_ok env, dec_of_nat m)"
    "\<exists>z. length z < BIGMAXVALUELEN \<and> ydb_get_isv env ''$zroutines'' BIGMAXVALUELEN w = (im_ok env, z)"
  using assms by (auto simp: im_laws_def read_laws_def)

section \<open>Rules for the calls\<close>

lemma wp_setT:
  assumes "im_laws r env view" "\<And>w'. view w' = (view w)((g, ss) \<mapsto> v) \<Longrightarrow> Q () w'" "\<And>w'. r \<Longrightarrow> R (im_restart env) w'"
  shows "wpP (setT th env g ss v) Q R w"
  by (rule im_laws_set [OF assms(1), of g ss v w])
    (use assms(2,3) im_laws_statuses [OF assms(1)] in \<open>auto simp: setT_def checkT_def wpP_call wp_simps\<close>)

lemma wp_setU:
  assumes "im_laws r env view" "\<And>w'. view w' = (view w)((g, ss) \<mapsto> v) \<Longrightarrow> Q () w'" "\<And>w'. r \<Longrightarrow> R (im_restart env) w'"
  shows "wpP (setU th env g ss v) Q R w"
  by (rule im_laws_set [OF assms(1), of g ss v w])
    (use assms(2,3) im_laws_statuses [OF assms(1)] in \<open>auto simp: setU_def wpP_call wp_simps\<close>)

lemma wp_setJ:
  assumes "im_laws False env view" "\<And>w'. view w' = (view w)((g, ss) \<mapsto> v) \<Longrightarrow> Q () w'"
  shows "wpP (setJ th env g ss v) Q R w"
  by (rule im_laws_set [OF assms(1), of g ss v w])
    (use assms(2) im_laws_statuses [OF assms(1)] in \<open>auto simp: setJ_def checkJ_def wpP_call wp_simps\<close>)

lemma wp_setA:
  assumes "im_laws False env view" "\<And>w'. view w' = (view w)((g, ss) \<mapsto> v) \<Longrightarrow> Q () w'"
  shows "wpP (setA env g ss v) Q R w"
  by (rule im_laws_set [OF assms(1), of g ss v w])
    (use assms(2) in \<open>auto simp: setA_def checkA_def wpP_call wp_simps\<close>)

lemma wp_cipT:
  assumes "im_laws r env view" "\<And>w'. (\<And>k. k \<in> kept_by name \<Longrightarrow> view w' k = view w k) \<Longrightarrow> Q () w'"
    and "\<And>w'. r \<Longrightarrow> R (im_restart env) w'"
  shows "wpP (cipT env name) Q R w"
  by (rule im_laws_cip [OF assms(1), of name w])
    (use assms(2,3) im_laws_statuses [OF assms(1)] in \<open>auto simp: cipT_def checkT_def wpP_call wp_simps\<close>)

lemma wp_cipJ:
  assumes "im_laws False env view" "\<And>w'. w' = snd (ydb_cip env name w) \<Longrightarrow> (\<And>k. k \<in> kept_by name \<Longrightarrow> view w' k = view w k) \<Longrightarrow> Q () w'"
  shows "wpP (cipJ th env name) Q R w"
  by (rule im_laws_cip [OF assms(1), of name w])
    (use assms(2) im_laws_statuses [OF assms(1)] in \<open>auto simp: cipJ_def checkJ_def wpP_call wp_simps\<close>)

lemma wp_cipA:
  assumes "im_laws False env view" "\<And>w'. w' = snd (ydb_cip env name w) \<Longrightarrow> (\<And>k. k \<in> kept_by name \<Longrightarrow> view w' k = view w k) \<Longrightarrow> Q () w'"
  shows "wpP (cipA env name) Q R w"
  by (rule im_laws_cip [OF assms(1), of name w])
    (use assms(2) im_laws_statuses [OF assms(1)] in \<open>auto simp: cipA_def checkA_def wpP_call wp_simps\<close>)

lemma wp_drand48:
  assumes "im_laws r env view" "0 < n" "\<And>x w'. view w' = view w \<Longrightarrow> 0 \<le> x \<Longrightarrow> x < n \<Longrightarrow> Q x w'"
  shows "wpP (callP (im_drand48 env n)) Q R w"
  using assms im_laws_drand48 [OF assms(1,2)] by (simp add: wpP_call)

lemma wp_getJ:
  assumes "im_laws False env view" "view w (g, ss) = Some v" "length v \<le> BIGMAXVALUELEN" "Q v w"
  shows "wpP (getJ th env g ss) Q R w"
  using assms im_laws_get [OF assms(1-3)] im_laws_statuses [OF assms(1)]
  by (auto simp: getJ_def checkJ_def wpP_ask wp_simps)

lemma int_of_value_dec: "is_int x \<Longrightarrow> int_of_value (dec_of_int x) = Inr x"
proof -
  assume "is_int x"
  then have "length (dec_of_int x) < BIGMAXVALUELEN"
    using length_dec_of_int [of x] by (simp add: is_int_def BIGMAXVALUELEN_def MAXVALUELEN_def)
  moreover have "takeWhile (\<lambda>c. c \<noteq> CHR 0x00) (dec_of_int x) = dec_of_int x"
    using dec_of_int_chars [of "CHR 0x00" x] by (auto simp: takeWhile_eq_all_conv is_digit_def)
  then have "atoi (takeWhile (\<lambda>c. c \<noteq> CHR 0x00) (dec_of_int x)) = x" by (simp only: atoi_dec_of_int)
  ultimately show ?thesis by (simp add: int_of_value_def)
qed

lemma dec_fits: "is_int x \<Longrightarrow> length (dec_of_int x) \<le> BIGMAXVALUELEN"
  using length_dec_of_int [of x] by (simp add: is_int_def BIGMAXVALUELEN_def MAXVALUELEN_def)

lemma wp_getI:
  assumes "im_laws False env view" "view w (g, ss) = Some (dec_of_int x)" "is_int x" "Q x w"
  shows "wpP (getI th env g ss) Q R w"
  unfolding getI_def wpP_bind
  by (rule wp_getJ [OF assms(1,2) dec_fits [OF assms(3)]]) (simp add: wp_simps int_of_value_dec assms(3,4))

lemma wp_getI0:
  assumes "im_laws False env view" "view w (g, ss) = (if x = 0 \<and> u then None else Some (dec_of_int x))" "is_int x" "Q x w"
  shows "wpP (getI0 th env g ss) Q R w"
proof (cases "view w (g, ss)")
  case None
  then have "x = 0" using assms(2) by (auto split: if_splits)
  then show ?thesis
    using im_laws_undef [OF assms(1) None] assms(4) by (simp add: getI0_def wpP_ask wp_simps case_prod_beta)
next
  case (Some v)
  then have "v = dec_of_int x" using assms(2) by (auto split: if_splits)
  then show ?thesis
    using im_laws_get [OF assms(1) Some, of BIGMAXVALUELEN] im_laws_statuses [OF assms(1)] dec_fits [OF assms(3)]
      int_of_value_dec [OF assms(3)] assms(4)
    by (simp add: getI0_def checkJ_def wpP_ask wp_simps)
qed

section \<open>Sets\<close>

primrec apply_sets :: "(string \<times> string list \<times> string) list \<Rightarrow> contents \<Rightarrow> contents" where
  "apply_sets [] c = c"
| "apply_sets (n # ns) c = apply_sets ns (c((fst n, fst (snd n)) \<mapsto> snd (snd n)))"

lemma apply_sets_append [simp]: "apply_sets (ns @ ms) c = apply_sets ms (apply_sets ns c)"
  by (induction ns arbitrary: c) simp_all

definition agree :: "node set \<Rightarrow> contents \<Rightarrow> contents \<Rightarrow> bool" where
  "agree K c c' \<longleftrightarrow> (\<forall>k \<in> K. c k = c' k)"

lemma agree_sets: "agree K c c' \<Longrightarrow> agree K (apply_sets ns c) (apply_sets ns c')"
  by (induction ns arbitrary: c c') (simp_all add: agree_def)

lemma agree_refl [simp]: "agree K c c"
  by (simp add: agree_def)

lemma agree_trans: "agree K c c' \<Longrightarrow> agree K c' c'' \<Longrightarrow> agree K c c''"
  by (simp add: agree_def)

lemma agree_other: "k \<notin> K \<Longrightarrow> agree K (c(k \<mapsto> v)) c"
  by (auto simp: agree_def)

lemma wp_setsT:
  assumes "im_laws r env view" "\<And>w'. view w' = apply_sets ns (view w) \<Longrightarrow> Q () w'" "\<And>w'. r \<Longrightarrow> R (im_restart env) w'"
  shows "wpP (setsT th env ns) Q R w"
  using assms(2)
proof (induction ns arbitrary: w)
  case (Cons n ns)
  show ?case
    unfolding setsT_def
    by (cases n) (auto simp: wp_simps setsT_def [symmetric] intro!: wp_setT [OF assms(1)] Cons assms(3))
qed (simp add: setsT_def wp_simps)

lemma wp_setsA:
  assumes "im_laws False env view" "\<And>w'. view w' = apply_sets ns (view w) \<Longrightarrow> Q () w'"
  shows "wpP (setsA env ns) Q R w"
  using assms(2)
proof (induction ns arbitrary: w)
  case (Cons n ns)
  show ?case
    unfolding setsA_def
    by (cases n) (auto simp: wp_simps setsA_def [symmetric] intro!: wp_setA [OF assms(1)] Cons)
qed (simp add: setsA_def wp_simps)

section \<open>Stage 1\<close>

text \<open>The nodes of the tests themselves, without those of the pauses under contention.\<close>

definition test_nodes :: "node set" where
  "test_nodes = {k. take 1 (fst k) = ''^'' \<and> fst k \<notin> {''^zdummy'', ''^dummynoop''}}"

lemma trestart_value: "m \<le> 4 \<Longrightarrow> int_of_value (dec_of_nat m) = Inr (int m)"
  using int_of_value_dec [of "int m"] by (simp add: is_int_def dec_of_int_def)

lemma wp_trestart:
  assumes "im_laws r env view" "\<And>m. m \<le> 4 \<Longrightarrow> Q (dec_of_nat m) w"
  shows "wpP (get_isv env (checkA env) ''$trestart'') Q R w"
  using im_laws_isv(1) [OF assms(1), of w] assms(2) by (auto simp: get_isv_def checkA_def wpP_ask wp_simps)

lemma wp_hold_crit:
  assumes "im_laws r env view" "\<And>w'. agree test_nodes (view w') (view w) \<Longrightarrow> Q () w'" "\<And>w'. r \<Longrightarrow> R (im_restart env) w'"
  shows "wpP (hold_crit th env j) Q R w"
proof -
  have cip: "wpP (if rndm = 1 then cipT env ''noop'' else retP ()) (\<lambda>_ w'. agree test_nodes (view w') (view w1)) R w1" for rndm :: int and w1
    by (auto simp: wp_simps agree_def kept_by_def test_nodes_def intro!: wp_cipT [OF assms(1)] assms(3))
  have sleep: "wpP (if rndm = 2 then thenP (callP (im_drand48 env 10)) (retP ()) else retP ())
      (\<lambda>_ w'. agree test_nodes (view w') (view w1)) R w1" for rndm :: int and w1
    by (auto simp: wp_simps intro!: wp_drand48 [OF assms(1)])
  have zdummy: "wpP (if m \<noteq> 0 then setT th env ''^zdummy'' [t] n else retP ()) Q R w1"
    if "agree test_nodes (view w1) (view w)" for m :: int and t n w1
    using that agree_trans [OF agree_other that, of "(''^zdummy'', [t])" n]
    by (auto simp: wp_simps test_nodes_def intro!: wp_setT [OF assms(1)] assms(2,3))
  have long: "wpP (if 2 < m then thenP (if rndm = 1 then cipT env ''noop'' else retP ())
                         (if rndm = 2 then thenP (callP (im_drand48 env 10)) (retP ()) else retP ())
                    else retP ()) (\<lambda>_ w'. agree test_nodes (view w') (view w1)) R w1" for m rndm :: int and w1
  proof (cases "2 < m")
    case True
    have "wpP (if rndm = 1 then cipT env ''noop'' else retP ()) (\<lambda>_. wpP (if rndm = 2 then thenP (callP (im_drand48 env 10)) (retP ()) else retP ())
        (\<lambda>_ w'. agree test_nodes (view w') (view w1)) R) R w1"
      by (rule wpP_mono [OF cip]) (rule wpP_mono [OF sleep], erule (1) agree_trans)
    with True show ?thesis by (simp only: if_True wpP_then)
  qed (simp add: wp_simps)
  have rest: "wpP (thenP (if 2 < m then thenP (if rndm = 1 then cipT env ''noop'' else retP ())
                         (if rndm = 2 then thenP (callP (im_drand48 env 10)) (retP ()) else retP ())
                    else retP ())
           (if m \<noteq> 0 then setT th env ''^zdummy'' [t] n else retP ())) Q R w1"
    if "view w1 = view w" for m rndm :: int and t n w1
    unfolding wpP_then using that by (intro wpP_mono [OF long [of m rndm]] zdummy) simp_all
  show ?thesis
  proof (cases "and (j_istp j) (j_crash j) = 0")
    case False
    then show ?thesis
      unfolding hold_crit_def wpP_bind wpP_lift
      by (simp only: if_True not_False_eq_True wpP_bind wpP_lift)
        (rule wp_drand48 [OF assms(1)], simp, rule wp_trestart [OF assms(1)], rule exI, rule conjI, erule trestart_value, erule rest)
  qed (simp add: hold_crit_def wp_simps assms(2))
qed

text \<open>Everything that stage 1 writes without triggers, in its order.\<close>

definition stage1_nodes :: "job \<Rightarrow> turn \<Rightarrow> int \<Rightarrow> (string \<times> string list \<times> string) list" where
  "stage1_nodes j v loop =
     (''^arandom'', [dec_of_int (j_fillid j), v_subsMAX v], v_val v) # stage1_first j v @ stage1_second j v @
     (if j_istp j \<noteq> 0 then [(fst (lasti_node j), snd (lasti_node j), dec_of_int loop)] else [])"

lemma wp_stage1:
  assumes "im_laws r env view" "j_trigger j = 0" "\<not> j_ztr j"
    and "\<And>w'. agree test_nodes (view w') (apply_sets (stage1_nodes j v loop) (view w)) \<Longrightarrow> Q () w'"
    and "\<And>w'. r \<Longrightarrow> R (im_restart env) w'"
  shows "wpP (stage1 th env j v loop) Q R w"
proof -
  let ?a = "(''^arandom'', [dec_of_int (j_fillid j), v_subsMAX v], v_val v)"
  have last: "wpP (stage1_lasti th env j loop) Q R w1"
    if "agree test_nodes (view w1) (apply_sets (?a # stage1_first j v @ stage1_second j v) (view w))" for w1
    using that agree_sets [OF that, of "[(fst (lasti_node j), snd (lasti_node j), dec_of_int loop)]"] assms(3)
    by (auto simp: wp_simps stage1_lasti_def stage1_nodes_def intro!: wp_setT [OF assms(1)] assms(4,5))
  have sets: "wpP (setsT th env (stage1_first j v)) (\<lambda>_. wpP (setsT th env (stage1_second j v)) (\<lambda>_. wpP (stage1_lasti th env j loop) Q R) R) R w2"
    if "agree test_nodes (view w2) (apply_sets [?a] (view w))" for w2
    using agree_sets [OF that, of "stage1_first j v @ stage1_second j v"]
    by (intro wp_setsT [OF assms(1)] last assms(5)) simp_all
  show ?thesis
    using assms(2) unfolding stage1_def
    by (simp add: wpP_then wpP_ret)
      (intro wp_setT [OF assms(1)] wp_hold_crit [OF assms(1)] sets assms(5); simp)
qed

text \<open>
  Stage 3 without triggers.
\<close>

definition stage3_nodes :: "job \<Rightarrow> turn \<Rightarrow> (string \<times> string list \<times> string) list" where
  "stage3_nodes j v =
     (let f = dec_of_int (j_fillid j) in
      [(''^entp'', [f, v_subs v], v_val v), (''^fntp'', [f, v_subs v], v_val v), (''^gntp'', [f, v_subsMAX v], v_valMAX v),
       (''^hntp'', [f, v_subsMAX v], v_valMAX v), (''^intp'', [f, v_subsMAX v], v_valMAX v), (''^bntp'', [f, v_subsMAX v], v_valMAX v)])"

lemma wp_stage3:
  assumes "im_laws r env view" "j_trigger j = 0" "\<not> j_dztrig j"
    and "\<And>w'. view w' = apply_sets (stage3_nodes j v) (view w) \<Longrightarrow> Q () w'"
    and "\<And>w'. r \<Longrightarrow> R (im_restart env) w'"
  shows "wpP (stage3 th env j v) Q R w"
  using assms(2,3) unfolding stage3_def
  by (simp add: wpP_then wpP_ret Let_def)
    (intro wp_setT [OF assms(1)] wp_setU [OF assms(1)] assms(4,5); simp add: stage3_nodes_def Let_def)

section \<open>A turn\<close>

text \<open>The nodes that control the run.\<close>

definition control :: "node set" where
  "control = {k. fst k \<in> {''^%imptp'', ''^endloop'', ''^lasti''}}"

lemma apply_sets_other: "fst k \<notin> fst ` set ns \<Longrightarrow> apply_sets ns c k = c k"
  by (induction ns arbitrary: c) auto

lemma control_test: "control \<subseteq> test_nodes"
  by (auto simp: control_def test_nodes_def)

lemma control_kept: "name \<notin> {''getdatinfo'', ''noop''} \<Longrightarrow> control \<subseteq> kept_by name"
  by (auto simp: control_def kept_by_def)

lemma agree_set: "k \<notin> K \<Longrightarrow> agree K (c(k \<mapsto> v)) c' \<longleftrightarrow> agree K c c'"
proof -
  assume "k \<notin> K"
  then have "\<forall>k' \<in> K. (c(k \<mapsto> v)) k' = c k'" by (metis fun_upd_other)
  then show ?thesis by (simp add: agree_def)
qed

lemma agree_control_set: "g \<notin> {''^%imptp'', ''^endloop'', ''^lasti''} \<Longrightarrow> agree control (c((g, ss) \<mapsto> v)) c' \<longleftrightarrow> agree control c c'"
  by (rule agree_set) (simp add: control_def)

lemma stage1_control:
  assumes "j_trigger j = 0" "j_istp j \<noteq> 0"
  shows "agree control (apply_sets (stage1_nodes j v loop) c) (c(lasti_node j \<mapsto> dec_of_int loop))"
proof -
  have "agree control (apply_sets ((''^arandom'', [dec_of_int (j_fillid j), v_subsMAX v], v_val v) # stage1_first j v @ stage1_second j v) c) c"
    unfolding agree_def
    by (intro ballI apply_sets_other) (auto simp: control_def stage1_first_def stage1_second_def unless_trigger_def Let_def)
  from agree_sets [OF this, of "[(fst (lasti_node j), snd (lasti_node j), dec_of_int loop)]"]
  show ?thesis using assms(2) by (simp add: stage1_nodes_def)
qed

lemma stage3_control: "agree control (apply_sets (stage3_nodes j v) c) c"
  unfolding agree_def by (intro ballI apply_sets_other) (auto simp: control_def stage3_nodes_def Let_def)

lemma wp_run_stage:
  assumes "im_laws False env view" "\<And>w0. view w0 = view w \<Longrightarrow> \<exists>w1. f w0 = Inr (im_ok env, w1) \<and> P (view w1)"
    and "\<And>w'. P (view w') \<Longrightarrow> Q () w'"
  shows "wpP (run_stage th env j f) Q R w"
proof -
  have laws: "api_laws (im_api env) view" using assms(1) by (simp add: im_laws_def)
  have ok: "wpP (checkJ th env (im_ok env)) Q R w' \<longleftrightarrow> Q () w'" for w'
    using im_laws_statuses [OF assms(1)] by (simp add: checkJ_def wp_simps)
  obtain w' where w': "ydb_tp_s (im_api env) f w = Inr (im_ok env, w')"
    using api_laws_commit [OF laws] assms(2) by blast
  then obtain w0 w1 where w1: "view w0 = view w" "f w0 = Inr (im_ok env, w1)" "view w' = view w1"
    by (rule api_laws_tp [OF laws])
  then have "P (view w')" using assms(2) by fastforce
  then show ?thesis
    using w' assms(2) [of w] assms(3) by (auto simp: run_stage_def wpP_bind wpP_callE ok)
qed

lemma stage1_runs:
  assumes "im_laws False env view" "j_trigger j = 0" "\<not> j_ztr j"
  shows "\<exists>w1. tpfn_stage1 th env j v loop w = Inr (im_ok env, w1) \<and>
           agree test_nodes (view w1) (apply_sets (stage1_nodes j v loop) (view w))"
  using wpP_run [OF wp_stage1 [OF assms, where R = "\<lambda>_ _. False" and
        Q = "\<lambda>_ w1. agree test_nodes (view w1) (apply_sets (stage1_nodes j v loop) (view w))"]]
  by (auto simp: tpfn_stage1_def)

lemma stage3_runs:
  assumes "im_laws False env view" "j_trigger j = 0" "\<not> j_dztrig j"
  shows "\<exists>w1. tpfn_stage3 th env j v w = Inr (im_ok env, w1) \<and> view w1 = apply_sets (stage3_nodes j v) (view w)"
  using wpP_run [OF wp_stage3 [OF assms, where R = "\<lambda>_ _. False" and
        Q = "\<lambda>_ w1. view w1 = apply_sets (stage3_nodes j v) (view w)"]]
  by (auto simp: tpfn_stage3_def)

lemma wp_get_var:
  assumes "im_laws False env view" "view w (name, []) = Some x" "length x \<le> n" "n \<le> BIGMAXVALUELEN" "Q x w"
  shows "wpP (get_var th env name n) Q R w"
  unfolding get_var_def wpP_bind
  by (rule wp_getJ [OF assms(1,2)]) (use assms in \<open>simp_all add: wp_simps copy_buff_def\<close>)

lemma wp_values:
  assumes "im_laws False env view" "helper1_laws env view" "is_int I" "\<And>v w'. agree control (view w') (view w) \<Longrightarrow> Q v w'"
  shows "wpP (impjob_values th env loop I) Q R w"
proof -
  have fits: "length (dec_of_int I) \<le> MAXVALUELEN" using length_dec_of_int [of I] assms(3) by (simp add: is_int_def MAXVALUELEN_def)
  show ?thesis
    unfolding impjob_values_def wpP_then wpP_bind
  proof (intro wp_setJ [OF assms(1)] wp_cipJ [OF assms(1)])
    fix w1 w2 w3
    assume w: "view w1 = (view w)((''I'', []) \<mapsto> dec_of_int I)" "view w2 = (view w1)((''loop'', []) \<mapsto> dec_of_int loop)"
      "w3 = snd (ydb_cip env ''helper1'' w2)" "\<And>k. k \<in> kept_by ''helper1'' \<Longrightarrow> view w3 k = view w2 k"
    have I: "view w3 (''I'', []) = Some (dec_of_int I)" using w(1,2) w(4) [of "(''I'', [])"] by (simp add: kept_by_def)
    have "agree control (view w3) (view w2)" using w(4) control_kept [of "''helper1''"] by (auto simp: agree_def)
    then have c: "agree control (view w3) (view w)" using w(1,2) by (auto simp: agree_def control_def)
    obtain x1 x2 x3 x4 x5 where x: "view w3 (''subsMAX'', []) = Some x1" "length x1 \<le> BIGMAXVALUELEN"
      "view w3 (''val'', []) = Some x2" "length x2 \<le> MAXVALUELEN" "view w3 (''valALT'', []) = Some x3" "length x3 \<le> MAXVALUELEN"
      "view w3 (''valMAX'', []) = Some x4" "length x4 \<le> BIGMAXVALUELEN" "view w3 (''subs'', []) = Some x5" "length x5 \<le> MAXVALUELEN"
      using assms(2) [unfolded helper1_laws_def, THEN spec, of w2] w(3) by auto
    have big: "BIGMAXVALUELEN \<le> BIGMAXVALUELEN" "MAXVALUELEN \<le> BIGMAXVALUELEN" by (simp_all add: BIGMAXVALUELEN_def)
    note get = wp_get_var [where view = view and w = w3, OF assms(1)]
    note rules = get [OF x(1,2) big(1)] get [OF x(3,4) big(2)] get [OF x(5,6) big(2)]
      get [OF x(7,8) big(1)] get [OF x(9,10) big(2)] get [OF I fits big(2)]
    show "wpP (get_var th env ''subsMAX'' BIGMAXVALUELEN) (\<lambda>x. wpP (get_var th env ''val'' MAXVALUELEN) (\<lambda>xa. wpP
        (get_var th env ''valALT'' MAXVALUELEN) (\<lambda>xb. wpP (get_var th env ''valMAX'' BIGMAXVALUELEN) (\<lambda>xc. wpP
        (get_var th env ''subs'' MAXVALUELEN) (\<lambda>xd. wpP (get_var th env ''I'' MAXVALUELEN) (\<lambda>xe. wpP (retP
        \<lparr>v_subsMAX = x, v_val = xa, v_valALT = xb, v_valMAX = xc, v_subs = xd, v_I = xe\<rparr>) Q R) R) R) R) R) R) R w3"
      by (rule rules(1), rule rules(2), rule rules(3), rule rules(4), rule rules(5), rule rules(6)) (simp only: wpP_ret, rule assms(4), rule c)
  qed
qed

lemma wp_stage2:
  assumes "im_laws False env view" "j_trigger j = 0" "\<And>w'. agree control (view w') (view w) \<Longrightarrow> Q () w'"
  shows "wpP (stage2 th env j v) Q R w"
proof -
  have "agree control (view w1) (view w)" if "\<And>k. k \<in> kept_by ''helper2'' \<Longrightarrow> view w1 k = view w k" for w1
    using that control_kept [of "''helper2''"] by (auto simp: agree_def)
  then show ?thesis
    using assms(2) unfolding stage2_def
    by (simp add: wpP_then Let_def) (intro wp_cipJ [OF assms(1)] wp_setJ [OF assms(1)] assms(3); simp add: agree_control_set)
qed

section \<open>An instance\<close>

text \<open>The store as the database, with a \<^verbatim>\<open>helper1\<close> that computes short keys and values
  and a \<^verbatim>\<open>getdatinfo\<close> that reports small sizes.\<close>

definition demo_imptp :: "contents imptp_env" where
  "demo_imptp = \<lparr>im_api = store_api, err_gvundef = 3, err_callinafterxit = 4, err_jnlextend = 5, err_jnlswitchfail = 6,
     ydb_ci = (\<lambda>name w. (0, w)),
     ydb_cip = (\<lambda>name w. (0, if name = ''helper1''
        then w((''subs'', []) \<mapsto> ''s'', (''subsMAX'', []) \<mapsto> '' s'', (''val'', []) \<mapsto> ''v'', (''valALT'', []) \<mapsto> ''v'', (''valMAX'', []) \<mapsto> '' v'')
        else if name = ''getdatinfo'' then w(pct 0 ''key_size'' \<mapsto> dec_of_int 40, pct 0 ''record_size'' \<mapsto> dec_of_int 900)
        else w)),
     ydb_get_isv = (\<lambda>name n w. (0, ''0'')),
     ydb_data_s = (\<lambda>g ss w. (0, if \<forall>ss'. w (g, ss @ ss') = None then 0 else 1)),
     ydb_incr_s = (\<lambda>g ss w. (0, w((g, ss) \<mapsto> ''1''))), ydb_lock_incr_s = (\<lambda>g ss w. (0, w)), ydb_lock_decr_s = (\<lambda>g ss w. (0, w)),
     ydb_child_init = (\<lambda>w. (0, w)), im_drand48 = (\<lambda>n w. (0, w)), im_fork = (\<lambda>w. (1, w)),
     im_sleep = (\<lambda>w. (0, w((''^cntloop'', [''0'']) \<mapsto> ''1'', (''^%imptp'', [''0'', ''jsyncnt'']) \<mapsto> ''5''))),
     im_getenv = Map.empty\<rparr>"

lemma demo_zero: "''0'' = dec_of_nat 0"
  by code_simp

lemma demo_read_laws: "read_laws False demo_imptp id"
proof -
  have t: "\<exists>m\<le>4. ''0'' = dec_of_nat m" using demo_zero by blast
  have "Suc 0 < BIGMAXVALUELEN" by (simp add: BIGMAXVALUELEN_def MAXVALUELEN_def)
  with t show ?thesis unfolding read_laws_def by (simp add: demo_imptp_def store_api_def split: option.split)
qed

lemma demo_cip_keeps:
  assumes "k \<in> kept_by name"
  shows "snd (ydb_cip demo_imptp name w) k = w k"
proof -
  consider "name = ''helper1''" | "name = ''getdatinfo''" | "name \<notin> {''helper1'', ''getdatinfo''}" by blast
  then show ?thesis
  proof cases
    case 1
    then have "fst k \<in> {''I'', ''^%imptp'', ''^endloop'', ''^lasti''}" using assms by (simp add: kept_by_def)
    then have "k \<noteq> (v, [])" if "v \<in> {''subs'', ''subsMAX'', ''val'', ''valALT'', ''valMAX''}" for v using that by (cases k) auto
    with 1 show ?thesis by (simp add: demo_imptp_def)
  next
    case 2
    then have names: "n \<notin> datinfo_names" if "k = (''^%imptp'', [f, n])" for f n using assms that by (simp add: kept_by_def)
    have "''key_size'' \<in> datinfo_names" "''record_size'' \<in> datinfo_names" by (simp_all add: datinfo_names_def)
    then have "k \<noteq> pct 0 ''key_size''" "k \<noteq> pct 0 ''record_size''" unfolding pct_def using names by blast+
    with 2 show ?thesis by (simp add: demo_imptp_def)
  qed (simp add: demo_imptp_def)
qed

lemma demo_call_laws: "call_laws False demo_imptp id"
  unfolding call_laws_def using demo_cip_keeps by (simp add: demo_imptp_def store_api_def)

lemma im_laws_mono: "im_laws False env view \<Longrightarrow> im_laws True env view"
  by (auto simp: im_laws_def read_laws_def call_laws_def)

lemma demo_laws: "im_laws False demo_imptp id" "helper1_laws demo_imptp id"
proof -
  have "api_laws (im_api demo_imptp) id" using store_api_laws by (simp add: demo_imptp_def)
  moreover have "status_laws demo_imptp" by (simp add: status_laws_def demo_imptp_def store_api_def)
  ultimately show "im_laws False demo_imptp id" using demo_read_laws demo_call_laws by (simp add: im_laws_def)
  show "helper1_laws demo_imptp id"
    by (simp add: helper1_laws_def demo_imptp_def BIGMAXVALUELEN_def MAXVALUELEN_def)
qed

end
