(* ===== verification/Imptp_Params.thy ===== *)
theory Imptp_Params
  imports Imptp_Correct
begin

text \<open>
  The parent and its jobs: what the parent writes into a database without parameters is what every job reads.
\<close>

section \<open>What the parent writes\<close>

definition params :: "node set" where
  "params = {k. fst k = ''^%imptp''}"

lemma agree_params_set: "fst k \<noteq> ''^%imptp'' \<Longrightarrow> agree params (c(k \<mapsto> v)) c' \<longleftrightarrow> agree params c c'"
  by (rule agree_set) (simp add: params_def)

lemma agree_params_sets: "''^%imptp'' \<notin> fst ` set ns \<Longrightarrow> agree params (apply_sets ns c) c"
  unfolding agree_def params_def by (intro ballI apply_sets_other) auto

text \<open>Nothing under a parameter.\<close>

definition no_param :: "int \<Rightarrow> string \<Rightarrow> contents \<Rightarrow> bool" where
  "no_param fillid name c \<longleftrightarrow> (\<forall>ss. c (''^%imptp'', dec_of_int fillid # name # ss) = None)"

lemma no_param_agree: "agree params c c' \<Longrightarrow> no_param fillid name c \<longleftrightarrow> no_param fillid name c'"
  by (auto simp: agree_def params_def no_param_def)

lemma no_param_set: "name \<noteq> name' \<Longrightarrow> no_param fillid name (c(pct fillid name' \<mapsto> v)) \<longleftrightarrow> no_param fillid name c"
  by (auto simp: no_param_def pct_def)

lemma im_laws_data:
  assumes "im_laws r env view"
  shows "fst (ydb_data_s env g ss w) = im_ok env" "snd (ydb_data_s env g ss w) = 0 \<longleftrightarrow> (\<forall>ss'. view w (g, ss @ ss') = None)"
  using assms by (auto simp: im_laws_def read_laws_def)

lemma wp_unless_data:
  assumes "im_laws False env view" "no_param fillid name (view w)"
    and "wpP m (\<lambda>v w'. \<forall>w''. view w'' = (view w')(pct fillid name \<mapsto> v) \<longrightarrow> Q () w'') R w"
  shows "wpP (unless_data env (pct fillid name) m) Q R w"
proof -
  let ?k = "pct fillid name"
  have "ydb_data_s env (fst ?k) (snd ?k) w = (im_ok env, 0)"
    using im_laws_data [OF assms(1), of "fst ?k" "snd ?k" w] assms(2) by (cases "ydb_data_s env (fst ?k) (snd ?k) w") (simp add: no_param_def pct_def)
  moreover have "wpP m (\<lambda>v. wpP (setA env (fst ?k) (snd ?k) v) Q R) R w"
    by (rule wpP_mono [OF assms(3)]) (auto intro!: wp_setA [OF assms(1)])
  ultimately show ?thesis by (simp add: unless_data_def wp_simps wpP_ask checkA_def)
qed

lemma wp_unless_other:
  assumes "im_laws False env view" "fst k \<noteq> ''^%imptp''" "\<And>w'. agree params (view w') (view w) \<Longrightarrow> Q () w'"
  shows "wpP (unless_data env k (retP v)) Q R w"
proof -
  have "wpP (setA env (fst k) (snd k) v) Q R w"
    by (rule wp_setA [OF assms(1)]) (simp add: assms(2,3) agree_params_set)
  then show ?thesis
    using im_laws_data(1) [OF assms(1), of "fst k" "snd k" w] assms(3) [of w]
    by (simp add: unless_data_def wp_simps wpP_ask checkA_def case_prod_beta)
qed

lemma wp_choices:
  assumes "im_laws False env view" "\<And>v w'. view w' = view w \<Longrightarrow> v \<in> {0, 1} \<Longrightarrow> Q (dec_of_int v) w'"
  shows "wpP (choose_tpnoiso env istp) Q R w" "wpP (choose_dupset env) Q R w"
proof -
  have dec: "''0'' = dec_of_int 0" "''1'' = dec_of_int 1" by code_simp+
  show "wpP (choose_tpnoiso env istp) Q R w"
    unfolding choose_tpnoiso_def using assms(2) dec by (auto simp: wp_simps intro!: wp_drand48 [OF assms(1)])
  show "wpP (choose_dupset env) Q R w"
    unfolding choose_dupset_def wp_simps
  proof (rule wp_drand48 [OF assms(1)])
    fix x w' assume "view w' = view w" "0 \<le> x" "x < (2 :: int)"
    moreover from this have "x \<in> {0, 1}" by auto
    ultimately show "Q (dec_of_int x) w'" by (intro assms(2))
  qed simp
qed

text \<open>The parameters of the modes, with the two that are chosen at random.\<close>

definition mode_nodes :: "'w imptp_env \<Rightarrow> int \<Rightarrow> int \<Rightarrow> int \<Rightarrow> int \<Rightarrow> (string \<times> string list \<times> string) list" where
  "mode_nodes env fillid istp t d =
     [pset fillid ''istp'' (dec_of_int istp), pset fillid ''tptype'' (imptp_tptype env),
      pset fillid ''tpnoiso'' (dec_of_int t), pset fillid ''dupset'' (dec_of_int d),
      pset fillid ''crash'' (dec_of_int (getenv_int env ''gtm_test_crash'')),
      pset fillid ''gtcm'' (dec_of_int (getenv_int env ''gtm_test_is_gtcm'')),
      pset fillid ''skipreg'' (dec_of_int (getenv_int env ''gtm_test_repl_norepl''))]"

lemma apply_pset [simp]:
  "(fst (pset fillid name v), fst (snd (pset fillid name v))) = pct fillid name" "snd (snd (pset fillid name v)) = v"
  by (simp_all add: pset_def)

lemma wp_modes:
  assumes "im_laws False env view" "imptp_istp env = Inr istp" "no_param fillid ''tpnoiso'' (view w)" "no_param fillid ''dupset'' (view w)"
    and "\<And>t d w'. t \<in> {0, 1} \<Longrightarrow> d \<in> {0, 1} \<Longrightarrow> agree params (view w') (apply_sets (mode_nodes env fillid istp t d) (view w)) \<Longrightarrow> Q () w'"
  shows "wpP (setup_modes env fillid) Q R w"
  unfolding setup_modes_def wpP_bind wpP_lift wpP_then
proof (intro exI conjI, rule assms(2), rule wp_setsA [OF assms(1)])
  let ?ns1 = "[(''istp'', [], dec_of_int istp), pset fillid ''istp'' (dec_of_int istp), pset fillid ''tptype'' (imptp_tptype env)]"
  let ?ns2 = "[pset fillid ''crash'' (dec_of_int (getenv_int env ''gtm_test_crash'')), pset fillid ''gtcm'' (dec_of_int (getenv_int env ''gtm_test_is_gtcm'')),
      pset fillid ''skipreg'' (dec_of_int (getenv_int env ''gtm_test_repl_norepl''))]"
  fix w1 assume w1: "view w1 = apply_sets ?ns1 (view w)"
  have start: "agree params ((view w)((''istp'', []) \<mapsto> dec_of_int istp)) (view w)" by (simp add: agree_params_set)
  have n1: "no_param fillid ''tpnoiso'' (view w1)" "no_param fillid ''dupset'' (view w1)"
    using assms(3,4) no_param_agree [OF start] by (simp_all add: w1 no_param_set)
  have last: "wpP (setsA env ?ns2) Q R w3"
    if "view w3 = (view w1)(pct fillid ''tpnoiso'' \<mapsto> dec_of_int t, pct fillid ''dupset'' \<mapsto> dec_of_int d)" "t \<in> {0, 1}" "d \<in> {0, 1}" for w3 t d
  proof (rule wp_setsA [OF assms(1)], rule assms(5) [OF that(2,3)])
    fix w4 assume w4: "view w4 = apply_sets ?ns2 (view w3)"
    have "view w4 = apply_sets (mode_nodes env fillid istp t d) ((view w)((''istp'', []) \<mapsto> dec_of_int istp))"
      by (simp add: w4 w1 that(1) mode_nodes_def)
    then show "agree params (view w4) (apply_sets (mode_nodes env fillid istp t d) (view w))"
      using agree_sets [OF start] by simp
  qed
  show "wpP (unless_data env (pct fillid ''tpnoiso'') (choose_tpnoiso env istp))
      (\<lambda>_. wpP (unless_data env (pct fillid ''dupset'') (choose_dupset env)) (\<lambda>_. wpP (setsA env ?ns2) Q R) R) R w1"
  proof (intro wp_unless_data [OF assms(1) n1(1)] wp_choices [OF assms(1)] allI impI)
    fix t and w2 w2' assume w2: "view w2 = view w1" "t \<in> {0, 1 :: int}" "view w2' = (view w2)(pct fillid ''tpnoiso'' \<mapsto> dec_of_int t)"
    have "no_param fillid ''dupset'' (view w2')" using n1(2) w2 by (simp add: no_param_set)
    then show "wpP (unless_data env (pct fillid ''dupset'') (choose_dupset env)) (\<lambda>_. wpP (setsA env ?ns2) Q R) R w2'"
      using w2 by (intro wp_unless_data [OF assms(1)] wp_choices [OF assms(1)] allI impI) (auto intro!: last)
  qed
qed

definition fillid_node :: "'w imptp_env \<Rightarrow> node" where
  "fillid_node env = (''^%imptp'', [''fillid'', dec_of_int (getenv_int env ''gtm_test_jobid'')])"

lemma dec_not_fillid [simp]: "dec_of_int n \<noteq> ''fillid''" "''fillid'' \<noteq> dec_of_int n"
proof -
  have "CHR ''f'' \<notin> set (dec_of_int n)" using dec_of_int_chars [of "CHR ''f''" n] by (auto simp: is_digit_def)
  moreover have "CHR ''f'' \<in> set ''fillid''" by simp
  ultimately show "dec_of_int n \<noteq> ''fillid''" "''fillid'' \<noteq> dec_of_int n" by metis+
qed

lemma pct_inject [simp]: "pct fillid a = pct fillid b \<longleftrightarrow> a = b" "pct fillid a \<noteq> fillid_node env" "fillid_node env \<noteq> pct fillid a"
  by (simp_all add: pct_def fillid_node_def)

text \<open>Everything under \<^verbatim>\<open>^%imptp\<close> that the parent writes itself, and the nodes that \<^verbatim>\<open>get^datinfo\<close> leaves to it.\<close>

definition setup_nodes :: "'w imptp_env \<Rightarrow> int \<Rightarrow> int \<Rightarrow> int \<Rightarrow> (string \<times> string list \<times> string) list" where
  "setup_nodes env istp t d =
     (let fillid = getenv_int env ''gtm_test_dbfillid'' in
      mode_nodes env fillid istp t d @
      [(fst (fillid_node env), snd (fillid_node env), dec_of_int fillid),
       pset fillid ''gtm_test_spannode'' (dec_of_int (getenv_int env ''gtm_test_spannode'')), pset fillid ''trigger'' ''0'',
       pset fillid ''totaljob'' (dec_of_int (imptp_jobcnt env)),
       pset fillid ''prime'' (dec_of_int 50000017), pset fillid ''root'' (dec_of_int 5), pset fillid ''jsyncnt'' ''0''])"

definition own_params :: "node set" where
  "own_params = params \<inter> kept_by ''getdatinfo''"

definition size_nodes :: "int \<Rightarrow> node set" where
  "size_nodes fillid = {pct fillid ''key_size'', pct fillid ''record_size''}"

definition datinfo_laws :: "'w imptp_env \<Rightarrow> ('w \<Rightarrow> contents) \<Rightarrow> bool" where
  "datinfo_laws env view \<longleftrightarrow>
     (\<forall>w. \<forall>k \<in> size_nodes (getenv_int env ''gtm_test_dbfillid''). \<exists>n. is_int n \<and> view (snd (ydb_cip env ''getdatinfo'' w)) k = Some (dec_of_int n))"

lemma wp_setsA_params:
  assumes "im_laws False env view" "agree K (apply_sets ns (view w)) c"
    and "\<And>w'. agree K (view w') c \<Longrightarrow> Q () w'"
  shows "wpP (setsA env ns) Q R w"
  by (rule wp_setsA [OF assms(1)]) (simp add: assms(2,3))

lemma own_params_sub: "own_params \<subseteq> params"
  by (simp add: own_params_def)

lemma agree_subset: "agree K c c' \<Longrightarrow> L \<subseteq> K \<Longrightarrow> agree L c c'"
  by (auto simp: agree_def)

lemma size_nodes_sub: "size_nodes fillid \<subseteq> params"
  by (auto simp: size_nodes_def params_def pct_def)

lemma wp_ids:
  assumes "im_laws False env view" "datinfo_laws env view" "fillid = getenv_int env ''gtm_test_dbfillid''"
    and "\<And>w'. agree own_params (view w') (apply_sets [(fst (fillid_node env), snd (fillid_node env), dec_of_int fillid),
         pset fillid ''gtm_test_spannode'' (dec_of_int (getenv_int env ''gtm_test_spannode'')), pset fillid ''trigger'' ''0''] (view w)) \<Longrightarrow>
       \<forall>k \<in> size_nodes fillid. \<exists>n. is_int n \<and> view w' k = Some (dec_of_int n) \<Longrightarrow> Q () w'"
  shows "wpP (setup_ids env fillid) Q R w"
proof -
  let ?jobid = "dec_of_int (getenv_int env ''gtm_test_jobid'')"
  let ?ns1 = "[(''jobid'', [], ?jobid), (''^%imptp'', [''fillid'', ?jobid], dec_of_int fillid)]"
  let ?ns2 = "[pset fillid ''gtm_test_spannode'' (dec_of_int (getenv_int env ''gtm_test_spannode'')), pset fillid ''trigger'' ''0'']"
  show ?thesis
    unfolding setup_ids_def Let_def wpP_then
  proof (rule wp_setsA [OF assms(1)], rule wp_cipA [OF assms(1)], rule wp_setsA [OF assms(1)])
    fix w1 w2 w3
    assume w: "view w1 = apply_sets ?ns1 (view w)" "w2 = snd (ydb_cip env ''getdatinfo'' w1)"
      "\<And>k. k \<in> kept_by ''getdatinfo'' \<Longrightarrow> view w2 k = view w1 k" "view w3 = apply_sets ?ns2 (view w2)"
    have "agree params (view w1) ((view w)(fillid_node env \<mapsto> dec_of_int fillid))"
      using w(1) by (simp add: fillid_node_def agree_def params_def)
    then have "agree own_params (view w1) ((view w)(fillid_node env \<mapsto> dec_of_int fillid))" by (rule agree_subset [OF _ own_params_sub])
    moreover have "agree own_params (view w2) (view w1)" using w(3) by (simp add: agree_def own_params_def)
    ultimately have "agree own_params (view w2) ((view w)(fillid_node env \<mapsto> dec_of_int fillid))" using agree_trans by blast
    from agree_sets [OF this, of ?ns2] w(4) have own: "agree own_params (view w3) (apply_sets ((fst (fillid_node env), snd (fillid_node env), dec_of_int fillid) # ?ns2) (view w))"
      by simp
    have "view w3 k = view w2 k" if "k \<in> size_nodes fillid" for k using that w(4) by (auto simp: size_nodes_def)
    then have "\<forall>k \<in> size_nodes fillid. \<exists>n. is_int n \<and> view w3 k = Some (dec_of_int n)"
      using assms(2,3) w(2) by (simp add: datinfo_laws_def)
    with own show "Q () w3" by (rule assms(4))
  qed
qed

lemma no_param_fillid: "no_param fillid name (c(fillid_node env \<mapsto> v)) \<longleftrightarrow> no_param fillid name c"
  by (simp add: no_param_def fillid_node_def)

lemma no_param_own:
  assumes "agree own_params c c'" "name \<notin> datinfo_names"
  shows "no_param fillid name c \<longleftrightarrow> no_param fillid name c'"
proof -
  have "(''^%imptp'', dec_of_int fillid # name # ss) \<in> own_params" for ss
    using assms(2) by (auto simp: own_params_def params_def kept_by_def)
  then show ?thesis using assms(1) by (auto simp: agree_def no_param_def)
qed

lemma wp_totaljob:
  assumes "im_laws False env view" "no_param fillid ''totaljob'' (view w)"
    and "\<And>w'. view w' = (view w)(pct fillid ''totaljob'' \<mapsto> dec_of_int jobcnt) \<Longrightarrow> Q () w'"
  shows "wpP (check_totaljob env fillid jobcnt) Q R w"
proof -
  have "snd (ydb_data_s env ''^%imptp'' [dec_of_int fillid, ''totaljob''] w) = 0"
    using im_laws_data(2) [OF assms(1), of "''^%imptp''" "[dec_of_int fillid, ''totaljob'']" w] assms(2) by (simp add: no_param_def)
  moreover have "wpP (setA env ''^%imptp'' [dec_of_int fillid, ''totaljob''] (dec_of_int jobcnt)) Q R w"
    using assms(3) by (intro wp_setA [OF assms(1)]) (simp add: pct_def)
  ultimately show ?thesis
    using im_laws_data(1) [OF assms(1), of "''^%imptp''" "[dec_of_int fillid, ''totaljob'']" w]
    by (simp add: check_totaljob_def pct_def wp_simps wpP_ask checkA_def case_prod_beta)
qed

lemma wp_walk:
  assumes "im_laws False env view"
    and "\<And>w'. agree params (view w') (apply_sets [pset fillid ''prime'' (dec_of_int 50000017), pset fillid ''root'' (dec_of_int 5),
         pset fillid ''jsyncnt'' ''0''] (view w)) \<Longrightarrow> Q () w'"
  shows "wpP (setup_walk env fillid) Q R w"
proof -
  let ?f = "dec_of_int fillid"
  let ?ns = "[pset fillid ''prime'' (dec_of_int 50000017), pset fillid ''root'' (dec_of_int 5), (''^endloop'', [?f], ''0'')]"
  show ?thesis
    unfolding setup_walk_def Let_def wpP_then
  proof (rule wp_setsA [OF assms(1)], rule wp_unless_other [OF assms(1)], simp, rule wp_unless_other [OF assms(1)], simp,
      rule wp_setsA [OF assms(1)], rule assms(2))
    fix w1 w2 w3 w4
    assume w: "view w1 = apply_sets ?ns (view w)" "agree params (view w2) (view w1)" "agree params (view w3) (view w2)"
      "view w4 = apply_sets [pset fillid ''jsyncnt'' ''0''] (view w3)"
    have "agree params (view w1) (apply_sets [pset fillid ''prime'' (dec_of_int 50000017), pset fillid ''root'' (dec_of_int 5)] (view w))"
      using w(1) by (simp add: agree_params_set)
    from agree_sets [OF agree_trans [OF agree_trans [OF w(3,2)] this], of "[pset fillid ''jsyncnt'' ''0'']"]
    show "agree params (view w4) (apply_sets [pset fillid ''prime'' (dec_of_int 50000017), pset fillid ''root'' (dec_of_int 5),
         pset fillid ''jsyncnt'' ''0''] (view w))" using w(4) by simp
  qed
qed

lemma wp_tables:
  assumes "im_laws False env view" "\<And>w'. agree params (view w') (view w) \<Longrightarrow> Q () w'"
  shows "wpP (setup_tables env jobcnt) Q R w"
  unfolding setup_tables_def Let_def wpP_then
proof (rule wp_setsA_params [OF assms(1)], rule agree_params_sets, force, rule wp_setsA_params [OF assms(1)], rule agree_params_sets, force, rule assms(2))
  fix w1 w2 assume "agree params (view w2) (view w1)" "agree params (view w1) (view w)"
  then show "agree params (view w2) (view w)" by (rule agree_trans)
qed

lemma wp_zroutines:
  assumes "im_laws r env view" "\<And>z. length z < BIGMAXVALUELEN \<Longrightarrow> Q z w" "check (im_ok env) = assertP True"
  shows "wpP (get_isv env check ''$zroutines'') Q R w"
  using im_laws_isv(2) [OF assms(1), of w] assms(2,3) by (auto simp: get_isv_def wpP_ask wp_simps)

lemma int_of_value_short: "length z < BIGMAXVALUELEN \<Longrightarrow> \<exists>n. int_of_value z = Inr n"
  by (simp add: int_of_value_def)

lemma own_agree: "agree params c c' \<Longrightarrow> agree own_params c c'"
  by (erule agree_subset) (rule own_params_sub)

lemma size_agree: "agree params c c' \<Longrightarrow> agree (size_nodes fillid) c c'"
  by (erule agree_subset) (rule size_nodes_sub)

lemma agree_after:
  assumes "agree K c' (apply_sets ns c)" "agree K c (apply_sets ms c0)"
  shows "agree K c' (apply_sets (ms @ ns) c0)"
  using agree_trans [OF assms(1) agree_sets [OF assms(2)]] by simp

lemma wp_setup:
  assumes "im_laws False env view" "datinfo_laws env view" "imptp_istp env = Inr istp" "\<forall>k \<in> params. view w k = None"
    and "\<And>t d w'. t \<in> {0, 1} \<Longrightarrow> d \<in> {0, 1} \<Longrightarrow> agree own_params (view w') (apply_sets (setup_nodes env istp t d) (view w)) \<Longrightarrow>
       \<forall>k \<in> size_nodes (getenv_int env ''gtm_test_dbfillid''). \<exists>n. is_int n \<and> view w' k = Some (dec_of_int n) \<Longrightarrow> Q () w'"
  shows "wpP (imptp_setup env) Q R w"
proof -
  let ?f = "getenv_int env ''gtm_test_dbfillid''"
  let ?ns = "[(fst (fillid_node env), snd (fillid_node env), dec_of_int ?f),
         pset ?f ''gtm_test_spannode'' (dec_of_int (getenv_int env ''gtm_test_spannode'')), pset ?f ''trigger'' ''0'']"
  let ?ms = "[pset ?f ''prime'' (dec_of_int 50000017), pset ?f ''root'' (dec_of_int 5), pset ?f ''jsyncnt'' ''0'']"
  have start: "no_param ?f name c" if "agree params c (view w)" for name c
  proof -
    have "(''^%imptp'', dec_of_int ?f # name # ss) \<in> params" for ss by (simp add: params_def)
    then show ?thesis using that assms(4) by (simp add: no_param_def agree_def)
  qed
  let ?rest = "\<lambda>_. wpP (check_totaljob env ?f (imptp_jobcnt env)) (\<lambda>_. wpP (setup_walk env ?f) (\<lambda>_. wpP (setup_tables env (imptp_jobcnt env)) Q R) R) R"
  have modes: "wpP (setup_modes env ?f) (\<lambda>_. wpP (setup_ids env ?f) ?rest R) R w2" if w2: "agree params (view w2) (view w)" for w2
  proof (rule wp_modes [OF assms(1,3) start [OF w2] start [OF w2]])
    fix t d :: int and w3
    assume td: "t \<in> {0, 1}" "d \<in> {0, 1}" and w3: "agree params (view w3) (apply_sets (mode_nodes env ?f istp t d) (view w2))"
    show "wpP (setup_ids env ?f) ?rest R w3"
    proof (rule wp_ids [OF assms(1,2) refl])
      fix w4
      assume w4: "agree own_params (view w4) (apply_sets ?ns (view w3))" "\<forall>k \<in> size_nodes ?f. \<exists>n. is_int n \<and> view w4 k = Some (dec_of_int n)"
      have own4: "agree own_params (view w4) (apply_sets (mode_nodes env ?f istp t d @ ?ns) (view w))"
        by (rule agree_after [OF w4(1) own_agree [OF agree_trans [OF w3 agree_sets [OF w2]]]])
      have "no_param ?f ''totaljob'' (apply_sets (mode_nodes env ?f istp t d @ ?ns) (view w))"
        using start [of "view w" "''totaljob''"] by (simp add: mode_nodes_def no_param_set no_param_fillid)
      then have np: "no_param ?f ''totaljob'' (view w4)"
        using no_param_own [OF own4, of "''totaljob''"] by (simp add: datinfo_names_def)
      show "?rest () w4"
      proof (rule wp_totaljob [OF assms(1) np], rule wp_walk [OF assms(1)], rule wp_tables [OF assms(1)])
        fix w5 w6 w7
        assume w5: "view w5 = (view w4)(pct ?f ''totaljob'' \<mapsto> dec_of_int (imptp_jobcnt env))"
          and w6: "agree params (view w6) (apply_sets ?ms (view w5))" and w7: "agree params (view w7) (view w6)"
        have 76: "agree params (view w7) (apply_sets (pset ?f ''totaljob'' (dec_of_int (imptp_jobcnt env)) # ?ms) (view w4))"
          using agree_trans [OF w7 w6] w5 by simp
        have own: "agree own_params (view w7) (apply_sets (setup_nodes env istp t d) (view w))"
          using agree_after [OF own_agree [OF 76] own4] by (simp add: setup_nodes_def Let_def)
        have "view w7 k = view w4 k" if "k \<in> size_nodes ?f" for k
          using size_agree [OF 76, of ?f] that by (auto simp: agree_def size_nodes_def)
        then show "Q () w7" using w4(2) by (intro assms(5) [OF td own]) simp
      qed
    qed
  qed
  have fillid: "wpP (setA env ''fillid'' [] (dec_of_int ?f)) (\<lambda>_. wpP (setup_modes env ?f) (\<lambda>_. wpP (setup_ids env ?f) ?rest R) R) R w1"
    if w1: "view w1 = (view w)((''jobcnt'', []) \<mapsto> dec_of_int (imptp_jobcnt env))" for w1
    by (rule wp_setA [OF assms(1)], rule modes) (simp add: w1 agree_params_set)
  show ?thesis
    unfolding imptp_setup_def Let_def wpP_then wpP_bind wpP_lift
    by (rule wp_setA [OF assms(1)], rule wp_zroutines [OF assms(1)])
      (use fillid int_of_value_short in \<open>auto simp: checkA_def\<close>)
qed

section \<open>What a job reads\<close>

text \<open>The parameters that jobs do not change: all but the count of the jobs that are ready.\<close>

definition fixed_params :: "node set" where
  "fixed_params = params - {k. last (snd k) = ''jsyncnt''}"

lemma wp_param:
  assumes "im_laws False env view" "agree fixed_params (view w) c" "c (pct fillid name) = Some (dec_of_int x)" "is_int x"
    and "name \<noteq> ''jsyncnt''" "Q x w"
  shows "wpP (param th env fillid name) Q R w"
proof -
  have "pct fillid name \<in> fixed_params" using assms(5) by (simp add: fixed_params_def params_def pct_def)
  then have "view w (fst (pct fillid name), snd (pct fillid name)) = Some (dec_of_int x)" using assms(2,3) by (simp add: agree_def)
  then show ?thesis unfolding param_def by (rule wp_getI [where view = view, OF assms(1)]) (use assms(4,6) in simp_all)
qed

lemma wp_local:
  assumes "im_laws False env view" "agree fixed_params (view w) c" "g \<noteq> ''^%imptp''" "\<And>w'. agree fixed_params (view w') c \<Longrightarrow> Q () w'"
  shows "wpP (setJ th env g ss v) Q R w"
  using assms(2,3) by (intro wp_setJ [OF assms(1)] assms(4)) (simp add: agree_set fixed_params_def params_def)

lemma wp_param_var:
  assumes "im_laws False env view" "agree fixed_params (view w) c" "c (pct fillid name) = Some (dec_of_int x)" "is_int x"
    and "name \<noteq> ''jsyncnt''" "var \<noteq> ''^%imptp''" "\<And>w'. agree fixed_params (view w') c \<Longrightarrow> Q x w'"
  shows "wpP (param_var th env fillid name var) Q R w"
  unfolding param_var_def wpP_bind wpP_then wpP_ret
  by (rule wp_param [where view = view, OF assms(1-5)], rule wp_local [where view = view, OF assms(1,2,6)], rule assms(7))

lemma wp_ids_read:
  assumes "im_laws False env view" "agree fixed_params (view w) c"
    and "c (fillid_node env) = Some (dec_of_int fillid)" "is_int fillid" "c (pct fillid ''totaljob'') = Some (dec_of_int jobcnt)" "is_int jobcnt"
    and "c (pct fillid ''prime'') = Some (dec_of_int prime)" "is_int prime" "c (pct fillid ''root'') = Some (dec_of_int root)" "is_int root"
    and "c (pct fillid ''top'') = None" "c_div prime jobcnt = Inr turns"
    and "\<And>w'. agree fixed_params (view w') c \<Longrightarrow> Q (fillid, jobcnt, prime, root, turns) w'"
  shows "wpP (impjob_ids th env childnum) Q R w"
  unfolding impjob_ids_def wpP_then wpP_bind wpP_ret
proof (rule wp_local [where view = view, OF assms(1,2)])
  fix w1 assume w1: "agree fixed_params (view w1) c"
  have f: "view w1 (''^%imptp'', [''fillid'', dec_of_int (getenv_int env ''gtm_test_jobid'')]) = Some (dec_of_int fillid)"
  proof -
    have "CHR ''j'' \<notin> set (dec_of_int n)" for n using dec_of_int_chars [of "CHR ''j''" n] by (auto simp: is_digit_def)
    moreover have "CHR ''j'' \<in> set ''jsyncnt''" by simp
    ultimately have "dec_of_int n \<noteq> ''jsyncnt''" for n by metis
    then have "fillid_node env \<in> fixed_params" by (simp add: fixed_params_def params_def fillid_node_def)
    then show ?thesis using w1 assms(3) by (simp add: agree_def fillid_node_def)
  qed
  have "pct fillid ''top'' \<in> fixed_params" by (simp add: fixed_params_def params_def pct_def)
  then have t: "view w1 (fst (pct fillid ''top''), snd (pct fillid ''top'')) = (if 0 = (0 :: int) \<and> True then None else Some (dec_of_int 0))"
    using w1 assms(11) by (simp add: agree_def)
  show "wpP (getI th env ''^%imptp'' [''fillid'', dec_of_int (getenv_int env ''gtm_test_jobid'')]) (\<lambda>fillid.
      wpP (param th env fillid ''totaljob'') (\<lambda>jobcnt. wpP (param th env fillid ''prime'') (\<lambda>prime. wpP (param th env fillid ''root'') (\<lambda>root.
      wpP (getI0 th env (fst (pct fillid ''top'')) (snd (pct fillid ''top''))) (\<lambda>top0.
      wpP (if top0 = 0 then liftP (c_div prime jobcnt) else retP top0) (\<lambda>top. Q (fillid, jobcnt, prime, root, top)) R) R) R) R) R) R w1"
    by (rule wp_getI [where view = view, OF assms(1) f assms(4)], rule wp_param [where view = view, OF assms(1) w1 assms(5,6)], simp,
        rule wp_param [where view = view, OF assms(1) w1 assms(7,8)], simp, rule wp_param [where view = view, OF assms(1) w1 assms(9,10)], simp,
        rule wp_getI0 [where view = view, OF assms(1) t])
      (simp_all add: is_int_def wp_simps assms(12,13) w1)
qed simp

lemma wp_tptype:
  assumes "im_laws False env view" "agree fixed_params (view w) c" "c (pct fillid ''tptype'') = Some v" "length v < MAXVALUELEN"
    and "\<And>w'. agree fixed_params (view w') c \<Longrightarrow> Q v w'"
  shows "wpP (impjob_tptype th env fillid) Q R w"
proof -
  have "pct fillid ''tptype'' \<in> fixed_params" by (simp add: fixed_params_def params_def pct_def)
  then have v: "view w (fst (pct fillid ''tptype''), snd (pct fillid ''tptype'')) = Some v" using assms(2,3) by (simp add: agree_def)
  have len: "length v \<le> BIGMAXVALUELEN" using assms(4) by (simp add: BIGMAXVALUELEN_def)
  show ?thesis
    unfolding impjob_tptype_def wpP_bind wpP_then
    by (rule wp_getJ [where view = view, OF assms(1) v len], rule wp_local [where view = view, OF assms(1,2)])
      (use assms(4,5) in \<open>simp_all add: copy_buff_def wp_simps\<close>)
qed

lemma wp_trigger_vars:
  assumes "im_laws False env view" "agree fixed_params (view w) c" "\<And>w'. agree fixed_params (view w') c \<Longrightarrow> Q (False, False) w'"
  shows "wpP (trigger_vars th env 0) Q R w"
proof -
  have "wpP (setJ th env ''dztrig'' [] s) (\<lambda>_. Q (False, False)) R w1" if "agree fixed_params (view w1) c" for w1 s
    by (rule wp_local [where view = view, OF assms(1) that]) (simp_all add: assms(3))
  then show ?thesis
    unfolding trigger_vars_def Let_def wpP_then
    by (intro wp_local [where view = view, OF assms(1,2)]) (simp_all add: wp_simps)
qed

lemma wp_sync:
  assumes "im_laws False env view" "agree fixed_params (view w) c" "\<And>w'. agree fixed_params (view w') c \<Longrightarrow> Q () w'"
  shows "wpP (impjob_sync th env fillid) Q R w"
proof -
  let ?g = "''^%imptp''" and ?ss = "[dec_of_int fillid, ''jsyncnt'']"
  have calls: "fst (ydb_lock_incr_s env ?g ?ss w') = im_ok env" "view (snd (ydb_lock_incr_s env ?g ?ss w')) = view w'"
    "fst (ydb_lock_decr_s env ?g ?ss w') = im_ok env" "view (snd (ydb_lock_decr_s env ?g ?ss w')) = view w'"
    "fst (ydb_incr_s env ?g ?ss w') = im_ok env" for w'
    using assms(1) by (auto simp: im_laws_def call_laws_def)
  have other: "view (snd (ydb_incr_s env ?g ?ss w')) k = view w' k" if "k \<noteq> (?g, ?ss)" for k w'
    using assms(1) that unfolding im_laws_def call_laws_def by (elim conjE) blast
  have "(?g, ?ss) \<notin> fixed_params" by (simp add: fixed_params_def)
  then have incr: "agree fixed_params (view (snd (ydb_incr_s env ?g ?ss w'))) (view w')" for w'
    unfolding agree_def by (metis other)
  have "wpP (callP (im_drand48 env 2)) (\<lambda>_ w2. agree fixed_params (view w2) c) R w1" if "agree fixed_params (view w1) c" for w1
    using that by (intro wp_drand48 [OF assms(1)]) simp_all
  then have "wpP (callP (im_drand48 env 2)) (\<lambda>_. wpP (bindP (callP (ydb_incr_s env ?g ?ss)) (checkJ th env))
      (\<lambda>_. wpP (bindP (callP (ydb_lock_decr_s env ?g ?ss)) (checkJ th env)) Q R) R) R w1" if "agree fixed_params (view w1) c" for w1
    using that im_laws_statuses(3) [OF assms(1)]
    by (rule_tac wpP_mono) (auto simp: wp_simps wpP_call checkJ_def calls intro!: assms(3) agree_trans [OF incr])
  then show ?thesis
    using im_laws_statuses(3) [OF assms(1)] assms(2)
    unfolding impjob_sync_def pct_def by (simp add: wp_simps wpP_call checkJ_def calls)
qed

lemma wp_view_cip:
  assumes "im_laws False env view" "agree fixed_params (view w) c" "name \<notin> {''getdatinfo'', ''noop''}"
    and "\<And>w'. agree fixed_params (view w') c \<Longrightarrow> Q () w'"
  shows "wpP (if b then cipJ th env name else retP ()) Q R w"
proof -
  have "fixed_params \<subseteq> kept_by name" using assms(3) by (auto simp: fixed_params_def params_def kept_by_def)
  then have "agree fixed_params (view w') c" if "\<And>k. k \<in> kept_by name \<Longrightarrow> view w' k = view w k" for w'
    using that assms(2) unfolding agree_def by (metis subsetD)
  then show ?thesis
    using assms(2) by (auto simp: wp_simps intro!: wp_cipJ [OF assms(1)] assms(4))
qed

text \<open>The contents under \<^verbatim>\<open>^%imptp\<close> from which a job starts.\<close>

definition handed_over :: "'w imptp_env \<Rightarrow> int \<Rightarrow> int \<Rightarrow> int \<Rightarrow> int \<Rightarrow> int \<Rightarrow> contents \<Rightarrow> bool" where
  "handed_over env istp t d ks rs c \<longleftrightarrow>
     (let f = getenv_int env ''gtm_test_dbfillid''; has = (\<lambda>name x. c (pct f name) = Some (dec_of_int x)) in
      c (fillid_node env) = Some (dec_of_int f) \<and> c (pct f ''top'') = None \<and> c (pct f ''tptype'') = Some (imptp_tptype env) \<and>
      has ''totaljob'' (imptp_jobcnt env) \<and> has ''prime'' 50000017 \<and> has ''root'' 5 \<and> has ''istp'' istp \<and> has ''tpnoiso'' t \<and> has ''dupset'' d \<and>
      has ''skipreg'' (getenv_int env ''gtm_test_repl_norepl'') \<and> has ''crash'' (getenv_int env ''gtm_test_crash'') \<and>
      has ''gtcm'' (getenv_int env ''gtm_test_is_gtcm'') \<and> has ''key_size'' ks \<and> has ''record_size'' rs \<and>
      has ''gtm_test_spannode'' (getenv_int env ''gtm_test_spannode'') \<and> has ''trigger'' 0)"

text \<open>The job that these parameters describe.\<close>

definition described_job :: "'w imptp_env \<Rightarrow> int \<Rightarrow> int \<Rightarrow> int \<Rightarrow> int \<Rightarrow> int \<Rightarrow> int \<Rightarrow> int \<Rightarrow> job" where
  "described_job env istp t d ks rs turns childnum =
     \<lparr>j_jobno = childnum, j_fillid = getenv_int env ''gtm_test_dbfillid'', j_jobcnt = imptp_jobcnt env, j_prime = 50000017, j_root = 5,
      j_top = turns, j_istp = istp, j_tptype = imptp_tptype env, j_tpnoiso = t, j_dupset = d,
      j_skipreg = getenv_int env ''gtm_test_repl_norepl'', j_crash = getenv_int env ''gtm_test_crash'',
      j_gtcm = getenv_int env ''gtm_test_is_gtcm'', j_keysize = ks, j_recsize = rs, j_span = getenv_int env ''gtm_test_spannode'',
      j_trigger = 0, j_ztr = False, j_dztrig = False,
      j_lfence = calc_lfence istp (getenv_int env ''gtm_test_crash'') (getenv_int env ''gtm_test_is_gtcm'')\<rparr>"

lemma tptype_short: "length (imptp_tptype env) < MAXVALUELEN"
  by (simp add: imptp_tptype_def MAXVALUELEN_def)

lemma is_int_jobcnt: "\<forall>name. is_int (getenv_int env name) \<Longrightarrow> is_int (imptp_jobcnt env)"
  by (simp add: imptp_jobcnt_def Let_def is_int_def)

lemma wp_params:
  assumes "im_laws False env view" "handed_over env istp t d ks rs (view w)" "\<forall>name. is_int (getenv_int env name)"
    and "istp \<in> {0, 1}" "t \<in> {0, 1}" "d \<in> {0, 1}" "is_int ks" "is_int rs" "c_div 50000017 (imptp_jobcnt env) = Inr turns"
    and "\<And>w'. Q (described_job env istp t d ks rs turns childnum) w'"
  shows "wpP (impjob_params th env childnum) Q R w"
proof -
  let ?f = "getenv_int env ''gtm_test_dbfillid''" and ?c = "view w"
  have h: "?c (fillid_node env) = Some (dec_of_int ?f)" "?c (pct ?f ''top'') = None" "?c (pct ?f ''tptype'') = Some (imptp_tptype env)"
    "?c (pct ?f ''totaljob'') = Some (dec_of_int (imptp_jobcnt env))" "?c (pct ?f ''prime'') = Some (dec_of_int 50000017)"
    "?c (pct ?f ''root'') = Some (dec_of_int 5)" "?c (pct ?f ''istp'') = Some (dec_of_int istp)"
    "?c (pct ?f ''tpnoiso'') = Some (dec_of_int t)" "?c (pct ?f ''dupset'') = Some (dec_of_int d)"
    "?c (pct ?f ''skipreg'') = Some (dec_of_int (getenv_int env ''gtm_test_repl_norepl''))"
    "?c (pct ?f ''crash'') = Some (dec_of_int (getenv_int env ''gtm_test_crash''))"
    "?c (pct ?f ''gtcm'') = Some (dec_of_int (getenv_int env ''gtm_test_is_gtcm''))"
    "?c (pct ?f ''key_size'') = Some (dec_of_int ks)" "?c (pct ?f ''record_size'') = Some (dec_of_int rs)"
    "?c (pct ?f ''gtm_test_spannode'') = Some (dec_of_int (getenv_int env ''gtm_test_spannode''))" "?c (pct ?f ''trigger'') = Some (dec_of_int 0)"
    using assms(2) unfolding handed_over_def Let_def by - (elim conjE, assumption)+
  have i: "is_int (getenv_int env name)" "is_int 50000017" "is_int 5" "is_int 0" "is_int istp" "is_int t" "is_int d" for name
    using assms(3-6) by (auto simp: is_int_def)
  note ids = wp_ids_read [where view = view and c = ?c, OF assms(1) _ h(1) i(1) h(4) is_int_jobcnt [OF assms(3)] h(5) i(2) h(6) i(3) h(2) assms(9)]
  note get = wp_param [where view = view and c = ?c, OF assms(1)]
  note var = wp_param_var [where view = view and c = ?c, OF assms(1)]
  note local = wp_local [where view = view and c = ?c, OF assms(1)]
  note cip = wp_view_cip [where view = view and c = ?c, OF assms(1)]
  show ?thesis
    unfolding impjob_params_def wpP_bind wpP_then
    by (rule ids, simp, simp only: prod.case wpP_bind wpP_then,
        rule get [OF _ h(7) i(5)], assumption, simp,
        rule wp_tptype [where view = view and c = ?c, OF assms(1) _ h(3) tptype_short], assumption,
        rule get [OF _ h(8) i(6)], assumption, simp,
        rule get [OF _ h(9) i(7)], assumption, simp,
        rule get [OF _ h(10) i(1)], assumption, simp,
        rule var [OF _ h(11) i(1)], assumption, simp, simp,
        rule get [OF _ h(12) i(1)], assumption, simp,
        rule local, assumption, simp,
        rule var [OF _ h(13) assms(7)], assumption, simp, simp,
        rule var [OF _ h(14) assms(8)], assumption, simp, simp,
        rule var [OF _ h(15) i(1)], assumption, simp, simp,
        rule var [OF _ h(16) i(4)], assumption, simp, simp,
        rule wp_trigger_vars [where view = view and c = ?c, OF assms(1)], assumption, simp only: prod.case wpP_bind wpP_then,
        rule wp_sync [where view = view and c = ?c, OF assms(1)], assumption,
        rule local, assumption, simp,
        rule cip, assumption, simp,
        rule cip, assumption, simp)
      (simp add: wpP_ret assms(10) [unfolded described_job_def])
qed

section \<open>From the parent to its jobs\<close>

lemma own_fillid: "fillid_node env \<in> own_params"
proof -
  have "CHR ''_'' \<notin> set (dec_of_int n)" for n using dec_of_int_chars [of "CHR ''_''" n] by (auto simp: is_digit_def)
  moreover have "name \<in> datinfo_names \<Longrightarrow> CHR ''_'' \<in> set name" for name by (auto simp: datinfo_names_def)
  ultimately have "dec_of_int n \<notin> datinfo_names" for n by metis
  then show ?thesis by (simp add: own_params_def params_def fillid_node_def kept_by_def)
qed

lemma setup_hands_over:
  assumes "agree own_params c (apply_sets (setup_nodes env istp t d) c0)" "\<forall>k \<in> params. c0 k = None"
    and "\<forall>k \<in> size_nodes (getenv_int env ''gtm_test_dbfillid''). \<exists>n. is_int n \<and> c k = Some (dec_of_int n)"
  obtains ks rs where "is_int ks" "is_int rs" "handed_over env istp t d ks rs c"
proof -
  let ?f = "getenv_int env ''gtm_test_dbfillid''"
  obtain ks rs where sizes: "is_int ks" "c (pct ?f ''key_size'') = Some (dec_of_int ks)" "is_int rs" "c (pct ?f ''record_size'') = Some (dec_of_int rs)"
    using assms(3) by (auto simp: size_nodes_def)
  have own: "pct ?f name \<in> own_params" if "name \<notin> datinfo_names" for name
    using that by (simp add: own_params_def params_def kept_by_def pct_def)
  have c: "c (pct ?f name) = apply_sets (setup_nodes env istp t d) c0 (pct ?f name)" if "name \<notin> datinfo_names" for name
    using assms(1) own [OF that] by (simp add: agree_def)
  have cf: "c (fillid_node env) = apply_sets (setup_nodes env istp t d) c0 (fillid_node env)"
    using assms(1) own_fillid unfolding agree_def by (rule bspec)
  have none: "c0 (pct ?f ''top'') = None" using assms(2) by (simp add: params_def pct_def)
  have "''0'' = dec_of_int 0" by code_simp
  then have "handed_over env istp t d ks rs c"
    unfolding handed_over_def Let_def
    by (simp add: c cf datinfo_names_def sizes none) (simp add: setup_nodes_def mode_nodes_def Let_def none)
  with sizes show thesis using that by blast
qed

lemma handed_over_agree:
  assumes "agree fixed_params c' c" "handed_over env istp t d ks rs c"
  shows "handed_over env istp t d ks rs c'"
proof -
  have p: "c' (pct f name) = c (pct f name)" if "name \<noteq> ''jsyncnt''" for f name
    using assms(1) that by (simp add: agree_def fixed_params_def params_def pct_def)
  have "CHR ''j'' \<notin> set (dec_of_int n)" for n using dec_of_int_chars [of "CHR ''j''" n] by (auto simp: is_digit_def)
  moreover have "CHR ''j'' \<in> set ''jsyncnt''" by simp
  ultimately have "dec_of_int n \<noteq> ''jsyncnt''" for n by metis
  then have "fillid_node env \<in> fixed_params" by (simp add: fixed_params_def params_def fillid_node_def)
  then have "c' (fillid_node env) = c (fillid_node env)" using assms(1) by (simp add: agree_def)
  then show ?thesis using assms(2) by (simp add: handed_over_def p Let_def)
qed

lemma turns_of_jobcnt:
  assumes "jobcnt \<noteq> 0"
  obtains turns where "c_div 50000017 jobcnt = Inr turns"
proof -
  have "\<bar>50000017 div \<bar>jobcnt\<bar>\<bar> \<le> (50000017 :: int)"
    using assms zdiv_mono2 [of 50000017 1 "\<bar>jobcnt\<bar>"] by (simp add: pos_imp_zdiv_nonneg_iff)
  then have "- (2 ^ 31) \<le> 50000017 sdiv jobcnt" "50000017 sdiv jobcnt < 2 ^ 31"
    by (auto simp: signed_divide_int_def sgn_if)
  then show thesis using that assms by (simp add: c_div_def int_of_def)
qed

section \<open>Properties\<close>

text \<open>C18. What the parent writes is what the jobs read: over a database without parameters the parent's part up to the
  start of the jobs succeeds, and then every job, whatever other jobs did in the meantime to anything but the
  parameters, reads exactly the run that the environment describes, in both programs.\<close>

theorem parameters_handed_over:
  assumes "im_laws False env view" "datinfo_laws env view" "imptp_istp env = Inr istp"
    and "\<forall>k \<in> params. view w k = None" "\<forall>name. is_int (getenv_int env name)"
  shows "\<exists>w1 t d ks rs turns. imptp_setup env w = Inr (Inr (), w1) \<and> {t, d} \<subseteq> {0, 1} \<and> c_div 50000017 (imptp_jobcnt env) = Inr turns \<and>
           (\<forall>th childnum w2. agree fixed_params (view w2) (view w1) \<longrightarrow>
              (\<exists>w3. impjob_params th env childnum w2 = Inr (Inr (described_job env istp t d ks rs turns childnum), w3)))"
proof -
  have istp: "istp \<in> {0, 1}" using assms(3) by (auto simp: imptp_istp_def split: if_splits)
  have "imptp_jobcnt env \<noteq> 0" by (simp add: imptp_jobcnt_def Let_def)
  then obtain turns where turns: "c_div 50000017 (imptp_jobcnt env) = Inr turns" by (rule turns_of_jobcnt)
  have "wpP (imptp_setup env) (\<lambda>_ w1. \<exists>t d ks rs. {t, d} \<subseteq> {0, 1} \<and> is_int ks \<and> is_int rs \<and> handed_over env istp t d ks rs (view w1)) (\<lambda>_ _. False) w"
  proof (rule wp_setup [OF assms(1-4)])
    fix t d :: int and w1
    assume td: "t \<in> {0, 1}" "d \<in> {0, 1}" and c: "agree own_params (view w1) (apply_sets (setup_nodes env istp t d) (view w))"
      and sizes: "\<forall>k \<in> size_nodes (getenv_int env ''gtm_test_dbfillid''). \<exists>n. is_int n \<and> view w1 k = Some (dec_of_int n)"
    obtain ks rs where "is_int ks" "is_int rs" "handed_over env istp t d ks rs (view w1)"
      by (rule setup_hands_over [OF c assms(4) sizes])
    with td show "\<exists>t d ks rs. {t, d} \<subseteq> {0, 1} \<and> is_int ks \<and> is_int rs \<and> handed_over env istp t d ks rs (view w1)"
      by (intro exI [of _ t] exI [of _ d] exI [of _ ks] exI [of _ rs]) auto
  qed
  then obtain u w1 where "imptp_setup env w = Inr (Inr u, w1)"
    and ex: "\<exists>t d ks rs. {t, d} \<subseteq> {0, 1} \<and> is_int ks \<and> is_int rs \<and> handed_over env istp t d ks rs (view w1)" by (rule wpP_total)
  then have w1: "imptp_setup env w = Inr (Inr (), w1)" by simp
  from ex obtain t d ks rs where td: "{t, d} \<subseteq> {0, 1}" and sizes: "is_int ks" "is_int rs" and h: "handed_over env istp t d ks rs (view w1)"
    by (elim exE conjE) (rule that)
  have jobs: "\<exists>w3. impjob_params th env childnum w2 = Inr (Inr (described_job env istp t d ks rs turns childnum), w3)"
    if "agree fixed_params (view w2) (view w1)" for th childnum w2
  proof -
    have "wpP (impjob_params th env childnum) (\<lambda>j _. j = described_job env istp t d ks rs turns childnum) (\<lambda>_ _. False) w2"
      using td by (intro wp_params [where view = view, OF assms(1) handed_over_agree [OF that h] assms(5) istp _ _ sizes turns]) auto
    then show ?thesis by (rule wpP_total) auto
  qed
  show ?thesis
    by (intro exI [of _ w1] exI [of _ t] exI [of _ d] exI [of _ ks] exI [of _ rs] exI [of _ turns] conjI allI impI w1 td turns jobs)
qed

theorem parameters_handed_over_witness:
  "\<exists>w1 t d ks rs. imptp_setup demo_imptp Map.empty = Inr (Inr (), w1) \<and>
     (\<exists>w3. impjob_params True demo_imptp 2 w1 = Inr (Inr (described_job demo_imptp 1 t d ks rs 10000003 2), w3))"
proof -
  have getenv: "getenv_int demo_imptp name = 0" for name by (simp add: getenv_int_def demo_imptp_def)
  have "datinfo_laws demo_imptp id"
    by (auto simp: datinfo_laws_def size_nodes_def getenv is_int_def) (simp_all add: demo_imptp_def pct_def)
  moreover have "imptp_istp demo_imptp = Inr 1" by (simp add: imptp_istp_def demo_imptp_def)
  moreover have "c_div 50000017 (imptp_jobcnt demo_imptp) = Inr 10000003"
    by (simp add: imptp_jobcnt_def getenv c_div_def int_of_def signed_divide_int_def)
  moreover have "\<forall>k \<in> params. id Map.empty k = None" "\<forall>name. is_int (getenv_int demo_imptp name)" by (simp_all add: getenv is_int_def)
  ultimately have "\<exists>w1 t d ks rs turns. imptp_setup demo_imptp Map.empty = Inr (Inr (), w1) \<and> {t, d} \<subseteq> {0, 1} \<and>
      c_div 50000017 (imptp_jobcnt demo_imptp) = Inr turns \<and> (\<forall>th childnum w2. agree fixed_params (id w2) (id w1) \<longrightarrow>
         (\<exists>w3. impjob_params th demo_imptp childnum w2 = Inr (Inr (described_job demo_imptp 1 t d ks rs turns childnum), w3)))"
    by (intro parameters_handed_over [OF demo_laws(1)])
  then obtain w1 t d ks rs turns where w1: "imptp_setup demo_imptp Map.empty = Inr (Inr (), w1)"
      "c_div 50000017 (imptp_jobcnt demo_imptp) = Inr turns"
      "\<forall>th childnum w2. agree fixed_params (id w2) (id w1) \<longrightarrow>
         (\<exists>w3. impjob_params th demo_imptp childnum w2 = Inr (Inr (described_job demo_imptp 1 t d ks rs turns childnum), w3))"
    by (elim exE conjE) (rule that)
  have "\<exists>w3. impjob_params True demo_imptp 2 w1 = Inr (Inr (described_job demo_imptp 1 t d ks rs turns 2), w3)"
    using w1(3) agree_refl by blast
  moreover have "turns = 10000003" using w1(2) \<open>c_div 50000017 (imptp_jobcnt demo_imptp) = Inr 10000003\<close> by simp
  ultimately show ?thesis using w1(1) by blast
qed

end
