(* ===== verification/Imptp_Wait.thy ===== *)
theory Imptp_Wait
  imports Imptp_Correct
begin

text \<open>
  When the parent of the workload stops waiting.  The other processes run while it sleeps; \<open>moment env w k\<close> is the
  world after \<open>k\<close> sleeps.
\<close>

primrec moment :: "'w imptp_env \<Rightarrow> 'w \<Rightarrow> nat \<Rightarrow> 'w" where
  "moment env w 0 = w"
| "moment env w (Suc k) = snd (im_sleep env (moment env w k))"

section \<open>The loops\<close>

lemma wait_until_sleeps:
  assumes "\<And>k. m (moment env w k) = Inr (Inr (P k), moment env w k)"
  shows "wait_until n env m (moment env w i) =
    (if \<exists>k \<ge> i. k < i + n \<and> P k then Inr (Inr True, moment env w (LEAST k. i \<le> k \<and> P k)) else Inr (Inr False, moment env w (i + n)))"
proof (induction n arbitrary: i)
  case (Suc n)
  show ?case
  proof (cases "P i")
    case True
    then have "(LEAST k. i \<le> k \<and> P k) = i" "\<exists>k \<ge> i. k < i + Suc n \<and> P k" by (auto intro!: Least_equality)
    with True show ?thesis using assms [of i] by (simp add: bindP_def retP_def)
  next
    case False
    then have "i \<le> k \<and> P k \<longleftrightarrow> Suc i \<le> k \<and> P k" for k by (cases "k = i") auto
    then have least: "(LEAST k. i \<le> k \<and> P k) = (LEAST k. Suc i \<le> k \<and> P k)"
      and ex: "(\<exists>k \<ge> i. k < Suc (i + n) \<and> P k) \<longleftrightarrow> (\<exists>k \<ge> Suc i. k < Suc (i + n) \<and> P k)" by auto
    have "wait_until (Suc n) env m (moment env w i) = wait_until n env m (moment env w (Suc i))"
      using False assms [of i] by (simp add: bindP_def thenP_def callP_def)
    then show ?thesis by (simp only: Suc least add_Suc add_Suc_right ex)
  qed
qed (simp add: retP_def)

text \<open>The loop ends where its condition holds now or after some sleep, given turns enough.\<close>

lemma wait_until_enough:
  assumes "\<And>k. m (moment env w k) = Inr (Inr (P k), moment env w k)" "i \<le> k" "P k" "k < i + n"
  shows "\<exists>j. i \<le> j \<and> j \<le> k \<and> P j \<and> wait_until n env m (moment env w i) = Inr (Inr True, moment env w j)"
proof -
  let ?j = "LEAST k. i \<le> k \<and> P k"
  have "i \<le> k \<and> P k" using assms(2,3) by simp
  then have "i \<le> ?j \<and> P ?j" "?j \<le> k" by (rule LeastI, rule Least_le)
  then show ?thesis unfolding wait_until_sleeps [where m = m and P = P, OF assms(1)] using assms(2-4) by auto
qed

lemma wait_until_ended:
  assumes "\<And>k. m (moment env w k) = Inr (Inr (P k), moment env w k)" "wait_until n env m (moment env w i) = Inr (Inr True, w')"
  obtains k where "i \<le> k" "P k" "w' = moment env w k"
proof -
  have ex: "\<exists>k. i \<le> k \<and> P k" and w': "w' = moment env w (LEAST k. i \<le> k \<and> P k)"
    using assms(2) wait_until_sleeps [where m = m and P = P and n = n and i = i, OF assms(1)] by (auto split: if_splits)
  from LeastI_ex [OF ex] show thesis using w' that by blast
qed

section \<open>The conditions\<close>

definition updated :: "int \<Rightarrow> contents \<Rightarrow> bool" where
  "updated fillid c \<longleftrightarrow> c (''^cntloop'', [dec_of_int fillid]) \<noteq> Some (dec_of_int 0)"

definition synced :: "int \<Rightarrow> contents \<Rightarrow> bool" where
  "synced fillid c \<longleftrightarrow> c (pct fillid ''jsyncnt'') = c (pct fillid ''totaljob'')"

text \<open>The counters of the run hold integers.\<close>

definition counters :: "int \<Rightarrow> node set" where
  "counters fillid = {(''^cntloop'', [dec_of_int fillid]), pct fillid ''jsyncnt'', pct fillid ''totaljob''}"

definition counting :: "int \<Rightarrow> contents \<Rightarrow> bool" where
  "counting fillid c \<longleftrightarrow> (\<forall>k \<in> counters fillid. \<exists>x. is_int x \<and> c k = Some (dec_of_int x))"

lemma counting_of:
  assumes "counting fillid c" "k \<in> counters fillid"
  obtains x where "is_int x" "c k = Some (dec_of_int x)"
  using assms by (auto simp: counting_def)

lemma counters: "(''^cntloop'', [dec_of_int fillid]) \<in> counters fillid" "(''^%imptp'', [dec_of_int fillid, ''jsyncnt'']) \<in> counters fillid"
    "(''^%imptp'', [dec_of_int fillid, ''totaljob'']) \<in> counters fillid"
  by (simp_all add: counters_def pct_def)

lemma run_getA:
  assumes "im_laws False env view" "view w (g, ss) = Some v" "length v \<le> BIGMAXVALUELEN"
  shows "getA env g ss w = Inr (Inr v, w)"
  using im_laws_get [OF assms]
  by (simp add: getA_def bindP_def askP_def thenP_def checkA_def assertP_def liftP_def c_assert_def retP_def)

lemma run_first_update:
  assumes "im_laws False env view" "counting fillid (view w)"
  shows "first_update env fillid w = Inr (Inr (updated fillid (view w)), w)"
proof -
  obtain x where x: "is_int x" "view w (''^cntloop'', [dec_of_int fillid]) = Some (dec_of_int x)"
    by (rule counting_of [OF assms(2) counters(1)])
  note get = run_getA [where view = view and w = w, OF assms(1) x(2) dec_fits [OF x(1)]]
  have "dec_of_int x = dec_of_int 0 \<longleftrightarrow> x = 0" by (metis atoi_dec_of_int)
  then have "updated fillid (view w) \<longleftrightarrow> x \<noteq> 0" by (simp only: updated_def x(2) option.inject)
  then show ?thesis
    by (simp only: first_update_def bindP_run [where m = "getA env ''^cntloop'' [dec_of_int fillid]" and w = w, OF get]
        int_of_value_dec [OF x(1)] bindP_lift retP_def)
qed

lemma run_all_synced:
  assumes "im_laws False env view" "counting fillid (view w)"
  shows "all_synced env fillid w = Inr (Inr (synced fillid (view w)), w)"
proof -
  obtain x where x: "is_int x" "view w (''^%imptp'', [dec_of_int fillid, ''jsyncnt'']) = Some (dec_of_int x)"
    by (rule counting_of [OF assms(2) counters(2)])
  obtain y where y: "is_int y" "view w (''^%imptp'', [dec_of_int fillid, ''totaljob'']) = Some (dec_of_int y)"
    by (rule counting_of [OF assms(2) counters(3)])
  have fits: "length (dec_of_int y) < MAXVALUELEN" using length_dec_of_int [of y] y(1) by (simp add: is_int_def MAXVALUELEN_def)
  note get = run_getA [where view = view and w = w, OF assms(1) x(2) dec_fits [OF x(1)]]
  have "dec_of_int x = dec_of_int y \<longleftrightarrow> x = y" by (metis atoi_dec_of_int)
  then have "synced fillid (view w) \<longleftrightarrow> x = y" by (simp only: synced_def pct_def x(2) y(2) option.inject)
  moreover have "get_totaljob env fillid w = Inr (Inr y, w)"
    using im_laws_get [where view = view and w = w, OF assms(1) y(2) less_imp_le [OF fits]] fits int_of_value_dec [OF y(1)]
    by (simp add: get_totaljob_def pct_def bindP_def askP_def thenP_def checkA_def assertP_def liftP_def c_assert_def retP_def)
  ultimately show ?thesis
    by (simp only: all_synced_def pct_def fst_conv snd_conv bindP_run [where m = "getA env ''^%imptp'' [dec_of_int fillid, ''jsyncnt'']" and w = w, OF get]
        int_of_value_dec [OF x(1)] bindP_lift bindP_run [where m = "get_totaljob env fillid" and w = w] retP_def)
qed

section \<open>Properties\<close>

text \<open>C21. When the parent stops waiting: with turns enough it does if and only if at some moment a job has done a turn on all
  regions, and then or later the number of jobs that are ready is the number of jobs, exactly; there is no limit on
  the time, and a count that passes the number of jobs is never noticed.\<close>

theorem parent_stops_waiting:
  assumes "im_laws False env view" "\<forall>k. counting fillid (view (moment env w k))"
  shows "(\<exists>n w'. imptp_wait n env fillid w = Inr (Inr True, w')) \<longleftrightarrow>
           (\<exists>k l. k \<le> l \<and> updated fillid (view (moment env w k)) \<and> synced fillid (view (moment env w l)))"
proof -
  let ?u = "\<lambda>k. updated fillid (view (moment env w k))"
  let ?s = "\<lambda>k. synced fillid (view (moment env w k))"
  have u: "first_update env fillid (moment env w k) = Inr (Inr (?u k), moment env w k)" for k
    using run_first_update [OF assms(1)] assms(2) by simp
  have s: "all_synced env fillid (moment env w k) = Inr (Inr (?s k), moment env w k)" for k
    using run_all_synced [OF assms(1)] assms(2) by simp
  show ?thesis
  proof
    assume "\<exists>n w'. imptp_wait n env fillid w = Inr (Inr True, w')"
    then obtain n w' where wait: "imptp_wait n env fillid (moment env w 0) = Inr (Inr True, w')" by auto
    then obtain w1 where w1: "wait_until n env (first_update env fillid) (moment env w 0) = Inr (Inr True, w1)"
      and w': "wait_until n env (all_synced env fillid) w1 = Inr (Inr True, w')"
      by (auto simp: imptp_wait_def bindP_def retP_def split: sum.splits if_splits)
    from u w1 obtain k where k: "?u k" "w1 = moment env w k" by (rule wait_until_ended)
    from s w' [unfolded k(2)] obtain l where "k \<le> l" "?s l" by (rule wait_until_ended)
    with k(1) show "\<exists>k l. k \<le> l \<and> ?u k \<and> ?s l" by blast
  next
    assume "\<exists>k l. k \<le> l \<and> ?u k \<and> ?s l"
    then obtain k l where kl: "k \<le> l" "?u k" "?s l" by blast
    obtain i where i: "i \<le> k" "wait_until (Suc l) env (first_update env fillid) (moment env w 0) = Inr (Inr True, moment env w i)"
      using wait_until_enough [where P = ?u and m = "first_update env fillid" and n = "Suc l" and i = 0 and k = k, OF u] kl by auto
    obtain j where "wait_until (Suc l) env (all_synced env fillid) (moment env w i) = Inr (Inr True, moment env w j)"
      using wait_until_enough [where P = ?s and m = "all_synced env fillid" and n = "Suc l" and i = i and k = l, OF s] kl i(1) by auto
    with i(2) show "\<exists>n w'. imptp_wait n env fillid w = Inr (Inr True, w')"
      by (intro exI [of _ "Suc l"]) (simp add: imptp_wait_def bindP_def)
  qed
qed

text \<open>Five jobs that are all ready after the first sleep.\<close>

definition demo_waiting :: contents where
  "demo_waiting = [(''^cntloop'', [''0'']) \<mapsto> ''0'', (''^%imptp'', [''0'', ''jsyncnt'']) \<mapsto> ''4'', (''^%imptp'', [''0'', ''totaljob'']) \<mapsto> ''5'']"

theorem parent_stops_waiting_witness:
  "\<not> synced 0 demo_waiting \<and> (\<exists>n w'. imptp_wait n demo_imptp 0 demo_waiting = Inr (Inr True, w'))"
proof -
  have dec: "dec_of_int 0 = ''0''" "dec_of_int 1 = ''1''" "dec_of_int 4 = ''4''" "dec_of_int 5 = ''5''" by code_simp+
  let ?m = "moment demo_imptp demo_waiting"
  have m: "?m k = (if k = 0 then demo_waiting
      else demo_waiting((''^cntloop'', [''0'']) \<mapsto> ''1'', (''^%imptp'', [''0'', ''jsyncnt'']) \<mapsto> ''5''))" for k
    by (induction k) (auto simp: demo_imptp_def fun_eq_iff)
  have small: "is_int 0" "is_int 1" "is_int 4" "is_int 5" by (simp_all add: is_int_def)
  have "counting 0 (?m k)" for k
    unfolding m counting_def counters_def pct_def dec
    using small dec by (auto simp: demo_waiting_def)
  then have "\<forall>k. counting 0 (id (?m k))" by simp
  moreover have "updated 0 (?m 1)" "synced 0 (?m 1)" "\<not> synced 0 demo_waiting"
    unfolding m updated_def synced_def pct_def dec by (simp_all add: demo_waiting_def)
  ultimately show ?thesis
    using parent_stops_waiting [OF demo_laws(1), of 0 demo_waiting] unfolding id_apply by (meson order_refl)
qed

end
