(* ===== verification/Imptp_Job.thy ===== *)
theory Imptp_Job
  imports Imptp_Correct
begin

text \<open>
  The jobs of the workload as a whole: what a transaction of a job commits when other jobs run beside it, and
  that a job that is alone does all its turns.
\<close>

section \<open>The loop of a job\<close>

lemma agree_mono: "agree K c c' \<Longrightarrow> L \<subseteq> K \<Longrightarrow> agree L c c'"
  by (auto simp: agree_def)

lemma agree_cip:
  assumes "\<And>k. k \<in> kept_by name \<Longrightarrow> view w' k = view w k" "name \<notin> {''getdatinfo'', ''noop''}"
  shows "agree control (view w') (view w)"
  using assms(1) control_kept [OF assms(2)] by (auto simp: agree_def)

definition counted :: "job \<Rightarrow> int \<Rightarrow> contents \<Rightarrow> contents" where
  "counted j loop c = c(lasti_node j \<mapsto> dec_of_int loop)"

lemma agree_counted: "agree control c c' \<Longrightarrow> agree control (counted j loop c) (counted j loop c')"
  by (auto simp: agree_def counted_def)

text \<open>A transaction mode without triggers.\<close>

definition plain_tp :: "job \<Rightarrow> bool" where
  "plain_tp j \<longleftrightarrow> j_trigger j = 0 \<and> \<not> j_ztr j \<and> \<not> j_dztrig j \<and> j_istp j \<noteq> 0"

lemma wp_turn:
  assumes "im_laws False env view" "helper1_laws env view" "plain_tp j" "is_int I"
    and "\<And>w'. agree control (view w') (counted j loop (view w)) \<Longrightarrow> Q () w'"
  shows "wpP (impjob_turn th env j loop I) Q R w"
proof -
  have j: "j_trigger j = 0" "\<not> j_ztr j" "\<not> j_dztrig j" "j_istp j \<noteq> 0" using assms(3) by (auto simp: plain_tp_def)
  have s1: "wpP (run_stage th env j (tpfn_stage1 th env j v loop)) Q1 R w1"
    if "agree control (view w1) (view w)" "\<And>w'. agree control (view w') (counted j loop (view w)) \<Longrightarrow> Q1 () w'" for w1 v Q1
  proof (rule wp_run_stage [OF assms(1), where P = "\<lambda>c. agree control c (counted j loop (view w))"])
    fix w0 assume w0: "view w0 = view w1"
    obtain w2 where "tpfn_stage1 th env j v loop w0 = Inr (im_ok env, w2)"
      and w2: "agree test_nodes (view w2) (apply_sets (stage1_nodes j v loop) (view w1))"
      using stage1_runs [OF assms(1) j(1,2), of th v loop w0] w0 by auto
    moreover have "agree control (view w2) (counted j loop (view w))"
      using agree_trans [OF agree_mono [OF w2 control_test] stage1_control [OF j(1,4)]] agree_counted [OF that(1), of j loop]
        agree_trans by (fastforce simp: counted_def)
    ultimately show "\<exists>w2. tpfn_stage1 th env j v loop w0 = Inr (im_ok env, w2) \<and> agree control (view w2) (counted j loop (view w))"
      by blast
  qed (rule that(2))
  have s3: "wpP (run_stage th env j (tpfn_stage3 th env j v)) Q1 R w1"
    if "\<And>w'. agree control (view w') (view w1) \<Longrightarrow> Q1 () w'" for w1 v Q1
  proof (rule wp_run_stage [OF assms(1), where P = "\<lambda>c. agree control c (view w1)"])
    fix w0 assume "view w0 = view w1"
    then show "\<exists>w2. tpfn_stage3 th env j v w0 = Inr (im_ok env, w2) \<and> agree control (view w2) (view w1)"
      using stage3_runs [OF assms(1) j(1,3), of th v w0] stage3_control by fastforce
  qed (rule that)
  show ?thesis
    unfolding impjob_turn_def wpP_bind wpP_then
  proof (rule wp_values [OF assms(1,2,4)], rule s1, assumption, rule wp_stage2 [OF assms(1) j(1)], rule s3, rule wp_cipJ [OF assms(1)])
    fix w1 w2 w3 w4
    assume c: "agree control (view w1) (counted j loop (view w))" "agree control (view w2) (view w1)" "agree control (view w3) (view w2)"
      "\<And>k. k \<in> kept_by ''helper3'' \<Longrightarrow> view w4 k = view w3 k"
    have "agree control (view w4) (view w3)" by (rule agree_cip [where view = view and name = "''helper3''"]) (simp_all add: c(4))
    from agree_trans [OF agree_trans [OF this c(3)] agree_trans [OF c(2,1)]]
    show "Q () w4" by (rule assms(5))
  qed
qed

text \<open>The parameters of a walk that stays within the integers.\<close>

definition good_walk :: "job \<Rightarrow> bool" where
  "good_walk j \<longleftrightarrow> 1 < j_prime j \<and> j_prime j < 2 ^ 31 \<and> 0 \<le> j_root j \<and> j_prime j * j_root j \<le> 2 ^ 31 \<and>
     0 \<le> j_jobcnt j \<and> 1 \<le> j_jobno j \<and> j_top j < 2 ^ 31 - 1"

text \<open>No request to end the loop.\<close>

definition not_ended :: "job \<Rightarrow> contents \<Rightarrow> bool" where
  "not_ended j c \<longleftrightarrow> c (''^endloop'', [dec_of_int (j_fillid j)]) \<in> {None, Some ''0''}"

lemma not_ended_agree: "agree control c (counted j loop c') \<Longrightarrow> not_ended j c \<longleftrightarrow> not_ended j c'"
  by (auto simp: agree_def control_def counted_def not_ended_def lasti_node_def)

lemma wp_endloop:
  assumes "im_laws False env view" "not_ended j (view w)" "Q 0 w"
  shows "wpP (getI0 th env ''^endloop'' [dec_of_int (j_fillid j)]) Q R w"
proof (rule wp_getI0 [OF assms(1), where x = 0 and u = "view w (''^endloop'', [dec_of_int (j_fillid j)]) = None"])
  have "dec_of_int 0 = ''0''" by code_simp
  then show "view w (''^endloop'', [dec_of_int (j_fillid j)]) =
      (if 0 = (0 :: int) \<and> view w (''^endloop'', [dec_of_int (j_fillid j)]) = None then None else Some (dec_of_int 0))"
    using assms(2) by (auto simp: not_ended_def)
qed (use assms(3) in \<open>simp_all add: is_int_def\<close>)

lemma index_step_good:
  assumes "good_walk j" "0 \<le> nroot" "nroot < j_prime j" "0 \<le> I" "I < j_prime j"
  obtains I' where "index_step (j_prime j) nroot I = Inr I'" "0 \<le> I'" "I' < j_prime j"
  using assms index_step_mod [of I nroot "j_prime j"] by (auto simp: good_walk_def)

lemma wp_loop:
  assumes "im_laws False env view" "helper1_laws env view" "plain_tp j" "good_walk j" "0 \<le> nroot" "nroot < j_prime j"
    and "0 \<le> I" "I < j_prime j" "not_ended j (view w)" "0 < loop" "loop \<le> j_top j + 1" "n = nat (j_top j + 1 - loop)"
    and "loop = j_top j + 1 \<Longrightarrow> view w (lasti_node j) = Some (dec_of_int (j_top j))"
    and "\<And>w'. view w' (lasti_node j) = Some (dec_of_int (j_top j)) \<Longrightarrow> Q (j_top j + 1) w'"
  shows "wpP (impjob_loop th env j nroot loop I) Q R w"
  using assms(7-13)
proof (induction n arbitrary: loop I w)
  case 0
  then have "loop = j_top j + 1" by simp
  with 0 show ?case by (subst impjob_loop.simps) (simp add: wp_simps assms(14))
next
  case (Suc n)
  then have le: "loop \<le> j_top j" by simp
  have I: "is_int I" using Suc.prems(1,2) assms(4) by (simp add: is_int_def good_walk_def)
  obtain I' where I': "index_step (j_prime j) nroot I = Inr I'" "0 \<le> I'" "I' < j_prime j"
    by (rule index_step_good [OF assms(4-6) Suc.prems(1,2)])
  have next_turn: "int_of (loop + 1) = Inr (loop + 1)" using le Suc.prems(4) assms(4) by (simp add: int_of_def good_walk_def)
  have "wpP (impjob_turn th env j loop I) (\<lambda>_ w'. wpP (getI0 th env ''^endloop'' [dec_of_int (j_fillid j)])
      (\<lambda>stop. wpP (if stop \<noteq> 0 then retP loop else thenP (liftP (int_of (loop + 1))) (impjob_loop th env j nroot (loop + 1) I')) Q R) R w') R w"
  proof (rule wp_turn [OF assms(1-3) I])
    fix w' assume w': "agree control (view w') (counted j loop (view w))"
    have ne: "not_ended j (view w')" using not_ended_agree [OF w'] Suc.prems(3) by simp
    have "view w' (lasti_node j) = Some (dec_of_int loop)"
      using w' by (auto simp: agree_def control_def counted_def lasti_node_def)
    then have "wpP (impjob_loop th env j nroot (loop + 1) I') Q R w'"
      using Suc.prems(4,6) le I' ne by (intro Suc.IH) auto
    then show "wpP (getI0 th env ''^endloop'' [dec_of_int (j_fillid j)])
      (\<lambda>stop. wpP (if stop \<noteq> 0 then retP loop else thenP (liftP (int_of (loop + 1))) (impjob_loop th env j nroot (loop + 1) I')) Q R) R w'"
      by (intro wp_endloop [OF assms(1) ne]) (simp add: wp_simps next_turn)
  qed
  then show ?case using le by (subst impjob_loop.simps) (simp add: wpP_then wpP_bind wpP_lift I')
qed

lemma wp_run:
  assumes "im_laws False env view" "helper1_laws env view" "plain_tp j" "good_walk j" "not_ended j (view w)" "0 \<le> lasti" "lasti \<le> j_top j"
    and "view w (lasti_node j) = (if lasti = 0 \<and> fresh then None else Some (dec_of_int lasti))" "lasti < j_top j \<or> \<not> fresh"
    and "\<And>w'. view w' (lasti_node j) = Some (dec_of_int (j_top j)) \<Longrightarrow> Q (j_top j + 1) w'"
  shows "wpP (impjob_run th env j) Q R w"
proof -
  let ?r = "j_root j ^ nat (j_jobcnt j) mod j_prime j"
  have g: "1 < j_prime j" "j_prime j < 2 ^ 31" "0 \<le> j_root j" "j_prime j * j_root j \<le> 2 ^ 31" "0 \<le> j_jobcnt j" "1 \<le> j_jobno j" "j_top j < 2 ^ 31 - 1"
    using assms(4) by (auto simp: good_walk_def)
  have nroot: "calc_nroot (j_root j) (j_prime j) (j_jobcnt j) = Inr ?r"
    using nroot_loop_power [of "j_prime j" "j_root j" 1] g by (simp add: calc_nroot_def)
  have r: "0 \<le> ?r" "?r < j_prime j" using g(1) by simp_all
  let ?I = "job_index (j_root j) (j_prime j) (j_jobcnt j) (j_jobno j) (lasti + 1)"
  have start: "start_index (j_root j) (j_prime j) ?r (j_jobno j) lasti = Inr ?I"
    by (rule job_index_start [OF g(1-6) assms(6)])
  have I: "0 \<le> ?I" "?I < j_prime j" using g(1) by (simp_all add: job_index_def)
  have int: "int_of (lasti + 1) = Inr (lasti + 1)" "is_int lasti" using assms(6,7) g(7) by (simp_all add: int_of_def is_int_def)
  have "wpP (impjob_loop th env j ?r (lasti + 1) ?I) Q R w"
    by (rule wp_loop [where view = view, OF assms(1-4) r I _ _ _ refl]) (use assms(5-10) in auto)
  then have "wpP (getI0 th env (fst (lasti_node j)) (snd (lasti_node j))) (\<lambda>lasti.
      wpP (bindP (liftP (start_index (j_root j) (j_prime j) ?r (j_jobno j) lasti)) (\<lambda>I.
        thenP (liftP (int_of (lasti + 1))) (impjob_loop th env j ?r (lasti + 1) I))) Q R) R w"
    using assms(8) start int by (intro wp_getI0 [where view = view and x = lasti and u = fresh, OF assms(1)]) (simp_all add: wp_simps)
  then show ?thesis by (simp add: impjob_run_def wpP_bind wpP_lift nroot)
qed

section \<open>Stage 1 as the program in M has it\<close>

text \<open>
  \<^verbatim>\<open>com/imptp.m\<close>, which the C program follows: \<^verbatim>\<open>set\<close> of a node, of whose name only the first 31 characters after the caret count, and the
  commands of stage 1 one after the other, without the changes to \<^verbatim>\<open>^zdummy\<close> after a restart.
\<close>

definition m_set :: "string \<Rightarrow> string list \<Rightarrow> string \<Rightarrow> contents \<Rightarrow> contents" where
  "m_set g ss x c = c((take 32 g, ss) \<mapsto> x)"

definition m_stage1 :: "job \<Rightarrow> turn \<Rightarrow> int \<Rightarrow> contents \<Rightarrow> contents" where
  "m_stage1 j v loop c =
     (let fillid = dec_of_int (j_fillid j); trigger = (j_trigger j \<noteq> 0);
          c = m_set ''^arandom'' [fillid, v_subsMAX v] (v_val v) c;
          c = m_set ''^brandomv'' [fillid, v_subsMAX v] (v_valALT v) c;
          c = (if trigger then c else m_set ''^crandomva'' [fillid, v_subsMAX v] (v_valALT v) c);
          c = m_set ''^drandomvariable'' [fillid, v_subs v] (v_valALT v) c;
          c = (if trigger then c else
               let c = m_set ''^erandomvariableimptp'' [fillid, v_subs v] (v_valALT v) c
               in m_set ''^frandomvariableinimptp'' [fillid, v_subs v] (v_valALT v) c);
          c = m_set ''^grandomvariableinimptpfill'' [fillid, v_subs v] (v_val v) c;
          c = (if trigger then c else
               let c = m_set ''^hrandomvariableinimptpfilling'' [fillid, v_subs v] (v_val v) c
               in m_set ''^irandomvariableinimptpfillprgrm'' [fillid, v_subs v] (v_val v) c);
          c = m_set ''^jrandomvariableinimptpfillprogram'' [fillid, v_I v] (v_val v) c;
          c = (if trigger then c else
               let c = m_set ''^jrandomvariableinimptpfillprogram'' [fillid, v_I v, v_I v] (v_val v) c
               in m_set ''^jrandomvariableinimptpfillprogram'' [fillid, v_I v, v_I v, v_subs v] (v_val v) c)
      in if j_istp j \<noteq> 0 then m_set ''^lasti'' [fillid, dec_of_int (j_jobno j)] (dec_of_int loop) c else c)"

lemma stage1_as_in_m:
  assumes "j_trigger j = 0"
  shows "apply_sets (stage1_nodes j v loop) c = m_stage1 j v loop c"
  by (simp add: assms m_stage1_def m_set_def stage1_nodes_def stage1_first_def stage1_second_def unless_trigger_def lasti_node_def Let_def)

section \<open>Properties\<close>

text \<open>C19. What a job's first transaction commits where there are no triggers: beside any other jobs, stage 1 asks for a restart or commits what
  the M program sets, node for node, and nothing else in any global but \<^verbatim>\<open>^zdummy\<close> and \<^verbatim>\<open>^dummynoop\<close>, which a pause after a
  restart writes; in a transaction the count of the job's turns is among it.  No assertion fails and no error is hidden.  This holds of both programs.\<close>

theorem stage1_commits:
  assumes "im_laws True env view" "j_trigger j = 0" "\<not> j_ztr j"
  shows "commits (im_api env) view (tpfn_stage1 th env j v loop w)
           (\<lambda>c. \<forall>k. take 1 (fst k) = ''^'' \<and> fst k \<notin> {''^zdummy'', ''^dummynoop''} \<longrightarrow> c k = m_stage1 j v loop (view w) k)"
proof -
  have "\<exists>s w'. runP (im_ok env) (stage1 th env j v loop) w = Inr (s, w') \<and>
      (s = im_ok env \<and> agree test_nodes (view w') (apply_sets (stage1_nodes j v loop) (view w)) \<or> s = im_restart env)"
    using wpP_run [OF wp_stage1 [OF assms, where R = "\<lambda>s _. s = im_restart env" and
          Q = "\<lambda>_ w1. agree test_nodes (view w1) (apply_sets (stage1_nodes j v loop) (view w))"]]
    by simp
  then show ?thesis by (auto simp: commits_def tpfn_stage1_def agree_def test_nodes_def stage1_as_in_m [OF assms(2)])
qed

text \<open>C20. A job that is alone does all its turns: started fresh or after any number of counted turns, in transactions
  and without triggers, it runs to the last turn without a fault, and the database counts all of them.\<close>

theorem job_completes:
  assumes "im_laws False env view" "helper1_laws env view" "plain_tp j" "good_walk j" "not_ended j (view w)" "0 \<le> lasti" "lasti < j_top j"
    and "view w (lasti_node j) = (if lasti = 0 then None else Some (dec_of_int lasti))"
  shows "\<exists>w'. impjob_run th env j w = Inr (Inr (j_top j + 1), w') \<and> view w' (lasti_node j) = Some (dec_of_int (j_top j))"
proof -
  have "wpP (impjob_run th env j) (\<lambda>n w'. n = j_top j + 1 \<and> view w' (lasti_node j) = Some (dec_of_int (j_top j))) (\<lambda>_ _. False) w"
    by (rule wp_run [OF assms(1-6), of True]) (use assms(7,8) in simp_all)
  then show ?thesis by (rule wpP_total) simp
qed

section \<open>Instances of the properties\<close>

definition demo_job :: job where
  "demo_job = \<lparr>j_jobno = 2, j_fillid = 0, j_jobcnt = 5, j_prime = 50000017, j_root = 5, j_top = 3, j_istp = 1, j_tptype = ''BATCH'',
     j_tpnoiso = 0, j_dupset = 0, j_skipreg = 0, j_crash = 1, j_gtcm = 0, j_keysize = 40, j_recsize = 100, j_span = 0,
     j_trigger = 0, j_ztr = False, j_dztrig = False, j_lfence = 1\<rparr>"

theorem stage1_commits_witness:
  "commits (im_api demo_imptp) id (tpfn_stage1 True demo_imptp demo_job \<lparr>v_subsMAX = '' s'', v_val = ''v'', v_valALT = ''v'',
       v_valMAX = '' v'', v_subs = ''s'', v_I = ''5''\<rparr> 1 Map.empty)
     (\<lambda>c. c (''^jrandomvariableinimptpfillprogr'', [''0'', ''5'']) = Some ''v'' \<and> c (''^lasti'', [''0'', ''2'']) = Some ''1'' \<and>
       c (''^antp'', [''0'', ''s'']) = None)"
proof -
  let ?v = "\<lparr>v_subsMAX = '' s'', v_val = ''v'', v_valALT = ''v'', v_valMAX = '' v'', v_subs = ''s'', v_I = ''5''\<rparr>"
  have dec: "dec_of_int 0 = ''0''" "dec_of_int 1 = ''1''" "dec_of_int 2 = ''2''" by code_simp+
  have j: "j_trigger demo_job = 0" "\<not> j_ztr demo_job" by (simp_all add: demo_job_def)
  show ?thesis
  proof (rule commits_mono [OF stage1_commits [OF im_laws_mono [OF demo_laws(1)] j]])
    fix c :: contents assume c: "\<forall>k. take 1 (fst k) = ''^'' \<and> fst k \<notin> {''^zdummy'', ''^dummynoop''} \<longrightarrow> c k = m_stage1 demo_job ?v 1 (id Map.empty) k"
    show "c (''^jrandomvariableinimptpfillprogr'', [''0'', ''5'']) = Some ''v'' \<and> c (''^lasti'', [''0'', ''2'']) = Some ''1'' \<and> c (''^antp'', [''0'', ''s'']) = None"
      using c [rule_format, of "(''^jrandomvariableinimptpfillprogr'', [''0'', ''5''])"] c [rule_format, of "(''^lasti'', [''0'', ''2''])"]
        c [rule_format, of "(''^antp'', [''0'', ''s''])"]
      by (simp add: m_stage1_def m_set_def demo_job_def dec Let_def)
  qed
qed

theorem job_completes_witness:
  "\<exists>w'. impjob_run False demo_imptp demo_job Map.empty = Inr (Inr 4, w') \<and> w' (lasti_node demo_job) = Some (dec_of_int 3)"
proof -
  have "plain_tp demo_job" "good_walk demo_job" "not_ended demo_job (id Map.empty)" "j_top demo_job = 3"
    by (simp_all add: plain_tp_def good_walk_def not_ended_def demo_job_def)
  then show ?thesis using job_completes [OF demo_laws, of demo_job Map.empty 0 False] by simp
qed

end
