(* ===== verification/Imptp_Threaded.thy ===== *)
theory Imptp_Threaded
  imports Imptp_Job
begin

text \<open>
  The threaded program \<^verbatim>\<open>com/simplethreadapi_imptp.c\<close> under its own names: the definitions of \<open>Imptp\<close> where the
  status \<^verbatim>\<open>YDB_ERR_CALLINAFTERXIT\<close>, with which the database answers once the process ends, is looked for.
  It does what the simple program does as long as that status is not returned, and leaves its
  transactions with that status where a node is written, but not where a transaction pauses.
\<close>

section \<open>The program\<close>

definition return_if_callinafterxit :: "'w imptp_env \<Rightarrow> int \<Rightarrow> ('w, unit) prog" where
  "return_if_callinafterxit env s = (if s = err_callinafterxit env then leave (im_ok env) else retP ())"

lemma checkJ_threaded: "checkJ True env s = thenP (return_if_callinafterxit env s) (checkJ False env s)"
  by (simp add: checkJ_def return_if_callinafterxit_def fun_eq_iff thenP_def bindP_def retP_def leave_def)

definition st_setup_modes :: "'w imptp_env \<Rightarrow> int \<Rightarrow> ('w, unit) prog" where
  "st_setup_modes = setup_modes"

definition st_setup_ids :: "'w imptp_env \<Rightarrow> int \<Rightarrow> ('w, unit) prog" where
  "st_setup_ids = setup_ids"

definition st_check_totaljob :: "'w imptp_env \<Rightarrow> int \<Rightarrow> int \<Rightarrow> ('w, unit) prog" where
  "st_check_totaljob = check_totaljob"

definition st_setup_walk :: "'w imptp_env \<Rightarrow> int \<Rightarrow> ('w, unit) prog" where
  "st_setup_walk = setup_walk"

definition st_setup_tables :: "'w imptp_env \<Rightarrow> int \<Rightarrow> ('w, unit) prog" where
  "st_setup_tables = setup_tables"

definition st_start_jobs :: "'w imptp_env \<Rightarrow> int \<Rightarrow> int \<Rightarrow> ('w, unit) prog" where
  "st_start_jobs = start_jobs True"

definition st_imptp_wait :: "nat \<Rightarrow> 'w imptp_env \<Rightarrow> int \<Rightarrow> ('w, bool) prog" where
  "st_imptp_wait = imptp_wait"

definition st_imptp_main :: "nat \<Rightarrow> 'w imptp_env \<Rightarrow> ('w, bool) prog" where
  "st_imptp_main n = imptp_main n True"

definition st_impjob_ids :: "'w imptp_env \<Rightarrow> int \<Rightarrow> ('w, int \<times> int \<times> int \<times> int \<times> int) prog" where
  "st_impjob_ids = impjob_ids True"

definition st_trigger_vars :: "'w imptp_env \<Rightarrow> int \<Rightarrow> ('w, bool \<times> bool) prog" where
  "st_trigger_vars = trigger_vars True"

definition st_impjob_sync :: "'w imptp_env \<Rightarrow> int \<Rightarrow> ('w, unit) prog" where
  "st_impjob_sync = impjob_sync True"

definition st_impjob_params :: "'w imptp_env \<Rightarrow> int \<Rightarrow> ('w, job) prog" where
  "st_impjob_params = impjob_params True"

definition st_impjob_values :: "'w imptp_env \<Rightarrow> int \<Rightarrow> int \<Rightarrow> ('w, turn) prog" where
  "st_impjob_values = impjob_values True"

definition st_stage1 :: "'w imptp_env \<Rightarrow> job \<Rightarrow> turn \<Rightarrow> int \<Rightarrow> 'w \<Rightarrow> c_fault + int \<times> 'w" where
  "st_stage1 = tpfn_stage1 True"

definition st_stage2 :: "'w imptp_env \<Rightarrow> job \<Rightarrow> turn \<Rightarrow> ('w, unit) prog" where
  "st_stage2 = stage2 True"

definition st_stage3 :: "'w imptp_env \<Rightarrow> job \<Rightarrow> turn \<Rightarrow> 'w \<Rightarrow> c_fault + int \<times> 'w" where
  "st_stage3 = tpfn_stage3 True"

definition st_impjob_turn :: "'w imptp_env \<Rightarrow> job \<Rightarrow> int \<Rightarrow> int \<Rightarrow> ('w, unit) prog" where
  "st_impjob_turn = impjob_turn True"

definition st_impjob_loop :: "'w imptp_env \<Rightarrow> job \<Rightarrow> int \<Rightarrow> int \<Rightarrow> int \<Rightarrow> ('w, int) prog" where
  "st_impjob_loop = impjob_loop True"

definition st_impjob_run :: "'w imptp_env \<Rightarrow> job \<Rightarrow> ('w, int) prog" where
  "st_impjob_run = impjob_run True"

definition st_impjob :: "'w imptp_env \<Rightarrow> int \<Rightarrow> ('w, unit) prog" where
  "st_impjob = impjob True"

section \<open>Without the end of the process\<close>

text \<open>What a part of a program may leave with.\<close>

definition quits :: "int set \<Rightarrow> ('w, 'a) prog \<Rightarrow> bool" where
  "quits S m \<longleftrightarrow> (\<forall>w s w'. m w = Inr (Inl s, w') \<longrightarrow> s \<in> S)"

named_theorems quits_intros

lemma quits_ret [quits_intros]: "quits S (retP x)"
  by (simp add: quits_def retP_def)

lemma quits_leave [quits_intros]: "s \<in> S \<Longrightarrow> quits S (leave s)"
  by (simp add: quits_def leave_def)

lemma quits_lift [quits_intros]: "quits S (liftP m)"
  by (auto simp: quits_def liftP_def split: sum.splits)

lemma quits_assert [quits_intros]: "quits S (assertP b)"
  by (simp add: assertP_def quits_lift)

lemma quits_call [quits_intros]: "quits S (callP f)"
  by (simp add: quits_def callP_def)

lemma quits_ask [quits_intros]: "quits S (askP f)"
  by (simp add: quits_def askP_def)

lemma quits_bind [quits_intros]: "quits S m \<Longrightarrow> (\<And>x. quits S (f x)) \<Longrightarrow> quits S (bindP m f)"
  by (auto simp: quits_def bindP_def split: sum.splits prod.splits)

lemma quits_then [quits_intros]: "quits S m \<Longrightarrow> quits S n \<Longrightarrow> quits S (thenP m n)"
  by (simp add: thenP_def quits_intros)

lemma quits_if [quits_intros]: "quits S m \<Longrightarrow> quits S n \<Longrightarrow> quits S (if b then m else n)"
  by simp

lemma quits_prod [quits_intros]: "(\<And>x y. quits S (f x y)) \<Longrightarrow> quits S (case p of (x, y) \<Rightarrow> f x y)"
  by (cases p) simp

lemma quits_checkT [quits_intros]: "quits {im_restart env} (checkT False env s)"
  by (simp add: checkT_def quits_intros)

lemma quits_setT [quits_intros]: "quits {im_restart env} (setT False env g ss v)" "quits {im_restart env} (cipT env name)"
    "quits {im_restart env} (setU False env g ss v)"
  unfolding setT_def cipT_def setU_def by (simp_all add: quits_bind quits_call quits_checkT quits_if quits_leave quits_ret)

lemma quits_setsT [quits_intros]: "quits {im_restart env} (setsT False env ns)"
proof (induction ns)
  case (Cons n ns)
  then show ?case by (cases n) (auto simp: setsT_def intro!: quits_intros)
qed (simp add: setsT_def quits_intros)

lemma quits_stage1: "quits {im_restart env} (stage1 False env j v loop)"
  unfolding stage1_def hold_crit_def stage1_lasti_def get_isv_def checkA_def by (intro quits_intros)

lemma quits_stage3: "quits {im_restart env} (stage3 False env j v)"
  unfolding stage3_def drop_suffix_def Let_def by (intro quits_intros singletonI)

lemma quits_run: "quits S m \<Longrightarrow> runP ok m w = Inr (s, w') \<Longrightarrow> s \<in> insert ok S"
  by (fastforce simp: quits_def runP_def split: sum.splits prod.splits)

text \<open>No call answers that the process ends, and no transaction does unless its function does.\<close>

definition never_exits :: "'w imptp_env \<Rightarrow> bool" where
  "never_exits env \<longleftrightarrow> (let e = err_callinafterxit env in
     e \<noteq> im_ok env \<and> e \<noteq> im_restart env \<and>
     (\<forall>g ss v w. fst (ydb_set_s (im_api env) g ss v w) \<noteq> e) \<and> (\<forall>g ss n w. fst (ydb_get_s (im_api env) g ss n w) \<noteq> e) \<and>
     (\<forall>name w. fst (ydb_cip env name w) \<noteq> e) \<and> (\<forall>name n w. fst (ydb_get_isv env name n w) \<noteq> e) \<and>
     (\<forall>g ss w. fst (ydb_incr_s env g ss w) \<noteq> e \<and> fst (ydb_lock_incr_s env g ss w) \<noteq> e \<and> fst (ydb_lock_decr_s env g ss w) \<noteq> e) \<and>
     (\<forall>f w r. (\<forall>w0 r0. f w0 = Inr r0 \<longrightarrow> fst r0 \<noteq> e) \<longrightarrow> ydb_tp_s (im_api env) f w = Inr r \<longrightarrow> fst r \<noteq> e))"

lemma never_exits_calls:
  assumes "never_exits env"
  shows "err_callinafterxit env \<noteq> im_ok env" "err_callinafterxit env \<noteq> im_restart env"
    "fst (ydb_set_s (im_api env) g ss v w) \<noteq> err_callinafterxit env" "fst (ydb_get_s (im_api env) g ss n w) \<noteq> err_callinafterxit env"
    "fst (ydb_cip env name w) \<noteq> err_callinafterxit env" "fst (ydb_get_isv env name n w) \<noteq> err_callinafterxit env"
    "fst (ydb_incr_s env g ss w) \<noteq> err_callinafterxit env" "fst (ydb_lock_incr_s env g ss w) \<noteq> err_callinafterxit env"
    "fst (ydb_lock_decr_s env g ss w) \<noteq> err_callinafterxit env"
  using assms by (simp_all add: never_exits_def Let_def)

lemma never_exits_tp:
  assumes "never_exits env" "\<And>w0 s w1. f w0 = Inr (s, w1) \<Longrightarrow> s \<noteq> err_callinafterxit env" "ydb_tp_s (im_api env) f w = Inr (s, w')"
  shows "s \<noteq> err_callinafterxit env"
proof -
  have "\<forall>f w r. (\<forall>w0 r0. f w0 = Inr r0 \<longrightarrow> fst r0 \<noteq> err_callinafterxit env) \<longrightarrow> ydb_tp_s (im_api env) f w = Inr r \<longrightarrow>
      fst r \<noteq> err_callinafterxit env"
    using assms(1) unfolding never_exits_def Let_def by (elim conjE)
  from this [rule_format, of f w "(s, w')"] show ?thesis using assms(2,3) by fastforce
qed

named_theorems agree_simps

lemma check_agrees: "s \<noteq> err_callinafterxit env \<Longrightarrow> checkJ True env s = checkJ False env s"
    "s \<noteq> err_callinafterxit env \<Longrightarrow> checkT True env s = checkT False env s"
  by (simp_all add: checkJ_def checkT_def)

lemma calls_agree [agree_simps]:
  assumes "never_exits env"
  shows "setJ True env = setJ False env" "setT True env = setT False env" "cipJ True env = cipJ False env"
    "getJ True env = getJ False env" "getI0 True env = getI0 False env" "setU True env = setU False env"
    "impjob_sync True env = impjob_sync False env" "get_isv env (checkJ True env) = get_isv env (checkJ False env)"
proof -
  note simps = bindP_def callP_def askP_def thenP_def case_prod_beta check_agrees never_exits_calls [OF assms]
  show "setJ True env = setJ False env" "setT True env = setT False env" "cipJ True env = cipJ False env"
    by (intro ext, simp add: setJ_def setT_def cipJ_def simps)+
  show "getJ True env = getJ False env" "getI0 True env = getI0 False env" "get_isv env (checkJ True env) = get_isv env (checkJ False env)"
    by (intro ext, simp add: getJ_def getI0_def get_isv_def simps)+
  show "setU True env = setU False env" by (intro ext, simp add: setU_def simps)
  show "impjob_sync True env = impjob_sync False env"
    unfolding impjob_sync_def by (intro ext, simp add: simps cong: sum.case_cong prod.case_cong)
qed

lemma reads_agree [agree_simps]:
  assumes "never_exits env"
  shows "getI True env = getI False env" "param True env = param False env" "impjob_ids True env = impjob_ids False env"
    "impjob_tptype True env = impjob_tptype False env" "param_var True env = param_var False env"
    "trigger_vars True env = trigger_vars False env" "get_var True env = get_var False env"
proof -
  show getI: "getI True env = getI False env" by (intro ext, simp add: getI_def agree_simps assms)
  show param: "param True env = param False env" by (intro ext, simp add: param_def getI)
  show "impjob_ids True env = impjob_ids False env" by (intro ext, simp add: impjob_ids_def agree_simps assms getI param)
  show "impjob_tptype True env = impjob_tptype False env" by (intro ext, simp add: impjob_tptype_def agree_simps assms)
  show "param_var True env = param_var False env" by (intro ext, simp add: param_var_def agree_simps assms param)
  show "trigger_vars True env = trigger_vars False env" by (intro ext, simp add: trigger_vars_def agree_simps assms)
  show "get_var True env = get_var False env" by (intro ext, simp add: get_var_def agree_simps assms)
qed

lemma parts_agree [agree_simps]:
  assumes "never_exits env"
  shows "impjob_params True env = impjob_params False env" "impjob_values True env = impjob_values False env"
    "stage1 True env = stage1 False env" "stage3 True env = stage3 False env" "stage2 True env = stage2 False env"
proof -
  show "impjob_params True env = impjob_params False env" by (intro ext, simp only: impjob_params_def agree_simps assms)
  show "impjob_values True env = impjob_values False env" by (intro ext, simp only: impjob_values_def agree_simps assms)
  have "setsT True env = setsT False env" by (intro ext, simp add: setsT_def agree_simps assms)
  then show "stage1 True env = stage1 False env"
    by (intro ext, simp only: stage1_def hold_crit_def stage1_lasti_def agree_simps assms)
  have "drop_suffix True env = drop_suffix False env"
    unfolding drop_suffix_def [abs_def] calls_agree(2) [OF assms]
    by (intro ext, simp add: Let_def bindP_def askP_def thenP_def check_agrees never_exits_calls [OF assms] case_prod_beta)
  then show "stage3 True env = stage3 False env" by (intro ext, simp only: stage3_def agree_simps assms)
  show "stage2 True env = stage2 False env" by (intro ext, simp only: stage2_def agree_simps assms)
qed

lemma run_stage_agrees:
  assumes "never_exits env" "\<And>w s w'. f w = Inr (s, w') \<Longrightarrow> s \<noteq> err_callinafterxit env"
  shows "run_stage True env j f = run_stage False env j f"
proof
  fix w
  have "s \<noteq> err_callinafterxit env" if "(if j_istp j \<noteq> 0 then ydb_tp_s (im_api env) f else f) w = Inr (s, w')" for s w'
    using that assms(2) never_exits_tp [OF assms] by (auto split: if_splits)
  then show "run_stage True env j f w = run_stage False env j f w"
    unfolding run_stage_def bindP_def callE_def by (auto simp: check_agrees split: sum.split)
qed

lemma turn_agrees [agree_simps]:
  assumes "never_exits env"
  shows "impjob_turn True env = impjob_turn False env"
proof -
  note stage = quits_run [OF quits_stage1] quits_run [OF quits_stage3]
  have s1: "run_stage True env j (tpfn_stage1 True env j v loop) = run_stage False env j (tpfn_stage1 False env j v loop)" for j v loop
    unfolding tpfn_stage1_def parts_agree [OF assms]
    by (rule run_stage_agrees [OF assms]) (use stage(1) never_exits_calls(1,2) [OF assms] in fastforce)
  have s3: "run_stage True env j (tpfn_stage3 True env j v) = run_stage False env j (tpfn_stage3 False env j v)" for j v
    unfolding tpfn_stage3_def parts_agree [OF assms]
    by (rule run_stage_agrees [OF assms]) (use stage(2) never_exits_calls(1,2) [OF assms] in fastforce)
  show ?thesis by (intro ext, simp only: impjob_turn_def s1 s3 agree_simps assms)
qed

lemma loop_agrees [agree_simps]:
  assumes "never_exits env"
  shows "impjob_loop True env = impjob_loop False env"
proof -
  have "impjob_loop True env j nroot loop I = impjob_loop False env j nroot loop I" if "n = nat (j_top j + 1 - loop)" for n j nroot loop I
    using that
  proof (induction n arbitrary: loop I)
    case 0
    then show ?case by (simp add: impjob_loop.simps)
  next
    case (Suc n)
    then have "impjob_loop True env j nroot (loop + 1) I' = impjob_loop False env j nroot (loop + 1) I'" for I' by simp
    then show ?case
      by (subst (1 2) impjob_loop.simps) (simp only: agree_simps assms)
  qed
  then show ?thesis by (intro ext) simp
qed

lemma job_agrees [agree_simps]:
  assumes "never_exits env"
  shows "impjob True env = impjob False env"
proof -
  have "impjob_run True env = impjob_run False env" by (intro ext, simp only: impjob_run_def agree_simps assms)
  then show ?thesis by (intro ext, simp only: impjob_def agree_simps assms)
qed

lemma start_jobs_agrees [agree_simps]:
  assumes "never_exits env"
  shows "start_jobs True env jobcnt child = start_jobs False env jobcnt child"
proof -
  have "start_jobs True env jobcnt child = start_jobs False env jobcnt child" if "n = nat (jobcnt + 1 - child)" for n
    using that
  proof (induction n arbitrary: child)
    case 0
    then show ?case by (simp add: start_jobs.simps)
  next
    case (Suc n)
    then have "start_jobs True env jobcnt (child + 1) = start_jobs False env jobcnt (child + 1)" by simp
    then show ?case by (subst (1 2) start_jobs.simps) (simp only: agree_simps assms)
  qed
  then show ?thesis by simp
qed

section \<open>The end of the process\<close>

text \<open>The database where every call answers that the process ends once \<open>ex\<close> holds.\<close>

definition with_exit :: "('w \<Rightarrow> bool) \<Rightarrow> 'w imptp_env \<Rightarrow> 'w imptp_env" where
  "with_exit ex env = (let e = err_callinafterxit env in env
     \<lparr>im_api := (im_api env)
        \<lparr>ydb_set_s := \<lambda>g ss v w. if ex w then (e, w) else ydb_set_s (im_api env) g ss v w,
         ydb_get_s := \<lambda>g ss n w. if ex w then (e, []) else ydb_get_s (im_api env) g ss n w\<rparr>,
      ydb_cip := \<lambda>name w. if ex w then (e, w) else ydb_cip env name w,
      ydb_get_isv := \<lambda>name n w. if ex w then (e, []) else ydb_get_isv env name n w\<rparr>)"

lemma with_exit_simps [simp]:
  "im_ok (with_exit ex env) = im_ok env" "im_restart (with_exit ex env) = im_restart env"
  "err_callinafterxit (with_exit ex env) = err_callinafterxit env"
  "ydb_set_s (im_api (with_exit ex env)) g ss v w = (if ex w then (err_callinafterxit env, w) else ydb_set_s (im_api env) g ss v w)"
  "ydb_get_isv (with_exit ex env) name n w = (if ex w then (err_callinafterxit env, []) else ydb_get_isv env name n w)"
  by (simp_all add: with_exit_def Let_def)

lemma wp_setT_exit:
  assumes "im_laws r env view" "\<And>w'. view w' = (view w)((g, ss) \<mapsto> v) \<Longrightarrow> Q () w'" "\<And>w'. r \<Longrightarrow> R (im_restart env) w'"
    and "\<And>w'. R (err_callinafterxit env) w'"
  shows "wpP (setT True (with_exit ex env) g ss v) Q R w"
  by (rule im_laws_set [OF assms(1), of g ss v w])
    (use assms(2-4) im_laws_statuses [OF assms(1)] in \<open>auto simp: setT_def checkT_def wpP_call wp_simps\<close>)

lemma wp_setsT_exit:
  assumes "im_laws r env view" "\<And>w'. view w' = apply_sets ns (view w) \<Longrightarrow> Q () w'" "\<And>w'. r \<Longrightarrow> R (im_restart env) w'"
    and "\<And>w'. R (err_callinafterxit env) w'"
  shows "wpP (setsT True (with_exit ex env) ns) Q R w"
  using assms(2)
proof (induction ns arbitrary: w)
  case (Cons n ns)
  show ?case
    unfolding setsT_def
    by (cases n) (auto simp: wp_simps setsT_def [symmetric] intro!: wp_setT_exit [OF assms(1)] Cons assms(3,4))
qed (simp add: setsT_def wp_simps)

lemma wp_stage1_exit:
  assumes "im_laws r env view" "j_trigger j = 0" "\<not> j_ztr j" "and (j_istp j) (j_crash j) = 0"
    and "\<And>w'. view w' = apply_sets (stage1_nodes j v loop) (view w) \<Longrightarrow> Q () w'" "\<And>w'. r \<Longrightarrow> R (im_restart env) w'"
    and "\<And>w'. R (err_callinafterxit env) w'"
  shows "wpP (stage1 True (with_exit ex env) j v loop) Q R w"
  using assms(2-4) unfolding stage1_def hold_crit_def stage1_lasti_def
  by (simp add: wpP_then wpP_ret)
    (intro impI conjI wp_setT_exit [OF assms(1)] wp_setsT_exit [OF assms(1)] assms(5-7); simp add: stage1_nodes_def)

text \<open>Both programs do the same, or the one leaves with the status of the end where the other fails an assertion.\<close>

definition ends_alike :: "'w imptp_env \<Rightarrow> ('w, 'a) prog \<Rightarrow> ('w, 'a) prog \<Rightarrow> bool" where
  "ends_alike env m n \<longleftrightarrow> (\<forall>w. m w = n w \<or> (\<exists>w'. m w = Inr (Inl (err_callinafterxit env), w')) \<and> n w = Inl Assert_failed)"

named_theorems alike

lemma alike_refl [alike]: "ends_alike env m m"
  by (simp add: ends_alike_def)

lemma run_cases:
  fixes r :: "'e + ('a + 'b) \<times> 'w"
  obtains e where "r = Inl e" | s w' where "r = Inr (Inl s, w')" | x w' where "r = Inr (Inr x, w')"
  by (cases r; cases "fst (projr r)"; cases "projr r") simp_all

lemma alike_bind [alike]:
  assumes "ends_alike env m n" "\<And>x. ends_alike env (f x) (g x)"
  shows "ends_alike env (bindP m f) (bindP n g)"
  unfolding ends_alike_def
proof
  fix w
  from assms(1) consider "m w = n w" | w' where "m w = Inr (Inl (err_callinafterxit env), w')" "n w = Inl Assert_failed" unfolding ends_alike_def by blast
  then show "bindP m f w = bindP n g w \<or> (\<exists>w'. bindP m f w = Inr (Inl (err_callinafterxit env), w')) \<and> bindP n g w = Inl Assert_failed"
  proof cases
    case 1
    then have "bindP m f w = bindP n f w" by (simp add: bindP_def)
    then show ?thesis using assms(2) by (cases rule: run_cases [of "n w"]) (simp_all add: ends_alike_def bindP_def)
  qed (simp add: bindP_def)
qed

lemma alike_then [alike]: "ends_alike env m n \<Longrightarrow> ends_alike env m' n' \<Longrightarrow> ends_alike env (thenP m m') (thenP n n')"
  by (simp add: thenP_def alike_bind)

lemma alike_if [alike]: "ends_alike env m n \<Longrightarrow> ends_alike env m' n' \<Longrightarrow> ends_alike env (if b then m else m') (if b then n else n')"
  by simp

lemma alike_prod [alike]: "(\<And>x y. ends_alike env (f x y) (g x y)) \<Longrightarrow> ends_alike env (case p of (x, y) \<Rightarrow> f x y) (case p of (x, y) \<Rightarrow> g x y)"
  by (cases p) simp

text \<open>The status of the end is one of its own.\<close>

definition end_apart :: "'w imptp_env \<Rightarrow> bool" where
  "end_apart env \<longleftrightarrow> err_callinafterxit env \<notin> {im_ok env, im_restart env}"

lemma alike_checkT: "end_apart env \<Longrightarrow> ends_alike env (checkT True env s) (checkT False env s)"
  by (auto simp: end_apart_def ends_alike_def checkT_def thenP_def bindP_def leave_def retP_def assertP_def liftP_def c_assert_def)

lemma alike_calls:
  assumes "end_apart env"
  shows "ends_alike env (setT True env g ss v) (setT False env g ss v)"
  unfolding setT_def by (intro alike alike_checkT [OF assms])

lemma alike_setsT:
  assumes "end_apart env"
  shows "ends_alike env (setsT True env ns) (setsT False env ns)"
  unfolding setsT_def
  by (induction ns) (auto intro!: alike alike_calls [OF assms])

lemma alike_stage1: "end_apart env \<Longrightarrow> ends_alike env (stage1 True env j v loop) (stage1 False env j v loop)"
  unfolding stage1_def hold_crit_def stage1_lasti_def by (intro alike alike_calls alike_setsT; assumption)

text \<open>A program that asserts every status does what it does on a process that goes on, or fails.\<close>

definition fails_or :: "('w, 'a) prog \<Rightarrow> ('w, 'a) prog \<Rightarrow> bool" where
  "fails_or m n \<longleftrightarrow> (\<forall>w. m w = n w \<or> m w = Inl Assert_failed)"

named_theorems fails

lemma fails_refl [fails]: "fails_or m m"
  by (simp add: fails_or_def)

lemma fails_bind [fails]:
  assumes "fails_or m n" "\<And>x. fails_or (f x) (g x)"
  shows "fails_or (bindP m f) (bindP n g)"
  unfolding fails_or_def
proof
  fix w
  from assms(1) consider "m w = n w" | "m w = Inl Assert_failed" unfolding fails_or_def by blast
  then show "bindP m f w = bindP n g w \<or> bindP m f w = Inl Assert_failed"
  proof cases
    case 1
    then have "bindP m f w = bindP n f w" by (simp add: bindP_def)
    then show ?thesis using assms(2) by (cases rule: run_cases [of "n w"]) (simp_all add: fails_or_def bindP_def)
  qed (simp add: bindP_def)
qed

lemma fails_then [fails]: "fails_or m n \<Longrightarrow> fails_or m' n' \<Longrightarrow> fails_or (thenP m m') (thenP n n')"
  by (simp add: thenP_def fails_bind)

lemma fails_if [fails]: "fails_or m n \<Longrightarrow> fails_or m' n' \<Longrightarrow> fails_or (if b then m else m') (if b then n else n')"
  by simp

lemma fails_calls [fails]:
  assumes "end_apart env"
  shows "fails_or (setT False (with_exit ex env) g ss v) (setT False env g ss v)" "fails_or (cipT (with_exit ex env) name) (cipT env name)"
    "fails_or (get_isv (with_exit ex env) (checkA (with_exit ex env)) name) (get_isv env (checkA env) name)"
  using assms
  by (auto simp: end_apart_def fails_or_def setT_def cipT_def get_isv_def checkT_def checkA_def with_exit_def Let_def callP_def askP_def bindP_def thenP_def
      assertP_def liftP_def c_assert_def)

lemma fails_setsT:
  assumes "end_apart env"
  shows "fails_or (setsT False (with_exit ex env) ns) (setsT False env ns)"
  unfolding setsT_def
  by (induction ns) (auto intro!: fails fails_calls [OF assms])

lemma fails_stage1: "end_apart env \<Longrightarrow> fails_or (stage1 False (with_exit ex env) j v loop) (stage1 False env j v loop)"
proof -
  assume e: "end_apart env"
  have d: "im_drand48 (with_exit ex env) = im_drand48 env" by (simp add: with_exit_def Let_def)
  show ?thesis
    unfolding stage1_def hold_crit_def stage1_lasti_def d by (intro fails fails_calls [OF e] fails_setsT [OF e])
qed

text \<open>
  The pause of \<^verbatim>\<open>tpfn_stage1\<close> asserts the status of reading \<^verbatim>\<open>$trestart\<close> at once: a process that ends
  there fails the assertion, in both programs.
\<close>

lemma exit_in_pause:
  assumes "im_laws r env view" "and (j_istp j) (j_crash j) \<noteq> 0" "\<And>w. ex w"
  shows "hold_crit th (with_exit ex env) j w = Inl Assert_failed"
  using assms im_laws_statuses [OF assms(1)]
  by (simp add: hold_crit_def bindP_def callP_def get_isv_def askP_def thenP_def checkA_def assertP_def liftP_def c_assert_def)

section \<open>Properties\<close>

text \<open>As long as no call of the database answers that the process ends, both programs do the same in the parent and in every job, from
  every state of the database, faults included.\<close>

lemma threaded_agrees:
  assumes "never_exits env"
  shows "st_imptp_main n env = imptp_main n False env \<and> st_impjob env = impjob False env"
  using assms by (simp add: st_imptp_main_def st_impjob_def imptp_main_def agree_simps)

text \<open>C22. The end of the process during the first transaction, wherever it comes.  The threaded program returns the status of the end, so that
  nothing is committed, and there the simple one fails an assertion; or both do the same.  Without triggers this is to ask for a restart, to
  succeed with what the M program sets, or, in the pause of a crash test only, to fail an assertion, the threaded program too.\<close>

theorem threaded_exit:
  assumes "im_laws True env view"
  shows "(\<exists>w'. st_stage1 (with_exit ex env) j v loop w = Inr (err_callinafterxit env, w') \<and>
            tpfn_stage1 False (with_exit ex env) j v loop w = Inl Assert_failed) \<or>
         st_stage1 (with_exit ex env) j v loop w = tpfn_stage1 False (with_exit ex env) j v loop w \<and>
         (j_trigger j = 0 \<and> \<not> j_ztr j \<longrightarrow>
            commits (im_api env) view (st_stage1 (with_exit ex env) j v loop w)
              (\<lambda>c. \<forall>k. take 1 (fst k) = ''^'' \<and> fst k \<notin> {''^zdummy'', ''^dummynoop''} \<longrightarrow> c k = m_stage1 j v loop (view w) k) \<or>
            and (j_istp j) (j_crash j) \<noteq> 0 \<and> st_stage1 (with_exit ex env) j v loop w = Inl Assert_failed)"
    (is "_ \<or> _ \<and> (?plain \<longrightarrow> commits _ _ ?th ?P \<or> _)")
proof -
  let ?s = "stage1 False (with_exit ex env) j v loop" and ?t = "stage1 True (with_exit ex env) j v loop"
  have e: "end_apart env" "end_apart (with_exit ex env)" using im_laws_statuses [OF assms] by (auto simp: end_apart_def)
  have alike: "?t w = ?s w \<or> (\<exists>w'. ?t w = Inr (Inl (err_callinafterxit env), w')) \<and> ?s w = Inl Assert_failed"
    using alike_stage1 [OF e(2), of j v loop] by (simp add: ends_alike_def)
  have plain: "commits (im_api env) view ?th ?P \<or> and (j_istp j) (j_crash j) \<noteq> 0 \<and> ?th = Inl Assert_failed" if p: ?plain and eq: "?t w = ?s w"
  proof -
    have "?s w = stage1 False env j v loop w \<or> ?s w = Inl Assert_failed" using fails_stage1 [OF e(1), of ex j v loop] by (simp add: fails_or_def)
    then show ?thesis
    proof
      assume "?s w = stage1 False env j v loop w"
      then have th: "?th = runP (im_ok env) (stage1 False env j v loop) w" using eq by (simp add: st_stage1_def tpfn_stage1_def runP_def)
      have "\<exists>s w'. runP (im_ok env) (stage1 False env j v loop) w = Inr (s, w') \<and>
          (s = im_ok env \<and> agree test_nodes (view w') (apply_sets (stage1_nodes j v loop) (view w)) \<or> s = im_restart env)"
        using wpP_run [OF wp_stage1 [OF assms, where j = j and v = v and loop = loop and th = False and R = "\<lambda>s _. s = im_restart env" and
              Q = "\<lambda>_ w1. agree test_nodes (view w1) (apply_sets (stage1_nodes j v loop) (view w))"]] p
        by simp
      then show ?thesis using p unfolding th by (auto simp: commits_def agree_def test_nodes_def stage1_as_in_m)
    next
      assume f: "?s w = Inl Assert_failed"
      have "and (j_istp j) (j_crash j) \<noteq> 0"
      proof
        assume z: "and (j_istp j) (j_crash j) = 0"
        have "wpP ?t (\<lambda>_ _. True) (\<lambda>_ _. True) w" using p by (intro wp_stage1_exit [OF assms _ _ z]) simp_all
        then show False using f eq by (simp add: wpP_def)
      qed
      then show ?thesis using f eq by (simp add: st_stage1_def tpfn_stage1_def runP_def)
    qed
  qed
  show ?thesis
  proof (cases "?t w = ?s w")
    case True
    then have "?th = tpfn_stage1 False (with_exit ex env) j v loop w" by (simp add: st_stage1_def tpfn_stage1_def runP_def)
    then show ?thesis using plain True by blast
  next
    case False
    with alike obtain w' where "?t w = Inr (Inl (err_callinafterxit env), w')" "?s w = Inl Assert_failed" by blast
    then show ?thesis by (auto simp: st_stage1_def tpfn_stage1_def runP_def)
  qed
qed

section \<open>Instances of the properties\<close>

text \<open>Both programs on the database of the examples, which the process leaves alone.\<close>

lemma demo_never_exits: "never_exits demo_imptp"
  unfolding never_exits_def by (auto simp: demo_imptp_def store_api_def Let_def split: option.split)

lemma demo_agrees: "st_imptp_main 3 demo_imptp = imptp_main 3 False demo_imptp"
  using threaded_agrees [OF demo_never_exits, of 3] by simp

text \<open>The process ends once the first node is written: the second set answers with the status of the end.\<close>

theorem threaded_exit_witness:
  "\<exists>w'. st_stage1 (with_exit (\<lambda>w. w \<noteq> Map.empty) demo_imptp) (demo_job\<lparr>j_crash := 0\<rparr>)
       \<lparr>v_subsMAX = '' s'', v_val = ''v'', v_valALT = ''v'', v_valMAX = '' v'', v_subs = ''s'', v_I = ''5''\<rparr> 1 Map.empty =
       Inr (err_callinafterxit demo_imptp, w') \<and>
     tpfn_stage1 False (with_exit (\<lambda>w. w \<noteq> Map.empty) demo_imptp) (demo_job\<lparr>j_crash := 0\<rparr>)
       \<lparr>v_subsMAX = '' s'', v_val = ''v'', v_valALT = ''v'', v_valMAX = '' v'', v_subs = ''s'', v_I = ''5''\<rparr> 1 Map.empty = Inl Assert_failed"
proof -
  let ?e = "with_exit (\<lambda>w. w \<noteq> Map.empty) demo_imptp" and ?j = "demo_job\<lparr>j_crash := 0\<rparr>"
    and ?v = "\<lparr>v_subsMAX = '' s'', v_val = ''v'', v_valALT = ''v'', v_valMAX = '' v'', v_subs = ''s'', v_I = ''5''\<rparr>"
  have "tpfn_stage1 False ?e ?j ?v 1 Map.empty = Inl Assert_failed"
    by (simp add: tpfn_stage1_def runP_def stage1_def thenP_def bindP_def setT_def callP_def checkT_def assertP_def liftP_def c_assert_def retP_def
      hold_crit_def setsT_def stage1_first_def unless_trigger_def demo_job_def demo_imptp_def store_api_def with_exit_def Let_def)
  moreover have "\<not> commits (im_api demo_imptp) id (Inl Assert_failed) P" "and (j_istp ?j) (j_crash ?j) = 0" "j_trigger ?j = 0" "\<not> j_ztr ?j" for P
    by (simp_all add: commits_def demo_job_def)
  ultimately show ?thesis
    using threaded_exit [OF im_laws_mono [OF demo_laws(1)], where ex = "\<lambda>w. w \<noteq> Map.empty" and j = ?j and v = ?v and loop = 1 and w = Map.empty] by auto
qed

end
