(* ===== verification/Shared_Db.thy ===== *)
theory Shared_Db
  imports Prog
begin

text \<open>
  The database as one of several processes sees it: between two calls the others may change the globals.  Every
  call is a function of the world, reads too.  The laws are those of a process that guarantees something of its own changes of
  the globals and relies on something of the changes of the others.  They promise nothing of a change outside the guarantee,
  so that a proof from them shows that the process keeps it.
\<close>

section \<open>The calls\<close>

record 'w shared_db =
  db_ok :: int
  db_restart :: int
  db_gvundef :: int
  db_nodeend :: int
  db_set :: "string \<Rightarrow> string list \<Rightarrow> string \<Rightarrow> 'w \<Rightarrow> int \<times> 'w"
  db_get :: "string \<Rightarrow> string list \<Rightarrow> nat \<Rightarrow> 'w \<Rightarrow> (int \<times> string) \<times> 'w"
  db_data :: "string \<Rightarrow> string list \<Rightarrow> 'w \<Rightarrow> (int \<times> int) \<times> 'w"
  db_incr :: "string \<Rightarrow> string list \<Rightarrow> string option \<Rightarrow> 'w \<Rightarrow> (int \<times> string) \<times> 'w"
  db_next :: "string \<Rightarrow> string \<Rightarrow> nat \<Rightarrow> 'w \<Rightarrow> (int \<times> string) \<times> 'w"
  db_delete_tree :: "string \<Rightarrow> string list \<Rightarrow> 'w \<Rightarrow> int \<times> 'w"
  db_lock_incr :: "string \<Rightarrow> string list \<Rightarrow> 'w \<Rightarrow> int \<times> 'w"
  db_lock_decr :: "string \<Rightarrow> string list \<Rightarrow> 'w \<Rightarrow> int \<times> 'w"
  db_tp :: "('w \<Rightarrow> c_fault + int \<times> 'w) \<Rightarrow> 'w \<Rightarrow> c_fault + int \<times> 'w"

section \<open>The world of a process\<close>

text \<open>A process is outside a transaction, in one that may be restarted, or in the last try, which is not.\<close>

datatype tp_mode = Outside | Retry | Final

record 'w world =
  view :: "'w \<Rightarrow> contents"
  mode :: "'w \<Rightarrow> tp_mode"
  rely :: "contents \<Rightarrow> contents \<Rightarrow> bool"
  guar :: "contents \<Rightarrow> contents \<Rightarrow> bool"

definition is_global :: "string \<Rightarrow> bool" where
  "is_global g \<longleftrightarrow> take 1 g = ''^''"

text \<open>What the others may do between two calls, and the contents on which a call acts.\<close>

definition others :: "'w world \<Rightarrow> contents \<Rightarrow> contents \<Rightarrow> bool" where
  "others W c c' \<longleftrightarrow> (\<forall>g ss. \<not> is_global g \<longrightarrow> c' (g, ss) = c (g, ss)) \<and> rely W c c'"

definition sees :: "'w world \<Rightarrow> 'w \<Rightarrow> contents \<Rightarrow> bool" where
  "sees W w c \<longleftrightarrow> (if mode W w = Outside then others W (view W w) c else c = view W w)"

definition may_restart :: "'w world \<Rightarrow> string \<Rightarrow> 'w \<Rightarrow> bool" where
  "may_restart W g w \<longleftrightarrow> mode W w = Retry \<and> is_global g"

text \<open>A change that the laws promise: outside of transactions it has to keep to the guarantee.\<close>

definition allowed :: "'w world \<Rightarrow> 'w \<Rightarrow> (contents \<Rightarrow> contents) \<Rightarrow> bool" where
  "allowed W w f \<longleftrightarrow> (mode W w = Outside \<longrightarrow> (\<forall>c. sees W w c \<longrightarrow> guar W c (f c)))"

definition without_tree :: "string \<Rightarrow> string list \<Rightarrow> contents \<Rightarrow> contents" where
  "without_tree g ss c = (\<lambda>k. if fst k = g \<and> take (length ss) (snd k) = ss then None else c k)"

text \<open>The node holds an integer; an undefined one counts as zero.\<close>

definition holds_int :: "contents \<Rightarrow> node \<Rightarrow> int \<Rightarrow> bool" where
  "holds_int c k m \<longleftrightarrow> (case c k of None \<Rightarrow> m = 0 | Some v \<Rightarrow> v = dec_of_int m)"

definition increment :: "string option \<Rightarrow> int" where
  "increment inc = (case inc of None \<Rightarrow> 1 | Some s \<Rightarrow> atoi s)"

section \<open>The laws\<close>

definition set_law :: "'w shared_db \<Rightarrow> 'w world \<Rightarrow> bool" where
  "set_law db W \<longleftrightarrow> (\<forall>g ss v w s w'. allowed W w (\<lambda>c. c((g, ss) \<mapsto> v)) \<longrightarrow> db_set db g ss v w = (s, w') \<longrightarrow>
     mode W w' = mode W w \<and>
     (s = db_restart db \<and> may_restart W g w \<or> s = db_ok db \<and> (\<exists>c. sees W w c \<and> view W w' = c((g, ss) \<mapsto> v))))"

definition get_law :: "'w shared_db \<Rightarrow> 'w world \<Rightarrow> bool" where
  "get_law db W \<longleftrightarrow> (\<forall>g ss n w s x w'. db_get db g ss n w = ((s, x), w') \<longrightarrow>
     mode W w' = mode W w \<and>
     (s = db_restart db \<and> may_restart W g w \<or>
      sees W w (view W w') \<and>
      (case view W w' (g, ss) of
         None \<Rightarrow> is_global g \<longrightarrow> s = db_gvundef db
       | Some v \<Rightarrow> length v \<le> n \<longrightarrow> s = db_ok db \<and> x = v)))"

definition data_law :: "'w shared_db \<Rightarrow> 'w world \<Rightarrow> bool" where
  "data_law db W \<longleftrightarrow> (\<forall>g ss w s d w'. db_data db g ss w = ((s, d), w') \<longrightarrow>
     mode W w' = mode W w \<and>
     (s = db_restart db \<and> may_restart W g w \<or>
      sees W w (view W w') \<and> s = db_ok db \<and> (d = 0 \<longleftrightarrow> (\<forall>ss'. view W w' (g, ss @ ss') = None))))"

text \<open>An increment of a node that holds an integer, within the eighteen digits of the database.\<close>

definition incr_law :: "'w shared_db \<Rightarrow> 'w world \<Rightarrow> bool" where
  "incr_law db W \<longleftrightarrow> (\<forall>g ss inc w s x w'. db_incr db g ss inc w = ((s, x), w') \<longrightarrow>
     (\<forall>c. sees W w c \<longrightarrow> (\<exists>m. holds_int c (g, ss) m \<and> abs (m + increment inc) < 10 ^ 18 \<and>
        (mode W w = Outside \<longrightarrow> guar W c (c((g, ss) \<mapsto> dec_of_int (m + increment inc)))))) \<longrightarrow>
     mode W w' = mode W w \<and>
     (s = db_restart db \<and> may_restart W g w \<or>
      s = db_ok db \<and> (\<exists>c m. sees W w c \<and> holds_int c (g, ss) m \<and> x = dec_of_int (m + increment inc) \<and>
        view W w' = c((g, ss) \<mapsto> x))))"

text \<open>The next subscript of a variable whose subscripts are the numbers below \<open>n\<close>, which the database keeps in their order.\<close>

definition next_law :: "'w shared_db \<Rightarrow> 'w world \<Rightarrow> bool" where
  "next_law db W \<longleftrightarrow> (\<forall>g sub k n w s x w'. db_next db g sub 256 w = ((s, x), w') \<longrightarrow>
     \<not> is_global g \<longrightarrow> int n < 2 ^ 63 \<longrightarrow> sub = (if k = 0 then [] else dec_of_nat (k - 1)) \<longrightarrow> k \<le> n \<longrightarrow>
     (\<forall>ss. ss \<noteq> [] \<and> view W w (g, ss) \<noteq> None \<longleftrightarrow> (\<exists>m < n. ss = [dec_of_nat m])) \<longrightarrow>
     mode W w' = mode W w \<and> sees W w (view W w') \<and>
     (if k < n then s = db_ok db \<and> x = dec_of_nat k else s = db_nodeend db))"

definition delete_law :: "'w shared_db \<Rightarrow> 'w world \<Rightarrow> bool" where
  "delete_law db W \<longleftrightarrow> (\<forall>g ss w s w'. allowed W w (without_tree g ss) \<longrightarrow> db_delete_tree db g ss w = (s, w') \<longrightarrow>
     mode W w' = mode W w \<and>
     (s = db_restart db \<and> may_restart W g w \<or> s = db_ok db \<and> (\<exists>c. sees W w c \<and> view W w' = without_tree g ss c)))"

text \<open>Locks are for the processes to keep apart; the contents do not depend on them.\<close>

definition lock_law :: "'w shared_db \<Rightarrow> 'w world \<Rightarrow> bool" where
  "lock_law db W \<longleftrightarrow> (\<forall>g ss w. \<forall>(s, w') \<in> {db_lock_incr db g ss w, db_lock_decr db g ss w}.
     s = db_ok db \<and> mode W w' = mode W w \<and> sees W w (view W w'))"

text \<open>
  A transaction is a run of its function on contents that the others do not change meanwhile.  It is committed where every such run
  succeeds with a change that is guaranteed, or asks for a restart that the mode allows: the last of the tries is not restarted.
\<close>

definition tx_run :: "'w shared_db \<Rightarrow> 'w world \<Rightarrow> 'w \<Rightarrow> ('w \<Rightarrow> c_fault + int \<times> 'w) \<Rightarrow> 'w \<Rightarrow> bool" where
  "tx_run db W w f w0 \<longleftrightarrow> (\<exists>s w1. f w0 = Inr (s, w1) \<and>
     (s = db_restart db \<and> mode W w0 = Retry \<or> s = db_ok db \<and> guar W (view W w0) (view W w1)))"

definition tp_law :: "'w shared_db \<Rightarrow> 'w world \<Rightarrow> bool" where
  "tp_law db W \<longleftrightarrow> (\<forall>f w. mode W w = Outside \<longrightarrow>
     (\<forall>w0. mode W w0 \<noteq> Outside \<longrightarrow> others W (view W w) (view W w0) \<longrightarrow> tx_run db W w f w0) \<longrightarrow>
     (\<exists>w'. db_tp db f w = Inr (db_ok db, w') \<and> mode W w' = Outside \<and>
        (\<exists>w0 w1. mode W w0 \<noteq> Outside \<and> others W (view W w) (view W w0) \<and> f w0 = Inr (db_ok db, w1) \<and> view W w' = view W w1)))"

definition shared_laws :: "'w shared_db \<Rightarrow> 'w world \<Rightarrow> bool" where
  "shared_laws db W \<longleftrightarrow> (\<forall>c. rely W c c) \<and> (\<forall>c c' c''. rely W c c' \<longrightarrow> rely W c' c'' \<longrightarrow> rely W c c'') \<and>
     distinct [db_ok db, db_restart db, db_gvundef db, db_nodeend db] \<and>
     set_law db W \<and> get_law db W \<and> data_law db W \<and> incr_law db W \<and> next_law db W \<and> delete_law db W \<and> lock_law db W \<and> tp_law db W"

lemma shared_statuses:
  assumes "shared_laws db W"
  shows "db_ok db \<noteq> db_restart db" "db_ok db \<noteq> db_gvundef db" "db_ok db \<noteq> db_nodeend db" "db_restart db \<noteq> db_gvundef db"
    "db_restart db \<noteq> db_nodeend db" "db_gvundef db \<noteq> db_nodeend db"
  using assms by (auto simp: shared_laws_def)

lemma shared_rely:
  assumes "shared_laws db W"
  shows "rely W c c" "rely W c c' \<Longrightarrow> rely W c' c'' \<Longrightarrow> rely W c c''"
  using assms by (auto simp: shared_laws_def)

lemma others_refl: "shared_laws db W \<Longrightarrow> others W c c"
  by (simp add: others_def shared_rely)

lemma others_trans: "shared_laws db W \<Longrightarrow> others W c c' \<Longrightarrow> others W c' c'' \<Longrightarrow> others W c c''"
  by (auto simp: others_def intro: shared_rely)

lemma sees_local: "sees W w c \<Longrightarrow> \<not> is_global g \<Longrightarrow> c (g, ss) = view W w (g, ss)"
  by (auto simp: sees_def others_def split: if_splits)

lemma sees_rely: "shared_laws db W \<Longrightarrow> sees W w c \<Longrightarrow> rely W (view W w) c"
  by (auto simp: sees_def others_def shared_rely split: if_splits)

lemma sees_others: "shared_laws db W \<Longrightarrow> sees W w c \<Longrightarrow> others W (view W w) c"
  by (auto simp: sees_def others_refl split: if_splits)

section \<open>Rules for the calls\<close>

lemma wp_db_set:
  assumes "shared_laws db W" "allowed W w (\<lambda>c. c((g, ss) \<mapsto> v))"
    and "\<And>c w'. sees W w c \<Longrightarrow> view W w' = c((g, ss) \<mapsto> v) \<Longrightarrow> mode W w' = mode W w \<Longrightarrow> Q (db_ok db) w'"
    and "\<And>w'. may_restart W g w \<Longrightarrow> Q (db_restart db) w'"
  shows "wpP (callP (db_set db g ss v)) Q R w"
proof -
  obtain s w' where c: "db_set db g ss v w = (s, w')" by force
  have "set_law db W" using assms(1) by (simp add: shared_laws_def)
  from this [unfolded set_law_def, rule_format, OF assms(2) c] show ?thesis using assms(3,4) by (auto simp: wpP_call c)
qed

lemma wp_db_get:
  assumes "shared_laws db W"
    and "\<And>v w'. sees W w (view W w') \<Longrightarrow> mode W w' = mode W w \<Longrightarrow> view W w' (g, ss) = Some v \<Longrightarrow> length v \<le> n \<Longrightarrow> Q (db_ok db, v) w'"
    and "\<And>w'. sees W w (view W w') \<Longrightarrow> mode W w' = mode W w \<Longrightarrow> view W w' (g, ss) \<noteq> None \<and> length (the (view W w' (g, ss))) \<le> n \<or>
           (view W w' (g, ss) = None \<and> is_global g)"
    and "\<And>x w'. sees W w (view W w') \<Longrightarrow> mode W w' = mode W w \<Longrightarrow> view W w' (g, ss) = None \<Longrightarrow> is_global g \<Longrightarrow> Q (db_gvundef db, x) w'"
    and "\<And>x w'. may_restart W g w \<Longrightarrow> mode W w' = mode W w \<Longrightarrow> Q (db_restart db, x) w'"
  shows "wpP (callP (db_get db g ss n)) Q R w"
proof -
  obtain s x w' where c: "db_get db g ss n w = ((s, x), w')" by (metis prod.collapse)
  have "get_law db W" using assms(1) by (simp add: shared_laws_def)
  from this [unfolded get_law_def, rule_format, OF c]
  have m: "mode W w' = mode W w" and cases: "s = db_restart db \<and> may_restart W g w \<or>
      sees W w (view W w') \<and> (case view W w' (g, ss) of None \<Rightarrow> is_global g \<longrightarrow> s = db_gvundef db
        | Some v \<Rightarrow> length v \<le> n \<longrightarrow> s = db_ok db \<and> x = v)" by auto
  from cases have "Q (s, x) w'"
  proof
    assume seen: "sees W w (view W w') \<and> (case view W w' (g, ss) of None \<Rightarrow> is_global g \<longrightarrow> s = db_gvundef db
        | Some v \<Rightarrow> length v \<le> n \<longrightarrow> s = db_ok db \<and> x = v)"
    then show ?thesis using assms(2,4) [OF _ m] assms(3) [OF _ m] by (cases "view W w' (g, ss)") auto
  qed (use assms(5) m in auto)
  then show ?thesis by (simp add: wpP_call c)
qed

lemma wp_db_data:
  assumes "shared_laws db W"
    and "\<And>d w'. sees W w (view W w') \<Longrightarrow> mode W w' = mode W w \<Longrightarrow> (d = 0 \<longleftrightarrow> (\<forall>ss'. view W w' (g, ss @ ss') = None)) \<Longrightarrow> Q (db_ok db, d) w'"
    and "\<And>d w'. may_restart W g w \<Longrightarrow> Q (db_restart db, d) w'"
  shows "wpP (callP (db_data db g ss)) Q R w"
proof -
  obtain s d w' where c: "db_data db g ss w = ((s, d), w')" by (metis prod.collapse)
  have "data_law db W" using assms(1) by (simp add: shared_laws_def)
  from this [unfolded data_law_def, rule_format, OF c] show ?thesis using assms(2,3) by (auto simp: wpP_call c)
qed

lemma wp_db_incr:
  assumes "shared_laws db W"
    and "\<And>c. sees W w c \<Longrightarrow> \<exists>m. holds_int c (g, ss) m \<and> abs (m + increment inc) < 10 ^ 18 \<and>
        (mode W w = Outside \<longrightarrow> guar W c (c((g, ss) \<mapsto> dec_of_int (m + increment inc))))"
    and "\<And>c m w'. sees W w c \<Longrightarrow> holds_int c (g, ss) m \<Longrightarrow> view W w' = c((g, ss) \<mapsto> dec_of_int (m + increment inc)) \<Longrightarrow>
        mode W w' = mode W w \<Longrightarrow> Q (db_ok db, dec_of_int (m + increment inc)) w'"
    and "\<And>x w'. may_restart W g w \<Longrightarrow> Q (db_restart db, x) w'"
  shows "wpP (callP (db_incr db g ss inc)) Q R w"
proof -
  obtain s x w' where c: "db_incr db g ss inc w = ((s, x), w')" by (metis prod.collapse)
  have "incr_law db W" using assms(1) by (simp add: shared_laws_def)
  from this [unfolded incr_law_def, rule_format, OF c] show ?thesis using assms(2-4) by (auto simp: wpP_call c)
qed

lemma wp_db_delete:
  assumes "shared_laws db W" "allowed W w (without_tree g ss)"
    and "\<And>c w'. sees W w c \<Longrightarrow> view W w' = without_tree g ss c \<Longrightarrow> mode W w' = mode W w \<Longrightarrow> Q (db_ok db) w'"
    and "\<And>w'. may_restart W g w \<Longrightarrow> Q (db_restart db) w'"
  shows "wpP (callP (db_delete_tree db g ss)) Q R w"
proof -
  obtain s w' where c: "db_delete_tree db g ss w = (s, w')" by force
  have "delete_law db W" using assms(1) by (simp add: shared_laws_def)
  from this [unfolded delete_law_def, rule_format, OF assms(2) c] show ?thesis using assms(3,4) by (auto simp: wpP_call c)
qed

lemma wp_db_lock:
  assumes "shared_laws db W" "\<And>w'. sees W w (view W w') \<Longrightarrow> mode W w' = mode W w \<Longrightarrow> Q (db_ok db) w'"
  shows "wpP (callP (db_lock_incr db g ss)) Q R w" "wpP (callP (db_lock_decr db g ss)) Q R w"
proof -
  have "lock_law db W" using assms(1) by (simp add: shared_laws_def)
  then show "wpP (callP (db_lock_incr db g ss)) Q R w" "wpP (callP (db_lock_decr db g ss)) Q R w"
    using assms(2) unfolding lock_law_def wpP_call by (fastforce simp: case_prod_beta)+
qed

lemma wp_db_tp:
  assumes "shared_laws db W" "mode W w = Outside"
    and "\<And>w0. mode W w0 \<noteq> Outside \<Longrightarrow> others W (view W w) (view W w0) \<Longrightarrow>
      wpP f (\<lambda>_ w1. guar W (view W w0) (view W w1) \<and> P (view W w0) (view W w1)) (\<lambda>s _. s = db_restart db \<and> mode W w0 = Retry) w0"
    and "\<And>c c' w'. others W (view W w) c \<Longrightarrow> P c c' \<Longrightarrow> view W w' = c' \<Longrightarrow> mode W w' = Outside \<Longrightarrow> Q (db_ok db) w'"
  shows "wpP (callE (db_tp db (runP (db_ok db) f))) Q R w"
proof -
  have run: "\<exists>s w1. runP (db_ok db) f w0 = Inr (s, w1) \<and> (s = db_restart db \<and> mode W w0 = Retry \<or>
      s = db_ok db \<and> guar W (view W w0) (view W w1) \<and> P (view W w0) (view W w1))"
    if "mode W w0 \<noteq> Outside" "others W (view W w) (view W w0)" for w0
    using wpP_run [OF assms(3) [OF that], of "db_ok db"] by fast
  have "tx_run db W w (runP (db_ok db) f) w0" if "mode W w0 \<noteq> Outside" "others W (view W w) (view W w0)" for w0
    using run [OF that] by (auto simp: tx_run_def)
  moreover have "tp_law db W" using assms(1) by (simp add: shared_laws_def)
  ultimately obtain w' w0 w1 where w': "db_tp db (runP (db_ok db) f) w = Inr (db_ok db, w')" "mode W w' = Outside"
    "mode W w0 \<noteq> Outside" "others W (view W w) (view W w0)" "runP (db_ok db) f w0 = Inr (db_ok db, w1)" "view W w' = view W w1"
    using assms(2) unfolding tp_law_def by blast
  have "P (view W w0) (view W w1)" using run [OF w'(3,4)] w'(5) shared_statuses(1) [OF assms(1)] by auto
  then have "Q (db_ok db) w'" using assms(4) w' by auto
  then show ?thesis using w'(1) by (auto simp: wpP_callE)
qed

lemma wp_db_next:
  assumes "shared_laws db W" "\<not> is_global g" "int n < 2 ^ 63" "k \<le> n" "sub = (if k = 0 then [] else dec_of_nat (k - 1))"
    and "\<And>ss. ss \<noteq> [] \<and> view W w (g, ss) \<noteq> None \<longleftrightarrow> (\<exists>m < n. ss = [dec_of_nat m])"
    and "\<And>w'. sees W w (view W w') \<Longrightarrow> mode W w' = mode W w \<Longrightarrow> k < n \<Longrightarrow> Q (db_ok db, dec_of_nat k) w'"
    and "\<And>x w'. sees W w (view W w') \<Longrightarrow> mode W w' = mode W w \<Longrightarrow> k = n \<Longrightarrow> Q (db_nodeend db, x) w'"
  shows "wpP (callP (db_next db g sub 256)) Q R w"
proof -
  obtain s x w' where c: "db_next db g sub 256 w = ((s, x), w')" by (metis prod.collapse)
  have "next_law db W" using assms(1) by (simp add: shared_laws_def)
  from this [unfolded next_law_def, rule_format, OF c assms(2,3,5,4)] assms(6)
  show ?thesis using assms(4,7,8) by (auto simp: wpP_call c split: if_splits)
qed

end
