(* ===== verification/Threen1f.thy ===== *)
theory Threen1f
  imports Shared_Db
begin

text \<open>
  The workload \<^verbatim>\<open>v62002/inref/simpleapi_threeen1f.c\<close> and its twin \<^verbatim>\<open>v62002/inref/simplethreadapi_threeen1f.c\<close>: the
  largest number of steps of the 3n+1 problem over an interval, computed by processes or threads that share the steps known so
  far in \<^verbatim>\<open>^step\<close>.  Numbers are spelled there with one word per digit.

  Several loops have no bound that the program knows (the problem itself is open); their \<open>fuel\<close> is the number of
  turns that the model follows, and \<open>Out_of_fuel\<close> the value of a longer run.
\<close>

section \<open>The process\<close>

definition tn_MAXCHILDREN :: int where
  "tn_MAXCHILDREN = 32"

definition tn_MAXVALUELEN :: nat where
  "tn_MAXVALUELEN = 256"

section \<open>Buffers and integers\<close>

definition int64_of :: "int \<Rightarrow> c_fault + int" where
  "int64_of n = (if - (2 ^ 63) \<le> n \<and> n < 2 ^ 63 then Inr n else Inl Int_overflow)"

text \<open>A buffer of \<^verbatim>\<open>MAXVALUELEN\<close> bytes as a C string, after \<^verbatim>\<open>buf_addr[len_used] = 0\<close>.\<close>

definition c_string :: "string \<Rightarrow> c_fault + string" where
  "c_string v = (if length v < tn_MAXVALUELEN then Inr (takeWhile (\<lambda>c. c \<noteq> CHR 0x00) v) else Inl Write_oob)"

definition atoi_of :: "string \<Rightarrow> c_fault + int" where
  "atoi_of v = bindE (c_string v) (\<lambda>s. int_of (atoi s))"

definition atoll_of :: "string \<Rightarrow> c_fault + int" where
  "atoll_of v = bindE (c_string v) (\<lambda>s. int64_of (atoi s))"

definition okS :: "'w shared_db \<Rightarrow> int \<Rightarrow> ('w, unit) prog" where
  "okS db s = assertP (s = db_ok db)"

definition setS :: "'w shared_db \<Rightarrow> string \<Rightarrow> string list \<Rightarrow> string \<Rightarrow> ('w, unit) prog" where
  "setS db g ss v = bindP (callP (db_set db g ss v)) (okS db)"

definition getS :: "'w shared_db \<Rightarrow> string \<Rightarrow> string list \<Rightarrow> ('w, string) prog" where
  "getS db g ss = bindP (callP (db_get db g ss tn_MAXVALUELEN)) (\<lambda>(s, v). thenP (okS db s) (retP v))"

definition incrS :: "'w shared_db \<Rightarrow> string \<Rightarrow> string list \<Rightarrow> string option \<Rightarrow> ('w, string) prog" where
  "incrS db g ss inc = bindP (callP (db_incr db g ss inc)) (\<lambda>(s, v). thenP (okS db s) (retP v))"

section \<open>Spelled numbers\<close>

definition utf8 :: "nat list \<Rightarrow> string" where
  "utf8 = map char_of"

definition digitstrings :: "string list" where
  "digitstrings = [''zero'', ''eins'', ''deux'', ''tres'', ''quattro'',
     utf8 [0xd0, 0xbf, 0xd1, 0x8f, 0xd1, 0x82, 0xd1, 0x8c],
     utf8 [0xd8, 0xb3, 0xd8, 0xaa, 0xd8, 0xa9],
     utf8 [0xe0, 0xa4, 0xb8, 0xe0, 0xa4, 0xbe, 0xe0, 0xa4, 0xa4],
     utf8 [0xe6, 0x8d, 0x8c],
     utf8 [0xe0, 0xae, 0x92, 0xe0, 0xae, 0xa9, 0xe0, 0xaf, 0x8d, 0xe0, 0xae, 0xaa, 0xe0, 0xae, 0xa4, 0xe0, 0xaf, 0x81]]"

fun digitsinit_loop :: "'w shared_db \<Rightarrow> nat \<Rightarrow> string list \<Rightarrow> ('w, unit) prog" where
  "digitsinit_loop db i [] = retP ()"
| "digitsinit_loop db i (t # ts) =
     thenP (setS db ''di'' [t] (dec_of_nat i))
     (thenP (setS db ''ds'' [dec_of_nat i] t) (digitsinit_loop db (i + 1) ts))"

definition digitsinit :: "'w shared_db \<Rightarrow> ('w, unit) prog" where
  "digitsinit db = digitsinit_loop db 0 digitstrings"

text \<open>The word of a digit: its buffer and the C string in it.\<close>

definition digit_word :: "'w shared_db \<Rightarrow> char \<Rightarrow> ('w, string \<times> string) prog" where
  "digit_word db c = bindP (getS db ''ds'' [dec_of_nat (digit_val c)]) (\<lambda>d. bindP (liftP (c_string d)) (\<lambda>t. retP (d, t)))"

fun inttostr_loop :: "'w shared_db \<Rightarrow> string \<Rightarrow> string \<Rightarrow> ('w, string) prog" where
  "inttostr_loop db [] buff = retP buff"
| "inttostr_loop db (c # cs) buff =
     bindP (digit_word db c) (\<lambda>(d, t).
     thenP (assertP (length buff + length d + 1 < tn_MAXVALUELEN))
     (thenP (assertP (1 + length t = 1 + length d)) (inttostr_loop db cs (buff @ '' '' @ t))))"

definition inttostr :: "'w shared_db \<Rightarrow> int \<Rightarrow> ('w, string) prog" where
  "inttostr db n =
     thenP (assertP (0 \<le> n))
     (case dec_of_int n of [] \<Rightarrow> retP [] | c # cs \<Rightarrow> bindP (digit_word db c) (\<lambda>(d, t). inttostr_loop db cs t))"

lemma strtok_shorter: "strtok delims s = Some (t, rest) \<Longrightarrow> length rest < length s"
proof -
  assume a: "strtok delims s = Some (t, rest)"
  let ?u = "dropWhile (\<lambda>c. c \<in> set delims) s"
  have "?u \<noteq> []" and rest: "length rest = length (dropWhile (\<lambda>c. c \<notin> set delims) ?u) - 1"
    using a by (auto simp: strtok_def Let_def split: if_splits)
  then have "0 < length ?u" by simp
  moreover have "length (dropWhile (\<lambda>c. c \<notin> set delims) ?u) \<le> length ?u" "length ?u \<le> length s"
    by (simp_all add: length_dropWhile_le)
  ultimately show ?thesis using rest by arith
qed

function strtoint_loop :: "'w shared_db \<Rightarrow> string \<Rightarrow> int \<Rightarrow> ('w, int) prog" where
  "strtoint_loop db s n =
     (case strtok '' '' s of
        None \<Rightarrow> retP n
      | Some (t, rest) \<Rightarrow>
          bindP (getS db ''di'' [t]) (\<lambda>v.
          bindP (liftP (atoi_of v)) (\<lambda>curdigit.
          bindP (liftP (bindE (int64_of (10 * n)) (\<lambda>m. int64_of (m + curdigit)))) (\<lambda>n'. strtoint_loop db rest n'))))"
  by pat_completeness auto
termination
  by (relation "measure (\<lambda>(db, s, n). length s)") (auto dest: strtok_shorter)

declare strtoint_loop.simps [simp del]

definition strtoint :: "'w shared_db \<Rightarrow> string \<Rightarrow> ('w, int) prog" where
  "strtoint db s = bindP (liftP (c_string s)) (\<lambda>t. strtoint_loop db t 0)"

section \<open>The counts of a process\<close>

text \<open>
  The processes count in M variables, the threads in a structure.  \<open>note_highest n n'\<close> is called after the step from \<open>n\<close> to
  \<open>n'\<close>; \<open>path_var\<close> is the M variable of the path.
\<close>

record ('w, 's) counters =
  count_read :: "'s \<Rightarrow> ('w, 's) prog"
  note_highest :: "int \<Rightarrow> int \<Rightarrow> 's \<Rightarrow> ('w, 's) prog"
  count_update :: "'s \<Rightarrow> ('w, 's) prog"
  path_var :: string

text \<open>The process stores the number that it comes from: the buffer still holds it.\<close>

definition m_note_highest :: "'w shared_db \<Rightarrow> int \<Rightarrow> int \<Rightarrow> unit \<Rightarrow> ('w, unit) prog" where
  "m_note_highest db n n' st =
     bindP (getS db ''highest'' []) (\<lambda>v.
     bindP (liftP (atoll_of v)) (\<lambda>highest_lcl.
     if n' > highest_lcl then setS db ''highest'' [] (dec_of_int n) else retP ()))"

definition m_counters :: "'w shared_db \<Rightarrow> ('w, unit) counters" where
  "m_counters db = \<lparr>count_read = (\<lambda>st. thenP (incrS db ''reads'' [] None) (retP ())),
     note_highest = m_note_highest db,
     count_update = (\<lambda>st. thenP (incrS db ''updates'' [] None) (retP ())),
     path_var = ''currpath''\<rparr>"

record gvstats =
  gv_reads :: int
  gv_updates :: int
  gv_highest :: int

definition st_counters :: "string \<Rightarrow> ('w, gvstats) counters" where
  "st_counters tid = \<lparr>count_read = (\<lambda>st. bindP (liftP (int64_of (gv_reads st + 1))) (\<lambda>n. retP (st\<lparr>gv_reads := n\<rparr>))),
     note_highest = (\<lambda>n n' st. retP (if n' > gv_highest st then st\<lparr>gv_highest := n'\<rparr> else st)),
     count_update = (\<lambda>st. bindP (liftP (int64_of (gv_updates st + 1))) (\<lambda>n. retP (st\<lparr>gv_updates := n\<rparr>))),
     path_var = ''currpath'' @ tid\<rparr>"

section \<open>The steps of a number\<close>

definition next_number :: "int \<Rightarrow> c_fault + int" where
  "next_number n = (if n mod 2 = 0 then Inr (n div 2) else bindE (int64_of (3 * n)) (\<lambda>m. int64_of (m + 1)))"

text \<open>Whether the steps of a spelled number are known.\<close>

definition known_steps :: "'w shared_db \<Rightarrow> string \<Rightarrow> ('w, bool) prog" where
  "known_steps db s =
     bindP (callP (db_data db ''^step'' [s])) (\<lambda>(status, data_value). thenP (okS db status) (retP (data_value \<noteq> 0)))"

text \<open>One step of the path; \<open>go\<close> is the rest of the walk.\<close>

definition walk_on :: "'w shared_db \<Rightarrow> ('w, 's) counters \<Rightarrow> int \<Rightarrow> int \<Rightarrow> 's \<Rightarrow> (int \<Rightarrow> int \<Rightarrow> 's \<Rightarrow> ('w, 'a) prog) \<Rightarrow> ('w, 'a) prog" where
  "walk_on db C n i st go =
     thenP (setS db (path_var C) [dec_of_int i] (dec_of_int n))
     (bindP (liftP (next_number n)) (\<lambda>n'.
      bindP (note_highest C n n' st) (\<lambda>st1.
      bindP (liftP (int64_of (i + 1))) (\<lambda>i'. go n' i' st1))))"

text \<open>The path from \<open>n\<close> to 1 or to a number with known steps; the result is where it ended and after how many steps.\<close>

primrec walk :: "nat \<Rightarrow> 'w shared_db \<Rightarrow> ('w, 's) counters \<Rightarrow> int \<Rightarrow> int \<Rightarrow> 's \<Rightarrow> ('w, int \<times> int \<times> 's) prog" where
  "walk 0 db C n i st = liftP (Inl Out_of_fuel)"
| "walk (Suc fuel) db C n i st =
     bindP (count_read C st) (\<lambda>st1.
     if n = 1 then retP (n, i, st1)
     else bindP (inttostr db n) (\<lambda>s.
          bindP (known_steps db s) (\<lambda>b.
          if b then retP (n, i, st1) else walk_on db C n i st1 (walk fuel db C))))"

definition tp_setmaximum :: "'w shared_db \<Rightarrow> int \<Rightarrow> ('w, unit) prog" where
  "tp_setmaximum db i =
     bindP (callP (db_get db ''^result'' [] tn_MAXVALUELEN)) (\<lambda>(s, v).
     if s = db_restart db then leave s
     else bindP (if s \<noteq> db_gvundef db then thenP (okS db s) (liftP (atoi_of v)) else retP 0) (\<lambda>result.
          if i > result
          then bindP (callP (db_set db ''^result'' [] (dec_of_int i))) (\<lambda>s. if s = db_restart db then leave s else okS db s)
          else retP ()))"

definition run_tp :: "'w shared_db \<Rightarrow> ('w, unit) prog \<Rightarrow> ('w, unit) prog" where
  "run_tp db f = bindP (callE (db_tp db (runP (db_ok db) f))) (okS db)"

text \<open>Storing the steps of the number at the subscript \<open>x\<close> of the path.\<close>

definition store_one :: "'w shared_db \<Rightarrow> ('w, 's) counters \<Rightarrow> string \<Rightarrow> int \<Rightarrow> 's \<Rightarrow> ('w, int \<times> 's) prog" where
  "store_one db C x i st =
     thenP (assertP (x \<noteq> []))
     (bindP (liftP (atoi_of x)) (\<lambda>tmp1.
      bindP (count_update C st) (\<lambda>st1.
      bindP (getS db (path_var C) [x]) (\<lambda>v.
      bindP (liftP (atoll_of v)) (\<lambda>tmp2.
      bindP (inttostr db tmp2) (\<lambda>sn.
      bindP (liftP (int64_of (i - tmp1))) (\<lambda>k.
      bindP (inttostr db k) (\<lambda>sk.
      thenP (setS db ''^step'' [sn] sk) (retP (tmp1, st1))))))))))"

text \<open>All numbers of the path, from the subscript after \<open>sub\<close> on.\<close>

primrec store_steps :: "nat \<Rightarrow> 'w shared_db \<Rightarrow> ('w, 's) counters \<Rightarrow> string \<Rightarrow> int \<Rightarrow> 's \<Rightarrow> ('w, 's) prog" where
  "store_steps 0 db C sub i st = liftP (Inl Out_of_fuel)"
| "store_steps (Suc fuel) db C sub i st =
     bindP (callP (db_next db (path_var C) sub tn_MAXVALUELEN)) (\<lambda>(s, x).
     if s = db_nodeend db then retP st
     else thenP (okS db s)
          (bindP (store_one db C x i st) (\<lambda>(tmp1, st1). store_steps fuel db C (dec_of_int tmp1) i st1)))"

text \<open>One number.\<close>

definition dostep_one :: "nat \<Rightarrow> 'w shared_db \<Rightarrow> ('w, 's) counters \<Rightarrow> int \<Rightarrow> 's \<Rightarrow> ('w, 's) prog" where
  "dostep_one fuel db C current st =
     thenP (bindP (callP (db_delete_tree db (path_var C) [])) (okS db))
     (bindP (walk fuel db C current 0 st) (\<lambda>(n, i, st1).
      if 0 < i
      then bindP (if 1 < n
                  then bindP (inttostr db n) (\<lambda>s.
                       bindP (getS db ''^step'' [s]) (\<lambda>v.
                       bindP (strtoint db v) (\<lambda>m. liftP (int64_of (i + m)))))
                  else retP i) (\<lambda>i'.
           thenP (run_tp db (tp_setmaximum db i'))
           (store_steps fuel db C [] i' st1))
      else retP st1))"

function dostep_loop :: "nat \<Rightarrow> 'w shared_db \<Rightarrow> ('w, 's) counters \<Rightarrow> int \<Rightarrow> int \<Rightarrow> 's \<Rightarrow> ('w, 's) prog" where
  "dostep_loop fuel db C current lastn st =
     (if current \<le> lastn
      then bindP (dostep_one fuel db C current st) (\<lambda>st1. dostep_loop fuel db C (current + 1) lastn st1)
      else retP st)"
  by pat_completeness auto
termination
  by (relation "measure (\<lambda>(fuel, db, C, current, lastn, st). nat (lastn + 1 - current))") auto

declare dostep_loop.simps [simp del]

definition dostep :: "nat \<Rightarrow> 'w shared_db \<Rightarrow> int \<Rightarrow> int \<Rightarrow> ('w, unit) prog" where
  "dostep fuel db first lastn = dostep_loop fuel db (m_counters db) first lastn ()"

definition st_dostep :: "nat \<Rightarrow> 'w shared_db \<Rightarrow> string \<Rightarrow> int \<Rightarrow> int \<Rightarrow> gvstats \<Rightarrow> ('w, gvstats) prog" where
  "st_dostep fuel db tid first lastn st = dostep_loop fuel db (st_counters tid) first lastn st"

end
