(* ===== verification/Threen1f_Spell.thy ===== *)
theory Threen1f_Spell
  imports Threen1f
begin

text \<open>
  The rules for the calls of the program, and the numbers that it spells: what \<^verbatim>\<open>inttostr\<close> writes, \<^verbatim>\<open>strtoint\<close> reads, and
  how large a number may be for its words to fit the buffer.
\<close>

section \<open>The world after some calls\<close>

definition later :: "'w world \<Rightarrow> 'w \<Rightarrow> 'w \<Rightarrow> bool" where
  "later W w w' \<longleftrightarrow> mode W w' = mode W w \<and> sees W w (view W w')"

lemma later_refl: "shared_laws db W \<Longrightarrow> later W w w"
  by (simp add: later_def sees_def others_refl)

lemma later_trans: "shared_laws db W \<Longrightarrow> later W w w' \<Longrightarrow> later W w' w'' \<Longrightarrow> later W w w''"
  by (auto simp: later_def sees_def intro: others_trans split: if_splits)

lemma later_local: "later W w w' \<Longrightarrow> \<not> is_global g \<Longrightarrow> view W w' (g, ss) = view W w (g, ss)"
  by (auto simp: later_def dest: sees_local)

lemma wp_setS:
  assumes "shared_laws db W" "\<not> may_restart W g w" "allowed W w (\<lambda>c. c((g, ss) \<mapsto> v))"
    and "\<And>c w'. sees W w c \<Longrightarrow> view W w' = c((g, ss) \<mapsto> v) \<Longrightarrow> mode W w' = mode W w \<Longrightarrow> Q () w'"
  shows "wpP (setS db g ss v) Q R w"
  unfolding setS_def wpP_bind
  by (rule wp_db_set [OF assms(1,3)]) (use assms(2,4) in \<open>auto simp: okS_def wp_simps\<close>)

lemma wp_getS:
  assumes "shared_laws db W" "\<not> may_restart W g w"
    and "\<And>w'. later W w w' \<Longrightarrow> \<exists>v. view W w' (g, ss) = Some v \<and> length v \<le> tn_MAXVALUELEN \<and> Q v w'"
  shows "wpP (getS db g ss) Q R w"
  unfolding getS_def wpP_bind
proof (rule wp_db_get [OF assms(1)])
  fix w' assume l: "sees W w (view W w')" "mode W w' = mode W w"
  obtain v where "view W w' (g, ss) = Some v" "length v \<le> tn_MAXVALUELEN" using assms(3) l by (auto simp: later_def)
  then show "view W w' (g, ss) \<noteq> None \<and> length (the (view W w' (g, ss))) \<le> tn_MAXVALUELEN \<or> view W w' (g, ss) = None \<and> is_global g" by simp
next
  fix v w' assume l: "sees W w (view W w')" "mode W w' = mode W w" "view W w' (g, ss) = Some v"
  have "Q v w'" using assms(3) [of w'] l by (auto simp: later_def)
  then show "wpP (case (db_ok db, v) of (s, v) \<Rightarrow> thenP (okS db s) (retP v)) Q R w'" by (simp add: okS_def wp_simps)
next
  fix x w' assume l: "sees W w (view W w')" "mode W w' = mode W w" "view W w' (g, ss) = None"
  have "False" using assms(3) [of w'] l by (auto simp: later_def)
  then show "wpP (case (db_gvundef db, x) of (s, v) \<Rightarrow> thenP (okS db s) (retP v)) Q R w'" ..
qed (use assms(2) in simp)

lemma wp_getS_local:
  assumes "shared_laws db W" "\<not> is_global g" "view W w (g, ss) = Some v" "length v \<le> tn_MAXVALUELEN"
    and "\<And>w'. later W w w' \<Longrightarrow> Q v w'"
  shows "wpP (getS db g ss) Q R w"
proof (rule wp_getS [OF assms(1)])
  show "\<not> may_restart W g w" using assms(2) by (simp add: may_restart_def)
  show "\<exists>v. view W w' (g, ss) = Some v \<and> length v \<le> tn_MAXVALUELEN \<and> Q v w'" if "later W w w'" for w'
    using assms(3-5) later_local [OF that assms(2)] that by auto
qed

section \<open>Words\<close>

definition word :: "char \<Rightarrow> string" where
  "word c = digitstrings ! digit_val c"

definition joined :: "string list \<Rightarrow> string" where
  "joined ts = concat (map (\<lambda>t. '' '' @ t) ts)"

definition spell :: "int \<Rightarrow> string" where
  "spell n = drop 1 (joined (map word (dec_of_int n)))"

text \<open>The tables that \<^verbatim>\<open>digitsinit\<close> fills.\<close>

definition has_digits :: "contents \<Rightarrow> bool" where
  "has_digits c \<longleftrightarrow> (\<forall>d < 10. c (''ds'', [dec_of_nat d]) = Some (digitstrings ! d) \<and> c (''di'', [digitstrings ! d]) = Some (dec_of_nat d))"

lemma digit_words: "\<forall>t \<in> set digitstrings. t \<noteq> [] \<and> length t \<le> 18 \<and> CHR '' '' \<notin> set t \<and> CHR 0x00 \<notin> set t"
  by code_simp

lemma length_digitstrings: "length digitstrings = 10"
  by code_simp

lemma distinct_digitstrings: "distinct digitstrings"
  by code_simp

lemma digit_val_less: "is_digit c \<Longrightarrow> digit_val c < 10"
  unfolding is_digit_def digit_val_def by linarith

lemma word_in: "is_digit c \<Longrightarrow> word c \<in> set digitstrings"
  using digit_val_less [of c] length_digitstrings by (simp add: word_def)

lemma word_facts:
  assumes "is_digit c"
  shows "word c \<noteq> []" "length (word c) \<le> 18" "CHR '' '' \<notin> set (word c)" "CHR 0x00 \<notin> set (word c)"
  using digit_words word_in [OF assms] by blast+

lemma word_c_string: "is_digit c \<Longrightarrow> c_string (word c) = Inr (word c)"
  using word_facts [of c] by (auto simp: c_string_def tn_MAXVALUELEN_def takeWhile_eq_all_conv)

lemma has_digits_later: "later W w w' \<Longrightarrow> has_digits (view W w) \<Longrightarrow> has_digits (view W w')"
  using later_local [of W w w' "''ds''"] later_local [of W w w' "''di''"] by (simp add: has_digits_def is_global_def)

lemma dec_of_nonneg: "0 \<le> n \<Longrightarrow> dec_of_int n = dec_of_nat (nat n)"
  by (simp add: dec_of_int_def)

lemma dec_digits: "0 \<le> n \<Longrightarrow> c \<in> set (dec_of_int n) \<Longrightarrow> is_digit c"
  using dec_of_nat_digits dec_of_nonneg by simp

section \<open>Writing\<close>

lemma wp_digit_word:
  assumes "shared_laws db W" "has_digits (view W w)" "is_digit c" "\<And>w'. later W w w' \<Longrightarrow> Q (word c, word c) w'"
  shows "wpP (digit_word db c) Q R w"
proof -
  have "view W w (''ds'', [dec_of_nat (digit_val c)]) = Some (word c)"
    using assms(2) digit_val_less [OF assms(3)] by (simp add: has_digits_def word_def)
  moreover have "length (word c) \<le> tn_MAXVALUELEN" using word_facts(2) [OF assms(3)] by (simp add: tn_MAXVALUELEN_def)
  ultimately show ?thesis
    unfolding digit_word_def wpP_bind
    by (intro wp_getS_local [where v = "word c", OF assms(1)])
      (simp_all add: is_global_def wp_simps word_c_string [OF assms(3)] assms(4))
qed

lemma wp_inttostr_loop:
  assumes "shared_laws db W" "has_digits (view W w)" "\<forall>c \<in> set cs. is_digit c" "length (buff @ joined (map word cs)) < tn_MAXVALUELEN"
    and "\<And>w'. later W w w' \<Longrightarrow> Q (buff @ joined (map word cs)) w'"
  shows "wpP (inttostr_loop db cs buff) Q R w"
  using assms(2-5)
proof (induction cs arbitrary: buff w)
  case (Cons c cs)
  have fits: "length buff + length (word c) + 1 < tn_MAXVALUELEN" using Cons.prems(3) by (simp add: joined_def)
  have "wpP (inttostr_loop db cs (buff @ '' '' @ word c)) Q R w'" if w': "later W w w'" for w'
  proof (rule Cons.IH)
    show "has_digits (view W w')" by (rule has_digits_later [OF w' Cons.prems(1)])
    show "Q ((buff @ '' '' @ word c) @ joined (map word cs)) w''" if "later W w' w''" for w''
      using Cons.prems(4) [OF later_trans [OF assms(1) w' that]] by (simp add: joined_def)
  qed (use Cons.prems in \<open>simp_all add: joined_def\<close>)
  then show ?case
    using Cons.prems(1,2) fits by (auto simp: wp_simps intro!: wp_digit_word [OF assms(1)])
qed (simp add: joined_def wp_simps later_refl [OF assms(1)])

lemma spell_cons: "dec_of_int n = c # cs \<Longrightarrow> spell n = word c @ joined (map word cs)"
  by (simp add: spell_def joined_def)

lemma wp_inttostr:
  assumes "shared_laws db W" "has_digits (view W w)" "0 \<le> n" "length (spell n) < tn_MAXVALUELEN" "\<And>w'. later W w w' \<Longrightarrow> Q (spell n) w'"
  shows "wpP (inttostr db n) Q R w"
proof (cases "dec_of_int n")
  case (Cons c cs)
  have d: "is_digit c" "\<forall>c \<in> set cs. is_digit c" using dec_digits [OF assms(3)] Cons by auto
  have "wpP (inttostr_loop db cs (word c)) Q R w'" if w': "later W w w'" for w'
    by (rule wp_inttostr_loop [OF assms(1) has_digits_later [OF w' assms(2)] d(2)])
      (use assms(4,5) spell_cons [OF Cons] later_trans [OF assms(1) w'] in auto)
  then show ?thesis
    using assms(2,3) d(1) by (auto simp: inttostr_def wp_simps Cons intro!: wp_digit_word [OF assms(1)])
qed simp

text \<open>Below ten to the thirteenth every number fits.\<close>

lemma length_joined: "\<forall>c \<in> set cs. is_digit c \<Longrightarrow> length (joined (map word cs)) \<le> 19 * length cs"
proof (induction cs)
  case (Cons c cs)
  then show ?case using word_facts(2) [of c] by (simp add: joined_def)
qed (simp add: joined_def)

lemma spell_fits:
  assumes "0 \<le> n" "n < 10 ^ 13"
  shows "length (spell n) < tn_MAXVALUELEN"
proof -
  have "length (dec_of_int n) \<le> 13"
    using length_dec_of_nat [of "nat n" 12] assms by (simp add: dec_of_nonneg nat_less_iff)
  then have "19 * length (dec_of_int n) \<le> 247" by simp
  then have "length (joined (map word (dec_of_int n))) \<le> 247"
    using length_joined [of "dec_of_int n"] dec_digits [OF assms(1)] by fastforce
  then show ?thesis by (simp add: spell_def tn_MAXVALUELEN_def)
qed

section \<open>Reading\<close>

lemma wp_strtoint_word:
  assumes "shared_laws db W" "has_digits (view W w)" "is_digit c" "- (2 ^ 63) \<le> 10 * n" "10 * n + int (digit_val c) < 2 ^ 63"
    and "\<And>w'. later W w w' \<Longrightarrow> wpP (strtoint_loop db rest (10 * n + int (digit_val c))) Q R w'"
    and "s = word c \<and> rest = [] \<or> s = word c @ CHR '' '' # rest"
  shows "wpP (strtoint_loop db s n) Q R w"
proof -
  have "strtok '' '' s = Some (word c, rest)"
    using assms(7) word_facts(1,3) [OF assms(3)] strtok_last [of "word c" "'' ''"] strtok_plain [of "word c" "'' ''" "CHR '' ''" rest] by auto
  moreover have "view W w (''di'', [word c]) = Some (dec_of_nat (digit_val c))"
    using assms(2) digit_val_less [OF assms(3)] by (simp add: has_digits_def word_def)
  moreover have "atoi_of (dec_of_nat (digit_val c)) = Inr (int (digit_val c))" "length (dec_of_nat (digit_val c)) \<le> tn_MAXVALUELEN"
  proof -
    have "\<forall>d \<in> set [0..<10]. atoi_of (dec_of_nat d) = Inr (int d) \<and> length (dec_of_nat d) \<le> tn_MAXVALUELEN" by code_simp
    then show "atoi_of (dec_of_nat (digit_val c)) = Inr (int (digit_val c))" "length (dec_of_nat (digit_val c)) \<le> tn_MAXVALUELEN"
      using digit_val_less [OF assms(3)] by simp_all
  qed
  moreover have "int64_of (10 * n) = Inr (10 * n)" "int64_of (10 * n + int (digit_val c)) = Inr (10 * n + int (digit_val c))"
    using assms(4,5) by (simp_all add: int64_of_def)
  ultimately show ?thesis
    using assms(6)
    by (subst strtoint_loop.simps) (auto simp: wp_simps is_global_def intro!: wp_getS_local [OF assms(1)])
qed

lemma digits_val_cons: "is_digit c \<Longrightarrow> digits_val m (c # cs) = digits_val (10 * m + digit_val c) cs"
  by simp

lemma digits_val_ge: "m \<le> digits_val m cs"
proof (induction cs arbitrary: m)
  case (Cons c cs)
  then show ?case using order_trans [OF _ Cons.IH [of "10 * m + digit_val c"], of m] by simp
qed simp

lemma wp_strtoint_loop:
  assumes "shared_laws db W" "has_digits (view W w)" "\<forall>c \<in> set cs. is_digit c" "int (digits_val m cs) < 2 ^ 63"
    and "s = joined (map word cs) \<or> cs \<noteq> [] \<and> s = drop 1 (joined (map word cs))" "\<And>w'. later W w w' \<Longrightarrow> Q (int (digits_val m cs)) w'"
  shows "wpP (strtoint_loop db s (int m)) Q R w"
  using assms(2-6)
proof (induction cs arbitrary: m s w)
  case Nil
  then have "strtok '' '' s = None" by (simp add: joined_def strtok_def)
  then show ?case using Nil.prems(5) later_refl [OF assms(1)] by (subst strtoint_loop.simps) (simp add: wp_simps)
next
  case (Cons c cs)
  have d: "is_digit c" "\<forall>c \<in> set cs. is_digit c" using Cons.prems(2) by auto
  have strip: "strtoint_loop db (CHR '' '' # t) n = strtoint_loop db t n" for t n
    by (subst (1 2) strtoint_loop.simps) (simp add: strtok_def)
  let ?t = "word c @ joined (map word cs)"
  have s: "strtoint_loop db s (int m) = strtoint_loop db ?t (int m)" using Cons.prems(4) strip by (auto simp: joined_def)
  have val: "digits_val m (c # cs) = digits_val (10 * m + digit_val c) cs" using d(1) by simp
  then have small: "int (10 * m + digit_val c) < 2 ^ 63"
    using Cons.prems(3) digits_val_ge [of "10 * m + digit_val c" cs] by linarith
  let ?rest = "drop 1 (joined (map word cs))"
  have "wpP (strtoint_loop db ?rest (int (10 * m + digit_val c))) Q R w'" if w': "later W w w'" for w'
  proof (rule Cons.IH)
    show "has_digits (view W w')" by (rule has_digits_later [OF w' Cons.prems(1)])
    show "Q (int (digits_val (10 * m + digit_val c) cs)) w''" if "later W w' w''" for w''
      using Cons.prems(5) [OF later_trans [OF assms(1) w' that]] val by simp
  qed (use d(2) Cons.prems(3) val in \<open>auto simp: joined_def\<close>)
  moreover have "?t = word c \<and> ?rest = [] \<or> ?t = word c @ CHR '' '' # ?rest" by (cases cs) (simp_all add: joined_def)
  ultimately show ?case
    unfolding s using small by (intro wp_strtoint_word [OF assms(1) Cons.prems(1) d(1)]) (auto simp: algebra_simps)
qed

lemma wp_strtoint:
  assumes "shared_laws db W" "has_digits (view W w)" "0 \<le> n" "n < 2 ^ 63" "length (spell n) < tn_MAXVALUELEN"
    and "\<And>w'. later W w w' \<Longrightarrow> Q n w'"
  shows "wpP (strtoint db (spell n)) Q R w"
proof -
  have d: "\<forall>c \<in> set (dec_of_int n). is_digit c" using dec_digits [OF assms(3)] by blast
  have no_nul: "CHR 0x00 \<notin> set (joined (map word cs))" if "\<forall>c \<in> set cs. is_digit c" for cs
    using that word_facts(4) by (induction cs) (auto simp: joined_def)
  have "CHR 0x00 \<notin> set (spell n)" using no_nul [OF d] in_set_dropD unfolding spell_def by metis
  then have "takeWhile (\<lambda>c. c \<noteq> CHR 0x00) (spell n) = spell n" by (simp only: takeWhile_eq_all_conv) metis
  then have "c_string (spell n) = Inr (spell n)" using assms(5) by (simp add: c_string_def)
  moreover have "digits_val 0 (dec_of_int n) = nat n" using assms(3) by (simp add: dec_of_nonneg cstr_simps)
  then have "wpP (strtoint_loop db (spell n) (int 0)) Q R w"
    using assms(3,4,6) by (intro wp_strtoint_loop [OF assms(1,2) d]) (simp_all add: spell_def)
  ultimately show ?thesis by (simp add: strtoint_def wp_simps)
qed

text \<open>Different numbers have different words.\<close>

lemma joined_inject:
  assumes "\<forall>c \<in> set cs \<union> set ds. is_digit c" "joined (map word cs) = joined (map word ds)"
  shows "map word cs = map word ds"
  using assms
proof (induction cs arbitrary: ds)
  case Nil
  then show ?case by (cases ds) (simp_all add: joined_def)
next
  case (Cons c cs)
  then obtain d ds' where ds: "ds = d # ds'" by (cases ds) (auto simp: joined_def)
  have eq: "word c @ joined (map word cs) = word d @ joined (map word ds')"
    using Cons.prems(2) by (simp add: ds joined_def)
  have take: "takeWhile (\<lambda>x. x \<noteq> CHR '' '') (word e @ joined (map word es)) = word e" if "is_digit e" for e es
  proof -
    have "x \<noteq> CHR '' ''" if "x \<in> set (word e)" for x using that word_facts(3) [OF \<open>is_digit e\<close>] by metis
    then show ?thesis by (cases es) (simp_all add: joined_def takeWhile_append2)
  qed
  have "word c = word d" using arg_cong [OF eq, of "takeWhile (\<lambda>x. x \<noteq> CHR '' '')"] take Cons.prems(1) ds by simp
  moreover have "map word cs = map word ds'"
    using Cons.prems(1) eq \<open>word c = word d\<close> ds by (intro Cons.IH) auto
  ultimately show ?case by (simp add: ds)
qed

lemma word_inject: "is_digit c \<Longrightarrow> is_digit d \<Longrightarrow> word c = word d \<Longrightarrow> c = d"
proof -
  assume a: "is_digit c" "is_digit d" "word c = word d"
  then have "digit_val c = digit_val d"
    using digit_val_less length_digitstrings nth_eq_iff_index_eq [OF distinct_digitstrings] unfolding word_def by metis
  then have "(of_char c :: nat) = of_char d" using a(1,2) unfolding digit_val_def is_digit_def by linarith
  then show ?thesis by simp
qed

lemma spell_inject:
  assumes "0 \<le> m" "0 \<le> n" "spell m = spell n"
  shows "m = n"
proof -
  have d: "\<forall>c \<in> set (dec_of_int m) \<union> set (dec_of_int n). is_digit c" using dec_digits assms(1,2) by blast
  have join: "joined (map word (dec_of_int k)) = '' '' @ spell k" for k
    by (cases "dec_of_int k") (simp_all add: spell_def joined_def)
  have "map word (dec_of_int m) = map word (dec_of_int n)"
    by (rule joined_inject [OF d]) (simp add: join assms(3))
  moreover have "inj_on word (set (dec_of_int m) \<union> set (dec_of_int n))"
    using d word_inject by (auto simp: inj_on_def)
  ultimately have "dec_of_int m = dec_of_int n" by (simp add: inj_on_map_eq_map)
  then show ?thesis by simp
qed

end
