(* ===== verification/Threen1f_Steps.thy ===== *)
theory Threen1f_Steps
  imports Threen1f_Spell
begin

text \<open>
  What one process of the 3n+1 workload does to the shared table of steps while others work on it too.  The
  relation \<open>tn_step\<close> is both what a process guarantees and what it relies on: entries of the table stay, a table that is right
  stays right, and the largest number of steps only grows.
\<close>

section \<open>The problem\<close>

definition collatz :: "int \<Rightarrow> int" where
  "collatz n = (if n mod 2 = 0 then n div 2 else 3 * n + 1)"

definition reaches :: "int \<Rightarrow> nat \<Rightarrow> bool" where
  "reaches n k \<longleftrightarrow> (collatz ^^ k) n = 1 \<and> (\<forall>j < k. (collatz ^^ j) n \<noteq> 1)"

lemma reaches_unique: "reaches n k \<Longrightarrow> reaches n l \<Longrightarrow> k = l"
  unfolding reaches_def by (metis linorder_neqE_nat)

lemma reaches_add: "(\<forall>j < i. (collatz ^^ j) n \<noteq> 1) \<Longrightarrow> reaches ((collatz ^^ i) n) k \<Longrightarrow> reaches n (i + k)"
proof (induction i arbitrary: n)
  case (Suc i)
  have "reaches (collatz n) (i + k)"
  proof (rule Suc.IH)
    show "\<forall>j < i. (collatz ^^ j) (collatz n) \<noteq> 1"
      using Suc.prems(1) by (metis Suc_less_eq comp_apply funpow_Suc_right)
    show "reaches ((collatz ^^ i) (collatz n)) k" using Suc.prems(2) by (simp add: funpow_swap1)
  qed
  moreover have "n \<noteq> 1" using Suc.prems(1) by fastforce
  ultimately show ?case by (simp add: reaches_def funpow_swap1 All_less_Suc2 del: funpow.simps(2)) (auto simp: funpow_Suc_right less_Suc_eq_0_disj simp del: funpow.simps(2))
qed simp

lemma reaches_rest: "reaches n k \<Longrightarrow> i \<le> k \<Longrightarrow> reaches ((collatz ^^ i) n) (k - i)"
  unfolding reaches_def
proof (intro conjI allI impI)
  assume a: "(collatz ^^ k) n = 1 \<and> (\<forall>j < k. (collatz ^^ j) n \<noteq> 1)" "i \<le> k"
  then show "(collatz ^^ (k - i)) ((collatz ^^ i) n) = 1"
    by (metis comp_apply funpow_add le_add_diff_inverse2)
  fix j assume "j < k - i"
  then have "(collatz ^^ (j + i)) n \<noteq> 1" using a by simp
  then show "(collatz ^^ j) ((collatz ^^ i) n) \<noteq> 1" by (simp add: funpow_add)
qed

text \<open>A number whose path ends within \<open>K\<close> steps and stays below ten to the thirteenth.\<close>

definition tame :: "nat \<Rightarrow> int \<Rightarrow> bool" where
  "tame K n \<longleftrightarrow> 1 \<le> n \<and> (\<exists>k < K. reaches n k \<and> (\<forall>j \<le> k. (collatz ^^ j) n < 10 ^ 13))"

lemma collatz_pos: "1 \<le> n \<Longrightarrow> 1 \<le> collatz n"
  by (simp add: collatz_def) presburger

lemma collatz_pow_pos: "1 \<le> n \<Longrightarrow> 1 \<le> (collatz ^^ j) n"
  by (induction j) (simp_all add: collatz_pos)

lemma next_number_collatz: "1 \<le> n \<Longrightarrow> n < 10 ^ 13 \<Longrightarrow> next_number n = Inr (collatz n)"
  by (simp add: next_number_def collatz_def int64_of_def)

section \<open>The shared table\<close>

definition result_of :: "contents \<Rightarrow> int" where
  "result_of c = (case c (''^result'', []) of None \<Rightarrow> 0 | Some v \<Rightarrow> atoi v)"

text \<open>Every entry is right, and the result is at least as large.\<close>

definition steps_table :: "contents \<Rightarrow> bool" where
  "steps_table c \<longleftrightarrow> (\<forall>ss x. c (''^step'', ss) = Some x \<longrightarrow> ss \<noteq> [] \<longrightarrow>
     (\<exists>n k. 1 < n \<and> n < 10 ^ 13 \<and> ss = [spell n] \<and> x = spell (int k) \<and> reaches n k \<and> int k \<le> result_of c))"

lemma steps_table_entry:
  assumes "steps_table c" "c (''^step'', ss) = Some x" "ss \<noteq> []"
  obtains n k where "1 < n" "n < 10 ^ 13" "ss = [spell n]" "x = spell (int k)" "reaches n k" "int k \<le> result_of c"
  using assms unfolding steps_table_def by blast

text \<open>The result is the number of steps of a number of the interval.\<close>

definition result_ok :: "int \<Rightarrow> int \<Rightarrow> contents \<Rightarrow> bool" where
  "result_ok lo hi c \<longleftrightarrow> 0 \<le> result_of c \<and> result_of c < 2 ^ 31 \<and>
     (c (''^result'', []) = None \<or> c (''^result'', []) = Some (dec_of_int (result_of c))) \<and>
     (result_of c = 0 \<or> (\<exists>n. lo \<le> n \<and> n \<le> hi \<and> reaches n (nat (result_of c))))"

definition good :: "int \<Rightarrow> int \<Rightarrow> contents \<Rightarrow> bool" where
  "good lo hi c \<longleftrightarrow> steps_table c \<and> result_ok lo hi c"

definition tn_step :: "int \<Rightarrow> int \<Rightarrow> contents \<Rightarrow> contents \<Rightarrow> bool" where
  "tn_step lo hi c c' \<longleftrightarrow> good lo hi c \<longrightarrow>
     good lo hi c' \<and> result_of c \<le> result_of c' \<and> (\<forall>s x. c (''^step'', [s]) = Some x \<longrightarrow> c' (''^step'', [s]) = Some x)"

lemma tn_step_trans: "tn_step lo hi c c' \<Longrightarrow> tn_step lo hi c' c'' \<Longrightarrow> tn_step lo hi c c''"
  by (auto simp: tn_step_def)

lemma tn_step_other:
  assumes "\<And>g ss. g \<in> {''^step'', ''^result''} \<Longrightarrow> c' (g, ss) = c (g, ss)"
  shows "tn_step lo hi c c'"
proof -
  have "result_of c' = result_of c" by (simp add: result_of_def assms)
  then have "good lo hi c \<Longrightarrow> good lo hi c'" by (simp add: good_def steps_table_def result_ok_def assms)
  then show ?thesis using \<open>result_of c' = result_of c\<close> assms by (simp add: tn_step_def)
qed

lemma tn_step_set_other: "g \<notin> {''^step'', ''^result''} \<Longrightarrow> tn_step lo hi c (c((g, ss) \<mapsto> v))"
  by (rule tn_step_other) auto

text \<open>A right entry may be written.\<close>

lemma tn_step_entry:
  assumes "1 < n" "n < 10 ^ 13" "reaches n k" "int k \<le> result_of c"
  shows "tn_step lo hi c (c((''^step'', [spell n]) \<mapsto> spell (int k)))"
  unfolding tn_step_def
proof (intro impI conjI allI)
  let ?c = "c((''^step'', [spell n]) \<mapsto> spell (int k))"
  assume g: "good lo hi c"
  have res: "result_of ?c = result_of c" "?c (''^result'', []) = c (''^result'', [])" by (simp_all add: result_of_def)
  then show "result_of c \<le> result_of ?c" by simp
  have "steps_table ?c" using g assms res(1) by (auto simp: good_def steps_table_def)
  moreover have "result_ok lo hi ?c" using g res unfolding good_def result_ok_def by metis
  ultimately show "good lo hi ?c" by (simp add: good_def)
  fix s x assume x: "c (''^step'', [s]) = Some x"
  show "?c (''^step'', [s]) = Some x"
  proof (cases "s = spell n")
    case True
    obtain m l where ml: "1 < m" "s = spell m" "x = spell (int l)" "reaches m l"
      using g x unfolding good_def steps_table_def by blast
    then have "m = n" using True spell_inject [of m n] assms(1) by simp
    then have "l = k" using ml(4) assms(3) reaches_unique by blast
    then show ?thesis using True ml(3) by simp
  qed (use x in simp)
qed

text \<open>A larger number of steps may be the new result.\<close>

lemma tn_step_result:
  assumes "result_of c < int i" "int i < 2 ^ 31" "lo \<le> n" "n \<le> hi" "reaches n i"
  shows "tn_step lo hi c (c((''^result'', []) \<mapsto> dec_of_int (int i)))"
  unfolding tn_step_def
proof (intro impI conjI allI)
  let ?c = "c((''^result'', []) \<mapsto> dec_of_int (int i))"
  assume g: "good lo hi c"
  have res: "result_of ?c = int i" by (simp add: result_of_def cstr_simps)
  then show "result_of c \<le> result_of ?c" using assms(1) by simp
  have "steps_table ?c"
    unfolding steps_table_def res
  proof (intro allI impI)
    fix ss x assume "?c (''^step'', ss) = Some x" "ss \<noteq> []"
    then have "c (''^step'', ss) = Some x" "ss \<noteq> []" by simp_all
    then obtain n k where "1 < n" "n < 10 ^ 13" "ss = [spell n]" "x = spell (int k)" "reaches n k" "int k \<le> result_of c"
      using g by (auto simp: good_def elim: steps_table_entry)
    then show "\<exists>n k. 1 < n \<and> n < 10 ^ 13 \<and> ss = [spell n] \<and> x = spell (int k) \<and> reaches n k \<and> int k \<le> int i"
      using assms(1) by (intro exI [of _ n] exI [of _ k]) auto
  qed
  moreover have "result_ok lo hi ?c" using res assms(2-5) unfolding result_ok_def by auto
  ultimately show "good lo hi ?c" by (simp add: good_def)
qed simp

lemma good_entry:
  assumes "good lo hi c" "c (''^step'', [spell n]) = Some x" "1 < n"
  obtains k where "x = spell (int k)" "reaches n k" "int k \<le> result_of c" "int k < 2 ^ 31"
proof -
  obtain m k where "1 < m" "spell n = spell m" "x = spell (int k)" "reaches m k" "int k \<le> result_of c"
    using assms(1,2) unfolding good_def steps_table_def by blast
  moreover have "result_of c < 2 ^ 31" using assms(1) by (simp add: good_def result_ok_def)
  ultimately show thesis using that spell_inject [of n m] assms(3) by auto
qed

text \<open>Whether the table has a number.\<close>

lemma good_data:
  assumes "good lo hi c"
  shows "(\<forall>ss'. c (''^step'', [s] @ ss') = None) \<longleftrightarrow> c (''^step'', [s]) = None"
proof
  assume none: "c (''^step'', [s]) = None"
  show "\<forall>ss'. c (''^step'', [s] @ ss') = None"
  proof
    fix ss'
    show "c (''^step'', [s] @ ss') = None"
    proof (cases "c (''^step'', [s] @ ss')")
      case (Some x)
      then have "\<exists>n. [s] @ ss' = [spell n]" using assms unfolding good_def steps_table_def by blast
      with Some none show ?thesis by auto
    qed
  qed
qed (metis append_Nil2)

section \<open>Moving on\<close>

text \<open>
  The others are relied on to take such steps; the process guarantees that it takes them too and leaves all other globals alone.
\<close>

definition own_step :: "int \<Rightarrow> int \<Rightarrow> contents \<Rightarrow> contents \<Rightarrow> bool" where
  "own_step lo hi c c' \<longleftrightarrow> tn_step lo hi c c' \<and> (\<forall>g ss. is_global g \<longrightarrow> g \<notin> {''^step'', ''^result''} \<longrightarrow> c' (g, ss) = c (g, ss))"

definition tn_world :: "int \<Rightarrow> int \<Rightarrow> 'w world \<Rightarrow> bool" where
  "tn_world lo hi W \<longleftrightarrow> (\<forall>c c'. rely W c c' \<longrightarrow> tn_step lo hi c c') \<and> (\<forall>c c'. own_step lo hi c c' \<longrightarrow> guar W c c')"

text \<open>What neither the others nor the process can spoil is kept.\<close>

definition unspoilt :: "'w world \<Rightarrow> (contents \<Rightarrow> bool) \<Rightarrow> bool" where
  "unspoilt W P \<longleftrightarrow> (\<forall>c c'. rely W c c' \<longrightarrow> P c \<longrightarrow> P c') \<and>
     (\<forall>c c'. (\<forall>g ss. is_global g \<longrightarrow> g \<notin> {''^step'', ''^result''} \<longrightarrow> c' (g, ss) = c (g, ss)) \<longrightarrow> P c \<longrightarrow> P c')"

definition keeps :: "'w world \<Rightarrow> contents \<Rightarrow> contents \<Rightarrow> bool" where
  "keeps W c c' \<longleftrightarrow> (\<forall>P. unspoilt W P \<longrightarrow> P c \<longrightarrow> P c')"

lemma keeps_trans: "keeps W c c' \<Longrightarrow> keeps W c' c'' \<Longrightarrow> keeps W c c''"
  unfolding keeps_def by blast

lemma keeps_rely: "rely W c c' \<Longrightarrow> keeps W c c'"
  unfolding keeps_def unspoilt_def by blast

lemma keeps_own:
  assumes "\<And>g ss. is_global g \<Longrightarrow> g \<notin> {''^step'', ''^result''} \<Longrightarrow> c' (g, ss) = c (g, ss)"
  shows "keeps W c c'"
  unfolding keeps_def
proof (intro allI impI)
  fix P assume "unspoilt W P" "P c"
  then show "P c'" unfolding unspoilt_def using assms by blast
qed

lemma own_guar: "tn_world lo hi W \<Longrightarrow> own_step lo hi c c' \<Longrightarrow> guar W c c'"
  by (simp add: tn_world_def)

text \<open>What has happened since: a step of the table, and changes of the local variables in \<open>V\<close>.\<close>

definition moved :: "'w world \<Rightarrow> int \<Rightarrow> int \<Rightarrow> string set \<Rightarrow> 'w \<Rightarrow> 'w \<Rightarrow> bool" where
  "moved W lo hi V w w' \<longleftrightarrow> mode W w = Outside \<and> mode W w' = Outside \<and> tn_step lo hi (view W w) (view W w') \<and>
     keeps W (view W w) (view W w') \<and> (\<forall>g ss. \<not> is_global g \<longrightarrow> g \<notin> V \<longrightarrow> view W w' (g, ss) = view W w (g, ss))"

text \<open>The process changes the contents that it finds.\<close>

lemma moved_own:
  assumes "tn_world lo hi W" "sees W w c" "own_step lo hi c (view W w')" "mode W w = Outside" "mode W w' = mode W w"
    and "\<And>g ss. \<not> is_global g \<Longrightarrow> g \<notin> V \<Longrightarrow> view W w' (g, ss) = c (g, ss)"
  shows "moved W lo hi V w w'"
proof -
  have c: "rely W (view W w) c" "\<And>g ss. \<not> is_global g \<Longrightarrow> c (g, ss) = view W w (g, ss)"
    using assms(2,4) by (auto simp: sees_def others_def)
  have "tn_step lo hi (view W w) (view W w')"
    using assms(1,3) c(1) tn_step_trans unfolding tn_world_def own_step_def by blast
  moreover have "keeps W (view W w) (view W w')"
    by (rule keeps_trans [OF keeps_rely [OF c(1)] keeps_own]) (use assms(3) in \<open>simp add: own_step_def\<close>)
  ultimately show ?thesis using assms(4-6) c(2) by (simp add: moved_def)
qed

lemma moved_refl: "mode W w = Outside \<Longrightarrow> moved W lo hi V w w"
  by (simp add: moved_def tn_step_def keeps_def)

lemma moved_kept: "moved W lo hi V w w' \<Longrightarrow> unspoilt W P \<Longrightarrow> P (view W w) \<Longrightarrow> P (view W w')"
  unfolding moved_def keeps_def by blast

lemma moved_trans: "moved W lo hi V w w' \<Longrightarrow> moved W lo hi V w' w'' \<Longrightarrow> moved W lo hi V w w''"
  by (auto simp: moved_def intro: tn_step_trans keeps_trans)

lemma moved_mono: "moved W lo hi V w w' \<Longrightarrow> V \<subseteq> V' \<Longrightarrow> moved W lo hi V' w w'"
  by (auto simp: moved_def)

lemma moved_local: "moved W lo hi V w w' \<Longrightarrow> \<not> is_global g \<Longrightarrow> g \<notin> V \<Longrightarrow> view W w' (g, ss) = view W w (g, ss)"
  by (simp add: moved_def)

lemma moved_good: "moved W lo hi V w w' \<Longrightarrow> good lo hi (view W w) \<Longrightarrow> good lo hi (view W w')"
  by (simp add: moved_def tn_step_def)

lemma moved_result: "moved W lo hi V w w' \<Longrightarrow> good lo hi (view W w) \<Longrightarrow> result_of (view W w) \<le> result_of (view W w')"
  by (simp add: moved_def tn_step_def)

lemma moved_entry: "moved W lo hi V w w' \<Longrightarrow> good lo hi (view W w) \<Longrightarrow> view W w (''^step'', [s]) = Some x \<Longrightarrow> view W w' (''^step'', [s]) = Some x"
  by (simp add: moved_def tn_step_def)

lemma moved_digits: "moved W lo hi V w w' \<Longrightarrow> has_digits (view W w) \<Longrightarrow> V \<inter> {''di'', ''ds''} = {} \<Longrightarrow> has_digits (view W w')"
  using moved_local [of W lo hi V w w' "''di''"] moved_local [of W lo hi V w w' "''ds''"] by (auto simp: has_digits_def is_global_def)

lemma later_moved:
  assumes "tn_world lo hi W" "later W w w'" "mode W w = Outside"
  shows "moved W lo hi {} w w'"
proof -
  have "rely W (view W w) (view W w')" "mode W w' = Outside" using assms(2,3) by (auto simp: later_def sees_def others_def)
  then show ?thesis using assms(1,3) later_local [OF assms(2)] by (simp add: moved_def tn_world_def keeps_rely)
qed

lemma own_step_local:
  assumes "\<not> is_global g" "\<And>g' ss. g' \<noteq> g \<Longrightarrow> c' (g', ss) = c (g', ss)"
  shows "own_step lo hi c c'"
proof -
  have "g \<noteq> ''^step''" "g \<noteq> ''^result''" using assms(1) by (auto simp: is_global_def)
  then have "tn_step lo hi c c'" using assms(2) by (intro tn_step_other) auto
  moreover have "c' (ga, ss) = c (ga, ss)" if "is_global ga" for ga ss using assms that by (cases "ga = g") auto
  ultimately show ?thesis by (simp add: own_step_def)
qed

lemma moved_set_local:
  assumes "tn_world lo hi W" "sees W w c" "view W w' = c((g, ss) \<mapsto> v)" "mode W w = Outside" "mode W w' = mode W w" "\<not> is_global g"
  shows "moved W lo hi {g} w w'" "view W w' (g, ss) = Some v" "ss' \<noteq> ss \<Longrightarrow> view W w' (g, ss') = view W w (g, ss')"
proof -
  show "moved W lo hi {g} w w'"
    by (rule moved_own [OF assms(1,2) own_step_local [OF assms(6)] assms(4,5)]) (simp_all add: assms(3))
  show "view W w' (g, ss) = Some v" "ss' \<noteq> ss \<Longrightarrow> view W w' (g, ss') = view W w (g, ss')"
    using sees_local [OF assms(2,6)] by (simp_all add: assms(3))
qed

lemma outside_no_restart: "mode W w = Outside \<Longrightarrow> \<not> may_restart W g w"
  by (simp add: may_restart_def)

lemma allowed_local: "tn_world lo hi W \<Longrightarrow> \<not> is_global g \<Longrightarrow> allowed W w (\<lambda>c. c((g, ss) \<mapsto> v))"
  by (auto simp: allowed_def intro!: own_guar own_step_local)

lemma wp_set_local:
  assumes "shared_laws db W" "tn_world lo hi W" "mode W w = Outside" "\<not> is_global g"
    and "\<And>w'. moved W lo hi {g} w w' \<Longrightarrow> view W w' (g, ss) = Some v \<Longrightarrow> (\<And>ss'. ss' \<noteq> ss \<Longrightarrow> view W w' (g, ss') = view W w (g, ss')) \<Longrightarrow> Q () w'"
  shows "wpP (setS db g ss v) Q R w"
  by (rule wp_setS [OF assms(1) outside_no_restart [OF assms(3)] allowed_local [OF assms(2,4)]])
    (use assms(5) moved_set_local [OF assms(2) _ _ assms(3) _ assms(4)] in blast)

end
