(* ===== verification/Threen1f_Dostep.thy ===== *)
theory Threen1f_Dostep
  imports Threen1f_Steps
begin

text \<open>
  What \<^verbatim>\<open>dostep\<close> does, for the processes and for the threads alike: they differ in the counts they keep, and the locale
  \<open>tn_counters\<close> says what the walk needs of these.
\<close>

section \<open>Rules for the calls, outside of transactions\<close>

lemma later_outside_moved:
  assumes "tn_world lo hi W" "mode W w = Outside" "sees W w (view W w')" "mode W w' = mode W w"
  shows "moved W lo hi {} w w'"
  using later_moved [OF assms(1) _ assms(2)] assms(3,4) by (simp add: later_def)

lemma wp_spell:
  assumes "shared_laws db W" "tn_world lo hi W" "mode W w = Outside" "has_digits (view W w)" "0 \<le> n" "n < 10 ^ 13"
    and "\<And>w'. moved W lo hi {} w w' \<Longrightarrow> Q (spell n) w'"
  shows "wpP (inttostr db n) Q R w"
  by (rule wp_inttostr [OF assms(1,4,5) spell_fits [OF assms(5,6)]]) (use assms(7) later_moved [OF assms(2) _ assms(3)] in blast)

lemma wp_unspell:
  assumes "shared_laws db W" "tn_world lo hi W" "mode W w = Outside" "has_digits (view W w)" "0 \<le> n" "n < 10 ^ 13"
    and "\<And>w'. moved W lo hi {} w w' \<Longrightarrow> Q n w'"
  shows "wpP (strtoint db (spell n)) Q R w"
  by (rule wp_strtoint [OF assms(1,4,5) _ spell_fits [OF assms(5,6)]])
    (use assms(6,7) later_moved [OF assms(2) _ assms(3)] in auto)

lemma wp_get_local:
  assumes "shared_laws db W" "tn_world lo hi W" "mode W w = Outside" "\<not> is_global g" "view W w (g, ss) = Some v" "length v \<le> tn_MAXVALUELEN"
    and "\<And>w'. moved W lo hi {} w w' \<Longrightarrow> Q v w'"
  shows "wpP (getS db g ss) Q R w"
  by (rule wp_getS_local [OF assms(1,4-6)]) (use assms(7) later_moved [OF assms(2) _ assms(3)] in blast)

text \<open>An entry of the table stays.\<close>

lemma wp_get_entry:
  assumes "shared_laws db W" "tn_world lo hi W" "mode W w = Outside" "good lo hi (view W w)"
    and "view W w (''^step'', [s]) = Some v" "length v \<le> tn_MAXVALUELEN" "\<And>w'. moved W lo hi {} w w' \<Longrightarrow> Q v w'"
  shows "wpP (getS db ''^step'' [s]) Q R w"
proof (rule wp_getS [OF assms(1) outside_no_restart [OF assms(3)]])
  fix w' assume "later W w w'"
  then have m: "moved W lo hi {} w w'" by (rule later_moved [OF assms(2) _ assms(3)])
  show "\<exists>v. view W w' (''^step'', [s]) = Some v \<and> length v \<le> tn_MAXVALUELEN \<and> Q v w'"
    by (rule exI [of _ v]) (use moved_entry [OF m assms(4,5)] assms(6) assms(7) [OF m] in simp)
qed

lemma wp_known_steps:
  assumes "shared_laws db W" "tn_world lo hi W" "mode W w = Outside" "good lo hi (view W w)"
    and "\<And>w'. moved W lo hi {} w w' \<Longrightarrow> Q (view W w' (''^step'', [s]) \<noteq> None) w'"
  shows "wpP (known_steps db s) Q R w"
  unfolding known_steps_def wpP_bind
proof (rule wp_db_data [OF assms(1)])
  fix d :: int and w' assume l: "sees W w (view W w')" "mode W w' = mode W w" "(d = 0) = (\<forall>ss'. view W w' (''^step'', [s] @ ss') = None)"
  have m: "moved W lo hi {} w w'" by (rule later_outside_moved [OF assms(2,3) l(1,2)])
  have "d \<noteq> 0 \<longleftrightarrow> view W w' (''^step'', [s]) \<noteq> None" using l(3) good_data [OF moved_good [OF m assms(4)]] by simp
  then show "wpP (case (db_ok db, d) of (status, d) \<Rightarrow> thenP (okS db status) (retP (d \<noteq> 0))) Q R w'"
    using assms(5) [OF m] by (simp add: wp_simps okS_def)
qed (use outside_no_restart [OF assms(3)] in simp)

text \<open>Writing a right entry.\<close>

lemma wp_set_entry:
  assumes "shared_laws db W" "tn_world lo hi W" "mode W w = Outside" "good lo hi (view W w)"
    and "1 < m" "m < 10 ^ 13" "reaches m l" "int l \<le> result_of (view W w)"
    and "\<And>w'. moved W lo hi {} w w' \<Longrightarrow> view W w' (''^step'', [spell m]) = Some (spell (int l)) \<Longrightarrow> Q () w'"
  shows "wpP (setS db ''^step'' [spell m] (spell (int l))) Q R w"
proof -
  have step: "tn_step lo hi (view W w) c" "tn_step lo hi c (c((''^step'', [spell m]) \<mapsto> spell (int l)))" if "sees W w c" for c
  proof -
    show s: "tn_step lo hi (view W w) c" using that assms(2,3) by (simp add: sees_def others_def tn_world_def)
    then have "int l \<le> result_of c" using assms(4,8) by (simp add: tn_step_def)
    then show "tn_step lo hi c (c((''^step'', [spell m]) \<mapsto> spell (int l)))" by (rule tn_step_entry [OF assms(5-7)])
  qed
  show ?thesis
  proof (rule wp_setS [OF assms(1) outside_no_restart [OF assms(3)]])
    show "allowed W w (\<lambda>c. c((''^step'', [spell m]) \<mapsto> spell (int l)))"
      using step(2) by (auto simp: allowed_def own_step_def intro!: own_guar [OF assms(2)])
    fix c w' assume c: "sees W w c" "view W w' = c((''^step'', [spell m]) \<mapsto> spell (int l))" "mode W w' = mode W w"
    have "moved W lo hi {} w w'"
      by (rule moved_own [OF assms(2) c(1) _ assms(3) c(3)]) (use step(2) [OF c(1)] in \<open>auto simp: own_step_def c(2) is_global_def\<close>)
    then show "Q () w'" by (rule assms(9)) (simp add: c(2))
  qed
qed

lemma dec_fits_value: "0 \<le> n \<Longrightarrow> n < 10 ^ 18 \<Longrightarrow> length (dec_of_int n) < tn_MAXVALUELEN"
  using length_dec_of_nat [of "nat n" 17] by (simp add: dec_of_nonneg tn_MAXVALUELEN_def nat_less_iff)

lemma c_string_dec: "0 \<le> n \<Longrightarrow> n < 10 ^ 18 \<Longrightarrow> c_string (dec_of_int n) = Inr (dec_of_int n)"
proof -
  assume n: "0 \<le> n" "n < 10 ^ 18"
  have "c \<noteq> CHR 0x00" if "c \<in> set (dec_of_int n)" for c using dec_digits [OF n(1) that] by (auto simp: is_digit_def)
  then have "takeWhile (\<lambda>c. c \<noteq> CHR 0x00) (dec_of_int n) = dec_of_int n" by (simp only: takeWhile_eq_all_conv) simp
  then show ?thesis using dec_fits_value [OF n] by (simp add: c_string_def)
qed

lemma atoll_dec: "0 \<le> n \<Longrightarrow> n < 10 ^ 18 \<Longrightarrow> atoll_of (dec_of_int n) = Inr n"
  by (simp add: atoll_of_def c_string_dec cstr_simps int64_of_def)

lemma atoi_dec: "0 \<le> n \<Longrightarrow> n < 2 ^ 31 \<Longrightarrow> atoi_of (dec_of_int n) = Inr n"
  by (simp add: atoi_of_def c_string_dec cstr_simps int_of_def)

section \<open>Setting the maximum\<close>

lemma sees_inside: "mode W w \<noteq> Outside \<Longrightarrow> sees W w c \<longleftrightarrow> c = view W w"
  by (simp add: sees_def)

definition raised :: "int \<Rightarrow> int \<Rightarrow> int \<Rightarrow> contents \<Rightarrow> contents \<Rightarrow> bool" where
  "raised lo hi i c c' \<longleftrightarrow> tn_step lo hi c c' \<and> i \<le> result_of c' \<and> (\<forall>g ss. g \<noteq> ''^result'' \<longrightarrow> c' (g, ss) = c (g, ss))"

lemma raised_own: "raised lo hi i c c' \<Longrightarrow> own_step lo hi c c'"
  by (simp add: raised_def own_step_def)

lemma wp_setmaximum:
  assumes "shared_laws db W" "tn_world lo hi W" "mode W w \<noteq> Outside" "good lo hi (view W w)"
    and "int i < 2 ^ 31" "lo \<le> n" "n \<le> hi" "reaches n i"
  shows "wpP (tp_setmaximum db (int i)) (\<lambda>_ w'. guar W (view W w) (view W w') \<and> raised lo hi (int i) (view W w) (view W w'))
    (\<lambda>s _. s = db_restart db \<and> mode W w = Retry) w"
    (is "wpP _ ?Q ?R w")
proof -
  let ?r = "result_of (view W w)"
  note st = shared_statuses [OF assms(1)]
  have r: "0 \<le> ?r" "?r < 2 ^ 31" "view W w (''^result'', []) = None \<or> view W w (''^result'', []) = Some (dec_of_int ?r)"
    using assms(4) by (auto simp: good_def result_ok_def)
  have guar: "guar W c c'" if "raised lo hi (int i) c c'" for c c' by (rule own_guar [OF assms(2) raised_own [OF that]])
  have same: "?Q () w'" if "view W w' = view W w" "int i \<le> ?r" for w'
    using that guar [of "view W w" "view W w"] by (simp add: raised_def tn_step_def)
  have restart: "?R (db_restart db) w'" if "may_restart W ''^result'' w" for w' using that by (simp add: may_restart_def)
  let ?set = "\<lambda>result :: int. if int i > result
    then bindP (callP (db_set db ''^result'' [] (dec_of_int (int i)))) (\<lambda>s. if s = db_restart db then leave s else okS db s) else retP ()"
  let ?go = "\<lambda>(s, v). if s = db_restart db then leave s
    else bindP (if s \<noteq> db_gvundef db then thenP (okS db s) (liftP (atoi_of v)) else retP 0) ?set"
  have set: "wpP (?set ?r) ?Q ?R w1" if w1: "view W w1 = view W w" "mode W w1 = mode W w" for w1
  proof (cases "?r < int i")
    case True
    let ?c = "(view W w)((''^result'', []) \<mapsto> dec_of_int (int i))"
    have step: "tn_step lo hi (view W w) ?c" by (rule tn_step_result [OF True assms(5-8)])
    have r: "raised lo hi (int i) (view W w) ?c" using step by (auto simp: raised_def result_of_def cstr_simps)
    then have post: "?Q () w'" if "view W w' = ?c" for w' using guar [OF r] that by simp
    have "wpP (callP (db_set db ''^result'' [] (dec_of_int (int i)))) (\<lambda>s. wpP (if s = db_restart db then leave s else okS db s) ?Q ?R) ?R w1"
    proof (rule wp_db_set [OF assms(1)])
      show "allowed W w1 (\<lambda>c. c((''^result'', []) \<mapsto> dec_of_int (int i)))" using assms(3) w1(2) by (simp add: allowed_def)
      fix c w' assume "sees W w1 c" "view W w' = c((''^result'', []) \<mapsto> dec_of_int (int i))"
      then have "view W w' = ?c" using sees_inside [of W w1] assms(3) w1 by simp
      then show "wpP (if db_ok db = db_restart db then leave (db_ok db) else okS db (db_ok db)) ?Q ?R w'"
        using st(1) post by (simp add: wp_simps okS_def)
    next
      fix w' assume "may_restart W ''^result'' w1"
      then show "wpP (if db_restart db = db_restart db then leave (db_restart db) else okS db (db_restart db)) ?Q ?R w'"
        using w1(2) by (simp add: wp_simps may_restart_def)
    qed
    then show ?thesis using True by (simp only: if_True wpP_bind)
  qed (use same w1 in \<open>simp add: wp_simps\<close>)
  have got: "wpP (?go (s, v)) ?Q ?R w1"
    if "view W w1 = view W w" "mode W w1 = mode W w" "s = db_ok db \<and> v = dec_of_int ?r \<or> s = db_gvundef db \<and> ?r = 0" for s v w1
    using that(3)
  proof
    assume "s = db_ok db \<and> v = dec_of_int ?r"
    then show ?thesis
      using set [OF that(1,2)] st(1,2) atoi_dec [OF r(1,2)]
      by (simp only: prod.case if_False if_True wpP_bind wpP_then okS_def wpP_assert wpP_lift simp_thms not_False_eq_True) simp
  next
    assume "s = db_gvundef db \<and> ?r = 0"
    then show ?thesis using set [OF that(1,2)] st(4) by (simp add: wpP_bind wpP_ret)
  qed
  have fits: "length (dec_of_int ?r) \<le> tn_MAXVALUELEN" using dec_fits_value [of ?r] r(1,2) by simp
  show ?thesis
    unfolding tp_setmaximum_def wpP_bind
  proof (rule wp_db_get [OF assms(1)])
    fix v w1 assume "sees W w (view W w1)" "mode W w1 = mode W w" "view W w1 (''^result'', []) = Some v"
    then show "wpP (?go (db_ok db, v)) ?Q ?R w1" using r(3) sees_inside [OF assms(3)] by (intro got) auto
  next
    fix w1 assume "sees W w (view W w1)"
    then show "view W w1 (''^result'', []) \<noteq> None \<and> length (the (view W w1 (''^result'', []))) \<le> tn_MAXVALUELEN \<or>
        view W w1 (''^result'', []) = None \<and> is_global ''^result''"
      using r(3) fits sees_inside [OF assms(3)] by (auto simp: is_global_def)
  next
    fix x w1 assume "sees W w (view W w1)" "mode W w1 = mode W w" "view W w1 (''^result'', []) = None"
    then show "wpP (?go (db_gvundef db, x)) ?Q ?R w1"
      using sees_inside [OF assms(3)] by (intro got) (auto simp: result_of_def)
  next
    fix x w1 assume "may_restart W ''^result'' w"
    then show "wpP (?go (db_restart db, x)) ?Q ?R w1" using restart by (simp add: wp_simps)
  qed
qed

lemma wp_run_setmaximum:
  assumes "shared_laws db W" "tn_world lo hi W" "mode W w = Outside" "good lo hi (view W w)"
    and "int i < 2 ^ 31" "lo \<le> n" "n \<le> hi" "reaches n i"
    and "\<And>w'. moved W lo hi {} w w' \<Longrightarrow> int i \<le> result_of (view W w') \<Longrightarrow> Q () w'"
  shows "wpP (run_tp db (tp_setmaximum db (int i))) Q R w"
  unfolding run_tp_def wpP_bind
proof (rule wp_db_tp [where P = "raised lo hi (int i)", OF assms(1,3)])
  have step: "tn_step lo hi (view W w) c" if "others W (view W w) c" for c
    using that assms(2) by (simp add: others_def tn_world_def)
  fix w0 assume w0: "mode W w0 \<noteq> Outside" "others W (view W w) (view W w0)"
  have "good lo hi (view W w0)" using step [OF w0(2)] assms(4) by (simp add: tn_step_def)
  then show "wpP (tp_setmaximum db (int i)) (\<lambda>_ w1. guar W (view W w0) (view W w1) \<and> raised lo hi (int i) (view W w0) (view W w1))
      (\<lambda>s _. s = db_restart db \<and> mode W w0 = Retry) w0"
    by (rule wp_setmaximum [OF assms(1,2) w0(1) _ assms(5-8)])
next
  fix c c' w' assume c: "others W (view W w) c" "raised lo hi (int i) c c'" "view W w' = c'" "mode W w' = Outside"
  have "g \<noteq> ''^result''" if "\<not> is_global g" for g using that by (auto simp: is_global_def)
  then have "moved W lo hi {} w w'"
    by (intro moved_own [where c = c, OF assms(2) _ _ assms(3)]) (use c assms(3) raised_own [OF c(2)] in \<open>auto simp: sees_def raised_def\<close>)
  then have "Q () w'" by (rule assms(9)) (use c(2,3) in \<open>simp add: raised_def\<close>)
  then show "wpP (okS db (db_ok db)) Q R w'" by (simp add: okS_def wp_simps)
qed

section \<open>The path\<close>

definition path_is :: "contents \<Rightarrow> string \<Rightarrow> int \<Rightarrow> nat \<Rightarrow> bool" where
  "path_is c p n i \<longleftrightarrow> (\<forall>ss. ss \<noteq> [] \<longrightarrow>
     c (p, ss) = (if \<exists>m < i. ss = [dec_of_nat m] then Some (dec_of_int ((collatz ^^ nat (atoi (hd ss))) n)) else None))"

lemma path_is_node: "path_is c p n i \<Longrightarrow> m < i \<Longrightarrow> c (p, [dec_of_nat m]) = Some (dec_of_int ((collatz ^^ m) n))"
  by (auto simp: path_is_def dec_of_nat_as_int cstr_simps)

lemma path_is_defined: "path_is c p n i \<Longrightarrow> ss \<noteq> [] \<and> c (p, ss) \<noteq> None \<longleftrightarrow> (\<exists>m < i. ss = [dec_of_nat m])"
proof -
  assume a: "path_is c p n i"
  have "c (p, ss) \<noteq> None \<longleftrightarrow> (\<exists>m < i. ss = [dec_of_nat m])" if "ss \<noteq> []"
    using a [unfolded path_is_def, rule_format, OF that] by (simp only: split: if_split) simp
  then show ?thesis by auto
qed

lemma path_is_Suc:
  assumes "path_is c p n i" "c' (p, [dec_of_nat i]) = Some (dec_of_int ((collatz ^^ i) n))"
    and "\<And>ss. ss \<noteq> [dec_of_nat i] \<Longrightarrow> c' (p, ss) = c (p, ss)"
  shows "path_is c' p n (Suc i)"
  unfolding path_is_def
proof (intro allI impI)
  fix ss :: "string list" assume ss: "ss \<noteq> []"
  show "c' (p, ss) = (if \<exists>m < Suc i. ss = [dec_of_nat m] then Some (dec_of_int ((collatz ^^ nat (atoi (hd ss))) n)) else None)"
  proof (cases "ss = [dec_of_nat i]")
    case True
    then show ?thesis using assms(2) by (auto simp: dec_of_nat_as_int cstr_simps)
  next
    case False
    then have "(\<exists>m < Suc i. ss = [dec_of_nat m]) \<longleftrightarrow> (\<exists>m < i. ss = [dec_of_nat m])" by (auto simp: less_Suc_eq)
    then show ?thesis using assms(1,3) False ss unfolding path_is_def by metis
  qed
qed

lemma path_is_same: "path_is c p n i \<Longrightarrow> (\<And>ss. c' (p, ss) = c (p, ss)) \<Longrightarrow> path_is c' p n i"
  by (simp add: path_is_def)

lemma path_is_moved: "path_is (view W w) p n i \<Longrightarrow> moved W lo hi V w w' \<Longrightarrow> \<not> is_global p \<Longrightarrow> p \<notin> V \<Longrightarrow> path_is (view W w') p n i"
  by (erule path_is_same) (simp add: moved_local)

section \<open>Counting\<close>

text \<open>
  What the walk needs of the counts: that they are kept in variables of their own, and that there is room for \<open>b\<close> more of them.
\<close>

locale tn_counters =
  fixes C :: "'w shared_db \<Rightarrow> ('w, 's) counters" and vars :: "string set" and room :: "nat \<Rightarrow> 's \<Rightarrow> contents \<Rightarrow> bool"
  assumes path_local: "\<not> is_global (path_var (C db))"
    and path_apart: "path_var (C db) \<notin> vars \<union> {''di'', ''ds''}"
    and vars_apart: "vars \<inter> {''di'', ''ds''} = {}"
    and vars_local: "g \<in> vars \<Longrightarrow> \<not> is_global g"
    and room_kept: "room b st c \<Longrightarrow> (\<And>g ss. g \<in> vars \<Longrightarrow> c' (g, ss) = c (g, ss)) \<Longrightarrow> room b st c'"
    and room_less: "room b st c \<Longrightarrow> b' \<le> b \<Longrightarrow> room b' st c"
    and wp_read: "shared_laws db W \<Longrightarrow> tn_world lo hi W \<Longrightarrow> mode W w = Outside \<Longrightarrow> room (Suc b) st (view W w) \<Longrightarrow>
      (\<And>st' w'. moved W lo hi vars w w' \<Longrightarrow> room b st' (view W w') \<Longrightarrow> Q st' w') \<Longrightarrow> wpP (count_read (C db) st) Q R w"
    and wp_update: "shared_laws db W \<Longrightarrow> tn_world lo hi W \<Longrightarrow> mode W w = Outside \<Longrightarrow> room (Suc b) st (view W w) \<Longrightarrow>
      (\<And>st' w'. moved W lo hi vars w w' \<Longrightarrow> room b st' (view W w') \<Longrightarrow> Q st' w') \<Longrightarrow> wpP (count_update (C db) st) Q R w"
    and wp_highest: "shared_laws db W \<Longrightarrow> tn_world lo hi W \<Longrightarrow> mode W w = Outside \<Longrightarrow> room b st (view W w) \<Longrightarrow>
      1 \<le> n \<Longrightarrow> n < 10 ^ 13 \<Longrightarrow> n' < 10 ^ 13 \<Longrightarrow>
      (\<And>st' w'. moved W lo hi vars w w' \<Longrightarrow> room b st' (view W w') \<Longrightarrow> Q st' w') \<Longrightarrow> wpP (note_highest (C db) n n' st) Q R w"
begin

lemma room_moved:
  assumes "room b st (view W w)" "moved W lo hi V w w'" "V \<inter> vars = {}"
  shows "room b st (view W w')"
proof (rule room_kept [OF assms(1)])
  fix g ss assume "g \<in> vars"
  then show "view W w' (g, ss) = view W w (g, ss)" using moved_local [OF assms(2)] vars_local assms(3) by blast
qed

text \<open>One step of the path.\<close>

lemma wp_walk_on:
  assumes "shared_laws db W" "tn_world lo hi W" "mode W w = Outside"
    and "(collatz ^^ i) n = m" "1 \<le> m" "m < 10 ^ 13" "collatz m < 10 ^ 13" "int i < 2 ^ 31"
    and "room b st (view W w)" "path_is (view W w) (path_var (C db)) n i"
    and "\<And>st' w'. moved W lo hi (insert (path_var (C db)) vars) w w' \<Longrightarrow> room b st' (view W w') \<Longrightarrow>
      path_is (view W w') (path_var (C db)) n (Suc i) \<Longrightarrow> wpP (go (collatz m) (int (Suc i)) st') Q R w'"
  shows "wpP (walk_on db (C db) m (int i) st go) Q R w"
proof -
  let ?p = "path_var (C db)"
  let ?V = "insert ?p vars"
  have p: "\<not> is_global ?p" "?p \<notin> vars" using path_local path_apart by auto
  have int64: "int64_of (int i + 1) = Inr (int (Suc i))" using assms(8) by (simp add: int64_of_def)
  show ?thesis
    unfolding walk_on_def wpP_then wpP_bind next_number_collatz [OF assms(5,6)] int64
  proof (rule wp_set_local [OF assms(1-3) p(1)])
    fix w1 assume w1: "moved W lo hi {?p} w w1" "view W w1 (?p, [dec_of_int (int i)]) = Some (dec_of_int m)"
      "\<And>ss. ss \<noteq> [dec_of_int (int i)] \<Longrightarrow> view W w1 (?p, ss) = view W w (?p, ss)"
    have path1: "path_is (view W w1) ?p n (Suc i)"
      by (rule path_is_Suc [OF assms(10)]) (use w1(2,3) assms(4) in \<open>simp_all add: dec_of_nat_as_int\<close>)
    have room1: "room b st (view W w1)" by (rule room_moved [OF assms(9) w1(1)]) (use p(2) in simp)
    have "wpP (note_highest (C db) m (collatz m) st) (\<lambda>st2 w2. wpP (go (collatz m) (int (Suc i)) st2) Q R w2) R w1"
    proof (rule wp_highest [OF assms(1,2) _ room1 assms(5-7)])
      show "mode W w1 = Outside" using w1(1) by (simp add: moved_def)
      fix st2 w2 assume w2: "moved W lo hi vars w1 w2" "room b st2 (view W w2)"
      show "wpP (go (collatz m) (int (Suc i)) st2) Q R w2"
        using moved_trans [OF moved_mono [OF w1(1), of ?V] moved_mono [OF w2(1), of ?V]] w2(2) path_is_moved [OF path1 w2(1) p]
        by (intro assms(11)) auto
    qed
    then show "wpP (liftP (Inr (collatz m))) (\<lambda>n'. wpP (note_highest (C db) m n' st)
        (\<lambda>st1. wpP (liftP (Inr (int (Suc i)))) (\<lambda>i'. wpP (go n' i' st1) Q R) R) R) R w1" by (simp add: wpP_lift)
  qed
qed

text \<open>The walk ends at 1 or where the table goes on.\<close>

lemma wp_path_walk:
  assumes "shared_laws db W" "tn_world lo hi W" "mode W w = Outside" "has_digits (view W w)" "good lo hi (view W w)"
    and "reaches n k" "1 \<le> n" "\<forall>j \<le> k. (collatz ^^ j) n < 10 ^ 13" "int k < 2 ^ 31"
    and "room (Suc (k - i) + b) st (view W w)" "path_is (view W w) (path_var (C db)) n i" "i \<le> k" "k - i < fuel"
    and "\<And>i' st' w'. i' \<le> k \<Longrightarrow> moved W lo hi (insert (path_var (C db)) vars) w w' \<Longrightarrow> path_is (view W w') (path_var (C db)) n i' \<Longrightarrow>
      room b st' (view W w') \<Longrightarrow> i' = k \<or> i' < k \<and> view W w' (''^step'', [spell ((collatz ^^ i') n)]) \<noteq> None \<Longrightarrow>
      Q ((collatz ^^ i') n, int i', st') w'"
  shows "wpP (walk fuel db (C db) ((collatz ^^ i) n) (int i) st) Q R w"
  using assms(3-5,10-14)
proof (induction fuel arbitrary: i st w)
  case (Suc fuel)
  let ?p = "path_var (C db)"
  let ?V = "insert ?p vars"
  let ?m = "(collatz ^^ i) n"
  have m: "1 \<le> ?m" "?m < 10 ^ 13" using collatz_pow_pos [OF assms(7)] assms(8) Suc.prems(6) by auto
  have p: "\<not> is_global ?p" "?p \<notin> vars" using path_local path_apart by auto
  have V: "?V \<inter> {''di'', ''ds''} = {}" using vars_apart path_apart by auto
  have stop: "Q (?m, int i, st1) w1" if "moved W lo hi vars w w1" "room (k - i + b) st1 (view W w1)"
      "i = k \<or> i < k \<and> view W w1 (''^step'', [spell ?m]) \<noteq> None" for st1 w1
    by (rule Suc.prems(8) [OF Suc.prems(6) moved_mono [OF that(1)] path_is_moved [OF Suc.prems(5) that(1) p] room_less [OF that(2)] that(3)]) auto
  have go_on: "wpP (walk_on db (C db) ?m (int i) st1 (walk fuel db (C db))) Q R w1"
    if w1: "moved W lo hi vars w w1" "room (k - i + b) st1 (view W w1)" "i < k" for st1 w1
  proof (rule wp_walk_on [OF assms(1,2) _ refl m _ _ w1(2) path_is_moved [OF Suc.prems(5) w1(1) p]])
    show "mode W w1 = Outside" using w1(1) by (simp add: moved_def)
    show "collatz ?m < 10 ^ 13" using assms(8) [rule_format, of "Suc i"] w1(3) by simp
    show "int i < 2 ^ 31" using assms(9) w1(3) by simp
    fix st2 w2 assume w2: "moved W lo hi ?V w1 w2" "room (k - i + b) st2 (view W w2)" "path_is (view W w2) ?p n (Suc i)"
    have to2: "moved W lo hi ?V w w2" using moved_trans [OF moved_mono [OF w1(1)] w2(1)] by auto
    have "wpP (walk fuel db (C db) ((collatz ^^ Suc i) n) (int (Suc i)) st2) Q R w2"
    proof (rule Suc.IH)
      show "mode W w2 = Outside" using w2(1) by (simp add: moved_def)
      show "has_digits (view W w2)" by (rule moved_digits [OF to2 Suc.prems(2) V])
      show "good lo hi (view W w2)" by (rule moved_good [OF to2 Suc.prems(3)])
      show "room (Suc (k - Suc i) + b) st2 (view W w2)" using w2(2) w1(3) by (simp add: Suc_diff_Suc)
      fix i' st' w' assume "i' \<le> k" "moved W lo hi ?V w2 w'" "path_is (view W w') ?p n i'" "room b st' (view W w')"
        "i' = k \<or> i' < k \<and> view W w' (''^step'', [spell ((collatz ^^ i') n)]) \<noteq> None"
      then show "Q ((collatz ^^ i') n, int i', st') w'" using Suc.prems(8) moved_trans [OF to2] by blast
    qed (use w1(3) w2(3) Suc.prems(7) in simp_all)
    then show "wpP (walk fuel db (C db) (collatz ?m) (int (Suc i)) st2) Q R w2" by simp
  qed
  have turn: "wpP (if ?m = 1 then retP (?m, int i, st1) else bindP (inttostr db ?m) (\<lambda>s. bindP (known_steps db s) (\<lambda>b.
      if b then retP (?m, int i, st1) else walk_on db (C db) ?m (int i) st1 (walk fuel db (C db))))) Q R w1"
    if w1: "moved W lo hi vars w w1" "room (k - i + b) st1 (view W w1)" for st1 w1
  proof (cases "?m = 1")
    case True
    then have "i = k" using assms(6) Suc.prems(6) unfolding reaches_def by (meson le_neq_implies_less)
    with True show ?thesis using stop [OF w1] by (simp add: wp_simps)
  next
    case False
    then have "i < k" using assms(6) Suc.prems(6) unfolding reaches_def by (metis le_neq_implies_less)
    have known: "wpP (known_steps db (spell ?m)) (\<lambda>b. wpP (if b then retP (?m, int i, st1)
        else walk_on db (C db) ?m (int i) st1 (walk fuel db (C db))) Q R) R w2" if w2: "moved W lo hi {} w1 w2" for w2
    proof (rule wp_known_steps [OF assms(1,2)])
      have to2: "moved W lo hi vars w w2" using moved_trans [OF w1(1) moved_mono [OF w2]] by simp
      then show "mode W w2 = Outside" "good lo hi (view W w2)" using moved_good [OF _ Suc.prems(3)] by (auto simp: moved_def)
      fix w3 assume w3: "moved W lo hi {} w2 w3"
      have to3: "moved W lo hi vars w w3" using moved_trans [OF to2 moved_mono [OF w3]] by simp
      have room3: "room (k - i + b) st1 (view W w3)" using room_moved [OF w1(2) moved_trans [OF w2 w3]] by simp
      show "wpP (if view W w3 (''^step'', [spell ?m]) \<noteq> None then retP (?m, int i, st1)
          else walk_on db (C db) ?m (int i) st1 (walk fuel db (C db))) Q R w3"
        using stop [OF to3 room3] go_on [OF to3 room3] \<open>i < k\<close> by (simp add: wpP_ret)
    qed
    show ?thesis
      using False m known w1(1) moved_digits [OF w1(1) Suc.prems(2)] vars_apart
      by (simp only: if_False wpP_bind) (rule wp_spell [OF assms(1,2)]; auto simp: moved_def)
  qed
  show ?case
    unfolding walk.simps wpP_bind
    by (rule wp_read [OF assms(1,2) Suc.prems(1), of "k - i + b"]) (use Suc.prems(4) turn in simp_all)
qed simp

text \<open>Storing one number of the path.\<close>

lemma wp_store_one:
  assumes "shared_laws db W" "tn_world lo hi W" "mode W w = Outside" "has_digits (view W w)" "good lo hi (view W w)"
    and "reaches n k" "1 \<le> n" "\<forall>j \<le> k. (collatz ^^ j) n < 10 ^ 13" "int k < 2 ^ 31"
    and "room (Suc b) st (view W w)" "path_is (view W w) (path_var (C db)) n L" "m < L" "L \<le> k" "int k \<le> result_of (view W w)"
    and "\<And>st' w'. moved W lo hi vars w w' \<Longrightarrow> room b st' (view W w') \<Longrightarrow>
      view W w' (''^step'', [spell ((collatz ^^ m) n)]) = Some (spell (int (k - m))) \<Longrightarrow> Q (int m, st') w'"
  shows "wpP (store_one db (C db) (dec_of_nat m) (int k) st) Q R w"
proof -
  let ?p = "path_var (C db)"
  let ?n = "(collatz ^^ m) n"
  have p: "\<not> is_global ?p" "?p \<notin> vars" using path_local path_apart by auto
  have "?n \<noteq> 1" "1 \<le> ?n" using assms(6,12,13) collatz_pow_pos [OF assms(7)] by (auto simp: reaches_def)
  then have n: "0 \<le> ?n" "1 < ?n" by simp_all
  have small: "?n < 10 ^ 13" using assms(8,12,13) by simp
  have r: "reaches ?n (k - m)" using reaches_rest [OF assms(6)] assms(12,13) by simp
  have ints: "atoi_of (dec_of_nat m) = Inr (int m)" "atoll_of (dec_of_int ?n) = Inr ?n" "int64_of (int k - int m) = Inr (int (k - m))"
    using assms(9,12,13) atoi_dec [of "int m"] atoll_dec [OF n(1)] small by (simp_all add: dec_of_nat_as_int int64_of_def of_nat_diff)
  show ?thesis
    unfolding store_one_def wpP_then wpP_bind wpP_assert wpP_lift ints
  proof (intro conjI exI [of _ "int m"])
    show "wpP (count_update (C db) st) (\<lambda>st1. wpP (getS db ?p [dec_of_nat m]) (\<lambda>v w. \<exists>x. atoll_of v = Inr x \<and>
        wpP (inttostr db x) (\<lambda>sn w. \<exists>xa. int64_of (int k - int m) = Inr xa \<and> wpP (inttostr db xa)
          (\<lambda>sk. wpP (setS db ''^step'' [sn] sk) (\<lambda>_. wpP (retP (int m, st1)) Q R) R) R w) R w) R) R w"
    proof (rule wp_update [OF assms(1-3,10)])
      fix st1 w1 assume w1: "moved W lo hi vars w w1" "room b st1 (view W w1)"
      have out: "mode W w' = Outside" if "moved W lo hi V w w'" for V w' using that by (simp add: moved_def)
      have get: "view W w1 (?p, [dec_of_nat m]) = Some (dec_of_int ?n)"
        by (rule path_is_node [OF path_is_moved [OF assms(11) w1(1) p] assms(12)])
      have dig: "has_digits (view W w')" if "moved W lo hi vars w w'" for w' using moved_digits [OF that assms(4) vars_apart] .
      have fits: "length (dec_of_int ?n) \<le> tn_MAXVALUELEN" using dec_fits_value [OF n(1)] small by simp
      have to: "moved W lo hi vars w w''" if "moved W lo hi vars w w'" "moved W lo hi {} w' w''" for w' w''
        using moved_trans [OF that(1) moved_mono [OF that(2)]] by simp
      have stored: "wpP (inttostr db (int (k - m))) (\<lambda>sk. wpP (setS db ''^step'' [spell ?n] sk) (\<lambda>_. wpP (retP (int m, st1)) Q R) R) R w3"
        if w3: "moved W lo hi vars w w3" "room b st1 (view W w3)" for w3
      proof (rule wp_spell [OF assms(1,2) out [OF w3(1)] dig [OF w3(1)]])
        fix w4 assume w4: "moved W lo hi {} w3 w4"
        have to4: "moved W lo hi vars w w4" by (rule to [OF w3(1) w4])
        show "wpP (setS db ''^step'' [spell ?n] (spell (int (k - m)))) (\<lambda>_. wpP (retP (int m, st1)) Q R) R w4"
        proof (rule wp_set_entry [OF assms(1,2) out [OF to4] moved_good [OF to4 assms(5)] n(2) small r])
          show "int (k - m) \<le> result_of (view W w4)" using moved_result [OF to4 assms(5)] assms(14) by simp
          fix w5 assume w5: "moved W lo hi {} w4 w5" "view W w5 (''^step'', [spell ?n]) = Some (spell (int (k - m)))"
          have "room b st1 (view W w5)" using room_moved [OF w3(2) moved_trans [OF w4 w5(1)]] by simp
          then show "wpP (retP (int m, st1)) Q R w5" using assms(15) [OF to [OF to4 w5(1)]] w5(2) by (simp add: wpP_ret)
        qed
      qed (use assms(9) in simp_all)
      show "wpP (getS db ?p [dec_of_nat m]) (\<lambda>v w. \<exists>x. atoll_of v = Inr x \<and>
          wpP (inttostr db x) (\<lambda>sn w. \<exists>xa. int64_of (int k - int m) = Inr xa \<and> wpP (inttostr db xa)
            (\<lambda>sk. wpP (setS db ''^step'' [sn] sk) (\<lambda>_. wpP (retP (int m, st1)) Q R) R) R w) R w) R w1"
      proof (rule wp_get_local [OF assms(1,2) out [OF w1(1)] p(1) get fits], intro exI conjI, rule ints(2))
        fix w2 assume w2: "moved W lo hi {} w1 w2"
        have to2: "moved W lo hi vars w w2" by (rule to [OF w1(1) w2])
        show "wpP (inttostr db ?n) (\<lambda>sn w. \<exists>xa. int64_of (int k - int m) = Inr xa \<and> wpP (inttostr db xa)
            (\<lambda>sk. wpP (setS db ''^step'' [sn] sk) (\<lambda>_. wpP (retP (int m, st1)) Q R) R) R w) R w2"
        proof (rule wp_spell [OF assms(1,2) out [OF to2] dig [OF to2] n(1) small], intro exI conjI, rule ints(3))
          fix w3 assume w3: "moved W lo hi {} w2 w3"
          have "room b st1 (view W w3)" using room_moved [OF w1(2) moved_trans [OF w2 w3]] by simp
          with to [OF to2 w3] show "wpP (inttostr db (int (k - m))) (\<lambda>sk. wpP (setS db ''^step'' [spell ?n] sk) (\<lambda>_. wpP (retP (int m, st1)) Q R) R) R w3"
            by (rule stored)
        qed
      qed
    qed
  qed simp_all
qed

end

end
