(* ===== verification/Threen1f_Loop.thy ===== *)
theory Threen1f_Loop
  imports Threen1f_Dostep
begin

text \<open>
  The rest of \<^verbatim>\<open>dostep\<close>: storing the steps of a whole path, one number, and the loop over the numbers of a block.
\<close>

text \<open>The table has the steps of a number, and the result is no smaller.\<close>

definition known :: "int \<Rightarrow> int \<Rightarrow> int \<Rightarrow> contents \<Rightarrow> bool" where
  "known lo hi n c \<longleftrightarrow> good lo hi c \<and> (\<exists>k. reaches n k \<and> int k \<le> result_of c \<and>
     (1 < n \<longrightarrow> c (''^step'', [spell n]) = Some (spell (int k))))"

lemma known_moved: "known lo hi n (view W w) \<Longrightarrow> moved W lo hi V w w' \<Longrightarrow> known lo hi n (view W w')"
  unfolding known_def using moved_good moved_result moved_entry by (meson order_trans)

context tn_counters begin

text \<open>All numbers of the path from the subscript \<open>m\<close> on.\<close>

lemma wp_store_steps:
  assumes "shared_laws db W" "tn_world lo hi W" "reaches n k" "1 \<le> n" "\<forall>j \<le> k. (collatz ^^ j) n < 10 ^ 13" "int k < 2 ^ 31" "L \<le> k"
    and "mode W w = Outside" "has_digits (view W w)" "good lo hi (view W w)" "int k \<le> result_of (view W w)"
    and "room (L - m + b) st (view W w)" "path_is (view W w) (path_var (C db)) n L" "m \<le> L" "L - m < fuel"
    and "sub = (if m = 0 then [] else dec_of_nat (m - 1))"
    and "\<And>st' w'. moved W lo hi vars w w' \<Longrightarrow> room b st' (view W w') \<Longrightarrow>
      (\<forall>j. m \<le> j \<longrightarrow> j < L \<longrightarrow> view W w' (''^step'', [spell ((collatz ^^ j) n)]) = Some (spell (int (k - j)))) \<Longrightarrow> Q st' w'"
  shows "wpP (store_steps fuel db (C db) sub (int k) st) Q R w"
  using assms(8-17)
proof (induction fuel arbitrary: m sub st w)
  case (Suc fuel)
  let ?p = "path_var (C db)"
  have p: "\<not> is_global ?p" "?p \<notin> vars" using path_local path_apart by auto
  have L: "int L < 2 ^ 63" using assms(6,7) by simp
  have to: "moved W lo hi {} w w1" if "sees W w (view W w1)" "mode W w1 = mode W w" for w1
    using later_moved [OF assms(2) _ Suc.prems(1)] that by (simp add: later_def)
  have step: "wpP (store_one db (C db) (dec_of_nat m) (int k) st)
      (\<lambda>x. wpP (store_steps fuel db (C db) (dec_of_int (fst x)) (int k) (snd x)) Q R) R w1"
    if w1: "moved W lo hi {} w w1" and m: "m < L" for w1
  proof (rule wp_store_one [where b = "L - Suc m + b", OF assms(1,2) _ _ _ assms(3-6) _ _ m assms(7)])
    show "mode W w1 = Outside" using w1 by (simp add: moved_def)
    show "has_digits (view W w1)" by (rule moved_digits [OF w1 Suc.prems(2)]) simp
    show "good lo hi (view W w1)" by (rule moved_good [OF w1 Suc.prems(3)])
    show "room (Suc (L - Suc m + b)) st (view W w1)" using room_moved [OF Suc.prems(5) w1] m by (simp add: Suc_diff_Suc)
    show "path_is (view W w1) ?p n L" by (rule path_is_moved [OF Suc.prems(6) w1 p(1)]) simp
    show "int k \<le> result_of (view W w1)" using moved_result [OF w1 Suc.prems(3)] Suc.prems(4) by simp
    fix st2 w2 assume w2: "moved W lo hi vars w1 w2" "room (L - Suc m + b) st2 (view W w2)"
      "view W w2 (''^step'', [spell ((collatz ^^ m) n)]) = Some (spell (int (k - m)))"
    have to2: "moved W lo hi vars w w2" by (rule moved_trans [OF moved_mono [OF w1] w2(1)]) simp
    have "wpP (store_steps fuel db (C db) (dec_of_nat m) (int k) st2) Q R w2"
    proof (rule Suc.IH [where m = "Suc m", OF _ _ _ _ w2(2)])
      show "mode W w2 = Outside" using w2(1) by (simp add: moved_def)
      show "has_digits (view W w2)" by (rule moved_digits [OF to2 Suc.prems(2) vars_apart])
      show "good lo hi (view W w2)" by (rule moved_good [OF to2 Suc.prems(3)])
      show "int k \<le> result_of (view W w2)" using moved_result [OF to2 Suc.prems(3)] Suc.prems(4) by simp
      show "path_is (view W w2) ?p n L" by (rule path_is_moved [OF Suc.prems(6) to2 p])
      fix st3 w3 assume w3: "moved W lo hi vars w2 w3" "room b st3 (view W w3)"
        "\<forall>j. Suc m \<le> j \<longrightarrow> j < L \<longrightarrow> view W w3 (''^step'', [spell ((collatz ^^ j) n)]) = Some (spell (int (k - j)))"
      have "view W w3 (''^step'', [spell ((collatz ^^ m) n)]) = Some (spell (int (k - m)))"
        by (rule moved_entry [OF w3(1) moved_good [OF to2 Suc.prems(3)] w2(3)])
      then have "\<forall>j. m \<le> j \<longrightarrow> j < L \<longrightarrow> view W w3 (''^step'', [spell ((collatz ^^ j) n)]) = Some (spell (int (k - j)))"
        using w3(3) by (metis Suc_leI le_neq_implies_less)
      then show "Q st3 w3" by (rule Suc.prems(10) [OF moved_trans [OF to2 w3(1)] w3(2)])
    qed (use m Suc.prems(8) in simp_all)
    then show "wpP (store_steps fuel db (C db) (dec_of_int (fst (int m, st2))) (int k) (snd (int m, st2))) Q R w2"
      by (simp add: dec_of_nat_as_int)
  qed
  show ?case
    unfolding store_steps.simps wpP_bind tn_MAXVALUELEN_def
  proof (rule wp_db_next [OF assms(1) p(1) L Suc.prems(7,9)])
    show "ss \<noteq> [] \<and> view W w (?p, ss) \<noteq> None \<longleftrightarrow> (\<exists>m < L. ss = [dec_of_nat m])" for ss by (rule path_is_defined [OF Suc.prems(6)])
    fix w1 assume w1: "sees W w (view W w1)" "mode W w1 = mode W w" "m < L"
    show "wpP (case (db_ok db, dec_of_nat m) of (s, x) \<Rightarrow> if s = db_nodeend db then retP st else thenP (okS db s)
        (bindP (store_one db (C db) x (int k) st) (\<lambda>(tmp1, st1). store_steps fuel db (C db) (dec_of_int tmp1) (int k) st1))) Q R w1"
      using step [OF to [OF w1(1,2)] w1(3)] shared_statuses(3) [OF assms(1)] by (simp add: wp_simps okS_def case_prod_beta)
  next
    fix x w1 assume w1: "sees W w (view W w1)" "mode W w1 = mode W w" "m = L"
    have "Q st w1"
      using Suc.prems(10) [OF moved_mono [OF to [OF w1(1,2)]]] room_moved [OF Suc.prems(5) to [OF w1(1,2)]] w1(3) by simp
    then show "wpP (case (db_nodeend db, x) of (s, x) \<Rightarrow> if s = db_nodeend db then retP st else thenP (okS db s)
        (bindP (store_one db (C db) x (int k) st) (\<lambda>(tmp1, st1). store_steps fuel db (C db) (dec_of_int tmp1) (int k) st1))) Q R w1"
      by (simp add: wpP_ret)
  qed
qed simp

text \<open>How many steps the number has, once the walk has ended at \<open>x\<close>.\<close>

lemma wp_total_steps:
  assumes "shared_laws db W" "tn_world lo hi W" "mode W w = Outside" "has_digits (view W w)" "good lo hi (view W w)"
    and "reaches n k" "1 \<le> n" "\<forall>j \<le> k. (collatz ^^ j) n < 10 ^ 13" "int k < 2 ^ 31" "i \<le> k" "(collatz ^^ i) n = x"
    and "i = k \<or> i < k \<and> view W w (''^step'', [spell x]) \<noteq> None"
  shows "wpP (if 1 < x then bindP (inttostr db x) (\<lambda>s. bindP (getS db ''^step'' [s]) (\<lambda>v.
      bindP (strtoint db v) (\<lambda>m. liftP (int64_of (int i + m))))) else retP (int i)) (\<lambda>t w'. t = int k \<and> moved W lo hi {} w w') R w"
proof (cases "i = k")
  case True
  then have "x = 1" using assms(6,11) by (simp add: reaches_def)
  then show ?thesis using True moved_refl [OF assms(3)] by (simp add: wp_simps)
next
  case False
  then have "x \<noteq> 1" "1 \<le> x" using assms(6,10,11) collatz_pow_pos [OF assms(7), of i] by (auto simp: reaches_def)
  then have x: "1 < x" "0 \<le> x" by simp_all
  have small: "x < 10 ^ 13" using assms(8,10,11) by auto
  obtain v where v: "view W w (''^step'', [spell x]) = Some v" using False assms(12) by auto
  obtain l where l: "v = spell (int l)" "reaches x l" using good_entry [OF assms(5) v x(1)] by metis
  have "l = k - i" using reaches_unique [OF l(2)] reaches_rest [OF assms(6,10)] assms(11) by simp
  then have v': "v = spell (int (k - i))" and sum: "int64_of (int i + int (k - i)) = Inr (int k)"
    using l(1) assms(9,10) by (simp_all add: int64_of_def)
  have ki: "int (k - i) < 10 ^ 13" "0 \<le> int (k - i)" using assms(9) by simp_all
  have fits: "length v \<le> tn_MAXVALUELEN" using spell_fits [OF ki(2,1)] v' by simp
  have "wpP (inttostr db x) (\<lambda>s. wpP (getS db ''^step'' [s]) (\<lambda>v. wpP (strtoint db v) (\<lambda>m. wpP (liftP (int64_of (int i + m)))
      (\<lambda>t w'. t = int k \<and> moved W lo hi {} w w') R) R) R) R w"
  proof (rule wp_spell [OF assms(1-4) x(2) small])
    fix w1 assume w1: "moved W lo hi {} w w1"
    have o1: "mode W w1 = Outside" using w1 by (simp add: moved_def)
    show "wpP (getS db ''^step'' [spell x]) (\<lambda>v. wpP (strtoint db v) (\<lambda>m. wpP (liftP (int64_of (int i + m)))
      (\<lambda>t w'. t = int k \<and> moved W lo hi {} w w') R) R) R w1"
    proof (rule wp_get_entry [OF assms(1,2) o1 moved_good [OF w1 assms(5)] moved_entry [OF w1 assms(5) v] fits])
      fix w2 assume w2: "moved W lo hi {} w1 w2"
      have to2: "moved W lo hi {} w w2" by (rule moved_trans [OF w1 w2])
      have o2: "mode W w2 = Outside" using w2 by (simp add: moved_def)
      have d2: "has_digits (view W w2)" by (rule moved_digits [OF to2 assms(4)]) simp
      show "wpP (strtoint db v) (\<lambda>m. wpP (liftP (int64_of (int i + m))) (\<lambda>t w'. t = int k \<and> moved W lo hi {} w w') R) R w2"
        unfolding v'
      proof (rule wp_unspell [OF assms(1,2) o2 d2 ki(2,1)])
        fix w3 assume "moved W lo hi {} w2 w3"
        then have "moved W lo hi {} w w3" by (rule moved_trans [OF to2])
        then show "wpP (liftP (int64_of (int i + int (k - i)))) (\<lambda>t w'. t = int k \<and> moved W lo hi {} w w') R w3"
          unfolding sum by (simp add: wpP_lift)
      qed
    qed
  qed
  then show ?thesis using x(1) by (simp add: wpP_bind)
qed

text \<open>The path of the number before is deleted.\<close>

lemma wp_delete_path:
  assumes "shared_laws db W" "tn_world lo hi W" "mode W w = Outside" "\<not> is_global g"
    and "\<And>w'. moved W lo hi {g} w w' \<Longrightarrow> path_is (view W w') g n 0 \<Longrightarrow> Q () w'"
  shows "wpP (bindP (callP (db_delete_tree db g [])) (okS db)) Q R w"
  unfolding wpP_bind
proof (rule wp_db_delete [OF assms(1)])
  have own: "own_step lo hi c (without_tree g [] c)" for c by (rule own_step_local [OF assms(4)]) (simp add: without_tree_def)
  then show "allowed W w (without_tree g [])" by (simp add: allowed_def own_guar [OF assms(2)])
  fix c w' assume w': "sees W w c" "view W w' = without_tree g [] c" "mode W w' = mode W w"
  have "moved W lo hi {g} w w'"
    by (rule moved_own [OF assms(2) w'(1) _ assms(3) w'(3)]) (use own w'(2) in \<open>auto simp: without_tree_def\<close>)
  moreover have "path_is (view W w') g n 0" by (simp add: path_is_def w'(2) without_tree_def)
  ultimately show "wpP (okS db (db_ok db)) Q R w'" using assms(5) by (simp add: okS_def wp_simps)
qed (use outside_no_restart [OF assms(3)] in simp)

text \<open>One number.\<close>

lemma wp_dostep_one:
  assumes "shared_laws db W" "tn_world lo hi W" "mode W w = Outside" "has_digits (view W w)" "good lo hi (view W w)"
    and "lo \<le> n" "n \<le> hi" "reaches n k" "1 \<le> n" "\<forall>j \<le> k. (collatz ^^ j) n < 10 ^ 13" "int k < 2 ^ 31" "k < fuel"
    and "room (Suc (2 * k) + b) st (view W w)"
    and "\<And>st' w'. moved W lo hi (insert (path_var (C db)) vars) w w' \<Longrightarrow> room b st' (view W w') \<Longrightarrow> known lo hi n (view W w') \<Longrightarrow> Q st' w'"
  shows "wpP (dostep_one fuel db (C db) n st) Q R w"
proof -
  let ?p = "path_var (C db)"
  let ?V = "insert ?p vars"
  have p: "\<not> is_global ?p" "?p \<notin> vars" using path_local path_apart by auto
  have V: "?V \<inter> {''di'', ''ds''} = {}" using vars_apart path_apart by auto
  define rest where "rest = (\<lambda>(x, i, st1). if 0 < i
      then bindP (if 1 < x then bindP (inttostr db x) (\<lambda>s. bindP (getS db ''^step'' [s]) (\<lambda>v.
             bindP (strtoint db v) (\<lambda>m. liftP (int64_of (i + m))))) else retP i)
           (\<lambda>i'. thenP (run_tp db (tp_setmaximum db i')) (store_steps fuel db (C db) [] i' st1))
      else retP st1)"
  have walked: "wpP (rest ((collatz ^^ i) n, int i, st1)) Q R w1"
    if i: "i \<le> k" and w1: "moved W lo hi ?V w w1" "path_is (view W w1) ?p n i" "room (k + b) st1 (view W w1)"
      and stop: "i = k \<or> i < k \<and> view W w1 (''^step'', [spell ((collatz ^^ i) n)]) \<noteq> None" for i st1 w1
  proof -
    have o1: "mode W w1 = Outside" using w1(1) by (simp add: moved_def)
    have d1: "has_digits (view W w1)" by (rule moved_digits [OF w1(1) assms(4) V])
    have g1: "good lo hi (view W w1)" by (rule moved_good [OF w1(1) assms(5)])
    show ?thesis
    proof (cases "i = 0")
      case True
      have "known lo hi n (view W w1)"
      proof (cases "k = 0")
        case True
        then have "n = 1" using assms(8) by (simp add: reaches_def)
        then show ?thesis using assms(8) True g1 by (auto simp: known_def good_def result_ok_def)
      next
        case False
        then have "1 < n" using assms(8,9) by (cases "n = 1") (auto simp: reaches_def)
        moreover obtain v where v: "view W w1 (''^step'', [spell n]) = Some v" using stop True False by auto
        ultimately show ?thesis using good_entry [OF g1 v] g1 v unfolding known_def by metis
      qed
      then have "Q st1 w1" by (rule assms(14) [OF w1(1) room_less [OF w1(3)], rotated]) simp
      then show ?thesis using True by (simp add: rest_def wpP_ret)
    next
      case False
      have run: "wpP (thenP (run_tp db (tp_setmaximum db (int k))) (store_steps fuel db (C db) [] (int k) st1)) Q R w2"
        if w2: "moved W lo hi {} w1 w2" for w2
        unfolding wpP_then
      proof (rule wp_run_setmaximum [OF assms(1,2) _ moved_good [OF w2 g1] assms(11,6-8)])
        show "mode W w2 = Outside" using w2 by (simp add: moved_def)
        fix w3 assume w3: "moved W lo hi {} w2 w3" "int k \<le> result_of (view W w3)"
        have m13: "moved W lo hi {} w1 w3" by (rule moved_trans [OF w2 w3(1)])
        show "wpP (store_steps fuel db (C db) [] (int k) st1) Q R w3"
        proof (rule wp_store_steps [where m = 0 and b = b, OF assms(1,2,8-11) i _ _ _ w3(2)])
          show "mode W w3 = Outside" using w3(1) by (simp add: moved_def)
          show "has_digits (view W w3)" by (rule moved_digits [OF m13 d1]) simp
          show "good lo hi (view W w3)" by (rule moved_good [OF m13 g1])
          show "room (i - 0 + b) st1 (view W w3)" by (rule room_less [OF room_moved [OF w1(3) m13]]) (use i in simp_all)
          show "path_is (view W w3) ?p n i" by (rule path_is_moved [OF w1(2) m13 p(1)]) simp
          show "i - 0 < fuel" using i assms(12) by simp
          fix st4 w4 assume w4: "moved W lo hi vars w3 w4" "room b st4 (view W w4)"
            "\<forall>j. 0 \<le> j \<longrightarrow> j < i \<longrightarrow> view W w4 (''^step'', [spell ((collatz ^^ j) n)]) = Some (spell (int (k - j)))"
          have m14: "moved W lo hi ?V w1 w4" using moved_trans [OF moved_mono [OF m13, of ?V] moved_mono [OF w4(1), of ?V]] by auto
          have "view W w4 (''^step'', [spell n]) = Some (spell (int k))" using w4(3) False by force
          moreover have "int k \<le> result_of (view W w4)" using w3(2) moved_result [OF w4(1) moved_good [OF m13 g1]] by simp
          ultimately have "known lo hi n (view W w4)" using assms(8) moved_good [OF m14 g1] unfolding known_def by blast
          then show "Q st4 w4" by (rule assms(14) [OF moved_trans [OF w1(1) m14] w4(2)])
        qed simp_all
      qed
      have "wpP (if 1 < (collatz ^^ i) n then bindP (inttostr db ((collatz ^^ i) n)) (\<lambda>s. bindP (getS db ''^step'' [s]) (\<lambda>v.
          bindP (strtoint db v) (\<lambda>m. liftP (int64_of (int i + m))))) else retP (int i))
          (\<lambda>i'. wpP (thenP (run_tp db (tp_setmaximum db i')) (store_steps fuel db (C db) [] i' st1)) Q R) R w1"
        by (rule wpP_mono [OF wp_total_steps [OF assms(1,2) o1 d1 g1 assms(8-11) i refl stop]]) (use run in auto)
      then show ?thesis using False by (simp add: rest_def wpP_bind)
    qed
  qed
  have "wpP (walk fuel db (C db) ((collatz ^^ 0) n) (int 0) st) (\<lambda>x. wpP (rest x) Q R) R w1"
    if w1: "moved W lo hi {?p} w w1" "path_is (view W w1) ?p n 0" for w1
  proof (rule wp_path_walk [where b = "k + b", OF assms(1,2) _ _ _ assms(8-11) _ w1(2)])
    have m1: "moved W lo hi ?V w w1" by (rule moved_mono [OF w1(1)]) simp
    show "mode W w1 = Outside" using w1(1) by (simp add: moved_def)
    show "has_digits (view W w1)" by (rule moved_digits [OF m1 assms(4) V])
    show "good lo hi (view W w1)" by (rule moved_good [OF m1 assms(5)])
    show "room (Suc (k - 0) + (k + b)) st (view W w1)" by (rule room_less [OF room_moved [OF assms(13) w1(1)]]) (use p(2) in simp_all)
    fix i st2 w2 assume "i \<le> k" "moved W lo hi ?V w1 w2" "path_is (view W w2) ?p n i" "room (k + b) st2 (view W w2)"
      "i = k \<or> i < k \<and> view W w2 (''^step'', [spell ((collatz ^^ i) n)]) \<noteq> None"
    then show "wpP (rest ((collatz ^^ i) n, int i, st2)) Q R w2" by (intro walked moved_trans [OF m1])
  qed (use assms(12) in simp_all)
  then have "wpP (bindP (callP (db_delete_tree db ?p [])) (okS db))
      (\<lambda>_. wpP (walk fuel db (C db) n 0 st) (\<lambda>x. wpP (rest x) Q R) R) R w"
    by (intro wp_delete_path [where n = n and lo = lo and hi = hi, OF assms(1-3) p(1)]) simp
  then show ?thesis by (simp add: dostep_one_def rest_def wpP_then wpP_bind)
qed

text \<open>The numbers of a block.\<close>

lemma wp_dostep_loop:
  assumes "shared_laws db W" "tn_world lo hi W" "lo \<le> first" "lastn \<le> hi" "\<forall>n. first \<le> n \<longrightarrow> n \<le> lastn \<longrightarrow> tame K n" "int K \<le> 2 ^ 31" "K \<le> fuel"
    and "mode W w = Outside" "has_digits (view W w)" "good lo hi (view W w)" "room (nat (lastn + 1 - first) * (2 * K) + b) st (view W w)"
    and "\<And>st' w'. moved W lo hi (insert (path_var (C db)) vars) w w' \<Longrightarrow> room b st' (view W w') \<Longrightarrow>
      (\<forall>n. first \<le> n \<longrightarrow> n \<le> lastn \<longrightarrow> known lo hi n (view W w')) \<Longrightarrow> Q st' w'"
  shows "wpP (dostep_loop fuel db (C db) first lastn st) Q R w"
  using assms(3,5,8-12)
proof (induction "nat (lastn + 1 - first)" arbitrary: first st w)
  case 0
  then have "\<not> first \<le> lastn" by simp
  then show ?case using "0.prems"(6,7) moved_refl [OF "0.prems"(3)] room_less by (subst dostep_loop.simps) (simp add: wpP_ret)
next
  case (Suc d)
  let ?V = "insert (path_var (C db)) vars"
  have V: "?V \<inter> {''di'', ''ds''} = {}" using vars_apart path_apart by auto
  have le: "first \<le> lastn" and d: "d = nat (lastn + 1 - (first + 1))" using Suc.hyps(2) by simp_all
  obtain k where k: "1 \<le> first" "k < K" "reaches first k" "\<forall>j \<le> k. (collatz ^^ j) first < 10 ^ 13"
    using Suc.prems(2) le unfolding tame_def by auto
  have "wpP (dostep_one fuel db (C db) first st) (\<lambda>st1. wpP (dostep_loop fuel db (C db) (first + 1) lastn st1) Q R) R w"
  proof (rule wp_dostep_one [where b = "d * (2 * K) + b", OF assms(1,2) Suc.prems(3-5,1) _ k(3,1,4)])
    have "Suc (2 * k) + (d * (2 * K) + b) \<le> nat (lastn + 1 - first) * (2 * K) + b"
      unfolding Suc.hyps(2) [symmetric] using k(2) by simp
    then show "room (Suc (2 * k) + (d * (2 * K) + b)) st (view W w)" by (rule room_less [OF Suc.prems(6)])
    fix st1 w1 assume w1: "moved W lo hi ?V w w1" "room (d * (2 * K) + b) st1 (view W w1)" "known lo hi first (view W w1)"
    show "wpP (dostep_loop fuel db (C db) (first + 1) lastn st1) Q R w1"
    proof (rule Suc.hyps(1) [OF d])
      show "mode W w1 = Outside" using w1(1) by (simp add: moved_def)
      show "has_digits (view W w1)" by (rule moved_digits [OF w1(1) Suc.prems(4) V])
      show "good lo hi (view W w1)" by (rule moved_good [OF w1(1) Suc.prems(5)])
      show "room (nat (lastn + 1 - (first + 1)) * (2 * K) + b) st1 (view W w1)" using w1(2) d by simp
      fix st2 w2 assume w2: "moved W lo hi ?V w1 w2" "room b st2 (view W w2)"
        "\<forall>n. first + 1 \<le> n \<longrightarrow> n \<le> lastn \<longrightarrow> known lo hi n (view W w2)"
      have "known lo hi n (view W w2)" if "first \<le> n" "n \<le> lastn" for n
        using w2(3) known_moved [OF w1(3) w2(1)] that by (cases "n = first") simp_all
      then show "Q st2 w2" using Suc.prems(7) [OF moved_trans [OF w1(1) w2(1)] w2(2)] by blast
    qed (use Suc.prems(1,2) in simp_all)
  qed (use le assms(4,6,7) k(2) in simp_all)
  then show ?case using le by (subst dostep_loop.simps) (simp add: wpP_bind)
qed

end

end
