(* ===== verification/Solo_Db.thy ===== *)
theory Solo_Db
  imports Shared_Db
begin

text \<open>
  A process alone with a plain store: an instance of the laws of \<open>Shared_Db\<close>, on which the properties are tried.  The world is
  the contents and whether a transaction runs; a transaction is run once, as the last try.
\<close>

type_synonym solo = "contents \<times> tp_mode"

definition solo_delete :: "string \<Rightarrow> string list \<Rightarrow> solo \<Rightarrow> int \<times> solo" where
  "solo_delete g ss w = (0, without_tree g ss (fst w), snd w)"

definition solo_value :: "contents \<Rightarrow> node \<Rightarrow> int" where
  "solo_value c k = (case c k of None \<Rightarrow> 0 | Some v \<Rightarrow> atoi v)"

definition solo_incr :: "string \<Rightarrow> string list \<Rightarrow> string option \<Rightarrow> solo \<Rightarrow> (int \<times> string) \<times> solo" where
  "solo_incr g ss inc w =
     (let x = dec_of_int (solo_value (fst w) (g, ss) + increment inc) in ((0, x), (fst w)((g, ss) \<mapsto> x), snd w))"

definition solo_next :: "string \<Rightarrow> string \<Rightarrow> nat \<Rightarrow> solo \<Rightarrow> (int \<times> string) \<times> solo" where
  "solo_next g sub n w =
     (let x = dec_of_int (if sub = [] then 0 else atoi sub + 1)
      in ((if fst w (g, [x]) = None then 3 else 0, x), w))"

definition solo_tp :: "(solo \<Rightarrow> c_fault + int \<times> solo) \<Rightarrow> solo \<Rightarrow> c_fault + int \<times> solo" where
  "solo_tp f w = bindE (f (fst w, Final)) (\<lambda>(s, w'). Inr (s, fst w', Outside))"

definition solo_db :: "solo shared_db" where
  "solo_db = \<lparr>db_ok = 0, db_restart = 1, db_gvundef = 2, db_nodeend = 3,
     db_set = (\<lambda>g ss v w. (0, (fst w)((g, ss) \<mapsto> v), snd w)),
     db_get = (\<lambda>g ss n w. (case fst w (g, ss) of None \<Rightarrow> (2, []) | Some v \<Rightarrow> (0, v), w)),
     db_data = (\<lambda>g ss w. ((0, if \<forall>ss'. fst w (g, ss @ ss') = None then 0 else 1), w)),
     db_incr = solo_incr, db_next = solo_next, db_delete_tree = solo_delete,
     db_lock_incr = (\<lambda>g ss w. (0, w)), db_lock_decr = (\<lambda>g ss w. (0, w)), db_tp = solo_tp\<rparr>"

definition solo_world :: "solo world" where
  "solo_world = \<lparr>view = fst, mode = snd, rely = (=), guar = (\<lambda>c c'. True)\<rparr>"

lemma solo_db_simps [simp]:
  "db_ok solo_db = 0" "db_restart solo_db = 1" "db_gvundef solo_db = 2" "db_nodeend solo_db = 3"
  "db_incr solo_db = solo_incr" "db_next solo_db = solo_next" "db_delete_tree solo_db = solo_delete" "db_tp solo_db = solo_tp"
  by (simp_all add: solo_db_def)

lemma solo_world_simps [simp]: "view solo_world = fst" "mode solo_world = snd" "rely solo_world = (=)" "guar solo_world c c'"
  by (simp_all add: solo_world_def)

lemma solo_sees: "sees solo_world w c \<longleftrightarrow> c = fst w"
  by (auto simp: sees_def others_def)

lemma solo_value_holds: "holds_int c k m \<Longrightarrow> solo_value c k = m"
  by (auto simp: holds_int_def solo_value_def cstr_simps split: option.splits)

lemma solo_incr_law: "incr_law solo_db solo_world"
  unfolding incr_law_def solo_sees by (auto simp: solo_incr_def Let_def dest: solo_value_holds)

lemma solo_next_law: "next_law solo_db solo_world"
  unfolding next_law_def
proof (intro allI impI, goal_cases)
  case (1 g sub k n w s x w')
  have sub: "(if sub = [] then 0 else atoi sub + 1) = int k"
    using 1(4) by (cases k) (simp_all add: cstr_simps)
  have "fst w (g, [dec_of_nat k]) \<noteq> None \<longleftrightarrow> k < n"
    using 1(6) [rule_format, of "[dec_of_nat k]"] by auto
  then show ?case using 1(1,5) sub by (auto simp: solo_next_def Let_def solo_sees dec_of_int_def split: if_splits)
qed

lemma solo_tp_law: "tp_law solo_db solo_world"
  unfolding tp_law_def
proof (intro allI impI)
  fix f and w :: solo
  assume w: "mode solo_world w = Outside"
    "\<forall>w0. mode solo_world w0 \<noteq> Outside \<longrightarrow> others solo_world (view solo_world w) (view solo_world w0) \<longrightarrow> tx_run solo_db solo_world w f w0"
  obtain c m where run: "f (fst w, Final) = Inr (0, c, m)"
    using w(2) [rule_format, of "(fst w, Final)"] by (auto simp: tx_run_def others_def)
  then show "\<exists>w'. db_tp solo_db f w = Inr (db_ok solo_db, w') \<and> mode solo_world w' = Outside \<and>
      (\<exists>w0 w1. mode solo_world w0 \<noteq> Outside \<and> others solo_world (view solo_world w) (view solo_world w0) \<and>
         f w0 = Inr (db_ok solo_db, w1) \<and> view solo_world w' = view solo_world w1)"
    by (intro exI [of _ "(c, Outside)"] conjI exI [of _ "(fst w, Final)"] exI [of _ "(c, m)"])
      (simp_all add: solo_tp_def others_def)
qed

theorem solo_laws: "shared_laws solo_db solo_world"
  unfolding shared_laws_def
proof (intro conjI solo_incr_law solo_next_law solo_tp_law)
  show "set_law solo_db solo_world" unfolding set_law_def solo_sees by (auto simp: solo_db_def)
  show "get_law solo_db solo_world" unfolding get_law_def solo_sees by (auto simp: solo_db_def split: option.splits)
  show "data_law solo_db solo_world" unfolding data_law_def solo_sees by (auto simp: solo_db_def)
  show "delete_law solo_db solo_world" unfolding delete_law_def solo_sees by (auto simp: solo_delete_def)
  show "lock_law solo_db solo_world" unfolding lock_law_def solo_sees by (auto simp: solo_db_def)
qed auto

end
