(* ===== verification/Threen1f_Correct.thy ===== *)
theory Threen1f_Correct
  imports Threen1f_Loop Solo_Db
begin

text \<open>
  The counts of the processes and of the threads are such as \<open>tn_counters\<close> asks for, so that \<^verbatim>\<open>dostep\<close> is right in both programs,
  whatever the others do meanwhile to the table of steps within \<open>tn_step\<close>.
\<close>

section \<open>The processes\<close>

lemma holds_int_unique: "holds_int c k m \<Longrightarrow> holds_int c k m' \<Longrightarrow> m = m'"
  by (auto simp: holds_int_def split: option.splits)

lemma wp_count:
  assumes "shared_laws db W" "tn_world lo hi W" "mode W w = Outside" "\<not> is_global g" "holds_int (view W w) (g, []) r" "0 \<le> r" "r + 1 < 10 ^ 18"
    and "\<And>w'. moved W lo hi {g} w w' \<Longrightarrow> holds_int (view W w') (g, []) (r + 1) \<Longrightarrow> Q () w'"
  shows "wpP (thenP (incrS db g [] None) (retP ())) Q R w"
  unfolding incrS_def wpP_then wpP_bind
proof (rule wp_db_incr [OF assms(1)])
  have held: "holds_int c (g, []) r" if "sees W w c" for c using assms(5) sees_local [OF that assms(4)] by (simp add: holds_int_def)
  have one: "increment None = 1" by (simp add: increment_def)
  fix c assume c: "sees W w c"
  show "\<exists>m. holds_int c (g, []) m \<and> \<bar>m + increment None\<bar> < 10 ^ 18 \<and>
      (mode W w = Outside \<longrightarrow> guar W c (c((g, []) \<mapsto> dec_of_int (m + increment None))))"
    using held [OF c] assms(4,6,7) by (auto simp: one intro!: exI [of _ r] own_guar [OF assms(2)] own_step_local)
  fix m w' assume m: "holds_int c (g, []) m" "view W w' = c((g, []) \<mapsto> dec_of_int (m + increment None))" "mode W w' = mode W w"
  have "m = r" by (rule holds_int_unique [OF m(1) held [OF c]])
  then have v: "view W w' = c((g, []) \<mapsto> dec_of_int (r + 1))" using m(2) by (simp add: one)
  have "Q () w'"
    by (rule assms(8) [OF moved_set_local(1) [OF assms(2) c v assms(3) m(3) assms(4)]]) (simp add: holds_int_def v)
  then show "wpP (case (db_ok db, dec_of_int (m + increment None)) of (s, v) \<Rightarrow> thenP (okS db s) (retP v)) (\<lambda>_. wpP (retP ()) Q R) R w'"
    by (simp add: okS_def wp_simps)
qed (use outside_no_restart [OF assms(3)] in simp)

text \<open>Room for more counts, up to the digits that the database counts with.\<close>

definition count_room :: "nat \<Rightarrow> contents \<Rightarrow> string \<Rightarrow> bool" where
  "count_room b c g \<longleftrightarrow> (\<exists>r. holds_int c (g, []) r \<and> 0 \<le> r \<and> r + int b < 10 ^ 18)"

definition m_room :: "nat \<Rightarrow> unit \<Rightarrow> contents \<Rightarrow> bool" where
  "m_room b st c \<longleftrightarrow> count_room b c ''reads'' \<and> count_room b c ''updates'' \<and>
     (\<exists>h. c (''highest'', []) = Some (dec_of_int h) \<and> 0 \<le> h \<and> h < 10 ^ 13)"

lemma count_room_kept: "count_room b c g \<Longrightarrow> c' (g, []) = c (g, []) \<Longrightarrow> count_room b c' g"
  by (simp add: count_room_def holds_int_def)

lemma count_room_less: "count_room b c g \<Longrightarrow> b' \<le> b \<Longrightarrow> count_room b' c g"
  unfolding count_room_def by (meson add_left_mono of_nat_mono order_le_less_trans)

lemma m_room_kept:
  assumes "m_room b st c" "\<And>g ss. g \<in> {''reads'', ''updates'', ''highest''} \<Longrightarrow> c' (g, ss) = c (g, ss)"
  shows "m_room b st' c'"
  using assms(1) assms(2) [of _ "[]"] by (simp add: m_room_def count_room_def holds_int_def)

lemma m_room_less: "m_room b st c \<Longrightarrow> b' \<le> b \<Longrightarrow> m_room b' st c"
  by (auto simp: m_room_def intro: count_room_less)

lemma m_count:
  assumes "shared_laws db W" "tn_world lo hi W" "mode W w = Outside" "m_room (Suc b) st (view W w)" "g \<in> {''reads'', ''updates''}"
    and "\<And>w'. moved W lo hi {''reads'', ''updates'', ''highest''} w w' \<Longrightarrow> m_room b () (view W w') \<Longrightarrow> Q () w'"
  shows "wpP (thenP (incrS db g [] None) (retP ())) Q R w"
proof -
  obtain r where r: "holds_int (view W w) (g, []) r" "0 \<le> r" "r + int (Suc b) < 10 ^ 18"
    using assms(4,5) unfolding m_room_def count_room_def by blast
  have g: "\<not> is_global g" using assms(5) by (auto simp: is_global_def)
  show ?thesis
  proof (rule wp_count [OF assms(1-3) g r(1,2)])
    show "r + 1 < 10 ^ 18" using r(3) by simp
    fix w' assume w': "moved W lo hi {g} w w'" "holds_int (view W w') (g, []) (r + 1)"
    have room: "m_room b () (view W w)" using m_room_less [OF assms(4), of b] by simp
    have other: "view W w' (g', []) = view W w (g', [])" if "g' \<in> {''reads'', ''updates'', ''highest''}" "g' \<noteq> g" for g'
      using moved_local [OF w'(1), of g'] that by (auto simp: is_global_def)
    have "count_room b (view W w') g" unfolding count_room_def using w'(2) r(2,3) by (intro exI [of _ "r + 1"]) simp
    then have count: "count_room b (view W w') g'" if "g' \<in> {''reads'', ''updates''}" for g'
      using room other [of g'] that by (cases "g' = g") (auto simp: m_room_def intro: count_room_kept)
    have "view W w' (''highest'', []) = view W w (''highest'', [])" using assms(5) by (intro other) auto
    then have "m_room b () (view W w')" using room count by (simp add: m_room_def)
    then show "Q () w'" by (rule assms(6) [OF moved_mono [OF w'(1)], rotated]) (use assms(5) in auto)
  qed
qed

lemma m_highest:
  assumes "shared_laws db W" "tn_world lo hi W" "mode W w = Outside" "m_room b st (view W w)" "1 \<le> n" "n < 10 ^ 13"
    and "\<And>w'. moved W lo hi {''reads'', ''updates'', ''highest''} w w' \<Longrightarrow> m_room b () (view W w') \<Longrightarrow> Q () w'"
  shows "wpP (m_note_highest db n n' st) Q R w"
proof -
  obtain h where h: "view W w (''highest'', []) = Some (dec_of_int h)" "0 \<le> h" "h < 10 ^ 13" using assms(4) unfolding m_room_def by blast
  have g: "\<not> is_global ''highest''" by (simp add: is_global_def)
  have small: "h < 10 ^ 18" using h(3) by simp
  have fits: "length (dec_of_int h) \<le> tn_MAXVALUELEN" using dec_fits_value [OF h(2) small] by simp
  show ?thesis
    unfolding m_note_highest_def wpP_bind
  proof (rule wp_get_local [OF assms(1-3) g h(1) fits])
    fix w1 assume w1: "moved W lo hi {} w w1"
    have room1: "m_room b () (view W w1)"
      by (rule m_room_kept [OF assms(4)]) (use moved_local [OF w1] in \<open>auto simp: is_global_def\<close>)
    have to1: "moved W lo hi {''reads'', ''updates'', ''highest''} w w1" by (rule moved_mono [OF w1]) simp
    have "wpP (if n' > h then setS db ''highest'' [] (dec_of_int n) else retP ()) Q R w1"
    proof (cases "n' > h")
      case True
      have "wpP (setS db ''highest'' [] (dec_of_int n)) Q R w1"
      proof (rule wp_set_local [OF assms(1,2) _ g])
        show "mode W w1 = Outside" using w1 by (simp add: moved_def)
        fix w2 assume w2: "moved W lo hi {''highest''} w1 w2" "view W w2 (''highest'', []) = Some (dec_of_int n)"
        have "view W w2 (g, []) = view W w1 (g, [])" if "g \<in> {''reads'', ''updates''}" for g
          using moved_local [OF w2(1), of g] that by (auto simp: is_global_def)
        then have "m_room b () (view W w2)"
          using room1 w2(2) assms(5,6) by (auto simp: m_room_def intro: count_room_kept)
        then show "Q () w2" by (rule assms(7) [OF moved_trans [OF to1 moved_mono [OF w2(1)]], rotated]) simp
      qed
      then show ?thesis using True by simp
    qed (use assms(7) [OF to1 room1] in \<open>simp add: wpP_ret\<close>)
    then show "wpP (liftP (atoll_of (dec_of_int h))) (\<lambda>highest_lcl. wpP (if n' > highest_lcl
        then setS db ''highest'' [] (dec_of_int n) else retP ()) Q R) R w1"
      by (simp add: wpP_lift atoll_dec [OF h(2) small])
  qed
qed

interpretation m: tn_counters m_counters "{''reads'', ''updates'', ''highest''}" m_room
proof unfold_locales
  fix b st c c' assume "m_room b st c" "\<And>g ss. g \<in> {''reads'', ''updates'', ''highest''} \<Longrightarrow> c' (g, ss) = c (g, ss)"
  then show "m_room b st c'" by (rule m_room_kept)
qed (auto simp: m_counters_def is_global_def intro: m_room_less m_count m_highest)

section \<open>The threads\<close>

definition st_room :: "nat \<Rightarrow> gvstats \<Rightarrow> contents \<Rightarrow> bool" where
  "st_room b st c \<longleftrightarrow> 0 \<le> gv_reads st \<and> gv_reads st + int b < 2 ^ 63 \<and> 0 \<le> gv_updates st \<and> gv_updates st + int b < 2 ^ 63"

interpretation st: tn_counters "\<lambda>_. st_counters tid" "{}" st_room for tid
proof unfold_locales
  show "wpP (count_read (st_counters tid) st) Q R w" if "mode W w = Outside" "st_room (Suc b) st (view W w)"
      "\<And>st' w'. moved W lo hi {} w w' \<Longrightarrow> st_room b st' (view W w') \<Longrightarrow> Q st' w'" for W w b st lo hi Q R
    using that(2) that(3) [OF moved_refl [OF that(1)]] by (auto simp: st_counters_def st_room_def int64_of_def wp_simps)
  show "wpP (count_update (st_counters tid) st) Q R w" if "mode W w = Outside" "st_room (Suc b) st (view W w)"
      "\<And>st' w'. moved W lo hi {} w w' \<Longrightarrow> st_room b st' (view W w') \<Longrightarrow> Q st' w'" for W w b st lo hi Q R
    using that(2) that(3) [OF moved_refl [OF that(1)]] by (auto simp: st_counters_def st_room_def int64_of_def wp_simps)
  show "wpP (note_highest (st_counters tid) n n' st) Q R w" if "mode W w = Outside" "st_room b st (view W w)"
      "\<And>st' w'. moved W lo hi {} w w' \<Longrightarrow> st_room b st' (view W w') \<Longrightarrow> Q st' w'" for W w b st n n' lo hi Q R
    using that(2) that(3) [OF moved_refl [OF that(1)]] by (auto simp: st_counters_def st_room_def wp_simps)
qed (auto simp: st_counters_def st_room_def is_global_def)

end
