(* ===== verification/Threen1f_Run.thy ===== *)
theory Threen1f_Run
  imports Threen1f Imptp_Index
begin

text \<open>
  The rest of the 3n+1 workload: the blocks into which the parent divides the interval, the processes and threads that claim
  them, and the lines that the parent reads and reports on.
\<close>

section \<open>The blocks\<close>

text \<open>The parent writes the last number of every block.\<close>

primrec define_limits :: "nat \<Rightarrow> 'w shared_db \<Rightarrow> int \<Rightarrow> int \<Rightarrow> int \<Rightarrow> int \<Rightarrow> ('w, unit) prog" where
  "define_limits 0 db blk j tmp count = liftP (Inl Out_of_fuel)"
| "define_limits (Suc fuel) db blk j tmp count =
     (if tmp = j then retP ()
      else bindP (liftP (int_of (tmp + blk))) (\<lambda>t.
           let t' = if t > j then j else t
           in thenP (setS db ''^limits'' [dec_of_int count] (dec_of_int t'))
                (bindP (liftP (int_of (count + 1))) (\<lambda>count'. define_limits fuel db blk j t' count'))))"

definition block_first :: "'w shared_db \<Rightarrow> int \<Rightarrow> int \<Rightarrow> ('w, int) prog" where
  "block_first db allfirst tmp =
     bindP (callP (db_get db ''^limits'' [dec_of_int (tmp - 1)] tn_MAXVALUELEN)) (\<lambda>(s, v).
     if s \<noteq> db_gvundef db then thenP (okS db s) (bindP (liftP (atoi_of v)) (\<lambda>cnt. liftP (int_of (cnt + 1)))) else retP allfirst)"

text \<open>A process claims a block by being the first to count at it; \<open>step\<close> is \<^verbatim>\<open>dostep\<close>.\<close>

definition claim_block :: "'w shared_db \<Rightarrow> (int \<Rightarrow> int \<Rightarrow> 's \<Rightarrow> ('w, 's) prog) \<Rightarrow> int \<Rightarrow> int \<Rightarrow> 's \<Rightarrow> ('w, 's) prog" where
  "claim_block db step allfirst tmp st =
     bindP (incrS db ''^limits'' [dec_of_int tmp, dec_of_int 1] None) (\<lambda>v.
     bindP (liftP (atoi_of v)) (\<lambda>cnt.
     if cnt \<noteq> 1 then retP st
     else bindP (block_first db allfirst tmp) (\<lambda>first.
          bindP (getS db ''^limits'' [dec_of_int tmp]) (\<lambda>v.
          bindP (liftP (atoi_of v)) (\<lambda>lastn. step first lastn st)))))"

primrec blocks :: "nat \<Rightarrow> 'w shared_db \<Rightarrow> (int \<Rightarrow> int \<Rightarrow> 's \<Rightarrow> ('w, 's) prog) \<Rightarrow> int \<Rightarrow> int \<Rightarrow> 's \<Rightarrow> ('w, 's) prog" where
  "blocks 0 db step allfirst tmp st = liftP (Inl Out_of_fuel)"
| "blocks (Suc fuel) db step allfirst tmp st =
     bindP (liftP (int_of (tmp + 1))) (\<lambda>tmp.
     bindP (callP (db_data db ''^limits'' [dec_of_int tmp])) (\<lambda>(s, data_value).
     thenP (okS db s)
     (if data_value = 0 then retP st
      else bindP (claim_block db step allfirst tmp st) (\<lambda>st1. blocks fuel db step allfirst tmp st1))))"

section \<open>The statistics of all\<close>

text \<open>A set or an increment of the transaction is passed on when it asks for a restart.\<close>

definition passS :: "'w shared_db \<Rightarrow> int \<Rightarrow> ('w, unit) prog" where
  "passS db s = (if s = db_restart db then leave s else okS db s)"

definition highest_gbl :: "'w shared_db \<Rightarrow> ('w, int) prog" where
  "highest_gbl db =
     bindP (callP (db_get db ''^highest'' [] tn_MAXVALUELEN)) (\<lambda>(s, v).
     if s = db_restart db then leave s
     else if s \<noteq> db_gvundef db then thenP (okS db s) (liftP (atoi_of v)) else retP 0)"

text \<open>The process increments by the names of its counts, not by their values.\<close>

definition tp_gvstatsincr :: "'w shared_db \<Rightarrow> ('w, unit) prog" where
  "tp_gvstatsincr db =
     bindP (callP (db_incr db ''^reads'' [] (Some ''reads''))) (\<lambda>(s, v).
     thenP (passS db s)
     (bindP (callP (db_incr db ''^updates'' [] (Some ''updates''))) (\<lambda>(s, v).
      thenP (passS db s)
      (bindP (highest_gbl db) (\<lambda>h.
       bindP (getS db ''highest'' []) (\<lambda>v.
       bindP (liftP (atoi_of v)) (\<lambda>highest_lcl.
       if highest_lcl > h then bindP (callP (db_set db ''^highest'' [] v)) (passS db) else retP ())))))))"

definition st_tp_gvstatsincr :: "'w shared_db \<Rightarrow> gvstats \<Rightarrow> ('w, unit) prog" where
  "st_tp_gvstatsincr db st =
     bindP (callP (db_incr db ''^reads'' [] (Some (dec_of_int (gv_reads st))))) (\<lambda>(s, v).
     thenP (passS db s)
     (bindP (callP (db_incr db ''^updates'' [] (Some (dec_of_int (gv_updates st))))) (\<lambda>(s, v).
      thenP (passS db s)
      (bindP (highest_gbl db) (\<lambda>h.
       if gv_highest st > h
       then bindP (callP (db_set db ''^highest'' [] (dec_of_int (gv_highest st)))) (passS db)
       else retP ())))))"

section \<open>A child\<close>

text \<open>The system calls that the programs make.\<close>

record 'w tn_env =
  tn_db :: "'w shared_db"
  tn_streams :: int
  tn_getpid :: "'w \<Rightarrow> int \<times> 'w"
  tn_creat :: "string \<Rightarrow> 'w \<Rightarrow> int \<times> 'w"
  tn_dup2 :: "int \<Rightarrow> int \<Rightarrow> 'w \<Rightarrow> int \<times> 'w"
  tn_fork :: "'w \<Rightarrow> int \<times> 'w"
  tn_sleep :: "nat \<Rightarrow> 'w \<Rightarrow> unit \<times> 'w"
  tn_time :: "'w \<Rightarrow> int \<times> 'w"
  tn_waitpid :: "int \<Rightarrow> 'w \<Rightarrow> (int \<times> bool) \<times> 'w"
  tn_create :: "int \<Rightarrow> int \<Rightarrow> 'w \<Rightarrow> (int \<times> int) \<times> 'w"
  tn_join :: "int \<Rightarrow> 'w \<Rightarrow> int \<times> 'w"

definition redirect :: "'w tn_env \<Rightarrow> string \<Rightarrow> int \<Rightarrow> ('w, unit) prog" where
  "redirect E file fd =
     bindP (callP (tn_creat E file)) (\<lambda>outfd.
     thenP (assertP (outfd \<noteq> - 1))
     (bindP (callP (tn_dup2 E outfd fd)) (\<lambda>newfd. assertP (newfd = fd))))"

definition locks :: "'w shared_db \<Rightarrow> string \<Rightarrow> string list \<Rightarrow> ('w, unit) prog" where
  "locks db g ss = bindP (callP (db_lock_incr db g ss)) (okS db)"

definition unlocks :: "'w shared_db \<Rightarrow> string \<Rightarrow> string list \<Rightarrow> ('w, unit) prog" where
  "unlocks db g ss = bindP (callP (db_lock_decr db g ss)) (okS db)"

definition doblk :: "nat \<Rightarrow> 'w tn_env \<Rightarrow> int \<Rightarrow> int \<Rightarrow> ('w, unit) prog" where
  "doblk fuel E allfirst childnum =
     bindP (callP (tn_getpid E)) (\<lambda>pid.
     let db = tn_db E; me = dec_of_int pid
     in seqP
       [redirect E (''simpleapi_threeen1f.mjo'' @ dec_of_int childnum) 1,
        redirect E (''simpleapi_threeen1f.mje'' @ dec_of_int childnum) 2,
        setS db ''reads'' [] (dec_of_int 0),
        setS db ''updates'' [] (dec_of_int 0),
        setS db ''highest'' [] (dec_of_int 0),
        locks db ''l2'' [me],
        thenP (incrS db ''^count'' [] (Some (dec_of_int (- 1)))) (retP ()),
        locks db ''l1'' [me],
        blocks fuel db (\<lambda>first lastn st. dostep fuel db first lastn) allfirst 0 (),
        run_tp db (tp_gvstatsincr db),
        unlocks db ''l1'' [me],
        unlocks db ''l2'' [me]])"

text \<open>A thread; \<open>tid\<close> is the decimal number that \<^verbatim>\<open>gettid\<close> answers in it.\<close>

definition st_doblk :: "nat \<Rightarrow> 'w shared_db \<Rightarrow> string \<Rightarrow> int \<Rightarrow> ('w, unit) prog" where
  "st_doblk fuel db tid allfirst =
     thenP (incrS db ''^count'' [] (Some (dec_of_int (- 1))))
     (bindP (blocks fuel db (st_dostep fuel db tid) allfirst 0 \<lparr>gv_reads = 0, gv_updates = 0, gv_highest = 0\<rparr>) (\<lambda>st.
      run_tp db (st_tp_gvstatsincr db st)))"

section \<open>A line\<close>

definition token_int :: "string \<Rightarrow> c_fault + int \<times> string" where
  "token_int s = (case strtok '' '' s of None \<Rightarrow> Inl Null_deref | Some (t, rest) \<Rightarrow> bindE (int_of (atoi t)) (\<lambda>n. Inr (n, rest)))"

text \<open>The interval, the number of streams and the size of a block, as read and as corrected.\<close>

definition parse_line :: "string \<Rightarrow> c_fault + int \<times> int \<times> int \<times> int" where
  "parse_line s =
     bindE (token_int s) (\<lambda>(i, s). bindE (token_int s) (\<lambda>(j, s). bindE (token_int s) (\<lambda>(k, s).
     bindE (token_int s) (\<lambda>(blk, s). Inr (i, j, k, blk)))))"

definition choose_streams :: "int \<Rightarrow> int \<Rightarrow> int" where
  "choose_streams streams k = (if streams > k then streams else k)"

definition max_block :: "int \<Rightarrow> int \<Rightarrow> int \<Rightarrow> c_fault + int" where
  "max_block i j k = bindE (int_of (j - i)) (\<lambda>d. bindE (int_of (d + k)) (\<lambda>s. c_div s k))"

definition choose_block :: "int \<Rightarrow> int \<Rightarrow> int" where
  "choose_block blk tmp = (if blk \<noteq> 0 \<and> blk \<le> tmp then blk else tmp)"

definition line_text :: "int \<Rightarrow> int \<Rightarrow> int \<Rightarrow> int \<Rightarrow> int \<Rightarrow> int \<Rightarrow> string" where
  "line_text i j k newk blk tmp =
     dec_of_int i @ '' '' @ dec_of_int j @ '' ('' @ dec_of_int k @ ''->'' @ dec_of_int newk @ '')'' @
     (if blk \<noteq> 0 \<and> blk \<le> tmp then '' '' @ dec_of_int blk else '' ('' @ dec_of_int blk @ ''->'' @ dec_of_int tmp @ '')'')"

definition dbinit :: "'w shared_db \<Rightarrow> ('w, unit) prog" where
  "dbinit db =
     seqP (map (\<lambda>g. setS db g [] (dec_of_int 0)) [''^count'', ''^highest'', ''^reads'', ''^result'', ''^step'', ''^updates''])"

text \<open>The seconds from one time to another, converted to an \<^verbatim>\<open>int\<close>; and what is printed of the results.\<close>

definition duration_of :: "int \<Rightarrow> int \<Rightarrow> int" where
  "duration_of startat endat = sint (word_of_int (endat - startat) :: 32 word)"

definition get_text :: "'w shared_db \<Rightarrow> string \<Rightarrow> ('w, string) prog" where
  "get_text db g = bindP (getS db g []) (\<lambda>v. liftP (c_string v))"

definition report :: "'w shared_db \<Rightarrow> int \<Rightarrow> ('w, string) prog" where
  "report db duration =
     bindP (get_text db ''^result'') (\<lambda>result.
     bindP (get_text db ''^highest'') (\<lambda>highest.
     bindP (get_text db ''^updates'') (\<lambda>us.
     bindP (liftP (int_of (atoi us))) (\<lambda>updates.
     bindP (get_text db ''^reads'') (\<lambda>rs.
     bindP (liftP (int_of (atoi rs))) (\<lambda>reads.
     bindP (liftP (if duration \<noteq> 0
       then bindE (c_div updates duration) (\<lambda>u. bindE (c_div reads duration) (\<lambda>r. Inr ('' '' @ dec_of_int u @ '' '' @ dec_of_int r)))
       else Inr [])) (\<lambda>rates.
     retP ('' '' @ result @ '' '' @ highest @ '' '' @ dec_of_int duration @ '' '' @ us @ '' '' @ rs @ rates @ [CHR 0x0A]))))))))"

section \<open>The parent of processes\<close>

text \<open>\<^verbatim>\<open>return\<close> of a child leaves \<^verbatim>\<open>main\<close>.\<close>

fun fork_children :: "nat \<Rightarrow> 'w tn_env \<Rightarrow> int \<Rightarrow> int list \<Rightarrow> ('w, int list) prog" where
  "fork_children fuel E i [] = retP []"
| "fork_children fuel E i (s # ss) =
     thenP (incrS (tn_db E) ''^count'' [] None)
     (bindP (callP (tn_fork E)) (\<lambda>pid.
      thenP (assertP (0 \<le> pid))
      (if pid = 0 then thenP (doblk fuel E i s) (leave (db_ok (tn_db E)))
       else bindP (fork_children fuel E i ss) (\<lambda>pids. retP (pid # pids)))))"

primrec await_start :: "nat \<Rightarrow> 'w tn_env \<Rightarrow> ('w, unit) prog" where
  "await_start 0 E = liftP (Inl Out_of_fuel)"
| "await_start (Suc fuel) E =
     bindP (getS (tn_db E) ''^count'' []) (\<lambda>v.
     bindP (liftP (atoi_of v)) (\<lambda>count.
     if count = 0 then retP () else thenP (callP (tn_sleep E 1)) (await_start fuel E)))"

text \<open>\<^verbatim>\<open>waitpid\<close> answers with whether \<^verbatim>\<open>errno\<close> is \<^verbatim>\<open>EINTR\<close>.\<close>

primrec wait_child :: "nat \<Rightarrow> 'w tn_env \<Rightarrow> int \<Rightarrow> ('w, unit) prog" where
  "wait_child 0 E pid = liftP (Inl Out_of_fuel)"
| "wait_child (Suc fuel) E pid =
     bindP (callP (tn_waitpid E pid)) (\<lambda>(ret, eintr).
     if ret = - 1 \<and> eintr then wait_child fuel E pid else assertP (ret \<noteq> - 1))"

definition run_line :: "nat \<Rightarrow> 'w tn_env \<Rightarrow> string \<Rightarrow> ('w, string) prog" where
  "run_line fuel E s =
     (let db = tn_db E
      in bindP (liftP (parse_line s)) (\<lambda>(i, j, k, blk).
         let newk = choose_streams (tn_streams E) k
         in thenP (assertP (newk \<le> tn_MAXCHILDREN))
         (bindP (liftP (max_block i j newk)) (\<lambda>tmp.
          bindP (liftP (int_of (i - 1))) (\<lambda>before.
          thenP (bindP (callP (db_delete_tree db ''^limits'' [])) (okS db))
          (thenP (define_limits fuel db (choose_block blk tmp) j before 1)
          (thenP (setS db ''^count'' [] (dec_of_int 0))
          (thenP (locks db ''l1'' [])
          (bindP (fork_children fuel E i [1..newk]) (\<lambda>pids.
          thenP (await_start fuel E)
          (thenP (unlocks db ''l1'' [])
          (bindP (callP (tn_time E)) (\<lambda>startat.
          thenP (locks db ''l2'' [])
          (bindP (callP (tn_time E)) (\<lambda>endat.
          let duration = duration_of startat endat
          in bindP (report db duration) (\<lambda>results.
          thenP (unlocks db ''l2'' [])
          (thenP (seqP (map (wait_child fuel E) pids))
          (thenP (dbinit db)
          (retP (line_text i j k newk blk tmp @ results))))))))))))))))))))"

primrec run_lines :: "('a \<Rightarrow> ('w, string) prog) \<Rightarrow> 'a list \<Rightarrow> ('w, string) prog" where
  "run_lines f [] = retP []"
| "run_lines f (s # ss) = bindP (f s) (\<lambda>t. bindP (run_lines f ss) (\<lambda>ts. retP (t @ ts)))"

text \<open>\<^verbatim>\<open>main\<close> on the lines that \<^verbatim>\<open>fgets\<close> reads until the end of the file; the result is what it prints.\<close>

definition tn_main :: "nat \<Rightarrow> 'w tn_env \<Rightarrow> string list \<Rightarrow> ('w, string) prog" where
  "tn_main fuel E lines =
     thenP (digitsinit (tn_db E)) (thenP (assertP (tn_streams E \<noteq> 0)) (run_lines (run_line fuel E) lines))"

section \<open>The parent of threads\<close>

text \<open>The identifiers are stored in an array of \<^verbatim>\<open>MAXTHREADS\<close> cells, from its second on.\<close>

fun create_threads :: "'w tn_env \<Rightarrow> int \<Rightarrow> int list \<Rightarrow> ('w, int list) prog" where
  "create_threads E i [] = retP []"
| "create_threads E i (s # ss) =
     thenP (incrS (tn_db E) ''^count'' [] None)
     (thenP (liftP (if s < tn_MAXCHILDREN then Inr () else Inl Write_oob))
     (bindP (callP (tn_create E i s)) (\<lambda>(status, thread_id).
      thenP (assertP (status = 0))
      (bindP (create_threads E i ss) (\<lambda>ids. retP (thread_id # ids))))))"

definition join_thread :: "'w tn_env \<Rightarrow> int \<Rightarrow> ('w, unit) prog" where
  "join_thread E thread_id = bindP (callP (tn_join E thread_id)) (\<lambda>status. assertP (status = 0))"

definition st_run_line :: "nat \<Rightarrow> 'w tn_env \<Rightarrow> string \<Rightarrow> ('w, string) prog" where
  "st_run_line fuel E s =
     (let db = tn_db E
      in bindP (liftP (parse_line s)) (\<lambda>(i, j, k, blk).
         let newk = choose_streams (tn_streams E) k
         in thenP (assertP (newk \<le> tn_MAXCHILDREN))
         (bindP (liftP (max_block i j newk)) (\<lambda>tmp.
          bindP (liftP (int_of (i - 1))) (\<lambda>before.
          thenP (bindP (callP (db_delete_tree db ''^limits'' [])) (okS db))
          (thenP (define_limits fuel db (choose_block blk tmp) j before 1)
          (thenP (setS db ''^count'' [] (dec_of_int 0))
          (bindP (create_threads E i [1..newk]) (\<lambda>ids.
          bindP (callP (tn_time E)) (\<lambda>startat.
          thenP (seqP (map (join_thread E) ids))
          (bindP (callP (tn_time E)) (\<lambda>endat.
          let duration = duration_of startat endat
          in bindP (report db duration) (\<lambda>results.
          thenP (dbinit db)
          (retP (line_text i j k newk blk tmp @ results)))))))))))))))"

definition st_tn_main :: "nat \<Rightarrow> 'w tn_env \<Rightarrow> string list \<Rightarrow> ('w, string) prog" where
  "st_tn_main fuel E lines =
     thenP (digitsinit (tn_db E)) (thenP (assertP (tn_streams E \<noteq> 0)) (run_lines (st_run_line fuel E) lines))"

text \<open>
  The functions that the threads have word for word, but for entry points, transaction tokens and buffers of their own.
\<close>

definition st_dbinit :: "'w shared_db \<Rightarrow> ('w, unit) prog" where
  "st_dbinit = dbinit"

definition st_digitsinit :: "'w shared_db \<Rightarrow> ('w, unit) prog" where
  "st_digitsinit = digitsinit"

definition st_inttostr :: "'w shared_db \<Rightarrow> int \<Rightarrow> ('w, string) prog" where
  "st_inttostr = inttostr"

definition st_strtoint :: "'w shared_db \<Rightarrow> string \<Rightarrow> ('w, int) prog" where
  "st_strtoint = strtoint"

definition st_tp_setmaximum :: "'w shared_db \<Rightarrow> int \<Rightarrow> ('w, unit) prog" where
  "st_tp_setmaximum = tp_setmaximum"

end
