(* ===== verification/Threen1f_Blocks.thy ===== *)
theory Threen1f_Blocks
  imports Threen1f_Correct Threen1f_Run
begin

text \<open>
  The blocks of the 3n+1 workload: the parent divides the interval, and every block that no other process claims is worked
  through by the process that looks for blocks.
\<close>

section \<open>Dividing the interval\<close>

definition block_end :: "int \<Rightarrow> int \<Rightarrow> int \<Rightarrow> nat \<Rightarrow> int" where
  "block_end i j blk t = min j (i - 1 + int t * blk)"

definition block_count :: "int \<Rightarrow> int \<Rightarrow> int \<Rightarrow> nat" where
  "block_count i j blk = nat ((j - i + blk) div blk)"

definition limits_of :: "nat \<Rightarrow> (nat \<Rightarrow> int) \<Rightarrow> contents \<Rightarrow> bool" where
  "limits_of m lim c \<longleftrightarrow> (\<forall>ss. c (''^limits'', ss) =
     (if \<exists>t. 1 \<le> t \<and> t \<le> m \<and> ss = [dec_of_nat t] then Some (dec_of_int (lim (nat (atoi (hd ss))))) else None))"

text \<open>A world in which the others leave \<^verbatim>\<open>^limits\<close> alone.\<close>

definition limits_alone :: "'w world \<Rightarrow> bool" where
  "limits_alone W \<longleftrightarrow> (\<forall>c c' ss. rely W c c' \<longrightarrow> c' (''^limits'', ss) = c (''^limits'', ss)) \<and>
     (\<forall>c ss v. guar W c (c((''^limits'', ss) \<mapsto> v))) \<and> (\<forall>c. guar W c (without_tree ''^limits'' [] c))"

lemma limits_sees: "limits_alone W \<Longrightarrow> shared_laws db W \<Longrightarrow> sees W w c \<Longrightarrow> c (''^limits'', ss) = view W w (''^limits'', ss)"
  using sees_rely [of db W w c] by (simp add: limits_alone_def)

lemma limits_of_0: "limits_of 0 lim c \<longleftrightarrow> (\<forall>ss. c (''^limits'', ss) = None)"
  by (auto simp: limits_of_def)

lemma limits_of_node: "limits_of m lim c \<Longrightarrow> 1 \<le> t \<Longrightarrow> t \<le> m \<Longrightarrow> c (''^limits'', [dec_of_nat t]) = Some (dec_of_int (lim t))"
  unfolding limits_of_def by (drule spec [of _ "[dec_of_nat t]"]) (auto simp: cstr_simps)

lemma limits_of_Suc:
  assumes "limits_of t lim c" "c' (''^limits'', [dec_of_nat (Suc t)]) = Some (dec_of_int (lim (Suc t)))"
    and "\<And>ss. ss \<noteq> [dec_of_nat (Suc t)] \<Longrightarrow> c' (''^limits'', ss) = c (''^limits'', ss)"
  shows "limits_of (Suc t) lim c'"
  unfolding limits_of_def
proof
  fix ss :: "string list"
  show "c' (''^limits'', ss) =
    (if \<exists>u. 1 \<le> u \<and> u \<le> Suc t \<and> ss = [dec_of_nat u] then Some (dec_of_int (lim (nat (atoi (hd ss))))) else None)"
  proof (cases "ss = [dec_of_nat (Suc t)]")
    case True
    moreover have "nat (atoi (dec_of_nat (Suc t))) = Suc t" unfolding atoi_dec_of_nat by (rule nat_int)
    ultimately show ?thesis using assms(2) by auto
  next
    case False
    then have "(\<exists>u. 1 \<le> u \<and> u \<le> Suc t \<and> ss = [dec_of_nat u]) \<longleftrightarrow> (\<exists>u. 1 \<le> u \<and> u \<le> t \<and> ss = [dec_of_nat u])"
      by (auto simp: le_Suc_eq)
    then show ?thesis using assms(1,3) False unfolding limits_of_def by metis
  qed
qed

lemma block_count_bounds:
  assumes "1 \<le> blk" "i \<le> j + 1"
  shows "int (block_count i j blk) * blk \<ge> j - i + 1" "(int (block_count i j blk) - 1) * blk \<le> j - i"
proof -
  let ?q = "(j - i + blk) div blk"
  have q: "int (block_count i j blk) = ?q" using assms by (simp add: block_count_def pos_imp_zdiv_nonneg_iff)
  have "?q * blk + (j - i + blk) mod blk = j - i + blk" by (rule div_mult_mod_eq)
  moreover have "0 \<le> (j - i + blk) mod blk" "(j - i + blk) mod blk < blk" using assms(1) by simp_all
  ultimately show "int (block_count i j blk) * blk \<ge> j - i + 1" "(int (block_count i j blk) - 1) * blk \<le> j - i"
    unfolding q left_diff_distrib by linarith+
qed

lemma block_end_less:
  assumes "1 \<le> blk" "i \<le> j + 1" "t < block_count i j blk"
  shows "block_end i j blk t = i - 1 + int t * blk" "block_end i j blk t < j"
proof -
  have "int t * blk \<le> (int (block_count i j blk) - 1) * blk" using assms(1,3) by (intro mult_right_mono) simp_all
  then have "i - 1 + int t * blk < j" using block_count_bounds(2) [OF assms(1,2)] by linarith
  then show "block_end i j blk t = i - 1 + int t * blk" "block_end i j blk t < j" by (simp_all add: block_end_def)
qed

lemma block_end_last: "1 \<le> blk \<Longrightarrow> i \<le> j + 1 \<Longrightarrow> block_end i j blk (block_count i j blk) = j"
  using block_count_bounds(1) [of blk i j] by (simp add: block_end_def)

lemma block_end_mono: "1 \<le> blk \<Longrightarrow> t \<le> u \<Longrightarrow> block_end i j blk t \<le> block_end i j blk u"
  using mult_right_mono [of "int t" "int u" blk] unfolding block_end_def by (simp add: min_le_iff_disj min.coboundedI2)

lemma steps_cover:
  fixes e :: "nat \<Rightarrow> int"
  assumes "\<And>t u. t \<le> u \<Longrightarrow> e t \<le> e u"
  shows "e 0 < n \<and> n \<le> e m \<longleftrightarrow> (\<exists>!t. t < m \<and> e t < n \<and> n \<le> e (Suc t))"
proof
  assume n: "e 0 < n \<and> n \<le> e m"
  have "\<exists>t < m. e t < n \<and> n \<le> e (Suc t)" using n
  proof (induction m)
    case (Suc m)
    then show ?case by (cases "n \<le> e m") (auto intro: less_SucI exI [of _ m])
  qed auto
  moreover have "t = u" if "e t < n" "n \<le> e (Suc t)" "e u < n" "n \<le> e (Suc u)" for t u
    using assms [of "Suc t" u] assms [of "Suc u" t] that by (cases t u rule: linorder_cases) auto
  ultimately show "\<exists>!t. t < m \<and> e t < n \<and> n \<le> e (Suc t)" by blast
next
  assume "\<exists>!t. t < m \<and> e t < n \<and> n \<le> e (Suc t)"
  then obtain t where "t < m" "e t < n" "n \<le> e (Suc t)" by blast
  then show "e 0 < n \<and> n \<le> e m" using assms [of 0 t] assms [of "Suc t" m] by auto
qed

lemma wp_define_limits:
  assumes "shared_laws db W" "limits_alone W" "1 \<le> blk" "i \<le> j + 1" "1 \<le> i" "j + blk < 2 ^ 31"
    and "mode W w = Outside" "limits_of t (block_end i j blk) (view W w)" "t \<le> block_count i j blk" "block_count i j blk - t < fuel"
    and "\<And>w'. mode W w' = Outside \<Longrightarrow> limits_of (block_count i j blk) (block_end i j blk) (view W w') \<Longrightarrow> Q () w'"
  shows "wpP (define_limits fuel db blk j (block_end i j blk t) (int t + 1)) Q R w"
  using assms(7-10)
proof (induction fuel arbitrary: t w)
  case (Suc fuel)
  let ?m = "block_count i j blk"
  let ?e = "block_end i j blk"
  show ?case
  proof (cases "t = ?m")
    case True
    then have "?e t = j" using block_end_last [OF assms(3,4)] by simp
    then show ?thesis using assms(11) [OF Suc.prems(1)] Suc.prems(2) True by (simp add: wpP_ret)
  next
    case False
    then have t: "t < ?m" using Suc.prems(3) by simp
    note e = block_end_less [OF assms(3,4) t]
    have next_end: "(if ?e t + blk > j then j else ?e t + blk) = ?e (Suc t)"
      unfolding e(1) by (simp add: block_end_def algebra_simps)
    have "0 \<le> int t * blk" using assms(3) by simp
    then have "1 \<le> ?e t + blk" using e(1) assms(3,5) by linarith
    then have int1: "int_of (?e t + blk) = Inr (?e t + blk)" using e(2) assms(6) by (simp add: int_of_def)
    have "int t * 1 \<le> int t * blk" using assms(3) by (intro mult_left_mono) simp_all
    then have int2: "int_of (int t + 1 + 1) = Inr (int (Suc t) + 1)" using e assms(3,5,6) by (simp add: int_of_def)
    have "wpP (setS db ''^limits'' [dec_of_int (int t + 1)] (dec_of_int (?e (Suc t))))
        (\<lambda>_. wpP (define_limits fuel db blk j (?e (Suc t)) (int (Suc t) + 1)) Q R) R w"
    proof (rule wp_setS [OF assms(1) outside_no_restart [OF Suc.prems(1)]])
      show "allowed W w (\<lambda>c. c((''^limits'', [dec_of_int (int t + 1)]) \<mapsto> dec_of_int (?e (Suc t))))"
        using assms(2) by (simp add: allowed_def limits_alone_def)
      fix c w1 assume w1: "sees W w c" "view W w1 = c((''^limits'', [dec_of_int (int t + 1)]) \<mapsto> dec_of_int (?e (Suc t)))" "mode W w1 = mode W w"
      have node: "[dec_of_int (int t + 1)] = [dec_of_nat (Suc t)]" by (simp add: dec_of_nat_as_int algebra_simps)
      show "wpP (define_limits fuel db blk j (?e (Suc t)) (int (Suc t) + 1)) Q R w1"
      proof (rule Suc.IH)
        show "limits_of (Suc t) ?e (view W w1)"
          by (rule limits_of_Suc [OF Suc.prems(2)]) (use limits_sees [OF assms(2,1) w1(1)] in \<open>simp_all add: w1(2) node\<close>)
      qed (use w1(3) Suc.prems(1,4) t in simp_all)
    qed
    then show ?thesis
      unfolding define_limits.simps int1 int2 Let_def next_end using e(2) by (simp add: wp_simps int1 int2 next_end Let_def)
  qed
qed simp

text \<open>The parent divides the interval into blocks that cover it and do not overlap.\<close>

theorem limits_divide:
  assumes "shared_laws db W" "limits_alone W" "mode W w = Outside"
    and "1 \<le> blk" "i \<le> j + 1" "1 \<le> i" "j + blk < 2 ^ 31" "block_count i j blk < fuel"
  shows "\<exists>w'. thenP (bindP (callP (db_delete_tree db ''^limits'' [])) (okS db)) (define_limits fuel db blk j (i - 1) 1) w = Inr (Inr (), w') \<and>
    limits_of (block_count i j blk) (block_end i j blk) (view W w') \<and>
    (\<forall>n. i \<le> n \<and> n \<le> j \<longleftrightarrow> (\<exists>!t. t < block_count i j blk \<and> block_end i j blk t < n \<and> n \<le> block_end i j blk (Suc t)))"
proof -
  let ?m = "block_count i j blk"
  let ?e = "block_end i j blk"
  let ?Q = "\<lambda>_ w'. limits_of ?m ?e (view W w')"
  have e0: "?e 0 = i - 1" using assms(5) by (simp add: block_end_def)
  have "wpP (bindP (callP (db_delete_tree db ''^limits'' [])) (okS db))
      (\<lambda>_. wpP (define_limits fuel db blk j (i - 1) 1) ?Q (\<lambda>_ _. False)) (\<lambda>_ _. False) w"
    unfolding wpP_bind
  proof (rule wp_db_delete [OF assms(1)])
    show "allowed W w (without_tree ''^limits'' [])" using assms(2) by (simp add: allowed_def limits_alone_def)
    fix c w1 assume w1: "view W w1 = without_tree ''^limits'' [] c" "mode W w1 = mode W w"
    have "wpP (define_limits fuel db blk j (?e 0) (int 0 + 1)) ?Q (\<lambda>_ _. False) w1"
      by (rule wp_define_limits [OF assms(1,2,4,5)]) (use assms(3,6-8) w1 in \<open>simp_all add: limits_of_0 without_tree_def\<close>)
    then show "wpP (okS db (db_ok db)) (\<lambda>_. wpP (define_limits fuel db blk j (i - 1) 1) ?Q (\<lambda>_ _. False)) (\<lambda>_ _. False) w1"
      by (simp add: okS_def wp_simps e0)
  qed (use outside_no_restart [OF assms(3)] in simp)
  then have "wpP (thenP (bindP (callP (db_delete_tree db ''^limits'' [])) (okS db)) (define_limits fuel db blk j (i - 1) 1)) ?Q (\<lambda>_ _. False) w"
    by (simp only: wpP_then)
  then obtain w' where w': "thenP (bindP (callP (db_delete_tree db ''^limits'' [])) (okS db)) (define_limits fuel db blk j (i - 1) 1) w = Inr (Inr (), w')"
    "limits_of ?m ?e (view W w')" by (auto elim: wpP_total)
  have "i \<le> n \<and> n \<le> j \<longleftrightarrow> (\<exists>!t. t < ?m \<and> ?e t < n \<and> n \<le> ?e (Suc t))" for n
    using steps_cover [of ?e n ?m, OF block_end_mono [OF assms(4)]] e0 block_end_last [OF assms(4,5)]
    by (metis zle_diff1_eq linorder_not_less)
  with w' show ?thesis by blast
qed

theorem limits_divide_witness:
  "\<exists>w'. thenP (bindP (callP (db_delete_tree solo_db ''^limits'' [])) (okS solo_db)) (define_limits 3 solo_db 2 3 (1 - 1) 1) (Map.empty, Outside) = Inr (Inr (), w') \<and>
     limits_of (block_count 1 3 2) (block_end 1 3 2) (view solo_world w')"
proof -
  have "limits_alone solo_world" by (simp add: limits_alone_def)
  moreover have "mode solo_world (Map.empty, Outside) = Outside" by simp
  moreover have "(1 :: int) \<le> 2" "(1 :: int) \<le> 3 + 1" "(1 :: int) \<le> 1" "(3 :: int) + 2 < 2 ^ 31" "block_count 1 3 2 < 3" by (simp_all add: block_count_def)
  ultimately show ?thesis using limits_divide [OF solo_laws, of "(Map.empty, Outside)" 2 1 3 3] by blast
qed

end
