(* ===== verification/Threen1f_Claims.thy ===== *)
theory Threen1f_Claims
  imports Threen1f_Blocks
begin

text \<open>
  The loop in which a process or thread looks for blocks.  The blocks in \<open>A\<close> are those that others may claim too; every other
  block is worked through by this process.
\<close>

section \<open>Claims\<close>

definition claim :: "nat \<Rightarrow> node" where
  "claim t = (''^limits'', [dec_of_int (int t), dec_of_int 1])"

text \<open>The ends of the blocks, and a count at a block that an \<^verbatim>\<open>int\<close> holds after one more.\<close>

definition bounds :: "nat \<Rightarrow> (nat \<Rightarrow> int) \<Rightarrow> contents \<Rightarrow> bool" where
  "bounds m lim c \<longleftrightarrow> (\<forall>t. 1 \<le> t \<and> t \<le> m \<longrightarrow> c (''^limits'', [dec_of_int (int t)]) = Some (dec_of_int (lim t))) \<and>
     (\<forall>ss. c (''^limits'', dec_of_int (int (Suc m)) # ss) = None) \<and> c (''^limits'', [dec_of_int 0]) = None"

definition claimable :: "contents \<Rightarrow> nat \<Rightarrow> bool" where
  "claimable c t \<longleftrightarrow> (\<exists>q. holds_int c (claim t) q \<and> 0 \<le> q \<and> q < 2 ^ 31 - 1)"

definition claim_world :: "nat set \<Rightarrow> nat \<Rightarrow> (nat \<Rightarrow> int) \<Rightarrow> 'w world \<Rightarrow> bool" where
  "claim_world A m lim W \<longleftrightarrow>
     (\<forall>c c'. rely W c c' \<longrightarrow> (bounds m lim c \<longrightarrow> bounds m lim c') \<and> (\<forall>t. claimable c t \<longrightarrow> claimable c' t) \<and>
        (\<forall>t. t \<notin> A \<longrightarrow> c' (claim t) = c (claim t))) \<and>
     (\<forall>c t q. holds_int c (claim t) q \<longrightarrow> 0 \<le> q \<longrightarrow> q < 2 ^ 31 - 1 \<longrightarrow> guar W c (c(claim t \<mapsto> dec_of_int (q + 1))))"

text \<open>
  Why a process may rely on counts that an \<^verbatim>\<open>int\<close> holds: \<open>n\<close> processes, fewer than \<open>2 ^ 31 - 1\<close>, count in any order,
  each at most once at each of the blocks \<open>1\<close> to \<open>m\<close>.  Beside the contents a state of them all has the processes that have counted at a block.
\<close>

type_synonym counted = "contents \<times> (nat \<Rightarrow> nat set)"

inductive counts :: "nat \<Rightarrow> nat \<Rightarrow> counted \<Rightarrow> counted \<Rightarrow> bool" for n m where
  counts_refl: "counts n m s s"
| counts_step: "counts n m s (c, D) \<Longrightarrow> p < n \<Longrightarrow> p \<notin> D t \<Longrightarrow> 1 \<le> t \<Longrightarrow> t \<le> m \<Longrightarrow> holds_int c (claim t) q \<Longrightarrow>
    counts n m s (c(claim t \<mapsto> dec_of_int (q + 1)), D(t := insert p (D t)))"

definition counts_right :: "nat \<Rightarrow> counted \<Rightarrow> bool" where
  "counts_right n = (\<lambda>(c, D). \<forall>t. D t \<subseteq> {..<n} \<and> holds_int c (claim t) (int (card (D t))))"

text \<open>All blocks behind \<open>t\<close> are still to be looked at.\<close>

definition ready :: "nat set \<Rightarrow> nat \<Rightarrow> (nat \<Rightarrow> int) \<Rightarrow> nat \<Rightarrow> contents \<Rightarrow> bool" where
  "ready A m lim t c \<longleftrightarrow> bounds m lim c \<and> (\<forall>u. t < u \<longrightarrow> u \<le> m \<longrightarrow> claimable c u \<and> (u \<notin> A \<longrightarrow> c (claim u) = None))"

lemma claim_inject [simp]: "claim t = claim u \<longleftrightarrow> t = u"
  by (simp add: claim_def)

lemma counts_right_step:
  assumes "counts_right n (c, D)" "p < n" "p \<notin> D t" "holds_int c (claim t) q"
  shows "counts_right n (c(claim t \<mapsto> dec_of_int (q + 1)), D(t := insert p (D t)))"
proof -
  have "finite (D t)" using assms(1) finite_subset [of "D t" "{..<n}"] by (simp add: counts_right_def)
  moreover have "q = int (card (D t))" using assms(1,4) holds_int_unique by (auto simp: counts_right_def)
  moreover have "holds_int (c(claim t \<mapsto> v)) (claim u) k \<longleftrightarrow> (if u = t then v = dec_of_int k else holds_int c (claim u) k)" for u v k
    by (simp add: holds_int_def)
  ultimately show ?thesis using assms by (simp add: counts_right_def)
qed

text \<open>No block is counted at too often, the ends of the blocks stay, and a process that reads one is the only one that counted.\<close>

lemma counts_stay_claimable:
  assumes "counts n m s s'" "counts_right n s" "int n < 2 ^ 31 - 1"
  shows "counts_right n s'" "claimable (fst s') t" "bounds m lim (fst s) \<Longrightarrow> bounds m lim (fst s')"
    "holds_int (fst s') (claim t) 1 \<longleftrightarrow> (\<exists>p. snd s' t = {p})"
proof -
  have *: "counts_right n s' \<and> (bounds m lim (fst s) \<longrightarrow> bounds m lim (fst s'))"
    using assms(1,2)
  proof induction
    case (counts_step s c D p t q)
    then show ?case using counts_right_step [of n c D p t q] by (auto simp: bounds_def claim_def)
  qed simp
  then show r: "counts_right n s'" and "bounds m lim (fst s) \<Longrightarrow> bounds m lim (fst s')" by simp_all
  have h: "holds_int (fst s') (claim t) (int (card (snd s' t)))" and sub: "snd s' t \<subseteq> {..<n}"
    using r by (auto simp: counts_right_def split: prod.splits)
  have "card (snd s' t) \<le> n" using card_mono [OF _ sub] by simp
  then show "claimable (fst s') t" using h assms(3) unfolding claimable_def by (intro exI [of _ "int (card (snd s' t))"]) simp
  show "holds_int (fst s') (claim t) 1 \<longleftrightarrow> (\<exists>p. snd s' t = {p})"
  proof
    assume "holds_int (fst s') (claim t) 1"
    then have "int (card (snd s' t)) = 1" by (rule holds_int_unique [OF h])
    then have "card (snd s' t) = 1" by simp
    then show "\<exists>p. snd s' t = {p}" by (rule card_1_singletonE) blast
  qed (use h in auto)
qed

lemma ready_unspoilt:
  assumes "claim_world A m lim W"
  shows "unspoilt W (ready A m lim t)"
  unfolding unspoilt_def
proof (intro conjI allI impI)
  fix c c' assume "rely W c c'" "ready A m lim t c"
  then show "ready A m lim t c'" using assms unfolding claim_world_def ready_def by metis
next
  fix c c' :: contents
  assume "\<forall>g ss. is_global g \<longrightarrow> g \<notin> {''^step'', ''^result''} \<longrightarrow> c' (g, ss) = c (g, ss)" "ready A m lim t c"
  moreover from this(1) have "c' (''^limits'', ss) = c (''^limits'', ss)" for ss by (simp add: is_global_def)
  ultimately show "ready A m lim t c'" by (simp add: ready_def bounds_def claimable_def claim_def holds_int_def)
qed

lemma ready_end: "ready A m lim t c \<Longrightarrow> 1 \<le> u \<Longrightarrow> u \<le> m \<Longrightarrow> c (''^limits'', [dec_of_int (int u)]) = Some (dec_of_int (lim u))"
  by (simp add: ready_def bounds_def)

lemma ready_rely: "claim_world A m lim W \<Longrightarrow> rely W c c' \<Longrightarrow> ready A m lim t c \<Longrightarrow> ready A m lim t c'"
  using ready_unspoilt [of A m lim W t] unfolding unspoilt_def by blast

lemma ready_moved: "claim_world A m lim W \<Longrightarrow> moved W lo hi V w w' \<Longrightarrow> ready A m lim t (view W w) \<Longrightarrow> ready A m lim t (view W w')"
  using moved_kept [OF _ ready_unspoilt] .

lemma ready_claim: "ready A m lim t c \<Longrightarrow> t < m \<Longrightarrow> ready A m lim (Suc t) (c(claim (Suc t) \<mapsto> x))"
proof -
  assume r: "ready A m lim t c" "t < m"
  let ?c = "c(claim (Suc t) \<mapsto> x)"
  have other: "?c (claim u) = c (claim u)" if "Suc t < u" for u using that by simp
  then have "claimable ?c u \<longleftrightarrow> claimable c u" if "Suc t < u" for u using that by (simp add: claimable_def holds_int_def)
  moreover have "bounds m lim ?c" using r by (auto simp: ready_def bounds_def claim_def)
  ultimately show ?thesis using r(1) other by (simp add: ready_def)
qed

section \<open>The loop\<close>

lemma known_step: "known lo hi n c \<Longrightarrow> tn_step lo hi c c' \<Longrightarrow> known lo hi n c'"
  unfolding known_def tn_step_def by (meson order_trans)

text \<open>Ends of blocks that the integers hold, of an interval of tame numbers.\<close>

definition ends_fit :: "nat \<Rightarrow> int \<Rightarrow> int \<Rightarrow> nat \<Rightarrow> (nat \<Rightarrow> int) \<Rightarrow> bool" where
  "ends_fit K lo hi m lim \<longleftrightarrow> 1 \<le> lo \<and> hi < 2 ^ 31 - 1 \<and> int m < 2 ^ 31 - 1 \<and> int K \<le> 2 ^ 31 \<and>
     lo \<le> lim 0 + 1 \<and> lim m \<le> hi \<and> (\<forall>t u. t \<le> u \<longrightarrow> lim t \<le> lim u) \<and> (\<forall>n. lim 0 < n \<longrightarrow> n \<le> lim m \<longrightarrow> tame K n)"

lemma ends_fit_range:
  assumes "ends_fit K lo hi m lim" "t \<le> m"
  shows "0 \<le> lim t" "lim t < 2 ^ 31 - 1" "lo \<le> lim t + 1" "lim t \<le> hi"
proof -
  have "lim 0 \<le> lim t" "lim t \<le> lim m" "1 \<le> lo" "hi < 2 ^ 31 - 1" "lo \<le> lim 0 + 1" "lim m \<le> hi"
    using assms by (simp_all add: ends_fit_def)
  then show "0 \<le> lim t" "lim t < 2 ^ 31 - 1" "lo \<le> lim t + 1" "lim t \<le> hi" by linarith+
qed

lemma wp_block_first:
  assumes "shared_laws db W" "tn_world lo hi W" "claim_world A m lim W" "ends_fit K lo hi m lim"
    and "mode W w = Outside" "ready A m lim u (view W w)" "t \<le> m"
    and "\<And>w'. moved W lo hi {} w w' \<Longrightarrow> Q (lim t + 1) w'"
  shows "wpP (block_first db (lim 0 + 1) (int (Suc t))) Q R w"
proof -
  note st = shared_statuses [OF assms(1)]
  note range = ends_fit_range [OF assms(4,7)]
  have ints: "atoi_of (dec_of_int (lim t)) = Inr (lim t)" "int_of (lim t + 1) = Inr (lim t + 1)"
    using range(1,2) by (simp_all add: atoi_dec int_of_def)
  have fits: "length (dec_of_int (lim t)) \<le> tn_MAXVALUELEN" using dec_fits_value [of "lim t"] range(1,2) by simp
  have to: "moved W lo hi {} w w1" if "sees W w (view W w1)" "mode W w1 = mode W w" for w1
    by (rule later_outside_moved [OF assms(2,5) that])
  have node: "view W w1 (''^limits'', [dec_of_int (int t)]) = (if t = 0 then None else Some (dec_of_int (lim t)))"
    if "moved W lo hi {} w w1" for w1
    using ready_moved [OF assms(3) that assms(6)] assms(7) by (auto simp: ready_def bounds_def)
  have sub: "int (Suc t) - 1 = int t" by simp
  let ?rest = "\<lambda>(s, v). if s \<noteq> db_gvundef db
    then thenP (okS db s) (bindP (liftP (atoi_of v)) (\<lambda>cnt. liftP (int_of (cnt + 1)))) else retP (lim 0 + 1)"
  have "wpP (callP (db_get db ''^limits'' [dec_of_int (int t)] tn_MAXVALUELEN)) (\<lambda>x. wpP (?rest x) Q R) R w"
  proof (rule wp_db_get [OF assms(1)])
    fix v w1 assume w1: "sees W w (view W w1)" "mode W w1 = mode W w" "view W w1 (''^limits'', [dec_of_int (int t)]) = Some v"
    then have "v = dec_of_int (lim t)" using node [OF to [OF w1(1,2)]] by (auto split: if_splits)
    then show "wpP (?rest (db_ok db, v)) Q R w1" using st(2) assms(8) [OF to [OF w1(1,2)]] by (simp add: okS_def wp_simps ints)
  next
    fix w1 assume w1: "sees W w (view W w1)" "mode W w1 = mode W w"
    show "view W w1 (''^limits'', [dec_of_int (int t)]) \<noteq> None \<and> length (the (view W w1 (''^limits'', [dec_of_int (int t)]))) \<le> tn_MAXVALUELEN \<or>
        view W w1 (''^limits'', [dec_of_int (int t)]) = None \<and> is_global ''^limits''"
      using node [OF to [OF w1]] fits by (auto simp: is_global_def)
  next
    fix x w1 assume w1: "sees W w (view W w1)" "mode W w1 = mode W w" "view W w1 (''^limits'', [dec_of_int (int t)]) = None"
    then have "t = 0" using node [OF to [OF w1(1,2)]] by (auto split: if_splits)
    then show "wpP (?rest (db_gvundef db, x)) Q R w1" using assms(8) [OF to [OF w1(1,2)]] by (simp add: wp_simps)
  qed (use outside_no_restart [OF assms(5)] in simp)
  then show ?thesis unfolding block_first_def wpP_bind sub .
qed

context tn_counters begin

text \<open>Counting at a block, and working through it where the count is the first.\<close>

lemma wp_claim_block:
  assumes "shared_laws db W" "tn_world lo hi W" "claim_world A m lim W" "ends_fit K lo hi m lim" "K \<le> fuel" "t < m"
    and "mode W w = Outside" "has_digits (view W w)" "good lo hi (view W w)" "ready A m lim t (view W w)"
    and "room (nat (lim (Suc t) - lim t) * (2 * K) + b) st (view W w)"
    and "\<And>st' w'. mode W w' = Outside \<Longrightarrow> has_digits (view W w') \<Longrightarrow> tn_step lo hi (view W w) (view W w') \<Longrightarrow>
      ready A m lim (Suc t) (view W w') \<Longrightarrow> room b st' (view W w') \<Longrightarrow>
      (Suc t \<notin> A \<longrightarrow> (\<forall>n. lim t < n \<longrightarrow> n \<le> lim (Suc t) \<longrightarrow> known lo hi n (view W w'))) \<Longrightarrow> Q st' w'"
  shows "wpP (claim_block db (dostep_loop fuel db (C db)) (lim 0 + 1) (int (Suc t)) st) Q R w"
proof -
  let ?k = "claim (Suc t)"
  let ?V = "insert (path_var (C db)) vars"
  have V: "?V \<inter> {''di'', ''ds''} = {}" using vars_apart path_apart by auto
  note range = ends_fit_range [OF assms(4)]
  have tame: "\<forall>n. lim t + 1 \<le> n \<longrightarrow> n \<le> lim (Suc t) \<longrightarrow> tame K n"
    using assms(4,6) unfolding ends_fit_def by (metis Suc_leI le0 less_imp_le order.strict_trans2 order_trans zless_add1_eq zle_add1_eq_le linorder_not_le)
  have K: "int K \<le> 2 ^ 31" using assms(4) by (simp add: ends_fit_def)
  have ints: "atoi_of (dec_of_int (lim (Suc t))) = Inr (lim (Suc t))" "length (dec_of_int (lim (Suc t))) \<le> tn_MAXVALUELEN"
    using range(1,2) [of "Suc t"] assms(6) dec_fits_value [of "lim (Suc t)"] by (simp_all add: atoi_dec)
  let ?go = "\<lambda>v. bindP (liftP (atoi_of v)) (\<lambda>cnt. if cnt \<noteq> 1 then retP st
    else bindP (block_first db (lim 0 + 1) (int (Suc t))) (\<lambda>first. bindP (getS db ''^limits'' [dec_of_int (int (Suc t))]) (\<lambda>v.
      bindP (liftP (atoi_of v)) (\<lambda>lastn. dostep_loop fuel db (C db) first lastn st))))"
  have work: "wpP (bindP (block_first db (lim 0 + 1) (int (Suc t))) (\<lambda>first. bindP (getS db ''^limits'' [dec_of_int (int (Suc t))]) (\<lambda>v.
      bindP (liftP (atoi_of v)) (\<lambda>lastn. dostep_loop fuel db (C db) first lastn st)))) Q R w1"
    if w1: "mode W w1 = Outside" "has_digits (view W w1)" "tn_step lo hi (view W w) (view W w1)" "ready A m lim (Suc t) (view W w1)"
      "room (nat (lim (Suc t) - lim t) * (2 * K) + b) st (view W w1)" for w1
    unfolding wpP_bind
  proof (rule wp_block_first [OF assms(1-4) w1(1,4)])
    fix w2 assume w2: "moved W lo hi {} w1 w2"
    have "mode W w2 = Outside" using w2 by (simp add: moved_def)
    then show "wpP (getS db ''^limits'' [dec_of_int (int (Suc t))]) (\<lambda>v. wpP (liftP (atoi_of v)) (\<lambda>lastn. wpP
        (dostep_loop fuel db (C db) (lim t + 1) lastn st) Q R) R) R w2"
    proof (rule wp_getS [OF assms(1) outside_no_restart])
      fix w3 assume "later W w2 w3"
      then have w3: "moved W lo hi {} w1 w3"
        using later_moved [OF assms(2)] moved_trans [OF w2] \<open>mode W w2 = Outside\<close> by blast
      have node: "view W w3 (''^limits'', [dec_of_int (int (Suc t))]) = Some (dec_of_int (lim (Suc t)))"
        by (rule ready_end [OF ready_moved [OF assms(3) w3 w1(4)]]) (use assms(6) in simp_all)
      have "wpP (dostep_loop fuel db (C db) (lim t + 1) (lim (Suc t)) st) Q R w3"
      proof (rule wp_dostep_loop [OF assms(1,2) _ _ tame K assms(5)])
        show "lo \<le> lim t + 1" "lim (Suc t) \<le> hi" using range(3) [of t] range(4) [of "Suc t"] assms(6) by simp_all
        show "mode W w3 = Outside" using w3 by (simp add: moved_def)
        show "has_digits (view W w3)" by (rule moved_digits [OF w3 w1(2)]) simp
        have "good lo hi (view W w1)" using w1(3) assms(9) by (simp add: tn_step_def)
        then show "good lo hi (view W w3)" by (rule moved_good [OF w3])
        show "room (nat (lim (Suc t) + 1 - (lim t + 1)) * (2 * K) + b) st (view W w3)" using room_moved [OF w1(5) w3] by simp
        fix st4 w4 assume w4: "moved W lo hi ?V w3 w4" "room b st4 (view W w4)"
          "\<forall>n. lim t + 1 \<le> n \<longrightarrow> n \<le> lim (Suc t) \<longrightarrow> known lo hi n (view W w4)"
        have to4: "moved W lo hi ?V w1 w4" by (rule moved_trans [OF moved_mono [OF w3] w4(1)]) simp
        show "Q st4 w4"
        proof (rule assms(12) [OF _ _ _ _ w4(2)])
          show "mode W w4 = Outside" using w4(1) by (simp add: moved_def)
          show "has_digits (view W w4)" by (rule moved_digits [OF to4 w1(2) V])
          show "tn_step lo hi (view W w) (view W w4)" using tn_step_trans [OF w1(3)] to4 by (simp add: moved_def)
          show "ready A m lim (Suc t) (view W w4)" by (rule ready_moved [OF assms(3) to4 w1(4)])
        qed (use w4(3) in auto)
      qed
      then show "\<exists>v. view W w3 (''^limits'', [dec_of_int (int (Suc t))]) = Some v \<and> length v \<le> tn_MAXVALUELEN \<and>
          wpP (liftP (atoi_of v)) (\<lambda>lastn. wpP (dostep_loop fuel db (C db) (lim t + 1) lastn st) Q R) R w3"
        using node ints by (simp add: wpP_lift)
    qed
  qed (use assms(6) in simp)
  have "wpP (callP (db_incr db ''^limits'' [dec_of_int (int (Suc t)), dec_of_int 1] None))
      (\<lambda>x. wpP (case x of (s, v) \<Rightarrow> thenP (okS db s) (retP v)) (\<lambda>v. wpP (?go v) Q R) R) R w"
  proof (rule wp_db_incr [OF assms(1)])
    have one: "increment None = 1" by (simp add: increment_def)
    have seen: "ready A m lim t c" if "sees W w c" for c
      by (rule ready_rely [OF assms(3) sees_rely [OF assms(1) that] assms(10)])
    fix c assume c: "sees W w c"
    obtain q where q: "holds_int c ?k q" "0 \<le> q" "q < 2 ^ 31 - 1"
      using seen [OF c] assms(6) unfolding ready_def claimable_def by fastforce
    have "guar W c (c(?k \<mapsto> dec_of_int (q + 1)))" using assms(3) q by (simp add: claim_world_def)
    then show "\<exists>q. holds_int c (''^limits'', [dec_of_int (int (Suc t)), dec_of_int 1]) q \<and> \<bar>q + increment None\<bar> < 10 ^ 18 \<and>
        (mode W w = Outside \<longrightarrow> guar W c (c((''^limits'', [dec_of_int (int (Suc t)), dec_of_int 1]) \<mapsto> dec_of_int (q + increment None))))"
      using q by (intro exI [of _ q]) (simp add: one claim_def)
    fix q' w1 assume w1: "holds_int c (''^limits'', [dec_of_int (int (Suc t)), dec_of_int 1]) q'"
      "view W w1 = c((''^limits'', [dec_of_int (int (Suc t)), dec_of_int 1]) \<mapsto> dec_of_int (q' + increment None))" "mode W w1 = mode W w"
    have "q' = q" by (rule holds_int_unique [OF w1(1)]) (use q(1) in \<open>simp add: claim_def\<close>)
    then have v1: "view W w1 = c(?k \<mapsto> dec_of_int (q + 1))" using w1(2) by (simp add: one claim_def)
    have o1: "mode W w1 = Outside" using w1(3) assms(7) by simp
    have local: "view W w1 (g, ss) = view W w (g, ss)" if "\<not> is_global g" for g ss
      using sees_local [OF c that] that by (auto simp: v1 claim_def is_global_def)
    have dig: "has_digits (view W w1)"
      using assms(8) local [of "''di''"] local [of "''ds''"] by (simp add: has_digits_def is_global_def)
    have "tn_step lo hi c (view W w1)" unfolding v1 claim_def by (rule tn_step_set_other) simp
    then have step: "tn_step lo hi (view W w) (view W w1)"
      using tn_step_trans sees_rely [OF assms(1) c] assms(2) unfolding tn_world_def by blast
    have rdy: "ready A m lim (Suc t) (view W w1)" unfolding v1 by (rule ready_claim [OF seen [OF c] assms(6)])
    have room1: "room (nat (lim (Suc t) - lim t) * (2 * K) + b) st (view W w1)"
      by (rule room_kept [OF assms(11)]) (use local vars_local in blast)
    have first: "q = 0" if "Suc t \<notin> A"
      using seen [OF c] assms(6) that q(1) unfolding ready_def holds_int_def by auto
    have "wpP (?go (dec_of_int (q + 1))) Q R w1"
    proof (cases "q = 0")
      case True
      then show ?thesis using work [OF o1 dig step rdy room1] atoi_dec [of 1] by (simp add: wpP_bind wpP_lift)
    next
      case False
      have "Q st w1" by (rule assms(12) [OF o1 dig step rdy room_less [OF room1]]) (use False first in auto)
      then show ?thesis using False atoi_dec [of "q + 1"] q(2,3) by (simp add: wp_simps)
    qed
    then show "wpP (case (db_ok db, dec_of_int (q' + increment None)) of (s, v) \<Rightarrow> thenP (okS db s) (retP v)) (\<lambda>v. wpP (?go v) Q R) R w1"
      using \<open>q' = q\<close> by (simp only: one prod.case okS_def wpP_then wpP_assert wpP_ret simp_thms)
  qed (use outside_no_restart [OF assms(7)] in simp)
  then show ?thesis unfolding claim_block_def incrS_def wpP_bind .
qed

text \<open>All blocks from the one after \<open>t\<close> on.\<close>

lemma wp_blocks:
  assumes "shared_laws db W" "tn_world lo hi W" "claim_world A m lim W" "ends_fit K lo hi m lim" "K \<le> fuel'"
    and "mode W w = Outside" "has_digits (view W w)" "good lo hi (view W w)" "ready A m lim t (view W w)" "t \<le> m" "m - t < fuel"
    and "room (nat (lim m - lim t) * (2 * K) + b) st (view W w)"
    and "\<And>st' w'. mode W w' = Outside \<Longrightarrow> has_digits (view W w') \<Longrightarrow> tn_step lo hi (view W w) (view W w') \<Longrightarrow> room b st' (view W w') \<Longrightarrow>
      (\<forall>u n. t < u \<longrightarrow> u \<le> m \<longrightarrow> u \<notin> A \<longrightarrow> lim (u - 1) < n \<longrightarrow> n \<le> lim u \<longrightarrow> known lo hi n (view W w')) \<Longrightarrow> Q st' w'"
  shows "wpP (blocks fuel db (dostep_loop fuel' db (C db)) (lim 0 + 1) (int t) st) Q R w"
  using assms(6-13)
proof (induction fuel arbitrary: t st w)
  case (Suc fuel)
  have next_int: "int_of (int t + 1) = Inr (int (Suc t))" using Suc.prems(5) assms(4) by (simp add: int_of_def ends_fit_def)
  let ?step = "dostep_loop fuel' db (C db)"
  let ?rest = "\<lambda>(s, d :: int). thenP (okS db s) (if d = 0 then retP st
    else bindP (claim_block db ?step (lim 0 + 1) (int (Suc t)) st) (\<lambda>st1. blocks fuel db ?step (lim 0 + 1) (int (Suc t)) st1))"
  have "wpP (callP (db_data db ''^limits'' [dec_of_int (int (Suc t))])) (\<lambda>x. wpP (?rest x) Q R) R w"
  proof (rule wp_db_data [OF assms(1)])
    fix d :: int and w1
    assume l: "sees W w (view W w1)" "mode W w1 = mode W w" "(d = 0) = (\<forall>ss'. view W w1 (''^limits'', [dec_of_int (int (Suc t))] @ ss') = None)"
    have w1: "moved W lo hi {} w w1" by (rule later_outside_moved [OF assms(2) Suc.prems(1) l(1,2)])
    have r1: "ready A m lim t (view W w1)" by (rule ready_moved [OF assms(3) w1 Suc.prems(4)])
    have o1: "mode W w1 = Outside" using w1 by (simp add: moved_def)
    have d1: "has_digits (view W w1)" by (rule moved_digits [OF w1 Suc.prems(2)]) simp
    have g1: "good lo hi (view W w1)" by (rule moved_good [OF w1 Suc.prems(3)])
    have s1: "tn_step lo hi (view W w) (view W w1)" using w1 by (simp add: moved_def)
    have room1: "room (nat (lim m - lim t) * (2 * K) + b) st (view W w1)" using room_moved [OF Suc.prems(7) w1] by simp
    show "wpP (?rest (db_ok db, d)) Q R w1"
    proof (cases "t = m")
      case True
      then have "d = 0" using l(3) r1 by (simp add: ready_def bounds_def)
      moreover have "Q st w1" by (rule Suc.prems(8) [OF o1 d1 s1 room_less [OF room1]]) (use True in simp_all)
      ultimately show ?thesis by (simp add: okS_def wp_simps)
    next
      case False
      then have t: "t < m" using Suc.prems(5) by simp
      have "view W w1 (''^limits'', [dec_of_int (int (Suc t))] @ []) \<noteq> None" using ready_end [OF r1, of "Suc t"] t by simp
      then have d: "d \<noteq> 0" using l(3) by metis
      have lims: "lim t \<le> lim (Suc t)" "lim (Suc t) \<le> lim m" using assms(4) t by (simp_all add: ends_fit_def)
      then have "nat (lim m - lim t) = nat (lim (Suc t) - lim t) + nat (lim m - lim (Suc t))" by simp
      then have room2: "room (nat (lim (Suc t) - lim t) * (2 * K) + (nat (lim m - lim (Suc t)) * (2 * K) + b)) st (view W w1)"
        using room1 by (simp add: distrib_right add.assoc)
      have "wpP (claim_block db ?step (lim 0 + 1) (int (Suc t)) st)
          (\<lambda>st1. wpP (blocks fuel db ?step (lim 0 + 1) (int (Suc t)) st1) Q R) R w1"
      proof (rule wp_claim_block [OF assms(1-5) t o1 d1 g1 r1 room2])
        fix st2 w2 assume w2: "mode W w2 = Outside" "has_digits (view W w2)" "tn_step lo hi (view W w1) (view W w2)"
          "ready A m lim (Suc t) (view W w2)" "room (nat (lim m - lim (Suc t)) * (2 * K) + b) st2 (view W w2)"
          "Suc t \<notin> A \<longrightarrow> (\<forall>n. lim t < n \<longrightarrow> n \<le> lim (Suc t) \<longrightarrow> known lo hi n (view W w2))"
        have s2: "tn_step lo hi (view W w) (view W w2)" by (rule tn_step_trans [OF s1 w2(3)])
        have g2: "good lo hi (view W w2)" using w2(3) g1 by (simp add: tn_step_def)
        show "wpP (blocks fuel db ?step (lim 0 + 1) (int (Suc t)) st2) Q R w2"
        proof (rule Suc.IH [OF w2(1,2) g2 w2(4) _ _ w2(5)])
          fix st3 w3 assume w3: "mode W w3 = Outside" "has_digits (view W w3)" "tn_step lo hi (view W w2) (view W w3)" "room b st3 (view W w3)"
            "\<forall>u n. Suc t < u \<longrightarrow> u \<le> m \<longrightarrow> u \<notin> A \<longrightarrow> lim (u - 1) < n \<longrightarrow> n \<le> lim u \<longrightarrow> known lo hi n (view W w3)"
          have "known lo hi n (view W w3)" if "t < u" "u \<le> m" "u \<notin> A" "lim (u - 1) < n" "n \<le> lim u" for u n
          proof (cases "u = Suc t")
            case True
            then show ?thesis using that w2(6) known_step [OF _ w3(3)] by simp
          next
            case False
            then have "Suc t < u" using that(1) by simp
            then show ?thesis using w3(5) that by blast
          qed
          then show "Q st3 w3" using Suc.prems(8) [OF w3(1,2) tn_step_trans [OF s2 w3(3)] w3(4)] by blast
        qed (use t Suc.prems(6) in simp_all)
      qed
      then show ?thesis using d by (simp only: prod.case okS_def wpP_then wpP_assert wpP_bind if_False simp_thms)
    qed
  qed (use outside_no_restart [OF Suc.prems(1)] in simp)
  then show ?case unfolding blocks.simps wpP_bind next_int wpP_lift by (simp add: wpP_bind del: of_nat_Suc)
qed simp

end

end
