(* ===== verification/Threen1f_Results.thy ===== *)
theory Threen1f_Results
  imports Threen1f_Claims
begin

text \<open>
  What the 3n+1 workload computes: the words of the digits, the numbers of a block, the blocks that nobody else claims, and, where
  one process has them all, the largest number of steps.
\<close>

section \<open>The words of the digits\<close>

definition digits_upto :: "nat \<Rightarrow> contents \<Rightarrow> bool" where
  "digits_upto i c \<longleftrightarrow> (\<forall>d < i. c (''ds'', [dec_of_nat d]) = Some (digitstrings ! d) \<and> c (''di'', [digitstrings ! d]) = Some (dec_of_nat d))"

lemma wp_digitsinit_loop:
  assumes "shared_laws db W" "tn_world lo hi W"
    and "mode W w = Outside" "digits_upto i (view W w)" "ts = drop i digitstrings" "i \<le> 10"
    and "\<And>w'. moved W lo hi {''di'', ''ds''} w w' \<Longrightarrow> digits_upto 10 (view W w') \<Longrightarrow> Q () w'"
  shows "wpP (digitsinit_loop db i ts) Q R w"
  using assms(3-7)
proof (induction ts arbitrary: i w)
  case Nil
  then have "i = 10" using length_digitstrings by simp
  then show ?case using Nil.prems(2,5) moved_refl [OF Nil.prems(1)] by (simp add: wpP_ret)
next
  case (Cons t ts)
  have i: "i < 10" using Cons.prems(3) length_digitstrings by (cases "i < 10") auto
  then have t: "t = digitstrings ! i" "ts = drop (Suc i) digitstrings"
    using Cons.prems(3) length_digitstrings by (simp_all flip: Cons_nth_drop_Suc)
  have g: "\<not> is_global ''di''" "\<not> is_global ''ds''" by (simp_all add: is_global_def)
  show ?case
    unfolding digitsinit_loop.simps wpP_then
  proof (rule wp_set_local [OF assms(1,2) Cons.prems(1) g(1)])
    fix w1 assume w1: "moved W lo hi {''di''} w w1" "view W w1 (''di'', [t]) = Some (dec_of_nat i)"
      "\<And>ss. ss \<noteq> [t] \<Longrightarrow> view W w1 (''di'', ss) = view W w (''di'', ss)"
    have "mode W w1 = Outside" using w1(1) by (simp add: moved_def)
    then show "wpP (setS db ''ds'' [dec_of_nat i] t) (\<lambda>_. wpP (digitsinit_loop db (i + 1) ts) Q R) R w1"
    proof (rule wp_set_local [OF assms(1,2) _ g(2)])
      fix w2 assume w2: "moved W lo hi {''ds''} w1 w2" "view W w2 (''ds'', [dec_of_nat i]) = Some t"
        "\<And>ss. ss \<noteq> [dec_of_nat i] \<Longrightarrow> view W w2 (''ds'', ss) = view W w1 (''ds'', ss)"
      have to2: "moved W lo hi {''di'', ''ds''} w w2"
        by (rule moved_trans [OF moved_mono [OF w1(1)] moved_mono [OF w2(1)]]) simp_all
      have di: "view W w2 (''di'', ss) = view W w1 (''di'', ss)" and ds: "view W w1 (''ds'', ss) = view W w (''ds'', ss)" for ss
        using moved_local [OF w2(1) g(1)] moved_local [OF w1(1) g(2)] by simp_all
      have "digits_upto (Suc i) (view W w2)"
        unfolding digits_upto_def
      proof (intro allI impI)
        fix d assume d: "d < Suc i"
        show "view W w2 (''ds'', [dec_of_nat d]) = Some (digitstrings ! d) \<and> view W w2 (''di'', [digitstrings ! d]) = Some (dec_of_nat d)"
        proof (cases "d = i")
          case False
          then have "digitstrings ! d \<noteq> t"
            using d i t(1) nth_eq_iff_index_eq [OF distinct_digitstrings] length_digitstrings by simp
          then show ?thesis using False d w1(3) w2(3) di ds Cons.prems(2) unfolding digits_upto_def by simp
        qed (use w1(2) w2(2) di t(1) in simp)
      qed
      then show "wpP (digitsinit_loop db (i + 1) ts) Q R w2"
        using Cons.IH [of w2 "Suc i"] to2 t(2) i Cons.prems(5) moved_trans [OF to2] by (simp add: moved_def)
    qed
  qed
qed

lemma wp_digitsinit:
  assumes "shared_laws db W" "tn_world lo hi W" "mode W w = Outside"
    and "\<And>w'. moved W lo hi {''di'', ''ds''} w w' \<Longrightarrow> has_digits (view W w') \<Longrightarrow> Q () w'"
  shows "wpP (digitsinit db) Q R w"
  unfolding digitsinit_def
  by (rule wp_digitsinit_loop [OF assms(1-3)]) (use assms(4) in \<open>simp_all add: digits_upto_def has_digits_def\<close>)

text \<open>A process alone on a database without numbers; \<open>f\<close> is what \<^verbatim>\<open>^limits\<close> holds.\<close>

definition solo_start :: "(string list \<Rightarrow> string option) \<Rightarrow> contents" where
  "solo_start f = (\<lambda>(g, ss). if g = ''^limits'' then f ss else if g = ''highest'' \<and> ss = [] then Some (dec_of_int 0) else None)"

lemma solo_tn_world: "tn_world lo hi solo_world"
  by (simp add: tn_world_def tn_step_def)

lemma solo_claim_world: "claim_world {} m lim solo_world"
  by (simp add: claim_world_def)

lemma solo_limits_alone: "limits_alone solo_world"
  by (simp add: limits_alone_def)

lemma good_start: "good lo hi (solo_start f)"
  by (simp add: good_def steps_table_def result_ok_def result_of_def solo_start_def)

lemma start_room: "b < 10 ^ 18 \<Longrightarrow> m_room b () (solo_start f)"
  by (auto simp: m_room_def count_room_def holds_int_def solo_start_def intro!: exI [of _ "0 :: int"])

text \<open>The words have been written, and nothing else.\<close>

definition started :: "int \<Rightarrow> int \<Rightarrow> (string list \<Rightarrow> string option) \<Rightarrow> solo \<Rightarrow> bool" where
  "started lo hi f w \<longleftrightarrow> mode solo_world w = Outside \<and> has_digits (view solo_world w) \<and> good lo hi (view solo_world w) \<and>
     (\<forall>b < 10 ^ 18. m_room b () (view solo_world w)) \<and> (\<forall>ss. view solo_world w (''^limits'', ss) = f ss)"

lemma startedD:
  assumes "started lo hi f w"
  shows "mode solo_world w = Outside" "has_digits (view solo_world w)" "good lo hi (view solo_world w)"
    "b < 10 ^ 18 \<Longrightarrow> m_room b () (view solo_world w)" "view solo_world w (''^limits'', ss) = f ss"
  using assms unfolding started_def by blast+

lemma ex_started: "\<exists>w. started lo hi f w"
proof -
  let ?W = "solo_world"
  have "wpP (digitsinit solo_db) (\<lambda>_ w'. moved ?W lo hi {''di'', ''ds''} (solo_start f, Outside) w' \<and> has_digits (view ?W w')) (\<lambda>_ _. False) (solo_start f, Outside)"
    by (rule wp_digitsinit [where lo = lo and hi = hi, OF solo_laws solo_tn_world]) simp_all
  then obtain w where m: "moved ?W lo hi {''di'', ''ds''} (solo_start f, Outside) w" and d: "has_digits (view ?W w)" by (auto elim: wpP_total)
  have out: "mode ?W w = Outside" using m by (simp add: moved_def)
  have good: "good lo hi (view ?W w)" by (rule moved_good [OF m]) (simp add: good_start)
  have room: "m_room b () (view ?W w)" if "b < 10 ^ 18" for b
    by (rule m_room_kept [OF start_room [OF that]]) (use moved_local [OF m] in \<open>auto simp: is_global_def\<close>)
  have "unspoilt ?W (\<lambda>c. \<forall>ss. c (''^limits'', ss) = f ss)" by (simp add: unspoilt_def is_global_def)
  from moved_kept [OF m this] have "\<forall>ss. view ?W w (''^limits'', ss) = f ss" by (simp add: solo_start_def)
  with out good room d show ?thesis unfolding started_def by blast
qed

section \<open>A block\<close>

text \<open>C29. After \<^verbatim>\<open>dostep\<close> of a process the table has the right number of steps of every number of the block, whatever other processes do.\<close>

theorem dostep_correct:
  assumes "shared_laws db W" "tn_world lo hi W" "mode W w = Outside" "has_digits (view W w)" "good lo hi (view W w)"
    and "lo \<le> first" "lastn \<le> hi" "\<forall>n. first \<le> n \<longrightarrow> n \<le> lastn \<longrightarrow> tame K n" "int K \<le> 2 ^ 31" "K \<le> fuel"
    and "m_room (nat (lastn + 1 - first) * (2 * K)) () (view W w)"
  shows "\<exists>w'. dostep fuel db first lastn w = Inr (Inr (), w') \<and> (\<forall>n. first \<le> n \<longrightarrow> n \<le> lastn \<longrightarrow> known lo hi n (view W w'))"
proof -
  have "wpP (dostep fuel db first lastn) (\<lambda>_ w'. \<forall>n. first \<le> n \<longrightarrow> n \<le> lastn \<longrightarrow> known lo hi n (view W w')) (\<lambda>_ _. False) w"
    unfolding dostep_def
    by (rule m.wp_dostep_loop [where b = 0, OF assms(1,2,6,7,8,9,10,3,4,5)]) (use assms(11) in simp_all)
  then show ?thesis by (auto elim!: wpP_total)
qed

lemma tame_small: "\<forall>n. 1 \<le> n \<longrightarrow> n \<le> 3 \<longrightarrow> tame 8 n"
proof (intro allI impI)
  fix n :: int assume "1 \<le> n" "n \<le> 3"
  then have "n = 1 \<or> n = 2 \<or> n = 3" by linarith
  moreover have "tame 8 1" unfolding tame_def reaches_def by (intro conjI exI [of _ 0]) auto
  moreover have "tame 8 2" unfolding tame_def reaches_def by (intro conjI exI [of _ 1]) (auto simp: collatz_def less_Suc_eq_le le_Suc_eq)
  moreover have "\<forall>j \<in> set [0..<8]. (collatz ^^ j) 3 = [3, 10, 5, 16, 8, 4, 2, 1] ! j" by (simp add: upt_rec collatz_def)
  then have p: "(collatz ^^ j) 3 = [3, 10, 5, 16, 8, 4, 2, 1] ! j" if "j < 8" for j using that by simp
  have "tame 8 3" unfolding tame_def reaches_def
  proof (intro conjI exI [of _ 7] allI impI)
    fix j :: nat
    show "(collatz ^^ j) 3 \<noteq> 1" if "j < 7"
      using p [of j] that by (auto simp: less_Suc_eq numeral_nat)
    show "(collatz ^^ j) 3 < 10 ^ 13" if "j \<le> 7"
      using p [of j] that by (auto simp: less_Suc_eq le_Suc_eq numeral_nat)
  qed (use p [of 7] in simp_all)
  ultimately show "tame 8 n" by auto
qed

theorem dostep_correct_witness:
  "\<exists>w w'. mode solo_world w = Outside \<and> dostep 8 solo_db 1 3 w = Inr (Inr (), w') \<and> known 1 3 3 (view solo_world w')"
proof -
  obtain w where w: "started 1 3 f w" using ex_started ..
  have room: "m_room (nat (3 + 1 - 1) * (2 * 8)) () (view solo_world w)" by (rule startedD(4) [OF w]) simp
  have K: "int 8 \<le> 2 ^ 31" by simp
  obtain w' where run: "dostep 8 solo_db 1 3 w = Inr (Inr (), w')" "\<forall>n. 1 \<le> n \<longrightarrow> n \<le> 3 \<longrightarrow> known 1 3 n (view solo_world w')"
    using dostep_correct [OF solo_laws solo_tn_world startedD(1-3) [OF w] order_refl order_refl tame_small K order_refl room] by blast
  then have "known 1 3 3 (view solo_world w')" by (metis one_le_numeral order_refl)
  with run startedD(1) [OF w] show ?thesis by blast
qed

text \<open>The same holds of \<^verbatim>\<open>dostep\<close> of a thread, with the thread's own counts and path.\<close>

theorem st_dostep_correct:
  assumes "shared_laws db W" "tn_world lo hi W" "mode W w = Outside" "has_digits (view W w)" "good lo hi (view W w)"
    and "lo \<le> first" "lastn \<le> hi" "\<forall>n. first \<le> n \<longrightarrow> n \<le> lastn \<longrightarrow> tame K n" "int K \<le> 2 ^ 31" "K \<le> fuel"
    and "st_room (nat (lastn + 1 - first) * (2 * K)) st (view W w)"
  shows "\<exists>st' w'. st_dostep fuel db tid first lastn st w = Inr (Inr st', w') \<and>
    (\<forall>n. first \<le> n \<longrightarrow> n \<le> lastn \<longrightarrow> known lo hi n (view W w'))"
proof -
  have "wpP (st_dostep fuel db tid first lastn st) (\<lambda>_ w'. \<forall>n. first \<le> n \<longrightarrow> n \<le> lastn \<longrightarrow> known lo hi n (view W w')) (\<lambda>_ _. False) w"
    unfolding st_dostep_def
    by (rule st.wp_dostep_loop [where b = 0, OF assms(1,2,6,7,8,9,10,3,4,5)]) (use assms(11) in simp_all)
  then show ?thesis by (auto elim!: wpP_total)
qed

theorem st_dostep_correct_witness:
  "\<exists>w st' w'. st_dostep 8 solo_db ''77'' 1 3 \<lparr>gv_reads = 0, gv_updates = 0, gv_highest = 0\<rparr> w = Inr (Inr st', w') \<and> known 1 3 3 (view solo_world w')"
proof -
  obtain w where w: "started 1 3 f w" using ex_started ..
  have room: "st_room (nat (3 + 1 - 1) * (2 * 8)) \<lparr>gv_reads = 0, gv_updates = 0, gv_highest = 0\<rparr> (view solo_world w)"
    by (simp add: st_room_def)
  have K: "int 8 \<le> 2 ^ 31" by simp
  obtain st' w' where run: "st_dostep 8 solo_db ''77'' 1 3 \<lparr>gv_reads = 0, gv_updates = 0, gv_highest = 0\<rparr> w = Inr (Inr st', w')"
    "\<forall>n. 1 \<le> n \<longrightarrow> n \<le> 3 \<longrightarrow> known 1 3 n (view solo_world w')"
    using st_dostep_correct [OF solo_laws solo_tn_world startedD(1-3) [OF w] order_refl order_refl tame_small K order_refl room] by blast
  then have "known 1 3 3 (view solo_world w')" by (metis one_le_numeral order_refl)
  with run show ?thesis by blast
qed

section \<open>All blocks\<close>

lemma ready_limits: "limits_of m lim c \<Longrightarrow> ready A m lim 0 c"
proof -
  assume l: "limits_of m lim c"
  have none: "c (''^limits'', ss) = None" if "\<And>t. 1 \<le> t \<Longrightarrow> t \<le> m \<Longrightarrow> ss \<noteq> [dec_of_nat t]" for ss
    using l that unfolding limits_of_def by auto
  have "c (claim t) = None" for t unfolding claim_def by (rule none) simp
  moreover have "bounds m lim c"
    using limits_of_node [OF l] none unfolding bounds_def by (auto simp: dec_of_nat_as_int)
  ultimately show ?thesis by (simp add: ready_def claimable_def holds_int_def)
qed

lemma m_step: "(\<lambda>first lastn (st :: unit). dostep fuel db first lastn) = dostep_loop fuel db (m_counters db)"
  by (simp add: fun_eq_iff dostep_def)

text \<open>C28. A process that looks for blocks ends, and works through every block that no other process claims, while the others
  count at the blocks of \<open>A\<close> and work on the table, as long as their counts stay below \<open>2 ^ 31 - 1\<close>.  They do where
  fewer processes than that count at most once at a block (\<open>counts_stay_claimable\<close>).\<close>

theorem process_blocks:
  assumes "shared_laws db W" "tn_world lo hi W" "claim_world A m lim W" "ends_fit K lo hi m lim" "K \<le> fuel'" "m < fuel"
    and "mode W w = Outside" "has_digits (view W w)" "good lo hi (view W w)" "ready A m lim 0 (view W w)"
    and "m_room (nat (lim m - lim 0) * (2 * K)) () (view W w)"
  shows "\<exists>w'. blocks fuel db (\<lambda>first lastn st. dostep fuel' db first lastn) (lim 0 + 1) 0 () w = Inr (Inr (), w') \<and>
    (\<forall>u n. 0 < u \<longrightarrow> u \<le> m \<longrightarrow> u \<notin> A \<longrightarrow> lim (u - 1) < n \<longrightarrow> n \<le> lim u \<longrightarrow> known lo hi n (view W w'))"
proof -
  have "wpP (blocks fuel db (dostep_loop fuel' db (m_counters db)) (lim 0 + 1) (int 0) ()) (\<lambda>_ w'.
      \<forall>u n. 0 < u \<longrightarrow> u \<le> m \<longrightarrow> u \<notin> A \<longrightarrow> lim (u - 1) < n \<longrightarrow> n \<le> lim u \<longrightarrow> known lo hi n (view W w')) (\<lambda>_ _. False) w"
    by (rule m.wp_blocks [where b = 0, OF assms(1-5,7-10)]) (use assms(6,11) in simp_all)
  then show ?thesis unfolding m_step by (auto elim!: wpP_total)
qed

text \<open>A small line: three numbers in blocks of two.\<close>

lemma small_ends: "ends_fit 8 1 3 (block_count 1 3 2) (block_end 1 3 2)"
  using block_end_mono [of 2 _ _ 1 3] tame_small by (simp add: ends_fit_def block_count_def block_end_def)

definition small_limits :: "string list \<Rightarrow> string option" where
  "small_limits ss = (if ss = [dec_of_nat 1] then Some (dec_of_int 2) else if ss = [dec_of_nat 2] then Some (dec_of_int 3) else None)"

lemma small_limits_of: "started 1 3 small_limits w \<Longrightarrow> limits_of (block_count 1 3 2) (block_end 1 3 2) (view solo_world w)"
proof (unfold limits_of_def, intro allI)
  fix ss :: "string list" assume w: "started 1 3 small_limits w"
  have "(\<exists>t. 1 \<le> t \<and> t \<le> block_count 1 3 2 \<and> ss = [dec_of_nat t]) \<longleftrightarrow> ss = [dec_of_nat 1] \<or> ss = [dec_of_nat 2]"
    by (auto simp: block_count_def le_Suc_eq numeral_2_eq_2)
  then show "view solo_world w (''^limits'', ss) = (if \<exists>t. 1 \<le> t \<and> t \<le> block_count 1 3 2 \<and> ss = [dec_of_nat t]
      then Some (dec_of_int (block_end 1 3 2 (nat (atoi (hd ss))))) else None)"
    unfolding startedD(5) [OF w] small_limits_def by (auto simp: atoi_dec_of_nat block_end_def)
qed

lemmas small_ready = ready_limits [OF small_limits_of]

theorem process_blocks_witness:
  "\<exists>w w'. blocks 3 solo_db (\<lambda>first lastn st. dostep 8 solo_db first lastn) 1 0 () w = Inr (Inr (), w') \<and> known 1 3 3 (view solo_world w')"
proof -
  obtain w where w: "started 1 3 small_limits w" using ex_started ..
  have fuel: "block_count 1 3 2 < 3" and e: "block_end 1 3 2 0 + 1 = 1" by (simp_all add: block_count_def block_end_def)
  have room: "m_room (nat (block_end 1 3 2 (block_count 1 3 2) - block_end 1 3 2 0) * (2 * 8)) () (view solo_world w)"
    by (rule startedD(4) [OF w]) (simp add: block_count_def block_end_def)
  obtain w' where run: "blocks 3 solo_db (\<lambda>first lastn st. dostep 8 solo_db first lastn) (block_end 1 3 2 0 + 1) 0 () w = Inr (Inr (), w')"
    and all: "\<forall>u n. 0 < u \<longrightarrow> u \<le> block_count 1 3 2 \<longrightarrow> u \<notin> {} \<longrightarrow> block_end 1 3 2 (u - 1) < n \<longrightarrow> n \<le> block_end 1 3 2 u \<longrightarrow> known 1 3 n (view solo_world w')"
    using process_blocks [OF solo_laws solo_tn_world solo_claim_world small_ends order_refl fuel startedD(1-3) [OF w] small_ready [OF w] room] by blast
  have "known 1 3 3 (view solo_world w')" using all [rule_format, of 2 3] by (simp add: block_count_def block_end_def)
  with run show ?thesis unfolding e by blast
qed

text \<open>The same holds of a thread that looks for blocks.\<close>

theorem thread_blocks:
  assumes "shared_laws db W" "tn_world lo hi W" "claim_world A m lim W" "ends_fit K lo hi m lim" "K \<le> fuel'" "m < fuel"
    and "mode W w = Outside" "has_digits (view W w)" "good lo hi (view W w)" "ready A m lim 0 (view W w)"
    and "st_room (nat (lim m - lim 0) * (2 * K)) st (view W w)"
  shows "\<exists>st' w'. blocks fuel db (st_dostep fuel' db tid) (lim 0 + 1) 0 st w = Inr (Inr st', w') \<and>
    (\<forall>u n. 0 < u \<longrightarrow> u \<le> m \<longrightarrow> u \<notin> A \<longrightarrow> lim (u - 1) < n \<longrightarrow> n \<le> lim u \<longrightarrow> known lo hi n (view W w'))"
proof -
  have "wpP (blocks fuel db (dostep_loop fuel' db (st_counters tid)) (lim 0 + 1) (int 0) st) (\<lambda>_ w'.
      \<forall>u n. 0 < u \<longrightarrow> u \<le> m \<longrightarrow> u \<notin> A \<longrightarrow> lim (u - 1) < n \<longrightarrow> n \<le> lim u \<longrightarrow> known lo hi n (view W w')) (\<lambda>_ _. False) w"
    by (rule st.wp_blocks [where b = 0, OF assms(1-5,7-10)]) (use assms(6,11) in simp_all)
  moreover have "st_dostep fuel' db tid = dostep_loop fuel' db (st_counters tid)" by (simp add: fun_eq_iff st_dostep_def)
  ultimately show ?thesis by (auto elim!: wpP_total)
qed

theorem thread_blocks_witness:
  "\<exists>w st' w'. blocks 3 solo_db (st_dostep 8 solo_db ''77'') 1 0 \<lparr>gv_reads = 0, gv_updates = 0, gv_highest = 0\<rparr> w = Inr (Inr st', w') \<and>
     known 1 3 3 (view solo_world w')"
proof -
  let ?st = "\<lparr>gv_reads = 0, gv_updates = 0, gv_highest = 0\<rparr>"
  obtain w where w: "started 1 3 small_limits w" using ex_started ..
  have fuel: "block_count 1 3 2 < 3" and e: "block_end 1 3 2 0 + 1 = 1" by (simp_all add: block_count_def block_end_def)
  have room: "st_room (nat (block_end 1 3 2 (block_count 1 3 2) - block_end 1 3 2 0) * (2 * 8)) ?st (view solo_world w)"
    by (simp add: st_room_def block_count_def block_end_def)
  obtain st' w' where run: "blocks 3 solo_db (st_dostep 8 solo_db ''77'') (block_end 1 3 2 0 + 1) 0 ?st w = Inr (Inr st', w')"
    and all: "\<forall>u n. 0 < u \<longrightarrow> u \<le> block_count 1 3 2 \<longrightarrow> u \<notin> {} \<longrightarrow> block_end 1 3 2 (u - 1) < n \<longrightarrow> n \<le> block_end 1 3 2 u \<longrightarrow> known 1 3 n (view solo_world w')"
    using thread_blocks [OF solo_laws solo_tn_world solo_claim_world small_ends order_refl fuel startedD(1-3) [OF w] small_ready [OF w] room] by blast
  have "known 1 3 3 (view solo_world w')" using all [rule_format, of 2 3] by (simp add: block_count_def block_end_def)
  with run show ?thesis unfolding e by blast
qed

text \<open>Where the table has all numbers of the interval the result is the largest number of steps.\<close>

lemma known_result:
  assumes "lo \<le> hi" "\<And>n. lo \<le> n \<Longrightarrow> n \<le> hi \<Longrightarrow> known lo hi n c"
  shows "\<exists>k. result_of c = int k \<and> (\<exists>n. lo \<le> n \<and> n \<le> hi \<and> reaches n k) \<and> (\<forall>n l. lo \<le> n \<longrightarrow> n \<le> hi \<longrightarrow> reaches n l \<longrightarrow> l \<le> k)"
proof -
  have r: "0 \<le> result_of c" "result_of c = 0 \<or> (\<exists>n. lo \<le> n \<and> n \<le> hi \<and> reaches n (nat (result_of c)))"
    using assms(2) [OF order_refl assms(1)] by (simp_all add: known_def good_def result_ok_def)
  have le: "int l \<le> result_of c" if "lo \<le> n" "n \<le> hi" "reaches n l" for n l
    using assms(2) [OF that(1,2)] reaches_unique [OF that(3)] by (auto simp: known_def)
  have "\<exists>n. lo \<le> n \<and> n \<le> hi \<and> reaches n (nat (result_of c))"
  proof (cases "result_of c = 0")
    case True
    obtain l where l: "reaches lo l" using assms(2) [OF order_refl assms(1)] by (auto simp: known_def)
    then have "l = 0" using le [OF order_refl assms(1) l] True by simp
    then show ?thesis using l True assms(1) by auto
  qed (use r in simp)
  then show ?thesis using le r(1) by (intro exI [of _ "nat (result_of c)"]) fastforce
qed

text \<open>C27. A process that has all blocks to itself leaves the largest number of steps of the interval in \<^verbatim>\<open>^result\<close>.\<close>

theorem interval_result:
  assumes "shared_laws db W" "tn_world i j W" "claim_world {} (block_count i j blk) (block_end i j blk) W"
    and "1 \<le> i" "i \<le> j" "1 \<le> blk" "j < 2 ^ 31 - 1" "\<forall>n. i \<le> n \<longrightarrow> n \<le> j \<longrightarrow> tame K n" "int K \<le> 2 ^ 31"
    and "K \<le> fuel'" "block_count i j blk < fuel" "mode W w = Outside" "has_digits (view W w)" "good i j (view W w)"
    and "limits_of (block_count i j blk) (block_end i j blk) (view W w)" "m_room (nat (j - i + 1) * (2 * K)) () (view W w)"
  shows "\<exists>w' k. blocks fuel db (\<lambda>first lastn st. dostep fuel' db first lastn) i 0 () w = Inr (Inr (), w') \<and> result_of (view W w') = int k \<and>
    (\<exists>n. i \<le> n \<and> n \<le> j \<and> reaches n k) \<and> (\<forall>n l. i \<le> n \<longrightarrow> n \<le> j \<longrightarrow> reaches n l \<longrightarrow> l \<le> k)"
proof -
  let ?m = "block_count i j blk"
  let ?e = "block_end i j blk"
  have ij: "i \<le> j + 1" using assms(5) by simp
  note ends = block_end_last [OF assms(6) ij]
  have e0: "?e 0 + 1 = i" using assms(5) by (simp add: block_end_def)
  have "(int ?m - 1) * 1 \<le> (int ?m - 1) * blk" if "1 \<le> ?m" using that assms(6) by (intro mult_left_mono) simp_all
  then have m: "int ?m \<le> j - i + 1" using block_count_bounds(2) [OF assms(6) ij] assms(5) by (cases "1 \<le> ?m") auto
  have fit: "ends_fit K i j ?m ?e"
    unfolding ends_fit_def using assms(4,7-9) m e0 ends block_end_mono [OF assms(6)] by auto
  have "?e ?m - ?e 0 = j - i + 1" using ends e0 by linarith
  then have room: "m_room (nat (?e ?m - ?e 0) * (2 * K)) () (view W w)" using assms(16) by simp
  have "wpP (blocks fuel db (dostep_loop fuel' db (m_counters db)) (?e 0 + 1) (int 0) ()) (\<lambda>_ w'.
      \<forall>u n. 0 < u \<longrightarrow> u \<le> ?m \<longrightarrow> u \<notin> {} \<longrightarrow> ?e (u - 1) < n \<longrightarrow> n \<le> ?e u \<longrightarrow> known i j n (view W w')) (\<lambda>_ _. False) w"
    by (rule m.wp_blocks [where b = 0, OF assms(1-3) fit assms(10,12-14) ready_limits [OF assms(15)]]) (use assms(11) room in simp_all)
  then obtain w' where run: "blocks fuel db (\<lambda>first lastn st. dostep fuel' db first lastn) i 0 () w = Inr (Inr (), w')"
    and all: "\<And>u n. 0 < u \<Longrightarrow> u \<le> ?m \<Longrightarrow> ?e (u - 1) < n \<Longrightarrow> n \<le> ?e u \<Longrightarrow> known i j n (view W w')"
    unfolding m_step e0 by (auto elim!: wpP_total)
  have "known i j n (view W w')" if "i \<le> n" "n \<le> j" for n
  proof -
    have "?e 0 < n \<and> n \<le> ?e ?m" using that e0 ends by simp
    then obtain t where "t < ?m" "?e t < n" "n \<le> ?e (Suc t)" using steps_cover [of ?e n ?m, OF block_end_mono [OF assms(6)]] by blast
    then show ?thesis using all [of "Suc t" n] by simp
  qed
  then show ?thesis using known_result [OF assms(5), of "view W w'"] run by blast
qed

theorem interval_result_witness:
  "\<exists>w w' k. blocks 3 solo_db (\<lambda>first lastn st. dostep 8 solo_db first lastn) 1 0 () w = Inr (Inr (), w') \<and>
     result_of (view solo_world w') = int k \<and> (\<forall>n l. 1 \<le> n \<longrightarrow> n \<le> 3 \<longrightarrow> reaches n l \<longrightarrow> l \<le> k)"
proof -
  obtain w where w: "started 1 3 small_limits w" using ex_started ..
  have l: "limits_of (block_count 1 3 2) (block_end 1 3 2) (view solo_world w)" by (rule small_limits_of [OF w])
  have p: "(1 :: int) \<le> 1" "(1 :: int) \<le> 3" "(1 :: int) \<le> 2" "(3 :: int) < 2 ^ 31 - 1" "int 8 \<le> 2 ^ 31" "block_count 1 3 2 < 3"
    by (simp_all add: block_count_def)
  have room: "m_room (nat (3 - 1 + 1) * (2 * 8)) () (view solo_world w)" by (rule startedD(4) [OF w]) simp
  show ?thesis
    using interval_result [OF solo_laws solo_tn_world solo_claim_world p(1-4) tame_small p(5) order_refl p(6) startedD(1-3) [OF w] l room] by blast
qed

end
