(* ===== verification/Threen1f_Totals.thy ===== *)
theory Threen1f_Totals
  imports Threen1f_Results
begin

text \<open>
  The spelled numbers as a round trip, and what goes wrong around the blocks: totals that are never added, a highest number that
  does not fit, a thread identifier behind the end of its array, and a table that is not cleared.
\<close>

section \<open>Spelled numbers\<close>

lemma digit_word_run:
  assumes "shared_laws db W" "has_digits (view W w)" "is_digit c"
  obtains w' where "digit_word db c w = Inr (Inr (word c, word c), w')" "later W w w'"
proof -
  have "wpP (digit_word db c) (\<lambda>x w'. x = (word c, word c) \<and> later W w w') (\<lambda>_ _. False) w"
    by (rule wp_digit_word [OF assms]) simp
  then show thesis using that by (auto elim: wpP_total)
qed

lemma inttostr_loop_overflow:
  assumes "shared_laws db W" "has_digits (view W w)" "\<forall>c \<in> set cs. is_digit c" "length buff < tn_MAXVALUELEN"
    and "tn_MAXVALUELEN \<le> length (buff @ joined (map word cs))"
  shows "inttostr_loop db cs buff w = Inl Assert_failed"
  using assms(2-5)
proof (induction cs arbitrary: buff w)
  case (Cons c cs)
  obtain w' where w': "digit_word db c w = Inr (Inr (word c, word c), w')" "later W w w'"
    by (rule digit_word_run [OF assms(1) Cons.prems(1)]) (use Cons.prems(2) in auto)
  note run = bindP_run [where m = "digit_word db c" and w = w, OF w'(1)]
  show ?case
  proof (cases "length buff + length (word c) + 1 < tn_MAXVALUELEN")
    case True
    have "inttostr_loop db cs (buff @ '' '' @ word c) w' = Inl Assert_failed"
      by (rule Cons.IH) (use Cons.prems True has_digits_later [OF w'(2)] in \<open>simp_all add: joined_def\<close>)
    then show ?thesis using True by (simp add: run thenP_def assertP_def bindP_lift)
  next
    case False
    then show ?thesis by (simp add: run thenP_def assertP_def bindP_fault)
  qed
qed (simp add: joined_def)

text \<open>C31. \<^verbatim>\<open>inttostr\<close> writes the words of a number where they fit the buffer with the NUL behind them, and fails its assertion where they do not.\<close>

theorem inttostr_fits:
  assumes "shared_laws db W" "has_digits (view W w)" "0 \<le> n"
  shows "if length (spell n) < tn_MAXVALUELEN then \<exists>w'. inttostr db n w = Inr (Inr (spell n), w') \<and> later W w w'
    else inttostr db n w = Inl Assert_failed"
proof (cases "length (spell n) < tn_MAXVALUELEN")
  case True
  have "wpP (inttostr db n) (\<lambda>x w'. x = spell n \<and> later W w w') (\<lambda>_ _. False) w"
    by (rule wp_inttostr [OF assms True]) simp
  then show ?thesis using True by (auto elim: wpP_total)
next
  case False
  obtain c cs where n: "dec_of_int n = c # cs" by (cases "dec_of_int n") simp_all
  then have d: "is_digit c" "\<forall>x \<in> set cs. is_digit x" using dec_digits [OF assms(3)] by auto
  obtain w' where w': "digit_word db c w = Inr (Inr (word c, word c), w')" "later W w w'" by (rule digit_word_run [OF assms(1,2) d(1)])
  have "inttostr_loop db cs (word c) w' = Inl Assert_failed"
    by (rule inttostr_loop_overflow [OF assms(1) has_digits_later [OF w'(2) assms(2)] d(2)])
      (use False word_facts(2) [OF d(1)] in \<open>simp_all add: spell_cons [OF n] tn_MAXVALUELEN_def\<close>)
  then have "inttostr db n w = Inl Assert_failed"
    using assms(3) by (simp add: inttostr_def n thenP_def assertP_def bindP_lift bindP_run [where m = "digit_word db c" and w = w, OF w'(1)])
  then show ?thesis using False by simp
qed

lemma length_spell: "length (spell n) = length (joined (map word (dec_of_int n))) - 1"
  by (simp add: spell_def)

lemma nines: "dec_of_int 99999999999999 = ''99999999999999''" "dec_of_int 24 = ''24''"
proof -
  have "digit_char 9 = CHR ''9''" "digit_char 2 = CHR ''2''" "digit_char 4 = CHR ''4''" by code_simp+
  then show "dec_of_int 99999999999999 = ''99999999999999''" "dec_of_int 24 = ''24''" by (simp_all add: dec_of_int_def dec_of_nat.simps)
qed

theorem inttostr_fits_witness:
  "\<exists>w. inttostr solo_db 99999999999999 w = Inl Assert_failed \<and> (\<exists>w'. inttostr solo_db 24 w = Inr (Inr ''deux quattro'', w'))"
proof -
  obtain w where w: "started 1 3 small_limits w" using ex_started ..
  note fits = inttostr_fits [OF solo_laws startedD(2) [OF w]]
  have words: "length (word (CHR ''9'')) = 18" "word (CHR ''2'') = ''deux''" "word (CHR ''4'') = ''quattro''"
    by (simp_all add: word_def digit_val_def digitstrings_def utf8_def)
  have "length (spell 99999999999999) = 265" by (simp add: length_spell nines joined_def words)
  then have "inttostr solo_db 99999999999999 w = Inl Assert_failed" using fits [of 99999999999999] by (simp add: tn_MAXVALUELEN_def)
  moreover have "spell 24 = ''deux quattro''" by (simp add: spell_def joined_def nines words)
  then have "\<exists>w'. inttostr solo_db 24 w = Inr (Inr ''deux quattro'', w')" using fits [of 24] by (auto simp: tn_MAXVALUELEN_def)
  ultimately show ?thesis by blast
qed

text \<open>C30. \<^verbatim>\<open>strtoint\<close> reads what \<^verbatim>\<open>inttostr\<close> wrote.\<close>

theorem spelled_back:
  assumes "shared_laws db W" "has_digits (view W w)" "0 \<le> n" "n < 2 ^ 63" "length (spell n) < tn_MAXVALUELEN"
  shows "\<exists>w'. bindP (inttostr db n) (strtoint db) w = Inr (Inr n, w')"
proof -
  have "wpP (bindP (inttostr db n) (strtoint db)) (\<lambda>x w'. x = n) (\<lambda>_ _. False) w"
    unfolding wpP_bind
  proof (rule wp_inttostr [OF assms(1-3,5)])
    fix w1 assume "later W w w1"
    then show "wpP (strtoint db (spell n)) (\<lambda>x w'. x = n) (\<lambda>_ _. False) w1"
      by (intro wp_strtoint [OF assms(1) _ assms(3-5)] has_digits_later [OF _ assms(2)]) simp_all
  qed
  then show ?thesis by (auto elim: wpP_total)
qed

theorem spelled_back_witness: "\<exists>w w'. bindP (inttostr solo_db 989345275647) (strtoint solo_db) w = Inr (Inr 989345275647, w')"
proof -
  obtain w where w: "started 1 3 small_limits w" using ex_started ..
  have n: "(0 :: int) \<le> 989345275647" "(989345275647 :: int) < 2 ^ 63" "(989345275647 :: int) < 10 ^ 13" by simp_all
  show ?thesis using spelled_back [OF solo_laws startedD(2) [OF w] n(1,2) spell_fits [OF n(1,3)]] by blast
qed

section \<open>Totals\<close>

lemma wp_add:
  assumes "shared_laws db W" "mode W w = Final" "holds_int (view W w) (g, []) r" "\<bar>r + increment inc\<bar> < 10 ^ 18"
    and "\<And>w'. mode W w' = Final \<Longrightarrow> view W w' = (view W w)((g, []) \<mapsto> dec_of_int (r + increment inc)) \<Longrightarrow> wpP m Q R w'"
  shows "wpP (callP (db_incr db g [] inc)) (\<lambda>x. wpP (case x of (s, v) \<Rightarrow> thenP (passS db s) m) Q R) R w"
proof (rule wp_db_incr [OF assms(1)])
  have seen: "c = view W w" if "sees W w c" for c using that assms(2) by (simp add: sees_def)
  fix c assume c: "sees W w c"
  show "\<exists>m. holds_int c (g, []) m \<and> \<bar>m + increment inc\<bar> < 10 ^ 18 \<and>
      (mode W w = Outside \<longrightarrow> guar W c (c((g, []) \<mapsto> dec_of_int (m + increment inc))))"
    using assms(2-4) seen [OF c] by auto
  fix m' w' assume w': "holds_int c (g, []) m'" "view W w' = c((g, []) \<mapsto> dec_of_int (m' + increment inc))" "mode W w' = mode W w"
  have "m' = r" using holds_int_unique [OF w'(1)] assms(3) seen [OF c] by simp
  then have "wpP m Q R w'" using assms(2,5) w'(2,3) seen [OF c] by simp
  then show "wpP (case (db_ok db, dec_of_int (m' + increment inc)) of (s, v) \<Rightarrow> thenP (passS db s) m) Q R w'"
    using shared_statuses(1) [OF assms(1)] by (simp add: passS_def okS_def wp_simps)
qed (use assms(2) in \<open>simp add: may_restart_def\<close>)

text \<open>A node without a value counts as zero.\<close>

lemma wp_highest_gbl:
  assumes "shared_laws db W" "mode W w = Final" "holds_int (view W w) (''^highest'', []) h" "0 \<le> h" "h < 2 ^ 31"
    and "\<And>w'. mode W w' = Final \<Longrightarrow> view W w' = view W w \<Longrightarrow> Q h w'"
  shows "wpP (highest_gbl db) Q R w"
  unfolding highest_gbl_def wpP_bind
proof (rule wp_db_get [OF assms(1)])
  note st = shared_statuses [OF assms(1)]
  have seen: "view W w' = view W w" if "sees W w (view W w')" for w' using that assms(2) by (simp add: sees_def)
  have fits: "length (dec_of_int h) \<le> tn_MAXVALUELEN" using dec_fits_value [OF assms(4)] assms(5) by simp
  show "view W w' (''^highest'', []) \<noteq> None \<and> length (the (view W w' (''^highest'', []))) \<le> tn_MAXVALUELEN \<or>
      view W w' (''^highest'', []) = None \<and> is_global ''^highest''" if "sees W w (view W w')" for w'
    using assms(3) fits seen [OF that] by (auto simp: holds_int_def is_global_def split: option.splits)
  fix v w' assume w': "sees W w (view W w')" "mode W w' = mode W w" "view W w' (''^highest'', []) = Some v"
  then have "v = dec_of_int h" using assms(3) seen by (simp add: holds_int_def)
  then show "wpP (case (db_ok db, v) of (s, v) \<Rightarrow> if s = db_restart db then leave s
      else if s \<noteq> db_gvundef db then thenP (okS db s) (liftP (atoi_of v)) else retP 0) Q R w'"
    using st assms(2) assms(6) [of w'] w' seen atoi_dec [OF assms(4,5)] by (simp add: okS_def wp_simps)
next
  note st = shared_statuses [OF assms(1)]
  fix x w' assume w': "sees W w (view W w')" "mode W w' = mode W w" "view W w' (''^highest'', []) = None"
  moreover have "view W w' = view W w" using w'(1) assms(2) by (simp add: sees_def)
  ultimately have "h = 0" using assms(3) by (simp add: holds_int_def)
  then show "wpP (case (db_gvundef db, x) of (s, v) \<Rightarrow> if s = db_restart db then leave s
      else if s \<noteq> db_gvundef db then thenP (okS db s) (liftP (atoi_of v)) else retP 0) Q R w'"
    using st(4) assms(2) assms(6) [of w'] w'(2) \<open>view W w' = view W w\<close> by (simp add: wp_simps)
qed (use assms(2) in \<open>simp add: may_restart_def\<close>)

lemma wp_store_highest:
  assumes "shared_laws db W" "mode W w = Final" "\<And>w'. view W w' = (view W w)((''^highest'', []) \<mapsto> v) \<Longrightarrow> Q () w'"
  shows "wpP (bindP (callP (db_set db ''^highest'' [] v)) (passS db)) Q R w"
  unfolding wpP_bind
proof (rule wp_db_set [OF assms(1)])
  show "allowed W w (\<lambda>c. c((''^highest'', []) \<mapsto> v))" using assms(2) by (simp add: allowed_def)
  fix c w' assume "sees W w c" "view W w' = c((''^highest'', []) \<mapsto> v)"
  then have "Q () w'" using assms(2,3) by (simp add: sees_def)
  then show "wpP (passS db (db_ok db)) Q R w'" using shared_statuses(1) [OF assms(1)] by (simp add: passS_def okS_def wp_simps)
qed (use assms(2) in \<open>simp add: may_restart_def\<close>)

text \<open>What the totals hold.\<close>

definition totals :: "contents \<Rightarrow> int \<Rightarrow> int \<Rightarrow> int \<Rightarrow> bool" where
  "totals c r u h \<longleftrightarrow> holds_int c (''^reads'', []) r \<and> holds_int c (''^updates'', []) u \<and> holds_int c (''^highest'', []) h"

lemma increment_name: "increment (Some ''reads'') = 0" "increment (Some ''updates'') = 0"
  by code_simp+

lemma wp_totals:
  assumes "shared_laws db W" "mode W w = Final" "totals (view W w) r u h" "0 \<le> h" "h < 2 ^ 31"
    and "\<bar>r + increment inc\<bar> < 10 ^ 18" "\<bar>u + increment inc'\<bar> < 10 ^ 18"
    and "\<And>w'. mode W w' = Final \<Longrightarrow> totals (view W w') (r + increment inc) (u + increment inc') h \<Longrightarrow>
      view W w' (''highest'', []) = view W w (''highest'', []) \<Longrightarrow> wpP (go h) Q R w'"
  shows "wpP (bindP (callP (db_incr db ''^reads'' [] inc)) (\<lambda>(s, v). thenP (passS db s)
      (bindP (callP (db_incr db ''^updates'' [] inc')) (\<lambda>(s, v). thenP (passS db s) (bindP (highest_gbl db) go))))) Q R w"
  unfolding wpP_bind [of "callP (db_incr db ''^reads'' [] inc)"]
proof (rule wp_add [where r = r, OF assms(1,2)])
  fix w1 assume w1: "mode W w1 = Final" "view W w1 = (view W w)((''^reads'', []) \<mapsto> dec_of_int (r + increment inc))"
  show "wpP (bindP (callP (db_incr db ''^updates'' [] inc')) (\<lambda>(s, v). thenP (passS db s) (bindP (highest_gbl db) go))) Q R w1"
    unfolding wpP_bind [of "callP (db_incr db ''^updates'' [] inc')"]
  proof (rule wp_add [where r = u, OF assms(1) w1(1)])
    show "holds_int (view W w1) (''^updates'', []) u" using assms(3) by (simp add: w1(2) totals_def holds_int_def)
    fix w2 assume w2: "mode W w2 = Final" "view W w2 = (view W w1)((''^updates'', []) \<mapsto> dec_of_int (u + increment inc'))"
    have t2: "totals (view W w2) (r + increment inc) (u + increment inc') h" "view W w2 (''highest'', []) = view W w (''highest'', [])"
      using assms(3) by (simp_all add: w2(2) w1(2) totals_def holds_int_def)
    show "wpP (bindP (highest_gbl db) go) Q R w2"
      unfolding wpP_bind [of "highest_gbl db"]
      by (rule wp_highest_gbl [where h = h, OF assms(1) w2(1) _ assms(4,5)]) (use t2 assms(8) in \<open>simp_all add: totals_def\<close>)
  qed (use assms(7) in simp)
qed (use assms(3,6) in \<open>simp_all add: totals_def\<close>)

lemma wp_raise_highest:
  assumes "shared_laws db W" "mode W w = Final" "totals (view W w) r u h"
  shows "wpP (if l > h then bindP (callP (db_set db ''^highest'' [] (dec_of_int l))) (passS db) else retP ())
    (\<lambda>_ w'. totals (view W w') r u (max h l)) R w"
proof (cases "l > h")
  case True
  have "wpP (bindP (callP (db_set db ''^highest'' [] (dec_of_int l))) (passS db)) (\<lambda>_ w'. totals (view W w') r u (max h l)) R w"
    by (rule wp_store_highest [OF assms(1,2)]) (use True assms(3) in \<open>simp add: totals_def holds_int_def max_def\<close>)
  then show ?thesis using True by simp
qed (use assms(3) in \<open>simp add: wpP_ret max_def\<close>)

text \<open>The transaction of a process raises the highest number and adds nothing to the totals of reads and updates.\<close>

theorem process_totals:
  assumes "shared_laws db W" "mode W w = Final" "totals (view W w) r u h" "\<bar>r\<bar> < 10 ^ 18" "\<bar>u\<bar> < 10 ^ 18" "0 \<le> h" "h < 2 ^ 31"
    and "view W w (''highest'', []) = Some (dec_of_int l)" "0 \<le> l" "l < 2 ^ 31"
  shows "\<exists>w'. tp_gvstatsincr db w = Inr (Inr (), w') \<and> totals (view W w') r u (max h l)"
proof -
  have "wpP (tp_gvstatsincr db) (\<lambda>_ w'. totals (view W w') r u (max h l)) (\<lambda>_ _. False) w"
    unfolding tp_gvstatsincr_def
  proof (rule wp_totals [OF assms(1-3,6,7)])
    fix w1 assume w1: "mode W w1 = Final" "totals (view W w1) (r + increment (Some ''reads'')) (u + increment (Some ''updates'')) h"
      "view W w1 (''highest'', []) = view W w (''highest'', [])"
    show "wpP (bindP (getS db ''highest'' []) (\<lambda>v. bindP (liftP (atoi_of v)) (\<lambda>highest_lcl. if highest_lcl > h
        then bindP (callP (db_set db ''^highest'' [] v)) (passS db) else retP ()))) (\<lambda>_ w'. totals (view W w') r u (max h l)) (\<lambda>_ _. False) w1"
      unfolding wpP_bind [of "getS db ''highest'' []"]
    proof (rule wp_getS_local [OF assms(1)])
      show "view W w1 (''highest'', []) = Some (dec_of_int l)" using w1(3) assms(8) by simp
      show "length (dec_of_int l) \<le> tn_MAXVALUELEN" using dec_fits_value [OF assms(9)] assms(10) by simp
      fix w2 assume "later W w1 w2"
      then have w2: "mode W w2 = Final" "totals (view W w2) r u h" using w1(1,2) by (simp_all add: later_def sees_def increment_name)
      show "wpP (bindP (liftP (atoi_of (dec_of_int l))) (\<lambda>highest_lcl. if highest_lcl > h
          then bindP (callP (db_set db ''^highest'' [] (dec_of_int l))) (passS db) else retP ()))
          (\<lambda>_ w'. totals (view W w') r u (max h l)) (\<lambda>_ _. False) w2"
        using wp_raise_highest [OF assms(1) w2] by (simp add: wpP_bind [of "liftP m" for m] wpP_lift atoi_dec [OF assms(9,10)])
    qed (simp add: is_global_def)
  qed (use assms(4,5) in \<open>simp_all add: increment_name\<close>)
  then show ?thesis by (auto elim!: wpP_total)
qed

theorem process_totals_witness:
  "\<exists>w'. tp_gvstatsincr solo_db (Map.empty((''highest'', []) \<mapsto> dec_of_int 52), Final) = Inr (Inr (), w') \<and> totals (view solo_world w') 0 0 52"
  using process_totals [OF solo_laws, of "(Map.empty((''highest'', []) \<mapsto> dec_of_int 52), Final)" 0 0 0 52]
  by (simp add: totals_def holds_int_def)

text \<open>A call in a transaction: it asks for a restart, where that is still possible, or acts on contents that stay as they are.\<close>

definition asked :: "'w shared_db \<Rightarrow> 'w world \<Rightarrow> 'w \<Rightarrow> c_fault + (int + 'a) \<times> 'w \<Rightarrow> bool" where
  "asked db W w x \<longleftrightarrow> mode W w = Retry \<and> (\<exists>w'. x = Inr (Inl (db_restart db), w'))"

lemma incr_run:
  assumes "shared_laws db W" "mode W w \<noteq> Outside" "holds_int (view W w) (g, []) r" "\<bar>r + increment inc\<bar> < 10 ^ 18" "is_global g"
    and "\<And>v w'. mode W w' = mode W w \<Longrightarrow> view W w' = (view W w)((g, []) \<mapsto> dec_of_int (r + increment inc)) \<Longrightarrow> asked db W w (m w') \<or> P (m w')"
  shows "asked db W w (bindP (callP (db_incr db g [] inc)) (\<lambda>(s, v). thenP (passS db s) m) w) \<or>
    P (bindP (callP (db_incr db g [] inc)) (\<lambda>(s, v). thenP (passS db s) m) w)"
proof -
  obtain s x w' where c: "db_incr db g [] inc w = ((s, x), w')" by (metis prod.collapse)
  have law: "incr_law db W" using assms(1) by (simp add: shared_laws_def)
  have seen: "sees W w c \<longleftrightarrow> c = view W w" for c using assms(2) by (simp add: sees_def)
  have run: "bindP (callP (db_incr db g [] inc)) (\<lambda>(s, v). thenP (passS db s) m) w = thenP (passS db s) m w'"
    by (simp add: bindP_def callP_def c)
  have "mode W w' = mode W w \<and> (s = db_restart db \<and> mode W w = Retry \<or> s = db_ok db \<and>
      (\<exists>m. holds_int (view W w) (g, []) m \<and> view W w' = (view W w)((g, []) \<mapsto> dec_of_int (m + increment inc))))"
    using law [unfolded incr_law_def, rule_format, OF c] assms(2-4) by (auto simp: seen may_restart_def)
  then show ?thesis
  proof (elim conjE disjE exE)
    assume "s = db_restart db" "mode W w = Retry"
    then show ?thesis unfolding run by (simp add: asked_def thenP_def passS_def bindP_def leave_def)
  next
    fix k assume k: "mode W w' = mode W w" "s = db_ok db" "holds_int (view W w) (g, []) k"
      "view W w' = (view W w)((g, []) \<mapsto> dec_of_int (k + increment inc))"
    have "k = r" by (rule holds_int_unique [OF k(3) assms(3)])
    moreover have "thenP (passS db s) m w' = m w'"
      using k(2) shared_statuses(1) [OF assms(1)] by (simp add: thenP_def passS_def okS_def assertP_def bindP_lift c_assert_def)
    ultimately show ?thesis unfolding run using assms(6) k(1,4) by simp
  qed
qed

lemma highest_run:
  assumes "shared_laws db W" "mode W w \<noteq> Outside" "holds_int (view W w) (''^highest'', []) h" "0 \<le> h" "h < 10 ^ 18"
    and "\<And>w'. mode W w' = mode W w \<Longrightarrow> view W w' = view W w \<Longrightarrow> h < 2 ^ 31 \<Longrightarrow> asked db W w (go h w') \<or> P (go h w')"
    and "2 ^ 31 \<le> h \<Longrightarrow> P (Inl Int_overflow)"
  shows "asked db W w (bindP (highest_gbl db) go w) \<or> P (bindP (highest_gbl db) go w)"
proof -
  obtain s x w' where c: "db_get db ''^highest'' [] tn_MAXVALUELEN w = ((s, x), w')" by (metis prod.collapse)
  have law: "get_law db W" using assms(1) by (simp add: shared_laws_def)
  note st = shared_statuses [OF assms(1)]
  have seen: "sees W w c \<longleftrightarrow> c = view W w" for c using assms(2) by (simp add: sees_def)
  have fits: "length (dec_of_int h) \<le> tn_MAXVALUELEN" using dec_fits_value [OF assms(4,5)] by simp
  have global: "is_global ''^highest''" by (simp add: is_global_def)
  have "mode W w' = mode W w \<and> (s = db_restart db \<and> mode W w = Retry \<or> view W w' = view W w \<and>
      (h = 0 \<and> s = db_gvundef db \<or> s = db_ok db \<and> x = dec_of_int h))"
    using law [unfolded get_law_def, rule_format, OF c] assms(3) fits global
    by (auto simp: seen may_restart_def holds_int_def split: option.splits)
  then show ?thesis
  proof (elim conjE disjE)
    assume "s = db_restart db" "mode W w = Retry"
    then show ?thesis by (simp add: asked_def highest_gbl_def bindP_def callP_def c leave_def)
  next
    assume "mode W w' = mode W w" "view W w' = view W w" "h = 0" "s = db_gvundef db"
    then show ?thesis using assms(6) st(4) by (simp add: highest_gbl_def bindP_def callP_def c retP_def)
  next
    assume w': "mode W w' = mode W w" "view W w' = view W w" "s = db_ok db" "x = dec_of_int h"
    have run: "bindP (highest_gbl db) go w = bindP (liftP (atoi_of (dec_of_int h))) go w'"
      using w'(3,4) st(1,2) by (simp add: highest_gbl_def bindP_def callP_def c thenP_def okS_def assertP_def liftP_def c_assert_def)
    have "atoi_of (dec_of_int h) = (if h < 2 ^ 31 then Inr h else Inl Int_overflow)"
      using assms(4,5) c_string_dec [of h] by (simp add: atoi_of_def cstr_simps int_of_def)
    then show ?thesis unfolding run using assms(6) [OF w'(1,2)] assms(7) by (auto simp: bindP_lift bindP_fault)
  qed
qed

text \<open>C32. The transaction of a thread in any of its tries: where no call asks for a restart, which only a try that is not the
  last one may see, it adds the counts of the thread to the totals of reads and updates and raises the highest number, and where
  \<^verbatim>\<open>^highest\<close> holds a number that no \<^verbatim>\<open>int\<close> holds the \<^verbatim>\<open>atoi\<close> of its value overflows.
  Where a call asks for a restart the transaction returns that status.\<close>

theorem thread_totals:
  assumes "shared_laws db W" "mode W w \<noteq> Outside" "totals (view W w) r u h" "0 \<le> h" "h < 10 ^ 18"
    and "\<bar>r + gv_reads st\<bar> < 10 ^ 18" "\<bar>u + gv_updates st\<bar> < 10 ^ 18"
  shows "(mode W w = Retry \<and> (\<exists>w'. st_tp_gvstatsincr db st w = Inr (Inl (db_restart db), w'))) \<or>
    (if h < 2 ^ 31
     then \<exists>w'. st_tp_gvstatsincr db st w = Inr (Inr (), w') \<and>
            totals (view W w') (r + gv_reads st) (u + gv_updates st) (max h (gv_highest st)) \<and>
            (\<forall>k. fst k \<notin> {''^reads'', ''^updates'', ''^highest''} \<longrightarrow> view W w' k = view W w k)
     else st_tp_gvstatsincr db st w = Inl Int_overflow)"
proof -
  let ?P = "\<lambda>x. if h < 2 ^ 31
     then \<exists>w'. x = Inr (Inr (), w') \<and> totals (view W w') (r + gv_reads st) (u + gv_updates st) (max h (gv_highest st)) \<and>
            (\<forall>k. fst k \<notin> {''^reads'', ''^updates'', ''^highest''} \<longrightarrow> view W w' k = view W w k)
     else x = Inl Int_overflow"
  have inc: "increment (Some (dec_of_int n)) = n" for n by (simp add: increment_def cstr_simps)
  have "asked db W w (st_tp_gvstatsincr db st w) \<or> ?P (st_tp_gvstatsincr db st w)"
    unfolding st_tp_gvstatsincr_def
  proof (rule incr_run [where r = r and P = ?P, OF assms(1,2)])
    fix w1 assume w1: "mode W w1 = mode W w" "view W w1 = (view W w)((''^reads'', []) \<mapsto> dec_of_int (r + increment (Some (dec_of_int (gv_reads st)))))"
    have as1: "asked db W w1 = asked db W w" by (simp add: asked_def w1(1) fun_eq_iff)
    show "asked db W w (bindP (callP (db_incr db ''^updates'' [] (Some (dec_of_int (gv_updates st))))) (\<lambda>(s, v). thenP (passS db s)
        (bindP (highest_gbl db) (\<lambda>h. if gv_highest st > h then bindP (callP (db_set db ''^highest'' [] (dec_of_int (gv_highest st)))) (passS db)
          else retP ()))) w1) \<or> ?P (bindP (callP (db_incr db ''^updates'' [] (Some (dec_of_int (gv_updates st))))) (\<lambda>(s, v). thenP (passS db s)
        (bindP (highest_gbl db) (\<lambda>h. if gv_highest st > h then bindP (callP (db_set db ''^highest'' [] (dec_of_int (gv_highest st)))) (passS db)
          else retP ()))) w1)"
      unfolding as1 [symmetric]
    proof (rule incr_run [where r = u and P = ?P, OF assms(1)])
      fix w2 assume w2: "mode W w2 = mode W w1" "view W w2 = (view W w1)((''^updates'', []) \<mapsto> dec_of_int (u + increment (Some (dec_of_int (gv_updates st)))))"
      have as2: "asked db W w2 = asked db W w1" by (simp add: asked_def w2(1) fun_eq_iff)
      show "asked db W w1 (bindP (highest_gbl db) (\<lambda>h. if gv_highest st > h
          then bindP (callP (db_set db ''^highest'' [] (dec_of_int (gv_highest st)))) (passS db) else retP ()) w2) \<or>
        ?P (bindP (highest_gbl db) (\<lambda>h. if gv_highest st > h
          then bindP (callP (db_set db ''^highest'' [] (dec_of_int (gv_highest st)))) (passS db) else retP ()) w2)"
        unfolding as2 [symmetric]
      proof (rule highest_run [where h = h and P = ?P, OF assms(1)])
        fix w3 assume w3: "mode W w3 = mode W w2" "view W w3 = view W w2" "h < 2 ^ 31"
        have t3: "totals (view W w3) (r + gv_reads st) (u + gv_updates st) h"
          "\<forall>k. fst k \<notin> {''^reads'', ''^updates'', ''^highest''} \<longrightarrow> view W w3 k = view W w k"
          using assms(3) by (auto simp: w3(2) w2(2) w1(2) totals_def holds_int_def inc)
        have m3: "mode W w3 = mode W w" using w1(1) w2(1) w3(1) by simp
        show "asked db W w2 ((if gv_highest st > h then bindP (callP (db_set db ''^highest'' [] (dec_of_int (gv_highest st)))) (passS db) else retP ()) w3) \<or>
          ?P ((if gv_highest st > h then bindP (callP (db_set db ''^highest'' [] (dec_of_int (gv_highest st)))) (passS db) else retP ()) w3)"
        proof (cases "gv_highest st > h")
          case True
          obtain s w4 where c: "db_set db ''^highest'' [] (dec_of_int (gv_highest st)) w3 = (s, w4)" by force
          have "set_law db W" using assms(1) by (simp add: shared_laws_def)
          moreover have "allowed W w3 (\<lambda>c. c((''^highest'', []) \<mapsto> dec_of_int (gv_highest st)))" using assms(2) m3 by (simp add: allowed_def)
          ultimately have "s = db_restart db \<and> mode W w = Retry \<or>
              s = db_ok db \<and> view W w4 = (view W w3)((''^highest'', []) \<mapsto> dec_of_int (gv_highest st))"
            using c assms(2) m3 unfolding set_law_def by (fastforce simp: sees_def may_restart_def)
          then show ?thesis
          proof
            assume "s = db_restart db \<and> mode W w = Retry"
            then show ?thesis using True m3 w3(1) by (simp add: asked_def bindP_def callP_def c passS_def leave_def)
          next
            assume w4: "s = db_ok db \<and> view W w4 = (view W w3)((''^highest'', []) \<mapsto> dec_of_int (gv_highest st))"
            have "totals (view W w4) (r + gv_reads st) (u + gv_updates st) (max h (gv_highest st))"
              "\<forall>k. fst k \<notin> {''^reads'', ''^updates'', ''^highest''} \<longrightarrow> view W w4 k = view W w k"
              using t3 True w4 by (auto simp: totals_def holds_int_def max_def)
            then show ?thesis using True w3(3) w4 shared_statuses(1) [OF assms(1)]
              by (simp add: bindP_def callP_def c passS_def okS_def assertP_def liftP_def c_assert_def)
          qed
        qed (use t3 w3(3) in \<open>auto simp: retP_def max_def\<close>)
      qed (use assms(2-5) w1 w2 in \<open>simp_all add: totals_def holds_int_def\<close>)
    qed (use assms(2,3,7) w1 in \<open>simp_all add: totals_def holds_int_def inc is_global_def\<close>)
  qed (use assms(3,6) in \<open>simp_all add: totals_def inc is_global_def\<close>)
  then show ?thesis by (simp only: asked_def)
qed

theorem thread_totals_witness:
  "(\<exists>w'. st_tp_gvstatsincr solo_db \<lparr>gv_reads = 7, gv_updates = 5, gv_highest = 52\<rparr> (Map.empty, Final) = Inr (Inr (), w') \<and>
     totals (view solo_world w') 7 5 52) \<and>
   st_tp_gvstatsincr solo_db \<lparr>gv_reads = 7, gv_updates = 5, gv_highest = 52\<rparr>
     (Map.empty((''^highest'', []) \<mapsto> dec_of_int 17202377752), Final) = Inl Int_overflow"
  using thread_totals [OF solo_laws, of "(Map.empty, Final)" 0 0 0 "\<lparr>gv_reads = 7, gv_updates = 5, gv_highest = 52\<rparr>"]
    thread_totals [OF solo_laws, of "(Map.empty((''^highest'', []) \<mapsto> dec_of_int 17202377752), Final)" 0 0 17202377752
      "\<lparr>gv_reads = 7, gv_updates = 5, gv_highest = 52\<rparr>"]
  by (auto simp: totals_def holds_int_def)

text \<open>A number above the \<^verbatim>\<open>int\<close>s as the highest of a process is undefined behaviour in its transaction.\<close>

theorem highest_overflows:
  assumes "totals c r u h" "0 \<le> h" "h < 2 ^ 31" "c (''highest'', []) = Some (dec_of_int l)" "2 ^ 31 \<le> l" "l < 10 ^ 13"
  shows "tp_gvstatsincr solo_db (c, Final) = Inl Int_overflow"
proof -
  have l: "atoi_of (dec_of_int l) = Inl Int_overflow"
    using assms(5,6) c_string_dec [of l] by (simp add: atoi_of_def cstr_simps int_of_def)
  have h: "c (''^highest'', []) = None \<or> c (''^highest'', []) = Some (dec_of_int h)"
    using assms(1) by (auto simp: totals_def holds_int_def split: option.splits)
  have "solo_value c (''^reads'', []) = r" "solo_value c' (''^updates'', []) = u" if "c' (''^updates'', []) = c (''^updates'', [])" for c'
    using assms(1) that by (auto simp: totals_def holds_int_def solo_value_def cstr_simps split: option.splits)
  then show ?thesis
    using h l atoi_dec [OF assms(2,3)] assms(4)
    by (auto simp: tp_gvstatsincr_def highest_gbl_def bindP_def thenP_def callP_def passS_def okS_def assertP_def liftP_def retP_def getS_def
      solo_incr_def solo_db_def Let_def)
qed

theorem highest_overflows_witness:
  "tp_gvstatsincr solo_db (Map.empty((''highest'', []) \<mapsto> dec_of_int 2482111348), Final) = Inl Int_overflow"
  by (rule highest_overflows [of _ 0 0 0 2482111348]) (simp_all add: totals_def holds_int_def)

section \<open>The table is not cleared\<close>

lemma solo_spell:
  assumes "has_digits c" "0 \<le> n" "n < 10 ^ 13"
  shows "inttostr solo_db n (c, m) = Inr (Inr (spell n), (c, m))"
proof -
  have "has_digits (view solo_world (c, m))" using assms(1) by simp
  then obtain w' where "inttostr solo_db n (c, m) = Inr (Inr (spell n), w')" "later solo_world (c, m) w'"
    using inttostr_fits [OF solo_laws, of "(c, m)" n] spell_fits [OF assms(2,3)] assms(2) by auto
  then show ?thesis by (cases w') (auto simp: later_def solo_sees)
qed

lemma solo_known_steps: "c (''^step'', [s]) = Some x \<Longrightarrow> known_steps solo_db s (c, m) = Inr (Inr True, (c, m))"
  by (auto simp: known_steps_def solo_db_def bindP_def thenP_def callP_def okS_def assertP_def liftP_def retP_def intro: exI [of _ "[]"])

text \<open>A number whose steps are known changes the path and the count of reads only.\<close>

lemma solo_known_number:
  assumes "has_digits c" "1 < n" "n < 10 ^ 13" "c (''^step'', [spell n]) = Some x"
  shows "\<exists>v. dostep_one (Suc fuel) solo_db (m_counters solo_db) n () (c, m) = Inr (Inr (), ((without_tree ''currpath'' [] c)((''reads'', []) \<mapsto> v), m))"
proof -
  let ?c = "without_tree ''currpath'' [] c"
  obtain v where read: "count_read (m_counters solo_db) () (?c, m) = Inr (Inr (), (?c((''reads'', []) \<mapsto> v), m))"
    by (simp add: m_counters_def incrS_def bindP_def thenP_def callP_def okS_def assertP_def liftP_def retP_def solo_incr_def Let_def)
  let ?d = "?c((''reads'', []) \<mapsto> v)"
  have d: "has_digits ?d" using assms(1) by (simp add: has_digits_def without_tree_def)
  have e: "?d (''^step'', [spell n]) = Some x" using assms(4) by (simp add: without_tree_def)
  have n: "0 \<le> n" using assms(2) by simp
  have "walk (Suc fuel) solo_db (m_counters solo_db) n 0 () (?c, m) = Inr (Inr (n, 0, ()), (?d, m))"
    using assms(2) by (simp add: bindP_def read solo_spell [OF d n assms(3)] solo_known_steps [where c = ?d and s = "spell n" and x = x and m = m, OF e] retP_def)
  moreover have "bindP (callP (db_delete_tree solo_db ''currpath'' [])) (okS solo_db) (c, m) = Inr (Inr (), (?c, m))"
    by (simp add: bindP_def callP_def okS_def assertP_def liftP_def solo_delete_def)
  ultimately have "dostep_one (Suc fuel) solo_db (m_counters solo_db) n () (c, m) = Inr (Inr (), (?d, m))"
    by (simp add: dostep_one_def thenP_def bindP_def [of "bindP f g" for f g] bindP_def [of "walk f d C n i st" for f d C n i st] m_counters_def retP_def)
  then show ?thesis by blast
qed

lemma solo_known_block:
  assumes "\<forall>n. current \<le> n \<longrightarrow> n \<le> lastn \<longrightarrow> 1 < n \<and> n < 10 ^ 13 \<and> c (''^step'', [spell n]) \<noteq> None" "has_digits c"
  shows "\<exists>c'. dostep_loop (Suc fuel) solo_db (m_counters solo_db) current lastn () (c, m) = Inr (Inr (), (c', m)) \<and> c' (''^result'', []) = c (''^result'', [])"
  using assms
proof (induction "nat (lastn + 1 - current)" arbitrary: current c)
  case 0
  then show ?case by (subst dostep_loop.simps) (simp add: retP_def)
next
  case (Suc d)
  then have le: "current \<le> lastn" by simp
  then obtain x where x: "1 < current" "current < 10 ^ 13" "c (''^step'', [spell current]) = Some x" using Suc.prems(1) by auto
  obtain v where one: "dostep_one (Suc fuel) solo_db (m_counters solo_db) current () (c, m) =
      Inr (Inr (), ((without_tree ''currpath'' [] c)((''reads'', []) \<mapsto> v), m))"
    using solo_known_number [OF Suc.prems(2) x] by blast
  let ?c = "(without_tree ''currpath'' [] c)((''reads'', []) \<mapsto> v)"
  have same: "?c (g, ss) = c (g, ss)" if "g \<notin> {''currpath'', ''reads''}" for g ss using that by (auto simp: without_tree_def)
  have "\<exists>c'. dostep_loop (Suc fuel) solo_db (m_counters solo_db) (current + 1) lastn () (?c, m) = Inr (Inr (), (c', m)) \<and>
      c' (''^result'', []) = ?c (''^result'', [])"
  proof (rule Suc.hyps(1))
    show "d = nat (lastn + 1 - (current + 1))" using Suc.hyps(2) by simp
    show "has_digits ?c" using Suc.prems(2) same by (simp add: has_digits_def)
    show "\<forall>n. current + 1 \<le> n \<longrightarrow> n \<le> lastn \<longrightarrow> 1 < n \<and> n < 10 ^ 13 \<and> ?c (''^step'', [spell n]) \<noteq> None"
      using Suc.prems(1) same by simp
  qed
  then show ?case using le one same by (subst dostep_loop.simps) (simp add: bindP_def)
qed

text \<open>After \<^verbatim>\<open>dbinit\<close> a line over numbers that an earlier line has worked on reports zero steps.\<close>

theorem repeated_line_reports_zero:
  assumes "\<forall>n. first \<le> n \<longrightarrow> n \<le> lastn \<longrightarrow> 1 < n \<and> n < 10 ^ 13 \<and> c (''^step'', [spell n]) \<noteq> None" "has_digits c" "0 < fuel"
  shows "\<exists>c'. thenP (dbinit solo_db) (dostep fuel solo_db first lastn) (c, Outside) = Inr (Inr (), (c', Outside)) \<and>
    c' (''^result'', []) = Some (dec_of_int 0)"
proof -
  let ?c = "fold (\<lambda>g c. c((g, []) \<mapsto> dec_of_int 0)) [''^count'', ''^highest'', ''^reads'', ''^result'', ''^step'', ''^updates''] c"
  have init: "dbinit solo_db (c, Outside) = Inr (Inr (), (?c, Outside))"
    by (simp add: dbinit_def setS_def okS_def bindP_def thenP_def callP_def assertP_def liftP_def retP_def solo_db_def)
  have "has_digits ?c" using assms(2) by (simp add: has_digits_def)
  moreover have "\<forall>n. first \<le> n \<longrightarrow> n \<le> lastn \<longrightarrow> 1 < n \<and> n < 10 ^ 13 \<and> ?c (''^step'', [spell n]) \<noteq> None" using assms(1) by simp
  ultimately obtain c' where c': "dostep_loop fuel solo_db (m_counters solo_db) first lastn () (?c, Outside) = Inr (Inr (), (c', Outside))"
    "c' (''^result'', []) = ?c (''^result'', [])"
    using solo_known_block [of first lastn ?c "fuel - 1" Outside] assms(3) by auto
  have "thenP (dbinit solo_db) (dostep fuel solo_db first lastn) (c, Outside) = Inr (Inr (), (c', Outside))"
    unfolding thenP_def by (simp only: bindP_run [where m = "dbinit solo_db" and w = "(c, Outside)", OF init] dostep_def c'(1))
  moreover have "c' (''^result'', []) = Some (dec_of_int 0)" using c'(2) by simp
  ultimately show ?thesis by blast
qed

theorem repeated_line_reports_zero_witness:
  "\<exists>c c'. thenP (dbinit solo_db) (dostep 1 solo_db 2 3) (c, Outside) = Inr (Inr (), (c', Outside)) \<and> c' (''^result'', []) = Some (dec_of_int 0)"
proof -
  obtain w where w: "started 1 3 small_limits w" using ex_started ..
  let ?c = "(view solo_world w)((''^step'', [spell 2]) \<mapsto> spell 1, (''^step'', [spell 3]) \<mapsto> spell 7)"
  have "has_digits ?c" using startedD(2) [OF w] by (simp add: has_digits_def)
  moreover have "1 < n \<and> n < 10 ^ 13 \<and> ?c (''^step'', [spell n]) \<noteq> None" if "2 \<le> n" "n \<le> 3" for n
  proof -
    have "n = 2 \<or> n = 3" using that by linarith
    then show ?thesis by auto
  qed
  ultimately show ?thesis using repeated_line_reports_zero [of 2 3 ?c 1] by auto
qed

section \<open>The identifiers of the threads\<close>

lemma solo_count: "incrS solo_db g [] None w = Inr (Inr (dec_of_int (solo_value (fst w) (g, []) + 1)), ((fst w)((g, []) \<mapsto> dec_of_int (solo_value (fst w) (g, []) + 1)), snd w))"
  by (simp add: incrS_def bindP_def thenP_def callP_def okS_def assertP_def liftP_def retP_def solo_incr_def Let_def increment_def)

text \<open>As many threads as \<^verbatim>\<open>MAXTHREADS\<close> allows are one too many for the array of their identifiers.\<close>

theorem last_thread_overflows:
  assumes "tn_db E = solo_db" "\<forall>i s w. fst (fst (tn_create E i s w)) = 0"
  shows "create_threads E i [1..tn_MAXCHILDREN] w = Inl Write_oob"
proof -
  have "create_threads E i (ss @ [tn_MAXCHILDREN]) w = Inl Write_oob" if "\<forall>s \<in> set ss. s < tn_MAXCHILDREN" for ss w
    using that
  proof (induction ss arbitrary: w)
    case (Cons s ss)
    then show ?case using assms(2) by (simp add: assms(1) thenP_def bindP_def solo_count liftP_def callP_def assertP_def case_prod_beta)
  qed (simp add: assms(1) thenP_def bindP_def solo_count liftP_def)
  moreover have "[1..tn_MAXCHILDREN] = [1..31] @ [tn_MAXCHILDREN]" by (simp add: tn_MAXCHILDREN_def upto_rec1)
  moreover have "\<forall>s \<in> set [1..31]. s < tn_MAXCHILDREN" by (simp add: tn_MAXCHILDREN_def)
  ultimately show ?thesis by simp
qed

theorem last_thread_overflows_witness:
  "create_threads \<lparr>tn_db = solo_db, tn_streams = 32, tn_getpid = Pair 1, tn_creat = (\<lambda>f. Pair 3), tn_dup2 = (\<lambda>old new. Pair new), tn_fork = Pair 1,
     tn_sleep = (\<lambda>n. Pair ()), tn_time = Pair 0, tn_waitpid = (\<lambda>pid. Pair (pid, False)), tn_create = (\<lambda>i s. Pair (0, s)), tn_join = (\<lambda>t. Pair 0)\<rparr>
     1 [1..tn_MAXCHILDREN] (Map.empty, Outside) = Inl Write_oob"
  by (rule last_thread_overflows) simp_all

end
