(* ===== verification/Stress.thy ===== *)
theory Stress
  imports Threen1f_Run
begin

text \<open>
  The workload \<^verbatim>\<open>stress/inref/simpleapi_run_concurr.c\<close> and its twin \<^verbatim>\<open>stress/inref/simplethreadapi_run_concurr.c\<close>: ten
  processes kill, set and verify the same globals, one outside transactions, four in transactions that are rolled back and five in
  transactions that are committed.  The model takes the calls of a child as a function of the transaction token.  The
  threaded program passes the token on; the other one has calls without a token, which is the constant function.
\<close>

section \<open>The processes\<close>

datatype tpflag_t = NTP | TPR | TPC

datatype act_t = SET | KILL | VER

definition sx_NTPJ :: int where
  "sx_NTPJ = 1"

definition sx_TPRJ :: int where
  "sx_TPRJ = 5"

definition sx_NCHILDREN :: int where
  "sx_NCHILDREN = 10"

definition sx_NOTTP :: nat where
  "sx_NOTTP = 0"

text \<open>
  The calls: the database, \<^verbatim>\<open>ydb_get_s\<close> of an intrinsic special variable, which is not a node, and the system.  The time is
  what \<^verbatim>\<open>localtime\<close> makes of it; \<^verbatim>\<open>waitpid\<close> answers with whether \<^verbatim>\<open>errno\<close> is \<^verbatim>\<open>EINTR\<close>.
\<close>

record 'w stress_env =
  sx_db :: "'w shared_db"
  sx_rollback :: int
  sx_isv :: "string \<Rightarrow> 'w \<Rightarrow> (int \<times> string) \<times> 'w"
  sx_write :: "int \<Rightarrow> string \<Rightarrow> 'w \<Rightarrow> int \<times> 'w"
  sx_localtime :: "'w \<Rightarrow> (nat \<times> nat \<times> nat) \<times> 'w"
  sx_getpid :: "'w \<Rightarrow> int \<times> 'w"
  sx_creat :: "string \<Rightarrow> 'w \<Rightarrow> int \<times> 'w"
  sx_dup2 :: "int \<Rightarrow> int \<Rightarrow> 'w \<Rightarrow> int \<times> 'w"
  sx_fork :: "'w \<Rightarrow> int \<times> 'w"
  sx_sleep :: "nat \<Rightarrow> 'w \<Rightarrow> unit \<times> 'w"
  sx_waitpid :: "int \<Rightarrow> 'w \<Rightarrow> (int \<times> bool) \<times> 'w"

text \<open>\<^verbatim>\<open>ydb_tp_s\<close> with the identifier of the transaction and the names of the variables that a restart restores.\<close>

type_synonym 'w tp_call = "string \<Rightarrow> string list \<Rightarrow> (nat \<Rightarrow> 'w \<Rightarrow> c_fault + int \<times> 'w) \<Rightarrow> 'w \<Rightarrow> c_fault + int \<times> 'w"

text \<open>The global variables of a child.\<close>

record stress_job =
  sj_child :: int
  sj_outfd :: int
  sj_pid :: int
  sj_tpflag :: tpflag_t

section \<open>Buffers and calls\<close>

text \<open>\<^verbatim>\<open>YDB_COPY_BUFF_TO_BUFF\<close>: all buffers have \<^verbatim>\<open>MAXVALUELEN\<close> bytes, which is 256 here too.\<close>

definition copyS :: "string \<Rightarrow> ('w, unit) prog" where
  "copyS v = assertP (length v \<le> tn_MAXVALUELEN)"

text \<open>\<^verbatim>\<open>sprintf\<close> into a buffer writes a NUL too; then the text is written and the lengths are asserted.\<close>

definition sprintS :: "string \<Rightarrow> ('w, string) prog" where
  "sprintS s = liftP (if length s < tn_MAXVALUELEN then Inr s else Inl Write_oob)"

definition writeS :: "'w stress_env \<Rightarrow> int \<Rightarrow> string \<Rightarrow> ('w, unit) prog" where
  "writeS E fd s =
     bindP (sprintS s) (\<lambda>v. bindP (callP (sx_write E fd v)) (\<lambda>nbytes.
     thenP (assertP (nbytes = int (length v))) (assertP (length v < tn_MAXVALUELEN))))"

definition getTP :: "'w shared_db \<Rightarrow> string \<Rightarrow> string list \<Rightarrow> ('w, string) prog" where
  "getTP db g ss = bindP (callP (db_get db g ss tn_MAXVALUELEN)) (\<lambda>(s, v). thenP (passS db s) (retP v))"

definition setTP :: "'w shared_db \<Rightarrow> string \<Rightarrow> string list \<Rightarrow> string \<Rightarrow> ('w, unit) prog" where
  "setTP db g ss v = bindP (callP (db_set db g ss v)) (passS db)"

definition deleteTP :: "'w shared_db \<Rightarrow> string \<Rightarrow> string list \<Rightarrow> ('w, unit) prog" where
  "deleteTP db g ss = bindP (callP (db_delete_tree db g ss)) (passS db)"

definition deleteS :: "'w shared_db \<Rightarrow> string \<Rightarrow> ('w, unit) prog" where
  "deleteS db g = bindP (callP (db_delete_tree db g [])) (okS db)"

definition get_intS :: "'w shared_db \<Rightarrow> string \<Rightarrow> ('w, int) prog" where
  "get_intS db g = bindP (getS db g []) (\<lambda>v. liftP (atoi_of v))"

definition two_digits :: "nat \<Rightarrow> string" where
  "two_digits n = [digit_char (n div 10), digit_char (n mod 10)]"

definition get_curtime :: "'w stress_env \<Rightarrow> ('w, string) prog" where
  "get_curtime E = bindP (callP (sx_localtime E)) (\<lambda>(h, m, s). retP (two_digits h @ '':'' @ two_digits m @ '':'' @ two_digits s))"

section \<open>Filling\<close>

text \<open>The globals that all processes share, and those with the process identifier as a subscript.\<close>

definition shared_fills :: "string list" where
  "shared_fills = [''^afill'', ''^e'', ''^cfill'', ''^dfill'', ''^ffill'']"

definition own_fills :: "string list" where
  "own_fills = [''^efill'', ''^%1'', ''^b'', ''^bbbbbbbbbbbbbbbbbbbbbbbbbbbbbbb'']"

text \<open>\<^verbatim>\<open>SET obj=^cust(ndx,^instance)\<close>\<close>

definition fill_obj :: "'w shared_db \<Rightarrow> string \<Rightarrow> ('w, string) prog" where
  "fill_obj db ndx =
     bindP (getTP db ''^instance'' []) (\<lambda>instance.
     bindP (getTP db ''^cust'' [ndx, instance]) (\<lambda>obj.
     thenP (setS db ''obj'' [] obj) (thenP (copyS obj) (retP obj))))"

text \<open>The subscripts of the globals of the process: \<^verbatim>\<open>iter\<close> and \<^verbatim>\<open>$j\<close> are copied into their places.\<close>

definition own_subs :: "stress_job \<Rightarrow> int \<Rightarrow> string \<Rightarrow> string \<Rightarrow> ('w, string list) prog" where
  "own_subs J iter ndx obj =
     thenP (copyS (dec_of_int iter)) (thenP (copyS (dec_of_int (sj_pid J))) (retP [ndx, obj, dec_of_int (sj_pid J), dec_of_int iter]))"

definition add_prime :: "'w shared_db \<Rightarrow> int \<Rightarrow> string list \<Rightarrow> string \<Rightarrow> ('w, unit) prog" where
  "add_prime db prime ss g =
     bindP (callP (db_get db g ss tn_MAXVALUELEN)) (\<lambda>(s, v).
     if s = db_restart db then leave s
     else bindP (if s = db_gvundef db then retP 0 else thenP (okS db s) (liftP (atoi_of v))) (\<lambda>tmp.
          bindP (liftP (int_of (tmp + prime))) (\<lambda>tmp. setTP db g ss (dec_of_int tmp))))"

definition set_turn :: "'w shared_db \<Rightarrow> stress_job \<Rightarrow> int \<Rightarrow> int \<Rightarrow> ('w, unit) prog" where
  "set_turn db J prime iter =
     bindP (getS db ''ndx'' []) (\<lambda>ndx.
     bindP (fill_obj db ndx) (\<lambda>obj.
     thenP (seqP (map (\<lambda>g. setTP db g [ndx, obj, dec_of_int iter] ndx) shared_fills))
     (bindP (own_subs J iter ndx obj) (\<lambda>ss. seqP (map (add_prime db prime ss) own_fills)))))"

definition kill_turn :: "'w shared_db \<Rightarrow> stress_job \<Rightarrow> int \<Rightarrow> ('w, unit) prog" where
  "kill_turn db J iter =
     bindP (getS db ''ndx'' []) (\<lambda>ndx.
     bindP (fill_obj db ndx) (\<lambda>obj.
     thenP (seqP (map (\<lambda>g. deleteTP db g [ndx, obj, dec_of_int iter]) shared_fills))
     (bindP (own_subs J iter ndx obj) (\<lambda>ss. seqP (map (\<lambda>g. deleteTP db g ss) own_fills)))))"

section \<open>Verifying\<close>

definition m_EXAM_randfill :: "'w stress_env \<Rightarrow> stress_job \<Rightarrow> string \<Rightarrow> string \<Rightarrow> string \<Rightarrow> ('w, unit) prog" where
  "m_EXAM_randfill E J pos vcorr vcomp =
     (if vcorr = vcomp then retP ()
      else thenP (writeS E (sj_outfd J) ('' ** FAIL verifying global '' @ pos @ [CHR 0x0A]))
        (bindP (liftP (c_string vcorr)) (\<lambda>s. thenP (writeS E (sj_outfd J) (CHR 0x09 # ''CORRECT = '' @ s @ [CHR 0x0A]))
        (bindP (liftP (c_string vcomp)) (\<lambda>s. thenP (writeS E (sj_outfd J) (CHR 0x09 # ''COMPUTED = '' @ s @ [CHR 0x0A]))
        (thenP (incrS (sx_db E) ''ERR'' [] None) (retP ())))))))"

text \<open>The name of a node, as the report has it; every subscript is made a C string in its buffer.\<close>

fun commas :: "string list \<Rightarrow> string" where
  "commas [] = []"
| "commas [s] = s"
| "commas (s # ss) = s @ '','' @ commas ss"

definition c_strings :: "string list \<Rightarrow> c_fault + string list" where
  "c_strings ss = foldr (\<lambda>s m. bindE (c_string s) (\<lambda>t. bindE m (\<lambda>ts. Inr (t # ts)))) ss (Inr [])"

definition ver_node :: "'w stress_env \<Rightarrow> stress_job \<Rightarrow> string list \<Rightarrow> string \<Rightarrow> string \<Rightarrow> ('w, unit) prog" where
  "ver_node E J ss vcorr g =
     bindP (getTP (sx_db E) g ss) (\<lambda>v.
     bindP (liftP (c_strings ss)) (\<lambda>texts.
     bindP (sprintS (g @ ''('' @ commas texts @ '')'')) (\<lambda>pos.
     thenP (assertP (length pos < tn_MAXVALUELEN)) (m_EXAM_randfill E J pos vcorr v))))"

definition ver_turn :: "'w stress_env \<Rightarrow> stress_job \<Rightarrow> int \<Rightarrow> int \<Rightarrow> ('w, unit) prog" where
  "ver_turn E J prime iter =
     bindP (getS (sx_db E) ''ndx'' []) (\<lambda>ndx.
     thenP (copyS ndx)
     (bindP (fill_obj (sx_db E) ndx) (\<lambda>obj.
      thenP (seqP (map (ver_node E J [ndx, obj, dec_of_int iter] ndx) shared_fills))
      (bindP (own_subs J iter ndx obj) (\<lambda>ss. seqP (map (ver_node E J ss (dec_of_int prime)) own_fills))))))"

section \<open>Random filling\<close>

text \<open>\<^verbatim>\<open>QUIT:ERR>MAXERR\<close>\<close>

definition too_many :: "'w shared_db \<Rightarrow> ('w, bool) prog" where
  "too_many db = bindP (get_intS db ''ERR'') (\<lambda>ERR. bindP (get_intS db ''MAXERR'') (\<lambda>MAXERR. retP (ERR > MAXERR)))"

definition next_ndx :: "int \<Rightarrow> int \<Rightarrow> int \<Rightarrow> c_fault + int" where
  "next_ndx prime root ndx = bindE (int_of (ndx * root)) (\<lambda>x. c_rem x prime)"

primrec fill_loop :: "'w shared_db \<Rightarrow> ('w, unit) prog \<Rightarrow> int \<Rightarrow> int \<Rightarrow> nat \<Rightarrow> int \<Rightarrow> ('w, unit) prog" where
  "fill_loop db turn prime root 0 ndx = retP ()"
| "fill_loop db turn prime root (Suc n) ndx =
     thenP turn
     (bindP (liftP (next_ndx prime root ndx)) (\<lambda>ndx.
      thenP (setS db ''ndx'' [] (dec_of_int ndx))
      (bindP (too_many db) (\<lambda>quit. if quit then retP () else fill_loop db turn prime root n ndx))))"

definition act_turn :: "'w stress_env \<Rightarrow> stress_job \<Rightarrow> act_t \<Rightarrow> int \<Rightarrow> int \<Rightarrow> ('w, unit) prog" where
  "act_turn E J act prime iter =
     (case act of SET \<Rightarrow> set_turn (sx_db E) J prime iter | VER \<Rightarrow> ver_turn E J prime iter | KILL \<Rightarrow> kill_turn (sx_db E) J iter)"

definition act_name :: "act_t \<Rightarrow> string" where
  "act_name act = (if act = SET then ''set'' else if act = KILL then ''kill'' else ''ver'')"

definition m_filling_randfill :: "'w stress_env \<Rightarrow> stress_job \<Rightarrow> act_t \<Rightarrow> int \<Rightarrow> int \<Rightarrow> int \<Rightarrow> ('w, unit) prog" where
  "m_filling_randfill E J act prime root iter =
     (let db = sx_db E
      in thenP (setS db ''ERR'' [] (dec_of_int 0))
         (thenP (setS db ''MAXERR'' [] (dec_of_int 10))
         (thenP (setS db ''ndx'' [] (dec_of_int 1))
         (bindP (liftP (int_of (prime - 1))) (\<lambda>turns.
          thenP (fill_loop db (act_turn E J act prime iter) prime root (nat turns) 1)
          (bindP (get_intS db ''ERR'') (\<lambda>ERR.
           if ERR \<noteq> 0 then writeS E (sj_outfd J) (act_name act @ '' FAIL'' @ [CHR 0x0A]) else retP ())))))))"

definition m_randfill :: "'w stress_env \<Rightarrow> stress_job \<Rightarrow> act_t \<Rightarrow> int \<Rightarrow> int \<Rightarrow> ('w, unit) prog" where
  "m_randfill E J act pno iter =
     bindP (getTP (sx_db E) ''^root'' [dec_of_int pno]) (\<lambda>v. bindP (liftP (atoi_of v)) (\<lambda>root.
     bindP (getTP (sx_db E) ''^prime'' []) (\<lambda>v. bindP (liftP (atoi_of v)) (\<lambda>prime.
     m_filling_randfill E J act prime root iter))))"

section \<open>A job\<close>

definition get_isvS :: "'w stress_env \<Rightarrow> string \<Rightarrow> ('w, int) prog" where
  "get_isvS E name = bindP (callP (sx_isv E name)) (\<lambda>(s, v). thenP (okS (sx_db E) s) (liftP (atoi_of v)))"

definition job_stress_tpfn :: "'w stress_env \<Rightarrow> stress_job \<Rightarrow> int \<Rightarrow> ('w, unit) prog" where
  "job_stress_tpfn E J loop =
     bindP (liftP (bindE (int_of (2 * loop)) (\<lambda>x. bindE (c_rem x 10) (\<lambda>r. int_of (r + 1))))) (\<lambda>pno.
     thenP (m_randfill E J KILL pno loop)
     (thenP (m_randfill E J SET pno loop)
     (thenP (m_randfill E J VER pno loop)
     (bindP (get_isvS E ''$trestart'') (\<lambda>trestart.
     thenP (if trestart \<noteq> 0
       then thenP (assertP (sj_tpflag J \<noteq> NTP))
         (bindP (get_isvS E ''$tlevel'') (\<lambda>tlevel.
          writeS E (sj_outfd J) (''TRESTART = '' @ dec_of_int trestart @ '' For Loop='' @ dec_of_int loop @ '' TLEVEL='' @
            dec_of_int tlevel @ [CHR 0x0A])))
       else retP ())
     (if sj_tpflag J = TPR then leave (sx_rollback E) else retP ()))))))"

text \<open>The variables that a restart of the transaction restores.\<close>

definition fill_vars :: "string list" where
  "fill_vars = [''efill'', ''ffill'', ''gfill'', ''hfill'']"

text \<open>A turn; \<open>A\<close> has the calls by their token, \<open>tp\<close> starts a transaction.\<close>

definition run_tpfn :: "(nat \<Rightarrow> 'w stress_env) \<Rightarrow> 'w tp_call \<Rightarrow> stress_job \<Rightarrow> int \<Rightarrow> ('w, unit) prog" where
  "run_tpfn A tp J loop =
     (let E = A sx_NOTTP; ok = db_ok (sx_db E); f = \<lambda>tok. runP (db_ok (sx_db (A tok))) (job_stress_tpfn (A tok) J loop)
      in if sj_tpflag J \<noteq> NTP
         then bindP (callE (tp ''BA'' fill_vars f)) (\<lambda>status. assertP (status = ok \<or> status = sx_rollback E))
         else bindP (callE (f sx_NOTTP)) (\<lambda>status. assertP (status = ok)))"

definition stress_turn :: "(nat \<Rightarrow> 'w stress_env) \<Rightarrow> 'w tp_call \<Rightarrow> stress_job \<Rightarrow> int \<Rightarrow> ('w, unit) prog" where
  "stress_turn A tp J loop =
     (let E = A sx_NOTTP; db = sx_db E
      in thenP (writeS E (sj_outfd J) (''iteration number : '' @ dec_of_int loop @ [CHR 0x0A]))
         (bindP (get_curtime E) (\<lambda>now.
          thenP (writeS E (sj_outfd J) (''time : '' @ now @ [CHR 0x0A]))
          (thenP (seqP (map (deleteS db) fill_vars))
          (thenP (setS db ''loop'' [] (dec_of_int loop))
          (bindP (getS db ''loop'' []) (\<lambda>v.
           thenP (seqP (map (\<lambda>g. setS db g [v] v) fill_vars))
           (thenP (run_tpfn A tp J loop)
           (bindP (getS db ''jobno'' []) (\<lambda>jobno.
            bindP (getS db ''localinstance'' []) (\<lambda>localinstance.
            bindP (getS db ''loop'' []) (\<lambda>v.
            setS db ''^lasti'' [jobno, localinstance] v))))))))))))"

definition choose_tpflag :: "int \<Rightarrow> tpflag_t" where
  "choose_tpflag child = (if sx_NTPJ \<ge> child then NTP else if sx_TPRJ \<ge> child then TPR else TPC)"

definition tpflag_name :: "tpflag_t \<Rightarrow> string" where
  "tpflag_name flag = (case flag of NTP \<Rightarrow> ''NTP'' | TPR \<Rightarrow> ''TPR'' | TPC \<Rightarrow> ''TPC'')"

text \<open>A file of the child becomes a stream; \<open>between\<close> is what the child does in between.\<close>

definition redirectS :: "'w stress_env \<Rightarrow> string \<Rightarrow> int \<Rightarrow> ('w, int) prog" where
  "redirectS E file fd =
     bindP (callP (sx_creat E file)) (\<lambda>outfd.
     thenP (assertP (outfd \<noteq> - 1))
     (bindP (callP (sx_dup2 E outfd fd)) (\<lambda>newfd. thenP (assertP (newfd = fd)) (retP outfd))))"

text \<open>The child makes itself known and waits for the parent; the status of the increment is not looked at.\<close>

definition announce :: "'w stress_env \<Rightarrow> stress_job \<Rightarrow> ('w, unit) prog" where
  "announce E J =
     (let db = sx_db E; me = dec_of_int (sj_pid J)
      in thenP (setS db ''jobno'' [] (dec_of_int (sj_child J)))
         (bindP (getS db ''jobno'' []) (\<lambda>jobno.
          bindP (getS db ''localinstance'' []) (\<lambda>localinstance.
          thenP (setS db ''^PID'' [jobno, localinstance] me)
          (thenP (copyS localinstance)
          (thenP (callP (db_incr db ''^permit'' [localinstance] None))
          (thenP (copyS me)
          (locks db ''^permit'' [me]))))))))"

text \<open>The turns are those of \<^verbatim>\<open>for (loop = 1; loop <= iterate; loop++)\<close>.\<close>

definition m_job_stress :: "(nat \<Rightarrow> 'w stress_env) \<Rightarrow> 'w tp_call \<Rightarrow> int \<Rightarrow> ('w, unit) prog" where
  "m_job_stress A tp child =
     (let E = A sx_NOTTP; db = sx_db E; flag = choose_tpflag child
      in bindP (callP (sx_getpid E)) (\<lambda>pid.
         bindP (redirectS E (''stress.mjo'' @ dec_of_int child) 1) (\<lambda>outfd.
         let J = \<lparr>sj_child = child, sj_outfd = outfd, sj_pid = pid, sj_tpflag = flag\<rparr>
         in thenP (writeS E outfd (''PID: '' @ dec_of_int pid @ '' : TYPE:'' @ tpflag_name flag @ [CHR 0x0A]))
            (thenP (redirectS E (''stress.mje'' @ dec_of_int child) 2)
            (bindP (get_curtime E) (\<lambda>now.
             thenP (writeS E outfd (''Waiting for the parent to release lock : '' @ now @ [CHR 0x0A]))
             (thenP (announce E J)
             (bindP (get_intS db ''iterate'') (\<lambda>iterate.
              thenP (deleteS db ''loop'')
              (thenP (seqP (map (stress_turn A tp J) [1..iterate]))
              (bindP (get_curtime E) (\<lambda>now. writeS E outfd (''Successful : '' @ now @ [CHR 0x0A])))))))))))))"

section \<open>The parent\<close>

text \<open>\<^verbatim>\<open>return\<close> of a child leaves \<^verbatim>\<open>main\<close>.\<close>

fun fork_jobs :: "'w stress_env \<Rightarrow> (int \<Rightarrow> ('w, unit) prog) \<Rightarrow> int list \<Rightarrow> ('w, int list) prog" where
  "fork_jobs E job [] = retP []"
| "fork_jobs E job (child # children) =
     bindP (callP (sx_fork E)) (\<lambda>pid.
     thenP (assertP (0 \<le> pid))
     (if pid = 0 then thenP (job child) (leave (db_ok (sx_db E)))
      else bindP (fork_jobs E job children) (\<lambda>pids. retP (pid # pids))))"

primrec await_permits :: "nat \<Rightarrow> 'w stress_env \<Rightarrow> string \<Rightarrow> ('w, unit) prog" where
  "await_permits 0 E localinstance = liftP (Inl Out_of_fuel)"
| "await_permits (Suc fuel) E localinstance =
     (let db = sx_db E
      in bindP (callP (db_get db ''^permit'' [localinstance] tn_MAXVALUELEN)) (\<lambda>(s, v).
         bindP (if s \<noteq> db_gvundef db
                then thenP (okS db s) (bindP (liftP (atoi_of v)) (\<lambda>childcnt. retP (sx_NCHILDREN = childcnt)))
                else retP False) (\<lambda>ready.
         if ready then retP () else thenP (callP (sx_sleep E 1)) (await_permits fuel E localinstance))))"

primrec wait_job :: "nat \<Rightarrow> 'w stress_env \<Rightarrow> int \<Rightarrow> ('w, unit) prog" where
  "wait_job 0 E pid = liftP (Inl Out_of_fuel)"
| "wait_job (Suc fuel) E pid =
     bindP (callP (sx_waitpid E pid)) (\<lambda>(ret, eintr).
     if ret = - 1 \<and> eintr then wait_job fuel E pid else assertP (ret \<noteq> - 1))"

definition stress_parent :: "nat \<Rightarrow> 'w stress_env \<Rightarrow> (int \<Rightarrow> ('w, unit) prog) \<Rightarrow> string \<Rightarrow> ('w, unit) prog" where
  "stress_parent fuel E job iterate =
     (let db = sx_db E
      in bindP (callP (sx_getpid E)) (\<lambda>pid.
         thenP (copyS iterate)
         (thenP (setS db ''iterate'' [] iterate)
         (bindP (callP (sx_creat E ''stress.mjo0'')) (\<lambda>outfd.
          thenP (assertP (outfd \<noteq> - 1))
          (thenP (writeS E outfd (''PID: '' @ dec_of_int pid @ [CHR 0x0A]))
          (bindP (getS db ''^instance'' []) (\<lambda>localinstance.
           thenP (setS db ''localinstance'' [] localinstance)
           (thenP (locks db ''^permit'' [])
           (bindP (fork_jobs E job [1..sx_NCHILDREN]) (\<lambda>pids.
            thenP (copyS localinstance)
            (thenP (await_permits fuel E localinstance)
            (thenP (writeS E 1 (''Releasing jobs...'' @ [CHR 0x0A]))
            (thenP (unlocks db ''^permit'' [])
            (thenP (writeS E 1 (''Each job will start now...'' @ [CHR 0x0A]))
            (thenP (seqP (map (wait_job fuel E) pids))
            (writeS E 1 ([CHR 0x0A] @ ''Each job will exit now or has already exited'' @ [CHR 0x0A]))))))))))))))))))"

section \<open>The two programs\<close>

text \<open>\<open>tp\<close> is \<^verbatim>\<open>ydb_tp_s\<close>, whose function has no token.\<close>

definition stress_main ::
  "nat \<Rightarrow> 'w stress_env \<Rightarrow> (string \<Rightarrow> string list \<Rightarrow> ('w \<Rightarrow> c_fault + int \<times> 'w) \<Rightarrow> 'w \<Rightarrow> c_fault + int \<times> 'w) \<Rightarrow> string \<Rightarrow> ('w, unit) prog" where
  "stress_main fuel E tp iterate =
     stress_parent fuel E (m_job_stress (\<lambda>_. E) (\<lambda>tid names f. tp tid names (f sx_NOTTP))) iterate"

text \<open>The functions of the threaded program take the token and pass it to their calls; those outside transactions pass
  \<^verbatim>\<open>YDB_NOTTP\<close>, and \<open>tp\<close> is \<^verbatim>\<open>ydb_tp_st\<close>.\<close>

definition st_set_turn :: "(nat \<Rightarrow> 'w stress_env) \<Rightarrow> nat \<Rightarrow> stress_job \<Rightarrow> int \<Rightarrow> int \<Rightarrow> ('w, unit) prog" where
  "st_set_turn A tptoken = set_turn (sx_db (A tptoken))"

definition st_kill_turn :: "(nat \<Rightarrow> 'w stress_env) \<Rightarrow> nat \<Rightarrow> stress_job \<Rightarrow> int \<Rightarrow> ('w, unit) prog" where
  "st_kill_turn A tptoken = kill_turn (sx_db (A tptoken))"

definition st_m_EXAM_randfill :: "(nat \<Rightarrow> 'w stress_env) \<Rightarrow> nat \<Rightarrow> stress_job \<Rightarrow> string \<Rightarrow> string \<Rightarrow> string \<Rightarrow> ('w, unit) prog" where
  "st_m_EXAM_randfill A tptoken = m_EXAM_randfill (A tptoken)"

definition st_ver_turn :: "(nat \<Rightarrow> 'w stress_env) \<Rightarrow> nat \<Rightarrow> stress_job \<Rightarrow> int \<Rightarrow> int \<Rightarrow> ('w, unit) prog" where
  "st_ver_turn A tptoken = ver_turn (A tptoken)"

definition st_m_filling_randfill ::
  "(nat \<Rightarrow> 'w stress_env) \<Rightarrow> act_t \<Rightarrow> nat \<Rightarrow> stress_job \<Rightarrow> int \<Rightarrow> int \<Rightarrow> int \<Rightarrow> ('w, unit) prog" where
  "st_m_filling_randfill A act tptoken J = m_filling_randfill (A tptoken) J act"

definition st_m_randfill :: "(nat \<Rightarrow> 'w stress_env) \<Rightarrow> act_t \<Rightarrow> nat \<Rightarrow> stress_job \<Rightarrow> int \<Rightarrow> int \<Rightarrow> ('w, unit) prog" where
  "st_m_randfill A act tptoken J = m_randfill (A tptoken) J act"

definition st_job_stress_tpfn :: "(nat \<Rightarrow> 'w stress_env) \<Rightarrow> nat \<Rightarrow> stress_job \<Rightarrow> int \<Rightarrow> ('w, unit) prog" where
  "st_job_stress_tpfn A tptoken = job_stress_tpfn (A tptoken)"

definition st_stress_turn :: "(nat \<Rightarrow> 'w stress_env) \<Rightarrow> 'w tp_call \<Rightarrow> stress_job \<Rightarrow> int \<Rightarrow> ('w, unit) prog" where
  "st_stress_turn A tp = stress_turn A tp"

definition st_m_job_stress :: "(nat \<Rightarrow> 'w stress_env) \<Rightarrow> 'w tp_call \<Rightarrow> int \<Rightarrow> ('w, unit) prog" where
  "st_m_job_stress A tp = m_job_stress A tp"

definition st_stress_main :: "nat \<Rightarrow> (nat \<Rightarrow> 'w stress_env) \<Rightarrow> 'w tp_call \<Rightarrow> string \<Rightarrow> ('w, unit) prog" where
  "st_stress_main fuel A tp iterate = stress_parent fuel (A sx_NOTTP) (st_m_job_stress A tp) iterate"

text \<open>A call of the threaded functions as the parts of the transaction make it.\<close>

lemma st_job_parts:
  "st_job_stress_tpfn A tptoken J loop =
     bindP (liftP (bindE (int_of (2 * loop)) (\<lambda>x. bindE (c_rem x 10) (\<lambda>r. int_of (r + 1))))) (\<lambda>pno.
     thenP (st_m_randfill A KILL tptoken J pno loop)
     (thenP (st_m_randfill A SET tptoken J pno loop)
     (thenP (st_m_randfill A VER tptoken J pno loop)
     (bindP (get_isvS (A tptoken) ''$trestart'') (\<lambda>trestart.
     thenP (if trestart \<noteq> 0
       then thenP (assertP (sj_tpflag J \<noteq> NTP))
         (bindP (get_isvS (A tptoken) ''$tlevel'') (\<lambda>tlevel.
          writeS (A tptoken) (sj_outfd J) (''TRESTART = '' @ dec_of_int trestart @ '' For Loop='' @ dec_of_int loop @ '' TLEVEL='' @
            dec_of_int tlevel @ [CHR 0x0A])))
       else retP ())
     (if sj_tpflag J = TPR then leave (sx_rollback (A tptoken)) else retP ()))))))"
  by (simp add: st_job_stress_tpfn_def st_m_randfill_def job_stress_tpfn_def)

lemma st_act_turn:
  "act_turn (A tptoken) J act prime iter =
     (case act of SET \<Rightarrow> st_set_turn A tptoken J prime iter | VER \<Rightarrow> st_ver_turn A tptoken J prime iter | KILL \<Rightarrow> st_kill_turn A tptoken J iter)"
  by (cases act) (simp_all add: act_turn_def st_set_turn_def st_ver_turn_def st_kill_turn_def)

end
