(* ===== verification/Stress_Rules.thy ===== *)
theory Stress_Rules
  imports Stress
begin

text \<open>
  Triples for programs of a process over a shared database.  An assertion is a predicate on the contents that the changes of
  the others do not spoil.  The laws of the calls are those of \<open>Shared_Db\<close> for one mode and for the worlds in which a token is
  the right one, with one more: a call that asks for a restart leaves the local variables alone.
\<close>

section \<open>Settings\<close>

text \<open>The calls, the world of the process, its mode and the worlds in which the calls may be used.\<close>

record 'w setting =
  se_db :: "'w shared_db"
  se_world :: "'w world"
  se_mode :: tp_mode
  se_here :: "'w \<Rightarrow> bool"

definition same_locals :: "contents \<Rightarrow> contents \<Rightarrow> bool" where
  "same_locals c c' \<longleftrightarrow> (\<forall>g ss. \<not> is_global g \<longrightarrow> c' (g, ss) = c (g, ss))"

definition asks :: "'w setting \<Rightarrow> string \<Rightarrow> 'w \<Rightarrow> int \<Rightarrow> 'w \<Rightarrow> bool" where
  "asks S g w s w' \<longleftrightarrow> s = db_restart (se_db S) \<and> se_mode S = Retry \<and> is_global g \<and>
     same_locals (view (se_world S) w) (view (se_world S) w')"

definition set_here :: "'w setting \<Rightarrow> bool" where
  "set_here S \<longleftrightarrow> (\<forall>g ss v w s w'. se_here S w \<longrightarrow> allowed (se_world S) w (\<lambda>c. c((g, ss) \<mapsto> v)) \<longrightarrow>
     db_set (se_db S) g ss v w = (s, w') \<longrightarrow> se_here S w' \<and>
     (asks S g w s w' \<or> s = db_ok (se_db S) \<and> (\<exists>c. sees (se_world S) w c \<and> view (se_world S) w' = c((g, ss) \<mapsto> v))))"

definition get_here :: "'w setting \<Rightarrow> bool" where
  "get_here S \<longleftrightarrow> (\<forall>g ss n w s x w'. se_here S w \<longrightarrow> db_get (se_db S) g ss n w = ((s, x), w') \<longrightarrow> se_here S w' \<and>
     (asks S g w s w' \<or> sees (se_world S) w (view (se_world S) w') \<and>
      (case view (se_world S) w' (g, ss) of
         None \<Rightarrow> is_global g \<longrightarrow> s = db_gvundef (se_db S)
       | Some v \<Rightarrow> length v \<le> n \<longrightarrow> s = db_ok (se_db S) \<and> x = v)))"

definition delete_here :: "'w setting \<Rightarrow> bool" where
  "delete_here S \<longleftrightarrow> (\<forall>g ss w s w'. se_here S w \<longrightarrow> allowed (se_world S) w (without_tree g ss) \<longrightarrow>
     db_delete_tree (se_db S) g ss w = (s, w') \<longrightarrow> se_here S w' \<and>
     (asks S g w s w' \<or> s = db_ok (se_db S) \<and> (\<exists>c. sees (se_world S) w c \<and> view (se_world S) w' = without_tree g ss c)))"

definition calls_here :: "'w setting \<Rightarrow> bool" where
  "calls_here S \<longleftrightarrow> (\<forall>w. se_here S w \<longrightarrow> mode (se_world S) w = se_mode S) \<and>
     distinct [db_ok (se_db S), db_restart (se_db S), db_gvundef (se_db S)] \<and> set_here S \<and> get_here S \<and> delete_here S"

text \<open>A call that is no call of the database.\<close>

definition quiet :: "'w setting \<Rightarrow> 'w \<Rightarrow> 'w \<Rightarrow> bool" where
  "quiet S w w' \<longleftrightarrow> se_here S w' \<and> view (se_world S) w' = view (se_world S) w"

text \<open>The laws of \<open>Shared_Db\<close> give those of every mode where restarts leave the local variables alone.\<close>

definition restarts_keep_locals :: "'w shared_db \<Rightarrow> 'w world \<Rightarrow> bool" where
  "restarts_keep_locals db W \<longleftrightarrow> (\<forall>g ss w.
     (\<forall>v w'. db_set db g ss v w = (db_restart db, w') \<longrightarrow> same_locals (view W w) (view W w')) \<and>
     (\<forall>n x w'. db_get db g ss n w = ((db_restart db, x), w') \<longrightarrow> same_locals (view W w) (view W w')) \<and>
     (\<forall>w'. db_delete_tree db g ss w = (db_restart db, w') \<longrightarrow> same_locals (view W w) (view W w')))"

lemma shared_laws_here:
  assumes "shared_laws db W" "restarts_keep_locals db W"
  shows "calls_here \<lparr>se_db = db, se_world = W, se_mode = m, se_here = \<lambda>w. mode W w = m\<rparr>"
proof -
  let ?S = "\<lparr>se_db = db, se_world = W, se_mode = m, se_here = \<lambda>w. mode W w = m\<rparr>"
  have laws: "set_law db W" "get_law db W" "delete_law db W" "distinct [db_ok db, db_restart db, db_gvundef db]"
    using assms(1) by (auto simp: shared_laws_def)
  have "set_here ?S"
    unfolding set_here_def
  proof (intro allI impI, goal_cases)
    case (1 g ss v w s w')
    then show ?case
      using laws(1) [unfolded set_law_def, rule_format, of w g ss v s w'] assms(2)
      by (auto simp: asks_def may_restart_def restarts_keep_locals_def)
  qed
  moreover have "get_here ?S"
    unfolding get_here_def
  proof (intro allI impI, goal_cases)
    case (1 g ss n w s x w')
    then show ?case
      using laws(2) [unfolded get_law_def, rule_format, of g ss n w s x w'] assms(2)
      by (cases "view W w' (g, ss)") (auto simp: asks_def may_restart_def restarts_keep_locals_def)
  qed
  moreover have "delete_here ?S"
    unfolding delete_here_def
  proof (intro allI impI, goal_cases)
    case (1 g ss w s w')
    then show ?case
      using laws(3) [unfolded delete_law_def, rule_format, of w g ss s w'] assms(2)
      by (auto simp: asks_def may_restart_def restarts_keep_locals_def)
  qed
  ultimately show ?thesis using laws(4) by (simp add: calls_here_def)
qed

section \<open>Triples\<close>

text \<open>\<open>R\<close> is what holds where the program leaves before its end.\<close>

definition triple ::
  "'w setting \<Rightarrow> (int \<Rightarrow> contents \<Rightarrow> bool) \<Rightarrow> (contents \<Rightarrow> bool) \<Rightarrow> ('w, 'a) prog \<Rightarrow> ('a \<Rightarrow> contents \<Rightarrow> bool) \<Rightarrow> bool" where
  "triple S R A p B \<longleftrightarrow> (\<forall>w. se_here S w \<longrightarrow> A (view (se_world S) w) \<longrightarrow>
     wpP p (\<lambda>x w'. se_here S w' \<and> B x (view (se_world S) w')) (\<lambda>s w'. se_here S w' \<and> R s (view (se_world S) w')) w)"

text \<open>What the others do not spoil; what the process may change; what is left by a restart.\<close>

definition steady :: "'w setting \<Rightarrow> (contents \<Rightarrow> bool) \<Rightarrow> bool" where
  "steady S A \<longleftrightarrow> (se_mode S = Outside \<longrightarrow> (\<forall>c c'. others (se_world S) c c' \<longrightarrow> A c \<longrightarrow> A c'))"

definition may :: "'w setting \<Rightarrow> (contents \<Rightarrow> bool) \<Rightarrow> (contents \<Rightarrow> contents) \<Rightarrow> bool" where
  "may S A f \<longleftrightarrow> (se_mode S = Outside \<longrightarrow> (\<forall>c. A c \<longrightarrow> guar (se_world S) c (f c)))"

definition retries :: "'w setting \<Rightarrow> (int \<Rightarrow> contents \<Rightarrow> bool) \<Rightarrow> (contents \<Rightarrow> bool) \<Rightarrow> bool" where
  "retries S R A \<longleftrightarrow> (se_mode S = Retry \<longrightarrow> (\<forall>c c'. A c \<longrightarrow> same_locals c c' \<longrightarrow> R (db_restart (se_db S)) c'))"

text \<open>A change that leads from one assertion to another, and what an assertion says of a node.\<close>

definition gives :: "(contents \<Rightarrow> bool) \<Rightarrow> (contents \<Rightarrow> contents) \<Rightarrow> (contents \<Rightarrow> bool) \<Rightarrow> bool" where
  "gives A f B \<longleftrightarrow> (\<forall>c. A c \<longrightarrow> B (f c))"

definition reads :: "(contents \<Rightarrow> bool) \<Rightarrow> node \<Rightarrow> string \<Rightarrow> bool" where
  "reads A k v \<longleftrightarrow> (\<forall>c. A c \<longrightarrow> c k = Some v)"

definition lacks :: "(contents \<Rightarrow> bool) \<Rightarrow> node \<Rightarrow> bool" where
  "lacks A k \<longleftrightarrow> (\<forall>c. A c \<longrightarrow> c k = None)"

lemma steady_sees:
  assumes "calls_here S" "steady S A" "se_here S w" "A (view (se_world S) w)" "sees (se_world S) w c"
  shows "A c"
  using assms by (auto simp: calls_here_def steady_def sees_def split: if_splits)

lemma may_allowed:
  assumes "calls_here S" "steady S A" "may S A f" "se_here S w" "A (view (se_world S) w)"
  shows "allowed (se_world S) w f"
  using assms steady_sees [OF assms(1,2,4,5)] by (auto simp: allowed_def may_def calls_here_def)

lemma triple_conseq:
  assumes "triple S R A p B" "\<And>c. A' c \<Longrightarrow> A c" "\<And>x c. B x c \<Longrightarrow> B' x c" "\<And>s c. R s c \<Longrightarrow> R' s c"
  shows "triple S R' A' p B'"
  unfolding triple_def
proof (intro allI impI)
  fix w assume "se_here S w" "A' (view (se_world S) w)"
  with assms(1) have "wpP p (\<lambda>x w'. se_here S w' \<and> B x (view (se_world S) w')) (\<lambda>s w'. se_here S w' \<and> R s (view (se_world S) w')) w"
    unfolding triple_def using assms(2) by blast
  then show "wpP p (\<lambda>x w'. se_here S w' \<and> B' x (view (se_world S) w')) (\<lambda>s w'. se_here S w' \<and> R' s (view (se_world S) w')) w"
    by (rule wpP_mono) (auto intro: assms(3,4))
qed

lemma triple_pre: "triple S R A p B \<Longrightarrow> (\<And>c. A' c \<Longrightarrow> A c) \<Longrightarrow> triple S R A' p B"
  by (rule triple_conseq)

lemma triple_ret: "(\<And>c. A c \<Longrightarrow> B x c) \<Longrightarrow> triple S R A (retP x) B"
  by (simp add: triple_def wp_simps)

lemma triple_leave: "(\<And>c. A c \<Longrightarrow> R s c) \<Longrightarrow> triple S R A (leave s) B"
  by (simp add: triple_def wp_simps)

lemma triple_lift: "(\<And>c. A c \<Longrightarrow> \<exists>x. m = Inr x \<and> B x c) \<Longrightarrow> triple S R A (liftP m) B"
  by (simp add: triple_def wp_simps)

lemma triple_assert: "(\<And>c. A c \<Longrightarrow> b \<and> B () c) \<Longrightarrow> triple S R A (assertP b) B"
  by (simp add: triple_def wp_simps)

lemma triple_bind: "triple S R A p B \<Longrightarrow> (\<And>x. triple S R (B x) (f x) C) \<Longrightarrow> triple S R A (bindP p f) C"
  unfolding triple_def wp_simps by (intro allI impI) (erule allE, drule (1) mp, drule (1) mp, erule wpP_mono, simp_all)

lemma triple_then: "triple S R A p (\<lambda>_. B) \<Longrightarrow> triple S R B q C \<Longrightarrow> triple S R A (thenP p q) C"
  unfolding thenP_def by (rule triple_bind)

lemma triple_if: "(b \<Longrightarrow> triple S R A p B) \<Longrightarrow> (\<not> b \<Longrightarrow> triple S R A q B) \<Longrightarrow> triple S R A (if b then p else q) B"
  by simp

text \<open>A program that returns one known value under a condition.\<close>

lemma triple_bind_eq:
  assumes "triple S R A p (\<lambda>x c. x = v \<and> B c)" "triple S R B (f v) C"
  shows "triple S R A (bindP p f) C"
proof (rule triple_bind [OF assms(1)])
  fix x show "triple S R (\<lambda>c. x = v \<and> B c) (f x) C"
    using assms(2) by (cases "x = v") (auto simp: triple_def)
qed

lemma triple_bind_pure:
  assumes "triple S R A p (\<lambda>x c. P x \<and> B c)" "\<And>x. P x \<Longrightarrow> triple S R B (f x) C"
  shows "triple S R A (bindP p f) C"
proof (rule triple_bind [OF assms(1)])
  fix x show "triple S R (\<lambda>c. P x \<and> B c) (f x) C"
    using assms(2) by (cases "P x") (auto simp: triple_def)
qed

lemma triple_lift_eq: "m = Inr v \<Longrightarrow> triple S R A (f v) C \<Longrightarrow> triple S R A (bindP (liftP m) f) C"
  by (rule triple_bind_eq [OF triple_lift]) auto

lemma triple_call:
  assumes "\<And>w. se_here S w \<Longrightarrow> P (fst (f w)) \<and> quiet S w (snd (f w))"
  shows "triple S R A (callP f) (\<lambda>x c. P x \<and> A c)"
  using assms by (auto simp: triple_def wpP_call quiet_def)

lemma triple_seq:
  assumes "\<And>xs x ys. gs = xs @ x # ys \<Longrightarrow> triple S R (I (set xs)) (f x) (\<lambda>_. I (insert x (set xs)))"
  shows "triple S R (I {}) (seqP (map f gs)) (\<lambda>_. I (set gs))"
proof -
  have "gs = xs @ ys \<Longrightarrow> triple S R (I (set xs)) (seqP (map f ys)) (\<lambda>_. I (set gs))" for xs ys
  proof (induction ys arbitrary: xs)
    case (Cons y ys)
    have "triple S R (I (set (xs @ [y]))) (seqP (map f ys)) (\<lambda>_. I (set gs))" using Cons by simp
    then show ?case using assms [OF Cons.prems] by (simp add: triple_then)
  qed (simp add: triple_ret)
  from this [of "[]" gs] show ?thesis by simp
qed

lemma triple_upto:
  assumes "0 \<le> n" "\<And>i. 1 \<le> i \<Longrightarrow> i \<le> n \<Longrightarrow> triple S R (I i) (f i) (\<lambda>_. I (i + 1))"
  shows "triple S R (I 1) (seqP (map f [1..n])) (\<lambda>_. I (n + 1))"
proof -
  have "1 \<le> k \<Longrightarrow> k + int j = n + 1 \<Longrightarrow> triple S R (I k) (seqP (map f [k..n])) (\<lambda>_. I (n + 1))" for j k
  proof (induction j arbitrary: k)
    case (Suc j)
    then have "[k..n] = k # [k + 1..n]" by (simp add: upto_rec1)
    moreover have "triple S R (I (k + 1)) (seqP (map f [k + 1..n])) (\<lambda>_. I (n + 1))" using Suc by simp
    moreover have "triple S R (I k) (f k) (\<lambda>_. I (k + 1))" using Suc.prems by (intro assms(2)) auto
    ultimately show ?case by (simp add: triple_then)
  qed (simp add: triple_ret)
  from this [of 1 "nat n"] show ?thesis using assms(1) by simp
qed

section \<open>Calls of the database\<close>

lemma triple_set_status:
  assumes "calls_here S" "steady S A" "may S A (\<lambda>c. c((g, ss) \<mapsto> v))" "is_global g \<longrightarrow> retries S R A"
    "gives A (\<lambda>c. c((g, ss) \<mapsto> v)) B"
  shows "triple S R A (bindP (callP (db_set (se_db S) g ss v)) (\<lambda>s. if s = db_restart (se_db S) then leave s else assertP (s = db_ok (se_db S))))
     (\<lambda>_. B)"
  unfolding triple_def
proof (intro allI impI)
  fix w assume w: "se_here S w" "A (view (se_world S) w)"
  obtain s w' where c: "db_set (se_db S) g ss v w = (s, w')" by force
  have "set_here S" using assms(1) by (simp add: calls_here_def)
  from this [unfolded set_here_def, rule_format, OF w(1) may_allowed [OF assms(1-3) w] c]
  show "wpP (bindP (callP (db_set (se_db S) g ss v)) (\<lambda>s. if s = db_restart (se_db S) then leave s else assertP (s = db_ok (se_db S))))
     (\<lambda>_ w'. se_here S w' \<and> B (view (se_world S) w')) (\<lambda>s w'. se_here S w' \<and> R s (view (se_world S) w')) w"
    using assms(1,4,5) w steady_sees [OF assms(1,2) w]
    by (auto simp: wp_simps wpP_call c asks_def retries_def calls_here_def gives_def)
qed

lemma triple_setT:
  assumes "calls_here S" "steady S A" "may S A (\<lambda>c. c((g, ss) \<mapsto> v))" "retries S R A" "gives A (\<lambda>c. c((g, ss) \<mapsto> v)) B"
  shows "triple S R A (setTP (se_db S) g ss v) (\<lambda>_. B)"
  unfolding setTP_def passS_def [abs_def] okS_def using assms by (intro triple_set_status) auto

lemma triple_delete_status:
  assumes "calls_here S" "steady S A" "may S A (without_tree g ss)" "is_global g \<longrightarrow> retries S R A"
    "gives A (without_tree g ss) B"
  shows "triple S R A (bindP (callP (db_delete_tree (se_db S) g ss)) (\<lambda>s. if s = db_restart (se_db S) then leave s else assertP (s = db_ok (se_db S))))
     (\<lambda>_. B)"
  unfolding triple_def
proof (intro allI impI)
  fix w assume w: "se_here S w" "A (view (se_world S) w)"
  obtain s w' where c: "db_delete_tree (se_db S) g ss w = (s, w')" by force
  have "delete_here S" using assms(1) by (simp add: calls_here_def)
  from this [unfolded delete_here_def, rule_format, OF w(1) may_allowed [OF assms(1-3) w] c]
  show "wpP (bindP (callP (db_delete_tree (se_db S) g ss)) (\<lambda>s. if s = db_restart (se_db S) then leave s else assertP (s = db_ok (se_db S))))
     (\<lambda>_ w'. se_here S w' \<and> B (view (se_world S) w')) (\<lambda>s w'. se_here S w' \<and> R s (view (se_world S) w')) w"
    using assms(1,4,5) w steady_sees [OF assms(1,2) w]
    by (auto simp: wp_simps wpP_call c asks_def retries_def calls_here_def gives_def)
qed

lemma triple_deleteT:
  assumes "calls_here S" "steady S A" "may S A (without_tree g ss)" "retries S R A" "gives A (without_tree g ss) B"
  shows "triple S R A (deleteTP (se_db S) g ss) (\<lambda>_. B)"
  unfolding deleteTP_def passS_def [abs_def] okS_def using assms by (intro triple_delete_status) auto

text \<open>Outside transactions, and for local variables, success is the only status.\<close>

lemma triple_setS:
  assumes "calls_here S" "steady S A" "may S A (\<lambda>c. c((g, ss) \<mapsto> v))" "\<not> is_global g \<or> se_mode S \<noteq> Retry" "gives A (\<lambda>c. c((g, ss) \<mapsto> v)) B"
  shows "triple S R A (setS (se_db S) g ss v) (\<lambda>_. B)"
  unfolding triple_def
proof (intro allI impI)
  fix w assume w: "se_here S w" "A (view (se_world S) w)"
  obtain s w' where c: "db_set (se_db S) g ss v w = (s, w')" by force
  have "set_here S" using assms(1) by (simp add: calls_here_def)
  from this [unfolded set_here_def, rule_format, OF w(1) may_allowed [OF assms(1-3) w] c]
  show "wpP (setS (se_db S) g ss v) (\<lambda>_ w'. se_here S w' \<and> B (view (se_world S) w')) (\<lambda>s w'. se_here S w' \<and> R s (view (se_world S) w')) w"
    using assms(4,5) steady_sees [OF assms(1,2) w] by (auto simp: setS_def okS_def wp_simps wpP_call c asks_def gives_def)
qed

lemma triple_deleteS:
  assumes "calls_here S" "steady S A" "may S A (without_tree g [])" "\<not> is_global g" "gives A (without_tree g []) B"
  shows "triple S R A (deleteS (se_db S) g) (\<lambda>_. B)"
  unfolding triple_def
proof (intro allI impI)
  fix w assume w: "se_here S w" "A (view (se_world S) w)"
  obtain s w' where c: "db_delete_tree (se_db S) g [] w = (s, w')" by force
  have "delete_here S" using assms(1) by (simp add: calls_here_def)
  from this [unfolded delete_here_def, rule_format, OF w(1) may_allowed [OF assms(1-3) w] c]
  show "wpP (deleteS (se_db S) g) (\<lambda>_ w'. se_here S w' \<and> B (view (se_world S) w')) (\<lambda>s w'. se_here S w' \<and> R s (view (se_world S) w')) w"
    using assms(4,5) steady_sees [OF assms(1,2) w] by (auto simp: deleteS_def okS_def wp_simps wpP_call c asks_def gives_def)
qed

lemma triple_getS:
  assumes "calls_here S" "steady S A" "\<not> is_global g" "reads A (g, ss) v" "length v \<le> tn_MAXVALUELEN"
  shows "triple S R A (getS (se_db S) g ss) (\<lambda>x c. x = v \<and> A c)"
  unfolding triple_def
proof (intro allI impI)
  fix w assume w: "se_here S w" "A (view (se_world S) w)"
  obtain s x w' where c: "db_get (se_db S) g ss tn_MAXVALUELEN w = ((s, x), w')" by (metis prod.collapse)
  have "get_here S" using assms(1) by (simp add: calls_here_def)
  from this [unfolded get_here_def, rule_format, OF w(1) c]
  show "wpP (getS (se_db S) g ss) (\<lambda>x w'. se_here S w' \<and> x = v \<and> A (view (se_world S) w')) (\<lambda>s w'. se_here S w' \<and> R s (view (se_world S) w')) w"
    using assms(3-5) steady_sees [OF assms(1,2) w]
    by (auto simp: getS_def okS_def wp_simps wpP_call c asks_def reads_def split: option.splits) fastforce+
qed

lemma triple_getT:
  assumes "calls_here S" "steady S A" "retries S R A" "reads A (g, ss) v" "length v \<le> tn_MAXVALUELEN"
  shows "triple S R A (getTP (se_db S) g ss) (\<lambda>x c. x = v \<and> A c)"
  unfolding triple_def
proof (intro allI impI)
  fix w assume w: "se_here S w" "A (view (se_world S) w)"
  obtain s x w' where c: "db_get (se_db S) g ss tn_MAXVALUELEN w = ((s, x), w')" by (metis prod.collapse)
  have g: "get_here S" "db_ok (se_db S) \<noteq> db_restart (se_db S)" using assms(1) by (auto simp: calls_here_def)
  note law = g(1) [unfolded get_here_def, rule_format, OF w(1) c]
  show "wpP (getTP (se_db S) g ss) (\<lambda>x w'. se_here S w' \<and> x = v \<and> A (view (se_world S) w')) (\<lambda>s w'. se_here S w' \<and> R s (view (se_world S) w')) w"
  proof (cases "asks S g w s w'")
    case True
    then show ?thesis using law assms(3) w
      by (auto simp: getTP_def passS_def wp_simps wpP_call c asks_def retries_def)
  next
    case False
    then have "A (view (se_world S) w')" using law steady_sees [OF assms(1,2) w] by blast
    moreover have "view (se_world S) w' (g, ss) = Some v" using assms(4) calculation unfolding reads_def by blast
    ultimately show ?thesis using law False assms(5) g(2)
      by (simp add: getTP_def passS_def okS_def wp_simps wpP_call c)
  qed
qed

text \<open>A node that is not defined counts as zero.\<close>

lemma triple_add_prime:
  assumes "calls_here S" "steady S A" "retries S R A" "is_global g" "lacks A (g, ss)" "is_int prime"
    "may S A (\<lambda>c. c((g, ss) \<mapsto> dec_of_int prime))" "gives A (\<lambda>c. c((g, ss) \<mapsto> dec_of_int prime)) B"
  shows "triple S R A (add_prime (se_db S) prime ss g) (\<lambda>_. B)"
  unfolding triple_def
proof (intro allI impI)
  fix w assume w: "se_here S w" "A (view (se_world S) w)"
  obtain s x w' where c: "db_get (se_db S) g ss tn_MAXVALUELEN w = ((s, x), w')" by (metis prod.collapse)
  have g: "get_here S" "db_gvundef (se_db S) \<noteq> db_restart (se_db S)" using assms(1) by (auto simp: calls_here_def)
  note law = g(1) [unfolded get_here_def, rule_format, OF w(1) c]
  let ?Q = "\<lambda>_ w'. se_here S w' \<and> B (view (se_world S) w')" and ?R = "\<lambda>s w'. se_here S w' \<and> R s (view (se_world S) w')"
  show "wpP (add_prime (se_db S) prime ss g) ?Q ?R w"
  proof (cases "asks S g w s w'")
    case True
    then show ?thesis using law assms(3) w
      by (auto simp: add_prime_def wp_simps wpP_call c asks_def retries_def)
  next
    case False
    then have A: "A (view (se_world S) w')" "se_here S w'" using law steady_sees [OF assms(1,2) w] by blast+
    have "view (se_world S) w' (g, ss) = None" using assms(5) A(1) unfolding lacks_def by blast
    then have s: "s = db_gvundef (se_db S)" using law False assms(4) by simp
    have "wpP (setTP (se_db S) g ss (dec_of_int prime)) ?Q ?R w'"
      using triple_setT [OF assms(1,2,7,3,8)] A unfolding triple_def by blast
    then show ?thesis using s g(2) assms(6)
      by (simp add: add_prime_def wp_simps wpP_call c int_of_is_int)
  qed
qed

lemma length_dec_int: "is_int n \<Longrightarrow> length (dec_of_int n) \<le> 11"
  by (rule length_dec_of_int) (auto simp: is_int_def)

lemma c_string_int: "is_int n \<Longrightarrow> c_string (dec_of_int n) = Inr (dec_of_int n)"
proof -
  assume "is_int n"
  moreover have "takeWhile (\<lambda>c. c \<noteq> CHR 0x00) (dec_of_int n) = dec_of_int n"
    by (simp only: takeWhile_eq_all_conv) (auto dest: dec_of_int_chars simp: is_digit_def)
  ultimately show ?thesis using length_dec_int [of n] by (simp add: c_string_def tn_MAXVALUELEN_def)
qed

lemma atoi_of_int: "is_int n \<Longrightarrow> atoi_of (dec_of_int n) = Inr n"
  by (simp add: atoi_of_def c_string_int int_of_is_int cstr_simps)

lemma triple_get_intS:
  assumes "calls_here S" "steady S A" "\<not> is_global g" "reads A (g, []) (dec_of_int n)" "is_int n"
  shows "triple S R A (get_intS (se_db S) g) (\<lambda>x c. x = n \<and> A c)"
  unfolding get_intS_def
  by (intro triple_bind_eq [OF triple_getS [OF assms(1-4)]] triple_lift)
    (use assms(5) length_dec_int [of n] in \<open>simp_all add: atoi_of_int tn_MAXVALUELEN_def\<close>)

end
