(* ===== verification/Stress_Fill.thy ===== *)
theory Stress_Fill
  imports Stress_Rules
begin

text \<open>
  What a process of the stress workload relies on, what it guarantees, and the assertions that describe how far an act has come.
\<close>

section \<open>The data of the run\<close>

text \<open>The instance, the values of \<^verbatim>\<open>^cust\<close>, the prime and the roots, and the process.\<close>

record stress_par =
  sp_inst :: string
  sp_cust :: "int \<Rightarrow> string"
  sp_prime :: int
  sp_root :: "int \<Rightarrow> int"
  sp_me :: int
  sp_jobno :: int

definition field :: "stress_par \<Rightarrow> int set" where
  "field P = {1..<sp_prime P}"

definition shared_node :: "stress_par \<Rightarrow> int \<Rightarrow> int \<Rightarrow> string \<Rightarrow> node" where
  "shared_node P it n g = (g, [dec_of_int n, sp_cust P n, dec_of_int it])"

definition own_node :: "stress_par \<Rightarrow> int \<Rightarrow> int \<Rightarrow> string \<Rightarrow> node" where
  "own_node P it n g = (g, [dec_of_int n, sp_cust P n, dec_of_int (sp_me P), dec_of_int it])"

definition stress_data :: "stress_par \<Rightarrow> contents \<Rightarrow> bool" where
  "stress_data P c \<longleftrightarrow> c (''^instance'', []) = Some (sp_inst P) \<and> c (''^prime'', []) = Some (dec_of_int (sp_prime P)) \<and>
     (\<forall>p \<in> {1, 3, 5, 7, 9}. c (''^root'', [dec_of_int p]) = Some (dec_of_int (sp_root P p))) \<and>
     (\<forall>n \<in> field P. c (''^cust'', [dec_of_int n, sp_inst P]) = Some (sp_cust P n))"

text \<open>The numbers of a walk are different from each other and from zero.\<close>

definition walks :: "int \<Rightarrow> int \<Rightarrow> bool" where
  "walks prime root \<longleftrightarrow> (\<forall>a < nat (prime - 1). root ^ a mod prime \<noteq> 0) \<and> inj_on (\<lambda>a. root ^ a mod prime) {..<nat (prime - 1)}"

definition par_ok :: "stress_par \<Rightarrow> bool" where
  "par_ok P \<longleftrightarrow> 2 \<le> sp_prime P \<and> sp_prime P < 2 ^ 31 \<and> is_int (sp_me P) \<and> is_int (sp_jobno P) \<and> length (sp_inst P) \<le> 256 \<and>
     (\<forall>p \<in> {1, 3, 5, 7, 9}. 0 < sp_root P p \<and> sp_prime P * sp_root P p \<le> 2 ^ 31 \<and> walks (sp_prime P) (sp_root P p)) \<and>
     (\<forall>n \<in> field P. length (sp_cust P n) \<le> 185)"

section \<open>Rely and guarantee\<close>

definition mine :: "stress_par \<Rightarrow> node set" where
  "mine P = {(g, ss). g \<in> set own_fills \<and> length ss = 4 \<and> ss ! 2 = dec_of_int (sp_me P)} \<union>
     {(''^lasti'', [dec_of_int (sp_jobno P), sp_inst P]), (''^PID'', [dec_of_int (sp_jobno P), sp_inst P])}"

text \<open>A shared node that holds its index keeps it.\<close>

definition shared_stay :: "stress_par \<Rightarrow> int set \<Rightarrow> contents \<Rightarrow> contents \<Rightarrow> bool" where
  "shared_stay P its c c' \<longleftrightarrow> (\<forall>it \<in> its. \<forall>n \<in> field P. \<forall>g \<in> set shared_fills.
     c (shared_node P it n g) = Some (dec_of_int n) \<longrightarrow> c' (shared_node P it n g) = Some (dec_of_int n))"

text \<open>Only the process outside transactions relies on the shared nodes.\<close>

definition stress_rely :: "stress_par \<Rightarrow> bool \<Rightarrow> contents \<Rightarrow> contents \<Rightarrow> bool" where
  "stress_rely P ntp c c' \<longleftrightarrow> (stress_data P c \<longrightarrow> stress_data P c') \<and> (\<forall>k \<in> mine P. c' k = c k) \<and> (ntp \<longrightarrow> shared_stay P UNIV c c')"

text \<open>The globals that a process changes.\<close>

definition touches :: "stress_par \<Rightarrow> string \<Rightarrow> string list \<Rightarrow> bool" where
  "touches P g ss \<longleftrightarrow> g \<in> set shared_fills \<or> g \<in> set own_fills \<and> 3 \<le> length ss \<and> ss ! 2 = dec_of_int (sp_me P) \<or>
     g \<in> {''^lasti'', ''^PID''} \<and> ss = [dec_of_int (sp_jobno P), sp_inst P] \<or> g = ''^permit''"

definition touched :: "stress_par \<Rightarrow> contents \<Rightarrow> contents \<Rightarrow> bool" where
  "touched P c c' \<longleftrightarrow> (\<forall>g ss. is_global g \<longrightarrow> c' (g, ss) \<noteq> c (g, ss) \<longrightarrow> touches P g ss)"

definition stress_guar :: "stress_par \<Rightarrow> bool \<Rightarrow> contents \<Rightarrow> contents \<Rightarrow> bool" where
  "stress_guar P ntp c c' \<longleftrightarrow> touched P c c' \<and> (\<not> ntp \<longrightarrow> shared_stay P UNIV c c')"

definition stress_world :: "stress_par \<Rightarrow> bool \<Rightarrow> 'w world \<Rightarrow> bool" where
  "stress_world P ntp W \<longleftrightarrow> (\<forall>c c'. rely W c c' \<longrightarrow> stress_rely P ntp c c') \<and> (\<forall>c c'. stress_guar P ntp c c' \<longrightarrow> guar W c c')"

text \<open>The names that occur, once and for all.\<close>

lemmas fill_names = shared_fills_def own_fills_def fill_vars_def

lemma global_names [simp]:
  "is_global ''^instance''" "is_global ''^prime''" "is_global ''^root''" "is_global ''^cust''" "is_global ''^lasti''" "is_global ''^PID''" "is_global ''^permit''"
  "\<not> is_global ''ERR''" "\<not> is_global ''MAXERR''" "\<not> is_global ''ndx''" "\<not> is_global ''obj''" "\<not> is_global ''loop''"
  "\<not> is_global ''jobno''" "\<not> is_global ''localinstance''" "\<not> is_global ''iterate''"
  by (simp_all add: is_global_def)

lemma fills_global: "g \<in> set shared_fills \<Longrightarrow> is_global g" "g \<in> set own_fills \<Longrightarrow> is_global g" "g \<in> set fill_vars \<Longrightarrow> \<not> is_global g"
  by (auto simp: fill_names is_global_def)

lemma fills_apart:
  "g \<in> set shared_fills \<Longrightarrow> g \<notin> set own_fills \<union> {''^instance'', ''^prime'', ''^root'', ''^cust'', ''^lasti'', ''^PID'', ''^permit''}"
  "g \<in> set own_fills \<Longrightarrow> g \<notin> set shared_fills \<union> {''^instance'', ''^prime'', ''^root'', ''^cust'', ''^lasti'', ''^PID'', ''^permit''}"
  by (auto simp: fill_names)

lemma fills_distinct: "distinct shared_fills" "distinct own_fills"
  by (simp_all add: fill_names)

text \<open>Changes of one process are what the others rely on.\<close>

lemma data_untouched: "g \<in> {''^instance'', ''^prime'', ''^root'', ''^cust''} \<Longrightarrow> is_global g \<and> \<not> touches P g ss"
  by (auto simp: touches_def fill_names)

lemma touched_data:
  assumes "touched P c c'" "stress_data Q c"
  shows "stress_data Q c'"
proof -
  have "c' (g, ss) = c (g, ss)" if "g \<in> {''^instance'', ''^prime'', ''^root'', ''^cust''}" for g ss
    using assms(1) data_untouched [OF that] unfolding touched_def by blast
  then show ?thesis using assms(2) by (simp add: stress_data_def)
qed

lemma mine_untouched:
  assumes "(g, ss) \<in> mine Q" "sp_me P \<noteq> sp_me Q" "sp_jobno P \<noteq> sp_jobno Q"
  shows "is_global g \<and> \<not> touches P g ss"
proof -
  consider "g \<in> set own_fills" "ss ! 2 = dec_of_int (sp_me Q)" | "g \<in> {''^lasti'', ''^PID''}" "ss = [dec_of_int (sp_jobno Q), sp_inst Q]"
    using assms(1) by (auto simp: mine_def)
  then show ?thesis
  proof cases
    case 1
    then show ?thesis using assms(2) fills_global(2) fills_apart(2) [of g] by (simp add: touches_def)
  next
    case 2
    then have "g \<notin> set shared_fills" "g \<notin> set own_fills" "is_global g" "g \<noteq> ''^permit''" by (auto simp: fill_names)
    then show ?thesis using 2 assms(3) by (simp add: touches_def)
  qed
qed

lemma touched_mine: "touched P c c' \<Longrightarrow> sp_me P \<noteq> sp_me Q \<Longrightarrow> sp_jobno P \<noteq> sp_jobno Q \<Longrightarrow> k \<in> mine Q \<Longrightarrow> c' k = c k"
  using mine_untouched [of "fst k" "snd k" Q P] unfolding touched_def by (metis prod.collapse)

text \<open>Of two processes at most one works outside transactions.\<close>

lemma stress_compatible:
  assumes "sp_me P \<noteq> sp_me Q" "sp_jobno P \<noteq> sp_jobno Q" "sp_prime Q = sp_prime P" "sp_cust Q = sp_cust P" "\<not> (ntp \<and> ntp')" "stress_guar P ntp c c'"
  shows "stress_rely Q ntp' c c'"
proof -
  have t: "touched P c c'" and s: "ntp' \<Longrightarrow> shared_stay P UNIV c c'" using assms(5,6) by (auto simp: stress_guar_def)
  have "shared_stay Q UNIV c c'" if ntp'
    using s [OF that] assms(3,4) by (simp add: shared_stay_def field_def shared_node_def)
  then show ?thesis
    using touched_data [OF t, of Q] touched_mine [OF t assms(1,2)] unfolding stress_rely_def by blast
qed

section \<open>Walks\<close>

definition at_walk :: "stress_par \<Rightarrow> int \<Rightarrow> nat \<Rightarrow> int" where
  "at_walk P pno a = sp_root P pno ^ a mod sp_prime P"

lemma at_walk_field: "par_ok P \<Longrightarrow> pno \<in> {1, 3, 5, 7, 9} \<Longrightarrow> a < nat (sp_prime P - 1) \<Longrightarrow> at_walk P pno a \<in> field P"
proof -
  assume a: "par_ok P" "pno \<in> {1, 3, 5, 7, 9}" "a < nat (sp_prime P - 1)"
  then have "0 < sp_prime P" "walks (sp_prime P) (sp_root P pno)" by (auto simp: par_ok_def)
  then have "0 \<le> at_walk P pno a" "at_walk P pno a < sp_prime P" "at_walk P pno a \<noteq> 0"
    using a(3) by (auto simp: at_walk_def walks_def)
  then show ?thesis by (simp add: field_def)
qed

lemma at_walk_inj:
  assumes "par_ok P" "pno \<in> {1, 3, 5, 7, 9}"
  shows "inj_on (at_walk P pno) {..<nat (sp_prime P - 1)}"
  using assms unfolding at_walk_def [abs_def] par_ok_def walks_def by blast

lemma at_walk_all:
  assumes "par_ok P" "pno \<in> {1, 3, 5, 7, 9}"
  shows "at_walk P pno ` {..<nat (sp_prime P - 1)} = field P"
proof (rule card_subset_eq)
  show "at_walk P pno ` {..<nat (sp_prime P - 1)} \<subseteq> field P" using at_walk_field [OF assms] by blast
  show "card (at_walk P pno ` {..<nat (sp_prime P - 1)}) = card (field P)"
    using card_image [OF at_walk_inj [OF assms]] by (simp add: field_def)
qed (simp add: field_def)

lemma at_walk_0: "par_ok P \<Longrightarrow> at_walk P pno 0 = 1"
  by (simp add: at_walk_def par_ok_def)

lemma next_ndx_walk:
  assumes "par_ok P" "pno \<in> {1, 3, 5, 7, 9}"
  shows "next_ndx (sp_prime P) (sp_root P pno) (at_walk P pno a) = Inr (at_walk P pno (Suc a))"
proof -
  let ?p = "sp_prime P" and ?r = "sp_root P pno"
  have p: "0 < ?p" "0 < ?r" "?p * ?r \<le> 2 ^ 31" using assms by (auto simp: par_ok_def)
  have n: "0 \<le> at_walk P pno a" "at_walk P pno a < ?p" using p by (simp_all add: at_walk_def)
  then have "at_walk P pno a * ?r < ?p * ?r" "0 \<le> at_walk P pno a * ?r" using p(2) by simp_all
  then have "at_walk P pno a * ?r < 2 ^ 31" "0 \<le> at_walk P pno a * ?r" using p(3) by linarith+
  then show ?thesis
    using c_rem_pos [of "at_walk P pno a * ?r" ?p] p(1)
    by (simp add: next_ndx_def int_of_def) (simp add: at_walk_def mod_mult_right_eq mult.commute)
qed

section \<open>How far an act has come\<close>

text \<open>The local variables that the acts use.\<close>

definition fill_locals :: "string set" where
  "fill_locals = {''ERR'', ''MAXERR'', ''ndx'', ''obj''}"

definition locals_since :: "contents \<Rightarrow> contents \<Rightarrow> bool" where
  "locals_since c0 c \<longleftrightarrow> (\<forall>g ss. \<not> is_global g \<longrightarrow> g \<notin> fill_locals \<longrightarrow> c (g, ss) = c0 (g, ss))"

text \<open>The node belongs to the iteration: it is one of those that the acts of the iteration set or is below one.\<close>

definition of_iter :: "stress_par \<Rightarrow> int \<Rightarrow> node \<Rightarrow> bool" where
  "of_iter P it k \<longleftrightarrow> (case k of (g, ss) \<Rightarrow>
     \<exists>n \<in> field P. g \<in> set shared_fills \<and> take 3 ss = snd (shared_node P it n g) \<or>
       g \<in> set own_fills \<and> take 4 ss = snd (own_node P it n g))"

text \<open>What an iteration leaves as it was at \<open>c0\<close>; in a transaction that is all but the nodes of the iteration.\<close>

definition frame :: "'w setting \<Rightarrow> stress_par \<Rightarrow> int \<Rightarrow> contents \<Rightarrow> contents \<Rightarrow> bool" where
  "frame S P it c0 c \<longleftrightarrow> locals_since c0 c \<and> (\<forall>k \<in> mine P. \<not> of_iter P it k \<longrightarrow> c k = c0 k) \<and> shared_stay P (- {it}) c0 c \<and>
     (se_mode S \<noteq> Outside \<longrightarrow> (\<forall>g ss. is_global g \<longrightarrow> \<not> of_iter P it (g, ss) \<longrightarrow> c (g, ss) = c0 (g, ss)))"

definition acting :: "'w setting \<Rightarrow> stress_par \<Rightarrow> int \<Rightarrow> contents \<Rightarrow> int \<Rightarrow> contents \<Rightarrow> bool" where
  "acting S P it c0 n c \<longleftrightarrow> stress_data P c \<and> frame S P it c0 c \<and> c (''ERR'', []) = Some (dec_of_int 0) \<and>
     c (''MAXERR'', []) = Some (dec_of_int 10) \<and> c (''ndx'', []) = Some (dec_of_int n)"

text \<open>Assertions on the nodes that the others do not spoil for a process outside transactions.\<close>

definition node_pred :: "stress_par \<Rightarrow> (contents \<Rightarrow> bool) \<Rightarrow> bool" where
  "node_pred P N \<longleftrightarrow> (\<forall>c c'. (\<forall>k \<in> mine P. c' k = c k) \<longrightarrow> shared_stay P UNIV c c' \<longrightarrow> N c \<longrightarrow> N c')"

definition own_are :: "stress_par \<Rightarrow> int \<Rightarrow> (int \<times> string) set \<Rightarrow> contents \<Rightarrow> bool" where
  "own_are P it E c \<longleftrightarrow> (\<forall>n \<in> field P. \<forall>g \<in> set own_fills.
     c (own_node P it n g) = (if (n, g) \<in> E then Some (dec_of_int (sp_prime P)) else None))"

definition own_gone :: "stress_par \<Rightarrow> int \<Rightarrow> (int \<times> string) set \<Rightarrow> contents \<Rightarrow> bool" where
  "own_gone P it K c \<longleftrightarrow> (\<forall>n \<in> field P. \<forall>g \<in> set own_fills. (n, g) \<in> K \<longrightarrow> c (own_node P it n g) = None)"

definition shared_are :: "stress_par \<Rightarrow> int \<Rightarrow> (int \<times> string) set \<Rightarrow> contents \<Rightarrow> bool" where
  "shared_are P it D c \<longleftrightarrow> (\<forall>n \<in> field P. \<forall>g \<in> set shared_fills. (n, g) \<in> D \<longrightarrow> c (shared_node P it n g) = Some (dec_of_int n))"

lemma own_node_mine: "g \<in> set own_fills \<Longrightarrow> own_node P it n g \<in> mine P"
  by (simp add: own_node_def mine_def)

lemma mine_global: "(g, ss) \<in> mine P \<Longrightarrow> is_global g"
  by (auto simp: mine_def fills_global)

lemma of_iter_global: "of_iter P it (g, ss) \<Longrightarrow> is_global g"
  by (auto simp: of_iter_def fills_global)

lemma of_iter_nodes:
  "g \<in> set own_fills \<Longrightarrow> n \<in> field P \<Longrightarrow> of_iter P it (own_node P it n g)"
  "g \<in> set shared_fills \<Longrightarrow> n \<in> field P \<Longrightarrow> of_iter P it (shared_node P it n g)"
  by (auto simp: of_iter_def own_node_def shared_node_def)

lemma take_three: "take 3 ss = [x, y, z] \<Longrightarrow> 3 \<le> length ss \<and> ss ! 2 = z"
  by (cases ss; cases "tl ss"; cases "tl (tl ss)") (auto simp: numeral_3_eq_3)

lemma take_four: "take 4 ss = [x, y, z, u] \<Longrightarrow> 4 \<le> length ss \<and> ss ! 2 = z \<and> ss ! 3 = u"
  by (cases ss; cases "tl ss"; cases "tl (tl ss)"; cases "tl (tl (tl ss))") (auto simp: eval_nat_numeral)

lemma of_iter_subs:
  assumes "of_iter P it (g, ss)"
  shows "g \<in> set shared_fills \<and> 3 \<le> length ss \<and> ss ! 2 = dec_of_int it \<or>
    g \<in> set own_fills \<and> 4 \<le> length ss \<and> ss ! 2 = dec_of_int (sp_me P) \<and> ss ! 3 = dec_of_int it"
  using assms take_three take_four by (fastforce simp: of_iter_def shared_node_def own_node_def)

lemma of_iter_touches: "of_iter P it (g, ss) \<Longrightarrow> touches P g ss"
  using of_iter_subs [of P it g ss] by (auto simp: touches_def)

lemma node_pred_own: "node_pred P (own_are P it E)" "node_pred P (own_gone P it K)"
  by (auto simp: node_pred_def own_are_def own_gone_def own_node_mine)

lemma node_pred_shared: "node_pred P (shared_are P it D)"
  by (auto simp: node_pred_def shared_are_def shared_stay_def)

lemma node_pred_conj: "node_pred P M \<Longrightarrow> node_pred P N \<Longrightarrow> node_pred P (\<lambda>c. M c \<and> N c)"
  unfolding node_pred_def by blast

lemma node_pred_true: "node_pred P (\<lambda>_. True)"
  by (simp add: node_pred_def)

lemma node_pred_local: "node_pred P N \<Longrightarrow> N c \<Longrightarrow> (\<And>g ss. is_global g \<Longrightarrow> c' (g, ss) = c (g, ss)) \<Longrightarrow> N c'"
proof -
  assume a: "node_pred P N" "N c" "\<And>g ss. is_global g \<Longrightarrow> c' (g, ss) = c (g, ss)"
  have "\<forall>k \<in> mine P. c' k = c k" using a(3) mine_global by fastforce
  moreover have "shared_stay P UNIV c c'" using a(3) by (simp add: shared_stay_def shared_node_def fills_global)
  ultimately show "N c'" using a(1,2) unfolding node_pred_def by blast
qed

lemma node_pred_rely: "node_pred P N \<Longrightarrow> stress_rely P True c c' \<Longrightarrow> N c \<Longrightarrow> N c'"
  unfolding node_pred_def stress_rely_def by blast

section \<open>Steadiness\<close>

lemma shared_stay_trans: "shared_stay P its c c' \<Longrightarrow> shared_stay P its' c' c'' \<Longrightarrow> its \<subseteq> its' \<Longrightarrow> shared_stay P its c c''"
  unfolding shared_stay_def by blast

lemma frame_refl: "frame S P it c c"
  by (simp add: frame_def locals_since_def shared_stay_def touched_def)

lemma frame_rely:
  assumes "frame S P it c0 c" "stress_rely P True c c'" "same_locals c c'" "se_mode S = Outside"
  shows "frame S P it c0 c'"
  using assms shared_stay_trans [of P "- {it}" c0 c UNIV c']
  by (auto simp: frame_def locals_since_def stress_rely_def same_locals_def)

text \<open>Changes at nodes of the iteration.\<close>

lemma frame_change:
  assumes "frame S P it c0 c" "\<And>k. c' k \<noteq> c k \<Longrightarrow> of_iter P it k"
  shows "frame S P it c0 c'"
  unfolding frame_def
proof (intro conjI impI)
  have eq: "\<not> of_iter P it k \<Longrightarrow> c' k = c k" for k using assms(2) by blast
  show "locals_since c0 c'"
    using assms(1) eq of_iter_global unfolding frame_def locals_since_def by metis
  show "\<forall>k \<in> mine P. \<not> of_iter P it k \<longrightarrow> c' k = c0 k" using assms(1) eq unfolding frame_def by auto
  have "\<not> of_iter P it (shared_node P it' n g)" if "it' \<noteq> it" "g \<in> set shared_fills" for it' n g
    using that fills_apart(1) [of g] of_iter_subs [of P it g "snd (shared_node P it' n g)"] by (auto simp: shared_node_def)
  then have "shared_stay P (- {it}) c c'" using eq by (auto simp: shared_stay_def)
  then show "shared_stay P (- {it}) c0 c'" using assms(1) shared_stay_trans [of P "- {it}" c0 c "- {it}" c'] by (simp add: frame_def)
  assume "se_mode S \<noteq> Outside"
  then show "\<forall>g ss. is_global g \<longrightarrow> \<not> of_iter P it (g, ss) \<longrightarrow> c' (g, ss) = c0 (g, ss)"
    using assms(1) eq unfolding frame_def by simp
qed

lemma frame_touched: "frame S P it c0 c \<Longrightarrow> se_mode S \<noteq> Outside \<Longrightarrow> touched P c0 c"
  unfolding frame_def touched_def using of_iter_touches by blast

lemma data_change: "stress_data P c \<Longrightarrow> (\<And>k. c' k \<noteq> c k \<Longrightarrow> of_iter P it k) \<Longrightarrow> stress_data P c'"
  by (rule touched_data [of P c]) (unfold touched_def, blast intro: of_iter_touches)

text \<open>Changes of the local variables of the acts.\<close>

lemma frame_local: "frame S P it c0 c \<Longrightarrow> g \<in> fill_locals \<Longrightarrow> frame S P it c0 (c((g, ss) \<mapsto> v))"
proof -
  assume a: "frame S P it c0 c" "g \<in> fill_locals"
  then have "\<not> is_global g" by (auto simp: fill_locals_def)
  then have "(g, ss) \<notin> mine P" "\<And>g'. is_global g' \<Longrightarrow> g' \<noteq> g" "\<And>g'. g' \<in> set shared_fills \<Longrightarrow> g' \<noteq> g"
    using mine_global fills_global(1) by blast+
  then show ?thesis
    using a by (auto simp: frame_def locals_since_def shared_stay_def touched_def shared_node_def)
qed

lemma data_local: "stress_data P c \<Longrightarrow> \<not> is_global g \<Longrightarrow> stress_data P (c((g, ss) \<mapsto> v))"
  by (rule touched_data [of P c]) (auto simp: touched_def)

end
