(* ===== verification/Stress_Acts.thy ===== *)
theory Stress_Acts
  imports Stress_Fill
begin

text \<open>The turns of an act of the stress workload, one global after the other.\<close>

section \<open>Doing\<close>

text \<open>An act runs in a transaction, or outside in the process that relies on the shared nodes.\<close>

definition doing :: "'w setting \<Rightarrow> stress_par \<Rightarrow> bool" where
  "doing S P \<longleftrightarrow> calls_here S \<and> par_ok P \<and> stress_world P (se_mode S = Outside) (se_world S)"

definition restarted :: "'w setting \<Rightarrow> contents \<Rightarrow> int \<Rightarrow> contents \<Rightarrow> bool" where
  "restarted S c0 s c \<longleftrightarrow> s = db_restart (se_db S) \<and> se_mode S = Retry \<and> locals_since c0 c"

definition at_ndx :: "'w setting \<Rightarrow> stress_par \<Rightarrow> int \<Rightarrow> contents \<Rightarrow> int \<Rightarrow> (contents \<Rightarrow> bool) \<Rightarrow> contents \<Rightarrow> bool" where
  "at_ndx S P it c0 n N c \<longleftrightarrow> acting S P it c0 n c \<and> N c"

lemma doing_calls: "doing S P \<Longrightarrow> calls_here S"
  by (simp add: doing_def)

text \<open>Some local variables and an assertion on the nodes; the variables of an act are three of them.\<close>

definition holding :: "'w setting \<Rightarrow> stress_par \<Rightarrow> int \<Rightarrow> contents \<Rightarrow> (string \<times> string) list \<Rightarrow> (contents \<Rightarrow> bool) \<Rightarrow> contents \<Rightarrow> bool" where
  "holding S P it c0 L N c \<longleftrightarrow> stress_data P c \<and> frame S P it c0 c \<and> (\<forall>(g, v) \<in> set L. \<not> is_global g \<and> c (g, []) = Some v) \<and> N c"

lemma at_holding: "at_ndx S P it c0 n N = holding S P it c0 [(''ndx'', dec_of_int n), (''MAXERR'', dec_of_int 10), (''ERR'', dec_of_int 0)] N"
  by (auto simp: at_ndx_def acting_def holding_def fun_eq_iff)

lemma holding_steady:
  assumes "doing S P" "node_pred P N"
  shows "steady S (holding S P it c0 L N)"
  unfolding steady_def
proof (intro impI allI)
  fix c c' assume o: "se_mode S = Outside" "others (se_world S) c c'" "holding S P it c0 L N c"
  then have r: "stress_rely P True c c'" "same_locals c c'"
    using assms(1) by (auto simp: doing_def stress_world_def others_def same_locals_def)
  have "\<forall>(g, v) \<in> set L. \<not> is_global g \<and> c' (g, []) = Some v"
    using o(3) r(2) by (auto simp: holding_def same_locals_def)
  moreover have "stress_data P c'" using o(3) r(1) by (simp add: holding_def stress_rely_def)
  moreover have "frame S P it c0 c'" using frame_rely [OF _ r o(1), of it c0] o(3) by (simp add: holding_def)
  moreover have "N c'" using o(3) node_pred_rely [OF assms(2) r(1)] by (simp add: holding_def)
  ultimately show "holding S P it c0 L N c'" by (simp add: holding_def)
qed

lemmas at_steady = holding_steady [where L = "[(''ndx'', dec_of_int n), (''MAXERR'', dec_of_int 10), (''ERR'', dec_of_int 0)]" for n, folded at_holding]

lemma holding_local:
  assumes "node_pred P N" "g \<in> fill_locals" "\<forall>v. (g, v) \<notin> set L"
  shows "gives (holding S P it c0 L N) (\<lambda>c. c((g, []) \<mapsto> v)) (holding S P it c0 ((g, v) # L) N)"
  unfolding gives_def
proof (intro allI impI)
  fix c assume a: "holding S P it c0 L N c"
  let ?c = "c((g, []) \<mapsto> v)"
  have g: "\<not> is_global g" using assms(2) by (auto simp: fill_locals_def)
  have "N ?c" by (rule node_pred_local [OF assms(1), of c]) (use a g in \<open>auto simp: holding_def\<close>)
  moreover have "frame S P it c0 ?c" by (rule frame_local) (use a assms(2) in \<open>simp_all add: holding_def\<close>)
  moreover have "stress_data P ?c" by (rule data_local) (use a g in \<open>simp_all add: holding_def\<close>)
  moreover have "\<forall>(h, u) \<in> set L. \<not> is_global h \<and> ?c (h, []) = Some u" using a assms(3) by (auto simp: holding_def)
  ultimately show "holding S P it c0 ((g, v) # L) N ?c" using g by (simp add: holding_def)
qed

lemma holding_drop: "holding S P it c0 (x # L) N c \<Longrightarrow> holding S P it c0 L N c"
  by (simp add: holding_def)

lemma at_retries: "retries S (restarted S c0) (at_ndx S P it c0 n N)"
  by (simp add: retries_def restarted_def at_ndx_def acting_def frame_def locals_since_def same_locals_def)

lemma at_may_local: "doing S P \<Longrightarrow> \<not> is_global g \<Longrightarrow> may S A (\<lambda>c. c((g, ss) \<mapsto> v))"
  by (auto simp: may_def doing_def stress_world_def stress_guar_def touched_def)

text \<open>Changes at nodes of the iteration only.\<close>

definition alters :: "stress_par \<Rightarrow> int \<Rightarrow> (contents \<Rightarrow> contents) \<Rightarrow> bool" where
  "alters P it f \<longleftrightarrow> (\<forall>c k. f c k \<noteq> c k \<longrightarrow> of_iter P it k)"

lemma at_may_touch:
  assumes "doing S P" "alters P it f"
  shows "may S A f"
  unfolding may_def
proof (intro impI allI)
  fix c assume "se_mode S = Outside"
  moreover have "touched P c (f c)" using assms(2) unfolding touched_def alters_def by (blast intro: of_iter_touches)
  ultimately show "guar (se_world S) c (f c)" using assms(1) by (simp add: doing_def stress_world_def stress_guar_def)
qed

lemma at_local:
  assumes "node_pred P N"
  shows "gives (at_ndx S P it c0 n N) (\<lambda>c. c((''obj'', []) \<mapsto> v)) (at_ndx S P it c0 n N)"
proof -
  have "gives (at_ndx S P it c0 n N) (\<lambda>c. c((''obj'', []) \<mapsto> v))
      (holding S P it c0 [(''obj'', v), (''ndx'', dec_of_int n), (''MAXERR'', dec_of_int 10), (''ERR'', dec_of_int 0)] N)"
    unfolding at_holding by (rule holding_local [OF assms]) (simp_all add: fill_locals_def)
  then show ?thesis unfolding gives_def at_holding by (blast intro: holding_drop)
qed

text \<open>The next number of the walk takes the place of the one before.\<close>

lemma at_next:
  assumes "node_pred P N"
  shows "gives (at_ndx S P it c0 n N) (\<lambda>c. c((''ndx'', []) \<mapsto> dec_of_int m)) (at_ndx S P it c0 m N)"
proof -
  have "gives (holding S P it c0 [(''MAXERR'', dec_of_int 10), (''ERR'', dec_of_int 0)] N) (\<lambda>c. c((''ndx'', []) \<mapsto> dec_of_int m)) (at_ndx S P it c0 m N)"
    unfolding at_holding by (rule holding_local [OF assms]) (simp_all add: fill_locals_def)
  then show ?thesis unfolding gives_def at_holding [of _ _ _ _ n] by (blast intro: holding_drop)
qed

lemma at_change:
  assumes "alters P it f" "gives N f N'"
  shows "gives (at_ndx S P it c0 n N) f (at_ndx S P it c0 n N')"
  unfolding gives_def
proof (intro allI impI)
  fix c assume a: "at_ndx S P it c0 n N c"
  have change: "\<And>k. f c k \<noteq> c k \<Longrightarrow> of_iter P it k" using assms(1) unfolding alters_def by blast
  then have "f c (g, []) = c (g, [])" if "\<not> is_global g" for g using that of_iter_global by blast
  moreover have "frame S P it c0 (f c)" by (rule frame_change [OF _ change]) (use a in \<open>simp_all add: at_ndx_def acting_def\<close>)
  moreover have "stress_data P (f c)" by (rule data_change [OF _ change]) (use a in \<open>simp_all add: at_ndx_def acting_def\<close>)
  moreover have "N' (f c)" using a assms(2) by (simp add: at_ndx_def gives_def)
  ultimately show "at_ndx S P it c0 n N' (f c)" using a by (simp add: at_ndx_def acting_def)
qed

section \<open>The value of \<^verbatim>\<open>^cust\<close>\<close>

lemma field_int: "par_ok P \<Longrightarrow> n \<in> field P \<Longrightarrow> is_int n"
  by (auto simp: field_def par_ok_def is_int_def)

lemma length_int_fits: "is_int n \<Longrightarrow> length (dec_of_int n) \<le> tn_MAXVALUELEN"
  using length_dec_int [of n] by (simp add: tn_MAXVALUELEN_def)

lemma par_facts:
  assumes "par_ok P"
  shows "is_int (sp_prime P)" "is_int (sp_me P)" "length (sp_inst P) \<le> tn_MAXVALUELEN"
    "n \<in> field P \<Longrightarrow> length (sp_cust P n) \<le> tn_MAXVALUELEN"
  using assms by (auto simp: par_ok_def is_int_def tn_MAXVALUELEN_def)

lemma triple_ndx:
  assumes "doing S P" "node_pred P N" "n \<in> field P"
  shows "triple S R (at_ndx S P it c0 n N) (getS (se_db S) ''ndx'' []) (\<lambda>x c. x = dec_of_int n \<and> at_ndx S P it c0 n N c)"
proof (rule triple_getS [OF doing_calls [OF assms(1)] at_steady [OF assms(1,2)]])
  show "reads (at_ndx S P it c0 n N) (''ndx'', []) (dec_of_int n)" by (simp add: reads_def at_ndx_def acting_def)
  show "length (dec_of_int n) \<le> tn_MAXVALUELEN" using assms(1,3) field_int length_int_fits by (auto simp: doing_def)
qed simp

lemma triple_fill_obj:
  assumes "doing S P" "node_pred P N" "n \<in> field P"
  shows "triple S (restarted S c0) (at_ndx S P it c0 n N) (fill_obj (se_db S) (dec_of_int n))
     (\<lambda>x c. x = sp_cust P n \<and> at_ndx S P it c0 n N c)"
proof -
  note par = par_facts [of P] and c = doing_calls [OF assms(1)] and st = at_steady [OF assms(1,2)] and re = at_retries
  have P: "par_ok P" using assms(1) by (simp add: doing_def)
  let ?A = "at_ndx S P it c0 n N"
  have "reads ?A (''^instance'', []) (sp_inst P)" "reads ?A (''^cust'', [dec_of_int n, sp_inst P]) (sp_cust P n)"
    using assms(3) by (simp_all add: reads_def at_ndx_def acting_def stress_data_def)
  then have 1: "triple S (restarted S c0) ?A (getTP (se_db S) ''^instance'' []) (\<lambda>x c. x = sp_inst P \<and> ?A c)"
    and 2: "triple S (restarted S c0) ?A (getTP (se_db S) ''^cust'' [dec_of_int n, sp_inst P]) (\<lambda>x c. x = sp_cust P n \<and> ?A c)"
    using par(3) [OF P] par(4) [OF P assms(3)] by (blast intro: triple_getT [OF c st re])+
  have 3: "triple S (restarted S c0) ?A (setS (se_db S) ''obj'' [] (sp_cust P n)) (\<lambda>_. ?A)"
    by (rule triple_setS [OF c st at_may_local [OF assms(1)] _ at_local [OF assms(2)]]) simp_all
  have 4: "triple S (restarted S c0) ?A (copyS (sp_cust P n)) (\<lambda>_. ?A)"
    unfolding copyS_def by (rule triple_assert) (use par(4) [OF P assms(3)] in simp)
  show ?thesis
    unfolding fill_obj_def
    by (rule triple_bind_eq [OF 1], rule triple_bind_eq [OF 2], rule triple_then [OF 3], rule triple_then [OF 4], rule triple_ret) simp
qed

lemma triple_own_subs:
  assumes "par_ok P" "is_int it" "sj_pid J = sp_me P"
  shows "triple S R A (own_subs J it (dec_of_int n) (sp_cust P n)) (\<lambda>x c. x = snd (own_node P it n g) \<and> A c)"
proof -
  have "triple S R A (copyS (dec_of_int i)) (\<lambda>_. A)" if "is_int i" for i
    unfolding copyS_def by (rule triple_assert) (use length_int_fits [OF that] in simp)
  then show ?thesis
    unfolding own_subs_def using par_facts(2) [OF assms(1)] assms(2,3)
    by (intro triple_then [where B = A] triple_ret) (auto simp: own_node_def)
qed

section \<open>Setting\<close>

lemma alters_nodes:
  "g \<in> set shared_fills \<Longrightarrow> n \<in> field P \<Longrightarrow> alters P it (\<lambda>c. c(shared_node P it n g \<mapsto> v))"
  "g \<in> set own_fills \<Longrightarrow> n \<in> field P \<Longrightarrow> alters P it (\<lambda>c. c(own_node P it n g \<mapsto> v))"
  using of_iter_nodes by (auto simp: alters_def)

lemma node_simps:
  "shared_node P it n g = shared_node P it m h \<longleftrightarrow> n = m \<and> g = h" "own_node P it n g = own_node P it m h \<longleftrightarrow> n = m \<and> g = h"
  "shared_node P it n g \<noteq> own_node P it m h" "own_node P it n g \<noteq> shared_node P it m h"
  by (auto simp: shared_node_def own_node_def)

definition set_done :: "stress_par \<Rightarrow> int \<Rightarrow> (int \<times> string) set \<Rightarrow> (int \<times> string) set \<Rightarrow> contents \<Rightarrow> bool" where
  "set_done P it D E c \<longleftrightarrow> shared_are P it D c \<and> own_are P it E c"

lemma node_pred_set: "node_pred P (set_done P it D E)"
  unfolding set_done_def [abs_def] by (intro node_pred_conj node_pred_own node_pred_shared)

lemma set_done_shared: "gives (set_done P it D E) (\<lambda>c. c(shared_node P it n g \<mapsto> dec_of_int n)) (set_done P it (insert (n, g) D) E)"
  by (auto simp: gives_def set_done_def shared_are_def own_are_def node_simps)

lemma set_done_own: "gives (set_done P it D E) (\<lambda>c. c(own_node P it n g \<mapsto> dec_of_int (sp_prime P))) (set_done P it D (insert (n, g) E))"
  by (auto simp: gives_def set_done_def shared_are_def own_are_def node_simps)

lemma triple_set_shared:
  assumes "doing S P" "g \<in> set shared_fills" "n \<in> field P"
  shows "triple S (restarted S c0) (at_ndx S P it c0 n (set_done P it D E)) (setTP (se_db S) g [dec_of_int n, sp_cust P n, dec_of_int it] (dec_of_int n))
     (\<lambda>_. at_ndx S P it c0 n (set_done P it (insert (n, g) D) E))"
proof -
  have k: "(g, [dec_of_int n, sp_cust P n, dec_of_int it]) = shared_node P it n g" by (simp add: shared_node_def)
  show ?thesis
    by (rule triple_setT [OF doing_calls [OF assms(1)] at_steady [OF assms(1) node_pred_set] _ at_retries])
      (unfold k, rule at_may_touch [OF assms(1) alters_nodes(1) [OF assms(2,3)]], rule at_change [OF alters_nodes(1) [OF assms(2,3)] set_done_shared])
qed

lemma triple_set_own:
  assumes "doing S P" "g \<in> set own_fills" "n \<in> field P" "(n, g) \<notin> E"
  shows "triple S (restarted S c0) (at_ndx S P it c0 n (set_done P it D E)) (add_prime (se_db S) (sp_prime P) (snd (own_node P it n h)) g)
     (\<lambda>_. at_ndx S P it c0 n (set_done P it D (insert (n, g) E)))"
proof -
  have k: "(g, snd (own_node P it n h)) = own_node P it n g" by (simp add: own_node_def)
  have P: "par_ok P" using assms(1) by (simp add: doing_def)
  have "lacks (at_ndx S P it c0 n (set_done P it D E)) (g, snd (own_node P it n h))"
    using assms(2-4) by (simp add: lacks_def k at_ndx_def set_done_def own_are_def)
  then show ?thesis
    by (rule triple_add_prime [OF doing_calls [OF assms(1)] at_steady [OF assms(1) node_pred_set] at_retries fills_global(2) [OF assms(2)] _
        par_facts(1) [OF P]])
      (unfold k, rule at_may_touch [OF assms(1) alters_nodes(2) [OF assms(2,3)]], rule at_change [OF alters_nodes(2) [OF assms(2,3)] set_done_own])
qed

lemma triple_set_turn:
  assumes "doing S P" "sj_pid J = sp_me P" "n \<in> field P" "is_int it" "\<forall>g. (n, g) \<notin> E"
  shows "triple S (restarted S c0) (at_ndx S P it c0 n (set_done P it D E)) (set_turn (se_db S) J (sp_prime P) it)
     (\<lambda>_. at_ndx S P it c0 n (set_done P it ({n} \<times> set shared_fills \<union> D) ({n} \<times> set own_fills \<union> E)))"
proof -
  let ?A = "\<lambda>D E. at_ndx S P it c0 n (set_done P it D E)" and ?R = "restarted S c0"
  have P: "par_ok P" using assms(1) by (simp add: doing_def)
  have 1: "triple S ?R (?A ({n} \<times> {} \<union> D) E) (seqP (map (\<lambda>g. setTP (se_db S) g [dec_of_int n, sp_cust P n, dec_of_int it] (dec_of_int n)) shared_fills))
      (\<lambda>_. ?A ({n} \<times> set shared_fills \<union> D) E)"
  proof (rule triple_seq [where I = "\<lambda>G. ?A ({n} \<times> G \<union> D) E"])
    fix xs x ys assume eq: "shared_fills = xs @ x # ys"
    have "x \<in> set shared_fills" unfolding eq by simp
    moreover have "insert (n, x) ({n} \<times> set xs \<union> D) = {n} \<times> insert x (set xs) \<union> D" by auto
    ultimately show "triple S ?R (?A ({n} \<times> set xs \<union> D) E) (setTP (se_db S) x [dec_of_int n, sp_cust P n, dec_of_int it] (dec_of_int n))
        (\<lambda>_. ?A ({n} \<times> insert x (set xs) \<union> D) E)"
      using triple_set_shared [OF assms(1) _ assms(3), of x c0 it "{n} \<times> set xs \<union> D" E] by simp
  qed
  have 2: "triple S ?R (?A D' ({n} \<times> {} \<union> E)) (seqP (map (add_prime (se_db S) (sp_prime P) (snd (own_node P it n []))) own_fills))
      (\<lambda>_. ?A D' ({n} \<times> set own_fills \<union> E))" for D'
  proof (rule triple_seq [where I = "\<lambda>G. ?A D' ({n} \<times> G \<union> E)"])
    fix xs x ys assume eq: "own_fills = xs @ x # ys"
    have x: "x \<in> set own_fills" "x \<notin> set xs" using fills_distinct(2) unfolding eq by auto
    moreover have "insert (n, x) ({n} \<times> set xs \<union> E) = {n} \<times> insert x (set xs) \<union> E" by auto
    ultimately show "triple S ?R (?A D' ({n} \<times> set xs \<union> E)) (add_prime (se_db S) (sp_prime P) (snd (own_node P it n [])) x)
        (\<lambda>_. ?A D' ({n} \<times> insert x (set xs) \<union> E))"
      using triple_set_own [OF assms(1) x(1) assms(3), of "{n} \<times> set xs \<union> E" c0 it D' "[]"] assms(5) by simp
  qed
  note obj = triple_ndx [OF assms(1) node_pred_set assms(3)] triple_fill_obj [OF assms(1) node_pred_set assms(3)]
  show ?thesis
    unfolding set_turn_def
    by (rule triple_bind_eq [OF obj(1)], rule triple_bind_eq [OF obj(2)], rule triple_then [OF 1 [simplified]],
        rule triple_bind_eq, rule triple_own_subs [OF P assms(4,2), where g = "[]"], rule 2 [simplified])
qed

section \<open>Killing\<close>

lemma alters_trees:
  "g \<in> set shared_fills \<Longrightarrow> n \<in> field P \<Longrightarrow> alters P it (without_tree g [dec_of_int n, sp_cust P n, dec_of_int it])"
  "g \<in> set own_fills \<Longrightarrow> n \<in> field P \<Longrightarrow> alters P it (without_tree g (snd (own_node P it n h)))"
  by (auto simp: alters_def without_tree_def of_iter_def own_node_def shared_node_def eval_nat_numeral split: if_splits)

lemma gone_tree: "gives (own_gone P it K) (without_tree g ss) (own_gone P it K)"
  by (simp add: gives_def own_gone_def without_tree_def)

lemma gone_own: "gives (own_gone P it K) (without_tree g (snd (own_node P it n h))) (own_gone P it (insert (n, g) K))"
  by (auto simp: gives_def own_gone_def without_tree_def own_node_def)

lemma triple_kill_shared:
  assumes "doing S P" "g \<in> set shared_fills" "n \<in> field P"
  shows "triple S (restarted S c0) (at_ndx S P it c0 n (own_gone P it K)) (deleteTP (se_db S) g [dec_of_int n, sp_cust P n, dec_of_int it])
     (\<lambda>_. at_ndx S P it c0 n (own_gone P it K))"
  by (rule triple_deleteT [OF doing_calls [OF assms(1)] at_steady [OF assms(1) node_pred_own(2)]
      at_may_touch [OF assms(1) alters_trees(1) [OF assms(2,3)]] at_retries at_change [OF alters_trees(1) [OF assms(2,3)] gone_tree]])

lemma triple_kill_own:
  assumes "doing S P" "g \<in> set own_fills" "n \<in> field P"
  shows "triple S (restarted S c0) (at_ndx S P it c0 n (own_gone P it K)) (deleteTP (se_db S) g (snd (own_node P it n h)))
     (\<lambda>_. at_ndx S P it c0 n (own_gone P it (insert (n, g) K)))"
  by (rule triple_deleteT [OF doing_calls [OF assms(1)] at_steady [OF assms(1) node_pred_own(2)]
      at_may_touch [OF assms(1) alters_trees(2) [OF assms(2,3)]] at_retries at_change [OF alters_trees(2) [OF assms(2,3)] gone_own]])

lemma triple_kill_turn:
  assumes "doing S P" "sj_pid J = sp_me P" "n \<in> field P" "is_int it"
  shows "triple S (restarted S c0) (at_ndx S P it c0 n (own_gone P it K)) (kill_turn (se_db S) J it)
     (\<lambda>_. at_ndx S P it c0 n (own_gone P it ({n} \<times> set own_fills \<union> K)))"
proof -
  let ?A = "\<lambda>K. at_ndx S P it c0 n (own_gone P it K)" and ?R = "restarted S c0"
  have P: "par_ok P" using assms(1) by (simp add: doing_def)
  have 1: "triple S ?R (?A K) (seqP (map (\<lambda>g. deleteTP (se_db S) g [dec_of_int n, sp_cust P n, dec_of_int it]) shared_fills)) (\<lambda>_. ?A K)"
    by (rule triple_seq [where I = "\<lambda>_. ?A K"], rule triple_kill_shared [OF assms(1) _ assms(3)]) (metis in_set_conv_decomp)
  have 2: "triple S ?R (?A ({n} \<times> {} \<union> K)) (seqP (map (\<lambda>g. deleteTP (se_db S) g (snd (own_node P it n []))) own_fills))
      (\<lambda>_. ?A ({n} \<times> set own_fills \<union> K))"
  proof (rule triple_seq [where I = "\<lambda>G. ?A ({n} \<times> G \<union> K)"])
    fix xs x ys assume eq: "own_fills = xs @ x # ys"
    have "x \<in> set own_fills" unfolding eq by simp
    moreover have "insert (n, x) ({n} \<times> set xs \<union> K) = {n} \<times> insert x (set xs) \<union> K" by auto
    ultimately show "triple S ?R (?A ({n} \<times> set xs \<union> K)) (deleteTP (se_db S) x (snd (own_node P it n []))) (\<lambda>_. ?A ({n} \<times> insert x (set xs) \<union> K))"
      using triple_kill_own [OF assms(1) _ assms(3), of x c0 it "{n} \<times> set xs \<union> K" "[]"] by simp
  qed
  note obj = triple_ndx [OF assms(1) node_pred_own(2) assms(3)] triple_fill_obj [OF assms(1) node_pred_own(2) assms(3)]
  show ?thesis
    unfolding kill_turn_def
    by (rule triple_bind_eq [OF obj(1)], rule triple_bind_eq [OF obj(2)], rule triple_then [OF 1],
        rule triple_bind_eq, rule triple_own_subs [OF P assms(4,2), where g = "[]"], rule 2 [simplified])
qed

section \<open>Verifying\<close>

lemma c_string_short: "length s < 256 \<Longrightarrow> \<exists>t. c_string s = Inr t \<and> length t \<le> length s"
  by (auto simp: c_string_def tn_MAXVALUELEN_def length_takeWhile_le)

lemma ver_texts:
  assumes "par_ok P" "n \<in> field P" "is_int it"
  shows "\<exists>ts. c_strings (snd (shared_node P it n h)) = Inr ts \<and> (\<forall>g \<in> set shared_fills. length (g @ ''('' @ commas ts @ '')'') < tn_MAXVALUELEN)"
    "\<exists>ts. c_strings (snd (own_node P it n h)) = Inr ts \<and> (\<forall>g \<in> set own_fills. length (g @ ''('' @ commas ts @ '')'') < tn_MAXVALUELEN)"
proof -
  have c: "length (sp_cust P n) \<le> 185" using assms(1,2) by (simp add: par_ok_def)
  then obtain t where t: "c_string (sp_cust P n) = Inr t" "length t \<le> 185" using c_string_short [of "sp_cust P n"] by auto
  have d: "c_string (dec_of_int i) = Inr (dec_of_int i)" "length (dec_of_int i) \<le> 11" if "is_int i" for i
    using that by (rule c_string_int, rule length_dec_int)
  note ints = field_int [OF assms(1,2)] assms(3) par_facts(2) [OF assms(1)]
  have g: "length g \<le> 32" if "g \<in> set shared_fills \<or> g \<in> set own_fills" for g
    using that by (auto simp: fill_names)
  show "\<exists>ts. c_strings (snd (shared_node P it n h)) = Inr ts \<and> (\<forall>g \<in> set shared_fills. length (g @ ''('' @ commas ts @ '')'') < tn_MAXVALUELEN)"
  proof (intro exI conjI ballI)
    show "c_strings (snd (shared_node P it n h)) = Inr [dec_of_int n, t, dec_of_int it]"
      using d(1) [OF ints(1)] d(1) [OF ints(2)] t(1) by (simp add: c_strings_def shared_node_def)
    fix g assume "g \<in> set shared_fills"
    then show "length (g @ ''('' @ commas [dec_of_int n, t, dec_of_int it] @ '')'') < tn_MAXVALUELEN"
      using g [of g] d(2) [OF ints(1)] d(2) [OF ints(2)] t(2) by (simp add: tn_MAXVALUELEN_def)
  qed
  show "\<exists>ts. c_strings (snd (own_node P it n h)) = Inr ts \<and> (\<forall>g \<in> set own_fills. length (g @ ''('' @ commas ts @ '')'') < tn_MAXVALUELEN)"
  proof (intro exI conjI ballI)
    show "c_strings (snd (own_node P it n h)) = Inr [dec_of_int n, t, dec_of_int (sp_me P), dec_of_int it]"
      using d(1) [OF ints(1)] d(1) [OF ints(2)] d(1) [OF ints(3)] t(1) by (simp add: c_strings_def own_node_def)
    fix g assume "g \<in> set own_fills"
    then show "length (g @ ''('' @ commas [dec_of_int n, t, dec_of_int (sp_me P), dec_of_int it] @ '')'') < tn_MAXVALUELEN"
      using g [of g] d(2) [OF ints(1)] d(2) [OF ints(2)] d(2) [OF ints(3)] t(2) by (simp add: tn_MAXVALUELEN_def)
  qed
qed

text \<open>A node that holds what it should is not reported.\<close>

lemma triple_ver_node:
  assumes "doing S P" "node_pred P N" "se_db S = sx_db E" "reads (at_ndx S P it c0 n N) (g, ss) v" "length v \<le> tn_MAXVALUELEN"
    "c_strings ss = Inr ts" "length (g @ ''('' @ commas ts @ '')'') < tn_MAXVALUELEN"
  shows "triple S (restarted S c0) (at_ndx S P it c0 n N) (ver_node E J ss v g) (\<lambda>_. at_ndx S P it c0 n N)"
  unfolding ver_node_def assms(3) [symmetric] sprintS_def
  by (rule triple_bind_eq [OF triple_getT [OF doing_calls [OF assms(1)] at_steady [OF assms(1,2)] at_retries assms(4,5)]],
      rule triple_lift_eq [OF assms(6)], rule triple_lift_eq, simp only: assms(7) if_True, rule triple_then [where B = "at_ndx S P it c0 n N", OF triple_assert])
    (use assms(7) in \<open>auto simp: m_EXAM_randfill_def intro!: triple_ret\<close>)

lemma triple_ver_turn:
  assumes "doing S P" "sj_pid J = sp_me P" "n \<in> field P" "is_int it" "se_db S = sx_db E"
    "\<forall>g \<in> set shared_fills. (n, g) \<in> D" "\<forall>g \<in> set own_fills. (n, g) \<in> E'"
  shows "triple S (restarted S c0) (at_ndx S P it c0 n (set_done P it D E')) (ver_turn E J (sp_prime P) it)
     (\<lambda>_. at_ndx S P it c0 n (set_done P it D E'))"
proof -
  let ?A = "at_ndx S P it c0 n (set_done P it D E')" and ?R = "restarted S c0"
  have P: "par_ok P" using assms(1) by (simp add: doing_def)
  note texts = ver_texts [OF P assms(3,4), of "[]"]
  have 1: "triple S ?R ?A (seqP (map (ver_node E J (snd (shared_node P it n [])) (dec_of_int n)) shared_fills)) (\<lambda>_. ?A)"
  proof (rule triple_seq [where I = "\<lambda>_. ?A"])
    fix xs x ys assume eq: "shared_fills = xs @ x # ys"
    have x: "x \<in> set shared_fills" unfolding eq by simp
    then have "reads ?A (x, snd (shared_node P it n [])) (dec_of_int n)"
      using assms(3,6) by (simp add: reads_def at_ndx_def set_done_def shared_are_def) (simp add: shared_node_def)
    then show "triple S ?R ?A (ver_node E J (snd (shared_node P it n [])) (dec_of_int n) x) (\<lambda>_. ?A)"
      using texts(1) x length_int_fits [OF field_int [OF P assms(3)]] by (blast intro: triple_ver_node [OF assms(1) node_pred_set assms(5)])
  qed
  have 2: "triple S ?R ?A (seqP (map (ver_node E J (snd (own_node P it n [])) (dec_of_int (sp_prime P))) own_fills)) (\<lambda>_. ?A)"
  proof (rule triple_seq [where I = "\<lambda>_. ?A"])
    fix xs x ys assume eq: "own_fills = xs @ x # ys"
    have x: "x \<in> set own_fills" unfolding eq by simp
    then have "reads ?A (x, snd (own_node P it n [])) (dec_of_int (sp_prime P))"
      using assms(3,7) by (simp add: reads_def at_ndx_def set_done_def own_are_def) (simp add: own_node_def)
    then show "triple S ?R ?A (ver_node E J (snd (own_node P it n [])) (dec_of_int (sp_prime P)) x) (\<lambda>_. ?A)"
      using texts(2) x length_int_fits [OF par_facts(1) [OF P]] by (blast intro: triple_ver_node [OF assms(1) node_pred_set assms(5)])
  qed
  have 3: "triple S ?R ?A (copyS (dec_of_int n)) (\<lambda>_. ?A)"
    unfolding copyS_def by (rule triple_assert) (use length_int_fits [OF field_int [OF P assms(3)]] in simp)
  note obj = triple_ndx [OF assms(1) node_pred_set assms(3)] triple_fill_obj [OF assms(1) node_pred_set assms(3)]
  show ?thesis
    unfolding ver_turn_def assms(5) [symmetric]
    by (rule triple_bind_eq [OF obj(1)], rule triple_then [OF 3], rule triple_bind_eq [OF obj(2)],
        rule triple_then [OF 1 [unfolded shared_node_def snd_conv]], rule triple_bind_eq, rule triple_own_subs [OF P assms(4,2), where g = "[]"], rule 2)
qed

end
