(* ===== verification/Stress_Tx.thy ===== *)
theory Stress_Tx
  imports Stress_Acts
begin

text \<open>Whole acts and the transaction of the stress workload: what is killed, set and verified is found as it was set.\<close>

section \<open>The loop of an act\<close>

lemma is_int_small [simp]: "is_int 0" "is_int 1" "is_int 10"
  by (simp_all add: is_int_def)

lemma triple_too_many:
  assumes "doing S P" "node_pred P N"
  shows "triple S R (at_ndx S P it c0 n N) (too_many (se_db S)) (\<lambda>x c. x = False \<and> at_ndx S P it c0 n N c)"
proof -
  let ?A = "at_ndx S P it c0 n N"
  have r: "reads ?A (''ERR'', []) (dec_of_int 0)" "reads ?A (''MAXERR'', []) (dec_of_int 10)"
    by (simp_all add: reads_def at_ndx_def acting_def)
  note get = triple_get_intS [OF doing_calls [OF assms(1)] at_steady [OF assms]]
  show ?thesis
    unfolding too_many_def
    by (rule triple_bind_eq [OF get [OF _ r(1)]], simp, simp, rule triple_bind_eq [OF get [OF _ r(2)]], simp, simp, rule triple_ret) simp
qed

lemma triple_fill_loop:
  assumes "doing S P" "pno \<in> {1, 3, 5, 7, 9}" "\<And>a. node_pred P (N a)" "k + a = turns"
    and "\<And>a. a < turns \<Longrightarrow> triple S R (at_ndx S P it c0 (at_walk P pno a) (N a)) p (\<lambda>_. at_ndx S P it c0 (at_walk P pno a) (N (Suc a)))"
  shows "triple S R (at_ndx S P it c0 (at_walk P pno a) (N a)) (fill_loop (se_db S) p (sp_prime P) (sp_root P pno) k (at_walk P pno a))
     (\<lambda>_. at_ndx S P it c0 (at_walk P pno turns) (N turns))"
  using assms(4)
proof (induction k arbitrary: a)
  case (Suc k)
  have P: "par_ok P" using assms(1) by (simp add: doing_def)
  let ?A = "\<lambda>n. at_ndx S P it c0 n (N (Suc a))"
  have set_ndx: "triple S R (?A (at_walk P pno a)) (setS (se_db S) ''ndx'' [] (dec_of_int (at_walk P pno (Suc a)))) (\<lambda>_. ?A (at_walk P pno (Suc a)))"
    by (rule triple_setS [OF doing_calls [OF assms(1)] at_steady [OF assms(1,3)] at_may_local [OF assms(1)] _ at_next [OF assms(3)]]) simp_all
  have "triple S R (?A (at_walk P pno (Suc a))) (fill_loop (se_db S) p (sp_prime P) (sp_root P pno) k (at_walk P pno (Suc a)))
      (\<lambda>_. at_ndx S P it c0 (at_walk P pno turns) (N turns))"
    using Suc by simp
  then show ?case
    unfolding fill_loop.simps
    by (intro triple_then [OF assms(5)] triple_lift_eq [OF next_ndx_walk [OF P assms(2)]] triple_then [OF set_ndx]
        triple_bind_eq [OF triple_too_many [OF assms(1,3)]])
      (use Suc.prems in simp_all)
qed (simp add: triple_ret)

section \<open>A whole act\<close>

abbreviation resting :: "'w setting \<Rightarrow> stress_par \<Rightarrow> int \<Rightarrow> contents \<Rightarrow> (contents \<Rightarrow> bool) \<Rightarrow> contents \<Rightarrow> bool" where
  "resting S P it c0 N \<equiv> holding S P it c0 [] N"

lemma at_resting: "at_ndx S P it c0 n N c \<Longrightarrow> resting S P it c0 N c"
  by (simp add: at_holding holding_def)

lemma triple_setup:
  assumes "doing S P" "node_pred P N" "g \<in> fill_locals" "\<forall>v. (g, v) \<notin> set L"
  shows "triple S R (holding S P it c0 L N) (setS (se_db S) g [] v) (\<lambda>_. holding S P it c0 ((g, v) # L) N)"
proof -
  have "\<not> is_global g" using assms(3) by (auto simp: fill_locals_def)
  then show ?thesis
    by (intro triple_setS [OF doing_calls [OF assms(1)] holding_steady [OF assms(1,2)] at_may_local [OF assms(1)] _ holding_local [OF assms(2-4)]]) simp_all
qed

lemma triple_filling:
  assumes "doing S P" "pno \<in> {1, 3, 5, 7, 9}" "\<And>a. node_pred P (N a)" "se_db S = sx_db E"
    and "\<And>a. a < nat (sp_prime P - 1) \<Longrightarrow> triple S R (at_ndx S P it c0 (at_walk P pno a) (N a)) (act_turn E J act (sp_prime P) it)
           (\<lambda>_. at_ndx S P it c0 (at_walk P pno a) (N (Suc a)))"
  shows "triple S R (resting S P it c0 (N 0)) (m_filling_randfill E J act (sp_prime P) (sp_root P pno) it)
     (\<lambda>_. resting S P it c0 (N (nat (sp_prime P - 1))))"
proof -
  let ?t = "nat (sp_prime P - 1)"
  have P: "par_ok P" using assms(1) by (simp add: doing_def)
  have turns: "int_of (sp_prime P - 1) = Inr (sp_prime P - 1)" using P by (simp add: par_ok_def int_of_def)
  let ?H = "\<lambda>L. holding S P it c0 L (N 0)"
  note begins = triple_setup [OF assms(1,3)]
  have 1: "triple S R (?H []) (setS (se_db S) ''ERR'' [] (dec_of_int 0)) (\<lambda>_. ?H [(''ERR'', dec_of_int 0)])"
    by (rule begins) (simp_all add: fill_locals_def)
  have 2: "triple S R (?H [(''ERR'', dec_of_int 0)]) (setS (se_db S) ''MAXERR'' [] (dec_of_int 10)) (\<lambda>_. ?H [(''MAXERR'', dec_of_int 10), (''ERR'', dec_of_int 0)])"
    by (rule begins) (simp_all add: fill_locals_def)
  have 3: "triple S R (?H [(''MAXERR'', dec_of_int 10), (''ERR'', dec_of_int 0)]) (setS (se_db S) ''ndx'' [] (dec_of_int 1)) (\<lambda>_. at_ndx S P it c0 1 (N 0))"
    unfolding at_holding by (rule begins) (simp_all add: fill_locals_def)
  have 4: "triple S R (at_ndx S P it c0 1 (N 0)) (fill_loop (se_db S) (act_turn E J act (sp_prime P) it) (sp_prime P) (sp_root P pno) ?t 1)
      (\<lambda>_. at_ndx S P it c0 (at_walk P pno ?t) (N ?t))"
    using triple_fill_loop [OF assms(1-3) _ assms(5), of ?t 0] at_walk_0 [OF P] by simp
  have 5: "triple S R (at_ndx S P it c0 (at_walk P pno ?t) (N ?t)) (get_intS (se_db S) ''ERR'')
      (\<lambda>x c. x = 0 \<and> at_ndx S P it c0 (at_walk P pno ?t) (N ?t) c)"
    by (rule triple_get_intS [OF doing_calls [OF assms(1)] at_steady [OF assms(1,3)]]) (simp_all add: reads_def at_ndx_def acting_def)
  show ?thesis
    unfolding m_filling_randfill_def Let_def assms(4) [symmetric]
    by (rule triple_then [OF 1], rule triple_then [OF 2], rule triple_then [OF 3], rule triple_lift_eq [OF turns], rule triple_then [OF 4],
        rule triple_bind_eq [OF 5]) (simp add: triple_ret at_resting)
qed

section \<open>The three acts\<close>

lemma walk_Suc: "at_walk P pno ` {..<Suc a} \<times> G = {at_walk P pno a} \<times> G \<union> at_walk P pno ` {..<a} \<times> G"
  by (auto simp: lessThan_Suc)

lemma triple_randfill:
  assumes "doing S P" "pno \<in> {1, 3, 5, 7, 9}" "node_pred P N" "se_db S = sx_db E"
    and "triple S (restarted S c0) (resting S P it c0 N) (m_filling_randfill E J act (sp_prime P) (sp_root P pno) it) B"
  shows "triple S (restarted S c0) (resting S P it c0 N) (m_randfill E J act pno it) B"
proof -
  let ?A = "resting S P it c0 N" and ?R = "restarted S c0"
  have P: "par_ok P" using assms(1) by (simp add: doing_def)
  then have p: "0 < sp_root P pno" "sp_prime P * sp_root P pno \<le> 2 ^ 31" "2 \<le> sp_prime P" using assms(2) by (auto simp: par_ok_def)
  have "2 * sp_root P pno \<le> sp_prime P * sp_root P pno" using p(1,3) by (intro mult_right_mono) auto
  then have "2 * sp_root P pno \<le> 2 ^ 31" using p(2) by linarith
  then have ints: "is_int (sp_root P pno)" "is_int (sp_prime P)" using p(1) par_facts(1) [OF P] by (auto simp: is_int_def)
  have re: "retries S ?R ?A" by (simp add: retries_def restarted_def holding_def frame_def locals_since_def same_locals_def)
  note get = triple_getT [OF doing_calls [OF assms(1)] holding_steady [OF assms(1,3)] re _ length_int_fits]
  have "reads ?A (''^root'', [dec_of_int pno]) (dec_of_int (sp_root P pno))" "reads ?A (''^prime'', []) (dec_of_int (sp_prime P))"
    using assms(2) by (auto simp: reads_def holding_def stress_data_def)
  then show ?thesis
    unfolding m_randfill_def assms(4) [symmetric]
    by (intro triple_bind_eq [OF get [OF _ ints(1)]] triple_bind_eq [OF get [OF _ ints(2)]] triple_lift_eq [OF atoi_of_int [OF ints(1)]]
        triple_lift_eq [OF atoi_of_int [OF ints(2)]] assms(5))
qed

definition all_own :: "stress_par \<Rightarrow> (int \<times> string) set" where
  "all_own P = field P \<times> set own_fills"

definition all_shared :: "stress_par \<Rightarrow> (int \<times> string) set" where
  "all_shared P = field P \<times> set shared_fills"

lemma triple_kill:
  assumes "doing S P" "pno \<in> {1, 3, 5, 7, 9}" "se_db S = sx_db E" "sj_pid J = sp_me P" "is_int it"
  shows "triple S (restarted S c0) (resting S P it c0 (\<lambda>_. True)) (m_randfill E J KILL pno it) (\<lambda>_. resting S P it c0 (own_are P it {}))"
proof -
  let ?N = "\<lambda>a. own_gone P it (at_walk P pno ` {..<a} \<times> set own_fills)"
  have P: "par_ok P" using assms(1) by (simp add: doing_def)
  have "triple S (restarted S c0) (resting S P it c0 (?N 0)) (m_filling_randfill E J KILL (sp_prime P) (sp_root P pno) it)
      (\<lambda>_. resting S P it c0 (?N (nat (sp_prime P - 1))))"
  proof (rule triple_filling [where N = ?N, OF assms(1,2) node_pred_own(2) assms(3)])
    fix a assume "a < nat (sp_prime P - 1)"
    then show "triple S (restarted S c0) (at_ndx S P it c0 (at_walk P pno a) (?N a)) (act_turn E J KILL (sp_prime P) it)
        (\<lambda>_. at_ndx S P it c0 (at_walk P pno a) (?N (Suc a)))"
      using triple_kill_turn [OF assms(1,4) at_walk_field [OF P assms(2)] assms(5)]
      by (simp only: act_turn_def act_t.case assms(3) [symmetric] walk_Suc)
  qed
  moreover have "?N 0 = (\<lambda>_. True)" by (simp add: own_gone_def fun_eq_iff)
  moreover have "?N (nat (sp_prime P - 1)) = own_are P it {}"
    unfolding at_walk_all [OF P assms(2)] by (auto simp: own_gone_def own_are_def fun_eq_iff)
  ultimately show ?thesis using triple_randfill [OF assms(1,2) node_pred_true assms(3)] by simp
qed

lemma triple_set:
  assumes "doing S P" "pno \<in> {1, 3, 5, 7, 9}" "se_db S = sx_db E" "sj_pid J = sp_me P" "is_int it"
  shows "triple S (restarted S c0) (resting S P it c0 (own_are P it {})) (m_randfill E J SET pno it)
     (\<lambda>_. resting S P it c0 (set_done P it (all_shared P) (all_own P)))"
proof -
  let ?N = "\<lambda>a. set_done P it (at_walk P pno ` {..<a} \<times> set shared_fills) (at_walk P pno ` {..<a} \<times> set own_fills)"
  have P: "par_ok P" using assms(1) by (simp add: doing_def)
  have "triple S (restarted S c0) (resting S P it c0 (?N 0)) (m_filling_randfill E J SET (sp_prime P) (sp_root P pno) it)
      (\<lambda>_. resting S P it c0 (?N (nat (sp_prime P - 1))))"
  proof (rule triple_filling [where N = ?N, OF assms(1,2) node_pred_set assms(3)])
    fix a assume a: "a < nat (sp_prime P - 1)"
    have "at_walk P pno a \<notin> at_walk P pno ` {..<a}"
    proof
      assume "at_walk P pno a \<in> at_walk P pno ` {..<a}"
      then obtain b where "b < a" "at_walk P pno a = at_walk P pno b" by blast
      then show False using inj_onD [OF at_walk_inj [OF P assms(2)], of a b] a by simp
    qed
    then show "triple S (restarted S c0) (at_ndx S P it c0 (at_walk P pno a) (?N a)) (act_turn E J SET (sp_prime P) it)
        (\<lambda>_. at_ndx S P it c0 (at_walk P pno a) (?N (Suc a)))"
      using triple_set_turn [OF assms(1,4) at_walk_field [OF P assms(2) a] assms(5)]
      by (simp only: act_turn_def act_t.case assms(3) [symmetric] walk_Suc) simp
  qed
  moreover have "?N 0 = own_are P it {}" by (simp add: set_done_def shared_are_def fun_eq_iff)
  moreover have "?N (nat (sp_prime P - 1)) = set_done P it (all_shared P) (all_own P)"
    unfolding at_walk_all [OF P assms(2)] by (simp add: all_own_def all_shared_def)
  ultimately show ?thesis using triple_randfill [OF assms(1,2) node_pred_own(1) assms(3)] by simp
qed

lemma triple_ver:
  assumes "doing S P" "pno \<in> {1, 3, 5, 7, 9}" "se_db S = sx_db E" "sj_pid J = sp_me P" "is_int it"
  shows "triple S (restarted S c0) (resting S P it c0 (set_done P it (all_shared P) (all_own P))) (m_randfill E J VER pno it)
     (\<lambda>_. resting S P it c0 (set_done P it (all_shared P) (all_own P)))"
proof -
  let ?N = "set_done P it (all_shared P) (all_own P)"
  have P: "par_ok P" using assms(1) by (simp add: doing_def)
  have "triple S (restarted S c0) (resting S P it c0 ?N) (m_filling_randfill E J VER (sp_prime P) (sp_root P pno) it) (\<lambda>_. resting S P it c0 ?N)"
  proof (rule triple_filling [where N = "\<lambda>_. ?N", OF assms(1,2) node_pred_set assms(3)])
    fix a assume a: "a < nat (sp_prime P - 1)"
    have f: "at_walk P pno a \<in> field P" by (rule at_walk_field [OF P assms(2) a])
    show "triple S (restarted S c0) (at_ndx S P it c0 (at_walk P pno a) ?N) (act_turn E J VER (sp_prime P) it) (\<lambda>_. at_ndx S P it c0 (at_walk P pno a) ?N)"
      unfolding act_turn_def act_t.case
      by (rule triple_ver_turn [OF assms(1,4) f assms(5,3)]) (use f in \<open>simp_all add: all_own_def all_shared_def\<close>)
  qed
  then show ?thesis by (rule triple_randfill [OF assms(1,2) node_pred_set assms(3)])
qed

section \<open>The function of the transaction\<close>

text \<open>The laws of the other calls: a text is written if it is not a report of a failure.\<close>

definition failure_report :: "string \<Rightarrow> bool" where
  "failure_report s \<longleftrightarrow> (\<exists>t. s = '' ** FAIL verifying global '' @ t) \<or> (\<exists>act. s = act_name act @ '' FAIL'' @ [CHR 0x0A])"

definition write_here :: "'w stress_env \<Rightarrow> 'w setting \<Rightarrow> bool" where
  "write_here E S \<longleftrightarrow> (\<forall>fd s w. se_here S w \<longrightarrow> \<not> failure_report s \<longrightarrow>
     fst (sx_write E fd s w) = int (length s) \<and> quiet S w (snd (sx_write E fd s w)))"

text \<open>\<^verbatim>\<open>$TRESTART\<close> and \<^verbatim>\<open>$TLEVEL\<close> are zero outside transactions.\<close>

definition isv_here :: "'w stress_env \<Rightarrow> 'w setting \<Rightarrow> bool" where
  "isv_here E S \<longleftrightarrow> (\<forall>name w. se_here S w \<longrightarrow> fst (fst (sx_isv E name w)) = db_ok (se_db S) \<and> quiet S w (snd (sx_isv E name w)) \<and>
     (\<exists>n. snd (fst (sx_isv E name w)) = dec_of_int n \<and> is_int n \<and> (se_mode S = Outside \<longrightarrow> n = 0)))"

definition env_here :: "'w stress_env \<Rightarrow> 'w setting \<Rightarrow> bool" where
  "env_here E S \<longleftrightarrow> se_db S = sx_db E \<and> calls_here S \<and> write_here E S \<and> isv_here E S"

lemma triple_write:
  assumes "write_here E S" "\<not> failure_report s" "length s < tn_MAXVALUELEN"
  shows "triple S R A (writeS E fd s) (\<lambda>_. A)"
proof -
  have "triple S R A (callP (sx_write E fd s)) (\<lambda>x c. x = int (length s) \<and> A c)"
    by (rule triple_call) (use assms(1,2) in \<open>auto simp: write_here_def\<close>)
  then show ?thesis
    unfolding writeS_def sprintS_def using assms(3)
    by (intro triple_lift_eq [where v = s] triple_bind_eq [where v = "int (length s)" and B = A] triple_then [where B = A] triple_assert) auto
qed

lemma no_report:
  assumes "hd s \<notin> set '' skv''" "s \<noteq> []"
  shows "\<not> failure_report s"
proof
  assume "failure_report s"
  then have "hd s = CHR '' '' \<or> (\<exists>act. hd s = hd (act_name act @ '' FAIL'' @ [CHR 0x0A]))" by (auto simp: failure_report_def)
  then have "hd s \<in> set '' skv''" by (auto simp: act_name_def split: if_splits)
  then show False using assms(1) by simp
qed

lemma triple_isv:
  assumes "env_here E S"
  shows "triple S R A (get_isvS E name) (\<lambda>x c. (is_int x \<and> (se_mode S = Outside \<longrightarrow> x = 0)) \<and> A c)"
proof -
  let ?P = "\<lambda>sv. fst sv = db_ok (se_db S) \<and> (\<exists>n. snd sv = dec_of_int n \<and> is_int n \<and> (se_mode S = Outside \<longrightarrow> n = 0))"
  have db: "se_db S = sx_db E" using assms by (simp add: env_here_def)
  have 1: "triple S R A (callP (sx_isv E name)) (\<lambda>sv c. ?P sv \<and> A c)"
    by (rule triple_call) (use assms in \<open>auto simp: env_here_def isv_here_def\<close>)
  show ?thesis
    unfolding get_isvS_def
  proof (rule triple_bind_pure [OF 1])
    fix sv :: "int \<times> string" assume "?P sv"
    then obtain n where sv: "sv = (db_ok (se_db S), dec_of_int n)" "is_int n" "se_mode S = Outside \<longrightarrow> n = 0" by (cases sv) auto
    show "triple S R A (case sv of (s, v) \<Rightarrow> thenP (okS (sx_db E) s) (liftP (atoi_of v))) (\<lambda>x c. (is_int x \<and> (se_mode S = Outside \<longrightarrow> x = 0)) \<and> A c)"
      unfolding sv(1) okS_def db prod.case
      by (rule triple_then [where B = A, OF triple_assert], simp, rule triple_lift) (use sv(2,3) in \<open>simp add: atoi_of_int\<close>)
  qed
qed

text \<open>What a successful or a rolled back run leaves, at its end.\<close>

abbreviation filled :: "'w setting \<Rightarrow> stress_par \<Rightarrow> int \<Rightarrow> contents \<Rightarrow> contents \<Rightarrow> bool" where
  "filled S P it c0 \<equiv> resting S P it c0 (set_done P it (all_shared P) (all_own P))"

definition tpfn_leaves ::
  "'w stress_env \<Rightarrow> stress_job \<Rightarrow> 'w setting \<Rightarrow> stress_par \<Rightarrow> int \<Rightarrow> contents \<Rightarrow> int \<Rightarrow> contents \<Rightarrow> bool" where
  "tpfn_leaves E J S P it c0 s c \<longleftrightarrow> restarted S c0 s c \<or> s = sx_rollback E \<and> sj_tpflag J = TPR \<and> filled S P it c0 c"

lemma pno_walk:
  assumes "1 \<le> loop" "2 * loop < 2 ^ 31"
  shows "\<exists>pno \<in> {1, 3, 5, 7, 9}. bindE (int_of (2 * loop)) (\<lambda>x. bindE (c_rem x 10) (\<lambda>r. int_of (r + 1))) = Inr pno"
proof -
  have "c_rem (2 * loop) 10 = Inr (2 * loop mod 10)" using assms by (intro c_rem_pos) auto
  moreover have "2 * loop mod 10 \<in> {0, 2, 4, 6, 8}" by simp presburger
  ultimately show ?thesis using assms by (auto simp: int_of_def)
qed

theorem triple_tpfn:
  assumes "env_here E S" "doing S P" "sj_pid J = sp_me P" "1 \<le> loop" "2 * loop < 2 ^ 31" "se_mode S = Outside \<longleftrightarrow> sj_tpflag J = NTP"
  shows "triple S (tpfn_leaves E J S P loop c0) (resting S P loop c0 (\<lambda>_. True)) (job_stress_tpfn E J loop)
     (\<lambda>_ c. sj_tpflag J \<noteq> TPR \<and> filled S P loop c0 c)"
proof -
  obtain pno where pno: "pno \<in> {1, 3, 5, 7, 9}" "bindE (int_of (2 * loop)) (\<lambda>x. bindE (c_rem x 10) (\<lambda>r. int_of (r + 1))) = Inr pno"
    using pno_walk [OF assms(4,5)] by blast
  have db: "se_db S = sx_db E" and wr: "write_here E S" using assms(1) by (simp_all add: env_here_def)
  have it: "is_int loop" using assms(4,5) by (simp add: is_int_def)
  let ?R = "tpfn_leaves E J S P loop c0"
  have weak: "triple S ?R A p B" if "triple S (restarted S c0) A p B" for A B and p :: "('a, unit) prog"
    by (rule triple_conseq [OF that]) (simp_all add: tpfn_leaves_def)
  note acts = weak [OF triple_kill [OF assms(2) pno(1) db assms(3) it]] weak [OF triple_set [OF assms(2) pno(1) db assms(3) it]]
    weak [OF triple_ver [OF assms(2) pno(1) db assms(3) it]]
  have report: "triple S ?R (filled S P loop c0) (if trestart \<noteq> 0
       then thenP (assertP (sj_tpflag J \<noteq> NTP))
         (bindP (get_isvS E ''$tlevel'') (\<lambda>tlevel.
          writeS E (sj_outfd J) (''TRESTART = '' @ dec_of_int trestart @ '' For Loop='' @ dec_of_int loop @ '' TLEVEL='' @
            dec_of_int tlevel @ [CHR 0x0A])))
       else retP ()) (\<lambda>_. filled S P loop c0)"
    if "is_int trestart \<and> (se_mode S = Outside \<longrightarrow> trestart = 0)" for trestart
  proof (rule triple_if)
    assume "trestart \<noteq> 0"
    then have flag: "sj_tpflag J \<noteq> NTP" using that assms(6) by blast
    note tr = that
    let ?text = "\<lambda>tlevel. ''TRESTART = '' @ dec_of_int trestart @ '' For Loop='' @ dec_of_int loop @ '' TLEVEL='' @ dec_of_int tlevel @ [CHR 0x0A]"
    have fits: "length (?text tlevel) < tn_MAXVALUELEN" if "is_int tlevel" for tlevel
      using length_dec_int [of trestart] length_dec_int [OF it] length_dec_int [OF that] tr by (simp add: tn_MAXVALUELEN_def)
    have "triple S ?R (filled S P loop c0) (writeS E (sj_outfd J) (?text tlevel)) (\<lambda>_. filled S P loop c0)" if "is_int tlevel" for tlevel
      by (rule triple_write [OF wr no_report fits [OF that]]) simp_all
    then show "triple S ?R (filled S P loop c0) (thenP (assertP (sj_tpflag J \<noteq> NTP))
         (bindP (get_isvS E ''$tlevel'') (\<lambda>tlevel. writeS E (sj_outfd J) (?text tlevel)))) (\<lambda>_. filled S P loop c0)"
      using flag by (intro triple_then [where B = "filled S P loop c0", OF triple_assert] triple_bind_pure [OF triple_isv [OF assms(1)]]) auto
  qed (simp add: triple_ret)
  have last_step: "triple S ?R (filled S P loop c0) (if sj_tpflag J = TPR then leave (sx_rollback E) else retP ())
      (\<lambda>_ c. sj_tpflag J \<noteq> TPR \<and> filled S P loop c0 c)"
    by (intro triple_if triple_leave triple_ret) (simp_all add: tpfn_leaves_def)
  show ?thesis
    unfolding job_stress_tpfn_def
    by (rule triple_lift_eq [OF pno(2)], rule triple_then [OF acts(1)], rule triple_then [OF acts(2)], rule triple_then [OF acts(3)],
        rule triple_bind_pure [OF triple_isv [OF assms(1)]], rule triple_then [OF report last_step])
qed

end
