(* ===== verification/Stress_Job.thy ===== *)
theory Stress_Job
  imports Stress_Tx
begin

text \<open>A job of the stress workload from its start to its end, with the laws of transactions and of the system calls.\<close>

section \<open>Laws\<close>

text \<open>The worlds in which a token is the right one, by mode.\<close>

definition here :: "(nat \<Rightarrow> 'w stress_env) \<Rightarrow> 'w world \<Rightarrow> ('w \<Rightarrow> nat) \<Rightarrow> nat \<Rightarrow> tp_mode \<Rightarrow> 'w setting" where
  "here A W tk t m = \<lparr>se_db = sx_db (A t), se_world = W, se_mode = m, se_here = \<lambda>w. mode W w = m \<and> tk w = t\<rparr>"

text \<open>
  The contents at the start of a try: the local variables in \<open>V\<close> may have been changed by the tries before.  A rollback undoes
  the changes of the globals.
\<close>

definition tries :: "'w world \<Rightarrow> string set \<Rightarrow> 'w \<Rightarrow> contents \<Rightarrow> bool" where
  "tries W V w c0 \<longleftrightarrow> (\<exists>c. others W (view W w) c \<and> (\<forall>g ss. g \<notin> V \<longrightarrow> c0 (g, ss) = c (g, ss)))"

definition rolled :: "contents \<Rightarrow> contents \<Rightarrow> contents" where
  "rolled c0 c1 = (\<lambda>k. if is_global (fst k) then c0 k else c1 k)"

definition try_ok :: "'w stress_env \<Rightarrow> 'w world \<Rightarrow> string set \<Rightarrow> string list \<Rightarrow> 'w \<Rightarrow> int \<Rightarrow> 'w \<Rightarrow> bool" where
  "try_ok E W V names w0 s w1 \<longleftrightarrow>
     (\<forall>g ss. \<not> is_global g \<longrightarrow> g \<notin> V \<union> set names \<longrightarrow> view W w1 (g, ss) = view W w0 (g, ss)) \<and>
     (s = db_restart (sx_db E) \<and> mode W w0 = Retry \<or> s = db_ok (sx_db E) \<and> guar W (view W w0) (view W w1) \<or> s = sx_rollback E)"

text \<open>
  A transaction whose tries all ask for a restart, succeed with a change that is guaranteed, or roll back ends like one of them
  that does not ask for a restart.  The function gets the token of its try.
\<close>

definition stress_tp_law :: "(nat \<Rightarrow> 'w stress_env) \<Rightarrow> 'w tp_call \<Rightarrow> 'w world \<Rightarrow> ('w \<Rightarrow> nat) \<Rightarrow> bool" where
  "stress_tp_law A tp W tk \<longleftrightarrow> (\<forall>V tid names f w. mode W w = Outside \<longrightarrow> (\<forall>g \<in> V. \<not> is_global g) \<longrightarrow>
     (\<forall>w0. mode W w0 \<noteq> Outside \<longrightarrow> tries W V w (view W w0) \<longrightarrow>
        (\<exists>s w1. f (tk w0) w0 = Inr (s, w1) \<and> try_ok (A sx_NOTTP) W V names w0 s w1)) \<longrightarrow>
     (\<exists>s w' w0 w1. tp tid names f w = Inr (s, w') \<and> mode W w' = Outside \<and> mode W w0 \<noteq> Outside \<and> tries W V w (view W w0) \<and>
        f (tk w0) w0 = Inr (s, w1) \<and>
        (s = db_ok (sx_db (A sx_NOTTP)) \<and> view W w' = view W w1 \<or>
         s = sx_rollback (A sx_NOTTP) \<and> view W w' = rolled (view W w0) (view W w1))))"

text \<open>An increment changes nothing but its node, whatever its status.\<close>

definition incr_here :: "'w setting \<Rightarrow> bool" where
  "incr_here S \<longleftrightarrow> (\<forall>g ss w s x w'. se_here S w \<longrightarrow> db_incr (se_db S) g ss None w = ((s, x), w') \<longrightarrow>
     (\<forall>c y. sees (se_world S) w c \<longrightarrow> guar (se_world S) c (c((g, ss) \<mapsto> y))) \<longrightarrow>
     se_here S w' \<and> (\<exists>c. sees (se_world S) w c \<and> (view (se_world S) w' = c \<or> (\<exists>y. view (se_world S) w' = c((g, ss) \<mapsto> y)))))"

definition lock_here :: "'w setting \<Rightarrow> bool" where
  "lock_here S \<longleftrightarrow> (\<forall>g ss w s w'. se_here S w \<longrightarrow> db_lock_incr (se_db S) g ss w = (s, w') \<longrightarrow>
     s = db_ok (se_db S) \<and> se_here S w' \<and> sees (se_world S) w (view (se_world S) w'))"

definition system_here :: "'w stress_env \<Rightarrow> 'w setting \<Rightarrow> int \<Rightarrow> bool" where
  "system_here E S me \<longleftrightarrow> (\<forall>w. se_here S w \<longrightarrow>
     fst (sx_getpid E w) = me \<and> quiet S w (snd (sx_getpid E w)) \<and> quiet S w (snd (sx_localtime E w)) \<and>
     (\<forall>f. fst (sx_creat E f w) \<noteq> - 1 \<and> quiet S w (snd (sx_creat E f w))) \<and>
     (\<forall>old new. fst (sx_dup2 E old new w) = new \<and> quiet S w (snd (sx_dup2 E old new w)))) \<and> incr_here S \<and> lock_here S"

definition job_laws :: "(nat \<Rightarrow> 'w stress_env) \<Rightarrow> 'w tp_call \<Rightarrow> 'w world \<Rightarrow> ('w \<Rightarrow> nat) \<Rightarrow> int \<Rightarrow> bool" where
  "job_laws A tp W tk me \<longleftrightarrow> (\<forall>w. mode W w = Outside \<longrightarrow> tk w = sx_NOTTP) \<and> (\<forall>t m. env_here (A t) (here A W tk t m)) \<and>
     (\<forall>t. db_ok (sx_db (A t)) = db_ok (sx_db (A sx_NOTTP)) \<and> db_restart (sx_db (A t)) = db_restart (sx_db (A sx_NOTTP)) \<and>
        sx_rollback (A t) = sx_rollback (A sx_NOTTP)) \<and>
     sx_rollback (A sx_NOTTP) \<notin> {db_ok (sx_db (A sx_NOTTP)), db_restart (sx_db (A sx_NOTTP))} \<and>
     system_here (A sx_NOTTP) (here A W tk sx_NOTTP Outside) me \<and> stress_tp_law A tp W tk"

lemma here_simps [simp]:
  "se_db (here A W tk t m) = sx_db (A t)" "se_world (here A W tk t m) = W" "se_mode (here A W tk t m) = m"
  "se_here (here A W tk t m) w \<longleftrightarrow> mode W w = m \<and> tk w = t"
  by (simp_all add: here_def)

section \<open>How far a job has come\<close>

text \<open>The private nodes of the iterations before \<open>u\<close>; a process that rolls back leaves all of them alone.\<close>

definition own_done :: "stress_par \<Rightarrow> tpflag_t \<Rightarrow> contents \<Rightarrow> int \<Rightarrow> contents \<Rightarrow> bool" where
  "own_done P flag ci u c \<longleftrightarrow>
     (if flag = TPR then \<forall>k \<in> mine P. fst k \<in> set own_fills \<longrightarrow> c k = ci k else \<forall>i \<in> {1..<u}. own_are P i (all_own P) c)"

definition lasti_key :: "stress_par \<Rightarrow> node" where
  "lasti_key P = (''^lasti'', [dec_of_int (sp_jobno P), sp_inst P])"

definition pid_key :: "stress_par \<Rightarrow> node" where
  "pid_key P = (''^PID'', [dec_of_int (sp_jobno P), sp_inst P])"

definition keepable :: "stress_par \<Rightarrow> node \<Rightarrow> bool" where
  "keepable P k \<longleftrightarrow> \<not> is_global (fst k) \<and> fst k \<notin> fill_locals \<or> k = lasti_key P \<or> k = pid_key P"

definition job_at :: "stress_par \<Rightarrow> tpflag_t \<Rightarrow> contents \<Rightarrow> int \<Rightarrow> (node \<times> string) list \<Rightarrow> contents \<Rightarrow> bool" where
  "job_at P flag ci u L c \<longleftrightarrow> stress_data P c \<and> own_done P flag ci u c \<and> (\<forall>(k, v) \<in> set L. keepable P k \<and> c k = Some v)"

text \<open>Whatever keeps the data of the run, the nodes of the process and its local variables keeps such an assertion.\<close>

lemma job_at_kept:
  assumes "job_at P flag ci u L c" "stress_data P c'" "\<forall>k \<in> mine P. c' k = c k" "locals_since c c'"
  shows "job_at P flag ci u L c'"
proof -
  have "c' k = c k" if "keepable P k" for k
    using that assms(3,4) by (cases k) (auto simp: keepable_def locals_since_def lasti_key_def pid_key_def mine_def)
  moreover have "own_done P flag ci u c'"
    using assms(1,3) own_node_mine by (auto simp: job_at_def own_done_def own_are_def)
  ultimately show ?thesis using assms(1,2) by (auto simp: job_at_def)
qed

lemma job_at_drop: "job_at P flag ci u L c \<Longrightarrow> set L' \<subseteq> set L \<Longrightarrow> job_at P flag ci u L' c"
  by (auto simp: job_at_def)

lemma job_steady:
  assumes "stress_world P ntp (se_world S)"
  shows "steady S (job_at P flag ci u L)"
  unfolding steady_def
proof (intro impI allI)
  fix c c' assume o: "others (se_world S) c c'" "job_at P flag ci u L c"
  then have "stress_rely P ntp c c'" "locals_since c c'" using assms by (auto simp: others_def stress_world_def locals_since_def)
  then show "job_at P flag ci u L c'" using o(2) by (intro job_at_kept [OF o(2)]) (auto simp: stress_rely_def job_at_def)
qed

text \<open>Changes outside of the filling.\<close>

definition aside :: "stress_par \<Rightarrow> (contents \<Rightarrow> contents) \<Rightarrow> bool" where
  "aside P f \<longleftrightarrow> (\<forall>c k. f c k \<noteq> c k \<longrightarrow> \<not> is_global (fst k) \<or> k = lasti_key P \<or> k = pid_key P \<or> fst k = ''^permit'')"

lemma aside_fills:
  assumes "aside P f" "fst k \<in> set own_fills \<or> fst k \<in> set shared_fills"
  shows "f c k = c k"
proof -
  have "is_global (fst k)" "fst k \<notin> {''^lasti'', ''^PID'', ''^permit''}"
    using assms(2) fills_global fills_apart by blast+
  then have "is_global (fst k)" "k \<noteq> lasti_key P" "k \<noteq> pid_key P" "fst k \<noteq> ''^permit''" by (auto simp: lasti_key_def pid_key_def)
  then show ?thesis using assms(1) unfolding aside_def by blast
qed

lemma aside_touches:
  assumes "aside P f"
  shows "touched P c (f c)" "shared_stay P UNIV c (f c)"
proof -
  show "touched P c (f c)"
    unfolding touched_def
  proof (intro allI impI)
    fix g ss assume g: "is_global g" "f c (g, ss) \<noteq> c (g, ss)"
    then have "(g, ss) = lasti_key P \<or> (g, ss) = pid_key P \<or> g = ''^permit''" 
      using assms [unfolded aside_def, rule_format, OF g(2)] g(1) by simp
    then show "touches P g ss" by (auto simp: touches_def lasti_key_def pid_key_def)
  qed
  have "f c (shared_node P it n g) = c (shared_node P it n g)" if "g \<in> set shared_fills" for it n g
    by (rule aside_fills [OF assms]) (use that in \<open>simp add: shared_node_def\<close>)
  then show "shared_stay P UNIV c (f c)" by (simp add: shared_stay_def)
qed

lemma job_may: "stress_world P ntp (se_world S) \<Longrightarrow> aside P f \<Longrightarrow> may S A f"
  unfolding may_def stress_world_def stress_guar_def using aside_touches [of P f] by blast

lemma job_aside:
  assumes "aside P f" "\<And>c k v. (k, v) \<in> set L \<Longrightarrow> f c k = c k"
  shows "gives (job_at P flag ci u L) f (job_at P flag ci u L)"
  unfolding gives_def
proof (intro allI impI)
  fix c assume j: "job_at P flag ci u L c"
  have "f c k = c k" if "fst k \<in> set own_fills" for k
    using aside_fills [OF assms(1)] that by blast
  then have "own_done P flag ci u (f c)"
    using j own_node_mine by (auto simp: job_at_def own_done_def own_are_def own_node_def)
  moreover have "stress_data P (f c)" using j touched_data [OF aside_touches(1) [OF assms(1)]] by (simp add: job_at_def)
  ultimately show "job_at P flag ci u L (f c)" using j assms(2) by (fastforce simp: job_at_def)
qed

text \<open>A node that is set takes the place of what was known of it.\<close>

lemma aside_set: "keepable P k \<Longrightarrow> aside P (\<lambda>c. c(k \<mapsto> v))"
  by (auto simp: aside_def keepable_def)

lemma job_set:
  assumes "keepable P k" "\<forall>(k', v') \<in> set L'. k' \<noteq> k \<and> (k', v') \<in> set L"
  shows "gives (job_at P flag ci u L) (\<lambda>c. c(k \<mapsto> v)) (job_at P flag ci u ((k, v) # L'))"
  unfolding gives_def
proof (intro allI impI)
  fix c assume "job_at P flag ci u L c"
  then have "job_at P flag ci u L' c" using assms(2) by (auto intro: job_at_drop)
  then have "job_at P flag ci u L' (c(k \<mapsto> v))"
    using job_aside [OF aside_set [OF assms(1)], of L'] assms(2) unfolding gives_def by fastforce
  then show "job_at P flag ci u ((k, v) # L') (c(k \<mapsto> v))" using assms(1) by (simp add: job_at_def)
qed

end
