(* ===== verification/Stress_Run.thy ===== *)
theory Stress_Run
  imports Stress_Job
begin

text \<open>The turns of a job of the stress workload, and the whole job.\<close>

section \<open>The filling of a turn\<close>

text \<open>A complete filling adds its iteration to those that are done.\<close>

lemma of_iter_own: "of_iter P it (own_node P i n g) \<Longrightarrow> g \<in> set own_fills \<Longrightarrow> i = it"
  using fills_apart(2) [of g] of_iter_subs [of P it g "snd (own_node P i n g)"] by (auto simp: own_node_def)

lemma key_not_iter: "\<not> of_iter P it (lasti_key P)" "\<not> of_iter P it (pid_key P)"
  using fills_apart of_iter_subs by (fastforce simp: lasti_key_def pid_key_def)+

lemma filled_job:
  assumes "filled S P it c0 c" "job_at P flag ci it L c0" "flag \<noteq> TPR"
  shows "job_at P flag ci (it + 1) L c"
proof -
  have d: "stress_data P c" and f: "locals_since c0 c" "\<And>k. k \<in> mine P \<Longrightarrow> \<not> of_iter P it k \<Longrightarrow> c k = c0 k"
    and s: "own_are P it (all_own P) c"
    using assms(1) by (auto simp: holding_def frame_def set_done_def)
  have "own_are P i (all_own P) c" if "i \<in> {1..<it + 1}" for i
  proof (cases "i = it")
    case False
    then have "own_are P i (all_own P) c0" using assms(2,3) that by (simp add: job_at_def own_done_def)
    moreover have "c (own_node P i n g) = c0 (own_node P i n g)" if "g \<in> set own_fills" for n g
      using f(2) [OF own_node_mine [OF that]] of_iter_own [of P it i n g] that False by blast
    ultimately show ?thesis by (simp add: own_are_def)
  qed (use s in simp)
  then have "own_done P flag ci (it + 1) c" using assms(3) by (simp add: own_done_def)
  moreover have "c k = c0 k" if "keepable P k" for k
    using that f key_not_iter [of P it]
    by (cases k) (auto simp: keepable_def locals_since_def mine_def lasti_key_def pid_key_def)
  ultimately show ?thesis using d assms(2) by (auto simp: job_at_def)
qed

text \<open>The filling is a change that the process may commit.\<close>

lemma filled_guar:
  assumes "filled S P it c0 c" "se_mode S \<noteq> Outside"
  shows "stress_guar P False c0 c"
proof -
  have f: "shared_stay P (- {it}) c0 c" "touched P c0 c" and s: "shared_are P it (all_shared P) c"
    using assms frame_touched [of S P it c0 c] by (auto simp: holding_def frame_def set_done_def)
  have "shared_stay P UNIV c0 c"
    unfolding shared_stay_def
  proof (intro ballI impI)
    fix i n g assume n: "n \<in> field P" "g \<in> set shared_fills" "c0 (shared_node P i n g) = Some (dec_of_int n)"
    show "c (shared_node P i n g) = Some (dec_of_int n)"
    proof (cases "i = it")
      case True
      then show ?thesis using s n(1,2) by (simp add: shared_are_def all_shared_def)
    next
      case False
      then show ?thesis using f(1) n by (simp add: shared_stay_def)
    qed
  qed
  then show ?thesis using f(2) by (simp add: stress_guar_def)
qed

text \<open>The contents at the start of a try.\<close>

lemma fill_locals_local: "g \<in> fill_locals \<Longrightarrow> \<not> is_global g"
  by (auto simp: fill_locals_def)

lemma tries_job:
  assumes "stress_world P ntp W" "job_at P flag ci u L (view W w)" "mode W w = Outside" "tries W fill_locals w c0"
  shows "job_at P flag ci u L c0"
proof -
  obtain c where c: "others W (view W w) c" "\<forall>g ss. g \<notin> fill_locals \<longrightarrow> c0 (g, ss) = c (g, ss)" using assms(4) by (auto simp: tries_def)
  let ?S = "\<lparr>se_db = undefined, se_world = W, se_mode = Outside, se_here = \<lambda>_. True\<rparr>"
  have j: "job_at P flag ci u L c"
    using job_steady [of P ntp ?S flag ci u L] assms(1,2) c(1) by (auto simp: steady_def)
  have eq: "c0 (g, ss) = c (g, ss)" if "is_global g" for g ss using c(2) that fill_locals_local by blast
  show ?thesis
  proof (rule job_at_kept [OF j])
    show "stress_data P c0" using j eq by (simp add: job_at_def stress_data_def)
    show "\<forall>k \<in> mine P. c0 k = c k" using eq mine_global by fastforce
    show "locals_since c c0" using c(2) by (simp add: locals_since_def)
  qed
qed

lemma doing_here: "job_laws A tp W tk me \<Longrightarrow> par_ok P \<Longrightarrow> stress_world P (m = Outside) W \<Longrightarrow> doing (here A W tk t m) P"
  by (simp add: doing_def job_laws_def env_here_def)

lemma resting_start: "stress_data P c \<Longrightarrow> resting S P it c (\<lambda>_. True) c"
  by (simp add: holding_def frame_refl)

lemma wp_tpfn:
  assumes "job_laws A tp W tk me" "par_ok P" "stress_world P (m = Outside) W" "sj_pid J = sp_me P" "1 \<le> it" "2 * it < 2 ^ 31"
    "m = Outside \<longleftrightarrow> sj_tpflag J = NTP" "mode W w0 = m" "tk w0 = t" "stress_data P (view W w0)"
  shows "\<exists>s w1. runP (db_ok (sx_db (A t))) (job_stress_tpfn (A t) J it) w0 = Inr (s, w1) \<and> mode W w1 = m \<and> tk w1 = t \<and>
     (s = db_ok (sx_db (A t)) \<and> sj_tpflag J \<noteq> TPR \<and> filled (here A W tk t m) P it (view W w0) (view W w1) \<or>
      tpfn_leaves (A t) J (here A W tk t m) P it (view W w0) s (view W w1))"
proof -
  let ?S = "here A W tk t m"
  have e: "env_here (A t) ?S" using assms(1) by (simp add: job_laws_def)
  have "triple ?S (tpfn_leaves (A t) J ?S P it (view W w0)) (resting ?S P it (view W w0) (\<lambda>_. True)) (job_stress_tpfn (A t) J it)
      (\<lambda>_ c. sj_tpflag J \<noteq> TPR \<and> filled ?S P it (view W w0) c)"
    by (rule triple_tpfn [OF e doing_here [OF assms(1-3)] assms(4-6)]) (use assms(7) in simp)
  then have "wpP (job_stress_tpfn (A t) J it) (\<lambda>_ w1. se_here ?S w1 \<and> sj_tpflag J \<noteq> TPR \<and> filled ?S P it (view W w0) (view W w1))
      (\<lambda>s w1. se_here ?S w1 \<and> tpfn_leaves (A t) J ?S P it (view W w0) s (view W w1)) w0"
    using assms(8-10) resting_start [of P "view W w0" ?S it] unfolding triple_def by simp
  from wpP_run [OF this, of "db_ok (sx_db (A t))"] show ?thesis by auto
qed

text \<open>Outside transactions nothing asks for a restart.\<close>

lemma triple_run_ntp:
  assumes "job_laws A tp W tk me" "par_ok P" "stress_world P True W" "sj_pid J = sp_me P" "1 \<le> it" "2 * it < 2 ^ 31" "sj_tpflag J = NTP"
  shows "triple (here A W tk sx_NOTTP Outside) R (job_at P NTP ci it L) (run_tpfn A tp J it) (\<lambda>_. job_at P NTP ci (it + 1) L)"
  unfolding triple_def here_simps
proof (intro allI impI)
  fix w assume w: "mode W w = Outside \<and> tk w = sx_NOTTP" "job_at P NTP ci it L (view W w)"
  then have d: "stress_data P (view W w)" by (simp add: job_at_def)
  obtain s w1 where run: "runP (db_ok (sx_db (A sx_NOTTP))) (job_stress_tpfn (A sx_NOTTP) J it) w = Inr (s, w1)" "mode W w1 = Outside" "tk w1 = sx_NOTTP"
    "s = db_ok (sx_db (A sx_NOTTP)) \<and> sj_tpflag J \<noteq> TPR \<and> filled (here A W tk sx_NOTTP Outside) P it (view W w) (view W w1) \<or>
     tpfn_leaves (A sx_NOTTP) J (here A W tk sx_NOTTP Outside) P it (view W w) s (view W w1)"
    using wp_tpfn [OF assms(1,2) _ assms(4-6), of Outside w sx_NOTTP] assms(3,7) w d by auto
  then have "s = db_ok (sx_db (A sx_NOTTP))" "filled (here A W tk sx_NOTTP Outside) P it (view W w) (view W w1)"
    using assms(7) by (auto simp: tpfn_leaves_def restarted_def)
  then show "wpP (run_tpfn A tp J it) (\<lambda>x w'. (mode W w' = Outside \<and> tk w' = sx_NOTTP) \<and> job_at P NTP ci (it + 1) L (view W w'))
      (\<lambda>s w'. (mode W w' = Outside \<and> tk w' = sx_NOTTP) \<and> R s (view W w')) w"
    using run(1-3) assms(7) filled_job [of _ P it "view W w" "view W w1" NTP ci L] w(2) by (auto simp: run_tpfn_def Let_def wp_simps wpP_callE)
qed

lemma triple_run_tp:
  assumes "job_laws A tp W tk me" "par_ok P" "stress_world P False W" "sj_pid J = sp_me P" "1 \<le> it" "2 * it < 2 ^ 31" "sj_tpflag J \<noteq> NTP"
  shows "triple (here A W tk sx_NOTTP Outside) R (job_at P (sj_tpflag J) ci it L) (run_tpfn A tp J it)
     (\<lambda>_. job_at P (sj_tpflag J) ci (it + 1) L)"
  unfolding triple_def here_simps
proof (intro allI impI)
  let ?E = "A sx_NOTTP" and ?flag = "sj_tpflag J"
  let ?f = "\<lambda>tok. runP (db_ok (sx_db (A tok))) (job_stress_tpfn (A tok) J it)"
  fix w assume w: "mode W w = Outside \<and> tk w = sx_NOTTP" "job_at P ?flag ci it L (view W w)"
  have st: "db_ok (sx_db (A t)) = db_ok (sx_db ?E)" "db_restart (sx_db (A t)) = db_restart (sx_db ?E)" "sx_rollback (A t) = sx_rollback ?E"
    "sx_rollback ?E \<notin> {db_ok (sx_db ?E), db_restart (sx_db ?E)}" for t
    using assms(1) by (simp_all add: job_laws_def)
  have dist: "db_ok (sx_db ?E) \<noteq> db_restart (sx_db ?E)"
    using assms(1) by (auto simp: job_laws_def env_here_def calls_here_def)
  have attempt: "\<exists>s w1. ?f (tk w0) w0 = Inr (s, w1) \<and> try_ok ?E W fill_locals fill_vars w0 s w1 \<and>
      (s = db_restart (sx_db ?E) \<or>
       s = db_ok (sx_db ?E) \<and> ?flag \<noteq> TPR \<and> filled (here A W tk (tk w0) (mode W w0)) P it (view W w0) (view W w1) \<or>
       s = sx_rollback ?E \<and> ?flag = TPR \<and> locals_since (view W w0) (view W w1))"
    if w0: "mode W w0 \<noteq> Outside" "tries W fill_locals w (view W w0)" for w0
  proof -
    have "stress_data P (view W w0)" using tries_job [OF assms(3) w(2) _ w0(2)] w(1) by (simp add: job_at_def)
    then obtain s w1 where run: "?f (tk w0) w0 = Inr (s, w1)"
      "s = db_ok (sx_db ?E) \<and> ?flag \<noteq> TPR \<and> filled (here A W tk (tk w0) (mode W w0)) P it (view W w0) (view W w1) \<or>
       tpfn_leaves (A (tk w0)) J (here A W tk (tk w0) (mode W w0)) P it (view W w0) s (view W w1)"
      using wp_tpfn [OF assms(1,2) _ assms(4-6), of "mode W w0" w0 "tk w0"] assms(3,7) w0(1) st(1) [of "tk w0"] by auto
    have l: "locals_since (view W w0) (view W w1)" if "filled (here A W tk (tk w0) (mode W w0)) P it (view W w0) (view W w1)"
      using that by (simp add: holding_def frame_def)
    from run(2) consider (ok) "s = db_ok (sx_db ?E)" "?flag \<noteq> TPR" "filled (here A W tk (tk w0) (mode W w0)) P it (view W w0) (view W w1)"
      | (restart) "s = db_restart (sx_db ?E)" "mode W w0 = Retry" "locals_since (view W w0) (view W w1)"
      | (rollback) "s = sx_rollback ?E" "?flag = TPR" "locals_since (view W w0) (view W w1)"
      using st(2) [of "tk w0"] st(3) [of "tk w0"] l by (auto simp: tpfn_leaves_def restarted_def)
    then show ?thesis
    proof cases
      case ok
      then have "guar W (view W w0) (view W w1)" "locals_since (view W w0) (view W w1)"
        using filled_guar [OF ok(3)] w0(1) assms(3) by (auto simp: stress_world_def holding_def frame_def)
      then show ?thesis using run(1) ok by (auto simp: try_ok_def locals_since_def)
    qed (use run(1) in \<open>auto simp: try_ok_def locals_since_def\<close>)
  qed
  have law: "stress_tp_law A tp W tk" using assms(1) by (simp add: job_laws_def)
  obtain s w' w0 w1 where tx: "tp ''BA'' fill_vars ?f w = Inr (s, w')" "mode W w' = Outside" "mode W w0 \<noteq> Outside" "tries W fill_locals w (view W w0)"
    "?f (tk w0) w0 = Inr (s, w1)"
    "s = db_ok (sx_db ?E) \<and> view W w' = view W w1 \<or> s = sx_rollback ?E \<and> view W w' = rolled (view W w0) (view W w1)"
  proof (atomize_elim, rule law [unfolded stress_tp_law_def, rule_format])
    show "mode W w = Outside" "\<And>g. g \<in> fill_locals \<Longrightarrow> \<not> is_global g" using w(1) fill_locals_local by blast+
    show "\<exists>s w1. ?f (tk w0) w0 = Inr (s, w1) \<and> try_ok ?E W fill_locals fill_vars w0 s w1"
      if "mode W w0 \<noteq> Outside" "tries W fill_locals w (view W w0)" for w0
      using attempt [OF that] by blast
  qed
  have j0: "job_at P ?flag ci it L (view W w0)" using tries_job [OF assms(3) w(2) _ tx(4)] w(1) by simp
  have "job_at P ?flag ci (it + 1) L (view W w')"
  proof (cases "s = db_ok (sx_db ?E)")
    case True
    then have "?flag \<noteq> TPR" "filled (here A W tk (tk w0) (mode W w0)) P it (view W w0) (view W w1)" "view W w' = view W w1"
      using attempt [OF tx(3,4)] tx(5,6) st(4) dist by auto
    then show ?thesis using filled_job j0 by simp
  next
    case False
    then have r: "?flag = TPR" "locals_since (view W w0) (view W w1)" "view W w' = rolled (view W w0) (view W w1)"
      using attempt [OF tx(3,4)] tx(5,6) st(4) dist by auto
    have "job_at P ?flag ci it L (view W w')"
    proof (rule job_at_kept [OF j0])
      show "stress_data P (view W w')" using j0 r(3) by (simp add: job_at_def stress_data_def rolled_def)
      show "\<forall>k \<in> mine P. view W w' k = view W w0 k" using r(3) mine_global by (fastforce simp: rolled_def)
      show "locals_since (view W w0) (view W w')" using r(2,3) by (simp add: locals_since_def rolled_def)
    qed
    then show ?thesis using r(1) by (simp add: job_at_def own_done_def)
  qed
  moreover have "tk w' = sx_NOTTP" using assms(1) tx(2) by (simp add: job_laws_def)
  ultimately show "wpP (run_tpfn A tp J it) (\<lambda>x w'. (mode W w' = Outside \<and> tk w' = sx_NOTTP) \<and> job_at P ?flag ci (it + 1) L (view W w'))
      (\<lambda>s w'. (mode W w' = Outside \<and> tk w' = sx_NOTTP) \<and> R s (view W w')) w"
    using tx(1,2,6) assms(7) by (auto simp: run_tpfn_def Let_def wp_simps wpP_callE)
qed

lemma triple_run:
  assumes "job_laws A tp W tk me" "par_ok P" "stress_world P (sj_tpflag J = NTP) W" "sj_pid J = sp_me P" "1 \<le> it" "2 * it < 2 ^ 31"
  shows "triple (here A W tk sx_NOTTP Outside) R (job_at P (sj_tpflag J) ci it L) (run_tpfn A tp J it)
     (\<lambda>_. job_at P (sj_tpflag J) ci (it + 1) L)"
proof (cases "sj_tpflag J = NTP")
  case True
  then show ?thesis using triple_run_ntp [OF assms(1,2) _ assms(4-6) True, of R ci L] assms(3) by simp
next
  case False
  then show ?thesis using triple_run_tp [OF assms(1,2) _ assms(4-6) False, of R ci L] assms(3) by simp
qed

section \<open>The calls of a job\<close>

text \<open>The process that the laws, the data and the world describe.\<close>

definition job_of :: "(nat \<Rightarrow> 'w stress_env) \<Rightarrow> 'w tp_call \<Rightarrow> 'w world \<Rightarrow> ('w \<Rightarrow> nat) \<Rightarrow> stress_par \<Rightarrow> stress_job \<Rightarrow> bool" where
  "job_of A tp W tk P J \<longleftrightarrow> job_laws A tp W tk (sp_me P) \<and> par_ok P \<and> stress_world P (sj_tpflag J = NTP) W \<and>
     sj_pid J = sp_me P \<and> sj_child J = sp_jobno P"

abbreviation out :: "(nat \<Rightarrow> 'w stress_env) \<Rightarrow> 'w world \<Rightarrow> ('w \<Rightarrow> nat) \<Rightarrow> 'w setting" where
  "out A W tk \<equiv> here A W tk sx_NOTTP Outside"

lemma job_calls:
  assumes "job_of A tp W tk P J"
  shows "calls_here (out A W tk)" "env_here (A sx_NOTTP) (out A W tk)" "steady (out A W tk) (job_at P (sj_tpflag J) ci u L)"
    "aside P f \<Longrightarrow> may (out A W tk) B f"
proof -
  have w: "stress_world P (sj_tpflag J = NTP) (se_world (out A W tk))" using assms by (simp add: job_of_def)
  show e: "env_here (A sx_NOTTP) (out A W tk)" using assms by (simp add: job_of_def job_laws_def)
  then show "calls_here (out A W tk)" by (simp add: env_here_def)
  show "steady (out A W tk) (job_at P (sj_tpflag J) ci u L)" by (rule job_steady [OF w])
  show "aside P f \<Longrightarrow> may (out A W tk) B f" by (rule job_may [OF w])
qed

lemma triple_job_write:
  assumes "job_of A tp W tk P J" "hd s \<notin> set '' skv''" "s \<noteq> []" "length s < tn_MAXVALUELEN"
  shows "triple (out A W tk) R B (writeS (A sx_NOTTP) fd s) (\<lambda>_. B)"
  using job_calls(2) [OF assms(1)] no_report [OF assms(2,3)] assms(4) by (intro triple_write) (simp_all add: env_here_def)

lemma triple_job_time:
  assumes "job_of A tp W tk P J"
  shows "triple (out A W tk) R B (get_curtime (A sx_NOTTP)) (\<lambda>x c. length x = 8 \<and> B c)"
proof -
  have "triple (out A W tk) R B (callP (sx_localtime (A sx_NOTTP))) (\<lambda>x c. True \<and> B c)"
    by (rule triple_call) (use assms in \<open>simp add: job_of_def job_laws_def system_here_def\<close>)
  then show ?thesis
    unfolding get_curtime_def by (rule triple_bind_pure) (auto intro!: triple_ret simp: two_digits_def split: prod.split)
qed

lemma triple_job_set:
  assumes "job_of A tp W tk P J" "keepable P (g, ss)" "\<forall>(k', v') \<in> set L'. k' \<noteq> (g, ss) \<and> (k', v') \<in> set L"
  shows "triple (out A W tk) R (job_at P (sj_tpflag J) ci u L) (setS (sx_db (A sx_NOTTP)) g ss v)
     (\<lambda>_. job_at P (sj_tpflag J) ci u (((g, ss), v) # L'))"
  using triple_setS [OF job_calls(1,3) [OF assms(1)] job_calls(4) [OF assms(1) aside_set [OF assms(2)]] _ job_set [OF assms(2,3)], where R = R and v = v] by simp

lemma triple_job_set_other:
  assumes "job_of A tp W tk P J" "\<not> is_global g" "\<forall>(k, v) \<in> set L. fst k \<noteq> g"
  shows "triple (out A W tk) R (job_at P (sj_tpflag J) ci u L) (setS (sx_db (A sx_NOTTP)) g ss v) (\<lambda>_. job_at P (sj_tpflag J) ci u L)"
proof -
  have a: "aside P (\<lambda>c. c((g, ss) \<mapsto> v))" using assms(2) by (auto simp: aside_def)
  have "gives (job_at P (sj_tpflag J) ci u L) (\<lambda>c. c((g, ss) \<mapsto> v)) (job_at P (sj_tpflag J) ci u L)"
    by (rule job_aside [OF a]) (use assms(3) in auto)
  then show ?thesis using triple_setS [OF job_calls(1,3) [OF assms(1)] job_calls(4) [OF assms(1) a], where R = R] assms(2) by simp
qed

lemma triple_job_delete:
  assumes "job_of A tp W tk P J" "\<not> is_global g" "\<forall>(k, v) \<in> set L. fst k \<noteq> g"
  shows "triple (out A W tk) R (job_at P (sj_tpflag J) ci u L) (deleteS (sx_db (A sx_NOTTP)) g) (\<lambda>_. job_at P (sj_tpflag J) ci u L)"
proof -
  have a: "aside P (without_tree g [])" using assms(2) by (auto simp: aside_def without_tree_def split: if_splits)
  have "gives (job_at P (sj_tpflag J) ci u L) (without_tree g []) (job_at P (sj_tpflag J) ci u L)"
    by (rule job_aside [OF a]) (use assms(3) in \<open>auto simp: without_tree_def\<close>)
  then show ?thesis using triple_deleteS [OF job_calls(1,3) [OF assms(1)] job_calls(4) [OF assms(1) a] assms(2), where R = R] by simp
qed

lemma triple_job_get:
  assumes "job_of A tp W tk P J" "((g, ss), v) \<in> set L" "\<not> is_global g" "length v \<le> tn_MAXVALUELEN"
  shows "triple (out A W tk) R (job_at P (sj_tpflag J) ci u L) (getS (sx_db (A sx_NOTTP)) g ss)
     (\<lambda>x c. x = v \<and> job_at P (sj_tpflag J) ci u L c)"
proof -
  have "reads (job_at P (sj_tpflag J) ci u L) (g, ss) v" using assms(2) by (auto simp: reads_def job_at_def)
  from triple_getS [OF job_calls(1,3) [OF assms(1)] assms(3) this assms(4), where R = R] show ?thesis by simp
qed

section \<open>A turn\<close>

definition job_keys :: "stress_par \<Rightarrow> (node \<times> string) list" where
  "job_keys P = [((''jobno'', []), dec_of_int (sp_jobno P)), ((''localinstance'', []), sp_inst P), (pid_key P, dec_of_int (sp_me P))]"

definition lasti_keys :: "stress_par \<Rightarrow> int \<Rightarrow> (node \<times> string) list" where
  "lasti_keys P u = (if u \<le> 1 then [] else [(lasti_key P, dec_of_int (u - 1))])"

lemma keepable_names [simp]:
  "keepable P (''loop'', ss)" "keepable P (''jobno'', ss)" "keepable P (''localinstance'', ss)" "keepable P (''iterate'', ss)"
  "keepable P (lasti_key P)" "keepable P (pid_key P)"
  by (simp_all add: keepable_def fill_locals_def)

lemma key_names: "(k, v) \<in> set (lasti_keys P u @ job_keys P) \<Longrightarrow> fst k \<in> {''jobno'', ''localinstance'', ''^PID'', ''^lasti''}"
  by (auto simp: lasti_keys_def job_keys_def lasti_key_def pid_key_def split: if_splits)

lemma triple_turn:
  assumes "job_of A tp W tk P J" "1 \<le> it" "2 * it < 2 ^ 31"
  shows "triple (out A W tk) R (job_at P (sj_tpflag J) ci it (lasti_keys P it @ job_keys P)) (stress_turn A tp J it)
     (\<lambda>_. job_at P (sj_tpflag J) ci (it + 1) (lasti_keys P (it + 1) @ job_keys P))"
proof -
  let ?E = "A sx_NOTTP" and ?S = "out A W tk" and ?Q = "\<lambda>u. job_at P (sj_tpflag J) ci u" and ?K = "lasti_keys P it @ job_keys P"
  let ?L = "((''loop'', []), dec_of_int it) # ?K"
  have job: "job_laws A tp W tk (sp_me P)" "par_ok P" "stress_world P (sj_tpflag J = NTP) W" "sj_pid J = sp_me P" "sj_child J = sp_jobno P"
    using assms(1) by (simp_all add: job_of_def)
  have it: "is_int it" using assms(2,3) by (simp add: is_int_def)
  have jn: "is_int (sp_jobno P)" using job(2) by (simp add: par_ok_def)
  have names: "\<forall>(k, v) \<in> set ?K. fst k \<noteq> g" if "g \<in> insert ''loop'' (set fill_vars)" for g
    using that key_names [of _ _ P it] by (fastforce simp: fill_names)
  have w1: "triple ?S R (?Q it ?K) (writeS ?E (sj_outfd J) (''iteration number : '' @ dec_of_int it @ [CHR 0x0A])) (\<lambda>_. ?Q it ?K)"
    by (rule triple_job_write [OF assms(1)]) (use length_dec_int [OF it] in \<open>simp_all add: tn_MAXVALUELEN_def\<close>)
  have w2: "triple ?S R (?Q it ?K) (writeS ?E (sj_outfd J) (''time : '' @ now @ [CHR 0x0A])) (\<lambda>_. ?Q it ?K)" if "length now = 8" for now
    by (rule triple_job_write [OF assms(1)]) (use that in \<open>simp_all add: tn_MAXVALUELEN_def\<close>)
  have d: "triple ?S R (?Q it ?K) (seqP (map (deleteS (sx_db ?E)) fill_vars)) (\<lambda>_. ?Q it ?K)"
  proof (rule triple_seq [where I = "\<lambda>_. ?Q it ?K"])
    fix xs x ys assume eq: "fill_vars = xs @ x # ys"
    have "x \<in> set fill_vars" unfolding eq by simp
    then show "triple ?S R (?Q it ?K) (deleteS (sx_db ?E) x) (\<lambda>_. ?Q it ?K)"
      by (intro triple_job_delete [OF assms(1)] names) (simp_all add: fills_global)
  qed
  have s1: "triple ?S R (?Q it ?K) (setS (sx_db ?E) ''loop'' [] (dec_of_int it)) (\<lambda>_. ?Q it ?L)"
    by (rule triple_job_set [OF assms(1)]) (use names [of "''loop''"] in fastforce)+
  have g1: "triple ?S R (?Q u ?L) (getS (sx_db ?E) ''loop'' []) (\<lambda>x c. x = dec_of_int it \<and> ?Q u ?L c)" for u
    by (rule triple_job_get [OF assms(1)]) (simp_all add: length_int_fits [OF it])
  have s2: "triple ?S R (?Q it ?L) (seqP (map (\<lambda>g. setS (sx_db ?E) g [dec_of_int it] (dec_of_int it)) fill_vars)) (\<lambda>_. ?Q it ?L)"
  proof (rule triple_seq [where I = "\<lambda>_. ?Q it ?L"])
    fix xs x ys assume eq: "fill_vars = xs @ x # ys"
    have x: "x \<in> set fill_vars" unfolding eq by simp
    then have "''loop'' \<noteq> x" by (auto simp: fill_names)
    then have "\<forall>(k, v) \<in> set ?L. fst k \<noteq> x" using names [of x] x by simp
    then show "triple ?S R (?Q it ?L) (setS (sx_db ?E) x [dec_of_int it] (dec_of_int it)) (\<lambda>_. ?Q it ?L)"
      by (rule triple_job_set_other [OF assms(1) fills_global(3) [OF x]])
  qed
  have r: "triple ?S R (?Q it ?L) (run_tpfn A tp J it) (\<lambda>_. ?Q (it + 1) ?L)"
    by (rule triple_run [OF job(1-4) assms(2,3)])
  have g2: "triple ?S R (?Q u ?L) (getS (sx_db ?E) ''jobno'' []) (\<lambda>x c. x = dec_of_int (sp_jobno P) \<and> ?Q u ?L c)" for u
    by (rule triple_job_get [OF assms(1)]) (simp_all add: length_int_fits [OF jn] job_keys_def)
  have g3: "triple ?S R (?Q u ?L) (getS (sx_db ?E) ''localinstance'' []) (\<lambda>x c. x = sp_inst P \<and> ?Q u ?L c)" for u
    by (rule triple_job_get [OF assms(1)]) (simp_all add: par_facts(3) [OF job(2)] job_keys_def)
  have s3: "triple ?S R (?Q (it + 1) ?L) (setS (sx_db ?E) ''^lasti'' [dec_of_int (sp_jobno P), sp_inst P] (dec_of_int it))
      (\<lambda>_. ?Q (it + 1) (lasti_keys P (it + 1) @ job_keys P))"
  proof -
    have k: "lasti_keys P (it + 1) = [((''^lasti'', [dec_of_int (sp_jobno P), sp_inst P]), dec_of_int it)]"
      using assms(2) by (simp add: lasti_keys_def lasti_key_def)
    show ?thesis
      unfolding k append.simps
      by (rule triple_job_set [OF assms(1)]) (use keepable_names(5) [of P] in \<open>auto simp: lasti_key_def job_keys_def pid_key_def\<close>)
  qed
  show ?thesis
    unfolding stress_turn_def Let_def
    apply (rule triple_then [OF w1])
    apply (rule triple_bind_pure [OF triple_job_time [OF assms(1)]])
    apply (rule triple_then [OF w2], assumption)
    apply (rule triple_then [OF d])
    apply (rule triple_then [OF s1])
    apply (rule triple_bind_eq [OF g1])
    apply (rule triple_then [OF s2])
    apply (rule triple_then [OF r])
    apply (rule triple_bind_eq [OF g2])
    apply (rule triple_bind_eq [OF g3])
    apply (rule triple_bind_eq [OF g1])
    apply (rule s3)
    done
qed

section \<open>The whole job\<close>

text \<open>The job that a child becomes.\<close>

definition child_job :: "stress_par \<Rightarrow> int \<Rightarrow> stress_job" where
  "child_job P outfd = \<lparr>sj_child = sp_jobno P, sj_outfd = outfd, sj_pid = sp_me P, sj_tpflag = choose_tpflag (sp_jobno P)\<rparr>"

lemma child_job_simps [simp]:
  "sj_child (child_job P fd) = sp_jobno P" "sj_pid (child_job P fd) = sp_me P" "sj_outfd (child_job P fd) = fd"
  "sj_tpflag (child_job P fd) = choose_tpflag (sp_jobno P)"
  by (simp_all add: child_job_def)

lemma job_of_child: "job_of A tp W tk P (child_job P fd) \<longleftrightarrow> job_of A tp W tk P (child_job P fd')"
  by (simp add: job_of_def)

lemma triple_announce:
  assumes "job_of A tp W tk P J" "((''localinstance'', []), sp_inst P) \<in> set L" "((''iterate'', []), v) \<in> set L"
  shows "triple (out A W tk) R (job_at P (sj_tpflag J) ci u L) (announce (A sx_NOTTP) J)
     (\<lambda>_. job_at P (sj_tpflag J) ci u (((''iterate'', []), v) # job_keys P))"
proof -
  let ?S = "out A W tk" and ?db = "sx_db (A sx_NOTTP)" and ?Q = "job_at P (sj_tpflag J) ci u"
  let ?me = "dec_of_int (sp_me P)" and ?L0 = "[((''localinstance'', []), sp_inst P), ((''iterate'', []), v)]"
  let ?L1 = "((''jobno'', []), dec_of_int (sp_jobno P)) # ?L0" and ?L = "((''iterate'', []), v) # job_keys P"
  have job: "par_ok P" "sj_pid J = sp_me P" "sj_child J = sp_jobno P" "system_here (A sx_NOTTP) ?S (sp_me P)"
    using assms(1) by (simp_all add: job_of_def job_laws_def)
  have ints: "is_int (sp_jobno P)" "is_int (sp_me P)" using job(1) by (simp_all add: par_ok_def)
  have 1: "triple ?S R (?Q L) (setS ?db ''jobno'' [] (dec_of_int (sp_jobno P))) (\<lambda>_. ?Q ?L1)"
    by (rule triple_job_set [OF assms(1)]) (use assms(2,3) in auto)
  have 2: "triple ?S R (?Q ?L1) (getS ?db ''jobno'' []) (\<lambda>x c. x = dec_of_int (sp_jobno P) \<and> ?Q ?L1 c)"
    by (rule triple_job_get [OF assms(1)]) (simp_all add: length_int_fits [OF ints(1)])
  have 3: "triple ?S R (?Q ?L1) (getS ?db ''localinstance'' []) (\<lambda>x c. x = sp_inst P \<and> ?Q ?L1 c)"
    by (rule triple_job_get [OF assms(1)]) (simp_all add: par_facts(3) [OF job(1)])
  have 4: "triple ?S R (?Q ?L1) (setS ?db ''^PID'' [dec_of_int (sp_jobno P), sp_inst P] ?me) (\<lambda>_. ?Q ?L)"
  proof (rule triple_conseq)
    show "triple ?S R (?Q ?L1) (setS ?db ''^PID'' [dec_of_int (sp_jobno P), sp_inst P] ?me)
        (\<lambda>_. ?Q (((''^PID'', [dec_of_int (sp_jobno P), sp_inst P]), ?me) # ?L1))"
      by (rule triple_job_set [OF assms(1)]) (use keepable_names(6) [of P] in \<open>simp_all add: pid_key_def\<close>)
    show "?Q (((''^PID'', [dec_of_int (sp_jobno P), sp_inst P]), ?me) # ?L1) c \<Longrightarrow> ?Q ?L c" for c
      by (erule job_at_drop) (simp add: job_keys_def pid_key_def)
  qed
  have copy: "triple ?S R (?Q ?L) (copyS x) (\<lambda>_. ?Q ?L)" if "length x \<le> tn_MAXVALUELEN" for x
    unfolding copyS_def by (rule triple_assert) (use that in simp)
  have steady: "steady ?S (?Q ?L)" and calls: "calls_here ?S" by (rule job_calls [OF assms(1)])+
  have up: "aside P (\<lambda>c. c((''^permit'', ss) \<mapsto> y))" for ss y by (auto simp: aside_def)
  have perm: "gives (?Q ?L) (\<lambda>c. c((''^permit'', ss) \<mapsto> y)) (?Q ?L)" for ss y
    by (rule job_aside [OF up]) (auto simp: job_keys_def pid_key_def)
  have 5: "triple ?S R (?Q ?L) (callP (db_incr ?db ''^permit'' ss None)) (\<lambda>_. ?Q ?L)" for ss
    unfolding triple_def
  proof (intro allI impI)
    fix w assume w: "se_here ?S w" "?Q ?L (view (se_world ?S) w)"
    obtain s x w' where c: "db_incr (se_db ?S) ''^permit'' ss None w = ((s, x), w')" by (metis prod.collapse)
    have law: "incr_here ?S" using job(4) by (simp add: system_here_def)
    have may: "guar (se_world ?S) c (c((''^permit'', ss) \<mapsto> y))" for c y
      using job_calls(4) [OF assms(1) up, of "\<lambda>_. True"] by (simp add: may_def)
    obtain c where c': "se_here ?S w'" "sees (se_world ?S) w c"
      "view (se_world ?S) w' = c \<or> (\<exists>y. view (se_world ?S) w' = c((''^permit'', ss) \<mapsto> y))"
      using law [unfolded incr_here_def, rule_format, OF w(1) c may] by blast
    have q: "?Q ?L c" by (rule steady_sees [OF calls steady w c'(2)])
    have "?Q ?L (view (se_world ?S) w')"
      using c'(3)
    proof
      assume "\<exists>y. view (se_world ?S) w' = c((''^permit'', ss) \<mapsto> y)"
      then show ?thesis using perm q unfolding gives_def by auto
    qed (use q in simp)
    with c'(1) have "se_here ?S w'" "?Q ?L (view (se_world ?S) w')" by simp_all
    then show "wpP (callP (db_incr ?db ''^permit'' ss None)) (\<lambda>x w'. se_here ?S w' \<and> ?Q ?L (view (se_world ?S) w'))
        (\<lambda>s w'. se_here ?S w' \<and> R s (view (se_world ?S) w')) w"
      using c by (simp add: wpP_call)
  qed
  have 6: "triple ?S R (?Q ?L) (locks ?db ''^permit'' ss) (\<lambda>_. ?Q ?L)" for ss
    unfolding triple_def
  proof (intro allI impI)
    fix w assume w: "se_here ?S w" "?Q ?L (view (se_world ?S) w)"
    obtain s w' where c: "db_lock_incr (sx_db (A sx_NOTTP)) ''^permit'' ss w = (s, w')" by force
    have law: "lock_here ?S" using job(4) by (simp add: system_here_def)
    have "s = db_ok (sx_db (A sx_NOTTP))" "se_here ?S w'" "sees W w (view W w')"
      using law [unfolded lock_here_def, rule_format, OF w(1), of "''^permit''" ss s w'] c by auto
    then show "wpP (locks ?db ''^permit'' ss) (\<lambda>x w'. se_here ?S w' \<and> ?Q ?L (view (se_world ?S) w'))
        (\<lambda>s w'. se_here ?S w' \<and> R s (view (se_world ?S) w')) w"
      using steady_sees [OF calls steady w, of "view W w'"] by (simp add: locks_def okS_def wp_simps wpP_call c)
  qed
  show ?thesis
    unfolding announce_def Let_def job(2,3)
    apply (rule triple_then [OF 1])
    apply (rule triple_bind_eq [OF 2])
    apply (rule triple_bind_eq [OF 3])
    apply (rule triple_then [OF 4])
    apply (rule triple_then [OF copy [OF par_facts(3) [OF job(1)]]])
    apply (rule triple_then [OF 5])
    apply (rule triple_then [OF copy [OF length_int_fits [OF ints(2)]]])
    apply (rule 6)
    done
qed

lemma triple_redirect:
  assumes "job_of A tp W tk P J"
  shows "triple (out A W tk) R B (redirectS (A sx_NOTTP) file fd) (\<lambda>_. B)"
proof -
  have sys: "system_here (A sx_NOTTP) (out A W tk) (sp_me P)" using assms by (simp add: job_of_def job_laws_def)
  have 1: "triple (out A W tk) R B (callP (sx_creat (A sx_NOTTP) file)) (\<lambda>x c. x \<noteq> - 1 \<and> B c)"
    by (rule triple_call) (use sys in \<open>simp add: system_here_def\<close>)
  have 2: "triple (out A W tk) R B (callP (sx_dup2 (A sx_NOTTP) old fd)) (\<lambda>x c. x = fd \<and> B c)" for old
    by (rule triple_call) (use sys in \<open>simp add: system_here_def\<close>)
  show ?thesis
    unfolding redirectS_def
    by (rule triple_bind_pure [OF 1], rule triple_then [where B = B, OF triple_assert], simp, rule triple_bind_eq [OF 2],
        rule triple_then [where B = B, OF triple_assert], simp, rule triple_ret)
qed

theorem triple_job_stress:
  assumes "job_of A tp W tk P (child_job P 0)" "0 \<le> n" "2 * n < 2 ^ 31"
  shows "triple (out A W tk) R
     (job_at P (choose_tpflag (sp_jobno P)) ci 1 [((''localinstance'', []), sp_inst P), ((''iterate'', []), dec_of_int n)])
     (m_job_stress A tp (sp_jobno P))
     (\<lambda>_. job_at P (choose_tpflag (sp_jobno P)) ci (n + 1) (lasti_keys P (n + 1) @ job_keys P))"
proof -
  let ?S = "out A W tk" and ?E = "A sx_NOTTP" and ?flag = "choose_tpflag (sp_jobno P)"
  let ?Q = "job_at P ?flag ci" and ?L = "[((''localinstance'', []), sp_inst P), ((''iterate'', []), dec_of_int n)]"
  let ?K = "((''iterate'', []), dec_of_int n) # job_keys P"
  have job: "job_of A tp W tk P (child_job P fd)" for fd using assms(1) job_of_child by blast
  note J = job [of 0]
  have sys: "system_here ?E ?S (sp_me P)" "par_ok P" using J by (simp_all add: job_of_def job_laws_def)
  have ints: "is_int (sp_jobno P)" "is_int (sp_me P)" "is_int n" using sys(2) assms(2,3) by (simp_all add: par_ok_def is_int_def)
  have pid: "triple ?S R B (callP (sx_getpid ?E)) (\<lambda>x c. x = sp_me P \<and> B c)" for B
    by (rule triple_call) (use sys(1) in \<open>simp add: system_here_def\<close>)
  have name: "length (tpflag_name ?flag) = 3" by (simp add: tpflag_name_def split: tpflag_t.split)
  have w1: "triple ?S R B (writeS ?E fd (''PID: '' @ dec_of_int (sp_me P) @ '' : TYPE:'' @ tpflag_name ?flag @ [CHR 0x0A])) (\<lambda>_. B)" for fd B
    by (rule triple_job_write [OF J]) (use length_dec_int [OF ints(2)] name in \<open>simp_all add: tn_MAXVALUELEN_def\<close>)
  have w2: "triple ?S R B (writeS ?E fd (''Waiting for the parent to release lock : '' @ now @ [CHR 0x0A])) (\<lambda>_. B)" if "length now = 8" for now fd B
    by (rule triple_job_write [OF J]) (use that in \<open>simp_all add: tn_MAXVALUELEN_def\<close>)
  have w3: "triple ?S R B (writeS ?E fd (''Successful : '' @ now @ [CHR 0x0A])) (\<lambda>_. B)" if "length now = 8" for now fd B
    by (rule triple_job_write [OF J]) (use that in \<open>simp_all add: tn_MAXVALUELEN_def\<close>)
  have an: "triple ?S R (?Q 1 ?L) (announce ?E (child_job P fd)) (\<lambda>_. ?Q 1 ?K)" for fd
    using triple_announce [OF job [of fd], of ?L "dec_of_int n"] by simp
  have it: "triple ?S R (?Q 1 ?K) (get_intS (sx_db ?E) ''iterate'') (\<lambda>x c. x = n \<and> ?Q 1 ?K c)"
  proof -
    have r: "reads (?Q 1 ?K) (''iterate'', []) (dec_of_int n)" by (simp add: reads_def job_at_def)
    have st: "steady ?S (?Q 1 ?K)" using job_calls(3) [OF J, of ci 1 ?K] by simp
    show ?thesis using triple_get_intS [OF job_calls(1) [OF J] st _ r ints(3), where R = R] by simp
  qed
  have d: "triple ?S R (?Q 1 ?K) (deleteS (sx_db ?E) ''loop'') (\<lambda>_. ?Q 1 (lasti_keys P 1 @ job_keys P))"
  proof (rule triple_conseq)
    show "triple ?S R (?Q 1 ?K) (deleteS (sx_db ?E) ''loop'') (\<lambda>_. ?Q 1 ?K)"
      using triple_job_delete [OF J, of "''loop''" ?K R ci 1] by (simp add: job_keys_def pid_key_def)
    show "?Q 1 ?K c \<Longrightarrow> ?Q 1 (lasti_keys P 1 @ job_keys P) c" for c
      by (erule job_at_drop) (auto simp: lasti_keys_def)
  qed
  have turns: "triple ?S R (?Q 1 (lasti_keys P 1 @ job_keys P)) (seqP (map (stress_turn A tp (child_job P fd)) [1..n]))
      (\<lambda>_. ?Q (n + 1) (lasti_keys P (n + 1) @ job_keys P))" for fd
  proof (rule triple_upto [OF assms(2)])
    fix i assume i: "1 \<le> i" "i \<le> n"
    have "2 * i < 2 ^ 31" using i(2) assms(3) by linarith
    from triple_turn [OF job [of fd] i(1) this, of R ci]
    show "triple ?S R (?Q i (lasti_keys P i @ job_keys P)) (stress_turn A tp (child_job P fd) i)
        (\<lambda>_. ?Q (i + 1) (lasti_keys P (i + 1) @ job_keys P))" by simp
  qed
  show ?thesis
    unfolding m_job_stress_def Let_def
    apply (rule triple_bind_eq [OF pid])
    apply (rule triple_bind [OF triple_redirect [OF J]])
    apply (rule triple_then [OF w1])
    apply (rule triple_then [OF triple_redirect [OF J]])
    apply (rule triple_bind_pure [OF triple_job_time [OF J]])
    apply (rule triple_then [OF w2], assumption)
    apply (fold child_job_def)
    apply (rule triple_then [OF an])
    apply (rule triple_bind_eq [OF it])
    apply (rule triple_then [OF d])
    apply (rule triple_then [OF turns])
    apply (rule triple_bind_pure [OF triple_job_time [OF J]])
    apply (rule w3, assumption)
    done
qed

end
