(* ===== verification/Stress_Results.thy ===== *)
theory Stress_Results
  imports Stress_Run Solo_Db
begin

text \<open>
  What the stress workload promises: every job ends, with the nodes that it set and no report of a failure; the changes of one
  job are what the others rely on; and when the parent stops waiting.  The instances are those of \<open>Solo_Db\<close>, with tokens, on the
  smallest data of the test.
\<close>

section \<open>A process alone with tokens\<close>

definition solo_token :: "solo \<Rightarrow> nat" where
  "solo_token w = (if snd w = Outside then sx_NOTTP else 1)"

text \<open>A call with the wrong token fails.\<close>

definition solo_stress :: "nat \<Rightarrow> solo stress_env" where
  "solo_stress t = \<lparr>sx_db = solo_db\<lparr>
       db_set := \<lambda>g ss v w. if solo_token w = t then db_set solo_db g ss v w else (9, w),
       db_get := \<lambda>g ss n w. if solo_token w = t then db_get solo_db g ss n w else ((9, []), w),
       db_delete_tree := \<lambda>g ss w. if solo_token w = t then solo_delete g ss w else (9, w)\<rparr>,
     sx_rollback = 4, sx_isv = (\<lambda>name w. ((if solo_token w = t then 0 else 9, dec_of_int 0), w)),
     sx_write = (\<lambda>fd s w. (int (length s), w)), sx_localtime = (\<lambda>w. ((12, 30, 59), w)), sx_getpid = (\<lambda>w. (1234, w)),
     sx_creat = (\<lambda>file w. (3, w)), sx_dup2 = (\<lambda>old new w. (new, w)), sx_fork = (\<lambda>w. (1, w)), sx_sleep = (\<lambda>n w. ((), w)),
     sx_waitpid = (\<lambda>pid w. ((pid, False), w))\<rparr>"

definition solo_tp_st :: "solo tp_call" where
  "solo_tp_st tid names f w =
     bindE (f 1 (fst w, Final)) (\<lambda>(s, w1). Inr (s, if s = 4 then rolled (fst w) (fst w1) else fst w1, Outside))"

lemma solo_stress_simps [simp]:
  "sx_rollback (solo_stress t) = 4" "db_ok (sx_db (solo_stress t)) = 0" "db_restart (sx_db (solo_stress t)) = 1" "db_gvundef (sx_db (solo_stress t)) = 2"
  "sx_getpid (solo_stress t) = (\<lambda>w. (1234, w))"
  by (simp_all add: solo_stress_def)

text \<open>The laws hold whatever the others may do, because they do nothing.\<close>

lemma solo_env_here_in:
  assumes "view W = fst" "mode W = snd" "\<And>c. rely W c c"
  shows "env_here (solo_stress t) (here solo_stress W solo_token t m)"
proof -
  let ?S = "here solo_stress W solo_token t m"
  have sees: "sees W w (fst w)" for w using assms by (simp add: sees_def others_def)
  have "set_here ?S" unfolding set_here_def here_simps assms(1,2) using sees
    by (fastforce simp: solo_stress_def solo_db_def solo_token_def)
  moreover have "get_here ?S" unfolding get_here_def here_simps assms(1,2) using sees
    by (auto simp: solo_stress_def solo_db_def split: option.splits)
  moreover have "delete_here ?S" unfolding delete_here_def here_simps assms(1,2) using sees
    by (fastforce simp: solo_stress_def solo_delete_def solo_token_def)
  ultimately have "calls_here ?S" using assms(2) by (simp add: calls_here_def)
  moreover have "is_int 0" by (simp add: is_int_def)
  ultimately show ?thesis using assms(1,2)
    by (auto simp: env_here_def write_here_def isv_here_def quiet_def solo_stress_def)
qed

lemma solo_job_laws_in:
  assumes "view W = fst" "mode W = snd" "\<And>c. rely W c c"
  shows "job_laws solo_stress solo_tp_st W solo_token 1234"
proof -
  have sees: "sees W w (fst w)" for w using assms by (simp add: sees_def others_def)
  let ?S = "here solo_stress W solo_token sx_NOTTP Outside"
  have "incr_here ?S"
    unfolding incr_here_def here_simps assms(1,2) using sees
    by (fastforce simp: solo_stress_def solo_incr_def Let_def solo_token_def)
  moreover have "lock_here ?S"
    unfolding lock_here_def here_simps assms(1,2) using sees by (auto simp: solo_stress_def solo_db_def)
  ultimately have "system_here (solo_stress sx_NOTTP) ?S 1234" using assms(1,2) by (simp add: system_here_def quiet_def) (simp add: solo_stress_def)
  moreover have "stress_tp_law solo_stress solo_tp_st W solo_token"
    unfolding stress_tp_law_def
  proof (intro allI impI)
    fix V :: "string set" and tid :: string and names :: "string list" and f :: "nat \<Rightarrow> solo \<Rightarrow> c_fault + int \<times> solo" and w :: solo
    assume w: "mode W w = Outside" "\<forall>w0. mode W w0 \<noteq> Outside \<longrightarrow> tries W V w (view W w0) \<longrightarrow>
       (\<exists>s w1. f (solo_token w0) w0 = Inr (s, w1) \<and> try_ok (solo_stress sx_NOTTP) W V names w0 s w1)"
    let ?w0 = "(fst w, Final)"
    have t: "tries W V w (view W ?w0)" using assms by (auto simp: tries_def others_def)
    then obtain s w1 where run: "f 1 ?w0 = Inr (s, w1)" "try_ok (solo_stress sx_NOTTP) W V names ?w0 s w1"
      using w(2) [rule_format, of ?w0] assms(1,2) by (auto simp: solo_token_def)
    then have s: "s = 0 \<or> s = 4" using assms(2) by (auto simp: try_ok_def)
    show "\<exists>s w' w0 w1. solo_tp_st tid names f w = Inr (s, w') \<and> mode W w' = Outside \<and> mode W w0 \<noteq> Outside \<and>
       tries W V w (view W w0) \<and> f (solo_token w0) w0 = Inr (s, w1) \<and>
       (s = db_ok (sx_db (solo_stress sx_NOTTP)) \<and> view W w' = view W w1 \<or>
        s = sx_rollback (solo_stress sx_NOTTP) \<and> view W w' = rolled (view W w0) (view W w1))"
      using run(1) s t assms(1,2)
      by (intro exI [of _ s] exI [of _ "(if s = 4 then rolled (fst w) (fst w1) else fst w1, Outside)"] exI [of _ ?w0] exI [of _ w1])
        (auto simp: solo_tp_st_def solo_token_def)
  qed
  ultimately show ?thesis using solo_env_here_in [OF assms] assms(2) by (simp add: job_laws_def solo_token_def)
qed

lemma solo_job_laws: "job_laws solo_stress solo_tp_st solo_world solo_token 1234"
  by (rule solo_job_laws_in) simp_all

lemma solo_stress_world: "stress_world P ntp solo_world"
  by (simp add: stress_world_def stress_rely_def shared_stay_def)

text \<open>The data of \<^verbatim>\<open>lsmall^initdat\<close>; the roots that the turns use are primitive.\<close>

definition small_root :: "int \<Rightarrow> int" where
  "small_root p = (if p = 1 then 2 else if p = 3 then 5 else if p = 5 then 12 else if p = 7 then 18 else 20)"

definition small_par :: "int \<Rightarrow> int \<Rightarrow> stress_par" where
  "small_par me jobno = \<lparr>sp_inst = ''pri'', sp_cust = \<lambda>n. dec_of_int n @ ''|1234'', sp_prime = 53, sp_root = small_root, sp_me = me, sp_jobno = jobno\<rparr>"

definition small_data :: contents where
  "small_data k = (case k of (g, ss) \<Rightarrow>
     if g = ''^instance'' \<or> g = ''localinstance'' then Some ''pri'' else if g = ''^prime'' then Some (dec_of_int 53)
     else if g = ''iterate'' then Some (dec_of_int 12)
     else if g = ''^root'' then Some (dec_of_int (small_root (atoi (hd ss)))) else if g = ''^cust'' then Some (hd ss @ ''|1234'') else None)"

lemma walks_primitive:
  assumes "1 < p" "w ^ nat (p - 1) mod p = 1" "\<And>k. 0 < k \<Longrightarrow> k < nat (p - 1) \<Longrightarrow> w ^ k mod p \<noteq> 1"
  shows "walks p w"
  unfolding walks_def
proof (intro conjI allI impI inj_onI)
  fix a assume a: "a < nat (p - 1)"
  show "w ^ a mod p \<noteq> 0"
  proof
    assume "w ^ a mod p = 0"
    then have "w ^ a * w ^ (nat (p - 1) - a) mod p = 0" by (metis mod_mult_left_eq mult_zero_left mod_0)
    then show False using assms(2) a by (simp flip: power_add)
  qed
qed (use powers_distinct [OF assms] in simp)

lemma small_factors_52: "m dvd (52 :: nat) \<Longrightarrow> m \<noteq> 1 \<Longrightarrow> \<exists>q \<in> {2, 13}. q dvd m"
proof -
  assume m: "m dvd (52 :: nat)" "m \<noteq> 1"
  have "\<forall>m \<in> set [0..<53]. m dvd 52 \<longrightarrow> m \<noteq> 1 \<longrightarrow> 2 dvd m \<or> 13 dvd m" by code_simp
  moreover have "m \<in> set [0..<53]" using dvd_imp_le [OF m(1)] by simp
  ultimately show ?thesis using m by blast
qed

lemma small_walks: "p \<in> {1, 3, 5, 7, 9} \<Longrightarrow> walks 53 (small_root p)"
proof -
  have "walks 53 w" if "w ^ 52 mod 53 = 1" "w ^ 26 mod 53 \<noteq> 1" "w ^ 4 mod 53 \<noteq> 1" for w :: int
  proof (rule walks_primitive)
    have "\<forall>q \<in> {2, 13}. w ^ (52 div q) mod 53 \<noteq> 1" using that by simp
    then show "w ^ k mod 53 \<noteq> 1" if "0 < k" "k < nat (53 - 1)" for k
      using order_full [of 53 w 52 "{2, 13}" k] that \<open>w ^ 52 mod 53 = 1\<close> small_factors_52 by simp
  qed (use that in simp_all)
  then have "walks 53 2" "walks 53 5" "walks 53 12" "walks 53 18" "walks 53 20" by simp_all
  then show "p \<in> {1, 3, 5, 7, 9} \<Longrightarrow> walks 53 (small_root p)" by (auto simp: small_root_def)
qed

lemma small_par_ok: "is_int me \<Longrightarrow> is_int jobno \<Longrightarrow> par_ok (small_par me jobno)"
proof -
  assume i: "is_int me" "is_int jobno"
  have "length (dec_of_int n) \<le> 180" if "n \<in> {1..<53}" for n
    using length_dec_int [of n] that by (simp add: is_int_def)
  then show "par_ok (small_par me jobno)"
    using i small_walks unfolding par_ok_def field_def small_par_def by (auto simp: small_root_def)
qed

lemma small_data_ok: "stress_data (small_par me jobno) small_data"
  by (auto simp: stress_data_def small_data_def small_par_def cstr_simps)

section \<open>The job\<close>

lemma job_ends:
  assumes "job_laws A tp W tk (sp_me P)" "par_ok P" "stress_world P (choose_tpflag (sp_jobno P) = NTP) W"
    "mode W w = Outside" "stress_data P (view W w)" "view W w (''localinstance'', []) = Some (sp_inst P)"
    "view W w (''iterate'', []) = Some (dec_of_int n)" "0 \<le> n" "2 * n < 2 ^ 31"
  shows "\<exists>w'. m_job_stress A tp (sp_jobno P) w = Inr (Inr (), w') \<and>
     (0 < n \<longrightarrow> view W w' (''^lasti'', [dec_of_int (sp_jobno P), sp_inst P]) = Some (dec_of_int n)) \<and>
     (if choose_tpflag (sp_jobno P) = TPR
      then \<forall>i. \<forall>k \<in> {1..<sp_prime P}. \<forall>g \<in> set own_fills. view W w' (own_node P i k g) = view W w (own_node P i k g)
      else \<forall>i \<in> {1..n}. \<forall>k \<in> {1..<sp_prime P}. \<forall>g \<in> set own_fills. view W w' (own_node P i k g) = Some (dec_of_int (sp_prime P)))"
proof -
  let ?flag = "choose_tpflag (sp_jobno P)" and ?L = "[((''localinstance'', []), sp_inst P), ((''iterate'', []), dec_of_int n)]"
  have job: "job_of A tp W tk P (child_job P 0)" using assms(1-3) by (simp add: job_of_def)
  have start: "job_at P ?flag (view W w) 1 ?L (view W w)" using assms(5-7) by (simp add: job_at_def own_done_def)
  have "tk w = sx_NOTTP" using assms(1,4) by (simp add: job_laws_def)
  then have "wpP (m_job_stress A tp (sp_jobno P)) (\<lambda>_ w'. job_at P ?flag (view W w) (n + 1) (lasti_keys P (n + 1) @ job_keys P) (view W w'))
      (\<lambda>_ _. False) w"
    using triple_job_stress [OF job assms(8,9), of "\<lambda>_ _. False" "view W w"] assms(4) start
    unfolding triple_def by (auto elim!: wpP_mono)
  then obtain w' where run: "m_job_stress A tp (sp_jobno P) w = Inr (Inr (), w')"
    "job_at P ?flag (view W w) (n + 1) (lasti_keys P (n + 1) @ job_keys P) (view W w')"
    by (elim wpP_total) auto
  have l: "0 < n \<longrightarrow> view W w' (''^lasti'', [dec_of_int (sp_jobno P), sp_inst P]) = Some (dec_of_int n)"
    using run(2) by (auto simp: job_at_def lasti_keys_def lasti_key_def)
  have o: "own_done P ?flag (view W w) (n + 1) (view W w')" using run(2) by (simp add: job_at_def)
  show ?thesis
  proof (cases "?flag = TPR")
    case True
    then have "view W w' (own_node P i k g) = view W w (own_node P i k g)" if "g \<in> set own_fills" for i k g
      using o own_node_mine [OF that] that by (simp add: own_done_def) (simp add: own_node_def)
    then show ?thesis using run(1) l True by simp
  next
    case False
    then have "view W w' (own_node P i k g) = Some (dec_of_int (sp_prime P))" if "i \<in> {1..n}" "k \<in> {1..<sp_prime P}" "g \<in> set own_fills" for i k g
      using o that by (simp add: own_done_def own_are_def all_own_def field_def)
    then show ?thesis using run(1) l False by simp
  qed
qed

text \<open>C23. A job of the stress workload ends: with calls that keep their laws, tokens included, and others that change what it relies on
  at any time, no assertion fails, no report of a failure is written, and the status is success.  Then the last iteration is recorded, and
  the nodes with its process identifier hold the prime, for every index and every iteration, unless the job rolls back, which leaves
  them as they were.  This holds of the job outside transactions as of the others.\<close>

theorem stress_job_completes:
  assumes "job_laws A tp W tk (sp_me P)" "par_ok P" "stress_world P (choose_tpflag (sp_jobno P) = NTP) W"
    "mode W w = Outside" "stress_data P (view W w)" "view W w (''localinstance'', []) = Some (sp_inst P)"
    "view W w (''iterate'', []) = Some (dec_of_int n)" "0 \<le> n" "2 * n < 2 ^ 31"
  shows "\<exists>w'. m_job_stress A tp (sp_jobno P) w = Inr (Inr (), w') \<and>
     (0 < n \<longrightarrow> view W w' (''^lasti'', [dec_of_int (sp_jobno P), sp_inst P]) = Some (dec_of_int n)) \<and>
     (if choose_tpflag (sp_jobno P) = TPR
      then \<forall>i. \<forall>k \<in> {1..<sp_prime P}. \<forall>g \<in> set own_fills. view W w' (own_node P i k g) = view W w (own_node P i k g)
      else \<forall>i \<in> {1..n}. \<forall>k \<in> {1..<sp_prime P}. \<forall>g \<in> set own_fills. view W w' (own_node P i k g) = Some (dec_of_int (sp_prime P)))"
  by (rule job_ends [OF assms])

theorem stress_job_completes_witness:
  "\<exists>w'. m_job_stress solo_stress solo_tp_st 6 (small_data, Outside) = Inr (Inr (), w') \<and>
     fst w' (''^lasti'', [dec_of_int 6, ''pri'']) = Some (dec_of_int 12) \<and>
     fst w' (''^b'', [dec_of_int 52, dec_of_int 52 @ ''|1234'', dec_of_int 1234, dec_of_int 7]) = Some (dec_of_int 53)"
proof -
  let ?P = "small_par 1234 6"
  have par: "sp_me ?P = 1234" "sp_jobno ?P = 6" "sp_inst ?P = ''pri''" "sp_prime ?P = 53" by (simp_all add: small_par_def)
  have ok: "par_ok ?P" by (rule small_par_ok) (simp_all add: is_int_def)
  have flag: "choose_tpflag 6 = TPC" by (simp add: choose_tpflag_def sx_NTPJ_def sx_TPRJ_def)
  obtain w' where w': "m_job_stress solo_stress solo_tp_st 6 (small_data, Outside) = Inr (Inr (), w')"
    "fst w' (''^lasti'', [dec_of_int 6, ''pri'']) = Some (dec_of_int 12)"
    "\<forall>i \<in> {1..12}. \<forall>k \<in> {1..<53}. \<forall>g \<in> set own_fills. fst w' (own_node ?P i k g) = Some (dec_of_int 53)"
    using stress_job_completes [of solo_stress solo_tp_st solo_world solo_token ?P "(small_data, Outside)" 12] solo_job_laws ok solo_stress_world
      small_data_ok [of 1234 6] flag unfolding par by (auto simp: small_data_def)
  have "fst w' (own_node ?P 7 52 ''^b'') = Some (dec_of_int 53)" by (rule w'(3) [rule_format]) (simp_all add: own_fills_def)
  then show ?thesis using w'(1,2) by (simp add: own_node_def small_par_def)
qed

section \<open>The jobs together\<close>

text \<open>What the other jobs of a run may change between two calls of one: any changes that they guarantee, in any order.\<close>

definition others_change :: "stress_par list \<Rightarrow> stress_par \<Rightarrow> contents \<Rightarrow> contents \<Rightarrow> bool" where
  "others_change Ps P = (\<lambda>c c'. \<exists>Q \<in> set Ps. sp_jobno Q \<noteq> sp_jobno P \<and> stress_guar Q (choose_tpflag (sp_jobno Q) = NTP) c c')\<^sup>*\<^sup>*"

text \<open>The jobs of one run: different numbers and process identifiers, the same prime and the same customers.\<close>

definition run_of :: "stress_par list \<Rightarrow> stress_par \<Rightarrow> bool" where
  "run_of Ps P \<longleftrightarrow> P \<in> set Ps \<and> distinct (map sp_jobno Ps) \<and> distinct (map sp_me Ps) \<and>
     (\<forall>Q \<in> set Ps. sp_jobno Q \<in> {1..sx_NCHILDREN} \<and> sp_prime Q = sp_prime P \<and> sp_cust Q = sp_cust P)"

lemma others_relied:
  assumes "run_of Ps P" "others_change Ps P c c'"
  shows "stress_rely P (choose_tpflag (sp_jobno P) = NTP) c c'"
  using assms(2) unfolding others_change_def
proof (induction rule: rtranclp_induct)
  case base
  show ?case by (simp add: stress_rely_def shared_stay_def)
next
  case (step c1 c2)
  obtain Q where Q: "Q \<in> set Ps" "sp_jobno Q \<noteq> sp_jobno P" "stress_guar Q (choose_tpflag (sp_jobno Q) = NTP) c1 c2" using step.hyps(2) by blast
  have "sp_me Q \<noteq> sp_me P" using assms(1) Q(1,2) unfolding run_of_def distinct_map inj_on_def by metis
  moreover have "\<not> (choose_tpflag (sp_jobno Q) = NTP \<and> choose_tpflag (sp_jobno P) = NTP)"
  proof -
    have "1 \<le> sp_jobno Q" "1 \<le> sp_jobno P" using assms(1) Q(1) unfolding run_of_def by fastforce+
    then show ?thesis using Q(2) by (auto simp: choose_tpflag_def sx_NTPJ_def split: if_splits)
  qed
  ultimately have "stress_rely P (choose_tpflag (sp_jobno P) = NTP) c1 c2"
    using stress_compatible [of Q P "choose_tpflag (sp_jobno Q) = NTP" "choose_tpflag (sp_jobno P) = NTP" c1 c2] Q assms(1)
    unfolding run_of_def by metis
  then show ?case using step.IH shared_stay_trans [of P UNIV c c1 UNIV c2] unfolding stress_rely_def by simp
qed

text \<open>C24. The ten jobs of a run work together.  Each of them, while the nine others change between its calls whatever they
  guarantee to change, ends with no assertion failed, its last iteration recorded and its nodes as it should leave them; and the only
  changes that the laws of its calls promise to make are those that it guarantees to the others, in a single call outside transactions
  and as a whole in a transaction.\<close>

theorem stress_jobs_together:
  assumes "run_of Ps P" "rely W = others_change Ps P" "guar W = stress_guar P (choose_tpflag (sp_jobno P) = NTP)"
    and "job_laws A tp W tk (sp_me P)" "par_ok P"
    and "mode W w = Outside" "stress_data P (view W w)" "view W w (''localinstance'', []) = Some (sp_inst P)"
    and "view W w (''iterate'', []) = Some (dec_of_int n)" "0 \<le> n" "2 * n < 2 ^ 31"
  shows "\<exists>w'. m_job_stress A tp (sp_jobno P) w = Inr (Inr (), w') \<and>
     (0 < n \<longrightarrow> view W w' (''^lasti'', [dec_of_int (sp_jobno P), sp_inst P]) = Some (dec_of_int n)) \<and>
     (if choose_tpflag (sp_jobno P) = TPR
      then \<forall>i. \<forall>k \<in> {1..<sp_prime P}. \<forall>g \<in> set own_fills. view W w' (own_node P i k g) = view W w (own_node P i k g)
      else \<forall>i \<in> {1..n}. \<forall>k \<in> {1..<sp_prime P}. \<forall>g \<in> set own_fills. view W w' (own_node P i k g) = Some (dec_of_int (sp_prime P)))"
proof -
  have "stress_world P (choose_tpflag (sp_jobno P) = NTP) W"
    using others_relied [OF assms(1)] by (simp add: stress_world_def assms(2,3))
  then show ?thesis using assms(4-11) by (intro job_ends) simp_all
qed

text \<open>A world in which a second job of the test may change things between the calls of the first.\<close>

definition pair_world :: "solo world" where
  "pair_world = solo_world\<lparr>rely := others_change [small_par 1234 6, small_par 4321 1] (small_par 1234 6),
     guar := stress_guar (small_par 1234 6) False\<rparr>"

theorem stress_jobs_together_witness:
  "\<exists>w'. m_job_stress solo_stress solo_tp_st 6 (small_data, Outside) = Inr (Inr (), w') \<and>
     fst w' (''^lasti'', [dec_of_int 6, ''pri'']) = Some (dec_of_int 12) \<and>
     others_change [small_par 1234 6, small_par 4321 1] (small_par 1234 6)
       small_data (small_data(shared_node (small_par 4321 1) 2 3 ''^afill'' \<mapsto> dec_of_int 9))"
proof -
  let ?P = "small_par 1234 6" and ?Q = "small_par 4321 1" and ?c = "small_data(shared_node (small_par 4321 1) 2 3 ''^afill'' \<mapsto> dec_of_int 9)"
  have par: "sp_me ?P = 1234" "sp_jobno ?P = 6" "sp_inst ?P = ''pri''" "sp_prime ?P = 53" "sp_jobno ?Q = 1" by (simp_all add: small_par_def)
  have ok: "par_ok ?P" by (rule small_par_ok) (simp_all add: is_int_def)
  have flag: "choose_tpflag 6 = TPC" "choose_tpflag 1 = NTP" by (simp_all add: choose_tpflag_def sx_NTPJ_def sx_TPRJ_def)
  have run: "run_of [?P, ?Q] ?P" by (simp add: run_of_def small_par_def sx_NCHILDREN_def)
  have laws: "job_laws solo_stress solo_tp_st pair_world solo_token 1234"
    by (rule solo_job_laws_in) (simp_all add: pair_world_def others_change_def)
  have "touches ?Q ''^afill'' ss" for ss by (simp add: touches_def shared_fills_def)
  then have "stress_guar ?Q True small_data ?c" by (auto simp: stress_guar_def touched_def shared_node_def)
  then have "others_change [?P, ?Q] ?P small_data ?c"
    unfolding others_change_def by (intro r_into_rtranclp bexI [of _ ?Q]) (simp_all add: par flag)
  moreover have "\<exists>w'. m_job_stress solo_stress solo_tp_st 6 (small_data, Outside) = Inr (Inr (), w') \<and>
     fst w' (''^lasti'', [dec_of_int 6, ''pri'']) = Some (dec_of_int 12)"
    using stress_jobs_together [of "[?P, ?Q]" ?P pair_world solo_stress solo_tp_st solo_token "(small_data, Outside)" 12] run laws ok
      small_data_ok [of 1234 6] flag unfolding par by (auto simp: small_data_def pair_world_def)
  ultimately show ?thesis by blast
qed

section \<open>A try\<close>

text \<open>C25. A run of the function in a transaction, whatever the nodes of its iteration held before, asks for a restart, or
  leaves all of them set, the shared ones to their index and its own to the prime, each of them once, and then succeeds, or rolls back
  where it should.  In globals it changes nothing but these nodes and what was below them, and of the local variables only four.\<close>

theorem stress_try_fills:
  assumes "job_laws A tp W tk (sp_me P)" "par_ok P" "stress_world P False W" "mode W w0 \<noteq> Outside" "stress_data P (view W w0)"
    "sj_pid J = sp_me P" "sj_tpflag J \<noteq> NTP" "1 \<le> it" "2 * it < 2 ^ 31"
  shows "\<exists>s w1. runP (db_ok (sx_db (A (tk w0)))) (job_stress_tpfn (A (tk w0)) J it) w0 = Inr (s, w1) \<and>
     (\<forall>g ss. \<not> is_global g \<longrightarrow> g \<notin> {''ERR'', ''MAXERR'', ''ndx'', ''obj''} \<longrightarrow> view W w1 (g, ss) = view W w0 (g, ss)) \<and>
     (s = db_restart (sx_db (A sx_NOTTP)) \<and> mode W w0 = Retry \<or>
      s = (if sj_tpflag J = TPR then sx_rollback (A sx_NOTTP) else db_ok (sx_db (A sx_NOTTP))) \<and>
        (\<forall>k \<in> {1..<sp_prime P}. \<forall>g \<in> set shared_fills. view W w1 (shared_node P it k g) = Some (dec_of_int k)) \<and>
        (\<forall>k \<in> {1..<sp_prime P}. \<forall>g \<in> set own_fills. view W w1 (own_node P it k g) = Some (dec_of_int (sp_prime P))) \<and>
        (\<forall>g ss. is_global g \<longrightarrow>
           \<not> (g \<in> set shared_fills \<and> (\<exists>k \<in> {1..<sp_prime P}. take 3 ss = snd (shared_node P it k g))) \<longrightarrow>
           \<not> (g \<in> set own_fills \<and> (\<exists>k \<in> {1..<sp_prime P}. take 4 ss = snd (own_node P it k g))) \<longrightarrow>
           view W w1 (g, ss) = view W w0 (g, ss)))"
proof -
  let ?S = "here A W tk (tk w0) (mode W w0)"
  obtain s w1 where run: "runP (db_ok (sx_db (A (tk w0)))) (job_stress_tpfn (A (tk w0)) J it) w0 = Inr (s, w1)"
    "s = db_ok (sx_db (A (tk w0))) \<and> sj_tpflag J \<noteq> TPR \<and> filled ?S P it (view W w0) (view W w1) \<or>
     tpfn_leaves (A (tk w0)) J ?S P it (view W w0) s (view W w1)"
    using wp_tpfn [OF assms(1,2) _ assms(6,8,9) _ refl refl assms(5)] assms(3,4,7) by auto
  have st: "db_ok (sx_db (A (tk w0))) = db_ok (sx_db (A sx_NOTTP))" "db_restart (sx_db (A (tk w0))) = db_restart (sx_db (A sx_NOTTP))"
    "sx_rollback (A (tk w0)) = sx_rollback (A sx_NOTTP)"
    using assms(1) by (simp_all add: job_laws_def)
  from run(2) have l: "locals_since (view W w0) (view W w1)" by (auto simp: tpfn_leaves_def restarted_def holding_def frame_def)
  have "s = db_restart (sx_db (A sx_NOTTP)) \<and> mode W w0 = Retry \<or>
      s = (if sj_tpflag J = TPR then sx_rollback (A sx_NOTTP) else db_ok (sx_db (A sx_NOTTP))) \<and> filled ?S P it (view W w0) (view W w1)"
    using run(2) st by (auto simp: tpfn_leaves_def restarted_def)
  then show ?thesis
  proof
    assume "s = db_restart (sx_db (A sx_NOTTP)) \<and> mode W w0 = Retry"
    then show ?thesis using run(1) l by (intro exI [of _ s] exI [of _ w1]) (simp add: locals_since_def fill_locals_def)
  next
    assume f: "s = (if sj_tpflag J = TPR then sx_rollback (A sx_NOTTP) else db_ok (sx_db (A sx_NOTTP))) \<and> filled ?S P it (view W w0) (view W w1)"
    then have "shared_are P it (all_shared P) (view W w1)" "own_are P it (all_own P) (view W w1)"
      "\<And>g ss. is_global g \<Longrightarrow> \<not> of_iter P it (g, ss) \<Longrightarrow> view W w1 (g, ss) = view W w0 (g, ss)"
      using assms(4) by (auto simp: holding_def frame_def set_done_def)
    then show ?thesis
      using run(1) l f
      by (intro exI [of _ s] exI [of _ w1] conjI disjI2)
        (auto simp: locals_since_def fill_locals_def of_iter_def shared_are_def own_are_def all_shared_def all_own_def field_def)
  qed
qed

theorem stress_try_fills_witness:
  "\<exists>s w1. runP 0 (job_stress_tpfn (solo_stress 1) \<lparr>sj_child = 6, sj_outfd = 3, sj_pid = 1234, sj_tpflag = TPC\<rparr> 4) (small_data, Final) = Inr (s, w1) \<and>
     s = 0 \<and> fst w1 (''^ffill'', [dec_of_int 52, dec_of_int 52 @ ''|1234'', dec_of_int 4]) = Some (dec_of_int 52)"
proof -
  let ?P = "small_par 1234 6" and ?J = "\<lparr>sj_child = 6, sj_outfd = 3, sj_pid = 1234, sj_tpflag = TPC\<rparr>"
  have par: "sp_me ?P = 1234" "sp_prime ?P = 53" by (simp_all add: small_par_def)
  have ok: "par_ok ?P" by (rule small_par_ok) (simp_all add: is_int_def)
  have t: "solo_token (small_data, Final) = 1" by (simp add: solo_token_def)
  obtain s w1 where run: "runP 0 (job_stress_tpfn (solo_stress 1) ?J 4) (small_data, Final) = Inr (s, w1)"
    "s = 0 \<and> (\<forall>k \<in> {1..<53}. \<forall>g \<in> set shared_fills. fst w1 (shared_node ?P 4 k g) = Some (dec_of_int k))"
    using stress_try_fills [of solo_stress solo_tp_st solo_world solo_token ?P "(small_data, Final)" ?J 4] solo_job_laws ok solo_stress_world
      small_data_ok [of 1234 6] unfolding par t by auto
  then have "fst w1 (shared_node ?P 4 52 ''^ffill'') = Some (dec_of_int 52)" by (simp add: shared_fills_def)
  then show ?thesis using run by (simp add: shared_node_def small_par_def)
qed

section \<open>The parent\<close>

text \<open>The world after some turns of the wait.\<close>

primrec polls :: "'w stress_env \<Rightarrow> string \<Rightarrow> nat \<Rightarrow> 'w \<Rightarrow> 'w" where
  "polls E inst 0 w = w"
| "polls E inst (Suc j) w = polls E inst j (snd (sx_sleep E 1 (snd (db_get (sx_db E) ''^permit'' [inst] 256 w))))"

lemma await_turn:
  assumes "db_ok (sx_db E) \<noteq> db_gvundef (sx_db E)"
    "fst (fst (db_get (sx_db E) ''^permit'' [inst] 256 w)) = db_gvundef (sx_db E) \<or>
     (\<exists>k. fst (db_get (sx_db E) ''^permit'' [inst] 256 w) = (db_ok (sx_db E), dec_of_int k) \<and> is_int k)"
  shows "await_permits (Suc fuel) E inst w =
     (if fst (db_get (sx_db E) ''^permit'' [inst] 256 w) = (db_ok (sx_db E), dec_of_int 10)
      then Inr (Inr (), snd (db_get (sx_db E) ''^permit'' [inst] 256 w)) else await_permits fuel E inst (polls E inst 1 w))"
  using assms
  by (auto simp: Let_def bindP_def thenP_def callP_def retP_def liftP_def okS_def assertP_def atoi_of_int tn_MAXVALUELEN_def sx_NCHILDREN_def
      split: prod.split)

text \<open>C26. The parent stops waiting for its children exactly when it finds the count at ten: with a count that passes ten between two
  looks, or that starts above it, it waits forever.\<close>

theorem await_permits_exact:
  assumes "db_ok (sx_db E) \<noteq> db_gvundef (sx_db E)"
    "\<forall>j. fst (fst (db_get (sx_db E) ''^permit'' [inst] 256 (polls E inst j w))) = db_gvundef (sx_db E) \<or>
       (\<exists>k. fst (db_get (sx_db E) ''^permit'' [inst] 256 (polls E inst j w)) = (db_ok (sx_db E), dec_of_int k) \<and> is_int k)"
  shows "(\<exists>fuel w'. await_permits fuel E inst w = Inr (Inr (), w')) \<longleftrightarrow>
     (\<exists>j. fst (db_get (sx_db E) ''^permit'' [inst] 256 (polls E inst j w)) = (db_ok (sx_db E), dec_of_int 10))"
proof
  assume "\<exists>fuel w'. await_permits fuel E inst w = Inr (Inr (), w')"
  then obtain fuel w' where "await_permits fuel E inst w = Inr (Inr (), w')" by blast
  then show "\<exists>j. fst (db_get (sx_db E) ''^permit'' [inst] 256 (polls E inst j w)) = (db_ok (sx_db E), dec_of_int 10)"
    using assms(2)
  proof (induction fuel arbitrary: w)
    case (Suc fuel)
    show ?case
    proof (cases "fst (db_get (sx_db E) ''^permit'' [inst] 256 w) = (db_ok (sx_db E), dec_of_int 10)")
      case True
      then show ?thesis by (intro exI [of _ 0]) simp
    next
      case False
      have "await_permits fuel E inst (polls E inst 1 w) = Inr (Inr (), w')"
        using Suc.prems(1) await_turn [OF assms(1), of inst w fuel] Suc.prems(2) [rule_format, of 0] False by (simp del: await_permits.simps)
      moreover have "polls E inst j (polls E inst 1 w) = polls E inst (Suc j) w" for j by simp
      ultimately show ?thesis using Suc.IH [of "polls E inst 1 w"] Suc.prems(2) by metis
    qed
  qed (simp add: liftP_def)
next
  assume "\<exists>j. fst (db_get (sx_db E) ''^permit'' [inst] 256 (polls E inst j w)) = (db_ok (sx_db E), dec_of_int 10)"
  then obtain j where "fst (db_get (sx_db E) ''^permit'' [inst] 256 (polls E inst j w)) = (db_ok (sx_db E), dec_of_int 10)" by blast
  then have "\<exists>w'. await_permits (Suc j) E inst w = Inr (Inr (), w')"
    using assms(2)
  proof (induction j arbitrary: w)
    case 0
    then show ?case using await_turn [OF assms(1), of inst w 0] 0(2) [rule_format, of 0] by (simp del: await_permits.simps)
  next
    case (Suc j)
    have eq: "polls E inst i (polls E inst 1 w) = polls E inst (Suc i) w" for i by simp
    have "\<exists>w'. await_permits (Suc j) E inst (polls E inst 1 w) = Inr (Inr (), w')"
      using Suc.IH [of "polls E inst 1 w"] Suc.prems unfolding eq by blast
    then show ?case
      using await_turn [OF assms(1), of inst w "Suc j"] Suc.prems(2) [rule_format, of 0] by (simp del: await_permits.simps)
  qed
  then show "\<exists>fuel w'. await_permits fuel E inst w = Inr (Inr (), w')" by blast
qed

theorem await_permits_exact_witness:
  "\<not> (\<exists>fuel w'. await_permits fuel (solo_stress 0) ''pri'' (small_data((''^permit'', [''pri'']) \<mapsto> dec_of_int 11), Outside) = Inr (Inr (), w'))"
proof -
  let ?w = "(small_data((''^permit'', [''pri'']) \<mapsto> dec_of_int 11), Outside)"
  have p: "polls (solo_stress 0) ''pri'' j ?w = ?w" for j
    by (induction j) (simp_all add: solo_stress_def solo_db_def)
  have g: "db_get (sx_db (solo_stress 0)) ''^permit'' [''pri''] 256 ?w = ((0, dec_of_int 11), ?w)"
    by (simp add: solo_stress_def solo_db_def solo_token_def sx_NOTTP_def)
  have "is_int 11" by (simp add: is_int_def)
  then show ?thesis
    using await_permits_exact [of "solo_stress 0" "''pri''" ?w] unfolding p g by auto
qed

end
