(* ===== verification/Murmur.thy ===== *)
theory Murmur
  imports Prelude
begin

text \<open>
  The hash functions of \<^verbatim>\<open>v62002/inref/gtm8087xcalls2.c\<close>: MurmurHash3 with 32 bits, with 128 bits in four words of 32 bits and in two of
  64, and the progressive hash of 128 bits, which takes the text in pieces.  The platform of a build is an argument: its byte order,
  whether it reads words at any address, and which definition of \<^verbatim>\<open>UI64_TO_LE\<close> its compiler gets.
\<close>

unbundle bit_operations_syntax

section \<open>Memory\<close>

record platform =
  BIGENDIAN :: bool
  GNUC_BSWAP :: bool
  UNALIGNED_ACCESS_SUPPORTED :: bool
  UNALIGNED_SAFE :: bool

text \<open>A pointer to bytes: its address and the bytes from there to the end of the object.\<close>

record c_bytes =
  addr :: nat
  bytes :: "byte list"

definition advance :: "nat \<Rightarrow> c_bytes \<Rightarrow> c_bytes" where
  "advance n p = \<lparr>addr = addr p + n, bytes = drop n (bytes p)\<rparr>"

definition read_bytes :: "c_bytes \<Rightarrow> nat \<Rightarrow> nat \<Rightarrow> c_fault + byte list" where
  "read_bytes p off n = (if off + n \<le> length (bytes p) then Inr (take n (drop off (bytes p))) else Inl Read_oob)"

text \<open>The number that bytes stand for, the first one the least significant, and as the platform has them.\<close>

definition le_word :: "byte list \<Rightarrow> 'a::len word" where
  "le_word bs = foldr (\<lambda>b w. ucast b OR push_bit 8 w) bs 0"

definition word_in_memory :: "platform \<Rightarrow> byte list \<Rightarrow> 'a::len word" where
  "word_in_memory pl bs = (if BIGENDIAN pl then le_word (rev bs) else le_word bs)"

definition read_word :: "bool \<Rightarrow> platform \<Rightarrow> nat \<Rightarrow> c_bytes \<Rightarrow> nat \<Rightarrow> c_fault + 'a::len word" where
  "read_word unaligned pl n p off =
     (if \<not> unaligned \<and> (addr p + off) mod n \<noteq> 0 then Inl Misaligned
      else bindE (read_bytes p off n) (\<lambda>bs. Inr (word_in_memory pl bs)))"

text \<open>A loop over numbers, whose steps may fault.\<close>

primrec foldE :: "('s \<Rightarrow> 'b \<Rightarrow> c_fault + 's) \<Rightarrow> 'b list \<Rightarrow> 's \<Rightarrow> c_fault + 's" where
  "foldE f [] s = Inr s"
| "foldE f (x # xs) s = bindE (f s x) (foldE f xs)"

section \<open>Mixing\<close>

type_synonym uint4 = "32 word"
type_synonym gtm_uint8 = "64 word"

definition ROTL32 :: "uint4 \<Rightarrow> nat \<Rightarrow> uint4" where
  "ROTL32 x y = push_bit y x OR drop_bit (32 - y) x"

definition ROTL64 :: "gtm_uint8 \<Rightarrow> nat \<Rightarrow> gtm_uint8" where
  "ROTL64 x y = push_bit y x OR drop_bit (64 - y) x"

text \<open>\<^verbatim>\<open>UI64_TO_LE\<close>: with the built-in function of the compiler it is an expression whose value no caller uses.\<close>

definition swap64 :: "gtm_uint8 \<Rightarrow> gtm_uint8" where
  "swap64 x = push_bit 56 (x AND 0xff) OR push_bit 40 (x AND 0xff00) OR push_bit 24 (x AND 0xff0000) OR push_bit 8 (x AND 0xff000000) OR
     drop_bit 8 (x AND 0xff00000000) OR drop_bit 24 (x AND 0xff0000000000) OR drop_bit 40 (x AND 0xff000000000000) OR
     drop_bit 56 (x AND 0xff00000000000000)"

definition UI64_TO_LE :: "platform \<Rightarrow> gtm_uint8 \<Rightarrow> gtm_uint8" where
  "UI64_TO_LE pl x = (if BIGENDIAN pl then if GNUC_BSWAP pl then x else swap64 x else x)"

definition fmix :: "uint4 \<Rightarrow> uint4" where
  "fmix h =
     (let h = h XOR drop_bit 16 h; h = h * 0x85ebca6b; h = h XOR drop_bit 13 h; h = h * 0xc2b2ae35
      in h XOR drop_bit 16 h)"

definition fmix64 :: "gtm_uint8 \<Rightarrow> gtm_uint8" where
  "fmix64 k =
     (let k = k XOR drop_bit 33 k; k = k * 0xff51afd7ed558ccd; k = k XOR drop_bit 33 k; k = k * 0xc4ceb9fe1a85ec53
      in k XOR drop_bit 33 k)"

text \<open>\<^verbatim>\<open>k *= a; k = ROTL32(k,r); k *= b;\<close>\<close>

definition mix32 :: "uint4 \<Rightarrow> nat \<Rightarrow> uint4 \<Rightarrow> uint4 \<Rightarrow> uint4" where
  "mix32 a r b k = ROTL32 (k * a) r * b"

definition mix64 :: "gtm_uint8 \<Rightarrow> nat \<Rightarrow> gtm_uint8 \<Rightarrow> gtm_uint8 \<Rightarrow> gtm_uint8" where
  "mix64 a r b k = ROTL64 (k * a) r * b"

section \<open>The aligned copy of a key\<close>

text \<open>The static variables \<^verbatim>\<open>buff\<close> and \<^verbatim>\<open>bufflen\<close> of each function; \<open>None\<close> is the null pointer.  \<open>malloc\<close> is a parameter.\<close>

record static_buff =
  buff :: "nat option"
  bufflen :: int

definition grow_buff :: "(nat \<Rightarrow> nat option) \<Rightarrow> static_buff \<Rightarrow> nat \<Rightarrow> c_fault + static_buff" where
  "grow_buff malloc sb len =
     (if bufflen sb < int len
      then bindE (if buff sb \<noteq> None then c_assert (bufflen sb \<noteq> 0) else Inr ()) (\<lambda>_.
           bindE (int_of (int len * 2)) (\<lambda>n. Inr \<lparr>buff = malloc (nat n), bufflen = n\<rparr>))
      else Inr sb)"

definition align_key :: "platform \<Rightarrow> (nat \<Rightarrow> nat option) \<Rightarrow> nat \<Rightarrow> static_buff \<Rightarrow> c_bytes \<Rightarrow> nat \<Rightarrow> c_fault + c_bytes \<times> static_buff" where
  "align_key pl malloc n sb key len =
     (if \<not> UNALIGNED_ACCESS_SUPPORTED pl \<and> len \<noteq> 0 \<and> addr key mod n \<noteq> 0
      then bindE (grow_buff malloc sb len) (\<lambda>sb.
           bindE (c_assert (bufflen sb \<ge> int len)) (\<lambda>_.
           bindE (read_bytes key 0 len) (\<lambda>bs.
           case buff sb of None \<Rightarrow> Inl Null_deref | Some a \<Rightarrow> Inr (\<lparr>addr = a, bytes = bs\<rparr>, sb))))
      else Inr (key, sb))"

section \<open>The hashes of a whole text\<close>

text \<open>
  The bytes of a word at the end, from the last one to the first: \<^verbatim>\<open>tail[i] << 8 * j\<close> is a number of type \<^verbatim>\<open>int\<close>
  in the functions of 32 bits.  The labels of the switch are the lengths of the tail.
\<close>

definition tail32 :: "byte list \<Rightarrow> nat \<Rightarrow> nat \<Rightarrow> c_fault + uint4" where
  "tail32 t p n =
     foldE (\<lambda>k j. bindE (load t (p + j)) (\<lambda>b. bindE (int_of (uint b * 2 ^ (8 * j))) (\<lambda>v. Inr (k XOR word_of_int v))))
       (rev [0..<min n (length t - p)]) 0"

definition tail64 :: "byte list \<Rightarrow> nat \<Rightarrow> nat \<Rightarrow> c_fault + gtm_uint8" where
  "tail64 t p n = foldE (\<lambda>k j. bindE (load t (p + j)) (\<lambda>b. Inr (k XOR push_bit (8 * j) (ucast b)))) (rev [0..<min n (length t - p)]) 0"

definition x86_32_block :: "uint4 \<Rightarrow> uint4 \<Rightarrow> uint4" where
  "x86_32_block h1 k1 = ROTL32 (h1 XOR mix32 0xcc9e2d51 15 0x1b873593 k1) 13 * 5 + 0xe6546b64"

definition MurmurHash3_x86_32 ::
  "platform \<Rightarrow> (nat \<Rightarrow> nat option) \<Rightarrow> static_buff \<Rightarrow> c_bytes \<Rightarrow> nat \<Rightarrow> uint4 \<Rightarrow> c_fault + uint4 \<times> static_buff" where
  "MurmurHash3_x86_32 pl malloc sb key len seed =
     bindE (align_key pl malloc 4 sb key len) (\<lambda>(data, sb).
     let nblocks = len div 4
     in bindE (foldE (\<lambda>h1 i. bindE (read_word (UNALIGNED_ACCESS_SUPPORTED pl) pl 4 data (4 * i)) (\<lambda>k1. Inr (x86_32_block h1 k1)))
                [0..<nblocks] seed) (\<lambda>h1.
        bindE (read_bytes data (nblocks * 4) (len mod 4)) (\<lambda>t.
        bindE (if length t \<ge> 1 then bindE (tail32 t 0 3) (\<lambda>k1. Inr (h1 XOR mix32 0xcc9e2d51 15 0x1b873593 k1)) else Inr h1) (\<lambda>h1.
        Inr (fmix (h1 XOR of_nat len), sb)))))"

type_synonym hash_4 = "uint4 \<times> uint4 \<times> uint4 \<times> uint4"

definition x86_128_block :: "hash_4 \<Rightarrow> hash_4 \<Rightarrow> hash_4" where
  "x86_128_block h k =
     (let (h1, h2, h3, h4) = h; (k1, k2, k3, k4) = k; c1 = 0x239b961b; c2 = 0xab0e9789; c3 = 0x38b34ae5; c4 = 0xa1e38b93;
          h1 = h1 XOR mix32 c1 15 c2 k1; h1 = ROTL32 h1 19; h1 = h1 + h2; h1 = h1 * 5 + 0x561ccd1b;
          h2 = h2 XOR mix32 c2 16 c3 k2; h2 = ROTL32 h2 17; h2 = h2 + h3; h2 = h2 * 5 + 0x0bcaa747;
          h3 = h3 XOR mix32 c3 17 c4 k3; h3 = ROTL32 h3 15; h3 = h3 + h4; h3 = h3 * 5 + 0x96cd1c35;
          h4 = h4 XOR mix32 c4 18 c1 k4; h4 = ROTL32 h4 13; h4 = h4 + h1; h4 = h4 * 5 + 0x32ac3b17
      in (h1, h2, h3, h4))"

definition x86_128_tail :: "byte list \<Rightarrow> hash_4 \<Rightarrow> c_fault + hash_4" where
  "x86_128_tail t h =
     (let (h1, h2, h3, h4) = h; c1 = 0x239b961b; c2 = 0xab0e9789; c3 = 0x38b34ae5; c4 = 0xa1e38b93
      in bindE (if length t > 12 then bindE (tail32 t 12 3) (\<lambda>k4. Inr (h4 XOR mix32 c4 18 c1 k4)) else Inr h4) (\<lambda>h4.
         bindE (if length t > 8 then bindE (tail32 t 8 4) (\<lambda>k3. Inr (h3 XOR mix32 c3 17 c4 k3)) else Inr h3) (\<lambda>h3.
         bindE (if length t > 4 then bindE (tail32 t 4 4) (\<lambda>k2. Inr (h2 XOR mix32 c2 16 c3 k2)) else Inr h2) (\<lambda>h2.
         bindE (if length t > 0 then bindE (tail32 t 0 4) (\<lambda>k1. Inr (h1 XOR mix32 c1 15 c2 k1)) else Inr h1) (\<lambda>h1.
         Inr (h1, h2, h3, h4))))))"

definition x86_128_finish :: "nat \<Rightarrow> hash_4 \<Rightarrow> hash_4" where
  "x86_128_finish len h =
     (let (h1, h2, h3, h4) = h;
          h1 = h1 XOR of_nat len; h2 = h2 XOR of_nat len; h3 = h3 XOR of_nat len; h4 = h4 XOR of_nat len;
          h1 = h1 + h2; h1 = h1 + h3; h1 = h1 + h4; h2 = h2 + h1; h3 = h3 + h1; h4 = h4 + h1;
          h1 = fmix h1; h2 = fmix h2; h3 = fmix h3; h4 = fmix h4;
          h1 = h1 + h2; h1 = h1 + h3; h1 = h1 + h4; h2 = h2 + h1; h3 = h3 + h1; h4 = h4 + h1
      in (h1, h2, h3, h4))"

definition MurmurHash3_x86_128 ::
  "platform \<Rightarrow> (nat \<Rightarrow> nat option) \<Rightarrow> static_buff \<Rightarrow> c_bytes \<Rightarrow> nat \<Rightarrow> uint4 \<Rightarrow> c_fault + hash_4 \<times> static_buff" where
  "MurmurHash3_x86_128 pl malloc sb key len seed =
     bindE (align_key pl malloc 4 sb key len) (\<lambda>(data, sb).
     let nblocks = len div 16; block = \<lambda>i. read_word (UNALIGNED_ACCESS_SUPPORTED pl) pl 4 data (4 * i)
     in bindE (foldE (\<lambda>h i. bindE (block (i * 4 + 0)) (\<lambda>k1. bindE (block (i * 4 + 1)) (\<lambda>k2.
                bindE (block (i * 4 + 2)) (\<lambda>k3. bindE (block (i * 4 + 3)) (\<lambda>k4. Inr (x86_128_block h (k1, k2, k3, k4)))))))
                [0..<nblocks] (seed, seed, seed, seed)) (\<lambda>h.
        bindE (read_bytes data (nblocks * 16) (len mod 16)) (\<lambda>t.
        bindE (x86_128_tail t h) (\<lambda>h. Inr (x86_128_finish len h, sb)))))"

text \<open>The constants of the 64-bit functions, and the parts that they share.\<close>

definition C1 :: gtm_uint8 where
  "C1 = 0x87c37b91114253d5"

definition C2 :: gtm_uint8 where
  "C2 = 0x4cf5ad432745937f"

definition M1 :: gtm_uint8 where
  "M1 = 0x52dce729"

definition M2 :: gtm_uint8 where
  "M2 = 0x38495ab5"

type_synonym hash_2 = "gtm_uint8 \<times> gtm_uint8"

definition x64_128_block :: "platform \<Rightarrow> hash_2 \<Rightarrow> hash_2 \<Rightarrow> hash_2" where
  "x64_128_block pl h k =
     (let (h1, h2) = h; (k1, k2) = k; c1 = 0x87c37b91114253d5; c2 = 0x4cf5ad432745937f;
          k1 = UI64_TO_LE pl k1; k2 = UI64_TO_LE pl k2;
          h1 = h1 XOR mix64 c1 31 c2 k1; h1 = ROTL64 h1 27; h1 = h1 + h2; h1 = h1 * 5 + 0x52dce729;
          h2 = h2 XOR mix64 c2 33 c1 k2; h2 = ROTL64 h2 31; h2 = h2 + h1; h2 = h2 * 5 + 0x38495ab5
      in (h1, h2))"

definition x64_128_tail :: "byte list \<Rightarrow> hash_2 \<Rightarrow> c_fault + hash_2" where
  "x64_128_tail t h =
     (let (h1, h2) = h; c1 = 0x87c37b91114253d5; c2 = 0x4cf5ad432745937f
      in bindE (if length t > 8 then bindE (tail64 t 8 7) (\<lambda>k2. Inr (h2 XOR mix64 c2 33 c1 k2)) else Inr h2) (\<lambda>h2.
         bindE (if length t > 0 then bindE (tail64 t 0 8) (\<lambda>k1. Inr (h1 XOR mix64 c1 31 c2 k1)) else Inr h1) (\<lambda>h1.
         Inr (h1, h2))))"

definition x64_128_finish :: "gtm_uint8 \<Rightarrow> hash_2 \<Rightarrow> hash_2" where
  "x64_128_finish len h =
     (let (h1, h2) = h; h1 = h1 XOR len; h2 = h2 XOR len; h1 = h1 + h2; h2 = h2 + h1;
          h1 = fmix64 h1; h2 = fmix64 h2; h1 = h1 + h2; h2 = h2 + h1
      in (h1, h2))"

definition MurmurHash3_x64_128 ::
  "platform \<Rightarrow> (nat \<Rightarrow> nat option) \<Rightarrow> static_buff \<Rightarrow> c_bytes \<Rightarrow> nat \<Rightarrow> uint4 \<Rightarrow> c_fault + hash_2 \<times> static_buff" where
  "MurmurHash3_x64_128 pl malloc sb key len seed =
     bindE (align_key pl malloc 8 sb key len) (\<lambda>(data, sb).
     let nblocks = len div 16; block = \<lambda>i. read_word (UNALIGNED_ACCESS_SUPPORTED pl) pl 8 data (8 * i)
     in bindE (foldE (\<lambda>h i. bindE (block (i * 2 + 0)) (\<lambda>k1. bindE (block (i * 2 + 1)) (\<lambda>k2. Inr (x64_128_block pl h (k1, k2)))))
                [0..<nblocks] (ucast seed, ucast seed)) (\<lambda>h.
        bindE (read_bytes data (nblocks * 16) (len mod 16)) (\<lambda>t.
        bindE (x64_128_tail t h) (\<lambda>h. Inr (x64_128_finish (of_nat len) h, sb)))))"

end
