(* ===== verification/Murmur_Progressive.thy ===== *)
theory Murmur_Progressive
  imports Murmur
begin

text \<open>
  The progressive hash of \<^verbatim>\<open>v62002/inref/gtm8087xcalls2.c\<close>: up to 15 bytes that do not fill a block are carried in two words from one piece
  of the text to the next.  The macros are functions; those with two definitions are two functions and a choice.
\<close>

unbundle bit_operations_syntax

section \<open>The state\<close>

record hash128_state =
  h_one :: gtm_uint8
  h_two :: gtm_uint8
  c_one :: gtm_uint8
  c_two :: gtm_uint8
  carry_bytes :: nat

definition LSHIFT_BYTES_SAFE :: "gtm_uint8 \<Rightarrow> nat \<Rightarrow> gtm_uint8" where
  "LSHIFT_BYTES_SAFE w n = push_bit (n * 8) w"

definition RSHIFT_BYTES_SAFE :: "gtm_uint8 \<Rightarrow> nat \<Rightarrow> gtm_uint8" where
  "RSHIFT_BYTES_SAFE w n = drop_bit (n * 8) w"

section \<open>Adding bytes to the carry\<close>

text \<open>
  The two loops of \<^verbatim>\<open>ADD_BYTES\<close> go down from the last byte: \<open>n\<close> bytes are left, and \<open>off\<close> is \<^verbatim>\<open>ab_offset\<close>.  The
  first one returns what is left for the second.
\<close>

fun add_two_le :: "c_bytes \<Rightarrow> nat \<Rightarrow> nat \<Rightarrow> gtm_uint8 \<Rightarrow> c_fault + nat \<times> nat \<times> gtm_uint8" where
  "add_two_le key 0 off c2 = Inr (0, off, c2)"
| "add_two_le key (Suc n) off c2 =
     (if off > 8
      then bindE (load (bytes key) n) (\<lambda>b. add_two_le key n (off - 1) (c2 OR LSHIFT_BYTES_SAFE (ucast b) (off - 9)))
      else Inr (Suc n, off, c2))"

fun add_one_le :: "c_bytes \<Rightarrow> nat \<Rightarrow> nat \<Rightarrow> gtm_uint8 \<Rightarrow> c_fault + gtm_uint8" where
  "add_one_le key 0 off c1 = Inr c1"
| "add_one_le key (Suc n) off c1 =
     bindE (load (bytes key) n) (\<lambda>b. add_one_le key n (off - 1) (c1 OR LSHIFT_BYTES_SAFE (ucast b) (off - 1)))"

fun add_two_be :: "c_bytes \<Rightarrow> nat \<Rightarrow> nat \<Rightarrow> gtm_uint8 \<Rightarrow> c_fault + nat \<times> nat \<times> gtm_uint8" where
  "add_two_be key 0 off c2 = Inr (0, off, c2)"
| "add_two_be key (Suc n) off c2 =
     (if off > 8
      then bindE (load (bytes key) n) (\<lambda>b. add_two_be key n (off - 1) (c2 OR LSHIFT_BYTES_SAFE (ucast b) (16 - off)))
      else Inr (Suc n, off, c2))"

fun add_one_be :: "c_bytes \<Rightarrow> nat \<Rightarrow> nat \<Rightarrow> gtm_uint8 \<Rightarrow> c_fault + gtm_uint8" where
  "add_one_be key 0 off c1 = Inr c1"
| "add_one_be key (Suc n) off c1 =
     bindE (load (bytes key) n) (\<lambda>b. add_one_be key n (off - 1) (c1 OR LSHIFT_BYTES_SAFE (ucast b) (8 - off)))"

text \<open>The assertions around the loops are those of both definitions.\<close>

definition ADD_BYTES_with ::
  "(c_bytes \<Rightarrow> nat \<Rightarrow> nat \<Rightarrow> gtm_uint8 \<Rightarrow> c_fault + nat \<times> nat \<times> gtm_uint8) \<Rightarrow> (c_bytes \<Rightarrow> nat \<Rightarrow> nat \<Rightarrow> gtm_uint8 \<Rightarrow> c_fault + gtm_uint8) \<Rightarrow>
   hash128_state \<Rightarrow> c_bytes \<Rightarrow> nat \<Rightarrow> c_fault + hash128_state" where
  "ADD_BYTES_with add_two add_one st key count =
     bindE (c_assert (carry_bytes st + count \<le> 16)) (\<lambda>_.
     let off = carry_bytes st + count; c1 = c_one st; c2 = c_two st
     in bindE (c_assert (carry_bytes st \<noteq> 0 \<or> c1 = 0 \<and> c2 = 0)) (\<lambda>_.
        bindE (add_two key count off c2) (\<lambda>(n, off, c2).
        bindE (add_one key n off c1) (\<lambda>c1.
        bindE (c_assert (carry_bytes st + count \<noteq> 0 \<or> c1 = 0 \<and> c2 = 0)) (\<lambda>_.
        bindE (c_assert (count \<noteq> 0 \<or> c_one st = c1 \<and> c_two st = c2)) (\<lambda>_.
        Inr (st\<lparr>c_one := c1, c_two := c2, carry_bytes := carry_bytes st + count\<rparr>)))))))"

definition ADD_BYTES_le :: "hash128_state \<Rightarrow> c_bytes \<Rightarrow> nat \<Rightarrow> c_fault + hash128_state" where
  "ADD_BYTES_le = ADD_BYTES_with add_two_le add_one_le"

definition ADD_BYTES_be :: "hash128_state \<Rightarrow> c_bytes \<Rightarrow> nat \<Rightarrow> c_fault + hash128_state" where
  "ADD_BYTES_be = ADD_BYTES_with add_two_be add_one_be"

definition ADD_BYTES :: "platform \<Rightarrow> hash128_state \<Rightarrow> c_bytes \<Rightarrow> nat \<Rightarrow> c_fault + hash128_state" where
  "ADD_BYTES pl = (if BIGENDIAN pl then ADD_BYTES_be else ADD_BYTES_le)"

section \<open>A block from the carry and the next bytes\<close>

text \<open>\<open>m1\<close> and \<open>m2\<close> are the words at the key; the result is the new state and the block.\<close>

definition GET_BLOCK_le :: "hash128_state \<Rightarrow> gtm_uint8 \<Rightarrow> gtm_uint8 \<Rightarrow> c_fault + hash128_state \<times> hash_2" where
  "GET_BLOCK_le st m1 m2 =
     bindE (c_assert (carry_bytes st \<noteq> 0 \<or> c_one st = 0 \<and> c_two st = 0)) (\<lambda>_.
     bindE (c_assert (carry_bytes st < 16)) (\<lambda>_.
     let carry = carry_bytes st
     in if carry = 0 then Inr (st, m1, m2)
        else if carry = 8
        then bindE (c_assert (c_two st = 0)) (\<lambda>_. Inr (st\<lparr>c_one := m2\<rparr>, c_one st, m1))
        else if carry < 8
        then bindE (c_assert (c_two st = 0)) (\<lambda>_.
             Inr (st\<lparr>c_one := RSHIFT_BYTES_SAFE m2 (8 - carry)\<rparr>,
               c_one st OR LSHIFT_BYTES_SAFE m1 carry, RSHIFT_BYTES_SAFE m1 (8 - carry) OR LSHIFT_BYTES_SAFE m2 carry))
        else Inr (st\<lparr>c_one := RSHIFT_BYTES_SAFE m1 (16 - carry) OR LSHIFT_BYTES_SAFE m2 (carry - 8), c_two := RSHIFT_BYTES_SAFE m2 (16 - carry)\<rparr>,
               c_one st, c_two st OR LSHIFT_BYTES_SAFE m1 (carry - 8))))"

definition GET_BLOCK_be :: "hash128_state \<Rightarrow> gtm_uint8 \<Rightarrow> gtm_uint8 \<Rightarrow> c_fault + hash128_state \<times> hash_2" where
  "GET_BLOCK_be st m1 m2 =
     bindE (c_assert (carry_bytes st \<noteq> 0 \<or> c_one st = 0 \<and> c_two st = 0)) (\<lambda>_.
     let carry = carry_bytes st
     in if carry = 0 then Inr (st, m1, m2)
        else if carry = 8
        then bindE (c_assert (c_two st = 0)) (\<lambda>_. Inr (st\<lparr>c_one := m2\<rparr>, c_one st, m1))
        else if carry < 8
        then bindE (c_assert (c_two st = 0)) (\<lambda>_.
             Inr (st\<lparr>c_one := LSHIFT_BYTES_SAFE m2 (8 - carry)\<rparr>,
               c_one st OR RSHIFT_BYTES_SAFE m1 carry, LSHIFT_BYTES_SAFE m1 (8 - carry) OR RSHIFT_BYTES_SAFE m2 carry))
        else Inr (st\<lparr>c_one := LSHIFT_BYTES_SAFE m1 (16 - carry) OR RSHIFT_BYTES_SAFE m2 (carry - 8), c_two := LSHIFT_BYTES_SAFE m2 (16 - carry)\<rparr>,
               c_one st, c_two st OR RSHIFT_BYTES_SAFE m1 (carry - 8)))"

definition GET_BLOCK :: "platform \<Rightarrow> hash128_state \<Rightarrow> c_bytes \<Rightarrow> c_fault + hash128_state \<times> hash_2" where
  "GET_BLOCK pl st key =
     bindE (read_word (UNALIGNED_SAFE pl) pl 8 key 0) (\<lambda>m1. bindE (read_word (UNALIGNED_SAFE pl) pl 8 key 8) (\<lambda>m2.
     (if BIGENDIAN pl then GET_BLOCK_be else GET_BLOCK_le) st m1 m2))"

section \<open>Blocks and bytes\<close>

definition INTEGRATE_K1 :: "gtm_uint8 \<Rightarrow> gtm_uint8 \<Rightarrow> gtm_uint8" where
  "INTEGRATE_K1 k1 h1 = h1 XOR mix64 C1 31 C2 k1"

definition INTEGRATE_K2 :: "gtm_uint8 \<Rightarrow> gtm_uint8 \<Rightarrow> gtm_uint8" where
  "INTEGRATE_K2 k2 h2 = h2 XOR mix64 C2 33 C1 k2"

definition PROCESS_BLOCK :: "platform \<Rightarrow> hash_2 \<Rightarrow> hash_2 \<Rightarrow> hash_2" where
  "PROCESS_BLOCK pl k h =
     (let (k1, k2) = k; (h1, h2) = h; k1 = UI64_TO_LE pl k1; k2 = UI64_TO_LE pl k2;
          h1 = INTEGRATE_K1 k1 h1; h1 = ROTL64 h1 27; h1 = h1 + h2; h1 = h1 * 5 + M1;
          h2 = INTEGRATE_K2 k2 h2; h2 = ROTL64 h2 31; h2 = h2 + h1; h2 = h2 * 5 + M2
      in (h1, h2))"

definition block_into :: "platform \<Rightarrow> hash_2 \<Rightarrow> hash128_state \<Rightarrow> hash128_state" where
  "block_into pl k st = (let (h1, h2) = PROCESS_BLOCK pl k (h_one st, h_two st) in st\<lparr>h_one := h1, h_two := h2\<rparr>)"

definition PROCESS_BYTES :: "platform \<Rightarrow> hash128_state \<Rightarrow> c_bytes \<Rightarrow> nat \<Rightarrow> c_fault + hash128_state" where
  "PROCESS_BYTES pl st key len =
     bindE (c_assert (len < 16)) (\<lambda>_.
     bindE (if carry_bytes st + len \<ge> 16
            then let fill = 16 - carry_bytes st
                 in bindE (ADD_BYTES pl st key fill) (\<lambda>st.
                    bindE (c_assert (carry_bytes st = 16)) (\<lambda>_.
                    Inr ((block_into pl (c_one st, c_two st) st)\<lparr>c_one := 0, c_two := 0, carry_bytes := 0\<rparr>, fill)))
            else Inr (st, 0)) (\<lambda>(st, fill).
     ADD_BYTES pl st (advance fill key) (len - fill)))"

section \<open>The functions\<close>

function ingest_blocks :: "platform \<Rightarrow> hash128_state \<Rightarrow> c_bytes \<Rightarrow> nat \<Rightarrow> c_fault + hash128_state \<times> c_bytes \<times> nat" where
  "ingest_blocks pl st key len =
     (if len \<ge> 16
      then bindE (GET_BLOCK pl st key) (\<lambda>(st, k). ingest_blocks pl (block_into pl k st) (advance 16 key) (len - 16))
      else Inr (st, key, len))"
  by pat_completeness auto
termination
  by (relation "measure (\<lambda>(pl, st, key, len). len)") auto

declare ingest_blocks.simps [simp del]

text \<open>The bytes up to an address that is a multiple of eight, on a platform that does not read words at any address.\<close>

definition to_boundary :: "c_bytes \<Rightarrow> nat \<Rightarrow> nat" where
  "to_boundary key len = min ((8 - addr key mod 8) mod 8) len"

definition ydb_mmrhash_128_ingest :: "platform \<Rightarrow> hash128_state \<Rightarrow> c_bytes \<Rightarrow> nat \<Rightarrow> c_fault + hash128_state" where
  "ydb_mmrhash_128_ingest pl st key len =
     (if len = 0 then Inr st
      else bindE (if UNALIGNED_SAFE pl then Inr (st, key, len)
                  else let i = to_boundary key len
                       in if i > 0 then bindE (PROCESS_BYTES pl st key i) (\<lambda>st. Inr (st, advance i key, len - i)) else Inr (st, key, len))
             (\<lambda>(st, key, len).
           bindE (ingest_blocks pl st key len) (\<lambda>(st, key, len).
           if len > 0 then PROCESS_BYTES pl st key len else Inr st)))"

definition ydb_mmrhash_128_result :: "platform \<Rightarrow> hash128_state \<Rightarrow> uint4 \<Rightarrow> hash_2" where
  "ydb_mmrhash_128_result pl st total_len =
     (let k1 = UI64_TO_LE pl (c_one st); k2 = UI64_TO_LE pl (c_two st); h1 = h_one st; h2 = h_two st;
          h2 = (if carry_bytes st > 8 then INTEGRATE_K2 k2 h2 else h2);
          h1 = (if carry_bytes st \<noteq> 0 then INTEGRATE_K1 k1 h1 else h1);
          h1 = h1 XOR ucast total_len; h2 = h2 XOR ucast total_len; h1 = h1 + h2; h2 = h2 + h1;
          h1 = fmix64 h1; h2 = fmix64 h2; h1 = h1 + h2; h2 = h2 + h1
      in (h1, h2))"

text \<open>\<^verbatim>\<open>HASH128_STATE_INIT\<close> is not defined in the repository; \<open>init\<close> stands for it.\<close>

definition ydb_mmrhash_128 :: "platform \<Rightarrow> (uint4 \<Rightarrow> hash128_state) \<Rightarrow> c_bytes \<Rightarrow> nat \<Rightarrow> uint4 \<Rightarrow> c_fault + hash_2" where
  "ydb_mmrhash_128 pl init key len seed =
     (let st = init seed
      in bindE (c_assert (carry_bytes st = 0 \<and> c_one st = 0 \<and> c_two st = 0)) (\<lambda>_.
         bindE (ydb_mmrhash_128_ingest pl st key len) (\<lambda>st. Inr (ydb_mmrhash_128_result pl st (of_nat len)))))"

definition ydb_mmrhash_32 :: "platform \<Rightarrow> (uint4 \<Rightarrow> hash128_state) \<Rightarrow> c_bytes \<Rightarrow> nat \<Rightarrow> uint4 \<Rightarrow> c_fault + uint4" where
  "ydb_mmrhash_32 pl init key len seed =
     (let st = init seed
      in bindE (c_assert (carry_bytes st = 0 \<and> c_one st = 0 \<and> c_two st = 0)) (\<lambda>_.
         bindE (ydb_mmrhash_128_ingest pl st key len) (\<lambda>st. Inr (ucast (fst (ydb_mmrhash_128_result pl st (of_nat len)))))))"

section \<open>The hash as bytes and as text\<close>

text \<open>The bytes of a word in the order of the memory, and \<^verbatim>\<open>EXTRACT_BYTE\<close>.\<close>

definition le_bytes :: "gtm_uint8 \<Rightarrow> byte list" where
  "le_bytes w = map (\<lambda>k. ucast (drop_bit (8 * k) w)) [0..<8]"

definition EXTRACT_BYTE :: "gtm_uint8 \<Rightarrow> nat \<Rightarrow> byte" where
  "EXTRACT_BYTE x n = ucast (drop_bit (n * 8) (x AND push_bit (n * 8) 0xff))"

definition ydb_mmrhash_128_bytes :: "platform \<Rightarrow> hash_2 \<Rightarrow> byte list" where
  "ydb_mmrhash_128_bytes pl hash =
     (if BIGENDIAN pl then map (EXTRACT_BYTE (fst hash)) [0..<8] @ map (EXTRACT_BYTE (snd hash)) [0..<8]
      else le_bytes (fst hash) @ le_bytes (snd hash))"

definition hex_digit :: "byte \<Rightarrow> byte" where
  "hex_digit n = (if n < 10 then n + 48 else n - 10 + 97)"

definition ydb_mmrhash_128_hex :: "platform \<Rightarrow> hash_2 \<Rightarrow> byte list" where
  "ydb_mmrhash_128_hex pl hash =
     concat (map (\<lambda>b. [hex_digit (drop_bit 4 b AND 0xf), hex_digit (b AND 0xf)]) (ydb_mmrhash_128_bytes pl hash))"

end
