(* ===== verification/Murmur_Words.thy ===== *)
theory Murmur_Words
  imports Murmur_Progressive
begin

text \<open>Words and the bytes that they stand for, bit by bit, in both orders of bytes.\<close>

unbundle bit_operations_syntax

section \<open>Bits of words of bytes\<close>

lemma le_word_Nil [simp]: "le_word [] = 0"
  by (simp add: le_word_def)

lemma le_word_Cons [simp]: "le_word (b # bs) = ucast b OR push_bit 8 (le_word bs)"
  by (simp add: le_word_def)

lemma bit_le_word:
  "bit (le_word bs :: 'a::len word) k \<longleftrightarrow> k < LENGTH('a) \<and> k div 8 < length bs \<and> bit (bs ! (k div 8)) (k mod 8)"
proof (induction bs arbitrary: k)
  case (Cons b bs)
  show ?case
  proof (cases "k < 8")
    case True
    then show ?thesis by (auto simp: bit_simps)
  next
    case False
    then obtain j where k: "k = 8 + j" by (metis le_Suc_ex not_less)
    have "\<not> bit b (8 + j)" using bit_imp_le_length [of b "8 + j"] by auto
    moreover have "(8 + j) div 8 = Suc (j div 8)" "(8 + j) mod 8 = j mod 8" by simp_all
    moreover have "bit (le_word (b # bs) :: 'a word) k \<longleftrightarrow> k < LENGTH('a) \<and> (bit b k \<or> bit (le_word bs :: 'a word) j)"
      unfolding k by (auto simp: bit_simps dest: bit_imp_le_length)
    ultimately show ?thesis using Cons.IH [of j] unfolding k by auto
  qed
qed simp

lemma bit_byte_mod: "bit (b :: byte) k \<Longrightarrow> k < 8"
  using bit_imp_le_length [of b k] by simp

lemma word8_eqI: "(\<And>k. k < 8 \<Longrightarrow> bit (a :: byte) k = bit b k) \<Longrightarrow> a = b"
  by (rule bit_word_eqI) simp

text \<open>Only the bytes that fit count.\<close>

lemma le_word_take: "(le_word bs :: gtm_uint8) = le_word (take 8 bs)"
  by (rule bit_word_eqI) (auto simp: bit_le_word)

lemma le_word_append:
  "(le_word (xs @ ys) :: 'a::len word) = le_word xs OR push_bit (8 * length xs) (le_word ys)"
proof (induction xs)
  case (Cons x xs)
  then show ?case by (simp add: push_bit_or push_bit_push_bit or.assoc add.commute)
qed simp

lemma push_le_word: "push_bit (8 * n) (le_word bs :: gtm_uint8) = le_word (replicate n 0 @ bs)"
proof -
  have "(le_word (replicate n 0) :: gtm_uint8) = 0" by (induction n) simp_all
  then show ?thesis by (simp add: le_word_append)
qed

lemma drop_le_word:
  assumes "length bs \<le> 8"
  shows "drop_bit (8 * n) (le_word bs :: gtm_uint8) = le_word (drop n bs)"
proof (rule bit_word_eqI)
  fix k assume k: "k < LENGTH(64)"
  have "(8 * n + k) div 8 = n + k div 8" "(8 * n + k) mod 8 = k mod 8" by simp_all
  moreover have "8 * n + k < 64" if "n + k div 8 < length bs" using that assms by linarith
  ultimately show "bit (drop_bit (8 * n) (le_word bs :: gtm_uint8)) k = bit (le_word (drop n bs) :: gtm_uint8) k"
    using k by (auto simp: bit_drop_bit_eq bit_le_word less_diff_conv add.commute)
qed

section \<open>The other order of bytes\<close>

text \<open>The first byte is the most significant one of eight.\<close>

definition be_word :: "byte list \<Rightarrow> gtm_uint8" where
  "be_word bs = le_word (rev (take 8 (bs @ replicate 8 0)))"

lemma nth_padded: "i < 8 \<Longrightarrow> take 8 (bs @ replicate 8 0) ! i = (if i < length bs then bs ! i else (0 :: byte))"
  by (simp only: nth_take nth_append length_replicate) (simp add: nth_replicate)

lemma bit_be_word: "bit (be_word bs) k \<longleftrightarrow> k < 64 \<and> 7 - k div 8 < length bs \<and> bit (bs ! (7 - k div 8)) (k mod 8)"
proof (cases "k < 64")
  case True
  let ?t = "take 8 (bs @ replicate 8 (0 :: byte))"
  have d: "k div 8 < 8" using True by auto
  have "rev ?t ! (k div 8) = ?t ! (length ?t - Suc (k div 8))" using d by (intro rev_nth) simp
  also have "length ?t - Suc (k div 8) = 7 - k div 8" by simp
  finally have "rev ?t ! (k div 8) = (if 7 - k div 8 < length bs then bs ! (7 - k div 8) else 0)" using nth_padded [of "7 - k div 8" bs] by simp
  moreover have "length (rev ?t) = 8" by simp
  ultimately show ?thesis using True d unfolding be_word_def bit_le_word by (auto simp del: length_rev length_take)
qed (auto simp: be_word_def bit_le_word)

lemma be_word_full: "length bs = 8 \<Longrightarrow> be_word bs = le_word (rev bs)"
  by (simp add: be_word_def)

lemma bit_masked: "bit (x AND (push_bit (8 * i) 0xff) :: gtm_uint8) k \<longleftrightarrow> bit x k \<and> k div 8 = i"
proof -
  have f: "(0xff :: gtm_uint8) = mask 8" by (simp add: mask_eq_exp_minus_1)
  show ?thesis unfolding f
    by (cases "k < 64") (auto simp: bit_simps dest: bit_imp_le_length)
qed

lemma bit_byte_up:
  assumes "r < 8" "j < 8"
  shows "bit (push_bit (8 * a) (x AND push_bit (8 * i) 0xff) :: gtm_uint8) (8 * j + r) \<longleftrightarrow> j = a + i \<and> bit x (8 * i + r)"
proof (cases "a \<le> j")
  case True
  then have "8 * j + r - 8 * a = 8 * (j - a) + r" by simp
  then show ?thesis using assms True unfolding bit_push_bit_iff bit_masked by auto
next
  case False
  then have "\<not> 8 * a \<le> 8 * j + r" using assms(1) by simp
  then show ?thesis using False unfolding bit_push_bit_iff by simp
qed

lemma bit_byte_down:
  assumes "r < 8"
  shows "bit (drop_bit (8 * a) (x AND push_bit (8 * i) 0xff) :: gtm_uint8) (8 * j + r) \<longleftrightarrow> a + j = i \<and> bit x (8 * i + r)"
proof -
  have "8 * a + (8 * j + r) = 8 * (a + j) + r" by simp
  then show ?thesis using assms unfolding bit_drop_bit_eq o_def bit_masked by (auto simp: add.assoc)
qed

lemma swap64_bytes:
  "swap64 x =
     push_bit (8 * 7) (x AND push_bit (8 * 0) 0xff) OR push_bit (8 * 5) (x AND push_bit (8 * 1) 0xff) OR
     push_bit (8 * 3) (x AND push_bit (8 * 2) 0xff) OR push_bit (8 * 1) (x AND push_bit (8 * 3) 0xff) OR
     drop_bit (8 * 1) (x AND push_bit (8 * 4) 0xff) OR drop_bit (8 * 3) (x AND push_bit (8 * 5) 0xff) OR
     drop_bit (8 * 5) (x AND push_bit (8 * 6) 0xff) OR drop_bit (8 * 7) (x AND push_bit (8 * 7) 0xff)"
  unfolding swap64_def by simp

lemma bit_swap64:
  assumes "r < 8" "j < 8"
  shows "bit (swap64 x) (8 * j + r) \<longleftrightarrow> bit x (8 * (7 - j) + r)"
proof -
  have "j = 0 \<or> j = 1 \<or> j = 2 \<or> j = 3 \<or> j = 4 \<or> j = 5 \<or> j = 6 \<or> j = 7" using assms(2) by linarith
  then show ?thesis
    unfolding swap64_bytes bit_or_iff bit_byte_up [OF assms] bit_byte_down [OF assms(1)]
    by (elim disjE) simp_all
qed

lemma swap_be_word:
  assumes "length bs \<le> 8"
  shows "swap64 (be_word bs) = le_word bs"
proof (rule bit_word_eqI)
  fix k assume "k < LENGTH(64)"
  then have j: "k div 8 < 8" "k mod 8 < 8" and k: "k = 8 * (k div 8) + k mod 8" by auto
  have "bit (swap64 (be_word bs)) (8 * (k div 8) + k mod 8) = bit (be_word bs) (8 * (7 - k div 8) + k mod 8)"
    by (rule bit_swap64 [OF j(2,1)])
  also have "\<dots> = (k div 8 < length bs \<and> bit (bs ! (k div 8)) (k mod 8))"
    using j by (auto simp: bit_be_word)
  also have "\<dots> = bit (le_word bs :: gtm_uint8) (8 * (k div 8) + k mod 8)"
    using j by (auto simp: bit_le_word)
  finally show "bit (swap64 (be_word bs)) k = bit (le_word bs :: gtm_uint8) k" using k by simp
qed

section \<open>What both orders have in common\<close>

lemma be_word_Nil [simp]: "be_word [] = 0"
  by (rule bit_word_eqI) (simp add: bit_be_word)

lemma be_word_take: "be_word (take 8 bs) = be_word bs"
  by (rule bit_word_eqI) (auto simp: bit_be_word)

lemma bytes_eqI:
  assumes "\<And>j r. j < 8 \<Longrightarrow> r < 8 \<Longrightarrow> bit (a :: gtm_uint8) (8 * j + r) = bit b (8 * j + r)"
  shows "a = b"
proof (rule bit_word_eqI)
  fix k assume "k < LENGTH(64)"
  then have "k div 8 < 8" "k mod 8 < 8" by auto
  from assms [OF this] show "bit a k = bit b k" by simp
qed

lemma bit_be_byte: "r < 8 \<Longrightarrow> bit (be_word bs) (8 * j + r) \<longleftrightarrow> j < 8 \<and> 7 - j < length bs \<and> bit (bs ! (7 - j)) r"
  by (auto simp: bit_be_word)

lemma be_word_append:
  assumes "length xs \<le> 8"
  shows "be_word (xs @ ys) = be_word xs OR drop_bit (8 * length xs) (be_word ys)"
proof (rule bytes_eqI)
  fix j r :: nat assume j: "j < 8" "r < 8"
  let ?n = "length xs"
  have "8 * ?n + (8 * j + r) = 8 * (?n + j) + r" by simp
  then have d: "bit (drop_bit (8 * ?n) (be_word ys)) (8 * j + r) \<longleftrightarrow> ?n + j < 8 \<and> 7 - (?n + j) < length ys \<and> bit (ys ! (7 - (?n + j))) r"
    using bit_be_byte [OF j(2), of ys "?n + j"] by (simp only: bit_drop_bit_eq o_def)
  show "bit (be_word (xs @ ys)) (8 * j + r) = bit (be_word xs OR drop_bit (8 * ?n) (be_word ys)) (8 * j + r)"
  proof (cases "7 - j < ?n")
    case True
    then show ?thesis unfolding bit_or_iff d bit_be_byte [OF j(2)] using j by (auto simp: nth_append)
  next
    case False
    then have "7 - j - ?n = 7 - (?n + j)" "?n + j < 8" "7 - j < ?n + length ys \<longleftrightarrow> 7 - (?n + j) < length ys" using j by linarith+
    then show ?thesis unfolding bit_or_iff d bit_be_byte [OF j(2)] using j False by (simp add: nth_append)
  qed
qed

lemma push_be_word:
  assumes "length bs \<le> 8"
  shows "push_bit (8 * n) (be_word bs) = be_word (drop n bs)"
proof (rule bytes_eqI)
  fix j r :: nat assume j: "j < 8" "r < 8"
  show "bit (push_bit (8 * n) (be_word bs)) (8 * j + r) = bit (be_word (drop n bs)) (8 * j + r)"
  proof (cases "n \<le> j")
    case True
    then have e: "8 * j + r - 8 * n = 8 * (j - n) + r" "8 * n \<le> 8 * j + r" "8 * j + r < 64" using j by linarith+
    have "7 - (j - n) = n + (7 - j)" "7 - (j - n) < length bs \<longleftrightarrow> 7 - j < length bs - n" using True j assms by linarith+
    then show ?thesis unfolding bit_push_bit_iff e(1) bit_be_byte [OF j(2)] using e(2,3) j by auto
  next
    case False
    then have "\<not> 8 * n \<le> 8 * j + r" "\<not> 7 - j < length (drop n bs)" using assms j by auto
    then show ?thesis unfolding bit_push_bit_iff bit_be_byte [OF j(2)] by simp
  qed
qed

lemma place_be_word:
  assumes "n < 8"
  shows "drop_bit (8 * n) (be_word [b]) = push_bit (8 * (7 - n)) (ucast b)"
proof (rule bytes_eqI)
  fix j r :: nat assume j: "j < 8" "r < 8"
  have "8 * n + (8 * j + r) = 8 * (n + j) + r" by simp
  then have l: "bit (drop_bit (8 * n) (be_word [b])) (8 * j + r) \<longleftrightarrow> j = 7 - n \<and> bit b r"
    using bit_be_byte [OF j(2), of "[b]" "n + j"] assms by (auto simp only: bit_drop_bit_eq o_def) auto
  have "bit (push_bit (8 * (7 - n)) (ucast b) :: gtm_uint8) (8 * j + r) \<longleftrightarrow> j = 7 - n \<and> bit b r"
  proof (cases "7 - n \<le> j")
    case True
    then have e: "8 * j + r - 8 * (7 - n) = 8 * (j - (7 - n)) + r" "8 * (7 - n) \<le> 8 * j + r" "8 * j + r < 64" using j by linarith+
    have "bit b (8 * (j - (7 - n)) + r) \<longleftrightarrow> j = 7 - n \<and> bit b r"
      using True bit_byte_mod [of b "8 * (j - (7 - n)) + r"] by (cases "j = 7 - n") auto
    then show ?thesis unfolding bit_push_bit_iff e(1) bit_unsigned_iff using e(2,3) j by auto
  next
    case False
    then have "\<not> 8 * (7 - n) \<le> 8 * j + r" using j by linarith
    then show ?thesis using False unfolding bit_push_bit_iff by auto
  qed
  then show "bit (drop_bit (8 * n) (be_word [b])) (8 * j + r) = bit (push_bit (8 * (7 - n)) (ucast b) :: gtm_uint8) (8 * j + r)" using l by simp
qed

end
