(* ===== verification/Murmur_Carry.thy ===== *)
theory Murmur_Carry
  imports Murmur_Words
begin

text \<open>
  The reference hash, the laws of an order of bytes, and what the macros of the progressive hash do with the carry.  The laws are a
  locale, which is interpreted on both definitions of the macros.
\<close>

unbundle bit_operations_syntax

section \<open>The reference\<close>

definition mm_block :: "hash_2 \<Rightarrow> byte list \<Rightarrow> hash_2" where
  "mm_block h bs =
     (let (h1, h2) = h;
          h1 = (ROTL64 (h1 XOR mix64 C1 31 C2 (le_word (take 8 bs))) 27 + h2) * 5 + M1;
          h2 = (ROTL64 (h2 XOR mix64 C2 33 C1 (le_word (drop 8 bs))) 31 + h1) * 5 + M2
      in (h1, h2))"

text \<open>All whole blocks, and the bytes that are left.\<close>

function absorb :: "hash_2 \<Rightarrow> byte list \<Rightarrow> hash_2 \<times> byte list" where
  "absorb h bs = (if 16 \<le> length bs then absorb (mm_block h (take 16 bs)) (drop 16 bs) else (h, bs))"
  by pat_completeness auto
termination
  by (relation "measure (\<lambda>(h, bs). length bs)") auto

declare absorb.simps [simp del]

definition mm_tail :: "byte list \<Rightarrow> hash_2 \<Rightarrow> hash_2" where
  "mm_tail r h =
     (let (h1, h2) = h
      in (if r \<noteq> [] then h1 XOR mix64 C1 31 C2 (le_word (take 8 r)) else h1,
          if length r > 8 then h2 XOR mix64 C2 33 C1 (le_word (drop 8 r)) else h2))"

definition murmur :: "uint4 \<Rightarrow> byte list \<Rightarrow> hash_2" where
  "murmur seed bs = (let (h, r) = absorb (ucast seed, ucast seed) bs in x64_128_finish (of_nat (length bs)) (mm_tail r h))"

lemma absorb_short: "length bs < 16 \<Longrightarrow> absorb h bs = (h, bs)"
  by (subst absorb.simps) simp

lemma absorb_rest: "length (snd (absorb h bs)) < 16"
proof (induction h bs rule: absorb.induct)
  case (1 h bs)
  then show ?case by (subst absorb.simps) auto
qed

text \<open>The text may be taken in pieces.\<close>

lemma absorb_append: "absorb h (xs @ ys) = (let (h', r) = absorb h xs in absorb h' (r @ ys))"
proof (induction h xs rule: absorb.induct)
  case (1 h xs)
  show ?case
  proof (cases "16 \<le> length xs")
    case True
    then have "absorb h (xs @ ys) = absorb (mm_block h (take 16 xs)) (drop 16 xs @ ys)"
      by (subst absorb.simps) simp
    moreover have "absorb h xs = absorb (mm_block h (take 16 xs)) (drop 16 xs)"
      using True by (subst absorb.simps) simp
    ultimately show ?thesis using 1 [OF True] by simp
  qed (simp add: absorb_short)
qed

section \<open>The loops, whatever the order\<close>

fun add_two_at :: "(nat \<Rightarrow> nat) \<Rightarrow> c_bytes \<Rightarrow> nat \<Rightarrow> nat \<Rightarrow> gtm_uint8 \<Rightarrow> c_fault + nat \<times> nat \<times> gtm_uint8" where
  "add_two_at sh key 0 off c2 = Inr (0, off, c2)"
| "add_two_at sh key (Suc n) off c2 =
     (if off > 8
      then bindE (load (bytes key) n) (\<lambda>b. add_two_at sh key n (off - 1) (c2 OR LSHIFT_BYTES_SAFE (ucast b) (sh off)))
      else Inr (Suc n, off, c2))"

fun add_one_at :: "(nat \<Rightarrow> nat) \<Rightarrow> c_bytes \<Rightarrow> nat \<Rightarrow> nat \<Rightarrow> gtm_uint8 \<Rightarrow> c_fault + gtm_uint8" where
  "add_one_at sh key 0 off c1 = Inr c1"
| "add_one_at sh key (Suc n) off c1 =
     bindE (load (bytes key) n) (\<lambda>b. add_one_at sh key n (off - 1) (c1 OR LSHIFT_BYTES_SAFE (ucast b) (sh off)))"

lemma add_le_at: "add_two_le key n off c = add_two_at (\<lambda>off. off - 9) key n off c" "add_one_le key n off c = add_one_at (\<lambda>off. off - 1) key n off c"
  by (induction n arbitrary: off c) simp_all

lemma add_be_at: "add_two_be key n off c = add_two_at (\<lambda>off. 16 - off) key n off c" "add_one_be key n off c = add_one_at (\<lambda>off. 8 - off) key n off c"
  by (induction n arbitrary: off c) simp_all

text \<open>What \<open>GET_BLOCK\<close> does between its assertions; \<open>later\<close> moves a word to later bytes, \<open>earlier\<close> to earlier ones.\<close>

definition get_at :: "(nat \<Rightarrow> gtm_uint8 \<Rightarrow> gtm_uint8) \<Rightarrow> (nat \<Rightarrow> gtm_uint8 \<Rightarrow> gtm_uint8) \<Rightarrow> hash128_state \<Rightarrow> gtm_uint8 \<Rightarrow> gtm_uint8 \<Rightarrow> hash128_state \<times> hash_2" where
  "get_at later earlier st m1 m2 =
     (let carry = carry_bytes st
      in if carry = 0 then (st, m1, m2)
         else if carry = 8 then (st\<lparr>c_one := m2\<rparr>, c_one st, m1)
         else if carry < 8
         then (st\<lparr>c_one := earlier (8 - carry) m2\<rparr>, c_one st OR later carry m1, earlier (8 - carry) m1 OR later carry m2)
         else (st\<lparr>c_one := earlier (16 - carry) m1 OR later (carry - 8) m2, c_two := earlier (16 - carry) m2\<rparr>,
               c_one st, c_two st OR later (carry - 8) m1))"

lemma GET_BLOCK_at:
  assumes "carry_bytes st < 16" "carry_bytes st \<le> 8 \<longrightarrow> c_two st = 0" "carry_bytes st = 0 \<longrightarrow> c_one st = 0"
  shows "GET_BLOCK_le st m1 m2 = Inr (get_at (\<lambda>n w. LSHIFT_BYTES_SAFE w n) (\<lambda>n w. RSHIFT_BYTES_SAFE w n) st m1 m2)"
    and "GET_BLOCK_be st m1 m2 = Inr (get_at (\<lambda>n w. RSHIFT_BYTES_SAFE w n) (\<lambda>n w. LSHIFT_BYTES_SAFE w n) st m1 m2)"
  using assms by (auto simp: GET_BLOCK_le_def GET_BLOCK_be_def get_at_def Let_def)

section \<open>The laws of an order\<close>

text \<open>\<open>carrying mw r st\<close> is a state that carries the bytes \<open>r\<close>, which stand in memory as \<open>mw\<close> says.\<close>

definition carrying :: "(byte list \<Rightarrow> gtm_uint8) \<Rightarrow> byte list \<Rightarrow> hash128_state \<Rightarrow> hash128_state" where
  "carrying mw r st = st\<lparr>c_one := mw (take 8 r), c_two := mw (drop 8 r), carry_bytes := length r\<rparr>"

lemma carrying_simps [simp]:
  "h_one (carrying mw r st) = h_one st" "h_two (carrying mw r st) = h_two st" "c_one (carrying mw r st) = mw (take 8 r)"
  "c_two (carrying mw r st) = mw (drop 8 r)" "carry_bytes (carrying mw r st) = length r"
  "carrying mw r (carrying mw r' st) = carrying mw r st"
  by (simp_all add: carrying_def)

lemma same_carry: "c_two st = 0 \<Longrightarrow> carry_bytes st = n \<Longrightarrow> st\<lparr>c_one := x, c_two := 0, carry_bytes := n\<rparr> = st\<lparr>c_one := x\<rparr>"
  "carry_bytes st = n \<Longrightarrow> st\<lparr>c_one := x, c_two := y, carry_bytes := n\<rparr> = st\<lparr>c_one := x, c_two := y\<rparr>"
  by (cases st; simp)+

locale byte_order =
  fixes mw :: "byte list \<Rightarrow> gtm_uint8" and later earlier :: "nat \<Rightarrow> gtm_uint8 \<Rightarrow> gtm_uint8" and sh1 sh2 :: "nat \<Rightarrow> nat"
  assumes mw_Nil: "mw [] = 0"
    and mw_take: "mw (take 8 bs) = mw bs"
    and mw_append: "length xs \<le> 8 \<Longrightarrow> mw (xs @ ys) = mw xs OR later (length xs) (mw ys)"
    and mw_drop: "length bs \<le> 8 \<Longrightarrow> earlier n (mw bs) = mw (drop n bs)"
    and mw_place: "n < 8 \<Longrightarrow> later n (mw [b]) = LSHIFT_BYTES_SAFE (ucast b) (sh1 (Suc n))"
    and shifts: "n < 8 \<Longrightarrow> sh2 (9 + n) = sh1 (Suc n)"
begin

lemma mw_snoc: "length xs < 8 \<Longrightarrow> mw (xs @ [b]) = mw xs OR LSHIFT_BYTES_SAFE (ucast b) (sh1 (Suc (length xs)))"
  by (simp add: mw_append mw_place)

lemma mw_replicate: "n \<le> 8 \<Longrightarrow> mw (replicate n 0) = 0"
proof (induction n)
  case (Suc n)
  then have "mw (replicate n 0 @ [0]) = 0" by (simp add: mw_snoc LSHIFT_BYTES_SAFE_def)
  then show ?case by (simp add: replicate_append_same)
qed (simp add: mw_Nil)

lemma mw_zeros: "length ys \<le> 8 \<Longrightarrow> mw (ys @ xs) = mw ys OR mw (replicate (length ys) 0 @ xs)"
proof (induction xs rule: rev_induct)
  case (snoc x xs)
  show ?case
  proof (cases "length ys + length xs < 8")
    case True
    then show ?thesis using snoc mw_snoc [of "ys @ xs" x] mw_snoc [of "replicate (length ys) 0 @ xs" x] by (simp add: or.assoc)
  next
    case False
    have "mw (ys @ xs @ [x]) = mw (ys @ xs)" "mw (replicate (length ys) 0 @ xs @ [x]) = mw (replicate (length ys) 0 @ xs)"
      using False mw_take [of "ys @ xs @ [x]"] mw_take [of "replicate (length ys) 0 @ xs @ [x]"]
        mw_take [of "ys @ xs"] mw_take [of "replicate (length ys) 0 @ xs"] by simp_all
    then show ?thesis using snoc by simp
  qed
qed (simp add: mw_replicate)

lemma add_one_all:
  assumes "c + n \<le> 8" "n \<le> length (bytes key)"
  shows "add_one_at sh1 key n (c + n) w = Inr (w OR mw (replicate c 0 @ take n (bytes key)))"
  using assms
proof (induction n arbitrary: w)
  case 0
  then show ?case by (simp add: mw_replicate)
next
  case (Suc n)
  let ?b = "bytes key ! n"
  have t: "take (Suc n) (bytes key) = take n (bytes key) @ [?b]" using Suc.prems(2) by (simp add: take_Suc_conv_app_nth)
  have "mw (replicate c 0 @ take (Suc n) (bytes key)) = mw (replicate c 0 @ take n (bytes key)) OR LSHIFT_BYTES_SAFE (ucast ?b) (sh1 (Suc (c + n)))"
    unfolding t using Suc.prems mw_snoc [of "replicate c 0 @ take n (bytes key)" ?b] by simp
  then show ?case using Suc.IH Suc.prems by (simp add: mem_simps or.assoc or.commute [of "LSHIFT_BYTES_SAFE a b" for a b])
qed

text \<open>The first loop adds what lies in the second word and leaves \<open>m\<close> bytes.\<close>

lemma add_two_all:
  assumes "c + n \<le> 16" "n \<le> length (bytes key)" "m = min n (8 - c)"
  shows "add_two_at sh2 key n (c + n) w = Inr (m, c + m, w OR mw (replicate (c + m - 8) 0 @ drop m (take n (bytes key))))"
  using assms
proof (induction n arbitrary: w m)
  case 0
  then show ?case by (simp add: mw_replicate)
next
  case (Suc n)
  let ?b = "bytes key ! n"
  show ?case
  proof (cases "c + n < 8")
    case True
    then have "m = Suc n" using Suc.prems(3) by simp
    then show ?thesis using True by (simp add: mw_replicate mw_Nil)
  next
    case False
    then have m: "m = min n (8 - c)" "m \<le> n" using Suc.prems(3) by simp_all
    have t: "take (Suc n) (bytes key) = take n (bytes key) @ [?b]" using Suc.prems(2) by (simp add: take_Suc_conv_app_nth)
    let ?xs = "replicate (c + m - 8) 0 @ drop m (take n (bytes key))"
    have l: "length ?xs = c + n - 8" using False m Suc.prems(2) by auto
    have "mw (?xs @ [?b]) = mw ?xs OR LSHIFT_BYTES_SAFE (ucast ?b) (sh1 (Suc (c + n - 8)))"
      using mw_snoc [of ?xs ?b] Suc.prems(1) unfolding l by simp
    moreover have "sh1 (Suc (c + n - 8)) = sh2 (c + Suc n)" using shifts [of "c + n - 8"] Suc.prems(1) False by simp
    moreover have "replicate (c + m - 8) 0 @ drop m (take (Suc n) (bytes key)) = ?xs @ [?b]" unfolding t using m Suc.prems(2) by simp
    ultimately have "mw (replicate (c + m - 8) 0 @ drop m (take (Suc n) (bytes key))) = mw ?xs OR LSHIFT_BYTES_SAFE (ucast ?b) (sh2 (c + Suc n))"
      by simp
    then show ?thesis
      using Suc.IH [OF _ _ m(1), of "w OR LSHIFT_BYTES_SAFE (ucast ?b) (sh2 (c + Suc n))"] Suc.prems False
      by (simp add: mem_simps or.assoc or.commute [of "LSHIFT_BYTES_SAFE a b" for a b])
  qed
qed

lemma add_carry:
  assumes "st = carrying mw r st" "length r + n \<le> 16" "n \<le> length (bytes key)"
  shows "ADD_BYTES_with (add_two_at sh2) (add_one_at sh1) st key n = Inr (carrying mw (r @ take n (bytes key)) st)"
proof -
  let ?c = "length r" and ?bs = "take n (bytes key)"
  define m where "m = min n (8 - ?c)"
  have st: "c_one st = mw (take 8 r)" "c_two st = mw (drop 8 r)" "carry_bytes st = ?c" using assms(1) by (metis carrying_simps(3-5))+
  have two: "mw (drop 8 r) OR mw (replicate (?c + m - 8) 0 @ drop m ?bs) = mw (drop 8 (r @ ?bs))"
  proof (cases "?c \<le> 8")
    case True
    then have "drop 8 (r @ ?bs) = drop m ?bs" "?c + m - 8 = 0" by (auto simp: m_def min_def)
    then show ?thesis using True by (simp add: mw_Nil)
  next
    case False
    then have "m = 0" by (simp add: m_def)
    then show ?thesis using False mw_zeros [of "drop 8 r" ?bs] assms(2) by simp
  qed
  have one: "mw (take 8 r) OR mw (replicate ?c 0 @ take m (bytes key)) = mw (take 8 (r @ ?bs))" if "?c \<le> 8"
  proof -
    have "take 8 (r @ ?bs) = r @ take m (bytes key)" using that by (auto simp: m_def min_def)
    then show ?thesis using that mw_zeros [of r "take m (bytes key)"] by simp
  qed
  have first: "add_one_at sh1 key m (?c + m) (mw (take 8 r)) = Inr (mw (take 8 (r @ ?bs)))"
  proof (cases "?c \<le> 8")
    case True
    then have "?c + m \<le> 8" "m \<le> length (bytes key)" using assms(3) by (auto simp: m_def)
    from add_one_all [OF this] one [OF True] show ?thesis by simp
  next
    case False
    then show ?thesis by (simp add: m_def)
  qed
  have z: "?c = 0 \<Longrightarrow> mw (take 8 r) = 0 \<and> mw (drop 8 r) = 0" by (simp add: mw_Nil)
  show ?thesis
    unfolding ADD_BYTES_with_def st using assms(2) z first two add_two_all [OF assms(2,3) m_def, of "mw (drop 8 r)"] min_absorb2 [OF assms(3)]
    by (cases "n = 0") (simp_all add: Let_def carrying_def mw_Nil)
qed

lemma get_carry:
  assumes "st = carrying mw r st" "length r < 16" "length b1 = 8" "length b2 = 8"
  shows "get_at later earlier st (mw b1) (mw b2) =
     (let all = r @ b1 @ b2 in (carrying mw (drop 16 all) st, mw (take 8 all), mw (take 8 (drop 8 all))))"
proof -
  let ?c = "length r"
  have st: "c_one st = mw (take 8 r)" "c_two st = mw (drop 8 r)" "carry_bytes st = ?c" using assms(1) by (metis carrying_simps(3-5))+
  consider "?c = 0" | "?c = 8" | "0 < ?c" "?c < 8" | "8 < ?c" by linarith
  then show ?thesis
  proof cases
    case 1
    then show ?thesis using assms(1,3,4) by (simp add: get_at_def st carrying_def)
  next
    case 2
    moreover have "c_two st = 0" using 2 st(2) by (simp add: mw_Nil)
    ultimately show ?thesis using assms(3,4) st(3) by (simp add: get_at_def st(1,3) carrying_def mw_Nil same_carry)
  next
    case 3
    have "mw r OR later ?c (mw b1) = mw (take 8 (r @ b1 @ b2))"
      using 3 mw_append [of r b1] mw_take [of "r @ b1"] assms(3) by (simp add: mw_append)
    moreover have "earlier (8 - ?c) (mw b1) OR later ?c (mw b2) = mw (take 8 (drop 8 (r @ b1 @ b2)))"
      using 3 assms(3,4) mw_append [of "drop (8 - ?c) b1" b2] mw_take [of "drop (8 - ?c) b1 @ b2"] by (simp add: mw_drop)
    moreover have "earlier (8 - ?c) (mw b2) = mw (drop 16 (r @ b1 @ b2))"
      using 3 assms(3,4) by (simp add: mw_drop)
    moreover have "c_two st = 0" using 3 st(2) by (simp add: mw_Nil)
    ultimately show ?thesis using 3 assms(3,4) st(3) by (simp add: get_at_def st(1,3) carrying_def mw_Nil Let_def same_carry)
  next
    case 4
    have "mw (drop 8 r) OR later (?c - 8) (mw b1) = mw (take 8 (drop 8 (r @ b1 @ b2)))"
      using 4 assms(2,3) mw_append [of "drop 8 r" b1] mw_take [of "drop 8 r @ b1"] by (simp add: mw_append)
    moreover have "earlier (16 - ?c) (mw b1) OR later (?c - 8) (mw b2) = mw (take 8 (drop 16 (r @ b1 @ b2)))"
      using 4 assms(2-4) mw_append [of "drop (16 - ?c) b1" b2] mw_take [of "drop (16 - ?c) b1 @ b2"] by (simp add: mw_drop)
    moreover have "earlier (16 - ?c) (mw b2) = mw (drop 8 (drop 16 (r @ b1 @ b2)))"
      using 4 assms(2-4) by (simp add: mw_drop)
    moreover have "r \<noteq> []" using 4 by auto
    ultimately show ?thesis using 4 assms(2-4) st(3) by (simp add: get_at_def st carrying_def Let_def same_carry)
  qed
qed

end

section \<open>The two orders\<close>

interpretation little: byte_order le_word "\<lambda>n w. LSHIFT_BYTES_SAFE w n" "\<lambda>n w. RSHIFT_BYTES_SAFE w n" "\<lambda>off. off - 1" "\<lambda>off. off - 9"
proof
  show "le_word (take 8 bs) = (le_word bs :: gtm_uint8)" for bs by (rule le_word_take [symmetric])
qed (simp_all add: LSHIFT_BYTES_SAFE_def RSHIFT_BYTES_SAFE_def le_word_append drop_le_word mult.commute [of _ 8])

interpretation big: byte_order be_word "\<lambda>n w. RSHIFT_BYTES_SAFE w n" "\<lambda>n w. LSHIFT_BYTES_SAFE w n" "\<lambda>off. 8 - off" "\<lambda>off. 16 - off"
  by unfold_locales
    (simp_all add: LSHIFT_BYTES_SAFE_def RSHIFT_BYTES_SAFE_def be_word_take be_word_append push_be_word place_be_word mult.commute [of _ 8])

definition mem_word :: "platform \<Rightarrow> byte list \<Rightarrow> gtm_uint8" where
  "mem_word pl = (if BIGENDIAN pl then be_word else le_word)"

lemma word_in_memory_8: "length bs = 8 \<Longrightarrow> word_in_memory pl bs = mem_word pl bs"
  by (simp add: word_in_memory_def mem_word_def be_word_full)

lemma ADD_BYTES_carry:
  assumes "st = carrying (mem_word pl) r st" "length r + n \<le> 16" "n \<le> length (bytes key)"
  shows "ADD_BYTES pl st key n = Inr (carrying (mem_word pl) (r @ take n (bytes key)) st)"
proof -
  have le: "add_two_le = add_two_at (\<lambda>off. off - 9)" "add_one_le = add_one_at (\<lambda>off. off - 1)" by (intro ext; simp add: add_le_at)+
  have be: "add_two_be = add_two_at (\<lambda>off. 16 - off)" "add_one_be = add_one_at (\<lambda>off. 8 - off)" by (intro ext; simp add: add_be_at)+
  show ?thesis
    using little.add_carry [OF _ assms(2,3), of st] big.add_carry [OF _ assms(2,3), of st] assms(1)
    by (simp add: ADD_BYTES_def ADD_BYTES_le_def ADD_BYTES_be_def le be mem_word_def split: if_splits)
qed

lemma GET_BLOCK_carry:
  assumes "st = carrying (mem_word pl) r st" "length r < 16" "16 \<le> length (bytes key)" "UNALIGNED_SAFE pl \<or> addr key mod 8 = 0"
  shows "GET_BLOCK pl st key =
     (let all = r @ take 16 (bytes key) in Inr (carrying (mem_word pl) (drop 16 all) st, mem_word pl (take 8 all), mem_word pl (take 8 (drop 8 all))))"
proof -
  let ?b1 = "take 8 (bytes key)" and ?b2 = "take 8 (drop 8 (bytes key))"
  have "take 16 (bytes key) = ?b1 @ ?b2" using take_add [of 8 8 "bytes key"] by simp
  then have all: "r @ take 16 (bytes key) = r @ ?b1 @ ?b2" by simp
  have m: "read_word (UNALIGNED_SAFE pl) pl 8 key 0 = Inr (mem_word pl ?b1)" "read_word (UNALIGNED_SAFE pl) pl 8 key 8 = Inr (mem_word pl ?b2)"
    using assms(3,4) by (auto simp: read_word_def read_bytes_def word_in_memory_8 mod_add_eq)
  have c: "c_one st = mem_word pl (take 8 r)" "c_two st = mem_word pl (drop 8 r)" "carry_bytes st = length r" using assms(1) by (metis carrying_simps(3-5))+
  have z: "mem_word pl [] = 0" by (simp add: mem_word_def)
  have a: "carry_bytes st < 16" "carry_bytes st \<le> 8 \<longrightarrow> c_two st = 0" "carry_bytes st = 0 \<longrightarrow> c_one st = 0" using assms(2) by (simp_all add: c z)
  have b: "length ?b1 = 8" "length ?b2 = 8" using assms(3) by simp_all
  show ?thesis
    unfolding GET_BLOCK_def m all
    using GET_BLOCK_at [OF a] little.get_carry [OF _ assms(2) b, of st] big.get_carry [OF _ assms(2) b, of st] assms(1)
    by (simp add: mem_word_def Let_def split: if_splits)
qed

end
