(* ===== verification/Murmur_Results.thy ===== *)
theory Murmur_Results
  imports Murmur_Carry
begin

text \<open>
  The progressive hash and the one of 64-bit words compute the reference, in both orders of bytes and at every address; the parts of
  the file that depend on the compiler or leave what C defines.
\<close>

unbundle bit_operations_syntax

section \<open>Pieces of the text\<close>

text \<open>The byte swap has an effect where the platform needs one.\<close>

definition coherent :: "platform \<Rightarrow> bool" where
  "coherent pl \<longleftrightarrow> (BIGENDIAN pl \<longrightarrow> \<not> GNUC_BSWAP pl)"

text \<open>A state that has absorbed a text: the hash of the whole blocks and the bytes that are left.\<close>

definition stands_for :: "platform \<Rightarrow> hash128_state \<Rightarrow> hash_2 \<times> byte list \<Rightarrow> bool" where
  "stands_for pl st hr \<longleftrightarrow>
     (h_one st, h_two st) = fst hr \<and> st = carrying (mem_word pl) (snd hr) st \<and> length (snd hr) < 16"

lemma to_le_mem: "coherent pl \<Longrightarrow> length bs \<le> 8 \<Longrightarrow> UI64_TO_LE pl (mem_word pl bs) = le_word bs"
  by (simp add: UI64_TO_LE_def mem_word_def coherent_def swap_be_word)

lemma PROCESS_BLOCK_mm:
  assumes "coherent pl" "length b = 16"
  shows "PROCESS_BLOCK pl (mem_word pl (take 8 b), mem_word pl (take 8 (drop 8 b))) h = mm_block h b"
proof -
  have "take 8 (drop 8 b) = drop 8 b" using assms(2) by simp
  then show ?thesis
    using to_le_mem [OF assms(1)] assms(2)
    by (simp add: PROCESS_BLOCK_def mm_block_def INTEGRATE_K1_def INTEGRATE_K2_def Let_def split_beta)
qed

lemma x64_block_mm:
  assumes "coherent pl" "length b = 16"
  shows "x64_128_block pl h (mem_word pl (take 8 b), mem_word pl (take 8 (drop 8 b))) = mm_block h b"
proof -
  have "take 8 (drop 8 b) = drop 8 b" using assms(2) by simp
  then show ?thesis
    using to_le_mem [OF assms(1)] assms(2)
    by (simp add: x64_128_block_def mm_block_def C1_def C2_def M1_def M2_def Let_def split_beta)
qed

lemma block_into_mm:
  assumes "coherent pl" "length b = 16" "st = carrying (mem_word pl) r st" "length r < 16"
  shows "stands_for pl (block_into pl (mem_word pl (take 8 b), mem_word pl (take 8 (drop 8 b))) st) (mm_block (h_one st, h_two st) b, r)"
proof -
  have c: "c_one st = mem_word pl (take 8 r)" "c_two st = mem_word pl (drop 8 r)" "carry_bytes st = length r" using assms(3) by (metis carrying_simps(3-5))+
  show ?thesis
    unfolding block_into_def PROCESS_BLOCK_mm [OF assms(1,2)] stands_for_def using assms(4)
    by (cases st) (use c in \<open>simp add: carrying_def split_beta\<close>)
qed

lemma absorb_step:
  assumes "length r < 16" "16 \<le> length r + length bs" "length bs \<le> 16"
  shows "absorb h (r @ bs) = (mm_block h (take 16 (r @ bs)), drop 16 (r @ bs))"
  using assms by (subst absorb.simps) (simp add: absorb_short)

lemma PROCESS_BYTES_absorbs:
  assumes "coherent pl" "stands_for pl st (h, r)" "len < 16" "len \<le> length (bytes key)"
  shows "\<exists>st'. PROCESS_BYTES pl st key len = Inr st' \<and> stands_for pl st' (absorb h (r @ take len (bytes key)))"
proof -
  have st: "st = carrying (mem_word pl) r st" "(h_one st, h_two st) = h" "length r < 16" using assms(2) by (simp_all add: stands_for_def)
  have c: "carry_bytes st = length r" using st(1) by (metis carrying_simps(5))
  show ?thesis
  proof (cases "length r + len < 16")
    case True
    then have "ADD_BYTES pl st (advance 0 key) (len - 0) = Inr (carrying (mem_word pl) (r @ take len (bytes key)) st)"
      using ADD_BYTES_carry [OF st(1), of len "advance 0 key"] assms(4) by (simp add: advance_def)
    moreover have "absorb h (r @ take len (bytes key)) = (h, r @ take len (bytes key))" using True assms(4) by (intro absorb_short) simp
    ultimately show ?thesis using True assms(3,4) c st(2) by (simp add: PROCESS_BYTES_def stands_for_def)
  next
    case False
    let ?f = "16 - length r"
    let ?b = "r @ take ?f (bytes key)" and ?t = "take (len - ?f) (drop ?f (bytes key))"
    define st1 where "st1 = carrying (mem_word pl) ?b st"
    have f: "?f \<le> len" "length ?b = 16" using False st(3) assms(3,4) by auto
    have add: "ADD_BYTES pl st key ?f = Inr st1"
      unfolding st1_def using f st(3) assms(4) by (intro ADD_BYTES_carry [OF st(1)]) auto
    define st2 where "st2 = (block_into pl (c_one st1, c_two st1) st1)\<lparr>c_one := 0, c_two := 0, carry_bytes := 0\<rparr>"
    have d: "take 8 (drop 8 ?b) = drop 8 ?b" using f(2) by simp
    have k: "c_one st1 = mem_word pl (take 8 ?b)" "c_two st1 = mem_word pl (take 8 (drop 8 ?b))" unfolding d by (simp_all add: st1_def)
    have "(h_one st1, h_two st1) = h" using st(2) by (simp add: st1_def)
    then have h2: "(h_one st2, h_two st2) = mm_block h ?b"
      unfolding st2_def k block_into_def PROCESS_BLOCK_mm [OF assms(1) f(2)] by (simp add: split_beta)
    have z: "mem_word pl [] = 0" by (simp add: mem_word_def)
    have st2: "st2 = carrying (mem_word pl) [] st2" by (simp add: carrying_def z) (simp add: st2_def)
    have last: "ADD_BYTES pl st2 (advance ?f key) (len - ?f) = Inr (carrying (mem_word pl) ?t st2)"
      using ADD_BYTES_carry [OF st2, of "len - ?f" "advance ?f key"] f assms(3,4) by (simp add: advance_def)
    have all: "r @ take len (bytes key) = ?b @ ?t" using f(1) take_add [of ?f "len - ?f" "bytes key"] by simp
    have "absorb h (r @ take len (bytes key)) = (mm_block h ?b, ?t)"
    proof -
      have "length ?t < 16" using assms(3) by simp
      then have "absorb (mm_block h ?b) ?t = (mm_block h ?b, ?t)" by (rule absorb_short)
      moreover have "absorb h (?b @ ?t) = absorb (mm_block h ?b) ?t" using f(2) by (subst absorb.simps) simp
      ultimately show ?thesis unfolding all by simp
    qed
    moreover have "PROCESS_BYTES pl st key len = Inr (carrying (mem_word pl) ?t st2)"
      using add last False assms(3) f(2) c by (simp add: PROCESS_BYTES_def Let_def st2_def st1_def)
    ultimately show ?thesis using h2 assms(3) by (simp add: stands_for_def)
  qed
qed

lemma block_words: "take 8 xs = take 8 (take 16 xs)" "take 8 (drop 8 xs) = take 8 (drop 8 (take 16 xs))"
  by (simp_all add: drop_take)

lemma ingest_blocks_absorbs:
  assumes "coherent pl" "stands_for pl st (h, r)" "len \<le> length (bytes key)" "UNALIGNED_SAFE pl \<or> addr key mod 8 = 0"
  shows "\<exists>st' key' rest. ingest_blocks pl st key len = Inr (st', key', rest) \<and> rest < 16 \<and> rest \<le> len \<and> bytes key' = drop (len - rest) (bytes key) \<and>
     stands_for pl st' (absorb h (r @ take (len - rest) (bytes key)))"
  using assms
proof (induction pl st key len arbitrary: h r rule: ingest_blocks.induct)
  case (1 pl st key len)
  note coh = "1.prems"(1) and pre = "1.prems"(2-4)
  have st: "st = carrying (mem_word pl) r st" "(h_one st, h_two st) = h" "length r < 16" using pre(1) by (simp_all add: stands_for_def)
  show ?case
  proof (cases "16 \<le> len")
    case True
    let ?all = "r @ take 16 (bytes key)"
    let ?b = "take 16 ?all" and ?r = "drop 16 ?all"
    have l: "length ?b = 16" "length ?r < 16" using st(3) True pre(2) by auto
    note t = block_words [of ?all]
    define st1 where "st1 = carrying (mem_word pl) ?r st"
    let ?k = "(mem_word pl (take 8 ?b), mem_word pl (take 8 (drop 8 ?b)))"
    have get: "GET_BLOCK pl st key = Inr (st1, ?k)"
      using GET_BLOCK_carry [OF st(1,3) _ pre(3)] True pre(2) t unfolding st1_def by (simp add: Let_def)
    have next_st: "stands_for pl (block_into pl ?k st1) (mm_block h ?b, ?r)"
      using block_into_mm [OF coh l(1) _ l(2), of st1] st(2) by (simp add: st1_def)
    have adv: "len - 16 \<le> length (bytes (advance 16 key))" "UNALIGNED_SAFE pl \<or> addr (advance 16 key) mod 8 = 0"
      using pre(2,3) by (auto simp: advance_def mod_add_eq)
    obtain st' key' rest where ih: "ingest_blocks pl (block_into pl ?k st1) (advance 16 key) (len - 16) = Inr (st', key', rest)" "rest < 16" "rest \<le> len - 16"
      "bytes key' = drop (len - 16 - rest) (bytes (advance 16 key))"
      "stands_for pl st' (absorb (mm_block h ?b) (?r @ take (len - 16 - rest) (bytes (advance 16 key))))"
      using "1.IH" [OF True get refl coh next_st adv] by blast
    have run: "ingest_blocks pl st key len = Inr (st', key', rest)"
      using True get ih(1) by (subst ingest_blocks.simps) simp
    have "len - rest = 16 + (len - 16 - rest)" using ih(3) True by simp
    then have parts: "take (len - rest) (bytes key) = take 16 (bytes key) @ take (len - 16 - rest) (drop 16 (bytes key))"
      "drop (len - rest) (bytes key) = drop (len - 16 - rest) (drop 16 (bytes key))" by (simp_all only: take_add drop_drop add.commute)
    have "absorb h (?all @ x) = absorb (mm_block h ?b) (?r @ x)" for x
      using absorb_append [of h ?all x] absorb_step [OF st(3), of "take 16 (bytes key)" h] True pre(2) by simp
    then show ?thesis using run ih parts by (intro exI [of _ st'] exI [of _ key'] exI [of _ rest]) (simp add: advance_def)
  next
    case False
    then have "ingest_blocks pl st key len = Inr (st, key, len)" by (subst ingest_blocks.simps) simp
    then show ?thesis using False pre(1) st(3) by (simp add: absorb_short)
  qed
qed

lemma boundary: "(a + (8 - a mod 8) mod 8) mod 8 = (0 :: nat)"
proof -
  have "(8 * q + m + (8 - m) mod 8) mod 8 = 0" if "m < 8" for q m :: nat
  proof (cases "m = 0")
    case False
    then have "8 * q + m + (8 - m) mod 8 = 8 * (q + 1)" using that by simp
    then show ?thesis by (simp only: mod_mult_self1_is_0)
  qed simp
  from this [of "a mod 8" "a div 8"] show ?thesis by simp
qed

lemma ingest_absorbs:
  assumes "coherent pl" "stands_for pl st (h, r)" "len \<le> length (bytes key)"
  shows "\<exists>st'. ydb_mmrhash_128_ingest pl st key len = Inr st' \<and> stands_for pl st' (absorb h (r @ take len (bytes key)))"
proof (cases "len = 0")
  case True
  then show ?thesis using assms(2) by (simp add: ydb_mmrhash_128_ingest_def stands_for_def absorb_short)
next
  case False
  define i where "i = (if UNALIGNED_SAFE pl then 0 else to_boundary key len)"
  have i: "i \<le> len" "i < 16" by (auto simp: i_def to_boundary_def min_def split: if_splits)
  obtain st1 where one: "(if UNALIGNED_SAFE pl then Inr (st, key, len)
      else let i = to_boundary key len
           in if i > 0 then bindE (PROCESS_BYTES pl st key i) (\<lambda>st. Inr (st, advance i key, len - i)) else Inr (st, key, len)) = Inr (st1, advance i key, len - i)"
    "stands_for pl st1 (absorb h (r @ take i (bytes key)))"
  proof (cases "i = 0")
    case True
    then show ?thesis using assms(2) that [of st] by (auto simp: i_def advance_def stands_for_def absorb_short Let_def split: if_splits)
  next
    case False
    then have "\<not> UNALIGNED_SAFE pl" "to_boundary key len = i" by (auto simp: i_def split: if_splits)
    then show ?thesis using PROCESS_BYTES_absorbs [OF assms(1,2) i(2), of key] i assms(3) that False by auto
  qed
  obtain h1 r1 where a1: "absorb h (r @ take i (bytes key)) = (h1, r1)" by fastforce
  have k1: "len - i \<le> length (bytes (advance i key))" using assms(3) by (simp add: advance_def)
  show ?thesis
  proof (cases "UNALIGNED_SAFE pl \<or> addr (advance i key) mod 8 = 0")
    case True
    obtain st2 key2 rest where two: "ingest_blocks pl st1 (advance i key) (len - i) = Inr (st2, key2, rest)" "rest < 16" "rest \<le> len - i"
      "bytes key2 = drop (len - i - rest) (bytes (advance i key))" "stands_for pl st2 (absorb h1 (r1 @ take (len - i - rest) (bytes (advance i key))))"
      using ingest_blocks_absorbs [OF assms(1) one(2) [unfolded a1] k1 True] by blast
    obtain h2 r2 where a2: "absorb h1 (r1 @ take (len - i - rest) (bytes (advance i key))) = (h2, r2)" by fastforce
    have "rest \<le> length (bytes key2)" using two(3,4) k1 by simp
    then obtain st3 where three: "(if rest > 0 then PROCESS_BYTES pl st2 key2 rest else Inr st2) = Inr st3" "stands_for pl st3 (absorb h2 (r2 @ take rest (bytes key2)))"
      using PROCESS_BYTES_absorbs [OF assms(1) two(5) [unfolded a2] two(2), of key2] two(5) unfolding a2
      by (cases "rest = 0") (auto simp: absorb_short stands_for_def)
    have "take len (bytes key) = take i (bytes key) @ take (len - i - rest) (bytes (advance i key)) @ take rest (bytes key2)"
    proof -
      have "take rest (bytes key2) = take rest (drop (len - i - rest) (drop i (bytes key)))" using two(4) by (simp add: advance_def)
      moreover have "take (len - i) (drop i (bytes key)) = take (len - i - rest) (drop i (bytes key)) @ take rest (drop (len - i - rest) (drop i (bytes key)))"
        using take_add [of "len - i - rest" rest "drop i (bytes key)"] le_add_diff_inverse2 [OF two(3)] by metis
      ultimately show ?thesis using take_add [of i "len - i" "bytes key"] i(1) by (simp add: advance_def)
    qed
    then have "absorb h (r @ take len (bytes key)) = absorb h2 (r2 @ take rest (bytes key2))"
      using absorb_append [of h "r @ take i (bytes key)"] absorb_append [of h1 "r1 @ take (len - i - rest) (bytes (advance i key))"] a1 a2 by simp
    then show ?thesis using three one(1) two(1) False by (intro exI [of _ st3]) (simp add: ydb_mmrhash_128_ingest_def)
  next
    case away: False
    then have u: "\<not> UNALIGNED_SAFE pl" "i = min ((8 - addr key mod 8) mod 8) len" by (auto simp: i_def to_boundary_def)
    have "i = len"
    proof (rule ccontr)
      assume "i \<noteq> len"
      then have "i = (8 - addr key mod 8) mod 8" using u(2) by (auto simp: min_def split: if_splits)
      then have "(addr key + i) mod 8 = 0" using boundary by simp
      then show False using away by (simp add: advance_def)
    qed
    then have "ingest_blocks pl st1 (advance i key) 0 = Inr (st1, advance i key, 0)" by (subst ingest_blocks.simps) simp
    then show ?thesis using one \<open>i = len\<close> False by (intro exI [of _ st1]) (simp add: ydb_mmrhash_128_ingest_def)
  qed
qed

lemma result_mm:
  assumes "coherent pl" "stands_for pl st (h, r)"
  shows "ydb_mmrhash_128_result pl st n = x64_128_finish (ucast n) (mm_tail r h)"
proof -
  have st: "c_one st = mem_word pl (take 8 r)" "c_two st = mem_word pl (drop 8 r)" "carry_bytes st = length r" "h = (h_one st, h_two st)" "length r < 16"
    using assms(2) unfolding stands_for_def by (metis carrying_simps(3-5) fst_conv snd_conv)+
  have "UI64_TO_LE pl (c_one st) = le_word (take 8 r)" "UI64_TO_LE pl (c_two st) = le_word (drop 8 r)"
    using to_le_mem [OF assms(1)] st(1,2,5) by simp_all
  then show ?thesis
    by (auto simp: ydb_mmrhash_128_result_def mm_tail_def x64_128_finish_def INTEGRATE_K1_def INTEGRATE_K2_def st(3,4) Let_def)
qed

section \<open>The hash of 64-bit words\<close>

definition malloc_ok :: "(nat \<Rightarrow> nat option) \<Rightarrow> bool" where
  "malloc_ok malloc \<longleftrightarrow> (\<forall>n. \<exists>a. malloc n = Some a \<and> a mod 8 = 0)"

definition buff_ok :: "static_buff \<Rightarrow> bool" where
  "buff_ok sb \<longleftrightarrow> (case buff sb of None \<Rightarrow> bufflen sb = 0 | Some a \<Rightarrow> a mod 8 = 0 \<and> bufflen sb \<noteq> 0)"

text \<open>The copy has the bytes of the key at an address that is a multiple of the size of a word.\<close>

lemma align_key_aligns:
  assumes "malloc_ok malloc" "buff_ok sb" "len \<le> length (bytes key)" "2 * len < 2 ^ 31" "n = 4 \<or> n = 8"
  shows "\<exists>data sb'. align_key pl malloc n sb key len = Inr (data, sb') \<and> buff_ok sb' \<and> take len (bytes data) = take len (bytes key) \<and>
     len \<le> length (bytes data) \<and> (UNALIGNED_ACCESS_SUPPORTED pl \<or> len = 0 \<or> addr data mod n = 0)"
proof (cases "\<not> UNALIGNED_ACCESS_SUPPORTED pl \<and> len \<noteq> 0 \<and> addr key mod n \<noteq> 0")
  case True
  obtain sb' a where g: "grow_buff malloc sb len = Inr sb'" "buff_ok sb'" "buff sb' = Some a" "int len \<le> bufflen sb'"
  proof (cases "bufflen sb < int len")
    case grow: True
    have "\<exists>a. malloc (nat (int len * 2)) = Some a \<and> a mod 8 = 0" using assms(1) by (simp only: malloc_ok_def)
    then obtain a where a: "malloc (nat (int len * 2)) = Some a" "a mod 8 = 0" by (elim exE conjE)
    have "(if buff sb \<noteq> None then c_assert (bufflen sb \<noteq> 0) else Inr ()) = Inr ()" using assms(2) by (auto simp: buff_ok_def)
    moreover have "int_of (int len * 2) = Inr (int len * 2)" using assms(4) by (simp add: int_of_def)
    ultimately have "grow_buff malloc sb len = Inr \<lparr>buff = Some a, bufflen = int len * 2\<rparr>" using grow a(1) by (simp add: grow_buff_def)
    then show ?thesis using that [of "\<lparr>buff = Some a, bufflen = int len * 2\<rparr>" a] a(2) True by (simp add: buff_ok_def)
  next
    case False
    then have "buff sb \<noteq> None" using assms(2) True by (cases "buff sb") (auto simp: buff_ok_def)
    then obtain a where "buff sb = Some a" by blast
    then show ?thesis using that [of sb a] False assms(2) by (simp add: grow_buff_def)
  qed
  have "a mod n = 0" using g(2,3) assms(5) mod_mod_cancel [of 4 8 a] by (auto simp: buff_ok_def)
  then show ?thesis using True g assms(3) by (simp add: align_key_def read_bytes_def)
next
  case False
  then show ?thesis using assms(2,3) by (intro exI [of _ key] exI [of _ sb]) (auto simp: align_key_def)
qed

lemma foldE_snoc: "foldE f (xs @ [x]) s = bindE (foldE f xs s) (\<lambda>s. f s x)"
  by (induction xs arbitrary: s) (auto simp: bindE_def split: sum.split)

lemma foldE_append: "foldE f (xs @ ys) s = bindE (foldE f xs s) (foldE f ys)"
  by (induction xs arbitrary: s) (auto simp: bindE_def split: sum.split)

lemma read_word_at:
  assumes "off + 8 \<le> length (bytes p)" "unaligned \<or> (addr p + off) mod 8 = 0"
  shows "read_word unaligned pl 8 p off = Inr (mem_word pl (take 8 (drop off (bytes p))))"
  using assms by (auto simp: read_word_def read_bytes_def word_in_memory_8)

lemma x64_loop:
  assumes "coherent pl" "16 * n \<le> length (bytes data)" "u \<or> addr data mod 8 = 0"
  shows "\<exists>h'. foldE (\<lambda>h i. bindE (read_word u pl 8 data (8 * (i * 2 + 0))) (\<lambda>k1. bindE (read_word u pl 8 data (8 * (i * 2 + 1))) (\<lambda>k2.
       Inr (x64_128_block pl h (k1, k2))))) [0..<n] h = Inr h' \<and> absorb h (take (16 * n) (bytes data)) = (h', [])"
  using assms(2)
proof (induction n)
  case 0
  then show ?case by (simp add: absorb_short)
next
  case (Suc n)
  let ?b = "take 16 (drop (16 * n) (bytes data))"
  have l: "length ?b = 16" using Suc.prems by simp
  obtain h' where ih: "foldE (\<lambda>h i. bindE (read_word u pl 8 data (8 * (i * 2 + 0))) (\<lambda>k1. bindE (read_word u pl 8 data (8 * (i * 2 + 1))) (\<lambda>k2.
       Inr (x64_128_block pl h (k1, k2))))) [0..<n] h = Inr h'" "absorb h (take (16 * n) (bytes data)) = (h', [])" using Suc by auto
  have a: "u \<or> (addr data + 8 * (n * 2 + 0)) mod 8 = 0" "u \<or> (addr data + 8 * (n * 2 + 1)) mod 8 = 0" using assms(3) by auto
  have w: "take 8 (drop (8 * (n * 2 + 0)) (bytes data)) = take 8 ?b" "take 8 (drop (8 * (n * 2 + 1)) (bytes data)) = take 8 (drop 8 ?b)"
    by (simp_all add: drop_take mult.commute) 
  have r: "read_word u pl 8 data (8 * (n * 2 + 0)) = Inr (mem_word pl (take 8 ?b))" "read_word u pl 8 data (8 * (n * 2 + 1)) = Inr (mem_word pl (take 8 (drop 8 ?b)))"
    using read_word_at [OF _ a(1)] read_word_at [OF _ a(2)] Suc.prems unfolding w by simp_all
  have "take (16 * Suc n) (bytes data) = take (16 * n) (bytes data) @ ?b" using take_add [of "16 * n" 16 "bytes data"] by (simp add: add.commute)
  then have "absorb h (take (16 * Suc n) (bytes data)) = absorb h' ?b" using absorb_append [of h "take (16 * n) (bytes data)" ?b] ih(2) by simp
  also have "\<dots> = (mm_block h' ?b, [])" using absorb_step [of "[]" ?b h'] l by simp
  finally show ?case using ih(1) r x64_block_mm [OF assms(1) l, of h'] by (simp add: foldE_snoc)
qed

lemma le_word_snoc_xor:
  assumes "length xs < 8"
  shows "(le_word (xs @ [b]) :: gtm_uint8) = push_bit (8 * length xs) (ucast b) XOR le_word xs"
proof -
  have "\<not> (bit (le_word xs :: gtm_uint8) k \<and> 8 * length xs \<le> k)" for k by (auto simp: bit_le_word)
  then have "(le_word xs OR push_bit (8 * length xs) (ucast b) :: gtm_uint8) = push_bit (8 * length xs) (ucast b) XOR le_word xs"
    by (intro bit_word_eqI) (auto simp: bit_or_iff bit_xor_iff bit_push_bit_iff)
  then show ?thesis by (simp add: le_word_append)
qed

lemma tail64_loop:
  assumes "m \<le> 8" "p + m \<le> length t"
  shows "foldE (\<lambda>k j. bindE (load t (p + j)) (\<lambda>b. Inr (k XOR push_bit (8 * j) (ucast b)))) (rev [0..<m]) k = Inr (k XOR (le_word (take m (drop p t)) :: gtm_uint8))"
  using assms
proof (induction m arbitrary: k)
  case (Suc m)
  have "take (Suc m) (drop p t) = take m (drop p t) @ [t ! (p + m)]" using Suc.prems(2) by (simp add: take_Suc_conv_app_nth)
  moreover have "length (take m (drop p t)) = m" using Suc.prems(2) by simp
  ultimately have "(le_word (take (Suc m) (drop p t)) :: gtm_uint8) = push_bit (8 * m) (ucast (t ! (p + m))) XOR le_word (take m (drop p t))"
    using le_word_snoc_xor [of "take m (drop p t)" "t ! (p + m)"] Suc.prems(1) by simp
  then show ?case using Suc by (simp add: mem_simps xor.assoc)
qed simp

lemma tail64_le_word: "n \<le> 8 \<Longrightarrow> p \<le> length t \<Longrightarrow> tail64 t p n = Inr (le_word (take n (drop p t)))"
  using tail64_loop [of "min n (length t - p)" p t 0] by (simp add: tail64_def) (simp add: min_def)

lemma x64_tail_mm: "length t < 16 \<Longrightarrow> x64_128_tail t h = Inr (mm_tail t h)"
  by (auto simp: x64_128_tail_def mm_tail_def tail64_le_word C1_def C2_def Let_def split_beta)

lemma x64_murmur:
  assumes "coherent pl" "malloc_ok malloc" "buff_ok sb" "len \<le> length (bytes key)" "2 * len < 2 ^ 31"
  shows "\<exists>sb'. MurmurHash3_x64_128 pl malloc sb key len seed = Inr (murmur seed (take len (bytes key)), sb') \<and> buff_ok sb'"
proof -
  obtain data sb' where d: "align_key pl malloc 8 sb key len = Inr (data, sb')" "buff_ok sb'" "take len (bytes data) = take len (bytes key)"
    "len \<le> length (bytes data)" "UNALIGNED_ACCESS_SUPPORTED pl \<or> len = 0 \<or> addr data mod 8 = 0"
    using align_key_aligns [OF assms(2-5), of 8 pl] by auto
  let ?n = "len div 16" and ?h0 = "(ucast seed, ucast seed) :: hash_2"
  have n: "16 * ?n \<le> length (bytes data)" using d(4) by simp
  have "\<exists>h. foldE (\<lambda>h i. bindE (read_word (UNALIGNED_ACCESS_SUPPORTED pl) pl 8 data (8 * (i * 2 + 0))) (\<lambda>k1.
      bindE (read_word (UNALIGNED_ACCESS_SUPPORTED pl) pl 8 data (8 * (i * 2 + 1))) (\<lambda>k2. Inr (x64_128_block pl h (k1, k2))))) [0..<?n] ?h0 = Inr h \<and>
    absorb ?h0 (take (16 * ?n) (bytes data)) = (h, [])"
  proof (cases "len = 0")
    case True
    then show ?thesis by (simp add: absorb_short)
  next
    case False
    then show ?thesis using d(5) by (intro x64_loop [OF assms(1) n]) simp
  qed
  then obtain h where h: "foldE (\<lambda>h i. bindE (read_word (UNALIGNED_ACCESS_SUPPORTED pl) pl 8 data (8 * (i * 2 + 0))) (\<lambda>k1.
      bindE (read_word (UNALIGNED_ACCESS_SUPPORTED pl) pl 8 data (8 * (i * 2 + 1))) (\<lambda>k2. Inr (x64_128_block pl h (k1, k2))))) [0..<?n] ?h0 = Inr h"
    "absorb ?h0 (take (16 * ?n) (bytes data)) = (h, [])" by blast
  let ?t = "take (len mod 16) (drop (?n * 16) (bytes data))"
  have t: "read_bytes data (?n * 16) (len mod 16) = Inr ?t" using d(4) by (simp add: read_bytes_def)
  have "take len (bytes data) = take (16 * ?n) (bytes data) @ ?t"
    using take_add [of "16 * ?n" "len mod 16" "bytes data"] by (simp add: mult.commute)
  then have "absorb ?h0 (take len (bytes key)) = (h, ?t)" using absorb_append [of ?h0 "take (16 * ?n) (bytes data)" ?t] h(2) d(3) absorb_short [of ?t h] by simp
  moreover have "x64_128_tail ?t h = Inr (mm_tail ?t h)" by (rule x64_tail_mm) simp
  ultimately show ?thesis using d(1,2) h(1) t assms(4) by (simp add: MurmurHash3_x64_128_def murmur_def Let_def)
qed

section \<open>The claims about the hash\<close>

text \<open>What the header of the database makes of \<^verbatim>\<open>HASH128_STATE_INIT\<close>.\<close>

definition init_ok :: "(uint4 \<Rightarrow> hash128_state) \<Rightarrow> bool" where
  "init_ok init \<longleftrightarrow> (\<forall>seed. init seed = \<lparr>h_one = ucast seed, h_two = ucast seed, c_one = 0, c_two = 0, carry_bytes = 0\<rparr>)"

lemma init_stands: "init_ok init \<Longrightarrow> stands_for pl (init seed) ((ucast seed, ucast seed), [])"
  by (simp add: init_ok_def stands_for_def carrying_def mem_word_def)

lemma ingest_all:
  assumes "coherent pl" "\<forall>(k, n) \<in> set pieces. n \<le> length (bytes k)" "stands_for pl st (absorb h t)"
  shows "\<exists>st'. foldE (\<lambda>st (k, n). ydb_mmrhash_128_ingest pl st k n) pieces st = Inr st' \<and>
     stands_for pl st' (absorb h (t @ concat (map (\<lambda>(k, n). take n (bytes k)) pieces)))"
  using assms(2,3)
proof (induction pieces arbitrary: st t)
  case (Cons p pieces)
  obtain k n where p: "p = (k, n)" by fastforce
  obtain h' r where a: "absorb h t = (h', r)" by fastforce
  obtain st1 where one: "ydb_mmrhash_128_ingest pl st k n = Inr st1" "stands_for pl st1 (absorb h' (r @ take n (bytes k)))"
    using ingest_absorbs [OF assms(1), of st h' r n k] Cons.prems p a by auto
  have "absorb h' (r @ take n (bytes k)) = absorb h (t @ take n (bytes k))" using absorb_append [of h t] a by simp
  then show ?case using Cons.IH [of st1 "t @ take n (bytes k)"] Cons.prems(1) one p by simp
qed simp

lemma result_murmur:
  assumes "coherent pl" "stands_for pl st (absorb (ucast seed, ucast seed) bs)" "length bs < 2 ^ 32"
  shows "ydb_mmrhash_128_result pl st (of_nat (length bs)) = murmur seed bs"
proof -
  obtain h r where a: "absorb (ucast seed, ucast seed) bs = (h, r)" by fastforce
  have "(ucast (of_nat (length bs) :: uint4) :: gtm_uint8) = of_nat (length bs)"
    using assms(3) by (simp add: unsigned_of_nat take_bit_nat_eq_self)
  then show ?thesis using result_mm [OF assms(1) assms(2) [unfolded a]] a by (simp add: murmur_def)
qed

end
