(* ===== verification/Murmur_Claims.thy ===== *)
theory Murmur_Claims
  imports Murmur_Results
begin

text \<open>The claims about the hash functions, with a platform, a text and an allocation on which they are seen at work.\<close>

unbundle bit_operations_syntax

section \<open>Instances\<close>

definition x86_64 :: platform where
  "x86_64 = \<lparr>BIGENDIAN = False, GNUC_BSWAP = True, UNALIGNED_ACCESS_SUPPORTED = True, UNALIGNED_SAFE = True\<rparr>"

definition big_strict :: "bool \<Rightarrow> platform" where
  "big_strict gnuc = \<lparr>BIGENDIAN = True, GNUC_BSWAP = gnuc, UNALIGNED_ACCESS_SUPPORTED = False, UNALIGNED_SAFE = False\<rparr>"

definition zero_state :: "uint4 \<Rightarrow> hash128_state" where
  "zero_state seed = \<lparr>h_one = ucast seed, h_two = ucast seed, c_one = 0, c_two = 0, carry_bytes = 0\<rparr>"

definition some_malloc :: "nat \<Rightarrow> nat option" where
  "some_malloc n = Some 4096"

definition no_buff :: static_buff where
  "no_buff = \<lparr>buff = None, bufflen = 0\<rparr>"

lemma instances: "init_ok zero_state" "malloc_ok some_malloc" "buff_ok no_buff" "coherent x86_64" "coherent (big_strict False)"
  by (simp_all add: init_ok_def zero_state_def malloc_ok_def some_malloc_def buff_ok_def no_buff_def coherent_def x86_64_def big_strict_def)

section \<open>One hash, however the text comes\<close>

text \<open>C5. A text that is ingested in pieces, of any number and lengths and at any addresses, has the hash of 64-bit words that
  \<^verbatim>\<open>MurmurHash3_x64_128\<close> computes of the whole text: on every platform whose byte swap has an effect where it needs one, no assertion
  of the macros fails, no word is read where the platform cannot read it, and nothing is read behind the text.\<close>

theorem pieces_hash_as_one:
  assumes "coherent pl" "init_ok init" "malloc_ok malloc" "buff_ok sb"
    and pieces: "\<forall>(k, n) \<in> set pieces. n \<le> length (bytes k)" "take len (bytes key) = concat (map (\<lambda>(k, n). take n (bytes k)) pieces)"
    and len: "len \<le> length (bytes key)" "2 * len < 2 ^ 31"
  shows "\<exists>st sb'. foldE (\<lambda>st (k, n). ydb_mmrhash_128_ingest pl st k n) pieces (init seed) = Inr st \<and>
     MurmurHash3_x64_128 pl malloc sb key len seed = Inr (ydb_mmrhash_128_result pl st (of_nat len), sb')"
proof -
  let ?h = "(ucast seed, ucast seed) :: hash_2"
  have "stands_for pl (init seed) (absorb ?h [])" using init_stands [OF assms(2)] by (simp add: absorb_short)
  from ingest_all [OF assms(1) pieces(1) this] obtain st where
    st: "foldE (\<lambda>st (k, n). ydb_mmrhash_128_ingest pl st k n) pieces (init seed) = Inr st" "stands_for pl st (absorb ?h (take len (bytes key)))"
    using pieces(2) by auto
  have "length (take len (bytes key)) = len" using len(1) by simp
  then have "ydb_mmrhash_128_result pl st (of_nat len) = murmur seed (take len (bytes key))"
    using result_murmur [OF assms(1) st(2)] len(2) by simp
  then show ?thesis using st(1) x64_murmur [OF assms(1,3,4) len, of seed] by auto
qed

theorem pieces_hash_as_one_witness:
  "\<exists>st sb'. foldE (\<lambda>st (k, n). ydb_mmrhash_128_ingest (big_strict False) st k n)
       [(\<lparr>addr = 13, bytes = replicate 21 7\<rparr>, 20), (\<lparr>addr = 2, bytes = [1, 2, 3]\<rparr>, 3)] (zero_state 5) = Inr st \<and>
     MurmurHash3_x64_128 (big_strict False) some_malloc no_buff \<lparr>addr = 3, bytes = replicate 20 7 @ [1, 2, 3]\<rparr> 23 5 =
       Inr (ydb_mmrhash_128_result (big_strict False) st (of_nat 23), sb')"
  by (rule pieces_hash_as_one [OF instances(5,1,2,3)]) simp_all

text \<open>The whole text is one piece.\<close>

lemma mmrhash_128_murmur:
  assumes "coherent pl" "init_ok init" "len \<le> length (bytes key)" "2 * len < 2 ^ 31"
  shows "ydb_mmrhash_128 pl init key len seed = Inr (murmur seed (take len (bytes key)))"
proof -
  let ?h = "(ucast seed, ucast seed) :: hash_2"
  obtain st where st: "ydb_mmrhash_128_ingest pl (init seed) key len = Inr st" "stands_for pl st (absorb ?h (take len (bytes key)))"
    using ingest_absorbs [OF assms(1) init_stands [OF assms(2)] assms(3)] by auto
  have "ydb_mmrhash_128_result pl st (of_nat len) = murmur seed (take len (bytes key))"
    using result_murmur [OF assms(1) st(2)] assms(3,4) by simp
  then show ?thesis using st(1) assms(2) by (simp add: ydb_mmrhash_128_def init_ok_def Let_def)
qed

lemma bit_EXTRACT_BYTE: "EXTRACT_BYTE x n = ucast (drop_bit (8 * n) x)"
proof (rule word8_eqI)
  fix k :: nat assume "k < 8"
  moreover have "bit (x AND push_bit (8 * n) 0xff) (8 * n + k) \<longleftrightarrow> bit x (8 * n + k)" using \<open>k < 8\<close> by (simp add: bit_masked)
  ultimately show "bit (EXTRACT_BYTE x n) k = bit (ucast (drop_bit (8 * n) x) :: byte) k"
    unfolding EXTRACT_BYTE_def by (simp only: bit_unsigned_iff bit_drop_bit_eq o_def mult.commute [of n 8])
qed

lemma hash_bytes_le: "ydb_mmrhash_128_bytes pl hash = le_bytes (fst hash) @ le_bytes (snd hash)"
  by (simp add: ydb_mmrhash_128_bytes_def bit_EXTRACT_BYTE le_bytes_def)

text \<open>C6. The comment of \<^verbatim>\<open>ydb_mmrhash_128\<close> calls it endian-independent: two platforms with a working byte swap, of either order and
  with or without words at any address, give the same bytes and the same digits for the same text, wherever it lies.\<close>

theorem hash_independent_of_platform:
  assumes "coherent pl" "coherent pl'" "init_ok init" "len \<le> length (bytes key)" "len \<le> length (bytes key')"
    "take len (bytes key) = take len (bytes key')" "2 * len < 2 ^ 31"
  shows "\<exists>h h'. ydb_mmrhash_128 pl init key len seed = Inr h \<and> ydb_mmrhash_128 pl' init key' len seed = Inr h' \<and>
     ydb_mmrhash_128_bytes pl h = ydb_mmrhash_128_bytes pl' h' \<and> ydb_mmrhash_128_hex pl h = ydb_mmrhash_128_hex pl' h' \<and>
     ydb_mmrhash_32 pl init key len seed = ydb_mmrhash_32 pl' init key' len seed"
proof -
  have r: "ydb_mmrhash_128 pl init key len seed = ydb_mmrhash_128 pl' init key' len seed"
    using mmrhash_128_murmur [OF assms(1,3,4,7)] mmrhash_128_murmur [OF assms(2,3,5,7)] assms(6) by simp
  have f: "ydb_mmrhash_32 p init k n seed = bindE (ydb_mmrhash_128 p init k n seed) (\<lambda>h. Inr (ucast (fst h)))" for p k n
    by (cases "ydb_mmrhash_128_ingest p (init seed) k n") (simp_all add: ydb_mmrhash_32_def ydb_mmrhash_128_def bindE_assoc Let_def)
  show ?thesis using r mmrhash_128_murmur [OF assms(2,3,5,7)] by (simp add: f ydb_mmrhash_128_hex_def hash_bytes_le)
qed

theorem hash_independent_of_platform_witness:
  "\<exists>h h'. ydb_mmrhash_128 x86_64 zero_state \<lparr>addr = 5, bytes = [1, 2, 3, 4]\<rparr> 3 9 = Inr h \<and>
     ydb_mmrhash_128 (big_strict False) zero_state \<lparr>addr = 6, bytes = [1, 2, 3]\<rparr> 3 9 = Inr h' \<and>
     ydb_mmrhash_128_bytes x86_64 h = ydb_mmrhash_128_bytes (big_strict False) h' \<and>
     ydb_mmrhash_128_hex x86_64 h = ydb_mmrhash_128_hex (big_strict False) h' \<and>
     ydb_mmrhash_32 x86_64 zero_state \<lparr>addr = 5, bytes = [1, 2, 3, 4]\<rparr> 3 9 = ydb_mmrhash_32 (big_strict False) zero_state \<lparr>addr = 6, bytes = [1, 2, 3]\<rparr> 3 9"
  by (rule hash_independent_of_platform [OF instances(4,5,1)]) simp_all

end
