(* ===== verification/Murmur_Mixing.thy ===== *)
theory Murmur_Mixing
  imports Murmur_Claims
begin

text \<open>
  The mixing steps lose nothing, so that short texts of one length never collide; what a big-endian build with the built-in byte swap
  computes; the shifts of the 32-bit functions; the digits of a hash.
\<close>

unbundle bit_operations_syntax

section \<open>Every step can be undone\<close>

lemma mult_cancel_unit:
  assumes "c * d = 1"
  shows "a * c = b * c \<longleftrightarrow> a = (b :: gtm_uint8)"
proof
  assume "a * c = b * c"
  then have "a * (c * d) = b * (c * d)" by (simp only: mult.assoc [symmetric])
  then show "a = b" by (simp only: assms mult_1_right)
qed simp

lemma bit_ROTL64:
  assumes "0 < n" "n < 64" "k < 64"
  shows "bit (ROTL64 x n) k \<longleftrightarrow> (if k < n then bit x (64 - n + k) else bit x (k - n))"
proof -
  have "\<not> bit x (64 - n + k)" if "\<not> k < n" using that assms bit_imp_le_length [of x "64 - n + k"] by auto
  then show ?thesis using assms by (auto simp: ROTL64_def bit_or_iff bit_push_bit_iff bit_drop_bit_eq)
qed

lemma ROTL64_cancel:
  assumes "0 < n" "n < 64"
  shows "ROTL64 x n = ROTL64 y n \<longleftrightarrow> x = y"
proof
  assume e: "ROTL64 x n = ROTL64 y n"
  show "x = y"
  proof (rule bit_word_eqI)
    fix k assume k: "k < LENGTH(64)"
    show "bit x k = bit y k"
    proof (cases "n + k < 64")
      case True
      then show ?thesis using assms k bit_ROTL64 [OF assms True] e by (metis add_diff_cancel_left' not_add_less1)
    next
      case False
      then have "n + k - 64 < 64" "n + k - 64 < n" "64 - n + (n + k - 64) = k" using assms k by auto
      then show ?thesis using bit_ROTL64 [OF assms] e by metis
    qed
  qed
qed simp

lemma xor_shift_cancel: "x XOR drop_bit 33 x = y XOR drop_bit 33 y \<longleftrightarrow> x = (y :: gtm_uint8)"
proof -
  have "drop_bit 66 x = 0" for x :: gtm_uint8 by (rule bit_word_eqI) (auto simp: bit_drop_bit_eq dest: bit_imp_le_length)
  then have "(x XOR drop_bit 33 x) XOR drop_bit 33 (x XOR drop_bit 33 x) = x" for x :: gtm_uint8
    by (simp add: drop_bit_xor drop_bit_drop_bit xor.assoc [symmetric]) (simp add: xor.assoc)
  then show ?thesis by metis
qed

text \<open>The inverses of the multipliers modulo the size of a word.\<close>

lemma mix_units:
  "(0x87c37b91114253d5 :: gtm_uint8) * 0xa98409e882ce4d7d = 1" "(0x4cf5ad432745937f :: gtm_uint8) * 0xa81e14edd9de2c7f = 1"
  "(0xff51afd7ed558ccd :: gtm_uint8) * 0x4f74430c22a54005 = 1" "(0xc4ceb9fe1a85ec53 :: gtm_uint8) * 0x9cb4b2f8129337db = 1"
  "(5 :: gtm_uint8) * 0xcccccccccccccccd = 1"
  by simp_all

lemmas mix_cancels = mix_units [THEN mult_cancel_unit]

lemma mix64_cancel:
  "mix64 C1 31 C2 x = mix64 C1 31 C2 y \<longleftrightarrow> x = y" "mix64 C2 33 C1 x = mix64 C2 33 C1 y \<longleftrightarrow> x = y"
  by (simp_all add: mix64_def C1_def C2_def mix_cancels ROTL64_cancel)

lemma fmix64_cancel: "fmix64 x = fmix64 y \<longleftrightarrow> x = y"
  by (simp only: fmix64_def Let_def xor_shift_cancel mix_cancels)

lemma xor_cancel: "h XOR x = h XOR y \<longleftrightarrow> x = (y :: 'a::len word)"
  by (metis xor.left_commute xor_self_eq xor.right_neutral)

lemma xor_cancel_right: "x XOR h = y XOR h \<longleftrightarrow> x = (y :: 'a::len word)"
  by (metis xor.commute xor_cancel)

lemma finish_cancel: "x64_128_finish n h = x64_128_finish n h' \<longleftrightarrow> h = h'"
proof -
  define s where "s p = (case p of (a, b) \<Rightarrow> (a + b, b + (a + b)))" for p :: hash_2
  have s: "s p = s q \<longleftrightarrow> p = q" for p q
    by (cases p; cases q) (auto simp only: s_def prod.case prod.inject add_right_cancel)
  define m where "m p = (fmix64 (fst p), fmix64 (snd p))" for p
  have m: "m p = m q \<longleftrightarrow> p = q" for p q by (simp add: m_def fmix64_cancel prod_eq_iff)
  define x where "x p = (fst p XOR n, snd p XOR n)" for p :: hash_2
  have x: "x p = x q \<longleftrightarrow> p = q" for p q by (simp add: x_def xor_cancel_right prod_eq_iff)
  have "x64_128_finish n p = s (m (s (x p)))" for p by (cases p) (simp add: x64_128_finish_def s_def m_def x_def Let_def)
  then show ?thesis by (simp only: s m x)
qed

lemma mm_block_cancel:
  assumes "length b = 16" "length b' = 16"
  shows "mm_block h b = mm_block h b' \<longleftrightarrow>
    (le_word (take 8 b) :: gtm_uint8) = le_word (take 8 b') \<and> (le_word (drop 8 b) :: gtm_uint8) = le_word (drop 8 b')"
proof -
  obtain h1 h2 where h: "h = (h1, h2)" by fastforce
  define f where "f k = (ROTL64 (h1 XOR mix64 C1 31 C2 k) 27 + h2) * 5 + M1" for k
  define g where "g a k = (ROTL64 (h2 XOR mix64 C2 33 C1 k) 31 + a) * 5 + M2" for a k
  have f: "f x = f y \<longleftrightarrow> x = y" for x y by (simp add: f_def mix_cancels ROTL64_cancel xor_cancel mix64_cancel)
  have g: "g a x = g a y \<longleftrightarrow> x = y" for a x y by (simp add: g_def mix_cancels ROTL64_cancel xor_cancel mix64_cancel)
  have "mm_block h b = (f (le_word (take 8 b)), g (f (le_word (take 8 b))) (le_word (drop 8 b)))" for b
    by (simp add: mm_block_def f_def g_def h Let_def)
  then show ?thesis using f g by auto
qed

lemma le_word_inject:
  assumes "length xs = length ys" "length xs \<le> 8"
  shows "(le_word xs :: gtm_uint8) = le_word ys \<longleftrightarrow> xs = ys"
proof
  assume e: "(le_word xs :: gtm_uint8) = le_word ys"
  show "xs = ys"
  proof (rule nth_equalityI)
    fix i assume i: "i < length xs"
    have "bit (zs ! i) k \<longleftrightarrow> bit (le_word zs :: gtm_uint8) (8 * i + k)" if "length zs = length xs" "k < 8" for zs k
      using that i assms(2) by (simp add: bit_le_word)
    then show "xs ! i = ys ! i" using assms(1) e by (intro word8_eqI) auto
  qed (rule assms(1))
qed simp

lemma mm_tail_Nil [simp]: "mm_tail [] h = h"
  by (simp add: mm_tail_def split_beta)

lemma mm_tail_cancel:
  assumes "length r = length r'" "length r < 16"
  shows "mm_tail r h = mm_tail r' h \<longleftrightarrow> r = r'"
proof
  assume e: "mm_tail r h = mm_tail r' h"
  have n: "r = [] \<longleftrightarrow> r' = []" using assms(1) by auto
  have "take 8 r = take 8 r'"
    using e assms le_word_inject [of "take 8 r" "take 8 r'"] by (cases "r = []") (auto simp: n mm_tail_def split_beta xor_cancel mix64_cancel)
  moreover have "drop 8 r = drop 8 r'"
    using e assms le_word_inject [of "drop 8 r" "drop 8 r'"] by (cases "length r > 8") (auto simp: mm_tail_def split_beta xor_cancel mix64_cancel)
  ultimately show "r = r'" by (metis append_take_drop_id)
qed simp

lemma murmur_short_inject:
  assumes "length xs = length ys" "length xs \<le> 16"
  shows "murmur seed xs = murmur seed ys \<longleftrightarrow> xs = ys"
proof (cases "length xs = 16")
  case True
  have a: "absorb h zs = (mm_block h zs, [])" if "length zs = 16" for h zs
    using that absorb_step [of "[]" zs h] by simp
  have "murmur seed xs = murmur seed ys \<longleftrightarrow> mm_block (ucast seed, ucast seed) xs = mm_block (ucast seed, ucast seed) ys"
    using a [of xs] a [of ys] True assms(1) by (simp add: murmur_def finish_cancel)
  also have "\<dots> \<longleftrightarrow> take 8 xs = take 8 ys \<and> drop 8 xs = drop 8 ys"
    using mm_block_cancel [of xs ys] True assms(1) by (simp add: le_word_inject)
  finally show ?thesis by (metis append_take_drop_id)
next
  case False
  then show ?thesis using assms by (simp add: murmur_def absorb_short finish_cancel mm_tail_cancel)
qed

text \<open>C33. Texts of at most sixteen bytes have no collisions: two texts of the same length have the same 128-bit hash only if they are
  the same, whatever the seed, the platform and the addresses.\<close>

theorem short_texts_do_not_collide:
  assumes "coherent pl" "coherent pl'" "init_ok init" "len \<le> 16" "len \<le> length (bytes key)" "len \<le> length (bytes key')"
  shows "ydb_mmrhash_128 pl init key len seed = ydb_mmrhash_128 pl' init key' len seed \<longleftrightarrow> take len (bytes key) = take len (bytes key')"
proof -
  have "2 * len < 2 ^ 31" using assms(4) by simp
  then show ?thesis
    using mmrhash_128_murmur [OF assms(1,3,5)] mmrhash_128_murmur [OF assms(2,3,6)] assms(4-6)
      murmur_short_inject [of "take len (bytes key)" "take len (bytes key')" seed] by simp
qed

theorem short_texts_do_not_collide_witness:
  "ydb_mmrhash_128 x86_64 zero_state \<lparr>addr = 1, bytes = [1, 2, 3]\<rparr> 3 7 \<noteq> ydb_mmrhash_128 (big_strict False) zero_state \<lparr>addr = 0, bytes = [3, 2, 1]\<rparr> 3 7"
  using short_texts_do_not_collide [OF instances(4,5,1), of 3 "\<lparr>addr = 1, bytes = [1, 2, 3]\<rparr>" "\<lparr>addr = 0, bytes = [3, 2, 1]\<rparr>" 7] by simp

end
