(* ===== verification/Murmur_Edges.thy ===== *)
theory Murmur_Edges
  imports Murmur_Mixing
begin

text \<open>What a big-endian build with the built-in byte swap computes, the shifts of the 32-bit functions, and the digits of a hash.\<close>

unbundle bit_operations_syntax

section \<open>The built-in byte swap\<close>

text \<open>The carry of a text that fills no block, on every platform.\<close>

lemma short_ingest:
  assumes "addr key mod 8 = 0" "init_ok init" "len < 16" "len \<le> length (bytes key)"
  shows "ydb_mmrhash_128_ingest pl (init seed) key len = Inr (carrying (mem_word pl) (take len (bytes key)) (init seed))"
proof -
  have st: "init seed = carrying (mem_word pl) [] (init seed)" "carry_bytes (init seed) = 0"
    using assms(2) by (simp_all add: init_ok_def carrying_def mem_word_def)
  have b: "ingest_blocks pl (init seed) key len = Inr (init seed, key, len)" using assms(3) by (subst ingest_blocks.simps) simp
  have "PROCESS_BYTES pl (init seed) key len = Inr (carrying (mem_word pl) (take len (bytes key)) (init seed))"
    using ADD_BYTES_carry [OF st(1), of len "advance 0 key"] assms(3,4) st(2) by (simp add: PROCESS_BYTES_def advance_def)
  moreover have "to_boundary key len = 0" using assms(1) by (simp add: to_boundary_def)
  moreover have "carrying (mem_word pl) [] (init seed) = init seed" using st(1) by simp
  ultimately show ?thesis using b by (cases "len = 0") (simp_all add: ydb_mmrhash_128_ingest_def)
qed

definition padded :: "byte list \<Rightarrow> byte list" where
  "padded t = take 8 (t @ replicate 8 0)"

lemma be_le_padded: "length t \<le> 8 \<Longrightarrow> be_word t = le_word t \<longleftrightarrow> rev (padded t) = padded t"
proof -
  assume l: "length t \<le> 8"
  have "(le_word t :: gtm_uint8) = le_word (t @ replicate 8 0)" using push_le_word [of 8 "[]"] by (simp add: le_word_append push_le_word)
  then have "(le_word t :: gtm_uint8) = le_word (padded t)" using le_word_take [of "t @ replicate 8 0"] by (simp add: padded_def)
  moreover have "length (padded t) = 8" by (simp add: padded_def)
  ultimately show ?thesis using le_word_inject [of "rev (padded t)" "padded t"] by (simp add: be_word_def padded_def)
qed

text \<open>On a big-endian platform whose compiler has the built-in function \<^verbatim>\<open>UI64_TO_LE\<close> swaps nothing, because the value of the
  call is not used: a text of fewer than sixteen bytes at an aligned address has the hash that other platforms give it only if its
  words, filled up with zeros, read the same from both ends.\<close>

theorem builtin_swap_has_no_effect:
  assumes "BIGENDIAN pl" "GNUC_BSWAP pl" "coherent pl'" "init_ok init" "addr key mod 8 = 0" "len < 16" "len \<le> length (bytes key)"
  defines "t \<equiv> take len (bytes key)"
  shows "ydb_mmrhash_128 pl init key len seed = ydb_mmrhash_128 pl' init key len seed \<longleftrightarrow>
     rev (padded (take 8 t)) = padded (take 8 t) \<and> rev (padded (drop 8 t)) = padded (drop 8 t)"
proof -
  let ?st = "carrying (mem_word pl) t (init seed)"
  have l: "length t = len" using assms(7) by (simp add: t_def)
  have to: "UI64_TO_LE pl w = w" for w using assms(1,2) by (simp add: UI64_TO_LE_def)
  have mem: "mem_word pl = be_word" using assms(1) by (simp add: mem_word_def)
  have n: "(ucast (of_nat len :: uint4) :: gtm_uint8) = of_nat len" using assms(6) by (simp add: unsigned_of_nat take_bit_nat_eq_self)
  let ?h = "(ucast seed, ucast seed) :: hash_2"
  define k where "k = (if t \<noteq> [] then fst ?h XOR mix64 C1 31 C2 (be_word (take 8 t)) else fst ?h,
    if length t > 8 then snd ?h XOR mix64 C2 33 C1 (be_word (drop 8 t)) else snd ?h)"
  have "ydb_mmrhash_128_result pl ?st (of_nat len) = x64_128_finish (of_nat len) k"
    using assms(4) n by (auto simp: ydb_mmrhash_128_result_def x64_128_finish_def k_def to mem INTEGRATE_K1_def INTEGRATE_K2_def init_ok_def Let_def)
  moreover have "ydb_mmrhash_128_ingest pl (init seed) key len = Inr ?st" unfolding t_def by (rule short_ingest [OF assms(5,4,6,7)])
  ultimately have one: "ydb_mmrhash_128 pl init key len seed = Inr (x64_128_finish (of_nat len) k)"
    using assms(4) by (simp add: ydb_mmrhash_128_def init_ok_def Let_def)
  have "ydb_mmrhash_128 pl' init key len seed = Inr (x64_128_finish (of_nat len) (mm_tail t ?h))"
    using mmrhash_128_murmur [OF assms(3,4,7), of seed] assms(6) l by (simp add: t_def murmur_def absorb_short)
  then have "ydb_mmrhash_128 pl init key len seed = ydb_mmrhash_128 pl' init key len seed \<longleftrightarrow> k = mm_tail t ?h"
    using one by (simp add: finish_cancel)
  also have "\<dots> \<longleftrightarrow> be_word (take 8 t) = le_word (take 8 t) \<and> be_word (drop 8 t) = le_word (drop 8 t)"
    by (cases "t = []"; cases "length t > 8") (auto simp: k_def mm_tail_def xor_cancel mix64_cancel)
  also have "\<dots> \<longleftrightarrow> rev (padded (take 8 t)) = padded (take 8 t) \<and> rev (padded (drop 8 t)) = padded (drop 8 t)"
    using l assms(6) by (simp add: be_le_padded)
  finally show ?thesis .
qed

theorem builtin_swap_has_no_effect_witness:
  "ydb_mmrhash_128 (big_strict True) zero_state \<lparr>addr = 16, bytes = [1, 2]\<rparr> 2 0 \<noteq> ydb_mmrhash_128 x86_64 zero_state \<lparr>addr = 16, bytes = [1, 2]\<rparr> 2 0"
proof -
  have p: "padded [1, 2] = [1, 2, 0, 0, 0, 0, 0, 0]" by code_simp
  have b: "BIGENDIAN (big_strict True)" "GNUC_BSWAP (big_strict True)" by (simp_all add: big_strict_def)
  show ?thesis
    using builtin_swap_has_no_effect [OF b instances(4,1), of "\<lparr>addr = 16, bytes = [1, 2]\<rparr>" 2 0] p by simp
qed

section \<open>Shifts of bytes as numbers of type \<^verbatim>\<open>int\<close>\<close>

lemma uint_byte: "uint (b :: byte) < 256"
proof -
  have "int (unat b) < 256" using unat_byte_bound [of b] by linarith
  then show ?thesis by (simp only: of_nat_unat)
qed

lemma tail32_step:
  "bindE (load (t :: byte list) i) (\<lambda>b. bindE (int_of (uint b * 2 ^ (8 * j))) (\<lambda>v. Inr (k XOR word_of_int v))) =
     (if length t \<le> i then Inl Read_oob
      else if j \<le> 2 \<or> j = 3 \<and> uint (t ! i) < 128 then Inr (k XOR (word_of_int (uint (t ! i) * 2 ^ (8 * j)) :: uint4))
      else bindE (int_of (uint (t ! i) * 2 ^ (8 * j))) (\<lambda>v. Inr (k XOR word_of_int v)))"
proof -
  have "is_int (b * 2 ^ (8 * j))" if "0 \<le> b" "b < 256" "j \<le> 2 \<or> j = 3 \<and> b < 128" for b
  proof -
    have "j = 0 \<or> j = 1 \<or> j = 2 \<or> j = 3 \<and> b < 128" using that(3) by linarith
    then show ?thesis using that(1,2) by (auto simp: is_int_def)
  qed
  from this [of "uint (t ! i)"] uint_byte [of "t ! i"]
  have "is_int (uint (t ! i) * 2 ^ (8 * j))" if "j \<le> 2 \<or> j = 3 \<and> uint (t ! i) < 128" using that by simp
  then show ?thesis by (auto simp: mem_simps int_of_is_int)
qed

lemma tail32_small: "m \<le> 3 \<Longrightarrow> p + m \<le> length t \<Longrightarrow>
  \<exists>k'. foldE (\<lambda>k j. bindE (load (t :: byte list) (p + j)) (\<lambda>b. bindE (int_of (uint b * 2 ^ (8 * j))) (\<lambda>v. Inr (k XOR (word_of_int v :: uint4))))) (rev [0..<m]) k = Inr k'"
proof (induction m arbitrary: k)
  case (Suc m)
  then show ?case by (simp add: tail32_step)
qed simp

lemma tail32_cases:
  assumes "p < length t" "n \<le> 4"
  shows "if n = 4 \<and> p + 3 < length t \<and> 128 \<le> uint (t ! (p + 3)) then tail32 t p n = Inl Int_overflow else \<exists>k. tail32 t p n = Inr k"
proof (cases "n = 4 \<and> p + 3 < length t")
  case True
  then have m: "min n (length t - p) = 4" by (auto simp: min_def)
  have u: "rev [0..<4] = 3 # rev [0..<(3 :: nat)]" by (simp add: upt_rec)
  have b: "uint (t ! (p + 3)) < 256" by (rule uint_byte)
  show ?thesis
  proof (cases "128 \<le> uint (t ! (p + 3))")
    case top: True
    then have "int_of (uint (t ! (p + 3)) * 2 ^ (8 * 3)) = Inl Int_overflow" by (simp add: int_of_def)
    then show ?thesis using True top unfolding tail32_def m u by (simp add: mem_simps)
  next
    case False
    then show ?thesis using True tail32_small [of 3 p t] unfolding tail32_def m u by (simp add: tail32_step)
  qed
next
  case False
  then have "min n (length t - p) \<le> 3" "p + min n (length t - p) \<le> length t" using assms by auto
  then show ?thesis using tail32_small [of "min n (length t - p)" p t 0] False by (auto simp: tail32_def)
qed

text \<open>A loop of steps that return returns.\<close>

lemma foldE_returns: "(\<And>s x. x \<in> set xs \<Longrightarrow> \<exists>s'. f s x = Inr s') \<Longrightarrow> \<exists>s'. foldE f xs s = Inr s'"
proof (induction xs arbitrary: s)
  case (Cons x xs)
  then obtain s' where "f s x = Inr s'" by (meson list.set_intros(1))
  then show ?case using Cons by simp
qed simp

lemma read_word_returns:
  assumes "off + n \<le> length (bytes p)" "unaligned \<or> (addr p + off) mod n = 0"
  shows "\<exists>v. read_word unaligned pl n p off = Inr v"
  using assms by (auto simp: read_word_def read_bytes_def)

definition top_byte :: "byte list \<Rightarrow> bool" where
  "top_byte t \<longleftrightarrow> (\<exists>j \<in> {3, 7, 11}. j < length t \<and> 128 \<le> uint (t ! j))"

lemma x86_128_tail_cases:
  assumes "length t < 16"
  shows "if top_byte t then x86_128_tail t h = Inl Int_overflow else \<exists>h'. x86_128_tail t h = Inr h'"
proof -
  obtain h1 h2 h3 h4 where h: "h = (h1, h2, h3, h4)" by (metis prod_cases4)
  have t: "if n = 4 \<and> p + 3 < length t \<and> 128 \<le> uint (t ! (p + 3)) then tail32 t p n = Inl Int_overflow else \<exists>k. tail32 t p n = Inr k"
    if "p < length t" "n \<le> 4" for p n using tail32_cases [OF that] .
  have p12: "length t > 12 \<Longrightarrow> \<exists>k. tail32 t 12 3 = Inr k" using t [of 12 3] by simp
  have p8: "length t > 8 \<Longrightarrow> if 11 < length t \<and> 128 \<le> uint (t ! 11) then tail32 t 8 4 = Inl Int_overflow else \<exists>k. tail32 t 8 4 = Inr k" using t [of 8 4] by simp
  have p4: "length t > 4 \<Longrightarrow> if 7 < length t \<and> 128 \<le> uint (t ! 7) then tail32 t 4 4 = Inl Int_overflow else \<exists>k. tail32 t 4 4 = Inr k" using t [of 4 4] by simp
  have p0: "length t > 0 \<Longrightarrow> if 3 < length t \<and> 128 \<le> uint (t ! 3) then tail32 t 0 4 = Inl Int_overflow else \<exists>k. tail32 t 0 4 = Inr k" using t [of 0 4] by simp
  have a: "\<exists>x. (if length t > 12 then bindE (tail32 t 12 3) (\<lambda>k4. Inr (f k4)) else Inr h4) = Inr x" for f
    using p12 by (cases "length t > 12") auto
  have b: "if 11 < length t \<and> 128 \<le> uint (t ! 11) then (if length t > 8 then bindE (tail32 t 8 4) (\<lambda>k3. Inr (f k3)) else Inr h3) = Inl Int_overflow
      else \<exists>x. (if length t > 8 then bindE (tail32 t 8 4) (\<lambda>k3. Inr (f k3)) else Inr h3) = Inr x" for f
    using p8 by (cases "length t > 8") (auto split: if_splits)
  have c: "if 7 < length t \<and> 128 \<le> uint (t ! 7) then (if length t > 4 then bindE (tail32 t 4 4) (\<lambda>k2. Inr (f k2)) else Inr h2) = Inl Int_overflow
      else \<exists>x. (if length t > 4 then bindE (tail32 t 4 4) (\<lambda>k2. Inr (f k2)) else Inr h2) = Inr x" for f
    using p4 by (cases "length t > 4") (auto split: if_splits)
  have d: "if 3 < length t \<and> 128 \<le> uint (t ! 3) then (if length t > 0 then bindE (tail32 t 0 4) (\<lambda>k1. Inr (f k1)) else Inr h1) = Inl Int_overflow
      else \<exists>x. (if length t > 0 then bindE (tail32 t 0 4) (\<lambda>k1. Inr (f k1)) else Inr h1) = Inr x" for f
    using p0 by (cases "length t > 0") (auto split: if_splits)
  have top: "top_byte t \<longleftrightarrow> (11 < length t \<and> 128 \<le> uint (t ! 11)) \<or> (7 < length t \<and> 128 \<le> uint (t ! 7)) \<or> (3 < length t \<and> 128 \<le> uint (t ! 3))"
    by (auto simp: top_byte_def)
  show ?thesis
    unfolding h x86_128_tail_def Let_def prod.case top
    using a [of "\<lambda>k4. h4 XOR mix32 0xa1e38b93 18 0x239b961b k4"] b [of "\<lambda>k3. h3 XOR mix32 0x38b34ae5 17 0xa1e38b93 k3"]
      c [of "\<lambda>k2. h2 XOR mix32 0xab0e9789 16 0x38b34ae5 k2"] d [of "\<lambda>k1. h1 XOR mix32 0x239b961b 15 0xab0e9789 k1"]
    by (elim exE) (auto simp del: length_greater_0_conv split: if_splits)
qed

text \<open>\<^verbatim>\<open>MurmurHash3_x86_128\<close> shifts bytes of the last, partial block as numbers of type \<^verbatim>\<open>int\<close>: where one that is shifted by 24 bits is
  at least 128 the shift leaves the type, which C does not define; with all other texts it returns, at every address and whatever its static
  buffer held.\<close>

theorem x86_128_shift_overflows:
  assumes "malloc_ok malloc" "buff_ok sb" "len \<le> length (bytes key)" "2 * len < 2 ^ 31"
  shows "if top_byte (drop (16 * (len div 16)) (take len (bytes key))) then MurmurHash3_x86_128 pl malloc sb key len seed = Inl Int_overflow
     else \<exists>h sb'. MurmurHash3_x86_128 pl malloc sb key len seed = Inr (h, sb') \<and> buff_ok sb'"
proof -
  obtain data sb' where d: "align_key pl malloc 4 sb key len = Inr (data, sb')" "buff_ok sb'" "take len (bytes data) = take len (bytes key)"
    "len \<le> length (bytes data)" "UNALIGNED_ACCESS_SUPPORTED pl \<or> len = 0 \<or> addr data mod 4 = 0"
    using align_key_aligns [OF assms, of 4 pl] by auto
  let ?n = "len div 16" and ?u = "UNALIGNED_ACCESS_SUPPORTED pl"
  have r: "\<exists>v. read_word ?u pl 4 data (4 * (i * 4 + j)) = Inr (v :: uint4)" if "i < ?n" "j < 4" for i j
  proof (rule read_word_returns)
    have "16 * ?n \<le> length (bytes data)" using d(4) by simp
    moreover have "16 * Suc i \<le> 16 * ?n" using that(1) by (intro mult_le_mono2) simp
    ultimately have "16 * Suc i \<le> length (bytes data)" by (rule order_trans [rotated])
    moreover have "4 * (i * 4 + j) + 4 \<le> 16 * Suc i" using that(2) by simp
    ultimately show "4 * (i * 4 + j) + 4 \<le> length (bytes data)" by (rule order_trans [rotated])
    have "len \<noteq> 0" using that by auto
    then show "?u \<or> (addr data + 4 * (i * 4 + j)) mod 4 = 0" using d(5) by auto
  qed
  have "\<exists>h. foldE (\<lambda>h i. bindE (read_word ?u pl 4 data (4 * (i * 4 + 0))) (\<lambda>k1. bindE (read_word ?u pl 4 data (4 * (i * 4 + 1))) (\<lambda>k2.
      bindE (read_word ?u pl 4 data (4 * (i * 4 + 2))) (\<lambda>k3. bindE (read_word ?u pl 4 data (4 * (i * 4 + 3))) (\<lambda>k4.
      Inr (x86_128_block h (k1, k2, k3, k4))))))) [0..<?n] (seed, seed, seed, seed) = Inr h"
  proof (rule foldE_returns)
    fix h i assume "i \<in> set [0..<?n]"
    then have i: "i < ?n" by simp
    obtain a b c d :: uint4 where "read_word ?u pl 4 data (4 * (i * 4 + 0)) = Inr a" "read_word ?u pl 4 data (4 * (i * 4 + 1)) = Inr b"
      "read_word ?u pl 4 data (4 * (i * 4 + 2)) = Inr c" "read_word ?u pl 4 data (4 * (i * 4 + 3)) = Inr d"
      using r [OF i, of 0] r [OF i, of 1] r [OF i, of 2] r [OF i, of 3] by auto
    then show "\<exists>h'. bindE (read_word ?u pl 4 data (4 * (i * 4 + 0))) (\<lambda>k1. bindE (read_word ?u pl 4 data (4 * (i * 4 + 1))) (\<lambda>k2.
      bindE (read_word ?u pl 4 data (4 * (i * 4 + 2))) (\<lambda>k3. bindE (read_word ?u pl 4 data (4 * (i * 4 + 3))) (\<lambda>k4.
      Inr (x86_128_block h (k1, k2, k3, k4)))))) = Inr h'"
      by (simp only: bindE_Inr) blast
  qed
  then obtain h where h: "foldE (\<lambda>h i. bindE (read_word ?u pl 4 data (4 * (i * 4 + 0))) (\<lambda>k1. bindE (read_word ?u pl 4 data (4 * (i * 4 + 1))) (\<lambda>k2.
      bindE (read_word ?u pl 4 data (4 * (i * 4 + 2))) (\<lambda>k3. bindE (read_word ?u pl 4 data (4 * (i * 4 + 3))) (\<lambda>k4.
      Inr (x86_128_block h (k1, k2, k3, k4))))))) [0..<?n] (seed, seed, seed, seed) = Inr h" by blast
  let ?t = "drop (16 * ?n) (take len (bytes key))"
  have "take (len mod 16) (drop (?n * 16) (bytes data)) = drop (16 * ?n) (take len (bytes data))"
    by (simp add: drop_take mult.commute minus_mult_div_eq_mod)
  then have t: "read_bytes data (?n * 16) (len mod 16) = Inr ?t" using d(3,4) by (simp add: read_bytes_def)
  have "length ?t < 16" using assms(3) by (simp add: minus_mult_div_eq_mod)
  note cases = x86_128_tail_cases [OF this, of h]
  have eq: "MurmurHash3_x86_128 pl malloc sb key len seed = bindE (x86_128_tail ?t h) (\<lambda>h. Inr (x86_128_finish len h, sb'))"
    using d(1) h t by (simp add: MurmurHash3_x86_128_def Let_def)
  show ?thesis
  proof (cases "top_byte ?t")
    case True
    then show ?thesis using cases by (simp add: eq)
  next
    case False
    then obtain h' where "x86_128_tail ?t h = Inr h'" using cases by auto
    then show ?thesis using False d(2) by (simp only: eq bindE_Inr if_False) blast
  qed
qed

theorem x86_128_shift_overflows_witness:
  "MurmurHash3_x86_128 (big_strict True) some_malloc no_buff \<lparr>addr = 7, bytes = [0, 0, 0, 200]\<rparr> 4 0 = Inl Int_overflow \<and>
   (\<exists>h sb'. MurmurHash3_x86_128 x86_64 some_malloc no_buff \<lparr>addr = 7, bytes = [200, 0, 0, 127]\<rparr> 4 0 = Inr (h, sb') \<and> buff_ok sb')"
  using x86_128_shift_overflows [OF instances(2,3), of 4 "\<lparr>addr = 7, bytes = [0, 0, 0, 200]\<rparr>" "big_strict True" 0]
    x86_128_shift_overflows [OF instances(2,3), of 4 "\<lparr>addr = 7, bytes = [200, 0, 0, 127]\<rparr>" x86_64 0]
  by (simp add: top_byte_def)

end
