(* ===== verification/Hash_Test.thy ===== *)
theory Hash_Test
  imports Murmur_Progressive
begin

text \<open>
  The test program of the hash functions, \<^verbatim>\<open>v62001/inref/hash.c\<close>.  It is linked with the database, whose hash functions and
  MD5 sums are an argument; \<open>copied\<close> takes the copy of the hash functions that is in the repository for them.  The test of the speed, which the
  program leaves out, is not modelled.
\<close>

unbundle bit_operations_syntax

section \<open>The functions under test\<close>

text \<open>\<open>'s\<close> is what the functions of a whole text keep from call to call, \<open>'h\<close> the state of a hash, and \<open>'m\<close> that of a sum.\<close>

record ('s, 'h, 'm) hash_library =
  lib_x86_32 :: "'s \<Rightarrow> c_bytes \<Rightarrow> nat \<Rightarrow> uint4 \<Rightarrow> c_fault + uint4 \<times> 's"
  lib_x86_128 :: "'s \<Rightarrow> c_bytes \<Rightarrow> nat \<Rightarrow> uint4 \<Rightarrow> c_fault + hash_4 \<times> 's"
  lib_x64_128 :: "'s \<Rightarrow> c_bytes \<Rightarrow> nat \<Rightarrow> uint4 \<Rightarrow> c_fault + hash_2 \<times> 's"
  lib_128 :: "c_bytes \<Rightarrow> nat \<Rightarrow> uint4 \<Rightarrow> c_fault + hash_2"
  lib_init :: "uint4 \<Rightarrow> 'h"
  lib_ingest :: "'h \<Rightarrow> c_bytes \<Rightarrow> nat \<Rightarrow> c_fault + 'h"
  lib_result :: "'h \<Rightarrow> uint4 \<Rightarrow> hash_2"
  cvs_MD5Init :: 'm
  cvs_MD5Update :: "'m \<Rightarrow> byte list \<Rightarrow> 'm"
  cvs_MD5Final :: "'m \<Rightarrow> byte list"
  lib_malloc :: "nat \<Rightarrow> nat option"

section \<open>Random bytes\<close>

text \<open>
  \<^verbatim>\<open>DOREADRC\<close> of \<^verbatim>\<open>/dev/urandom\<close>: the bytes that the device will give are a list, and a run that needs more than these is out of fuel.
  \<^verbatim>\<open>/dev/zero\<close> gives zeros.
\<close>

definition DOREADRC :: "nat \<Rightarrow> byte list \<Rightarrow> c_fault + byte list \<times> byte list" where
  "DOREADRC n rnd = (if n \<le> length rnd then Inr (take n rnd, drop n rnd) else Inl Out_of_fuel)"

definition random_size :: "platform \<Rightarrow> int \<Rightarrow> byte list \<Rightarrow> c_fault + 16 word \<times> byte list" where
  "random_size pl sz rnd =
     (if sz > 0 then Inr (word_of_int sz, rnd) else bindE (DOREADRC 2 rnd) (\<lambda>(bs, rnd). Inr (word_in_memory pl bs, rnd)))"

definition random_data :: "int \<Rightarrow> nat \<Rightarrow> byte list \<Rightarrow> c_fault + byte list \<times> byte list" where
  "random_data zfd data_size rnd =
     (if data_size > 0 then if zfd \<noteq> 0 then Inr (replicate data_size 0, rnd) else DOREADRC data_size rnd else Inr ([], rnd))"

definition random_offset :: "int \<Rightarrow> byte list \<Rightarrow> c_fault + byte \<times> byte list" where
  "random_offset align rnd =
     (if align < 0 then bindE (DOREADRC 1 rnd) (\<lambda>(bs, rnd). Inr (hd bs AND 0xf, rnd)) else Inr (word_of_int align, rnd))"

text \<open>\<^verbatim>\<open>malloc\<close> of the database does not return without memory.\<close>

definition allocated :: "('s, 'h, 'm) hash_library \<Rightarrow> nat \<Rightarrow> c_fault + nat" where
  "allocated L n = (case lib_malloc L n of None \<Rightarrow> Inl Null_deref | Some a \<Rightarrow> Inr a)"

text \<open>The two loops that hand over a text in pieces of random length: \<open>f\<close> takes a piece, \<open>i\<close> bytes are done.\<close>

fun increments :: "('a \<Rightarrow> c_bytes \<Rightarrow> nat \<Rightarrow> c_fault + 'a) \<Rightarrow> c_bytes \<Rightarrow> nat \<Rightarrow> nat \<Rightarrow> 'a \<Rightarrow> byte list \<Rightarrow> c_fault + 'a \<times> byte list" where
  "increments f p data_size i s [] = (if i < data_size then Inl Out_of_fuel else Inr (s, []))"
| "increments f p data_size i s (b # rnd) =
     (if i < data_size
      then let inc_size = (if unat b + i > data_size then data_size - i else unat b)
           in bindE (f s (advance i p) inc_size) (\<lambda>s. increments f p data_size (i + inc_size) s rnd)
      else Inr (s, b # rnd))"

definition md5_piece :: "('s, 'h, 'm) hash_library \<Rightarrow> 'm \<Rightarrow> c_bytes \<Rightarrow> nat \<Rightarrow> c_fault + 'm" where
  "md5_piece L m p n = bindE (read_bytes p 0 n) (\<lambda>bs. Inr (cvs_MD5Update L m bs))"

section \<open>One text\<close>

text \<open>The 32-bit hashes, the 128-bit hashes, and the sums, of the text and of its copy; \<open>n\<close> is \<^verbatim>\<open>data_size\<close>.\<close>

definition test_32 :: "('s, 'h, 'm) hash_library \<Rightarrow> c_bytes \<Rightarrow> c_bytes \<Rightarrow> nat \<Rightarrow> 's \<Rightarrow> c_fault + 's" where
  "test_32 L buf ua n s =
     bindE (lib_x86_32 L s buf n 0) (\<lambda>(hashval_32, s).
     bindE (lib_x86_32 L s ua n 0) (\<lambda>(ua_hashval_32, s).
     bindE (c_assert (hashval_32 = ua_hashval_32)) (\<lambda>_. Inr s)))"

definition test_128 :: "('s, 'h, 'm) hash_library \<Rightarrow> c_bytes \<Rightarrow> c_bytes \<Rightarrow> nat \<Rightarrow> 's \<Rightarrow> byte list \<Rightarrow> c_fault + 's \<times> byte list" where
  "test_128 L buf ua n s rnd =
     bindE (lib_x86_128 L s buf n 0) (\<lambda>(hashval_128, s).
     bindE (lib_x64_128 L s buf n 0) (\<lambda>(hashval_128_64, s).
     bindE (lib_128 L buf n 0) (\<lambda>phashval_128.
     bindE (c_assert (fst hashval_128_64 = fst phashval_128 \<and> snd hashval_128_64 = snd phashval_128)) (\<lambda>_.
     bindE (lib_128 L ua n 0) (\<lambda>ua_phashval_128.
     bindE (c_assert (fst hashval_128_64 = fst ua_phashval_128 \<and> snd hashval_128_64 = snd ua_phashval_128)) (\<lambda>_.
     bindE (increments (lib_ingest L) ua n 0 (lib_init L 0) rnd) (\<lambda>(phash_state_128, rnd).
     let inc_phashval_128 = lib_result L phash_state_128 (of_nat n)
     in bindE (c_assert (fst hashval_128_64 = fst inc_phashval_128 \<and> snd hashval_128_64 = snd inc_phashval_128)) (\<lambda>_.
        Inr (s, rnd)))))))))"

definition test_md5 :: "('s, 'h, 'm) hash_library \<Rightarrow> c_bytes \<Rightarrow> c_bytes \<Rightarrow> nat \<Rightarrow> byte list \<Rightarrow> c_fault + byte list" where
  "test_md5 L buf ua n rnd =
     bindE (md5_piece L (cvs_MD5Init L) buf n) (\<lambda>md5_context.
     let md5_digest = cvs_MD5Final L md5_context
     in bindE (md5_piece L (cvs_MD5Init L) ua n) (\<lambda>md5_context.
        let ua_md5_digest = cvs_MD5Final L md5_context
        in bindE (c_assert (md5_digest = ua_md5_digest)) (\<lambda>_.
           bindE (increments (md5_piece L) ua n 0 (cvs_MD5Init L) rnd) (\<lambda>(md5_context, rnd).
           let inc_md5_digest = cvs_MD5Final L md5_context
           in bindE (c_assert (md5_digest = inc_md5_digest)) (\<lambda>_. Inr rnd)))))"

text \<open>The copy is \<open>align_offset\<close> bytes behind an address that \<^verbatim>\<open>malloc\<close> returns.\<close>

definition do_test_equiv :: "platform \<Rightarrow> ('s, 'h, 'm) hash_library \<Rightarrow> int \<Rightarrow> int \<Rightarrow> int \<Rightarrow> 's \<times> byte list \<Rightarrow> c_fault + 's \<times> byte list" where
  "do_test_equiv pl L sz zfd align st =
     (let (s, rnd) = st
      in bindE (random_size pl sz rnd) (\<lambda>(data_size, rnd).
         let n = unat data_size
         in bindE (allocated L n) (\<lambda>a.
            bindE (random_data zfd n rnd) (\<lambda>(bs, rnd).
            bindE (random_offset align rnd) (\<lambda>(align_offset, rnd).
            bindE (allocated L (n + unat align_offset)) (\<lambda>ua.
            let buf = \<lparr>addr = a, bytes = bs\<rparr>; unaligned_buf = \<lparr>addr = ua + unat align_offset, bytes = bs\<rparr>
            in bindE (test_32 L buf unaligned_buf n s) (\<lambda>s.
               bindE (test_128 L buf unaligned_buf n s rnd) (\<lambda>(s, rnd).
               bindE (test_md5 L buf unaligned_buf n rnd) (\<lambda>rnd. Inr (s, rnd))))))))))"

section \<open>The whole program\<close>

text \<open>The hash of a constant text with the NUL behind it; \<open>a\<close> is the address of the array.\<close>

definition stable_hash :: "('s, 'h, 'm) hash_library \<Rightarrow> nat \<Rightarrow> string \<Rightarrow> hash_2 \<Rightarrow> c_fault + unit" where
  "stable_hash L a str expected =
     bindE (lib_128 L \<lparr>addr = a, bytes = map of_char str @ [0]\<rparr> (length str + 1) 0) (\<lambda>phashval_128.
     c_assert (fst phashval_128 = fst expected \<and> snd phashval_128 = snd expected))"

definition do_test_stable :: "('s, 'h, 'm) hash_library \<Rightarrow> nat \<times> nat \<times> nat \<Rightarrow> c_fault + unit" where
  "do_test_stable L arrays =
     (let (hello_str, alpha_str, time_str) = arrays
      in bindE (stable_hash L hello_str ''Hello, World!'' (0xD6E476E733054E07, 0x30934B73EE0B074D)) (\<lambda>_.
         bindE (stable_hash L alpha_str ''The quick brown fox jumped over the lazy dog.'' (0x373706FAB0BA6087, 0xDD19BEC56A029B1F)) (\<lambda>_.
         stable_hash L time_str ''Now is the time for all good men to come to the aid of their country.'' (0xAFDE4FFBBC680965, 0xE60BD830BE06B182))))"

text \<open>The arguments are the descriptors that \<^verbatim>\<open>OPEN\<close> returns, and the addresses of the constant texts; the result is the status of the exit.\<close>

definition hash_main ::
  "platform \<Rightarrow> ('s, 'h, 'm) hash_library \<Rightarrow> int \<Rightarrow> int \<Rightarrow> nat \<times> nat \<times> nat \<Rightarrow> 's \<times> byte list \<Rightarrow> c_fault + int" where
  "hash_main pl L urfd zfd arrays st =
     (if urfd = -1 \<or> zfd = -1 then Inr 1
      else bindE (foldE (\<lambda>st (i, j). do_test_equiv pl L i zfd j st) (List.product [1..128] [0..7]) st) (\<lambda>st.
           bindE (foldE (\<lambda>st (i, j). do_test_equiv pl L i 0 j st) (List.product [1..128] [0..7]) st) (\<lambda>st.
           bindE (foldE (\<lambda>st i. do_test_equiv pl L 0 0 (-1) st) [0..<1024] st) (\<lambda>st.
           bindE (do_test_stable L arrays) (\<lambda>_. Inr 0)))))"

section \<open>The copy of the hash functions\<close>

record hash_statics =
  of_x86_32 :: static_buff
  of_x86_128 :: static_buff
  of_x64_128 :: static_buff

definition copied ::
  "platform \<Rightarrow> (uint4 \<Rightarrow> hash128_state) \<Rightarrow> (nat \<Rightarrow> nat option) \<Rightarrow> 'm \<Rightarrow> ('m \<Rightarrow> byte list \<Rightarrow> 'm) \<Rightarrow> ('m \<Rightarrow> byte list) \<Rightarrow>
   (hash_statics, hash128_state, 'm) hash_library" where
  "copied pl init malloc m0 upd fin =
     \<lparr>lib_x86_32 = \<lambda>s k n seed. bindE (MurmurHash3_x86_32 pl malloc (of_x86_32 s) k n seed) (\<lambda>(h, b). Inr (h, s\<lparr>of_x86_32 := b\<rparr>)),
      lib_x86_128 = \<lambda>s k n seed. bindE (MurmurHash3_x86_128 pl malloc (of_x86_128 s) k n seed) (\<lambda>(h, b). Inr (h, s\<lparr>of_x86_128 := b\<rparr>)),
      lib_x64_128 = \<lambda>s k n seed. bindE (MurmurHash3_x64_128 pl malloc (of_x64_128 s) k n seed) (\<lambda>(h, b). Inr (h, s\<lparr>of_x64_128 := b\<rparr>)),
      lib_128 = ydb_mmrhash_128 pl init, lib_init = init, lib_ingest = ydb_mmrhash_128_ingest pl, lib_result = ydb_mmrhash_128_result pl,
      cvs_MD5Init = m0, cvs_MD5Update = upd, cvs_MD5Final = fin, lib_malloc = malloc\<rparr>"

end
