(* ===== verification/Hash_Test_Rules.thy ===== *)
theory Hash_Test_Rules
  imports Hash_Test Murmur_Edges
begin

text \<open>What the parts of the test program do with the copy of the hash functions.\<close>

unbundle bit_operations_syntax

section \<open>The hash of 32 bits\<close>

text \<open>The hash is a function of the bytes of the key: neither its address nor what the static buffer held matter.\<close>

definition x86_32_val :: "platform \<Rightarrow> uint4 \<Rightarrow> byte list \<Rightarrow> uint4" where
  "x86_32_val pl seed bs =
     (let n = length bs div 4; t = drop (4 * n) bs;
          h = foldl (\<lambda>h i. x86_32_block h (word_in_memory pl (take 4 (drop (4 * i) bs)))) seed [0..<n];
          h = (if t = [] then h else h XOR mix32 0xcc9e2d51 15 0x1b873593 (projr (tail32 t 0 3)))
      in fmix (h XOR of_nat (length bs)))"

lemma foldE_pure: "(\<And>s x. x \<in> set xs \<Longrightarrow> f s x = Inr (g s x)) \<Longrightarrow> foldE f xs s = Inr (foldl g s xs)"
  by (induction xs arbitrary: s) simp_all

lemma x86_32_value:
  assumes "malloc_ok malloc" "buff_ok sb" "len \<le> length (bytes key)" "2 * len < 2 ^ 31"
  shows "\<exists>sb'. MurmurHash3_x86_32 pl malloc sb key len seed = Inr (x86_32_val pl seed (take len (bytes key)), sb') \<and> buff_ok sb'"
proof -
  obtain data sb' where d: "align_key pl malloc 4 sb key len = Inr (data, sb')" "buff_ok sb'" "take len (bytes data) = take len (bytes key)"
    "len \<le> length (bytes data)" "UNALIGNED_ACCESS_SUPPORTED pl \<or> len = 0 \<or> addr data mod 4 = 0"
    using align_key_aligns [OF assms, of 4 pl] by auto
  let ?n = "len div 4" and ?u = "UNALIGNED_ACCESS_SUPPORTED pl" and ?bs = "take len (bytes key)"
  let ?g = "\<lambda>h i. x86_32_block h (word_in_memory pl (take 4 (drop (4 * i) ?bs)))" and ?t = "drop (4 * ?n) ?bs"
  have r: "read_word ?u pl 4 data (4 * i) = Inr (word_in_memory pl (take 4 (drop (4 * i) ?bs)) :: uint4)" if "i < ?n" for i
  proof -
    have "4 * Suc i \<le> 4 * ?n" using that by (intro mult_le_mono2) simp
    then have l: "4 * i + 4 \<le> len" by simp
    then have "take 4 (drop (4 * i) ?bs) = take 4 (drop (4 * i) (bytes data))" using d(3) [symmetric] by (simp add: drop_take)
    moreover have "?u \<or> (addr data + 4 * i) mod 4 = 0" using d(5) that by auto
    ultimately show ?thesis using l d(4) by (auto simp: read_word_def read_bytes_def)
  qed
  have loop: "foldE (\<lambda>h1 i. bindE (read_word ?u pl 4 data (4 * i)) (\<lambda>k1. Inr (x86_32_block h1 k1))) [0..<?n] seed = Inr (foldl ?g seed [0..<?n])"
    by (rule foldE_pure) (simp add: r)
  have "take (len mod 4) (drop (?n * 4) (bytes data)) = drop (4 * ?n) (take len (bytes data))"
    by (simp add: drop_take mult.commute minus_mult_div_eq_mod)
  then have t: "read_bytes data (?n * 4) (len mod 4) = Inr ?t" using d(3,4) by (simp add: read_bytes_def)
  have "\<exists>k. tail32 t 0 3 = Inr k" if "t \<noteq> []" for t using tail32_cases [of 0 t 3] that by simp
  note k = this [of ?t]
  have l: "min (length (bytes key)) len = len" using assms(3) by simp
  show ?thesis
  proof (cases "?t = []")
    case True
    then show ?thesis using d(1,2) loop t l by (simp add: MurmurHash3_x86_32_def x86_32_val_def Let_def)
  next
    case False
    moreover from this have "Suc 0 \<le> length ?t" by (simp del: length_drop length_take add: Suc_le_eq)
    moreover obtain v where "tail32 ?t 0 3 = Inr v" using k False by blast
    ultimately show ?thesis using d(1,2) loop t l unfolding MurmurHash3_x86_32_def x86_32_val_def Let_def
      by (simp del: length_drop drop_eq_Nil)
  qed
qed

section \<open>Pieces of random length\<close>

definition nonzero :: "byte list \<Rightarrow> nat" where
  "nonzero rnd = length (filter (\<lambda>b. b \<noteq> 0) rnd)"

lemma nonzero_simps [simp]: "nonzero [] = 0" "nonzero (b # rnd) = (if b = 0 then nonzero rnd else Suc (nonzero rnd))"
  by (simp_all add: nonzero_def)

text \<open>A byte that is zero makes no progress; every other one takes at least one byte of the text.\<close>

lemma increments_reach:
  assumes step: "\<And>s i k. P i s \<Longrightarrow> i + k \<le> n \<Longrightarrow> \<exists>s'. f s (advance i p) k = Inr s' \<and> P (i + k) s'"
    and "P i s" "i \<le> n"
  shows "(increments f p n i s rnd = Inl Out_of_fuel \<and> nonzero rnd < n - i) \<or>
     (\<exists>s' rnd'. increments f p n i s rnd = Inr (s', rnd') \<and> P n s' \<and> nonzero rnd \<le> nonzero rnd' + (n - i))"
  using assms(2,3)
proof (induction rnd arbitrary: i s)
  case Nil
  then show ?case by (cases "i = n") auto
next
  case (Cons b rnd)
  show ?case
  proof (cases "i < n")
    case True
    let ?k = "if unat b + i > n then n - i else unat b"
    have k: "i + ?k \<le> n" using Cons.prems(2) by auto
    obtain s' where s': "f s (advance i p) ?k = Inr s'" "P (i + ?k) s'" using step [OF Cons.prems(1) k] by blast
    have "b = 0 \<or> unat b > 0" by (simp add: unat_gt_0)
    then have "b = 0 \<or> 1 \<le> ?k" using True by auto
    then have "nonzero (b # rnd) \<le> nonzero rnd + ?k" by (elim disjE) simp_all
    moreover have "n - (i + ?k) + ?k = n - i" using k by simp
    moreover have "increments f p n i s (b # rnd) = increments f p n (i + ?k) s' rnd" using True s'(1) by (simp add: Let_def)
    ultimately show ?thesis using Cons.IH [OF s'(2) k] by (elim disjE exE conjE) (auto simp del: nonzero_simps)
  next
    case False
    then show ?thesis using Cons.prems by auto
  qed
qed

section \<open>The parts of a test\<close>

definition statics_ok :: "hash_statics \<Rightarrow> bool" where
  "statics_ok s \<longleftrightarrow> buff_ok (of_x86_32 s) \<and> buff_ok (of_x86_128 s) \<and> buff_ok (of_x64_128 s)"

text \<open>The documented behaviour of an MD5 sum: it may be given a text in pieces.\<close>

definition md5_ok :: "('m \<Rightarrow> byte list \<Rightarrow> 'm) \<Rightarrow> bool" where
  "md5_ok upd \<longleftrightarrow> (\<forall>m xs ys. upd (upd m xs) ys = upd m (xs @ ys)) \<and> (\<forall>m. upd m [] = m)"

lemma take_advance: "take i (bytes p) @ take k (bytes (advance i p)) = take (i + k) (bytes p)"
  by (simp add: advance_def take_add)

lemma test_32_passes:
  assumes "malloc_ok malloc" "statics_ok s" "bytes ua = bytes buf" "length (bytes buf) = n" "2 * n < 2 ^ 31"
  shows "\<exists>s'. test_32 (copied pl init malloc m0 upd fin) buf ua n s = Inr s' \<and> statics_ok s'"
proof -
  have l: "n \<le> length (bytes buf)" "n \<le> length (bytes ua)" using assms(3,4) by simp_all
  obtain b1 where 1: "MurmurHash3_x86_32 pl malloc (of_x86_32 s) buf n 0 = Inr (x86_32_val pl 0 (bytes buf), b1)" "buff_ok b1"
    using x86_32_value [OF assms(1) _ l(1) assms(5), of "of_x86_32 s" pl 0] assms(2,4) by (auto simp: statics_ok_def)
  obtain b2 where 2: "MurmurHash3_x86_32 pl malloc b1 ua n 0 = Inr (x86_32_val pl 0 (bytes buf), b2)" "buff_ok b2"
    using x86_32_value [OF assms(1) 1(2) l(2) assms(5), of pl 0] assms(3,4) by auto
  show ?thesis using 1 2 assms(2) by (simp add: test_32_def copied_def statics_ok_def)
qed

lemma test_128_cases:
  assumes "coherent pl" "init_ok init" "malloc_ok malloc" "statics_ok s" "bytes ua = bytes buf" "length (bytes buf) = n" "2 * n < 2 ^ 31"
    and r: "r = test_128 (copied pl init malloc m0 upd fin) buf ua n s rnd"
  shows "if top_byte (drop (16 * (n div 16)) (bytes buf)) then r = Inl Int_overflow
     else r = Inl Out_of_fuel \<and> nonzero rnd < n \<or> (\<exists>s' rnd'. r = Inr (s', rnd') \<and> statics_ok s' \<and> nonzero rnd \<le> nonzero rnd' + n)"
proof -
  let ?h = "(ucast (0 :: uint4), ucast (0 :: uint4)) :: hash_2" and ?P = "\<lambda>i st. stands_for pl st (absorb (ucast (0 :: uint4), ucast (0 :: uint4)) (take i (bytes ua)))"
  have l: "n \<le> length (bytes buf)" "n \<le> length (bytes ua)" and t: "take n (bytes buf) = bytes buf" "take n (bytes ua) = bytes buf"
    using assms(5,6) by simp_all
  note x86 = x86_128_shift_overflows [OF assms(3) _ l(1) assms(7), of "of_x86_128 s" pl 0]
  obtain b where x64: "MurmurHash3_x64_128 pl malloc (of_x64_128 s) buf n 0 = Inr (murmur 0 (bytes buf), b)" "buff_ok b"
    using x64_murmur [OF assms(1,3) _ l(1) assms(7), of "of_x64_128 s" 0] assms(4) t by (auto simp: statics_ok_def)
  have p: "ydb_mmrhash_128 pl init buf n 0 = Inr (murmur 0 (bytes buf))" "ydb_mmrhash_128 pl init ua n 0 = Inr (murmur 0 (bytes buf))"
    using mmrhash_128_murmur [OF assms(1,2) l(1) assms(7), of 0] mmrhash_128_murmur [OF assms(1,2) l(2) assms(7), of 0] t by simp_all
  have step: "\<exists>st'. ydb_mmrhash_128_ingest pl st (advance i ua) k = Inr st' \<and> ?P (i + k) st'" if "?P i st" "i + k \<le> n" for st i k
  proof -
    obtain h' r where a: "absorb ?h (take i (bytes ua)) = (h', r)" by fastforce
    have sf: "stands_for pl st (h', r)" using that(1) unfolding a .
    have k: "k \<le> length (bytes (advance i ua))" using that(2) l(2) by (simp add: advance_def)
    obtain st' where st: "ydb_mmrhash_128_ingest pl st (advance i ua) k = Inr st'" "stands_for pl st' (absorb h' (r @ take k (bytes (advance i ua))))"
      using ingest_absorbs [OF assms(1) sf k] by blast
    have "absorb h' (r @ take k (bytes (advance i ua))) = absorb ?h (take (i + k) (bytes ua))"
      using absorb_append [of ?h "take i (bytes ua)"] a by (simp add: take_advance [symmetric])
    then show ?thesis using st by simp
  qed
  have z: "?P 0 (init 0)" using init_stands [OF assms(2), of pl 0] by (simp add: absorb_short)
  have inc: "increments (ydb_mmrhash_128_ingest pl) ua n 0 (init 0) rnd = Inl Out_of_fuel \<and> nonzero rnd < n \<or>
    (\<exists>st rnd'. increments (ydb_mmrhash_128_ingest pl) ua n 0 (init 0) rnd = Inr (st, rnd') \<and> ?P n st \<and> nonzero rnd \<le> nonzero rnd' + n)"
    using increments_reach [where P = ?P and f = "ydb_mmrhash_128_ingest pl", OF step z, where rnd = rnd] by simp
  have res: "?P n st \<Longrightarrow> ydb_mmrhash_128_result pl st (of_nat n) = murmur 0 (bytes buf)" for st
    using result_murmur [OF assms(1), of st 0 "bytes buf"] t assms(6,7) by simp
  show ?thesis
  proof (cases "top_byte (drop (16 * (n div 16)) (bytes buf))")
    case True
    then show ?thesis using x86 assms(4) t unfolding r by (simp add: test_128_def copied_def statics_ok_def)
  next
    case False
    then obtain h sb where "MurmurHash3_x86_128 pl malloc (of_x86_128 s) buf n 0 = Inr (h, sb)" "buff_ok sb"
      using x86 assms(4) t by (auto simp: statics_ok_def)
    then have eq: "r = bindE (increments (ydb_mmrhash_128_ingest pl) ua n 0 (init 0) rnd) (\<lambda>(st, rnd).
      bindE (c_assert (murmur 0 (bytes buf) = ydb_mmrhash_128_result pl st (of_nat n))) (\<lambda>_. Inr (s\<lparr>of_x86_128 := sb, of_x64_128 := b\<rparr>, rnd)))"
      using x64(1) p unfolding r by (simp add: test_128_def copied_def prod_eq_iff Let_def)
    have "statics_ok (s\<lparr>of_x86_128 := sb, of_x64_128 := b\<rparr>)" using assms(4) x64(2) \<open>buff_ok sb\<close> by (simp add: statics_ok_def)
    then show ?thesis using inc res False unfolding eq by auto
  qed
qed

lemma test_md5_cases:
  assumes "md5_ok upd" "bytes ua = bytes buf" "length (bytes buf) = n"
    and r: "r = test_md5 (copied pl init malloc m0 upd fin) buf ua n rnd"
  shows "r = Inl Out_of_fuel \<and> nonzero rnd < n \<or> (\<exists>rnd'. r = Inr rnd' \<and> nonzero rnd \<le> nonzero rnd' + n)"
proof -
  let ?L = "copied pl init malloc m0 upd fin" and ?P = "\<lambda>i m. m = upd m0 (take i (bytes ua))"
  have piece: "md5_piece ?L m p k = Inr (upd m (take k (bytes p)))" if "k \<le> length (bytes p)" for m p k
    using that by (simp add: md5_piece_def read_bytes_def copied_def)
  have step: "\<exists>m'. md5_piece ?L m (advance i ua) k = Inr m' \<and> ?P (i + k) m'" if "?P i m" "i + k \<le> n" for m i k
  proof -
    have "k \<le> length (bytes (advance i ua))" using that(2) assms(2,3) by (simp add: advance_def)
    moreover have "upd m (take k (bytes (advance i ua))) = upd m0 (take (i + k) (bytes ua))"
      using that(1) assms(1) by (simp add: md5_ok_def take_advance [symmetric])
    ultimately show ?thesis by (simp add: piece)
  qed
  have z: "?P 0 m0" using assms(1) by (simp add: md5_ok_def)
  have "increments (md5_piece ?L) ua n 0 m0 rnd = Inl Out_of_fuel \<and> nonzero rnd < n \<or>
    (\<exists>m rnd'. increments (md5_piece ?L) ua n 0 m0 rnd = Inr (m, rnd') \<and> ?P n m \<and> nonzero rnd \<le> nonzero rnd' + n)"
    using increments_reach [where P = ?P and f = "md5_piece ?L", OF step z, where rnd = rnd] by simp
  moreover have "r = bindE (increments (md5_piece ?L) ua n 0 m0 rnd) (\<lambda>(m, rnd). bindE (c_assert (fin (upd m0 (bytes ua)) = fin m)) (\<lambda>_. Inr rnd))"
    using assms(2,3) piece [of n buf] piece [of n ua] unfolding r by (simp add: test_md5_def copied_def Let_def)
  moreover have "take n (bytes ua) = bytes ua" using assms(2,3) by simp
  ultimately show ?thesis by auto
qed

end
