(* ===== verification/Hash_Test_Stable.thy ===== *)
theory Hash_Test_Stable
  imports Hash_Test Murmur_Results
begin

text \<open>The hashes of the three constant texts, computed from the reference.\<close>

unbundle bit_operations_syntax

lemmas murmur_evaluates = murmur_def absorb.simps mm_block_def mm_tail_def x64_128_finish_def fmix64_def mix64_def ROTL64_def
  C1_def C2_def M1_def M2_def

definition stable_bytes :: "string \<Rightarrow> byte list" where
  "stable_bytes str = map of_char str @ [0]"

lemma hello_hash: "murmur 0 (stable_bytes ''Hello, World!'') = (0xD6E476E733054E07, 0x30934B73EE0B074D)"
  by (simp add: stable_bytes_def murmur_evaluates)

lemma alpha_hash: "murmur 0 (stable_bytes ''The quick brown fox jumped over the lazy dog.'') = (0x373706FAB0BA6087, 0xDD19BEC56A029B1F)"
  by (simp add: stable_bytes_def murmur_evaluates)

lemma time_hash: "murmur 0 (stable_bytes ''Now is the time for all good men to come to the aid of their country.'') = (0xAFDE4FFBBC680965, 0xE60BD830BE06B182)"
  by (simp add: stable_bytes_def murmur_evaluates)

end
