(* ===== verification/Hash_Test_Claims.thy ===== *)
theory Hash_Test_Claims
  imports Hash_Test_Rules Hash_Test_Stable
begin

text \<open>The claims about the test program of the hash functions, with the copy of them that is in the repository.\<close>

unbundle bit_operations_syntax

section \<open>One text\<close>

definition hash_test_ok ::
  "platform \<Rightarrow> (uint4 \<Rightarrow> hash128_state) \<Rightarrow> (nat \<Rightarrow> nat option) \<Rightarrow> ('m \<Rightarrow> byte list \<Rightarrow> 'm) \<Rightarrow> bool" where
  "hash_test_ok pl init malloc upd \<longleftrightarrow> coherent pl \<and> init_ok init \<and> malloc_ok malloc \<and> md5_ok upd"

lemma unat_16: "unat (w :: 16 word) < 65536"
  using unsigned_less [of w] by simp

lemma equiv_on:
  assumes ok: "hash_test_ok pl init malloc upd" "statics_ok s"
    and read: "random_size pl sz rnd = Inr (w, rnd1)" "random_data zfd (unat w) rnd1 = Inr (bs, rnd2)" "random_offset align rnd2 = Inr (off, rnd3)"
    and len: "length bs = unat w"
    and r: "r = do_test_equiv pl (copied pl init malloc m0 upd fin) sz zfd align (s, rnd)"
  shows "if top_byte (drop (16 * (unat w div 16)) bs) then r = Inl Int_overflow
     else r = Inl Out_of_fuel \<and> nonzero rnd3 < 2 * unat w \<or>
       (\<exists>s' rnd'. r = Inr (s', rnd') \<and> statics_ok s' \<and> nonzero rnd3 \<le> nonzero rnd' + 2 * unat w)"
proof -
  let ?L = "copied pl init malloc m0 upd fin" and ?n = "unat w"
  from ok(1) have laws: "coherent pl" "init_ok init" "malloc_ok malloc" "md5_ok upd" by (simp_all add: hash_test_ok_def)
  obtain a ua where a: "allocated ?L ?n = Inr a" "allocated ?L (?n + unat off) = Inr ua"
    using laws(3) unfolding allocated_def malloc_ok_def by (auto simp: copied_def) (metis option.simps(5))
  let ?b = "\<lparr>addr = a, bytes = bs\<rparr>" and ?u = "\<lparr>addr = ua + unat off, bytes = bs\<rparr>"
  have n: "2 * ?n < 2 ^ 31" using unat_16 [of w] by simp
  obtain s1 where s1: "test_32 ?L ?b ?u ?n s = Inr s1" "statics_ok s1"
    using test_32_passes [OF laws(3) ok(2), of ?u ?b ?n pl init m0 upd fin] n len by auto
  have eq: "r = bindE (test_128 ?L ?b ?u ?n s1 rnd3) (\<lambda>(s, rnd). bindE (test_md5 ?L ?b ?u ?n rnd) (\<lambda>rnd. Inr (s, rnd)))"
    using a s1(1) read unfolding r by (simp add: do_test_equiv_def Let_def)
  note t128 = test_128_cases [OF laws(1-3) s1(2), of ?u ?b ?n "test_128 ?L ?b ?u ?n s1 rnd3" m0 upd fin rnd3, simplified, OF len n [simplified]]
  show ?thesis
  proof (cases "top_byte (drop (16 * (?n div 16)) bs)")
    case True
    then show ?thesis using t128 unfolding eq by simp
  next
    case False
    then consider "test_128 ?L ?b ?u ?n s1 rnd3 = Inl Out_of_fuel" "nonzero rnd3 < ?n"
      | s' rnd' where "test_128 ?L ?b ?u ?n s1 rnd3 = Inr (s', rnd')" "statics_ok s'" "nonzero rnd3 \<le> nonzero rnd' + ?n"
      using t128 by auto
    then show ?thesis
    proof cases
      case 1
      then show ?thesis using False unfolding eq by simp
    next
      case 2
      then show ?thesis
        using False test_md5_cases [OF laws(4), of ?u ?b ?n "test_md5 ?L ?b ?u ?n rnd'" pl init malloc m0 fin rnd'] len unfolding eq by auto
    qed
  qed
qed

text \<open>What a test leaves of the random bytes is a part of them.\<close>

lemma increments_rest: "increments f p n i s rnd = Inr (s', rnd') \<Longrightarrow> set rnd' \<subseteq> set rnd"
  by (induction f p n i s rnd rule: increments.induct) (auto simp: bindE_eq_Inr Let_def split: if_splits)

lemma equiv_rest:
  assumes "do_test_equiv pl L sz zfd align (s, rnd) = Inr (s', rnd')"
  shows "set rnd' \<subseteq> set rnd"
proof -
  have d: "DOREADRC n r = Inr (x, r') \<Longrightarrow> set r' \<subseteq> set r" for n r x r' by (auto simp: DOREADRC_def set_drop_subset dest: in_set_dropD split: if_splits)
  have 1: "random_size pl sz r = Inr (x, r') \<Longrightarrow> set r' \<subseteq> set r" "random_data zfd n r = Inr (y, r') \<Longrightarrow> set r' \<subseteq> set r"
    "random_offset align r = Inr (z, r') \<Longrightarrow> set r' \<subseteq> set r" for r r' x y z n
    by (auto simp: random_size_def random_data_def random_offset_def bindE_eq_Inr dest!: d split: if_splits)
  have 2: "test_128 L p q n s r = Inr (x, r') \<Longrightarrow> set r' \<subseteq> set r" "test_md5 L p q n r = Inr r' \<Longrightarrow> set r' \<subseteq> set r" for p q n s r r' x
    by (auto simp: test_128_def test_md5_def bindE_eq_Inr Let_def dest!: increments_rest)
  from assms obtain r1 r2 r3 r4 where "set r1 \<subseteq> set rnd" "set r2 \<subseteq> set r1" "set r3 \<subseteq> set r2" "set r4 \<subseteq> set r3" "set rnd' \<subseteq> set r4"
    by (auto simp: do_test_equiv_def bindE_eq_Inr Let_def dest!: 1 2)
  then show ?thesis by blast
qed

text \<open>
  A test passes and uses up at most \<open>c\<close> random bytes that are not zero, or stops where \<^verbatim>\<open>MurmurHash3_x86_128\<close> leaves the type
  \<^verbatim>\<open>int\<close>, which takes a byte of the text with its top bit set.
\<close>

definition passes :: "nat \<Rightarrow> byte list \<Rightarrow> c_fault + hash_statics \<times> byte list \<Rightarrow> bool" where
  "passes c rnd r \<longleftrightarrow> (\<exists>s' rnd'. r = Inr (s', rnd') \<and> statics_ok s' \<and> nonzero rnd \<le> nonzero rnd' + c \<and> set rnd' \<subseteq> set rnd) \<or>
     r = Inl Int_overflow \<and> (\<exists>b \<in> set rnd. 128 \<le> uint b)"

lemma passes_foldE:
  assumes "\<And>x s rnd. x \<in> set xs \<Longrightarrow> statics_ok s \<Longrightarrow> g x \<le> nonzero rnd \<Longrightarrow> passes (g x) rnd (f (s, rnd) x)" "statics_ok s" "sum_list (map g xs) \<le> nonzero rnd"
  shows "passes (sum_list (map g xs)) rnd (foldE f xs (s, rnd))"
  using assms
proof (induction xs arbitrary: s rnd)
  case (Cons x xs)
  from Cons.prems(1) [of x s rnd] Cons.prems(2,3) consider
      s1 rnd1 where "f (s, rnd) x = Inr (s1, rnd1)" "statics_ok s1" "nonzero rnd \<le> nonzero rnd1 + g x" "set rnd1 \<subseteq> set rnd"
    | "f (s, rnd) x = Inl Int_overflow" "\<exists>b \<in> set rnd. 128 \<le> uint b" unfolding passes_def by auto
  then show ?case
  proof cases
    case 1
    have "passes (sum_list (map g xs)) rnd1 (foldE f xs (s1, rnd1))" using Cons.prems(1,3) 1(2,3) by (intro Cons.IH) simp_all
    then show ?thesis using 1 unfolding passes_def by fastforce
  qed (simp add: passes_def)
qed (simp add: passes_def)

lemma passes_bind:
  assumes "passes c rnd m" "\<And>s' rnd'. statics_ok s' \<Longrightarrow> nonzero rnd \<le> nonzero rnd' + c \<Longrightarrow> set rnd' \<subseteq> set rnd \<Longrightarrow>
      P (bindE (Inr (s', rnd')) h)" "\<exists>b \<in> set rnd. 128 \<le> uint b \<Longrightarrow> P (Inl Int_overflow)"
  shows "P (bindE m h)"
  using assms(1) unfolding passes_def
proof (elim disjE exE conjE)
  fix s' rnd' assume m: "m = Inr (s', rnd')" "statics_ok s'" "nonzero rnd \<le> nonzero rnd' + c" "set rnd' \<subseteq> set rnd"
  show ?thesis unfolding m(1) by (rule assms(2) [OF m(2-4)])
next
  assume m: "m = Inl Int_overflow" "\<exists>b \<in> set rnd. 128 \<le> uint b"
  show ?thesis unfolding m(1) bindE_Inl by (rule assms(3) [OF m(2)])
qed

lemma nonzero_drop: "nonzero rnd \<le> nonzero (drop k rnd) + k"
proof (induction k arbitrary: rnd)
  case (Suc k)
  show ?case using Suc [of "tl rnd"] by (cases rnd) simp_all
qed simp

lemma nonzero_length: "nonzero rnd \<le> length rnd"
  by (simp add: nonzero_def)

text \<open>One test: three times the length, or what the greatest length takes.\<close>

definition test_cost :: "int \<Rightarrow> nat" where
  "test_cost sz = (if 0 < sz then 3 * nat sz else 196608)"

lemma equiv_passes:
  assumes ok: "hash_test_ok pl init malloc upd" "statics_ok s" "sz < 2 ^ 16" "0 < sz \<Longrightarrow> 0 \<le> align" "test_cost sz \<le> nonzero rnd"
  shows "passes (test_cost sz) rnd (do_test_equiv pl (copied pl init malloc m0 upd fin) sz zfd align (s, rnd))"
proof -
  let ?r = "do_test_equiv pl (copied pl init malloc m0 upd fin) sz zfd align (s, rnd)" and ?o = "if align < 0 then 1 else 0 :: nat"
  obtain w rnd1 where w: "random_size pl sz rnd = Inr (w, rnd1)" "set rnd1 \<subseteq> set rnd" "nonzero rnd + 3 * unat w + ?o \<le> nonzero rnd1 + test_cost sz"
  proof (cases "0 < sz")
    case True
    then have "take_bit 16 sz = sz" using assms(3) by (intro take_bit_int_eq_self) simp_all
    then have "unat (word_of_int sz :: 16 word) = nat sz" by (simp add: unsigned_of_int)
    then show thesis using True assms(4) by (intro that [of "word_of_int sz" rnd]) (simp_all add: random_size_def test_cost_def)
  next
    case False
    then have "2 \<le> length rnd" using assms(5) nonzero_length [of rnd] by (simp add: test_cost_def)
    then show thesis
      using False unat_16 [of "word_in_memory pl (take 2 rnd)"] nonzero_drop [of rnd 2]
      by (intro that [of "word_in_memory pl (take 2 rnd)" "drop 2 rnd"]) (auto simp: random_size_def DOREADRC_def test_cost_def dest: in_set_dropD)
  qed
  obtain bs rnd2 where d: "random_data zfd (unat w) rnd1 = Inr (bs, rnd2)" "length bs = unat w" "nonzero rnd1 \<le> nonzero rnd2 + unat w" "set rnd2 \<subseteq> set rnd1"
    "\<forall>b \<in> set bs. b = 0 \<or> b \<in> set rnd1"
  proof (cases "zfd = 0 \<and> unat w \<noteq> 0")
    case True
    have "unat w \<le> length rnd1" using w(3) assms(5) nonzero_length [of rnd1] by linarith
    then show thesis
      using True nonzero_drop [of rnd1 "unat w"]
      by (intro that [of "take (unat w) rnd1" "drop (unat w) rnd1"]) (auto simp: random_data_def DOREADRC_def dest: in_set_dropD in_set_takeD)
  next
    case False
    then show thesis by (intro that [of "replicate (unat w) 0" rnd1]) (auto simp: random_data_def)
  qed
  obtain off rnd3 where off: "random_offset align rnd2 = Inr (off, rnd3)" "nonzero rnd2 \<le> nonzero rnd3 + ?o"
  proof (cases "align < 0")
    case True
    have "1 \<le> length rnd2" using True w(3) d(3) assms(5) nonzero_length [of rnd2] by simp
    then show thesis using True nonzero_drop [of rnd2 1] by (intro that) (simp_all add: random_offset_def DOREADRC_def)
  qed (use that in \<open>simp add: random_offset_def\<close>)
  have e: "if top_byte (drop (16 * (unat w div 16)) bs) then ?r = Inl Int_overflow
     else ?r = Inl Out_of_fuel \<and> nonzero rnd3 < 2 * unat w \<or>
       (\<exists>s' rnd'. ?r = Inr (s', rnd') \<and> statics_ok s' \<and> nonzero rnd3 \<le> nonzero rnd' + 2 * unat w)"
    by (rule equiv_on [OF assms(1,2) w(1) d(1) off(1) d(2) refl])
  show ?thesis
  proof (cases "top_byte (drop (16 * (unat w div 16)) bs)")
    case True
    then obtain j where "j < length (drop (16 * (unat w div 16)) bs)" "128 \<le> uint (drop (16 * (unat w div 16)) bs ! j)" unfolding top_byte_def by blast
    then obtain b where b: "b \<in> set bs" "128 \<le> uint b" by (meson in_set_dropD nth_mem)
    then have "b \<in> set rnd" using d(5) w(2) by auto
    then show ?thesis using e True b(2) unfolding passes_def by auto
  next
    case False
    have n: "2 * unat w \<le> nonzero rnd3" "nonzero rnd + 2 * unat w \<le> nonzero rnd3 + test_cost sz" using w(3) d(3) off(2) assms(5) by linarith+
    then obtain s' rnd' where r: "?r = Inr (s', rnd')" "statics_ok s'" "nonzero rnd3 \<le> nonzero rnd' + 2 * unat w" using e False by auto
    then show ?thesis using equiv_rest [OF r(1)] n(2) unfolding passes_def by auto
  qed
qed

section \<open>Texts of zeros\<close>

lemma equiv_zeros:
  assumes "hash_test_ok pl init malloc upd" "statics_ok s" "0 < sz" "sz < 2 ^ 16" "zfd \<noteq> 0" "0 \<le> align" "2 * nat sz \<le> nonzero rnd"
  shows "\<exists>s' rnd'. do_test_equiv pl (copied pl init malloc m0 upd fin) sz zfd align (s, rnd) = Inr (s', rnd') \<and> statics_ok s' \<and>
     nonzero rnd \<le> nonzero rnd' + 2 * nat sz"
proof -
  let ?w = "word_of_int sz :: 16 word" and ?r = "do_test_equiv pl (copied pl init malloc m0 upd fin) sz zfd align (s, rnd)"
  have "take_bit 16 sz = sz" using assms(3,4) by (intro take_bit_int_eq_self) simp_all
  then have w: "unat ?w = nat sz" by (simp add: unsigned_of_int)
  have "random_size pl sz rnd = Inr (?w, rnd)" "random_data zfd (unat ?w) rnd = Inr (replicate (unat ?w) 0, rnd)"
    "random_offset align rnd = Inr (word_of_int align, rnd)"
    using assms(3,5,6) w by (simp_all add: random_size_def random_data_def random_offset_def)
  note e = equiv_on [OF assms(1,2) this _ refl, of m0 fin]
  have "\<not> top_byte (drop k (replicate n 0))" for k n by (auto simp: top_byte_def)
  then show ?thesis using e assms(7) w by simp
qed

definition all_sizes :: "(int \<times> int) list" where
  "all_sizes = List.product [1..128] [0..7]"

lemma sum_product: "sum_list (map (\<lambda>(i, j). g i) (List.product xs ys)) = length ys * sum_list (map g xs)" for g :: "'a \<Rightarrow> nat"
proof (induction xs)
  case (Cons x xs)
  have "sum_list (map (\<lambda>(i, j). g i) (map (Pair x) ys)) = length ys * g x" for ys :: "'b list" by (induction ys) simp_all
  then show ?case using Cons by (simp add: distrib_left)
qed simp

lemma sum_to: "sum_list (map (\<lambda>i. 2 * nat i) [1..int n]) = n * (n + 1)"
proof (induction n)
  case (Suc n)
  have "[1..int (Suc n)] = [1..int n] @ [int (Suc n)]" by (subst upto_rec2) simp_all
  then show ?case using Suc by simp
qed simp

lemma zeros_loop:
  assumes "hash_test_ok pl init malloc upd" "statics_ok s" "zfd \<noteq> 0"
    "\<forall>(i, j) \<in> set xs. 0 < i \<and> i < 2 ^ 16 \<and> 0 \<le> j" "sum_list (map (\<lambda>(i, j). 2 * nat i) xs) \<le> nonzero rnd"
  shows "\<exists>s' rnd'. foldE (\<lambda>st (i, j). do_test_equiv pl (copied pl init malloc m0 upd fin) i zfd j st) xs (s, rnd) = Inr (s', rnd') \<and> statics_ok s'"
  using assms(2,4,5)
proof (induction xs arbitrary: s rnd)
  case (Cons x xs)
  obtain i j where x: "x = (i, j)" by fastforce
  obtain s1 rnd1 where 1: "do_test_equiv pl (copied pl init malloc m0 upd fin) i zfd j (s, rnd) = Inr (s1, rnd1)" "statics_ok s1"
    "nonzero rnd \<le> nonzero rnd1 + 2 * nat i"
    using equiv_zeros [OF assms(1) Cons.prems(1) _ _ assms(3), of i j rnd m0 fin] Cons.prems(2,3) x by auto
  then show ?case using Cons.IH [OF 1(2), of rnd1] Cons.prems(2,3) x by simp
qed simp

text \<open>C8. The first part of the test program ends with success: every length from 1 to 128 at every offset below eight, with zeros for the text.
  Random bytes only decide how the text is cut into pieces, and a byte that is zero cuts an empty piece; twice the sum of the lengths of
  bytes that are not zero is enough.\<close>

theorem zero_texts_pass:
  assumes "hash_test_ok pl init malloc upd" "statics_ok s" "zfd \<noteq> 0" "132096 \<le> nonzero rnd"
  shows "\<exists>s' rnd'. foldE (\<lambda>st (i, j). do_test_equiv pl (copied pl init malloc m0 upd fin) i zfd j st) all_sizes (s, rnd) = Inr (s', rnd') \<and> statics_ok s'"
proof (rule zeros_loop [OF assms(1-3)])
  show "\<forall>(i, j) \<in> set all_sizes. 0 < i \<and> i < 2 ^ 16 \<and> 0 \<le> j" by (auto simp: all_sizes_def)
  have "sum_list (map (\<lambda>i. 2 * nat i) [1..128]) = 16512" using sum_to [of 128] by simp
  then have "sum_list (map (\<lambda>(i, j). 2 * nat i) all_sizes) = 132096" by (simp add: all_sizes_def sum_product)
  then show "sum_list (map (\<lambda>(i, j). 2 * nat i) all_sizes) \<le> nonzero rnd" using assms(4) by simp
qed

lemma nonzero_replicate: "b \<noteq> 0 \<Longrightarrow> nonzero (replicate n b) = n"
  by (simp add: nonzero_def)

text \<open>Sums that are the text itself may be taken in pieces.\<close>

definition no_statics :: hash_statics where
  "no_statics = \<lparr>of_x86_32 = no_buff, of_x86_128 = no_buff, of_x64_128 = no_buff\<rparr>"

lemma hash_test_instance: "hash_test_ok (big_strict False) zero_state some_malloc (@)" "statics_ok no_statics"
  using instances by (simp_all add: hash_test_ok_def md5_ok_def statics_ok_def no_statics_def)

theorem zero_texts_pass_witness:
  "\<exists>s' rnd'. foldE (\<lambda>st (i, j). do_test_equiv (big_strict False) (copied (big_strict False) zero_state some_malloc [] (@) id) i 4 j st) all_sizes
     (no_statics, replicate 132096 7) = Inr (s', rnd') \<and> statics_ok s'"
  by (rule zero_texts_pass [OF hash_test_instance]) (simp_all add: nonzero_replicate)

section \<open>The whole program\<close>

lemma stable_passes:
  assumes "coherent pl" "init_ok init"
  shows "do_test_stable (copied pl init malloc m0 upd fin) arrays = Inr ()"
proof -
  have h: "stable_hash (copied pl init malloc m0 upd fin) a str expected = Inr ()"
    if "length str < 1000" "murmur 0 (stable_bytes str) = expected" for a str expected
    using mmrhash_128_murmur [OF assms, of "length str + 1" "\<lparr>addr = a, bytes = map of_char str @ [0]\<rparr>" 0] that
    by (simp add: stable_hash_def copied_def stable_bytes_def)
  obtain a b c where "arrays = (a, b, c)" by (cases arrays)
  then show ?thesis using h [OF _ hello_hash] h [OF _ alpha_hash] h [OF _ time_hash] by (simp add: do_test_stable_def)
qed

lemma all_sizes_cost: "sum_list (map (\<lambda>(i, j). test_cost i) all_sizes) = 198144"
proof -
  have "(\<Sum>i\<leftarrow>[1..128]. 2 * nat i) = 16512" using sum_to [of 128] by simp
  moreover have "2 * (\<Sum>i\<leftarrow>xs. test_cost i) = 3 * (\<Sum>i\<leftarrow>xs. 2 * nat i)" if "\<forall>i \<in> set xs. 0 < i" for xs
    using that by (induction xs) (simp_all add: test_cost_def)
  then have "2 * (\<Sum>i\<leftarrow>[1..128]. test_cost i) = 3 * (\<Sum>i\<leftarrow>[1..128]. 2 * nat i)" by simp
  ultimately show ?thesis by (simp add: all_sizes_def sum_product)
qed

lemma all_sizes_pass:
  assumes "hash_test_ok pl init malloc upd" "statics_ok s" "198144 \<le> nonzero rnd"
  shows "passes 198144 rnd (foldE (\<lambda>st (i, j). do_test_equiv pl (copied pl init malloc m0 upd fin) i z j st) all_sizes (s, rnd))"
  unfolding all_sizes_cost [symmetric]
proof (rule passes_foldE [OF _ assms(2)])
  fix x s rnd assume x: "x \<in> set all_sizes" "statics_ok s" "(case x of (i, j) \<Rightarrow> test_cost i) \<le> nonzero rnd"
  obtain i j where p: "x = (i, j)" by fastforce
  with x have "i < 2 ^ 16" "0 \<le> j" by (simp_all add: all_sizes_def)
  then show "passes (case x of (i, j) \<Rightarrow> test_cost i) rnd (case x of (i, j) \<Rightarrow> do_test_equiv pl (copied pl init malloc m0 upd fin) i z j (s, rnd))"
    using equiv_passes [OF assms(1) x(2), of i j rnd m0 fin z] x(3) unfolding p by simp
qed (use assms(3) all_sizes_cost in simp)

lemma random_sizes_pass:
  assumes "hash_test_ok pl init malloc upd" "statics_ok s" "201326592 \<le> nonzero rnd"
  shows "passes 201326592 rnd (foldE (\<lambda>st i. do_test_equiv pl (copied pl init malloc m0 upd fin) 0 0 (-1) st) [0..<1024] (s, rnd))"
proof -
  have z: "sum_list (map (\<lambda>i. test_cost 0) [0..<1024]) = 201326592" by (simp add: test_cost_def map_replicate_const sum_list_replicate)
  show ?thesis
    unfolding z [symmetric] by (rule passes_foldE [OF equiv_passes [OF assms(1)] assms(2)]) (use assms(3) z in simp_all)
qed

text \<open>C7. With the copy of the hash functions no assertion of the test program fails, whatever the random sizes, texts, offsets and pieces
  are, and the hashes of the constant texts are those that the program expects: a run with both devices exits with status 0.  It takes at most
  201722880 random bytes that are not zero, three for each byte of a text.  Only with random bytes whose top bit is set it may
  stop earlier, where \<^verbatim>\<open>MurmurHash3_x86_128\<close> leaves the type \<^verbatim>\<open>int\<close>.  Without one of the devices the status is 1.\<close>

theorem hash_test_passes:
  assumes ok: "hash_test_ok pl init malloc upd" "statics_ok s" and enough: "201722880 \<le> nonzero rnd"
    and r: "r = hash_main pl (copied pl init malloc m0 upd fin) urfd zfd arrays (s, rnd)"
  shows "if urfd = -1 \<or> zfd = -1 then r = Inr 1 else r = Inr 0 \<or> r = Inl Int_overflow \<and> (\<exists>b \<in> set rnd. 128 \<le> uint b)"
proof (cases "urfd = -1 \<or> zfd = -1")
  case False
  let ?L = "copied pl init malloc m0 upd fin" and ?P = "\<lambda>r. r = Inr 0 \<or> r = Inl Int_overflow \<and> (\<exists>b \<in> set rnd. 128 \<le> uint b)"
  have stable: "do_test_stable ?L arrays = Inr ()" using ok(1) by (intro stable_passes) (simp_all add: hash_test_ok_def)
  note sizes = all_sizes_pass [OF ok(1)] and randoms = random_sizes_pass [OF ok(1)]
  have "?P r"
    unfolding r hash_main_def if_not_P [OF False] stable bindE_Inr all_sizes_def [symmetric]
  proof (rule passes_bind [OF sizes [OF ok(2)]])
    fix s1 rnd1 assume 1: "statics_ok s1" "nonzero rnd \<le> nonzero rnd1 + 198144" "set rnd1 \<subseteq> set rnd"
    show "?P (bindE (Inr (s1, rnd1)) (\<lambda>st. bindE (foldE (\<lambda>st (i, j). do_test_equiv pl ?L i 0 j st) all_sizes st) (\<lambda>st.
           bindE (foldE (\<lambda>st i. do_test_equiv pl ?L 0 0 (-1) st) [0..<1024] st) (\<lambda>st. Inr 0))))"
      unfolding bindE_Inr
    proof (rule passes_bind [OF sizes [OF 1(1)]])
      fix s2 rnd2 assume 2: "statics_ok s2" "nonzero rnd1 \<le> nonzero rnd2 + 198144" "set rnd2 \<subseteq> set rnd1"
      show "?P (bindE (Inr (s2, rnd2)) (\<lambda>st. bindE (foldE (\<lambda>st i. do_test_equiv pl ?L 0 0 (-1) st) [0..<1024] st) (\<lambda>st. Inr 0)))"
        unfolding bindE_Inr
        by (rule passes_bind [OF randoms [OF 2(1)]]) (use enough 1(2,3) 2(2,3) in auto)
    qed (use enough 1(2,3) in auto)
  qed (use enough in auto)
  then show ?thesis using False by simp
qed (simp add: r hash_main_def)

theorem hash_test_passes_witness:
  "hash_main x86_64 (copied x86_64 zero_state some_malloc [] (@) id) (-1) 4 (0, 20, 71) (no_statics, replicate 201722880 7) = Inr 1 \<and>
   hash_main x86_64 (copied x86_64 zero_state some_malloc [] (@) id) 3 4 (0, 20, 71) (no_statics, replicate 201722880 7) = Inr 0"
proof -
  have ok: "hash_test_ok x86_64 zero_state some_malloc ((@) :: byte list \<Rightarrow> byte list \<Rightarrow> byte list)"
    using instances by (simp add: hash_test_ok_def md5_ok_def)
  have n: "201722880 \<le> nonzero (replicate 201722880 7)" by (simp add: nonzero_replicate)
  show ?thesis
    using hash_test_passes [OF ok hash_test_instance(2) n refl, where ?m0.0 = "[]" and fin = id and urfd = "-1" and zfd = 4 and arrays = "(0, 20, 71)"]
      hash_test_passes [OF ok hash_test_instance(2) n refl, where ?m0.0 = "[]" and fin = id and urfd = 3 and zfd = 4 and arrays = "(0, 20, 71)"] by simp
qed

section \<open>What the test does not see\<close>

text \<open>The hash of \<^verbatim>\<open>MurmurHash3_x86_128\<close> is computed and printed, and never compared: two functions that return answer any test alike, whatever
  they return.\<close>

lemma x86_128_elsewhere:
  "test_32 (L\<lparr>lib_x86_128 := f\<rparr>) = test_32 L" "test_md5 (L\<lparr>lib_x86_128 := f\<rparr>) = test_md5 L" "allocated (L\<lparr>lib_x86_128 := f\<rparr>) = allocated L"
proof -
  have "md5_piece (L\<lparr>lib_x86_128 := f\<rparr>) = md5_piece L" by (simp add: md5_piece_def fun_eq_iff)
  then show "test_md5 (L\<lparr>lib_x86_128 := f\<rparr>) = test_md5 L" by (intro ext) (simp add: test_md5_def)
qed (simp_all add: test_32_def allocated_def fun_eq_iff)

theorem x86_128_value_unused:
  "do_test_equiv pl (L\<lparr>lib_x86_128 := \<lambda>s k n seed. Inr (g s k n seed, s)\<rparr>) sz zfd align st =
   do_test_equiv pl (L\<lparr>lib_x86_128 := \<lambda>s k n seed. Inr (g' s k n seed, s)\<rparr>) sz zfd align st"
  by (simp add: do_test_equiv_def x86_128_elsewhere test_128_def)

end
