(* ===== verification/Random_Walk.thy ===== *)
theory Random_Walk
  imports Prog Complex_Main
begin

text \<open>
  The workload \<^verbatim>\<open>simpleapi/inref/randomWalk.c\<close>: calls of the database that are chosen at random, in transactions that nest at random.
  The random numbers, the database and the system are functions of a world; the lines of the log and the complaints about
  unexpected answers are recorded in the order in which they are written.
\<close>

section \<open>The calls\<close>

datatype event = Log string | Unexpected string int | Wrong string

text \<open>The program's own state: the world, \<^verbatim>\<open>settings.nestedTpRate\<close>, and what has been written.\<close>

record 'w walk_state =
  wk_world :: 'w
  wk_rate :: rat
  wk_events :: "event list"

text \<open>
  Status codes, then the calls; a number before the world is the size of the buffer for the answer.  \<open>wa_node\<close> and \<open>wa_sub\<close> go
  to the next node or subscript where their first argument is true, and to the previous one otherwise.
\<close>

record 'w walk_api =
  wa_ok :: int
  wa_restart :: int
  wa_gvundef :: int
  wa_invsvn :: int
  wa_lvundef :: int
  wa_nodeend :: int
  wa_tplock :: int
  wa_invydbexit :: int
  wa_rand_max :: nat
  wa_rand :: "'w \<Rightarrow> nat \<times> 'w"
  wa_getpid :: "'w \<Rightarrow> int \<times> 'w"
  wa_set :: "string \<Rightarrow> string list \<Rightarrow> string \<Rightarrow> 'w \<Rightarrow> int \<times> 'w"
  wa_get :: "string \<Rightarrow> string list \<Rightarrow> nat \<Rightarrow> 'w \<Rightarrow> (int \<times> string) \<times> 'w"
  wa_data :: "string \<Rightarrow> string list \<Rightarrow> 'w \<Rightarrow> (int \<times> nat) \<times> 'w"
  wa_node :: "bool \<Rightarrow> string \<Rightarrow> string list \<Rightarrow> nat \<Rightarrow> nat \<Rightarrow> 'w \<Rightarrow> (int \<times> string list) \<times> 'w"
  wa_sub :: "bool \<Rightarrow> string \<Rightarrow> string list \<Rightarrow> nat \<Rightarrow> 'w \<Rightarrow> (int \<times> string) \<times> 'w"
  wa_incr :: "string \<Rightarrow> string list \<Rightarrow> string \<Rightarrow> nat \<Rightarrow> 'w \<Rightarrow> (int \<times> string) \<times> 'w"
  wa_lock :: "string list \<Rightarrow> 'w \<Rightarrow> int \<times> 'w"
  wa_lock_incr :: "string \<Rightarrow> 'w \<Rightarrow> int \<times> 'w"
  wa_lock_decr :: "string \<Rightarrow> 'w \<Rightarrow> int \<times> 'w"
  wa_str2zwr :: "string \<Rightarrow> nat \<Rightarrow> 'w \<Rightarrow> (int \<times> string) \<times> 'w"
  wa_zwr2str :: "string \<Rightarrow> nat \<Rightarrow> 'w \<Rightarrow> (int \<times> string) \<times> 'w"
  wa_exit :: "'w \<Rightarrow> int \<times> 'w"
  wa_init :: "'w \<Rightarrow> int \<times> 'w"
  wa_message :: "int \<Rightarrow> nat \<Rightarrow> 'w \<Rightarrow> (int \<times> string) \<times> 'w"
  wa_zstatus :: "'w \<Rightarrow> unit \<times> 'w"
  wa_delete_tree :: "string \<Rightarrow> string list \<Rightarrow> 'w \<Rightarrow> int \<times> 'w"
  wa_delete_node :: "string \<Rightarrow> string list \<Rightarrow> 'w \<Rightarrow> int \<times> 'w"
  wa_delete_excl :: "string list \<Rightarrow> 'w \<Rightarrow> int \<times> 'w"
  wa_tp :: "string \<Rightarrow> ('w walk_state \<Rightarrow> c_fault + int \<times> 'w walk_state) \<Rightarrow> 'w walk_state \<Rightarrow> c_fault + int \<times> 'w walk_state"

type_synonym ('w, 'a) walk_prog = "('w walk_state, 'a) prog"

definition callW :: "('w \<Rightarrow> 'a \<times> 'w) \<Rightarrow> ('w, 'a) walk_prog" where
  "callW f = callP (\<lambda>st. (fst (f (wk_world st)), st\<lparr>wk_world := snd (f (wk_world st))\<rparr>))"

definition emit :: "event \<Rightarrow> ('w, unit) walk_prog" where
  "emit e = callP (\<lambda>st. ((), st\<lparr>wk_events := wk_events st @ [e]\<rparr>))"

text \<open>A complaint reads the text of the status first.\<close>

definition complain :: "'w walk_api \<Rightarrow> string \<Rightarrow> int \<Rightarrow> ('w, unit) walk_prog" where
  "complain A call s = thenP (callW (wa_zstatus A)) (emit (Unexpected call s))"

text \<open>The switch over the statuses after a call: some become \<^verbatim>\<open>YDB_OK\<close>, the request for a restart stays, and the others are reported.\<close>

definition tolerate :: "'w walk_api \<Rightarrow> int list \<Rightarrow> string \<Rightarrow> int \<Rightarrow> ('w, int) walk_prog" where
  "tolerate A accepted call s =
     (if s = wa_ok A then retP s else if s \<in> set accepted then retP (wa_ok A) else if s = wa_restart A then retP s
      else thenP (complain A call s) (retP s))"

definition undefs :: "'w walk_api \<Rightarrow> int list" where
  "undefs A = [wa_gvundef A, wa_invsvn A, wa_lvundef A]"

section \<open>Names\<close>

text \<open>
  \<^verbatim>\<open>strArr\<close>: five pointers into one buffer, then the length.  The structure has six cells of eight bytes, the last one with the
  length in its lower half; \<open>raw\<close> is the buffer of 32 bytes.
\<close>

datatype sa_cell = Ptr nat | Len int | Unset

record strArr =
  sa_raw :: string
  sa_cells :: "sa_cell list"

definition NUL :: char where
  "NUL = CHR 0x00"

definition arr_ptr :: "strArr \<Rightarrow> nat \<Rightarrow> c_fault + nat" where
  "arr_ptr t i = bindE (load (sa_cells t) i) (\<lambda>c. case c of Ptr p \<Rightarrow> Inr p | Len n \<Rightarrow> Inl Read_oob | Unset \<Rightarrow> Inl Read_oob)"

definition arr_length :: "strArr \<Rightarrow> c_fault + int" where
  "arr_length t = bindE (load (sa_cells t) 5) (\<lambda>c. case c of Len n \<Rightarrow> Inr n | Ptr p \<Rightarrow> Inl Read_oob | Unset \<Rightarrow> Inl Read_oob)"

definition set_length :: "strArr \<Rightarrow> int \<Rightarrow> strArr" where
  "set_length t n = t\<lparr>sa_cells := (sa_cells t)[5 := Len n]\<rparr>"

text \<open>The string at \<^verbatim>\<open>arr[i]\<close>, and \<^verbatim>\<open>strcpy\<close> to it.\<close>

definition arr_get :: "strArr \<Rightarrow> nat \<Rightarrow> c_fault + string" where
  "arr_get t i =
     bindE (arr_ptr t i) (\<lambda>p. let s = takeWhile (\<lambda>c. c \<noteq> NUL) (drop p (sa_raw t)) in if p + length s < length (sa_raw t) then Inr s else Inl Read_oob)"

definition arr_put :: "strArr \<Rightarrow> nat \<Rightarrow> string \<Rightarrow> c_fault + strArr" where
  "arr_put t i s =
     bindE (arr_ptr t i) (\<lambda>p.
     if p + length s < length (sa_raw t) then Inr (t\<lparr>sa_raw := take p (sa_raw t) @ s @ NUL # drop (p + length s + 1) (sa_raw t)\<rparr>)
     else Inl Write_oob)"

definition base_names :: "string list" where
  "base_names = [''^MyGlobal1'', ''^MyGlobal2'', ''MyLocal1xx'', ''MyLocal2xx'']"

definition BASE_LEN :: nat where
  "BASE_LEN = 11"

definition SUB_LEN :: nat where
  "SUB_LEN = 5"

primrec put_subs :: "nat \<Rightarrow> strArr \<Rightarrow> c_fault + strArr" where
  "put_subs 0 t = Inr t"
| "put_subs (Suc i) t = bindE (put_subs i t) (\<lambda>t. arr_put t (i + 1) (''sub'' @ dec_of_nat i))"

text \<open>The pointers that the loop stores are one more than the array holds; the last one lands where the length is, which is then set.\<close>

definition arr_new :: "string \<Rightarrow> c_fault + strArr" where
  "arr_new junk =
     foldl (\<lambda>m i. bindE m (\<lambda>t. bindE (store (sa_cells t) (i + 1) (Ptr (BASE_LEN + i * SUB_LEN))) (\<lambda>cs. Inr (t\<lparr>sa_cells := cs\<rparr>))))
       (Inr \<lparr>sa_raw = junk, sa_cells = (replicate 6 Unset)[0 := Ptr 0]\<rparr>) [0..<5]"

definition name_at :: "string \<Rightarrow> nat \<Rightarrow> nat \<Rightarrow> c_fault + strArr" where
  "name_at junk num_subs baseId =
     bindE (arr_new junk) (\<lambda>t. let t = set_length t 0
     in bindE (arr_put t 0 (base_names ! baseId)) (\<lambda>t. bindE (put_subs num_subs t) (\<lambda>t. Inr (set_length t (int num_subs + 1)))))"

definition randW :: "'w walk_api \<Rightarrow> ('w, nat) walk_prog" where
  "randW A = callW (wa_rand A)"

definition genGlobalName :: "'w walk_api \<Rightarrow> string \<Rightarrow> ('w, strArr) walk_prog" where
  "genGlobalName A junk = bindP (randW A) (\<lambda>r. bindP (randW A) (\<lambda>r'. liftP (name_at junk (r mod 5) (r' mod 4))))"

definition logprint :: "string \<Rightarrow> strArr \<Rightarrow> string \<Rightarrow> ('w, unit) walk_prog" where
  "logprint prefix var suffix =
     bindP (liftP (arr_length var)) (\<lambda>len. bindP (liftP (arr_get var 0)) (\<lambda>base.
     let strs = \<lambda>is. foldr (\<lambda>i m. bindE (arr_get var i) (\<lambda>s. bindE m (\<lambda>ss. Inr (s # ss)))) is (Inr [])
     in bindP (liftP (strs [1..<nat (len - 1)])) (\<lambda>subs. bindP (liftP (if len > 1 then strs [nat (len - 1)] else Inr [])) (\<lambda>last_sub.
        emit (Log ('' '' @ prefix @ (if len > 1 then base @ ''('' else base) @ concat (map (\<lambda>s. ''\"'' @ s @ ''\",'') subs) @
          concat (map (\<lambda>s. ''\"'' @ s @ ''\")'') last_sub) @ suffix))))))"

section \<open>The odds\<close>

text \<open>Rounding to \<open>p\<close> binary digits, ties to even, of numbers between 0 and \<open>2 ^ p\<close>.\<close>

definition nearest :: "rat \<Rightarrow> int" where
  "nearest q = (let f = \<lfloor>q\<rfloor>; d = q - of_int f in if d < 1 / 2 then f else if d > 1 / 2 then f + 1 else if even f then f else f + 1)"

primrec round_to :: "nat \<Rightarrow> nat \<Rightarrow> rat \<Rightarrow> rat" where
  "round_to 0 p q = q"
| "round_to (Suc n) p q = (if q \<ge> 2 ^ (p - 1) then of_int (nearest q) else round_to n p (2 * q) / 2)"

definition single :: "rat \<Rightarrow> rat" where
  "single q = round_to 80 24 q"

definition double :: "rat \<Rightarrow> rat" where
  "double q = round_to 120 53 q"

text \<open>\<^verbatim>\<open>int remainingOdds = 80 - (100 * settings->nestedTpRate)\<close>, with the rate of at most 1.\<close>

definition remaining_odds :: "rat \<Rightarrow> int" where
  "remaining_odds rate = \<lfloor>double (80 - double (100 * rate))\<rfloor>"

text \<open>\<^verbatim>\<open>action < 20 + remainingOdds * (k / 15.0f)\<close> is computed in single precision.\<close>

definition chosen :: "int \<Rightarrow> nat \<Rightarrow> nat \<Rightarrow> bool" where
  "chosen odds k action \<longleftrightarrow> of_nat action < single (20 + single (of_int odds * single (of_nat k / 15)))"

text \<open>\<^verbatim>\<open>TP_NEST_RATE = (float) (RAND_INT(0,20)) / 100\<close>\<close>

definition TP_NEST_RATE :: "nat \<Rightarrow> rat" where
  "TP_NEST_RATE n = single (of_nat n / 100)"

section \<open>The loops over nodes and subscripts\<close>

text \<open>\<^verbatim>\<open>b.buf_addr[b.len_used] = '\0'\<close> and then the string at \<^verbatim>\<open>b.buf_addr\<close>; \<open>n\<close> is the size of the buffer.\<close>

definition terminated :: "nat \<Rightarrow> string \<Rightarrow> c_fault + string" where
  "terminated n v = (if length v < n then Inr (takeWhile (\<lambda>c. c \<noteq> NUL) v) else Inl Write_oob)"

fun take_subs :: "nat \<Rightarrow> string list \<Rightarrow> strArr \<Rightarrow> c_fault + strArr" where
  "take_subs i [] t = Inr t"
| "take_subs i (s # ss) t =
     (if i < 4 then bindE (terminated SUB_LEN s) (\<lambda>s. bindE (arr_put t (i + 1) s) (take_subs (i + 1) ss)) else Inl Read_oob)"

definition direction :: "'w walk_api \<Rightarrow> ('w, bool) walk_prog" where
  "direction A = bindP (randW A) (\<lambda>r. retP (r < wa_rand_max A div 2))"

text \<open>After a node \<^verbatim>\<open>t.length\<close> is the number of subscripts, where it was one more before; the log lacks the last one from then on.\<close>

primrec query_loop :: "'w walk_api \<Rightarrow> nat \<Rightarrow> bool \<Rightarrow> string \<Rightarrow> string list \<Rightarrow> strArr \<Rightarrow> ('w, int \<times> strArr) walk_prog" where
  "query_loop A 0 fwd base subs t = liftP (Inl Out_of_fuel)"
| "query_loop A (Suc n) fwd base subs t =
     thenP (logprint ''set x=$query('' t (if fwd then '',1)'' else '',-1)''))
     (bindP (callW (wa_node A fwd base subs 4 SUB_LEN)) (\<lambda>(s, subs).
      if s = wa_ok A
      then bindP (liftP (take_subs 0 subs t)) (\<lambda>t. query_loop A n fwd base subs (set_length t (int (length subs))))
      else retP (s, t)))"

text \<open>The name or the last subscript is replaced by its neighbour; a copy that does not fit leaves the buffer as it is and fails the assertion
  after the terminating NUL.\<close>

primrec order_loop :: "'w walk_api \<Rightarrow> nat \<Rightarrow> bool \<Rightarrow> string \<Rightarrow> string list \<Rightarrow> strArr \<Rightarrow> ('w, int \<times> strArr) walk_prog" where
  "order_loop A 0 fwd base subs t = liftP (Inl Out_of_fuel)"
| "order_loop A (Suc n) fwd base subs t =
     thenP (logprint ''set x=$order('' t (if fwd then '',1)'' else '',-1)''))
     (bindP (callW (wa_sub A fwd base subs 16)) (\<lambda>(s, v).
      if subs = []
      then let copied = (length v \<le> BASE_LEN); base = (if copied then v else base)
           in bindP (liftP (terminated BASE_LEN base)) (\<lambda>str. bindP (if s = wa_ok A then liftP (arr_put t 0 str) else retP t) (\<lambda>t.
              thenP (assertP copied) (if s = wa_ok A then order_loop A n fwd base subs t else retP (s, t))))
      else let copied = (length v \<le> SUB_LEN); subs = (if copied then butlast subs @ [v] else subs)
           in bindP (liftP (terminated SUB_LEN (last subs))) (\<lambda>str. bindP (if s = wa_ok A then liftP (arr_put t (length subs) str) else retP t) (\<lambda>t.
              thenP (assertP copied) (if s = wa_ok A then order_loop A n fwd base subs t else retP (s, t))))))"

section \<open>One random action\<close>

text \<open>The name and its subscripts as they are copied from the array into buffers of the database.\<close>

definition copy_name :: "strArr \<Rightarrow> ('s, string \<times> string list) prog" where
  "copy_name t =
     bindP (liftP (arr_length t)) (\<lambda>len. bindP (liftP (arr_get t 0)) (\<lambda>base. thenP (assertP (length base \<le> BASE_LEN))
     (bindP (liftP (foldr (\<lambda>i m. bindE (arr_get t i) (\<lambda>s. bindE (c_assert (length s \<le> SUB_LEN)) (\<lambda>_. bindE m (\<lambda>ss. Inr (s # ss)))))
        [1..<nat len] (Inr []))) (\<lambda>subs. retP (base, subs)))))"

definition act_set :: "'w walk_api \<Rightarrow> string \<Rightarrow> string list \<Rightarrow> strArr \<Rightarrow> ('w, int) walk_prog" where
  "act_set A base subs t =
     thenP (logprint ''set '' t ''=\"MySecretValue\"'') (bindP (callW (wa_set A base subs ''MySecretValue'')) (tolerate A (undefs A) ''ydb_set_s''))"

definition act_get :: "'w walk_api \<Rightarrow> string \<Rightarrow> string list \<Rightarrow> strArr \<Rightarrow> ('w, int) walk_prog" where
  "act_get A base subs t =
     thenP (logprint ''set x=$get('' t '')'') (bindP (callW (wa_get A base subs 16)) (\<lambda>(s, v). tolerate A (undefs A) ''ydb_get_s'' s))"

definition act_data :: "'w walk_api \<Rightarrow> string \<Rightarrow> string list \<Rightarrow> strArr \<Rightarrow> ('w, int) walk_prog" where
  "act_data A base subs t =
     thenP (logprint ''set x=$data('' t '')'') (bindP (callW (wa_data A base subs)) (\<lambda>(s, v).
     if s \<noteq> wa_ok A then tolerate A (undefs A) ''ydb_data_s'' s
     else if v \<in> {0, 1, 10, 11} then retP (wa_ok A) else thenP (emit (Wrong ''Unexpected data value issued!'')) (retP s)))"

definition act_query :: "'w walk_api \<Rightarrow> nat \<Rightarrow> string \<Rightarrow> string list \<Rightarrow> strArr \<Rightarrow> ('w, int) walk_prog" where
  "act_query A K base subs t =
     bindP (direction A) (\<lambda>fwd. bindP (query_loop A K fwd base subs t) (\<lambda>(s, t).
     if s \<noteq> wa_nodeend A then tolerate A (undefs A) ''ydb_node_*_s'' s else retP s))"

definition act_order :: "'w walk_api \<Rightarrow> nat \<Rightarrow> string \<Rightarrow> string list \<Rightarrow> strArr \<Rightarrow> ('w, int) walk_prog" where
  "act_order A K base subs t =
     bindP (direction A) (\<lambda>fwd. bindP (order_loop A K fwd base subs t) (\<lambda>(s, t).
     if s \<noteq> wa_nodeend A then tolerate A (undefs A) ''ydb_subscript_*_s'' s else retP s))"

text \<open>The amount is one digit, and its string has two bytes.\<close>

definition act_incr :: "'w walk_api \<Rightarrow> string \<Rightarrow> string list \<Rightarrow> strArr \<Rightarrow> ('w, int) walk_prog" where
  "act_incr A base subs t =
     thenP (logprint ''set x=$increment('' t '',$random(5))'') (bindP (randW A) (\<lambda>r.
     let incr_str = dec_of_nat (r div (wa_rand_max A div 5))
     in bindP (liftP (if length incr_str < 2 then Inr incr_str else Inl Write_oob)) (\<lambda>increment.
        bindP (callW (wa_incr A base subs increment 16)) (\<lambda>(s, v).
        thenP (if s \<noteq> wa_ok A \<and> s \<noteq> wa_restart A then complain A ''ydb_incr_s'' s else retP ()) (retP s)))))"

definition act_lock :: "'w walk_api \<Rightarrow> strArr \<Rightarrow> ('w, int) walk_prog" where
  "act_lock A t =
     bindP (callW (wa_getpid A)) (\<lambda>pid.
     let name = ''^a'' @ dec_of_int pid; acc = undefs A @ [wa_tplock A]
     in bindP (liftP (if length name < 13 then Inr name else Inl Write_oob)) (\<lambda>lockVar.
        thenP (logprint ''lock '' t []) (bindP (callW (wa_lock A [lockVar])) (\<lambda>s. bindP (tolerate A acc ''ydb_lock_s'' s) (\<lambda>_.
        thenP (logprint ''lock +'' t []) (bindP (callW (wa_lock_incr A lockVar)) (\<lambda>s. bindP (tolerate A acc ''ydb_lock_incr_s'' s) (\<lambda>_.
        thenP (logprint ''lock -'' t []) (bindP (callW (wa_lock_decr A lockVar)) (\<lambda>s. bindP (tolerate A acc ''ydb_lock_decr_s'' s) (\<lambda>_.
        thenP (emit (Log '' lock'')) (bindP (callW (wa_lock A [])) (tolerate A acc ''ydb_lock_s'')))))))))))))"

text \<open>Both conversions have a buffer of 64 bytes for the answer.\<close>

definition plain_text :: string where
  "plain_text = ''a'' @ [CHR 0x0A] @ ''b'' @ [CHR 0x09] @ ''c''"

definition zwr_text :: string where
  "zwr_text = ''\"a\"_$C(10)_\"b\"_$C(9)_\"c\"''"

definition act_convert :: "'w walk_api \<Rightarrow> (string \<Rightarrow> nat \<Rightarrow> 'w \<Rightarrow> (int \<times> string) \<times> 'w) \<Rightarrow> string \<Rightarrow> string \<Rightarrow> string \<Rightarrow> ('w, int) walk_prog" where
  "act_convert A f call strIn compStr =
     bindP (callW (f strIn 64)) (\<lambda>(s, out).
     thenP (if s \<noteq> wa_ok A then complain A (call @ ''_s'') s else retP ())
     (bindP (liftP (terminated 64 out)) (\<lambda>out.
     thenP (if out \<noteq> compStr then emit (Wrong (call @ '' did not return the right value'')) else retP ()) (retP s))))"

definition act_exit :: "'w walk_api \<Rightarrow> ('w, int) walk_prog" where
  "act_exit A =
     bindP (callW (wa_exit A)) (\<lambda>s. thenP (if s \<noteq> - wa_invydbexit A then complain A ''ydb_exit'' s else retP ()) (retP (wa_ok A)))"

definition act_init :: "'w walk_api \<Rightarrow> ('w, int) walk_prog" where
  "act_init A = bindP (callW (wa_init A)) (\<lambda>s. thenP (if s \<noteq> wa_ok A then complain A ''ydb_init'' s else retP ()) (retP s))"

definition act_message :: "'w walk_api \<Rightarrow> ('w, int) walk_prog" where
  "act_message A =
     bindP (callW (wa_message A (-1) 2048)) (\<lambda>(s, out).
     thenP (if s \<noteq> wa_ok A then complain A ''ydb_message'' s else retP ())
     (thenP (if out = [] then emit (Wrong ''ydb_message() did not correctly modify the buffer'') else retP ()) (retP s)))"

definition act_delete :: "'w walk_api \<Rightarrow> string \<Rightarrow> string list \<Rightarrow> strArr \<Rightarrow> ('w, int) walk_prog" where
  "act_delete A base subs t =
     bindP (randW A) (\<lambda>r.
     bindP (if r < wa_rand_max A div 2 then thenP (logprint ''kill '' t []) (callW (wa_delete_tree A base subs))
            else thenP (logprint ''zkill '' t []) (callW (wa_delete_node A base subs))) (\<lambda>s.
     thenP (if s \<noteq> wa_ok A \<and> s \<noteq> wa_restart A then complain A ''ydb_delete_s'' s else retP ()) (retP s)))"

definition act_delete_excl :: "'w walk_api \<Rightarrow> string \<Rightarrow> strArr \<Rightarrow> ('w, int) walk_prog" where
  "act_delete_excl A base t =
     bindP (liftP (arr_get t 0)) (\<lambda>name.
     bindP (if name \<noteq> [] \<and> hd name = CHR ''^'' then retP (wa_ok A)
            else thenP (logprint ''kill ('' (set_length t 1) '')'') (callW (wa_delete_excl A [base]))) (\<lambda>s.
     thenP (if s \<noteq> wa_ok A \<and> s \<noteq> wa_restart A then complain A ''ydb_delete_excl_s'' s else retP ()) (retP s)))"

text \<open>
  The chain of comparisons; \<open>nest\<close> is what the last case does.  The action of \<^verbatim>\<open>ydb_exit\<close> is that of \<^verbatim>\<open>ydb_init\<close> outside transactions.
\<close>

definition choose_act ::
  "'w walk_api \<Rightarrow> nat \<Rightarrow> nat \<Rightarrow> int \<Rightarrow> nat \<Rightarrow> string \<Rightarrow> string list \<Rightarrow> strArr \<Rightarrow> ('w, int) walk_prog \<Rightarrow> ('w, int) walk_prog" where
  "choose_act A K curDepth odds action base subs t nest =
     (if action < 20 then act_set A base subs t
      else if chosen odds 2 action then act_get A base subs t
      else if chosen odds 3 action then act_data A base subs t
      else if chosen odds 4 action then act_query A K base subs t
      else if chosen odds 5 action then act_order A K base subs t
      else if chosen odds 6 action then act_incr A base subs t
      else if chosen odds 7 action then act_lock A t
      else if chosen odds 8 action then act_convert A (wa_str2zwr A) ''ydb_str2zwr'' plain_text zwr_text
      else if chosen odds 9 action then act_convert A (wa_zwr2str A) ''ydb_zwr2str'' zwr_text plain_text
      else if chosen odds 10 action \<and> curDepth > 0 then act_exit A
      else if chosen odds 11 action then act_init A
      else if chosen odds 12 action then act_message A
      else if chosen odds 13 action then thenP (callW (wa_zstatus A)) (retP (wa_ok A))
      else if chosen odds 14 action then act_delete A base subs t
      else if chosen odds 15 action then act_delete_excl A base t
      else nest)"

section \<open>Runs and transactions\<close>

text \<open>The function of a transaction, as the database calls it.\<close>

definition as_tpfn :: "('w, int) walk_prog \<Rightarrow> 'w walk_state \<Rightarrow> c_fault + int \<times> 'w walk_state" where
  "as_tpfn m st = bindE (m st) (\<lambda>(r, st). Inr (case r of Inl s \<Rightarrow> s | Inr s \<Rightarrow> s, st))"

definition set_rate :: "rat \<Rightarrow> ('w, unit) walk_prog" where
  "set_rate q = callP (\<lambda>st. ((), st\<lparr>wk_rate := q\<rparr>))"

text \<open>\<^verbatim>\<open>0.05\<close> is rounded to a number of type \<^verbatim>\<open>double\<close>.\<close>

primrec tp_turns :: "'w walk_api \<Rightarrow> ('w, int) walk_prog \<Rightarrow> nat \<Rightarrow> ('w, int) walk_prog" where
  "tp_turns A run 0 = retP (wa_ok A)"
| "tp_turns A run (Suc n) = thenP (set_rate (double (1 / 20))) (bindP run (\<lambda>s. if s \<noteq> wa_ok A then retP s else tp_turns A run n))"

definition tpHelper :: "'w walk_api \<Rightarrow> ('w, int) walk_prog \<Rightarrow> ('w, int) walk_prog" where
  "tpHelper A run = bindP (randW A) (\<lambda>r. tp_turns A run (r mod 20))"

text \<open>
  \<open>junk\<close> is what the buffer of the name held before.  The status is that of the last copy, which is \<^verbatim>\<open>TRUE\<close>, where
  the depth is exhausted.  The first fuel bounds the nesting, and \<open>K\<close> the loops over nodes.
\<close>

primrec runProc :: "nat \<Rightarrow> 'w walk_api \<Rightarrow> nat \<Rightarrow> string \<Rightarrow> nat \<Rightarrow> nat \<Rightarrow> ('w, int) walk_prog" where
  "runProc 0 A K junk maxDepth curDepth = liftP (Inl Out_of_fuel)"
| "runProc (Suc n) A K junk maxDepth curDepth =
     bindP (askP (\<lambda>st. remaining_odds (wk_rate st))) (\<lambda>odds. bindP (genGlobalName A junk) (\<lambda>t. bindP (copy_name t) (\<lambda>(base, subs).
     bindP (randW A) (\<lambda>r. choose_act A K curDepth odds (r mod 100) base subs t
       (if curDepth < maxDepth
        then thenP (emit (Log '' tstart ():(serial:transaction=\"BATCH\")''))
             (bindP (callE (wa_tp A ''BATCH'' (as_tpfn (tpHelper A (runProc n A K junk maxDepth (curDepth + 1)))))) (\<lambda>s.
             thenP (emit (Log '' tcommit'')) (retP s)))
        else retP 1)))))"

section \<open>The identifier of the process\<close>

definition storePID :: "'w walk_api \<Rightarrow> ('w, int) walk_prog" where
  "storePID A =
     bindP (callW (wa_sub A False ''^pids'' [[]] 8)) (\<lambda>(s, iter).
     thenP (assertP (s = wa_ok A)) (bindP (callW (wa_getpid A)) (\<lambda>pid.
     let pidStr = dec_of_int pid
     in bindP (liftP (if length pidStr < 8 then Inr pidStr else Inl Write_oob)) (\<lambda>pidStr. callW (wa_set A ''^pids'' [iter, pidStr] pidStr)))))"

end
