(* ===== verification/Random_Walk_Rules.thy ===== *)
theory Random_Walk_Rules
  imports Random_Walk
begin

text \<open>The buffer of names, what the program relies on of its calls, and the rules for the actions.\<close>

section \<open>The five strings\<close>

definition arr_off :: "nat \<Rightarrow> nat" where
  "arr_off i = (if i = 0 then 0 else 6 + 5 * i)"

definition arr_size :: "nat \<Rightarrow> nat" where
  "arr_size i = (if i = 0 then 11 else 5)"

definition segment :: "strArr \<Rightarrow> nat \<Rightarrow> string" where
  "segment t i = take (arr_size i) (drop (arr_off i) (sa_raw t))"

text \<open>The pointers are in place, the length is \<open>n\<close>, and the strings below it end within their bytes.\<close>

definition arr_ok :: "int \<Rightarrow> strArr \<Rightarrow> bool" where
  "arr_ok n t \<longleftrightarrow> length (sa_raw t) = 32 \<and> sa_cells t = [Ptr 0, Ptr 11, Ptr 16, Ptr 21, Ptr 26, Len n] \<and> n \<le> 5 \<and>
     NUL \<in> set (segment t 0) \<and> (\<forall>i. i < nat n \<longrightarrow> NUL \<in> set (segment t i))"

lemma off_size: "i < 5 \<Longrightarrow> arr_off i + arr_size i \<le> 31"
  by (simp add: arr_off_def arr_size_def)

lemma off_apart: "i < j \<Longrightarrow> arr_off i + arr_size i \<le> arr_off j"
  by (simp add: arr_off_def arr_size_def)

text \<open>The first \<open>k\<close> pointers are in place.\<close>

definition ptrs :: "nat \<Rightarrow> strArr \<Rightarrow> bool" where
  "ptrs k t \<longleftrightarrow> k \<le> 5 \<and> length (sa_cells t) = 6 \<and> (\<forall>i < k. sa_cells t ! i = Ptr (arr_off i))"

lemma ptrs_all:
  assumes "sa_cells t = [Ptr 0, Ptr 11, Ptr 16, Ptr 21, Ptr 26, c]"
  shows "ptrs 5 t"
proof -
  have "sa_cells t ! i = Ptr (arr_off i)" if "i < 5" for i
  proof -
    have "i = 0 \<or> i = 1 \<or> i = 2 \<or> i = 3 \<or> i = 4" using that by linarith
    then show ?thesis using assms by (auto simp: arr_off_def)
  qed
  then show ?thesis using assms by (simp add: ptrs_def)
qed

lemma ptrs_cells: "ptrs k t \<Longrightarrow> sa_cells t' = sa_cells t \<Longrightarrow> ptrs k t'"
  by (simp add: ptrs_def)

lemma arr_ptr_at: "ptrs k t \<Longrightarrow> i < k \<Longrightarrow> arr_ptr t i = Inr (arr_off i)"
  by (simp add: ptrs_def arr_ptr_def load_def)

lemma ptrs_five: "ptrs k t \<Longrightarrow> i < k \<Longrightarrow> i < 5"
  by (simp add: ptrs_def)

lemma takeWhile_in_take: "NUL \<in> set (take n xs) \<Longrightarrow> takeWhile (\<lambda>c. c \<noteq> NUL) xs = takeWhile (\<lambda>c. c \<noteq> NUL) (take n xs)"
proof (induction xs arbitrary: n)
  case (Cons x xs)
  then show ?case by (cases n) auto
qed simp

lemma length_takeWhile_in: "x \<in> set xs \<Longrightarrow> length (takeWhile (\<lambda>c. c \<noteq> x) xs) < length xs"
  by (induction xs) auto

lemma arr_get_in:
  assumes "ptrs k t" "length (sa_raw t) = 32" "i < k" "NUL \<in> set (segment t i)"
  shows "arr_get t i = Inr (takeWhile (\<lambda>c. c \<noteq> NUL) (segment t i))" "length (takeWhile (\<lambda>c. c \<noteq> NUL) (segment t i)) < arr_size i"
proof -
  have s: "length (segment t i) = arr_size i" using off_size [OF ptrs_five [OF assms(1,3)]] assms(2) by (simp add: segment_def)
  then show l: "length (takeWhile (\<lambda>c. c \<noteq> NUL) (segment t i)) < arr_size i" using length_takeWhile_in [OF assms(4)] by simp
  have e: "takeWhile (\<lambda>c. c \<noteq> NUL) (drop (arr_off i) (sa_raw t)) = takeWhile (\<lambda>c. c \<noteq> NUL) (segment t i)"
    using takeWhile_in_take assms(4) unfolding segment_def by blast
  have "arr_off i + length (takeWhile (\<lambda>c. c \<noteq> NUL) (segment t i)) < 32" using l off_size [OF ptrs_five [OF assms(1,3)]] by linarith
  then show "arr_get t i = Inr (takeWhile (\<lambda>c. c \<noteq> NUL) (segment t i))"
    using arr_ptr_at [OF assms(1,3)] e assms(2) by (simp add: arr_get_def Let_def)
qed

lemma arr_put_in:
  assumes "ptrs k t" "length (sa_raw t) = 32" "i < k" "length s < arr_size i"
  obtains t' where "arr_put t i s = Inr t'" "sa_cells t' = sa_cells t" "length (sa_raw t') = 32"
    "segment t' i = s @ NUL # drop (Suc (length s)) (segment t i)" "\<And>j. j < k \<Longrightarrow> j \<noteq> i \<Longrightarrow> segment t' j = segment t j"
proof -
  let ?p = "arr_off i" and ?r = "sa_raw t"
  define r' where "r' = take ?p ?r @ s @ NUL # drop (?p + length s + 1) ?r"
  let ?t = "t\<lparr>sa_raw := r'\<rparr>"
  have p: "?p + length s + 1 \<le> ?p + arr_size i" "?p + arr_size i \<le> 31" using assms(4) off_size [OF ptrs_five [OF assms(1,3)]] by simp_all
  then have l: "length r' = 32" using assms(2) by (simp add: r'_def)
  have n: "r' ! k = ?r ! k" if "k < ?p \<or> ?p + length s < k" "k < 32" for k
    using that p assms(2) by (auto simp: r'_def nth_append nth_Cons' min_def)
  show thesis
  proof (rule that)
    show "arr_put t i s = Inr ?t" using arr_ptr_at [OF assms(1,3)] p assms(2) by (simp add: arr_put_def r'_def)
    have "min 32 ?p = ?p" using p by simp
    then have d: "drop ?p r' = s @ NUL # drop (?p + length s + 1) ?r" using assms(2) by (simp add: r'_def)
    have "segment ?t i = take (arr_size i) (drop ?p r')" by (simp add: segment_def)
    also have "\<dots> = s @ take (arr_size i - length s) (NUL # drop (?p + length s + 1) ?r)" using assms(4) unfolding d by simp
    also have "take (arr_size i - length s) (NUL # drop (?p + length s + 1) ?r) = NUL # drop (Suc (length s)) (segment t i)"
    proof -
      obtain k where "arr_size i = length s + Suc k" using assms(4) by (metis add_Suc_right less_imp_Suc_add)
      then show ?thesis by (simp add: segment_def drop_take add.commute)
    qed
    finally show "segment ?t i = s @ NUL # drop (Suc (length s)) (segment t i)" .
    fix j :: nat assume j: "j < k" "j \<noteq> i"
    show "segment ?t j = segment t j"
    proof (rule nth_equalityI)
      show "length (segment ?t j) = length (segment t j)" using l assms(2) by (simp add: segment_def)
      fix k assume "k < length (segment ?t j)"
      then have k: "k < arr_size j" "arr_off j + k < 32" using l by (auto simp: segment_def)
      have "arr_off j + k < ?p \<or> ?p + length s < arr_off j + k"
        using off_apart [of i j] off_apart [of j i] j(2) k(1) p(1) by (cases "i < j") auto
      then show "segment ?t j ! k = segment t j ! k" using n k l assms(2) by (simp add: segment_def)
    qed
  qed (simp_all add: l)
qed

lemma arr_new_cells: "arr_new junk = Inr \<lparr>sa_raw = junk, sa_cells = [Ptr 0, Ptr 11, Ptr 16, Ptr 21, Ptr 26, Ptr 31]\<rparr>"
proof -
  have "[0..<5] = [0, 1, 2, 3, 4 :: nat]" by (simp add: upt_rec)
  then show ?thesis by (simp add: arr_new_def store_def BASE_LEN_def SUB_LEN_def numeral_eq_Suc)
qed

lemma no_NUL_in_number: "NUL \<notin> set (dec_of_nat i)"
proof
  assume "NUL \<in> set (dec_of_nat i)"
  then have "is_digit NUL" by (rule dec_of_nat_digits)
  then show False by (simp add: is_digit_def NUL_def)
qed

lemma arr_get_put:
  assumes "ptrs k t" "length (sa_raw t) = 32" "i < k" "length s < arr_size i" "NUL \<notin> set s"
  obtains t' where "arr_put t i s = Inr t'" "sa_cells t' = sa_cells t" "length (sa_raw t') = 32" "NUL \<in> set (segment t' i)" "arr_get t' i = Inr s"
    "\<And>j. j < k \<Longrightarrow> j \<noteq> i \<Longrightarrow> segment t' j = segment t j" "\<And>j. j < k \<Longrightarrow> j \<noteq> i \<Longrightarrow> NUL \<in> set (segment t j) \<Longrightarrow> arr_get t' j = arr_get t j"
proof -
  obtain t' where t': "arr_put t i s = Inr t'" "sa_cells t' = sa_cells t" "length (sa_raw t') = 32"
    "segment t' i = s @ NUL # drop (Suc (length s)) (segment t i)" "\<And>j. j < k \<Longrightarrow> j \<noteq> i \<Longrightarrow> segment t' j = segment t j"
    using arr_put_in [OF assms(1-4)] by metis
  have c: "ptrs k t'" using ptrs_cells [OF assms(1) t'(2)] .
  have n: "NUL \<in> set (segment t' i)" unfolding t'(4) by simp
  have "takeWhile (\<lambda>c. c \<noteq> NUL) (segment t' i) = s" unfolding t'(4) using assms(5) by (subst takeWhile_append2) auto
  then have "arr_get t' i = Inr s" using arr_get_in(1) [OF c t'(3) assms(3) n] by simp
  moreover have "arr_get t' j = arr_get t j" if "j < k" "j \<noteq> i" "NUL \<in> set (segment t j)" for j
    using arr_get_in(1) [OF c t'(3) that(1)] arr_get_in(1) [OF assms(1,2) that(1,3)] t'(5) [OF that(1,2)] that(3) by simp
  ultimately show thesis using that t' n by blast
qed

section \<open>The name that is generated\<close>

lemma put_subs_in:
  assumes "ptrs 5 t" "length (sa_raw t) = 32" "n < 5" "NUL \<in> set (segment t 0)"
  shows "\<exists>t'. put_subs n t = Inr t' \<and> sa_cells t' = sa_cells t \<and> length (sa_raw t') = 32 \<and> segment t' 0 = segment t 0 \<and>
     (\<forall>i < n. NUL \<in> set (segment t' (i + 1)) \<and> arr_get t' (i + 1) = Inr (''sub'' @ dec_of_nat i))"
  using assms(3)
proof (induction n)
  case 0
  then show ?case using assms by simp
next
  case (Suc n)
  then obtain t1 where t1: "put_subs n t = Inr t1" "sa_cells t1 = sa_cells t" "length (sa_raw t1) = 32" "segment t1 0 = segment t 0"
    "\<forall>i < n. NUL \<in> set (segment t1 (i + 1)) \<and> arr_get t1 (i + 1) = Inr (''sub'' @ dec_of_nat i)" by auto
  have l: "length (''sub'' @ dec_of_nat n) < arr_size (n + 1)" using length_dec_of_nat [of n 0] Suc.prems by (simp add: arr_size_def)
  have "NUL \<notin> set ''sub''" by (simp add: NUL_def)
  then have s: "NUL \<notin> set (''sub'' @ dec_of_nat n)" using no_NUL_in_number [of n] by simp
  obtain t2 where t2: "arr_put t1 (n + 1) (''sub'' @ dec_of_nat n) = Inr t2" "sa_cells t2 = sa_cells t1" "length (sa_raw t2) = 32"
    "NUL \<in> set (segment t2 (n + 1))" "arr_get t2 (n + 1) = Inr (''sub'' @ dec_of_nat n)"
    "\<And>j. j < 5 \<Longrightarrow> j \<noteq> n + 1 \<Longrightarrow> segment t2 j = segment t1 j" "\<And>j. j < 5 \<Longrightarrow> j \<noteq> n + 1 \<Longrightarrow> NUL \<in> set (segment t1 j) \<Longrightarrow> arr_get t2 j = arr_get t1 j"
    using arr_get_put [of 5 t1 "n + 1", OF ptrs_cells [OF assms(1) t1(2)] t1(3) _ l s] Suc.prems by (metis Suc_eq_plus1 Suc_less_SucD add_less_cancel_right less_eq_Suc_le numeral_eq_Suc)
  have "NUL \<in> set (segment t2 (i + 1)) \<and> arr_get t2 (i + 1) = Inr (''sub'' @ dec_of_nat i)" if "i < Suc n" for i
    using that t1(5) t2(4-7) Suc.prems by (cases "i = n") auto
  then show ?case using t1 t2 Suc.prems by auto
qed

lemma name_at_in:
  assumes "length junk = 32" "n < 5" "b < 4"
  shows "\<exists>t. name_at junk n b = Inr t \<and> arr_ok (int n + 1) t \<and> arr_get t 0 = Inr (base_names ! b) \<and>
     (\<forall>i < n. arr_get t (i + 1) = Inr (''sub'' @ dec_of_nat i))"
proof -
  let ?t0 = "\<lparr>sa_raw = junk, sa_cells = [Ptr 0, Ptr 11, Ptr 16, Ptr 21, Ptr 26, Len 0]\<rparr>"
  have b: "b = 0 \<or> b = 1 \<or> b = 2 \<or> b = 3" using assms(3) by linarith
  then have s: "length (base_names ! b) < arr_size 0" "NUL \<notin> set (base_names ! b)" by (elim disjE; simp add: base_names_def arr_size_def NUL_def)+
  have p0: "ptrs 5 ?t0" by (rule ptrs_all) simp
  obtain t1 where t1: "arr_put ?t0 0 (base_names ! b) = Inr t1" "sa_cells t1 = sa_cells ?t0" "length (sa_raw t1) = 32"
    "NUL \<in> set (segment t1 0)" "arr_get t1 0 = Inr (base_names ! b)"
    using arr_get_put [OF p0 _ _ s] assms(1) by (metis strArr.select_convs(1) zero_less_numeral)
  note p1 = ptrs_cells [OF p0 t1(2)]
  obtain t2 where t2: "put_subs n t1 = Inr t2" "sa_cells t2 = sa_cells t1" "length (sa_raw t2) = 32" "segment t2 0 = segment t1 0"
    "\<forall>i < n. NUL \<in> set (segment t2 (i + 1)) \<and> arr_get t2 (i + 1) = Inr (''sub'' @ dec_of_nat i)"
    using put_subs_in [OF p1 t1(3) assms(2) t1(4)] by auto
  note p2 = ptrs_cells [OF p1 t2(2)]
  let ?t = "set_length t2 (int n + 1)"
  have c: "sa_cells ?t = [Ptr 0, Ptr 11, Ptr 16, Ptr 21, Ptr 26, Len (int n + 1)]" using t2(2) t1(2) by (simp add: set_length_def numeral_eq_Suc)
  have g: "segment ?t i = segment t2 i" for i by (simp add: segment_def set_length_def)
  have r: "length (sa_raw ?t) = 32" using t2(3) by (simp add: set_length_def)
  have z: "arr_get ?t i = arr_get t2 i" if "i < 5" for i
    using arr_ptr_at [OF ptrs_all [OF c] that] arr_ptr_at [OF p2 that] by (simp add: arr_get_def set_length_def)
  have z1: "arr_get t2 0 = Inr (base_names ! b)"
    using arr_get_in(1) [OF p1 t1(3), of 0] arr_get_in(1) [OF p2 t2(3), of 0] t1 t2 by simp
  have "NUL \<in> set (segment ?t i)" if "i < n + 1" for i using that t2(4,5) t1(4) unfolding g by (cases i) auto
  then have "arr_ok (int n + 1) ?t" using c r assms(2) by (simp add: arr_ok_def)
  moreover have "name_at junk n b = Inr ?t"
    using t1(1) t2(1) by (simp add: name_at_def arr_new_cells set_length_def Let_def numeral_eq_Suc)
  moreover have "\<forall>i < n. arr_get ?t (i + 1) = Inr (''sub'' @ dec_of_nat i)" using t2(5) z assms(2) by simp
  ultimately show ?thesis using z1 z [of 0] by auto
qed

section \<open>What the program relies on\<close>

definition answers :: "'w walk_api \<Rightarrow> int set" where
  "answers A = {wa_ok A, wa_restart A} \<union> set (undefs A)"

text \<open>
  A database that answers as it should: undefined variables and requests for restarts are expected, the names and subscripts fit the buffers,
  and the conversions are right.  \<^verbatim>\<open>RAND_MAX\<close> is that of the C library.
\<close>

definition calm :: "'w walk_api \<Rightarrow> bool" where
  "calm A \<longleftrightarrow>
     wa_rand_max A = 2147483647 \<and> (\<forall>w. fst (wa_rand A w) \<le> 2147483647) \<and> (\<forall>w. 0 \<le> fst (wa_getpid A w) \<and> fst (wa_getpid A w) < 2 ^ 31) \<and>
     (\<forall>b ss v w. fst (wa_set A b ss v w) \<in> answers A) \<and> (\<forall>b ss n w. fst (fst (wa_get A b ss n w)) \<in> answers A) \<and>
     (\<forall>b ss w. fst (fst (wa_data A b ss w)) \<in> answers A \<and> snd (fst (wa_data A b ss w)) \<in> {0, 1, 10, 11}) \<and>
     (\<forall>fwd b ss w. fst (fst (wa_node A fwd b ss 4 SUB_LEN w)) \<in> insert (wa_nodeend A) (answers A) \<and>
        length (snd (fst (wa_node A fwd b ss 4 SUB_LEN w))) \<le> 4 \<and> (\<forall>s \<in> set (snd (fst (wa_node A fwd b ss 4 SUB_LEN w))). length s < SUB_LEN)) \<and>
     (\<forall>fwd b ss w. fst (fst (wa_sub A fwd b ss 16 w)) \<in> insert (wa_nodeend A) (answers A) \<and>
        length (snd (fst (wa_sub A fwd b ss 16 w))) < (if ss = [] then BASE_LEN else SUB_LEN)) \<and>
     (\<forall>b ss i n w. fst (fst (wa_incr A b ss i n w)) \<in> {wa_ok A, wa_restart A}) \<and>
     (\<forall>ns w. fst (wa_lock A ns w) \<in> insert (wa_tplock A) (answers A)) \<and>
     (\<forall>n w. fst (wa_lock_incr A n w) \<in> insert (wa_tplock A) (answers A) \<and> fst (wa_lock_decr A n w) \<in> insert (wa_tplock A) (answers A)) \<and>
     (\<forall>w. fst (wa_str2zwr A plain_text 64 w) = (wa_ok A, zwr_text) \<and> fst (wa_zwr2str A zwr_text 64 w) = (wa_ok A, plain_text)) \<and>
     (\<forall>w. fst (wa_exit A w) = - wa_invydbexit A \<and> fst (wa_init A w) = wa_ok A) \<and>
     (\<forall>w. fst (fst (wa_message A (-1) 2048 w)) = wa_ok A \<and> snd (fst (wa_message A (-1) 2048 w)) \<noteq> []) \<and>
     (\<forall>b ss w. fst (wa_delete_tree A b ss w) \<in> {wa_ok A, wa_restart A} \<and> fst (wa_delete_node A b ss w) \<in> {wa_ok A, wa_restart A}) \<and>
     (\<forall>ns w. fst (wa_delete_excl A ns w) \<in> {wa_ok A, wa_restart A})"

lemma calm_calls:
  assumes "calm A"
  shows "wa_rand_max A = 2147483647" "fst (wa_rand A w) \<le> 2147483647" "0 \<le> fst (wa_getpid A w)" "fst (wa_getpid A w) < 2 ^ 31"
    "fst (wa_set A b ss v w) \<in> answers A" "fst (fst (wa_get A b ss n w)) \<in> answers A"
    "fst (fst (wa_data A b ss w)) \<in> answers A" "snd (fst (wa_data A b ss w)) \<in> {0, 1, 10, 11}"
    "fst (fst (wa_node A fwd b ss 4 SUB_LEN w)) \<in> insert (wa_nodeend A) (answers A)"
    "length (snd (fst (wa_node A fwd b ss 4 SUB_LEN w))) \<le> 4" "\<And>s. s \<in> set (snd (fst (wa_node A fwd b ss 4 SUB_LEN w))) \<Longrightarrow> length s < SUB_LEN"
    "fst (fst (wa_sub A fwd b ss 16 w)) \<in> insert (wa_nodeend A) (answers A)"
    "length (snd (fst (wa_sub A fwd b ss 16 w))) < (if ss = [] then BASE_LEN else SUB_LEN)"
    "fst (fst (wa_incr A b ss v n w)) \<in> {wa_ok A, wa_restart A}"
    "fst (wa_lock A ns w) \<in> insert (wa_tplock A) (answers A)"
    "fst (wa_lock_incr A b w) \<in> insert (wa_tplock A) (answers A)" "fst (wa_lock_decr A b w) \<in> insert (wa_tplock A) (answers A)"
    "fst (wa_str2zwr A plain_text 64 w) = (wa_ok A, zwr_text)" "fst (wa_zwr2str A zwr_text 64 w) = (wa_ok A, plain_text)"
    "fst (wa_exit A w) = - wa_invydbexit A" "fst (wa_init A w) = wa_ok A"
    "fst (fst (wa_message A (-1) 2048 w)) = wa_ok A" "snd (fst (wa_message A (-1) 2048 w)) \<noteq> []"
    "fst (wa_delete_tree A b ss w) \<in> {wa_ok A, wa_restart A}" "fst (wa_delete_node A b ss w) \<in> {wa_ok A, wa_restart A}"
    "fst (wa_delete_excl A ns w) \<in> {wa_ok A, wa_restart A}"
  using assms unfolding calm_def by (simp_all only: simp_thms)

text \<open>Going from node to node, and from name to name, comes to an end after fewer than \<open>K\<close> steps, whatever other processes do.\<close>

definition finite_nodes :: "'w walk_api \<Rightarrow> nat \<Rightarrow> bool" where
  "finite_nodes A K \<longleftrightarrow> (\<exists>rn. \<forall>fwd b ss. rn fwd b ss < K \<and>
     (\<forall>w ss'. fst (wa_node A fwd b ss 4 SUB_LEN w) = (wa_ok A, ss') \<longrightarrow> rn fwd b ss' < (rn fwd b ss :: nat)))"

definition finite_subs :: "'w walk_api \<Rightarrow> nat \<Rightarrow> bool" where
  "finite_subs A K \<longleftrightarrow> (\<exists>rs. \<forall>fwd b ss. rs fwd b ss < K \<and>
     (\<forall>w v. fst (wa_sub A fwd b ss 16 w) = (wa_ok A, v) \<longrightarrow>
        (if ss = [] then rs fwd v [] else rs fwd b (butlast ss @ [v])) < (rs fwd b ss :: nat)))"

text \<open>
  \<^verbatim>\<open>ydb_tp_s\<close> calls its function, again where that asks for a restart, and returns what it returns, or success; it leaves the memory of the
  program alone: what every call of the function keeps is kept.
\<close>

definition tp_ok :: "'w walk_api \<Rightarrow> bool" where
  "tp_ok A \<longleftrightarrow> (\<forall>I S name f st. (\<forall>st. I (wk_rate st) (wk_events st) \<longrightarrow> (\<exists>s st'. f st = Inr (s, st') \<and> s \<in> S \<and> I (wk_rate st') (wk_events st'))) \<longrightarrow>
     I (wk_rate st) (wk_events st) \<longrightarrow>
     (\<exists>s st'. wa_tp A name f st = Inr (s, st') \<and> s \<in> insert (wa_ok A) S \<and> I (wk_rate st') (wk_events st')))"

section \<open>Rules\<close>

text \<open>No complaint has been written, and the rate is that of the start or that of the transactions.\<close>

definition quiet :: "rat \<Rightarrow> rat \<Rightarrow> event list \<Rightarrow> bool" where
  "quiet r0 rate evs \<longleftrightarrow> rate \<in> {r0, double (1 / 20)} \<and> (\<forall>e \<in> set evs. \<exists>l. e = Log l)"

definition does :: "(rat \<Rightarrow> event list \<Rightarrow> bool) \<Rightarrow> ('w, 'a) walk_prog \<Rightarrow> ('a \<Rightarrow> bool) \<Rightarrow> bool" where
  "does I m S \<longleftrightarrow> (\<forall>st. I (wk_rate st) (wk_events st) \<longrightarrow>
     wpP m (\<lambda>x st'. S x \<and> I (wk_rate st') (wk_events st')) (\<lambda>_ _. False) st)"

lemma does_ret: "S x \<Longrightarrow> does I (retP x) S"
  by (simp add: does_def wp_simps)

lemma bindP_lift_eq: "bindP (liftP (Inr x)) f = f x"
  by (simp add: bindP_lift fun_eq_iff)

lemma retP_bind: "bindP (retP x) f = f x"
  by (simp add: bindP_def retP_def fun_eq_iff)

lemma assert_then: "thenP (assertP True) m = m"
  by (simp add: thenP_def assertP_def bindP_lift_eq)

lemma does_bind: "does I m S \<Longrightarrow> (\<And>x. S x \<Longrightarrow> does I (f x) T) \<Longrightarrow> does I (bindP m f) T"
  unfolding does_def wp_simps by (blast intro: wpP_mono)

lemma does_then: "does I m S \<Longrightarrow> does I n T \<Longrightarrow> does I (thenP m n) T"
  unfolding thenP_def by (rule does_bind)

lemma does_lift: "m = Inr x \<Longrightarrow> S x \<Longrightarrow> does I (liftP m) S"
  by (simp add: does_def wp_simps)

lemma does_assert: "b \<Longrightarrow> does I (assertP b) (\<lambda>_. True)"
  by (simp add: does_def wp_simps)

lemma does_call: "(\<And>w. S (fst (f w))) \<Longrightarrow> does I (callW f) S"
  by (simp add: does_def callW_def wpP_call)

lemma does_log: "does (quiet r0) (emit (Log l)) (\<lambda>_. True)"
  by (auto simp: does_def emit_def wpP_call quiet_def)

lemma does_rate: "does (quiet r0) (set_rate (double (1 / 20))) (\<lambda>_. True)"
  by (simp add: does_def set_rate_def wpP_call quiet_def)

lemma does_mono: "does I m S \<Longrightarrow> (\<And>x. S x \<Longrightarrow> T x) \<Longrightarrow> does I m T"
  unfolding does_def by (blast intro: wpP_mono)

lemma does_if: "(b \<Longrightarrow> does I m S) \<Longrightarrow> (\<not> b \<Longrightarrow> does I n S) \<Longrightarrow> does I (if b then m else n) S"
  by simp

text \<open>An accepted status is no reason for a complaint.\<close>

definition goes_on :: "'w walk_api \<Rightarrow> int \<Rightarrow> bool" where
  "goes_on A s \<longleftrightarrow> s = wa_ok A \<or> s = wa_restart A"

lemma does_tolerate: "s \<in> {wa_ok A, wa_restart A} \<union> set acc \<Longrightarrow> does (quiet r0) (tolerate A acc call s) (goes_on A)"
  unfolding tolerate_def by (intro does_if does_ret) (simp_all add: goes_on_def)

lemma strs_in:
  assumes "\<And>i. i \<in> set is \<Longrightarrow> \<exists>s. arr_get t i = Inr s"
  shows "\<exists>ss. foldr (\<lambda>i m. bindE (arr_get t i) (\<lambda>s. bindE m (\<lambda>ss. Inr (s # ss)))) is (Inr []) = Inr ss"
  using assms
proof (induction "is")
  case (Cons i "is")
  obtain s where s: "arr_get t i = Inr s" using Cons.prems [of i] by auto
  obtain ss where "foldr (\<lambda>i m. bindE (arr_get t i) (\<lambda>s. bindE m (\<lambda>ss. Inr (s # ss)))) is (Inr []) = Inr ss"
    using Cons.IH Cons.prems by (meson list.set_intros(2))
  then show ?case using s by simp
qed simp

lemma arr_ok_get:
  assumes "arr_ok n t" "i = 0 \<or> i < nat n"
  shows "\<exists>s. arr_get t i = Inr s \<and> length s < arr_size i"
proof -
  have "i < 5" "NUL \<in> set (segment t i)" using assms by (auto simp: arr_ok_def)
  moreover have "ptrs 5 t" using assms(1) by (intro ptrs_all [of _ "Len n"]) (simp add: arr_ok_def)
  ultimately show ?thesis using arr_get_in [of 5 t i] assms(1) by (auto simp: arr_ok_def)
qed

lemma arr_ok_length: "arr_ok n t \<Longrightarrow> arr_length t = Inr n"
  by (simp add: arr_ok_def arr_length_def load_def nth_Cons')

lemma does_logprint:
  assumes "arr_ok n t"
  shows "does (quiet r0) (logprint p t s) (\<lambda>_. True)"
proof -
  have g: "\<And>i. i \<in> set [1..<nat (n - 1)] \<Longrightarrow> \<exists>s. arr_get t i = Inr s" "1 < n \<Longrightarrow> \<exists>s. arr_get t (nat (n - 1)) = Inr s"
  proof -
    fix i assume "i \<in> set [1..<nat (n - 1)]"
    then have "i < nat n" by auto
    then show "\<exists>s. arr_get t i = Inr s" using arr_ok_get [OF assms, of i] by blast
  next
    assume "1 < n"
    then have "nat (n - 1) < nat n" by simp
    then show "\<exists>s. arr_get t (nat (n - 1)) = Inr s" using arr_ok_get [OF assms, of "nat (n - 1)"] by blast
  qed
  obtain b where b: "arr_get t 0 = Inr b" using arr_ok_get [OF assms, of 0] by auto
  obtain ss where ss: "foldr (\<lambda>i m. bindE (arr_get t i) (\<lambda>s. bindE m (\<lambda>ss. Inr (s # ss)))) [1..<nat (n - 1)] (Inr []) = Inr ss"
    using strs_in [OF g(1)] by blast
  have "\<exists>ls. (if 1 < n then foldr (\<lambda>i m. bindE (arr_get t i) (\<lambda>s. bindE m (\<lambda>ss. Inr (s # ss)))) [nat (n - 1)] (Inr []) else Inr []) = Inr ls"
    using g(2) by (cases "1 < n") auto
  then obtain ls where "(if 1 < n then foldr (\<lambda>i m. bindE (arr_get t i) (\<lambda>s. bindE m (\<lambda>ss. Inr (s # ss)))) [nat (n - 1)] (Inr []) else Inr []) = Inr ls" ..
  then show ?thesis
    unfolding logprint_def Let_def arr_ok_length [OF assms] b bindP_lift_eq ss by (simp only: bindP_lift_eq does_log)
qed

end
