(* ===== verification/Random_Walk_Acts.thy ===== *)
theory Random_Walk_Acts
  imports Random_Walk_Rules
begin

text \<open>The rules for the actions of the random walk on a database that answers as it should.\<close>

section \<open>Strings that are replaced\<close>

lemma terminated_in: "length v < n \<Longrightarrow> terminated n v = Inr (takeWhile (\<lambda>c. c \<noteq> NUL) v) \<and> length (takeWhile (\<lambda>c. c \<noteq> NUL) v) < n"
  using length_takeWhile_le [of "\<lambda>c. c \<noteq> NUL" v] by (simp add: terminated_def)

lemma arr_put_ok:
  assumes "arr_ok n t" "i = 0 \<or> i < nat n" "length s < arr_size i"
  shows "\<exists>t'. arr_put t i s = Inr t' \<and> arr_ok n t'"
proof -
  have i: "i < 5" using assms(1,2) by (auto simp: arr_ok_def)
  obtain t' where t': "arr_put t i s = Inr t'" "sa_cells t' = sa_cells t" "length (sa_raw t') = 32"
    "segment t' i = s @ NUL # drop (Suc (length s)) (segment t i)" "\<And>j. j < 5 \<Longrightarrow> j \<noteq> i \<Longrightarrow> segment t' j = segment t j"
    using arr_put_in [of 5 t i s, OF ptrs_all [of t "Len n"]] assms i by (auto simp: arr_ok_def)
  have "NUL \<in> set (segment t' j)" if "j < 5" "NUL \<in> set (segment t j)" for j
    using t'(4,5) that by (cases "j = i") auto
  then have "NUL \<in> set (segment t' 0)" "\<forall>j < nat n. NUL \<in> set (segment t' j)" using assms(1) by (auto simp: arr_ok_def)
  then have "arr_ok n t'" using t'(2,3) assms(1) by (simp add: arr_ok_def)
  then show ?thesis using t'(1) by blast
qed

lemma take_subs_in:
  assumes "i + length ss \<le> 4" "\<forall>s \<in> set ss. length s < SUB_LEN" "length (sa_raw t) = 32"
    "sa_cells t = [Ptr 0, Ptr 11, Ptr 16, Ptr 21, Ptr 26, c]" "\<forall>j \<le> i. NUL \<in> set (segment t j)"
  shows "\<exists>t'. take_subs i ss t = Inr t' \<and> length (sa_raw t') = 32 \<and> sa_cells t' = [Ptr 0, Ptr 11, Ptr 16, Ptr 21, Ptr 26, c] \<and>
     (\<forall>j \<le> i + length ss. NUL \<in> set (segment t' j))"
  using assms
proof (induction ss arbitrary: i t)
  case (Cons s ss)
  let ?s = "takeWhile (\<lambda>c. c \<noteq> NUL) s"
  have tm: "terminated SUB_LEN s = Inr ?s" "length ?s < arr_size (i + 1)" using terminated_in [of s SUB_LEN] Cons.prems(2) by (auto simp: arr_size_def SUB_LEN_def)
  have i: "i + 1 < 5" using Cons.prems(1) by simp
  obtain t' where t': "arr_put t (i + 1) ?s = Inr t'" "sa_cells t' = sa_cells t" "length (sa_raw t') = 32"
    "segment t' (i + 1) = ?s @ NUL # drop (Suc (length ?s)) (segment t (i + 1))" "\<And>j. j < 5 \<Longrightarrow> j \<noteq> i + 1 \<Longrightarrow> segment t' j = segment t j"
    using arr_put_in [OF ptrs_all [OF Cons.prems(4)] Cons.prems(3) i tm(2)] i by metis
  have "NUL \<in> set (segment t' j)" if "j \<le> i + 1" for j
    using t'(4,5) that i Cons.prems(5) by (cases "j = i + 1") auto
  then have "\<exists>t''. take_subs (i + 1) ss t' = Inr t'' \<and> length (sa_raw t'') = 32 \<and> sa_cells t'' = [Ptr 0, Ptr 11, Ptr 16, Ptr 21, Ptr 26, c] \<and>
     (\<forall>j \<le> i + 1 + length ss. NUL \<in> set (segment t'' j))"
    using Cons.prems t' by (intro Cons.IH) auto
  then show ?case using tm(1) t'(1) i by simp
qed simp

lemma take_subs_ok:
  assumes "arr_ok n t" "length ss \<le> 4" "\<forall>s \<in> set ss. length s < SUB_LEN"
  shows "\<exists>t'. take_subs 0 ss t = Inr t' \<and> arr_ok (int (length ss)) (set_length t' (int (length ss)))"
proof -
  have "length (sa_raw t) = 32" "sa_cells t = [Ptr 0, Ptr 11, Ptr 16, Ptr 21, Ptr 26, Len n]" "\<forall>j \<le> 0. NUL \<in> set (segment t j)"
    using assms(1) by (auto simp: arr_ok_def)
  from take_subs_in [OF _ assms(3) this] assms(2) obtain t' where t': "take_subs 0 ss t = Inr t'" "length (sa_raw t') = 32"
    "sa_cells t' = [Ptr 0, Ptr 11, Ptr 16, Ptr 21, Ptr 26, Len n]" "\<forall>j \<le> length ss. NUL \<in> set (segment t' j)" by auto
  have "segment (set_length t' m) j = segment t' j" for m j by (simp add: segment_def set_length_def)
  moreover have "sa_cells (set_length t' m) = [Ptr 0, Ptr 11, Ptr 16, Ptr 21, Ptr 26, Len m]" "length (sa_raw (set_length t' m)) = 32" for m
    using t'(2,3) by (simp_all add: set_length_def numeral_eq_Suc)
  ultimately show ?thesis using t'(1,4) assms(2) by (simp add: arr_ok_def)
qed

section \<open>The loops\<close>

definition ends :: "'w walk_api \<Rightarrow> int \<Rightarrow> bool" where
  "ends A s \<longleftrightarrow> goes_on A s \<or> s = wa_nodeend A \<or> s = 1"

lemma ends_goes_on: "goes_on A s \<Longrightarrow> ends A s"
  by (simp add: ends_def)

lemma does_answer: "does I (callW f) (\<lambda>x. \<exists>w. x = fst (f w))"
  by (rule does_call) blast

lemma does_direction: "does (quiet r0) (direction A) (\<lambda>_. True)"
  unfolding direction_def randW_def by (intro does_bind [OF does_answer] does_ret TrueI)

lemma does_query_loop:
  assumes calm: "calm A" and X: "\<And>b ss w. fst (fst (wa_node A fwd b ss 4 SUB_LEN w)) \<in> X" and rank: "\<And>ss w ss'. fst (wa_node A fwd b ss 4 SUB_LEN w) = (wa_ok A, ss') \<Longrightarrow> rn ss' < (rn ss :: nat)"
    and "arr_ok n t" "rn subs < k"
  shows "does (quiet r0) (query_loop A k fwd b subs t) (\<lambda>(s, t). s \<noteq> wa_ok A \<and> s \<in> X)"
  using assms(4,5)
proof (induction k arbitrary: n t subs)
  case (Suc k)
  note node = X [of b] calm_calls(10,11) [OF calm, where fwd = fwd and b = b]
  show ?case
    unfolding query_loop.simps
  proof (rule does_then [OF does_logprint [OF Suc.prems(1)]], rule does_bind [OF does_answer], elim exE)
    fix x w assume x: "x = fst (wa_node A fwd b subs 4 SUB_LEN w)"
    obtain s ss where p: "x = (s, ss)" by fastforce
    note l = node [where ss = subs and w = w, folded x, unfolded p, simplified]
    show "does (quiet r0) (case x of (s, subs) \<Rightarrow> if s = wa_ok A then bindP (liftP (take_subs 0 subs t)) (\<lambda>t. query_loop A k fwd b subs (set_length t (int (length subs))))
        else retP (s, t)) (\<lambda>(s, t). s \<noteq> wa_ok A \<and> s \<in> X)"
      unfolding p prod.case
    proof (rule does_if)
      assume ok: "s = wa_ok A"
      obtain t' where t': "take_subs 0 ss t = Inr t'" "arr_ok (int (length ss)) (set_length t' (int (length ss)))"
        using take_subs_ok [OF Suc.prems(1) l(2)] l(3) by blast
      have "rn ss < rn subs" using rank [of subs w ss] x p ok by simp
      then have "rn ss < k" using Suc.prems(2) by simp
      then show "does (quiet r0) (bindP (liftP (take_subs 0 ss t)) (\<lambda>t. query_loop A k fwd b ss (set_length t (int (length ss))))) (\<lambda>(s, t). s \<noteq> wa_ok A \<and> s \<in> X)"
        unfolding t'(1) bindP_lift_eq by (rule Suc.IH [OF t'(2)])
    next
      assume "s \<noteq> wa_ok A"
      then show "does (quiet r0) (retP (s, t)) (\<lambda>(s, t). s \<noteq> wa_ok A \<and> s \<in> X)" using l(1) by (intro does_ret) simp
    qed
  qed
qed simp

lemma does_order_loop:
  assumes calm: "calm A" and X: "\<And>b ss w. fst (fst (wa_sub A fwd b ss 16 w)) \<in> X" and rank: "\<And>b w v. fst (wa_sub A fwd b [] 16 w) = (wa_ok A, v) \<Longrightarrow> rs v [] < (rs b [] :: nat)"
      "\<And>b ss w v. ss \<noteq> [] \<Longrightarrow> fst (wa_sub A fwd b ss 16 w) = (wa_ok A, v) \<Longrightarrow> rs b (butlast ss @ [v]) < rs b ss"
    and "arr_ok n t" "n = int (length subs) + 1" "rs b subs < k"
  shows "does (quiet r0) (order_loop A k fwd b subs t) (\<lambda>(s, t). s \<noteq> wa_ok A \<and> s \<in> X)"
  using assms(5-7)
proof (induction k arbitrary: t b subs)
  case (Suc k)
  let ?S = "\<lambda>(s, t :: strArr). s \<noteq> wa_ok A \<and> s \<in> X"
  note sub = X calm_calls(13) [OF calm, where fwd = fwd]
  show ?case
    unfolding order_loop.simps
  proof (rule does_then [OF does_logprint [OF Suc.prems(1)]], rule does_bind [OF does_answer], elim exE)
    fix x w assume x: "x = fst (wa_sub A fwd b subs 16 w)"
    obtain s v where p: "x = (s, v)" by fastforce
    note l = sub [where b = b and ss = subs and w = w, folded x, unfolded p fst_conv snd_conv]
    let ?str = "takeWhile (\<lambda>c. c \<noteq> NUL) v"
    show "does (quiet r0) (case x of (s, v) \<Rightarrow>
      if subs = []
      then let copied = (length v \<le> BASE_LEN); base = (if copied then v else b)
           in bindP (liftP (terminated BASE_LEN base)) (\<lambda>str. bindP (if s = wa_ok A then liftP (arr_put t 0 str) else retP t) (\<lambda>t.
              thenP (assertP copied) (if s = wa_ok A then order_loop A k fwd base subs t else retP (s, t))))
      else let copied = (length v \<le> SUB_LEN); subs = (if copied then butlast subs @ [v] else subs)
           in bindP (liftP (terminated SUB_LEN (last subs))) (\<lambda>str. bindP (if s = wa_ok A then liftP (arr_put t (length subs) str) else retP t) (\<lambda>t.
              thenP (assertP copied) (if s = wa_ok A then order_loop A k fwd b subs t else retP (s, t))))) ?S"
      unfolding p prod.case
    proof (rule does_if)
      assume e: "subs = []"
      then have lv: "length v < BASE_LEN" using l(2) by simp
      then have c: "length v \<le> BASE_LEN \<longleftrightarrow> True" by simp
      have tm: "terminated BASE_LEN v = Inr ?str" "length ?str < arr_size 0" using terminated_in [OF lv] by (simp_all add: arr_size_def BASE_LEN_def)
      obtain t' where t': "arr_put t 0 ?str = Inr t'" "arr_ok n t'" using arr_put_ok [OF Suc.prems(1) _ tm(2)] by blast
      have "does (quiet r0) (order_loop A k fwd v subs t') ?S" if "s = wa_ok A"
        using that rank(1) [of b w v] x p e Suc.prems(2,3) by (intro Suc.IH [OF t'(2)]) auto
      moreover have "s \<noteq> wa_ok A \<Longrightarrow> does (quiet r0) (retP (s, t)) ?S" by (rule does_ret) (use l(1) in simp)
      ultimately show "does (quiet r0) (let copied = (length v \<le> BASE_LEN); base = (if copied then v else b)
           in bindP (liftP (terminated BASE_LEN base)) (\<lambda>str. bindP (if s = wa_ok A then liftP (arr_put t 0 str) else retP t) (\<lambda>t.
              thenP (assertP copied) (if s = wa_ok A then order_loop A k fwd base subs t else retP (s, t))))) ?S"
        unfolding Let_def c if_True tm(1) bindP_lift_eq t'(1)
        by (cases "s = wa_ok A") (simp_all add: bindP_lift_eq retP_bind assert_then)
    next
      assume e: "subs \<noteq> []"
      then have lv: "length v < SUB_LEN" using l(2) by simp
      then have c: "length v \<le> SUB_LEN \<longleftrightarrow> True" by simp
      have tm: "terminated SUB_LEN v = Inr ?str" "length ?str < arr_size (length subs)" using terminated_in [OF lv] e by (simp_all add: arr_size_def SUB_LEN_def)
      have i: "length subs < nat n" using Suc.prems(2) by simp
      obtain t' where t': "arr_put t (length subs) ?str = Inr t'" "arr_ok n t'" using arr_put_ok [OF Suc.prems(1) _ tm(2)] i by blast
      have ls: "length (butlast subs @ [v]) = length subs" using e by simp
      have "does (quiet r0) (order_loop A k fwd b (butlast subs @ [v]) t') ?S" if "s = wa_ok A"
        using that rank(2) [of subs b w v] x p e Suc.prems(2,3) ls by (intro Suc.IH [OF t'(2)]) auto
      moreover have "s \<noteq> wa_ok A \<Longrightarrow> does (quiet r0) (retP (s, t)) ?S" by (rule does_ret) (use l(1) in simp)
      ultimately show "does (quiet r0) (let copied = (length v \<le> SUB_LEN); subs = (if copied then butlast subs @ [v] else subs)
           in bindP (liftP (terminated SUB_LEN (last subs))) (\<lambda>str. bindP (if s = wa_ok A then liftP (arr_put t (length subs) str) else retP t) (\<lambda>t.
              thenP (assertP copied) (if s = wa_ok A then order_loop A k fwd b subs t else retP (s, t))))) ?S"
        unfolding Let_def c if_True last_snoc tm(1) bindP_lift_eq ls t'(1)
        by (cases "s = wa_ok A") (simp_all add: bindP_lift_eq retP_bind assert_then)
    qed
  qed
qed simp

section \<open>The actions\<close>

lemma answers_tolerated: "s \<in> answers A \<Longrightarrow> s \<in> {wa_ok A, wa_restart A} \<union> set (undefs A)"
  by (simp add: answers_def)

lemmas does_tolerate_answer = does_tolerate [OF answers_tolerated]

lemma does_set:
  assumes "calm A" "arr_ok n t"
  shows "does (quiet r0) (act_set A b ss t) (goes_on A)"
  unfolding act_set_def
  by (rule does_then [OF does_logprint [OF assms(2)]], rule does_bind [OF does_call], rule calm_calls(5) [OF assms(1)], rule does_tolerate_answer)

lemma does_get:
  assumes "calm A" "arr_ok n t"
  shows "does (quiet r0) (act_get A b ss t) (goes_on A)"
  unfolding act_get_def
proof (rule does_then [OF does_logprint [OF assms(2)]], rule does_bind [OF does_answer], elim exE)
  fix x w assume "x = fst (wa_get A b ss 16 w)"
  then have "fst x \<in> answers A" using calm_calls(6) [OF assms(1)] by simp
  then show "does (quiet r0) (case x of (s, v) \<Rightarrow> tolerate A (undefs A) ''ydb_get_s'' s) (goes_on A)"
    by (cases x) (simp add: does_tolerate_answer)
qed

lemma does_data:
  assumes "calm A" "arr_ok n t"
  shows "does (quiet r0) (act_data A b ss t) (goes_on A)"
  unfolding act_data_def
proof (rule does_then [OF does_logprint [OF assms(2)]], rule does_bind [OF does_answer], elim exE)
  fix x w assume x: "x = fst (wa_data A b ss w)"
  obtain s v where p: "x = (s, v)" by fastforce
  have "s \<in> answers A" "v \<in> {0, 1, 10, 11}" using calm_calls(7,8) [OF assms(1), of b ss w] unfolding x [symmetric] p by simp_all
  then show "does (quiet r0) (case x of (s, v) \<Rightarrow> if s \<noteq> wa_ok A then tolerate A (undefs A) ''ydb_data_s'' s
      else if v \<in> {0, 1, 10, 11} then retP (wa_ok A) else thenP (emit (Wrong ''Unexpected data value issued!'')) (retP s)) (goes_on A)"
    unfolding p prod.case by (intro does_if does_tolerate_answer does_ret) (simp_all add: goes_on_def)
qed

lemma does_node_end:
  assumes "s \<in> insert (wa_nodeend A) (answers A)"
  shows "does (quiet r0) (if s \<noteq> wa_nodeend A then tolerate A (undefs A) call s else retP s) (ends A)"
proof (rule does_if)
  assume "s \<noteq> wa_nodeend A"
  then have "s \<in> answers A" using assms by simp
  then show "does (quiet r0) (tolerate A (undefs A) call s) (ends A)" by (rule does_mono [OF does_tolerate_answer ends_goes_on])
next
  assume "\<not> s \<noteq> wa_nodeend A"
  then show "does (quiet r0) (retP s) (ends A)" by (intro does_ret) (simp add: ends_def)
qed

lemma does_loop_end:
  assumes "does (quiet r0) m (\<lambda>(s, t). s \<noteq> wa_ok A \<and> s \<in> insert (wa_nodeend A) (answers A))"
  shows "does (quiet r0) (bindP m (\<lambda>(s, t). if s \<noteq> wa_nodeend A then tolerate A (undefs A) call s else retP s)) (ends A)"
proof (rule does_bind [OF assms])
  fix x assume "case x of (s, t) \<Rightarrow> s \<noteq> wa_ok A \<and> s \<in> insert (wa_nodeend A) (answers A)"
  then show "does (quiet r0) (case x of (s, t) \<Rightarrow> if s \<noteq> wa_nodeend A then tolerate A (undefs A) call s else retP s) (ends A)"
    by (cases x) (simp only: prod.case does_node_end)
qed

lemma does_query:
  assumes "calm A" "finite_nodes A K" "arr_ok n t"
  shows "does (quiet r0) (act_query A K b ss t) (ends A)"
proof -
  obtain rn where rn: "\<forall>fwd b ss. rn fwd b ss < K \<and>
     (\<forall>w ss'. fst (wa_node A fwd b ss 4 SUB_LEN w) = (wa_ok A, ss') \<longrightarrow> rn fwd b ss' < (rn fwd b ss :: nat))"
    using assms(2) unfolding finite_nodes_def by blast
  have "does (quiet r0) (query_loop A K fwd b ss t) (\<lambda>(s, t). s \<noteq> wa_ok A \<and> s \<in> insert (wa_nodeend A) (answers A))" for fwd
    using rn by (intro does_query_loop [OF assms(1) calm_calls(9) [OF assms(1)] _ assms(3), where rn = "rn fwd b"]) auto
  then show ?thesis unfolding act_query_def by (intro does_bind [OF does_direction] does_loop_end)
qed

lemma does_order:
  assumes "calm A" "finite_subs A K" "arr_ok (int (length ss) + 1) t"
  shows "does (quiet r0) (act_order A K b ss t) (ends A)"
proof -
  obtain rs where rs: "\<forall>fwd b ss. rs fwd b ss < K \<and>
     (\<forall>w v. fst (wa_sub A fwd b ss 16 w) = (wa_ok A, v) \<longrightarrow>
        (if ss = [] then rs fwd v [] else rs fwd b (butlast ss @ [v])) < (rs fwd b ss :: nat))"
    using assms(2) unfolding finite_subs_def by blast
  have r: "rs fwd b [] < K" "rs fwd b ss < K" "fst (wa_sub A fwd b [] 16 w) = (wa_ok A, v) \<Longrightarrow> rs fwd v [] < rs fwd b []"
    "ss \<noteq> [] \<Longrightarrow> fst (wa_sub A fwd b ss 16 w) = (wa_ok A, v) \<Longrightarrow> rs fwd b (butlast ss @ [v]) < rs fwd b ss" for fwd b ss w v
    using rs [THEN spec, of fwd, THEN spec, of b, THEN spec, of "[]"] rs [THEN spec, of fwd, THEN spec, of b, THEN spec, of ss] by auto
  have "does (quiet r0) (order_loop A K fwd b ss t) (\<lambda>(s, t). s \<noteq> wa_ok A \<and> s \<in> insert (wa_nodeend A) (answers A))" for fwd
    by (rule does_order_loop [OF assms(1) calm_calls(12) [OF assms(1)] r(3,4) assms(3) refl r(2)])
  then show ?thesis unfolding act_order_def by (intro does_bind [OF does_direction] does_loop_end)
qed

lemma does_deleted:
  assumes "s \<in> {wa_ok A, wa_restart A}"
  shows "does (quiet r0) (thenP (if s \<noteq> wa_ok A \<and> s \<noteq> wa_restart A then complain A call s else retP ()) (retP s)) (goes_on A)"
  using assms by (auto simp: thenP_def retP_bind goes_on_def intro: does_ret)

lemma does_incr:
  assumes "calm A" "arr_ok n t"
  shows "does (quiet r0) (act_incr A b ss t) (goes_on A)"
  unfolding act_incr_def randW_def calm_calls(1) [OF assms(1)] Let_def
proof (rule does_then [OF does_logprint [OF assms(2)]], rule does_bind [OF does_answer], elim exE)
  fix r w assume "r = fst (wa_rand A w)"
  then have "r \<le> 2147483647" using calm_calls(2) [OF assms(1)] by simp
  then have "r div (2147483647 div 5) < 10" by simp
  then have l: "length (dec_of_nat (r div (2147483647 div 5))) < 2" using length_dec_of_nat [of _ 0] by fastforce
  show "does (quiet r0) (bindP (liftP (if length (dec_of_nat (r div (2147483647 div 5))) < 2 then Inr (dec_of_nat (r div (2147483647 div 5))) else Inl Write_oob))
      (\<lambda>increment. bindP (callW (wa_incr A b ss increment 16)) (\<lambda>(s, v).
       thenP (if s \<noteq> wa_ok A \<and> s \<noteq> wa_restart A then complain A ''ydb_incr_s'' s else retP ()) (retP s)))) (goes_on A)"
    unfolding if_P [OF l] bindP_lift_eq
  proof (rule does_bind [OF does_answer], elim exE)
    fix x w assume "x = fst (wa_incr A b ss (dec_of_nat (r div (2147483647 div 5))) 16 w)"
    then have "fst x \<in> {wa_ok A, wa_restart A}" using calm_calls(14) [OF assms(1)] by simp
    then show "does (quiet r0) (case x of (s, v) \<Rightarrow> thenP (if s \<noteq> wa_ok A \<and> s \<noteq> wa_restart A then complain A ''ydb_incr_s'' s else retP ()) (retP s)) (goes_on A)"
      by (cases x) (simp only: prod.case fst_conv does_deleted)
  qed
qed

lemma does_lock:
  assumes "calm A" "arr_ok n t"
  shows "does (quiet r0) (act_lock A t) (goes_on A)"
  unfolding act_lock_def Let_def
proof (rule does_bind [OF does_answer], elim exE)
  fix pid w assume "pid = fst (wa_getpid A w)"
  then have p: "0 \<le> pid" "pid < 2 ^ 31" using calm_calls(3,4) [OF assms(1)] by simp_all
  have "length (dec_of_nat (nat pid)) \<le> Suc 9" using p by (intro length_dec_of_nat) (simp add: nat_less_iff)
  then have l: "length (''^a'' @ dec_of_int pid) < 13" using p(1) by (simp add: dec_of_int_def)
  have tol: "s \<in> insert (wa_tplock A) (answers A) \<Longrightarrow> does (quiet r0) (tolerate A (undefs A @ [wa_tplock A]) call s) (goes_on A)" for call s
    by (rule does_tolerate) (auto simp: answers_def)
  note lp = does_logprint [OF assms(2)]
  show "does (quiet r0) (bindP (liftP (if length (''^a'' @ dec_of_int pid) < 13 then Inr (''^a'' @ dec_of_int pid) else Inl Write_oob)) (\<lambda>lockVar.
        thenP (logprint ''lock '' t []) (bindP (callW (wa_lock A [lockVar])) (\<lambda>s. bindP (tolerate A (undefs A @ [wa_tplock A]) ''ydb_lock_s'' s) (\<lambda>_.
        thenP (logprint ''lock +'' t []) (bindP (callW (wa_lock_incr A lockVar)) (\<lambda>s. bindP (tolerate A (undefs A @ [wa_tplock A]) ''ydb_lock_incr_s'' s) (\<lambda>_.
        thenP (logprint ''lock -'' t []) (bindP (callW (wa_lock_decr A lockVar)) (\<lambda>s. bindP (tolerate A (undefs A @ [wa_tplock A]) ''ydb_lock_decr_s'' s) (\<lambda>_.
        thenP (emit (Log '' lock'')) (bindP (callW (wa_lock A [])) (tolerate A (undefs A @ [wa_tplock A]) ''ydb_lock_s''))))))))))))) (goes_on A)"
    unfolding if_P [OF l] bindP_lift_eq
    by (rule does_then [OF lp], rule does_bind [OF does_call], rule calm_calls(15) [OF assms(1)], rule does_bind [OF tol], assumption,
        rule does_then [OF lp], rule does_bind [OF does_call], rule calm_calls(16) [OF assms(1)], rule does_bind [OF tol], assumption,
        rule does_then [OF lp], rule does_bind [OF does_call], rule calm_calls(17) [OF assms(1)], rule does_bind [OF tol], assumption,
        rule does_then [OF does_log], rule does_bind [OF does_call], rule calm_calls(15) [OF assms(1)], rule tol)
qed

lemma does_convert:
  assumes "\<And>w. fst (f strIn 64 w) = (wa_ok A, compStr)" "length compStr < 64" "NUL \<notin> set compStr"
  shows "does (quiet r0) (act_convert A f call strIn compStr) (goes_on A)"
  unfolding act_convert_def
proof (rule does_bind [OF does_answer], elim exE)
  fix x w assume "x = fst (f strIn 64 w)"
  then have x: "x = (wa_ok A, compStr)" using assms(1) by simp
  have "takeWhile (\<lambda>c. c \<noteq> NUL) compStr = compStr" using assms(3) by (auto simp: takeWhile_eq_all_conv)
  then have tm: "terminated 64 compStr = Inr compStr" using assms(2) by (simp add: terminated_def)
  show "does (quiet r0) (case x of (s, out) \<Rightarrow> thenP (if s \<noteq> wa_ok A then complain A (call @ ''_s'') s else retP ())
     (bindP (liftP (terminated 64 out)) (\<lambda>out.
     thenP (if out \<noteq> compStr then emit (Wrong (call @ '' did not return the right value'')) else retP ()) (retP s)))) (goes_on A)"
    unfolding x prod.case tm bindP_lift_eq thenP_def by (simp add: retP_bind does_ret goes_on_def)
qed

lemma texts_fit: "length plain_text < 64" "length zwr_text < 64" "NUL \<notin> set plain_text" "NUL \<notin> set zwr_text"
  by (simp_all add: plain_text_def zwr_text_def NUL_def)

lemma does_exit:
  assumes "calm A"
  shows "does (quiet r0) (act_exit A) (goes_on A)"
  unfolding act_exit_def
proof (rule does_bind [OF does_answer], elim exE)
  fix s w assume "s = fst (wa_exit A w)"
  then have "s = - wa_invydbexit A" using calm_calls(20) [OF assms] by simp
  then show "does (quiet r0) (thenP (if s \<noteq> - wa_invydbexit A then complain A ''ydb_exit'' s else retP ()) (retP (wa_ok A))) (goes_on A)"
    by (simp add: thenP_def retP_bind does_ret goes_on_def)
qed

lemma does_init:
  assumes "calm A"
  shows "does (quiet r0) (act_init A) (goes_on A)"
  unfolding act_init_def
proof (rule does_bind [OF does_answer], elim exE)
  fix s w assume "s = fst (wa_init A w)"
  then have "s = wa_ok A" using calm_calls(21) [OF assms] by simp
  then show "does (quiet r0) (thenP (if s \<noteq> wa_ok A then complain A ''ydb_init'' s else retP ()) (retP s)) (goes_on A)"
    by (simp add: thenP_def retP_bind does_ret goes_on_def)
qed

lemma does_message:
  assumes "calm A"
  shows "does (quiet r0) (act_message A) (goes_on A)"
  unfolding act_message_def
proof (rule does_bind [OF does_answer], elim exE)
  fix x w assume "x = fst (wa_message A (-1) 2048 w)"
  then have "fst x = wa_ok A" "snd x \<noteq> []" using calm_calls(22,23) [OF assms] by simp_all
  then show "does (quiet r0) (case x of (s, out) \<Rightarrow> thenP (if s \<noteq> wa_ok A then complain A ''ydb_message'' s else retP ())
     (thenP (if out = [] then emit (Wrong ''ydb_message() did not correctly modify the buffer'') else retP ()) (retP s))) (goes_on A)"
    by (cases x) (simp add: thenP_def retP_bind does_ret goes_on_def)
qed

lemma does_delete:
  assumes "calm A" "arr_ok n t"
  shows "does (quiet r0) (act_delete A b ss t) (goes_on A)"
  unfolding act_delete_def randW_def
proof (rule does_bind [OF does_answer], rule does_bind [where S = "\<lambda>s. s \<in> {wa_ok A, wa_restart A}"])
  fix r
  show "does (quiet r0) (if r < wa_rand_max A div 2 then thenP (logprint ''kill '' t []) (callW (wa_delete_tree A b ss))
            else thenP (logprint ''zkill '' t []) (callW (wa_delete_node A b ss))) (\<lambda>s. s \<in> {wa_ok A, wa_restart A})"
    by (rule does_if; rule does_then [OF does_logprint [OF assms(2)] does_call], rule calm_calls(24,25) [OF assms(1)])
qed (rule does_deleted)

lemma does_delete_excl:
  assumes "calm A" "arr_ok n t" "1 \<le> n"
  shows "does (quiet r0) (act_delete_excl A b t) (goes_on A)"
proof -
  have "arr_ok 1 (set_length t 1)" using assms(2,3) by (simp add: arr_ok_def set_length_def segment_def)
  note lp = does_logprint [OF this]
  obtain name where name: "arr_get t 0 = Inr name" using arr_ok_get [OF assms(2), of 0] by blast
  show ?thesis unfolding act_delete_excl_def name bindP_lift_eq
  proof (rule does_bind [where S = "\<lambda>s. s \<in> {wa_ok A, wa_restart A}"])
    show "does (quiet r0) (if name \<noteq> [] \<and> hd name = CHR ''^'' then retP (wa_ok A) else thenP (logprint ''kill ('' (set_length t 1) '')'') (callW (wa_delete_excl A [b])))
      (\<lambda>s. s \<in> {wa_ok A, wa_restart A})"
      by (rule does_if, rule does_ret, simp, rule does_then [OF lp does_call], rule calm_calls(26) [OF assms(1)])
  qed (rule does_deleted)
qed

end
