(* ===== verification/Random_Walk_Claims.thy ===== *)
theory Random_Walk_Claims
  imports Random_Walk_Acts
begin

text \<open>The claims about the random walk.\<close>

section \<open>A run\<close>

lemma copy_name_in:
  assumes "arr_length t = Inr (int n + 1)" "arr_get t 0 = Inr b" "length b \<le> BASE_LEN" "\<forall>i < n. arr_get t (i + 1) = Inr (f i) \<and> length (f i) \<le> SUB_LEN"
  shows "copy_name t = retP (b, map f [0..<n])"
proof -
  have "foldr (\<lambda>i m. bindE (arr_get t i) (\<lambda>s. bindE (c_assert (length s \<le> SUB_LEN)) (\<lambda>_. bindE m (\<lambda>ss. Inr (s # ss))))) (map Suc [k..<n]) (Inr []) =
      Inr (map f [k..<n])" if "k \<le> n" for k
    using that
  proof (induction k rule: inc_induct)
    case (step k)
    then have "[k..<n] = k # [Suc k..<n]" by (simp add: upt_conv_Cons)
    then show ?case using step assms(4) by simp
  qed simp
  from this [of 0] have subs: "foldr (\<lambda>i m. bindE (arr_get t i) (\<lambda>s. bindE (c_assert (length s \<le> SUB_LEN)) (\<lambda>_. bindE m (\<lambda>ss. Inr (s # ss))))) [1..<nat (int n + 1)] (Inr []) =
      Inr (map f [0..<n])" by (simp add: map_Suc_upt nat_add_distrib)
  have "length b \<le> BASE_LEN \<longleftrightarrow> True" using assms(3) by simp
  then show ?thesis unfolding copy_name_def assms(1,2) bindP_lift_eq subs by (simp add: assert_then)
qed

lemma sub_fits: "i < 5 \<Longrightarrow> length (''sub'' @ dec_of_nat i) \<le> SUB_LEN"
  using length_dec_of_nat [of i 0] by (simp add: SUB_LEN_def)

lemma base_fits: "b < 4 \<Longrightarrow> length (base_names ! b) \<le> BASE_LEN"
  by (auto simp: base_names_def BASE_LEN_def less_Suc_eq numeral_eq_Suc)

lemma name_copied:
  assumes "length junk = 32" "n < 5" "b < 4"
  obtains t where "name_at junk n b = Inr t" "arr_ok (int n + 1) t" "copy_name t = retP (base_names ! b, map (\<lambda>i. ''sub'' @ dec_of_nat i) [0..<n])"
proof -
  obtain t where t: "name_at junk n b = Inr t" "arr_ok (int n + 1) t" "arr_get t 0 = Inr (base_names ! b)"
    "\<forall>i < n. arr_get t (i + 1) = Inr (''sub'' @ dec_of_nat i)" using name_at_in [OF assms] by blast
  have "length (''sub'' @ dec_of_nat i) \<le> SUB_LEN" if "i < n" for i using that assms(2) by (intro sub_fits) simp
  then show thesis using copy_name_in [OF arr_ok_length [OF t(2)] t(3) base_fits [OF assms(3)], of "\<lambda>i. ''sub'' @ dec_of_nat i"] t(4)
    by (intro that [OF t(1,2)]) simp
qed

lemma does_choose:
  assumes "calm A" "finite_nodes A K" "finite_subs A K" "arr_ok (int (length ss) + 1) t" "does (quiet r0) nest (ends A)"
  shows "does (quiet r0) (choose_act A K d odds action b ss t nest) (ends A)"
proof -
  note go = does_mono [OF _ ends_goes_on]
  note t = assms(4)
  have zstatus: "does (quiet r0) (thenP (callW (wa_zstatus A)) (retP (wa_ok A))) (goes_on A)"
    by (rule does_then [OF does_call [where S = "\<lambda>_. True", OF TrueI]], rule does_ret) (simp add: goes_on_def)
  have n: "1 \<le> int (length ss) + 1" by simp
  show ?thesis
    unfolding choose_act_def
    by (intro does_if go [OF does_set [OF assms(1) t]] go [OF does_get [OF assms(1) t]] go [OF does_data [OF assms(1) t]] does_query [OF assms(1,2) t]
      does_order [OF assms(1,3) t] go [OF does_incr [OF assms(1) t]] go [OF does_lock [OF assms(1) t]]
      go [OF does_convert [where f = "wa_str2zwr A", OF calm_calls(18) [OF assms(1)] texts_fit(2,4)]] go [OF does_convert [where f = "wa_zwr2str A", OF calm_calls(19) [OF assms(1)] texts_fit(1,3)]]
      go [OF does_exit [OF assms(1)]] go [OF does_init [OF assms(1)]] go [OF does_message [OF assms(1)]] go [OF zstatus]
      go [OF does_delete [OF assms(1) t]] go [OF does_delete_excl [OF assms(1) t n]] assms(5))
qed

lemma does_tpHelper:
  assumes "does (quiet r0) run (ends A)"
  shows "does (quiet r0) (tpHelper A run) (ends A)"
proof -
  have "does (quiet r0) (tp_turns A run n) (ends A)" for n
  proof (induction n)
    case 0
    show ?case by (simp add: does_ret ends_def goes_on_def)
  next
    case (Suc n)
    show ?case unfolding tp_turns.simps
      by (rule does_then [OF does_rate], rule does_bind [OF assms], rule does_if, rule does_ret, assumption, rule Suc)
  qed
  then show ?thesis unfolding tpHelper_def randW_def by (intro does_bind [OF does_answer])
qed

lemma does_tp:
  assumes "tp_ok A" "does (quiet r0) m (ends A)"
  shows "does (quiet r0) (callE (wa_tp A name (as_tpfn m))) (ends A)"
  unfolding does_def wpP_callE
proof (intro allI impI)
  fix st :: "'a walk_state" assume q: "quiet r0 (wk_rate st) (wk_events st)"
  have f: "\<exists>s st'. as_tpfn m st = Inr (s, st') \<and> s \<in> Collect (ends A) \<and> quiet r0 (wk_rate st') (wk_events st')" if "quiet r0 (wk_rate st) (wk_events st)" for st
  proof -
    have "wpP m (\<lambda>x st'. ends A x \<and> quiet r0 (wk_rate st') (wk_events st')) (\<lambda>_ _. False) st" using assms(2) that by (simp add: does_def)
    then obtain x st' where "m st = Inr (Inr x, st')" "ends A x \<and> quiet r0 (wk_rate st') (wk_events st')" by (rule wpP_total)
    then show ?thesis by (simp add: as_tpfn_def)
  qed
  have "\<exists>s st'. wa_tp A name (as_tpfn m) st = Inr (s, st') \<and> s \<in> insert (wa_ok A) (Collect (ends A)) \<and> quiet r0 (wk_rate st') (wk_events st')"
    using assms(1) f q unfolding tp_ok_def by blast
  then show "\<exists>x w'. wa_tp A name (as_tpfn m) st = Inr (x, w') \<and> ends A x \<and> quiet r0 (wk_rate w') (wk_events w')"
    by (auto simp: ends_def goes_on_def)
qed

lemma does_run:
  assumes "calm A" "finite_nodes A K" "finite_subs A K" "tp_ok A" "length junk = 32" "D < n + d" "d \<le> D"
  shows "does (quiet r0) (runProc n A K junk D d) (ends A)"
  using assms(6,7)
proof (induction n arbitrary: d)
  case (Suc n)
  have nest: "does (quiet r0) (if d < D then thenP (emit (Log '' tstart ():(serial:transaction=\"BATCH\")''))
             (bindP (callE (wa_tp A ''BATCH'' (as_tpfn (tpHelper A (runProc n A K junk D (d + 1)))))) (\<lambda>s. thenP (emit (Log '' tcommit'')) (retP s)))
        else retP 1) (ends A)"
  proof (rule does_if)
    assume "d < D"
    then have "does (quiet r0) (runProc n A K junk D (d + 1)) (ends A)" using Suc.prems by (intro Suc.IH) simp_all
    note tp = does_tp [OF assms(4) does_tpHelper [OF this]]
    show "does (quiet r0) (thenP (emit (Log '' tstart ():(serial:transaction=\"BATCH\")''))
             (bindP (callE (wa_tp A ''BATCH'' (as_tpfn (tpHelper A (runProc n A K junk D (d + 1)))))) (\<lambda>s. thenP (emit (Log '' tcommit'')) (retP s)))) (ends A)"
      by (rule does_then [OF does_log], rule does_bind [OF tp], rule does_then [OF does_log], rule does_ret)
  next
    show "does (quiet r0) (retP 1) (ends A)" by (rule does_ret) (simp add: ends_def)
  qed
  have ask: "does (quiet r0) (bindP (askP f) g) S" if "\<And>x. does (quiet r0) (g x) S" for f :: "'a walk_state \<Rightarrow> int" and g and S :: "int \<Rightarrow> bool"
    using that unfolding does_def wpP_bind wpP_ask by blast
  show ?case
    unfolding runProc.simps genGlobalName_def randW_def
  proof (rule ask, rule does_bind [where S = "\<lambda>t. \<exists>n b ss. arr_ok (int n + 1) t \<and> copy_name t = (retP (b, ss) :: ('a, string \<times> string list) walk_prog) \<and> length ss = n"])
    show "does (quiet r0) (bindP (callW (wa_rand A)) (\<lambda>r. bindP (callW (wa_rand A)) (\<lambda>r'. liftP (name_at junk (r mod 5) (r' mod 4)))))
      (\<lambda>t. \<exists>n b ss. arr_ok (int n + 1) t \<and> copy_name t = (retP (b, ss) :: ('a, string \<times> string list) walk_prog) \<and> length ss = n)"
    proof (rule does_bind [OF does_answer], rule does_bind [OF does_answer])
      fix r r' :: nat
      obtain t where t: "name_at junk (r mod 5) (r' mod 4) = Inr t" "arr_ok (int (r mod 5) + 1) t"
        "copy_name t = (retP (base_names ! (r' mod 4), map (\<lambda>i. ''sub'' @ dec_of_nat i) [0..<r mod 5]) :: ('a, string \<times> string list) walk_prog)"
        using name_copied [OF assms(5), of "r mod 5" "r' mod 4"] by auto
      show "does (quiet r0) (liftP (name_at junk (r mod 5) (r' mod 4))) (\<lambda>t. \<exists>n b ss. arr_ok (int n + 1) t \<and> copy_name t = (retP (b, ss) :: ('a, string \<times> string list) walk_prog) \<and> length ss = n)"
        by (intro does_lift [OF t(1)] exI conjI, rule t(2), rule t(3)) simp
    qed
  next
    fix odds t assume "\<exists>n b ss. arr_ok (int n + 1) t \<and> copy_name t = (retP (b, ss) :: ('a, string \<times> string list) walk_prog) \<and> length ss = n"
    then obtain b ss where t: "arr_ok (int (length ss) + 1) t" "copy_name t = (retP (b, ss) :: ('a, string \<times> string list) walk_prog)" by blast
    show "does (quiet r0) (bindP (copy_name t) (\<lambda>(base, subs). bindP (callW (wa_rand A)) (\<lambda>r. choose_act A K d odds (r mod 100) base subs t
       (if d < D
        then thenP (emit (Log '' tstart ():(serial:transaction=\"BATCH\")''))
             (bindP (callE (wa_tp A ''BATCH'' (as_tpfn (tpHelper A (runProc n A K junk D (d + 1)))))) (\<lambda>s. thenP (emit (Log '' tcommit'')) (retP s)))
        else retP 1)))) (ends A)"
      unfolding t(2) retP_bind prod.case
      by (rule does_bind [OF does_answer], rule does_choose [OF assms(1-3) t(1) nest])
  qed
qed simp

section \<open>A database that answers\<close>

text \<open>
  Every name has all its subscripts, one below the other: the next node has one subscript more, the previous one has one less, and a
  subscript has no neighbours; after a name comes one that is a character shorter.  The world counts the random numbers.
\<close>

definition subs_upto :: "nat \<Rightarrow> string list" where
  "subs_upto k = map (\<lambda>i. ''sub'' @ dec_of_nat i) [0..<k]"

definition full_tree :: "nat walk_api" where
  "full_tree = \<lparr>wa_ok = 0, wa_restart = 1000, wa_gvundef = 1001, wa_invsvn = 1002, wa_lvundef = 1003, wa_nodeend = 1004, wa_tplock = 1005,
     wa_invydbexit = 1006, wa_rand_max = 2147483647, wa_rand = (\<lambda>w. (w mod 1000, w + 37)), wa_getpid = (\<lambda>w. (7, w)),
     wa_set = (\<lambda>b ss v w. (0, w)), wa_get = (\<lambda>b ss n w. ((1001, []), w)), wa_data = (\<lambda>b ss w. ((0, 11), w)),
     wa_node = (\<lambda>fwd b ss n m w.
       (if fwd then if length ss < 4 then (0, subs_upto (length ss + 1)) else (1004, [])
        else if 0 < length ss \<and> length ss < 5 then (0, subs_upto (length ss - 1)) else (1004, []), w)),
     wa_sub = (\<lambda>fwd b ss n w. (if ss = [] \<and> b \<noteq> [] \<and> length b < 11 then (0, tl b) else (1004, []), w)),
     wa_incr = (\<lambda>b ss v n w. ((0, v), w)), wa_lock = (\<lambda>ns w. (1005, w)), wa_lock_incr = (\<lambda>n w. (0, w)), wa_lock_decr = (\<lambda>n w. (0, w)),
     wa_str2zwr = (\<lambda>s n w. ((0, zwr_text), w)), wa_zwr2str = (\<lambda>s n w. ((0, plain_text), w)), wa_exit = (\<lambda>w. (-1006, w)), wa_init = (\<lambda>w. (0, w)),
     wa_message = (\<lambda>m n w. ((0, ''message''), w)), wa_zstatus = (\<lambda>w. ((), w)), wa_delete_tree = (\<lambda>b ss w. (0, w)),
     wa_delete_node = (\<lambda>b ss w. (1000, w)), wa_delete_excl = (\<lambda>ns w. (0, w)), wa_tp = (\<lambda>name f st. f st)\<rparr>"

lemma subs_upto_fit: "k \<le> 4 \<Longrightarrow> s \<in> set (subs_upto k) \<Longrightarrow> length s < SUB_LEN"
proof -
  assume k: "k \<le> 4" and "s \<in> set (subs_upto k)"
  then obtain i where "i < k" "s = ''sub'' @ dec_of_nat i" by (auto simp: subs_upto_def)
  then show "length s < SUB_LEN" using length_dec_of_nat [of i 0] k by (simp add: SUB_LEN_def)
qed

lemma length_subs_upto [simp]: "length (subs_upto k) = k"
  by (simp add: subs_upto_def)

lemma full_tree_calm: "calm full_tree"
proof -
  have n: "length (snd (fst (wa_node full_tree fwd b ss 4 SUB_LEN w))) \<le> 4 \<and> (\<forall>s \<in> set (snd (fst (wa_node full_tree fwd b ss 4 SUB_LEN w))). length s < SUB_LEN)"
    for fwd b ss w
    using subs_upto_fit [of "length ss + 1"] subs_upto_fit [of "length ss - 1"] by (auto simp: full_tree_def)
  have r: "n mod 1000 \<le> (2147483647 :: nat)" for n using mod_less_divisor [of 1000 n] by linarith
  show ?thesis
    unfolding calm_def using n
    by (simp add: full_tree_def answers_def undefs_def BASE_LEN_def SUB_LEN_def r) auto
qed

lemma full_tree_finite: "finite_nodes full_tree 12" "finite_subs full_tree 12"
proof -
  show "finite_nodes full_tree 12"
    unfolding finite_nodes_def
    by (rule exI [of _ "\<lambda>fwd b ss. if fwd then 4 - length ss else if length ss < 5 then length ss else 0"]) (auto simp: full_tree_def split: if_splits)
  show "finite_subs full_tree 12"
    unfolding finite_subs_def
    by (rule exI [of _ "\<lambda>fwd b ss. if length b < 11 then length b else 0"]) (auto simp: full_tree_def split: if_splits)
qed

lemma full_tree_tp: "tp_ok full_tree"
  unfolding tp_ok_def by (simp add: full_tree_def) blast

section \<open>Rounding\<close>

lemma nearest_eq: "- (1 / 2) < q - of_int z \<Longrightarrow> q - of_int z < 1 / 2 \<Longrightarrow> nearest q = z"
proof (cases "of_int z \<le> q")
  case True
  assume "q - of_int z < 1 / 2"
  moreover from this True have "\<lfloor>q\<rfloor> = z" by linarith
  ultimately show ?thesis by (simp add: nearest_def)
next
  case False
  assume "- (1 / 2) < q - of_int z"
  moreover from this False have "\<lfloor>q\<rfloor> = z - 1" by linarith
  ultimately show ?thesis by (simp add: nearest_def)
qed

lemma round_exact: "0 \<le> m \<Longrightarrow> m < 2 ^ p \<Longrightarrow> 0 < p \<Longrightarrow> round_to n p (of_int m / 2 ^ t) = of_int m / 2 ^ t"
proof (induction n arbitrary: m t)
  case (Suc n)
  show ?case
  proof (cases t)
    case 0
    have "nearest (of_int m) = m" by (rule nearest_eq) simp_all
    moreover have "round_to n p (of_int (2 * m) / 2 ^ 0) = of_int (2 * m) / 2 ^ 0" if "of_int m < (2 :: rat) ^ (p - 1)"
    proof (rule Suc.IH)
      have "m < 2 ^ (p - 1)" using that by (metis of_int_less_iff of_int_numeral of_int_power)
      then show "2 * m < 2 ^ p" using Suc.prems(3) by (cases p) simp_all
    qed (use Suc.prems in simp_all)
    ultimately show ?thesis using 0 by (simp add: not_le)
  next
    case (Suc t')
    have "of_int m / 2 ^ t < (2 :: rat) ^ (p - 1)"
    proof -
      have "of_int m < (2 :: rat) ^ p" using Suc.prems(2) by (metis of_int_less_iff of_int_numeral of_int_power)
      also have "(2 :: rat) ^ p = 2 * 2 ^ (p - 1)" using Suc.prems(3) by (cases p) simp_all
      also have "2 * 2 ^ (p - 1) \<le> 2 ^ t * (2 :: rat) ^ (p - 1)" using Suc by simp
      finally show ?thesis by (simp add: divide_less_eq mult.commute)
    qed
    then show ?thesis using Suc Suc.IH [OF Suc.prems(1,2,3), of t'] by (simp add: not_le)
  qed
qed simp

lemma round_to_step: "0 \<le> q \<Longrightarrow> 2 ^ (p - 1) \<le> 2 ^ s * q \<Longrightarrow> 2 ^ s * q < 2 ^ p \<Longrightarrow> 0 < p \<Longrightarrow> s < n \<Longrightarrow> round_to n p q = of_int (nearest (2 ^ s * q)) / 2 ^ s"
proof (induction s arbitrary: q n)
  case 0
  then show ?case by (cases n) simp_all
next
  case (Suc s)
  obtain n' where n: "n = Suc n'" using Suc.prems(5) by (cases n) simp_all
  have "2 * 2 ^ (p - 1) = (2 :: rat) ^ p" using Suc.prems(4) by (cases p) simp_all
  moreover have "q \<le> 2 ^ s * q" using Suc.prems(1) by (simp add: mult_le_cancel_right1)
  ultimately have "q < 2 ^ (p - 1)" using Suc.prems(3) by (simp add: mult.assoc)
  moreover have "round_to n' p (2 * q) = of_int (nearest (2 ^ s * (2 * q))) / 2 ^ s"
    using Suc.prems n by (intro Suc.IH) (simp_all add: algebra_simps)
  ultimately show ?case using n by (simp add: algebra_simps)
qed

lemma rate_in_transaction: "double (1 / 20) = of_int 7205759403792794 / 2 ^ 57"
proof -
  have "nearest (2 ^ 57 * (1 / 20)) = 7205759403792794" by (rule nearest_eq) simp_all
  then show ?thesis unfolding double_def using round_to_step [of "1 / 20" 53 57 120] by simp
qed

lemma odds_in_transaction: "remaining_odds (double (1 / 20)) = 75"
proof -
  let ?q = "100 * (of_int 7205759403792794 / 2 ^ 57) :: rat"
  have "nearest (2 ^ 50 * ?q) = 5629499534213120" by (rule nearest_eq) simp_all
  then have "double ?q = 5" unfolding double_def using round_to_step [of ?q 53 50 120] by simp
  moreover have "double 75 = 75" unfolding double_def using round_exact [of 75 53 120 0] by simp
  ultimately show ?thesis unfolding remaining_odds_def rate_in_transaction by simp
qed

lemma odds_of_seven: "remaining_odds (TP_NEST_RATE 7) = 72"
proof -
  have "nearest (2 ^ 27 * (7 / 100)) = 9395241" by (rule nearest_eq) simp_all
  then have r: "TP_NEST_RATE 7 = of_int 9395241 / 2 ^ 27"
    unfolding TP_NEST_RATE_def single_def using round_to_step [of "7 / 100" 24 27 80] by simp
  have d1: "double (100 * (of_int 9395241 / 2 ^ 27)) = of_int 939524100 / 2 ^ 27"
    unfolding double_def using round_exact [of 939524100 53 120 27] by simp
  have d2: "double (80 - of_int 939524100 / 2 ^ 27) = of_int 9797894140 / 2 ^ 27"
    unfolding double_def using round_exact [of 9797894140 53 120 27] by simp
  show ?thesis unfolding remaining_odds_def r d1 d2 by (simp add: floor_eq_iff)
qed

text \<open>Rounding to single precision, with the result as a number of 24 binary digits over a power of two.\<close>

definition rounds :: "rat \<Rightarrow> int \<Rightarrow> nat \<Rightarrow> bool" where
  "rounds q z s \<longleftrightarrow> s < 80 \<and> 2 ^ 23 \<le> 2 ^ s * q \<and> 2 ^ s * q < 2 ^ 24 \<and>
     (\<bar>2 ^ s * q - of_int z\<bar> < 1 / 2 \<or> \<bar>2 ^ s * q - of_int z\<bar> = 1 / 2 \<and> even z)"

lemma nearest_tie:
  assumes "\<bar>q - of_int z\<bar> = 1 / 2" "even z"
  shows "nearest q = z"
proof (cases "of_int z \<le> q")
  case True
  then have q: "q = of_int z + 1 / 2" using assms(1) by simp
  then have "\<lfloor>q\<rfloor> = z" by linarith
  then show ?thesis using assms(2) q by (simp add: nearest_def Let_def)
next
  case False
  then have q: "q = of_int z - 1 / 2" using assms(1) by simp
  then have "\<lfloor>q\<rfloor> = z - 1" by linarith
  then show ?thesis using assms(2) q by (simp add: nearest_def Let_def)
qed

lemma single_rounds:
  assumes "rounds q z s"
  shows "single q = of_int z / 2 ^ s"
proof -
  have r: "2 ^ 23 \<le> 2 ^ s * q" "2 ^ s * q < 2 ^ 24" "s < 80" using assms by (simp_all add: rounds_def)
  have "0 < 2 ^ s * q" using r(1) by (rule less_le_trans [rotated]) simp
  then have "0 \<le> q" by (simp add: zero_less_mult_iff)
  moreover have "nearest (2 ^ s * q) = z"
  proof (cases "\<bar>2 ^ s * q - of_int z\<bar> < 1 / 2")
    case True
    then show ?thesis by (intro nearest_eq) linarith+
  next
    case False
    then show ?thesis using assms by (intro nearest_tie) (auto simp: rounds_def)
  qed
  ultimately show ?thesis unfolding single_def using round_to_step [of q 24 s 80] r by simp
qed

lemma chosen_rounds:
  assumes "rounds (of_nat k / 15) z1 s1" "rounds (of_int odds * (of_int z1 / 2 ^ s1)) z2 s2" "rounds (20 + of_int z2 / 2 ^ s2) z3 s3"
  shows "chosen odds k a \<longleftrightarrow> int a * 2 ^ s3 < z3"
proof -
  have "chosen odds k a \<longleftrightarrow> of_nat a < of_int z3 / (2 :: rat) ^ s3"
    unfolding chosen_def single_rounds [OF assms(1)] single_rounds [OF assms(2)] single_rounds [OF assms(3)] ..
  also have "\<dots> \<longleftrightarrow> of_int (int a * 2 ^ s3) < (of_int z3 :: rat)" by (simp add: less_divide_eq)
  also have "\<dots> \<longleftrightarrow> int a * 2 ^ s3 < z3" by (rule of_int_less_iff)
  finally show ?thesis .
qed

lemma chosen_75:
  "chosen 75 2 a \<longleftrightarrow> a < 30"
  "chosen 75 3 a \<longleftrightarrow> a < 35"
  "chosen 75 4 a \<longleftrightarrow> a < 40"
  "chosen 75 5 a \<longleftrightarrow> a < 45"
  "chosen 75 6 a \<longleftrightarrow> a < 50"
  "chosen 75 7 a \<longleftrightarrow> a < 55"
  "chosen 75 8 a \<longleftrightarrow> a < 61"
  "chosen 75 9 a \<longleftrightarrow> a < 65"
  "chosen 75 10 a \<longleftrightarrow> a < 70"
  "chosen 75 11 a \<longleftrightarrow> a < 75"
  "chosen 75 12 a \<longleftrightarrow> a < 80"
  "chosen 75 13 a \<longleftrightarrow> a < 85"
  "chosen 75 14 a \<longleftrightarrow> a < 90"
  "chosen 75 15 a \<longleftrightarrow> a < 95"
proof -
  note c = chosen_rounds [where a = a]
  show "chosen 75 2 a \<longleftrightarrow> a < 30"
    using c [of 2 8947849 26 75 10485761 20 15728640 19] by (simp add: rounds_def, linarith?)
  show "chosen 75 3 a \<longleftrightarrow> a < 35"
    using c [of 3 13421773 26 75 15728640 20 9175040 18] by (simp add: rounds_def, linarith?)
  show "chosen 75 4 a \<longleftrightarrow> a < 40"
    using c [of 4 8947849 25 75 10485761 19 10485760 18] by (simp add: rounds_def, linarith?)
  show "chosen 75 5 a \<longleftrightarrow> a < 45"
    using c [of 5 11184811 25 75 13107200 19 11796480 18] by (simp add: rounds_def, linarith?)
  show "chosen 75 6 a \<longleftrightarrow> a < 50"
    using c [of 6 13421773 25 75 15728640 19 13107200 18] by (simp add: rounds_def, linarith?)
  show "chosen 75 7 a \<longleftrightarrow> a < 55"
    using c [of 7 15658735 25 75 9175040 18 14417920 18] by (simp add: rounds_def, linarith?)
  show "chosen 75 8 a \<longleftrightarrow> a < 61"
    using c [of 8 8947849 24 75 10485761 18 15728641 18] by (simp add: rounds_def, linarith?)
  show "chosen 75 9 a \<longleftrightarrow> a < 65"
    using c [of 9 10066330 24 75 11796480 18 8519680 17] by (simp add: rounds_def, linarith?)
  show "chosen 75 10 a \<longleftrightarrow> a < 70"
    using c [of 10 11184811 24 75 13107200 18 9175040 17] by (simp add: rounds_def, linarith?)
  show "chosen 75 11 a \<longleftrightarrow> a < 75"
    using c [of 11 12303292 24 75 14417920 18 9830400 17] by (simp add: rounds_def, linarith?)
  show "chosen 75 12 a \<longleftrightarrow> a < 80"
    using c [of 12 13421773 24 75 15728640 18 10485760 17] by (simp add: rounds_def, linarith?)
  show "chosen 75 13 a \<longleftrightarrow> a < 85"
    using c [of 13 14540254 24 75 8519680 17 11141120 17] by (simp add: rounds_def, linarith?)
  show "chosen 75 14 a \<longleftrightarrow> a < 90"
    using c [of 14 15658735 24 75 9175040 17 11796480 17] by (simp add: rounds_def, linarith?)
  show "chosen 75 15 a \<longleftrightarrow> a < 95"
    using c [of 15 8388608 23 75 9830400 17 12451840 17] by (simp add: rounds_def, linarith?)
qed

lemma chosen_72:
  "chosen 72 2 a \<longleftrightarrow> a < 30"
  "chosen 72 3 a \<longleftrightarrow> a < 35"
  "chosen 72 4 a \<longleftrightarrow> a < 40"
  "chosen 72 5 a \<longleftrightarrow> a < 44"
  "chosen 72 6 a \<longleftrightarrow> a < 49"
  "chosen 72 7 a \<longleftrightarrow> a < 54"
  "chosen 72 8 a \<longleftrightarrow> a < 59"
  "chosen 72 9 a \<longleftrightarrow> a < 64"
  "chosen 72 10 a \<longleftrightarrow> a < 68"
  "chosen 72 11 a \<longleftrightarrow> a < 73"
  "chosen 72 12 a \<longleftrightarrow> a < 78"
  "chosen 72 13 a \<longleftrightarrow> a < 83"
  "chosen 72 14 a \<longleftrightarrow> a < 88"
  "chosen 72 15 a \<longleftrightarrow> a < 92"
proof -
  note c = chosen_rounds [where a = a]
  show "chosen 72 2 a \<longleftrightarrow> a < 30"
    using c [of 2 8947849 26 72 10066330 20 15518925 19] by (simp add: rounds_def, linarith?)
  show "chosen 72 3 a \<longleftrightarrow> a < 35"
    using c [of 3 13421773 26 72 15099495 20 9017754 18] by (simp add: rounds_def, linarith?)
  show "chosen 72 4 a \<longleftrightarrow> a < 40"
    using c [of 4 8947849 25 72 10066330 19 10276045 18] by (simp add: rounds_def, linarith?)
  show "chosen 72 5 a \<longleftrightarrow> a < 44"
    using c [of 5 11184811 25 72 12582912 19 11534336 18] by (simp add: rounds_def, linarith?)
  show "chosen 72 6 a \<longleftrightarrow> a < 49"
    using c [of 6 13421773 25 72 15099495 19 12792628 18] by (simp add: rounds_def, linarith?)
  show "chosen 72 7 a \<longleftrightarrow> a < 54"
    using c [of 7 15658735 25 72 8808038 18 14050918 18] by (simp add: rounds_def, linarith?)
  show "chosen 72 8 a \<longleftrightarrow> a < 59"
    using c [of 8 8947849 24 72 10066330 18 15309210 18] by (simp add: rounds_def, linarith?)
  show "chosen 72 9 a \<longleftrightarrow> a < 64"
    using c [of 9 10066330 24 72 11324621 18 16567501 18] by (simp add: rounds_def, linarith?)
  show "chosen 72 10 a \<longleftrightarrow> a < 68"
    using c [of 10 11184811 24 72 12582912 18 8912896 17] by (simp add: rounds_def, linarith?)
  show "chosen 72 11 a \<longleftrightarrow> a < 73"
    using c [of 11 12303292 24 72 13841204 18 9542042 17] by (simp add: rounds_def, linarith?)
  show "chosen 72 12 a \<longleftrightarrow> a < 78"
    using c [of 12 13421773 24 72 15099495 18 10171188 17] by (simp add: rounds_def, linarith?)
  show "chosen 72 13 a \<longleftrightarrow> a < 83"
    using c [of 13 14540254 24 72 16357786 18 10800333 17] by (simp add: rounds_def, linarith?)
  show "chosen 72 14 a \<longleftrightarrow> a < 88"
    using c [of 14 15658735 24 72 8808038 17 11429478 17] by (simp add: rounds_def, linarith?)
  show "chosen 72 15 a \<longleftrightarrow> a < 92"
    using c [of 15 8388608 23 72 9437184 17 12058624 17] by (simp add: rounds_def, linarith?)
qed

section \<open>The random choices of a run\<close>

text \<open>What a run does with an action, by the number of limits that the action reaches.\<close>

definition acts :: "'w walk_api \<Rightarrow> nat \<Rightarrow> nat \<Rightarrow> string \<Rightarrow> string list \<Rightarrow> strArr \<Rightarrow> ('w, int) walk_prog \<Rightarrow> ('w, int) walk_prog list" where
  "acts A K d base subs t nest =
     [act_set A base subs t, act_get A base subs t, act_data A base subs t, act_query A K base subs t, act_order A K base subs t,
      act_incr A base subs t, act_lock A t, act_convert A (wa_str2zwr A) ''ydb_str2zwr'' plain_text zwr_text,
      act_convert A (wa_zwr2str A) ''ydb_zwr2str'' zwr_text plain_text, if 0 < d then act_exit A else act_init A, act_init A,
      act_message A, thenP (callW (wa_zstatus A)) (retP (wa_ok A)), act_delete A base subs t, act_delete_excl A base t, nest]"

definition act_number :: "nat list \<Rightarrow> nat \<Rightarrow> nat" where
  "act_number limits action = length (filter (\<lambda>l. l \<le> action) limits)"

lemma choose_75:
  "choose_act A K d 75 action base subs t nest =
     acts A K d base subs t nest ! act_number [20, 30, 35, 40, 45, 50, 55, 61, 65, 70, 75, 80, 85, 90, 95] action"
  unfolding choose_act_def chosen_75 acts_def act_number_def by simp

lemma choose_72:
  "choose_act A K d 72 action base subs t nest =
     acts A K d base subs t nest ! act_number [20, 30, 35, 40, 44, 49, 54, 59, 64, 68, 73, 78, 83, 88, 92] action"
  unfolding choose_act_def chosen_72 acts_def act_number_def by simp

text \<open>The transaction that a run starts, where the depth allows it.\<close>

definition nested :: "nat \<Rightarrow> 'w walk_api \<Rightarrow> nat \<Rightarrow> string \<Rightarrow> nat \<Rightarrow> nat \<Rightarrow> ('w, int) walk_prog" where
  "nested n A K junk D d =
     (if d < D
      then thenP (emit (Log '' tstart ():(serial:transaction=\"BATCH\")''))
           (bindP (callE (wa_tp A ''BATCH'' (as_tpfn (tpHelper A (runProc n A K junk D (d + 1)))))) (\<lambda>s.
           thenP (emit (Log '' tcommit'')) (retP s)))
      else retP 1)"

lemma run_drawn:
  assumes "length junk = 32" "wa_rand A (wk_world st) = (r1, w1)" "wa_rand A w1 = (r2, w2)" "wa_rand A w2 = (r3, w3)"
  obtains t where "name_at junk (r1 mod 5) (r2 mod 4) = Inr t" "arr_ok (int (r1 mod 5) + 1) t"
    "runProc (Suc n) A K junk D d st =
       choose_act A K d (remaining_odds (wk_rate st)) (r3 mod 100) (base_names ! (r2 mod 4)) (map (\<lambda>i. ''sub'' @ dec_of_nat i) [0..<r1 mod 5]) t
         (nested n A K junk D d) (st\<lparr>wk_world := w3\<rparr>)"
proof -
  obtain t where t: "name_at junk (r1 mod 5) (r2 mod 4) = Inr t" "arr_ok (int (r1 mod 5) + 1) t"
    "copy_name t = (retP (base_names ! (r2 mod 4), map (\<lambda>i. ''sub'' @ dec_of_nat i) [0..<r1 mod 5]) :: ('a, string \<times> string list) walk_prog)"
    using name_copied [OF assms(1), of "r1 mod 5" "r2 mod 4"] by auto
  have run: "bindP (callW (wa_rand A)) f u = f (fst (wa_rand A (wk_world u))) (u\<lparr>wk_world := snd (wa_rand A (wk_world u))\<rparr>)" for f :: "nat \<Rightarrow> ('a, 'b) walk_prog" and u
    by (simp add: bindP_def callW_def callP_def)
  have assoc: "bindP (bindP m f) g = bindP m (\<lambda>x. bindP (f x) g)" for m :: "('a, nat) walk_prog" and f :: "nat \<Rightarrow> ('a, strArr) walk_prog" and g :: "strArr \<Rightarrow> ('a, int) walk_prog"
    by (rule ext) (auto simp: bindP_def split: sum.split)
  have "runProc (Suc n) A K junk D d st =
       choose_act A K d (remaining_odds (wk_rate st)) (r3 mod 100) (base_names ! (r2 mod 4)) (map (\<lambda>i. ''sub'' @ dec_of_nat i) [0..<r1 mod 5]) t
         (nested n A K junk D d) (st\<lparr>wk_world := w3\<rparr>)"
    unfolding runProc.simps genGlobalName_def randW_def nested_def assoc
    by (simp add: bindP_def [of "askP _"] askP_def run assms(2-4) t(1,3) bindP_lift retP_bind)
  with t(1,2) show thesis by (rule that)
qed

section \<open>The claims\<close>

text \<open>C13. Although a pointer is stored behind the array of the structure, the name and the subscripts that \<^verbatim>\<open>genGlobalName\<close> makes are the ones
  that it draws, whatever its buffer held before.\<close>

theorem name_generated:
  assumes "length junk = 32"
  shows "\<exists>st'. bindP (genGlobalName A junk) copy_name st =
     Inr (Inr (base_names ! (fst (wa_rand A (snd (wa_rand A (wk_world st)))) mod 4),
               map (\<lambda>i. ''sub'' @ dec_of_nat i) [0..<fst (wa_rand A (wk_world st)) mod 5]), st')"
proof -
  let ?r = "fst (wa_rand A (wk_world st)) mod 5" and ?b = "fst (wa_rand A (snd (wa_rand A (wk_world st)))) mod 4"
  obtain t where t: "name_at junk ?r ?b = Inr t"
    "copy_name t = (retP (base_names ! ?b, map (\<lambda>i. ''sub'' @ dec_of_nat i) [0..<?r]) :: ('a, string \<times> string list) walk_prog)"
    using name_copied [OF assms, of ?r ?b] by auto
  show ?thesis
    using t by (simp add: genGlobalName_def randW_def bindP_def callW_def callP_def liftP_def retP_def)
qed

theorem name_generated_witness:
  "\<exists>st'. bindP (genGlobalName full_tree (replicate 32 (CHR ''x''))) copy_name \<lparr>wk_world = 3, wk_rate = 0, wk_events = []\<rparr> =
     Inr (Inr (''^MyGlobal1'', [''sub0'', ''sub1'', ''sub2'']), st')"
proof -
  have "map (\<lambda>i. ''sub'' @ dec_of_nat i) [0..<3] = [''sub0'', ''sub1'', ''sub2'']" by code_simp
  then show ?thesis
    using name_generated [of "replicate 32 (CHR ''x'')" full_tree "\<lparr>wk_world = 3, wk_rate = 0, wk_events = []\<rparr>"]
    by (simp add: full_tree_def base_names_def)
qed

text \<open>C9. On a database that answers as it should a run of the random walk, with all the transactions that it nests, ends without a fault, whatever
  is drawn: every buffer is large enough, no assertion fails and nothing is reported.  It returns success, a request for a restart, the
  end of the nodes, or 1.\<close>

theorem walk_reports_nothing:
  assumes "calm A" "finite_nodes A K" "finite_subs A K" "tp_ok A" "length junk = 32" "D < n + d" "d \<le> D" "\<forall>e \<in> set (wk_events st). \<exists>l. e = Log l"
  shows "\<exists>s st'. runProc n A K junk D d st = Inr (Inr s, st') \<and> (\<forall>e \<in> set (wk_events st'). \<exists>l. e = Log l) \<and>
     s \<in> {wa_ok A, wa_restart A, wa_nodeend A, 1} \<and> wk_rate st' \<in> {wk_rate st, double (1 / 20)}"
proof -
  have "quiet (wk_rate st) (wk_rate st) (wk_events st)" using assms(8) by (simp add: quiet_def)
  then have "wpP (runProc n A K junk D d) (\<lambda>x st'. ends A x \<and> quiet (wk_rate st) (wk_rate st') (wk_events st')) (\<lambda>_ _. False) st"
    using does_run [OF assms(1-7), of "wk_rate st"] by (simp add: does_def)
  then obtain s st' where "runProc n A K junk D d st = Inr (Inr s, st')" "ends A s \<and> quiet (wk_rate st) (wk_rate st') (wk_events st')" by (rule wpP_total)
  then show ?thesis by (auto simp: ends_def goes_on_def quiet_def)
qed

theorem walk_reports_nothing_witness:
  "\<exists>s st'. runProc 3 full_tree 12 (replicate 32 (CHR ''x'')) 2 0 \<lparr>wk_world = 5, wk_rate = TP_NEST_RATE 20, wk_events = []\<rparr> = Inr (Inr s, st') \<and>
     (\<forall>e \<in> set (wk_events st'). \<exists>l. e = Log l) \<and> s \<in> {0, 1000, 1004, 1} \<and> wk_rate st' \<in> {TP_NEST_RATE 20, double (1 / 20)}"
  using walk_reports_nothing [OF full_tree_calm full_tree_finite full_tree_tp, of "replicate 32 (CHR ''x'')" 2 3 0 "\<lparr>wk_world = 5, wk_rate = TP_NEST_RATE 20, wk_events = []\<rparr>"]
  by (simp add: full_tree_def)

text \<open>A turn that walks over nodes or subscripts ends with the status at the end of them.\<close>

lemma walk_ends:
  assumes "calm A" "finite_nodes A K" "finite_subs A K" "arr_ok (int (length ss) + 1) t" "\<forall>e \<in> set (wk_events st). \<exists>l. e = Log l"
    and only: "\<And>fwd b ss w. fst (fst (wa_node A fwd b ss 4 SUB_LEN w)) \<in> {wa_ok A, wa_restart A, wa_nodeend A}"
      "\<And>fwd b ss w. fst (fst (wa_sub A fwd b ss 16 w)) \<in> {wa_ok A, wa_restart A, wa_nodeend A}"
    and distinct: "wa_ok A \<notin> {wa_restart A, wa_nodeend A}" "{wa_restart A, wa_nodeend A} \<inter> set (undefs A) = {}"
    and act: "act \<in> {act_query A K b ss t, act_order A K b ss t}"
  shows "\<exists>s st'. act st = Inr (Inr s, st') \<and> s \<in> {wa_restart A, wa_nodeend A}"
proof -
  let ?X = "{wa_ok A, wa_restart A, wa_nodeend A}" and ?S = "\<lambda>s. s \<in> {wa_restart A, wa_nodeend A}"
  have end_: "does (quiet r0) (bindP m (\<lambda>(s, t). if s \<noteq> wa_nodeend A then tolerate A (undefs A) call s else retP s)) ?S"
    if m: "does (quiet r0) m (\<lambda>(s, t). s \<noteq> wa_ok A \<and> s \<in> ?X)" for m :: "('a, int \<times> strArr) walk_prog" and call r0
  proof (rule does_bind [OF m])
    fix x assume "case x of (s, t) \<Rightarrow> s \<noteq> wa_ok A \<and> s \<in> ?X"
    then obtain s t where x: "x = (s, t)" "?S s" "s \<noteq> wa_ok A" by (cases x) auto
    have "s \<notin> set (undefs A)" using x(2) distinct(2) by auto
    then have "(if s \<noteq> wa_nodeend A then tolerate A (undefs A) call s else retP s) = retP s" using x(2,3) by (auto simp: tolerate_def)
    then show "does (quiet r0) (case x of (s, t) \<Rightarrow> if s \<noteq> wa_nodeend A then tolerate A (undefs A) call s else retP s) ?S"
      unfolding x(1) prod.case by (simp only: does_ret x(2))
  qed
  obtain rn where rn: "\<forall>fwd b ss. rn fwd b ss < K \<and>
     (\<forall>w ss'. fst (wa_node A fwd b ss 4 SUB_LEN w) = (wa_ok A, ss') \<longrightarrow> rn fwd b ss' < (rn fwd b ss :: nat))"
    using assms(2) unfolding finite_nodes_def by blast
  have q: "does (quiet r0) (query_loop A K fwd b ss t) (\<lambda>(s, t). s \<noteq> wa_ok A \<and> s \<in> ?X)" for fwd r0
    using rn by (intro does_query_loop [OF assms(1) only(1) _ assms(4), where rn = "rn fwd b"]) auto
  obtain rs where rs: "\<forall>fwd b ss. rs fwd b ss < K \<and>
     (\<forall>w v. fst (wa_sub A fwd b ss 16 w) = (wa_ok A, v) \<longrightarrow>
        (if ss = [] then rs fwd v [] else rs fwd b (butlast ss @ [v])) < (rs fwd b ss :: nat))"
    using assms(3) unfolding finite_subs_def by blast
  have r: "rs fwd b ss < K" "fst (wa_sub A fwd b [] 16 w) = (wa_ok A, v) \<Longrightarrow> rs fwd v [] < rs fwd b []"
    "ss \<noteq> [] \<Longrightarrow> fst (wa_sub A fwd b ss 16 w) = (wa_ok A, v) \<Longrightarrow> rs fwd b (butlast ss @ [v]) < rs fwd b ss" for fwd b ss w v
    using rs [THEN spec, of fwd, THEN spec, of b, THEN spec, of "[]"] rs [THEN spec, of fwd, THEN spec, of b, THEN spec, of ss] by auto
  have o: "does (quiet r0) (order_loop A K fwd b ss t) (\<lambda>(s, t). s \<noteq> wa_ok A \<and> s \<in> ?X)" for fwd r0
    by (rule does_order_loop [OF assms(1) only(2) r(2,3) assms(4) refl r(1)])
  have a: "does (quiet r0) act ?S" for r0
  proof (cases "act = act_query A K b ss t")
    case True
    show ?thesis unfolding True act_query_def by (rule does_bind [OF does_direction], rule end_, rule q)
  next
    case False
    then have "act = act_order A K b ss t" using act by blast
    then show ?thesis unfolding act_order_def by (simp only:) (rule does_bind [OF does_direction], rule end_, rule o)
  qed
  have "quiet (wk_rate st) (wk_rate st) (wk_events st)" using assms(5) by (simp add: quiet_def)
  then have "wpP act (\<lambda>x st'. ?S x \<and> quiet (wk_rate st) (wk_rate st') (wk_events st')) (\<lambda>_ _. False) st"
    using a unfolding does_def by blast
  then obtain s st' where "act st = Inr (Inr s, st')" "?S s \<and> quiet (wk_rate st) (wk_rate st') (wk_events st')" by (rule wpP_total)
  then show ?thesis by blast
qed

text \<open>C10. In a transaction of the random walk that draws one turn or more, a first turn that draws an action from 35 to 44 walks over nodes
  or subscripts.  Where no variable is undefined the walk ends with the status at the end of the nodes, which is not made a success, or with a
  request for a restart, and the function of the transaction returns this status and leaves everything as that turn left it: the turns that
  remain are left out.\<close>

theorem walks_end_transactions:
  assumes "calm A" "finite_nodes A K" "finite_subs A K" "length junk = 32" "\<forall>e \<in> set (wk_events st). \<exists>l. e = Log l"
    and "\<And>fwd b ss w. fst (fst (wa_node A fwd b ss 4 SUB_LEN w)) \<in> {wa_ok A, wa_restart A, wa_nodeend A}"
      "\<And>fwd b ss w. fst (fst (wa_sub A fwd b ss 16 w)) \<in> {wa_ok A, wa_restart A, wa_nodeend A}"
    and "wa_ok A \<notin> {wa_restart A, wa_nodeend A}" "{wa_restart A, wa_nodeend A} \<inter> set (undefs A) = {}"
    and "wa_rand A (wk_world st) = (r0, w0)" "r0 mod 20 \<noteq> 0"
    and "wa_rand A w0 = (r1, w1)" "wa_rand A w1 = (r2, w2)" "wa_rand A w2 = (r3, w3)" "35 \<le> r3 mod 100" "r3 mod 100 < 45"
  shows "\<exists>s st'. tpHelper A (runProc (Suc n) A K junk D d) st = Inr (Inr s, st') \<and> s \<in> {wa_restart A, wa_nodeend A} \<and>
     runProc (Suc n) A K junk D d (st\<lparr>wk_world := w0, wk_rate := double (1 / 20)\<rparr>) = Inr (Inr s, st')"
proof -
  let ?st = "st\<lparr>wk_world := w0, wk_rate := double (1 / 20)\<rparr>" and ?run = "runProc (Suc n) A K junk D d"
  let ?b = "base_names ! (r2 mod 4)" and ?ss = "map (\<lambda>i. ''sub'' @ dec_of_nat i) [0..<r1 mod 5]"
  obtain t where t: "arr_ok (int (r1 mod 5) + 1) t"
    "?run ?st = choose_act A K d (remaining_odds (wk_rate ?st)) (r3 mod 100) ?b ?ss t (nested n A K junk D d) (?st\<lparr>wk_world := w3\<rparr>)"
    by (rule run_drawn [OF assms(4), of A ?st r1 w1 r2 w2 r3 w3 n K D d]) (use assms(12-14) in simp_all)
  have odds: "remaining_odds (wk_rate ?st) = 75" using odds_in_transaction by simp
  have act: "choose_act A K d 75 (r3 mod 100) ?b ?ss t (nested n A K junk D d) \<in> {act_query A K ?b ?ss t, act_order A K ?b ?ss t}"
    using assms(15,16) unfolding choose_act_def chosen_75 by auto
  have len: "arr_ok (int (length ?ss) + 1) t" using t(1) by simp
  have ev: "\<forall>e \<in> set (wk_events (?st\<lparr>wk_world := w3\<rparr>)). \<exists>l. e = Log l" using assms(5) by simp
  obtain s st' where s: "?run ?st = Inr (Inr s, st')" "s \<in> {wa_restart A, wa_nodeend A}"
    using walk_ends [OF assms(1-3) len ev assms(6-9) act] t(2) unfolding odds by auto
  obtain j where j: "r0 mod 20 = Suc j" using assms(11) not0_implies_Suc by blast
  have "s \<noteq> wa_ok A" using s(2) assms(8) by auto
  then have "tp_turns A ?run (Suc j) (st\<lparr>wk_world := w0\<rparr>) = Inr (Inr s, st')"
    unfolding tp_turns.simps using s(1) by (simp add: thenP_def bindP_def set_rate_def callP_def retP_def del: runProc.simps)
  then have "tpHelper A ?run st = Inr (Inr s, st')"
    unfolding tpHelper_def randW_def by (simp add: bindP_def callW_def callP_def assms(10) j del: runProc.simps tp_turns.simps)
  then show ?thesis using s by blast
qed

theorem walks_end_transactions_witness:
  "\<exists>s st'. tpHelper full_tree (runProc 2 full_tree 12 (replicate 32 (CHR ''x'')) 1 1) \<lparr>wk_world = 29, wk_rate = 0, wk_events = []\<rparr> = Inr (Inr s, st') \<and>
     s \<in> {1000, 1004}"
proof -
  let ?st = "\<lparr>wk_world = 29, wk_rate = 0, wk_events = []\<rparr> :: nat walk_state"
  have "\<exists>s st'. tpHelper full_tree (runProc (Suc 1) full_tree 12 (replicate 32 (CHR ''x'')) 1 1) ?st = Inr (Inr s, st') \<and>
     s \<in> {wa_restart full_tree, wa_nodeend full_tree} \<and>
     runProc (Suc 1) full_tree 12 (replicate 32 (CHR ''x'')) 1 1 (?st\<lparr>wk_world := 66, wk_rate := double (1 / 20)\<rparr>) = Inr (Inr s, st')"
    by (rule walks_end_transactions [OF full_tree_calm full_tree_finite, where ?r0.0 = 29 and ?r1.0 = 66 and ?w1.0 = 103 and ?r2.0 = 103
          and ?w2.0 = 140 and ?r3.0 = 140 and ?w3.0 = 177])
      (simp_all add: full_tree_def undefs_def)
  then show ?thesis unfolding Suc_1 by (auto simp: full_tree_def)
qed

text \<open>C14. In a transaction the hundred numbers that a run draws from select its acts by the limits 20, 30, 35 and so on in steps of five: five of
  them start another transaction, as the comment says, and one, 60, converts to the format of the zwrite command where the exact quotients would
  convert back, because the products are rounded to single precision.  Outside, a rate of seven hundredths is a bit more when it is rounded, the
  odds that remain are truncated to 72, and eight of the hundred numbers start a transaction.\<close>

theorem odds_of_nesting:
  assumes "length junk = 32" "wa_rand A (wk_world st) = (r1, w1)" "wa_rand A w1 = (r2, w2)" "wa_rand A w2 = (r3, w3)"
    and "(wk_rate st, limits) \<in> {(double (1 / 20), [20, 30, 35, 40, 45, 50, 55, 61, 65, 70, 75, 80, 85, 90, 95]),
      (TP_NEST_RATE 7, [20, 30, 35, 40, 44, 49, 54, 59, 64, 68, 73, 78, 83, 88, 92])}"
  shows "\<exists>t. name_at junk (r1 mod 5) (r2 mod 4) = Inr t \<and>
     runProc (Suc n) A K junk D d st =
       (acts A K d (base_names ! (r2 mod 4)) (map (\<lambda>i. ''sub'' @ dec_of_nat i) [0..<r1 mod 5]) t (nested n A K junk D d) !
          act_number limits (r3 mod 100)) (st\<lparr>wk_world := w3\<rparr>)"
proof -
  obtain t where t: "name_at junk (r1 mod 5) (r2 mod 4) = Inr t"
    "runProc (Suc n) A K junk D d st =
       choose_act A K d (remaining_odds (wk_rate st)) (r3 mod 100) (base_names ! (r2 mod 4)) (map (\<lambda>i. ''sub'' @ dec_of_nat i) [0..<r1 mod 5]) t
         (nested n A K junk D d) (st\<lparr>wk_world := w3\<rparr>)"
    by (rule run_drawn [OF assms(1-4)])
  from assms(5) show ?thesis
  proof (elim insertE emptyE)
    assume "(wk_rate st, limits) = (double (1 / 20), [20, 30, 35, 40, 45, 50, 55, 61, 65, 70, 75, 80, 85, 90, 95])"
    then show ?thesis using t unfolding prod.inject by (simp only: odds_in_transaction choose_75) blast
  next
    assume "(wk_rate st, limits) = (TP_NEST_RATE 7, [20, 30, 35, 40, 44, 49, 54, 59, 64, 68, 73, 78, 83, 88, 92])"
    then show ?thesis using t unfolding prod.inject by (simp only: odds_of_seven choose_72) blast
  qed
qed

text \<open>The same number starts a transaction outside and not inside.\<close>

theorem odds_of_nesting_witness:
  "runProc 1 full_tree 12 (replicate 32 (CHR ''x'')) 0 0 \<lparr>wk_world = 19, wk_rate = TP_NEST_RATE 7, wk_events = []\<rparr> =
     Inr (Inr 1, \<lparr>wk_world = 130, wk_rate = TP_NEST_RATE 7, wk_events = []\<rparr>) \<and>
   (\<exists>t. runProc 1 full_tree 12 (replicate 32 (CHR ''x'')) 0 0 \<lparr>wk_world = 19, wk_rate = double (1 / 20), wk_events = []\<rparr> =
     act_delete_excl full_tree ''^MyGlobal1'' t \<lparr>wk_world = 130, wk_rate = double (1 / 20), wk_events = []\<rparr>)"
proof -
  let ?st = "\<lambda>q. \<lparr>wk_world = 19, wk_rate = q, wk_events = []\<rparr> :: nat walk_state"
  have draws: "wa_rand full_tree 19 = (19, 56)" "wa_rand full_tree 56 = (56, 93)" "wa_rand full_tree 93 = (93, 130)" by (simp_all add: full_tree_def)
  have n: "act_number [20, 30, 35, 40, 44, 49, 54, 59, 64, 68, 73, 78, 83, 88, 92] 93 = 15"
    "act_number [20, 30, 35, 40, 45, 50, 55, 61, 65, 70, 75, 80, 85, 90, 95] 93 = 14" by (simp_all add: act_number_def)
  note run = odds_of_nesting [where junk = "replicate 32 (CHR ''x'')" and A = full_tree and ?r1.0 = 19 and ?w1.0 = 56 and ?r2.0 = 56 and ?w2.0 = 93
      and ?r3.0 = 93 and ?w3.0 = 130 and n = 0 and K = 12 and D = 0 and d = 0]
  have "runProc (Suc 0) full_tree 12 (replicate 32 (CHR ''x'')) 0 0 (?st (TP_NEST_RATE 7)) =
     Inr (Inr 1, \<lparr>wk_world = 130, wk_rate = TP_NEST_RATE 7, wk_events = []\<rparr>)"
    using run [of "?st (TP_NEST_RATE 7)" "[20, 30, 35, 40, 44, 49, 54, 59, 64, 68, 73, 78, 83, 88, 92]"] draws n
    by (auto simp: acts_def nested_def retP_def simp del: runProc.simps)
  moreover have "\<exists>t. runProc (Suc 0) full_tree 12 (replicate 32 (CHR ''x'')) 0 0 (?st (double (1 / 20))) =
     act_delete_excl full_tree ''^MyGlobal1'' t \<lparr>wk_world = 130, wk_rate = double (1 / 20), wk_events = []\<rparr>"
    using run [of "?st (double (1 / 20))" "[20, 30, 35, 40, 45, 50, 55, 61, 65, 70, 75, 80, 85, 90, 95]"] draws n
    by (auto simp: acts_def base_names_def simp del: runProc.simps)
  ultimately show ?thesis by simp
qed

end
