(* ===== verification/Random_Walk_Threaded.thy ===== *)
theory Random_Walk_Threaded
  imports Random_Walk
begin

text \<open>
  The workload \<^verbatim>\<open>simplethreadapi/inref/randomWalk.c\<close>: one thread of the random walk.  What the threads share, the number of threads, the end of
  the time and the rate of nesting, is part of the world, which every call and every look at it may change, as the database is.
  A thread that is started is another run of \<^verbatim>\<open>threadHelper\<close>; this one sees the statuses of \<^verbatim>\<open>pthread_create\<close> and
  \<^verbatim>\<open>pthread_join\<close>.
\<close>

section \<open>The calls\<close>

text \<open>
  The first argument of a call of the database is its token.  \<open>tw_errtext\<close> is what \<^verbatim>\<open>zstatusBuf\<close> holds after a call, \<open>tw_count\<close> adds to
  \<^verbatim>\<open>curThreads\<close> under the mutex, and the value of \<open>tw_data\<close> is whatever \<^verbatim>\<open>retvalue\<close> holds, also after an error.  A thread is created with its token
  and its depth and has an identifier.
\<close>

record 'w tw_api =
  tw_ok :: int
  tw_gvundef :: int
  tw_invsvn :: int
  tw_lvundef :: int
  tw_nodeend :: int
  tw_tplock :: int
  tw_invydbexit :: int
  tw_afterexit :: int
  tw_invtptrans :: int
  tw_notp :: int
  tw_rand_max :: nat
  tw_rand :: "'w \<Rightarrow> nat \<times> 'w"
  tw_getpid :: "'w \<Rightarrow> int \<times> 'w"
  tw_rate :: "'w \<Rightarrow> rat \<times> 'w"
  tw_set_rate :: "rat \<Rightarrow> 'w \<Rightarrow> unit \<times> 'w"
  tw_is_timeout :: "'w \<Rightarrow> bool \<times> 'w"
  tw_threads :: "'w \<Rightarrow> int \<times> 'w"
  tw_count :: "int \<Rightarrow> 'w \<Rightarrow> unit \<times> 'w"
  tw_create :: "int \<Rightarrow> nat \<Rightarrow> 'w \<Rightarrow> (int \<times> nat) \<times> 'w"
  tw_join :: "nat \<Rightarrow> 'w \<Rightarrow> int \<times> 'w"
  tw_errtext :: "'w \<Rightarrow> string \<times> 'w"
  tw_set :: "int \<Rightarrow> string \<Rightarrow> string list \<Rightarrow> string \<Rightarrow> 'w \<Rightarrow> int \<times> 'w"
  tw_get :: "int \<Rightarrow> string \<Rightarrow> string list \<Rightarrow> nat \<Rightarrow> 'w \<Rightarrow> (int \<times> string) \<times> 'w"
  tw_data :: "int \<Rightarrow> string \<Rightarrow> string list \<Rightarrow> 'w \<Rightarrow> (int \<times> nat) \<times> 'w"
  tw_node :: "int \<Rightarrow> bool \<Rightarrow> string \<Rightarrow> string list \<Rightarrow> nat \<Rightarrow> nat \<Rightarrow> 'w \<Rightarrow> (int \<times> string list) \<times> 'w"
  tw_sub :: "int \<Rightarrow> bool \<Rightarrow> string \<Rightarrow> string list \<Rightarrow> nat \<Rightarrow> 'w \<Rightarrow> (int \<times> string) \<times> 'w"
  tw_incr :: "int \<Rightarrow> string \<Rightarrow> string list \<Rightarrow> string \<Rightarrow> nat \<Rightarrow> 'w \<Rightarrow> (int \<times> string) \<times> 'w"
  tw_lock :: "int \<Rightarrow> (string \<times> string list) list \<Rightarrow> 'w \<Rightarrow> int \<times> 'w"
  tw_lock_incr :: "int \<Rightarrow> string \<Rightarrow> string list \<Rightarrow> 'w \<Rightarrow> int \<times> 'w"
  tw_lock_decr :: "int \<Rightarrow> string \<Rightarrow> string list \<Rightarrow> 'w \<Rightarrow> int \<times> 'w"
  tw_str2zwr :: "int \<Rightarrow> string \<Rightarrow> nat \<Rightarrow> 'w \<Rightarrow> (int \<times> string) \<times> 'w"
  tw_zwr2str :: "int \<Rightarrow> string \<Rightarrow> nat \<Rightarrow> 'w \<Rightarrow> (int \<times> string) \<times> 'w"
  tw_exit :: "'w \<Rightarrow> int \<times> 'w"
  tw_init :: "'w \<Rightarrow> int \<times> 'w"
  tw_message :: "int \<Rightarrow> int \<Rightarrow> nat \<Rightarrow> 'w \<Rightarrow> (int \<times> string) \<times> 'w"
  tw_delete_tree :: "int \<Rightarrow> string \<Rightarrow> string list \<Rightarrow> 'w \<Rightarrow> int \<times> 'w"
  tw_delete_node :: "int \<Rightarrow> string \<Rightarrow> string list \<Rightarrow> 'w \<Rightarrow> int \<times> 'w"
  tw_delete_excl :: "int \<Rightarrow> string list \<Rightarrow> 'w \<Rightarrow> int \<times> 'w"
  tw_tp :: "int \<Rightarrow> string \<Rightarrow> (int \<Rightarrow> 'w walk_state \<Rightarrow> c_fault + int \<times> 'w walk_state) \<Rightarrow> 'w walk_state \<Rightarrow> c_fault + int \<times> 'w walk_state"

text \<open>What \<^verbatim>\<open>main\<close> draws and does not change.\<close>

record tw_run =
  tw_max_depth :: nat
  tw_max_threads :: int
  tw_to_make :: nat
  tw_ydb464 :: bool

text \<open>\<^verbatim>\<open>zstatusBuf\<close> has 2048 bytes, and the terminating NUL is one more than its text.\<close>

definition tw_report :: "'w tw_api \<Rightarrow> string \<Rightarrow> int \<Rightarrow> ('w, unit) walk_prog" where
  "tw_report A call s =
     bindP (callW (tw_errtext A)) (\<lambda>text. thenP (liftP (terminated 2048 text)) (emit (Unexpected call s)))"

text \<open>The statuses after a call; the answer is \<^verbatim>\<open>shutdown\<close>.\<close>

definition tw_tolerate :: "'w tw_api \<Rightarrow> int list \<Rightarrow> string \<Rightarrow> int \<Rightarrow> ('w, bool) walk_prog" where
  "tw_tolerate A accepted call s =
     (if s = tw_ok A \<or> s \<in> set accepted then retP False else if s = tw_afterexit A then retP True
      else thenP (tw_report A call s) (retP False))"

definition tw_undefs :: "'w tw_api \<Rightarrow> int list" where
  "tw_undefs A = [tw_gvundef A, tw_invsvn A, tw_lvundef A]"

section \<open>Names\<close>

text \<open>Here the pointers are stored with the subscripts that there are, so that none lands behind the array.\<close>

definition tw_put :: "strArr \<Rightarrow> nat \<Rightarrow> nat \<Rightarrow> string \<Rightarrow> c_fault + strArr" where
  "tw_put t i p s =
     bindE (store (sa_cells t) i (Ptr p)) (\<lambda>cs. bindE (arr_put (t\<lparr>sa_cells := cs\<rparr>) i s) (\<lambda>t.
     bindE (arr_length t) (\<lambda>len. Inr (set_length t (len + 1)))))"

primrec tw_put_subs :: "nat \<Rightarrow> strArr \<Rightarrow> c_fault + strArr" where
  "tw_put_subs 0 t = Inr t"
| "tw_put_subs (Suc i) t = bindE (tw_put_subs i t) (\<lambda>t. tw_put t (i + 1) (BASE_LEN + i * SUB_LEN) (''sub'' @ dec_of_nat i))"

definition tw_name_at :: "string \<Rightarrow> nat \<Rightarrow> nat \<Rightarrow> c_fault + strArr" where
  "tw_name_at junk num_subs baseId =
     bindE (tw_put (set_length \<lparr>sa_raw = junk, sa_cells = replicate 6 Unset\<rparr> 0) 0 0 (base_names ! baseId)) (tw_put_subs num_subs)"

definition tw_genGlobalName :: "'w tw_api \<Rightarrow> string \<Rightarrow> ('w, strArr) walk_prog" where
  "tw_genGlobalName A junk = bindP (callW (tw_rand A)) (\<lambda>r. bindP (callW (tw_rand A)) (\<lambda>r'. liftP (tw_name_at junk (r mod 5) (r' mod 4))))"

section \<open>One random action\<close>

definition tw_act_set :: "'w tw_api \<Rightarrow> int \<Rightarrow> string \<Rightarrow> string list \<Rightarrow> ('w, bool) walk_prog" where
  "tw_act_set A tok base subs =
     bindP (callW (tw_set A tok base subs ''MySecretValue'')) (tw_tolerate A (tw_undefs A) ''ydb_set_st'')"

definition tw_act_get :: "'w tw_api \<Rightarrow> int \<Rightarrow> string \<Rightarrow> string list \<Rightarrow> ('w, bool) walk_prog" where
  "tw_act_get A tok base subs =
     bindP (callW (tw_get A tok base subs 16)) (\<lambda>(s, v). tw_tolerate A (tw_undefs A) ''ydb_get_st'' s)"

text \<open>The value is looked at whatever the status is.\<close>

definition tw_act_data :: "'w tw_api \<Rightarrow> int \<Rightarrow> string \<Rightarrow> string list \<Rightarrow> ('w, bool) walk_prog" where
  "tw_act_data A tok base subs =
     bindP (callW (tw_data A tok base subs)) (\<lambda>(s, v). bindP (tw_tolerate A (tw_undefs A) ''ydb_data_st'' s) (\<lambda>shutdown.
     thenP (if v \<in> {0, 1, 10, 11} then retP () else emit (Wrong ''Unexpected data value issued!'')) (retP shutdown)))"

definition tw_direction :: "'w tw_api \<Rightarrow> ('w, bool) walk_prog" where
  "tw_direction A = bindP (callW (tw_rand A)) (\<lambda>r. retP (r < tw_rand_max A div 2))"

primrec tw_query_loop :: "'w tw_api \<Rightarrow> int \<Rightarrow> nat \<Rightarrow> bool \<Rightarrow> string \<Rightarrow> string list \<Rightarrow> ('w, int) walk_prog" where
  "tw_query_loop A tok 0 fwd base subs = liftP (Inl Out_of_fuel)"
| "tw_query_loop A tok (Suc n) fwd base subs =
     bindP (callW (tw_node A tok fwd base subs 4 SUB_LEN)) (\<lambda>(s, subs). if s = tw_ok A then tw_query_loop A tok n fwd base subs else retP s)"

primrec tw_order_loop :: "'w tw_api \<Rightarrow> int \<Rightarrow> nat \<Rightarrow> bool \<Rightarrow> string \<Rightarrow> string list \<Rightarrow> ('w, int) walk_prog" where
  "tw_order_loop A tok 0 fwd base subs = liftP (Inl Out_of_fuel)"
| "tw_order_loop A tok (Suc n) fwd base subs =
     bindP (callW (tw_sub A tok fwd base subs 16)) (\<lambda>(s, v).
     if subs = []
     then thenP (assertP (length v \<le> BASE_LEN)) (if s = tw_ok A then tw_order_loop A tok n fwd v subs else retP s)
     else thenP (assertP (length v \<le> SUB_LEN)) (if s = tw_ok A then tw_order_loop A tok n fwd base (butlast subs @ [v]) else retP s))"

definition tw_act_query :: "'w tw_api \<Rightarrow> int \<Rightarrow> nat \<Rightarrow> string \<Rightarrow> string list \<Rightarrow> ('w, bool) walk_prog" where
  "tw_act_query A tok K base subs =
     bindP (tw_direction A) (\<lambda>fwd. bindP (tw_query_loop A tok K fwd base subs) (\<lambda>s.
     if s \<noteq> tw_nodeend A then tw_tolerate A (tw_undefs A) ''ydb_node_*_st'' s else retP False))"

definition tw_act_order :: "'w tw_api \<Rightarrow> int \<Rightarrow> nat \<Rightarrow> string \<Rightarrow> string list \<Rightarrow> ('w, bool) walk_prog" where
  "tw_act_order A tok K base subs =
     bindP (tw_direction A) (\<lambda>fwd. bindP (tw_order_loop A tok K fwd base subs) (\<lambda>s.
     if s \<noteq> tw_nodeend A then tw_tolerate A (tw_undefs A) ''ydb_subscript_*_st'' s else retP False))"

definition tw_act_incr :: "'w tw_api \<Rightarrow> int \<Rightarrow> string \<Rightarrow> string list \<Rightarrow> ('w, bool) walk_prog" where
  "tw_act_incr A tok base subs =
     bindP (callW (tw_rand A)) (\<lambda>r.
     let incr_str = dec_of_nat (r div (tw_rand_max A div 5))
     in bindP (liftP (if length incr_str < 2 then Inr incr_str else Inl Write_oob)) (\<lambda>increment.
        bindP (callW (tw_incr A tok base subs increment 16)) (\<lambda>(s, v). tw_tolerate A [] ''ydb_incr_st'' s)))"

text \<open>Here the name itself is locked.  The shutdown of any of the four calls is one of the action.\<close>

definition tw_act_lock :: "'w tw_api \<Rightarrow> int \<Rightarrow> string \<Rightarrow> string list \<Rightarrow> ('w, bool) walk_prog" where
  "tw_act_lock A tok base subs =
     (let acc = tw_undefs A @ [tw_tplock A]
      in bindP (callW (tw_lock A tok [(base, subs)])) (\<lambda>s. bindP (tw_tolerate A acc ''ydb_lock_st'' s) (\<lambda>d1.
         bindP (callW (tw_lock_incr A tok base subs)) (\<lambda>s. bindP (tw_tolerate A acc ''ydb_lock_incr_st'' s) (\<lambda>d2.
         bindP (callW (tw_lock_decr A tok base subs)) (\<lambda>s. bindP (tw_tolerate A acc ''ydb_lock_decr_st'' s) (\<lambda>d3.
         bindP (callW (tw_lock A tok [])) (\<lambda>s. bindP (tw_tolerate A acc ''ydb_lock_st'' s) (\<lambda>d4. retP (d1 \<or> d2 \<or> d3 \<or> d4))))))))))"

text \<open>The plain text has a NUL in it, and only what is before it is compared.\<close>

definition tw_plain :: string where
  "tw_plain = ''a'' @ [CHR 0x0A, CHR 0x09] @ ''b'' @ [NUL] @ ''c''"

definition tw_zwr :: string where
  "tw_zwr = ''\"a\"_$C(10,9)_\"b\"_$C(0)_\"c\"''"

definition tw_act_convert :: "'w tw_api \<Rightarrow> (string \<Rightarrow> nat \<Rightarrow> 'w \<Rightarrow> (int \<times> string) \<times> 'w) \<Rightarrow> string \<Rightarrow> string \<Rightarrow> string \<Rightarrow> ('w, bool) walk_prog" where
  "tw_act_convert A f call strIn compStr =
     bindP (callW (f strIn 64)) (\<lambda>(s, out).
     if s = tw_afterexit A then retP True
     else thenP (if s \<noteq> tw_ok A then tw_report A call s else retP ())
       (bindP (liftP (terminated 64 out)) (\<lambda>out.
       thenP (if out \<noteq> takeWhile (\<lambda>c. c \<noteq> NUL) compStr then emit (Wrong (call @ '' did not return the right value'')) else retP ()) (retP False))))"

text \<open>No call has written into \<^verbatim>\<open>zstatusBuf\<close> where these two report.\<close>

definition tw_act_exit :: "'w tw_api \<Rightarrow> ('w, bool) walk_prog" where
  "tw_act_exit A =
     bindP (callW (tw_exit A)) (\<lambda>s. thenP (if s \<noteq> - tw_invydbexit A then emit (Unexpected ''ydb_exit'' s) else retP ()) (retP False))"

definition tw_act_init :: "'w tw_api \<Rightarrow> ('w, bool) walk_prog" where
  "tw_act_init A =
     bindP (callW (tw_init A)) (\<lambda>s. thenP (if s \<noteq> tw_ok A then emit (Unexpected ''ydb_init'' s) else retP ()) (retP False))"

definition tw_act_message :: "'w tw_api \<Rightarrow> int \<Rightarrow> ('w, bool) walk_prog" where
  "tw_act_message A tok =
     bindP (callW (tw_message A tok (-1) 2048)) (\<lambda>(s, out).
     if s = tw_afterexit A then retP True
     else thenP (if s \<noteq> tw_ok A then tw_report A ''ydb_message_t'' s else retP ())
       (thenP (if out = [] then emit (Wrong ''ydb_message_t() did not correctly modify the buffer'') else retP ()) (retP False)))"

definition tw_act_delete :: "'w tw_api \<Rightarrow> int \<Rightarrow> string \<Rightarrow> string list \<Rightarrow> ('w, bool) walk_prog" where
  "tw_act_delete A tok base subs =
     bindP (callW (tw_rand A)) (\<lambda>r.
     bindP (callW (if r < tw_rand_max A div 2 then tw_delete_tree A tok base subs else tw_delete_node A tok base subs))
       (tw_tolerate A [] ''ydb_delete_st''))"

definition tw_act_delete_excl :: "'w tw_api \<Rightarrow> int \<Rightarrow> string \<Rightarrow> strArr \<Rightarrow> ('w, bool) walk_prog" where
  "tw_act_delete_excl A tok base t =
     bindP (liftP (arr_get t 0)) (\<lambda>name.
     bindP (if name \<noteq> [] \<and> hd name = CHR ''^'' then retP (tw_ok A) else callW (tw_delete_excl A tok [base]))
       (tw_tolerate A [] ''ydb_delete_excl_st''))"

text \<open>A number above 100 would be out of the range of the last case.\<close>

definition tw_choose ::
  "'w tw_api \<Rightarrow> int \<Rightarrow> nat \<Rightarrow> int \<Rightarrow> nat \<Rightarrow> string \<Rightarrow> string list \<Rightarrow> strArr \<Rightarrow> ('w, bool) walk_prog \<Rightarrow> ('w, bool) walk_prog" where
  "tw_choose A tok K odds action base subs t nest =
     (if action < 20 then tw_act_set A tok base subs
      else if chosen odds 2 action then tw_act_get A tok base subs
      else if chosen odds 3 action then tw_act_data A tok base subs
      else if chosen odds 4 action then tw_act_query A tok K base subs
      else if chosen odds 5 action then tw_act_order A tok K base subs
      else if chosen odds 6 action then tw_act_incr A tok base subs
      else if chosen odds 7 action then tw_act_lock A tok base subs
      else if chosen odds 8 action then tw_act_convert A (tw_str2zwr A tok) ''ydb_str2zwr'' tw_plain tw_zwr
      else if chosen odds 9 action then tw_act_convert A (tw_zwr2str A tok) ''ydb_zwr2str'' tw_zwr tw_plain
      else if chosen odds 10 action \<and> tok \<noteq> tw_notp A then tw_act_exit A
      else if chosen odds 11 action then tw_act_init A
      else if chosen odds 12 action then tw_act_message A tok
      else if chosen odds 13 action then retP False
      else if chosen odds 14 action then tw_act_delete A tok base subs
      else if chosen odds 15 action then tw_act_delete_excl A tok base t
      else if action \<le> 100 then nest
      else thenP (emit (Wrong ''Huh, random number out of range'')) (retP False))"

section \<open>Transactions and threads\<close>

text \<open>The function of a transaction does not look at the results of its runs.\<close>

primrec tw_turns :: "'w tw_api \<Rightarrow> ('w, int) walk_prog \<Rightarrow> nat \<Rightarrow> ('w, int) walk_prog" where
  "tw_turns A run 0 = retP 0"
| "tw_turns A run (Suc n) = thenP (callW (tw_set_rate A (double (1 / 10)))) (thenP run (tw_turns A run n))"

definition tw_tpHelper :: "'w tw_api \<Rightarrow> (int \<Rightarrow> ('w, int) walk_prog) \<Rightarrow> int \<Rightarrow> ('w, int) walk_prog" where
  "tw_tpHelper A run tok = bindP (callW (tw_rand A)) (\<lambda>r. tw_turns A (run tok) (r mod 20))"

definition tw_nest_tp :: "'w tw_api \<Rightarrow> tw_run \<Rightarrow> (int \<Rightarrow> ('w, int) walk_prog) \<Rightarrow> int \<Rightarrow> ('w, bool) walk_prog" where
  "tw_nest_tp A R run tok =
     bindP (callE (tw_tp A tok ''BATCH'' (\<lambda>tok'. as_tpfn (tw_tpHelper A run tok')))) (\<lambda>s.
     if s = tw_afterexit A then retP True
     else thenP (assertP (s = tw_ok A \<or> (tw_ydb464 R \<and> s = tw_invtptrans A))) (retP False))"

text \<open>Where a thread cannot be created or joined, the assertion fails after the report.\<close>

definition tw_pthread_failed :: "'w tw_api \<Rightarrow> string \<Rightarrow> int \<Rightarrow> ('w, unit) walk_prog" where
  "tw_pthread_failed A call s =
     (if s \<noteq> 0 then thenP (emit (Unexpected call s)) (thenP (callW (tw_threads A)) (assertP False)) else retP ())"

primrec tw_start :: "'w tw_api \<Rightarrow> int \<Rightarrow> nat \<Rightarrow> nat \<Rightarrow> ('w, nat list) walk_prog" where
  "tw_start A tok depth 0 = retP []"
| "tw_start A tok depth (Suc n) =
     thenP (callW (tw_count A 1)) (bindP (callW (tw_create A tok depth)) (\<lambda>(s, tid).
     thenP (tw_pthread_failed A ''pthread_create'' s) (bindP (tw_start A tok depth n) (\<lambda>tids. retP (tid # tids)))))"

primrec tw_end :: "'w tw_api \<Rightarrow> nat list \<Rightarrow> ('w, unit) walk_prog" where
  "tw_end A [] = retP ()"
| "tw_end A (tid # tids) =
     bindP (callW (tw_join A tid)) (\<lambda>s. thenP (callW (tw_count A (-1))) (thenP (tw_pthread_failed A ''pthread_join'' s) (tw_end A tids)))"

definition tw_nest_threads :: "'w tw_api \<Rightarrow> tw_run \<Rightarrow> int \<Rightarrow> nat \<Rightarrow> ('w, bool) walk_prog" where
  "tw_nest_threads A R tok depth = bindP (tw_start A tok depth (tw_to_make R)) (\<lambda>tids. thenP (tw_end A tids) (retP False))"

text \<open>\<^verbatim>\<open>curThreads\<close> is looked at without the mutex, and only where the number that is drawn is not for a transaction.\<close>

definition tw_nest :: "'w tw_api \<Rightarrow> tw_run \<Rightarrow> (int \<Rightarrow> ('w, int) walk_prog) \<Rightarrow> int \<Rightarrow> nat \<Rightarrow> ('w, bool) walk_prog" where
  "tw_nest A R run tok curDepth =
     bindP (if curDepth < tw_max_depth R then callW (tw_is_timeout A) else retP True) (\<lambda>ends.
     if ends then retP False
     else bindP (callW (tw_rand A)) (\<lambda>choice.
       bindP (if choice < tw_rand_max A div 2 then retP True
              else bindP (callW (tw_threads A)) (\<lambda>cur. retP (cur > tw_max_threads R - int (tw_to_make R)))) (\<lambda>tp.
       if tp then tw_nest_tp A R run tok else tw_nest_threads A R tok (curDepth + 1))))"

primrec tw_runProc :: "nat \<Rightarrow> 'w tw_api \<Rightarrow> tw_run \<Rightarrow> nat \<Rightarrow> string \<Rightarrow> nat \<Rightarrow> int \<Rightarrow> ('w, int) walk_prog" where
  "tw_runProc 0 A R K junk curDepth tok = liftP (Inl Out_of_fuel)"
| "tw_runProc (Suc n) A R K junk curDepth tok =
     bindP (callW (tw_rate A)) (\<lambda>rate. bindP (tw_genGlobalName A junk) (\<lambda>t. bindP (copy_name t) (\<lambda>(base, subs).
     bindP (callW (tw_rand A)) (\<lambda>r.
     bindP (tw_choose A tok K (remaining_odds rate) (r div (tw_rand_max A div 100)) base subs t
       (tw_nest A R (tw_runProc n A R K junk (curDepth + 1)) tok curDepth)) (\<lambda>shutdown.
     retP (if shutdown then tw_afterexit A else 0))))))"

section \<open>The program\<close>

primrec tw_driver :: "'w tw_api \<Rightarrow> ('w, int) walk_prog \<Rightarrow> nat \<Rightarrow> ('w, unit) walk_prog" where
  "tw_driver A run 0 = liftP (Inl Out_of_fuel)"
| "tw_driver A run (Suc n) =
     bindP (callW (tw_is_timeout A)) (\<lambda>ends.
     if ends then retP ()
     else bindP run (\<lambda>rc.
       if rc = tw_afterexit A then retP ()
       else thenP (if rc \<noteq> tw_ok A then emit (Unexpected ''runProc'' rc) else retP ()) (tw_driver A run n)))"

definition tw_storePID :: "'w tw_api \<Rightarrow> ('w, int) walk_prog" where
  "tw_storePID A =
     bindP (callW (tw_sub A (tw_notp A) False ''^pids'' [[]] 8)) (\<lambda>(s, iter).
     thenP (assertP (s = tw_ok A)) (bindP (callW (tw_getpid A)) (\<lambda>pid.
     let pidStr = dec_of_int pid
     in bindP (liftP (if length pidStr < 8 then Inr pidStr else Inl Write_oob)) (\<lambda>pidStr. callW (tw_set A (tw_notp A) ''^pids'' [iter, pidStr] pidStr)))))"

text \<open>\<^verbatim>\<open>RAND_INT(a, b)\<close>, and what \<^verbatim>\<open>main\<close> draws with it in its order: the seconds, the two numbers about threads, the threads
  that drive, the depth and the rate.\<close>

definition tw_RAND_INT :: "'w tw_api \<Rightarrow> nat \<Rightarrow> nat \<Rightarrow> ('w, nat) walk_prog" where
  "tw_RAND_INT A a b = bindP (callW (tw_rand A)) (\<lambda>r. retP (r mod (b - a + 1) + a))"

definition tw_draw :: "'w tw_api \<Rightarrow> bool \<Rightarrow> string option \<Rightarrow> ('w, nat \<times> nat \<times> tw_run \<times> rat) walk_prog" where
  "tw_draw A arm subtest =
     bindP (tw_RAND_INT A 15 120) (\<lambda>secs.
     bindP (if arm then tw_RAND_INT A 2 10 else tw_RAND_INT A 4 50) (\<lambda>maxThreads.
     bindP (if arm then tw_RAND_INT A 0 2 else tw_RAND_INT A 0 10) (\<lambda>toMake.
     bindP (tw_RAND_INT A 2 10) (\<lambda>drivers. bindP (tw_RAND_INT A 2 20) (\<lambda>depth. bindP (tw_RAND_INT A 0 20) (\<lambda>r.
     bindP (liftP (case subtest of None \<Rightarrow> Inl Null_deref | Some s \<Rightarrow> Inr (s = ''ydb464''))) (\<lambda>is464.
     retP (secs, drivers, \<lparr>tw_max_depth = depth, tw_max_threads = int maxThreads, tw_to_make = toMake, tw_ydb464 = is464\<rparr>, TP_NEST_RATE r))))))))"

end
