(* ===== verification/Random_Walk_Thread_Claims.thy ===== *)
theory Random_Walk_Thread_Claims
  imports Random_Walk_Claims Random_Walk_Threaded
begin

text \<open>What a thread of the random walk relies on, the rules for its actions, and the claims about it.\<close>

section \<open>Names\<close>

definition tw_arr :: "nat \<Rightarrow> strArr \<Rightarrow> bool" where
  "tw_arr k t \<longleftrightarrow> ptrs k t \<and> sa_cells t ! 5 = Len (int k) \<and> length (sa_raw t) = 32 \<and> (\<forall>i < k. NUL \<in> set (segment t i))"

lemma tw_put_in:
  assumes "tw_arr k t" "k < 5" "length s < arr_size k" "NUL \<notin> set s"
  obtains t' where "tw_put t k (arr_off k) s = Inr t'" "tw_arr (k + 1) t'" "arr_get t' k = Inr s" "\<And>i. i < k \<Longrightarrow> arr_get t' i = arr_get t i"
proof -
  let ?t = "t\<lparr>sa_cells := (sa_cells t)[k := Ptr (arr_off k)]\<rparr>"
  have p: "ptrs (k + 1) ?t" using assms(1,2) by (auto simp: tw_arr_def ptrs_def nth_list_update)
  have r: "length (sa_raw ?t) = 32" using assms(1) by (simp add: tw_arr_def)
  have g: "segment ?t i = segment t i" for i by (simp add: segment_def)
  obtain t1 where t1: "arr_put ?t k s = Inr t1" "sa_cells t1 = sa_cells ?t" "length (sa_raw t1) = 32" "NUL \<in> set (segment t1 k)" "arr_get t1 k = Inr s"
    "\<And>j. j < k + 1 \<Longrightarrow> j \<noteq> k \<Longrightarrow> segment t1 j = segment ?t j"
    "\<And>j. j < k + 1 \<Longrightarrow> j \<noteq> k \<Longrightarrow> NUL \<in> set (segment ?t j) \<Longrightarrow> arr_get t1 j = arr_get ?t j"
    using arr_get_put [OF p r, of k s] assms(3,4) by (metis less_add_one)
  let ?u = "set_length t1 (int k + 1)"
  have c: "sa_cells t1 ! 5 = Len (int k)" "length (sa_cells t1) = 6" using t1(2) assms(1,2) by (simp_all add: tw_arr_def ptrs_def)
  have z: "segment ?u i = segment t1 i" "i \<noteq> 5 \<Longrightarrow> arr_get ?u i = arr_get t1 i" for i
    by (simp_all add: segment_def set_length_def arr_get_def arr_ptr_def load_def)
  have q: "arr_get ?t i = arr_get t i" if "i < k" for i using that by (simp add: arr_get_def arr_ptr_def load_def)
  show thesis
  proof (rule that [of ?u])
    have "k < length (sa_cells t)" using assms(1,2) by (simp add: tw_arr_def ptrs_def)
    then show "tw_put t k (arr_off k) s = Inr ?u" using t1(1) c by (simp add: tw_put_def store_def arr_length_def load_def)
    have "ptrs (k + 1) ?u" using ptrs_cells [OF p t1(2)] by (auto simp: ptrs_def set_length_def)
    moreover have "NUL \<in> set (segment ?u i)" if "i < k + 1" for i
      using that t1(4) t1(6) [of i] assms(1) by (cases "i = k") (auto simp: z(1) g tw_arr_def)
    ultimately show "tw_arr (k + 1) ?u" using t1(3) c(2) by (auto simp: tw_arr_def set_length_def)
    show "arr_get ?u k = Inr s" using z(2) [of k] t1(5) assms(2) by simp
    fix i assume i: "i < k"
    then have "NUL \<in> set (segment ?t i)" using assms(1) by (simp add: g tw_arr_def)
    then show "arr_get ?u i = arr_get t i" using z(2) [of i] t1(7) [of i] q i assms(2) by simp
  qed
qed

lemma tw_put_subs_in:
  assumes "tw_arr 1 t" "n < 5"
  shows "\<exists>t'. tw_put_subs n t = Inr t' \<and> tw_arr (n + 1) t' \<and> arr_get t' 0 = arr_get t 0 \<and> (\<forall>i < n. arr_get t' (i + 1) = Inr (''sub'' @ dec_of_nat i))"
  using assms(2)
proof (induction n)
  case 0
  then show ?case using assms(1) by simp
next
  case (Suc n)
  then obtain t1 where t1: "tw_put_subs n t = Inr t1" "tw_arr (n + 1) t1" "arr_get t1 0 = arr_get t 0"
    "\<forall>i < n. arr_get t1 (i + 1) = Inr (''sub'' @ dec_of_nat i)" by auto
  have l: "length (''sub'' @ dec_of_nat n) < arr_size (n + 1)" using length_dec_of_nat [of n 0] Suc.prems by (simp add: arr_size_def)
  have "NUL \<notin> set ''sub''" by (simp add: NUL_def)
  then have s: "NUL \<notin> set (''sub'' @ dec_of_nat n)" using no_NUL_in_number [of n] by simp
  obtain t2 where t2: "tw_put t1 (n + 1) (arr_off (n + 1)) (''sub'' @ dec_of_nat n) = Inr t2" "tw_arr (n + 1 + 1) t2"
    "arr_get t2 (n + 1) = Inr (''sub'' @ dec_of_nat n)" "\<And>i. i < n + 1 \<Longrightarrow> arr_get t2 i = arr_get t1 i"
    using tw_put_in [OF t1(2) _ l s] Suc.prems by (metis Suc_eq_plus1)
  have "arr_off (n + 1) = BASE_LEN + n * SUB_LEN" by (simp add: arr_off_def BASE_LEN_def SUB_LEN_def)
  then have "tw_put_subs (Suc n) t = Inr t2" using t1(1) t2(1) by simp
  moreover have "arr_get t2 (i + 1) = Inr (''sub'' @ dec_of_nat i)" if "i < Suc n" for i
    using that t1(4) t2(3,4) by (cases "i = n") auto
  ultimately show ?case using t1(3) t2(2) t2(4) [of 0] by auto
qed

lemma tw_name_copied:
  assumes "length junk = 32" "n < 5" "b < 4"
  obtains t where "tw_name_at junk n b = Inr t" "arr_get t 0 = Inr (base_names ! b)"
    "copy_name t = retP (base_names ! b, map (\<lambda>i. ''sub'' @ dec_of_nat i) [0..<n])"
proof -
  let ?t0 = "set_length \<lparr>sa_raw = junk, sa_cells = replicate 6 Unset\<rparr> 0"
  have t0: "tw_arr 0 ?t0" using assms(1) by (simp add: tw_arr_def ptrs_def set_length_def)
  have "b = 0 \<or> b = 1 \<or> b = 2 \<or> b = 3" using assms(3) by linarith
  then have s: "length (base_names ! b) < arr_size 0" "NUL \<notin> set (base_names ! b)" by (elim disjE; simp add: base_names_def arr_size_def NUL_def)+
  obtain t1 where t1: "tw_put ?t0 0 (arr_off 0) (base_names ! b) = Inr t1" "tw_arr (0 + 1) t1" "arr_get t1 0 = Inr (base_names ! b)"
    using tw_put_in [OF t0 _ s] by (metis zero_less_numeral)
  obtain t where t: "tw_put_subs n t1 = Inr t" "tw_arr (n + 1) t" "arr_get t 0 = arr_get t1 0" "\<forall>i < n. arr_get t (i + 1) = Inr (''sub'' @ dec_of_nat i)"
    using tw_put_subs_in [of t1 n] t1(2) assms(2) by auto
  have l: "arr_length t = Inr (int n + 1)" using t(2) by (simp add: tw_arr_def ptrs_def arr_length_def load_def)
  have "length (''sub'' @ dec_of_nat i) \<le> SUB_LEN" if "i < n" for i using that assms(2) by (intro sub_fits) simp
  then have "copy_name t = retP (base_names ! b, map (\<lambda>i. ''sub'' @ dec_of_nat i) [0..<n])"
    using copy_name_in [OF l _ base_fits [OF assms(3)], of "\<lambda>i. ''sub'' @ dec_of_nat i"] t(3,4) t1(3) by simp
  moreover have "tw_name_at junk n b = Inr t" using t1(1) t(1) by (simp add: tw_name_at_def arr_off_def)
  ultimately show thesis using t(3) t1(3) by (intro that) simp_all
qed

section \<open>What a thread relies on\<close>

text \<open>\<open>Q\<close> are the statuses that ask for a restart of the transaction.\<close>

definition tw_ends :: "'w tw_api \<Rightarrow> int set \<Rightarrow> int set" where
  "tw_ends A Q = {tw_ok A, tw_afterexit A} \<union> Q"

definition tw_answers :: "'w tw_api \<Rightarrow> int set \<Rightarrow> int set" where
  "tw_answers A Q = tw_ends A Q \<union> set (tw_undefs A)"

text \<open>
  A database that answers as it should, whatever the token is: any call that looks at nodes, changes them or locks may also answer that
  the process ends, or with a status of \<open>Q\<close>.  The value of \<^verbatim>\<open>ydb_data_st\<close> is in its range where the call succeeds; after any other
  status it is what the variable held, in its range or a member of \<open>V\<close>.  Threads can be created and joined.
\<close>

definition tw_calm :: "'w tw_api \<Rightarrow> int set \<Rightarrow> nat set \<Rightarrow> bool" where
  "tw_calm A Q V \<longleftrightarrow>
     tw_ok A = 0 \<and> tw_rand_max A = 2147483647 \<and> (\<forall>w. fst (tw_rand A w) \<le> 2147483647) \<and>
     (\<forall>tok d w. fst (fst (tw_create A tok d w)) = 0) \<and> (\<forall>t w. fst (tw_join A t w) = 0) \<and> (\<forall>w. length (fst (tw_errtext A w)) < 2048) \<and>
     (\<forall>tok b ss v w. fst (tw_set A tok b ss v w) \<in> tw_answers A Q) \<and> (\<forall>tok b ss n w. fst (fst (tw_get A tok b ss n w)) \<in> tw_answers A Q) \<and>
     (\<forall>tok b ss w. fst (fst (tw_data A tok b ss w)) \<in> tw_answers A Q \<and> 
        snd (fst (tw_data A tok b ss w)) \<in> {0, 1, 10, 11} \<union> (if fst (fst (tw_data A tok b ss w)) = tw_ok A then {} else V)) \<and>
     (\<forall>tok fwd b ss w. fst (fst (tw_node A tok fwd b ss 4 SUB_LEN w)) \<in> insert (tw_nodeend A) (tw_answers A Q)) \<and>
     (\<forall>tok fwd b ss w. fst (fst (tw_sub A tok fwd b ss 16 w)) \<in> insert (tw_nodeend A) (tw_answers A Q) \<and>
        length (snd (fst (tw_sub A tok fwd b ss 16 w))) \<le> (if ss = [] then BASE_LEN else SUB_LEN)) \<and>
     (\<forall>tok b ss i n w. fst (fst (tw_incr A tok b ss i n w)) \<in> tw_ends A Q) \<and>
     (\<forall>tok ns w. fst (tw_lock A tok ns w) \<in> insert (tw_tplock A) (tw_answers A Q)) \<and>
     (\<forall>tok b ss w. fst (tw_lock_incr A tok b ss w) \<in> insert (tw_tplock A) (tw_answers A Q) \<and>
        fst (tw_lock_decr A tok b ss w) \<in> insert (tw_tplock A) (tw_answers A Q)) \<and>
     (\<forall>tok w. fst (tw_str2zwr A tok tw_plain 64 w) \<in> {(tw_ok A, tw_zwr), (tw_afterexit A, [])} \<and>
        fst (tw_zwr2str A tok tw_zwr 64 w) \<in> {(tw_ok A, tw_plain), (tw_afterexit A, [])}) \<and>
     (\<forall>w. fst (tw_exit A w) = - tw_invydbexit A \<and> fst (tw_init A w) = tw_ok A) \<and>
     (\<forall>tok w. fst (fst (tw_message A tok (-1) 2048 w)) \<in> {tw_ok A, tw_afterexit A} \<and> snd (fst (tw_message A tok (-1) 2048 w)) \<noteq> []) \<and>
     (\<forall>tok b ss w. fst (tw_delete_tree A tok b ss w) \<in> tw_ends A Q \<and> fst (tw_delete_node A tok b ss w) \<in> tw_ends A Q) \<and>
     (\<forall>tok ns w. fst (tw_delete_excl A tok ns w) \<in> tw_ends A Q)"

text \<open>What such a database makes a thread report, and the properties of reports that stay true for it.\<close>

definition complaints :: "int set \<Rightarrow> nat set \<Rightarrow> event set" where
  "complaints Q V = {Unexpected call s |call s. s \<in> Q} \<union> {Wrong ''Unexpected data value issued!'' |v. v \<in> V - {0, 1, 10, 11}}"

definition calm_in :: "(rat \<Rightarrow> event list \<Rightarrow> bool) \<Rightarrow> 'w tw_api \<Rightarrow> int set \<Rightarrow> nat set \<Rightarrow> bool" where
  "calm_in I A Q V \<longleftrightarrow> tw_calm A Q V \<and> (\<forall>r es. \<forall>e \<in> complaints Q V. I r es \<longrightarrow> I r (es @ [e]))"

lemma tw_calls:
  assumes "calm_in I A Q V"
  shows "tw_rand_max A = 2147483647" "fst (tw_rand A w) \<le> 2147483647" "fst (fst (tw_create A tok d w)) = 0" "fst (tw_join A t w) = 0"
    "fst (tw_set A tok b ss v w) \<in> tw_answers A Q" "fst (fst (tw_get A tok b ss n w)) \<in> tw_answers A Q"
    "fst (fst (tw_data A tok b ss w)) \<in> tw_answers A Q" "snd (fst (tw_data A tok b ss w)) \<in> {0, 1, 10, 11} \<union> (if fst (fst (tw_data A tok b ss w)) = tw_ok A then {} else V)"
    "fst (fst (tw_node A tok fwd b ss 4 SUB_LEN w)) \<in> insert (tw_nodeend A) (tw_answers A Q)"
    "fst (fst (tw_sub A tok fwd b ss 16 w)) \<in> insert (tw_nodeend A) (tw_answers A Q)"
    "length (snd (fst (tw_sub A tok fwd b ss 16 w))) \<le> (if ss = [] then BASE_LEN else SUB_LEN)"
    "fst (fst (tw_incr A tok b ss v n w)) \<in> tw_ends A Q"
    "fst (tw_lock A tok ns w) \<in> insert (tw_tplock A) (tw_answers A Q)"
    "fst (tw_lock_incr A tok b ss w) \<in> insert (tw_tplock A) (tw_answers A Q)" "fst (tw_lock_decr A tok b ss w) \<in> insert (tw_tplock A) (tw_answers A Q)"
    "fst (tw_str2zwr A tok tw_plain 64 w) \<in> {(tw_ok A, tw_zwr), (tw_afterexit A, [])}"
    "fst (tw_zwr2str A tok tw_zwr 64 w) \<in> {(tw_ok A, tw_plain), (tw_afterexit A, [])}"
    "fst (tw_exit A w) = - tw_invydbexit A" "fst (tw_init A w) = tw_ok A"
    "fst (fst (tw_message A tok (-1) 2048 w)) \<in> {tw_ok A, tw_afterexit A}" "snd (fst (tw_message A tok (-1) 2048 w)) \<noteq> []"
    "fst (tw_delete_tree A tok b ss w) \<in> tw_ends A Q" "fst (tw_delete_node A tok b ss w) \<in> tw_ends A Q"
    "fst (tw_delete_excl A tok nl w) \<in> tw_ends A Q"
    "length (fst (tw_errtext A w)) < 2048"
  using assms [unfolded calm_in_def tw_calm_def, THEN conjunct1, THEN conjunct2] by (simp_all only: simp_thms)

lemma tw_ok_zero: "calm_in I A Q V \<Longrightarrow> tw_ok A = 0"
  by (simp add: calm_in_def tw_calm_def)

definition tw_finite :: "'w tw_api \<Rightarrow> nat \<Rightarrow> bool" where
  "tw_finite A K \<longleftrightarrow> (\<forall>tok fwd. \<exists>rn rs. \<forall>b ss. rn b ss < K \<and> rs b ss < K \<and>
     (\<forall>w ss'. fst (tw_node A tok fwd b ss 4 SUB_LEN w) = (tw_ok A, ss') \<longrightarrow> rn b ss' < (rn b ss :: nat)) \<and>
     (\<forall>w v. fst (tw_sub A tok fwd b ss 16 w) = (tw_ok A, v) \<longrightarrow> (if ss = [] then rs v [] else rs b (butlast ss @ [v])) < (rs b ss :: nat)))"

text \<open>\<^verbatim>\<open>ydb_tp_st\<close> calls its function with the token of the transaction and returns what it returns, success, or that the process ends.\<close>

definition tw_tp_ok :: "'w tw_api \<Rightarrow> bool" where
  "tw_tp_ok A \<longleftrightarrow> (\<forall>I S tok name f st.
     (\<forall>tok' st. I (wk_rate st) (wk_events st) \<longrightarrow> (\<exists>s st'. f tok' st = Inr (s, st') \<and> s \<in> S \<and> I (wk_rate st') (wk_events st'))) \<longrightarrow>
     I (wk_rate st) (wk_events st) \<longrightarrow>
     (\<exists>s st'. tw_tp A tok name f st = Inr (s, st') \<and> s \<in> {tw_ok A, tw_afterexit A} \<union> S \<and> I (wk_rate st') (wk_events st')))"

section \<open>Rules\<close>

definition anyhow :: "'a \<Rightarrow> bool" where
  "anyhow x \<longleftrightarrow> True"

lemma does_anyhow: "does I (retP x) anyhow"
  by (rule does_ret) (simp add: anyhow_def)

lemma does_call_then:
  assumes "\<And>w. S (fst (f w))" "\<And>x. S x \<Longrightarrow> does I (g x) T"
  shows "does I (bindP (callW f) g) T"
  by (rule does_bind [where S = S], rule does_call, rule assms(1), rule assms(2))

lemma does_complaint:
  assumes "calm_in I A Q V" "e \<in> complaints Q V"
  shows "does I (emit e) anyhow"
  using assms by (simp add: does_def emit_def wpP_call calm_in_def anyhow_def)

lemma does_tw_report:
  assumes "calm_in I A Q V" "s \<in> Q"
  shows "does I (tw_report A call s) anyhow"
  unfolding tw_report_def
proof (rule does_call_then [where S = "\<lambda>t. length t < 2048"], rule tw_calls(25) [OF assms(1)])
  fix t :: string assume "length t < 2048"
  then have "terminated 2048 t = Inr (takeWhile (\<lambda>c. c \<noteq> NUL) t)" by (simp add: terminated_def)
  moreover have "Unexpected call s \<in> complaints Q V" using assms(2) by (auto simp: complaints_def)
  ultimately show "does I (thenP (liftP (terminated 2048 t)) (emit (Unexpected call s))) anyhow"
    by (intro does_then [where S = anyhow] does_lift does_complaint [OF assms(1)]) (simp_all add: anyhow_def)
qed

lemma does_tw_tolerate: "calm_in I A Q V \<Longrightarrow> s \<in> tw_ends A Q \<union> set acc \<Longrightarrow> does I (tw_tolerate A acc call s) anyhow"
  unfolding tw_tolerate_def by (intro does_if does_anyhow does_then [OF does_tw_report]) (auto simp: tw_ends_def)

lemma does_tw_answer: "calm_in I A Q V \<Longrightarrow> s \<in> tw_answers A Q \<Longrightarrow> does I (tw_tolerate A (tw_undefs A) call s) anyhow"
  by (rule does_tw_tolerate) (simp_all add: tw_answers_def)

lemma does_tw_plain: "calm_in I A Q V \<Longrightarrow> s \<in> tw_ends A Q \<Longrightarrow> does I (tw_tolerate A [] call s) anyhow"
  by (rule does_tw_tolerate) simp_all

lemma does_tw_direction: "does I (tw_direction A) anyhow"
  unfolding tw_direction_def by (intro does_bind [OF does_answer] does_anyhow)

lemma does_tw_set: "calm_in I A Q V \<Longrightarrow> does I (tw_act_set A tok b ss) anyhow"
  unfolding tw_act_set_def by (rule does_call_then [where S = "\<lambda>s. s \<in> tw_answers A Q"]) (simp_all add: tw_calls(5) does_tw_answer)

lemma does_tw_get: "calm_in I A Q V \<Longrightarrow> does I (tw_act_get A tok b ss) anyhow"
  unfolding tw_act_get_def by (rule does_call_then [where S = "\<lambda>x. fst x \<in> tw_answers A Q"]) (auto simp: tw_calls(6) intro: does_tw_answer)

lemma does_tw_data:
  assumes "calm_in I A Q V"
  shows "does I (tw_act_data A tok b ss) anyhow"
  unfolding tw_act_data_def
proof (rule does_call_then [where S = "\<lambda>x. fst x \<in> tw_answers A Q \<and> snd x \<in> {0, 1, 10, 11} \<union> V"])
  show "fst (fst (tw_data A tok b ss w)) \<in> tw_answers A Q \<and> snd (fst (tw_data A tok b ss w)) \<in> {0, 1, 10, 11} \<union> V" for w
    using tw_calls(7,8) [OF assms, of tok b ss w] by (auto split: if_splits)
  fix x :: "int \<times> nat" assume "fst x \<in> tw_answers A Q \<and> snd x \<in> {0, 1, 10, 11} \<union> V"
  then obtain s v where x: "x = (s, v)" "s \<in> tw_answers A Q" "v \<in> {0, 1, 10, 11} \<union> V" by (cases x) simp
  have "v \<notin> {0, 1, 10, 11} \<Longrightarrow> Wrong ''Unexpected data value issued!'' \<in> complaints Q V" using x(3) unfolding complaints_def by blast
  then have "does I (if v \<in> {0, 1, 10, 11} then retP () else emit (Wrong ''Unexpected data value issued!'')) anyhow"
    by (intro does_if does_anyhow does_complaint [OF assms]) simp_all
  then show "does I (case x of (s, v) \<Rightarrow> bindP (tw_tolerate A (tw_undefs A) ''ydb_data_st'' s) (\<lambda>shutdown.
     thenP (if v \<in> {0, 1, 10, 11} then retP () else emit (Wrong ''Unexpected data value issued!'')) (retP shutdown))) anyhow"
    unfolding x(1) prod.case by (intro does_bind [OF does_tw_answer [OF assms x(2)]] does_then does_anyhow)
qed

lemma does_tw_query_loop:
  assumes "calm_in I A Q V" "\<And>ss w ss'. fst (tw_node A tok fwd b ss 4 SUB_LEN w) = (tw_ok A, ss') \<Longrightarrow> rn ss' < (rn ss :: nat)" "rn ss < k"
  shows "does I (tw_query_loop A tok k fwd b ss) (\<lambda>s. s \<in> insert (tw_nodeend A) (tw_answers A Q))"
  using assms(3)
proof (induction k arbitrary: ss)
  case (Suc k)
  show ?case unfolding tw_query_loop.simps
  proof (rule does_bind [OF does_answer], elim exE)
    fix x w assume x: "x = fst (tw_node A tok fwd b ss 4 SUB_LEN w)"
    obtain s ss' where p: "x = (s, ss')" by fastforce
    have "s \<in> insert (tw_nodeend A) (tw_answers A Q)" using tw_calls(9) [OF assms(1), of tok fwd b ss w] unfolding x [symmetric] p by simp
    moreover have "does I (tw_query_loop A tok k fwd b ss') (\<lambda>s. s \<in> insert (tw_nodeend A) (tw_answers A Q))" if "s = tw_ok A"
      using assms(2) [of ss w ss'] Suc.prems that unfolding x [symmetric] p by (intro Suc.IH) simp
    ultimately show "does I (case x of (s, subs) \<Rightarrow> if s = tw_ok A then tw_query_loop A tok k fwd b subs else retP s)
        (\<lambda>s. s \<in> insert (tw_nodeend A) (tw_answers A Q))"
      unfolding p prod.case by (intro does_if does_ret)
  qed
qed simp

lemma does_tw_order_loop:
  assumes "calm_in I A Q V" "\<And>b ss w v. fst (tw_sub A tok fwd b ss 16 w) = (tw_ok A, v) \<Longrightarrow> (if ss = [] then rs v [] else rs b (butlast ss @ [v])) < (rs b ss :: nat)"
    "rs b ss < k"
  shows "does I (tw_order_loop A tok k fwd b ss) (\<lambda>s. s \<in> insert (tw_nodeend A) (tw_answers A Q))"
  using assms(3)
proof (induction k arbitrary: b ss)
  case (Suc k)
  let ?S = "\<lambda>s. s \<in> insert (tw_nodeend A) (tw_answers A Q)"
  show ?case unfolding tw_order_loop.simps
  proof (rule does_bind [OF does_answer], elim exE)
    fix x w assume x: "x = fst (tw_sub A tok fwd b ss 16 w)"
    obtain s v where p: "x = (s, v)" by fastforce
    have s: "?S s" "length v \<le> (if ss = [] then BASE_LEN else SUB_LEN)"
      using tw_calls(10,11) [OF assms(1), of tok fwd b ss w] unfolding x [symmetric] p by simp_all
    have l: "s = tw_ok A \<Longrightarrow> ss = [] \<Longrightarrow> does I (tw_order_loop A tok k fwd v ss) ?S"
      "s = tw_ok A \<Longrightarrow> ss \<noteq> [] \<Longrightarrow> does I (tw_order_loop A tok k fwd b (butlast ss @ [v])) ?S"
      using assms(2) [of b ss w v] Suc.prems unfolding x [symmetric] p by (intro Suc.IH, simp)+
    show "does I (case x of (s, v) \<Rightarrow>
       if ss = [] then thenP (assertP (length v \<le> BASE_LEN)) (if s = tw_ok A then tw_order_loop A tok k fwd v ss else retP s)
       else thenP (assertP (length v \<le> SUB_LEN)) (if s = tw_ok A then tw_order_loop A tok k fwd b (butlast ss @ [v]) else retP s)) ?S"
      unfolding p prod.case
      by (intro does_if does_then [OF does_assert] does_ret l s) (use s(2) in simp_all)
  qed
qed simp

lemma does_tw_end:
  assumes "calm_in I A Q V" "does I m (\<lambda>s. s \<in> insert (tw_nodeend A) (tw_answers A Q))"
  shows "does I (bindP m (\<lambda>s. if s \<noteq> tw_nodeend A then tw_tolerate A (tw_undefs A) call s else retP False)) anyhow"
  by (rule does_bind [OF assms(2)], rule does_if) (auto intro: does_tw_answer [OF assms(1)] does_anyhow)

lemma does_tw_loops:
  assumes "calm_in I A Q V" "tw_finite A K"
  shows "does I (tw_act_query A tok K b ss) anyhow" "does I (tw_act_order A tok K b ss) anyhow"
proof -
  have loops: "does I (tw_query_loop A tok K fwd b ss) (\<lambda>s. s \<in> insert (tw_nodeend A) (tw_answers A Q))"
    "does I (tw_order_loop A tok K fwd b ss) (\<lambda>s. s \<in> insert (tw_nodeend A) (tw_answers A Q))" for fwd
  proof -
    obtain rn rs where r: "\<forall>b ss. rn b ss < K \<and> rs b ss < K \<and>
     (\<forall>w ss'. fst (tw_node A tok fwd b ss 4 SUB_LEN w) = (tw_ok A, ss') \<longrightarrow> rn b ss' < (rn b ss :: nat)) \<and>
     (\<forall>w v. fst (tw_sub A tok fwd b ss 16 w) = (tw_ok A, v) \<longrightarrow> (if ss = [] then rs v [] else rs b (butlast ss @ [v])) < (rs b ss :: nat))"
      using assms(2) unfolding tw_finite_def by blast
    show "does I (tw_query_loop A tok K fwd b ss) (\<lambda>s. s \<in> insert (tw_nodeend A) (tw_answers A Q))"
      using r by (intro does_tw_query_loop [OF assms(1), where rn = "rn b"]) auto
    show "does I (tw_order_loop A tok K fwd b ss) (\<lambda>s. s \<in> insert (tw_nodeend A) (tw_answers A Q))"
      by (rule does_tw_order_loop [OF assms(1), where rs = rs]) (use r in blast)+
  qed
  show "does I (tw_act_query A tok K b ss) anyhow" "does I (tw_act_order A tok K b ss) anyhow"
    unfolding tw_act_query_def tw_act_order_def by (intro does_bind [OF does_tw_direction] does_tw_end [OF assms(1)] loops)+
qed

lemma does_tw_incr:
  assumes "calm_in I A Q V"
  shows "does I (tw_act_incr A tok b ss) anyhow"
  unfolding tw_act_incr_def Let_def tw_calls(1) [OF assms]
proof (rule does_call_then [where S = "\<lambda>r. r \<le> 2147483647"])
  show "fst (tw_rand A w) \<le> 2147483647" for w using tw_calls(2) [OF assms] by simp
  fix r :: nat assume "r \<le> 2147483647"
  then have "r div (2147483647 div 5) < 10" by simp
  then have l: "length (dec_of_nat (r div (2147483647 div 5))) < 2" using length_dec_of_nat [of _ 0] by fastforce
  show "does I (bindP (liftP (if length (dec_of_nat (r div (2147483647 div 5))) < 2 then Inr (dec_of_nat (r div (2147483647 div 5))) else Inl Write_oob))
      (\<lambda>increment. bindP (callW (tw_incr A tok b ss increment 16)) (\<lambda>(s, v). tw_tolerate A [] ''ydb_incr_st'' s))) anyhow"
    unfolding if_P [OF l] bindP_lift_eq
    by (rule does_call_then [where S = "\<lambda>x. fst x \<in> tw_ends A Q"], rule tw_calls(12) [OF assms]) (auto intro: does_tw_plain [OF assms])
qed

lemma does_tw_locked: "calm_in I A Q V \<Longrightarrow> s \<in> insert (tw_tplock A) (tw_answers A Q) \<Longrightarrow> does I (tw_tolerate A (tw_undefs A @ [tw_tplock A]) call s) anyhow"
  by (rule does_tw_tolerate) (auto simp: tw_answers_def)

lemma does_tw_lock:
  assumes "calm_in I A Q V"
  shows "does I (tw_act_lock A tok b ss) anyhow"
  unfolding tw_act_lock_def Let_def
  by (rule does_call_then, rule tw_calls(13) [OF assms], rule does_bind [OF does_tw_locked [OF assms]], assumption,
      rule does_call_then, rule tw_calls(14) [OF assms], rule does_bind [OF does_tw_locked [OF assms]], assumption,
      rule does_call_then, rule tw_calls(15) [OF assms], rule does_bind [OF does_tw_locked [OF assms]], assumption,
      rule does_call_then, rule tw_calls(13) [OF assms], rule does_bind [OF does_tw_locked [OF assms]], assumption, rule does_anyhow)

lemma tw_texts: "length tw_plain < 64" "length tw_zwr < 64"
  by (simp_all add: tw_plain_def tw_zwr_def NUL_def)

lemma does_tw_convert:
  assumes "\<And>w. fst (f strIn 64 w) \<in> {(tw_ok A, compStr), (tw_afterexit A, [])}" "length compStr < 64"
  shows "does I (tw_act_convert A f call strIn compStr) anyhow"
  unfolding tw_act_convert_def
proof (rule does_call_then [where S = "\<lambda>x. x \<in> {(tw_ok A, compStr), (tw_afterexit A, [])}"], rule assms(1))
  fix x assume "x \<in> {(tw_ok A, compStr), (tw_afterexit A, [])}"
  then obtain s out where x: "x = (s, out)" "s = tw_afterexit A \<or> s = tw_ok A \<and> out = compStr" by auto
  have tm: "terminated 64 compStr = Inr (takeWhile (\<lambda>c. c \<noteq> NUL) compStr)" using assms(2) by (simp add: terminated_def)
  show "does I (case x of (s, out) \<Rightarrow> if s = tw_afterexit A then retP True
     else thenP (if s \<noteq> tw_ok A then tw_report A call s else retP ())
       (bindP (liftP (terminated 64 out)) (\<lambda>out.
       thenP (if out \<noteq> takeWhile (\<lambda>c. c \<noteq> NUL) compStr then emit (Wrong (call @ '' did not return the right value'')) else retP ()) (retP False)))) anyhow"
    unfolding x(1) prod.case
    using x(2) by (intro does_if does_anyhow) (auto simp: tm bindP_lift_eq thenP_def retP_bind does_anyhow)
qed

lemma does_tw_exit: "calm_in I A Q V \<Longrightarrow> does I (tw_act_exit A) anyhow"
  unfolding tw_act_exit_def
  by (rule does_call_then [where S = "\<lambda>s. s = - tw_invydbexit A"]) (simp_all add: tw_calls(18) thenP_def retP_bind does_anyhow)

lemma does_tw_init: "calm_in I A Q V \<Longrightarrow> does I (tw_act_init A) anyhow"
  unfolding tw_act_init_def
  by (rule does_call_then [where S = "\<lambda>s. s = tw_ok A"]) (simp_all add: tw_calls(19) thenP_def retP_bind does_anyhow)

lemma does_tw_message:
  assumes "calm_in I A Q V"
  shows "does I (tw_act_message A tok) anyhow"
  unfolding tw_act_message_def
proof (rule does_call_then [where S = "\<lambda>x. fst x \<in> {tw_ok A, tw_afterexit A} \<and> snd x \<noteq> []"])
  show "fst (fst (tw_message A tok (-1) 2048 w)) \<in> {tw_ok A, tw_afterexit A} \<and> snd (fst (tw_message A tok (-1) 2048 w)) \<noteq> []" for w
    using tw_calls(20,21) [OF assms] by blast
qed (auto simp: thenP_def retP_bind does_anyhow)

lemma does_tw_delete:
  assumes "calm_in I A Q V"
  shows "does I (tw_act_delete A tok b ss) anyhow"
  unfolding tw_act_delete_def
proof (rule does_bind [OF does_answer], rule does_call_then [where S = "\<lambda>s. s \<in> tw_ends A Q"])
  show "fst ((if r < tw_rand_max A div 2 then tw_delete_tree A tok b ss else tw_delete_node A tok b ss) w) \<in> tw_ends A Q" for r w
    using tw_calls(22,23) [OF assms, of tok b ss w] by (cases "r < tw_rand_max A div 2") simp_all
qed (rule does_tw_plain [OF assms])

lemma does_tw_delete_excl:
  assumes "calm_in I A Q V" "arr_get t 0 = Inr name"
  shows "does I (tw_act_delete_excl A tok b t) anyhow"
  unfolding tw_act_delete_excl_def assms(2) bindP_lift_eq
proof (rule does_bind [where S = "\<lambda>s. s \<in> tw_ends A Q"])
  show "does I (if name \<noteq> [] \<and> hd name = CHR ''^'' then retP (tw_ok A) else callW (tw_delete_excl A tok [b])) (\<lambda>s. s \<in> tw_ends A Q)"
    by (rule does_if, rule does_ret, simp add: tw_ends_def, rule does_call, rule tw_calls(24) [OF assms(1)])
qed (rule does_tw_plain [OF assms(1)])

lemma does_tw_choose:
  assumes "calm_in I A Q V" "tw_finite A K" "arr_get t 0 = Inr name" "action \<le> 100" "does I nest anyhow"
  shows "does I (tw_choose A tok K odds action b ss t nest) anyhow"
  unfolding tw_choose_def if_P [OF assms(4)]
  by (intro does_if does_tw_set [OF assms(1)] does_tw_get [OF assms(1)] does_tw_data [OF assms(1)] does_tw_loops [OF assms(1,2)] does_tw_incr [OF assms(1)]
      does_tw_lock [OF assms(1)] does_tw_exit [OF assms(1)] does_tw_init [OF assms(1)] does_tw_message [OF assms(1)] does_tw_delete [OF assms(1)]
      does_tw_delete_excl [OF assms(1,3)] does_anyhow does_tw_convert [where f = "tw_str2zwr A tok", OF tw_calls(16) [OF assms(1)] tw_texts(2)]
      does_tw_convert [where f = "tw_zwr2str A tok", OF tw_calls(17) [OF assms(1)] tw_texts(1)] assms(5))

section \<open>Transactions and threads\<close>

lemma does_tw_turns:
  assumes "does I run S"
  shows "does I (tw_turns A run n) (\<lambda>s. s = 0)"
proof (induction n)
  case (Suc n)
  then show ?case unfolding tw_turns.simps by (intro does_then [OF does_answer] does_then [OF assms])
qed (simp add: does_ret)

lemma does_tw_helper:
  assumes "\<And>tok. does I (run tok) S"
  shows "does I (tw_tpHelper A run tok) (\<lambda>s. s = 0)"
  unfolding tw_tpHelper_def by (rule does_bind [OF does_answer], rule does_tw_turns [OF assms])

text \<open>A function that is called back ends with the statuses of its program.\<close>

lemma as_tpfn_does:
  assumes "does I m S" "I (wk_rate st) (wk_events st)"
  shows "\<exists>s st'. as_tpfn m st = Inr (s, st') \<and> S s \<and> I (wk_rate st') (wk_events st')"
proof -
  have "wpP m (\<lambda>x st'. S x \<and> I (wk_rate st') (wk_events st')) (\<lambda>_ _. False) st" using assms by (simp add: does_def)
  then obtain x st' where "m st = Inr (Inr x, st')" "S x \<and> I (wk_rate st') (wk_events st')" by (rule wpP_total)
  then show ?thesis by (simp add: as_tpfn_def)
qed

lemma does_tw_nest_tp:
  assumes "calm_in I A Q V" "tw_tp_ok A" "\<And>tok. does I (run tok) S"
  shows "does I (tw_nest_tp A R run tok) anyhow"
  unfolding tw_nest_tp_def
proof (rule does_bind [where S = "\<lambda>s. s \<in> {tw_ok A, tw_afterexit A}"])
  show "does I (callE (tw_tp A tok ''BATCH'' (\<lambda>tok'. as_tpfn (tw_tpHelper A run tok')))) (\<lambda>s. s \<in> {tw_ok A, tw_afterexit A})"
    unfolding does_def wpP_callE
  proof (intro allI impI)
    fix st :: "'a walk_state" assume I: "I (wk_rate st) (wk_events st)"
    have f: "\<exists>s st'. as_tpfn (tw_tpHelper A run tok') st = Inr (s, st') \<and> s \<in> {0} \<and> I (wk_rate st') (wk_events st')"
      if "I (wk_rate st) (wk_events st)" for tok' st
      using as_tpfn_does [of I "tw_tpHelper A run tok'" "\<lambda>s. s = 0" st] does_tw_helper [of I run S A tok', OF assms(3)] that by simp
    have "\<exists>s st'. tw_tp A tok ''BATCH'' (\<lambda>tok'. as_tpfn (tw_tpHelper A run tok')) st = Inr (s, st') \<and> s \<in> {tw_ok A, tw_afterexit A} \<union> {0} \<and>
        I (wk_rate st') (wk_events st')"
      by (rule assms(2) [unfolded tw_tp_ok_def, rule_format, where I = I and S = "{0}"]) (use f I in simp_all)
    then show "\<exists>x w'. tw_tp A tok ''BATCH'' (\<lambda>tok'. as_tpfn (tw_tpHelper A run tok')) st = Inr (x, w') \<and> x \<in> {tw_ok A, tw_afterexit A} \<and>
        I (wk_rate w') (wk_events w')"
      using tw_ok_zero [OF assms(1)] by auto
  qed
  fix s assume "s \<in> {tw_ok A, tw_afterexit A}"
  then show "does I (if s = tw_afterexit A then retP True else thenP (assertP (s = tw_ok A \<or> tw_ydb464 R \<and> s = tw_invtptrans A)) (retP False)) anyhow"
    by (intro does_if does_anyhow does_then [OF does_assert]) auto
qed

lemma does_tw_threads:
  assumes "calm_in I A Q V"
  shows "does I (tw_nest_threads A R tok d) anyhow"
proof -
  have ok: "tw_pthread_failed A call 0 = retP ()" for call by (simp add: tw_pthread_failed_def)
  have "does I (tw_start A tok d n) anyhow" for n
  proof (induction n)
    case (Suc n)
    show ?case unfolding tw_start.simps
    proof (rule does_then [OF does_answer], rule does_call_then [where S = "\<lambda>x. fst x = 0"], rule tw_calls(3) [OF assms])
      fix x :: "int \<times> nat" assume "fst x = 0"
      then show "does I (case x of (s, tid) \<Rightarrow> thenP (tw_pthread_failed A ''pthread_create'' s)
          (bindP (tw_start A tok d n) (\<lambda>tids. retP (tid # tids)))) anyhow"
        by (cases x) (simp add: ok does_then [OF does_anyhow] does_bind [OF Suc] does_anyhow)
    qed
  qed (simp add: does_anyhow)
  moreover have "does I (tw_end A tids) anyhow" for tids
  proof (induction tids)
    case (Cons tid tids)
    show ?case unfolding tw_end.simps
    proof (rule does_call_then [where S = "\<lambda>s. s = 0"], rule tw_calls(4) [OF assms])
      fix s :: int assume "s = 0"
      then show "does I (thenP (callW (tw_count A (- 1))) (thenP (tw_pthread_failed A ''pthread_join'' s) (tw_end A tids))) anyhow"
        by (simp add: ok does_then [OF does_answer] does_then [OF does_anyhow] Cons)
    qed
  qed (simp add: does_anyhow)
  ultimately show ?thesis unfolding tw_nest_threads_def by (intro does_bind does_then does_anyhow)
qed

lemma does_tw_nest:
  assumes "calm_in I A Q V" "tw_tp_ok A" "d < tw_max_depth R \<Longrightarrow> (\<And>tok. does I (run tok) S)"
  shows "does I (tw_nest A R run tok d) anyhow"
  unfolding tw_nest_def
proof (rule does_bind [where S = "\<lambda>ends. \<not> ends \<longrightarrow> d < tw_max_depth R"])
  show "does I (if d < tw_max_depth R then callW (tw_is_timeout A) else retP True) (\<lambda>ends. \<not> ends \<longrightarrow> d < tw_max_depth R)"
    by (rule does_if, rule does_call, simp, rule does_ret, simp)
  fix ends assume "\<not> ends \<longrightarrow> d < tw_max_depth R"
  then have tp: "\<not> ends \<Longrightarrow> does I (tw_nest_tp A R run tok) anyhow" using does_tw_nest_tp [OF assms(1,2)] assms(3) by blast
  have choice: "does I (if choice < tw_rand_max A div 2 then retP True
              else bindP (callW (tw_threads A)) (\<lambda>cur. retP (cur > tw_max_threads R - int (tw_to_make R)))) anyhow" for choice
    by (intro does_if does_anyhow does_bind [OF does_answer])
  show "does I (if ends then retP False
     else bindP (callW (tw_rand A)) (\<lambda>choice.
       bindP (if choice < tw_rand_max A div 2 then retP True
              else bindP (callW (tw_threads A)) (\<lambda>cur. retP (cur > tw_max_threads R - int (tw_to_make R)))) (\<lambda>tp.
       if tp then tw_nest_tp A R run tok else tw_nest_threads A R tok (d + 1)))) anyhow"
    by (rule does_if, rule does_anyhow, rule does_bind [OF does_answer], rule does_bind [OF choice], rule does_if, rule tp, assumption,
        rule does_tw_threads [OF assms(1)])
qed

lemma does_tw_run:
  assumes "calm_in I A Q V" "tw_finite A K" "tw_tp_ok A" "length junk = 32" "tw_max_depth R < n + d" "d \<le> tw_max_depth R"
  shows "does I (tw_runProc n A R K junk d tok) (\<lambda>s. s \<in> {0, tw_afterexit A})"
  using assms(5,6)
proof (induction n arbitrary: d tok)
  case (Suc n)
  have "does I (tw_nest A R (tw_runProc n A R K junk (d + 1)) tok d) anyhow" for tok
    using Suc.prems by (intro does_tw_nest [OF assms(1,3), where S = "\<lambda>s. s \<in> {0, tw_afterexit A}"] Suc.IH) simp_all
  note nest = does_tw_choose [OF assms(1,2) _ _ this]
  show ?case unfolding tw_runProc.simps tw_genGlobalName_def
  proof (rule does_bind [OF does_answer],
      rule does_bind [where S = "\<lambda>t. \<exists>b ss. arr_get t 0 = Inr b \<and> copy_name t = (retP (b, ss) :: ('a, string \<times> string list) walk_prog)"])
    show "does I (bindP (callW (tw_rand A)) (\<lambda>r. bindP (callW (tw_rand A)) (\<lambda>r'. liftP (tw_name_at junk (r mod 5) (r' mod 4)))))
      (\<lambda>t. \<exists>b ss. arr_get t 0 = Inr b \<and> copy_name t = (retP (b, ss) :: ('a, string \<times> string list) walk_prog))"
    proof (rule does_bind [OF does_answer], rule does_bind [OF does_answer])
      fix r r' :: nat
      obtain t where t: "tw_name_at junk (r mod 5) (r' mod 4) = Inr t" "arr_get t 0 = Inr (base_names ! (r' mod 4))"
        "copy_name t = (retP (base_names ! (r' mod 4), map (\<lambda>i. ''sub'' @ dec_of_nat i) [0..<r mod 5]) :: ('a, string \<times> string list) walk_prog)"
        using tw_name_copied [OF assms(4), of "r mod 5" "r' mod 4"] by auto
      show "does I (liftP (tw_name_at junk (r mod 5) (r' mod 4))) (\<lambda>t. \<exists>b ss. arr_get t 0 = Inr b \<and> copy_name t = (retP (b, ss) :: ('a, string \<times> string list) walk_prog))"
        by (intro does_lift [OF t(1)] exI conjI, rule t(2), rule t(3))
    qed
  next
    fix rate t assume "\<exists>b ss. arr_get t 0 = Inr b \<and> copy_name t = (retP (b, ss) :: ('a, string \<times> string list) walk_prog)"
    then obtain b ss where t: "arr_get t 0 = Inr b" "copy_name t = (retP (b, ss) :: ('a, string \<times> string list) walk_prog)" by blast
    have "r \<le> 2147483647 \<Longrightarrow> r div (2147483647 div 100) \<le> 100" for r :: nat by (simp add: div_le_mono less_Suc_eq_le [symmetric] div_less_iff_less_mult)
    then show "does I (bindP (copy_name t) (\<lambda>(base, subs). bindP (callW (tw_rand A)) (\<lambda>r.
     bindP (tw_choose A tok K (remaining_odds rate) (r div (tw_rand_max A div 100)) base subs t (tw_nest A R (tw_runProc n A R K junk (d + 1)) tok d)) (\<lambda>shutdown.
     retP (if shutdown then tw_afterexit A else 0))))) (\<lambda>s. s \<in> {0, tw_afterexit A})"
      unfolding t(2) retP_bind prod.case tw_calls(1) [OF assms(1)]
      by (intro does_call_then [where S = "\<lambda>r. r \<le> 2147483647"] tw_calls(2) [OF assms(1)] does_bind [OF nest [OF t(1)]] does_ret) auto
  qed
qed simp

section \<open>A database that answers\<close>

text \<open>The tree of the other program; the process ends for calls with the token 13, and \<open>q\<close> is what \<^verbatim>\<open>ydb_set_st\<close> and, with another
  value, \<^verbatim>\<open>ydb_data_st\<close> answer.\<close>

definition full_threads :: "int \<Rightarrow> nat \<Rightarrow> nat tw_api" where
  "full_threads q v = (let T = full_tree; s = \<lambda>tok s. if tok = 13 then 1007 else s in
     \<lparr>tw_ok = 0, tw_gvundef = 1001, tw_invsvn = 1002, tw_lvundef = 1003, tw_nodeend = 1004, tw_tplock = 1005, tw_invydbexit = 1006, tw_afterexit = 1007,
      tw_invtptrans = 1008, tw_notp = -1, tw_rand_max = 2147483647, tw_rand = wa_rand T, tw_getpid = wa_getpid T, tw_rate = (\<lambda>w. (double (1 / 10), w)),
      tw_set_rate = (\<lambda>q w. ((), w)), tw_is_timeout = (\<lambda>w. (1000 < w, w)), tw_threads = (\<lambda>w. (7, w)), tw_count = (\<lambda>k w. ((), w)),
      tw_create = (\<lambda>tok d w. ((0, w), w)), tw_join = (\<lambda>t w. (0, w)), tw_errtext = (\<lambda>w. (''text'', w)),
      tw_set = (\<lambda>tok b ss x w. (s tok q, w)), tw_get = (\<lambda>tok b ss n w. ((s tok 1001, []), w)), tw_data = (\<lambda>tok b ss w. ((s tok q, v), w)),
      tw_node = (\<lambda>tok. wa_node T), tw_sub = (\<lambda>tok. wa_sub T), tw_incr = (\<lambda>tok b ss v n w. ((s tok 0, v), w)), tw_lock = (\<lambda>tok ns w. (s tok 1005, w)),
      tw_lock_incr = (\<lambda>tok b ss w. (s tok 0, w)), tw_lock_decr = (\<lambda>tok b ss w. (s tok 0, w)),
      tw_str2zwr = (\<lambda>tok t n w. ((0, tw_zwr), w)), tw_zwr2str = (\<lambda>tok t n w. ((0, tw_plain), w)), tw_exit = (\<lambda>w. (-1006, w)), tw_init = (\<lambda>w. (0, w)),
      tw_message = (\<lambda>tok m n w. ((s tok 0, ''message''), w)), tw_delete_tree = (\<lambda>tok b ss w. (s tok 0, w)), tw_delete_node = (\<lambda>tok b ss w. (s tok 0, w)),
      tw_delete_excl = (\<lambda>tok ns w. (s tok 0, w)), tw_tp = (\<lambda>tok name f st. f (tok + 14) st)\<rparr>)"

lemma full_threads_calm: "tw_calm (full_threads 0 11) {} {}" "q \<noteq> 0 \<Longrightarrow> tw_calm (full_threads q x) {q} {x}"
proof -
  have r: "n mod 1000 \<le> (2147483647 :: nat)" for n using mod_less_divisor [of 1000 n] by linarith
  show "tw_calm (full_threads 0 11) {} {}" "q \<noteq> 0 \<Longrightarrow> tw_calm (full_threads q x) {q} {x}"
    unfolding tw_calm_def
    by (simp_all add: full_threads_def full_tree_def Let_def tw_answers_def tw_ends_def tw_undefs_def BASE_LEN_def SUB_LEN_def r) auto
qed

lemma full_threads_finite: "tw_finite (full_threads q x) 12"
proof -
  let ?rn = "\<lambda>fwd b ss. if fwd then 4 - length ss else if length ss < 5 then length ss else 0"
  let ?rs = "\<lambda>b ss. if length b < 11 then length b else (0 :: nat)"
  show ?thesis unfolding tw_finite_def
  proof (intro allI)
    fix tok fwd
    show "\<exists>rn rs. \<forall>b ss. rn b ss < 12 \<and> rs b ss < 12 \<and>
     (\<forall>w ss'. fst (tw_node (full_threads q x) tok fwd b ss 4 SUB_LEN w) = (tw_ok (full_threads q x), ss') \<longrightarrow> rn b ss' < (rn b ss :: nat)) \<and>
     (\<forall>w v. fst (tw_sub (full_threads q x) tok fwd b ss 16 w) = (tw_ok (full_threads q x), v) \<longrightarrow>
        (if ss = [] then rs v [] else rs b (butlast ss @ [v])) < (rs b ss :: nat))"
      by (rule exI [of _ "?rn fwd"], rule exI [of _ ?rs]) (auto simp: full_threads_def full_tree_def Let_def split: if_splits)
  qed
qed

lemma full_threads_tp: "tw_tp_ok (full_threads q x)"
  unfolding tw_tp_ok_def by (simp add: full_threads_def Let_def) blast

section \<open>The claims\<close>



section \<open>Requests for a restart\<close>

text \<open>A run that draws the first case is the call of \<^verbatim>\<open>ydb_set_st\<close>, and a restart is no more than reported.\<close>

lemma drawn_restart:
  assumes "tw_calm A Q V" "length junk = 32" "wk_world st = w1" "tw_rate A w1 = (rate, w2)" "tw_rand A w2 = (r1, w3)" "tw_rand A w3 = (r2, w4)"
    "tw_rand A w4 = (r3, w5)" "r3 div (2147483647 div 100) < 20"
    "fst (tw_set A tok (base_names ! (r2 mod 4)) (map (\<lambda>i. ''sub'' @ dec_of_nat i) [0..<r1 mod 5]) ''MySecretValue'' w5) = restart"
    "restart \<notin> {tw_ok A, tw_afterexit A} \<union> set (tw_undefs A)"
  obtains st' where "tw_runProc (Suc n) A R K junk d tok st = Inr (Inr 0, st')" "wk_events st' = wk_events st @ [Unexpected ''ydb_set_st'' restart]"
proof -
  obtain t where t: "tw_name_at junk (r1 mod 5) (r2 mod 4) = Inr t"
    "copy_name t = (retP (base_names ! (r2 mod 4), map (\<lambda>i. ''sub'' @ dec_of_nat i) [0..<r1 mod 5]) :: ('a, string \<times> string list) walk_prog)"
    using tw_name_copied [OF assms(2), of "r1 mod 5" "r2 mod 4"] by auto
  obtain w6 where w6: "tw_set A tok (base_names ! (r2 mod 4)) (map (\<lambda>i. ''sub'' @ dec_of_nat i) [0..<r1 mod 5]) ''MySecretValue'' w5 = (restart, w6)"
    using assms(9) by (metis prod.collapse)
  obtain x w7 where w7: "tw_errtext A w6 = (x, w7)" by fastforce
  have "calm_in (\<lambda>_ _. True) A Q V" using assms(1) by (simp add: calm_in_def)
  then have l: "length x < 2048" "tw_rand_max A = 2147483647" using tw_calls(25) [of _ A Q V w6] tw_calls(1) [of _ A Q V] w7 by simp_all
  show thesis
    by (rule that [of "st\<lparr>wk_world := w7, wk_events := wk_events st @ [Unexpected ''ydb_set_st'' restart]\<rparr>"])
      (use assms(3-8,10) w6 w7 l t in \<open>simp_all add: bindP_def thenP_def callW_def callP_def tw_genGlobalName_def retP_def liftP_def tw_choose_def
        tw_act_set_def tw_tolerate_def tw_report_def emit_def terminated_def\<close>)
qed

text \<open>C12. The first run of the function of a transaction draws the call of \<^verbatim>\<open>ydb_set_st\<close>, which asks for a restart of the transaction.  Then the
  function reports the status as unexpected, goes on with its other runs, and returns success, so that the database commits what it should
  try again.  The other program returns the status.\<close>

theorem restart_lost:
  assumes "tw_calm A Q V" "tw_finite A K" "tw_tp_ok A" "length junk = 32" "tw_max_depth R < Suc n + d" "d \<le> tw_max_depth R"
    "tw_rand A (wk_world st) = (r0, w0)" "r0 mod 20 \<noteq> 0" "tw_set_rate A (double (1 / 10)) w0 = ((), w1)"
    "tw_rate A w1 = (rate, w2)" "tw_rand A w2 = (r1, w3)" "tw_rand A w3 = (r2, w4)" "tw_rand A w4 = (r3, w5)" "r3 div (2147483647 div 100) < 20"
    "fst (tw_set A tok (base_names ! (r2 mod 4)) (map (\<lambda>i. ''sub'' @ dec_of_nat i) [0..<r1 mod 5]) ''MySecretValue'' w5) = restart"
    "restart \<in> Q" "restart \<notin> {tw_ok A, tw_afterexit A} \<union> set (tw_undefs A)"
  shows "\<exists>st' more. as_tpfn (tw_tpHelper A (tw_runProc (Suc n) A R K junk d) tok) st = Inr (0, st') \<and>
    wk_events st' = wk_events st @ Unexpected ''ydb_set_st'' restart # more"
proof -
  let ?run = "tw_runProc (Suc n) A R K junk d tok" and ?I = "\<lambda>_ es. \<exists>more. es = wk_events st @ Unexpected ''ydb_set_st'' restart # more"
  obtain st1 where st1: "?run (st\<lparr>wk_world := w1\<rparr>) = Inr (Inr 0, st1)" "wk_events st1 = wk_events st @ [Unexpected ''ydb_set_st'' restart]"
    using drawn_restart [OF assms(1,4) _ assms(10-15,17), of "st\<lparr>wk_world := w1\<rparr>" n R K d] by auto
  have "calm_in ?I A Q V" unfolding calm_in_def using assms(1) by auto
  then have "does ?I ?run (\<lambda>s. s \<in> {0, tw_afterexit A})" by (rule does_tw_run [OF _ assms(2-6)])
  then have "does ?I (tw_turns A ?run m) (\<lambda>s. s = 0)" for m by (rule does_tw_turns)
  moreover have "?I (wk_rate st1) (wk_events st1)" using st1(2) by simp
  ultimately have "wpP (tw_turns A ?run m) (\<lambda>x st'. x = 0 \<and> ?I (wk_rate st') (wk_events st')) (\<lambda>_ _. False) st1" for m unfolding does_def by blast
  then obtain s st' where st': "tw_turns A ?run (r0 mod 20 - 1) st1 = Inr (Inr s, st')" "s = 0 \<and> ?I (wk_rate st') (wk_events st')" by (rule wpP_total)
  obtain k where k: "r0 mod 20 = Suc k" using assms(8) not0_implies_Suc by blast
  have "as_tpfn (tw_tpHelper A (tw_runProc (Suc n) A R K junk d) tok) st = Inr (0, st')"
    using assms(7,9) st1(1) st' by (simp add: as_tpfn_def tw_tpHelper_def bindP_def thenP_def callW_def callP_def k del: tw_runProc.simps)
  then show ?thesis using st'(2) by blast
qed

theorem restart_lost_witness:
  "\<exists>st' more. as_tpfn (tw_tpHelper (full_threads 1000 12) (tw_runProc 3 (full_threads 1000 12)
         \<lparr>tw_max_depth = 2, tw_max_threads = 5, tw_to_make = 3, tw_ydb464 = False\<rparr> 12 (replicate 32 (CHR ''x'')) 1) 99)
       \<lparr>wk_world = 1, wk_rate = 0, wk_events = []\<rparr> = Inr (0, st') \<and> wk_events st' = Unexpected ''ydb_set_st'' 1000 # more"
proof -
  have "(1000 :: int) \<noteq> 0" by simp
  from full_threads_calm(2) [OF this] have c: "tw_calm (full_threads 1000 12) {1000} {12}" .
  let ?A = "full_threads 1000 12"
  have A: "tw_rand ?A w = (w mod 1000, w + 37)" "tw_set_rate ?A q w = ((), w)" "tw_rate ?A w = (double (1 / 10), w)"
    "tw_set ?A tok b ss v w = (if tok = 13 then 1007 else 1000, w)" "tw_ok ?A = 0" "tw_afterexit ?A = 1007" "tw_undefs ?A = [1001, 1002, 1003]"
    for w q tok b ss v by (simp_all add: full_threads_def full_tree_def Let_def tw_undefs_def)
  have d: "(1 :: nat) mod 20 \<noteq> 0" "112 div (2147483647 div 100) < (20 :: nat)" by simp_all
  let ?R = "\<lparr>tw_max_depth = 2, tw_max_threads = 5, tw_to_make = 3, tw_ydb464 = False\<rparr>" and ?st = "\<lparr>wk_world = 1 :: nat, wk_rate = 0, wk_events = []\<rparr>"
  have "\<exists>st' more. as_tpfn (tw_tpHelper ?A (tw_runProc (Suc 2) ?A ?R 12 (replicate 32 (CHR ''x'')) 1) 99) ?st = Inr (0, st') \<and>
      wk_events st' = wk_events ?st @ Unexpected ''ydb_set_st'' 1000 # more"
    by (rule restart_lost [OF c full_threads_finite full_threads_tp, where ?r0.0 = 1 and ?w0.0 = 38 and ?w1.0 = 38 and ?w2.0 = 38 and ?r1.0 = 38 and ?w3.0 = 75
      and ?r2.0 = 75 and ?w4.0 = 112 and ?r3.0 = 112 and ?w5.0 = 149 and rate = "double (1 / 10)" and restart = 1000])
      (simp_all add: A d)
  moreover have "Suc 2 = 3" "wk_events ?st = []" by simp_all
  ultimately show ?thesis by (simp only: append_Nil)
qed

end
