(* ===== verification/Spec2Isabelle.thy ===== *)
theory Spec2Isabelle
  imports Col_Byte_Order Col_Polish Col_Unicode Env_Xlate_Service Pseudo_Bank Crc_Table Imptp_Params Imptp_Wait Imptp_Threaded Threen1f_Totals Stress_Results Murmur_Mixing Murmur_Edges Hash_Test_Claims Random_Walk_Thread_Claims
begin

text \<open>
  A verification library for the C code of the YottaDB test system.

  The repository tests the YottaDB database.  Its C files are libraries that the database loads (collations,
  the translation of environments and global directories), workload programs that run against the
  database over its C interface, and small drivers of single features.  The library models the first
  two kinds; what each component promises is proved of definitions that follow the source.

  \<^bold>\<open>Conventions.\<close>  Bytes are \<open>8 word\<close>, C integers are \<open>int\<close> with the range checked where the source can
  leave it (\<open>int_of\<close>), strings are character lists.  An assertion that fails, a null pointer, an
  access outside an object or a signed overflow is a value of \<open>c_fault\<close>, so that a property that a function
  returns also says that it does none of these.  The database (\<^verbatim>\<open>libyottadb\<close>), \<^verbatim>\<open>iconv\<close>, the file
  system, the network and the M routines are not C files of the repository: they are parameters, and what the code relies on
  is a named predicate with an instance that satisfies it.  Everything is in \<open>Prelude\<close>, with the C library
  functions that the source calls.

  \<^bold>\<open>Collations\<close> (\<^verbatim>\<open>com/col_*.c\<close>, \<^verbatim>\<open>longstr/inref\<close>, \<^verbatim>\<open>collation/u_inref\<close>, \<^verbatim>\<open>merge/u_inref\<close>, \<^verbatim>\<open>v62000/inref\<close>).  \<open>Collation_Core\<close>
  has the descriptors and the table loops, and the locale of a table collation, which
  \<open>Col_Byte_Order\<close> and \<open>Col_Polish\<close> interpret on the tables of their files; \<open>Col_Complex\<close> and \<open>Col_Unicode\<close> hold the
  collations that do not translate byte by byte.  The lemmas show that \<^verbatim>\<open>gtm_ac_xback\<close> inverts \<^verbatim>\<open>gtm_ac_xform\<close>, which
  order of whole texts results for the digits, the neighbours of \<^verbatim>\<open>gtm_ac_xutil\<close>, and where a length check lets a byte be written too far.

  \<^bold>\<open>Environment translation\<close> (\<^verbatim>\<open>env_xlate/inref/gtm_env_xlate_sq.c\<close>).  \<open>Linked_Tree\<close> is the search tree of nodes in a
  heap, as a locale; \<open>Env_Xlate\<close> has the file's functions in its order, with the two trees of hosts
  and of directories; \<open>Env_Xlate_Correct\<close> interprets the locale on both and proves the invariant
  of the tables; \<open>Env_Xlate_Service\<close> shows what a caller of \<^verbatim>\<open>gtm_env_xlate\<close> sees.  The walks over the trees
  are partial functions, and that every call returns is a theorem.

  \<^bold>\<open>Check sums\<close> (\<^verbatim>\<open>v55000/inref/comp_tab.c\<close>).  \<open>Crc_Table\<close> has the generator of the tables and shows that their
  entries are remainders under the polynomial of CRC-32C, defined by division, and that the tables do four bytes at a time.

  \<^bold>\<open>The bank\<close> (\<^verbatim>\<open>simpleapi/inref/pseudoBank.c\<close>, \<^verbatim>\<open>simplethreadapi/inref/pseudoBank.c\<close>).  \<open>Ydb_Api\<close> has the database as a parameter and its
  laws; \<open>Pseudo_Bank\<close> the accounts, the records and the transfer, with the conservation of the sum of the
  balances over any sequence of committed transfers, and the differences of the threaded program.

  \<^bold>\<open>The database fill\<close> (\<^verbatim>\<open>com/simpleapi_imptp.c\<close>, \<^verbatim>\<open>com/simplethreadapi_imptp.c\<close>).  \<open>Prog\<close> has runs that fault, leave
  or go on, with weakest preconditions of total correctness; \<open>Imptp_Index\<close> the walk through the powers of a primitive root;
  \<open>Imptp\<close> the job, \<open>Imptp_Parent\<close> the parent; \<open>Imptp_Correct\<close> the laws of the database and the rules for the parts of the
  program.  \<open>Imptp_Job\<close> shows that a transaction without triggers commits what the commands of \<^verbatim>\<open>com/imptp.m\<close>, the program in M that this one follows,
  set, and that a job ends; \<open>Imptp_Params\<close> that the jobs read what the parent
  wrote, \<open>Imptp_Wait\<close> when the parent stops waiting, \<open>Imptp_Threaded\<close> what the threaded program does where the process ends.  The waits
  have a bound on their turns as an argument, and the property about them quantifies over it.

  \<^bold>\<open>The 3n+1 problem\<close> (\<^verbatim>\<open>v62002/inref/simpleapi_threeen1f.c\<close>, \<^verbatim>\<open>v62002/inref/simplethreadapi_threeen1f.c\<close>).  Processes or threads compute
  together, and the database changes between the calls of one: \<open>Shared_Db\<close> has the laws of such a database, with what a process
  relies on of the others and guarantees to them, \<open>Solo_Db\<close> an instance.  \<open>Threen1f\<close> has the numbers spelled in words and
  \<^verbatim>\<open>dostep\<close>, \<open>Threen1f_Run\<close> the blocks, the children, the totals and the lines.  \<open>Threen1f_Spell\<close> has the rules for the words,
  \<open>Threen1f_Steps\<close> the relation on the table of steps that every process keeps, \<open>Threen1f_Dostep\<close> and \<open>Threen1f_Loop\<close> the rules for a
  number and for a block, in the locale of the counts, which \<open>Threen1f_Correct\<close> interprets on those of the processes and of the
  threads.  \<open>Threen1f_Blocks\<close> shows how the interval is divided, \<open>Threen1f_Claims\<close> and \<open>Threen1f_Results\<close> that the blocks are worked
  through, as long as the counts of the blocks stay below \<open>2 ^ 31 - 1\<close>, and what the result is, \<open>Threen1f_Totals\<close> what the statistics and the next line make of it.  Whether every number reaches
  1 is open: the properties are about numbers that do so within \<open>K\<close> steps and below ten to the thirteenth, whose words fit the
  buffer, and \<open>K\<close> turns of fuel are enough for these.

  \<^bold>\<open>The stress workload\<close> (\<^verbatim>\<open>stress/inref/simpleapi_run_concurr.c\<close>, \<^verbatim>\<open>stress/inref/simplethreadapi_run_concurr.c\<close>).  \<open>Stress\<close> has the parent, the
  ten jobs, their transactions and the three acts on the nodes of an iteration, which are killed, set and verified; the calls
  of a job are a function of the token of the transaction, which is constant for the program without tokens.
  \<open>Stress_Rules\<close> states what a call does inside a transaction, inside a last try and outside of both, with rules for the parts of a turn;
  \<open>Stress_Fill\<close> has the parameters of a run, what a job relies on and guarantees, and the walk of the index through all the residues;
  \<open>Stress_Acts\<close> the turns of an act, \<open>Stress_Tx\<close> the transaction, \<open>Stress_Job\<close> and \<open>Stress_Run\<close> the turns of a job and the job as a whole, and
  \<open>Stress_Results\<close> that a job ends and what it leaves, that each of the ten does so while the nine others change what they guarantee to change, and when the
  parent goes on.  The laws of
  \<^verbatim>\<open>ydb_tp_s\<close> say that the function is tried until it does not ask for a restart, that a restart restores the globals and
  leaves the local variables as they are, but for those that are named, and that a rollback leaves no global changed.  That
  \<^verbatim>\<open>write\<close> succeeds is a law of the texts of a run without failures only, so that a job that ends has reported none.  The wait of the
  parent has fuel, which its property quantifies over.

  \<^bold>\<open>Hashes\<close> (\<^verbatim>\<open>v62002/inref/gtm8087xcalls2.c\<close>).  \<open>Murmur\<close> has the three functions that hash a whole text, \<open>Murmur_Progressive\<close> the one that
  takes it in pieces, with its macros, and the hash as bytes and as digits.  The platform is an argument: its byte order, whether words can
  be read at any address, and which definition of \<^verbatim>\<open>UI64_TO_LE\<close> its compiler gets; a word at an address that the platform does not
  allow is a fault.  \<^verbatim>\<open>malloc\<close> and the initial state, whose macro is not in the repository, are parameters with the laws \<open>malloc_ok\<close> and
  \<open>init_ok\<close>; \<open>coherent\<close> says that the byte swap has an effect where the platform needs it.  \<open>Murmur_Words\<close> has words as the bytes that
  they are made of, \<open>Murmur_Carry\<close> the hash as a function of a list of bytes, and the locale of a byte order, with which the macros of both
  orders are shown to carry the bytes that do not fill a block; \<open>Murmur_Results\<close> that the functions compute this hash, \<open>Murmur_Claims\<close> that the
  pieces, the platform and the address do not matter, \<open>Murmur_Mixing\<close> that every step of the mixing can be undone, and \<open>Murmur_Edges\<close> where
  the code does otherwise.  Lengths are natural numbers, below \<open>2 ^ 30\<close> where the code doubles them.

  \<^bold>\<open>The test of the hashes\<close> (\<^verbatim>\<open>v62001/inref/hash.c\<close>).  \<open>Hash_Test\<close> has the program, whose hash functions and MD5 sums are an argument, and
  the copy of the hash functions of the repository as one value of it; the random bytes are a list.  \<open>Hash_Test_Rules\<close> has the rules for the
  three parts of a test, \<open>Hash_Test_Stable\<close> evaluates the hashes of the constant texts, and \<open>Hash_Test_Claims\<close> shows that the copy passes.
  A run that has used up the random bytes is out of fuel: 201722880 bytes that are not zero are enough for the whole program, three for each
  byte of a text.

  \<^bold>\<open>The random walk\<close> (\<^verbatim>\<open>simpleapi/inref/randomWalk.c\<close>, \<^verbatim>\<open>simplethreadapi/inref/randomWalk.c\<close>).  \<open>Random_Walk\<close> has one run of the program for
  processes: the names in their buffer with the pointers into it, the odds as numbers of the precision in which C computes them, the actions, and the
  transactions, whose nesting is bounded by fuel; \<open>Random_Walk_Threaded\<close> a run of one thread, for which the other threads are part of the
  world.  The random numbers, the database and the system are functions of the world, and what is written is a list of events.
  \<open>Random_Walk_Rules\<close> has the laws of a database that answers as it should and the rules for programs that keep what is written,
  \<open>Random_Walk_Acts\<close> and \<open>Random_Walk_Thread_Claims\<close> those for the actions; \<open>Random_Walk_Claims\<close> and the latter show that a run ends, whatever
  is drawn, with nothing reported, in a thread with nothing but requests for a restart and stray values after an error, and where transactions
  end or commit otherwise than they should.  The walks over nodes and subscripts
  have \<open>K\<close> turns of fuel, which is enough where the database has fewer steps to the end.

  \<^bold>\<open>Not modelled.\<close>  Output, files and time stamps of the workload programs, signals, and how processes and threads are created, timed and
  ended by \<^verbatim>\<open>main\<close> of the random walk; the VMS
  branches and the stand-alone \<^verbatim>\<open>main\<close> of the translation; the drivers of single features, which call one function of the
  database each and print what it returns; and the measurement of the speed of the hash functions.
\<close>

end
